(* ===== verification/Prelude.thy ===== *)
theory Prelude
  imports "HOL-Library.Word" "HOL-Library.Signed_Division"
begin

text \<open>
  What every component of the development shares: the machine integers of the Go source,
  the result type of a Go call (a value, an error or a run-time panic), checked slice
  operations, and the list and word lemmas that carry the component proofs.

  Go's \<^verbatim>\<open>int\<close> is modelled as \<open>int\<close> (its values in the modelled code are lengths,
  cursors and sample counts far below 2^63); \<^verbatim>\<open>uint8\<close>, \<^verbatim>\<open>uint16\<close>, \<^verbatim>\<open>uint32\<close> and
  \<^verbatim>\<open>uint64\<close> are words of that width, so their arithmetic wraps as in Go.  Go's integer
  division and remainder truncate towards zero: \<open>sdiv\<close> and \<open>smod\<close>.
\<close>

unbundle bit_operations_syntax

type_synonym u8 = "8 word"
type_synonym u16 = "16 word"
type_synonym u32 = "32 word"
type_synonym u64 = "64 word"
type_synonym bytes = "8 word list"

named_theorems res_simps \<open>evaluation of calls that may fail or panic\<close>

section \<open>Results of Go calls\<close>

text \<open>A call returns a value, returns an error, or panics (an index or slice out of range).\<close>

datatype ('e, 'a) res = Ok 'a | Err 'e | Panic

fun bnd :: "('e, 'a) res \<Rightarrow> ('a \<Rightarrow> ('e, 'b) res) \<Rightarrow> ('e, 'b) res" where
  "bnd (Ok x) f = f x"
| "bnd (Err e) f = Err e"
| "bnd Panic f = Panic"

lemma bnd_eq_Ok: "bnd m f = Ok y \<longleftrightarrow> (\<exists>x. m = Ok x \<and> f x = Ok y)"
  by (cases m) auto

lemma bnd_eq_Err: "bnd m f = Err e \<longleftrightarrow> m = Err e \<or> (\<exists>x. m = Ok x \<and> f x = Err e)"
  by (cases m) auto

lemma bnd_eq_Panic: "bnd m f = Panic \<longleftrightarrow> m = Panic \<or> (\<exists>x. m = Ok x \<and> f x = Panic)"
  by (cases m) auto

lemma bnd_cong [fundef_cong]:
  "m = m' \<Longrightarrow> (\<And>x. m' = Ok x \<Longrightarrow> f x = g x) \<Longrightarrow> bnd m f = bnd m' g"
  by (cases m') auto

lemma bnd_assoc: "bnd (bnd m f) g = bnd m (\<lambda>x. bnd (f x) g)"
  by (cases m) simp_all

lemma bnd_case_prod: "bnd (case p of (x, y) \<Rightarrow> f x y) g = (case p of (x, y) \<Rightarrow> bnd (f x y) g)"
  by (cases p) simp

lemmas bnd_iffs = bnd_eq_Ok bnd_eq_Err bnd_eq_Panic

section \<open>Slices\<close>

text \<open>\<^verbatim>\<open>len(xs)\<close>\<close>
abbreviation len :: "'a list \<Rightarrow> int" where
  "len xs \<equiv> int (length xs)"

text \<open>\<^verbatim>\<open>xs[i]\<close>, \<^verbatim>\<open>xs[i] = v\<close>, \<^verbatim>\<open>xs[a:b]\<close> and \<^verbatim>\<open>xs[a:]\<close>: out of range panics.\<close>

definition idx :: "'a list \<Rightarrow> int \<Rightarrow> ('e, 'a) res" where
  "idx xs i = (if 0 \<le> i \<and> i < len xs then Ok (xs ! nat i) else Panic)"

definition upd :: "'a list \<Rightarrow> int \<Rightarrow> 'a \<Rightarrow> ('e, 'a list) res" where
  "upd xs i v = (if 0 \<le> i \<and> i < len xs then Ok (xs[nat i := v]) else Panic)"

definition slice :: "'a list \<Rightarrow> int \<Rightarrow> int \<Rightarrow> ('e, 'a list) res" where
  "slice xs a b = (if 0 \<le> a \<and> a \<le> b \<and> b \<le> len xs
     then Ok (take (nat (b - a)) (drop (nat a) xs)) else Panic)"

definition slice_from :: "'a list \<Rightarrow> int \<Rightarrow> ('e, 'a list) res" where
  "slice_from xs a = slice xs a (len xs)"

text \<open>\<^verbatim>\<open>copy(xs[i:], ys)\<close>: as many elements as fit are written.\<close>

definition copy_at :: "'a list \<Rightarrow> int \<Rightarrow> 'a list \<Rightarrow> ('e, 'a list) res" where
  "copy_at xs i ys = (if 0 \<le> i \<and> i \<le> len xs
     then Ok (take (nat i) xs @ take (length xs - nat i) ys
              @ drop (nat i + length ys) xs) else Panic)"

lemma idx_Ok [res_simps]: "0 \<le> i \<Longrightarrow> i < len xs \<Longrightarrow> idx xs i = Ok (xs ! nat i)"
  by (simp add: idx_def)

lemma upd_Ok [res_simps]: "0 \<le> i \<Longrightarrow> i < len xs \<Longrightarrow> upd xs i v = Ok (xs[nat i := v])"
  by (simp add: upd_def)

lemma slice_Ok [res_simps]:
  "0 \<le> a \<Longrightarrow> a \<le> b \<Longrightarrow> b \<le> len xs \<Longrightarrow> slice xs a b = Ok (take (nat (b - a)) (drop (nat a) xs))"
  by (simp add: slice_def)

lemma slice_from_Ok [res_simps]:
  "0 \<le> a \<Longrightarrow> a \<le> len xs \<Longrightarrow> slice_from xs a = Ok (drop (nat a) xs)"
  by (simp add: slice_from_def slice_def)

lemma idx_not_Err [simp]: "idx xs i \<noteq> Err e"
  by (simp add: idx_def)

lemma upd_not_Err [simp]: "upd xs i v \<noteq> Err e"
  by (simp add: upd_def)

lemma slice_not_Err [simp]: "slice xs a b \<noteq> Err e"
  by (simp add: slice_def)

lemma slice_from_not_Err [simp]: "slice_from xs a \<noteq> Err e"
  by (simp add: slice_from_def)

lemma idx_eq_Ok: "idx xs i = Ok v \<longleftrightarrow> 0 \<le> i \<and> i < len xs \<and> v = xs ! nat i"
  by (auto simp: idx_def)

lemma upd_eq_Ok: "upd xs i v = Ok ys \<longleftrightarrow> 0 \<le> i \<and> i < len xs \<and> ys = xs[nat i := v]"
  by (auto simp: upd_def)

lemma slice_eq_Ok: "slice xs a b = Ok ys \<longleftrightarrow>
    0 \<le> a \<and> a \<le> b \<and> b \<le> len xs \<and> ys = take (nat (b - a)) (drop (nat a) xs)"
  by (auto simp: slice_def)

lemma slice_from_eq_Ok: "slice_from xs a = Ok ys \<longleftrightarrow> 0 \<le> a \<and> a \<le> len xs \<and> ys = drop (nat a) xs"
  by (auto simp: slice_from_def slice_def)

lemma copy_at_Ok:
  "0 \<le> i \<Longrightarrow> nat i + length ys \<le> length xs \<Longrightarrow>
   copy_at xs i ys = Ok (take (nat i) xs @ ys @ drop (nat i + length ys) xs)"
  by (simp add: copy_at_def)

lemma length_copy_at: "copy_at xs i ys = Ok zs \<Longrightarrow> length zs = length xs"
  by (auto simp: copy_at_def split: if_splits)

section \<open>What a call guarantees\<close>

text \<open>
  \<open>sat m E Q\<close>: the call does not panic, a value it returns satisfies \<open>Q\<close>, an error it
  returns satisfies \<open>E\<close>.  The equations below turn it into verification conditions.
\<close>

definition sat :: "('e, 'a) res \<Rightarrow> ('e \<Rightarrow> bool) \<Rightarrow> ('a \<Rightarrow> bool) \<Rightarrow> bool" where
  "sat m E Q \<longleftrightarrow> (case m of Ok x \<Rightarrow> Q x | Err e \<Rightarrow> E e | Panic \<Rightarrow> False)"

lemma sat_Ok [simp]: "sat (Ok x) E Q = Q x"
  and sat_Err [simp]: "sat (Err e) E Q = E e"
  and sat_Panic [simp]: "sat Panic E Q = False"
  by (simp_all add: sat_def)

lemma sat_bnd [simp]: "sat (bnd m f) E Q = sat m E (\<lambda>x. sat (f x) E Q)"
  by (cases m) simp_all

lemma sat_if: "sat (if b then m else m') E Q = ((b \<longrightarrow> sat m E Q) \<and> (\<not> b \<longrightarrow> sat m' E Q))"
  by simp

lemma sat_idx [simp]: "sat (idx xs i) E Q \<longleftrightarrow> 0 \<le> i \<and> i < len xs \<and> Q (xs ! nat i)"
  by (auto simp: idx_def)

lemma sat_upd [simp]: "sat (upd xs i v) E Q \<longleftrightarrow> 0 \<le> i \<and> i < len xs \<and> Q (xs[nat i := v])"
  by (auto simp: upd_def)

lemma sat_slice [simp]: "sat (slice xs a b) E Q \<longleftrightarrow>
    0 \<le> a \<and> a \<le> b \<and> b \<le> len xs \<and> Q (take (nat (b - a)) (drop (nat a) xs))"
  by (auto simp: slice_def)

lemma sat_slice_from [simp]: "sat (slice_from xs a) E Q \<longleftrightarrow>
    0 \<le> a \<and> a \<le> len xs \<and> Q (drop (nat a) xs)"
  by (auto simp: slice_from_def slice_def)

lemma sat_mono: "sat m E Q \<Longrightarrow> (\<And>x. m = Ok x \<Longrightarrow> Q x \<Longrightarrow> Q' x) \<Longrightarrow> sat m E Q'"
  by (cases m) simp_all

lemma sat_conseq:
  "sat m E Q \<Longrightarrow> (\<And>e. E e \<Longrightarrow> E' e) \<Longrightarrow> (\<And>x. m = Ok x \<Longrightarrow> Q x \<Longrightarrow> Q' x) \<Longrightarrow> sat m E' Q'"
  by (cases m) simp_all

lemma sat_OkD: "sat m E Q \<Longrightarrow> m = Ok x \<Longrightarrow> Q x"
  by simp

lemma sat_not_Panic: "sat m E Q \<Longrightarrow> m \<noteq> Panic"
  by auto

section \<open>Words and bytes\<close>

lemma uint_u8_lt: "uint (b :: u8) < 256"
  using uint_lt2p [of b] by simp

lemma uint_u8_le: "uint (b :: u8) \<le> 255"
  using uint_u8_lt [of b] by linarith

lemma unat_u8_lt: "unat (b :: u8) < 256"
  using unsigned_less [of b, where 'a = nat] by simp

lemma uint_word_of_int_u8: "0 \<le> i \<Longrightarrow> i < 256 \<Longrightarrow> uint (word_of_int i :: u8) = i"
  by (simp add: uint_word_of_int take_bit_int_eq_self)

lemma u8_less_iff: "(a :: u8) < b \<longleftrightarrow> uint a < uint b"
  by (simp add: word_less_def)

text \<open>Masking with an all-ones constant is a remainder, on words and on \<open>int\<close>.\<close>

lemma int_and_mask:
  fixes a :: int
  shows "a AND 1 = a mod 2" "a AND 3 = a mod 4" "a AND 63 = a mod 64" "a AND 255 = a mod 256"
proof -
  have "a AND mask n = a mod 2 ^ n" for n
    by (metis take_bit_eq_mask take_bit_int_def)
  from this [of 1] this [of 2] this [of 6] this [of 8]
  show "a AND 1 = a mod 2" "a AND 3 = a mod 4" "a AND 63 = a mod 64" "a AND 255 = a mod 256"
    by (simp_all add: mask_eq_exp_minus_1)
qed

lemma uint_and_u8:
  fixes b :: u8
  shows "uint (b AND 3) = uint b mod 4" "uint (b AND 63) = uint b mod 64"
  by (simp_all add: uint_and int_and_mask)

section \<open>Facts for all 256 bytes\<close>

text \<open>A statement about every byte follows from its evaluation on the list of all bytes.\<close>

definition nibbles :: "u8 list" where
  "nibbles = [0, 1, 2, 3, 4, 5, 6, 7, 8, 9, 10, 11, 12, 13, 14, 15]"

definition all_bytes :: "u8 list" where
  "all_bytes = concat (map (\<lambda>h. map (\<lambda>l. 16 * h + l) nibbles) nibbles)"

lemma in_nibbles: "x < 16 \<Longrightarrow> x \<in> set nibbles"
proof -
  assume "x < 16"
  then have "unat x < 16" by (simp add: word_less_nat_alt)
  then have "unat x = 0 \<or> unat x = 1 \<or> unat x = 2 \<or> unat x = 3 \<or> unat x = 4 \<or> unat x = 5
      \<or> unat x = 6 \<or> unat x = 7 \<or> unat x = 8 \<or> unat x = 9 \<or> unat x = 10 \<or> unat x = 11
      \<or> unat x = 12 \<or> unat x = 13 \<or> unat x = 14 \<or> unat x = 15" by arith
  then show ?thesis by (simp add: nibbles_def word_unat_eq_iff)
qed

lemma in_all_bytes: "b \<in> set all_bytes"
proof -
  have "b = 16 * (b div 16) + b mod 16" by (rule mult_div_mod_eq [symmetric])
  moreover have "b div 16 < 16"
    using unat_u8_lt [of b] by (simp add: word_less_nat_alt unat_div less_mult_imp_div_less)
  moreover have "b mod 16 < 16" by (simp add: word_mod_less_divisor)
  ultimately show ?thesis unfolding all_bytes_def using in_nibbles by fastforce
qed

lemma all_bytesI: "list_all P all_bytes \<Longrightarrow> P b"
  using in_all_bytes by (auto simp: list_all_iff)

section \<open>Truncating division\<close>

lemma sdiv_nonneg: "0 \<le> a \<Longrightarrow> 0 < b \<Longrightarrow> a sdiv b = a div b" for a b :: int
  by (cases "a = 0") (simp_all add: signed_divide_int_def)

lemma smod_nonneg: "0 \<le> a \<Longrightarrow> 0 < b \<Longrightarrow> a smod b = a mod b" for a b :: int
  by (cases "a = 0") (simp_all add: signed_modulo_int_def)

section \<open>Lists\<close>

lemma take_drop_append_split:
  "n \<le> length xs \<Longrightarrow> xs = take n xs @ drop n xs"
  by simp

lemma length_concat_eq: "length (concat xss) = sum_list (map length xss)"
  by (simp add: length_concat)

lemma list_split4: "xs = take a xs @ take b (drop a xs) @ take c (drop (a + b) xs) @ drop (a + b + c) xs"
  by (metis add.commute append_take_drop_id drop_drop)

end
