(* ===== verification/Toc.thy ===== *)
theory Toc
  imports Prelude
begin

text \<open>
  The table-of-contents byte of an Opus packet (\<^verbatim>\<open>internal/packet/toc.go\<close>): its
  accessors, the samples per frame at a rate, and the names of the enumerations.
  \<^verbatim>\<open>Mode\<close> and \<^verbatim>\<open>Bandwidth\<close> are Go \<^verbatim>\<open>uint8\<close> types whose \<^verbatim>\<open>String\<close> methods have a
  default branch, so they are bytes with named constants.
\<close>

section \<open>Enumerations\<close>

type_synonym Mode = u8
type_synonym Bandwidth = u8
type_synonym FrameDuration = int

definition ModeSILKOnly :: Mode where "ModeSILKOnly = 0"
definition ModeHybrid :: Mode where "ModeHybrid = 1"
definition ModeCELTOnly :: Mode where "ModeCELTOnly = 2"

definition BandwidthNarrowband :: Bandwidth where "BandwidthNarrowband = 0"
definition BandwidthMediumband :: Bandwidth where "BandwidthMediumband = 1"
definition BandwidthWideband :: Bandwidth where "BandwidthWideband = 2"
definition BandwidthSuperwideband :: Bandwidth where "BandwidthSuperwideband = 3"
definition BandwidthFullband :: Bandwidth where "BandwidthFullband = 4"

lemmas mode_defs = ModeSILKOnly_def ModeHybrid_def ModeCELTOnly_def
lemmas bandwidth_defs = BandwidthNarrowband_def BandwidthMediumband_def BandwidthWideband_def
  BandwidthSuperwideband_def BandwidthFullband_def

text \<open>\<^verbatim>\<open>strconv.Itoa\<close>\<close>

fun digits :: "nat \<Rightarrow> string" where
  "digits n = (if n < 10 then [char_of (48 + n)] else digits (n div 10) @ [char_of (48 + n mod 10)])"

definition itoa :: "int \<Rightarrow> string" where
  "itoa i = (if i < 0 then CHR ''-'' # digits (nat (- i)) else digits (nat i))"

definition Mode_String :: "Mode \<Rightarrow> string" where
  "Mode_String m =
     (if m = ModeSILKOnly then ''SILK''
      else if m = ModeHybrid then ''Hybrid''
      else if m = ModeCELTOnly then ''CELT''
      else ''Mode('' @ itoa (uint m) @ '')'')"

definition Bandwidth_String :: "Bandwidth \<Rightarrow> string" where
  "Bandwidth_String b =
     (if b = BandwidthNarrowband then ''NB''
      else if b = BandwidthMediumband then ''MB''
      else if b = BandwidthWideband then ''WB''
      else if b = BandwidthSuperwideband then ''SWB''
      else if b = BandwidthFullband then ''FB''
      else ''Bandwidth('' @ itoa (uint b) @ '')'')"

definition FrameDuration2500us :: FrameDuration where "FrameDuration2500us = 2500"
definition FrameDuration5ms :: FrameDuration where "FrameDuration5ms = 5000"
definition FrameDuration10ms :: FrameDuration where "FrameDuration10ms = 10000"
definition FrameDuration20ms :: FrameDuration where "FrameDuration20ms = 20000"
definition FrameDuration40ms :: FrameDuration where "FrameDuration40ms = 40000"
definition FrameDuration60ms :: FrameDuration where "FrameDuration60ms = 60000"

lemmas duration_defs = FrameDuration2500us_def FrameDuration5ms_def FrameDuration10ms_def
  FrameDuration20ms_def FrameDuration40ms_def FrameDuration60ms_def

definition Microseconds :: "FrameDuration \<Rightarrow> int" where
  "Microseconds d = d"

definition FrameDuration_String :: "FrameDuration \<Rightarrow> string" where
  "FrameDuration_String d =
     (let whole = d sdiv 1000; frac = (d smod 1000) sdiv 100
      in if frac = 0 then itoa whole @ ''ms''
         else itoa whole @ ''.'' @ itoa frac @ ''ms'')"

section \<open>The TOC byte\<close>

record TOC =
  toc_b :: u8

definition ParseTOC :: "u8 \<Rightarrow> TOC" where
  "ParseTOC b = \<lparr>toc_b = b\<rparr>"

definition TOC_Byte :: "TOC \<Rightarrow> u8" where
  "TOC_Byte t = toc_b t"

definition TOC_Config :: "TOC \<Rightarrow> u8" where
  "TOC_Config t = drop_bit 3 (toc_b t)"

definition TOC_Mode :: "TOC \<Rightarrow> Mode" where
  "TOC_Mode t =
     (if toc_b t AND 0x80 \<noteq> 0 then ModeCELTOnly
      else if toc_b t AND 0x60 = 0x60 then ModeHybrid
      else ModeSILKOnly)"

definition TOC_Bandwidth :: "TOC \<Rightarrow> Bandwidth" where
  "TOC_Bandwidth t =
     (if toc_b t AND 0x80 \<noteq> 0 then
        let bw = BandwidthMediumband + (drop_bit 5 (toc_b t) AND 3)
        in if bw = BandwidthMediumband then BandwidthNarrowband else bw
      else if toc_b t AND 0x60 = 0x60 then
        (if toc_b t AND 0x10 \<noteq> 0 then BandwidthFullband else BandwidthSuperwideband)
      else BandwidthNarrowband + (drop_bit 5 (toc_b t) AND 3))"

text \<open>\<^verbatim>\<open>fs << shift\<close> is multiplication by a power of two; \<^verbatim>\<open>/\<close> truncates.\<close>

definition samplesPerFrame :: "u8 \<Rightarrow> int \<Rightarrow> int" where
  "samplesPerFrame toc fs =
     (if toc AND 0x80 \<noteq> 0 then
        let shift = unat (drop_bit 3 toc AND 3) in (push_bit shift fs) sdiv 400
      else if toc AND 0x60 = 0x60 then
        (if toc AND 0x08 \<noteq> 0 then fs sdiv 50 else fs sdiv 100)
      else
        let shift = unat (drop_bit 3 toc AND 3)
        in if shift = 3 then (fs * 60) sdiv 1000 else (push_bit shift fs) sdiv 100)"

definition TOC_SamplesPerFrame :: "TOC \<Rightarrow> int \<Rightarrow> int" where
  "TOC_SamplesPerFrame t fs = samplesPerFrame (toc_b t) fs"

definition TOC_FrameDuration :: "TOC \<Rightarrow> FrameDuration" where
  "TOC_FrameDuration t =
     (let s = samplesPerFrame (toc_b t) 48000 in
      if s = 120 then FrameDuration2500us
      else if s = 240 then FrameDuration5ms
      else if s = 480 then FrameDuration10ms
      else if s = 960 then FrameDuration20ms
      else if s = 1920 then FrameDuration40ms
      else FrameDuration60ms)"

definition TOC_Stereo :: "TOC \<Rightarrow> bool" where
  "TOC_Stereo t \<longleftrightarrow> toc_b t AND 4 \<noteq> 0"

definition TOC_Channels :: "TOC \<Rightarrow> int" where
  "TOC_Channels t = (if TOC_Stereo t then 2 else 1)"

definition TOC_FrameCountCode :: "TOC \<Rightarrow> u8" where
  "TOC_FrameCountCode t = toc_b t AND 3"

lemmas toc_defs = ParseTOC_def TOC_Byte_def TOC_Config_def TOC_Mode_def TOC_Bandwidth_def
  TOC_SamplesPerFrame_def TOC_FrameDuration_def TOC_Stereo_def TOC_Channels_def
  TOC_FrameCountCode_def

section \<open>Facts for all 256 bytes\<close>

lemma samplesPerFrame_values:
  "samplesPerFrame b 48000 \<in> {120, 240, 480, 960, 1920, 2880}"
proof -
  have "list_all (\<lambda>b. List.member [120, 240, 480, 960, 1920, 2880] (samplesPerFrame b 48000)) all_bytes"
    by code_simp
  from all_bytesI [OF this, of b] show ?thesis by simp
qed

lemma samplesPerFrame_pos: "0 < samplesPerFrame b 48000"
  using samplesPerFrame_values [of b] by auto

lemma samplesPerFrame_le: "samplesPerFrame b 48000 \<le> 2880"
  using samplesPerFrame_values [of b] by auto

text \<open>The 8 kHz figure the repacketizer uses is a sixth of the 48 kHz one.\<close>

lemma samplesPerFrame_8k: "6 * samplesPerFrame b 8000 = samplesPerFrame b 48000"
proof -
  have "list_all (\<lambda>b. 6 * samplesPerFrame b 8000 = samplesPerFrame b 48000) all_bytes"
    by code_simp
  from all_bytesI [OF this, of b] show ?thesis .
qed

text \<open>Only the low two bits of the TOC byte are free of the frame configuration.\<close>

lemma samplesPerFrame_and_FC: "samplesPerFrame (b AND 0xFC) fs = samplesPerFrame b fs"
proof -
  have "(b AND 0xFC) AND 0x80 = b AND 0x80" "(b AND 0xFC) AND 0x60 = b AND 0x60"
    "(b AND 0xFC) AND 0x08 = b AND 0x08" by (simp_all add: and.assoc)
  moreover have "drop_bit 3 (b AND 0xFC) AND 3 = drop_bit 3 b AND 3"
    by (simp add: drop_bit_and and.assoc)
  ultimately show ?thesis by (simp add: samplesPerFrame_def)
qed

section \<open>The configuration table of RFC 6716, section 3.1\<close>

text \<open>
  The reference: the table of the RFC, one row per run of configuration numbers (the mode,
  the bandwidth, and the frame sizes in microseconds), laid out as a list of 32 entries.
\<close>

definition rfc_rows :: "(Mode \<times> Bandwidth \<times> int list) list" where
  "rfc_rows =
    [(ModeSILKOnly, BandwidthNarrowband, [10000, 20000, 40000, 60000]),
     (ModeSILKOnly, BandwidthMediumband, [10000, 20000, 40000, 60000]),
     (ModeSILKOnly, BandwidthWideband, [10000, 20000, 40000, 60000]),
     (ModeHybrid, BandwidthSuperwideband, [10000, 20000]),
     (ModeHybrid, BandwidthFullband, [10000, 20000]),
     (ModeCELTOnly, BandwidthNarrowband, [2500, 5000, 10000, 20000]),
     (ModeCELTOnly, BandwidthWideband, [2500, 5000, 10000, 20000]),
     (ModeCELTOnly, BandwidthSuperwideband, [2500, 5000, 10000, 20000]),
     (ModeCELTOnly, BandwidthFullband, [2500, 5000, 10000, 20000])]"

definition rfc_config :: "(Mode \<times> Bandwidth \<times> int) list" where
  "rfc_config = concat (map (\<lambda>(m, bw, ds). map (\<lambda>d. (m, bw, d)) ds) rfc_rows)"

lemma samplesPerFrame_duration:
  "list_all (\<lambda>fs. 1000000 * TOC_SamplesPerFrame (ParseTOC b) fs
     = fs * Microseconds (TOC_FrameDuration (ParseTOC b))) [8000, 12000, 16000, 24000, 48000]"
proof -
  define sh where "sh = unat (drop_bit 3 b AND 3)"
  have "drop_bit 3 b AND 3 \<le> 3" by (rule word_and_le1)
  then have "sh \<le> 3" by (simp add: sh_def word_le_nat_alt)
  then have "sh = 0 \<or> sh = 1 \<or> sh = 2 \<or> sh = 3" by auto
  then show ?thesis
    by (elim disjE)
       (simp_all add: TOC_SamplesPerFrame_def TOC_FrameDuration_def ParseTOC_def samplesPerFrame_def
          Microseconds_def duration_defs Let_def sdiv_nonneg flip: sh_def)
qed

text \<open>
  C40: for every one of the 256 TOC bytes the accessors \<^verbatim>\<open>Mode\<close>, \<^verbatim>\<open>Bandwidth\<close> and
  \<^verbatim>\<open>FrameDuration\<close> return the entry of the RFC's table at the byte's configuration number,
  the stereo flag decides the channel count, and the samples per frame at every rate Opus
  accepts are that duration at that rate.
\<close>

theorem toc_matches_rfc:
  "(TOC_Mode (ParseTOC b), TOC_Bandwidth (ParseTOC b), TOC_FrameDuration (ParseTOC b))
     = rfc_config ! unat (TOC_Config (ParseTOC b))
   \<and> TOC_Channels (ParseTOC b) = (if bit b 2 then 2 else 1)
   \<and> list_all (\<lambda>fs. 1000000 * TOC_SamplesPerFrame (ParseTOC b) fs
        = fs * Microseconds (TOC_FrameDuration (ParseTOC b))) [8000, 12000, 16000, 24000, 48000]"
proof -
  have "list_all (\<lambda>b. (TOC_Mode (ParseTOC b), TOC_Bandwidth (ParseTOC b), TOC_FrameDuration (ParseTOC b))
      = rfc_config ! unat (TOC_Config (ParseTOC b))) all_bytes"
    by code_simp
  from all_bytesI [OF this, of b]
  have 1: "(TOC_Mode (ParseTOC b), TOC_Bandwidth (ParseTOC b), TOC_FrameDuration (ParseTOC b))
     = rfc_config ! unat (TOC_Config (ParseTOC b))" .
  have "list_all (\<lambda>b. TOC_Channels (ParseTOC b) = (if bit b 2 then 2 else 1)) all_bytes"
    by code_simp
  from all_bytesI [OF this, of b]
  have 2: "TOC_Channels (ParseTOC b) = (if bit b 2 then 2 else 1)" .
  from 1 2 samplesPerFrame_duration [of b] show ?thesis by simp
qed

end
