(* ===== verification/Parse.thy ===== *)
theory Parse
  imports Toc
begin

text \<open>
  The Opus packet parser (\<^verbatim>\<open>internal/packet/sizes.go\<close>, \<^verbatim>\<open>internal/packet/parse.go\<close>):
  the frame-length field, the parser state with its cursor and remaining byte count, one
  definition per method, and the packet-level counters.  Every index and slice of the Go
  code is a checked access of the model, so "never panics" is a theorem.  A slice that
  aliases the input is modelled by its contents; a nil slice is the empty list.
\<close>

datatype perr = ErrBadArg | ErrInvalidPacket | ErrBufferTooSmall | ErrInternal

section \<open>Frame-length fields\<close>

definition parseSize :: "bytes \<Rightarrow> int \<Rightarrow> int \<times> int" where
  "parseSize data l =
     (if l < 1 \<or> len data < 1 then (-1, -1)
      else if data ! 0 < 252 then (1, uint (data ! 0))
      else if l < 2 \<or> len data < 2 then (-1, -1)
      else (2, 4 * uint (data ! 1) + uint (data ! 0)))"

text \<open>\<^verbatim>\<open>encodeSize\<close> writes into the slice it is given: the model returns the count and the slice.\<close>

definition encodeSize :: "int \<Rightarrow> bytes \<Rightarrow> (perr, int \<times> bytes) res" where
  "encodeSize sz data =
     (if sz < 252 then bnd (upd data 0 (word_of_int sz)) (\<lambda>d. Ok (1, d))
      else bnd (upd data 0 (word_of_int (252 + (sz AND 3)))) (\<lambda>d.
           bnd (idx d 0) (\<lambda>b0.
           bnd (upd d 1 (word_of_int (drop_bit 2 (sz - uint b0)))) (\<lambda>d.
           Ok (2, d)))))"

section \<open>The parser\<close>

definition MaxFrames :: nat where
  "MaxFrames = 48"

record Packet =
  pk_TOC :: TOC
  pk_Frames :: "bytes list"
  pk_Padding :: bytes
  pk_Consumed :: int

definition Duration :: "Packet \<Rightarrow> int \<Rightarrow> int" where
  "Duration p fs = len (pk_Frames p) * TOC_SamplesPerFrame (pk_TOC p) fs"

record parser =
  ps_data :: bytes
  ps_pos :: int
  ps_remaining :: int
  ps_sizes :: "int list"
  ps_count :: int
  ps_cbr :: bool
  ps_lastSize :: int
  ps_pad :: int

text \<open>\<^verbatim>\<open>parser{data: data}\<close>: every other field starts at its zero value.\<close>

definition new_parser :: "bytes \<Rightarrow> parser" where
  "new_parser data = \<lparr>ps_data = data, ps_pos = 0, ps_remaining = 0,
     ps_sizes = replicate MaxFrames 0, ps_count = 0, ps_cbr = False, ps_lastSize = 0, ps_pad = 0\<rparr>"

definition set_size :: "parser \<Rightarrow> int \<Rightarrow> int \<Rightarrow> (perr, parser) res" where
  "set_size p i v = bnd (upd (ps_sizes p) i v) (\<lambda>s. Ok (p\<lparr>ps_sizes := s\<rparr>))"

definition parseCode1 :: "parser \<Rightarrow> bool \<Rightarrow> (perr, parser) res" where
  "parseCode1 p selfDelimited =
     (let p = p\<lparr>ps_count := 2, ps_cbr := True\<rparr> in
      if selfDelimited then Ok p
      else if ps_remaining p AND 1 \<noteq> 0 then Err ErrInvalidPacket
      else let p = p\<lparr>ps_lastSize := ps_remaining p sdiv 2\<rparr>
           in set_size p 0 (ps_lastSize p))"

definition parseCode2 :: "parser \<Rightarrow> (perr, parser) res" where
  "parseCode2 p =
     (let p = p\<lparr>ps_count := 2\<rparr> in
      bnd (slice_from (ps_data p) (ps_pos p)) (\<lambda>d.
      let (nbytes, sz) = parseSize d (ps_remaining p);
          p = p\<lparr>ps_remaining := ps_remaining p - nbytes\<rparr> in
      if sz < 0 \<or> sz > ps_remaining p then Err ErrInvalidPacket
      else bnd (set_size p 0 sz) (\<lambda>p.
        Ok (p\<lparr>ps_pos := ps_pos p + nbytes, ps_lastSize := ps_remaining p - sz\<rparr>))))"

text \<open>
  The loop over the padding-length bytes.  Each round consumes one byte of \<open>remaining\<close>,
  which bounds the recursion.
\<close>

function parseCode3Padding :: "parser \<Rightarrow> (perr, parser) res" where
  "parseCode3Padding p =
     (if ps_remaining p \<le> 0 then Err ErrInvalidPacket
      else bnd (idx (ps_data p) (ps_pos p)) (\<lambda>b.
        let pv = uint b;
            tmp = (if pv = 255 then 254 else pv);
            p' = p\<lparr>ps_pos := ps_pos p + 1, ps_remaining := ps_remaining p - 1 - tmp,
                   ps_pad := ps_pad p + tmp\<rparr> in
        if pv \<noteq> 255 then Ok p' else parseCode3Padding p'))"
  by pat_completeness auto
termination
  by (relation "measure (\<lambda>p. nat (ps_remaining p))") (auto simp: Let_def)

declare parseCode3Padding.simps [simp del]

text \<open>\<^verbatim>\<open>for i := range p.count - 1\<close>: \<open>n\<close> rounds left, the next index is \<open>i\<close>.\<close>

fun parseCode3VBR_loop :: "nat \<Rightarrow> int \<Rightarrow> parser \<Rightarrow> (perr, parser) res" where
  "parseCode3VBR_loop 0 i p = Ok p"
| "parseCode3VBR_loop (Suc n) i p =
     bnd (slice_from (ps_data p) (ps_pos p)) (\<lambda>d.
     let (nbytes, sz) = parseSize d (ps_remaining p);
         p = p\<lparr>ps_remaining := ps_remaining p - nbytes\<rparr> in
     if sz < 0 \<or> sz > ps_remaining p then Err ErrInvalidPacket
     else bnd (set_size p i sz) (\<lambda>p.
       parseCode3VBR_loop n (i + 1)
         (p\<lparr>ps_pos := ps_pos p + nbytes, ps_lastSize := ps_lastSize p - (nbytes + sz)\<rparr>)))"

definition parseCode3VBR :: "parser \<Rightarrow> (perr, parser) res" where
  "parseCode3VBR p =
     (let p = p\<lparr>ps_lastSize := ps_remaining p\<rparr> in
      bnd (parseCode3VBR_loop (nat (ps_count p - 1)) 0 p) (\<lambda>p.
      if ps_lastSize p < 0 then Err ErrInvalidPacket else Ok p))"

text \<open>\<^verbatim>\<open>for i := range p.count - 1 { p.sizes[i] = v }\<close>\<close>

fun fill_sizes :: "nat \<Rightarrow> int \<Rightarrow> int \<Rightarrow> parser \<Rightarrow> (perr, parser) res" where
  "fill_sizes 0 i v p = Ok p"
| "fill_sizes (Suc n) i v p = bnd (set_size p i v) (fill_sizes n (i + 1) v)"

definition parseCode3CBR :: "parser \<Rightarrow> (perr, parser) res" where
  "parseCode3CBR p =
     (let p = p\<lparr>ps_lastSize := ps_remaining p sdiv ps_count p\<rparr> in
      if ps_lastSize p * ps_count p \<noteq> ps_remaining p then Err ErrInvalidPacket
      else fill_sizes (nat (ps_count p - 1)) 0 (ps_lastSize p) p)"

definition parseCode3 :: "parser \<Rightarrow> bool \<Rightarrow> (perr, parser) res" where
  "parseCode3 p selfDelimited =
     (if ps_remaining p < 1 then Err ErrInvalidPacket
      else bnd (idx (ps_data p) (ps_pos p)) (\<lambda>ch.
        let p = p\<lparr>ps_pos := ps_pos p + 1, ps_count := uint (ch AND 0x3F)\<rparr> in
        bnd (idx (ps_data p) 0) (\<lambda>toc.
        let framesize = samplesPerFrame toc 48000 in
        if ps_count p \<le> 0 \<or> framesize * ps_count p > 5760 then Err ErrInvalidPacket
        else
          let p = p\<lparr>ps_remaining := ps_remaining p - 1\<rparr> in
          bnd (if ch AND 0x40 \<noteq> 0 then parseCode3Padding p else Ok p) (\<lambda>p.
          if ps_remaining p < 0 then Err ErrInvalidPacket
          else
            let p = p\<lparr>ps_cbr := (ch AND 0x80 = 0)\<rparr> in
            if \<not> ps_cbr p then parseCode3VBR p
            else if \<not> selfDelimited then parseCode3CBR p
            else Ok p))))"

definition finishSelfDelimited :: "parser \<Rightarrow> (perr, parser) res" where
  "finishSelfDelimited p =
     bnd (slice_from (ps_data p) (ps_pos p)) (\<lambda>d.
     let (nbytes, sz) = parseSize d (ps_remaining p);
         p = p\<lparr>ps_remaining := ps_remaining p - nbytes\<rparr> in
     bnd (set_size p (ps_count p - 1) sz) (\<lambda>p.
     if sz < 0 \<or> sz > ps_remaining p then Err ErrInvalidPacket
     else
       let p = p\<lparr>ps_pos := ps_pos p + nbytes\<rparr> in
       if ps_cbr p then
         (if sz * ps_count p > ps_remaining p then Err ErrInvalidPacket
          else fill_sizes (nat (ps_count p - 1)) 0 sz p)
       else if nbytes + sz > ps_lastSize p then Err ErrInvalidPacket
       else Ok p))"

definition finishNormal :: "parser \<Rightarrow> (perr, parser) res" where
  "finishNormal p =
     (if ps_lastSize p > 1275 then Err ErrInvalidPacket
      else set_size p (ps_count p - 1) (ps_lastSize p))"

definition run :: "parser \<Rightarrow> bool \<Rightarrow> (perr, parser) res" where
  "run p selfDelimited =
     (if len (ps_data p) = 0 then Err ErrInvalidPacket
      else bnd (idx (ps_data p) 0) (\<lambda>toc.
        let p = p\<lparr>ps_pos := 1, ps_remaining := len (ps_data p) - 1\<rparr>;
            p = p\<lparr>ps_lastSize := ps_remaining p\<rparr>;
            c = toc AND 3 in
        bnd (if c = 0 then Ok (p\<lparr>ps_count := 1\<rparr>)
             else if c = 1 then parseCode1 p selfDelimited
             else if c = 2 then parseCode2 p
             else parseCode3 p selfDelimited) (\<lambda>p.
        if selfDelimited then finishSelfDelimited p else finishNormal p)))"

section \<open>Slicing out the frames\<close>

text \<open>
  \<^verbatim>\<open>fillPacket\<close> writes the frames one by one into \<^verbatim>\<open>dst.Frames\<close> and may stop at an
  error with some of them written: the model returns the destination with the error, if
  any.  \<open>fill_frames n i pos\<close> has \<open>n\<close> rounds left at index \<open>i\<close>.
\<close>

fun fill_frames :: "nat \<Rightarrow> int \<Rightarrow> int \<Rightarrow> bytes \<Rightarrow> int list \<Rightarrow> bytes list
    \<Rightarrow> (perr, bytes list \<times> int \<times> perr option) res" where
  "fill_frames 0 i pos data sizes fs = Ok (fs, pos, None)"
| "fill_frames (Suc n) i pos data sizes fs =
     bnd (idx sizes i) (\<lambda>sz.
     if sz < 0 \<or> pos + sz > len data then Ok (fs, pos, Some ErrInvalidPacket)
     else bnd (slice data pos (pos + sz)) (\<lambda>f.
          bnd (upd fs i f) (\<lambda>fs. fill_frames n (i + 1) (pos + sz) data sizes fs)))"

definition fillPacket :: "parser \<Rightarrow> bytes \<Rightarrow> Packet \<Rightarrow> (perr, Packet \<times> perr option) res" where
  "fillPacket p data dst =
     bnd (fill_frames (nat (ps_count p)) 0 (ps_pos p) data (ps_sizes p) (pk_Frames dst))
       (\<lambda>(fs, pos, e).
       let dst = dst\<lparr>pk_Frames := fs\<rparr> in
       case e of Some e \<Rightarrow> Ok (dst, Some e)
       | None \<Rightarrow>
         if ps_pad p > 0 \<and> pos + ps_pad p > len data then Ok (dst, Some ErrInvalidPacket)
         else bnd (if ps_pad p > 0 then slice data pos (pos + ps_pad p) else Ok []) (\<lambda>padding.
              bnd (idx data 0) (\<lambda>b0.
              Ok (dst\<lparr>pk_TOC := \<lparr>toc_b = b0\<rparr>, pk_Padding := padding,
                      pk_Consumed := pos + ps_pad p\<rparr>, None))))"

definition empty_packet :: Packet where
  "empty_packet = \<lparr>pk_TOC = \<lparr>toc_b = 0\<rparr>, pk_Frames = [], pk_Padding = [], pk_Consumed = 0\<rparr>"

definition parse :: "bytes \<Rightarrow> bool \<Rightarrow> (perr, Packet) res" where
  "parse data selfDelimited =
     bnd (run (new_parser data) selfDelimited) (\<lambda>p.
     let pkt = empty_packet\<lparr>pk_Frames := replicate (nat (ps_count p)) []\<rparr> in
     bnd (fillPacket p data pkt) (\<lambda>(pkt, e).
     case e of Some e \<Rightarrow> Err e | None \<Rightarrow> Ok pkt))"

definition Parse :: "bytes \<Rightarrow> (perr, Packet) res" where
  "Parse data = parse data False"

definition ParseSelfDelimited :: "bytes \<Rightarrow> (perr, Packet) res" where
  "ParseSelfDelimited data = parse data True"

text \<open>
  \<^verbatim>\<open>parseInto\<close> writes into a caller-owned packet and a caller-owned array of 48 frame
  slots; \<^verbatim>\<open>dst.Frames\<close> is the prefix \<^verbatim>\<open>frames[:count]\<close> of that array, so the array's
  contents after the call are \<^verbatim>\<open>dst.Frames\<close> followed by the cleared tail.
\<close>

definition parseInto :: "bytes \<Rightarrow> Packet \<Rightarrow> bytes list \<Rightarrow> bool
    \<Rightarrow> (perr, Packet \<times> bytes list \<times> perr option) res" where
  "parseInto data dst frames selfDelimited =
     (case run (new_parser data) selfDelimited of
        Panic \<Rightarrow> Panic
      | Err e \<Rightarrow> Ok (dst\<lparr>pk_Frames := [], pk_Padding := []\<rparr>, replicate MaxFrames [], Some e)
      | Ok p \<Rightarrow>
          bnd (slice frames 0 (ps_count p)) (\<lambda>fs.
          let dst = dst\<lparr>pk_Frames := fs\<rparr>;
              tail = replicate (MaxFrames - nat (ps_count p)) [] in
          bnd (fillPacket p data dst) (\<lambda>(dst, e).
          case e of
            Some e \<Rightarrow> Ok (dst\<lparr>pk_Frames := [], pk_Padding := []\<rparr>, replicate MaxFrames [], Some e)
          | None \<Rightarrow> Ok (dst, pk_Frames dst @ tail, None))))"

definition ParseInto :: "bytes \<Rightarrow> Packet \<Rightarrow> bytes list
    \<Rightarrow> (perr, Packet \<times> bytes list \<times> perr option) res" where
  "ParseInto data dst frames = parseInto data dst frames False"

definition ParseSelfDelimitedInto :: "bytes \<Rightarrow> Packet \<Rightarrow> bytes list
    \<Rightarrow> (perr, Packet \<times> bytes list \<times> perr option) res" where
  "ParseSelfDelimitedInto data dst frames = parseInto data dst frames True"

section \<open>Counting without parsing\<close>

definition CountFrames :: "bytes \<Rightarrow> (perr, int) res" where
  "CountFrames data =
     (if len data < 1 then Err ErrBadArg
      else bnd (idx data 0) (\<lambda>b0.
        let c = b0 AND 3 in
        if c = 0 then Ok 1
        else if c = 3 then
          (if len data < 2 then Err ErrInvalidPacket
           else bnd (idx data 1) (\<lambda>b1. Ok (uint (b1 AND 0x3F))))
        else Ok 2))"

definition Samples :: "bytes \<Rightarrow> int \<Rightarrow> (perr, int) res" where
  "Samples data fs =
     bnd (CountFrames data) (\<lambda>count.
     bnd (idx data 0) (\<lambda>b0.
     let samples = count * samplesPerFrame b0 fs in
     if samples * 25 > fs * 3 then Err ErrInvalidPacket else Ok samples))"

end
