(* ===== verification/Parse_Props.thy ===== *)
theory Parse_Props
  imports Parse
begin

text \<open>
  The proofs about the packet parser: verification conditions for each method of the parser
  state, the slicing of the frames, and the parser's contract (no panic, well-framed packets,
  the allocation-free variant refines the allocating one, the counters agree with it).
\<close>

section \<open>Frame-length fields\<close>

lemma parseSize_range:
  assumes "parseSize d l = (n, s)"
  shows "(n = -1 \<and> s = -1) \<or> (1 \<le> n \<and> n \<le> 2 \<and> n \<le> l \<and> n \<le> len d \<and> 0 \<le> s \<and> s \<le> 1275)"
  using assms uint_u8_le [of "d ! 0"] uint_u8_le [of "d ! Suc 0"]
  by (auto simp: parseSize_def Suc_le_eq split: if_splits)

section \<open>What the parser establishes\<close>

text \<open>The state between the methods: cursor, remaining bytes and padding partition the input.\<close>

definition cursor_ok :: "bytes \<Rightarrow> parser \<Rightarrow> bool" where
  "cursor_ok data p \<longleftrightarrow> ps_data p = data \<and> 1 \<le> ps_pos p \<and> 0 \<le> ps_pad p
     \<and> ps_pos p + ps_remaining p + ps_pad p = len data \<and> length (ps_sizes p) = MaxFrames"

text \<open>The frame count the TOC byte and the count byte declare.\<close>

definition declared_count :: "bytes \<Rightarrow> int" where
  "declared_count data =
     (if data ! 0 AND 3 = 0 then 1 else if data ! 0 AND 3 = 3 then uint (data ! 1 AND 63) else 2)"

definition declares :: "bytes \<Rightarrow> int \<Rightarrow> bool" where
  "declares data n \<longleftrightarrow> declared_count data = n \<and> (data ! 0 AND 3 = 3 \<longrightarrow> 2 \<le> length data)"

definition count_ok :: "bytes \<Rightarrow> parser \<Rightarrow> bool" where
  "count_ok data p \<longleftrightarrow> 1 \<le> ps_count p \<and> samplesPerFrame (data ! 0) 48000 * ps_count p \<le> 5760
     \<and> declares data (ps_count p)"

text \<open>The first \<open>n\<close> frame lengths are known, and \<^verbatim>\<open>lastSize\<close> is what they leave over.\<close>

definition sizes_ok :: "nat \<Rightarrow> parser \<Rightarrow> bool" where
  "sizes_ok n p \<longleftrightarrow>
     list_all (\<lambda>s. 0 \<le> s \<and> (s \<le> 1275 \<or> ps_cbr p \<and> s = ps_lastSize p)) (take n (ps_sizes p))
     \<and> ps_lastSize p = ps_remaining p - sum_list (take n (ps_sizes p))"

definition header_ok :: "bytes \<Rightarrow> bool \<Rightarrow> parser \<Rightarrow> bool" where
  "header_ok data sd p \<longleftrightarrow> cursor_ok data p \<and> count_ok data p \<and> 0 \<le> ps_remaining p
     \<and> (ps_cbr p \<and> sd \<or> sizes_ok (nat (ps_count p) - 1) p \<and> 0 \<le> ps_lastSize p)"

definition parsed_ok :: "bytes \<Rightarrow> parser \<Rightarrow> bool" where
  "parsed_ok data p \<longleftrightarrow> count_ok data p \<and> data \<noteq> [] \<and> length (ps_sizes p) = MaxFrames
     \<and> list_all (\<lambda>s. 0 \<le> s \<and> s \<le> 1275) (take (nat (ps_count p)) (ps_sizes p))
     \<and> 1 \<le> ps_pos p \<and> 0 \<le> ps_pad p
     \<and> ps_pos p + sum_list (take (nat (ps_count p)) (ps_sizes p)) + ps_pad p \<le> len data"

lemmas parser_ok_defs = cursor_ok_def count_ok_def sizes_ok_def header_ok_def

lemma count_le_48: "count_ok data p \<Longrightarrow> ps_count p \<le> 48"
proof -
  assume c: "count_ok data p"
  then have "0 \<le> ps_count p" by (simp add: count_ok_def)
  moreover have "120 \<le> samplesPerFrame (data ! 0) 48000"
    using samplesPerFrame_values [of "data ! 0"] by auto
  ultimately have "120 * ps_count p \<le> samplesPerFrame (data ! 0) 48000 * ps_count p"
    by (simp add: mult_right_mono)
  then show ?thesis using c by (simp only: count_ok_def) linarith
qed

lemma sat_set_size [simp]:
  "sat (set_size p i v) E Q \<longleftrightarrow>
     0 \<le> i \<and> i < len (ps_sizes p) \<and> Q (p\<lparr>ps_sizes := (ps_sizes p)[nat i := v]\<rparr>)"
  by (simp add: set_size_def)

lemma parseCode3Padding_sat:
  assumes "cursor_ok data p"
  shows "sat (parseCode3Padding p) (\<lambda>e. e = ErrInvalidPacket)
     (\<lambda>q. cursor_ok data q \<and> ps_count q = ps_count p \<and> ps_sizes q = ps_sizes p)"
  using assms
proof (induction p rule: parseCode3Padding.induct)
  case (1 p)
  show ?case
  proof (cases "ps_remaining p \<le> 0")
    case True
    then show ?thesis by (simp add: parseCode3Padding.simps)
  next
    case False
    let ?b = "ps_data p ! nat (ps_pos p)"
    have b: "idx (ps_data p) (ps_pos p) = Ok ?b"
      using False 1(2) by (simp add: cursor_ok_def idx_def)
    show ?thesis
      using 1(1) [OF False b refl refl refl] 1(2) False
      by (subst parseCode3Padding.simps) (auto simp: b Let_def cursor_ok_def)
  qed
qed

lemma parseCode3VBR_loop_sat:
  assumes "cursor_ok data p" "sizes_ok (nat i) p" "0 \<le> i" "i + int n < int MaxFrames"
    "0 \<le> ps_remaining p" "\<not> ps_cbr p"
  shows "sat (parseCode3VBR_loop n i p) (\<lambda>e. e = ErrInvalidPacket)
     (\<lambda>q. cursor_ok data q \<and> sizes_ok (nat i + n) q \<and> 0 \<le> ps_remaining q
       \<and> ps_count q = ps_count p \<and> \<not> ps_cbr q)"
  using assms
proof (induction n arbitrary: i p)
  case 0
  then show ?case by simp
next
  case (Suc n)
  obtain nb sz where ps: "parseSize (drop (nat (ps_pos p)) (ps_data p)) (ps_remaining p) = (nb, sz)"
    by fastforce
  let ?p1 = "p\<lparr>ps_remaining := ps_remaining p - nb\<rparr>"
  let ?p2 = "?p1\<lparr>ps_sizes := (ps_sizes p)[nat i := sz]\<rparr>"
  let ?p3 = "?p2\<lparr>ps_pos := ps_pos p + nb, ps_lastSize := ps_lastSize p - (nb + sz)\<rparr>"
  have pos: "0 \<le> ps_pos p" "ps_pos p \<le> len (ps_data p)" and il: "i < len (ps_sizes p)"
    using Suc.prems by (auto simp: cursor_ok_def)
  show ?case
  proof (cases "sz < 0 \<or> ps_remaining p - nb < sz")
    case True
    with pos show ?thesis by (simp add: ps)
  next
    case False
    have r: "1 \<le> nb" "0 \<le> sz" "sz \<le> 1275" "nb \<le> ps_remaining p"
      using parseSize_range [OF ps] False by auto
    have tk: "take (Suc (nat i)) ((ps_sizes p)[nat i := sz]) = take (nat i) (ps_sizes p) @ [sz]"
      using il Suc.prems(3) by (simp add: take_Suc_conv_app_nth)
    have "sizes_ok (nat (i + 1)) ?p3"
      using Suc.prems r tk by (auto simp: sizes_ok_def nat_add_distrib)
    moreover have "cursor_ok data ?p3"
      using Suc.prems r by (simp add: cursor_ok_def)
    ultimately have "sat (parseCode3VBR_loop n (i + 1) ?p3) (\<lambda>e. e = ErrInvalidPacket)
     (\<lambda>q. cursor_ok data q \<and> sizes_ok (nat (i + 1) + n) q \<and> 0 \<le> ps_remaining q
       \<and> ps_count q = ps_count ?p3 \<and> \<not> ps_cbr q)"
      using Suc.IH [of ?p3 "i + 1"] Suc.prems r False by simp
    then show ?thesis
      using pos il False Suc.prems(3) by (simp add: ps nat_add_distrib)
  qed
qed


lemma fill_sizes_eq:
  assumes "0 \<le> i" "nat i + n \<le> length (ps_sizes p)"
  shows "fill_sizes n i v p =
    Ok (p\<lparr>ps_sizes := take (nat i) (ps_sizes p) @ replicate n v @ drop (nat i + n) (ps_sizes p)\<rparr>)"
  using assms
proof (induction n arbitrary: i p)
  case 0
  then show ?case by simp
next
  case (Suc n)
  have tk: "take (Suc (nat i)) ((ps_sizes p)[nat i := v]) = take (nat i) (ps_sizes p) @ [v]"
    using Suc.prems by (simp add: take_Suc_conv_app_nth)
  show ?case
    using Suc.IH [of "i + 1" "p\<lparr>ps_sizes := (ps_sizes p)[nat i := v]\<rparr>"] Suc.prems tk
    by (simp add: set_size_def upd_def nat_add_distrib drop_update_cancel)
qed

lemma parseCode1_sat:
  assumes "cursor_ok data p" "0 \<le> ps_remaining p" "declares data 2"
  shows "sat (parseCode1 p sd) (\<lambda>e. e = ErrInvalidPacket) (header_ok data sd)"
proof (cases "sd \<or> ps_remaining p AND 1 \<noteq> 0")
  case True
  have "samplesPerFrame (data ! 0) 48000 * 2 \<le> 5760"
    using samplesPerFrame_le [of "data ! 0"] by linarith
  with True assms show ?thesis
    by (auto simp: parseCode1_def parser_ok_defs Let_def)
next
  case False
  have "samplesPerFrame (data ! 0) 48000 * 2 \<le> 5760"
    using samplesPerFrame_le [of "data ! 0"] by linarith
  moreover have "ps_remaining p sdiv 2 = ps_remaining p div 2"
    using assms(2) by (simp add: sdiv_nonneg)
  moreover have "2 * (ps_remaining p div 2) = ps_remaining p"
    using False by (simp add: int_and_mask even_iff_mod_2_eq_zero)
  moreover have "take 1 ((ps_sizes p)[0 := v]) = [v]" for v
    using assms(1) by (cases "ps_sizes p") (auto simp: cursor_ok_def MaxFrames_def)
  ultimately show ?thesis using False assms
    by (auto simp: parseCode1_def parser_ok_defs Let_def MaxFrames_def)
qed

lemma parseCode2_sat:
  assumes "cursor_ok data p" "0 \<le> ps_remaining p" "\<not> ps_cbr p" "declares data 2"
  shows "sat (parseCode2 p) (\<lambda>e. e = ErrInvalidPacket) (header_ok data sd)"
proof -
  obtain nb sz where ps: "parseSize (drop (nat (ps_pos p)) (ps_data p)) (ps_remaining p) = (nb, sz)"
    by fastforce
  have "samplesPerFrame (data ! 0) 48000 * 2 \<le> 5760"
    using samplesPerFrame_le [of "data ! 0"] by linarith
  moreover have "take 1 ((ps_sizes p)[0 := v]) = [v]" for v
    using assms(1) by (cases "ps_sizes p") (auto simp: cursor_ok_def MaxFrames_def)
  ultimately show ?thesis using parseSize_range [OF ps] assms
    by (auto simp: parseCode2_def parser_ok_defs Let_def MaxFrames_def ps)
qed

lemma parseCode3VBR_sat:
  assumes "cursor_ok data p" "count_ok data p" "0 \<le> ps_remaining p" "\<not> ps_cbr p"
  shows "sat (parseCode3VBR p) (\<lambda>e. e = ErrInvalidPacket) (header_ok data sd)"
proof -
  let ?p = "p\<lparr>ps_lastSize := ps_remaining p\<rparr>"
  have "sat (parseCode3VBR_loop (nat (ps_count p - 1)) 0 ?p) (\<lambda>e. e = ErrInvalidPacket)
     (\<lambda>q. cursor_ok data q \<and> sizes_ok (nat 0 + nat (ps_count p - 1)) q \<and> 0 \<le> ps_remaining q
       \<and> ps_count q = ps_count ?p \<and> \<not> ps_cbr q)"
    by (rule parseCode3VBR_loop_sat)
       (use assms count_le_48 [OF assms(2)] in \<open>auto simp: parser_ok_defs MaxFrames_def\<close>)
  then have "sat (parseCode3VBR_loop (nat (ps_count p - 1)) 0 ?p) (\<lambda>e. e = ErrInvalidPacket)
     (\<lambda>q. cursor_ok data q \<and> sizes_ok (nat (ps_count q) - 1) q \<and> 0 \<le> ps_remaining q
       \<and> count_ok data q \<and> \<not> ps_cbr q)"
    by (rule sat_mono) (use assms(2) in \<open>auto simp: count_ok_def nat_diff_distrib\<close>)
  then show ?thesis
    unfolding parseCode3VBR_def Let_def sat_bnd
    by (auto elim!: sat_mono simp: header_ok_def)
qed

lemma parseCode3CBR_sat:
  assumes "cursor_ok data p" "count_ok data p" "0 \<le> ps_remaining p" "ps_cbr p"
  shows "sat (parseCode3CBR p) (\<lambda>e. e = ErrInvalidPacket) (header_ok data False)"
proof -
  define c where "c = nat (ps_count p)"
  have c: "ps_count p = int c" "1 \<le> c" "c \<le> 48"
    using count_le_48 [OF assms(2)] assms(2) by (auto simp: c_def count_ok_def)
  define l where "l = ps_remaining p sdiv int c"
  have "0 \<le> l" using assms(3) c by (simp add: l_def sdiv_nonneg pos_imp_zdiv_nonneg_iff)
  moreover have "int (c - 1) * l = l * int c - l" using c by (simp add: algebra_simps of_nat_diff)
  ultimately show ?thesis using assms c
    by (auto simp: parseCode3CBR_def Let_def fill_sizes_eq parser_ok_defs MaxFrames_def
        sum_list_replicate nat_diff_distrib list_all_iff set_replicate_conv_if simp flip: l_def)
qed

lemma parseCode3_sat:
  assumes "cursor_ok data p" "0 \<le> ps_remaining p" "data \<noteq> []" "ps_pos p = 1" "data ! 0 AND 3 = 3"
  shows "sat (parseCode3 p sd) (\<lambda>e. e = ErrInvalidPacket) (header_ok data sd)"
proof (cases "ps_remaining p < 1")
  case True
  then show ?thesis by (simp add: parseCode3_def)
next
  case False
  define ch where "ch = data ! nat (ps_pos p)"
  define p1 where "p1 = p\<lparr>ps_pos := ps_pos p + 1, ps_count := uint (ch AND 0x3F)\<rparr>"
  define p2 where "p2 = p1\<lparr>ps_remaining := ps_remaining p1 - 1\<rparr>"
  have p2: "cursor_ok data p2" "ps_sizes p2 = ps_sizes p" "ps_count p2 = ps_count p1"
    using assms by (auto simp: p2_def p1_def cursor_ok_def)
  have pd: "ps_data p = data" using assms(1) by (simp add: cursor_ok_def)
  have i: "idx data (ps_pos p) = Ok ch" "idx data 0 = Ok (data ! 0)"
    using False assms by (auto simp: idx_def ch_def cursor_ok_def)
  have eq: "parseCode3 p sd =
      (if ps_count p1 \<le> 0 \<or> samplesPerFrame (data ! 0) 48000 * ps_count p1 > 5760
       then Err ErrInvalidPacket
       else bnd (if ch AND 0x40 \<noteq> 0 then parseCode3Padding p2 else Ok p2) (\<lambda>q.
          if ps_remaining q < 0 then Err ErrInvalidPacket
          else
            let p = q\<lparr>ps_cbr := (ch AND 0x80 = 0)\<rparr> in
            if \<not> ps_cbr p then parseCode3VBR p
            else if \<not> sd then parseCode3CBR p
            else Ok p))"
    using False by (simp add: parseCode3_def Let_def p1_def p2_def i pd)
  have tail: "sat (if ps_remaining q < 0 then Err ErrInvalidPacket
          else
            let p = q\<lparr>ps_cbr := (ch AND 0x80 = 0)\<rparr> in
            if \<not> ps_cbr p then parseCode3VBR p
            else if \<not> sd then parseCode3CBR p
            else Ok p) (\<lambda>e. e = ErrInvalidPacket) (header_ok data sd)"
    if "cursor_ok data q" "count_ok data q" for q
  proof -
    let ?q = "q\<lparr>ps_cbr := (ch AND 0x80 = 0)\<rparr>"
    have "cursor_ok data ?q" "count_ok data ?q" using that by (auto simp: parser_ok_defs)
    then show ?thesis
      using parseCode3VBR_sat [of data ?q sd] parseCode3CBR_sat [of data ?q]
      by (cases sd) (auto simp: Let_def header_ok_def)
  qed
  show ?thesis
  proof (cases "ps_count p1 \<le> 0 \<or> samplesPerFrame (data ! 0) 48000 * ps_count p1 > 5760")
    case True
    then show ?thesis by (simp add: eq)
  next
    case F2: False
    then have "1 \<le> ps_count p1" by linarith
    with F2 have cnt: "count_ok data p2"
      using assms False
      by (auto simp: count_ok_def p2(3) declares_def declared_count_def p1_def ch_def cursor_ok_def)
    have pad: "sat (if ch AND 0x40 \<noteq> 0 then parseCode3Padding p2 else Ok p2)
      (\<lambda>e. e = ErrInvalidPacket) (\<lambda>q. cursor_ok data q \<and> count_ok data q)"
      using parseCode3Padding_sat [OF p2(1)] p2 cnt
      by (auto elim!: sat_mono simp: count_ok_def)
    show ?thesis
      unfolding eq if_not_P [OF F2] sat_bnd
      by (rule sat_mono [OF pad], rule tail) blast+
  qed
qed

lemma finishNormal_sat:
  assumes "header_ok data False p"
  shows "sat (finishNormal p) (\<lambda>e. e = ErrInvalidPacket)
    (\<lambda>q. parsed_ok data q \<and> ps_pos q + sum_list (take (nat (ps_count q)) (ps_sizes q)) + ps_pad q = len data)"
proof -
  define c where "c = nat (ps_count p) - 1"
  have c: "nat (ps_count p) = Suc c" "ps_count p - 1 = int c" "c < 48" "c < length (ps_sizes p)"
    using assms count_le_48 [of data p] by (auto simp: c_def parser_ok_defs MaxFrames_def)
  have tk: "take (Suc c) ((ps_sizes p)[c := v]) = take c (ps_sizes p) @ [v]" for v
    using c by (simp add: take_Suc_conv_app_nth)
  show ?thesis using assms c
    by (auto simp: finishNormal_def parsed_ok_def header_ok_def cursor_ok_def sizes_ok_def count_ok_def
        tk list_all_iff simp flip: c_def)
qed

lemma finishSelfDelimited_sat:
  assumes "header_ok data True p"
  shows "sat (finishSelfDelimited p) (\<lambda>e. e = ErrInvalidPacket) (parsed_ok data)"
proof -
  define c where "c = nat (ps_count p) - 1"
  have c: "nat (ps_count p) = Suc c" "ps_count p = int c + 1" "c < 48" "c < length (ps_sizes p)"
    using assms count_le_48 [of data p] by (auto simp: c_def parser_ok_defs MaxFrames_def)
  obtain nb sz where ps: "parseSize (drop (nat (ps_pos p)) (ps_data p)) (ps_remaining p) = (nb, sz)"
    by fastforce
  have pos: "0 \<le> ps_pos p" "ps_pos p \<le> len (ps_data p)"
    using assms by (auto simp: parser_ok_defs)
  define q where "q = p\<lparr>ps_remaining := ps_remaining p - nb, ps_sizes := (ps_sizes p)[c := sz],
     ps_pos := ps_pos p + nb\<rparr>"
  have eq: "finishSelfDelimited p =
      (if sz < 0 \<or> sz > ps_remaining p - nb then Err ErrInvalidPacket
       else if ps_cbr p then
         (if sz * ps_count p > ps_remaining p - nb then Err ErrInvalidPacket
          else fill_sizes c 0 sz q)
       else if nb + sz > ps_lastSize p then Err ErrInvalidPacket
       else Ok q)"
    using pos c by (simp add: finishSelfDelimited_def slice_from_Ok ps set_size_def upd_Ok q_def)
  consider "sz < 0 \<or> sz > ps_remaining p - nb" | "1 \<le> nb" "nb \<le> 2" "0 \<le> sz" "sz \<le> 1275" "sz \<le> ps_remaining p - nb"
    using parseSize_range [OF ps] by linarith
  then show ?thesis
  proof cases
    case 1
    then show ?thesis by (simp add: eq)
  next
    case 2
    have tk: "take (Suc c) ((ps_sizes p)[c := sz]) = take c (ps_sizes p) @ [sz]"
      using c by (simp add: take_Suc_conv_app_nth)
    show ?thesis
    proof (cases "ps_cbr p")
      case True
      have "drop c ((ps_sizes p)[c := sz]) = sz # drop (Suc c) (ps_sizes p)"
        using c by (metis Cons_nth_drop_Suc drop_update_cancel length_list_update lessI nth_list_update_eq)
      then show ?thesis
        using True 2 assms c
        by (auto simp: eq fill_sizes_eq q_def parsed_ok_def header_ok_def cursor_ok_def count_ok_def
            sum_list_replicate list_all_iff algebra_simps)
    next
      case False
      then show ?thesis
        using 2 assms c
        by (auto simp: eq q_def parsed_ok_def header_ok_def cursor_ok_def count_ok_def sizes_ok_def
            tk list_all_iff simp flip: c_def)
    qed
  qed
qed

lemma run_sat:
  "sat (run (new_parser data) sd) (\<lambda>e. e = ErrInvalidPacket)
    (\<lambda>q. parsed_ok data q \<and> (sd \<or> ps_pos q + sum_list (take (nat (ps_count q)) (ps_sizes q)) + ps_pad q = len data))"
proof (cases "data = []")
  case True
  then show ?thesis by (simp add: run_def new_parser_def)
next
  case False
  define p where "p = (new_parser data)\<lparr>ps_pos := 1, ps_remaining := len data - 1, ps_lastSize := len data - 1\<rparr>"
  have p: "cursor_ok data p" "0 \<le> ps_remaining p" "\<not> ps_cbr p" and pl: "ps_lastSize p = ps_remaining p"
    using False by (auto simp: p_def new_parser_def cursor_ok_def Suc_le_eq)
  let ?c = "data ! 0 AND 3"
  let ?sw = "if ?c = 0 then Ok (p\<lparr>ps_count := 1\<rparr>)
             else if ?c = 1 then parseCode1 p sd
             else if ?c = 2 then parseCode2 p
             else parseCode3 p sd"
  have eq: "run (new_parser data) sd = bnd ?sw (\<lambda>p. if sd then finishSelfDelimited p else finishNormal p)"
    using False by (simp add: run_def Let_def p_def new_parser_def idx_def)
  have "samplesPerFrame (data ! 0) 48000 \<le> 5760"
    using samplesPerFrame_le [of "data ! 0"] by linarith
  then have h: "header_ok data sd (p\<lparr>ps_count := 1\<rparr>)" if "?c = 0"
    using p pl that by (auto simp: parser_ok_defs declares_def declared_count_def)
  have "uint ?c < 4" by (simp add: uint_and_u8)
  then have c3: "?c = 3" if "?c \<noteq> 0" "?c \<noteq> 1" "?c \<noteq> 2"
    using that by (auto simp: word_uint_eq_iff) (smt (verit) uint_nonnegative)
  have "ps_pos p = 1" by (simp add: p_def)
  then have sw: "sat ?sw (\<lambda>e. e = ErrInvalidPacket) (header_ok data sd)"
    using h c3 parseCode1_sat [OF p(1,2), of sd] parseCode2_sat [OF p, of sd]
      parseCode3_sat [OF p(1,2) False, of sd] by (auto simp: declares_def declared_count_def)
  show ?thesis
    unfolding eq sat_bnd
    by (rule sat_mono [OF sw])
       (use finishNormal_sat [of data] finishSelfDelimited_sat [of data] in \<open>cases sd, auto elim: sat_mono\<close>)
qed

section \<open>Slicing out the frames\<close>

text \<open>The frames of the given lengths, one after the other.\<close>

fun cut :: "bytes \<Rightarrow> int list \<Rightarrow> bytes list" where
  "cut d [] = []"
| "cut d (n # ns) = take (nat n) d # cut (drop (nat n) d) ns"

lemma length_cut [simp]: "length (cut d ns) = length ns"
  by (induction d ns rule: cut.induct) simp_all

lemma concat_cut: "list_all (\<lambda>n. 0 \<le> n) ns \<Longrightarrow> concat (cut d ns) = take (nat (sum_list ns)) d"
proof (induction d ns rule: cut.induct)
  case (2 d n ns)
  then have "0 \<le> sum_list ns" by (intro sum_list_nonneg) (simp add: list_all_iff)
  with 2 show ?case by (simp add: nat_add_distrib take_add)
qed simp

lemma cut_lengths:
  "list_all (\<lambda>n. 0 \<le> n) ns \<Longrightarrow> sum_list ns \<le> len d \<Longrightarrow> map (\<lambda>f. len f) (cut d ns) = ns"
proof (induction d ns rule: cut.induct)
  case (2 d n ns)
  then have "0 \<le> sum_list ns" by (intro sum_list_nonneg) (simp add: list_all_iff)
  with 2 show ?case by (auto simp: min_def)
qed simp

lemma cut_concat: "cut (concat fs @ rest) (map (\<lambda>f. len f) fs) = fs"
  by (induction fs) auto

lemma fill_frames_eq:
  assumes "0 \<le> i" "0 \<le> pos" "nat i + n \<le> length sizes" "nat i + n \<le> length fs"
    "list_all (\<lambda>s. 0 \<le> s) (take n (drop (nat i) sizes))"
    "pos + sum_list (take n (drop (nat i) sizes)) \<le> len data"
  shows "fill_frames n i pos data sizes fs =
    Ok (take (nat i) fs @ cut (drop (nat pos) data) (take n (drop (nat i) sizes)) @ drop (nat i + n) fs,
        pos + sum_list (take n (drop (nat i) sizes)), None)"
  using assms
proof (induction n arbitrary: i pos fs)
  case 0
  then show ?case by simp
next
  case (Suc n)
  let ?s = "sizes ! nat i"
  have dr: "drop (nat i) sizes = ?s # drop (Suc (nat i)) sizes"
    using Suc.prems by (simp add: Cons_nth_drop_Suc)
  have s: "0 \<le> ?s" and rest: "list_all (\<lambda>s. 0 \<le> s) (take n (drop (Suc (nat i)) sizes))"
    and bound: "pos + ?s + sum_list (take n (drop (Suc (nat i)) sizes)) \<le> len data"
    using Suc.prems(5,6) by (simp_all add: dr)
  have "0 \<le> sum_list (take n (drop (Suc (nat i)) sizes))"
    using rest by (intro sum_list_nonneg) (simp add: list_all_iff)
  with bound have le: "pos + ?s \<le> len data" by linarith
  have i1: "nat (i + 1) = Suc (nat i)" using Suc.prems(1) by simp
  have tk: "take (Suc (nat i)) (fs[nat i := v]) = take (nat i) fs @ [v]" for v
    using Suc.prems by (simp add: take_Suc_conv_app_nth)
  have np: "nat (pos + ?s) = nat ?s + nat pos" using Suc.prems s by (simp add: nat_add_distrib)
  let ?fs = "fs[nat i := take (nat ?s) (drop (nat pos) data)]"
  have IH: "fill_frames n (i + 1) (pos + ?s) data sizes ?fs =
    Ok (take (Suc (nat i)) ?fs @ cut (drop (nat (pos + ?s)) data) (take n (drop (Suc (nat i)) sizes))
          @ drop (Suc (nat i) + n) ?fs,
        pos + ?s + sum_list (take n (drop (Suc (nat i)) sizes)), None)"
    using Suc.IH [of "i + 1" "pos + ?s" ?fs] Suc.prems s rest bound by (simp add: i1)
  have dc: "drop (Suc (nat i) + n) ?fs = drop (nat i + Suc n) fs" by (simp add: drop_update_cancel)
  have il: "i < len sizes" "i < len fs" using Suc.prems(1,3,4) by linarith+
  have st: "fill_frames (Suc n) i pos data sizes fs = fill_frames n (i + 1) (pos + ?s) data sizes ?fs"
    using Suc.prems(1,2) s le il by (simp add: idx_def slice_def upd_def)
  show ?case
    unfolding st IH dc by (simp add: tk dr np)
qed

text \<open>The packet that a successful run describes.\<close>

definition packet_of :: "bytes \<Rightarrow> parser \<Rightarrow> Packet" where
  "packet_of data p =
     (let ns = take (nat (ps_count p)) (ps_sizes p); e = ps_pos p + sum_list ns in
      \<lparr>pk_TOC = \<lparr>toc_b = data ! 0\<rparr>, pk_Frames = cut (drop (nat (ps_pos p)) data) ns,
       pk_Padding = take (nat (ps_pad p)) (drop (nat e) data), pk_Consumed = e + ps_pad p\<rparr>)"

lemma parsed_ok_count: "parsed_ok data p \<Longrightarrow> 1 \<le> ps_count p \<and> ps_count p \<le> 48"
  using count_le_48 [of data p] by (auto simp: parsed_ok_def count_ok_def)

text \<open>After a successful run the bounds checks of \<^verbatim>\<open>fillPacket\<close> never fire.\<close>

lemma fillPacket_eq:
  assumes "parsed_ok data p" "length (pk_Frames dst) = nat (ps_count p)"
  shows "fillPacket p data dst = Ok (dst\<lparr>pk_TOC := pk_TOC (packet_of data p),
     pk_Frames := pk_Frames (packet_of data p), pk_Padding := pk_Padding (packet_of data p),
     pk_Consumed := pk_Consumed (packet_of data p)\<rparr>, None)"
proof -
  let ?ns = "take (nat (ps_count p)) (ps_sizes p)"
  have ns: "list_all (\<lambda>s. 0 \<le> s) ?ns" using assms(1) by (auto simp: parsed_ok_def list_all_iff)
  then have "0 \<le> sum_list ?ns" by (intro sum_list_nonneg) (simp add: list_all_iff)
  then show ?thesis
    using assms ns parsed_ok_count [OF assms(1)]
    by (auto simp: fillPacket_def fill_frames_eq parsed_ok_def packet_of_def Let_def slice_def idx_def
        MaxFrames_def)
qed

lemma parse_eq: "parse data sd = bnd (run (new_parser data) sd) (\<lambda>p. Ok (packet_of data p))"
proof (cases "run (new_parser data) sd")
  case (Ok p)
  then have "parsed_ok data p" using run_sat [of data sd] by auto
  then have "fillPacket p data (empty_packet\<lparr>pk_Frames := replicate (nat (ps_count p)) []\<rparr>)
      = Ok (packet_of data p, None)"
    by (subst fillPacket_eq) (simp_all add: empty_packet_def)
  with Ok show ?thesis by (simp add: parse_def)
qed (simp_all add: parse_def)

lemma packet_of_facts:
  assumes "parsed_ok data p"
  defines "pkt \<equiv> packet_of data p"
  shows "data = take (nat (ps_pos p)) data @ concat (pk_Frames pkt) @ pk_Padding pkt
           @ drop (nat (pk_Consumed pkt)) data"
    and "len (pk_Frames pkt) = ps_count p"
    and "list_all (\<lambda>f. len f \<le> 1275) (pk_Frames pkt)"
    and "pk_Consumed pkt \<le> len data" and "0 < ps_pos p"
    and "pk_Consumed pkt = ps_pos p + len (concat (pk_Frames pkt)) + len (pk_Padding pkt)"
proof -
  let ?ns = "take (nat (ps_count p)) (ps_sizes p)"
  have ns: "list_all (\<lambda>s. 0 \<le> s) ?ns" using assms(1) by (auto simp: parsed_ok_def list_all_iff)
  then have sum: "0 \<le> sum_list ?ns" by (intro sum_list_nonneg) (simp add: list_all_iff)
  note c = parsed_ok_count [OF assms(1)]
  have ok: "1 \<le> ps_pos p" "0 \<le> ps_pad p" "ps_pos p + sum_list ?ns + ps_pad p \<le> len data"
    "length (ps_sizes p) = 48" "list_all (\<lambda>s. 0 \<le> s \<and> s \<le> 1275) ?ns"
    using assms(1) by (simp_all add: parsed_ok_def MaxFrames_def)
  have fr: "concat (pk_Frames pkt) = take (nat (sum_list ?ns)) (drop (nat (ps_pos p)) data)"
    using concat_cut [OF ns] by (simp add: pkt_def packet_of_def Let_def)
  show "data = take (nat (ps_pos p)) data @ concat (pk_Frames pkt) @ pk_Padding pkt
           @ drop (nat (pk_Consumed pkt)) data"
    using ok sum list_split4 [of data "nat (ps_pos p)" "nat (sum_list ?ns)" "nat (ps_pad p)"]
    unfolding fr by (simp add: pkt_def packet_of_def Let_def nat_add_distrib)
  show "len (pk_Frames pkt) = ps_count p"
    using c ok by (auto simp: pkt_def packet_of_def Let_def min_def)
  have "map (\<lambda>f. len f) (pk_Frames pkt) = ?ns"
    using cut_lengths [OF ns, of "drop (nat (ps_pos p)) data"] ok sum
    by (simp add: pkt_def packet_of_def Let_def)
  then have "list_all (\<lambda>s. s \<le> 1275) (map (\<lambda>f. len f) (pk_Frames pkt))"
    using ok(5) by (simp add: list_all_iff)
  then show "list_all (\<lambda>f. len f \<le> 1275) (pk_Frames pkt)" by (simp add: list_all_iff)
  show "pk_Consumed pkt \<le> len data" "0 < ps_pos p"
    using ok by (simp_all add: pkt_def packet_of_def Let_def)
  show "pk_Consumed pkt = ps_pos p + len (concat (pk_Frames pkt)) + len (pk_Padding pkt)"
    unfolding fr using ok sum by (simp add: pkt_def packet_of_def Let_def)
qed

section \<open>Properties of the parser\<close>

text \<open>
  The contract of a parsed packet: the input is a nonempty header, the frames in order, the
  padding and, for self-delimited framing only, bytes of the next packet; \<^verbatim>\<open>Consumed\<close> points
  right behind the padding; there are 1 to 48 frames of at most 1275 bytes each, and they
  last at most 120 ms.
\<close>

definition well_framed :: "bytes \<Rightarrow> bool \<Rightarrow> Packet \<Rightarrow> bool" where
  "well_framed data sd pkt \<longleftrightarrow>
     (\<exists>hdr rest. hdr \<noteq> [] \<and> data = hdr @ concat (pk_Frames pkt) @ pk_Padding pkt @ rest
        \<and> pk_Consumed pkt = len data - len rest \<and> (sd \<or> rest = []))
     \<and> pk_TOC pkt = ParseTOC (data ! 0)
     \<and> 1 \<le> length (pk_Frames pkt) \<and> length (pk_Frames pkt) \<le> MaxFrames
     \<and> list_all (\<lambda>f. len f \<le> 1275) (pk_Frames pkt)
     \<and> Duration pkt 48000 \<le> 5760"

lemma packet_of_well_framed:
  assumes "parsed_ok data p"
    "sd \<or> ps_pos p + sum_list (take (nat (ps_count p)) (ps_sizes p)) + ps_pad p = len data"
  shows "well_framed data sd (packet_of data p)"
proof -
  note f = packet_of_facts [OF assms(1)]
  have toc: "pk_TOC (packet_of data p) = ParseTOC (data ! 0)"
    by (simp add: packet_of_def ParseTOC_def Let_def)
  have "ps_count p * samplesPerFrame (data ! 0) 48000 \<le> 5760"
    using assms(1) by (simp add: parsed_ok_def count_ok_def mult.commute)
  then have dur: "Duration (packet_of data p) 48000 \<le> 5760"
    using f(2) by (simp add: Duration_def toc TOC_SamplesPerFrame_def ParseTOC_def)
  have "0 \<le> pk_Consumed (packet_of data p)" using f(5,6) by linarith
  then have con: "pk_Consumed (packet_of data p) = len data - len (drop (nat (pk_Consumed (packet_of data p))) data)"
    using f(4) by simp
  have rest: "sd \<or> drop (nat (pk_Consumed (packet_of data p))) data = []"
    using assms(2) by (auto simp: packet_of_def Let_def)
  have hdr: "take (nat (ps_pos p)) data \<noteq> []"
    using f(5) assms(1) by (simp add: parsed_ok_def)
  have cnt: "1 \<le> length (pk_Frames (packet_of data p))" "length (pk_Frames (packet_of data p)) \<le> MaxFrames"
    using f(2) parsed_ok_count [OF assms(1)] by (auto simp: MaxFrames_def)
  show ?thesis
    unfolding well_framed_def using f(1,3) toc dur con rest hdr cnt by blast
qed

lemma parse_safe:
  "sat (parse data sd) (\<lambda>e. e = ErrInvalidPacket) (well_framed data sd)"
  unfolding parse_eq sat_bnd
  by (rule sat_mono [OF run_sat]) (auto intro: packet_of_well_framed)

text \<open>
  C5: parsing never panics, whatever the bytes; the only error it returns is
  \<^verbatim>\<open>ErrInvalidPacket\<close>; and a packet it returns is well framed.
\<close>

theorem parse_sound:
  "sat (parse data sd) (\<lambda>e. e = ErrInvalidPacket) (well_framed data sd)"
  by (rule parse_safe)

text \<open>
  C38: \<^verbatim>\<open>ParseInto\<close> is \<^verbatim>\<open>Parse\<close>: on success the destination is the packet \<^verbatim>\<open>Parse\<close> returns and
  the slot array holds its frames followed by cleared slots; on an error the destination's
  frames and padding and the whole array are cleared and the error is the same.  Nothing of
  an earlier packet survives, for either framing.
\<close>

theorem parseInto_refines_parse:
  assumes "length frames = MaxFrames"
  shows "parseInto data dst frames sd =
    (case parse data sd of
       Ok pkt \<Rightarrow> Ok (pkt, pk_Frames pkt @ replicate (MaxFrames - length (pk_Frames pkt)) [], None)
     | Err e \<Rightarrow> Ok (dst\<lparr>pk_Frames := [], pk_Padding := []\<rparr>, replicate MaxFrames [], Some e)
     | Panic \<Rightarrow> Panic)"
proof (cases "run (new_parser data) sd")
  case (Ok p)
  then have p: "parsed_ok data p" using run_sat [of data sd] by auto
  note c = parsed_ok_count [OF p]
  have sl: "(slice frames 0 (ps_count p) :: (perr, bytes list) res) = Ok (take (nat (ps_count p)) frames)"
    using c assms by (simp add: slice_def MaxFrames_def)
  have l: "length (pk_Frames (packet_of data p)) = nat (ps_count p)"
    using packet_of_facts(2) [OF p] by simp
  have "fillPacket p data (dst\<lparr>pk_Frames := take (nat (ps_count p)) frames\<rparr>) = Ok (packet_of data p, None)"
    using c assms by (subst fillPacket_eq [OF p]) (auto simp: MaxFrames_def)
  with Ok sl l show ?thesis by (simp add: parseInto_def parse_eq)
qed (use run_sat [of data sd] in \<open>auto simp: parseInto_def parse_eq\<close>)

text \<open>Used on a packet and an array left over from another packet.\<close>

theorem parseInto_refines_parse_witness:
  "parseInto [8, 7] (empty_packet\<lparr>pk_Padding := [9]\<rparr>) (replicate MaxFrames [5]) False =
    (case parse [8, 7] False of
       Ok pkt \<Rightarrow> Ok (pkt, pk_Frames pkt @ replicate (MaxFrames - length (pk_Frames pkt)) [], None)
     | Err e \<Rightarrow> Ok (empty_packet\<lparr>pk_Padding := [9], pk_Frames := [], pk_Padding := []\<rparr>,
                    replicate MaxFrames [], Some e)
     | Panic \<Rightarrow> Panic)"
  using parseInto_refines_parse
    [of "replicate MaxFrames [5]" "[8, 7]" "empty_packet\<lparr>pk_Padding := [9]\<rparr>" False] by simp

lemma CountFrames_declared:
  "data \<noteq> [] \<Longrightarrow> 1 \<le> declared_count data \<Longrightarrow> data ! 0 AND 3 = 3 \<longrightarrow> 2 \<le> length data \<Longrightarrow>
   CountFrames data = Ok (declared_count data)"
  by (auto simp: CountFrames_def declared_count_def idx_def Let_def Suc_le_eq)

lemma samples_within_limit:
  assumes "list_all (\<lambda>fs. 1000000 * spf fs = fs * d) rates" "n * spf 48000 \<le> 5760"
    "1000000 * spf 48000 = 48000 * d" "list_all (\<lambda>fs. 0 \<le> fs) rates" "0 \<le> n"
  shows "list_all (\<lambda>fs. n * spf fs * 25 \<le> fs * (3::int)) rates"
proof -
  have nd: "n * d \<le> 120000"
  proof -
    have "1000000 * (n * spf 48000) = 48000 * (n * d)"
      using assms(3) by (metis mult.left_commute)
    with assms(2) show ?thesis by linarith
  qed
  have "n * spf fs * 25 \<le> fs * 3" if "fs \<in> set rates" for fs
  proof -
    have "0 \<le> fs" "1000000 * spf fs = fs * d" using that assms(1,4) by (auto simp: list_all_iff)
    then have "1000000 * (n * spf fs) = fs * (n * d)" by (simp add: algebra_simps)
    also have "\<dots> \<le> fs * 120000" using nd \<open>0 \<le> fs\<close> by (rule mult_left_mono)
    finally show ?thesis by linarith
  qed
  then show ?thesis by (simp add: list_all_iff)
qed

text \<open>
  C39: the counters agree with the parser: for every packet that parses, \<^verbatim>\<open>CountFrames\<close> is the
  number of frames and, at every rate Opus accepts, \<^verbatim>\<open>Samples\<close> returns the packet's duration
  (so it never reports more than 120 ms for a parsed packet).
\<close>

theorem counters_agree_with_parse:
  "sat (parse data False) (\<lambda>_. True) (\<lambda>pkt.
     CountFrames data = Ok (len (pk_Frames pkt))
     \<and> list_all (\<lambda>fs. Samples data fs = Ok (Duration pkt fs)) [8000, 12000, 16000, 24000, 48000])"
proof -
  have "CountFrames data = Ok (len (pk_Frames (packet_of data p)))
     \<and> list_all (\<lambda>fs. Samples data fs = Ok (Duration (packet_of data p) fs)) [8000, 12000, 16000, 24000, 48000]"
    if p: "parsed_ok data p" for p
  proof -
    note f = packet_of_facts [OF p]
    have d: "data \<noteq> []" "declared_count data = ps_count p" "1 \<le> ps_count p"
      "data ! 0 AND 3 = 3 \<longrightarrow> 2 \<le> length data"
      using p by (auto simp: parsed_ok_def count_ok_def declares_def)
    have toc: "pk_TOC (packet_of data p) = ParseTOC (data ! 0)"
      by (simp add: packet_of_def ParseTOC_def Let_def)
    have cf: "CountFrames data = Ok (ps_count p)"
      using CountFrames_declared [of data] d by simp
    have "ps_count p * samplesPerFrame (data ! 0) 48000 \<le> 5760"
      using p by (simp add: parsed_ok_def count_ok_def mult.commute)
    then have "list_all (\<lambda>fs. ps_count p * TOC_SamplesPerFrame (ParseTOC (data ! 0)) fs * 25 \<le> fs * 3)
        [8000, 12000, 16000, 24000, 48000]"
      using d by (intro samples_within_limit [OF samplesPerFrame_duration])
        (use samplesPerFrame_duration [of "data ! 0"] in \<open>auto simp: TOC_SamplesPerFrame_def ParseTOC_def\<close>)
    with cf f(2) d(1) show ?thesis
      by (simp add: Samples_def idx_def Duration_def toc TOC_SamplesPerFrame_def ParseTOC_def linorder_not_less)
  qed
  then show ?thesis
    unfolding parse_eq sat_bnd sat_Ok by (intro sat_conseq [OF run_sat]) blast+
qed

end
