(* ===== verification/Repacketizer.thy ===== *)
theory Repacketizer
  imports Parse
begin

text \<open>
  The repacketizer (\<^verbatim>\<open>internal/packet/repacketizer.go\<close>): it gathers the frames of several
  packets of one configuration and writes any range of them as a new packet, with the
  shortest of the four frame-count codes, optionally padded.  The output buffer is a byte
  list that the writers update in place; every write is a checked access.  Where the writer
  returns an error, what it has already written to the buffer is not part of the result.
\<close>

record Repacketizer =
  rp_toc :: u8
  rp_nbFrames :: int
  rp_frames :: "bytes list"
  rp_framesize :: int

definition NewRepacketizer :: Repacketizer where
  "NewRepacketizer = \<lparr>rp_toc = 0, rp_nbFrames = 0, rp_frames = replicate MaxFrames [], rp_framesize = 0\<rparr>"

definition Init :: "Repacketizer \<Rightarrow> Repacketizer" where
  "Init rp = rp\<lparr>rp_nbFrames := 0\<rparr>"

definition GetNbFrames :: "Repacketizer \<Rightarrow> int" where
  "GetNbFrames rp = rp_nbFrames rp"

section \<open>Gathering frames\<close>

text \<open>
  \<^verbatim>\<open>catImpl\<close> mutates its receiver and returns an error or nil: the model returns both.  The
  frames are parsed straight into the slots from \<^verbatim>\<open>nbFrames\<close> on.
\<close>

definition catImpl :: "Repacketizer \<Rightarrow> bytes \<Rightarrow> bool \<Rightarrow> (perr, Repacketizer \<times> perr option) res" where
  "catImpl rp data selfDelimited =
     (if len data < 1 then Ok (rp, Some ErrInvalidPacket)
      else bnd (idx data 0) (\<lambda>b0.
        if rp_nbFrames rp \<noteq> 0 \<and> rp_toc rp AND 0xFC \<noteq> b0 AND 0xFC then Ok (rp, Some ErrInvalidPacket)
        else
          let rp = (if rp_nbFrames rp = 0
                    then rp\<lparr>rp_toc := b0, rp_framesize := samplesPerFrame b0 8000\<rparr> else rp) in
          case run (new_parser data) selfDelimited of
            Panic \<Rightarrow> Panic
          | Err e \<Rightarrow> Ok (rp, Some e)
          | Ok p \<Rightarrow>
              if ps_count p < 1 then Ok (rp, Some ErrInvalidPacket)
              else if (ps_count p + rp_nbFrames rp) * rp_framesize rp > 960
                then Ok (rp, Some ErrInvalidPacket)
              else if rp_nbFrames rp + ps_count p > int MaxFrames then Ok (rp, Some ErrInvalidPacket)
              else
                bnd (slice (rp_frames rp) (rp_nbFrames rp) (rp_nbFrames rp + ps_count p)) (\<lambda>fs.
                bnd (fillPacket p data (empty_packet\<lparr>pk_Frames := fs\<rparr>)) (\<lambda>(pkt, e).
                bnd (copy_at (rp_frames rp) (rp_nbFrames rp) (pk_Frames pkt)) (\<lambda>frames.
                let rp = rp\<lparr>rp_frames := frames\<rparr> in
                case e of
                  Some e \<Rightarrow> Ok (rp, Some e)
                | None \<Rightarrow> Ok (rp\<lparr>rp_nbFrames := rp_nbFrames rp + ps_count p\<rparr>, None))))))"

definition Cat :: "Repacketizer \<Rightarrow> bytes \<Rightarrow> (perr, Repacketizer \<times> perr option) res" where
  "Cat rp data = catImpl rp data False"

section \<open>Writing the header\<close>

definition selfDelimHeaderSize :: "bytes list \<Rightarrow> bool \<Rightarrow> (perr, int) res" where
  "selfDelimHeaderSize frames selfDelimited =
     (if \<not> selfDelimited then Ok 0
      else bnd (idx frames (len frames - 1)) (\<lambda>f.
        if len f \<ge> 252 then Ok 2 else Ok 1))"

text \<open>\<^verbatim>\<open>encodeSize(n, data[ptr:])\<close> writes through to \<^verbatim>\<open>data\<close>.\<close>

definition encodeSize_at :: "int \<Rightarrow> bytes \<Rightarrow> int \<Rightarrow> (perr, int \<times> bytes) res" where
  "encodeSize_at n data ptr =
     bnd (slice_from data ptr) (\<lambda>d.
     bnd (encodeSize n d) (\<lambda>(k, d). Ok (k, take (nat ptr) data @ d)))"

definition writeTwoFrames :: "Repacketizer \<Rightarrow> bytes \<Rightarrow> bytes list \<Rightarrow> int
    \<Rightarrow> (perr, int \<times> int \<times> bytes) res" where
  "writeTwoFrames rp data frames totSize =
     (let maxlen = len data in
      bnd (idx frames 0) (\<lambda>f0.
      bnd (idx frames 1) (\<lambda>f1.
      if len f1 = len f0 then
        let totSize = totSize + 2 * len f0 + 1 in
        if totSize > maxlen then Err ErrBufferTooSmall
        else bnd (upd data 0 ((rp_toc rp AND 0xFC) OR 0x1)) (\<lambda>data. Ok (1, totSize, data))
      else
        let totSize = totSize + len f0 + len f1 + 2;
            totSize = (if len f0 \<ge> 252 then totSize + 1 else totSize) in
        if totSize > maxlen then Err ErrBufferTooSmall
        else bnd (upd data 0 ((rp_toc rp AND 0xFC) OR 0x2)) (\<lambda>data.
             bnd (encodeSize_at (len f0) data 1) (\<lambda>(k, data).
             Ok (1 + k, totSize, data))))))"

text \<open>The loop that looks for a frame of another length than the first.\<close>

fun is_vbr :: "nat \<Rightarrow> bytes list \<Rightarrow> bool" where
  "is_vbr l0 [] = False"
| "is_vbr l0 (f # fs) = (if length f \<noteq> l0 then True else is_vbr l0 fs)"

text \<open>\<^verbatim>\<open>for i := range count - 1\<close>, the size loop and the length-field loop.\<close>

fun vbr_size :: "bytes list \<Rightarrow> int \<Rightarrow> int" where
  "vbr_size [] totSize = totSize"
| "vbr_size (f # fs) totSize =
     (let totSize = totSize + 1 + len f in
      vbr_size fs (if len f \<ge> 252 then totSize + 1 else totSize))"

fun write_lengths :: "bytes list \<Rightarrow> bytes \<Rightarrow> int \<Rightarrow> (perr, int \<times> bytes) res" where
  "write_lengths [] data ptr = Ok (ptr, data)"
| "write_lengths (f # fs) data ptr =
     bnd (encodeSize_at (len f) data ptr) (\<lambda>(k, data). write_lengths fs data (ptr + k))"

fun write_run :: "nat \<Rightarrow> u8 \<Rightarrow> bytes \<Rightarrow> int \<Rightarrow> (perr, int \<times> bytes) res" where
  "write_run 0 v data ptr = Ok (ptr, data)"
| "write_run (Suc n) v data ptr = bnd (upd data ptr v) (\<lambda>data. write_run n v data (ptr + 1))"

definition writePadding :: "bytes \<Rightarrow> int \<Rightarrow> int \<Rightarrow> int \<Rightarrow> (perr, int \<times> bytes) res" where
  "writePadding data ptr totSize padAmount =
     (let maxlen = len data in
      bnd (idx data 1) (\<lambda>b1.
      bnd (upd data 1 (b1 OR 0x40)) (\<lambda>data.
      let nb255s = (padAmount - 1) sdiv 255 in
      if totSize + nb255s + 1 > maxlen then Err ErrBufferTooSmall
      else bnd (write_run (nat nb255s) 255 data ptr) (\<lambda>(ptr, data).
           bnd (upd data ptr (word_of_int (padAmount - 255 * nb255s - 1))) (\<lambda>data.
           Ok (ptr + 1, data))))))"

definition writeCode3 :: "Repacketizer \<Rightarrow> bytes \<Rightarrow> bytes list \<Rightarrow> bool \<Rightarrow> bool
    \<Rightarrow> (perr, int \<times> int \<times> bytes) res" where
  "writeCode3 rp data frames selfDelimited pad =
     (let count = length frames; maxlen = len data in
      bnd (selfDelimHeaderSize frames selfDelimited) (\<lambda>totSize.
      bnd (idx frames 0) (\<lambda>f0.
      let vbr = is_vbr (length f0) (tl frames);
          totSize = (if vbr then vbr_size (butlast frames) (totSize + 2) + len (last frames)
                     else totSize + int count * len f0 + 2) in
      if totSize > maxlen then Err ErrBufferTooSmall
      else
        bnd (upd data 0 ((rp_toc rp AND 0xFC) OR 0x3)) (\<lambda>data.
        bnd (upd data 1 (if vbr then word_of_nat count OR 0x80 else word_of_nat count)) (\<lambda>data.
        let padAmount = (if pad then maxlen - totSize else 0) in
        bnd (if padAmount \<noteq> 0 then writePadding data 2 totSize padAmount else Ok (2, data))
          (\<lambda>(ptr, data).
        let totSize = (if padAmount \<noteq> 0 then totSize + padAmount else totSize) in
        bnd (if vbr then write_lengths (butlast frames) data ptr else Ok (ptr, data))
          (\<lambda>(ptr, data).
        Ok (ptr, totSize, data))))))))"

definition writeHeader :: "Repacketizer \<Rightarrow> bytes \<Rightarrow> bytes list \<Rightarrow> bool \<Rightarrow> bool
    \<Rightarrow> (perr, int \<times> int \<times> bytes) res" where
  "writeHeader rp data frames selfDelimited pad =
     (let count = length frames; maxlen = len data in
      bnd (selfDelimHeaderSize frames selfDelimited) (\<lambda>totSize.
      bnd (if count = 1 then
             bnd (idx frames 0) (\<lambda>f0.
             let totSize = totSize + len f0 + 1 in
             if totSize > maxlen then Err ErrBufferTooSmall
             else bnd (upd data 0 (rp_toc rp AND 0xFC)) (\<lambda>data. Ok (1, totSize, data)))
           else if count = 2 then writeTwoFrames rp data frames totSize
           else Ok (0, totSize, data))
        (\<lambda>(ptr, totSize, data).
      if count > 2 \<or> (pad \<and> totSize < maxlen) then writeCode3 rp data frames selfDelimited pad
      else Ok (ptr, totSize, data))))"

section \<open>Writing a packet\<close>

fun copy_frames :: "bytes list \<Rightarrow> bytes \<Rightarrow> int \<Rightarrow> (perr, int \<times> bytes) res" where
  "copy_frames [] data ptr = Ok (ptr, data)"
| "copy_frames (f # fs) data ptr =
     bnd (copy_at data ptr f) (\<lambda>data. copy_frames fs data (ptr + len f))"

definition outRangeImpl :: "Repacketizer \<Rightarrow> int \<Rightarrow> int \<Rightarrow> bytes \<Rightarrow> bool \<Rightarrow> bool
    \<Rightarrow> (perr, int \<times> bytes) res" where
  "outRangeImpl rp lo hi data selfDelimited pad =
     (if lo < 0 \<or> lo \<ge> hi \<or> hi > rp_nbFrames rp then Err ErrBadArg
      else
        bnd (slice (rp_frames rp) lo hi) (\<lambda>frames.
        let maxlen = len data in
        bnd (writeHeader rp data frames selfDelimited pad) (\<lambda>(ptr, totSize, data).
        bnd (if selfDelimited
             then bnd (idx frames (len frames - 1)) (\<lambda>f.
                  bnd (encodeSize_at (len f) data ptr) (\<lambda>(k, data). Ok (ptr + k, data)))
             else Ok (ptr, data)) (\<lambda>(ptr, data).
        bnd (copy_frames frames data ptr) (\<lambda>(ptr, data).
        bnd (if pad then write_run (nat (maxlen - ptr)) 0 data ptr else Ok (ptr, data)) (\<lambda>(ptr, data).
        Ok (totSize, data)))))))"

definition Out :: "Repacketizer \<Rightarrow> bytes \<Rightarrow> (perr, int \<times> bytes) res" where
  "Out rp data = outRangeImpl rp 0 (rp_nbFrames rp) data False False"

definition OutSelfDelimited :: "Repacketizer \<Rightarrow> bytes \<Rightarrow> (perr, int \<times> bytes) res" where
  "OutSelfDelimited rp data = outRangeImpl rp 0 (rp_nbFrames rp) data True False"

definition OutRange :: "Repacketizer \<Rightarrow> int \<Rightarrow> int \<Rightarrow> bytes \<Rightarrow> (perr, int \<times> bytes) res" where
  "OutRange rp lo hi data = outRangeImpl rp lo hi data False False"

text \<open>\<^verbatim>\<open>data[:maxlen]\<close> shares its bytes with \<^verbatim>\<open>data\<close>: the rest of the buffer stays as it is.\<close>

definition OutRangePadded :: "Repacketizer \<Rightarrow> int \<Rightarrow> int \<Rightarrow> bytes \<Rightarrow> int \<Rightarrow> bool
    \<Rightarrow> (perr, int \<times> bytes) res" where
  "OutRangePadded rp lo hi data maxlen pad =
     (if maxlen < 0 \<or> maxlen > len data then Err ErrBadArg
      else bnd (outRangeImpl rp lo hi (take (nat maxlen) data) False pad) (\<lambda>(n, d).
           Ok (n, d @ drop (nat maxlen) data)))"

definition Pad :: "bytes \<Rightarrow> int \<Rightarrow> int \<Rightarrow> (perr, bytes) res" where
  "Pad data l newLen =
     (if l < 1 then Err ErrBadArg
      else if l = newLen then Ok data
      else if l > newLen then Err ErrBadArg
      else if newLen > len data \<or> l > len data then Err ErrBufferTooSmall
      else
        bnd (slice data 0 l) (\<lambda>cp.
        bnd (Cat (Init NewRepacketizer) cp) (\<lambda>(rp, e).
        case e of
          Some e \<Rightarrow> Err e
        | None \<Rightarrow>
            bnd (slice data 0 newLen) (\<lambda>d.
            bnd (outRangeImpl rp 0 (rp_nbFrames rp) d False True) (\<lambda>(n, d).
            if n \<le> 0 then Err ErrInternal else Ok (d @ drop (nat newLen) data))))))"

end
