(* ===== verification/Repack_Props.thy ===== *)
theory Repack_Props
  imports Repacketizer Parse_Props
begin

text \<open>
  The proofs about the repacketizer.  The wire format of RFC 6716, section 3.2, is stated as a
  function of the frames; the writers are shown to produce it, the parser to read it back,
  and from these follow the round trip through the repacketizer, the contract of \<^verbatim>\<open>Cat\<close> and
  the correctness of \<^verbatim>\<open>Pad\<close>.
\<close>

section \<open>The wire format\<close>

text \<open>A frame length on the wire, as RFC 6716 section 3.2.1 lays it out.\<close>

definition enc_len :: "nat \<Rightarrow> bytes" where
  "enc_len n = (if n < 252 then [word_of_nat n]
     else [word_of_nat (252 + n mod 4), word_of_nat ((n - (252 + n mod 4)) div 4)])"

definition sd_field :: "bool \<Rightarrow> bytes list \<Rightarrow> bytes" where
  "sd_field sd fs = (if sd then enc_len (length (last fs)) else [])"

text \<open>Codes 0, 1 and 2: one frame, two of equal length, two of different lengths.\<close>

definition short_header :: "u8 \<Rightarrow> bytes list \<Rightarrow> bytes" where
  "short_header toc fs =
     (if length fs = 1 then [toc AND 0xFC]
      else if length (fs ! 1) = length (fs ! 0) then [(toc AND 0xFC) OR 1]
      else ((toc AND 0xFC) OR 2) # enc_len (length (fs ! 0)))"

definition short_wire :: "u8 \<Rightarrow> bool \<Rightarrow> bytes list \<Rightarrow> bytes" where
  "short_wire toc sd fs = short_header toc fs @ sd_field sd fs @ concat fs"

text \<open>Code 3 with \<open>P\<close> bytes of padding, its length bytes included.\<close>

definition pad_field :: "nat \<Rightarrow> bytes" where
  "pad_field P = (if P = 0 then []
     else replicate ((P - 1) div 255) 255 @ [word_of_nat (P - 1 - 255 * ((P - 1) div 255))])"

definition vbr :: "bytes list \<Rightarrow> bool" where
  "vbr fs = list_ex (\<lambda>f. length f \<noteq> length (hd fs)) (tl fs)"

definition count_byte :: "bool \<Rightarrow> nat \<Rightarrow> bytes list \<Rightarrow> u8" where
  "count_byte v P fs = word_of_nat (length fs) OR (if v then 0x80 else 0) OR (if P = 0 then 0 else 0x40)"

definition vbr_field :: "bytes list \<Rightarrow> bytes" where
  "vbr_field fs = (if vbr fs then concat (map (\<lambda>f. enc_len (length f)) (butlast fs)) else [])"

definition code3_wire :: "u8 \<Rightarrow> bool \<Rightarrow> nat \<Rightarrow> bytes list \<Rightarrow> bytes" where
  "code3_wire toc sd P fs =
     [(toc AND 0xFC) OR 3, count_byte (vbr fs) P fs] @ pad_field P @ vbr_field fs
       @ sd_field sd fs @ concat fs @ replicate (P - length (pad_field P)) 0"

text \<open>What the repacketizer writes into a buffer of \<open>maxlen\<close> bytes, if it fits.\<close>

definition out_wire :: "u8 \<Rightarrow> bool \<Rightarrow> bool \<Rightarrow> nat \<Rightarrow> bytes list \<Rightarrow> bytes option" where
  "out_wire toc sd pad maxlen fs =
     (let short = short_wire toc sd fs; long = code3_wire toc sd 0 fs;
          padded = code3_wire toc sd (if pad then maxlen - length long else 0) fs in
      if length fs \<le> 2 then
        (if length short > maxlen then None
         else if pad \<and> length short < maxlen then Some padded else Some short)
      else if length long > maxlen then None else Some padded)"

section \<open>Writers\<close>

lemma length_enc_len: "length (enc_len n) = (if n < 252 then 1 else 2)"
  by (simp add: enc_len_def)

lemma pad_field_length: "P \<noteq> 0 \<Longrightarrow> length (pad_field P) = (P - 1) div 255 + 1"
  by (simp add: pad_field_def)

lemma pad_field_le: "length (pad_field P) \<le> P"
  by (cases "P = 0") (simp_all add: pad_field_def, linarith?)

lemma length_code3_wire: "length (code3_wire toc sd P fs) = length (code3_wire toc sd 0 fs) + P"
  using pad_field_le [of P] by (simp add: code3_wire_def pad_field_def [of 0])

lemma upd_prefix: "r \<noteq> [] \<Longrightarrow> upd (w @ r) (len w) v = Ok (w @ v # drop 1 r)"
  by (cases r) (simp_all add: upd_def)

lemma encodeSize_enc:
  assumes "n \<le> 1275" "length (enc_len n) \<le> length r"
  shows "encodeSize (int n) r = Ok (len (enc_len n), enc_len n @ drop (length (enc_len n)) r)"
proof (cases "n < 252")
  case True
  with assms(2) have "r \<noteq> []" by (auto simp: enc_len_def)
  then obtain a r' where "r = a # r'" by (cases r) auto
  with True show ?thesis by (simp add: encodeSize_def enc_len_def upd_def)
next
  case False
  with assms(2) have "2 \<le> length r" by (simp add: enc_len_def)
  then obtain a b r' where r: "r = a # b # r'"
    by (metis One_nat_def Suc_1 Suc_le_length_iff)
  have md: "int n AND 3 = int (n mod 4)" by (simp add: int_and_mask of_nat_mod)
  have "n mod 4 < 4" by simp
  then have "int (n mod 4) < 4" by linarith
  then have u: "uint (252 + word_of_nat (n mod 4) :: u8) = 252 + int (n mod 4)"
    using uint_word_of_int_u8 [of "252 + int (n mod 4)"] by simp
  define m where "m = n - (252 + n mod 4)"
  have "252 + n mod 4 \<le> n" using False by presburger
  then have im: "int n - (252 + int (n mod 4)) = int m" by (simp add: m_def)
  have d: "drop_bit 2 (int m) = int (m div 4)" by (simp add: drop_bit_eq_div)
  show ?thesis
    using False by (simp add: encodeSize_def enc_len_def upd_def r md u im d idx_def flip: m_def)
qed

lemma encodeSize_at_enc:
  assumes "n \<le> 1275" "length (enc_len n) \<le> length r"
  shows "encodeSize_at (int n) (w @ r) (len w) =
    Ok (len (enc_len n), w @ enc_len n @ drop (length (enc_len n)) r)"
  using encodeSize_enc [OF assms] by (simp add: encodeSize_at_def slice_from_def slice_def)

lemma write_run_eq:
  "n \<le> length r \<Longrightarrow> write_run n v (w @ r) (len w) = Ok (len w + int n, w @ replicate n v @ drop n r)"
proof (induction n arbitrary: w r)
  case (Suc n)
  then have "r \<noteq> []" by auto
  have "write_run n v ((w @ [v]) @ drop 1 r) (len (w @ [v]))
      = Ok (len (w @ [v]) + int n, (w @ [v]) @ replicate n v @ drop n (drop 1 r))"
    by (rule Suc.IH) (use Suc.prems in simp)
  then show ?case
    by (simp add: upd_prefix [OF \<open>r \<noteq> []\<close>] add.commute add.left_commute)
qed simp

lemma write_lengths_eq:
  assumes "list_all (\<lambda>f. length f \<le> 1275) fs"
    "length (concat (map (\<lambda>f. enc_len (length f)) fs)) \<le> length r"
  shows "write_lengths fs (w @ r) (len w) =
    Ok (len w + len (concat (map (\<lambda>f. enc_len (length f)) fs)),
        w @ concat (map (\<lambda>f. enc_len (length f)) fs)
          @ drop (length (concat (map (\<lambda>f. enc_len (length f)) fs))) r)"
  using assms
proof (induction fs arbitrary: w r)
  case (Cons f fs)
  let ?e = "enc_len (length f)"
  have 1: "encodeSize_at (len f) (w @ r) (len w) = Ok (len ?e, (w @ ?e) @ drop (length ?e) r)"
    using encodeSize_at_enc [of "length f" r w] Cons.prems by simp
  have 2: "write_lengths fs ((w @ ?e) @ drop (length ?e) r) (len (w @ ?e)) =
    Ok (len (w @ ?e) + len (concat (map (\<lambda>f. enc_len (length f)) fs)),
        (w @ ?e) @ concat (map (\<lambda>f. enc_len (length f)) fs)
          @ drop (length (concat (map (\<lambda>f. enc_len (length f)) fs))) (drop (length ?e) r))"
    by (rule Cons.IH) (use Cons.prems in auto)
  from 2 show ?case by (simp add: 1 add.commute add.left_commute)
qed simp

lemma copy_frames_eq:
  "length (concat fs) \<le> length r \<Longrightarrow>
   copy_frames fs (w @ r) (len w) = Ok (len w + len (concat fs), w @ concat fs @ drop (length (concat fs)) r)"
proof (induction fs arbitrary: w r)
  case (Cons f fs)
  have 1: "copy_at (w @ r) (len w) f = Ok ((w @ f) @ drop (length f) r)"
    using Cons.prems by (simp add: copy_at_def)
  have 2: "copy_frames fs ((w @ f) @ drop (length f) r) (len (w @ f)) =
    Ok (len (w @ f) + len (concat fs), (w @ f) @ concat fs @ drop (length (concat fs)) (drop (length f) r))"
    by (rule Cons.IH) (use Cons.prems in auto)
  from 2 show ?case by (simp add: 1 add.commute add.left_commute)
qed simp

lemma is_vbr_eq: "is_vbr l fs = list_ex (\<lambda>f. length f \<noteq> l) fs"
  by (induction fs) auto

lemma vbr_size_eq:
  "vbr_size fs t = t + len (concat (map (\<lambda>f. enc_len (length f)) fs)) + len (concat fs)"
  by (induction fs arbitrary: t) (auto simp: Let_def length_enc_len)

lemma selfDelimHeaderSize_eq:
  "fs \<noteq> [] \<Longrightarrow> selfDelimHeaderSize fs sd = Ok (len (sd_field sd fs))"
  by (cases fs rule: rev_cases)
     (auto simp: selfDelimHeaderSize_def sd_field_def idx_def length_enc_len)


section \<open>The repacketizer writes the wire format\<close>

lemma writePadding_eq:
  assumes "P \<noteq> 0" "int tot + int P = len r + 2" "2 \<le> tot"
  shows "writePadding (a # b # r) 2 (int tot) (int P) =
    Ok (2 + len (pad_field P), a # (b OR 0x40) # pad_field P @ drop (length (pad_field P)) r)"
proof -
  define nb where "nb = (P - 1) div 255"
  have nb: "(int P - 1) sdiv 255 = int nb"
    using assms(1) by (simp add: nb_def sdiv_nonneg zdiv_int of_nat_diff)
  have le: "nb + 1 \<le> P" using assms(1) by (simp add: nb_def)
  have lr: "nb + 1 \<le> length r" using le assms by linarith
  have fit: "\<not> int tot + int nb + 1 > len (a # b # r)" using le assms by simp
  have pf: "pad_field P = replicate nb 255 @ [word_of_nat (P - 1 - 255 * nb)]"
    using assms(1) by (simp add: pad_field_def nb_def)
  have "255 * nb \<le> P - 1" by (simp add: nb_def)
  then obtain k where k: "P = k + 255 * nb + 1"
    using assms(1) by (metis Suc_pred' add.commute add_Suc le_add_diff_inverse not_gr0 plus_1_eq_Suc)
  then have v: "word_of_nat P - 255 * word_of_nat nb - 1 = (word_of_nat (P - Suc (255 * nb)) :: u8)"
    by simp
  let ?w = "[a, b OR 0x40]"
  have run: "write_run nb 255 (a # (b OR 0x40) # r) 2
      = Ok (len (?w @ replicate nb 255), (?w @ replicate nb 255) @ drop nb r)"
    using write_run_eq [of nb r 255 ?w] lr by (simp add: add.commute)
  have "(upd ((?w @ replicate nb 255) @ drop nb r) (len (?w @ replicate nb 255)) x :: (perr, bytes) res)
      = Ok ((?w @ replicate nb 255) @ x # drop 1 (drop nb r))" for x
    using lr by (intro upd_prefix) simp
  then show ?thesis
    using fit by (simp add: writePadding_def idx_def upd_def [of "a # b # r"] nb run pf v Let_def
        add.commute)
qed


text \<open>The fields of the header have their lengths from the frames.\<close>

lemma sum_lens: "(\<Sum>f\<leftarrow>fs. len f) = len (concat fs)"
  by (induction fs) auto

lemma vbr_False_lengths:
  "\<not> vbr fs \<Longrightarrow> fs \<noteq> [] \<Longrightarrow> len (concat fs) = len fs * len (hd fs)"
proof (induction fs)
  case (Cons f fs)
  have "len (concat gs) = len gs * len f" if "\<not> list_ex (\<lambda>g. length g \<noteq> length f) gs" for gs
    using that by (induction gs) (auto simp: algebra_simps)
  with Cons.prems show ?case by (auto simp: vbr_def algebra_simps)
qed simp

lemma butlast_last_concat: "fs \<noteq> [] \<Longrightarrow> len (concat (butlast fs)) + len (last fs) = len (concat fs)"
  by (induction fs rule: rev_induct) auto

lemma code3_size:
  assumes "fs \<noteq> []"
  shows "(if vbr fs then vbr_size (butlast fs) (len (sd_field sd fs) + 2) + len (last fs)
          else len (sd_field sd fs) + int (length fs) * len (hd fs) + 2)
    = len (code3_wire toc sd 0 fs)"
  using butlast_last_concat [OF assms] vbr_False_lengths [of fs] assms
  by (auto simp: vbr_size_eq code3_wire_def vbr_field_def pad_field_def)

lemma list_all_butlast: "list_all P xs \<Longrightarrow> list_all P (butlast xs)"
  by (auto simp: list_all_iff dest: in_set_butlastD)

lemma writeCode3_eq:
  assumes fs: "fs \<noteq> []" and sz: "list_all (\<lambda>f. length f \<le> 1275) fs"
    and fit: "length (code3_wire toc sd 0 fs) \<le> length data"
    and P: "P = (if pad then length data - length (code3_wire toc sd 0 fs) else 0)"
    and toc: "rp_toc rp = toc"
  defines "h \<equiv> [(toc AND 0xFC) OR 3, count_byte (vbr fs) P fs] @ pad_field P @ vbr_field fs"
  shows "writeCode3 rp data fs sd pad =
    Ok (len h, len (code3_wire toc sd P fs), h @ drop (length h) data)"
proof -
  let ?N = "length (code3_wire toc sd 0 fs)"
  have "2 \<le> ?N" by (simp add: code3_wire_def)
  with fit have "2 \<le> length data" by linarith
  then obtain a b r where data: "data = a # b # r"
    by (metis One_nat_def Suc_1 Suc_le_length_iff)
  have v: "is_vbr (length (fs ! 0)) (tl fs) = vbr fs"
    using fs by (simp add: vbr_def is_vbr_eq hd_conv_nth)
  have f0: "idx fs 0 = Ok (hd fs)" using fs by (simp add: idx_def hd_conv_nth)
  have P2: "int P = (if pad then len data - int ?N else 0)"
    using fit by (simp add: P of_nat_diff)
  let ?b = "word_of_nat (length fs) OR (if vbr fs then 0x80 else 0) :: u8"
  let ?r = "drop (length (pad_field P)) r"
  have pf: "(if P \<noteq> 0 then writePadding (((toc AND 0xFC) OR 3) # ?b # r) 2 (int ?N) (int P)
       else Ok (2, ((toc AND 0xFC) OR 3) # ?b # r))
     = Ok (len ([(toc AND 0xFC) OR 3, count_byte (vbr fs) P fs] @ pad_field P),
          ([(toc AND 0xFC) OR 3, count_byte (vbr fs) P fs] @ pad_field P) @ ?r)"
  proof (cases "P = 0")
    case True
    then show ?thesis by (simp add: pad_field_def count_byte_def)
  next
    case False
    then have "int ?N + int P = len r + 2" using P fit data by (simp split: if_splits)
    with False show ?thesis
      using writePadding_eq [OF False _ \<open>2 \<le> ?N\<close>] by (simp add: count_byte_def or.assoc)
  qed
  have lr: "length (vbr_field fs) + length (pad_field P) \<le> length r"
    using fit pad_field_le [of P] P data
    by (auto simp: code3_wire_def pad_field_def [of 0] split: if_splits)
  let ?w = "[(toc AND 0xFC) OR 3, count_byte (vbr fs) P fs] @ pad_field P"
  have wl: "(if vbr fs then write_lengths (butlast fs) (?w @ ?r) (len ?w) else Ok (len ?w, ?w @ ?r))
      = Ok (len h, h @ drop (length h) data)"
  proof (cases "vbr fs")
    case True
    then show ?thesis
      using write_lengths_eq [of "butlast fs" ?r ?w] list_all_butlast [OF sz] lr
      by (simp add: h_def vbr_field_def data add.commute)
  next
    case False
    then show ?thesis by (simp add: h_def vbr_field_def data)
  qed
  have sd: "selfDelimHeaderSize fs sd = Ok (len (sd_field sd fs))"
    by (rule selfDelimHeaderSize_eq [OF fs])
  have tot: "(if vbr fs then vbr_size (butlast fs) (len (sd_field sd fs) + 2) + len (last fs)
          else len (sd_field sd fs) + int (length fs) * len (hd fs) + 2) = int ?N"
    by (rule code3_size [OF fs])
  have N: "(if P \<noteq> 0 then int ?N + int P else int ?N) = len (code3_wire toc sd P fs)"
    using length_code3_wire [of toc sd P fs] by simp
  have u: "upd data 0 x = Ok (x # b # r)" "upd (x # b # r) 1 y = Ok (x # y # r)" for x y
    by (simp_all add: data upd_def)
  have f0': "idx fs 0 = Ok (hd fs)" and v': "is_vbr (length (hd fs)) (tl fs) = vbr fs"
    using f0 v fs by (simp_all add: idx_def hd_conv_nth)
  have b1: "(if vbr fs then word_of_nat (length fs) OR 0x80 else word_of_nat (length fs)) = ?b" by simp
  have nf: "\<not> int ?N > len data" using fit by simp
  show ?thesis
    unfolding writeCode3_def Let_def sd f0' bnd.simps v' tot if_not_P [OF nf] toc u b1
      P2 [symmetric] of_nat_eq_0_iff pf prod.case wl N by (rule refl)
qed

lemma length_short_long:
  assumes "fs \<noteq> []" "length fs \<le> 2"
  shows "length (code3_wire toc sd 0 fs) \<le> length (short_wire toc sd fs) + 1"
proof -
  consider f where "fs = [f]" | f g where "fs = [f, g]"
    using assms by (cases fs; cases "tl fs") auto
  then show ?thesis
    by cases (auto simp: code3_wire_def short_wire_def short_header_def pad_field_def vbr_field_def vbr_def)
qed

lemma writeShort_eq:
  assumes "fs \<noteq> []" "length fs \<le> 2" and sz: "list_all (\<lambda>f. length f \<le> 1275) fs"
    and toc: "rp_toc rp = toc" and fit: "length (short_wire toc sd fs) \<le> length data"
  shows "(if length fs = 1 then
             bnd (idx fs 0) (\<lambda>f0.
             let totSize = len (sd_field sd fs) + len f0 + 1 in
             if totSize > len data then Err ErrBufferTooSmall
             else bnd (upd data 0 (rp_toc rp AND 0xFC)) (\<lambda>data. Ok (1, totSize, data)))
           else if length fs = 2 then writeTwoFrames rp data fs (len (sd_field sd fs))
           else Ok (0, len (sd_field sd fs), data))
    = Ok (len (short_header toc fs), len (short_wire toc sd fs),
          short_header toc fs @ drop (length (short_header toc fs)) data)"
proof -
  have "0 < length (short_header toc fs)" by (simp add: short_header_def)
  then have "0 < length (short_wire toc sd fs)" by (simp add: short_wire_def)
  with fit have "0 < length data" by linarith
  then obtain a r where data: "data = a # r" by (cases data) auto
  consider f where "fs = [f]" | f g where "fs = [f, g]"
    using assms by (cases fs; cases "tl fs") auto
  then show ?thesis
  proof cases
    case 1
    then show ?thesis using fit
      by (simp add: short_wire_def short_header_def idx_def upd_def toc data Let_def)
  next
    case (2 f g)
    show ?thesis
    proof (cases "length g = length f")
      case True
      then show ?thesis using 2 fit
        by (simp add: writeTwoFrames_def short_wire_def short_header_def idx_def upd_def toc data Let_def)
    next
      case False
      have "encodeSize_at (len f) ([toc AND 0xFC OR 2] @ r) (len [toc AND 0xFC OR 2])
          = Ok (len (enc_len (length f)), [toc AND 0xFC OR 2] @ enc_len (length f) @ drop (length (enc_len (length f))) r)"
        using sz fit False 2 by (intro encodeSize_at_enc) (simp_all add: data short_wire_def short_header_def)
      then show ?thesis using 2 fit False
        by (auto simp: writeTwoFrames_def short_wire_def short_header_def idx_def upd_def toc data
            Let_def length_enc_len)
    qed
  qed
qed

lemma writeShort_Err:
  assumes "fs \<noteq> []" "length fs \<le> 2" "rp_toc rp = toc" "length data < length (short_wire toc sd fs)"
  shows "(if length fs = 1 then
             bnd (idx fs 0) (\<lambda>f0.
             let totSize = len (sd_field sd fs) + len f0 + 1 in
             if totSize > len data then Err ErrBufferTooSmall
             else bnd (upd data 0 (rp_toc rp AND 0xFC)) (\<lambda>data. Ok (1, totSize, data)))
           else if length fs = 2 then writeTwoFrames rp data fs (len (sd_field sd fs))
           else Ok (0, len (sd_field sd fs), data))
    = Err ErrBufferTooSmall"
proof -
  consider f where "fs = [f]" | f g where "fs = [f, g]"
    using assms by (cases fs; cases "tl fs") auto
  then show ?thesis using assms(4)
    by cases (auto simp: writeTwoFrames_def short_wire_def short_header_def idx_def Let_def length_enc_len)
qed

lemma writeCode3_Err:
  assumes "fs \<noteq> []" "length data < length (code3_wire (rp_toc rp) sd 0 fs)"
  shows "writeCode3 rp data fs sd pad = Err ErrBufferTooSmall"
proof -
  have f0: "idx fs 0 = Ok (hd fs)" and v: "is_vbr (length (hd fs)) (tl fs) = vbr fs"
    using assms(1) by (simp_all add: idx_def hd_conv_nth vbr_def is_vbr_eq)
  have b: "int (length (code3_wire (rp_toc rp) sd 0 fs)) > len data" using assms(2) by simp
  show ?thesis
    unfolding writeCode3_def Let_def selfDelimHeaderSize_eq [OF assms(1)] f0 bnd.simps v
      code3_size [OF assms(1), of sd "rp_toc rp"] if_P [OF b] by (rule refl)
qed

lemma short_header_le:
  assumes "fs \<noteq> []" "length fs \<le> 2"
  shows "length (short_header toc fs) \<le> length ([a, b] @ pad_field P @ vbr_field fs)"
proof -
  consider f where "fs = [f]" | f g where "fs = [f, g]"
    using assms by (cases fs; cases "tl fs") auto
  then show ?thesis by cases (auto simp: short_header_def vbr_field_def vbr_def)
qed

text \<open>The header writer produces a prefix of the wire image, or the buffer-too-small error.\<close>

lemma writeHeader_eq:
  assumes fs: "fs \<noteq> []" and sz: "list_all (\<lambda>f. length f \<le> 1275) fs" and toc: "rp_toc rp = toc"
    and w: "out_wire toc sd pad (length data) fs = Some w"
  obtains h k where "writeHeader rp data fs sd pad = Ok (len h, len w, h @ drop (length h) data)"
    "w = h @ sd_field sd fs @ concat fs @ replicate k 0"
    "length w \<le> length data" "if pad then length w = length data else k = 0"
proof -
  let ?S = "short_wire toc sd fs" and ?L = "code3_wire toc sd 0 fs"
  let ?P = "if pad then length data - length ?L else 0"
  let ?h = "[(toc AND 0xFC) OR 3, count_byte (vbr fs) ?P fs] @ pad_field ?P @ vbr_field fs"
  note sd = selfDelimHeaderSize_eq [OF fs, of sd]
  have long: "writeHeader rp data fs sd pad = Ok (len ?h, len w, ?h @ drop (length ?h) data)
      \<and> w = ?h @ sd_field sd fs @ concat fs @ replicate (?P - length (pad_field ?P)) 0
      \<and> length w \<le> length data \<and> (if pad then length w = length data else ?P - length (pad_field ?P) = 0)"
    if w3: "w = code3_wire toc sd ?P fs" and fit: "length ?L \<le> length data"
      and use: "length fs > 2 \<or> pad \<and> length ?S < length data"
  proof -
    have W: "length w = length ?L + ?P" unfolding w3 by (rule length_code3_wire)
    have wc: "writeCode3 rp d fs sd pad = Ok (len ?h, len w, ?h @ drop (length ?h) d)"
      if "length d = length data" for d
      using writeCode3_eq [OF fs sz _ _ toc, of sd d ?P pad] that fit w3 by simp
    have "writeHeader rp data fs sd pad = Ok (len ?h, len w, ?h @ drop (length ?h) data)"
    proof (cases "length fs > 2")
      case True
      then show ?thesis
        unfolding writeHeader_def Let_def sd bnd.simps by (simp add: wc)
    next
      case False
      then have l2: "length fs \<le> 2" and S: "length ?S < length data" and pad: "pad" using use by auto
      let ?d = "short_header toc fs @ drop (length (short_header toc fs)) data"
      have ld: "length ?d = length data" using S by (simp add: short_wire_def)
      have sh: "length (short_header toc fs) \<le> length ?h" by (rule short_header_le [OF fs l2])
      have dd: "drop (length ?h) ?d = drop (length ?h) data" using sh by simp
      have b: "2 < length fs \<or> pad \<and> len ?S < len data" using S pad by simp
      show ?thesis
        unfolding writeHeader_def Let_def sd bnd.simps
          writeShort_eq [OF fs l2 sz toc less_imp_le [OF S], unfolded Let_def] prod.case if_P [OF b]
          wc [OF ld] dd by (rule refl)
    qed
    moreover have "w = ?h @ sd_field sd fs @ concat fs @ replicate (?P - length (pad_field ?P)) 0"
      unfolding w3 by (simp only: code3_wire_def append_assoc)
    moreover have "length w \<le> length data" "pad \<longrightarrow> length w = length data" using W fit by auto
    ultimately show ?thesis by simp
  qed
  show ?thesis
  proof (cases "length fs > 2 \<or> pad \<and> length ?S < length data")
    case True
    have "length ?L \<le> length data" "w = code3_wire toc sd ?P fs"
      using w True length_short_long [OF fs, of toc sd]
      by (auto simp: out_wire_def Let_def split: if_splits)
    from long [OF this(2,1) True] show ?thesis by (elim conjE) (rule that)
  next
    case False
    then have l2: "length fs \<le> 2" and np: "\<not> (pad \<and> length ?S < length data)" by auto
    then have fit: "length ?S \<le> length data" and w2: "w = ?S"
      using w by (auto simp: out_wire_def Let_def split: if_splits)
    have b: "(2 < length fs) = False" "(pad \<and> len ?S < len data) = False" using l2 np by auto
    have "writeHeader rp data fs sd pad = Ok (len (short_header toc fs), len w,
        short_header toc fs @ drop (length (short_header toc fs)) data)"
      unfolding writeHeader_def Let_def sd bnd.simps
        writeShort_eq [OF fs l2 sz toc fit, unfolded Let_def] prod.case b
      by (simp add: w2)
    moreover have "w = short_header toc fs @ sd_field sd fs @ concat fs @ replicate 0 0"
      by (simp add: w2 short_wire_def)
    moreover have "if pad then length w = length data else 0 = (0::nat)" using np fit by (auto simp: w2)
    ultimately show ?thesis using fit by (intro that [of "short_header toc fs" 0]) (simp_all only: w2)
  qed
qed

lemma writeHeader_Err:
  assumes fs: "fs \<noteq> []" and sz: "list_all (\<lambda>f. length f \<le> 1275) fs"
    and w: "out_wire (rp_toc rp) sd pad (length data) fs = None"
  shows "writeHeader rp data fs sd pad = Err ErrBufferTooSmall"
proof (cases "length fs \<le> 2")
  case True
  then have "length data < length (short_wire (rp_toc rp) sd fs)"
    using w by (auto simp: out_wire_def Let_def split: if_splits)
  note e = writeShort_Err [OF fs True refl this, unfolded Let_def]
  show ?thesis
    unfolding writeHeader_def Let_def selfDelimHeaderSize_eq [OF fs] bnd.simps e by (rule refl)
next
  case False
  then have "length data < length (code3_wire (rp_toc rp) sd 0 fs)"
    using w by (auto simp: out_wire_def Let_def split: if_splits)
  with False show ?thesis
    by (simp add: writeHeader_def selfDelimHeaderSize_eq [OF fs] writeCode3_Err [OF fs])
qed

text \<open>The state of a repacketizer that Cat keeps.\<close>

definition rp_frames_of :: "Repacketizer \<Rightarrow> bytes list" where
  "rp_frames_of rp = take (nat (rp_nbFrames rp)) (rp_frames rp)"

definition rp_ok :: "Repacketizer \<Rightarrow> bool" where
  "rp_ok rp \<longleftrightarrow> 0 \<le> rp_nbFrames rp \<and> rp_nbFrames rp \<le> int MaxFrames
     \<and> length (rp_frames rp) = MaxFrames
     \<and> list_all (\<lambda>f. length f \<le> 1275) (rp_frames_of rp)
     \<and> (rp_nbFrames rp = 0 \<or> rp_framesize rp = samplesPerFrame (rp_toc rp) 8000
          \<and> rp_nbFrames rp * rp_framesize rp \<le> 960)"

definition frames_between :: "Repacketizer \<Rightarrow> int \<Rightarrow> int \<Rightarrow> bytes list" where
  "frames_between rp lo hi = take (nat (hi - lo)) (drop (nat lo) (rp_frames_of rp))"

lemma list_all_take_drop: "list_all P xs \<Longrightarrow> list_all P (take n (drop m xs))"
  by (auto simp: list_all_iff dest: in_set_takeD in_set_dropD)

lemma nat_len_minus_1: "nat (len xs - 1) = length xs - 1"
  by linarith

lemma outRangeImpl_eq:
  assumes ok: "rp_ok rp" and r: "0 \<le> lo" "lo < hi" "hi \<le> rp_nbFrames rp"
  shows "outRangeImpl rp lo hi data sd pad =
    (case out_wire (rp_toc rp) sd pad (length data) (frames_between rp lo hi) of
       None \<Rightarrow> Err ErrBufferTooSmall
     | Some w \<Rightarrow> Ok (len w, w @ drop (length w) data))"
proof -
  define fs where "fs = frames_between rp lo hi"
  have len_fr: "length (rp_frames rp) = 48" "rp_nbFrames rp \<le> 48"
    using ok by (simp_all add: rp_ok_def MaxFrames_def)
  have sl: "slice (rp_frames rp) lo hi = Ok fs"
    using r len_fr by (simp add: slice_def fs_def frames_between_def rp_frames_of_def drop_take min_def)
  have ne: "fs \<noteq> []" using r len_fr by (simp add: fs_def frames_between_def rp_frames_of_def)
  have sz: "list_all (\<lambda>f. length f \<le> 1275) fs"
    using ok unfolding fs_def frames_between_def rp_ok_def by (intro list_all_take_drop) simp
  have b: "\<not> (lo < 0 \<or> hi \<le> lo \<or> rp_nbFrames rp < hi)" using r by simp
  show ?thesis
  proof (cases "out_wire (rp_toc rp) sd pad (length data) fs")
    case None
    then show ?thesis
      using writeHeader_Err [OF ne sz None]
      by (simp add: outRangeImpl_def if_not_P [OF b] sl Let_def flip: fs_def)
  next
    case (Some w)
    obtain h k where h: "writeHeader rp data fs sd pad = Ok (len h, len w, h @ drop (length h) data)"
      and w: "w = h @ sd_field sd fs @ concat fs @ replicate k 0"
      and fit: "length w \<le> length data" and pd: "if pad then length w = length data else k = 0"
      using writeHeader_eq [OF ne sz refl Some] by metis
    let ?r = "drop (length h) data" and ?s = "sd_field sd fs"
    have lf: "idx fs (len fs - 1) = Ok (last fs)" using ne nat_len_minus_1 [of fs] by (simp add: idx_def last_conv_nth)
    have sdw: "(if sd then bnd (idx fs (len fs - 1)) (\<lambda>f.
                  bnd (encodeSize_at (len f) (h @ ?r) (len h)) (\<lambda>(k, data). Ok (len h + k, data)))
             else Ok (len h, h @ ?r)) = Ok (len (h @ ?s), (h @ ?s) @ drop (length ?s) ?r)"
    proof (cases sd)
      case True
      have "length (last fs) \<le> 1275" using ne sz by (simp add: list_all_iff)
      moreover have "length (enc_len (length (last fs))) \<le> length ?r"
        using fit True by (simp add: w sd_field_def)
      ultimately show ?thesis using True by (simp add: lf encodeSize_at_enc sd_field_def)
    qed (simp add: sd_field_def)
    let ?w = "h @ ?s @ concat fs"
    have cp: "copy_frames fs ((h @ ?s) @ drop (length ?s) ?r) (len (h @ ?s))
        = Ok (len ?w, ?w @ drop (length ?w) data)"
      using copy_frames_eq [of fs "drop (length ?s) ?r" "h @ ?s"] fit by (simp add: w add.commute add.left_commute)
    have pw: "(if pad then write_run (nat (len data - len ?w)) 0 (?w @ drop (length ?w) data) (len ?w)
        else Ok (len ?w, ?w @ drop (length ?w) data)) = Ok (len w, w @ drop (length w) data)"
    proof (cases pad)
      case True
      then have "length data = length ?w + k" using pd by (simp add: w)
      then have "nat (len data - len ?w) = k" by simp
      then show ?thesis
        using True write_run_eq [of k "drop (length ?w) data" 0 ?w] fit by (simp add: w add.commute add.left_commute)
    next
      case False
      then show ?thesis using pd by (simp add: w)
    qed
    show ?thesis
      unfolding outRangeImpl_def if_not_P [OF b] sl bnd.simps Let_def h prod.case sdw cp pw
      unfolding fs_def [symmetric] Some by simp
  qed
qed

section \<open>Parsing what was written\<close>

lemma enc_len_decode:
  assumes "n \<le> 1275"
  shows "parseSize (enc_len n @ rest) l =
    (if l < len (enc_len n) then (-1, -1) else (len (enc_len n), int n))"
proof (cases "n < 252")
  case True
  then have "uint (word_of_nat n :: u8) = int n" using uint_word_of_int_u8 [of "int n"] by simp
  with True show ?thesis by (simp add: parseSize_def enc_len_def u8_less_iff)
next
  case False
  let ?r = "n mod 4" and ?q = "(n - (252 + n mod 4)) div 4"
  have r: "?r < 4" by simp
  have le: "252 + ?r \<le> n" using False by presburger
  have q: "?q < 256" using assms by simp
  have n: "4 * ?q + (252 + ?r) = n"
  proof -
    have "(n - (252 + ?r)) mod 4 = 0" using le by presburger
    then have "4 * ?q = n - (252 + ?r)" by presburger
    with le show ?thesis by linarith
  qed
  have u0: "uint (word_of_nat (252 + ?r) :: u8) = int (252 + ?r)"
    using r uint_word_of_int_u8 [of "int (252 + ?r)"] by simp
  have u1: "uint (word_of_nat ?q :: u8) = int ?q"
    using q uint_word_of_int_u8 [of "int ?q"] by simp
  have "4 * int ?q + int (252 + ?r) = int n" using n by linarith
  then show ?thesis
    using False by (auto simp: parseSize_def enc_len_def u8_less_iff u0 u1 simp del: of_nat_add)
qed

lemma parseCode3Padding_forward:
  assumes "v \<noteq> 255" "ps_data p = w @ replicate nb 255 @ [v] @ rest" "ps_pos p = len w"
    "255 * int nb + uint v < ps_remaining p"
  shows "parseCode3Padding p = Ok (p\<lparr>ps_pos := len w + int nb + 1,
     ps_remaining := ps_remaining p - (255 * int nb + uint v + 1),
     ps_pad := ps_pad p + 254 * int nb + uint v\<rparr>)"
  using assms
proof (induction nb arbitrary: w p)
  case 0
  have "uint v \<noteq> 255" using 0(1) by (simp add: word_uint_eq_iff)
  moreover have "0 < ps_remaining p" using 0(4) uint_ge_0 [of v] by linarith
  ultimately show ?case using 0 uint_u8_le [of v]
    by (subst parseCode3Padding.simps) (simp add: idx_def Let_def)
next
  case (Suc nb)
  let ?p = "p\<lparr>ps_pos := len w + 1, ps_remaining := ps_remaining p - 255, ps_pad := ps_pad p + 254\<rparr>"
  have IH: "parseCode3Padding ?p = Ok (?p\<lparr>ps_pos := len (w @ [255]) + int nb + 1,
     ps_remaining := ps_remaining ?p - (255 * int nb + uint v + 1),
     ps_pad := ps_pad ?p + 254 * int nb + uint v\<rparr>)"
    by (rule Suc.IH) (use Suc.prems in auto)
  have "0 < ps_remaining p" using Suc.prems(4) uint_ge_0 [of v] by linarith
  then have "parseCode3Padding p = parseCode3Padding ?p"
    using Suc.prems
    by (subst parseCode3Padding.simps) (simp add: idx_def Let_def)
  also have "\<dots> = Ok (p\<lparr>ps_pos := len w + int (Suc nb) + 1,
     ps_remaining := ps_remaining p - (255 * int (Suc nb) + uint v + 1),
     ps_pad := ps_pad p + 254 * int (Suc nb) + uint v\<rparr>)"
    unfolding IH by (cases p) (simp add: algebra_simps)
  finally show ?case .
qed

lemma parseCode3Padding_pad_field:
  assumes P: "P \<noteq> 0" and d: "ps_data p = w @ pad_field P @ rest" "ps_pos p = len w"
    and r: "int P \<le> ps_remaining p"
  shows "parseCode3Padding p = Ok (p\<lparr>ps_pos := len w + len (pad_field P),
     ps_remaining := ps_remaining p - int P,
     ps_pad := ps_pad p + int (P - length (pad_field P))\<rparr>)"
proof -
  define nb where "nb = (P - 1) div 255"
  define v where "v = (P - 1) mod 255"
  have eq: "P = 255 * nb + v + 1" using P by (simp add: nb_def v_def)
  have v: "v < 255" by (simp add: v_def)
  have pf: "pad_field P = replicate nb 255 @ [word_of_nat v]"
    using eq v by (simp add: pad_field_def P)
  have u: "uint (word_of_nat v :: u8) = int v" using v uint_word_of_int_u8 [of "int v"] by simp
  then have "word_of_nat v \<noteq> (255 :: u8)" using v by auto
  have rv: "255 * int nb + int v < ps_remaining p" using eq r by linarith
  from \<open>word_of_nat v \<noteq> 255\<close>
  have "parseCode3Padding p = Ok (p\<lparr>ps_pos := len w + int nb + 1,
     ps_remaining := ps_remaining p - (255 * int nb + int v + 1),
     ps_pad := ps_pad p + 254 * int nb + int v\<rparr>)"
    using parseCode3Padding_forward [of "word_of_nat v" p w nb rest] d rv unfolding pf u append_assoc by simp
  moreover have "int (P - length (pad_field P)) = 254 * int nb + int v"
    unfolding pf using eq by simp
  moreover have "int P = 255 * int nb + int v + 1" using eq by simp
  ultimately show ?thesis by (simp add: pf)
qed

lemma parseCode3VBR_loop_forward:
  assumes "list_all (\<lambda>n. n \<le> 1275) ns" "0 \<le> i" "nat i + length ns \<le> length (ps_sizes p)"
    "ps_data p = w @ concat (map enc_len ns) @ rest" "ps_pos p = len w"
    "len (concat (map enc_len ns)) + int (sum_list ns) \<le> ps_remaining p"
  shows "parseCode3VBR_loop (length ns) i p = Ok (p\<lparr>ps_pos := len w + len (concat (map enc_len ns)),
     ps_remaining := ps_remaining p - len (concat (map enc_len ns)),
     ps_sizes := take (nat i) (ps_sizes p) @ map int ns @ drop (nat i + length ns) (ps_sizes p),
     ps_lastSize := ps_lastSize p - len (concat (map enc_len ns)) - int (sum_list ns)\<rparr>)"
  using assms
proof (induction ns arbitrary: i w p)
  case (Cons n ns)
  let ?e = "enc_len n"
  let ?p = "p\<lparr>ps_pos := len w + len ?e, ps_remaining := ps_remaining p - len ?e,
    ps_sizes := (ps_sizes p)[nat i := int n], ps_lastSize := ps_lastSize p - (len ?e + int n)\<rparr>"
  have ps: "parseSize (?e @ concat (map enc_len ns) @ rest) (ps_remaining p) = (len ?e, int n)"
    using Cons.prems enc_len_decode [of n "concat (map enc_len ns) @ rest" "ps_remaining p"] by auto
  have i1: "nat (i + 1) = Suc (nat i)" "nat (1 + i) = Suc (nat i)" using Cons.prems(2) by auto
  have IH: "parseCode3VBR_loop (length ns) (i + 1) ?p = Ok (?p\<lparr>ps_pos := len (w @ ?e) + len (concat (map enc_len ns)),
     ps_remaining := ps_remaining ?p - len (concat (map enc_len ns)),
     ps_sizes := take (nat (i + 1)) (ps_sizes ?p) @ map int ns @ drop (nat (i + 1) + length ns) (ps_sizes ?p),
     ps_lastSize := ps_lastSize ?p - len (concat (map enc_len ns)) - int (sum_list ns)\<rparr>)"
    by (rule Cons.IH) (use Cons.prems in \<open>auto simp: i1\<close>)
  have "parseCode3VBR_loop (length (n # ns)) i p = parseCode3VBR_loop (length ns) (i + 1) ?p"
    using Cons.prems ps by (cases p) (auto simp: slice_from_def slice_def set_size_def upd_def)
  also have "\<dots> = Ok (p\<lparr>ps_pos := len w + len (concat (map enc_len (n # ns))),
     ps_remaining := ps_remaining p - len (concat (map enc_len (n # ns))),
     ps_sizes := take (nat i) (ps_sizes p) @ map int (n # ns) @ drop (nat i + length (n # ns)) (ps_sizes p),
     ps_lastSize := ps_lastSize p - len (concat (map enc_len (n # ns))) - int (sum_list (n # ns))\<rparr>)"
    unfolding IH using Cons.prems
    by (cases p) (simp add: i1 take_Suc_conv_app_nth drop_update_cancel algebra_simps)
  finally show ?case .
qed simp

text \<open>
  a frame length survives its encoding: for every length a frame may have, \<^verbatim>\<open>encodeSize\<close>
  writes one or two bytes, leaves the others alone, and \<^verbatim>\<open>parseSize\<close> reads back the length and
  the number of bytes.
\<close>

theorem frame_length_roundtrip:
  assumes "0 \<le> sz" "sz \<le> 1275" "2 \<le> length d"
  shows "sat (encodeSize sz d) (\<lambda>_. False) (\<lambda>(k, d'). 1 \<le> k \<and> k \<le> 2 \<and> length d' = length d
     \<and> drop (nat k) d' = drop (nat k) d \<and> parseSize d' (len d') = (k, sz))"
proof -
  obtain n where n: "sz = int n" "n \<le> 1275" using assms by (metis nat_0_le nat_le_iff of_nat_numeral)
  have fit: "length (enc_len n) \<le> length d" using assms(3) by (simp add: length_enc_len)
  have "parseSize (enc_len n @ drop (length (enc_len n)) d) (len d) = (len (enc_len n), int n)"
    using enc_len_decode [OF n(2), of "drop (length (enc_len n)) d" "len d"] fit by simp
  then show ?thesis
    unfolding n(1) encodeSize_enc [OF n(2) fit] using fit length_enc_len [of n] by auto
qed

theorem frame_length_roundtrip_witness:
  "sat (encodeSize 1275 [0, 0, 5]) (\<lambda>_. False) (\<lambda>(k, d'). 1 \<le> k \<and> k \<le> 2 \<and> length d' = length [0::u8, 0, 5]
     \<and> drop (nat k) d' = drop (nat k) [0, 0, 5] \<and> parseSize d' (len d') = (k, 1275))"
  by (rule frame_length_roundtrip) simp_all

text \<open>What the parser knows once it has read a header \<open>h\<close> in front of the frames \<open>fs\<close>.\<close>

definition describes :: "bytes \<Rightarrow> bytes list \<Rightarrow> nat \<Rightarrow> parser \<Rightarrow> bool" where
  "describes h fs z p \<longleftrightarrow> ps_pos p = len h \<and> ps_count p = len fs
     \<and> take (length fs) (ps_sizes p) = map (\<lambda>f. len f) fs \<and> ps_pad p = int z"

lemma packet_of_describes:
  assumes "describes h fs z p" "data = h @ concat fs @ replicate z 0 @ rest"
  shows "packet_of data p = \<lparr>pk_TOC = ParseTOC (data ! 0), pk_Frames = fs,
    pk_Padding = replicate z 0, pk_Consumed = len h + len (concat fs) + int z\<rparr>"
proof -
  have n: "nat (ps_count p) = length fs" using assms(1) by (simp add: describes_def)
  show ?thesis
    using assms(1) unfolding packet_of_def Let_def n
    by (simp add: describes_def assms(2) cut_concat sum_lens nat_add_distrib ParseTOC_def)
qed

lemma take_last_update:
  assumes "fs \<noteq> []" "take (length fs - 1) ss = map g (butlast fs)" "length fs \<le> length ss"
  shows "take (length fs) (ss[length fs - 1 := g (last fs)]) = map g fs"
proof -
  have "length fs - 1 < length ss" using assms(1,3) by (cases fs) auto
  then have "take (Suc (length fs - 1)) (ss[length fs - 1 := g (last fs)])
      = take (length fs - 1) ss @ [g (last fs)]"
    by (subst take_Suc_conv_app_nth) simp_all
  also have "\<dots> = map g (butlast fs @ [last fs])" using assms(2) by simp
  finally show ?thesis using assms(1) by simp
qed

lemma finishNormal_forward:
  assumes "fs \<noteq> []" "length fs \<le> 48" "length (ps_sizes p) = 48" "ps_count p = len fs"
    "take (length fs - 1) (ps_sizes p) = map (\<lambda>f. len f) (butlast fs)"
    "ps_lastSize p = len (last fs)" "length (last fs) \<le> 1275" "ps_pos p = len h" "ps_pad p = int z"
  shows "\<exists>p'. finishNormal p = Ok p' \<and> describes h fs z p'"
proof -
  have "nat (len fs - 1) = length fs - 1" by (rule nat_len_minus_1)
  moreover have "0 \<le> len fs - 1" "len fs - 1 < 48"
    using assms(1,2) by (cases fs; simp)+
  ultimately show ?thesis
    using assms take_last_update [of fs "ps_sizes p" "\<lambda>f. len f"]
    by (simp add: finishNormal_def set_size_def upd_def describes_def)
qed

lemma not_vbr_map:
  assumes "fs \<noteq> []" "\<not> vbr fs"
  shows "map (\<lambda>f. len f) (butlast fs) = replicate (length fs - 1) (len (last fs))"
    and "length (last fs) = length (hd fs)"
proof -
  have all: "length f = length (hd fs)" if "f \<in> set fs" for f
    using assms that by (cases fs) (auto simp: vbr_def list_ex_iff)
  then show l: "length (last fs) = length (hd fs)" using assms(1) last_in_set by blast
  have "len f = len (last fs)" if "f \<in> set (butlast fs)" for f
    using all [OF in_set_butlastD [OF that]] l by linarith
  then have "map (\<lambda>f. len f) (butlast fs) = map (\<lambda>_. len (last fs)) (butlast fs)"
    by (intro map_cong refl)
  then show "map (\<lambda>f. len f) (butlast fs) = replicate (length fs - 1) (len (last fs))"
    by (simp add: map_replicate_const)
qed

lemma finishSelfDelimited_forward:
  assumes fs: "fs \<noteq> []" "length fs \<le> 48" "length (ps_sizes p) = 48" "ps_count p = len fs"
    and sz: "length (last fs) \<le> 1275" and pos: "ps_pos p = len h" and pad: "ps_pad p = int z"
    and d: "ps_data p = h @ sd_field True fs @ rest"
    and rem: "len (sd_field True fs) + len (concat fs) \<le> ps_remaining p"
    and cbr: "ps_cbr p \<Longrightarrow> \<not> vbr fs"
    and vbr: "\<not> ps_cbr p \<Longrightarrow> take (length fs - 1) (ps_sizes p) = map (\<lambda>f. len f) (butlast fs)
      \<and> len (sd_field True fs) + len (last fs) \<le> ps_lastSize p"
  shows "\<exists>p'. finishSelfDelimited p = Ok p' \<and> describes (h @ sd_field True fs) fs z p'"
proof -
  let ?l = "len (last fs)" and ?e = "enc_len (length (last fs))"
  let ?p = "p\<lparr>ps_remaining := ps_remaining p - len ?e, ps_sizes := (ps_sizes p)[length fs - 1 := ?l],
      ps_pos := len h + len ?e\<rparr>"
  have last_le: "?l \<le> len (concat fs)" using butlast_last_concat [OF fs(1)] by linarith
  have e: "sd_field True fs = ?e" by (simp add: sd_field_def)
  have ps: "parseSize (?e @ rest) (ps_remaining p) = (len ?e, ?l)"
    using enc_len_decode [OF sz, of rest "ps_remaining p"] rem by (auto simp: e)
  have n: "nat (len fs - 1) = length fs - 1" by (rule nat_len_minus_1)
  have b: "0 \<le> len fs - 1" "len fs - 1 < 48" using fs(1,2) by (cases fs; simp)+
  have sl: "slice_from (ps_data p) (ps_pos p) = Ok (?e @ rest)"
    by (simp add: d pos e slice_from_def slice_def)
  have ge: "\<not> (?l < 0 \<or> ?l > ps_remaining p - len ?e)" using rem last_le by (simp add: e)
  have st: "finishSelfDelimited p =
      (if ps_cbr p then (if ?l * len fs > ps_remaining p - len ?e then Err ErrInvalidPacket
         else fill_sizes (length fs - 1) 0 ?l ?p)
       else if len ?e + ?l > ps_lastSize p then Err ErrInvalidPacket else Ok ?p)"
    using b fs(3,4) ge pos
    unfolding finishSelfDelimited_def sl bnd.simps ps prod.case Let_def
    by (simp add: set_size_def upd_def n)
  show ?thesis
  proof (cases "ps_cbr p")
    case True
    note nv = cbr [OF True]
    have "len (concat fs) = ?l * len fs"
      using vbr_False_lengths [OF nv fs(1)] not_vbr_map(2) [OF fs(1) nv] by simp
    then have fit: "\<not> ?l * len fs > ps_remaining p - len ?e" using rem by (simp add: e)
    have fl: "fill_sizes (length fs - 1) 0 ?l ?p = Ok (?p\<lparr>ps_sizes := replicate (length fs - 1) ?l
        @ drop (length fs - 1) ((ps_sizes p)[length fs - 1 := ?l])\<rparr>)"
      using fs(2,3) fill_sizes_eq [of 0 "length fs - 1" ?p ?l] by simp
    have "replicate (length fs - 1) ?l @ [?l] = map (\<lambda>f. len f) (butlast fs @ [last fs])"
      unfolding not_vbr_map(1) [OF fs(1) nv, symmetric] by simp
    moreover have "take (length fs) (replicate (length fs - 1) ?l
        @ drop (length fs - 1) ((ps_sizes p)[length fs - 1 := ?l])) = replicate (length fs - 1) ?l @ [?l]"
      using fs by (cases "length fs") (simp_all add: take_Suc_conv_app_nth hd_drop_conv_nth take_Suc)
    ultimately show ?thesis
      using True fit fs fl pad by (simp add: st describes_def e)
  next
    case False
    then show ?thesis
      using vbr [OF False] take_last_update [of fs "ps_sizes p" "\<lambda>f. len f"] fs pad
      by (simp add: st describes_def e)
  qed
qed

lemma toc_code_byte:
  fixes t :: u8
  shows "((t AND 0xFC) OR 3) AND 3 = 3" "((t AND 0xFC) OR 2) AND 3 = 2" "((t AND 0xFC) OR 1) AND 3 = 1"
    "(t AND 0xFC) AND 3 = 0"
    "samplesPerFrame ((t AND 0xFC) OR 3) fs = samplesPerFrame t fs"
proof -
  have "list_all (\<lambda>t::u8. ((t AND 0xFC) OR 3) AND 3 = 3 \<and> ((t AND 0xFC) OR 2) AND 3 = 2
      \<and> ((t AND 0xFC) OR 1) AND 3 = 1 \<and> (t AND 0xFC) AND 3 = 0
      \<and> ((t AND 0xFC) OR 3) AND 0xFC = t AND 0xFC) all_bytes" by code_simp
  from all_bytesI [OF this, of t]
  show "((t AND 0xFC) OR 3) AND 3 = 3" "((t AND 0xFC) OR 2) AND 3 = 2" "((t AND 0xFC) OR 1) AND 3 = 1"
    "(t AND 0xFC) AND 3 = 0" and e: "samplesPerFrame ((t AND 0xFC) OR 3) fs = samplesPerFrame t fs"
    using samplesPerFrame_and_FC [of t fs] samplesPerFrame_and_FC [of "(t AND 0xFC) OR 3" fs] by simp_all
qed

lemma count_byte_fields:
  assumes "length fs \<le> 48"
  shows "uint (count_byte v P fs AND 0x3F) = len fs" "(count_byte v P fs AND 0x40 \<noteq> 0) = (P \<noteq> 0)"
    "(count_byte v P fs AND 0x80 = 0) = (\<not> v)"
proof -
  have "list_all (\<lambda>b::u8. b < 64 \<longrightarrow> b AND 0x3F = b \<and> (b OR 0x80) AND 0x3F = b \<and> (b OR 0x40) AND 0x3F = b
      \<and> (b OR 0x80 OR 0x40) AND 0x3F = b \<and> b AND 0x40 = 0 \<and> (b OR 0x80) AND 0x40 = 0
      \<and> (b OR 0x40) AND 0x40 \<noteq> 0 \<and> (b OR 0x80 OR 0x40) AND 0x40 \<noteq> 0 \<and> b AND 0x80 = 0
      \<and> (b OR 0x40) AND 0x80 = 0 \<and> (b OR 0x80) AND 0x80 \<noteq> 0 \<and> (b OR 0x80 OR 0x40) AND 0x80 \<noteq> 0)
      all_bytes" by code_simp
  note f = all_bytesI [OF this, of "word_of_nat (length fs)"]
  have u: "uint (word_of_nat (length fs) :: u8) = len fs"
    using assms uint_word_of_int_u8 [of "len fs"] by simp
  then have "(word_of_nat (length fs) :: u8) < 64" using assms by (simp add: u8_less_iff)
  note f = mp [OF f this]
  show "uint (count_byte v P fs AND 0x3F) = len fs" "(count_byte v P fs AND 0x40 \<noteq> 0) = (P \<noteq> 0)"
    "(count_byte v P fs AND 0x80 = 0) = (\<not> v)"
    using f u by (auto simp: count_byte_def)
qed

lemma vbr_field_lens: "vbr fs \<Longrightarrow> vbr_field fs = concat (map enc_len (map length (butlast fs)))"
  by (simp add: vbr_field_def comp_def)

lemma sum_list_butlast: "fs \<noteq> [] \<Longrightarrow> int (sum_list (map length (butlast fs))) + len (last fs) = len (concat fs)"
  using butlast_last_concat [of fs] by (simp add: length_concat)

text \<open>The frame sizes of a code 3 packet, once the padding has been skipped.\<close>

lemma code3_sizes_forward:
  assumes fs: "fs \<noteq> []" "length fs \<le> 48" and sz: "list_all (\<lambda>f. length f \<le> 1275) fs"
    and p: "length (ps_sizes p) = 48" "ps_count p = len fs" "ps_pos p = len w"
      "ps_data p = w @ vbr_field fs @ rest" "ps_cbr p = (\<not> vbr fs)"
    and rem: "ps_remaining p = len (vbr_field fs) + len (concat fs) + k" "0 \<le> k" "sd \<or> k = 0"
  shows "\<exists>p'. (if \<not> ps_cbr p then parseCode3VBR p else if \<not> sd then parseCode3CBR p else Ok p) = Ok p'
    \<and> length (ps_sizes p') = 48 \<and> ps_count p' = len fs \<and> ps_pos p' = len (w @ vbr_field fs)
    \<and> ps_pad p' = ps_pad p \<and> ps_data p' = ps_data p \<and> ps_cbr p' = (\<not> vbr fs)
    \<and> ps_remaining p' = len (concat fs) + k
    \<and> (sd \<and> \<not> vbr fs \<or> take (length fs - 1) (ps_sizes p') = map (\<lambda>f. len f) (butlast fs)
         \<and> ps_lastSize p' = len (last fs) + k)"
proof (cases "vbr fs")
  case True
  let ?ns = "map length (butlast fs)" and ?p = "p\<lparr>ps_lastSize := ps_remaining p\<rparr>"
  let ?e = "concat (map enc_len ?ns)"
  have sb: "list_all (\<lambda>n. n \<le> 1275) ?ns" using list_all_butlast [OF sz] by (simp add: list_all_iff)
  have n: "nat (ps_count ?p - 1) = length ?ns" using p(2) by simp
  have e: "vbr_field fs = ?e" by (rule vbr_field_lens [OF True])
  note sum = sum_list_butlast [OF fs(1)]
  have "len ?e + int (sum_list ?ns) \<le> ps_remaining p" using rem sum by (simp add: e)
  then have l: "parseCode3VBR_loop (length ?ns) 0 ?p = Ok (?p\<lparr>ps_pos := len w + len ?e,
     ps_remaining := ps_remaining p - len ?e,
     ps_sizes := map int ?ns @ drop (length ?ns) (ps_sizes p),
     ps_lastSize := ps_remaining p - len ?e - int (sum_list ?ns)\<rparr>)"
    using parseCode3VBR_loop_forward [OF sb, of 0 ?p w rest] fs(2) p(1,3,4) by (simp add: e)
  have ge: "\<not> ps_remaining p - len ?e - int (sum_list ?ns) < 0" using rem sum by (simp add: e)
  have r: "parseCode3VBR p = Ok (?p\<lparr>ps_pos := len w + len ?e,
     ps_remaining := ps_remaining p - len ?e,
     ps_sizes := map int ?ns @ drop (length ?ns) (ps_sizes p),
     ps_lastSize := ps_remaining p - len ?e - int (sum_list ?ns)\<rparr>)"
    unfolding parseCode3VBR_def Let_def n l bnd.simps using ge by simp
  have m: "map int ?ns = map (\<lambda>f. len f) (butlast fs)" by simp
  show ?thesis
    using True p rem(1) sum fs(2) unfolding r m e by simp
next
  case nv: False
  have vf: "vbr_field fs = []" using nv by (simp add: vbr_field_def)
  show ?thesis
  proof (cases sd)
    case True
    then show ?thesis using nv p rem by (simp add: vf)
  next
    case False
    then have k: "k = 0" using rem(3) by simp
    have pos: "0 < len fs" using fs(1) by simp
    have c: "len (concat fs) = len (last fs) * len fs"
      using vbr_False_lengths [OF nv fs(1)] not_vbr_map(2) [OF fs(1) nv] by simp
    have d: "ps_remaining p sdiv len fs = len (last fs)"
      using pos by (simp add: rem k vf c sdiv_nonneg)
    have n: "nat (len fs - 1) = length fs - 1" by (rule nat_len_minus_1)
    have fl: "fill_sizes (length fs - 1) 0 (len (last fs)) (p\<lparr>ps_lastSize := len (last fs)\<rparr>)
      = Ok (p\<lparr>ps_lastSize := len (last fs), ps_sizes := replicate (length fs - 1) (len (last fs))
          @ drop (length fs - 1) (ps_sizes p)\<rparr>)"
      using fs(2) p(1) by (subst fill_sizes_eq) simp_all
    have "parseCode3CBR p = Ok (p\<lparr>ps_lastSize := len (last fs), ps_sizes := replicate (length fs - 1) (len (last fs))
          @ drop (length fs - 1) (ps_sizes p)\<rparr>)"
      unfolding parseCode3CBR_def p(2) d Let_def using rem(1) fl [simplified] n by (simp add: p(2) c k vf)
    then show ?thesis
      using False nv p fs rem not_vbr_map(1) [OF fs(1) nv] by (simp add: vf k)
  qed
qed

lemma parseCode3_forward:
  fixes P :: nat and fs :: "bytes list" and toc :: u8
  assumes fs: "fs \<noteq> []" "length fs \<le> 48" and sz: "list_all (\<lambda>f. length f \<le> 1275) fs"
    and dur: "len fs * samplesPerFrame toc 48000 \<le> 5760"
  defines "z \<equiv> P - length (pad_field P)"
    and "w \<equiv> [(toc AND 0xFC) OR 3, count_byte (vbr fs) P fs] @ pad_field P"
  assumes d: "data = w @ vbr_field fs @ sd_field sd fs @ concat fs @ replicate z 0 @ rest"
    and rest: "sd \<or> rest = []"
    and p: "ps_data p = data" "ps_pos p = 1" "ps_remaining p = len data - 1" "ps_pad p = 0"
      "length (ps_sizes p) = 48"
  shows "\<exists>p'. parseCode3 p sd = Ok p'
    \<and> length (ps_sizes p') = 48 \<and> ps_count p' = len fs \<and> ps_pos p' = len (w @ vbr_field fs)
    \<and> ps_pad p' = int z \<and> ps_data p' = data \<and> ps_cbr p' = (\<not> vbr fs)
    \<and> ps_remaining p' = len (concat fs) + (len (sd_field sd fs) + len rest)
    \<and> (sd \<and> \<not> vbr fs \<or> take (length fs - 1) (ps_sizes p') = map (\<lambda>f. len f) (butlast fs)
         \<and> ps_lastSize p' = len (last fs) + (len (sd_field sd fs) + len rest))"
proof -
  define cb where "cb = count_byte (vbr fs) P fs"
  let ?cb = cb and ?h = "[(toc AND 0xFC) OR 3, count_byte (vbr fs) P fs]"
  let ?k = "len (sd_field sd fs) + len rest"
  let ?r = "vbr_field fs @ sd_field sd fs @ concat fs @ replicate z 0 @ rest"
  note cb = count_byte_fields [OF fs(2), of "vbr fs" P, folded cb_def]
  have zP: "int P = len (pad_field P) + int z" using pad_field_le [of P] by (simp add: z_def)
  have ld: "len data = 2 + int P + (len (vbr_field fs) + len (concat fs) + ?k)"
    using zP by (simp add: d w_def)
  let ?p1 = "p\<lparr>ps_pos := 2, ps_count := len fs, ps_remaining := len data - 2\<rparr>"
  let ?p2 = "?p1\<lparr>ps_pos := len w, ps_remaining := len data - 2 - int P, ps_pad := int z\<rparr>"
  have i: "idx data 1 = Ok ?cb" "idx data 0 = Ok ((toc AND 0xFC) OR 3)"
    by (simp_all add: d w_def idx_def cb_def)
  have r1: "\<not> len data - 1 < 1" using ld by linarith
  have ok: "\<not> (len fs \<le> 0 \<or> samplesPerFrame toc 48000 * len fs > 5760)"
    using fs(1) dur by (simp add: mult.commute)
  have pad: "(if P \<noteq> 0 then parseCode3Padding ?p1 else Ok ?p1) = Ok ?p2"
  proof (cases "P = 0")
    case True
    then have "z = 0" "w = ?h" by (simp_all add: z_def w_def pad_field_def)
    with True p show ?thesis by (cases p) simp
  next
    case False
    have "int P \<le> ps_remaining ?p1" using ld by simp
    then have "parseCode3Padding ?p1 = Ok (?p1\<lparr>ps_pos := len ?h + len (pad_field P),
     ps_remaining := ps_remaining ?p1 - int P, ps_pad := ps_pad ?p1 + int (P - length (pad_field P))\<rparr>)"
      using parseCode3Padding_pad_field [OF False, of ?p1 ?h ?r] p(1) by (simp add: d w_def)
    with False p(4) show ?thesis by (simp add: z_def w_def)
  qed
  have r2: "\<not> len data - 2 - int P < 0" using ld by linarith
  have st: "parseCode3 p sd = (let p = ?p2\<lparr>ps_cbr := (?cb AND 0x80 = 0)\<rparr> in
      if \<not> ps_cbr p then parseCode3VBR p else if \<not> sd then parseCode3CBR p else Ok p)"
  proof -
    have e1: "p\<lparr>ps_pos := 1 + 1, ps_count := len fs, ps_remaining := len data - 1 - 1\<rparr> = ?p1" by simp
    show ?thesis
      unfolding parseCode3_def p(1,2,3) if_not_P [OF r1] i bnd.simps Let_def
      using p ok r2 pad by (cases "P = 0") (simp_all add: i cb(1,2) toc_code_byte)
  qed
  show ?thesis
    unfolding st Let_def
    using code3_sizes_forward [OF fs sz, of "?p2\<lparr>ps_cbr := (?cb AND 0x80 = 0)\<rparr>" w
        "sd_field sd fs @ concat fs @ replicate z 0 @ rest" ?k sd] p rest ld
    by (simp add: cb d sd_field_def split: if_splits)
qed

lemma finish_forward:
  assumes fs: "fs \<noteq> []" "length fs \<le> 48" and sz: "list_all (\<lambda>f. length f \<le> 1275) fs"
    and p: "length (ps_sizes p) = 48" "ps_count p = len fs" "ps_pos p = len h" "ps_pad p = int z"
      "ps_data p = h @ sd_field sd fs @ R"
      "ps_remaining p = len (concat fs) + (len (sd_field sd fs) + len rest)"
    and cbr: "ps_cbr p \<longrightarrow> \<not> vbr fs"
    and last: "sd \<and> ps_cbr p \<or> take (length fs - 1) (ps_sizes p) = map (\<lambda>f. len f) (butlast fs)
         \<and> ps_lastSize p = len (last fs) + (len (sd_field sd fs) + len rest)"
    and rest: "sd \<or> rest = []"
  shows "\<exists>p'. (if sd then finishSelfDelimited p else finishNormal p) = Ok p'
    \<and> describes (h @ sd_field sd fs) fs z p'"
proof -
  have l: "length (last fs) \<le> 1275" using fs(1) sz by (simp add: list_all_iff)
  show ?thesis
  proof (cases sd)
    case True
    then show ?thesis
      using finishSelfDelimited_forward [OF fs p(1,2) l p(3,4), of R] p(5,6) cbr last by auto
  next
    case False
    then show ?thesis
      using finishNormal_forward [OF fs p(1,2) _ _ l p(3,4)] last rest by (simp add: sd_field_def)
  qed
qed

lemma run_code3:
  fixes P :: nat and fs :: "bytes list" and toc :: u8
  assumes fs: "fs \<noteq> []" "length fs \<le> 48" and sz: "list_all (\<lambda>f. length f \<le> 1275) fs"
    and dur: "len fs * samplesPerFrame toc 48000 \<le> 5760" and rest: "sd \<or> rest = []"
    and d: "data = code3_wire toc sd P fs @ rest"
  shows "\<exists>p' h. run (new_parser data) sd = Ok p' \<and> describes h fs (P - length (pad_field P)) p'
    \<and> data = h @ concat fs @ replicate (P - length (pad_field P)) 0 @ rest"
proof -
  let ?w = "[(toc AND 0xFC) OR 3, count_byte (vbr fs) P fs] @ pad_field P"
  let ?z = "P - length (pad_field P)"
  let ?p = "new_parser data\<lparr>ps_pos := 1, ps_remaining := len data - 1, ps_lastSize := len data - 1\<rparr>"
  have d': "data = ?w @ vbr_field fs @ sd_field sd fs @ concat fs @ replicate ?z 0 @ rest"
    by (simp add: d code3_wire_def)
  obtain p1 where p1: "parseCode3 ?p sd = Ok p1"
    and f: "length (ps_sizes p1) = 48" "ps_count p1 = len fs" "ps_pos p1 = len (?w @ vbr_field fs)"
      "ps_pad p1 = int ?z" "ps_data p1 = data" "ps_cbr p1 = (\<not> vbr fs)"
      "ps_remaining p1 = len (concat fs) + (len (sd_field sd fs) + len rest)"
      "sd \<and> \<not> vbr fs \<or> take (length fs - 1) (ps_sizes p1) = map (\<lambda>f. len f) (butlast fs)
         \<and> ps_lastSize p1 = len (last fs) + (len (sd_field sd fs) + len rest)"
    using parseCode3_forward [OF fs sz dur d' rest, of ?p] by (auto simp: new_parser_def MaxFrames_def)
  have "\<exists>p'. (if sd then finishSelfDelimited p1 else finishNormal p1) = Ok p'
    \<and> describes ((?w @ vbr_field fs) @ sd_field sd fs) fs ?z p'"
    by (rule finish_forward [OF fs sz f(1-4), of sd "concat fs @ replicate ?z 0 @ rest" rest])
       (use f d' rest in \<open>simp_all only: append_assoc, simp_all\<close>)
  then obtain p' where p': "(if sd then finishSelfDelimited p1 else finishNormal p1) = Ok p'"
    "describes ((?w @ vbr_field fs) @ sd_field sd fs) fs ?z p'" by blast
  have b0: "idx data 0 = Ok ((toc AND 0xFC) OR 3)" by (simp add: d' idx_def)
  have l: "ps_data (new_parser data) = data" by (simp add: new_parser_def)
  have ne: "len data \<noteq> 0" by (simp add: d')
  have "run (new_parser data) sd = Ok p'"
    unfolding run_def Let_def l if_not_P [OF ne] b0 bnd.simps using p1 p'(1)
    by (simp add: toc_code_byte)
  with p'(2) d' show ?thesis by (intro exI conjI) (assumption, assumption, simp)
qed

lemma run_short:
  fixes fs :: "bytes list" and toc :: u8
  assumes fs: "fs \<noteq> []" "length fs \<le> 2" and sz: "list_all (\<lambda>f. length f \<le> 1275) fs"
    and rest: "sd \<or> rest = []" and d: "data = short_wire toc sd fs @ rest"
  shows "\<exists>p' h. run (new_parser data) sd = Ok p' \<and> describes h fs 0 p'
    \<and> data = h @ concat fs @ rest"
proof -
  let ?w = "short_header toc fs"
  let ?p = "new_parser data\<lparr>ps_pos := 1, ps_remaining := len data - 1, ps_lastSize := len data - 1\<rparr>"
  have d': "data = ?w @ sd_field sd fs @ concat fs @ rest" by (simp add: d short_wire_def)
  define c where "c = hd ?w AND 3"
  let ?body = "if c = 0 then Ok (?p\<lparr>ps_count := 1\<rparr>)
             else if c = 1 then parseCode1 ?p sd
             else if c = 2 then parseCode2 ?p
             else parseCode3 ?p sd"
  have "\<exists>p1. ?body = Ok p1 \<and> length (ps_sizes p1) = 48 \<and> ps_count p1 = len fs \<and> ps_pos p1 = len ?w
      \<and> ps_pad p1 = 0 \<and> ps_data p1 = data \<and> (ps_cbr p1 \<longrightarrow> \<not> vbr fs)
      \<and> ps_remaining p1 = len (concat fs) + (len (sd_field sd fs) + len rest)
      \<and> (sd \<and> ps_cbr p1 \<or> take (length fs - 1) (ps_sizes p1) = map (\<lambda>f. len f) (butlast fs)
         \<and> ps_lastSize p1 = len (last fs) + (len (sd_field sd fs) + len rest))"
  proof -
    consider f where "fs = [f]" | f g where "fs = [f, g]" "length g = length f"
      | f g where "fs = [f, g]" "length g \<noteq> length f"
      using fs by (cases fs; cases "tl fs") auto
    then show ?thesis
    proof cases
      case (1 f)
      then show ?thesis by (simp add: c_def d' short_header_def toc_code_byte new_parser_def MaxFrames_def)
    next
      case (2 f g)
      have tk: "take (Suc 0) ((replicate 48 0)[0 := v]) = [v]" for v :: int
        by (simp add: take_Suc_conv_app_nth)
      show ?thesis using 2 rest
        by (auto simp: c_def d' short_header_def toc_code_byte new_parser_def MaxFrames_def parseCode1_def
            Let_def set_size_def upd_def sd_field_def vbr_def int_and_mask sdiv_nonneg tk)
    next
      case (3 f g)
      let ?e = "enc_len (length f)"
      have "parseSize (?e @ sd_field sd fs @ concat fs @ rest) (len data - 1) = (len ?e, len f)"
        using enc_len_decode [of "length f" "sd_field sd fs @ concat fs @ rest" "len data - 1"] sz 3
        by (auto simp: d' short_header_def)
      moreover have "take (Suc 0) ((replicate 48 0)[0 := v]) = [v]" for v :: int
        by (simp add: take_Suc_conv_app_nth)
      ultimately show ?thesis using 3
        by (simp add: c_def d' short_header_def toc_code_byte new_parser_def MaxFrames_def parseCode2_def
            slice_from_def slice_def set_size_def upd_def vbr_def)
    qed
  qed
  then obtain p1 where p1: "?body = Ok p1"
    and f: "length (ps_sizes p1) = 48" "ps_count p1 = len fs" "ps_pos p1 = len ?w"
      "ps_pad p1 = int 0" "ps_data p1 = data" "ps_cbr p1 \<longrightarrow> \<not> vbr fs"
      "ps_remaining p1 = len (concat fs) + (len (sd_field sd fs) + len rest)"
      "sd \<and> ps_cbr p1 \<or> take (length fs - 1) (ps_sizes p1) = map (\<lambda>f. len f) (butlast fs)
         \<and> ps_lastSize p1 = len (last fs) + (len (sd_field sd fs) + len rest)" by auto
  have l48: "length fs \<le> 48" using fs(2) by simp
  obtain p' where p': "(if sd then finishSelfDelimited p1 else finishNormal p1) = Ok p'"
    "describes (?w @ sd_field sd fs) fs 0 p'"
    using finish_forward [OF fs(1) l48 sz f(1-4) _ f(7,6,8) rest, of "concat fs @ rest"] f(5) d' by auto
  have ne: "?w \<noteq> []" by (simp add: short_header_def)
  then obtain x y where xy: "?w = x # y" by (cases ?w) auto
  then have b0: "idx data 0 = Ok (hd ?w)" by (simp add: d' idx_def)
  have l: "ps_data (new_parser data) = data" by (simp add: new_parser_def)
  have "data \<noteq> []" using ne by (simp add: d')
  then have nd: "len data \<noteq> 0" by simp
  have "run (new_parser data) sd = bnd ?body (\<lambda>p. if sd then finishSelfDelimited p else finishNormal p)"
    unfolding run_def Let_def l if_not_P [OF nd] b0 bnd.simps c_def [symmetric] by simp
  then have "run (new_parser data) sd = Ok p'" unfolding p1 by (simp add: p'(1))
  with p'(2) d' show ?thesis by (intro exI conjI) (assumption, assumption, simp)
qed

section \<open>Properties of the repacketizer\<close>

text \<open>Parsing what the wire format prescribes gives the frames back.\<close>

lemma short_wire_hd: "hd (short_wire toc sd fs) AND 0xFC = toc AND 0xFC"
  and code3_wire_hd: "hd (code3_wire toc sd P fs) AND 0xFC = toc AND 0xFC"
proof -
  have "list_all (\<lambda>t::u8. ((t AND 0xFC) OR 3) AND 0xFC = t AND 0xFC \<and> ((t AND 0xFC) OR 2) AND 0xFC = t AND 0xFC
      \<and> ((t AND 0xFC) OR 1) AND 0xFC = t AND 0xFC) all_bytes" by code_simp
  from all_bytesI [OF this, of toc]
  show "hd (short_wire toc sd fs) AND 0xFC = toc AND 0xFC" "hd (code3_wire toc sd P fs) AND 0xFC = toc AND 0xFC"
    by (simp_all add: short_wire_def short_header_def code3_wire_def and.assoc)
qed

definition unpacks_to :: "bytes \<Rightarrow> bool \<Rightarrow> int \<Rightarrow> u8 \<Rightarrow> bytes list \<Rightarrow> bool" where
  "unpacks_to data sd n toc fs \<longleftrightarrow>
     sat (parse data sd) (\<lambda>_. False) (\<lambda>pkt. pk_Frames pkt = fs \<and> pk_Consumed pkt = n
       \<and> list_all (\<lambda>b. b = 0) (pk_Padding pkt) \<and> toc_b (pk_TOC pkt) AND 0xFC = toc AND 0xFC)"

lemma parse_of_describes:
  assumes "run (new_parser data) sd = Ok p" "describes h fs z p"
    "data = h @ concat fs @ replicate z 0 @ rest" "data = w @ rest"
    "hd w AND 0xFC = toc AND 0xFC" "w \<noteq> []"
  shows "unpacks_to data sd (len w) toc fs"
proof -
  have "len data = len (h @ concat fs @ replicate z 0 @ rest)" using assms(3) by simp
  then have "len w = len h + len (concat fs) + int z" using assms(4) by simp
  moreover have "data ! 0 = hd w" using assms(4,6) by (cases w) auto
  ultimately show ?thesis
    using assms(1,5) packet_of_describes [OF assms(2,3)]
    by (simp add: unpacks_to_def parse_eq ParseTOC_def list_all_iff)
qed

lemma out_wire_parses:
  assumes fs: "fs \<noteq> []" and sz: "list_all (\<lambda>f. length f \<le> 1275) fs"
    and dur: "len fs * samplesPerFrame toc 48000 \<le> 5760" and rest: "sd \<or> rest = []"
    and w: "out_wire toc sd pad maxlen fs = Some w"
  shows "unpacks_to (w @ rest) sd (len w) toc fs"
proof -
  have l48: "length fs \<le> 48"
  proof -
    have "120 \<le> samplesPerFrame toc 48000" using samplesPerFrame_values [of toc] by auto
    then have "len fs * 120 \<le> len fs * samplesPerFrame toc 48000" by (intro mult_left_mono) simp_all
    with dur show ?thesis by linarith
  qed
  have "(length fs \<le> 2 \<and> w = short_wire toc sd fs) \<or> (\<exists>P. w = code3_wire toc sd P fs)"
    using w by (auto simp: out_wire_def Let_def split: if_splits)
  then show ?thesis
  proof (elim disjE conjE exE)
    assume s: "length fs \<le> 2" "w = short_wire toc sd fs"
    obtain p h where "run (new_parser (w @ rest)) sd = Ok p" "describes h fs 0 p" "w @ rest = h @ concat fs @ rest"
      using run_short [OF fs s(1) sz rest, of "w @ rest" toc] s(2) by auto
    moreover have "w \<noteq> []" by (simp add: s short_wire_def short_header_def)
    ultimately show ?thesis
      using parse_of_describes [of "w @ rest" sd p h fs 0 rest w toc] short_wire_hd [of toc sd fs] s(2) by simp
  next
    fix P assume c: "w = code3_wire toc sd P fs"
    obtain p h where "run (new_parser (w @ rest)) sd = Ok p" "describes h fs (P - length (pad_field P)) p"
      "w @ rest = h @ concat fs @ replicate (P - length (pad_field P)) 0 @ rest"
      using run_code3 [OF fs l48 sz dur rest, of "w @ rest" P] c by blast
    moreover have "w \<noteq> []" "hd w AND 0xFC = toc AND 0xFC"
      unfolding c by (simp add: code3_wire_def) (rule code3_wire_hd)
    ultimately show ?thesis
      using parse_of_describes [of "w @ rest" sd p h fs _ rest w toc] by blast
  qed
qed

lemma frames_between_facts:
  assumes ok: "rp_ok rp" and r: "0 \<le> lo" "lo < hi" "hi \<le> rp_nbFrames rp"
  defines "fs \<equiv> frames_between rp lo hi"
  shows "fs \<noteq> []" "list_all (\<lambda>f. length f \<le> 1275) fs" "len fs = hi - lo"
    "len fs * samplesPerFrame (rp_toc rp) 48000 \<le> 5760"
proof -
  have l: "length (rp_frames_of rp) = nat (rp_nbFrames rp)"
    using ok by (auto simp: rp_frames_of_def rp_ok_def MaxFrames_def min_def)
  show n: "len fs = hi - lo" using r by (simp add: fs_def frames_between_def l)
  then show "fs \<noteq> []" using r(2) by auto
  show "list_all (\<lambda>f. length f \<le> 1275) fs"
    using ok unfolding fs_def frames_between_def rp_ok_def by (intro list_all_take_drop) simp
  have "rp_nbFrames rp * samplesPerFrame (rp_toc rp) 8000 \<le> 960" using ok r by (auto simp: rp_ok_def)
  then have "rp_nbFrames rp * samplesPerFrame (rp_toc rp) 48000 \<le> 5760"
    by (simp flip: samplesPerFrame_8k)
  moreover have "len fs * samplesPerFrame (rp_toc rp) 48000 \<le> rp_nbFrames rp * samplesPerFrame (rp_toc rp) 48000"
    using r samplesPerFrame_pos [of "rp_toc rp"] by (intro mult_right_mono) (simp_all add: n)
  ultimately show "len fs * samplesPerFrame (rp_toc rp) 48000 \<le> 5760" by linarith
qed

definition sample_rp :: Repacketizer where
  "sample_rp = \<lparr>rp_toc = 8, rp_nbFrames = 2, rp_frames = [1, 2] # [3] # replicate 46 [],
     rp_framesize = samplesPerFrame 8 8000\<rparr>"

lemma sample_rp_ok: "rp_ok sample_rp" "0 \<le> (0::int)" "0 < (2::int)" "2 \<le> rp_nbFrames sample_rp"
proof -
  have "samplesPerFrame 8 8000 = 160" by code_simp
  then show "rp_ok sample_rp" "0 \<le> (0::int)" "0 < (2::int)" "2 \<le> rp_nbFrames sample_rp"
    by (simp_all add: rp_ok_def sample_rp_def MaxFrames_def rp_frames_of_def numeral_2_eq_2)
qed

text \<open>
  C29: \<^verbatim>\<open>outRangeImpl\<close> implements the wire format: for a legal range it writes exactly the bytes
  \<open>out_wire\<close> prescribes (the shortest frame-count code, the length fields, the frames, and with
  padding on as much padding as fills the buffer), reports their number, and leaves the rest
  of the buffer alone; it fails only when they do not fit.
\<close>

theorem out_writes_wire_format:
  assumes "rp_ok rp" "0 \<le> lo" "lo < hi" "hi \<le> rp_nbFrames rp"
  shows "outRangeImpl rp lo hi data sd pad =
    (case out_wire (rp_toc rp) sd pad (length data) (frames_between rp lo hi) of
       None \<Rightarrow> Err ErrBufferTooSmall
     | Some w \<Rightarrow> Ok (len w, w @ drop (length w) data))"
  using assms by (rule outRangeImpl_eq)

theorem out_writes_wire_format_witness:
  "outRangeImpl sample_rp 0 2 (replicate 8 9) False True =
    (case out_wire (rp_toc sample_rp) False True (length (replicate 8 (9::u8))) (frames_between sample_rp 0 2) of
       None \<Rightarrow> Err ErrBufferTooSmall
     | Some w \<Rightarrow> Ok (len w, w @ drop (length w) (replicate 8 9)))"
  by (rule out_writes_wire_format [OF sample_rp_ok])

text \<open>
  C9: what the repacketizer writes, the parser reads back: for every range of the frames held,
  both framings, with and without padding, the bytes written (followed, for self-delimited
  framing, by anything) parse without an error to exactly those frames, consume exactly the
  reported number of bytes, have zero padding, and carry the configuration of the packets
  the frames came from.
\<close>

theorem repacketizer_roundtrip:
  assumes "rp_ok rp" "0 \<le> lo" "lo < hi" "hi \<le> rp_nbFrames rp" "sd \<or> rest = []"
    and "outRangeImpl rp lo hi data sd pad = Ok (n, out)"
  shows "unpacks_to (take (nat n) out @ rest) sd n (rp_toc rp) (frames_between rp lo hi)"
proof -
  obtain w where w: "out_wire (rp_toc rp) sd pad (length data) (frames_between rp lo hi) = Some w"
    "n = len w" "out = w @ drop (length w) data"
    using outRangeImpl_eq [OF assms(1-4), of data sd pad] assms(6) by (auto split: option.splits)
  show ?thesis
    using out_wire_parses [OF frames_between_facts(1,2,4) [OF assms(1-4)] assms(5) w(1)] by (simp add: w(2,3))
qed

theorem repacketizer_roundtrip_witness:
  "unpacks_to (take (nat 8) [11, 0xC2, 1, 2, 1, 2, 3, 0] @ []) False 8 (rp_toc sample_rp)
     (frames_between sample_rp 0 2)"
proof (rule repacketizer_roundtrip [OF sample_rp_ok])
  show "outRangeImpl sample_rp 0 2 (replicate 8 9) False True = Ok (8, [11, 0xC2, 1, 2, 1, 2, 3, 0])"
    by code_simp
qed simp

text \<open>Gathering frames.\<close>

lemma framesize_bound:
  assumes "n * samplesPerFrame b 8000 \<le> 960"
  shows "n \<le> 48"
proof -
  have "120 \<le> samplesPerFrame b 48000" using samplesPerFrame_values [of b] by auto
  then have "20 \<le> samplesPerFrame b 8000" using samplesPerFrame_8k [of b] by linarith
  moreover have "n * 20 \<le> n * samplesPerFrame b 8000" if "0 \<le> n" using that calculation by (intro mult_left_mono)
  ultimately show ?thesis using assms by (cases "0 \<le> n") force+
qed

definition compatible :: "Repacketizer \<Rightarrow> Packet \<Rightarrow> bool" where
  "compatible rp pkt \<longleftrightarrow>
     (rp_nbFrames rp = 0 \<or> toc_b (pk_TOC pkt) AND 0xFC = rp_toc rp AND 0xFC)
     \<and> (rp_nbFrames rp + len (pk_Frames pkt)) * TOC_SamplesPerFrame (pk_TOC pkt) 48000 \<le> 5760"

lemma catImpl_eq:
  assumes ok: "rp_ok rp" and ne: "data \<noteq> []"
    and c: "rp_nbFrames rp = 0 \<or> data ! 0 AND 0xFC = rp_toc rp AND 0xFC"
  defines "rp1 \<equiv> (if rp_nbFrames rp = 0
      then rp\<lparr>rp_toc := data ! 0, rp_framesize := samplesPerFrame (data ! 0) 8000\<rparr> else rp)"
  shows "catImpl rp data sd = (case parse data sd of Panic \<Rightarrow> Panic | Err e \<Rightarrow> Ok (rp1, Some e)
    | Ok pkt \<Rightarrow> if compatible rp pkt
        then Ok (rp1\<lparr>rp_frames := rp_frames_of rp @ pk_Frames pkt
                  @ drop (nat (rp_nbFrames rp) + length (pk_Frames pkt)) (rp_frames rp),
               rp_nbFrames := rp_nbFrames rp + len (pk_Frames pkt)\<rparr>, None)
        else Ok (rp1, Some ErrInvalidPacket))"
proof -
  have i: "idx data 0 = Ok (data ! 0)" and l: "\<not> len data < 1" using ne by (cases data; simp add: idx_def)+
  have b: "\<not> (rp_nbFrames rp \<noteq> 0 \<and> rp_toc rp AND 0xFC \<noteq> data ! 0 AND 0xFC)" using c by auto
  have nb: "rp_nbFrames rp1 = rp_nbFrames rp" "rp_frames rp1 = rp_frames rp" by (simp_all add: rp1_def)
  have toc: "samplesPerFrame (rp_toc rp) 8000 = samplesPerFrame (data ! 0) 8000" if "rp_nbFrames rp \<noteq> 0"
    using c that samplesPerFrame_and_FC [of "rp_toc rp"] samplesPerFrame_and_FC [of "data ! 0"] by metis
  have fz: "rp_framesize rp1 = samplesPerFrame (data ! 0) 8000" using ok toc by (auto simp: rp1_def rp_ok_def)
  have okn: "0 \<le> rp_nbFrames rp" "length (rp_frames rp) = 48" using ok by (simp_all add: rp_ok_def MaxFrames_def)
  show ?thesis
  proof (cases "run (new_parser data) sd")
    case (Ok p)
    then have p: "parsed_ok data p" using run_sat [of data sd] by auto
    note cnt = parsed_ok_count [OF p]
    note f = packet_of_facts(2) [OF p]
    have t: "pk_TOC (packet_of data p) = ParseTOC (data ! 0)" by (simp add: packet_of_def Let_def ParseTOC_def)
    have "(ps_count p + rp_nbFrames rp) * samplesPerFrame (data ! 0) 8000 > 960 \<longleftrightarrow>
        (rp_nbFrames rp + ps_count p) * samplesPerFrame (data ! 0) 48000 > 5760"
      by (simp add: add.commute flip: samplesPerFrame_8k)
    then have cp: "compatible rp (packet_of data p) \<longleftrightarrow>
        \<not> (ps_count p + rp_nbFrames rp) * samplesPerFrame (data ! 0) 8000 > 960"
      using c by (simp add: compatible_def t f ParseTOC_def TOC_SamplesPerFrame_def linorder_not_less)
    have c1: "\<not> ps_count p < 1" using cnt by simp
    show ?thesis
    proof (cases "compatible rp (packet_of data p)")
      case False
      then show ?thesis using cp c1
        unfolding catImpl_def if_not_P [OF l] i bnd.simps if_not_P [OF b] Let_def rp1_def [symmetric] nb fz Ok parse_eq
        by simp
    next
      case True
      then have lim: "\<not> (ps_count p + rp_nbFrames rp) * samplesPerFrame (data ! 0) 8000 > 960" using cp by simp
      then have le: "rp_nbFrames rp + ps_count p \<le> 48" using framesize_bound [of "ps_count p + rp_nbFrames rp" "data ! 0"] by linarith
      define fs where "fs = take (nat (ps_count p)) (drop (nat (rp_nbFrames rp)) (rp_frames rp))"
      have sl: "slice (rp_frames rp) (rp_nbFrames rp) (rp_nbFrames rp + ps_count p) = Ok fs"
        using okn cnt le by (simp add: slice_def fs_def)
      have lfs: "length fs = nat (ps_count p)" using okn cnt le by (simp add: fs_def)
      have fp: "fillPacket p data (empty_packet\<lparr>pk_Frames := fs\<rparr>) = Ok (packet_of data p, None)"
        using lfs by (subst fillPacket_eq [OF p]) simp_all
      have lp: "length (pk_Frames (packet_of data p)) = nat (ps_count p)" using f by linarith
      have cpy: "copy_at (rp_frames rp) (rp_nbFrames rp) (pk_Frames (packet_of data p)) =
          Ok (rp_frames_of rp @ pk_Frames (packet_of data p)
              @ drop (nat (rp_nbFrames rp) + length (pk_Frames (packet_of data p))) (rp_frames rp))"
        using okn cnt le lp by (subst copy_at_Ok) (simp_all add: rp_frames_of_def)
      have l2: "\<not> rp_nbFrames rp + ps_count p > int MaxFrames" using le by (simp add: MaxFrames_def)
      show ?thesis
        unfolding catImpl_def if_not_P [OF l] i bnd.simps if_not_P [OF b] Let_def rp1_def [symmetric] nb fz Ok parse_eq
          res.case if_not_P [OF c1] if_not_P [OF lim] if_not_P [OF l2] sl fp prod.case cpy option.case
          if_P [OF True] f
        by (simp add: nb)
    qed
  qed (unfold catImpl_def if_not_P [OF l] i bnd.simps if_not_P [OF b] Let_def rp1_def [symmetric] parse_eq,
      simp_all)
qed

lemma catImpl_rejects:
  assumes "data = [] \<or> rp_nbFrames rp \<noteq> 0 \<and> data ! 0 AND 0xFC \<noteq> rp_toc rp AND 0xFC"
  shows "catImpl rp data sd = Ok (rp, Some ErrInvalidPacket)"
proof (cases "data = []")
  case False
  then have i: "(idx data 0 :: (perr, u8) res) = Ok (data ! 0)" and l: "\<not> len data < 1"
    by (cases data; simp add: idx_def)+
  have b: "rp_nbFrames rp \<noteq> 0 \<and> rp_toc rp AND 0xFC \<noteq> data ! 0 AND 0xFC" using assms False by auto
  show ?thesis unfolding catImpl_def if_not_P [OF l] i bnd.simps if_P [OF b] by (rule refl)
qed (simp add: catImpl_def)

lemma parse_facts:
  assumes "parse data sd = Ok pkt"
  shows "data \<noteq> []" "pk_TOC pkt = ParseTOC (data ! 0)" "1 \<le> length (pk_Frames pkt)"
    "list_all (\<lambda>f. length f \<le> 1275) (pk_Frames pkt)"
    "len (pk_Frames pkt) * TOC_SamplesPerFrame (pk_TOC pkt) 48000 \<le> 5760"
proof -
  have w: "well_framed data sd pkt" using parse_safe [of data sd] assms by simp
  then show "pk_TOC pkt = ParseTOC (data ! 0)" "1 \<le> length (pk_Frames pkt)" "data \<noteq> []"
    "len (pk_Frames pkt) * TOC_SamplesPerFrame (pk_TOC pkt) 48000 \<le> 5760"
    by (auto simp: well_framed_def Duration_def)
  have "list_all (\<lambda>f. len f \<le> 1275) (pk_Frames pkt)" using w by (simp add: well_framed_def)
  then show "list_all (\<lambda>f. length f \<le> 1275) (pk_Frames pkt)"
    unfolding list_all_iff by (metis of_nat_le_iff of_nat_numeral)
qed

lemma parse_cases:
  obtains (ok) pkt where "parse data sd = Ok pkt" | (err) "parse data sd = Err ErrInvalidPacket"
  using parse_safe [of data sd] by (cases "parse data sd") auto

lemma sat_catImpl:
  assumes ok: "rp_ok rp"
  shows "sat (catImpl rp data sd) (\<lambda>_. False) (\<lambda>(rp', e). rp_ok rp' \<and>
     (case e of
        None \<Rightarrow> sat (parse data sd) (\<lambda>_. False) (\<lambda>pkt. compatible rp pkt
            \<and> rp_frames_of rp' = rp_frames_of rp @ pk_Frames pkt
            \<and> rp_toc rp' AND 0xFC = toc_b (pk_TOC pkt) AND 0xFC)
      | Some err \<Rightarrow> err = ErrInvalidPacket \<and> rp_frames_of rp' = rp_frames_of rp
            \<and> sat (parse data sd) (\<lambda>_. True) (\<lambda>pkt. \<not> compatible rp pkt)))"
proof (cases "data = [] \<or> rp_nbFrames rp \<noteq> 0 \<and> data ! 0 AND 0xFC \<noteq> rp_toc rp AND 0xFC")
  case True
  have "sat (parse data sd) (\<lambda>_. True) (\<lambda>pkt. \<not> compatible rp pkt)"
  proof (cases rule: parse_cases [of data sd])
    case (ok pkt)
    then have "data \<noteq> []" "toc_b (pk_TOC pkt) = data ! 0"
      using parse_facts(1,2) [OF ok] by (simp_all add: ParseTOC_def)
    with True have "\<not> compatible rp pkt" by (simp add: compatible_def)
    with ok show ?thesis by simp
  qed simp
  then show ?thesis using ok by (simp add: catImpl_rejects [OF True])
next
  case False
  define rp1 where "rp1 = (if rp_nbFrames rp = 0
      then rp\<lparr>rp_toc := data ! 0, rp_framesize := samplesPerFrame (data ! 0) 8000\<rparr> else rp)"
  have ne: "data \<noteq> []" and c: "rp_nbFrames rp = 0 \<or> data ! 0 AND 0xFC = rp_toc rp AND 0xFC"
    using False by auto
  note eq = catImpl_eq [OF ok ne c, of sd, folded rp1_def]
  have ok1: "rp_ok rp1" "rp_frames_of rp1 = rp_frames_of rp"
    using ok by (auto simp: rp1_def rp_ok_def rp_frames_of_def)
  show ?thesis
  proof (cases rule: parse_cases [of data sd])
    case (ok pkt)
    show ?thesis
    proof (cases "compatible rp pkt")
      case True
      note f = parse_facts [OF ok]
      let ?n = "rp_nbFrames rp + len (pk_Frames pkt)"
      let ?rp = "rp1\<lparr>rp_frames := rp_frames_of rp @ pk_Frames pkt
                  @ drop (nat (rp_nbFrames rp) + length (pk_Frames pkt)) (rp_frames rp), rp_nbFrames := ?n\<rparr>"
      have b: "0 \<le> rp_nbFrames rp" "rp_nbFrames rp \<le> 48" "length (rp_frames rp) = 48"
        using assms by (simp_all add: rp_ok_def MaxFrames_def)
      have l: "length (rp_frames_of rp) = nat (rp_nbFrames rp)"
        using b by (simp add: rp_frames_of_def)
      have sp: "samplesPerFrame (rp_toc rp1) 8000 = samplesPerFrame (data ! 0) 8000"
        using c samplesPerFrame_and_FC [of "rp_toc rp"] samplesPerFrame_and_FC [of "data ! 0"]
        unfolding rp1_def by (auto split: if_splits)
      have fz: "rp_framesize rp1 = samplesPerFrame (data ! 0) 8000"
        using assms sp by (auto simp: rp1_def rp_ok_def split: if_splits)
      have "?n * samplesPerFrame (data ! 0) 48000 \<le> 5760"
        using True by (simp add: compatible_def f(2) TOC_SamplesPerFrame_def ParseTOC_def)
      then have n8: "?n * samplesPerFrame (data ! 0) 8000 \<le> 960" by (simp flip: samplesPerFrame_8k)
      note n48 = framesize_bound [OF n8]
      have fr: "rp_frames_of ?rp = rp_frames_of rp @ pk_Frames pkt"
        using b by (simp add: rp_frames_of_def nat_add_distrib)
      have "length (rp_frames ?rp) = 48" using b n48 l by simp
      then have "rp_ok ?rp"
        using n48 n8 fr fz sp f(4) b assms by (simp add: rp_ok_def MaxFrames_def)
      moreover have "rp_toc ?rp AND 0xFC = toc_b (pk_TOC pkt) AND 0xFC"
        using c by (auto simp: rp1_def f(2) ParseTOC_def)
      ultimately show ?thesis
        unfolding eq ok res.case if_P [OF True] using True fr by simp
    qed (use ok ok1 eq in simp)
  qed (use ok1 eq in simp)
qed

text \<open>
  C30: \<^verbatim>\<open>Cat\<close> gathers frames.  It never panics and keeps the repacketizer's invariant (at
  most 48 frames of at most 1275 bytes, together at most 120 ms, of one configuration).  It
  succeeds exactly when the packet parses, has the configuration of the frames already held
  and fits the 120 ms; then the packet's frames are appended, in order.  Otherwise it returns
  \<^verbatim>\<open>ErrInvalidPacket\<close> and the frames held stay as they were.
\<close>

theorem cat_appends:
  assumes ok: "rp_ok rp"
  shows "sat (catImpl rp data sd) (\<lambda>_. False) (\<lambda>(rp', e). rp_ok rp' \<and>
     (case e of
        None \<Rightarrow> sat (parse data sd) (\<lambda>_. False) (\<lambda>pkt. compatible rp pkt
            \<and> rp_frames_of rp' = rp_frames_of rp @ pk_Frames pkt
            \<and> rp_toc rp' AND 0xFC = toc_b (pk_TOC pkt) AND 0xFC)
      | Some err \<Rightarrow> err = ErrInvalidPacket \<and> rp_frames_of rp' = rp_frames_of rp
            \<and> sat (parse data sd) (\<lambda>_. True) (\<lambda>pkt. \<not> compatible rp pkt)))"
  using assms by (rule sat_catImpl)

theorem cat_appends_witness:
  "sat (catImpl (Init NewRepacketizer) [8, 7] False) (\<lambda>_. False) (\<lambda>(rp', e). rp_ok rp' \<and>
     (case e of
        None \<Rightarrow> sat (parse [8, 7] False) (\<lambda>_. False) (\<lambda>pkt. compatible (Init NewRepacketizer) pkt
            \<and> rp_frames_of rp' = rp_frames_of (Init NewRepacketizer) @ pk_Frames pkt
            \<and> rp_toc rp' AND 0xFC = toc_b (pk_TOC pkt) AND 0xFC)
      | Some err \<Rightarrow> err = ErrInvalidPacket \<and> rp_frames_of rp' = rp_frames_of (Init NewRepacketizer)
            \<and> sat (parse [8, 7] False) (\<lambda>_. True) (\<lambda>pkt. \<not> compatible (Init NewRepacketizer) pkt)))"
  by (rule cat_appends) (simp add: rp_ok_def Init_def NewRepacketizer_def MaxFrames_def rp_frames_of_def)

text \<open>Padding.\<close>

lemma Init_ok: "rp_ok (Init NewRepacketizer)" and Init_frames: "rp_frames_of (Init NewRepacketizer) = []"
  and Init_nb: "rp_nbFrames (Init NewRepacketizer) = 0"
  by (simp_all add: rp_ok_def Init_def NewRepacketizer_def MaxFrames_def rp_frames_of_def)

lemma out_wire_padded_length: "out_wire toc sd True maxlen fs = Some w \<Longrightarrow> fs \<noteq> [] \<Longrightarrow> length w = maxlen"
  using length_short_long [of fs toc sd] length_code3_wire [of toc sd "maxlen - length (code3_wire toc sd 0 fs)" fs]
  by (auto simp: out_wire_def Let_def split: if_splits)

lemma Cat_fresh:
  assumes "parse data False = Ok pkt"
  obtains rp where "Cat (Init NewRepacketizer) data = Ok (rp, None)" "rp_ok rp"
    "rp_frames_of rp = pk_Frames pkt" "rp_toc rp AND 0xFC = toc_b (pk_TOC pkt) AND 0xFC"
    "rp_nbFrames rp = len (pk_Frames pkt)"
proof -
  let ?rp = "Init NewRepacketizer"
  have c: "compatible ?rp pkt" using parse_facts(5) [OF assms] by (simp add: compatible_def Init_nb)
  obtain rp e where r: "Cat ?rp data = Ok (rp, e)" and f: "rp_ok rp"
    "case e of None \<Rightarrow> rp_frames_of rp = pk_Frames pkt
            \<and> rp_toc rp AND 0xFC = toc_b (pk_TOC pkt) AND 0xFC
      | Some err \<Rightarrow> \<not> compatible ?rp pkt"
    using sat_catImpl [OF Init_ok, of data False] assms
    by (cases "catImpl ?rp data False") (auto simp: Cat_def Init_frames split: option.splits)
  have "e = None" using f(2) c by (cases e) auto
  moreover have "length (rp_frames_of rp) = nat (rp_nbFrames rp)"
    using f(1) by (auto simp: rp_frames_of_def rp_ok_def MaxFrames_def min_def)
  moreover have "0 \<le> rp_nbFrames rp" using f(1) by (simp add: rp_ok_def)
  ultimately show ?thesis using r f by (intro that) auto
qed

text \<open>A packet that parses is padded to the new length, or does not fit.\<close>

lemma Pad_parsed:
  assumes "1 \<le> l" "l < newLen" "newLen \<le> len data" "parse (take (nat l) data) False = Ok pkt"
  shows "Pad data l newLen = Err ErrBufferTooSmall
    \<or> (\<exists>w. length w = nat newLen \<and> unpacks_to w False newLen (toc_b (pk_TOC pkt)) (pk_Frames pkt)
        \<and> Pad data l newLen = Ok (w @ drop (nat newLen) data))"
proof -
  let ?d = "take (nat newLen) data"
  have sl: "slice data 0 l = Ok (take (nat l) data)" "slice data 0 newLen = Ok ?d" using assms by (simp_all add: slice_def)
  have g: "\<not> l < 1" "l \<noteq> newLen" "\<not> l > newLen" "\<not> (newLen > len data \<or> l > len data)" using assms by auto
  note unf = Pad_def if_not_P [OF g(1)] if_not_P [OF g(2)] if_not_P [OF g(3)] if_not_P [OF g(4)] sl bnd.simps
  obtain rp where rp: "Cat (Init NewRepacketizer) (take (nat l) data) = Ok (rp, None)" "rp_ok rp"
    "rp_frames_of rp = pk_Frames pkt" "rp_toc rp AND 0xFC = toc_b (pk_TOC pkt) AND 0xFC"
    "rp_nbFrames rp = len (pk_Frames pkt)" using Cat_fresh [OF assms(4)] .
  have nb: "0 < rp_nbFrames rp" using parse_facts(3) [OF assms(4)] unfolding rp(5) by linarith
  have fb: "frames_between rp 0 (rp_nbFrames rp) = pk_Frames pkt" by (simp add: frames_between_def rp(3) rp(5))
  let ?o = "out_wire (rp_toc rp) False True (nat newLen) (pk_Frames pkt)"
  have lt: "length ?d = nat newLen" using assms by auto
  have out: "outRangeImpl rp 0 (rp_nbFrames rp) ?d False True =
    (case ?o of None \<Rightarrow> Err ErrBufferTooSmall | Some w \<Rightarrow> Ok (len w, w @ drop (length w) ?d))"
    using outRangeImpl_eq [OF rp(2), of 0 "rp_nbFrames rp" ?d False True, unfolded fb lt] nb by (simp only: order_refl)
  show ?thesis
  proof (cases ?o)
    case None
    then show ?thesis unfolding unf rp(1) prod.case option.case out None by simp
  next
    case (Some w)
    have "pk_Frames pkt \<noteq> []" using parse_facts(3) [OF assms(4)] by auto
    then have lw: "length w = nat newLen" by (rule out_wire_padded_length [OF Some])
    have lw': "len w = newLen" using lw assms by linarith
    have "unpacks_to (w @ []) False (len w) (rp_toc rp) (pk_Frames pkt)"
      using frames_between_facts(1,2,4) [OF rp(2) order_refl nb order_refl] Some
      unfolding fb by (intro out_wire_parses) simp_all
    then have pw: "unpacks_to w False newLen (toc_b (pk_TOC pkt)) (pk_Frames pkt)"
      by (simp add: lw' unpacks_to_def rp(4))
    show ?thesis
      unfolding unf rp(1) prod.case option.case out Some using lw pw assms by auto
  qed
qed

text \<open>
  C31: \<^verbatim>\<open>Pad\<close> grows a packet in place.  It never panics and its internal error is
  unreachable.  When it succeeds, the buffer keeps its size and everything behind the new length
  is untouched; unless the packet already had the new length, its first \<open>newLen\<close> bytes are a
  packet that consumes all of them and holds the frames the old packet held, in the same
  configuration.  A packet that does not parse is refused.
\<close>

theorem Pad_keeps_frames:
  "sat (Pad data l newLen) (\<lambda>e. e \<noteq> ErrInternal)
     (\<lambda>out. length out = length data \<and> drop (nat newLen) out = drop (nat newLen) data
        \<and> (l = newLen \<and> out = data
           \<or> l < newLen \<and> sat (parse (take (nat l) data) False) (\<lambda>_. False) (\<lambda>pkt.
               unpacks_to (take (nat newLen) out) False newLen (toc_b (pk_TOC pkt)) (pk_Frames pkt))))"
proof (cases "1 \<le> l \<and> l < newLen \<and> newLen \<le> len data")
  case False
  then show ?thesis by (auto simp: Pad_def)
next
  case True
  show ?thesis
  proof (cases rule: parse_cases [of "take (nat l) data" False])
    case err
    have g: "\<not> l < 1" "l \<noteq> newLen" "\<not> l > newLen" "\<not> (newLen > len data \<or> l > len data)"
      "slice data 0 l = (Ok (take (nat l) data) :: (perr, bytes) res)" using True by (auto simp: slice_def)
    obtain rp e where r: "Cat (Init NewRepacketizer) (take (nat l) data) = Ok (rp, e)" "e \<noteq> None" "e \<noteq> Some ErrInternal"
      using sat_catImpl [OF Init_ok, of "take (nat l) data" False] err
      by (cases "catImpl (Init NewRepacketizer) (take (nat l) data) False") (auto simp: Cat_def split: option.splits)
    then show ?thesis unfolding Pad_def using g by auto
  next
    case (ok pkt)
    then show ?thesis using Pad_parsed [of l newLen data pkt] True by auto
  qed
qed

end
