(* ===== verification/RangeCoder.thy ===== *)
theory RangeCoder
  imports Prelude
begin

text \<open>
  The range coder (\<^verbatim>\<open>internal/rangecoding\<close>: \<^verbatim>\<open>entcode.go\<close>, \<^verbatim>\<open>entenc.go\<close>, \<^verbatim>\<open>entdec.go\<close>).  One record
  per context with the fields of the Go struct, one definition per method, 32-bit registers as
  words.  The calls report errors through a sticky field and return no error value, so a call
  either returns or does not: \<open>Panic\<close> is an index or a shift out of range, a division by zero,
  or a loop that does not end.  The tracing hooks are empty in the default build.
\<close>

type_synonym 'a go = "(unit, 'a) res"

section \<open>Shared helpers (entcode.go)\<close>

definition ecSymBits :: nat where "ecSymBits = 8"
definition ecCodeBits :: int where "ecCodeBits = 32"
definition ecSymMax :: int where "ecSymMax = 255"
definition ecCodeShift :: nat where "ecCodeShift = 23"
definition ecCodeTop :: u32 where "ecCodeTop = 0x80000000"
definition ecCodeBot :: u32 where "ecCodeBot = 0x800000"
definition ecCodeExtra :: nat where "ecCodeExtra = 7"
definition ecUintBits :: int where "ecUintBits = 8"
definition ecWindowSize :: int where "ecWindowSize = 32"
definition bitres :: nat where "bitres = 3"

lemmas ec_consts = ecSymBits_def ecCodeBits_def ecSymMax_def ecCodeShift_def ecCodeTop_def ecCodeBot_def
  ecCodeExtra_def ecUintBits_def ecWindowSize_def bitres_def

text \<open>\<^verbatim>\<open>bits.Len32\<close>: the number of bits of the value.\<close>

fun bit_length :: "nat \<Rightarrow> nat" where
  "bit_length n = (if n = 0 then 0 else Suc (bit_length (n div 2)))"

declare bit_length.simps [simp del]

definition ecIlog :: "u32 \<Rightarrow> int" where
  "ecIlog v = int (bit_length (unat v))"

text \<open>Division by zero panics; a shift by a negative amount panics.\<close>

definition celtUdiv :: "u32 \<Rightarrow> u32 \<Rightarrow> u32 go" where
  "celtUdiv n d = (if d = 0 then Panic else Ok (n div d))"

definition shl :: "u32 \<Rightarrow> int \<Rightarrow> u32 go" where
  "shl v k = (if k < 0 then Panic else Ok (push_bit (nat k) v))"

definition shr :: "u32 \<Rightarrow> int \<Rightarrow> u32 go" where
  "shr v k = (if k < 0 then Panic else Ok (drop_bit (nat k) v))"

definition ecTell :: "int \<Rightarrow> u32 \<Rightarrow> int" where
  "ecTell nbitsTotal rng = nbitsTotal - ecIlog rng"

definition ecTellFrac :: "int \<Rightarrow> u32 \<Rightarrow> u32 go" where
  "ecTellFrac nbitsTotal rng =
     (let correction = [35733, 38967, 42495, 46340, 50535, 55109, 60097, 65535] :: u32 list;
          nbits = push_bit bitres (word_of_int nbitsTotal :: u32);
          l = ecIlog rng in
      bnd (shr rng (l - 16)) (\<lambda>r.
      let b = drop_bit 12 r - 8 in
      bnd (idx correction (uint b)) (\<lambda>c.
      let b = (if r > c then b + 1 else b);
          l = 8 * l + uint b in
      Ok (nbits - word_of_int l))))"

section \<open>The encoder (entenc.go)\<close>

record Encoder =
  e_buf :: bytes
  e_storage :: u32
  e_end_offs :: u32
  e_end_window :: u32
  e_nend_bits :: int
  e_nbits_total :: int
  e_offs :: u32
  e_rng :: u32
  e_val :: u32
  e_ext :: u32
  e_rem :: int
  e_error :: int

text \<open>\<^verbatim>\<open>e.error |= e.write_byte(v)\<close>: the model sets the sticky error in the same step.\<close>

definition write_byte :: "Encoder \<Rightarrow> u32 \<Rightarrow> (int \<times> Encoder) go" where
  "write_byte e v =
     (if e_offs e + e_end_offs e \<ge> e_storage e then Ok (-1, e)
      else bnd (upd (e_buf e) (uint (e_offs e)) (ucast v)) (\<lambda>b.
           Ok (0, e\<lparr>e_buf := b, e_offs := e_offs e + 1\<rparr>)))"

definition write_byte_at_end :: "Encoder \<Rightarrow> u32 \<Rightarrow> (int \<times> Encoder) go" where
  "write_byte_at_end e v =
     (if e_offs e + e_end_offs e \<ge> e_storage e then Ok (-1, e)
      else let e = e\<lparr>e_end_offs := e_end_offs e + 1\<rparr> in
           bnd (upd (e_buf e) (uint (e_storage e - e_end_offs e)) (ucast v)) (\<lambda>b.
           Ok (0, e\<lparr>e_buf := b\<rparr>)))"

definition put_byte :: "Encoder \<Rightarrow> u32 \<Rightarrow> Encoder go" where
  "put_byte e v = bnd (write_byte e v) (\<lambda>(r, e). Ok (e\<lparr>e_error := e_error e OR r\<rparr>))"

definition put_byte_at_end :: "Encoder \<Rightarrow> u32 \<Rightarrow> Encoder go" where
  "put_byte_at_end e v = bnd (write_byte_at_end e v) (\<lambda>(r, e). Ok (e\<lparr>e_error := e_error e OR r\<rparr>))"

text \<open>The loop that writes the buffered symbols: \<open>n\<close> of them are left.\<close>

fun put_ext :: "nat \<Rightarrow> u32 \<Rightarrow> Encoder \<Rightarrow> Encoder go" where
  "put_ext 0 smb e = Ok e"
| "put_ext (Suc n) smb e = bnd (put_byte e smb) (\<lambda>e. put_ext n smb (e\<lparr>e_ext := e_ext e - 1\<rparr>))"

definition enc_carry_out :: "Encoder \<Rightarrow> int \<Rightarrow> Encoder go" where
  "enc_carry_out e c =
     (if c \<noteq> ecSymMax then
        let carry = drop_bit ecSymBits c in
        bnd (if e_rem e \<ge> 0 then put_byte e (word_of_int (e_rem e + carry)) else Ok e) (\<lambda>e.
        bnd (if e_ext e > 0
             then put_ext (unat (e_ext e)) (word_of_int (ecSymMax + carry) AND word_of_int ecSymMax) e
             else Ok e) (\<lambda>e.
        Ok (e\<lparr>e_rem := c AND ecSymMax\<rparr>)))
      else Ok (e\<lparr>e_ext := e_ext e + 1\<rparr>))"

text \<open>
  The renormalisation loop.  A nonzero range leaves it after at most three rounds, a zero
  range never does; four rounds of fuel tell the two apart.
\<close>

fun enc_normalize_loop :: "nat \<Rightarrow> Encoder \<Rightarrow> Encoder go" where
  "enc_normalize_loop 0 e = Panic"
| "enc_normalize_loop (Suc n) e =
     (if e_rng e \<le> ecCodeBot then
        bnd (enc_carry_out e (uint (drop_bit ecCodeShift (e_val e)))) (\<lambda>e.
        enc_normalize_loop n (e\<lparr>e_val := push_bit ecSymBits (e_val e) AND (ecCodeTop - 1),
          e_rng := push_bit ecSymBits (e_rng e), e_nbits_total := e_nbits_total e + int ecSymBits\<rparr>))
      else Ok e)"

definition enc_normalize :: "Encoder \<Rightarrow> Encoder go" where
  "enc_normalize e = enc_normalize_loop 4 e"

text \<open>\<^verbatim>\<open>Init\<close> sets every field, whatever they were.\<close>

definition Enc_Init :: "bytes \<Rightarrow> Encoder" where
  "Enc_Init buf = \<lparr>e_buf = buf, e_storage = word_of_nat (length buf), e_end_offs = 0, e_end_window = 0,
     e_nend_bits = 0, e_nbits_total = ecCodeBits + 1, e_offs = 0, e_rng = ecCodeTop, e_val = 0,
     e_ext = 0, e_rem = -1, e_error = 0\<rparr>"

definition Encode :: "Encoder \<Rightarrow> u32 \<Rightarrow> u32 \<Rightarrow> u32 \<Rightarrow> Encoder go" where
  "Encode e fl fh ft =
     bnd (celtUdiv (e_rng e) ft) (\<lambda>r.
     enc_normalize
       (if fl > 0 then e\<lparr>e_val := e_val e + (e_rng e - r * (ft - fl)), e_rng := r * (fh - fl)\<rparr>
        else e\<lparr>e_rng := e_rng e - r * (ft - fh)\<rparr>))"

definition EncodeBin :: "Encoder \<Rightarrow> u32 \<Rightarrow> u32 \<Rightarrow> u32 \<Rightarrow> Encoder go" where
  "EncodeBin e fl fh bits =
     (let r = drop_bit (unat bits) (e_rng e); ft = push_bit (unat bits) 1 in
      enc_normalize
       (if fl > 0 then e\<lparr>e_val := e_val e + (e_rng e - r * (ft - fl)), e_rng := r * (fh - fl)\<rparr>
        else e\<lparr>e_rng := e_rng e - r * (ft - fh)\<rparr>))"

definition EncBitLogp :: "Encoder \<Rightarrow> int \<Rightarrow> u32 \<Rightarrow> Encoder go" where
  "EncBitLogp e v logp =
     (let r = e_rng e; l = e_val e; s = drop_bit (unat logp) r; r = r - s;
          e = (if v \<noteq> 0 then e\<lparr>e_val := l + r\<rparr> else e);
          e = (if v \<noteq> 0 then e\<lparr>e_rng := s\<rparr> else e\<lparr>e_rng := r\<rparr>)
      in enc_normalize e)"

definition EncIcdf :: "Encoder \<Rightarrow> int \<Rightarrow> bytes \<Rightarrow> u32 \<Rightarrow> Encoder go" where
  "EncIcdf e s icdf ftb =
     (let r = drop_bit (unat ftb) (e_rng e) in
      bnd (if s > 0 then
             bnd (idx icdf (s - 1)) (\<lambda>f0. bnd (idx icdf s) (\<lambda>f1.
             Ok (e\<lparr>e_val := e_val e + (e_rng e - r * ucast f0), e_rng := r * (ucast f0 - ucast f1)\<rparr>)))
           else bnd (idx icdf s) (\<lambda>f1. Ok (e\<lparr>e_rng := e_rng e - r * ucast f1\<rparr>)))
        enc_normalize)"

text \<open>The loop that moves full bytes of the bit window to the end of the buffer.\<close>

function flush_window :: "Encoder \<Rightarrow> u32 \<Rightarrow> int \<Rightarrow> (Encoder \<times> u32 \<times> int) go" where
  "flush_window e window used =
     bnd (put_byte_at_end e (window AND word_of_int ecSymMax)) (\<lambda>e.
     let window = drop_bit ecSymBits window; used' = used - int ecSymBits in
     if used' < int ecSymBits then Ok (e, window, used') else flush_window e window used')"
  by pat_completeness auto
termination
  by (relation "measure (\<lambda>(e, w, u). nat u)") (auto simp: ecSymBits_def)

declare flush_window.simps [simp del]

definition EncBits :: "Encoder \<Rightarrow> u32 \<Rightarrow> u32 \<Rightarrow> Encoder go" where
  "EncBits e fl bits =
     bnd (if e_nend_bits e + uint bits > ecWindowSize then flush_window e (e_end_window e) (e_nend_bits e)
          else Ok (e, e_end_window e, e_nend_bits e)) (\<lambda>(e, window, used).
     bnd (shl fl used) (\<lambda>x.
     Ok (e\<lparr>e_end_window := window OR x, e_nend_bits := used + uint bits,
           e_nbits_total := e_nbits_total e + uint bits\<rparr>)))"

definition EncUint :: "Encoder \<Rightarrow> u32 \<Rightarrow> u32 \<Rightarrow> Encoder go" where
  "EncUint e fl ft0 =
     (let ft0 = ft0 - 1; ftb = ecIlog ft0 in
      if ftb > ecUintBits then
        let ftb = nat (ftb - ecUintBits); ft = drop_bit ftb ft0 + 1; fl' = drop_bit ftb fl in
        bnd (Encode e fl' (fl' + 1) ft) (\<lambda>e.
        EncBits e (fl AND (push_bit ftb 1 - 1)) (word_of_nat ftb))
      else Encode e fl (fl + 1) (ft0 + 1))"

definition EncPatchInitialBits :: "Encoder \<Rightarrow> u32 \<Rightarrow> u32 \<Rightarrow> Encoder go" where
  "EncPatchInitialBits e v nbits =
     (let shift = int ecSymBits - uint nbits in
      bnd (shl (push_bit (unat nbits) 1 - 1) shift) (\<lambda>mask.
      if e_offs e > 0 then
        bnd (idx (e_buf e) 0) (\<lambda>b0.
        bnd (shl v shift) (\<lambda>x.
        bnd (upd (e_buf e) 0 (ucast ((ucast b0 AND NOT mask) OR x))) (\<lambda>b.
        Ok (e\<lparr>e_buf := b\<rparr>))))
      else if e_rem e \<ge> 0 then
        bnd (shl v shift) (\<lambda>x.
        Ok (e\<lparr>e_rem := (e_rem e AND NOT (uint mask)) OR uint x\<rparr>))
      else if e_rng e \<le> drop_bit (unat nbits) ecCodeTop then
        bnd (shl v (int ecCodeShift + shift)) (\<lambda>x.
        Ok (e\<lparr>e_val := (e_val e AND NOT (push_bit ecCodeShift mask)) OR x\<rparr>))
      else Ok (e\<lparr>e_error := -1\<rparr>)))"

text \<open>\<^verbatim>\<open>copy(buf[size-end_offs:size], buf[storage-end_offs:storage])\<close> works on overlapping windows.\<close>

definition EncShrink :: "Encoder \<Rightarrow> u32 \<Rightarrow> Encoder go" where
  "EncShrink e sz =
     bnd (slice (e_buf e) (uint (sz - e_end_offs e)) (uint sz)) (\<lambda>dst.
     bnd (slice (e_buf e) (uint (e_storage e - e_end_offs e)) (uint (e_storage e))) (\<lambda>src.
     bnd (copy_at (e_buf e) (uint (sz - e_end_offs e)) (take (length dst) src)) (\<lambda>b.
     Ok (e\<lparr>e_buf := b, e_storage := sz\<rparr>))))"

text \<open>The three loops of \<^verbatim>\<open>EncDone\<close> and the clearing of the gap.\<close>

function flush_end :: "Encoder \<Rightarrow> u32 \<Rightarrow> int \<Rightarrow> (Encoder \<times> int) go" where
  "flush_end e endv l =
     (if l > 0 then
        bnd (enc_carry_out e (uint (drop_bit ecCodeShift endv))) (\<lambda>e.
        flush_end e (push_bit ecSymBits endv AND (ecCodeTop - 1)) (l - int ecSymBits))
      else Ok (e, l))"
  by pat_completeness auto
termination
  by (relation "measure (\<lambda>(e, x, l). nat l)") (auto simp: ecSymBits_def)

declare flush_end.simps [simp del]

function flush_bits :: "Encoder \<Rightarrow> u32 \<Rightarrow> int \<Rightarrow> (Encoder \<times> u32 \<times> int) go" where
  "flush_bits e window used =
     (if used \<ge> int ecSymBits then
        bnd (put_byte_at_end e (window AND word_of_int ecSymMax)) (\<lambda>e.
        flush_bits e (drop_bit ecSymBits window) (used - int ecSymBits))
      else Ok (e, window, used))"
  by pat_completeness auto
termination
  by (relation "measure (\<lambda>(e, w, u). nat u)") (auto simp: ecSymBits_def)

declare flush_bits.simps [simp del]

definition clear_gap :: "Encoder \<Rightarrow> Encoder go" where
  "clear_gap e =
     (if e_buf e = [] then Ok e
      else bnd (slice (e_buf e) (uint (e_offs e)) (uint (e_storage e - e_end_offs e))) (\<lambda>gap.
           bnd (copy_at (e_buf e) (uint (e_offs e)) (replicate (length gap) 0)) (\<lambda>b.
           Ok (e\<lparr>e_buf := b\<rparr>))))"

definition put_last_bits :: "Encoder \<Rightarrow> int \<Rightarrow> u32 \<Rightarrow> int \<Rightarrow> Encoder go" where
  "put_last_bits e l window used =
     (if e_end_offs e \<ge> e_storage e then Ok (e\<lparr>e_error := -1\<rparr>)
      else
        let l = - l; bust = e_offs e + e_end_offs e \<ge> e_storage e \<and> l < used in
        bnd (if bust then shl 1 l else Ok 0) (\<lambda>m.
        let window = (if bust then window AND (m - 1) else window);
            e = (if bust then e\<lparr>e_error := -1\<rparr> else e);
            i = uint (e_storage e - e_end_offs e - 1) in
        bnd (idx (e_buf e) i) (\<lambda>b0.
        bnd (upd (e_buf e) i (b0 OR ucast window)) (\<lambda>b.
        Ok (e\<lparr>e_buf := b\<rparr>)))))"

definition done_end :: "Encoder \<Rightarrow> (u32 \<times> int) go" where
  "done_end e =
     (let l = ecCodeBits - ecIlog (e_rng e) in
      bnd (shr (ecCodeTop - 1) l) (\<lambda>msk.
      let endv = (e_val e + msk) AND NOT msk in
      if (endv OR msk) \<ge> e_val e + e_rng e then
        let l = l + 1; msk = drop_bit 1 msk in Ok ((e_val e + msk) AND NOT msk, l)
      else Ok (endv, l)))"

definition EncDone :: "Encoder \<Rightarrow> Encoder go" where
  "EncDone e =
     bnd (done_end e) (\<lambda>(endv, l).
     bnd (flush_end e endv l) (\<lambda>(e, l).
     bnd (if e_rem e \<ge> 0 \<or> e_ext e > 0 then enc_carry_out e 0 else Ok e) (\<lambda>e.
     bnd (flush_bits e (e_end_window e) (e_nend_bits e)) (\<lambda>(e, window, used).
     if e_error e = 0 then
       bnd (clear_gap e) (\<lambda>e.
       if used > 0 then put_last_bits e l window used else Ok e)
     else Ok e))))"

definition Enc_Tell :: "Encoder \<Rightarrow> int" where
  "Enc_Tell e = ecTell (e_nbits_total e) (e_rng e)"

definition Enc_SetTellForSilence :: "Encoder \<Rightarrow> int \<Rightarrow> Encoder" where
  "Enc_SetTellForSilence e targetBits = e\<lparr>e_nbits_total := e_nbits_total e + (targetBits - Enc_Tell e)\<rparr>"

definition Enc_TellFrac :: "Encoder \<Rightarrow> u32 go" where
  "Enc_TellFrac e = ecTellFrac (e_nbits_total e) (e_rng e)"

section \<open>The decoder (entdec.go)\<close>

record Decoder =
  d_buf :: bytes
  d_storage :: u32
  d_end_offs :: u32
  d_end_window :: u32
  d_nend_bits :: int
  d_nbits_total :: int
  d_offs :: u32
  d_rng :: u32
  d_val :: u32
  d_ext :: u32
  d_rem :: int
  d_error :: int

definition read_byte :: "Decoder \<Rightarrow> (int \<times> Decoder) go" where
  "read_byte d =
     (if d_offs d < d_storage d then
        bnd (idx (d_buf d) (uint (d_offs d))) (\<lambda>b. Ok (uint b, d\<lparr>d_offs := d_offs d + 1\<rparr>))
      else Ok (0, d))"

definition read_byte_from_end :: "Decoder \<Rightarrow> (int \<times> Decoder) go" where
  "read_byte_from_end d =
     (if d_end_offs d < d_storage d then
        let d = d\<lparr>d_end_offs := d_end_offs d + 1\<rparr> in
        bnd (idx (d_buf d) (uint (d_storage d - d_end_offs d))) (\<lambda>b. Ok (uint b, d))
      else Ok (0, d))"

text \<open>As in the encoder, four rounds of fuel tell a range that normalises from a zero range.\<close>

fun dec_normalize_loop :: "nat \<Rightarrow> Decoder \<Rightarrow> Decoder go" where
  "dec_normalize_loop 0 d = Panic"
| "dec_normalize_loop (Suc n) d =
     (if d_rng d \<le> ecCodeBot then
        let d = d\<lparr>d_nbits_total := d_nbits_total d + int ecSymBits, d_rng := push_bit ecSymBits (d_rng d)\<rparr>;
            smb = d_rem d in
        bnd (read_byte d) (\<lambda>(b, d).
        let d = d\<lparr>d_rem := b\<rparr>;
            smb = drop_bit (ecSymBits - ecCodeExtra) (push_bit ecSymBits smb OR d_rem d) in
        dec_normalize_loop n
          (d\<lparr>d_val := (push_bit ecSymBits (d_val d) + (word_of_int ecSymMax AND NOT (word_of_int smb)))
               AND (ecCodeTop - 1)\<rparr>))
      else Ok d)"

definition dec_normalize :: "Decoder \<Rightarrow> Decoder go" where
  "dec_normalize d = dec_normalize_loop 4 d"

text \<open>\<^verbatim>\<open>Init\<close> sets every field but \<^verbatim>\<open>ext\<close>, which \<^verbatim>\<open>Decode\<close> writes before it is read.\<close>

definition Dec_Init :: "Decoder \<Rightarrow> bytes \<Rightarrow> Decoder go" where
  "Dec_Init d buf =
     (let d = \<lparr>d_buf = buf, d_storage = word_of_nat (length buf), d_end_offs = 0, d_end_window = 0,
         d_nend_bits = 0,
         d_nbits_total = ecCodeBits + 1 - ((ecCodeBits - int ecCodeExtra) sdiv int ecSymBits) * int ecSymBits,
         d_offs = 0, d_rng = push_bit ecCodeExtra 1, d_val = d_val d, d_ext = d_ext d, d_rem = d_rem d,
         d_error = d_error d\<rparr> in
      bnd (read_byte d) (\<lambda>(b, d).
      dec_normalize (d\<lparr>d_rem := b,
        d_val := d_rng d - 1 - word_of_int (drop_bit (ecSymBits - ecCodeExtra) b), d_error := 0\<rparr>)))"

definition Decode :: "Decoder \<Rightarrow> u32 \<Rightarrow> (u32 \<times> Decoder) go" where
  "Decode d ft =
     bnd (celtUdiv (d_rng d) ft) (\<lambda>ext.
     let d = d\<lparr>d_ext := ext\<rparr> in
     bnd (celtUdiv (d_val d) (d_ext d)) (\<lambda>s.
     Ok (ft - min (s + 1) ft, d)))"

definition DecodeBin :: "Decoder \<Rightarrow> u32 \<Rightarrow> (u32 \<times> Decoder) go" where
  "DecodeBin d bits =
     (let d = d\<lparr>d_ext := drop_bit (unat bits) (d_rng d)\<rparr> in
      bnd (celtUdiv (d_val d) (d_ext d)) (\<lambda>s.
      Ok (push_bit (unat bits) 1 - min (s + 1) (push_bit (unat bits) 1), d)))"

definition DecUpdate :: "Decoder \<Rightarrow> u32 \<Rightarrow> u32 \<Rightarrow> u32 \<Rightarrow> Decoder go" where
  "DecUpdate d fl fh ft =
     (let s = d_ext d * (ft - fh);
          d = d\<lparr>d_val := d_val d - s\<rparr> in
      dec_normalize (if fl > 0 then d\<lparr>d_rng := d_ext d * (fh - fl)\<rparr> else d\<lparr>d_rng := d_rng d - s\<rparr>))"

definition DecBitLogp :: "Decoder \<Rightarrow> u32 \<Rightarrow> (int \<times> Decoder) go" where
  "DecBitLogp d logp =
     (let r = d_rng d; v = d_val d; s = drop_bit (unat logp) r;
          ret = (if v < s then 1 else 0);
          d = (if ret = 0 then d\<lparr>d_val := v - s\<rparr> else d);
          d = (if ret \<noteq> 0 then d\<lparr>d_rng := s\<rparr> else d\<lparr>d_rng := r - s\<rparr>) in
      bnd (dec_normalize d) (\<lambda>d. Ok (ret, d)))"

text \<open>The search loop of \<^verbatim>\<open>DecIcdf\<close>: it returns the index with the bounds \<open>s\<close> and \<open>t\<close> found.\<close>

function icdf_search :: "bytes \<Rightarrow> u32 \<Rightarrow> u32 \<Rightarrow> u32 \<Rightarrow> int \<Rightarrow> (int \<times> u32 \<times> u32) go" where
  "icdf_search icdf r d s ret =
     (let t = s; ret' = ret + 1 in
      bnd (idx icdf ret') (\<lambda>f.
      let s = r * ucast f in
      if d \<ge> s then Ok (ret', s, t) else icdf_search icdf r d s ret'))"
  by pat_completeness auto
termination
  by (relation "measure (\<lambda>(icdf, r, d, s, ret). nat (len icdf - ret))") (auto simp: idx_eq_Ok)

declare icdf_search.simps [simp del]

definition DecIcdf :: "Decoder \<Rightarrow> bytes \<Rightarrow> u32 \<Rightarrow> (int \<times> Decoder) go" where
  "DecIcdf d icdf ftb =
     (let s = d_rng d; v = d_val d; r = drop_bit (unat ftb) s in
      bnd (icdf_search icdf r v s (-1)) (\<lambda>(ret, s, t).
      bnd (dec_normalize (d\<lparr>d_val := v - s, d_rng := t - s\<rparr>)) (\<lambda>d.
      Ok (ret, d))))"

function fill_window :: "Decoder \<Rightarrow> u32 \<Rightarrow> int \<Rightarrow> (Decoder \<times> u32 \<times> int) go" where
  "fill_window d window available =
     bnd (read_byte_from_end d) (\<lambda>(b, d).
     bnd (shl (word_of_int b) available) (\<lambda>x.
     let window = window OR x; available' = available + int ecSymBits in
     if available' > ecWindowSize - int ecSymBits then Ok (d, window, available')
     else fill_window d window available'))"
  by pat_completeness auto
termination
  by (relation "measure (\<lambda>(d, w, a). nat (32 - a))") (auto simp: ecSymBits_def ecWindowSize_def)

declare fill_window.simps [simp del]

definition DecBits :: "Decoder \<Rightarrow> u32 \<Rightarrow> (u32 \<times> Decoder) go" where
  "DecBits d bits =
     bnd (if d_nend_bits d < uint bits then fill_window d (d_end_window d) (d_nend_bits d)
          else Ok (d, d_end_window d, d_nend_bits d)) (\<lambda>(d, window, available).
     let ret = window AND (push_bit (unat bits) 1 - 1) in
     Ok (ret, d\<lparr>d_end_window := drop_bit (unat bits) window, d_nend_bits := available - uint bits,
            d_nbits_total := d_nbits_total d + uint bits\<rparr>))"

definition DecUint :: "Decoder \<Rightarrow> u32 \<Rightarrow> (u32 \<times> Decoder) go" where
  "DecUint d ft0 =
     (let ft0 = ft0 - 1; ftb = ecIlog ft0 in
      if ftb > ecUintBits then
        let ftb = nat (ftb - ecUintBits); ft = drop_bit ftb ft0 + 1 in
        bnd (Decode d ft) (\<lambda>(s, d).
        bnd (DecUpdate d s (s + 1) ft) (\<lambda>d.
        bnd (DecBits d (word_of_nat ftb)) (\<lambda>(b, d).
        let t = push_bit ftb s OR b in
        if t \<le> ft0 then Ok (t, d) else Ok (ft0, d\<lparr>d_error := 1\<rparr>))))
      else
        let ft = ft0 + 1 in
        bnd (Decode d ft) (\<lambda>(s, d).
        bnd (DecUpdate d s (s + 1) ft) (\<lambda>d. Ok (s, d))))"

definition Dec_Tell :: "Decoder \<Rightarrow> int" where
  "Dec_Tell d = ecTell (d_nbits_total d) (d_rng d)"

definition Dec_SetTellForSilence :: "Decoder \<Rightarrow> int \<Rightarrow> Decoder" where
  "Dec_SetTellForSilence d targetBits = d\<lparr>d_nbits_total := d_nbits_total d + (targetBits - Dec_Tell d)\<rparr>"

definition Dec_TellFrac :: "Decoder \<Rightarrow> u32 go" where
  "Dec_TellFrac d = ecTellFrac (d_nbits_total d) (d_rng d)"

definition ShrinkStorage :: "Decoder \<Rightarrow> u32 \<Rightarrow> Decoder" where
  "ShrinkStorage d n = d\<lparr>d_storage := d_storage d - n\<rparr>"

end
