(* ===== verification/RC_Base.thy ===== *)
theory RC_Base
  imports RangeCoder
begin

text \<open>
  Arithmetic of the range coder: 32-bit registers as integers, and byte strings as the base-256
  numbers they denote.
\<close>

section \<open>32-bit registers as numbers\<close>

lemma u32_lt: "uint (a :: u32) < 4294967296"
  using uint_lt2p [of a] by simp

lemma u32_add: "uint a + uint b < 4294967296 \<Longrightarrow> uint (a + b) = uint a + uint (b :: u32)"
  using uint_add_lem [of a b] by simp

lemma u32_sub: "uint b \<le> uint a \<Longrightarrow> uint (a - b) = uint a - uint (b :: u32)"
  using uint_sub_lem [of b a] by simp

lemma u32_mul: "uint a * uint b < 4294967296 \<Longrightarrow> uint (a * b) = uint a * uint (b :: u32)"
  using uint_mult_lem [of a b] by simp

lemma u32_of_int: "0 \<le> i \<Longrightarrow> i < 4294967296 \<Longrightarrow> uint (word_of_int i :: u32) = i"
  by (simp add: uint_word_of_int)

lemma u32_drop: "uint (drop_bit n a) = uint (a :: u32) div 2 ^ n"
  by (subst unsigned_drop_bit_eq) (simp add: drop_bit_eq_div take_bit_int_eq_self u32_lt)

lemma u32_push: "uint (push_bit n a) = uint (a :: u32) * 2 ^ n mod 4294967296"
  by (subst unsigned_push_bit_eq) (simp add: take_bit_eq_mod push_bit_eq_mult)

lemma u32_push_small: "uint a * 2 ^ n < 4294967296 \<Longrightarrow> uint (push_bit n a) = uint (a :: u32) * 2 ^ n"
  by (simp add: u32_push)

lemma int_and_mask31: "(a :: int) AND 2147483647 = a mod 2147483648"
proof -
  have "a AND mask 31 = a mod 2 ^ 31" by (metis take_bit_eq_mask take_bit_int_def)
  then show ?thesis by (simp add: mask_eq_exp_minus_1)
qed

lemma u32_mask31: "uint (a AND (ecCodeTop - 1)) = uint (a :: u32) mod 2147483648"
  by (simp add: ecCodeTop_def uint_and int_and_mask31)

lemma u32_le: "(a :: u32) \<le> b \<longleftrightarrow> uint a \<le> uint b"
  by (rule word_le_def)

lemma u32_less: "(a :: u32) < b \<longleftrightarrow> uint a < uint b"
  by (rule word_less_def)

lemma u32_div: "uint (a div b) = uint a div uint (b :: u32)"
  by (rule uint_div)

lemma u32_eq_iff: "(a :: u32) = b \<longleftrightarrow> uint a = uint b"
  by (rule word_uint_eq_iff)

lemmas u32_arith = u32_drop u32_mask31 u32_le u32_less u32_div


section \<open>Bytes as base-256 numbers\<close>

text \<open>The first byte is the most significant one.\<close>

definition num :: "bytes \<Rightarrow> int" where
  "num bs = foldl (\<lambda>a b. 256 * a + uint b) 0 bs"

lemma num_Nil [simp]: "num [] = 0"
  and num_snoc [simp]: "num (bs @ [b]) = 256 * num bs + uint b"
  by (simp_all add: num_def)

lemma num_append: "num (xs @ ys) = num xs * 256 ^ length ys + num ys"
proof (induction ys rule: rev_induct)
  case (snoc y ys)
  have "num (xs @ ys @ [y]) = 256 * num (xs @ ys) + uint y" by (simp flip: append_assoc)
  with snoc show ?case by (simp add: algebra_simps)
qed simp

lemma num_bounds: "0 \<le> num bs" "num bs < 256 ^ length bs"
proof (induction bs rule: rev_induct)
  case (snoc b bs)
  { case 1 show ?case using snoc uint_ge_0 [of b] by simp }
  { case 2 have "num bs + 1 \<le> 256 ^ length bs" using snoc by simp
    then have "256 * num bs + 256 \<le> 256 * 256 ^ length bs" by linarith
    then show ?case using uint_u8_lt [of b] by simp }
qed simp_all

lemma num_replicate_0: "num (replicate n 0) = 0"
  by (induction n) (simp_all add: replicate_append_same [symmetric] del: replicate_Suc, simp add: replicate_append_same [symmetric])

lemma num_replicate_255: "num (replicate n 255) = 256 ^ n - 1"
proof (induction n)
  case (Suc n)
  have "num (replicate (Suc n) 255) = num (replicate n 255 @ [255])" by (simp add: replicate_append_same)
  then show ?case using Suc by simp
qed simp

text \<open>The first \<open>k\<close> bytes of a stream that continues with zero bytes.\<close>

definition byte_at :: "bytes \<Rightarrow> nat \<Rightarrow> int" where
  "byte_at S i = (if i < length S then uint (S ! i) else 0)"

fun pref :: "bytes \<Rightarrow> nat \<Rightarrow> int" where
  "pref S 0 = 0"
| "pref S (Suc k) = 256 * pref S k + byte_at S k"

lemma byte_at_range: "0 \<le> byte_at S i" "byte_at S i < 256"
  using uint_u8_lt by (simp_all add: byte_at_def)

lemma pref_num: "k \<le> length S \<Longrightarrow> pref S k = num (take k S)"
  by (induction k) (simp_all add: take_Suc_conv_app_nth byte_at_def)

lemma pref_add: "\<exists>t. pref S (k + j) = pref S k * 256 ^ j + t \<and> 0 \<le> t \<and> t < 256 ^ j"
proof (induction j)
  case (Suc j)
  then obtain t where t: "pref S (k + j) = pref S k * 256 ^ j + t" "0 \<le> t" "t < 256 ^ j" by blast
  have "t + 1 \<le> 256 ^ j" using t(3) by linarith
  then have "256 * t + 256 \<le> 256 * 256 ^ j" by linarith
  then have "256 * t + byte_at S (k + j) < 256 ^ Suc j" using byte_at_range [of S "k + j"] by simp
  moreover have "pref S (k + Suc j) = pref S k * 256 ^ Suc j + (256 * t + byte_at S (k + j))"
    using t(1) by (simp add: algebra_simps)
  ultimately show ?case using t(2) byte_at_range(1) [of S "k + j"] by (intro exI conjI) auto
qed simp

text \<open>
  The 31-bit window of the stream behind its first \<open>b - 4\<close> bytes: what the decoder compares
  with the encoder's range after it has read \<open>b\<close> bytes.
\<close>

definition code_at :: "bytes \<Rightarrow> nat \<Rightarrow> int" where
  "code_at S b = pref S b div 2"

lemma code_at_Suc:
  "code_at S (Suc (Suc k)) = 256 * code_at S (Suc k)
     + ((256 * byte_at S k + byte_at S (Suc k)) div 2) mod 256"
proof -
  define a where "a = byte_at S k"
  define c where "c = byte_at S (Suc k)"
  define q where "q = pref S k"
  have "0 \<le> a" "a < 256" "0 \<le> c" "c < 256" using byte_at_range by (simp_all add: a_def c_def)
  moreover obtain a' e where a: "a = 2 * a' + e" "0 \<le> e" "e < 2"
    using mult_div_mod_eq [of 2 a] pos_mod_bound [of 2 a] pos_mod_sign [of 2 a] by (metis zero_less_numeral)
  moreover obtain c' f where c: "c = 2 * c' + f" "0 \<le> f" "f < 2"
    using mult_div_mod_eq [of 2 c] pos_mod_bound [of 2 c] pos_mod_sign [of 2 c] by (metis zero_less_numeral)
  moreover have "(256 * (256 * q + a) + c) div 2 = 256 * (128 * q + a') + (128 * e + c')"
    using a c by simp
  moreover have "(256 * q + a) div 2 = 128 * q + a'" using a by simp
  moreover have "(256 * a + c) div 2 = 256 * a' + (128 * e + c')" using a c by simp
  moreover have "(256 * a' + (128 * e + c')) mod 256 = 128 * e + c'"
    using calculation by (intro int_mod_pos_eq [of _ _ a']) auto
  ultimately have "(256 * (256 * q + a) + c) div 2 = 256 * ((256 * q + a) div 2) + ((256 * a + c) div 2) mod 256"
    by presburger
  then show ?thesis by (simp add: code_at_def a_def c_def q_def)
qed

lemma code_at_div: "code_at S (b + j) div 256 ^ j = code_at S b"
proof -
  obtain t where t: "pref S (b + j) = pref S b * 256 ^ j + t" "0 \<le> t" "t < 256 ^ j"
    using pref_add [of S b j] by blast
  have "pref S (b + j) div 256 ^ j = pref S b" using t by simp
  then show ?thesis unfolding code_at_def by (metis div_mult2_eq mult.commute zdiv_zmult2_eq zero_le_numeral zero_le_power)
qed

end
