(* ===== verification/RC_Encoder.thy ===== *)
theory RC_Encoder
  imports RC_Base
begin

text \<open>
  The encoder's exact state: the digits put out, pending carry included, and the interval the
  registers stand for (\<open>enc_rel\<close>).  The carry propagation and the renormalisation loop keep it.
\<close>

section \<open>The encoder's output\<close>

text \<open>
  What every step of the encoder keeps: the two write positions do not cross, the error field
  is 0 or -1, and \<open>rem\<close> is a byte or -1.
\<close>

definition enc_wf :: "Encoder \<Rightarrow> bool" where
  "enc_wf e \<longleftrightarrow> len (e_buf e) = uint (e_storage e)
     \<and> uint (e_offs e) + uint (e_end_offs e) \<le> uint (e_storage e)
     \<and> (e_error e = 0 \<or> e_error e = -1) \<and> -1 \<le> e_rem e \<and> e_rem e \<le> 255"

text \<open>The bytes at the front and at the end of the buffer.\<close>

definition front_bytes :: "Encoder \<Rightarrow> bytes" where
  "front_bytes e = take (unat (e_offs e)) (e_buf e)"

definition tail_bytes :: "Encoder \<Rightarrow> bytes" where
  "tail_bytes e = drop (length (e_buf e) - unat (e_end_offs e)) (e_buf e)"

lemma length_front: "enc_wf e \<Longrightarrow> length (front_bytes e) = unat (e_offs e)"
  and length_tail: "enc_wf e \<Longrightarrow> length (tail_bytes e) = unat (e_end_offs e)"
proof -
  assume wf: "enc_wf e"
  then have w: "len (e_buf e) = uint (e_storage e)"
    "uint (e_offs e) + uint (e_end_offs e) \<le> uint (e_storage e)" by (simp_all add: enc_wf_def)
  have "uint (e_offs e) \<le> len (e_buf e)" "uint (e_end_offs e) \<le> len (e_buf e)"
    using w uint_ge_0 [of "e_offs e"] uint_ge_0 [of "e_end_offs e"] by linarith+
  then have "unat (e_offs e) \<le> length (e_buf e)" "unat (e_end_offs e) \<le> length (e_buf e)"
    by (simp_all only: uint_nat of_nat_le_iff)
  then show "length (front_bytes e) = unat (e_offs e)" "length (tail_bytes e) = unat (e_end_offs e)"
    by (simp_all add: front_bytes_def tail_bytes_def)
qed

text \<open>Everything but the front of the buffer, \<open>rem\<close>, \<open>ext\<close> and the error is as before.\<close>

definition same_rest :: "Encoder \<Rightarrow> Encoder \<Rightarrow> bool" where
  "same_rest e e' \<longleftrightarrow> e_storage e' = e_storage e \<and> e_end_offs e' = e_end_offs e \<and> e_end_window e' = e_end_window e
     \<and> e_nend_bits e' = e_nend_bits e \<and> e_nbits_total e' = e_nbits_total e \<and> e_rng e' = e_rng e
     \<and> e_val e' = e_val e \<and> tail_bytes e' = tail_bytes e \<and> (e_error e' = 0 \<longrightarrow> e_error e = 0)"

lemma same_rest_refl: "same_rest e e"
  by (simp add: same_rest_def)

lemma same_rest_trans: "same_rest e e' \<Longrightarrow> same_rest e' e'' \<Longrightarrow> same_rest e e''"
  by (simp add: same_rest_def)

text \<open>One byte at the front.\<close>

lemma put_byte_front:
  assumes wf: "enc_wf e"
  shows "\<exists>e'. put_byte e v = Ok e' \<and> enc_wf e' \<and> same_rest e e' \<and> e_ext e' = e_ext e \<and> e_rem e' = e_rem e
    \<and> (e_error e' = 0 \<longrightarrow> front_bytes e' = front_bytes e @ [ucast v])"
proof -
  have b: "len (e_buf e) = uint (e_storage e)" "uint (e_offs e) + uint (e_end_offs e) \<le> uint (e_storage e)"
    "e_error e = 0 \<or> e_error e = -1" using wf by (auto simp: enc_wf_def)
  have s: "uint (e_offs e + e_end_offs e) = uint (e_offs e) + uint (e_end_offs e)"
    using b(2) u32_lt [of "e_storage e"] by (intro u32_add) linarith
  show ?thesis
  proof (cases "uint (e_offs e) + uint (e_end_offs e) < uint (e_storage e)")
    case False
    then have "put_byte e v = Ok (e\<lparr>e_error := -1\<rparr>)"
      using b(3) by (auto simp: put_byte_def write_byte_def u32_le s)
    with False wf show ?thesis by (auto simp: enc_wf_def same_rest_def tail_bytes_def)
  next
    case True
    let ?o = "unat (e_offs e)"
    have lt: "uint (e_offs e) < len (e_buf e)" using True b(1) uint_ge_0 [of "e_end_offs e"] by linarith
    have o1: "uint (e_offs e + 1) = uint (e_offs e) + 1"
      using lt b(1) u32_lt [of "e_storage e"] by (subst u32_add) simp_all
    then have "int (unat (e_offs e + 1)) = int (Suc ?o)" by simp
    then have un: "unat (e_offs e + 1) = Suc ?o" by (simp only: of_nat_eq_iff)
    have "int ?o < len (e_buf e)" using lt by simp
    then have ol: "?o < length (e_buf e)" by (simp only: of_nat_less_iff)
    let ?e = "e\<lparr>e_buf := (e_buf e)[?o := ucast v], e_offs := e_offs e + 1\<rparr>"
    have u: "upd (e_buf e) (uint (e_offs e)) (ucast v) = Ok ((e_buf e)[?o := ucast v])"
      using lt by (simp add: upd_def)
    have p: "put_byte e v = Ok ?e"
      using True by (simp add: put_byte_def write_byte_def u32_le s u)
    have fr: "front_bytes ?e = front_bytes e @ [ucast v]"
      using ol by (simp add: front_bytes_def un take_Suc_conv_app_nth)
    have "int ?o + int (unat (e_end_offs e)) < len (e_buf e)" using True b(1) by simp
    then have "?o < length (e_buf e) - unat (e_end_offs e)" by linarith
    then have bk: "tail_bytes ?e = tail_bytes e" by (simp add: tail_bytes_def)
    have "enc_wf ?e" using wf True o1 by (auto simp: enc_wf_def)
    with p fr bk show ?thesis by (auto simp: same_rest_def)
  qed
qed

lemma put_ext_front:
  assumes "enc_wf e" "unat (e_ext e) = n"
  shows "\<exists>e'. put_ext n v e = Ok e' \<and> enc_wf e' \<and> same_rest e e' \<and> e_ext e' = 0 \<and> e_rem e' = e_rem e
    \<and> (e_error e' = 0 \<longrightarrow> front_bytes e' = front_bytes e @ replicate n (ucast v))"
  using assms
proof (induction n arbitrary: e)
  case 0
  then show ?case by (simp add: same_rest_refl unat_eq_0)
next
  case (Suc n)
  obtain e1 where e1: "put_byte e v = Ok e1" "enc_wf e1" "same_rest e e1" "e_ext e1 = e_ext e" "e_rem e1 = e_rem e"
    "e_error e1 = 0 \<longrightarrow> front_bytes e1 = front_bytes e @ [ucast v]"
    using put_byte_front [OF Suc.prems(1)] by blast
  let ?e = "e1\<lparr>e_ext := e_ext e1 - 1\<rparr>"
  have x: "unat (e_ext ?e) = n"
    using Suc.prems(2) e1(4) by (simp add: unat_sub_if' )
  have wf: "enc_wf ?e" using e1(2) by (simp add: enc_wf_def)
  obtain e2 where e2: "put_ext n v ?e = Ok e2" "enc_wf e2" "same_rest ?e e2" "e_ext e2 = 0" "e_rem e2 = e_rem ?e"
    "e_error e2 = 0 \<longrightarrow> front_bytes e2 = front_bytes ?e @ replicate n (ucast v)"
    using Suc.IH [OF wf x] by blast
  have "same_rest e1 ?e" by (simp add: same_rest_def tail_bytes_def)
  then have sr: "same_rest e e2" using same_rest_trans e1(3) e2(3) by blast
  have "front_bytes ?e = front_bytes e1" by (simp add: front_bytes_def)
  moreover have "e_error e2 = 0 \<longrightarrow> e_error e1 = 0" using e2(3) by (simp add: same_rest_def)
  ultimately have "e_error e2 = 0 \<longrightarrow> front_bytes e2 = front_bytes e @ replicate (Suc n) (ucast v)"
    using e1(6) e2(6) by simp
  with e1 e2 sr show ?case by simp
qed

text \<open>
  The digits of the low end: the bytes written, the byte awaiting a carry, and the run of 255s
  behind it.
\<close>

definition digits_of :: "Encoder \<Rightarrow> bytes" where
  "digits_of e = front_bytes e @ (if e_rem e < 0 then [] else [word_of_int (e_rem e)])
     @ replicate (unat (e_ext e)) 255"

lemma drop_bit_8: "drop_bit 8 (c :: int) = c div 256"
  by (simp add: drop_bit_eq_div)

lemma carry_cases:
  fixes c :: int
  assumes "0 \<le> c" "c < 512"
  obtains "c < 256" "drop_bit ecSymBits c = 0" | "256 \<le> c" "drop_bit ecSymBits c = 1"
proof (cases "c < 256")
  case True
  with assms have "c div 256 = 0" by simp
  with True that show ?thesis by (simp add: ecSymBits_def drop_bit_8)
next
  case False
  with assms have "c div 256 = 1" by simp
  with False that show ?thesis by (simp add: ecSymBits_def drop_bit_8)
qed

lemma ucast_byte: "0 \<le> i \<Longrightarrow> i < 256 \<Longrightarrow> ucast (word_of_int i :: u32) = (word_of_int i :: u8)"
  by (simp add: unsigned_of_int take_bit_int_eq_self)

lemma carry_byte: "ucast ((word_of_int (255 + k) :: u32) AND word_of_int 255) = (word_of_int (255 + k) :: u8)"
  if "k = 0 \<or> k = 1" using that by auto

lemma enc_carry_out_digits:
  assumes wf: "enc_wf e" and c: "0 \<le> c" "c < 512" and full: "e_rem e < 0 \<or> e_rem e = 255 \<Longrightarrow> c < 256"
    and ext: "uint (e_ext e) + 1 < 4294967296"
  shows "\<exists>e'. enc_carry_out e c = Ok e' \<and> enc_wf e' \<and> same_rest e e' \<and> uint (e_ext e') \<le> uint (e_ext e) + 1
    \<and> e_rem e' = (if c = 255 then e_rem e else c mod 256)
    \<and> (e_error e' = 0 \<longrightarrow> num (digits_of e') = 256 * num (digits_of e) + c
         \<and> length (digits_of e') = length (digits_of e) + 1)"
proof (cases "c = 255")
  case True
  let ?e = "e\<lparr>e_ext := e_ext e + 1\<rparr>"
  have u: "uint (e_ext e + 1) = uint (e_ext e) + 1" using ext by (subst u32_add) simp_all
  then have "int (unat (e_ext e + 1)) = int (Suc (unat (e_ext e)))" by simp
  then have x: "unat (e_ext e + 1) = Suc (unat (e_ext e))" by (simp only: of_nat_eq_iff)
  have "digits_of ?e = digits_of e @ [255]"
    by (simp add: digits_of_def front_bytes_def x replicate_append_same)
  then show ?thesis
    using True wf u by (simp add: enc_carry_out_def ecSymMax_def same_rest_def enc_wf_def tail_bytes_def)
next
  case False
  define k where "k = drop_bit ecSymBits c"
  have k: "k = 0 \<and> c < 256 \<or> k = 1 \<and> 256 \<le> c" using c by (cases rule: carry_cases) (auto simp: k_def)
  have cm: "c AND ecSymMax = c mod 256" by (simp add: ecSymMax_def int_and_mask)
  have ck: "c = 256 * k + c mod 256" using k c by presburger
  let ?x = "unat (e_ext e)"
  let ?hd = "if e_rem e < 0 then [] else [word_of_int (e_rem e + k)] :: bytes"
  have "e_rem e \<le> 255" using wf by (simp add: enc_wf_def)
  moreover have "k = 1 \<Longrightarrow> e_rem e \<noteq> 255" using k full by auto
  ultimately have rk: "e_rem e + k < 256" using k by linarith
  obtain e1 where e1: "(if e_rem e \<ge> 0 then put_byte e (word_of_int (e_rem e + k)) else Ok e) = Ok e1"
    "enc_wf e1" "same_rest e e1" "e_ext e1 = e_ext e" "e_rem e1 = e_rem e"
    "e_error e1 = 0 \<longrightarrow> front_bytes e1 = front_bytes e @ ?hd"
  proof (cases "0 \<le> e_rem e")
    case True
    then show ?thesis
      using put_byte_front [OF wf, of "word_of_int (e_rem e + k)"] that ucast_byte [of "e_rem e + k"] rk k by fastforce
  next
    case False
    then show ?thesis using that [of e] wf same_rest_refl by simp
  qed
  let ?v = "word_of_int (ecSymMax + k) AND word_of_int ecSymMax :: u32"
  have v: "ucast ?v = (word_of_int (255 + k) :: u8)"
    using k carry_byte [of k] by (simp add: ecSymMax_def) blast
  obtain e2 where e2: "(if e_ext e1 > 0 then put_ext (unat (e_ext e1)) ?v e1 else Ok e1) = Ok e2"
    "enc_wf e2" "same_rest e1 e2" "e_ext e2 = 0" "e_rem e2 = e_rem e1"
    "e_error e2 = 0 \<longrightarrow> front_bytes e2 = front_bytes e1 @ replicate ?x (word_of_int (255 + k))"
  proof (cases "e_ext e1 = 0")
    case True
    then show ?thesis using that [of e1] e1(2,4) same_rest_refl by simp
  next
    case False
    then have "e_ext e1 > 0" by (simp add: word_gt_0)
    then show ?thesis
      using put_ext_front [OF e1(2) refl, of ?v] that unfolding v e1(4) by (metis e1(4,5))
  qed
  let ?e = "e2\<lparr>e_rem := c mod 256\<rparr>"
  have eq: "enc_carry_out e c = Ok ?e"
    unfolding enc_carry_out_def Let_def k_def [symmetric] cm
    using False e1(1) e2(1) by (simp add: ecSymMax_def)
  have "0 \<le> c mod 256" "c mod 256 < 256" by simp_all
  then have "-1 \<le> c mod 256" "c mod 256 \<le> 255" by linarith+
  then have wf2: "enc_wf ?e" using e2(2) by (simp add: enc_wf_def)
  have sr: "same_rest e ?e"
    using same_rest_trans [OF e1(3) e2(3)] by (auto simp: same_rest_def tail_bytes_def)
  have dg: "digits_of ?e = front_bytes e @ ?hd @ replicate ?x (word_of_int (255 + k)) @ [word_of_int (c mod 256)]"
    if "e_error ?e = 0"
  proof -
    have "e_error e1 = 0" "e_error e2 = 0" using that e2(3) by (simp_all add: same_rest_def)
    then have "front_bytes e2 = front_bytes e @ ?hd @ replicate ?x (word_of_int (255 + k))"
      using e1(6) e2(6) by (simp del: of_int_add)
    then show ?thesis by (simp add: digits_of_def front_bytes_def e2(4) del: of_int_add)
  qed
  have um: "uint (word_of_int (c mod 256) :: u8) = c mod 256" by (simp add: uint_word_of_int_u8)
  have nm: "num (front_bytes e @ ?hd @ replicate ?x (word_of_int (255 + k)) @ [word_of_int (c mod 256)])
      = 256 * num (digits_of e) + c"
  proof -
    let ?A = "num (front_bytes e)"
    have "num (front_bytes e @ ?hd @ replicate ?x (word_of_int (255 + k)) @ [word_of_int (c mod 256)])
        = 256 * num ((front_bytes e @ ?hd) @ replicate ?x (word_of_int (255 + k))) + c mod 256"
      using num_snoc [of "(front_bytes e @ ?hd) @ replicate ?x (word_of_int (255 + k))" "word_of_int (c mod 256)"]
      by (simp only: append_assoc um)
    also have "num ((front_bytes e @ ?hd) @ replicate ?x (word_of_int (255 + k))) = num (digits_of e) + k"
    proof (cases "e_rem e < 0")
      case True
      then have "k = 0" using k full by simp
      then show ?thesis using True by (simp add: digits_of_def)
    next
      case False
      have u1: "uint (word_of_int (e_rem e + k) :: u8) = e_rem e + k"
        "uint (word_of_int (e_rem e) :: u8) = e_rem e"
        using False rk k wf by (auto intro!: uint_word_of_int_u8 simp: enc_wf_def simp del: of_int_add)
      have z: "(256 :: u8) = 0" by (rule word_uint_eqI) simp
      then have rep: "num (replicate ?x (word_of_int (255 + k))) = (256 ^ ?x - 1) * (1 - k)"
        using k by (auto simp: num_replicate_0 num_replicate_255 z)
      have "num ((front_bytes e @ [word_of_int (e_rem e + k)]) @ replicate ?x (word_of_int (255 + k)))
          = (256 * ?A + (e_rem e + k)) * 256 ^ ?x + (256 ^ ?x - 1) * (1 - k)"
        unfolding num_append [of "front_bytes e @ [word_of_int (e_rem e + k)]"] num_snoc u1 rep by simp
      moreover have "num (digits_of e) = (256 * ?A + e_rem e) * 256 ^ ?x + (256 ^ ?x - 1)"
        using False num_append [of "front_bytes e @ [word_of_int (e_rem e)]" "replicate ?x 255"]
        by (simp add: digits_of_def u1 num_replicate_255)
      ultimately show ?thesis using False k by (auto simp: algebra_simps)
    qed
    also have "256 * (num (digits_of e) + k) + c mod 256 = 256 * num (digits_of e) + c"
      by (simp only: distrib_left add.assoc ck [symmetric])
    finally show ?thesis .
  qed
  have "length (front_bytes e @ ?hd @ replicate ?x (word_of_int (255 + k)) @ [word_of_int (c mod 256)])
      = length (digits_of e) + 1" by (simp add: digits_of_def)
  then show ?thesis
    unfolding eq using False wf2 sr dg nm e2(4) by (intro exI [of _ ?e]) simp
qed

section \<open>The encoder and its exact state\<close>

text \<open>
  The exact state of an encoder: after \<open>n\<close> renormalisations the range is \<open>[L, L + R)\<close> on a
  scale of \<open>31 + 8 n\<close> bits, and \<open>N\<close> raw bits of value \<open>V\<close> have been written at the end.
  The digits put out, the carry byte and the run of 255s are the integer part of \<open>L\<close>, the register
  \<open>val\<close> (with its carry bit) the rest.  Once the error is set the output is lost, and only
  the bounds of the registers are kept.
\<close>

definition enc_rel :: "Encoder \<Rightarrow> nat \<Rightarrow> int \<Rightarrow> int \<Rightarrow> nat \<Rightarrow> int \<Rightarrow> bool" where
  "enc_rel e n L R N V \<longleftrightarrow> enc_wf e
     \<and> uint (e_rng e) = R \<and> 0 < R \<and> R \<le> 2147483648 \<and> uint (e_val e) + R < 4294967296
     \<and> (e_rem e < 0 \<or> e_rem e = 255 \<longrightarrow> uint (e_val e) + R \<le> 2147483648)
     \<and> e_nbits_total e = 33 + 8 * int n + int N \<and> uint (e_ext e) \<le> int n
     \<and> 0 \<le> e_nend_bits e \<and> e_nend_bits e \<le> 32 \<and> uint (e_end_window e) < 2 ^ nat (e_nend_bits e)
     \<and> 0 \<le> V \<and> V < 2 ^ N
     \<and> (e_error e = 0 \<longrightarrow> length (digits_of e) = n \<and> L = num (digits_of e) * 2147483648 + uint (e_val e)
          \<and> int N = 8 * uint (e_end_offs e) + e_nend_bits e
          \<and> V = num (tail_bytes e) + uint (e_end_window e) * 256 ^ unat (e_end_offs e))"

lemma top_carry:
  fixes v :: int
  assumes "v + r \<le> 2147483648" "0 < r"
  shows "v div 8388608 < 256"
  using assms by simp

lemma norm_val:
  fixes v :: int
  assumes "0 \<le> v"
  shows "v * 256 mod 2147483648 = 256 * (v mod 8388608)"
    "v div 8388608 * 2147483648 + 256 * (v mod 8388608) = 256 * v"
proof -
  have "v * 256 mod (8388608 * 256) = (v mod 8388608) * 256" by (rule mod_mult_mult2)
  then show "v * 256 mod 2147483648 = 256 * (v mod 8388608)" by simp
  have "v = v div 8388608 * 8388608 + v mod 8388608" by simp
  then show "v div 8388608 * 2147483648 + 256 * (v mod 8388608) = 256 * v" by linarith
qed

text \<open>One round of the renormalisation.\<close>

lemma normalize_round:
  assumes rel: "enc_rel e n L R N V" and low: "R \<le> 8388608" and nb: "e_nbits_total e < 4294967296"
  shows "\<exists>e1. enc_carry_out e (uint (drop_bit ecCodeShift (e_val e))) = Ok e1
    \<and> enc_rel (e1\<lparr>e_val := push_bit ecSymBits (e_val e1) AND (ecCodeTop - 1),
          e_rng := push_bit ecSymBits (e_rng e1), e_nbits_total := e_nbits_total e1 + int ecSymBits\<rparr>)
        (Suc n) (256 * L) (256 * R) N V
    \<and> (e_error e1 = 0 \<longrightarrow> e_error e = 0)"
proof -
  define v where "v = uint (e_val e)"
  define c where "c = v div 8388608"
  have r: "enc_wf e" "uint (e_rng e) = R" "0 < R" "v + R < 4294967296"
    "e_rem e < 0 \<or> e_rem e = 255 \<longrightarrow> v + R \<le> 2147483648" "e_nbits_total e = 33 + 8 * int n + int N"
    "uint (e_ext e) \<le> int n"
    using rel by (simp_all add: enc_rel_def v_def)
  have v: "0 \<le> v" by (simp add: v_def)
  have c: "0 \<le> c" "c < 512" using v r(3,4) by (simp_all add: c_def)
  have cw: "uint (drop_bit ecCodeShift (e_val e)) = c" by (simp add: ecCodeShift_def u32_drop c_def v_def)
  have full: "e_rem e < 0 \<or> e_rem e = 255 \<Longrightarrow> c < 256"
    using top_carry [of v R] r(3,5) by (auto simp: c_def)
  have ext: "uint (e_ext e) + 1 < 4294967296" using r(6,7) nb by linarith
  obtain e1 where e1: "enc_carry_out e c = Ok e1" "enc_wf e1" "same_rest e e1"
    "uint (e_ext e1) \<le> uint (e_ext e) + 1" "e_rem e1 = (if c = 255 then e_rem e else c mod 256)"
    "e_error e1 = 0 \<longrightarrow> num (digits_of e1) = 256 * num (digits_of e) + c
         \<and> length (digits_of e1) = length (digits_of e) + 1"
    using enc_carry_out_digits [OF r(1) c full ext] by blast
  let ?e = "e1\<lparr>e_val := push_bit ecSymBits (e_val e1) AND (ecCodeTop - 1),
          e_rng := push_bit ecSymBits (e_rng e1), e_nbits_total := e_nbits_total e1 + int ecSymBits\<rparr>"
  have same: "e_val e1 = e_val e" "e_rng e1 = e_rng e" "e_nbits_total e1 = e_nbits_total e"
    "e_nend_bits e1 = e_nend_bits e" "e_end_window e1 = e_end_window e" "e_end_offs e1 = e_end_offs e"
    "tail_bytes e1 = tail_bytes e" "e_error e1 = 0 \<Longrightarrow> e_error e = 0"
    using e1(3) by (simp_all add: same_rest_def)
  have uv: "uint (e_val ?e) = 256 * (v mod 8388608)"
    using norm_val(1) [OF v] by (simp add: u32_mask31 u32_push ecSymBits_def same mod_mod_cancel flip: v_def)
  have ur: "uint (e_rng ?e) = 256 * R"
    using low r(2) by (simp add: ecSymBits_def same u32_push_small)
  have vm: "0 \<le> v mod 8388608" "v mod 8388608 < 8388608" by simp_all
  have dv: "digits_of ?e = digits_of e1" "tail_bytes ?e = tail_bytes e1"
    by (simp_all add: digits_of_def front_bytes_def tail_bytes_def)
  have "uint (e_val ?e) + 256 * R \<le> 2147483648" if h: "e_rem ?e < 0 \<or> e_rem ?e = 255"
  proof -
    have "v mod 8388608 + R \<le> 8388608"
    proof (cases "c = 255")
      case True
      then have "v + R \<le> 2147483648" using h e1(5) r(5) by simp
      moreover have "v = 255 * 8388608 + v mod 8388608" using True mult_div_mod_eq [of 8388608 v] by (simp add: c_def)
      ultimately show ?thesis by linarith
    next
      case False
      then have "c mod 256 = 255" using h e1(5) by (auto simp: pos_mod_sign)
      then have "c = 511" using False c by presburger
      moreover have "v = c * 8388608 + v mod 8388608" using mult_div_mod_eq [of 8388608 v] by (simp add: c_def)
      ultimately show ?thesis using r(4) by linarith
    qed
    then show ?thesis unfolding uv by linarith
  qed
  moreover have "uint (e_val ?e) + 256 * R < 4294967296" unfolding uv using vm low by linarith
  moreover have "256 * L = num (digits_of e1) * 2147483648 + 256 * (v mod 8388608)" if "e_error e1 = 0"
  proof -
    have "num (digits_of e1) = 256 * num (digits_of e) + c" using e1(6) that by simp
    moreover have "L = num (digits_of e) * 2147483648 + v" using rel same(8) that by (simp add: enc_rel_def v_def)
    ultimately show ?thesis using norm_val(2) [OF v] by (simp add: c_def)
  qed
  ultimately have "enc_rel ?e (Suc n) (256 * L) (256 * R) N V"
    using rel e1(2,4,6) r(7) low unfolding enc_rel_def dv ur uv
    by (simp add: same enc_wf_def ecSymBits_def)
  then show ?thesis unfolding cw using e1(1) same(8) by blast
qed

text \<open>How many rounds a range needs, and the loop.\<close>

definition rounds :: "int \<Rightarrow> nat" where
  "rounds R = (if R > 8388608 then 0 else if R > 32768 then 1 else if R > 128 then 2 else 3)"

lemma rounds_Suc: "R \<le> 8388608 \<Longrightarrow> 0 < R \<Longrightarrow> rounds R = Suc (rounds (256 * R))"
  by (simp add: rounds_def)

lemma rounds_le: "rounds R \<le> 3"
  by (simp add: rounds_def)

lemma rounds_normal: "0 < R \<Longrightarrow> 8388608 < 256 ^ rounds R * R"
  by (simp add: rounds_def)

lemma enc_normalize_loop_rel:
  assumes "enc_rel e n L R N V" "e_nbits_total e + 8 * int (rounds R) < 4294967304" "rounds R < fuel"
  shows "\<exists>e'. enc_normalize_loop fuel e = Ok e' \<and> (e_error e' = 0 \<longrightarrow> e_error e = 0)
    \<and> enc_rel e' (n + rounds R) (256 ^ rounds R * L) (256 ^ rounds R * R) N V"
  using assms
proof (induction fuel arbitrary: e n L R)
  case (Suc fuel)
  have R: "0 < R" "uint (e_rng e) = R" using Suc.prems(1) by (simp_all add: enc_rel_def)
  show ?case
  proof (cases "R \<le> 8388608")
    case False
    then show ?thesis using Suc.prems(1) R by (simp add: rounds_def ecCodeBot_def u32_le)
  next
    case True
    note rs = rounds_Suc [OF True R(1)]
    have nb: "e_nbits_total e < 4294967296" using Suc.prems(2) rs by simp
    obtain e1 where e1: "enc_carry_out e (uint (drop_bit ecCodeShift (e_val e))) = Ok e1"
      "e_error e1 = 0 \<longrightarrow> e_error e = 0"
      and rel: "enc_rel (e1\<lparr>e_val := push_bit ecSymBits (e_val e1) AND (ecCodeTop - 1),
          e_rng := push_bit ecSymBits (e_rng e1), e_nbits_total := e_nbits_total e1 + int ecSymBits\<rparr>)
        (Suc n) (256 * L) (256 * R) N V"
      using normalize_round [OF Suc.prems(1) True nb] by blast
    let ?e = "e1\<lparr>e_val := push_bit ecSymBits (e_val e1) AND (ecCodeTop - 1),
          e_rng := push_bit ecSymBits (e_rng e1), e_nbits_total := e_nbits_total e1 + int ecSymBits\<rparr>"
    have "e_nbits_total ?e = 33 + 8 * int (Suc n) + int N" "e_nbits_total e = 33 + 8 * int n + int N"
      using rel Suc.prems(1) by (simp_all only: enc_rel_def)
    then have nt: "e_nbits_total ?e = e_nbits_total e + 8" by simp
    have n2: "e_nbits_total ?e + 8 * int (rounds (256 * R)) < 4294967304"
      using Suc.prems(2) unfolding nt rs by simp
    have f2: "rounds (256 * R) < fuel" using Suc.prems(3) rs by simp
    obtain e' where e': "enc_normalize_loop fuel ?e = Ok e'" "e_error e' = 0 \<longrightarrow> e_error ?e = 0"
      "enc_rel e' (Suc n + rounds (256 * R)) (256 ^ rounds (256 * R) * (256 * L))
        (256 ^ rounds (256 * R) * (256 * R)) N V"
      using Suc.IH [OF rel n2 f2] by blast
    have "enc_normalize_loop (Suc fuel) e = Ok e'"
      using True R e1(1) e'(1) by (simp add: ecCodeBot_def u32_le)
    moreover have "enc_rel e' (n + rounds R) (256 ^ rounds R * L) (256 ^ rounds R * R) N V"
      using e'(3) unfolding rs by (simp add: algebra_simps)
    ultimately show ?thesis using e'(2) e1(2) by simp
  qed
qed simp

lemma enc_normalize_rel:
  assumes "enc_rel e n L R N V" "e_nbits_total e < 4294967280"
  shows "\<exists>e'. enc_normalize e = Ok e' \<and> (e_error e' = 0 \<longrightarrow> e_error e = 0)
    \<and> enc_rel e' (n + rounds R) (256 ^ rounds R * L) (256 ^ rounds R * R) N V"
proof -
  have "e_nbits_total e + 8 * int (rounds R) < 4294967304" "rounds R < 4"
    using rounds_le [of R] assms(2) by linarith+
  with enc_normalize_loop_rel [OF assms(1)] show ?thesis by (simp add: enc_normalize_def)
qed

text \<open>
  Narrowing: every symbol replaces the range by a part of it, given by the distances
  \<open>a < b\<close> of its ends from the top.
\<close>

definition narrowed :: "Encoder \<Rightarrow> u32 \<Rightarrow> u32 \<Rightarrow> Encoder" where
  "narrowed e a b = e\<lparr>e_val := e_val e + (e_rng e - b), e_rng := b - a\<rparr>"

lemma narrow_bound: "v + R < 4294967296 \<Longrightarrow> uint b \<le> R \<Longrightarrow> v + (R - uint b) < 4294967296" for b :: u32
  using uint_ge_0 [of b] by linarith

lemma narrowed_rel:
  assumes "enc_rel e n L R N V" "uint a < uint b" "uint b \<le> R"
  shows "enc_rel (narrowed e a b) n (L + R - uint b) (uint b - uint a) N V"
proof -
  have R: "uint (e_rng e) = R" "uint (e_val e) + R < 4294967296" using assms(1) by (simp_all add: enc_rel_def)
  have 1: "uint (e_rng e - b) = R - uint b" using assms(3) R(1) by (simp add: u32_sub)
  have 2: "uint (e_val e + (e_rng e - b)) = uint (e_val e) + (R - uint b)"
    using narrow_bound [OF R(2) assms(3)] uint_ge_0 [of b] by (subst u32_add) (simp_all add: 1)
  have 3: "uint (b - a) = uint b - uint a" using assms(2) by (simp add: u32_sub)
  have dg: "digits_of (narrowed e a b) = digits_of e" "tail_bytes (narrowed e a b) = tail_bytes e"
    by (simp_all add: narrowed_def digits_of_def front_bytes_def tail_bytes_def)
  have wf: "enc_wf (narrowed e a b) = enc_wf e" by (simp add: narrowed_def enc_wf_def)
  have v: "uint (e_val (narrowed e a b)) = uint (e_val e) + (R - uint b)"
    "uint (e_rng (narrowed e a b)) = uint b - uint a" by (simp_all add: narrowed_def 2 3)
  have f: "e_rem (narrowed e a b) = e_rem e" "e_nbits_total (narrowed e a b) = e_nbits_total e"
    "e_ext (narrowed e a b) = e_ext e" "e_nend_bits (narrowed e a b) = e_nend_bits e"
    "e_end_window (narrowed e a b) = e_end_window e" "e_error (narrowed e a b) = e_error e"
    "e_end_offs (narrowed e a b) = e_end_offs e"
    by (simp_all add: narrowed_def)
  have R2: "R \<le> 2147483648" using assms(1) by (simp add: enc_rel_def)
  have q: "0 < uint b - uint a" "uint b - uint a \<le> 2147483648"
    "uint (e_val e) + (R - uint b) + (uint b - uint a) < 4294967296"
    "uint (e_val e) + R \<le> 2147483648 \<Longrightarrow> uint (e_val e) + (R - uint b) + (uint b - uint a) \<le> 2147483648"
    using assms(2,3) R2 R(2) uint_ge_0 [of a] by linarith+
  show ?thesis
    using assms(1) q unfolding enc_rel_def dg wf v f by (elim conjE) (intro conjI; simp)
qed

end
