(* ===== verification/RC_Decoder.thy ===== *)
theory RC_Decoder
  imports RC_Encoder
begin

text \<open>
  The decoder's exact state relative to the stream it reads (\<open>dec_rel\<close>), kept by the
  renormalisation loop.
\<close>

section \<open>The decoder and its exact state\<close>

lemma int_push_or: "0 \<le> b \<Longrightarrow> b < 2 ^ n \<Longrightarrow> push_bit n a OR b = a * 2 ^ n + (b :: int)"
  using concat_bit_eq [of n b a]
  by (simp add: concat_bit_def take_bit_int_eq_self push_bit_eq_mult or.commute add.commute)

lemma u32_complement: "uint (255 AND NOT (w :: u32)) = 255 - uint w mod 256"
proof -
  have "(255 AND NOT w) + (255 AND w) = (255 AND NOT w) OR (255 AND w)"
    by (intro disjunctive_add_eq_or) (simp add: and.left_commute and.assoc)
  also have "\<dots> = 255" by (rule bit_word_eqI) (auto simp: bit_simps)
  finally have "255 AND NOT w = 255 - (255 AND w)" by (simp add: eq_diff_eq)
  moreover have "uint (255 AND w) = uint w mod 256"
    using int_and_mask(4) [of "uint w"] by (simp add: uint_and and.commute)
  ultimately show ?thesis by (simp add: u32_sub)
qed

definition raw_at :: "bytes \<Rightarrow> nat \<Rightarrow> nat \<Rightarrow> int" where
  "raw_at S M k = num S div 2 ^ M mod 2 ^ k"

text \<open>
  The decoder reads the 31-bit window of the stream against the same range: \<open>val\<close> is the
  distance of the window from the top of the range.  \<open>b\<close> bytes were read from the front (the
  missing ones as zeros) and \<open>M\<close> raw bits from the end.
\<close>

definition dec_raw :: "Decoder \<Rightarrow> bytes \<Rightarrow> nat \<Rightarrow> bool" where
  "dec_raw d S M \<longleftrightarrow> 0 \<le> d_nend_bits d \<and> d_nend_bits d \<le> 32
     \<and> uint (d_end_window d) = raw_at S M (nat (d_nend_bits d))
     \<and> (\<exists>c. 8 * int c = int M + d_nend_bits d \<and> uint (d_end_offs d) = min (len S) (int c))"

lemma dec_raw_simps [simp]:
  "dec_raw (d\<lparr>d_nbits_total := x\<rparr>) S M = dec_raw d S M" "dec_raw (d\<lparr>d_rng := y\<rparr>) S M = dec_raw d S M"
  "dec_raw (d\<lparr>d_offs := y\<rparr>) S M = dec_raw d S M" "dec_raw (d\<lparr>d_rem := x\<rparr>) S M = dec_raw d S M"
  "dec_raw (d\<lparr>d_val := y\<rparr>) S M = dec_raw d S M" "dec_raw (d\<lparr>d_ext := y\<rparr>) S M = dec_raw d S M"
  "dec_raw (d\<lparr>d_error := x\<rparr>) S M = dec_raw d S M"
  by (simp_all add: dec_raw_def)

definition dec_rel :: "Decoder \<Rightarrow> bytes \<Rightarrow> nat \<Rightarrow> int \<Rightarrow> int \<Rightarrow> nat \<Rightarrow> bool" where
  "dec_rel d S b L R M \<longleftrightarrow> d_buf d = S \<and> len S = uint (d_storage d)
     \<and> 0 < b \<and> uint (d_offs d) = min (len S) (int b) \<and> d_rem d = byte_at S (b - 1)
     \<and> uint (d_rng d) = R \<and> 0 < R \<and> R \<le> 2147483648
     \<and> uint (d_val d) = L + R - 1 - code_at S b \<and> L \<le> code_at S b
     \<and> d_nbits_total d = 1 + 8 * int b + int M
     \<and> dec_raw d S M"

lemma int_SymBits: "int ecSymBits = 8"
  by (simp add: ecSymBits_def)

lemma read_byte_spec:
  assumes "d_buf d = S" "len S = uint (d_storage d)" "uint (d_offs d) = min (len S) (int b)"
  shows "\<exists>o'. read_byte d = Ok (byte_at S b, d\<lparr>d_offs := o'\<rparr>) \<and> uint o' = min (len S) (int (Suc b))"
proof (cases "b < length S")
  case True
  then have o: "uint (d_offs d) = int b" using assms(3) by simp
  then have "int (unat (d_offs d)) = int b" by simp
  then have u: "unat (d_offs d) = b" by (simp only: of_nat_eq_iff)
  have lt: "d_offs d < d_storage d" using True unfolding u32_less o assms(2) [symmetric] by simp
  have i: "idx (d_buf d) (uint (d_offs d)) = Ok (S ! b)"
    using True by (simp add: idx_def assms(1) o)
  have "int b + 1 < 4294967296" using True assms(2) u32_lt [of "d_storage d"] by linarith
  then have "uint (d_offs d + 1) = int b + 1" by (subst u32_add) (simp_all add: o)
  moreover have "read_byte d = Ok (byte_at S b, d\<lparr>d_offs := d_offs d + 1\<rparr>)"
    unfolding read_byte_def if_P [OF lt] i bnd.simps using True by (simp add: byte_at_def)
  ultimately show ?thesis using True by (intro exI conjI) (assumption, simp)
next
  case False
  then have ge: "\<not> d_offs d < d_storage d" unfolding u32_less assms(2) [symmetric] assms(3) by simp
  have "read_byte d = Ok (byte_at S b, d\<lparr>d_offs := d_offs d\<rparr>)"
    unfolding read_byte_def if_not_P [OF ge] using False by (simp add: byte_at_def)
  then show ?thesis using False assms(3) by (intro exI conjI) (assumption, simp)
qed

lemma dec_normalize_loop_rel:
  assumes "dec_rel d S b L R M" "rounds R < fuel"
    "256 ^ rounds R * L \<le> code_at S (b + rounds R)" "code_at S (b + rounds R) < 256 ^ rounds R * (L + R)"
  shows "\<exists>d'. dec_normalize_loop fuel d = Ok d' \<and> dec_rel d' S (b + rounds R) (256 ^ rounds R * L) (256 ^ rounds R * R) M
    \<and> d_error d' = d_error d"
  using assms
proof (induction fuel arbitrary: d b L R)
  case (Suc fuel)
  have R: "0 < R" "uint (d_rng d) = R" using Suc.prems(1) by (simp_all add: dec_rel_def)
  show ?case
  proof (cases "R \<le> 8388608")
    case False
    then show ?thesis using Suc.prems(1) R by (simp add: rounds_def ecCodeBot_def u32_le)
  next
    case True
    note rs = rounds_Suc [OF True R(1)]
    have p: "d_buf d = S" "len S = uint (d_storage d)" "0 < b" "uint (d_offs d) = min (len S) (int b)"
      "d_rem d = byte_at S (b - 1)" "uint (d_val d) = L + R - 1 - code_at S b" "L \<le> code_at S b"
      using Suc.prems(1) by (simp_all add: dec_rel_def)
    let ?d0 = "d\<lparr>d_nbits_total := d_nbits_total d + int ecSymBits, d_rng := push_bit ecSymBits (d_rng d)\<rparr>"
    obtain of' where d1: "read_byte ?d0 = Ok (byte_at S b, ?d0\<lparr>d_offs := of'\<rparr>)" "uint of' = min (len S) (int (Suc b))"
      using read_byte_spec [of ?d0 S b] p by auto
    let ?d1 = "?d0\<lparr>d_offs := of'\<rparr>"
    obtain k where k: "b = Suc k" using p by (metis Suc_pred)
    define s where "s = (256 * byte_at S k + byte_at S b) div 2"
    let ?smb = "drop_bit (ecSymBits - ecCodeExtra) (push_bit ecSymBits (d_rem ?d0) OR byte_at S b)"
    have sm: "?smb = s"
      using int_push_or [OF byte_at_range(1), of S b 8 "d_rem d"] byte_at_range(2) [of S b] p
      by (simp add: ecSymBits_def ecCodeExtra_def s_def k drop_bit_eq_div mult.commute)
    have s: "0 \<le> s" using byte_at_range by (simp add: s_def)
    have cS: "code_at S (Suc b) = 256 * code_at S b + s mod 256"
      using code_at_Suc [of S k] by (simp add: k s_def)
    let ?v = "(push_bit ecSymBits (d_val ?d1) + (word_of_int ecSymMax AND NOT (word_of_int s))) AND (ecCodeTop - 1)"
    let ?d = "?d1\<lparr>d_rem := byte_at S b, d_val := ?v\<rparr>"
    have vd: "d_val ?d1 = d_val d" by simp
    have v: "uint (d_val d) < R" using p(6,7) by linarith
    have u1: "uint (push_bit ecSymBits (d_val d) :: u32) = 256 * uint (d_val d)"
      using v True by (simp add: ecSymBits_def u32_push_small)
    have u2: "uint (word_of_int ecSymMax AND NOT (word_of_int s) :: u32) = 255 - s mod 256"
      using u32_complement [of "word_of_int s"] by (simp add: ecSymMax_def uint_word_of_int mod_mod_cancel)
    have sr: "0 \<le> s mod 256" "s mod 256 < 256" by simp_all
    have u3: "uint ?v = 256 * uint (d_val d) + (255 - s mod 256)"
    proof -
      have "256 * uint (d_val d) + (255 - s mod 256) < 2147483648" using v True sr by linarith
      moreover have "0 \<le> 256 * uint (d_val d) + (255 - s mod 256)" using sr uint_ge_0 [of "d_val d"] by linarith
      ultimately show ?thesis
        unfolding vd u32_mask31 by (subst u32_add) (simp_all add: u1 u2)
    qed
    have cont: "256 * L \<le> code_at S (Suc b)" using p(7) sr unfolding cS by linarith
    have val: "256 * uint (d_val d) + (255 - s mod 256) = 256 * L + 256 * R - 1 - code_at S (Suc b)"
      unfolding cS p(6) by (simp add: algebra_simps)
    have ur: "uint (push_bit ecSymBits (d_rng d) :: u32) = 256 * R"
      using True R by (simp add: ecSymBits_def u32_push_small)
    have rel: "dec_rel ?d S (Suc b) (256 * L) (256 * R) M"
      using Suc.prems(1) True cont d1(2) unfolding dec_rel_def
      by (simp add: ur u3 [unfolded val vd] int_SymBits)
    have f: "rounds (256 * R) < fuel" using Suc.prems(2) rs by simp
    obtain d' where d': "dec_normalize_loop fuel ?d = Ok d'"
      "dec_rel d' S (Suc b + rounds (256 * R)) (256 ^ rounds (256 * R) * (256 * L)) (256 ^ rounds (256 * R) * (256 * R)) M"
      "d_error d' = d_error ?d"
      using Suc.IH [OF rel f] Suc.prems(3,4) unfolding rs by (auto simp: algebra_simps)
    have "dec_normalize_loop (Suc fuel) d = Ok d'"
      using True R d1(1) d'(1) sm by (simp add: ecCodeBot_def u32_le Let_def)
    then show ?thesis using d'(2,3) unfolding rs by (simp add: algebra_simps)
  qed
qed simp

end
