(* ===== verification/RC_Codes.thy ===== *)
theory RC_Codes
  imports RC_Decoder
begin

text \<open>
  Every pair of symbol calls: the decoder call undoes the encoder call (\<open>undoes\<close>), for
  frequencies, powers of two, bits, tables, raw bits and integers.
\<close>

section \<open>One symbol, encoded and decoded\<close>

definition dnarrowed :: "Decoder \<Rightarrow> u32 \<Rightarrow> u32 \<Rightarrow> Decoder" where
  "dnarrowed d a b = d\<lparr>d_val := d_val d - a, d_rng := b - a\<rparr>"

lemma dnarrowed_rel:
  assumes "dec_rel d S k L R M" "uint a < uint b" "uint b \<le> R"
    "L + R - uint b \<le> code_at S k" "code_at S k < L + R - uint a"
  shows "dec_rel (dnarrowed d a b) S k (L + R - uint b) (uint b - uint a) M"
proof -
  have v: "uint (d_val d) = L + R - 1 - code_at S k" "R \<le> 2147483648" using assms(1) by (simp_all add: dec_rel_def)
  have 1: "uint (d_val d - a) = L + R - 1 - code_at S k - uint a"
    using assms(5) v(1) by (subst u32_sub) simp_all
  have 2: "uint (b - a) = uint b - uint a" using assms(2) by (simp add: u32_sub)
  have q: "0 < uint b - uint a" "uint b - uint a \<le> 2147483648"
    "L + R - 1 - code_at S k - uint a = (L + R - uint b) + (uint b - uint a) - 1 - code_at S k"
    using assms(2,3) v(2) uint_ge_0 [of a] by linarith+
  show ?thesis
    using assms(1,4) q unfolding dec_rel_def dnarrowed_def by (simp add: 1 2)
qed

text \<open>The stream \<open>S\<close> lies inside the encoder's exact state.\<close>

definition inside :: "bytes \<Rightarrow> nat \<Rightarrow> int \<Rightarrow> int \<Rightarrow> nat \<Rightarrow> int \<Rightarrow> bool" where
  "inside S n L R N V \<longleftrightarrow> L \<le> code_at S (n + 4) \<and> code_at S (n + 4) < L + R \<and> num S mod 2 ^ N = V"

lemma inside_scale:
  assumes "256 ^ k * L \<le> code_at S (n + k + 4)" "code_at S (n + k + 4) < 256 ^ k * (L + R)"
  shows "L \<le> code_at S (n + 4)" "code_at S (n + 4) < L + R"
proof -
  have c: "code_at S (n + 4) = code_at S (n + k + 4) div 256 ^ k"
  proof -
    have "n + 4 + k = n + k + 4" by simp
    then show ?thesis using code_at_div [of S "n + 4" k] by metis
  qed
  have p: "0 < (256 :: int) ^ k" by simp
  have "256 ^ k * L div 256 ^ k \<le> code_at S (n + 4)" unfolding c using assms(1) by (rule zdiv_mono1) simp
  then show "L \<le> code_at S (n + 4)" by simp
  have "code_at S (n + k + 4) < (L + R) * 256 ^ k" using assms(2) by (simp add: mult.commute)
  moreover have "code_at S (n + 4) * 256 ^ k \<le> code_at S (n + k + 4)"
    unfolding c mult.commute [of _ "256 ^ k"]
    using mult_div_mod_eq [of "256 ^ k" "code_at S (n + k + 4)"] pos_mod_sign [OF p, of "code_at S (n + k + 4)"]
    by linarith
  ultimately have "code_at S (n + 4) * 256 ^ k < (L + R) * 256 ^ k" by linarith
  then show "code_at S (n + 4) < L + R" using p by (simp add: mult_less_cancel_right_pos)
qed

type_synonym exact = "nat \<times> int \<times> int \<times> nat \<times> int"

fun enc_st :: "Encoder \<Rightarrow> exact \<Rightarrow> bool" where
  "enc_st e (n, L, R, N, V) \<longleftrightarrow> enc_rel e n L R N V \<and> 8388608 < R"

fun dec_st :: "Decoder \<Rightarrow> bytes \<Rightarrow> exact \<Rightarrow> bool" where
  "dec_st d S (n, L, R, N, V) \<longleftrightarrow> dec_rel d S (n + 4) L R N"

fun ins_st :: "bytes \<Rightarrow> exact \<Rightarrow> bool" where
  "ins_st S (n, L, R, N, V) \<longleftrightarrow> inside S n L R N V"

text \<open>
  What it means that a decoder call undoes an encoder call that writes at most \<open>m\<close> bits: whatever
  the encoder's state, the encoder call returns, and for every stream inside the state it leaves,
  the stream is inside the state before and a decoder in step with the encoder before the call
  reads \<open>x\<close> and is in step after it.
\<close>

definition undoes :: "nat \<Rightarrow> (Encoder \<Rightarrow> Encoder go) \<Rightarrow> (Decoder \<Rightarrow> ('a \<times> Decoder) go) \<Rightarrow> 'a \<Rightarrow> bool" where
  "undoes m enc dec x \<longleftrightarrow> (\<forall>e s. enc_st e s \<longrightarrow> e_nbits_total e + int m < 4294967296 \<longrightarrow>
     (\<exists>e' s'. enc e = Ok e' \<and> enc_st e' s' \<and> e_nbits_total e' \<le> e_nbits_total e + int m
        \<and> (e_error e' = 0 \<longrightarrow> e_error e = 0)
        \<and> (\<forall>S. ins_st S s' \<longrightarrow> ins_st S s \<and> (\<forall>d. dec_st d S s \<longrightarrow>
              (\<exists>d'. dec d = Ok (x, d') \<and> dec_st d' S s' \<and> d_error d' = d_error d)))))"

lemma undoesE:
  assumes "undoes m enc dec x" "enc_st e s" "e_nbits_total e + int m < 4294967296"
  obtains e' s' where "enc e = Ok e'" "enc_st e' s'" "e_nbits_total e' \<le> e_nbits_total e + int m"
    "e_error e' = 0 \<longrightarrow> e_error e = 0" "\<forall>S. ins_st S s' \<longrightarrow> ins_st S s \<and> (\<forall>d. dec_st d S s \<longrightarrow>
       (\<exists>d'. dec d = Ok (x, d') \<and> dec_st d' S s' \<and> d_error d' = d_error d))"
  using assms unfolding undoes_def by blast

lemma undoesI:
  assumes "\<And>e n L R N V. enc_rel e n L R N V \<Longrightarrow> 8388608 < R \<Longrightarrow> e_nbits_total e + int m < 4294967296 \<Longrightarrow>
     \<exists>e' n' L' R' N' V'. enc e = Ok e' \<and> enc_rel e' n' L' R' N' V' \<and> 8388608 < R'
        \<and> e_nbits_total e' \<le> e_nbits_total e + int m \<and> (e_error e' = 0 \<longrightarrow> e_error e = 0)
        \<and> (\<forall>S. inside S n' L' R' N' V' \<longrightarrow> inside S n L R N V
             \<and> (\<forall>d. dec_rel d S (n + 4) L R N \<longrightarrow> (\<exists>d'. dec d = Ok (x, d')
                  \<and> dec_rel d' S (n' + 4) L' R' N' \<and> d_error d' = d_error d)))"
  shows "undoes m enc dec x"
  unfolding undoes_def
proof (intro allI impI)
  fix e s
  assume st: "enc_st e s" and nb: "e_nbits_total e + int m < 4294967296"
  obtain n L R N V where s: "s = (n, L, R, N, V)" by (cases s) auto
  have "enc_rel e n L R N V" "8388608 < R" using st by (simp_all add: s)
  from assms [OF this nb] obtain e' n' L' R' N' V' where e': "enc e = Ok e'" "enc_rel e' n' L' R' N' V'" "8388608 < R'"
    "e_nbits_total e' \<le> e_nbits_total e + int m" "e_error e' = 0 \<longrightarrow> e_error e = 0"
    "\<forall>S. inside S n' L' R' N' V' \<longrightarrow> inside S n L R N V
             \<and> (\<forall>d. dec_rel d S (n + 4) L R N \<longrightarrow> (\<exists>d'. dec d = Ok (x, d')
                  \<and> dec_rel d' S (n' + 4) L' R' N' \<and> d_error d' = d_error d))" by blast
  show "\<exists>e' s'. enc e = Ok e' \<and> enc_st e' s' \<and> e_nbits_total e' \<le> e_nbits_total e + int m
        \<and> (e_error e' = 0 \<longrightarrow> e_error e = 0)
        \<and> (\<forall>S. ins_st S s' \<longrightarrow> ins_st S s \<and> (\<forall>d. dec_st d S s \<longrightarrow>
              (\<exists>d'. dec d = Ok (x, d') \<and> dec_st d' S s' \<and> d_error d' = d_error d)))"
    by (rule exI [of _ e'], rule exI [of _ "(n', L', R', N', V')"]) (use e' in \<open>simp add: s\<close>)
qed

text \<open>A symbol with the slot \<open>[a, b)\<close>, counted from the top of the range.\<close>

lemma undoes_slot:
  assumes slot: "\<And>r. 8388608 < uint r \<Longrightarrow> uint r \<le> 2147483648 \<Longrightarrow> uint (a r) < uint (b r) \<and> uint (b r) \<le> uint r"
    and enc: "\<And>e. 8388608 < uint (e_rng e) \<Longrightarrow> uint (e_rng e) \<le> 2147483648 \<Longrightarrow>
      enc e = enc_normalize (narrowed e (a (e_rng e)) (b (e_rng e)))"
    and dec: "\<And>d. 8388608 < uint (d_rng d) \<Longrightarrow> uint (d_rng d) \<le> 2147483648 \<Longrightarrow>
      uint (a (d_rng d)) \<le> uint (d_val d) \<Longrightarrow> uint (d_val d) < uint (b (d_rng d)) \<Longrightarrow>
      \<exists>y. dec d = bnd (dec_normalize (dnarrowed (d\<lparr>d_ext := y\<rparr>) (a (d_rng d)) (b (d_rng d)))) (\<lambda>d. Ok (x, d))"
  shows "undoes 24 enc dec x"
proof (rule undoesI)
  fix e n L R N V
  assume rel: "enc_rel e n L R N V" and norm: "8388608 < R" and "e_nbits_total e + int 24 < 4294967296"
  then have nb: "e_nbits_total e < 4294967280" by simp
  have R: "uint (e_rng e) = R" "R \<le> 2147483648" using rel by (simp_all add: enc_rel_def)
  let ?a = "uint (a (e_rng e))" and ?b = "uint (b (e_rng e))"
  have ab: "?a < ?b" "?b \<le> R" using slot [of "e_rng e"] norm R by auto
  define L1 where "L1 = L + R - ?b"
  define R1 where "R1 = ?b - ?a"
  define k where "k = rounds R1"
  have rel1: "enc_rel (narrowed e (a (e_rng e)) (b (e_rng e))) n L1 R1 N V"
    unfolding L1_def R1_def by (rule narrowed_rel [OF rel ab])
  have nb1: "e_nbits_total (narrowed e (a (e_rng e)) (b (e_rng e))) < 4294967280"
    using nb by (simp add: narrowed_def)
  obtain e' where e': "enc_normalize (narrowed e (a (e_rng e)) (b (e_rng e))) = Ok e'"
    "e_error e' = 0 \<longrightarrow> e_error e = 0" "enc_rel e' (n + k) (256 ^ k * L1) (256 ^ k * R1) N V"
    using enc_normalize_rel [OF rel1 nb1] by (auto simp: k_def narrowed_def)
  have nt: "e_nbits_total e' \<le> e_nbits_total e + int 24"
  proof -
    have "e_nbits_total e = 33 + 8 * int n + int N" "e_nbits_total e' = 33 + 8 * int (n + k) + int N"
      using rel e'(3) unfolding enc_rel_def by blast+
    then show ?thesis using rounds_le [of R1] by (simp add: k_def)
  qed
  have "0 < R1" using ab by (simp add: R1_def)
  note n1 = rounds_normal [OF this, folded k_def]
  have sw: "n + 4 + k = n + k + 4" by simp
  have bk: "inside S n L R N V \<and> (\<forall>d. dec_rel d S (n + 4) L R N \<longrightarrow> (\<exists>d'. dec d = Ok (x, d')
      \<and> dec_rel d' S (n + k + 4) (256 ^ k * L1) (256 ^ k * R1) N \<and> d_error d' = d_error d))"
    if ins: "inside S (n + k) (256 ^ k * L1) (256 ^ k * R1) N V" for S
  proof -
    have c: "256 ^ k * L1 \<le> code_at S (n + k + 4)" "code_at S (n + k + 4) < 256 ^ k * (L1 + R1)"
      using ins by (simp_all add: inside_def algebra_simps)
    note c0 = inside_scale [OF c]
    have c1: "L + R - ?b \<le> code_at S (n + 4)" "code_at S (n + 4) < L + R - ?a"
      using c0 by (simp_all add: L1_def R1_def)
    have "code_at S (n + 4) < L + R" "L \<le> code_at S (n + 4)"
      using c1 ab uint_ge_0 [of "a (e_rng e)"] by linarith+
    then have "inside S n L R N V" using ins by (simp add: inside_def)
    moreover have "\<exists>d'. dec d = Ok (x, d') \<and> dec_rel d' S (n + k + 4) (256 ^ k * L1) (256 ^ k * R1) N \<and> d_error d' = d_error d"
      if d: "dec_rel d S (n + 4) L R N" for d
    proof -
      have dr: "uint (d_rng d) = R" "uint (d_val d) = L + R - 1 - code_at S (n + 4)" using d by (simp_all add: dec_rel_def)
      then have rr: "d_rng d = e_rng e" using R by (simp add: word_uint_eq_iff)
      have "uint (a (d_rng d)) \<le> uint (d_val d)" "uint (d_val d) < uint (b (d_rng d))"
        unfolding rr dr(2) using c1 by simp_all
      then obtain y where y: "dec d = bnd (dec_normalize (dnarrowed (d\<lparr>d_ext := y\<rparr>) (a (d_rng d)) (b (d_rng d)))) (\<lambda>d. Ok (x, d))"
        using dec [of d] dr(1) norm R by auto
      let ?d = "d\<lparr>d_ext := y\<rparr>"
      have "dec_rel ?d S (n + 4) L R N" using d by (simp add: dec_rel_def)
      from dnarrowed_rel [OF this ab c1]
      have "dec_rel (dnarrowed ?d (a (d_rng d)) (b (d_rng d))) S (n + 4) L1 R1 N" unfolding rr L1_def R1_def .
      moreover have "k < 4" using rounds_le [of R1] unfolding k_def by linarith
      ultimately obtain d' where d': "dec_normalize_loop 4 (dnarrowed ?d (a (d_rng d)) (b (d_rng d))) = Ok d'"
        "dec_rel d' S (n + k + 4) (256 ^ k * L1) (256 ^ k * R1) N"
        "d_error d' = d_error (dnarrowed ?d (a (d_rng d)) (b (d_rng d)))"
        using dec_normalize_loop_rel [of _ S "n + 4" L1 R1 N 4, folded k_def] c unfolding sw by blast
      show ?thesis
        unfolding y dec_normalize_def d'(1) bnd.simps using d'(2,3) by (simp add: dnarrowed_def)
    qed
    ultimately show ?thesis by blast
  qed
  have "enc e = Ok e'" using enc [of e] norm R e'(1) by simp
  then show "\<exists>e' n' L' R' N' V'. enc e = Ok e' \<and> enc_rel e' n' L' R' N' V' \<and> 8388608 < R'
        \<and> e_nbits_total e' \<le> e_nbits_total e + int 24 \<and> (e_error e' = 0 \<longrightarrow> e_error e = 0)
        \<and> (\<forall>S. inside S n' L' R' N' V' \<longrightarrow> inside S n L R N V
             \<and> (\<forall>d. dec_rel d S (n + 4) L R N \<longrightarrow> (\<exists>d'. dec d = Ok (x, d')
                  \<and> dec_rel d' S (n' + 4) L' R' N' \<and> d_error d' = d_error d)))"
    using e'(2,3) nt n1 bk by blast
qed

section \<open>The symbol coders\<close>

lemma le_div_pos: "0 < q \<Longrightarrow> q * x \<le> v \<Longrightarrow> x \<le> v div q" for q x v :: int
  using zdiv_mono1 [of "q * x" v q] by simp

lemma mult_div_le: "0 < q \<Longrightarrow> q * (v div q) \<le> v" for q v :: int
  using mult_div_mod_eq [of q v] pos_mod_sign [of q v] by linarith

lemma div_less_pos: "0 < q \<Longrightarrow> v < q * x \<Longrightarrow> v div q < x" for q x v :: int
proof (rule ccontr)
  assume "0 < q" "v < q * x" "\<not> v div q < x"
  then have "q * x \<le> q * (v div q)" by (intro mult_left_mono) simp_all
  with mult_div_le [OF \<open>0 < q\<close>, of v] \<open>v < q * x\<close> show False by linarith
qed

subsection \<open>Frequencies\<close>

text \<open>The slot of a symbol with cumulative frequencies \<open>[fl, fh)\<close> of \<open>ft\<close>.\<close>

definition slot_lo :: "u32 \<Rightarrow> u32 \<Rightarrow> u32 \<Rightarrow> u32" where
  "slot_lo fh ft r = (r div ft) * (ft - fh)"

definition slot_hi :: "u32 \<Rightarrow> u32 \<Rightarrow> u32 \<Rightarrow> u32" where
  "slot_hi fl ft r = (if fl > 0 then (r div ft) * (ft - fl) else r)"

definition freq_ok :: "u32 \<Rightarrow> u32 \<Rightarrow> u32 \<Rightarrow> bool" where
  "freq_ok fl fh ft \<longleftrightarrow> fl < fh \<and> fh \<le> ft \<and> ft \<le> 8388608"

lemma uint_slot:
  assumes "freq_ok fl fh ft" "8388608 < uint r" "uint r \<le> 2147483648" "uint x \<le> uint ft"
  shows "uint ((r div ft) * (ft - x)) = (uint r div uint ft) * (uint ft - uint x)"
    "1 \<le> uint r div uint ft" "(uint r div uint ft) * uint ft \<le> uint r" "0 < uint ft"
proof -
  have ft: "0 < uint ft" "uint ft \<le> 8388608"
    using assms(1) uint_ge_0 [of fl] unfolding freq_ok_def u32_less u32_le by (linarith, simp)
  then show "0 < uint ft" by simp
  define q where "q = uint r div uint ft"
  have q0: "0 \<le> q" using ft by (simp add: q_def pos_imp_zdiv_nonneg_iff)
  show q: "q * uint ft \<le> uint r" unfolding q_def mult.commute [of _ "uint ft"] by (rule mult_div_le [OF ft(1)])
  have "uint ft * 1 \<le> uint r" using ft assms(2) by simp
  then show "1 \<le> q" unfolding q_def using ft(1) by (simp add: pos_imp_zdiv_pos_iff int_one_le_iff_zero_less)
  have "uint ft - uint x \<le> uint ft" by simp
  then have "q * (uint ft - uint x) \<le> q * uint ft" using q0 by (rule mult_left_mono)
  then have le: "q * (uint ft - uint x) < 4294967296" using q assms(3) by linarith
  have "uint (ft - x) = uint ft - uint x" using assms(4) by (rule u32_sub)
  with le show "uint ((r div ft) * (ft - x)) = q * (uint ft - uint x)"
    by (subst u32_mul) (simp_all add: u32_div q_def)
qed

lemma slot_bounds:
  assumes ok: "freq_ok fl fh ft" and r: "8388608 < uint r" "uint r \<le> 2147483648"
  shows "uint (slot_lo fh ft r) < uint (slot_hi fl ft r)" "uint (slot_hi fl ft r) \<le> uint r"
proof -
  define q where "q = uint r div uint ft"
  have f: "uint fl < uint fh" "uint fh \<le> uint ft" using ok by (simp_all add: freq_ok_def u32_less u32_le)
  note s = uint_slot [OF ok r, folded q_def]
  have lo: "uint (slot_lo fh ft r) = q * (uint ft - uint fh)"
    unfolding slot_lo_def by (rule s(1)) (use f in simp)
  have hi: "0 < fl \<Longrightarrow> uint (slot_hi fl ft r) = q * (uint ft - uint fl)"
    unfolding slot_hi_def using s(1) [of fl] f by simp
  have q: "1 \<le> q" "q * uint ft \<le> uint r" using s(2,3) [of 0] by simp_all
  have a: "q * (uint ft - uint fh) < q * (uint ft - uint fl)" using q(1) f by simp
  have b: "q * (uint ft - uint fl) \<le> q * uint ft" using q(1) by (intro mult_left_mono) simp_all
  show "uint (slot_hi fl ft r) \<le> uint r"
    using hi b q(2) by (cases "0 < fl") (auto simp: slot_hi_def)
  show "uint (slot_lo fh ft r) < uint (slot_hi fl ft r)"
    using hi a b q(2) lo by (cases "0 < fl") (auto simp: slot_hi_def)
qed

lemma Encode_narrowed: "ft \<noteq> 0 \<Longrightarrow> Encode e fl fh ft =
    enc_normalize (narrowed e (slot_lo fh ft (e_rng e)) (slot_hi fl ft (e_rng e)))"
  by (auto simp: Encode_def celtUdiv_def narrowed_def slot_lo_def slot_hi_def algebra_simps)

text \<open>Inside the slot, \<^verbatim>\<open>Decode\<close> returns a frequency of the symbol and \<^verbatim>\<open>DecUpdate\<close> narrows to it.\<close>

lemma Decode_slot:
  assumes ok: "freq_ok fl fh ft" and r: "8388608 < uint (d_rng d)" "uint (d_rng d) \<le> 2147483648"
    and v: "uint (slot_lo fh ft (d_rng d)) \<le> uint (d_val d)" "uint (d_val d) < uint (slot_hi fl ft (d_rng d))"
  shows "\<exists>s. Decode d ft = Ok (s, d\<lparr>d_ext := d_rng d div ft\<rparr>) \<and> fl \<le> s \<and> s < fh"
proof -
  define q where "q = uint (d_rng d) div uint ft"
  define v where "v = uint (d_val d)"
  have f: "uint fl < uint fh" "uint fh \<le> uint ft" "uint ft \<le> 8388608"
    using ok by (simp_all add: freq_ok_def u32_less u32_le)
  note s = uint_slot [OF ok r, folded q_def]
  have q: "1 \<le> q" "0 < uint ft" "q * uint ft \<le> uint (d_rng d)" using s(2,3,4) [of 0] by simp_all
  have ft0: "ft \<noteq> 0" using q(2) by auto
  have uq: "uint (d_rng d div ft) = q" by (simp add: q_def u32_div)
  then have e0: "d_rng d div ft \<noteq> 0" using q(1) by auto
  define t where "t = v div q"
  have tv: "uint (d_val d div (d_rng d div ft)) = t" by (simp only: t_def v_def u32_div [of "d_val d"] uq)
  have v0: "0 \<le> v" by (simp add: v_def)
  have lo: "q * (uint ft - uint fh) \<le> v" using v(1) s(1) [of fh] f by (simp add: slot_lo_def v_def)
  have hi: "v < q * (uint ft - uint fl)" if "0 < fl" using v(2) s(1) [of fl] f that by (simp add: slot_hi_def v_def)
  have t1: "uint ft - uint fh \<le> t"
    unfolding t_def using lo q(1) by (intro le_div_pos) simp_all
  have t2: "t < uint ft - uint fl" if "0 < fl"
    unfolding t_def using hi [OF that] q(1) by (intro div_less_pos) simp_all
  have tb: "t < 2147483648" "0 \<le> t"
  proof -
    have "v < 2147483648" using v(2) slot_bounds(2) [OF ok r] r(2) by (simp add: v_def)
    moreover have "1 * 2147483648 \<le> q * 2147483648" using q(1) by (intro mult_right_mono) simp_all
    ultimately show "t < 2147483648" unfolding t_def using q(1) by (intro div_less_pos) simp_all
    show "0 \<le> t" unfolding t_def using v0 q(1) by (simp add: pos_imp_zdiv_nonneg_iff)
  qed
  let ?s = "d_val d div (d_rng d div ft)"
  have s1: "uint (?s + 1) = t + 1" using tb by (subst u32_add) (simp_all add: tv)
  have mn: "uint (min (?s + 1) ft) = min (t + 1) (uint ft)"
    using s1 by (simp add: min_def u32_le)
  have res: "uint (ft - min (?s + 1) ft) = uint ft - min (t + 1) (uint ft)"
    by (subst u32_sub) (simp_all add: mn)
  have "Decode d ft = Ok (ft - min (?s + 1) ft, d\<lparr>d_ext := d_rng d div ft\<rparr>)"
    using ft0 e0 by (simp add: Decode_def celtUdiv_def)
  moreover have "fl \<le> ft - min (?s + 1) ft"
    unfolding u32_le res using t2 f by (cases "0 < fl") (auto simp: word_gt_0)
  moreover have "ft - min (?s + 1) ft < fh"
    unfolding u32_less res using t1 f uint_ge_0 [of fl] by linarith
  ultimately show ?thesis by blast
qed

lemma DecUpdate_narrowed:
  "DecUpdate (d\<lparr>d_ext := d_rng d div ft\<rparr>) fl fh ft = dec_normalize (dnarrowed (d\<lparr>d_ext := d_rng d div ft\<rparr>)
     (slot_lo fh ft (d_rng d)) (slot_hi fl ft (d_rng d)))"
  by (auto simp: DecUpdate_def dnarrowed_def slot_lo_def slot_hi_def Let_def algebra_simps)

text \<open>
  How a caller decodes: it looks up the symbol whose slot holds the frequency \<^verbatim>\<open>Decode\<close> returns,
  and passes the slot to \<^verbatim>\<open>DecUpdate\<close>.  \<open>lookup\<close> stands for that table search.
\<close>

definition decode_with :: "(u32 \<Rightarrow> 'a \<times> u32 \<times> u32) \<Rightarrow> u32 \<Rightarrow> Decoder \<Rightarrow> ('a \<times> Decoder) go" where
  "decode_with lookup ft d = bnd (Decode d ft) (\<lambda>(s, d).
     case lookup s of (x, fl, fh) \<Rightarrow> bnd (DecUpdate d fl fh ft) (\<lambda>d. Ok (x, d)))"

lemma undoes_Encode:
  assumes ok: "freq_ok fl fh ft" and "\<And>s. fl \<le> s \<Longrightarrow> s < fh \<Longrightarrow> lookup s = (x, fl, fh)"
  shows "undoes 24 (\<lambda>e. Encode e fl fh ft) (decode_with lookup ft) x"
proof (rule undoes_slot [where a = "slot_lo fh ft" and b = "slot_hi fl ft"])
  have ft: "ft \<noteq> 0" using ok by (auto simp: freq_ok_def)
  show "Encode e fl fh ft = enc_normalize (narrowed e (slot_lo fh ft (e_rng e)) (slot_hi fl ft (e_rng e)))" for e
    using ft by (rule Encode_narrowed)
  fix d :: Decoder
  assume "8388608 < uint (d_rng d)" "uint (d_rng d) \<le> 2147483648"
    "uint (slot_lo fh ft (d_rng d)) \<le> uint (d_val d)" "uint (d_val d) < uint (slot_hi fl ft (d_rng d))"
  from Decode_slot [OF ok this] obtain s
    where "Decode d ft = Ok (s, d\<lparr>d_ext := d_rng d div ft\<rparr>)" "fl \<le> s" "s < fh" by blast
  then show "\<exists>y. decode_with lookup ft d = bnd (dec_normalize (dnarrowed (d\<lparr>d_ext := y\<rparr>)
      (slot_lo fh ft (d_rng d)) (slot_hi fl ft (d_rng d)))) (\<lambda>d. Ok (x, d))"
    using assms(2) DecUpdate_narrowed [of d ft fl fh] by (auto simp: decode_with_def)
qed (use slot_bounds [OF ok] in auto)

subsection \<open>Powers of two\<close>

lemma u32_pow2:
  assumes "n < 32"
  shows "uint (push_bit n 1 :: u32) = 2 ^ n" "(push_bit n 1 :: u32) \<noteq> 0" "drop_bit n (r :: u32) = r div push_bit n 1"
proof -
  have "(2 :: int) ^ n < 2 ^ 32" using assms by (intro power_strict_increasing) simp_all
  then show u: "uint (push_bit n 1 :: u32) = 2 ^ n" by (simp add: u32_push del: push_bit_of_1)
  show "(push_bit n 1 :: u32) \<noteq> 0"
  proof
    assume "(push_bit n 1 :: u32) = 0"
    then have "uint (push_bit n 1 :: u32) = 0" by (simp only: unsigned_0)
    with u show False by simp
  qed
  show "drop_bit n r = r div push_bit n 1" by (rule word_uint_eqI) (simp only: u32_drop u32_div u)
qed

lemma unat_less_32: "bits < 32 \<Longrightarrow> unat (bits :: u32) < 32"
  by (simp add: word_less_nat_alt)

lemma EncodeBin_Encode: "bits < 32 \<Longrightarrow> EncodeBin e fl fh bits = Encode e fl fh (push_bit (unat bits) 1)"
  unfolding EncodeBin_def Encode_def celtUdiv_def Let_def
  by (simp only: u32_pow2(2,3) [OF unat_less_32] if_False bnd.simps)

lemma DecodeBin_Decode: "bits < 32 \<Longrightarrow> DecodeBin d bits = Decode d (push_bit (unat bits) 1)"
  unfolding DecodeBin_def Decode_def celtUdiv_def [of "d_rng d"] Let_def
  by (simp only: u32_pow2(2,3) [OF unat_less_32] if_False bnd.simps)

subsection \<open>Single bits\<close>

lemma undoes_EncBitLogp:
  assumes "1 \<le> logp" "logp \<le> 23"
  shows "undoes 24 (\<lambda>e. EncBitLogp e v logp) (\<lambda>d. DecBitLogp d logp) (if v = 0 then 0 else 1)"
proof -
  define p where "p = unat logp"
  have p: "1 \<le> p" "p \<le> 23" using assms by (simp_all add: p_def word_le_nat_alt)
  define h where "h r = (drop_bit p r :: u32)" for r
  have h: "uint (h r) = uint r div 2 ^ p" for r by (simp add: h_def u32_drop)
  have b: "0 < uint (h r)" "uint (h r) < uint r" if "8388608 < uint r" for r
  proof -
    have "2 ^ p \<le> (2 ^ 23 :: int)" using p by (intro power_increasing) simp_all
    then have "2 ^ p \<le> uint r" using that by simp
    then show "0 < uint (h r)" unfolding h by (simp add: pos_imp_zdiv_pos_iff)
    have "1 < (2 :: int) ^ p" using p by simp
    then show "uint (h r) < uint r" unfolding h using that by (intro int_div_less_self) simp_all
  qed
  show ?thesis
  proof (cases "v = 0")
    case True
    show ?thesis
    proof (rule undoes_slot [where a = h and b = "\<lambda>r. r"])
      show "EncBitLogp e v logp = enc_normalize (narrowed e (h (e_rng e)) (e_rng e))" for e
        by (simp add: EncBitLogp_def True narrowed_def h_def p_def Let_def)
      show "\<exists>y. DecBitLogp d logp = bnd (dec_normalize (dnarrowed (d\<lparr>d_ext := y\<rparr>) (h (d_rng d)) (d_rng d)))
          (\<lambda>d. Ok (if v = 0 then 0 else 1, d))" if "uint (h (d_rng d)) \<le> uint (d_val d)" for d
        using that unfolding h_def p_def by (intro exI [of _ "d_ext d"])
          (simp add: DecBitLogp_def True dnarrowed_def u32_less Let_def)
    qed (use b in auto)
  next
    case False
    show ?thesis
    proof (rule undoes_slot [where a = "\<lambda>r. 0" and b = h])
      show "EncBitLogp e v logp = enc_normalize (narrowed e 0 (h (e_rng e)))" for e
        by (simp add: EncBitLogp_def False narrowed_def h_def p_def Let_def)
      show "\<exists>y. DecBitLogp d logp = bnd (dec_normalize (dnarrowed (d\<lparr>d_ext := y\<rparr>) 0 (h (d_rng d))))
          (\<lambda>d. Ok (if v = 0 then 0 else 1, d))" if "uint (d_val d) < uint (h (d_rng d))" for d
        using that unfolding h_def p_def by (intro exI [of _ "d_ext d"])
          (simp add: DecBitLogp_def False dnarrowed_def u32_less Let_def)
    qed (use b less_imp_le in auto)
  qed
qed

subsection \<open>Inverse cumulative tables\<close>

text \<open>A table the coder can use for the symbol \<open>s\<close>: non-increasing, and the symbol has a slot.\<close>

definition icdf_ok :: "bytes \<Rightarrow> u32 \<Rightarrow> int \<Rightarrow> bool" where
  "icdf_ok icdf ftb s \<longleftrightarrow> 0 \<le> s \<and> s < len icdf \<and> ftb \<le> 23
     \<and> uint (icdf ! 0) < 2 ^ unat ftb \<and> sorted_wrt (\<lambda>a b. b \<le> a) icdf
     \<and> (s = 0 \<or> icdf ! nat s < icdf ! (nat s - 1))"

definition icdf_lo :: "bytes \<Rightarrow> nat \<Rightarrow> nat \<Rightarrow> u32 \<Rightarrow> u32" where
  "icdf_lo icdf n i r = drop_bit n r * ucast (icdf ! i)"

definition icdf_hi :: "bytes \<Rightarrow> nat \<Rightarrow> nat \<Rightarrow> u32 \<Rightarrow> u32" where
  "icdf_hi icdf n i r = (if i > 0 then icdf_lo icdf n (i - 1) r else r)"

lemma uint_ucast_u8: "uint (ucast (b :: u8) :: u32) = uint b"
  by (simp add: unsigned_ucast_eq take_bit_int_eq_self uint_u8_lt order.strict_trans [OF uint_u8_lt])

lemma uint_icdf_lo:
  assumes "uint r \<le> 2147483648" "uint (icdf ! i) < 2 ^ n"
  shows "uint (icdf_lo icdf n i r) = (uint r div 2 ^ n) * uint (icdf ! i)"
    "(uint r div 2 ^ n) * uint (icdf ! i) \<le> uint r"
proof -
  define q where "q = uint r div 2 ^ n"
  have q0: "0 \<le> q" by (simp add: q_def pos_imp_zdiv_nonneg_iff)
  have "q * uint (icdf ! i) \<le> q * 2 ^ n" using assms(2) q0 by (intro mult_left_mono) simp_all
  also have "q * 2 ^ n \<le> uint r" unfolding q_def mult.commute [of _ "2 ^ n"] by (rule mult_div_le) simp
  finally show le: "q * uint (icdf ! i) \<le> uint r" .
  then show "uint (icdf_lo icdf n i r) = q * uint (icdf ! i)"
    unfolding icdf_lo_def using assms(1) by (subst u32_mul) (simp_all add: u32_drop uint_ucast_u8 q_def)
qed

lemma icdf_mono:
  assumes "icdf_ok icdf ftb s" "j \<le> i" "i < length icdf"
  shows "uint (icdf ! i) \<le> uint (icdf ! j)"
proof (cases "j = i")
  case False
  then have "icdf ! i \<le> icdf ! j"
    using assms sorted_wrt_nth_less [of "\<lambda>a b. b \<le> a" icdf j i] by (simp add: icdf_ok_def)
  then show ?thesis by (simp add: word_le_def)
qed simp

lemma icdf_bound:
  assumes "icdf_ok icdf ftb s" "i < length icdf"
  shows "uint (icdf ! i) < 2 ^ unat ftb"
  using icdf_mono [OF assms(1) le0 assms(2)] assms(1) by (simp add: icdf_ok_def)

lemma icdf_bounds:
  assumes ok: "icdf_ok icdf ftb s" and r: "8388608 < uint r" "uint r \<le> 2147483648"
  defines "n \<equiv> unat ftb" and "i \<equiv> nat s"
  shows "uint (icdf_lo icdf n i r) < uint (icdf_hi icdf n i r)" "uint (icdf_hi icdf n i r) \<le> uint r"
proof -
  have i: "i < length icdf" using ok by (simp add: icdf_ok_def i_def) linarith
  have n: "n \<le> 23" using ok by (simp add: icdf_ok_def n_def word_le_nat_alt)
  define q where "q = uint r div 2 ^ n"
  have "(2 :: int) ^ n \<le> 2 ^ 23" using n by (intro power_increasing) simp_all
  then have q: "1 \<le> q" unfolding q_def using r(1) by (intro le_div_pos) simp_all
  note lo = uint_icdf_lo [OF r(2), of icdf _ n, folded q_def]
  note b = icdf_bound [OF ok, folded n_def]
  have l0: "uint (icdf_lo icdf n i r) = q * uint (icdf ! i)" by (rule lo(1) [OF b [OF i]])
  show "uint (icdf_hi icdf n i r) \<le> uint r"
    using lo [OF b, of "i - 1"] i by (simp add: icdf_hi_def)
  show "uint (icdf_lo icdf n i r) < uint (icdf_hi icdf n i r)"
  proof (cases "i = 0")
    case True
    have "q * uint (icdf ! i) < q * 2 ^ n" using b [OF i] q by simp
    moreover have "q * 2 ^ n \<le> uint r" unfolding q_def mult.commute [of _ "2 ^ n"] by (rule mult_div_le) simp
    moreover have "icdf_hi icdf n i r = r" using True by (simp add: icdf_hi_def)
    ultimately show ?thesis using l0 by simp
  next
    case False
    then have "uint (icdf ! i) < uint (icdf ! (i - 1))"
      using ok by (auto simp: icdf_ok_def i_def word_less_def)
    then show ?thesis using False q l0 lo(1) [OF b, of "i - 1"] i by (simp add: icdf_hi_def)
  qed
qed

lemma icdf_search_finds:
  assumes "\<And>k. k < i \<Longrightarrow> v < icdf_lo icdf n k r" "icdf_lo icdf n i r \<le> v" "i < length icdf" "j \<le> i"
    "t = icdf_hi icdf n j r"
  shows "icdf_search icdf (drop_bit n r) v t (int j - 1) = Ok (int i, icdf_lo icdf n i r, icdf_hi icdf n i r)"
  using assms(4,5)
proof (induction "i - j" arbitrary: j t)
  case 0
  then have j: "j = i" by simp
  have "(idx icdf (int i) :: u8 go) = Ok (icdf ! i)" using assms(3) by (simp add: idx_def)
  then show ?case
    using assms(2) 0 by (subst icdf_search.simps) (simp add: j icdf_lo_def)
next
  case (Suc m)
  then have lt: "j < i" by simp
  have i: "(idx icdf (int j) :: u8 go) = Ok (icdf ! j)" using lt assms(3) by (simp add: idx_def)
  have g: "\<not> icdf_lo icdf n j r \<le> v" using assms(1) [OF lt] by simp
  have IH: "icdf_search icdf (drop_bit n r) v (icdf_lo icdf n j r) (int (Suc j) - 1)
      = Ok (int i, icdf_lo icdf n i r, icdf_hi icdf n i r)"
    using Suc.hyps(1) [of "Suc j" "icdf_lo icdf n j r"] Suc.hyps(2) lt by (simp add: icdf_hi_def)
  show ?case
    using IH g i by (subst icdf_search.simps) (simp add: icdf_lo_def)
qed

lemma undoes_EncIcdf:
  assumes ok: "icdf_ok icdf ftb s"
  shows "undoes 24 (\<lambda>e. EncIcdf e s icdf ftb) (\<lambda>d. DecIcdf d icdf ftb) s"
proof -
  define n where "n = unat ftb"
  define i where "i = nat s"
  have i: "i < length icdf" and si: "s = int i" using ok by (auto simp: icdf_ok_def i_def)
  note bounds = icdf_bounds [OF ok, folded n_def i_def]
  show ?thesis
  proof (rule undoes_slot [where a = "icdf_lo icdf n i" and b = "icdf_hi icdf n i"])
    show "EncIcdf e s icdf ftb = enc_normalize (narrowed e (icdf_lo icdf n i (e_rng e)) (icdf_hi icdf n i (e_rng e)))" for e
    proof (cases "i = 0")
      case True
      then show ?thesis
        using i by (simp add: EncIcdf_def si idx_def narrowed_def icdf_lo_def icdf_hi_def Let_def flip: n_def)
    next
      case False
      then have "(idx icdf (int i - 1) :: u8 go) = Ok (icdf ! (i - 1))" "(idx icdf (int i) :: u8 go) = Ok (icdf ! i)"
        using i by (auto simp: idx_def nat_diff_distrib)
      with False show ?thesis
        by (simp add: EncIcdf_def si narrowed_def icdf_lo_def icdf_hi_def Let_def algebra_simps flip: n_def)
    qed
    fix d :: Decoder
    assume r: "8388608 < uint (d_rng d)" "uint (d_rng d) \<le> 2147483648"
      and v: "uint (icdf_lo icdf n i (d_rng d)) \<le> uint (d_val d)" "uint (d_val d) < uint (icdf_hi icdf n i (d_rng d))"
    have pre: "d_val d < icdf_lo icdf n k (d_rng d)" if k: "k < i" for k
    proof -
      define q where "q = uint (d_rng d) div 2 ^ n"
      have "0 \<le> q" by (simp add: q_def pos_imp_zdiv_nonneg_iff)
      then have "q * uint (icdf ! (i - 1)) \<le> q * uint (icdf ! k)"
        using icdf_mono [OF ok, of k "i - 1"] k i by (intro mult_left_mono) simp_all
      moreover have "uint (icdf_hi icdf n i (d_rng d)) = q * uint (icdf ! (i - 1))"
        "uint (icdf_lo icdf n k (d_rng d)) = q * uint (icdf ! k)"
        using k i uint_icdf_lo(1) [OF r(2) icdf_bound [OF ok, folded n_def]] by (simp_all add: icdf_hi_def q_def)
      ultimately show ?thesis unfolding u32_less using v(2) by linarith
    qed
    have "icdf_search icdf (drop_bit n (d_rng d)) (d_val d) (d_rng d) (-1)
        = Ok (int i, icdf_lo icdf n i (d_rng d), icdf_hi icdf n i (d_rng d))"
      using icdf_search_finds [OF pre _ i, of 0 "d_rng d"] v(1) by (simp add: u32_le icdf_hi_def)
    then show "\<exists>y. DecIcdf d icdf ftb = bnd (dec_normalize (dnarrowed (d\<lparr>d_ext := y\<rparr>)
        (icdf_lo icdf n i (d_rng d)) (icdf_hi icdf n i (d_rng d)))) (\<lambda>d. Ok (s, d))"
      by (intro exI [of _ "d_ext d"]) (simp add: DecIcdf_def dnarrowed_def si Let_def flip: n_def)
  qed (use bounds in auto)
qed

section \<open>Raw bits\<close>

text \<open>Everything but the end of the buffer and the error is as before.\<close>

definition same_front :: "Encoder \<Rightarrow> Encoder \<Rightarrow> bool" where
  "same_front e e' \<longleftrightarrow> e_storage e' = e_storage e \<and> e_offs e' = e_offs e \<and> e_end_window e' = e_end_window e
     \<and> e_nend_bits e' = e_nend_bits e \<and> e_nbits_total e' = e_nbits_total e \<and> e_rng e' = e_rng e
     \<and> e_val e' = e_val e \<and> e_ext e' = e_ext e \<and> e_rem e' = e_rem e
     \<and> front_bytes e' = front_bytes e \<and> (e_error e' = 0 \<longrightarrow> e_error e = 0)"

lemma same_front_refl: "same_front e e"
  by (simp add: same_front_def)

lemma same_front_trans: "same_front e e' \<Longrightarrow> same_front e' e'' \<Longrightarrow> same_front e e''"
  by (simp add: same_front_def)

lemma num_Cons: "num (b # bs) = uint b * 256 ^ length bs + num bs"
  using num_append [of "[b]" bs] num_snoc [of "[]" b] by simp

lemma put_byte_at_end_tail:
  assumes wf: "enc_wf e"
  shows "\<exists>e'. put_byte_at_end e v = Ok e' \<and> enc_wf e' \<and> same_front e e'
    \<and> (e_error e' = 0 \<longrightarrow> uint (e_end_offs e') = uint (e_end_offs e) + 1 \<and> tail_bytes e' = ucast v # tail_bytes e)"
proof -
  have b: "len (e_buf e) = uint (e_storage e)" "uint (e_offs e) + uint (e_end_offs e) \<le> uint (e_storage e)"
    "e_error e = 0 \<or> e_error e = -1" using wf by (auto simp: enc_wf_def)
  have s: "uint (e_offs e + e_end_offs e) = uint (e_offs e) + uint (e_end_offs e)"
    using b(2) u32_lt [of "e_storage e"] by (intro u32_add) linarith
  show ?thesis
  proof (cases "uint (e_offs e) + uint (e_end_offs e) < uint (e_storage e)")
    case False
    then have "put_byte_at_end e v = Ok (e\<lparr>e_error := -1\<rparr>)"
      using b(3) by (auto simp: put_byte_at_end_def write_byte_at_end_def u32_le s)
    with False wf show ?thesis by (auto simp: enc_wf_def same_front_def front_bytes_def)
  next
    case True
    define k where "k = length (e_buf e) - Suc (unat (e_end_offs e))"
    have lt: "uint (e_end_offs e) + 1 \<le> uint (e_storage e)" using True uint_ge_0 [of "e_offs e"] by linarith
    have e1: "uint (e_end_offs e + 1) = uint (e_end_offs e) + 1"
      using lt u32_lt [of "e_storage e"] by (subst u32_add) simp_all
    have st: "uint (e_storage e - (e_end_offs e + 1)) = uint (e_storage e) - uint (e_end_offs e) - 1"
      using lt by (subst u32_sub) (simp_all add: e1)
    have le: "int (Suc (unat (e_end_offs e))) \<le> len (e_buf e)" using lt b(1) by simp
    then have le': "Suc (unat (e_end_offs e)) \<le> length (e_buf e)" by (simp only: of_nat_le_iff)
    then have "int k = uint (e_storage e) - uint (e_end_offs e) - 1"
      using b(1) by (simp add: k_def of_nat_diff)
    then have ik: "uint (e_storage e - (e_end_offs e + 1)) = int k" using st by simp
    have kl: "k < length (e_buf e)" using le' by (simp add: k_def)
    let ?e = "e\<lparr>e_end_offs := e_end_offs e + 1, e_buf := (e_buf e)[k := ucast v]\<rparr>"
    have u: "upd (e_buf e) (uint (e_storage e - (e_end_offs e + 1))) (ucast v) = Ok ((e_buf e)[k := ucast v])"
      using kl unfolding ik by (simp add: upd_def)
    have p: "put_byte_at_end e v = Ok ?e"
      using True by (simp add: put_byte_at_end_def write_byte_at_end_def u32_le s u Let_def)
    have "int (unat (e_end_offs e + 1)) = int (Suc (unat (e_end_offs e)))" using e1 by simp
    then have ue: "unat (e_end_offs e + 1) = Suc (unat (e_end_offs e))" by (simp only: of_nat_eq_iff)
    have Sk: "length (e_buf e) - unat (e_end_offs e) = Suc k" using le' by (simp add: k_def)
    have tl: "tail_bytes ?e = ucast v # tail_bytes e"
      using kl by (simp add: tail_bytes_def ue Sk k_def [symmetric] Cons_nth_drop_Suc [symmetric])
    have "int (unat (e_offs e)) \<le> int k" using True b(1) ik st by simp
    then have "unat (e_offs e) \<le> k" by (simp only: of_nat_le_iff)
    then have fr: "front_bytes ?e = front_bytes e" by (simp add: front_bytes_def)
    have "enc_wf ?e" using wf True e1 by (auto simp: enc_wf_def)
    with p tl fr e1 show ?thesis by (auto simp: same_front_def)
  qed
qed

lemma flush_window_bits: "8 \<le> u \<Longrightarrow> flush_window e w u = flush_bits e w u"
proof (induction e w u rule: flush_window.induct)
  case (1 e w u)
  show ?case
    using 1 by (subst flush_window.simps, subst flush_bits.simps)
      (auto simp: Let_def ecSymBits_def flush_bits.simps intro!: bnd_cong)
qed

lemma flush_bits_spec:
  assumes "enc_wf e" "0 \<le> u" "uint w < 2 ^ nat u"
  shows "\<exists>e' w' u'. flush_bits e w u = Ok (e', w', u') \<and> enc_wf e' \<and> same_front e e'
    \<and> 0 \<le> u' \<and> u' < 8 \<and> u' \<le> u \<and> uint w' < 2 ^ nat u'
    \<and> (e_error e' = 0 \<longrightarrow> 8 * uint (e_end_offs e') + u' = 8 * uint (e_end_offs e) + u
        \<and> num (tail_bytes e') + uint w' * 256 ^ unat (e_end_offs e')
          = num (tail_bytes e) + uint w * 256 ^ unat (e_end_offs e))"
  using assms
proof (induction e w u rule: flush_bits.induct)
  case (1 e w u)
  show ?case
  proof (cases "8 \<le> u")
    case False
    then show ?thesis
      using 1(2-) by (subst flush_bits.simps) (simp add: ecSymBits_def same_front_refl)
  next
    case True
    obtain e1 where e1: "put_byte_at_end e (w AND word_of_int ecSymMax) = Ok e1" "enc_wf e1" "same_front e e1"
      "e_error e1 = 0 \<longrightarrow> uint (e_end_offs e1) = uint (e_end_offs e) + 1
         \<and> tail_bytes e1 = ucast (w AND word_of_int ecSymMax) # tail_bytes e"
      using put_byte_at_end_tail [OF 1(2)] by blast
    have w: "uint (drop_bit 8 w) = uint w div 256" by (simp add: u32_drop)
    have "nat u = nat (u - 8) + 8" using True by simp
    then have "2 ^ nat u = (256 :: int) * 2 ^ nat (u - 8)" by (simp add: power_add)
    then have wb: "uint (drop_bit 8 w) < 2 ^ nat (u - 8)"
      using 1(4) unfolding w by (intro div_less_pos) simp_all
    obtain e' w' u' where e': "flush_bits e1 (drop_bit 8 w) (u - 8) = Ok (e', w', u')" "enc_wf e'" "same_front e1 e'"
      "0 \<le> u'" "u' < 8" "u' \<le> u - 8" "uint w' < 2 ^ nat u'"
      "e_error e' = 0 \<longrightarrow> 8 * uint (e_end_offs e') + u' = 8 * uint (e_end_offs e1) + (u - 8)
        \<and> num (tail_bytes e') + uint w' * 256 ^ unat (e_end_offs e')
          = num (tail_bytes e1) + uint (drop_bit 8 w) * 256 ^ unat (e_end_offs e1)"
      using 1(1) [of e1] e1(1,2) True wb by (auto simp: ecSymBits_def)
    have "flush_bits e w u = Ok (e', w', u')"
      using True e1(1) e'(1) by (subst flush_bits.simps) (simp add: ecSymBits_def)
    moreover have "8 * uint (e_end_offs e') + u' = 8 * uint (e_end_offs e) + u
        \<and> num (tail_bytes e') + uint w' * 256 ^ unat (e_end_offs e')
          = num (tail_bytes e) + uint w * 256 ^ unat (e_end_offs e)" if err: "e_error e' = 0"
    proof -
      have err1: "e_error e1 = 0" using e'(3) err by (simp add: same_front_def)
      then have t: "uint (e_end_offs e1) = uint (e_end_offs e) + 1"
        "tail_bytes e1 = ucast (w AND word_of_int ecSymMax) # tail_bytes e" using e1(4) by auto
      have "int (unat (e_end_offs e1)) = int (Suc (unat (e_end_offs e)))" using t(1) by simp
      then have un: "unat (e_end_offs e1) = Suc (unat (e_end_offs e))" by (simp only: of_nat_eq_iff)
      have ub: "uint (ucast (w AND word_of_int ecSymMax) :: u8) = uint w mod 256"
        by (simp add: ecSymMax_def unsigned_ucast_eq uint_and int_and_mask take_bit_eq_mod)
      have lt: "length (tail_bytes e) = unat (e_end_offs e)" by (rule length_tail [OF 1(2)])
      have "num (tail_bytes e1) + uint (drop_bit 8 w) * 256 ^ unat (e_end_offs e1)
          = num (tail_bytes e) + (uint w mod 256 + 256 * (uint w div 256)) * 256 ^ unat (e_end_offs e)"
        unfolding t(2) num_Cons ub lt un w by (simp only: power_Suc distrib_right distrib_left ac_simps)
      also have "uint w mod 256 + 256 * (uint w div 256) = uint w" by simp
      finally show ?thesis using e'(8) err t(1) by simp
    qed
    ultimately show ?thesis using e'(2,4-7) same_front_trans [OF e1(3) e'(3)] by auto
  qed
qed

lemma u32_or_push:
  fixes w x :: u32
  assumes "uint w < 2 ^ n" "uint x < 2 ^ k" "n + k \<le> 32"
  shows "uint (w OR push_bit n x) = uint w + uint x * 2 ^ n" "uint w + uint x * 2 ^ n < 2 ^ (n + k)"
proof -
  have "uint x + 1 \<le> 2 ^ k" using assms(2) by simp
  then have "(uint x + 1) * 2 ^ n \<le> 2 ^ k * 2 ^ n" by (intro mult_right_mono) simp_all
  then have le: "uint x * 2 ^ n + 2 ^ n \<le> 2 ^ (n + k)" by (simp add: power_add algebra_simps)
  then show "uint w + uint x * 2 ^ n < 2 ^ (n + k)" using assms(1) by linarith
  have "(2 :: int) ^ (n + k) \<le> 2 ^ 32" using assms(3) by (intro power_increasing) simp_all
  moreover have "(0 :: int) < 2 ^ n" by simp
  ultimately have "uint x * 2 ^ n < 2 ^ 32" using le by linarith
  then have "uint x * 2 ^ n < 4294967296" by simp
  then have pu: "uint (push_bit n x) = uint x * 2 ^ n" by (rule u32_push_small)
  show "uint (w OR push_bit n x) = uint w + uint x * 2 ^ n"
    unfolding uint_or pu
    using int_push_or [OF uint_ge_0 assms(1), of "uint x"] by (simp add: push_bit_eq_mult or.commute add.commute)
qed

lemma EncBits_rel:
  assumes rel: "enc_rel e n L R N V" and fl: "uint fl < 2 ^ k" and bits: "uint bits = int k" "1 \<le> k" "k \<le> 25"
  shows "\<exists>e'. EncBits e fl bits = Ok e' \<and> enc_rel e' n L R (N + k) (V + uint fl * 2 ^ N)
    \<and> (e_error e' = 0 \<longrightarrow> e_error e = 0)"
proof -
  have r: "enc_wf e" "0 \<le> e_nend_bits e" "e_nend_bits e \<le> 32" "uint (e_end_window e) < 2 ^ nat (e_nend_bits e)"
    "0 \<le> V" "V < 2 ^ N"
    using rel by (simp_all add: enc_rel_def)
  let ?P = "\<lambda>e1 w u. e_error e1 = 0 \<longrightarrow> 8 * uint (e_end_offs e1) + u = 8 * uint (e_end_offs e) + e_nend_bits e
        \<and> num (tail_bytes e1) + uint w * 256 ^ unat (e_end_offs e1)
          = num (tail_bytes e) + uint (e_end_window e) * 256 ^ unat (e_end_offs e)"
  obtain e1 w u where e1: "(if e_nend_bits e + uint bits > ecWindowSize then flush_window e (e_end_window e) (e_nend_bits e)
          else Ok (e, e_end_window e, e_nend_bits e)) = Ok (e1, w, u)" "enc_wf e1" "same_front e e1"
    "0 \<le> u" "u + int k \<le> 32" "uint w < 2 ^ nat u" "?P e1 w u"
  proof (cases "e_nend_bits e + int k > 32")
    case False
    then show ?thesis using that [of e "e_end_window e" "e_nend_bits e"] r bits by (simp add: same_front_refl ecWindowSize_def)
  next
    case True
    then have "8 \<le> e_nend_bits e" using bits by linarith
    then have fw: "flush_window e (e_end_window e) (e_nend_bits e) = flush_bits e (e_end_window e) (e_nend_bits e)"
      by (rule flush_window_bits)
    obtain e1 w u where "flush_bits e (e_end_window e) (e_nend_bits e) = Ok (e1, w, u)" "enc_wf e1" "same_front e e1"
      "0 \<le> u" "u < 8" "uint w < 2 ^ nat u" "?P e1 w u"
      using flush_bits_spec [OF r(1,2,4)] by blast
    with True fw bits show ?thesis by (intro that [of e1 w u]) (simp_all add: ecWindowSize_def)
  qed
  let ?w = "w OR push_bit (nat u) fl"
  let ?e = "e1\<lparr>e_end_window := ?w, e_nend_bits := u + int k, e_nbits_total := e_nbits_total e1 + int k\<rparr>"
  have nk: "nat u + k \<le> 32" "nat (u + int k) = nat u + k" using e1(4,5) by (simp_all add: nat_add_distrib)
  note o = u32_or_push [OF e1(6) fl nk(1)]
  have eq: "EncBits e fl bits = Ok ?e"
    using e1(1,4) by (simp add: EncBits_def shl_def bits(1))
  have sf: "e_storage e1 = e_storage e" "e_offs e1 = e_offs e" "e_rng e1 = e_rng e" "e_val e1 = e_val e"
    "e_ext e1 = e_ext e" "e_rem e1 = e_rem e" "front_bytes e1 = front_bytes e" "e_nbits_total e1 = e_nbits_total e"
    "e_error e1 = 0 \<Longrightarrow> e_error e = 0"
    using e1(3) by (simp_all add: same_front_def)
  have dg: "digits_of ?e = digits_of e" "tail_bytes ?e = tail_bytes e1"
    using sf by (simp_all add: digits_of_def front_bytes_def tail_bytes_def)
  have wf: "enc_wf ?e" using e1(2) by (simp add: enc_wf_def)
  have V: "0 \<le> V + uint fl * 2 ^ N" "V + uint fl * 2 ^ N < 2 ^ (N + k)"
  proof -
    show "0 \<le> V + uint fl * 2 ^ N" using r(5) by simp
    have "(uint fl + 1) * 2 ^ N \<le> 2 ^ k * 2 ^ N" using fl by (intro mult_right_mono) simp_all
    then show "V + uint fl * 2 ^ N < 2 ^ (N + k)" using r(6) by (simp add: power_add algebra_simps)
  qed
  have raw: "int (N + k) = 8 * uint (e_end_offs e1) + (u + int k)
      \<and> V + uint fl * 2 ^ N = num (tail_bytes e1) + uint ?w * 256 ^ unat (e_end_offs e1)" if "e_error e1 = 0"
  proof -
    have o8: "int N = 8 * uint (e_end_offs e1) + u"
      "V = num (tail_bytes e1) + uint w * 256 ^ unat (e_end_offs e1)"
      using e1(7) that rel sf(9) by (simp_all add: enc_rel_def)
    have "int N = int (8 * unat (e_end_offs e1) + nat u)" using o8(1) e1(4) by simp
    then have "N = 8 * unat (e_end_offs e1) + nat u" by (simp only: of_nat_eq_iff)
    then have "(2 :: int) ^ N = 256 ^ unat (e_end_offs e1) * 2 ^ nat u" by (simp add: power_add power_mult)
    then show ?thesis using o8 o(1) by (simp add: algebra_simps)
  qed
  have "enc_rel ?e n L R (N + k) (V + uint fl * 2 ^ N)"
    using rel sf e1(4,5) wf V raw o unfolding enc_rel_def dg by (simp add: nk)
  with eq sf(9) show ?thesis by simp
qed

text \<open>Reading raw bits.\<close>

lemma num_byte_from_end:
  assumes "c < length S"
  shows "num S div 256 ^ c mod 256 = uint (S ! (length S - Suc c))"
proof -
  let ?i = "length S - Suc c"
  have S: "S = take ?i S @ [S ! ?i] @ drop (Suc ?i) S" using assms by (simp add: id_take_nth_drop)
  let ?A = "take ?i S" and ?B = "drop (Suc ?i) S"
  have lB: "length ?B = c" using assms by simp
  have "num S = num ((?A @ [S ! ?i]) @ ?B)" using S by simp
  also have "\<dots> = (256 * num ?A + uint (S ! ?i)) * 256 ^ c + num ?B" by (simp only: num_append [of "?A @ [S ! ?i]"] num_snoc lB)
  finally have "num S div 256 ^ c = 256 * num ?A + uint (S ! ?i)"
    using num_bounds [of ?B] unfolding lB by simp
  then show ?thesis using uint_u8_lt [of "S ! ?i"] by simp
qed

lemma raw_at_add: "raw_at S M (j + k) = raw_at S M j + raw_at S (M + j) k * 2 ^ j"
proof -
  define x where "x = num S div 2 ^ M"
  have "x mod (2 ^ j * 2 ^ k) = 2 ^ j * (x div 2 ^ j mod 2 ^ k) + x mod 2 ^ j"
    by (rule zmod_zmult2_eq) simp
  then show ?thesis
    by (simp add: raw_at_def x_def power_add zdiv_zmult2_eq mult.commute add.commute)
qed

lemma raw_at_bounds: "0 \<le> raw_at S M k" "raw_at S M k < 2 ^ k"
  by (simp_all add: raw_at_def)

definition raw_win :: "Decoder \<Rightarrow> bytes \<Rightarrow> nat \<Rightarrow> u32 \<Rightarrow> int \<Rightarrow> bool" where
  "raw_win d S M w a \<longleftrightarrow> 0 \<le> a \<and> a \<le> 32 \<and> uint w = raw_at S M (nat a)
     \<and> (\<exists>c. 8 * int c = int M + a \<and> uint (d_end_offs d) = min (len S) (int c))"

lemma dec_raw_win: "dec_raw d S M = raw_win d S M (d_end_window d) (d_nend_bits d)"
  by (simp add: dec_raw_def raw_win_def)

lemma idx_int: "idx xs (int i) = (if i < length xs then Ok (xs ! i) else Panic)"
  by (simp add: idx_def)

lemma read_byte_from_end_spec:
  assumes "d_buf d = S" "len S = uint (d_storage d)" "uint (d_end_offs d) = min (len S) (int c)"
  shows "\<exists>o'. read_byte_from_end d = Ok (raw_at S (8 * c) 8, d\<lparr>d_end_offs := o'\<rparr>)
    \<and> uint o' = min (len S) (int (Suc c))"
proof (cases "c < length S")
  case True
  then have o: "uint (d_end_offs d) = int c" using assms(3) by simp
  have lt: "d_end_offs d < d_storage d" using True unfolding u32_less o assms(2) [symmetric] by simp
  have "int c + 1 < 4294967296" using True assms(2) u32_lt [of "d_storage d"] by linarith
  then have o1: "uint (d_end_offs d + 1) = int c + 1" by (subst u32_add) (simp_all add: o)
  have "uint (d_storage d - (d_end_offs d + 1)) = len S - (int c + 1)"
    using True by (subst u32_sub) (simp_all add: o1 flip: assms(2))
  also have "\<dots> = int (length S - Suc c)" using True by simp
  finally have st: "uint (d_storage d - (d_end_offs d + 1)) = int (length S - Suc c)" .
  have i: "(idx (d_buf d) (uint (d_storage d - (d_end_offs d + 1))) :: u8 go) = Ok (S ! (length S - Suc c))"
    unfolding st assms(1) idx_int using True by simp
  have "uint (S ! (length S - Suc c)) = raw_at S (8 * c) 8"
    using num_byte_from_end [OF True] by (simp add: raw_at_def power_mult)
  then have "read_byte_from_end d = Ok (raw_at S (8 * c) 8, d\<lparr>d_end_offs := d_end_offs d + 1\<rparr>)"
    unfolding read_byte_from_end_def if_P [OF lt] Let_def using i by simp
  then show ?thesis using True o1 by (intro exI conjI) (assumption, simp)
next
  case False
  then have ge: "\<not> d_end_offs d < d_storage d" unfolding u32_less assms(2) [symmetric] assms(3) by simp
  have "(256 :: int) ^ length S \<le> 256 ^ c" using False by (intro power_increasing) simp_all
  then have "num S < 256 ^ c" using num_bounds(2) [of S] by linarith
  then have "num S div 2 ^ (8 * c) = 0" using num_bounds(1) [of S] by (simp add: power_mult)
  then have r0: "raw_at S (8 * c) 8 = 0" by (simp add: raw_at_def)
  have "read_byte_from_end d = Ok (raw_at S (8 * c) 8, d\<lparr>d_end_offs := d_end_offs d\<rparr>)"
    unfolding read_byte_from_end_def if_not_P [OF ge] r0 by simp
  then show ?thesis using False assms(3) by (intro exI conjI) (assumption, simp)
qed

lemma fill_window_spec:
  assumes "raw_win d S M w a" "d_buf d = S" "len S = uint (d_storage d)" "a \<le> 24"
  shows "\<exists>x w' a'. fill_window d w a = Ok (d\<lparr>d_end_offs := x\<rparr>, w', a') \<and> raw_win (d\<lparr>d_end_offs := x\<rparr>) S M w' a' \<and> 24 < a'"
  using assms
proof (induction d w a rule: fill_window.induct)
  case (1 d w a)
  obtain c where a: "0 \<le> a" and w: "uint w = raw_at S M (nat a)"
    and c: "8 * int c = int M + a" "uint (d_end_offs d) = min (len S) (int c)"
    using 1(2) by (auto simp: raw_win_def)
  obtain x where rd: "read_byte_from_end d = Ok (raw_at S (8 * c) 8, d\<lparr>d_end_offs := x\<rparr>)"
    and x: "uint x = min (len S) (int (Suc c))"
    using read_byte_from_end_spec [OF 1(3,4) c(2)] by blast
  let ?b = "word_of_int (raw_at S (8 * c) 8) :: u32"
  have bb: "0 \<le> raw_at S (8 * c) 8" "raw_at S (8 * c) 8 < 2 ^ 8" by (rule raw_at_bounds)+
  then have ub: "uint ?b = raw_at S (8 * c) 8" by (intro u32_of_int) simp_all
  have "int (8 * c) = int (M + nat a)" using c(1) a by simp
  then have c8: "8 * c = M + nat a" by (simp only: of_nat_eq_iff)
  have na: "nat (a + 8) = nat a + 8" using a by simp
  have wl: "uint w < 2 ^ nat a" unfolding w by (rule raw_at_bounds)
  have bl: "uint ?b < 2 ^ 8" unfolding ub by (rule bb(2))
  have n32: "nat a + 8 \<le> 32" using 1(5) by simp
  let ?w = "w OR push_bit (nat a) ?b"
  have uw: "uint ?w = raw_at S M (nat (a + 8))"
    using u32_or_push(1) [OF wl bl n32] unfolding na raw_at_add [of S M "nat a" 8] w ub unfolding c8 .
  have rw: "raw_win (d\<lparr>d_end_offs := x\<rparr>) S M ?w (a + 8)"
    unfolding raw_win_def using a 1(5) uw x c(1) by (auto intro!: exI [of _ "Suc c"])
  have st: "fill_window d w a = (if a + 8 > 24 then Ok (d\<lparr>d_end_offs := x\<rparr>, ?w, a + 8)
      else fill_window (d\<lparr>d_end_offs := x\<rparr>) ?w (a + 8))"
    using a by (subst fill_window.simps) (simp add: rd shl_def ecSymBits_def ecWindowSize_def Let_def)
  show ?case
  proof (cases "a + 8 > 24")
    case True
    then show ?thesis unfolding st using rw by (intro exI [of _ x] exI [of _ ?w] exI [of _ "a + 8"]) simp
  next
    case False
    have "\<exists>y w' a'. fill_window (d\<lparr>d_end_offs := x\<rparr>) ?w (a + 8) = Ok (d\<lparr>d_end_offs := x\<rparr>\<lparr>d_end_offs := y\<rparr>, w', a')
        \<and> raw_win (d\<lparr>d_end_offs := x\<rparr>\<lparr>d_end_offs := y\<rparr>) S M w' a' \<and> 24 < a'"
      using 1(1) [of "(raw_at S (8 * c) 8, d\<lparr>d_end_offs := x\<rparr>)" "raw_at S (8 * c) 8" "d\<lparr>d_end_offs := x\<rparr>"
          "push_bit (nat a) ?b"] rd a False rw 1(3,4)
      by (simp add: shl_def ecSymBits_def ecWindowSize_def)
    then show ?thesis unfolding st using False by simp
  qed
qed

lemma DecBits_spec:
  assumes rel: "dec_rel d S b L R M" and bits: "uint bits = int k" "k \<le> 25"
  shows "\<exists>x d'. DecBits d bits = Ok (x, d') \<and> uint x = raw_at S M k \<and> dec_rel d' S b L R (M + k)
    \<and> d_error d' = d_error d"
proof -
  have r: "raw_win d S M (d_end_window d) (d_nend_bits d)" "d_buf d = S" "len S = uint (d_storage d)"
    using rel by (simp_all add: dec_rel_def dec_raw_win)
  obtain y w a where w: "(if d_nend_bits d < uint bits then fill_window d (d_end_window d) (d_nend_bits d)
          else Ok (d, d_end_window d, d_nend_bits d)) = Ok (d\<lparr>d_end_offs := y\<rparr>, w, a)"
    "raw_win (d\<lparr>d_end_offs := y\<rparr>) S M w a" "int k \<le> a"
  proof (cases "d_nend_bits d < int k")
    case True
    then have "d_nend_bits d \<le> 24" using bits by linarith
    then obtain y w a where "fill_window d (d_end_window d) (d_nend_bits d) = Ok (d\<lparr>d_end_offs := y\<rparr>, w, a)"
      "raw_win (d\<lparr>d_end_offs := y\<rparr>) S M w a" "24 < a" using fill_window_spec [OF r] by blast
    with True bits that [of y w a] show ?thesis by simp
  next
    case False
    then show ?thesis using that [of "d_end_offs d" "d_end_window d" "d_nend_bits d"] r bits by simp
  qed
  define j where "j = nat a - k"
  have aj: "nat a = k + j" "nat (a - int k) = j" using w(3) by (simp_all add: j_def)
  have ub: "unat bits = k" using bits(1) by (metis nat_int unat_eq_nat_uint)
  have k32: "k < 32" using bits(2) by simp
  have uw: "uint w = raw_at S M k + raw_at S (M + k) j * 2 ^ k"
    using w(2) aj(1) raw_at_add [of S M k j] by (simp add: raw_win_def)
  have msk: "uint (w AND (push_bit k 1 - 1)) = uint w mod 2 ^ k"
  proof -
    have "push_bit k 1 - 1 = (mask k :: u32)" by (simp add: mask_eq_exp_minus_1)
    then have "w AND (push_bit k 1 - 1) = take_bit k w" by (simp add: take_bit_eq_mask)
    moreover have "uint (take_bit k w) = take_bit k (uint w)" by (rule unsigned_take_bit_eq)
    ultimately show ?thesis by (simp only: take_bit_int_def)
  qed
  have x: "uint (w AND (push_bit k 1 - 1)) = raw_at S M k"
    unfolding msk uw using raw_at_bounds [of S M k] by simp
  have dr: "uint (drop_bit k w) = raw_at S (M + k) j"
    unfolding u32_drop uw using raw_at_bounds [of S M k] by simp
  let ?d = "d\<lparr>d_end_offs := y, d_end_window := drop_bit k w, d_nend_bits := a - int k,
      d_nbits_total := d_nbits_total d + int k\<rparr>"
  have eq: "DecBits d bits = Ok (w AND (push_bit k 1 - 1), ?d)"
    unfolding DecBits_def w(1) bnd.simps prod.case Let_def ub by (simp add: bits(1))
  obtain c where c: "0 \<le> a" "a \<le> 32" "8 * int c = int M + a" "uint y = min (len S) (int c)"
    using w(2) by (auto simp: raw_win_def)
  have "raw_win ?d S (M + k) (drop_bit k w) (a - int k)"
    unfolding raw_win_def using c w(3) by (auto simp: dr aj(2) intro!: exI [of _ c])
  then have "dec_raw ?d S (M + k)" by (simp add: dec_raw_win)
  then have "dec_rel ?d S b L R (M + k)" using rel by (simp add: dec_rel_def)
  with eq x show ?thesis by auto
qed

lemma undoes_EncBits:
  assumes fl: "uint fl < 2 ^ k" and bits: "uint bits = int k" "1 \<le> k" "k \<le> 25"
  shows "undoes 25 (\<lambda>e. EncBits e fl bits) (\<lambda>d. DecBits d bits) fl"
proof (rule undoesI)
  fix e n L R N V
  assume rel: "enc_rel e n L R N V" and norm: "8388608 < R" and nb: "e_nbits_total e + int 25 < 4294967296"
  obtain e' where e': "EncBits e fl bits = Ok e'" "enc_rel e' n L R (N + k) (V + uint fl * 2 ^ N)"
    "e_error e' = 0 \<longrightarrow> e_error e = 0" using EncBits_rel [OF rel assms] by blast
  have V: "0 \<le> V" "V < 2 ^ N" using rel by (simp_all add: enc_rel_def)
  have "e_nbits_total e = 33 + 8 * int n + int N" "e_nbits_total e' = 33 + 8 * int n + int (N + k)"
    using rel e'(2) unfolding enc_rel_def by blast+
  then have nt: "e_nbits_total e' \<le> e_nbits_total e + int 25" using bits(3) by simp
  have bk: "inside S n L R N V \<and> (\<forall>d. dec_rel d S (n + 4) L R N \<longrightarrow> (\<exists>d'. DecBits d bits = Ok (fl, d')
      \<and> dec_rel d' S (n + 4) L R (N + k) \<and> d_error d' = d_error d))"
    if ins: "inside S n L R (N + k) (V + uint fl * 2 ^ N)" for S
  proof -
    have m: "num S mod (2 ^ N * 2 ^ k) = V + uint fl * 2 ^ N" using ins by (simp add: inside_def power_add)
    have z: "num S mod (2 ^ N * 2 ^ k) = 2 ^ N * (num S div 2 ^ N mod 2 ^ k) + num S mod 2 ^ N"
      by (rule zmod_zmult2_eq) simp
    define q where "q = num S div 2 ^ N mod 2 ^ k"
    define r where "r = num S mod 2 ^ N"
    have e: "2 ^ N * q + r = V + uint fl * 2 ^ N" using m z by (simp add: q_def r_def)
    have "(2 ^ N * q + r) mod 2 ^ N = (V + uint fl * 2 ^ N) mod 2 ^ N" "(2 ^ N * q + r) div 2 ^ N = (V + uint fl * 2 ^ N) div 2 ^ N"
      by (simp_all only: e)
    moreover have "0 \<le> r" "r < 2 ^ N" by (simp_all add: r_def)
    ultimately have "r = V" "q = uint fl" using V by simp_all
    then have 1: "num S mod 2 ^ N = V" and 2: "raw_at S N k = uint fl" by (simp_all add: r_def q_def raw_at_def)
    have "\<exists>d'. DecBits d bits = Ok (fl, d') \<and> dec_rel d' S (n + 4) L R (N + k) \<and> d_error d' = d_error d"
      if "dec_rel d S (n + 4) L R N" for d
      using DecBits_spec [OF that bits(1,3)] 2 by (auto simp: word_uint_eq_iff)
    with 1 ins show ?thesis by (simp add: inside_def)
  qed
  show "\<exists>e' n' L' R' N' V'. EncBits e fl bits = Ok e' \<and> enc_rel e' n' L' R' N' V' \<and> 8388608 < R'
        \<and> e_nbits_total e' \<le> e_nbits_total e + int 25 \<and> (e_error e' = 0 \<longrightarrow> e_error e = 0)
        \<and> (\<forall>S. inside S n' L' R' N' V' \<longrightarrow> inside S n L R N V
             \<and> (\<forall>d. dec_rel d S (n + 4) L R N \<longrightarrow> (\<exists>d'. DecBits d bits = Ok (fl, d')
                  \<and> dec_rel d' S (n' + 4) L' R' N' \<and> d_error d' = d_error d)))"
    using e' norm nt bk by blast
qed

subsection \<open>Sequences and unsigned integers\<close>

lemma undoes_seq:
  assumes "undoes m1 enc1 dec1 x" "undoes m2 enc2 (dec2 x) y"
  shows "undoes (m1 + m2) (\<lambda>e. bnd (enc1 e) enc2) (\<lambda>d. bnd (dec1 d) (\<lambda>(x, d). dec2 x d)) y"
  unfolding undoes_def
proof (intro allI impI)
  fix e s
  assume st: "enc_st e s" and nb: "e_nbits_total e + int (m1 + m2) < 4294967296"
  then have nb1: "e_nbits_total e + int m1 < 4294967296" by simp
  obtain e1 s1 where e1: "enc1 e = Ok e1" "enc_st e1 s1" "e_nbits_total e1 \<le> e_nbits_total e + int m1"
    "e_error e1 = 0 \<longrightarrow> e_error e = 0" "\<forall>S. ins_st S s1 \<longrightarrow> ins_st S s \<and> (\<forall>d. dec_st d S s \<longrightarrow>
       (\<exists>d'. dec1 d = Ok (x, d') \<and> dec_st d' S s1 \<and> d_error d' = d_error d))"
    by (rule undoesE [OF assms(1) st nb1])
  have nb2: "e_nbits_total e1 + int m2 < 4294967296" using e1(3) nb by simp
  obtain e2 s2 where e2: "enc2 e1 = Ok e2" "enc_st e2 s2" "e_nbits_total e2 \<le> e_nbits_total e1 + int m2"
    "e_error e2 = 0 \<longrightarrow> e_error e1 = 0" "\<forall>S. ins_st S s2 \<longrightarrow> ins_st S s1 \<and> (\<forall>d. dec_st d S s1 \<longrightarrow>
       (\<exists>d'. dec2 x d = Ok (y, d') \<and> dec_st d' S s2 \<and> d_error d' = d_error d))"
    by (rule undoesE [OF assms(2) e1(2) nb2])
  have "ins_st S s \<and> (\<forall>d. dec_st d S s \<longrightarrow>
      (\<exists>d'. bnd (dec1 d) (\<lambda>(x, d). dec2 x d) = Ok (y, d') \<and> dec_st d' S s2 \<and> d_error d' = d_error d))"
    if S: "ins_st S s2" for S
  proof (intro conjI allI impI)
    have S1: "ins_st S s1" using e2(5) S by blast
    then show "ins_st S s" using e1(5) by blast
    fix d assume d: "dec_st d S s"
    obtain d1 where d1: "dec1 d = Ok (x, d1)" "dec_st d1 S s1" "d_error d1 = d_error d"
      using e1(5) S1 d by blast
    obtain d2 where "dec2 x d1 = Ok (y, d2)" "dec_st d2 S s2" "d_error d2 = d_error d1"
      using e2(5) S d1(2) by blast
    with d1 show "\<exists>d'. bnd (dec1 d) (\<lambda>(x, d). dec2 x d) = Ok (y, d') \<and> dec_st d' S s2 \<and> d_error d' = d_error d"
      by simp
  qed
  moreover have "e_nbits_total e2 \<le> e_nbits_total e + int (m1 + m2)" using e1(3) e2(3) by simp
  ultimately show "\<exists>e' s'. bnd (enc1 e) enc2 = Ok e' \<and> enc_st e' s' \<and> e_nbits_total e' \<le> e_nbits_total e + int (m1 + m2)
        \<and> (e_error e' = 0 \<longrightarrow> e_error e = 0)
        \<and> (\<forall>S. ins_st S s' \<longrightarrow> ins_st S s \<and> (\<forall>d. dec_st d S s \<longrightarrow>
              (\<exists>d'. bnd (dec1 d) (\<lambda>(x, d). dec2 x d) = Ok (y, d') \<and> dec_st d' S s' \<and> d_error d' = d_error d)))"
    using e1(1,4) e2(1,2,4) by (intro exI [of _ e2] exI [of _ s2]) simp
qed

lemma undoes_map:
  assumes "undoes m enc dec x" "\<And>d d'. dec d = Ok (x, d') \<Longrightarrow> dec' d = Ok (y, d')"
  shows "undoes m enc dec' y"
  unfolding undoes_def
proof (intro allI impI)
  fix e s
  assume "enc_st e s" "e_nbits_total e + int m < 4294967296"
  from undoesE [OF assms(1) this] show "\<exists>e' s'. enc e = Ok e' \<and> enc_st e' s' \<and> e_nbits_total e' \<le> e_nbits_total e + int m
        \<and> (e_error e' = 0 \<longrightarrow> e_error e = 0)
        \<and> (\<forall>S. ins_st S s' \<longrightarrow> ins_st S s \<and> (\<forall>d. dec_st d S s \<longrightarrow>
              (\<exists>d'. dec' d = Ok (y, d') \<and> dec_st d' S s' \<and> d_error d' = d_error d)))"
    using assms(2) by (smt (verit))
qed

lemma undoes_weaken: "undoes m enc dec x \<Longrightarrow> m \<le> m' \<Longrightarrow> undoes m' enc dec x"
  unfolding undoes_def by (smt (verit) of_nat_le_iff)

lemma bit_length_bounds:
  "0 < n \<Longrightarrow> 2 ^ (bit_length n - 1) \<le> n \<and> n < 2 ^ bit_length n \<and> 1 \<le> bit_length n"
proof (induction n rule: bit_length.induct)
  case (1 n)
  show ?case
  proof (cases "n div 2 = 0")
    case True
    then have "n = 1" using 1(2) by simp
    then show ?thesis by (simp add: bit_length.simps)
  next
    case False
    then obtain b where b: "bit_length (n div 2) = Suc b" "2 ^ b \<le> n div 2" "n div 2 < 2 ^ Suc b"
      using 1 by (cases "bit_length (n div 2)") auto
    have "bit_length n = Suc (Suc b)" using 1(2) b(1) by (subst bit_length.simps) simp
    moreover have "2 ^ Suc b \<le> n" "n < 2 ^ Suc (Suc b)" using b(2,3) by simp_all
    ultimately show ?thesis by simp
  qed
qed

lemma bit_length_le: "n < 2 ^ k \<Longrightarrow> bit_length n \<le> k"
proof (cases "n = 0")
  case False
  assume "n < 2 ^ k"
  moreover have "2 ^ (bit_length n - 1) \<le> n" using bit_length_bounds [of n] False by simp
  ultimately have "(2 :: nat) ^ (bit_length n - 1) < 2 ^ k" by linarith
  then have "bit_length n - 1 < k" by simp
  then show ?thesis by simp
qed (simp add: bit_length.simps)

lemma ecIlog_bounds:
  assumes "0 < uint v"
  shows "1 \<le> ecIlog v" "ecIlog v \<le> 32" "2 ^ nat (ecIlog v - 1) \<le> uint v" "uint v < 2 ^ nat (ecIlog v)"
proof -
  define b where "b = bit_length (unat v)"
  have n: "0 < unat v" using assms by (simp add: unat_gt_0) auto
  have bb: "2 ^ (b - 1) \<le> unat v" "unat v < 2 ^ b" "1 \<le> b" using bit_length_bounds [OF n] by (simp_all add: b_def)
  have il: "ecIlog v = int b" by (simp add: ecIlog_def b_def)
  show "1 \<le> ecIlog v" using bb(3) by (simp add: il)
  have "unat v < 2 ^ 32" using unsigned_less [of v, where 'a = nat] by simp
  then show "ecIlog v \<le> 32" using bit_length_le [of "unat v" 32] by (simp add: il b_def)
  have "int (2 ^ (b - 1)) \<le> int (unat v)" "int (unat v) < int (2 ^ b)" using bb by (simp_all only: of_nat_le_iff of_nat_less_iff)
  moreover have "nat (ecIlog v - 1) = b - 1" "nat (ecIlog v) = b" using bb(3) by (simp_all add: il)
  ultimately show "2 ^ nat (ecIlog v - 1) \<le> uint v" "uint v < 2 ^ nat (ecIlog v)" by simp_all
qed

lemma undoes_Encode_uint:
  assumes "freq_ok fl (fl + 1) ft"
  shows "undoes 24 (\<lambda>e. Encode e fl (fl + 1) ft) (decode_with (\<lambda>s. (s, s, s + 1)) ft) fl"
proof (rule undoes_Encode [OF assms])
  fix s
  assume s: "fl \<le> s" "s < fl + 1"
  have "uint fl < uint (fl + 1)" "uint (fl + 1) \<le> uint ft" "uint ft \<le> 8388608"
    using assms by (simp_all add: freq_ok_def u32_less u32_le)
  then have "uint (fl + 1) = uint fl + 1" by (subst u32_add) simp_all
  then have "s = fl" using s by (simp add: u32_le u32_less word_uint_eq_iff)
  then show "(s, s, s + 1) = (fl, fl, fl + 1)" by simp
qed

lemma u32_split: "push_bit k (drop_bit k x) OR (x AND (push_bit k 1 - 1)) = (x :: u32)"
proof -
  have "push_bit k 1 - 1 = (mask k :: u32)" by (simp add: mask_eq_exp_minus_1)
  then have "x AND (push_bit k 1 - 1) = take_bit k x" by (simp add: take_bit_eq_mask)
  moreover have "push_bit k (drop_bit k x) OR take_bit k x = x" by (rule bit_word_eqI) (auto simp: bit_simps)
  ultimately show ?thesis by simp
qed

lemma undoes_EncUint:
  assumes "fl < ft" "2 \<le> ft"
  shows "undoes 49 (\<lambda>e. EncUint e fl ft) (\<lambda>d. DecUint d ft) fl"
proof -
  let ?m = "ft - 1"
  have f: "uint fl < uint ft" "2 \<le> uint ft" using assms by (simp_all add: u32_less u32_le)
  have m: "uint ?m = uint ft - 1" using f by (subst u32_sub) simp_all
  then have m0: "0 < uint ?m" using f by simp
  note il = ecIlog_bounds [OF m0]
  show ?thesis
  proof (cases "ecIlog ?m > ecUintBits")
    case False
    then have "uint ?m < 2 ^ nat (ecIlog ?m)" "nat (ecIlog ?m) \<le> 8" using il by (simp_all add: ecUintBits_def)
    moreover have "(2 :: int) ^ nat (ecIlog ?m) \<le> 2 ^ 8" using calculation(2) by (intro power_increasing) simp_all
    ultimately have f256: "uint ft \<le> 256" using m by simp
    have ok: "freq_ok fl (fl + 1) ft"
    proof -
      have "uint (fl + 1) = uint fl + 1" using f f256 by (subst u32_add) simp_all
      then show ?thesis using f f256 by (simp add: freq_ok_def u32_less u32_le)
    qed
    have "undoes 24 (\<lambda>e. EncUint e fl ft) (\<lambda>d. DecUint d ft) fl"
    proof (rule undoes_map [where dec = "decode_with (\<lambda>s. (s, s, s + 1)) ft"])
      show "undoes 24 (\<lambda>e. EncUint e fl ft) (decode_with (\<lambda>s. (s, s, s + 1)) ft) fl"
        using undoes_Encode_uint [OF ok] False by (simp add: EncUint_def Let_def)
      show "DecUint d ft = Ok (fl, d')" if "decode_with (\<lambda>s. (s, s, s + 1)) ft d = Ok (fl, d')" for d d'
        using that False by (simp add: DecUint_def decode_with_def Let_def)
    qed
    then show ?thesis by (rule undoes_weaken) simp
  next
    case True
    define k where "k = nat (ecIlog ?m - ecUintBits)"
    have k: "1 \<le> k" "k \<le> 24" "nat (ecIlog ?m) = 8 + k" using True il by (simp_all add: k_def ecUintBits_def nat_diff_distrib)
    let ?ft = "drop_bit k ?m + 1" and ?fl = "drop_bit k fl"
    have "uint ?m < 2 ^ k * 256" using il(4) unfolding k(3) by (simp add: power_add mult.commute)
    then have d256: "uint (drop_bit k ?m) < 256" unfolding u32_drop by (intro div_less_pos) simp_all
    then have uft: "uint ?ft = uint (drop_bit k ?m) + 1" by (subst u32_add) simp_all
    have le: "uint ?fl \<le> uint (drop_bit k ?m)" unfolding u32_drop using f m by (intro zdiv_mono1) simp_all
    then have ufl: "uint (?fl + 1) = uint ?fl + 1" using d256 by (subst u32_add) simp_all
    have ok: "freq_ok ?fl (?fl + 1) ?ft"
      using le d256 unfolding freq_ok_def u32_less u32_le ufl uft by simp
    let ?lo = "fl AND (push_bit k 1 - 1)"
    have lo: "uint ?lo < 2 ^ k"
    proof -
      have "push_bit k 1 - 1 = (mask k :: u32)" by (simp add: mask_eq_exp_minus_1)
      then have "?lo = take_bit k fl" by (simp add: take_bit_eq_mask)
      then have "uint ?lo = take_bit k (uint fl)" by (simp only: unsigned_take_bit_eq)
      then show ?thesis by (simp add: take_bit_eq_mod)
    qed
    have kw: "uint (word_of_nat k :: u32) = int k" using k(2) by (simp add: unsigned_of_nat take_bit_nat_eq_self)
    let ?dec2 = "\<lambda>s d. bnd (DecBits d (word_of_nat k)) (\<lambda>(b, d). let t = push_bit k s OR b in
        if t \<le> ?m then Ok (t, d) else Ok (?m, d\<lparr>d_error := 1\<rparr>))"
    have 2: "undoes 25 (\<lambda>e. EncBits e ?lo (word_of_nat k)) (?dec2 ?fl) fl"
    proof (rule undoes_map [OF undoes_EncBits [OF lo kw k(1)]])
      show "k \<le> 25" using k(2) by simp
      have "fl \<le> ?m" using f m by (simp add: u32_le)
      then show "?dec2 ?fl d = Ok (fl, d')" if "DecBits d (word_of_nat k) = Ok (?lo, d')" for d d'
        using that by (simp add: u32_split [simplified] Let_def)
    qed
    have "undoes (24 + 25) (\<lambda>e. bnd (Encode e ?fl (?fl + 1) ?ft) (\<lambda>e. EncBits e ?lo (word_of_nat k)))
        (\<lambda>d. bnd (decode_with (\<lambda>s. (s, s, s + 1)) ?ft d) (\<lambda>(s, d). ?dec2 s d)) fl"
      using undoes_seq [where ?dec2.0 = ?dec2, OF undoes_Encode_uint [OF ok] 2] .
    moreover have "(\<lambda>e. bnd (Encode e ?fl (?fl + 1) ?ft) (\<lambda>e. EncBits e ?lo (word_of_nat k))) = (\<lambda>e. EncUint e fl ft)"
      using True by (intro ext) (simp add: EncUint_def Let_def k_def)
    moreover have "(\<lambda>d. bnd (decode_with (\<lambda>s. (s, s, s + 1)) ?ft d) (\<lambda>(s, d). ?dec2 s d)) = (\<lambda>d. DecUint d ft)"
    proof
      fix d
      have bb: "bnd (bnd m f) g = bnd m (\<lambda>x. bnd (f x) g)" for m :: "'x go" and f :: "'x \<Rightarrow> 'y go" and g :: "'y \<Rightarrow> 'z go"
        by (cases m) simp_all
      show "bnd (decode_with (\<lambda>s. (s, s, s + 1)) ?ft d) (\<lambda>(s, d). ?dec2 s d) = DecUint d ft"
        using True unfolding DecUint_def decode_with_def Let_def k_def [symmetric]
        by (cases "Decode d ?ft") (auto simp: bb split: prod.splits)
    qed
    ultimately show ?thesis by simp
  qed
qed

end
