(* ===== verification/RC_Done.thy ===== *)
theory RC_Done
  imports RC_Codes
begin

text \<open>
  \<^verbatim>\<open>EncDone\<close>: the bytes it leaves are a stream inside the encoder's exact state, with the raw bits
  at the end, even where the two share a byte.
\<close>

section \<open>The end of the encoder\<close>

text \<open>The value that ends the stream: the multiple of \<open>2 ^ (31 - l)\<close> whose whole block lies in the range.\<close>

lemma u32_mask: "k \<le> 31 \<Longrightarrow> uint (mask k :: u32) = 2 ^ k - 1"
  by (simp only: uint_mask_eq) (simp add: mask_eq_exp_minus_1 min_absorb2)

lemma shr_top: "shr (ecCodeTop - 1) (int l) = Ok (mask (31 - l) :: u32)"
proof -
  have "ecCodeTop - 1 = (mask 31 :: u32)" by (simp add: ecCodeTop_def mask_eq_exp_minus_1)
  moreover have "drop_bit l (mask 31 :: u32) = mask (31 - l)" by (rule bit_word_eqI) (auto simp: bit_simps)
  ultimately show ?thesis by (simp add: shr_def)
qed

lemma and_not_mask: "w AND NOT (mask k) = push_bit k (drop_bit k w)" for w :: u32
  by (rule bit_word_eqI) (auto simp: bit_simps)

lemma align_up:
  fixes v :: int
  assumes "0 < q"
  shows "v \<le> (v + (q - 1)) div q * q" "(v + (q - 1)) div q * q \<le> v + (q - 1)"
proof -
  have e: "(v + (q - 1)) div q * q = v + (q - 1) - (v + (q - 1)) mod q"
    by (simp add: minus_mod_eq_div_mult)
  have "(v + (q - 1)) mod q < q" "0 \<le> (v + (q - 1)) mod q" using assms by simp_all
  with e show "v \<le> (v + (q - 1)) div q * q" "(v + (q - 1)) div q * q \<le> v + (q - 1)" by linarith+
qed

lemma u32_align_up:
  fixes v :: u32
  assumes "k \<le> 31" "uint v + (2 ^ k - 1) < 4294967296"
  shows "uint ((v + mask k) AND NOT (mask k)) = (uint v + (2 ^ k - 1)) div 2 ^ k * 2 ^ k"
    "uint (((v + mask k) AND NOT (mask k)) OR mask k) = (uint v + (2 ^ k - 1)) div 2 ^ k * 2 ^ k + (2 ^ k - 1)"
proof -
  let ?x = "uint v + (2 ^ k - 1)"
  have s: "uint (v + mask k) = ?x" using assms by (subst u32_add) (simp_all add: u32_mask)
  have d: "uint (drop_bit k (v + mask k)) = ?x div 2 ^ k" by (simp add: u32_drop s)
  have "0 \<le> ?x mod 2 ^ k" by simp
  then have le: "?x div 2 ^ k * 2 ^ k \<le> ?x" using minus_mod_eq_div_mult [of ?x "2 ^ k"] by linarith
  have p: "uint (push_bit k (drop_bit k (v + mask k))) = ?x div 2 ^ k * 2 ^ k"
    using le assms(2) by (subst u32_push_small) (simp_all add: d)
  then show "uint ((v + mask k) AND NOT (mask k)) = ?x div 2 ^ k * 2 ^ k" by (simp only: and_not_mask)
  have "uint (mask k :: u32) < 2 ^ k" using assms(1) by (simp add: u32_mask)
  moreover have "?x div 2 ^ k < 2 ^ (32 - k)"
  proof (rule div_less_pos)
    have "(2 :: int) ^ k * 2 ^ (32 - k) = 2 ^ 32" using assms(1) by (simp flip: power_add)
    then show "?x < 2 ^ k * 2 ^ (32 - k)" using assms(2) by simp
  qed simp
  ultimately have "uint (mask k OR push_bit k (drop_bit k (v + mask k))) = uint (mask k :: u32) + ?x div 2 ^ k * 2 ^ k"
    using assms(1) by (subst u32_or_push [of _ k _ "32 - k"]) (simp_all add: d)
  then show "uint (((v + mask k) AND NOT (mask k)) OR mask k) = ?x div 2 ^ k * 2 ^ k + (2 ^ k - 1)"
    using assms(1) by (simp only: and_not_mask or.commute u32_mask)
qed

lemma done_end_spec:
  assumes "8388608 < uint (e_rng e)" "uint (e_rng e) \<le> 2147483648" "uint (e_val e) + uint (e_rng e) < 4294967296"
  shows "\<exists>endv l. done_end e = Ok (endv, int l) \<and> l \<le> 9 \<and> uint (e_val e) \<le> uint endv
    \<and> uint endv + 2 ^ (31 - l) \<le> uint (e_val e) + uint (e_rng e) \<and> 2 ^ (31 - l) dvd uint endv"
proof -
  define R where "R = uint (e_rng e)"
  define v where "v = uint (e_val e)"
  define b where "b = nat (ecIlog (e_rng e))"
  have il: "1 \<le> ecIlog (e_rng e)" "ecIlog (e_rng e) \<le> 32" "2 ^ (b - 1) \<le> R" "R < 2 ^ b"
    using ecIlog_bounds [of "e_rng e"] assms(1) by (simp_all add: b_def R_def nat_diff_distrib)
  have b32: "b \<le> 32" "1 \<le> b" using il by (simp_all add: b_def)
  have b24: "24 \<le> b"
  proof (rule ccontr)
    assume "\<not> 24 \<le> b"
    then have "(2 :: int) ^ b \<le> 2 ^ 23" by (intro power_increasing) simp_all
    with il(4) assms(1) show False by (simp add: R_def)
  qed
  define l where "l = 32 - b"
  have l: "l \<le> 8" "31 - l = b - 1" "ecCodeBits - ecIlog (e_rng e) = int l"
    using b24 b32 il by (simp_all add: l_def b_def ecCodeBits_def)
  have q: "2 ^ (31 - l) \<le> R" "v + R < 4294967296" "0 \<le> v" using il(3) assms(3) by (simp_all add: l(2) R_def v_def)
  have vr: "uint (e_val e + e_rng e) = v + R" using q(2) by (subst u32_add) (simp_all add: R_def v_def)
  let ?fin = "\<lambda>k. (e_val e + mask k) AND NOT (mask k)"
  let ?n = "\<lambda>k. (v + (2 ^ k - 1)) div 2 ^ k * 2 ^ k"
  have al: "v \<le> ?n k" "?n k \<le> v + (2 ^ k - 1)" for k using align_up [of "2 ^ k" v] by simp_all
  have ue: "uint (?fin k) = ?n k" "uint (?fin k OR mask k) = ?n k + (2 ^ k - 1)" if "k \<le> 31 - l" for k
  proof -
    have "(2 :: int) ^ k \<le> 2 ^ (31 - l)" using that by (intro power_increasing) simp_all
    then have "v + (2 ^ k - 1) < 4294967296" using q by linarith
    then show "uint (?fin k) = ?n k" "uint (?fin k OR mask k) = ?n k + (2 ^ k - 1)"
      using u32_align_up [of k "e_val e"] that by (simp_all add: v_def)
  qed
  have sh: "shr (ecCodeTop - 1) (ecCodeBits - ecIlog (e_rng e)) = Ok (mask (31 - l))" by (simp only: l(3) shr_top)
  show ?thesis
  proof (cases "?n (31 - l) + (2 ^ (31 - l) - 1) \<ge> v + R")
    case False
    then have "done_end e = Ok (?fin (31 - l), int l)"
      unfolding done_end_def Let_def l(3) shr_top by (simp add: u32_le ue vr)
    moreover have "uint (?fin (31 - l)) + 2 ^ (31 - l) \<le> v + R" using False ue(1) [of "31 - l"] by simp
    ultimately show ?thesis using l(1) al(1) [of "31 - l"] ue(1) [of "31 - l"] by (simp add: v_def [symmetric] R_def [symmetric])
  next
    case True
    have dm: "drop_bit 1 (mask (31 - l) :: u32) = mask (31 - Suc l)"
      by (rule bit_word_eqI) (auto simp: bit_simps)
    have "done_end e = Ok (?fin (31 - Suc l), int (Suc l))"
      using True unfolding done_end_def Let_def l(3) shr_top bnd.simps dm u32_le vr ue(2) [OF order_refl] by (simp add: add.commute)
    moreover have "(2 :: int) ^ (31 - l) = 2 * 2 ^ (31 - Suc l)"
    proof -
      have "31 - l = Suc (31 - Suc l)" using l(1) by simp
      then show ?thesis by (simp only: power_Suc)
    qed
    then have "uint (?fin (31 - Suc l)) + 2 ^ (31 - Suc l) \<le> v + R"
      using q(1) al(2) [of "31 - Suc l"] ue(1) [of "31 - Suc l"] by simp
    ultimately show ?thesis using l(1) al(1) [of "31 - Suc l"] ue(1) [of "31 - Suc l"]
      by (intro exI [of _ "?fin (31 - Suc l)"] exI [of _ "Suc l"]) (simp add: v_def [symmetric] R_def [symmetric])
  qed
qed

lemma flush_round:
  fixes x :: u32
  assumes wf: "enc_wf e" and full: "e_rem e < 0 \<or> e_rem e = 255 \<Longrightarrow> uint x < 2147483648"
    and ext: "uint (e_ext e) + 1 < 4294967296"
  shows "\<exists>e1. enc_carry_out e (uint (drop_bit ecCodeShift x)) = Ok e1 \<and> enc_wf e1 \<and> same_rest e e1
    \<and> uint (e_ext e1) \<le> uint (e_ext e) + 1
    \<and> (e_error e1 = 0 \<longrightarrow> num (digits_of e1) * 2147483648 + 256 * (uint x mod 8388608)
          = 256 * (num (digits_of e) * 2147483648 + uint x)
        \<and> length (digits_of e1) = length (digits_of e) + 1)"
proof -
  let ?c = "uint x div 8388608"
  have cw: "uint (drop_bit ecCodeShift x) = ?c" unfolding ecCodeShift_def u32_drop by simp
  have c: "0 \<le> ?c" "?c < 512" using u32_lt [of x] by (simp_all add: pos_imp_zdiv_nonneg_iff)
  have f: "?c < 256" if "e_rem e < 0 \<or> e_rem e = 255" using full [OF that] by (intro div_less_pos) simp_all
  obtain e1 where e1: "enc_carry_out e ?c = Ok e1" "enc_wf e1" "same_rest e e1" "uint (e_ext e1) \<le> uint (e_ext e) + 1"
    "e_error e1 = 0 \<longrightarrow> num (digits_of e1) = 256 * num (digits_of e) + ?c
         \<and> length (digits_of e1) = length (digits_of e) + 1"
    using enc_carry_out_digits [OF wf c f ext] by blast
  have "num (digits_of e1) * 2147483648 + 256 * (uint x mod 8388608)
          = 256 * (num (digits_of e) * 2147483648 + uint x)" if "num (digits_of e1) = 256 * num (digits_of e) + ?c"
    using norm_val(2) [of "uint x"] that by simp
  with e1 cw show ?thesis by auto
qed

lemma mask31_push8: "uint (push_bit ecSymBits x AND (ecCodeTop - 1)) = 256 * (uint x mod 8388608)" for x :: u32
  using norm_val(1) [of "uint x"] by (simp add: u32_mask31 u32_push ecSymBits_def mod_mod_cancel)

lemma flush_end_spec:
  assumes wf: "enc_wf e" and full: "e_rem e < 0 \<or> e_rem e = 255 \<Longrightarrow> uint x < 2147483648"
    and ext: "uint (e_ext e) + 2 < 4294967296" and l: "l \<le> 9" and dv: "2 ^ (31 - l) dvd uint x"
    and z: "l = 0 \<Longrightarrow> uint x = 0"
  shows "\<exists>e'. flush_end e x (int l) = Ok (e', int l - 8 * int ((l + 7) div 8)) \<and> enc_wf e' \<and> same_rest e e'
    \<and> uint (e_ext e') \<le> uint (e_ext e) + 2
    \<and> (e_error e' = 0 \<longrightarrow> num (digits_of e') * 2147483648
          = 256 ^ ((l + 7) div 8) * (num (digits_of e) * 2147483648 + uint x)
        \<and> length (digits_of e') = length (digits_of e) + (l + 7) div 8)"
proof (cases "l = 0")
  case True
  then show ?thesis using wf z by (subst flush_end.simps) (simp add: same_rest_refl)
next
  case False
  let ?x1 = "push_bit ecSymBits x AND (ecCodeTop - 1)" and ?s1 = "256 * (uint x mod 8388608)"
  have e0: "uint (e_ext e) + 1 < 4294967296" using ext by linarith
  obtain e1 where e1: "enc_carry_out e (uint (drop_bit ecCodeShift x)) = Ok e1" "enc_wf e1" "same_rest e e1"
    "uint (e_ext e1) \<le> uint (e_ext e) + 1"
    "e_error e1 = 0 \<longrightarrow> num (digits_of e1) * 2147483648 + ?s1
          = 256 * (num (digits_of e) * 2147483648 + uint x)
        \<and> length (digits_of e1) = length (digits_of e) + 1"
    using flush_round [OF wf full e0] by blast
  have f1: "flush_end e x (int l) = flush_end e1 ?x1 (int l - 8)"
    using False e1(1) by (subst flush_end.simps) (simp add: ecSymBits_def)
  show ?thesis
  proof (cases "l \<le> 8")
    case True
    have "(2 :: int) ^ 23 dvd 2 ^ (31 - l)" using True by (intro le_imp_power_dvd) simp
    then have "2 ^ 23 dvd uint x" using dv by (rule dvd_trans)
    then have s0: "?s1 = 0" by simp
    have k: "(l + 7) div 8 = 1" using True False by simp
    have "flush_end e1 ?x1 (int l - 8) = Ok (e1, int l - 8)"
      using True by (subst flush_end.simps) simp
    then show ?thesis using e1 s0 unfolding f1 k by auto
  next
    case False
    then have l9: "l = 9" using l by simp
    then have "2 ^ 22 dvd uint x" using dv by simp
    then obtain q where q: "uint x = 4194304 * q" by auto
    have sd: "?s1 mod 8388608 = 0"
    proof -
      have "uint x mod 8388608 = 4194304 * (q mod 2)" unfolding q using mod_mult_mult1 [of 4194304 q 2] by simp
      then show ?thesis by simp
    qed
    have lt: "uint ?x1 < 2147483648" unfolding mask31_push8 by simp
    have ex1: "uint (e_ext e1) + 1 < 4294967296" using ext e1(4) by linarith
    obtain e2 where e2: "enc_carry_out e1 (uint (drop_bit ecCodeShift ?x1)) = Ok e2" "enc_wf e2" "same_rest e1 e2"
      "uint (e_ext e2) \<le> uint (e_ext e1) + 1"
      "e_error e2 = 0 \<longrightarrow> num (digits_of e2) * 2147483648 + 256 * (uint ?x1 mod 8388608)
          = 256 * (num (digits_of e1) * 2147483648 + uint ?x1)
        \<and> length (digits_of e2) = length (digits_of e1) + 1"
      using flush_round [OF e1(2) lt ex1] by blast
    let ?x2 = "push_bit ecSymBits ?x1 AND (ecCodeTop - 1)"
    have "flush_end e1 ?x1 (int l - 8) = flush_end e2 ?x2 (int l - 16)"
      using l9 e2(1) by (subst flush_end.simps) (simp add: ecSymBits_def)
    also have "\<dots> = Ok (e2, int l - 16)" using l9 by (subst flush_end.simps) simp
    finally have fe: "flush_end e x (int l) = Ok (e2, int l - 8 * int 2)" using f1 by simp
    have k: "(l + 7) div 8 = 2" using l9 by simp
    have "num (digits_of e2) * 2147483648 = 256 ^ 2 * (num (digits_of e) * 2147483648 + uint x)
        \<and> length (digits_of e2) = length (digits_of e) + 2" if err: "e_error e2 = 0"
    proof -
      have "e_error e1 = 0" using e2(3) err by (simp add: same_rest_def)
      then show ?thesis using e1(5) e2(5) err sd unfolding mask31_push8 by simp
    qed
    moreover have "same_rest e e2" by (rule same_rest_trans [OF e1(3) e2(3)])
    moreover have "uint (e_ext e2) \<le> uint (e_ext e) + 2" using e1(4) e2(4) by linarith
    ultimately show ?thesis using fe e2(2) unfolding k by auto
  qed
qed

text \<open>The last carry writes the pending byte and the run of 255s.\<close>

lemma flush_digits:
  assumes wf: "enc_wf e" and ext: "uint (e_ext e) + 1 < 4294967296"
  shows "\<exists>e'. (if e_rem e \<ge> 0 \<or> e_ext e > 0 then enc_carry_out e 0 else Ok e) = Ok e' \<and> enc_wf e' \<and> same_rest e e'
    \<and> (e_error e' = 0 \<longrightarrow> num (front_bytes e') = num (digits_of e) \<and> length (front_bytes e') = length (digits_of e))"
proof (cases "e_rem e \<ge> 0 \<or> e_ext e > 0")
  case False
  then have "e_rem e < 0" "e_ext e = 0" by (simp_all add: word_greater_zero_iff)
  then have "digits_of e = front_bytes e" by (simp add: digits_of_def)
  with False wf show ?thesis by (simp add: same_rest_refl)
next
  case True
  obtain e' where e': "enc_carry_out e 0 = Ok e'" "enc_wf e'" "same_rest e e'" "e_rem e' = 0"
    "e_error e' = 0 \<longrightarrow> num (digits_of e') = 256 * num (digits_of e)
         \<and> length (digits_of e') = length (digits_of e) + 1"
    using enc_carry_out_digits [OF wf _ _ _ ext, of 0] by auto
  have "num (front_bytes e') = num (digits_of e) \<and> length (front_bytes e') = length (digits_of e)" if "e_error e' = 0"
  proof -
    have d: "digits_of e' = front_bytes e' @ 0 # replicate (unat (e_ext e')) 255" using e'(4) by (simp add: digits_of_def)
    have n: "num (digits_of e') = 256 * num (digits_of e)" "length (digits_of e') = length (digits_of e) + 1"
      using e'(5) that by auto
    have x: "unat (e_ext e') = 0"
    proof (cases "unat (e_ext e')")
      case (Suc m)
      then have "digits_of e' = (front_bytes e' @ 0 # replicate m 255) @ [255]"
        unfolding d by (simp add: replicate_append_same)
      then have "num (digits_of e') = 256 * num (front_bytes e' @ 0 # replicate m 255) + 255" by (simp only: num_snoc) simp
      then have False using n(1) by presburger
      then show ?thesis ..
    qed
    then have "digits_of e' = front_bytes e' @ [0]" using d by simp
    with n show ?thesis by simp
  qed
  with True e' show ?thesis by auto
qed

lemma buf_parts:
  assumes "enc_wf e"
  obtains G where "e_buf e = front_bytes e @ G @ tail_bytes e"
    "uint (e_offs e) + len G + uint (e_end_offs e) = uint (e_storage e)"
proof -
  let ?i = "unat (e_offs e)" and ?j = "length (e_buf e) - unat (e_end_offs e)"
  have w: "len (e_buf e) = uint (e_storage e)" "uint (e_offs e) + uint (e_end_offs e) \<le> uint (e_storage e)"
    using assms by (simp_all add: enc_wf_def)
  have "int (?i + unat (e_end_offs e)) \<le> int (length (e_buf e))" using w by simp
  then have le: "?i + unat (e_end_offs e) \<le> length (e_buf e)" by (simp only: of_nat_le_iff)
  have "take ?i (e_buf e) @ take (?j - ?i) (drop ?i (e_buf e)) @ drop ?j (e_buf e) = e_buf e"
  proof -
    have "drop ?j (e_buf e) = drop (?j - ?i) (drop ?i (e_buf e))" using le by simp
    then show ?thesis by (metis append_take_drop_id)
  qed
  then have b: "e_buf e = front_bytes e @ take (?j - ?i) (drop ?i (e_buf e)) @ tail_bytes e"
    by (simp add: front_bytes_def tail_bytes_def)
  have "?i + length (take (?j - ?i) (drop ?i (e_buf e))) + unat (e_end_offs e) = length (e_buf e)" using le by simp
  then have "int (?i + length (take (?j - ?i) (drop ?i (e_buf e))) + unat (e_end_offs e)) = len (e_buf e)" by (simp only:)
  then have "uint (e_offs e) + len (take (?j - ?i) (drop ?i (e_buf e))) + uint (e_end_offs e) = uint (e_storage e)"
    using w(1) by simp
  with b that show ?thesis by blast
qed

lemma clear_gap_spec:
  assumes wf: "enc_wf e" and b: "e_buf e = front_bytes e @ G @ tail_bytes e"
  shows "clear_gap e = Ok (e\<lparr>e_buf := front_bytes e @ replicate (length G) 0 @ tail_bytes e\<rparr>)"
proof (cases "e_buf e = []")
  case True
  then show ?thesis using b by (simp add: clear_gap_def)
next
  case False
  have w: "len (e_buf e) = uint (e_storage e)" using wf by (simp add: enc_wf_def)
  have lf: "uint (e_offs e) = len (front_bytes e)" "uint (e_end_offs e) = len (tail_bytes e)"
    using length_front [OF wf] length_tail [OF wf] by simp_all
  have tot: "uint (e_storage e) = len (front_bytes e) + len G + len (tail_bytes e)"
    using arg_cong [OF b, of len] w by simp
  have sub: "uint (e_storage e - e_end_offs e) = len (front_bytes e) + len G"
    using tot lf by (subst u32_sub) simp_all
  have s: "(slice (e_buf e) (uint (e_offs e)) (uint (e_storage e - e_end_offs e)) :: u8 list go) = Ok G"
  proof -
    have "take (nat (len (front_bytes e) + len G - len (front_bytes e)))
        (drop (nat (len (front_bytes e))) (front_bytes e @ G @ tail_bytes e)) = G" by simp
    moreover have "len (e_buf e) = len (front_bytes e) + len G + len (tail_bytes e)" using tot w by simp
    ultimately show ?thesis unfolding lf(1) sub b [symmetric] by (subst slice_Ok) simp_all
  qed
  have c: "(copy_at (e_buf e) (uint (e_offs e)) (replicate (length G) 0) :: bytes go)
      = Ok (front_bytes e @ replicate (length G) 0 @ tail_bytes e)"
    unfolding lf(1)
  proof (subst copy_at_Ok)
    show "nat (len (front_bytes e)) + length (replicate (length G) (0 :: u8)) \<le> length (e_buf e)"
      using arg_cong [OF b, of length] by simp
    have "take (length (front_bytes e)) (e_buf e) = front_bytes e" by (subst b) simp
    moreover have "drop (length (front_bytes e) + length G) (e_buf e) = tail_bytes e" by (subst b) simp
    ultimately show "Ok (take (nat (len (front_bytes e))) (e_buf e) @ replicate (length G) 0 @
          drop (nat (len (front_bytes e)) + length (replicate (length G) (0 :: u8))) (e_buf e))
        = (Ok (front_bytes e @ replicate (length G) 0 @ tail_bytes e) :: bytes go)" by simp
  qed simp
  show ?thesis using False by (simp add: clear_gap_def s c)
qed

lemma put_last_bits_spec:
  assumes b: "e_buf e = B @ T" "uint (e_end_offs e) = len T" "len (e_buf e) = uint (e_storage e)"
    and sum: "uint (e_offs e) + uint (e_end_offs e) \<le> uint (e_storage e)" and l: "l \<le> 0"
  shows "\<exists>e'. put_last_bits e l w u = Ok e' \<and> length (e_buf e') = length (e_buf e)
    \<and> (e_error e' = 0 \<longrightarrow> e_error e = 0
         \<and> (\<exists>B' c. B = B' @ [c] \<and> e_buf e' = B' @ [c OR ucast w] @ T)
         \<and> (uint (e_offs e) + uint (e_end_offs e) = uint (e_storage e) \<longrightarrow> u \<le> - l))"
proof (cases "e_end_offs e \<ge> e_storage e")
  case True
  then show ?thesis by (simp add: put_last_bits_def)
next
  case False
  then have lt: "uint (e_end_offs e) < uint (e_storage e)" by (simp add: u32_le)
  then have "B \<noteq> []" using b by auto
  then obtain B' c where B: "B = B' @ [c]" by (cases B rule: rev_cases) auto
  have st: "uint (e_storage e) = len B' + 1 + len T" using b(1,3) B by simp
  have i: "uint (e_storage e - e_end_offs e - 1) = int (length B')"
  proof -
    have a: "uint (e_storage e - e_end_offs e) = len B' + 1" using st b(2) by (subst u32_sub) simp_all
    show ?thesis by (subst u32_sub) (simp_all add: a)
  qed
  have s: "uint (e_offs e + e_end_offs e) = uint (e_offs e) + uint (e_end_offs e)"
    using sum u32_lt [of "e_storage e"] by (intro u32_add) linarith
  have le: "e_storage e \<le> e_offs e + e_end_offs e \<longleftrightarrow> uint (e_offs e) + uint (e_end_offs e) = uint (e_storage e)"
    using sum by (auto simp: u32_le s)
  have ix: "(idx (e_buf e) (int (length B')) :: u8 go) = Ok c" using b(1) B by (simp add: idx_def)
  have up: "(upd (e_buf e) (int (length B')) x :: bytes go) = Ok (B' @ [x] @ T)" for x
    using b(1) B by (simp add: upd_def list_update_append)
  let ?bust = "uint (e_offs e) + uint (e_end_offs e) = uint (e_storage e) \<and> - l < u"
  show ?thesis
  proof (cases ?bust)
    case True
    then have "put_last_bits e l w u
        = Ok (e\<lparr>e_error := -1, e_buf := B' @ [c OR ucast (w AND (push_bit (nat (- l)) 1 - 1))] @ T\<rparr>)"
      using False l unfolding put_last_bits_def Let_def le by (simp add: shl_def ix up i)
    then show ?thesis using b(1) B by auto
  next
    case nb: False
    then have "put_last_bits e l w u = Ok (e\<lparr>e_buf := B' @ [c OR ucast w] @ T\<rparr>)"
      using False unfolding put_last_bits_def Let_def le by (auto simp: ix up i)
    then show ?thesis using nb b(1) B by auto
  qed
qed

text \<open>A stream behind the last digits lies in the block of the end value.\<close>

lemma code_in_block:
  assumes m: "k \<le> 2" and d: "pref S (n + k) = D + t" "0 \<le> t" "t < 2 ^ (8 * k - l)" "l \<le> 8 * k"
    and E: "D * 2147483648 = 256 ^ k * E"
  shows "E \<le> code_at S (n + 4)" "code_at S (n + 4) < E + 2 ^ (31 - l)"
proof -
  have nk: "n + k + (4 - k) = n + 4" using m by simp
  obtain r where r: "pref S (n + 4) = (D + t) * 256 ^ (4 - k) + r" "0 \<le> r" "r < 256 ^ (4 - k)"
    using pref_add [of S "n + k" "4 - k"] unfolding nk d(1) by blast
  have pk: "(256 :: int) ^ k * 256 ^ (4 - k) = 4294967296"
    using m by (simp flip: power_add)
  have "k = 0 \<or> k = 1 \<or> k = 2" using m by linarith
  then have D: "D * 256 ^ (4 - k) = 2 * E" using E by auto
  have "(t + 1) * 256 ^ (4 - k) \<le> 2 ^ (8 * k - l) * 256 ^ (4 - k)" using d(3) by (intro mult_right_mono) simp_all
  also have "(2 :: int) ^ (8 * k - l) * 256 ^ (4 - k) = 2 ^ (8 * k - l) * 2 ^ (8 * (4 - k))" by (simp add: power_mult)
  also have "\<dots> = 2 ^ (8 * k - l + 8 * (4 - k))" by (simp only: power_add)
  also have "8 * k - l + 8 * (4 - k) = 32 - l" using m d(4) by simp
  also have "(2 :: int) ^ (32 - l) = 2 * 2 ^ (31 - l)"
  proof -
    have "32 - l = Suc (31 - l)" using m d(4) by simp
    then show ?thesis by (simp only: power_Suc)
  qed
  finally have up: "t * 256 ^ (4 - k) + r < 2 * 2 ^ (31 - l)" using r(3) by (simp add: distrib_right)
  have t0: "0 \<le> t * 256 ^ (4 - k)" using d(2) by simp
  have p: "pref S (n + 4) = 2 * E + (t * 256 ^ (4 - k) + r)" using r(1) D by (simp add: distrib_right)
  show "E \<le> code_at S (n + 4)" unfolding code_at_def p using t0 r(2) by simp
  show "code_at S (n + 4) < E + 2 ^ (31 - l)" unfolding code_at_def p using up t0 r(2) by simp
qed

lemma or_low_bits:
  fixes c :: u8
  assumes "uint w < 2 ^ n" "n \<le> 8" "2 ^ n dvd uint c"
  shows "uint (c OR ucast (w :: u32)) = uint c + uint w"
proof -
  obtain q where q: "uint c = 2 ^ n * q" using assms(3) by (auto elim: dvdE)
  have "(2 :: int) ^ n \<le> 2 ^ 8" using assms(2) by (intro power_increasing) simp_all
  then have "uint w < 256" using assms(1) by simp
  then have "uint (ucast w :: u8) = uint w" by (simp add: unsigned_ucast_eq take_bit_int_eq_self)
  then have "uint (c OR ucast w) = push_bit n q OR uint w" by (simp add: uint_or q push_bit_eq_mult mult.commute)
  also have "\<dots> = uint c + uint w" using int_push_or [OF uint_ge_0 assms(1), of q] q by (simp add: mult.commute)
  finally show ?thesis .
qed

lemma num_mod: "num (xs @ ys) mod 256 ^ length ys = num ys"
  by (simp add: num_append num_bounds mod_pos_pos_trivial)

lemma pref_append: "m \<le> length xs \<Longrightarrow> pref (xs @ ys) m = num (take m xs)"
  by (subst pref_num) simp_all

lemma last_dvd:
  assumes "u \<le> 8" "(2 :: int) ^ u dvd num (xs @ [c])"
  shows "2 ^ u dvd uint c"
proof -
  have "(2 :: int) ^ u dvd 2 ^ 8" using assms(1) by (intro le_imp_power_dvd) simp
  then have "2 ^ u dvd 256 * num xs" by simp
  with assms(2) show ?thesis by (simp add: dvd_add_right_iff)
qed

text \<open>
  The finished stream: the digits, zero bytes, the raw bits.  The partial byte of raw bits may
  share its byte with the last digit, where that has enough zero bits at its low end.
\<close>

lemma finished_stream:
  fixes c :: u8 and w :: u32 and T :: bytes
  assumes B: "F @ replicate g 0 = B' @ [c]" and u: "0 < u" "u < 8" "uint w < 2 ^ u"
    and share: "g = 0 \<longrightarrow> u \<le> z" and z: "2 ^ z dvd num F"
  defines "S \<equiv> B' @ [c OR ucast w] @ T"
  shows "\<exists>t. pref S (length F) = num F + t \<and> 0 \<le> t \<and> t < 2 ^ z"
    and "num S mod 2 ^ (8 * length T + u) = num T + uint w * 256 ^ length T"
proof -
  have c: "2 ^ u dvd uint c"
  proof (cases "g = 0")
    case True
    have "(2 :: int) ^ u dvd 2 ^ z" using share True by (intro le_imp_power_dvd) simp
    then have "2 ^ u dvd num F" using z by (rule dvd_trans)
    then have "2 ^ u dvd num (B' @ [c])" using B True by simp
    then show ?thesis using u(2) by (intro last_dvd) simp_all
  next
    case False
    then obtain g' where "g = Suc g'" using gr0_conv_Suc by auto
    then have "F @ replicate g 0 = (F @ replicate g' 0) @ [0]" by (simp add: replicate_append_same)
    then have "c = 0" using B by simp
    then show ?thesis by simp
  qed
  have or: "uint (c OR ucast w) = uint c + uint w" using u c by (intro or_low_bits) simp_all
  show "\<exists>t. pref S (length F) = num F + t \<and> 0 \<le> t \<and> t < 2 ^ z"
  proof (cases "g = 0")
    case True
    then have F: "F = B' @ [c]" using B by simp
    have "(2 :: int) ^ u \<le> 2 ^ z" using share True by (intro power_increasing) simp_all
    then have "uint w < 2 ^ z" using u(3) by linarith
    moreover have "pref S (length F) = num F + uint w"
      using pref_append [of "length F" "B' @ [c OR ucast w]" T] by (simp add: S_def F or)
    ultimately show ?thesis by (intro exI [of _ "uint w"]) simp
  next
    case False
    have len: "length F + g = Suc (length B')" using arg_cong [OF B, of length] by simp
    then have "take (length F) (F @ replicate g 0) = take (length F) B'" using False B by simp
    then have "take (length F) B' = F" by simp
    then have "pref S (length F) = num F" using False len by (simp add: S_def pref_append)
    then show ?thesis by (intro exI [of _ 0]) simp
  qed
  obtain q where q: "uint c = 2 ^ u * q" using c by (auto elim: dvdE)
  have "(2 :: int) ^ 8 = 2 ^ u * 2 ^ (8 - u)" using u(2) by (simp flip: power_add)
  then have p8: "(256 :: int) = 2 ^ u * 2 ^ (8 - u)" by simp
  have "num (B' @ [c OR ucast w]) = 2 ^ u * (2 ^ (8 - u) * num B' + q) + uint w"
    unfolding num_snoc or q by (subst p8) (simp add: algebra_simps)
  then have "num S = 256 ^ length T * 2 ^ u * (2 ^ (8 - u) * num B' + q) + (num T + uint w * 256 ^ length T)"
    unfolding S_def using num_append [of "B' @ [c OR ucast w]" T] by (simp add: algebra_simps)
  moreover have pw: "(2 :: int) ^ (8 * length T + u) = 256 ^ length T * 2 ^ u" by (simp add: power_add power_mult)
  moreover have "0 \<le> num T + uint w * 256 ^ length T" "num T + uint w * 256 ^ length T < 256 ^ length T * 2 ^ u"
  proof -
    show "0 \<le> num T + uint w * 256 ^ length T" using num_bounds(1) [of T] by simp
    have "(uint w + 1) * 256 ^ length T \<le> 2 ^ u * 256 ^ length T" using u(3) by (intro mult_right_mono) simp_all
    then show "num T + uint w * 256 ^ length T < 256 ^ length T * 2 ^ u"
      using num_bounds(2) [of T] by (simp add: algebra_simps)
  qed
  ultimately show "num S mod 2 ^ (8 * length T + u) = num T + uint w * 256 ^ length T"
    by (simp add: mod_pos_pos_trivial)
qed

text \<open>
  \<^verbatim>\<open>EncDone\<close> returns, and without an error the buffer is a stream inside the encoder's exact state.
\<close>

lemma EncDone_inside:
  assumes rel: "enc_rel e n L R N V" and R: "8388608 < R" and nb: "e_nbits_total e < 4294967280"
  shows "\<exists>e'. EncDone e = Ok e' \<and> length (e_buf e') = length (e_buf e)
    \<and> (e_error e' = 0 \<longrightarrow> e_error e = 0 \<and> inside (e_buf e') n L R N V)"
proof -
  have r: "enc_wf e" "uint (e_rng e) = R" "R \<le> 2147483648" "uint (e_val e) + R < 4294967296"
    "e_rem e < 0 \<or> e_rem e = 255 \<Longrightarrow> uint (e_val e) + R \<le> 2147483648"
    "uint (e_ext e) \<le> int n" "e_nbits_total e = 33 + 8 * int n + int N"
    "0 \<le> e_nend_bits e" "uint (e_end_window e) < 2 ^ nat (e_nend_bits e)"
    using rel by (simp_all add: enc_rel_def)
  have ext: "uint (e_ext e) + 4 < 4294967296" using r(6,7) nb by linarith
  obtain x l where x: "done_end e = Ok (x, int l)" "l \<le> 9" "uint (e_val e) \<le> uint x"
    "uint x + 2 ^ (31 - l) \<le> uint (e_val e) + R" "2 ^ (31 - l) dvd uint x"
    using done_end_spec [of e] r(2-4) R by auto
  define k where "k = (l + 7) div 8"
  have k: "k \<le> 2" "l \<le> 8 * k" "8 * k < l + 8" using x(2) unfolding k_def by linarith+
  have pos: "(0 :: int) < 2 ^ (31 - l)" by simp
  have full: "uint x < 2147483648" if "e_rem e < 0 \<or> e_rem e = 255" using r(5) [OF that] x(4) pos by linarith
  have z: "uint x = 0" if "l = 0"
    using x(4,5) r(4) that zdvd_imp_le [of 2147483648 "uint x"] uint_ge_0 [of x] by fastforce
  have ex2: "uint (e_ext e) + 2 < 4294967296" using ext by linarith
  obtain e1 where e1: "flush_end e x (int l) = Ok (e1, int l - 8 * int k)" "enc_wf e1" "same_rest e e1"
    "uint (e_ext e1) \<le> uint (e_ext e) + 2"
    "e_error e1 = 0 \<longrightarrow> num (digits_of e1) * 2147483648 = 256 ^ k * (num (digits_of e) * 2147483648 + uint x)
        \<and> length (digits_of e1) = length (digits_of e) + k"
    using flush_end_spec [OF r(1) full ex2 x(2,5) z] unfolding k_def by blast
  have ex1: "uint (e_ext e1) + 1 < 4294967296" using ext e1(4) by linarith
  obtain e2 where e2: "(if e_rem e1 \<ge> 0 \<or> e_ext e1 > 0 then enc_carry_out e1 0 else Ok e1) = Ok e2"
    "enc_wf e2" "same_rest e1 e2"
    "e_error e2 = 0 \<longrightarrow> num (front_bytes e2) = num (digits_of e1) \<and> length (front_bytes e2) = length (digits_of e1)"
    using flush_digits [OF e1(2) ex1] by blast
  have s2: "same_rest e e2" by (rule same_rest_trans [OF e1(3) e2(3)])
  then have w2: "e_end_window e2 = e_end_window e" "e_nend_bits e2 = e_nend_bits e" "e_end_offs e2 = e_end_offs e"
    "tail_bytes e2 = tail_bytes e" "e_storage e2 = e_storage e" by (simp_all add: same_rest_def)
  obtain e3 w u where e3: "flush_bits e2 (e_end_window e2) (e_nend_bits e2) = Ok (e3, w, u)" "enc_wf e3" "same_front e2 e3"
    "0 \<le> u" "u < 8" "uint w < 2 ^ nat u"
    "e_error e3 = 0 \<longrightarrow> 8 * uint (e_end_offs e3) + u = 8 * uint (e_end_offs e2) + e_nend_bits e2
        \<and> num (tail_bytes e3) + uint w * 256 ^ unat (e_end_offs e3)
          = num (tail_bytes e2) + uint (e_end_window e2) * 256 ^ unat (e_end_offs e2)"
    using flush_bits_spec [OF e2(2), of "e_nend_bits e2" "e_end_window e2"] r(8,9) w2 by auto
  have bl: "length (e_buf e3) = length (e_buf e)"
  proof -
    have "len (e_buf e3) = len (e_buf e)"
      using e3(2,3) r(1) w2(5) by (simp add: enc_wf_def same_front_def)
    then show ?thesis by simp
  qed
  have done1: "EncDone e = (if e_error e3 = 0 then
       bnd (clear_gap e3) (\<lambda>e. if u > 0 then put_last_bits e (int l - 8 * int k) w u else Ok e)
     else Ok e3)"
    by (simp add: EncDone_def x(1) e1(1) e2(1) e3(1))
  show ?thesis
  proof (cases "e_error e3 = 0")
    case False
    then show ?thesis unfolding done1 using bl by simp
  next
    case err3: True
    then have err2: "e_error e2 = 0" using e3(3) by (simp add: same_front_def)
    then have err1: "e_error e1 = 0" using e2(3) by (simp add: same_rest_def)
    then have err: "e_error e = 0" using e1(3) by (simp add: same_rest_def)
    have ex: "length (digits_of e) = n" "L = num (digits_of e) * 2147483648 + uint (e_val e)"
      "int N = 8 * uint (e_end_offs e) + e_nend_bits e"
      "V = num (tail_bytes e) + uint (e_end_window e) * 256 ^ unat (e_end_offs e)"
      using rel err by (simp_all add: enc_rel_def)
    define F where "F = front_bytes e3"
    define T where "T = tail_bytes e3"
    define E where "E = num (digits_of e) * 2147483648 + uint x"
    have F: "num F * 2147483648 = 256 ^ k * E" "length F = n + k"
    proof -
      have "F = front_bytes e2" using e3(3) by (simp add: F_def same_front_def)
      then show "num F * 2147483648 = 256 ^ k * E" "length F = n + k"
        using e2(4) e1(5) err1 err2 ex(1) by (simp_all add: E_def)
    qed
    have LE: "L \<le> E" "E + 2 ^ (31 - l) \<le> L + R" using x(3,4) by (simp_all add: ex(2) E_def)
    have T: "len T = uint (e_end_offs e3)" "length T = unat (e_end_offs e3)" using length_tail [OF e3(2)] by (simp_all add: T_def)
    have N: "N = 8 * length T + nat u" "V = num T + uint w * 256 ^ length T"
    proof -
      have "int N = int (8 * length T + nat u)" using ex(3) e3(4,7) err3 w2 T(1) by simp
      then show "N = 8 * length T + nat u" by (simp only: of_nat_eq_iff)
      show "V = num T + uint w * 256 ^ length T" using ex(4) e3(7) err3 w2 T(2) by (simp add: T_def)
    qed
    have zd: "2 ^ (8 * k - l) dvd num F"
    proof -
      have "2 ^ (31 - l) dvd num (digits_of e) * 2147483648"
        using le_imp_power_dvd [of "31 - l" 31 "2 :: int"] by (simp add: dvd_mult)
      then have "2 ^ (31 - l) dvd E" using x(5) by (simp add: E_def)
      then have "256 ^ k * 2 ^ (31 - l) dvd num F * 2147483648" unfolding F(1) by (intro mult_dvd_mono) simp_all
      moreover have "(256 :: int) ^ k * 2 ^ (31 - l) = 2 ^ (8 * k - l) * 2147483648"
      proof -
        have "(256 :: int) ^ k * 2 ^ (31 - l) = 2 ^ (8 * k) * 2 ^ (31 - l)" by (simp add: power_mult)
        also have "\<dots> = 2 ^ (8 * k + (31 - l))" by (simp only: power_add)
        also have "8 * k + (31 - l) = 8 * k - l + 31" using k(2) x(2) by simp
        finally show ?thesis by (simp add: power_add)
      qed
      ultimately show ?thesis by simp
    qed
    obtain G where G: "e_buf e3 = F @ G @ T" "uint (e_offs e3) + len G + uint (e_end_offs e3) = uint (e_storage e3)"
      using buf_parts [OF e3(2)] unfolding F_def T_def by blast
    let ?g = "length G"
    let ?e4 = "e3\<lparr>e_buf := F @ replicate ?g 0 @ T\<rparr>"
    have cg: "clear_gap e3 = Ok ?e4" using clear_gap_spec [OF e3(2)] G(1) by (simp add: F_def T_def)
    have fin: "inside S n L R N V" if "pref S (length F) = num F + t" "0 \<le> t" "t < 2 ^ (8 * k - l)"
      "num S mod 2 ^ N = V" for S t
      using code_in_block [OF k(1) that(1) [unfolded F(2)] that(2,3) k(2) F(1)] LE that(4)
      by (simp add: inside_def)
    show ?thesis
    proof (cases "u > 0")
      case False
      then have u0: "u = 0" using e3(4) by simp
      then have "uint w = 0" using e3(6) uint_ge_0 [of w] by (simp only: nat_0 power_0)
      then have "w = 0" by (simp add: word_uint_eq_iff)
      have "pref (e_buf ?e4) (length F) = num F + 0" by (simp add: pref_append)
      moreover have "num (e_buf ?e4) mod 2 ^ N = V"
        using num_mod [of "F @ replicate ?g 0" T] N u0 \<open>w = 0\<close> by (simp add: power_mult)
      ultimately have "inside (e_buf ?e4) n L R N V" by (intro fin [where t = 0]) simp_all
      then show ?thesis unfolding done1 using err3 cg u0 err bl G(1) by simp
    next
      case True
      have b4: "e_buf ?e4 = (F @ replicate ?g 0) @ T" "uint (e_end_offs ?e4) = len T"
        "len (e_buf ?e4) = uint (e_storage ?e4)" "uint (e_offs ?e4) + uint (e_end_offs ?e4) \<le> uint (e_storage ?e4)"
        "int l - 8 * int k \<le> 0"
        using e3(2) T G(1) k(2) by (simp_all add: enc_wf_def)
      obtain e5 where e5: "put_last_bits ?e4 (int l - 8 * int k) w u = Ok e5" "length (e_buf e5) = length (e_buf ?e4)"
        "e_error e5 = 0 \<longrightarrow> e_error ?e4 = 0
         \<and> (\<exists>B' c. F @ replicate ?g 0 = B' @ [c] \<and> e_buf e5 = B' @ [c OR ucast w] @ T)
         \<and> (uint (e_offs ?e4) + uint (e_end_offs ?e4) = uint (e_storage ?e4) \<longrightarrow> u \<le> - (int l - 8 * int k))"
        using put_last_bits_spec [OF b4] by blast
      have "inside (e_buf e5) n L R N V" if err5: "e_error e5 = 0"
      proof -
        obtain B' c where B: "F @ replicate ?g 0 = B' @ [c]" "e_buf e5 = B' @ [c OR ucast w] @ T"
          using e5(3) err5 by blast
        have un: "0 < nat u" "nat u < 8" using True e3(5) by simp_all
        have sh: "?g = 0 \<longrightarrow> nat u \<le> 8 * k - l"
        proof
          assume "?g = 0"
          then have "uint (e_offs ?e4) + uint (e_end_offs ?e4) = uint (e_storage ?e4)" using G(2) by simp
          then have "u \<le> 8 * int k - int l" using e5(3) err5 by simp
          then show "nat u \<le> 8 * k - l" using k(2) by simp
        qed
        obtain t where "pref (e_buf e5) (length F) = num F + t" "0 \<le> t" "t < 2 ^ (8 * k - l)"
          using finished_stream(1) [OF B(1) un e3(6) sh zd] B(2) by auto
        moreover have "num (e_buf e5) mod 2 ^ N = V"
          using finished_stream(2) [OF B(1) un e3(6) sh zd] B(2) N by simp
        ultimately show ?thesis by (rule fin)
      qed
      then show ?thesis unfolding done1 using err3 True cg e5(1,2) err bl G(1) by simp
    qed
  qed
qed

end
