(* ===== verification/RC_Session.thy ===== *)
theory RC_Session
  imports RC_Done
begin

text \<open>
  Whole sessions: \<^verbatim>\<open>Init\<close>, any protocol of calls, \<^verbatim>\<open>Done\<close>; and back.  The contract of a pair of calls is
  the locale \<open>code\<close>, interpreted on the calls of the library.
\<close>

section \<open>Sessions\<close>

lemma enc_Init_rel:
  assumes "len buf < 4294967296"
  shows "enc_rel (Enc_Init buf) 0 0 2147483648 0 0"
proof -
  have "uint (word_of_nat (length buf) :: u32) = len buf"
    using assms by (simp add: unsigned_of_nat take_bit_nat_eq_self)
  then show ?thesis
    by (simp add: enc_rel_def enc_wf_def Enc_Init_def digits_of_def front_bytes_def tail_bytes_def ec_consts)
qed

lemma code_at_4: "0 \<le> code_at S 4" "code_at S 4 < 2147483648"
proof -
  obtain t where "pref S (0 + 4) = pref S 0 * 256 ^ 4 + t" "0 \<le> t" "t < 256 ^ 4" using pref_add by blast
  then show "0 \<le> code_at S 4" "code_at S 4 < 2147483648" by (simp_all add: code_at_def)
qed

lemma Dec_Init_rel:
  assumes "len S < 4294967296"
  shows "\<exists>d. Dec_Init d0 S = Ok d \<and> dec_rel d S 4 0 2147483648 0 \<and> d_error d = 0"
proof -
  have st: "uint (word_of_nat (length S) :: u32) = len S"
    using assms by (simp add: unsigned_of_nat take_bit_nat_eq_self)
  let ?d = "\<lparr>d_buf = S, d_storage = word_of_nat (length S), d_end_offs = 0, d_end_window = 0,
         d_nend_bits = 0, d_nbits_total = 9, d_offs = 0, d_rng = 128, d_val = d_val d0, d_ext = d_ext d0,
         d_rem = d_rem d0, d_error = d_error d0\<rparr>"
  obtain o' where o': "read_byte ?d = Ok (byte_at S 0, ?d\<lparr>d_offs := o'\<rparr>)" "uint o' = min (len S) (int (Suc 0))"
    using read_byte_spec [of ?d S 0] st by auto
  let ?d1 = "?d\<lparr>d_offs := o', d_rem := byte_at S 0, d_val := 127 - word_of_int (byte_at S 0 div 2), d_error := 0\<rparr>"
  have b: "0 \<le> byte_at S 0" "byte_at S 0 < 256" by (rule byte_at_range)+
  have w: "uint (word_of_int (byte_at S 0 div 2) :: u32) = byte_at S 0 div 2" using b by (intro u32_of_int) simp_all
  have v: "uint (127 - word_of_int (byte_at S 0 div 2) :: u32) = 127 - byte_at S 0 div 2"
    using b by (subst u32_sub) (simp_all add: w)
  have r1: "dec_rel ?d1 S 1 0 128 0"
    using o'(2) b by (simp add: dec_rel_def st v code_at_def dec_raw_def raw_at_def)
  have dr: "drop_bit (ecSymBits - ecCodeExtra) x = x div 2" for x :: int by (simp add: ec_consts drop_bit_eq_div)
  have i: "Dec_Init d0 S = dec_normalize ?d1"
  proof -
    have "ecCodeBits + 1 - ((ecCodeBits - int ecCodeExtra) sdiv int ecSymBits) * int ecSymBits = 9"
      by (simp add: ec_consts signed_divide_int_def)
    moreover have "push_bit ecCodeExtra 1 = (128 :: u32)" by (simp add: ec_consts)
    ultimately show ?thesis unfolding Dec_Init_def Let_def by (simp only: o' bnd.simps prod.case dr) simp
  qed
  have "rounds 128 = 3" by (simp add: rounds_def)
  then obtain d where "dec_normalize_loop 4 ?d1 = Ok d" "dec_rel d S 4 0 2147483648 0" "d_error d = 0"
    using dec_normalize_loop_rel [OF r1, of 4] code_at_4 [of S] by auto
  with i show ?thesis by (simp add: dec_normalize_def)
qed

text \<open>A protocol gives the next call from the values coded so far; both sides run it.\<close>

fun write_all :: "('sh \<Rightarrow> 'v \<Rightarrow> Encoder \<Rightarrow> Encoder go) \<Rightarrow> ('v list \<Rightarrow> 'sh) \<Rightarrow> 'v list \<Rightarrow> 'v list \<Rightarrow> Encoder \<Rightarrow> Encoder go" where
  "write_all enc proto past [] e = Ok e"
| "write_all enc proto past (v # vs) e = bnd (enc (proto past) v e) (write_all enc proto (past @ [v]) vs)"

fun read_all :: "('sh \<Rightarrow> Decoder \<Rightarrow> ('v \<times> Decoder) go) \<Rightarrow> ('v list \<Rightarrow> 'sh) \<Rightarrow> 'v list \<Rightarrow> nat \<Rightarrow> Decoder \<Rightarrow> ('v list \<times> Decoder) go" where
  "read_all dec proto past 0 d = Ok ([], d)"
| "read_all dec proto past (Suc n) d = bnd (dec (proto past) d) (\<lambda>(v, d).
     bnd (read_all dec proto (past @ [v]) n d) (\<lambda>(vs, d). Ok (v # vs, d)))"

fun all_ok :: "('sh \<Rightarrow> 'v \<Rightarrow> bool) \<Rightarrow> ('v list \<Rightarrow> 'sh) \<Rightarrow> 'v list \<Rightarrow> 'v list \<Rightarrow> bool" where
  "all_ok ok proto past [] = True"
| "all_ok ok proto past (v # vs) = (ok (proto past) v \<and> all_ok ok proto (past @ [v]) vs)"

lemma undoes_Nil: "undoes 0 Ok (\<lambda>d. Ok ([], d)) []"
  unfolding undoes_def by (intro allI impI) (rule exI, rule exI, auto)

text \<open>
  A code: a family of encoder calls with the decoder calls that undo them.  What the client needs
  is that a whole session, from \<^verbatim>\<open>Init\<close> to \<^verbatim>\<open>Done\<close>, comes back.
\<close>

locale code =
  fixes enc :: "'sh \<Rightarrow> 'v \<Rightarrow> Encoder \<Rightarrow> Encoder go"
    and dec :: "'sh \<Rightarrow> Decoder \<Rightarrow> ('v \<times> Decoder) go"
    and ok :: "'sh \<Rightarrow> 'v \<Rightarrow> bool"
    and m :: nat
  assumes undo: "ok sh v \<Longrightarrow> undoes m (enc sh v) (dec sh) v"
begin

lemma all_undo:
  assumes "all_ok ok proto past vs"
  shows "undoes (m * length vs) (write_all enc proto past vs) (read_all dec proto past (length vs)) vs"
  using assms
proof (induction vs arbitrary: past)
  case Nil
  have "write_all enc proto past [] = Ok" "read_all dec proto past (length []) = (\<lambda>d. Ok ([], d))" by (rule ext, simp)+
  then show ?case using undoes_Nil by simp
next
  case (Cons v vs)
  then have "undoes m (enc (proto past) v) (dec (proto past)) v" by (simp add: undo)
  moreover have "undoes (m * length vs) (write_all enc proto (past @ [v]) vs) (\<lambda>d. bnd (read_all dec proto (past @ [v]) (length vs) d)
      (\<lambda>(vs, d). Ok (v # vs, d))) (v # vs)"
    using Cons by (intro undoes_map [OF Cons.IH]) simp_all
  ultimately have "undoes (m + m * length vs) (\<lambda>e. bnd (enc (proto past) v e) (write_all enc proto (past @ [v]) vs))
      (\<lambda>d. bnd (dec (proto past) d) (\<lambda>(v, d). bnd (read_all dec proto (past @ [v]) (length vs) d)
         (\<lambda>(vs, d). Ok (v # vs, d)))) (v # vs)"
    by (rule undoes_seq [where ?dec2.0 = "\<lambda>v d. bnd (read_all dec proto (past @ [v]) (length vs) d) (\<lambda>(vs, d). Ok (v # vs, d))"])
  then show ?case by simp
qed

lemma session:
  assumes ok: "all_ok ok proto [] vs" and buf: "len buf < 4294967296" and short: "m * length vs < 4294967200"
  shows "\<exists>e e'. write_all enc proto [] vs (Enc_Init buf) = Ok e \<and> EncDone e = Ok e'
    \<and> (e_error e' = 0 \<longrightarrow> (\<exists>d d'. Dec_Init d0 (e_buf e') = Ok d
         \<and> read_all dec proto [] (length vs) d = Ok (vs, d')
         \<and> d_error d' = 0 \<and> d_rng d' = e_rng e \<and> Dec_Tell d' = Enc_Tell e))"
proof -
  let ?e = "Enc_Init buf" and ?s = "(0 :: nat, 0 :: int, 2147483648 :: int, 0 :: nat, 0 :: int)"
  have st: "enc_st ?e ?s" using enc_Init_rel [OF buf] by simp
  have "int (m * length vs) < int 4294967200" using short by (simp only: of_nat_less_iff)
  then have sh: "int m * len vs < 4294967200" by simp
  have nb: "e_nbits_total ?e + int (m * length vs) < 4294967296"
    using sh by (simp add: Enc_Init_def ec_consts)
  obtain e s' where e: "write_all enc proto [] vs ?e = Ok e" "enc_st e s'"
    "e_nbits_total e \<le> e_nbits_total ?e + int (m * length vs)"
    "\<forall>S. ins_st S s' \<longrightarrow> ins_st S ?s \<and> (\<forall>d. dec_st d S ?s \<longrightarrow>
       (\<exists>d'. read_all dec proto [] (length vs) d = Ok (vs, d') \<and> dec_st d' S s' \<and> d_error d' = d_error d))"
    by (rule undoesE [OF all_undo [OF ok] st nb])
  obtain n L R N V where s': "s' = (n, L, R, N, V)" by (cases s')
  have rel: "enc_rel e n L R N V" "8388608 < R" using e(2) s' by simp_all
  have "e_nbits_total e < 4294967280" using e(3) sh by (simp add: Enc_Init_def ec_consts)
  from EncDone_inside [OF rel this] obtain e' where e': "EncDone e = Ok e'" "length (e_buf e') = length (e_buf e)"
    "e_error e' = 0 \<longrightarrow> inside (e_buf e') n L R N V" by blast
  have "\<exists>d d'. Dec_Init d0 (e_buf e') = Ok d \<and> read_all dec proto [] (length vs) d = Ok (vs, d')
         \<and> d_error d' = 0 \<and> d_rng d' = e_rng e \<and> Dec_Tell d' = Enc_Tell e" if err: "e_error e' = 0"
  proof -
    have "len (e_buf e) < 4294967296" using rel(1) u32_lt [of "e_storage e"] by (simp add: enc_rel_def enc_wf_def)
    then have "len (e_buf e') < 4294967296" using e'(2) by simp
    then obtain d where d: "Dec_Init d0 (e_buf e') = Ok d" "dec_rel d (e_buf e') 4 0 2147483648 0" "d_error d = 0"
      using Dec_Init_rel by blast
    have "ins_st (e_buf e') s'" using e'(3) err s' by simp
    then obtain d' where d': "read_all dec proto [] (length vs) d = Ok (vs, d')" "dec_st d' (e_buf e') s'"
      "d_error d' = d_error d" using e(4) d(2) by force
    have "d_rng d' = e_rng e \<and> d_nbits_total d' = e_nbits_total e"
      using d'(2) rel(1) s' by (simp add: dec_rel_def enc_rel_def word_uint_eq_iff)
    then show ?thesis using d d' by (intro exI [of _ d] exI [of _ d']) (simp add: Dec_Tell_def Enc_Tell_def)
  qed
  then show ?thesis using e(1) e'(1) by blast
qed

end

subsection \<open>The codes of the library\<close>

text \<open>
  A call with its parameters, as both sides know them: a bit of probability \<open>1 / 2 ^ logp\<close>, a
  symbol of an inverse cumulative table, an integer below \<open>ft\<close>, raw bits, and a symbol of a
  frequency model (the slot of a symbol and the search for the symbol of a frequency) whose total
  is \<open>ft\<close>, or \<open>2 ^ bits\<close> (\<^verbatim>\<open>EncodeBin\<close>, \<^verbatim>\<open>DecodeBin\<close>).
\<close>

datatype call =
    Bit_Call u32
  | Icdf_Call bytes u32
  | Uint_Call u32
  | Raw_Call u32
  | Freq_Call "int \<Rightarrow> u32 \<times> u32" "u32 \<Rightarrow> int \<times> u32 \<times> u32" u32
  | Bin_Call "int \<Rightarrow> u32 \<times> u32" "u32 \<Rightarrow> int \<times> u32 \<times> u32" u32

fun put_call :: "call \<Rightarrow> int \<Rightarrow> Encoder \<Rightarrow> Encoder go" where
  "put_call (Bit_Call logp) v e = EncBitLogp e v logp"
| "put_call (Icdf_Call icdf ftb) v e = EncIcdf e v icdf ftb"
| "put_call (Uint_Call ft) v e = EncUint e (word_of_int v) ft"
| "put_call (Raw_Call bits) v e = EncBits e (word_of_int v) bits"
| "put_call (Freq_Call slot lookup ft) v e = Encode e (fst (slot v)) (snd (slot v)) ft"
| "put_call (Bin_Call slot lookup bits) v e = EncodeBin e (fst (slot v)) (snd (slot v)) bits"

fun get_call :: "call \<Rightarrow> Decoder \<Rightarrow> (int \<times> Decoder) go" where
  "get_call (Bit_Call logp) d = DecBitLogp d logp"
| "get_call (Icdf_Call icdf ftb) d = DecIcdf d icdf ftb"
| "get_call (Uint_Call ft) d = bnd (DecUint d ft) (\<lambda>(x, d). Ok (uint x, d))"
| "get_call (Raw_Call bits) d = bnd (DecBits d bits) (\<lambda>(x, d). Ok (uint x, d))"
| "get_call (Freq_Call slot lookup ft) d = decode_with lookup ft d"
| "get_call (Bin_Call slot lookup bits) d = bnd (DecodeBin d bits) (\<lambda>(s, d).
     case lookup s of (v, fl, fh) \<Rightarrow> bnd (DecUpdate d fl fh (push_bit (unat bits) 1)) (\<lambda>d. Ok (v, d)))"

definition slot_decodes :: "(int \<Rightarrow> u32 \<times> u32) \<Rightarrow> (u32 \<Rightarrow> int \<times> u32 \<times> u32) \<Rightarrow> u32 \<Rightarrow> int \<Rightarrow> bool" where
  "slot_decodes slot lookup ft v = (case slot v of (fl, fh) \<Rightarrow> freq_ok fl fh ft
     \<and> list_all (\<lambda>s. lookup (word_of_nat s) = (v, fl, fh)) [unat fl..<unat fh])"

fun call_ok :: "call \<Rightarrow> int \<Rightarrow> bool" where
  "call_ok (Bit_Call logp) v = (1 \<le> logp \<and> logp \<le> 23 \<and> (v = 0 \<or> v = 1))"
| "call_ok (Icdf_Call icdf ftb) v = icdf_ok icdf ftb v"
| "call_ok (Uint_Call ft) v = (2 \<le> ft \<and> 0 \<le> v \<and> v < uint ft)"
| "call_ok (Raw_Call bits) v = (1 \<le> bits \<and> bits \<le> 25 \<and> 0 \<le> v \<and> v < 2 ^ unat bits)"
| "call_ok (Freq_Call slot lookup ft) v = slot_decodes slot lookup ft v"
| "call_ok (Bin_Call slot lookup bits) v = (bits \<le> 23 \<and> slot_decodes slot lookup (push_bit (unat bits) 1) v)"

lemma undoes_uint: "undoes m enc dec x \<Longrightarrow> undoes m enc (\<lambda>d. bnd (dec d) (\<lambda>(x, d). Ok (uint x, d))) (uint x)"
  by (erule undoes_map) simp

lemma u32_uint_of_int: "0 \<le> v \<Longrightarrow> v < uint a \<Longrightarrow> uint (word_of_int v :: u32) = v" for a :: u32
  using u32_lt [of a] by (intro u32_of_int) simp_all

text \<open>A power-of-two model is the frequency model of that total.\<close>

lemma Bin_Call_Freq:
  assumes "bits < 32"
  shows "put_call (Bin_Call slot lookup bits) = put_call (Freq_Call slot lookup (push_bit (unat bits) 1))"
    "get_call (Bin_Call slot lookup bits) = get_call (Freq_Call slot lookup (push_bit (unat bits) 1))"
  by (rule ext, simp add: EncodeBin_Encode [OF assms] DecodeBin_Decode [OF assms] decode_with_def)+

lemma freq_undo:
  assumes "slot_decodes slot lookup ft v"
  shows "undoes 49 (put_call (Freq_Call slot lookup ft) v) (get_call (Freq_Call slot lookup ft)) v"
proof -
  obtain fl fh where sl: "slot v = (fl, fh)" by (cases "slot v")
  have a: "freq_ok fl fh ft" "list_all (\<lambda>s. lookup (word_of_nat s) = (v, fl, fh)) [unat fl..<unat fh]"
    using assms sl by (simp_all add: slot_decodes_def)
  have lk: "lookup s = (v, fl, fh)" if "fl \<le> s" "s < fh" for s
  proof -
    have "unat s \<in> set [unat fl..<unat fh]" using that by (simp add: word_le_nat_alt word_less_nat_alt)
    then have "lookup (word_of_nat (unat s)) = (v, fl, fh)" using a(2) unfolding list_all_iff by blast
    then show ?thesis by simp
  qed
  have "put_call (Freq_Call slot lookup ft) v = (\<lambda>e. Encode e fl fh ft)"
    "get_call (Freq_Call slot lookup ft) = decode_with lookup ft"
    using sl by (auto intro!: ext)
  then show ?thesis using undoes_Encode [OF a(1), of lookup v] lk by (auto intro: undoes_weaken)
qed

lemma bits_lt_32: "bits \<le> k \<Longrightarrow> k < 32 \<Longrightarrow> bits < 32" for bits :: u32
  by (rule le_less_trans)

lemma call_undo:
  assumes "call_ok sh v"
  shows "undoes 49 (put_call sh v) (get_call sh) v"
proof (cases sh)
  case (Bit_Call logp)
  have "put_call sh v = (\<lambda>e. EncBitLogp e v logp)" "get_call sh = (\<lambda>d. DecBitLogp d logp)"
    using Bit_Call by (auto intro!: ext)
  moreover have "undoes 24 (\<lambda>e. EncBitLogp e v logp) (\<lambda>d. DecBitLogp d logp) v"
    using undoes_EncBitLogp [of logp v] assms Bit_Call by auto
  ultimately show ?thesis by (auto intro: undoes_weaken)
next
  case (Icdf_Call icdf ftb)
  have "put_call sh v = (\<lambda>e. EncIcdf e v icdf ftb)" "get_call sh = (\<lambda>d. DecIcdf d icdf ftb)"
    using Icdf_Call by (auto intro!: ext)
  then show ?thesis using undoes_EncIcdf [of icdf ftb v] assms Icdf_Call by (auto intro: undoes_weaken)
next
  case (Uint_Call ft)
  have a: "2 \<le> ft" "0 \<le> v" "v < uint ft" using assms Uint_Call by simp_all
  have v: "uint (word_of_int v :: u32) = v" using a(2,3) by (rule u32_uint_of_int)
  then have "word_of_int v < ft" using a(3) by (simp only: u32_less)
  from undoes_uint [OF undoes_EncUint [OF this a(1)]]
  have "undoes 49 (\<lambda>e. EncUint e (word_of_int v) ft) (\<lambda>d. bnd (DecUint d ft) (\<lambda>(x, d). Ok (uint x, d))) v"
    unfolding v .
  moreover have "put_call sh v = (\<lambda>e. EncUint e (word_of_int v) ft)"
    "get_call sh = (\<lambda>d. bnd (DecUint d ft) (\<lambda>(x, d). Ok (uint x, d)))" using Uint_Call by (auto intro!: ext)
  ultimately show ?thesis by simp
next
  case (Raw_Call bits)
  have a: "1 \<le> unat bits" "unat bits \<le> 25" "0 \<le> v" "v < 2 ^ unat bits"
    using assms Raw_Call by (simp_all add: word_le_nat_alt)
  have "(2 :: int) ^ unat bits \<le> 2 ^ 25" using a(2) by (intro power_increasing) simp_all
  then have v: "uint (word_of_int v :: u32) = v" using a(3,4) by (intro u32_of_int) simp_all
  have u: "uint bits = int (unat bits)" by simp
  have lt: "uint (word_of_int v :: u32) < 2 ^ unat bits" using a(4) v by simp
  from undoes_uint [OF undoes_EncBits [OF lt u a(1,2)]]
  have "undoes 25 (\<lambda>e. EncBits e (word_of_int v) bits) (\<lambda>d. bnd (DecBits d bits) (\<lambda>(x, d). Ok (uint x, d))) v"
    unfolding v .
  moreover have "put_call sh v = (\<lambda>e. EncBits e (word_of_int v) bits)"
    "get_call sh = (\<lambda>d. bnd (DecBits d bits) (\<lambda>(x, d). Ok (uint x, d)))" using Raw_Call by (auto intro!: ext)
  ultimately show ?thesis by (auto intro: undoes_weaken)
next
  case (Freq_Call slot lookup ft)
  then show ?thesis using freq_undo assms by simp
next
  case (Bin_Call slot lookup bits)
  then have b: "bits < 32" and sl: "slot_decodes slot lookup (push_bit (unat bits) 1) v"
    using assms by (auto intro: bits_lt_32)
  show ?thesis unfolding Bin_Call Bin_Call_Freq [OF b] by (rule freq_undo [OF sl])
qed

interpretation calls: code put_call get_call call_ok 49
  by unfold_locales (rule call_undo)

text \<open>C1: A range coder session: any sequence of symbols of the six kinds of call (a bit, an inverse
  cumulative table, a uniform integer, raw bits, a frequency model, a power-of-two frequency model),
  where the kind and the parameters of a call may depend on the values coded before, is written from
  \<^verbatim>\<open>Init\<close> to \<^verbatim>\<open>Done\<close> without a panic.  If the encoder reports no error, the decoder reads back exactly
  the values that were written, reports no error, and ends with the range and the \<^verbatim>\<open>Tell\<close> the encoder
  had.  \<^verbatim>\<open>EncPatchInitialBits\<close> and \<^verbatim>\<open>EncShrink\<close>, which rewrite what is already written, are not
  symbol calls and are not part of a session.\<close>

theorem session_roundtrip:
  assumes "all_ok call_ok proto [] vs" "len buf < 4294967296" "49 * length vs < 4294967200"
  shows "\<exists>e e'. write_all put_call proto [] vs (Enc_Init buf) = Ok e \<and> EncDone e = Ok e'
    \<and> (e_error e' = 0 \<longrightarrow> (\<exists>d d'. Dec_Init d0 (e_buf e') = Ok d
         \<and> read_all get_call proto [] (length vs) d = Ok (vs, d')
         \<and> d_error d' = 0 \<and> d_rng d' = e_rng e \<and> Dec_Tell d' = Enc_Tell e))"
  using assms by (rule calls.session)

definition third :: "int \<Rightarrow> u32 \<times> u32" where
  "third v = (if v = 0 then (0, 5) else if v = 1 then (5, 12) else (12, 16))"

definition third_of :: "u32 \<Rightarrow> int \<times> u32 \<times> u32" where
  "third_of s = (if s < 5 then (0, 0, 5) else if s < 12 then (1, 5, 12) else (2, 12, 16))"

definition demo_proto :: "int list \<Rightarrow> call" where
  "demo_proto past = (if past = [] then Uint_Call 1000 else if past = [777] then Icdf_Call [200, 100, 0] 8
     else if length past = 2 then Raw_Call 5 else if length past = 3 then Bin_Call third third_of 4 else Bit_Call 3)"

definition zero_dec :: Decoder where
  "zero_dec = \<lparr>d_buf = [], d_storage = 0, d_end_offs = 0, d_end_window = 0, d_nend_bits = 0, d_nbits_total = 0,
     d_offs = 0, d_rng = 0, d_val = 0, d_ext = 0, d_rem = 0, d_error = 0\<rparr>"

lemma session_roundtrip_witness:
  "\<exists>e e'. write_all put_call demo_proto [] [777, 1, 19, 1, 1] (Enc_Init (replicate 8 0)) = Ok e \<and> EncDone e = Ok e'
    \<and> (e_error e' = 0 \<longrightarrow> (\<exists>d d'. Dec_Init zero_dec (e_buf e') = Ok d
         \<and> read_all get_call demo_proto [] (length [777, 1, 19, 1, 1 :: int]) d = Ok ([777, 1, 19, 1, 1], d')
         \<and> d_error d' = 0 \<and> d_rng d' = e_rng e \<and> Dec_Tell d' = Enc_Tell e))"
  by (rule session_roundtrip) (simp_all add: demo_proto_def icdf_ok_def slot_decodes_def third_def third_of_def freq_ok_def upt_conv_Cons)

end
