(* ===== verification/RC_Safety.thy ===== *)
theory RC_Safety
  imports RC_Session
begin

text \<open>
  Totality of the range coder: the decoder on arbitrary bytes, the encoder's renormalisation loop,
  and the agreement of the shift variants with the general calls.
\<close>

text \<open>The decoder stands somewhere in the stream \<open>S\<close>, with a normalised range that holds \<open>val\<close>.\<close>

definition dec_wf :: "bytes \<Rightarrow> Decoder \<Rightarrow> bool" where
  "dec_wf S d \<longleftrightarrow> (\<exists>b L R M. dec_rel d S b L R M \<and> 8388608 < R)"

lemma dec_wf_range:
  assumes "dec_wf S d"
  shows "8388608 < uint (d_rng d)" "uint (d_rng d) \<le> 2147483648" "uint (d_val d) < uint (d_rng d)"
  using assms by (auto simp: dec_wf_def dec_rel_def)

lemma code_at_window:
  assumes "L \<le> code_at S b" "code_at S b < L + R"
  shows "256 ^ k * L \<le> code_at S (b + k)" "code_at S (b + k) < 256 ^ k * (L + R)"
proof -
  define c where "c = code_at S (b + k)"
  have d: "c div 256 ^ k = code_at S b" unfolding c_def by (rule code_at_div)
  have "256 ^ k * L \<le> 256 ^ k * (c div 256 ^ k)" using assms(1) by (simp add: d)
  also have "\<dots> \<le> c" by (rule mult_div_le) simp
  finally show "256 ^ k * L \<le> code_at S (b + k)" by (simp add: c_def)
  have "c mod 256 ^ k < 256 ^ k" by simp
  then have "c < 256 ^ k * (c div 256 ^ k) + 256 ^ k" using mult_div_mod_eq [of "256 ^ k" c] by linarith
  also have "\<dots> = 256 ^ k * (c div 256 ^ k + 1)" by (simp add: algebra_simps)
  also have "\<dots> \<le> 256 ^ k * (L + R)" using assms(2) by (intro mult_left_mono) (simp_all add: d)
  finally show "code_at S (b + k) < 256 ^ k * (L + R)" by (simp add: c_def)
qed

lemma decode_step:
  assumes wf: "dec_wf S d" and ab: "uint a \<le> uint (d_val d)" "uint (d_val d) < uint b" "uint b \<le> uint (d_rng d)"
  shows "\<exists>d'. dec_normalize (dnarrowed (d\<lparr>d_ext := y\<rparr>) a b) = Ok d' \<and> dec_wf S d'"
proof -
  obtain n L R M where d: "dec_rel d S n L R M" "8388608 < R" using wf by (auto simp: dec_wf_def)
  then have e: "dec_rel (d\<lparr>d_ext := y\<rparr>) S n L R M" by (simp add: dec_rel_def)
  have R: "uint (d_rng d) = R" "uint (d_val d) = L + R - 1 - code_at S n" using d(1) by (simp_all add: dec_rel_def)
  let ?L = "L + R - uint b" and ?R = "uint b - uint a"
  have lt: "uint a < uint b" using ab(1,2) by linarith
  have c: "?L \<le> code_at S n" "code_at S n < L + R - uint a" using ab R by linarith+
  have rel: "dec_rel (dnarrowed (d\<lparr>d_ext := y\<rparr>) a b) S n ?L ?R M"
    using dnarrowed_rel [OF e lt _ c] ab(3) R(1) by simp
  have "code_at S n < ?L + ?R" using c by simp
  note w = code_at_window [OF c(1) this, of "rounds ?R"]
  have "rounds ?R < 4" using rounds_le [of ?R] by linarith
  from dec_normalize_loop_rel [OF rel this w]
  obtain d' where "dec_normalize_loop 4 (dnarrowed (d\<lparr>d_ext := y\<rparr>) a b) = Ok d'"
    "dec_rel d' S (n + rounds ?R) (256 ^ rounds ?R * ?L) (256 ^ rounds ?R * ?R) M" by blast
  moreover have "8388608 < 256 ^ rounds ?R * ?R" using lt by (intro rounds_normal) simp
  ultimately show ?thesis by (auto simp: dec_normalize_def dec_wf_def)
qed

lemma DecBitLogp_total:
  assumes wf: "dec_wf S d"
  shows "\<exists>v d'. DecBitLogp d logp = Ok (v, d') \<and> (v = 0 \<or> v = 1) \<and> dec_wf S d'"
proof -
  note r = dec_wf_range [OF wf]
  let ?s = "drop_bit (unat logp) (d_rng d)"
  have "(1 :: int) \<le> 2 ^ unat logp" by simp
  then have "uint (d_rng d) div 2 ^ unat logp \<le> uint (d_rng d) div 1" by (intro zdiv_mono2) simp_all
  then have s: "uint ?s \<le> uint (d_rng d)" by (simp add: u32_drop)
  show ?thesis
  proof (cases "d_val d < ?s")
    case True
    have "DecBitLogp d logp = bnd (dec_normalize (dnarrowed (d\<lparr>d_ext := d_ext d\<rparr>) 0 ?s)) (\<lambda>d. Ok (1, d))"
      using True by (simp add: DecBitLogp_def dnarrowed_def Let_def)
    then show ?thesis using decode_step [OF wf, of 0 ?s "d_ext d"] True s by (auto simp: u32_less)
  next
    case False
    have "DecBitLogp d logp = bnd (dec_normalize (dnarrowed (d\<lparr>d_ext := d_ext d\<rparr>) ?s (d_rng d))) (\<lambda>d. Ok (0, d))"
      using False by (simp add: DecBitLogp_def dnarrowed_def Let_def)
    then show ?thesis using decode_step [OF wf, of ?s "d_rng d" "d_ext d"] False r by (auto simp: u32_less)
  qed
qed

text \<open>A table whose search ends: every entry is a frequency below the total, the last is 0.\<close>

definition icdf_table :: "bytes \<Rightarrow> u32 \<Rightarrow> bool" where
  "icdf_table icdf ftb \<longleftrightarrow> icdf \<noteq> [] \<and> last icdf = 0 \<and> list_all (\<lambda>f. uint f < 2 ^ unat ftb) icdf"

lemma DecIcdf_total:
  assumes wf: "dec_wf S d" and t: "icdf_table icdf ftb"
  shows "\<exists>v d'. DecIcdf d icdf ftb = Ok (v, d') \<and> 0 \<le> v \<and> v < len icdf \<and> dec_wf S d'"
proof -
  note r = dec_wf_range [OF wf]
  define n where "n = unat ftb"
  let ?lo = "\<lambda>k. icdf_lo icdf n k (d_rng d)"
  define i where "i = (LEAST k. k < length icdf \<and> ?lo k \<le> d_val d)"
  have "icdf ! (length icdf - 1) = 0" "icdf \<noteq> []" using t by (auto simp: icdf_table_def last_conv_nth)
  then have "length icdf - 1 < length icdf \<and> ?lo (length icdf - 1) \<le> d_val d" by (simp add: icdf_lo_def)
  then have i: "i < length icdf" "?lo i \<le> d_val d" unfolding i_def by (metis (mono_tags, lifting) LeastI)+
  have pre: "d_val d < ?lo k" if "k < i" for k
  proof -
    have "\<not> (k < length icdf \<and> ?lo k \<le> d_val d)" using that unfolding i_def by (rule not_less_Least)
    then show ?thesis using that i(1) by simp
  qed
  let ?hi = "icdf_hi icdf n i (d_rng d)"
  have hi: "d_val d < ?hi" "uint ?hi \<le> uint (d_rng d)"
  proof -
    show "d_val d < ?hi" using pre [of "i - 1"] r(3) by (simp add: icdf_hi_def u32_less)
    have "uint (icdf ! k) < 2 ^ n" if "k < length icdf" for k
      using t that by (simp add: icdf_table_def list_all_length n_def)
    then show "uint ?hi \<le> uint (d_rng d)"
      using uint_icdf_lo [OF r(2), of icdf "i - 1" n] i(1) by (simp add: icdf_hi_def)
  qed
  have "icdf_search icdf (drop_bit n (d_rng d)) (d_val d) (d_rng d) (-1) = Ok (int i, ?lo i, ?hi)"
    using icdf_search_finds [OF pre i(2,1), of 0 "d_rng d"] by (simp add: icdf_hi_def)
  then have "DecIcdf d icdf ftb = bnd (dec_normalize (dnarrowed (d\<lparr>d_ext := d_ext d\<rparr>) (?lo i) ?hi)) (\<lambda>d. Ok (int i, d))"
    by (simp add: DecIcdf_def dnarrowed_def Let_def flip: n_def)
  then show ?thesis using decode_step [OF wf, of "?lo i" ?hi "d_ext d"] i hi by (auto simp: u32_less u32_le)
qed

lemma DecBits_total:
  assumes wf: "dec_wf S d" and bits: "bits \<le> 25"
  shows "\<exists>x d'. DecBits d bits = Ok (x, d') \<and> uint x < 2 ^ unat bits \<and> dec_wf S d'"
proof -
  obtain b L R M where d: "dec_rel d S b L R M" "8388608 < R" using wf by (auto simp: dec_wf_def)
  have "unat bits \<le> 25" using bits by (simp add: word_le_nat_alt)
  with DecBits_spec [OF d(1), of bits "unat bits"]
  obtain x d' where "DecBits d bits = Ok (x, d')" "uint x = raw_at S M (unat bits)" "dec_rel d' S b L R (M + unat bits)"
    by auto
  then show ?thesis using d(2) raw_at_bounds by (auto simp: dec_wf_def)
qed

text \<open>Whatever the stream, \<^verbatim>\<open>Decode\<close> returns a frequency, and the slot around it holds \<open>val\<close>.\<close>

lemma Decode_total:
  assumes wf: "dec_wf S d" and ft: "0 < ft" "ft \<le> 8388608"
  shows "\<exists>s. Decode d ft = Ok (s, d\<lparr>d_ext := d_rng d div ft\<rparr>) \<and> s < ft
    \<and> (\<forall>fl fh. fl \<le> s \<longrightarrow> s < fh \<longrightarrow> fh \<le> ft \<longrightarrow> (\<exists>d'. DecUpdate (d\<lparr>d_ext := d_rng d div ft\<rparr>) fl fh ft = Ok d' \<and> dec_wf S d'))"
proof -
  note r = dec_wf_range [OF wf]
  define q where "q = uint (d_rng d) div uint ft"
  define v where "v = uint (d_val d)"
  have f: "0 < uint ft" "uint ft \<le> 8388608" using ft by (simp_all add: u32_less u32_le)
  have all: "freq_ok 0 ft ft" using ft by (simp add: freq_ok_def)
  note s = uint_slot [OF all r(1,2), folded q_def]
  have q: "1 \<le> q" "q * uint ft \<le> uint (d_rng d)" using s(2,3) [of 0] by simp_all
  have uq: "uint (d_rng d div ft) = q" by (simp add: q_def u32_div)
  then have e0: "d_rng d div ft \<noteq> 0" "ft \<noteq> 0" using q(1) f by auto
  define t where "t = v div q"
  have tv: "uint (d_val d div (d_rng d div ft)) = t" by (simp only: t_def v_def u32_div [of "d_val d"] uq)
  have v0: "0 \<le> v" "v < uint (d_rng d)" using r(3) by (simp_all add: v_def)
  have tq: "q * t \<le> v" "v < q * (t + 1)"
  proof -
    show "q * t \<le> v" unfolding t_def using q(1) by (intro mult_div_le) simp
    have "v mod q < q" using q(1) by simp
    then show "v < q * (t + 1)" unfolding t_def using mult_div_mod_eq [of q v] unfolding distrib_left by linarith
  qed
  have t0: "0 \<le> t" unfolding t_def using v0 q(1) by (simp add: pos_imp_zdiv_nonneg_iff)
  have tb: "t < 2147483648"
  proof -
    have "1 * t \<le> q * t" using q(1) t0 by (intro mult_right_mono) simp_all
    then show ?thesis using tq(1) v0 r(2) by linarith
  qed
  let ?s = "d_val d div (d_rng d div ft)"
  have s1: "uint (?s + 1) = t + 1" using tb by (subst u32_add) (simp_all add: tv)
  have mn: "uint (min (?s + 1) ft) = min (t + 1) (uint ft)" by (simp add: min_def u32_le s1)
  have res: "uint (ft - min (?s + 1) ft) = uint ft - min (t + 1) (uint ft)"
    by (subst u32_sub) (simp_all add: mn)
  let ?x = "ft - min (?s + 1) ft"
  have dc: "Decode d ft = Ok (?x, d\<lparr>d_ext := d_rng d div ft\<rparr>)"
    using e0 by (simp add: Decode_def celtUdiv_def)
  have lt: "?x < ft" unfolding u32_less res using f t0 by simp
  have up: "\<exists>d'. DecUpdate (d\<lparr>d_ext := d_rng d div ft\<rparr>) fl fh ft = Ok d' \<and> dec_wf S d'"
    if b: "fl \<le> ?x" "?x < fh" "fh \<le> ft" for fl fh
  proof -
    have fb: "uint fl \<le> uint ft - min (t + 1) (uint ft)" "uint ft - min (t + 1) (uint ft) < uint fh" "uint fh \<le> uint ft"
      using b unfolding u32_le u32_less res by simp_all
    have fl: "uint fl \<le> uint ft" using fb f t0 by linarith
    have ok: "freq_ok fl fh ft" using fb(1,2) b(3) ft by (simp add: freq_ok_def u32_less)
    have "q * (uint ft - uint fh) \<le> q * t" using fb q(1) by (intro mult_left_mono) (simp_all add: min_def split: if_splits)
    then have lo: "uint (slot_lo fh ft (d_rng d)) \<le> v"
      using s(1) [of fh] fb(3) tq(1) by (simp add: slot_lo_def)
    have hi: "v < uint (slot_hi fl ft (d_rng d))"
    proof (cases "0 < fl")
      case True
      then have "0 < uint fl" by (simp add: u32_less)
      then have "t + 1 \<le> uint ft - uint fl" using fb by (simp add: min_def split: if_splits)
      then have "q * (t + 1) \<le> q * (uint ft - uint fl)" using q(1) by (intro mult_left_mono) simp_all
      then show ?thesis using s(1) [of fl] fl tq(2) True by (simp add: slot_hi_def)
    next
      case False
      then show ?thesis using v0 by (simp add: slot_hi_def)
    qed
    show ?thesis unfolding DecUpdate_narrowed
      by (rule decode_step [OF wf]) (use lo hi slot_bounds(2) [OF ok r(1,2)] in \<open>simp_all add: v_def\<close>)
  qed
  show ?thesis using dc lt up by blast
qed

lemma u32_succ: "s < ft \<Longrightarrow> s < s + 1 \<and> s + 1 \<le> ft" for s ft :: u32
proof -
  assume "s < ft"
  then have "uint s < uint ft" by (simp only: u32_less)
  moreover from this have "uint (s + 1) = uint s + 1" using u32_lt [of ft] by (subst u32_add) simp_all
  ultimately show ?thesis unfolding u32_less u32_le by simp
qed

lemma dec_wf_error: "dec_wf S (d\<lparr>d_error := x\<rparr>) = dec_wf S d"
  by (simp add: dec_wf_def dec_rel_def)

text \<open>A decoded frequency, taken as the symbol of width one.\<close>

lemma Decode_unit:
  assumes "dec_wf S d" "0 < ft" "ft \<le> 8388608"
  shows "\<exists>s d' d''. Decode d ft = Ok (s, d') \<and> s < ft \<and> DecUpdate d' s (s + 1) ft = Ok d'' \<and> dec_wf S d''"
  using Decode_total [OF assms] u32_succ by (metis order_refl)

lemma DecUint_total:
  assumes wf: "dec_wf S d" and ft: "2 \<le> ft"
  shows "\<exists>x d'. DecUint d ft = Ok (x, d') \<and> x < ft \<and> dec_wf S d'"
proof -
  let ?m = "ft - 1"
  have f: "2 \<le> uint ft" using ft by (simp add: u32_le)
  have m: "uint ?m = uint ft - 1" using f by (subst u32_sub) simp_all
  then have m0: "0 < uint ?m" using f by simp
  have mf: "?m < ft" using m by (simp add: u32_less)
  note il = ecIlog_bounds [OF m0]
  show ?thesis
  proof (cases "ecIlog ?m > ecUintBits")
    case False
    then have "uint ?m < 2 ^ nat (ecIlog ?m)" "nat (ecIlog ?m) \<le> 8" using il by (simp_all add: ecUintBits_def)
    moreover have "(2 :: int) ^ nat (ecIlog ?m) \<le> 2 ^ 8" using calculation(2) by (intro power_increasing) simp_all
    ultimately have "0 < ft" "ft \<le> 8388608" using m f by (simp_all add: u32_less u32_le)
    from Decode_unit [OF wf this] obtain s d' d'' where "Decode d ft = Ok (s, d')" "s < ft"
      "DecUpdate d' s (s + 1) ft = Ok d''" "dec_wf S d''" by blast
    with False show ?thesis by (simp add: DecUint_def Let_def)
  next
    case True
    define k where "k = nat (ecIlog ?m - ecUintBits)"
    have k: "k \<le> 24" "nat (ecIlog ?m) = 8 + k" using True il by (simp_all add: k_def ecUintBits_def nat_diff_distrib)
    let ?ft = "drop_bit k ?m + 1"
    have "uint ?m < 2 ^ k * 256" using il(4) unfolding k(2) by (simp add: power_add mult.commute)
    then have d256: "uint (drop_bit k ?m) < 256" unfolding u32_drop by (intro div_less_pos) simp_all
    then have uft: "uint ?ft = uint (drop_bit k ?m) + 1" by (subst u32_add) simp_all
    have "0 < ?ft" "?ft \<le> 8388608" using d256 unfolding u32_less u32_le uft by simp_all
    from Decode_unit [OF wf this] obtain s d1 d2 where s: "Decode d ?ft = Ok (s, d1)"
      "DecUpdate d1 s (s + 1) ?ft = Ok d2" "dec_wf S d2" by blast
    have "(word_of_nat k :: u32) \<le> 25" using k(1) by (simp add: word_le_nat_alt unsigned_of_nat take_bit_nat_eq_self)
    from DecBits_total [OF s(3) this] obtain b d3 where b: "DecBits d2 (word_of_nat k) = Ok (b, d3)" "dec_wf S d3" by blast
    have "DecUint d ft = (if push_bit k s OR b \<le> ?m then Ok (push_bit k s OR b, d3) else Ok (?m, d3\<lparr>d_error := 1\<rparr>))"
      using True s b unfolding DecUint_def Let_def k_def [symmetric] by simp
    then show ?thesis using b(2) mf by (auto simp: dec_wf_error split: if_splits)
  qed
qed

text \<open>Which parameters a decoder call accepts, and which values it may return.\<close>

definition lookup_total :: "(u32 \<Rightarrow> int \<times> u32 \<times> u32) \<Rightarrow> u32 \<Rightarrow> bool" where
  "lookup_total lookup ft \<longleftrightarrow> 0 < ft \<and> ft \<le> 8388608
     \<and> list_all (\<lambda>n. case lookup (word_of_nat n) of (v, fl, fh) \<Rightarrow> fl \<le> word_of_nat n \<and> word_of_nat n < fh \<and> fh \<le> ft) [0..<unat ft]"

fun readable :: "call \<Rightarrow> bool" where
  "readable (Bit_Call logp) = True"
| "readable (Icdf_Call icdf ftb) = icdf_table icdf ftb"
| "readable (Uint_Call ft) = (2 \<le> ft)"
| "readable (Raw_Call bits) = (bits \<le> 25)"
| "readable (Freq_Call slot lookup ft) = lookup_total lookup ft"
| "readable (Bin_Call slot lookup bits) = (bits \<le> 23 \<and> lookup_total lookup (push_bit (unat bits) 1))"

fun in_range :: "call \<Rightarrow> int \<Rightarrow> bool" where
  "in_range (Bit_Call logp) v = (v = 0 \<or> v = 1)"
| "in_range (Icdf_Call icdf ftb) v = (0 \<le> v \<and> v < len icdf)"
| "in_range (Uint_Call ft) v = (0 \<le> v \<and> v < uint ft)"
| "in_range (Raw_Call bits) v = (0 \<le> v \<and> v < 2 ^ unat bits)"
| "in_range (Freq_Call slot lookup ft) v = list_ex (\<lambda>n. fst (lookup (word_of_nat n)) = v) [0..<unat ft]"
| "in_range (Bin_Call slot lookup bits) v =
     list_ex (\<lambda>n. fst (lookup (word_of_nat n)) = v) [0..<unat (push_bit (unat bits) 1 :: u32)]"

lemma freq_total:
  assumes wf: "dec_wf S d" and sh: "lookup_total lookup ft"
  shows "\<exists>v d'. get_call (Freq_Call slot lookup ft) d = Ok (v, d') \<and> in_range (Freq_Call slot lookup ft) v \<and> dec_wf S d'"
proof -
  have ft: "0 < ft" "ft \<le> 8388608" using sh by (simp_all add: lookup_total_def)
  obtain s where s: "Decode d ft = Ok (s, d\<lparr>d_ext := d_rng d div ft\<rparr>)" "s < ft"
    "\<forall>fl fh. fl \<le> s \<longrightarrow> s < fh \<longrightarrow> fh \<le> ft \<longrightarrow> (\<exists>d'. DecUpdate (d\<lparr>d_ext := d_rng d div ft\<rparr>) fl fh ft = Ok d' \<and> dec_wf S d')"
    using Decode_total [OF wf ft] by blast
  obtain v fl fh where lk: "lookup s = (v, fl, fh)" by (cases "lookup s")
  have n: "unat s \<in> set [0..<unat ft]" using s(2) by (simp add: word_less_nat_alt)
  have "case lookup (word_of_nat (unat s)) of (v, fl, fh) \<Rightarrow> fl \<le> word_of_nat (unat s) \<and> word_of_nat (unat s) < fh \<and> fh \<le> ft"
    using sh n by (simp only: lookup_total_def list_all_iff)
  then have b: "fl \<le> s" "s < fh" "fh \<le> ft" using lk by simp_all
  then obtain d' where "DecUpdate (d\<lparr>d_ext := d_rng d div ft\<rparr>) fl fh ft = Ok d'" "dec_wf S d'" using s(3) by blast
  then have "get_call (Freq_Call slot lookup ft) d = Ok (v, d')" "dec_wf S d'" using s(1) lk by (simp_all add: decode_with_def)
  moreover have "in_range (Freq_Call slot lookup ft) v" using n lk by (auto simp: list_ex_iff intro!: bexI [of _ "unat s"])
  ultimately show ?thesis by blast
qed

lemma get_call_total:
  assumes wf: "dec_wf S d" and sh: "readable sh"
  shows "\<exists>v d'. get_call sh d = Ok (v, d') \<and> in_range sh v \<and> dec_wf S d'"
proof (cases sh)
  case (Bit_Call logp)
  then show ?thesis using DecBitLogp_total [OF wf] by auto
next
  case (Icdf_Call icdf ftb)
  then show ?thesis using DecIcdf_total [OF wf] sh by auto
next
  case (Uint_Call ft)
  then obtain x d' where "DecUint d ft = Ok (x, d')" "x < ft" "dec_wf S d'" using DecUint_total [OF wf, of ft] sh unfolding Uint_Call readable.simps by blast
  then show ?thesis using Uint_Call by (auto simp: u32_less)
next
  case (Raw_Call bits)
  then obtain x d' where "DecBits d bits = Ok (x, d')" "uint x < 2 ^ unat bits" "dec_wf S d'"
    using DecBits_total [OF wf, of bits] sh unfolding Raw_Call readable.simps by blast
  then show ?thesis using Raw_Call by auto
next
  case (Freq_Call slot lookup ft)
  then show ?thesis using freq_total [OF wf] sh by simp
next
  case (Bin_Call slot lookup bits)
  then have b: "bits < 32" and l: "lookup_total lookup (push_bit (unat bits) 1)"
    using sh by (auto intro: bits_lt_32)
  have "in_range (Bin_Call slot lookup bits) = in_range (Freq_Call slot lookup (push_bit (unat bits) 1))" by (rule ext) simp
  then show ?thesis using freq_total [OF wf l, of slot] unfolding Bin_Call Bin_Call_Freq [OF b] by simp
qed

text \<open>\<^verbatim>\<open>TellFrac\<close> reads its correction table inside its bounds.\<close>

lemma ecTellFrac_ok:
  assumes r: "8388608 < uint rng"
  shows "\<exists>t. ecTellFrac n rng = Ok t"
proof -
  define l where "l = nat (ecIlog rng)"
  have il: "1 \<le> ecIlog rng" "ecIlog rng \<le> 32" "2 ^ (l - 1) \<le> uint rng" "uint rng < 2 ^ l"
    using ecIlog_bounds [of rng] r by (simp_all add: l_def nat_diff_distrib)
  have "(2 :: int) ^ 23 < 2 ^ l" using r il(4) by simp
  then have l: "23 < l" using power_strict_increasing_iff [of "2 :: int" 23 l] by linarith
  define r where "r = drop_bit (l - 16) rng"
  have ur: "uint r = uint rng div 2 ^ (l - 16)" by (simp add: r_def u32_drop)
  have p: "(2 :: int) ^ (l - 1) = 2 ^ (l - 16) * 32768" "(2 :: int) ^ l = 2 ^ (l - 16) * 65536"
  proof -
    have "l - 1 = (l - 16) + 15" "l = (l - 16) + 16" using l by simp_all
    then have "(2 :: int) ^ (l - 1) = 2 ^ ((l - 16) + 15)" "(2 :: int) ^ l = 2 ^ ((l - 16) + 16)" by (simp_all only:)
    then show "(2 :: int) ^ (l - 1) = 2 ^ (l - 16) * 32768" "(2 :: int) ^ l = 2 ^ (l - 16) * 65536" by (simp_all add: power_add)
  qed
  have "32768 \<le> uint r" unfolding ur using il(3) p by (intro le_div_pos) simp_all
  moreover have "uint r < 65536" unfolding ur using il(4) p by (intro div_less_pos) simp_all
  ultimately have "8 \<le> uint r div 4096" "uint r div 4096 < 16" by simp_all
  then have b: "uint (drop_bit 12 r - 8) = uint r div 4096 - 8" by (subst u32_sub) (simp_all add: u32_drop)
  then have "0 \<le> uint (drop_bit 12 r - 8)" "uint (drop_bit 12 r - 8) < 8" using \<open>8 \<le> uint r div 4096\<close> \<open>uint r div 4096 < 16\<close> by linarith+
  moreover have "shr rng (ecIlog rng - 16) = Ok r"
    using l il(1) by (simp add: shr_def r_def l_def nat_diff_distrib)
  ultimately show ?thesis by (simp add: ecTellFrac_def Let_def idx_Ok)
qed

lemma Dec_TellFrac_ok: "dec_wf S d \<Longrightarrow> \<exists>t. Dec_TellFrac d = Ok t"
  unfolding Dec_TellFrac_def by (rule ecTellFrac_ok) (rule dec_wf_range(1))

lemma read_all_total:
  assumes "dec_wf S d" "\<And>past. readable (proto past)"
  shows "\<exists>vs d'. read_all get_call proto past n d = Ok (vs, d') \<and> all_ok in_range proto past vs \<and> length vs = n \<and> dec_wf S d'"
  using assms(1)
proof (induction n arbitrary: past d)
  case (Suc n)
  obtain v d1 where v: "get_call (proto past) d = Ok (v, d1)" "in_range (proto past) v" "dec_wf S d1"
    using get_call_total [OF Suc.prems assms(2)] by blast
  obtain vs d2 where "read_all get_call proto (past @ [v]) n d1 = Ok (vs, d2)" "all_ok in_range proto (past @ [v]) vs"
    "length vs = n" "dec_wf S d2" using Suc.IH [OF v(3)] by blast
  with v show ?case by (intro exI [of _ "v # vs"] exI [of _ d2]) simp
qed simp

text \<open>C15: Whatever bytes it is given, the decoder neither panics nor loops: for any protocol of the
  six kinds of symbol call with admissible parameters (\<open>readable\<close>: a well-formed inverse cumulative
  table, a total of at least two, at most 25 raw bits, a lookup that puts every frequency inside the
  slot it returns), reading any number of symbols from any stream returns that many values, each in
  the range of its call.  The decoder it leaves satisfies the invariant (the range above \<open>2 ^ 23\<close>
  and above the value, the bytes taken and the raw bits in step with the stream), so the next symbol
  can be read, and \<^verbatim>\<open>TellFrac\<close> does not panic in it.  \<^verbatim>\<open>ShrinkStorage\<close> between the symbols is not
  covered.\<close>

theorem decoder_never_panics:
  assumes "len S < 4294967296" "\<And>past. readable (proto past)"
  shows "\<exists>d vs d'. Dec_Init d0 S = Ok d \<and> read_all get_call proto [] n d = Ok (vs, d')
    \<and> length vs = n \<and> all_ok in_range proto [] vs \<and> dec_wf S d' \<and> (\<exists>t. Dec_TellFrac d' = Ok t)"
proof -
  obtain d where d: "Dec_Init d0 S = Ok d" "dec_rel d S 4 0 2147483648 0" using Dec_Init_rel [OF assms(1)] by blast
  then have "dec_wf S d" unfolding dec_wf_def by (intro exI conjI) (assumption, simp)
  from read_all_total [where proto = proto and past = "[]" and n = n, OF this assms(2)] d(1) Dec_TellFrac_ok
  show ?thesis by blast
qed

definition read_proto :: "int list \<Rightarrow> call" where
  "read_proto past = (if length past = 1 then Icdf_Call [200, 0] 8 else if length past = 2 then Bin_Call third third_of 4
     else Uint_Call 1000)"

lemma decoder_never_panics_witness:
  "\<exists>d vs d'. Dec_Init zero_dec [255, 1, 2] = Ok d
    \<and> read_all get_call read_proto [] 9 d = Ok (vs, d')
    \<and> length vs = 9 \<and> all_ok in_range read_proto [] vs \<and> dec_wf [255, 1, 2] d' \<and> (\<exists>t. Dec_TellFrac d' = Ok t)"
  by (rule decoder_never_panics) (simp_all add: icdf_table_def read_proto_def lookup_total_def third_of_def upt_conv_Cons)

section \<open>The renormalisation loop ends\<close>

lemma put_byte_total:
  assumes "enc_wf e"
  shows "\<exists>e'. put_byte e v = Ok e' \<and> enc_wf e' \<and> e_rng e' = e_rng e \<and> e_val e' = e_val e
    \<and> e_nbits_total e' = e_nbits_total e"
  using put_byte_front [OF assms, of v] by (auto simp: same_rest_def)

lemma put_ext_total:
  "enc_wf e \<Longrightarrow> \<exists>e'. put_ext n v e = Ok e' \<and> enc_wf e' \<and> e_rng e' = e_rng e \<and> e_val e' = e_val e
    \<and> e_nbits_total e' = e_nbits_total e"
proof (induction n arbitrary: e)
  case (Suc n)
  obtain e1 where e1: "put_byte e v = Ok e1" "enc_wf e1" "e_rng e1 = e_rng e" "e_val e1 = e_val e"
    "e_nbits_total e1 = e_nbits_total e" using put_byte_total [OF Suc.prems] by blast
  have "enc_wf (e1\<lparr>e_ext := e_ext e1 - 1\<rparr>)" using e1(2) by (simp add: enc_wf_def)
  from Suc.IH [OF this] e1 show ?case by simp
qed simp

lemma enc_carry_out_total:
  assumes "enc_wf e"
  shows "\<exists>e'. enc_carry_out e c = Ok e' \<and> enc_wf e' \<and> e_rng e' = e_rng e \<and> e_val e' = e_val e
    \<and> e_nbits_total e' = e_nbits_total e"
proof (cases "c = ecSymMax")
  case True
  then show ?thesis using assms by (simp add: enc_carry_out_def enc_wf_def)
next
  case False
  let ?c = "drop_bit ecSymBits c"
  obtain e1 where e1: "(if e_rem e \<ge> 0 then put_byte e (word_of_int (e_rem e + ?c)) else Ok e) = Ok e1" "enc_wf e1"
    "e_rng e1 = e_rng e" "e_val e1 = e_val e" "e_nbits_total e1 = e_nbits_total e"
    using put_byte_total [OF assms] assms by (cases "e_rem e \<ge> 0") auto
  obtain e2 where e2: "(if e_ext e1 > 0 then put_ext (unat (e_ext e1)) (word_of_int (ecSymMax + ?c) AND word_of_int ecSymMax) e1
     else Ok e1) = Ok e2" "enc_wf e2" "e_rng e2 = e_rng e1" "e_val e2 = e_val e1" "e_nbits_total e2 = e_nbits_total e1"
    using put_ext_total [OF e1(2)] e1(2) by (cases "e_ext e1 > 0") auto
  have "c AND ecSymMax = c mod 256" by (simp add: ecSymMax_def int_and_mask)
  moreover have "0 \<le> c mod 256" "c mod 256 < 256" by simp_all
  then have "-1 \<le> c mod 256 \<and> c mod 256 \<le> 255" by linarith
  ultimately have "enc_wf (e2\<lparr>e_rem := c AND ecSymMax\<rparr>)" using e2(2) by (simp add: enc_wf_def)
  moreover have "enc_carry_out e c = Ok (e2\<lparr>e_rem := c AND ecSymMax\<rparr>)"
    using False e1(1) e2(1) by (simp add: enc_carry_out_def Let_def)
  ultimately show ?thesis using e1 e2 by simp
qed

lemma ecIlog_unique:
  assumes "0 < k" "2 ^ (k - 1) \<le> uint v" "uint v < 2 ^ k"
  shows "ecIlog v = int k"
proof -
  have v: "0 < uint v" using assms(2) zero_less_power [of "2 :: int" "k - 1"] by linarith
  note b = ecIlog_bounds [OF v]
  have "(2 :: int) ^ (k - 1) < 2 ^ nat (ecIlog v)" "(2 :: int) ^ nat (ecIlog v - 1) < 2 ^ k"
    using assms(2,3) b(3,4) by linarith+
  then have "k - 1 < nat (ecIlog v)" "nat (ecIlog v - 1) < k" by simp_all
  with assms(1) b(1) show ?thesis by linarith
qed

lemma ecIlog_push8:
  assumes "0 < uint r" "uint r \<le> 8388608"
  shows "ecIlog (push_bit ecSymBits r) = ecIlog r + 8"
proof -
  define k where "k = nat (ecIlog r)"
  have k: "1 \<le> k" "ecIlog r = int k" "2 ^ (k - 1) \<le> uint r" "uint r < 2 ^ k"
    using ecIlog_bounds [OF assms(1)] by (simp_all add: k_def nat_diff_distrib)
  have p: "uint (push_bit ecSymBits r) = uint r * 256" using assms(2) by (simp add: ecSymBits_def u32_push_small)
  have "(2 :: int) ^ (k + 8 - 1) = 2 ^ (k - 1) * 256"
  proof -
    have "k + 8 - 1 = (k - 1) + 8" using k(1) by simp
    then show ?thesis by (simp only: power_add) simp
  qed
  then have "ecIlog (push_bit ecSymBits r) = int (k + 8)"
    using k(3,4) by (intro ecIlog_unique) (simp_all add: p power_add)
  then show ?thesis by (simp add: k(2))
qed

lemma enc_normalize_loop_total:
  assumes "enc_wf e" "0 < uint (e_rng e)" "uint (e_rng e) \<le> 2147483648" "rounds (uint (e_rng e)) < fuel"
  shows "\<exists>e'. enc_normalize_loop fuel e = Ok e' \<and> enc_wf e' \<and> 8388608 < uint (e_rng e') \<and> uint (e_rng e') \<le> 2147483648
    \<and> Enc_Tell e' = Enc_Tell e"
  using assms
proof (induction fuel arbitrary: e)
  case (Suc fuel)
  show ?case
  proof (cases "uint (e_rng e) \<le> 8388608")
    case False
    then show ?thesis using Suc.prems by (simp add: ecCodeBot_def u32_le)
  next
    case True
    obtain e1 where e1: "enc_carry_out e (uint (drop_bit ecCodeShift (e_val e))) = Ok e1" "enc_wf e1" "e_rng e1 = e_rng e"
      "e_nbits_total e1 = e_nbits_total e"
      using enc_carry_out_total [OF Suc.prems(1)] by blast
    let ?e = "e1\<lparr>e_val := push_bit ecSymBits (e_val e1) AND (ecCodeTop - 1),
          e_rng := push_bit ecSymBits (e_rng e1), e_nbits_total := e_nbits_total e1 + int ecSymBits\<rparr>"
    have r: "uint (e_rng ?e) = 256 * uint (e_rng e)" using True e1(3) by (simp add: ecSymBits_def u32_push_small)
    have wf: "enc_wf ?e" using e1(2) by (simp add: enc_wf_def)
    have tell: "Enc_Tell ?e = Enc_Tell e"
      using ecIlog_push8 [OF Suc.prems(2) True] e1(3,4) by (simp add: Enc_Tell_def ecTell_def ecSymBits_def)
    have le: "uint (e_rng ?e) \<le> 2147483648" "0 < uint (e_rng ?e)" using True Suc.prems(2) unfolding r by simp_all
    have "rounds (uint (e_rng ?e)) < fuel" using Suc.prems(4) rounds_Suc [OF True Suc.prems(2)] unfolding r by simp
    from Suc.IH [OF wf le(2,1) this] obtain e' where "enc_normalize_loop fuel ?e = Ok e'" "enc_wf e'"
      "8388608 < uint (e_rng e')" "uint (e_rng e') \<le> 2147483648" "Enc_Tell e' = Enc_Tell e" unfolding tell by blast
    moreover have "enc_normalize_loop (Suc fuel) e = enc_normalize_loop fuel ?e"
      using True e1(1) by (simp add: ecCodeBot_def u32_le)
    ultimately show ?thesis by simp
  qed
qed simp

text \<open>The encoder's renormalisation loop ends for every well-formed encoder with a nonzero range:
  any fuel above three rounds gives the same result.  It returns a well-formed encoder with its
  range above 2^23, and does not change \<^verbatim>\<open>Tell\<close>.\<close>

theorem enc_normalize_returns:
  assumes "enc_wf e" "0 < uint (e_rng e)" "uint (e_rng e) \<le> 2147483648"
  shows "\<exists>e'. enc_normalize e = Ok e' \<and> enc_normalize_loop (4 + k) e = Ok e' \<and> enc_wf e'
    \<and> 8388608 < uint (e_rng e') \<and> uint (e_rng e') \<le> 2147483648 \<and> Enc_Tell e' = Enc_Tell e"
proof -
  have mono: "enc_normalize_loop f e = Ok e' \<Longrightarrow> enc_normalize_loop (f + k) e = Ok e'" for f e e'
  proof (induction f arbitrary: e)
    case (Suc f)
    then show ?case by (auto simp: bnd_eq_Ok split: if_splits)
  qed simp
  have "rounds (uint (e_rng e)) < 4" using rounds_le [of "uint (e_rng e)"] by linarith
  from enc_normalize_loop_total [OF assms this] mono [of 4 e] show ?thesis by (auto simp: enc_normalize_def)
qed

lemma enc_normalize_returns_witness:
  "\<exists>e'. enc_normalize ((Enc_Init [0, 0])\<lparr>e_rng := 5\<rparr>) = Ok e'
    \<and> enc_normalize_loop (4 + 1) ((Enc_Init [0, 0])\<lparr>e_rng := 5\<rparr>) = Ok e' \<and> enc_wf e'
    \<and> 8388608 < uint (e_rng e') \<and> uint (e_rng e') \<le> 2147483648 \<and> Enc_Tell e' = Enc_Tell ((Enc_Init [0, 0])\<lparr>e_rng := 5\<rparr>)"
  by (rule enc_normalize_returns) (simp_all add: enc_wf_def Enc_Init_def)

text \<open>\<^verbatim>\<open>EncodeBin\<close> and \<^verbatim>\<open>DecodeBin\<close> are \<^verbatim>\<open>Encode\<close> and \<^verbatim>\<open>Decode\<close> for a total of \<open>2 ^ bits\<close>:
  the shift they use in place of the division gives the same encoder, the same frequency and the
  same decoder, on every state.\<close>

theorem bin_equals_general:
  assumes "bits < 32"
  shows "EncodeBin e fl fh bits = Encode e fl fh (push_bit (unat bits) 1)
    \<and> DecodeBin d bits = Decode d (push_bit (unat bits) 1)"
  using assms EncodeBin_Encode DecodeBin_Decode by blast

lemma bin_equals_general_witness:
  "EncodeBin (Enc_Init [0, 0]) 3 7 5 = Encode (Enc_Init [0, 0]) 3 7 (push_bit (unat (5 :: u32)) 1)
    \<and> DecodeBin zero_dec 5 = Decode zero_dec (push_bit (unat (5 :: u32)) 1)"
  by (rule bin_equals_general) simp

end
