(* ===== verification/RC_Sync.thy ===== *)
theory RC_Sync
  imports RC_Safety
begin

text \<open>
  Encoder and decoder kept in step by code that looks at the coder itself, at \<^verbatim>\<open>Tell\<close> above all, and that
  computes on both sides.  \<open>coded\<close> is what one piece of such code promises; the locale \<open>coding\<close>
  composes the pieces.  \<open>fronted\<close> says what the symbols at the front leave alone in the encoder, so
  that an encoder saved before them can be restored over the shared buffer.
\<close>

section \<open>What both sides see\<close>

fun tell_of :: "exact \<Rightarrow> int" where
  "tell_of (n, L, R, N, V) = ecTell (33 + 8 * int n + int N) (word_of_int R)"

lemma enc_st_Tell: "enc_st e s \<Longrightarrow> Enc_Tell e = tell_of s"
  by (cases s) (auto simp: enc_rel_def Enc_Tell_def)

lemma dec_st_Tell: "dec_st d S s \<Longrightarrow> Dec_Tell d = tell_of s"
  by (cases s) (auto simp: dec_rel_def Dec_Tell_def)

lemma dec_st_storage: "dec_st d S s \<Longrightarrow> d_storage d = word_of_int (len S)"
  by (cases s) (auto simp: dec_rel_def)

section \<open>The rest of the encoder\<close>

definition fronted :: "Encoder \<Rightarrow> Encoder \<Rightarrow> bool" where
  "fronted e e' \<longleftrightarrow> e_storage e' = e_storage e \<and> e_end_offs e' = e_end_offs e \<and> e_end_window e' = e_end_window e
     \<and> e_nend_bits e' = e_nend_bits e \<and> length (e_buf e') = length (e_buf e) \<and> tail_bytes e' = tail_bytes e
     \<and> unat (e_offs e) \<le> unat (e_offs e') \<and> take (unat (e_offs e)) (e_buf e') = take (unat (e_offs e)) (e_buf e)
     \<and> (e_error e' = 0 \<longrightarrow> e_error e = 0)"

lemma fronted_refl: "fronted e e"
  by (simp add: fronted_def)

lemma fronted_trans:
  assumes "fronted e e'" "fronted e' e''"
  shows "fronted e e''"
proof -
  have "take (unat (e_offs e)) (e_buf e'') = take (unat (e_offs e)) (take (unat (e_offs e')) (e_buf e''))"
    using assms(1) by (simp add: fronted_def min_absorb1)
  also have "\<dots> = take (unat (e_offs e)) (e_buf e)"
    using assms by (simp add: fronted_def min_absorb1)
  finally show ?thesis using assms by (simp add: fronted_def)
qed

lemma fronted_fields [simp]:
  "fronted e (e'\<lparr>e_ext := a\<rparr>) = fronted e e'" "fronted e (e'\<lparr>e_rem := i\<rparr>) = fronted e e'"
  "fronted e (e'\<lparr>e_val := a\<rparr>) = fronted e e'" "fronted e (e'\<lparr>e_rng := a\<rparr>) = fronted e e'"
  "fronted e (e'\<lparr>e_nbits_total := i\<rparr>) = fronted e e'"
  by (simp_all add: fronted_def tail_bytes_def)

lemma enc_wf_fields [simp]:
  "enc_wf (e\<lparr>e_ext := a\<rparr>) = enc_wf e" "enc_wf (e\<lparr>e_val := a\<rparr>) = enc_wf e" "enc_wf (e\<lparr>e_rng := a\<rparr>) = enc_wf e"
  "enc_wf (e\<lparr>e_nbits_total := i\<rparr>) = enc_wf e"
  by (simp_all add: enc_wf_def)

lemma put_byte_fronted:
  assumes wf: "enc_wf e" and p: "put_byte e v = Ok e'"
  shows "enc_wf e' \<and> fronted e e'"
proof -
  obtain x where x: "put_byte e v = Ok x" "enc_wf x" "same_rest e x" using put_byte_front [OF wf, of v] by blast
  have e': "x = e'" using x(1) p by simp
  have "length (e_buf e') = length (e_buf e) \<and> unat (e_offs e) \<le> unat (e_offs e')
      \<and> take (unat (e_offs e)) (e_buf e') = take (unat (e_offs e)) (e_buf e)"
  proof (cases "e_offs e + e_end_offs e \<ge> e_storage e")
    case True
    then show ?thesis using p by (auto simp: put_byte_def write_byte_def)
  next
    case False
    then have u: "uint (e_offs e) < len (e_buf e)" "e' = e\<lparr>e_buf := (e_buf e)[unat (e_offs e) := ucast v], e_offs := e_offs e + 1\<rparr>"
      using p by (auto simp: put_byte_def write_byte_def bnd_eq_Ok upd_eq_Ok)
    have "uint (e_offs e) + 1 < 4294967296" using u(1) wf u32_lt [of "e_storage e"] by (simp add: enc_wf_def)
    then have "uint (e_offs e + 1) = uint (e_offs e) + 1" by (subst u32_add) simp_all
    then have "unat (e_offs e) \<le> unat (e_offs e + 1)" by (simp add: word_le_nat_alt [symmetric] u32_le)
    then show ?thesis by (simp add: u(2))
  qed
  with x e' show ?thesis by (simp add: fronted_def same_rest_def)
qed

lemma put_ext_fronted: "enc_wf e \<Longrightarrow> put_ext n v e = Ok e' \<Longrightarrow> enc_wf e' \<and> fronted e e'"
proof (induction n arbitrary: e)
  case (Suc n)
  from Suc.prems(2) obtain e1 where e1: "put_byte e v = Ok e1" "put_ext n v (e1\<lparr>e_ext := e_ext e1 - 1\<rparr>) = Ok e'"
    by (auto simp: bnd_eq_Ok)
  note p = put_byte_fronted [OF Suc.prems(1) e1(1)]
  then have "enc_wf (e1\<lparr>e_ext := e_ext e1 - 1\<rparr>)" by simp
  note q = Suc.IH [OF this e1(2)]
  have "fronted e (e1\<lparr>e_ext := e_ext e1 - 1\<rparr>)" using p by simp
  with q show ?case by (blast intro: fronted_trans)
qed (simp add: fronted_refl)

lemma enc_carry_out_fronted:
  assumes wf: "enc_wf e" and c: "enc_carry_out e c = Ok e'"
  shows "enc_wf e' \<and> fronted e e'"
proof -
  have wf': "enc_wf e'" using enc_carry_out_total [OF wf, of c] c by auto
  show ?thesis
  proof (cases "c = ecSymMax")
    case True
    then show ?thesis using c wf' by (auto simp: enc_carry_out_def fronted_refl)
  next
    case False
    then obtain e1 e2 where e1: "(if e_rem e \<ge> 0 then put_byte e (word_of_int (e_rem e + drop_bit ecSymBits c)) else Ok e) = Ok e1"
      and e2: "(if e_ext e1 > 0 then put_ext (unat (e_ext e1)) (word_of_int (ecSymMax + drop_bit ecSymBits c) AND word_of_int ecSymMax) e1
         else Ok e1) = Ok e2" and e': "e' = e2\<lparr>e_rem := c AND ecSymMax\<rparr>"
      using c by (auto simp: enc_carry_out_def Let_def bnd_eq_Ok)
    have 1: "enc_wf e1 \<and> fronted e e1" using e1 put_byte_fronted [OF wf] wf by (auto simp: fronted_refl split: if_splits)
    then have 2: "enc_wf e2 \<and> fronted e1 e2" using e2 put_ext_fronted by (auto simp: fronted_refl split: if_splits)
    with 1 have "fronted e e2" by (blast intro: fronted_trans)
    then show ?thesis using wf' by (simp add: e')
  qed
qed

lemma enc_normalize_loop_fronted: "enc_wf e \<Longrightarrow> enc_normalize_loop n e = Ok e' \<Longrightarrow> enc_wf e' \<and> fronted e e'"
proof (induction n arbitrary: e)
  case (Suc n)
  show ?case
  proof (cases "e_rng e \<le> ecCodeBot")
    case True
    then obtain e1 where e1: "enc_carry_out e (uint (drop_bit ecCodeShift (e_val e))) = Ok e1"
      and r: "enc_normalize_loop n (e1\<lparr>e_val := push_bit ecSymBits (e_val e1) AND (ecCodeTop - 1),
          e_rng := push_bit ecSymBits (e_rng e1), e_nbits_total := e_nbits_total e1 + int ecSymBits\<rparr>) = Ok e'"
      using Suc.prems(2) by (auto simp: bnd_eq_Ok)
    let ?e = "e1\<lparr>e_val := push_bit ecSymBits (e_val e1) AND (ecCodeTop - 1),
          e_rng := push_bit ecSymBits (e_rng e1), e_nbits_total := e_nbits_total e1 + int ecSymBits\<rparr>"
    note c = enc_carry_out_fronted [OF Suc.prems(1) e1]
    then have "enc_wf ?e" "fronted e ?e" by simp_all
    with Suc.IH [OF this(1) r] show ?thesis by (blast intro: fronted_trans)
  next
    case False
    then show ?thesis using Suc.prems by (simp add: fronted_refl)
  qed
qed simp

text \<open>Narrowing and renormalising, as every symbol at the front does.\<close>

lemma normalize_fronted: "enc_normalize x = Ok e' \<Longrightarrow> fronted e x \<Longrightarrow> enc_wf x \<Longrightarrow> fronted e e'"
  using enc_normalize_loop_fronted fronted_trans by (auto simp: enc_normalize_def)

lemma symbol_fronted:
  assumes "enc_wf e"
  shows "Encode e fl fh ft = Ok e' \<Longrightarrow> fronted e e'" "EncodeBin e fl fh bits = Ok e' \<Longrightarrow> fronted e e'"
    "EncBitLogp e v logp = Ok e' \<Longrightarrow> fronted e e'" "EncIcdf e s icdf ftb = Ok e' \<Longrightarrow> fronted e e'"
  using assms by (auto simp: Encode_def EncodeBin_def EncBitLogp_def EncIcdf_def bnd_eq_Ok Let_def fronted_refl
      split: if_splits elim!: normalize_fronted)

text \<open>The exact state looks at the buffer only in front of \<^verbatim>\<open>offs\<close> and behind the raw bytes.\<close>

lemma enc_st_buffer:
  assumes "enc_st e s" "length b = length (e_buf e)" "take (unat (e_offs e)) b = take (unat (e_offs e)) (e_buf e)"
    "drop (length (e_buf e) - unat (e_end_offs e)) b = tail_bytes e"
  shows "enc_st (e\<lparr>e_buf := b\<rparr>) s"
proof -
  have "front_bytes (e\<lparr>e_buf := b\<rparr>) = front_bytes e" "tail_bytes (e\<lparr>e_buf := b\<rparr>) = tail_bytes e"
    using assms(2-4) by (simp_all add: front_bytes_def tail_bytes_def)
  moreover from this(1) have "digits_of (e\<lparr>e_buf := b\<rparr>) = digits_of e" by (simp add: digits_of_def)
  ultimately show ?thesis using assms(1,2) by (cases s) (simp add: enc_rel_def enc_wf_def)
qed

section \<open>Pieces of code in step\<close>

text \<open>
  \<open>r\<close> is the result of encoder-side code started with the encoder \<open>e\<close>, whose exact state is \<open>s\<close>; \<open>ex\<close>
  picks the encoder out of it.  The code returns, writes at most \<open>m\<close> bits and leaves \<open>K\<close>.  For every stream
  inside the state it leaves, decoder-side code started on a value \<open>P\<close> holds of, with its decoder
  (\<open>dx\<close>) in step, returns a value related by \<open>Q\<close> to the encoder's, with its decoder (\<open>dy\<close>) in step.
\<close>

definition coded :: "(Encoder \<Rightarrow> Encoder \<Rightarrow> bool) \<Rightarrow> nat \<Rightarrow> Encoder \<Rightarrow> exact \<Rightarrow> ('x \<Rightarrow> Encoder) \<Rightarrow> 'x go
    \<Rightarrow> ('d \<Rightarrow> Decoder) \<Rightarrow> ('d \<Rightarrow> bool) \<Rightarrow> ('d \<Rightarrow> 'y go) \<Rightarrow> ('y \<Rightarrow> Decoder) \<Rightarrow> ('x \<Rightarrow> 'y \<Rightarrow> bool) \<Rightarrow> bool" where
  "coded K m e s ex r dx P dec dy Q \<longleftrightarrow> (\<exists>x s'. r = Ok x \<and> enc_st (ex x) s'
     \<and> e_nbits_total (ex x) \<le> e_nbits_total e + int m \<and> K e (ex x) \<and> (e_error (ex x) = 0 \<longrightarrow> e_error e = 0)
     \<and> (\<forall>S. ins_st S s' \<longrightarrow> ins_st S s \<and> (\<forall>y0. P y0 \<longrightarrow> dec_st (dx y0) S s \<longrightarrow>
           (\<exists>y. dec y0 = Ok y \<and> dec_st (dy y) S s' \<and> d_error (dy y) = d_error (dx y0) \<and> Q x y))))"

lemma codedE:
  assumes "coded K m e s ex r dx P dec dy Q"
  obtains x s' where "r = Ok x" "enc_st (ex x) s'" "e_nbits_total (ex x) \<le> e_nbits_total e + int m" "K e (ex x)"
    "e_error (ex x) = 0 \<Longrightarrow> e_error e = 0"
    "\<And>S. ins_st S s' \<Longrightarrow> ins_st S s"
    "\<And>S y0. ins_st S s' \<Longrightarrow> P y0 \<Longrightarrow> dec_st (dx y0) S s \<Longrightarrow>
       \<exists>y. dec y0 = Ok y \<and> dec_st (dy y) S s' \<and> d_error (dy y) = d_error (dx y0) \<and> Q x y"
  using assms unfolding coded_def by blast

lemma codedI:
  assumes "r = Ok x" "enc_st (ex x) s'" "e_nbits_total (ex x) \<le> e_nbits_total e + int m" "K e (ex x)"
    "e_error (ex x) = 0 \<Longrightarrow> e_error e = 0"
    "\<And>S. ins_st S s' \<Longrightarrow> ins_st S s"
    "\<And>S y0. ins_st S s' \<Longrightarrow> P y0 \<Longrightarrow> dec_st (dx y0) S s \<Longrightarrow>
       \<exists>y. dec y0 = Ok y \<and> dec_st (dy y) S s' \<and> d_error (dy y) = d_error (dx y0) \<and> Q x y"
  shows "coded K m e s ex r dx P dec dy Q"
  unfolding coded_def using assms by blast

text \<open>A symbol whose decoder call undoes its encoder call is such a piece.\<close>

lemma undoes_coded:
  assumes "undoes m enc dec v" "enc_st e s" "e_nbits_total e + int m < 4294967296"
    and K: "\<And>e'. enc e = Ok e' \<Longrightarrow> K e e'"
  shows "coded K m e s id (enc e) id (\<lambda>_. True) dec snd (\<lambda>e' y. fst y = v)"
proof -
  obtain e' s' where e': "enc e = Ok e'" "enc_st e' s'" "e_nbits_total e' \<le> e_nbits_total e + int m"
    "e_error e' = 0 \<longrightarrow> e_error e = 0" "\<forall>S. ins_st S s' \<longrightarrow> ins_st S s \<and> (\<forall>d. dec_st d S s \<longrightarrow>
       (\<exists>d'. dec d = Ok (v, d') \<and> dec_st d' S s' \<and> d_error d' = d_error d))"
    by (rule undoesE [OF assms(1-3)])
  show ?thesis by (rule codedI [where s' = s']) (use e' K in fastforce)+
qed

text \<open>What is known of the result, and what the caller makes of it.\<close>

lemma coded_conseq:
  assumes "coded K m e s ex r dx P dec dy Q"
    and r: "\<And>x. r = Ok x \<Longrightarrow> K e (ex x) \<Longrightarrow> r' = Ok (f x) \<and> ex' (f x) = ex x \<and> K' e (ex x)"
    and d: "\<And>S y0 x y. P' y0 \<Longrightarrow> dec_st (dx' y0) S s \<Longrightarrow> r = Ok x \<Longrightarrow> P (p y0) \<and> dx (p y0) = dx' y0
      \<and> (dec (p y0) = Ok y \<longrightarrow> Q x y \<longrightarrow> (\<exists>z. dec' y0 = Ok z \<and> dy' z = dy y \<and> Q' (f x) z))"
    and "m \<le> m'"
  shows "coded K' m' e s ex' r' dx' P' dec' dy' Q'"
proof -
  obtain x s' where x: "r = Ok x" "enc_st (ex x) s'" "e_nbits_total (ex x) \<le> e_nbits_total e + int m"
    "e_error (ex x) = 0 \<Longrightarrow> e_error e = 0" "\<And>S. ins_st S s' \<Longrightarrow> ins_st S s"
    "\<And>S y0. ins_st S s' \<Longrightarrow> P y0 \<Longrightarrow> dec_st (dx y0) S s \<Longrightarrow>
       \<exists>y. dec y0 = Ok y \<and> dec_st (dy y) S s' \<and> d_error (dy y) = d_error (dx y0) \<and> Q x y" and K: "K e (ex x)"
    by (rule codedE [OF assms(1)]) blast
  note r = r [OF x(1) K]
  show ?thesis
  proof (rule codedI [where x = "f x" and s' = s'])
    show "e_nbits_total (ex' (f x)) \<le> e_nbits_total e + int m'" using x(3) r assms(4) by simp
    fix S y0
    assume a: "ins_st S s'" "P' y0" "dec_st (dx' y0) S s"
    have p: "P (p y0)" "dx (p y0) = dx' y0" using d [OF a(2,3) x(1)] by blast+
    have "dec_st (dx (p y0)) S s" using a(3) p(2) by simp
    from x(6) [OF a(1) p(1) this] obtain y where y: "dec (p y0) = Ok y" "dec_st (dy y) S s'"
      "d_error (dy y) = d_error (dx' y0)" "Q x y" unfolding p(2) by blast
    obtain z where "dec' y0 = Ok z" "dy' z = dy y" "Q' (f x) z" using d [OF a(2,3) x(1), of y] y(1,4) by blast
    then show "\<exists>y. dec' y0 = Ok y \<and> dec_st (dy' y) S s' \<and> d_error (dy' y) = d_error (dx' y0) \<and> Q' (f x) y"
      using y(2,3) by (intro exI [of _ z]) simp
  qed (use x r in simp_all)
qed

lemma coded_weaken: "coded K m e s ex r dx P dec dy Q \<Longrightarrow> m \<le> m' \<Longrightarrow> coded K m' e s ex r dx P dec dy Q"
  by (erule coded_conseq [where f = id and p = id]) auto

text \<open>The storage of the decoder is that of the stream, so both ends of a piece agree on it.\<close>

lemma coded_storage:
  assumes "coded K m e s ex r dx P dec dy Q"
  shows "coded K m e s ex r dx (\<lambda>y. P y \<and> H (d_storage (dx y))) dec dy (\<lambda>x y. Q x y \<and> H (d_storage (dy y)))"
proof -
  obtain x s' where x: "r = Ok x" "enc_st (ex x) s'" "e_nbits_total (ex x) \<le> e_nbits_total e + int m" "K e (ex x)"
    "e_error (ex x) = 0 \<longrightarrow> e_error e = 0"
    "\<forall>S. ins_st S s' \<longrightarrow> ins_st S s \<and> (\<forall>y0. P y0 \<longrightarrow> dec_st (dx y0) S s \<longrightarrow>
       (\<exists>y. dec y0 = Ok y \<and> dec_st (dy y) S s' \<and> d_error (dy y) = d_error (dx y0) \<and> Q x y))"
    using assms unfolding coded_def by blast
  have "d_storage d' = d_storage d" if "dec_st d S s" "dec_st d' S s'" for d d' S
    using dec_st_storage [OF that(1)] dec_st_storage [OF that(2)] by simp
  with x show ?thesis unfolding coded_def by (intro exI [of _ x] exI [of _ s']) fastforce
qed

locale coding =
  fixes K :: "Encoder \<Rightarrow> Encoder \<Rightarrow> bool"
  assumes K_refl: "K e e"
    and K_trans: "K e e' \<Longrightarrow> K e' e'' \<Longrightarrow> K e e''"
begin

lemma coded_return:
  assumes "enc_st (ex x) s" "\<And>S y0. P y0 \<Longrightarrow> dec_st (dx y0) S s \<Longrightarrow> \<exists>y. dec y0 = Ok y \<and> dy y = dx y0 \<and> Q x y"
  shows "coded K 0 (ex x) s ex (Ok x) dx P dec dy Q"
proof (rule codedI [where x = x and s' = s])
  fix S y0
  assume "ins_st S s" "P y0" "dec_st (dx y0) S s"
  then show "\<exists>y. dec y0 = Ok y \<and> dec_st (dy y) S s \<and> d_error (dy y) = d_error (dx y0) \<and> Q x y"
    using assms(2) [of y0 S] by auto
qed (simp_all add: K_refl assms(1))

lemma coded_bnd:
  assumes a: "coded K m e s ex r dx P dec dy Q"
    and b: "\<And>x s'. r = Ok x \<Longrightarrow> enc_st (ex x) s' \<Longrightarrow> e_nbits_total (ex x) \<le> e_nbits_total e + int m \<Longrightarrow> K e (ex x) \<Longrightarrow>
       coded K m' (ex x) s' ex' (f x) dy (Q x) g dz Q'"
  shows "coded K (m + m') e s ex' (bnd r f) dx P (\<lambda>y0. bnd (dec y0) g) dz Q'"
proof -
  obtain x s1 where x: "r = Ok x" "enc_st (ex x) s1" "e_nbits_total (ex x) \<le> e_nbits_total e + int m" "K e (ex x)"
    "e_error (ex x) = 0 \<Longrightarrow> e_error e = 0" "\<And>S. ins_st S s1 \<Longrightarrow> ins_st S s"
    "\<And>S y0. ins_st S s1 \<Longrightarrow> P y0 \<Longrightarrow> dec_st (dx y0) S s \<Longrightarrow>
       \<exists>y. dec y0 = Ok y \<and> dec_st (dy y) S s1 \<and> d_error (dy y) = d_error (dx y0) \<and> Q x y"
    by (rule codedE [OF a]) blast
  obtain x' s2 where x': "f x = Ok x'" "enc_st (ex' x') s2" "e_nbits_total (ex' x') \<le> e_nbits_total (ex x) + int m'" "K (ex x) (ex' x')"
    "e_error (ex' x') = 0 \<Longrightarrow> e_error (ex x) = 0" "\<And>S. ins_st S s2 \<Longrightarrow> ins_st S s1"
    "\<And>S y0. ins_st S s2 \<Longrightarrow> Q x y0 \<Longrightarrow> dec_st (dy y0) S s1 \<Longrightarrow>
       \<exists>y. g y0 = Ok y \<and> dec_st (dz y) S s2 \<and> d_error (dz y) = d_error (dy y0) \<and> Q' x' y"
    by (rule codedE [OF b [OF x(1-4)]]) blast
  show ?thesis
  proof (rule codedI [where x = x' and s' = s2])
    show "K e (ex' x')" using K_trans [OF x(4) x'(4)] .
    fix S y0
    assume h: "ins_st S s2" "P y0" "dec_st (dx y0) S s"
    obtain y where y: "dec y0 = Ok y" "dec_st (dy y) S s1" "d_error (dy y) = d_error (dx y0)" "Q x y"
      using x(7) [OF x'(6) [OF h(1)] h(2,3)] by blast
    obtain z where "g y = Ok z" "dec_st (dz z) S s2" "d_error (dz z) = d_error (dy y)" "Q' x' z"
      using x'(7) [OF h(1) y(4,2)] by blast
    then show "\<exists>y. bnd (dec y0) g = Ok y \<and> dec_st (dz y) S s2 \<and> d_error (dz y) = d_error (dx y0) \<and> Q' x' y"
      using y by simp
  qed (use x x' in simp_all)
qed

text \<open>A counting loop with a further condition, both sides going round together.\<close>

lemma coded_while:
  assumes F: "\<And>i x. F i x = (if i < stop \<and> ce i x then bnd (B i x) (\<lambda>x. F (i + 1) x) else Ok x)"
    and G: "\<And>i y. G i y = (if i < stop \<and> cd i y then bnd (D i y) (\<lambda>y. G (i + 1) y) else Ok y)"
    and cond: "\<And>i x y. Q i x y \<Longrightarrow> ce i x \<longleftrightarrow> cd i y"
    and body: "\<And>i x s. i < stop \<Longrightarrow> ce i x \<Longrightarrow> I i x \<Longrightarrow> enc_st (ex x) s \<Longrightarrow> e_nbits_total (ex x) + int m < 4294967296 \<Longrightarrow>
      coded K m (ex x) s ex (B i x) dx (Q i x) (D i) dx (Q (i + 1))"
    and inv: "\<And>i x s x'. i < stop \<Longrightarrow> ce i x \<Longrightarrow> I i x \<Longrightarrow> enc_st (ex x) s \<Longrightarrow> B i x = Ok x' \<Longrightarrow> K (ex x) (ex x') \<Longrightarrow> I (i + 1) x'"
    and exit: "\<And>i x y. \<not> (i < stop \<and> ce i x) \<Longrightarrow> I i x \<Longrightarrow> Q i x y \<Longrightarrow> R x y"
    and start: "I i x" "enc_st (ex x) s" "e_nbits_total (ex x) + int (m * nat (stop - i)) < 4294967296"
  shows "coded K (m * nat (stop - i)) (ex x) s ex (F i x) dx (Q i x) (G i) dx R"
  using start
proof (induction "nat (stop - i)" arbitrary: i x s)
  case 0
  then have out: "\<not> i < stop" by simp
  then have "F i x = Ok x" "G i y = Ok y" for y using F [of i x] G [of i y] by auto
  with 0 out show ?case by (simp, intro coded_return) (auto intro: exit)
next
  case (Suc j)
  have lt: "i < stop" "j = nat (stop - (i + 1))" "nat (stop - i) = Suc j" using Suc.hyps(2) by simp_all
  show ?case
  proof (cases "ce i x")
    case False
    have "coded K 0 (ex x) s ex (Ok x) dx (Q i x) (G i) dx R"
    proof (rule coded_return [where ex = ex])
      show "enc_st (ex x) s" by (rule Suc.prems(2))
      fix S y
      assume q: "Q i x y"
      then have "G i y = Ok y" using G [of i y] cond [OF q] False by simp
      moreover have "R x y" using exit [OF _ Suc.prems(1) q] False by blast
      ultimately show "\<exists>z. G i y = Ok z \<and> dx z = dx y \<and> R x z" by blast
    qed
    then have "coded K (m * nat (stop - i)) (ex x) s ex (Ok x) dx (Q i x) (G i) dx R" by (rule coded_weaken) simp
    moreover have "F i x = Ok x" using F [of i x] False by simp
    ultimately show ?thesis by simp
  next
    case True
    have nb: "e_nbits_total (ex x) + int m < 4294967296" "e_nbits_total (ex x) + int m + int (m * j) < 4294967296"
      using Suc.prems(3) unfolding lt(3) by (simp_all add: algebra_simps) (smt (verit) zero_le_mult_iff of_nat_0_le_iff)
    note b = body [OF lt(1) True Suc.prems(1,2) nb(1)]
    have rest: "coded K (m * j) (ex x') s' ex (F (i + 1) x') dx (Q (i + 1) x') (G (i + 1)) dx R"
      if r: "B i x = Ok x'" and st: "enc_st (ex x') s'" and n: "e_nbits_total (ex x') \<le> e_nbits_total (ex x) + int m" and k: "K (ex x) (ex x')" for x' s'
    proof -
      have "e_nbits_total (ex x') + int (m * nat (stop - (i + 1))) < 4294967296" using n nb(2) unfolding lt(2) [symmetric] by linarith
      from Suc.hyps(1) [OF lt(2) inv [OF lt(1) True Suc.prems(1,2) r k] st this] show ?thesis unfolding lt(2) [symmetric] .
    qed
    have "coded K (m + m * j) (ex x) s ex (bnd (B i x) (\<lambda>x. F (i + 1) x)) dx (Q i x) (\<lambda>y. bnd (D i y) (\<lambda>y. G (i + 1) y)) dx R"
      by (rule coded_bnd [OF b rest])
    then have "coded K (m + m * j) (ex x) s ex (F i x) dx (Q i x) (G i) dx R"
    proof (rule coded_conseq [where f = id and p = id])
      fix S y0 x' y
      assume q: "Q i x y0"
      show "Q i x (id y0) \<and> dx (id y0) = dx y0 \<and> (bnd (D i (id y0)) (\<lambda>y. G (i + 1) y) = Ok y \<longrightarrow> R x' y \<longrightarrow>
          (\<exists>z. G i y0 = Ok z \<and> dx z = dx y \<and> R (id x') z))"
        using q cond [OF q] True lt(1) G [of i y0] by simp
    qed (use F [of i x] True lt(1) in simp_all)
    then show ?thesis unfolding lt(3) by simp
  qed
qed

text \<open>A loop over channels, which goes round at least once.\<close>

lemma coded_do:
  assumes F: "\<And>c x. F c x = bnd (B c x) (\<lambda>x. if c + 1 \<ge> C then Ok x else F (c + 1) x)"
    and G: "\<And>c y. G c y = bnd (D c y) (\<lambda>y. if c + 1 \<ge> C then Ok y else G (c + 1) y)"
    and body: "\<And>c x s. c < C \<Longrightarrow> I c x \<Longrightarrow> enc_st (ex x) s \<Longrightarrow> e_nbits_total (ex x) + int m < 4294967296 \<Longrightarrow>
      coded K m (ex x) s ex (B c x) dx (Q c x) (D c) dx (Q (c + 1))"
    and inv: "\<And>c x s x'. c < C \<Longrightarrow> I c x \<Longrightarrow> enc_st (ex x) s \<Longrightarrow> B c x = Ok x' \<Longrightarrow> K (ex x) (ex x') \<Longrightarrow> I (c + 1) x'"
    and start: "c < C" "I c x" "enc_st (ex x) s" "e_nbits_total (ex x) + int (m * nat (C - c)) < 4294967296"
  shows "coded K (m * nat (C - c)) (ex x) s ex (F c x) dx (Q c x) (G c) dx (Q C)"
proof -
  have "coded K (m * nat (C - c)) (ex x) s ex (if c < C then F c x else Ok x) dx (Q c x) (\<lambda>y. if c < C then G c y else Ok y) dx (Q C)"
  proof (rule coded_while [where ce = "\<lambda>c x. True" and cd = "\<lambda>c y. True" and B = B and D = D and F = "\<lambda>c x. if c < C then F c x else Ok x"
      and G = "\<lambda>c y. if c < C then G c y else Ok y" and I = "\<lambda>c x. c \<le> C \<and> I c x" and Q = "\<lambda>c x y. Q (min c C) x y" and stop = C and x = x and i = c,
      unfolded min_absorb1 [OF less_imp_le [OF start(1)]]])
    show "(if c < C then F c x else Ok x) = (if c < C \<and> True then bnd (B c x) (\<lambda>x. if c + 1 < C then F (c + 1) x else Ok x) else Ok x)"
      "(if c < C then G c y else Ok y) = (if c < C \<and> True then bnd (D c y) (\<lambda>y. if c + 1 < C then G (c + 1) y else Ok y) else Ok y)" for c x y
      using F [of c x] G [of c y] by (auto intro!: bnd_cong)
  qed (use body inv start in \<open>auto simp: min_def split: if_splits\<close>)
  then show ?thesis using start(1) by simp
qed

end

text \<open>The two instances: symbols at the front only, and any symbols.\<close>

definition kept :: "Encoder \<Rightarrow> Encoder \<Rightarrow> bool" where
  "kept e e' \<longleftrightarrow> e_storage e' = e_storage e"

interpretation front: coding fronted
  by unfold_locales (rule fronted_refl, rule fronted_trans)

interpretation whole: coding kept
  by unfold_locales (simp_all add: kept_def)

end
