(* ===== verification/Laplace.thy ===== *)
theory Laplace
  imports RC_Safety
begin

text \<open>
  The Laplace coder of the coarse energies (\<^verbatim>\<open>internal/celt/laplace.go\<close>) and its probability
  model (\<^verbatim>\<open>quant_bands.go\<close>).  The computation of the slot and the search for it are definitions of
  their own, since the Go functions end in one call of the range coder.
\<close>

definition laplaceMinP :: u32 where "laplaceMinP = 1"
definition laplaceNmin :: u32 where "laplaceNmin = 16"

definition ecLaplaceGetFreq1 :: "u32 \<Rightarrow> int \<Rightarrow> u32" where
  "ecLaplaceGetFreq1 fs0 decay =
     (let ft = (32768 - laplaceMinP * (2 * laplaceNmin)) - fs0 in
      drop_bit 15 (ft * word_of_int (16384 - decay)))"

text \<open>The loop over the decaying part: the index reached, with its \<open>fl\<close> and \<open>fs\<close>.\<close>

function laplace_enc_loop :: "int \<Rightarrow> int \<Rightarrow> int \<Rightarrow> u32 \<Rightarrow> u32 \<Rightarrow> int \<times> u32 \<times> u32" where
  "laplace_enc_loop decay val i fl fs =
     (if fs > 0 \<and> i < val then
        let fs = fs * 2; fl = fl + (fs + 2 * laplaceMinP); fs = drop_bit 15 (fs * word_of_int decay)
        in laplace_enc_loop decay val (i + 1) fl fs
      else (i, fl, fs))"
  by pat_completeness auto
termination
  by (relation "measure (\<lambda>(decay, val, i, fl, fs). nat (val - i))") auto

declare laplace_enc_loop.simps [simp del]

text \<open>The value coded (clamped in the flat tail) and its slot \<open>[fl, fh)\<close>; \<open>s\<close> is the sign mask.\<close>

definition laplace_slot :: "int \<Rightarrow> u32 \<Rightarrow> int \<Rightarrow> int \<times> u32 \<times> u32" where
  "laplace_slot value fs decay =
     (if value \<noteq> 0 then
        let s = (if value < 0 then -1 else 0 :: int); val = (value + s) XOR s;
            (i, fl, fs) = laplace_enc_loop decay val 1 fs (ecLaplaceGetFreq1 fs decay) in
        if fs = 0 then
          let ndiMax = sint (32768 - fl + laplaceMinP - 1);
              ndiMax = drop_bit 1 (ndiMax - s);
              di = min (val - i) (ndiMax - 1);
              fl = fl + word_of_int ((2 * di + 1 + s) * uint laplaceMinP);
              t = 32768 - fl;
              fs = (if laplaceMinP < t then laplaceMinP else t)
          in ((i + di + s) XOR s, fl, fl + fs)
        else
          let fs = fs + laplaceMinP; fl = fl + (fs AND word_of_int (NOT s)) in (value, fl, fl + fs)
      else (value, 0, 0 + fs))"

text \<open>\<^verbatim>\<open>*value\<close> is an in/out parameter: its new value is returned.\<close>

definition ecLaplaceEncode :: "Encoder \<Rightarrow> int \<Rightarrow> u32 \<Rightarrow> int \<Rightarrow> (int \<times> Encoder) go" where
  "ecLaplaceEncode enc value fs decay =
     (case laplace_slot value fs decay of (value, fl, fh) \<Rightarrow>
      bnd (EncodeBin enc fl fh 15) (\<lambda>enc. Ok (value, enc)))"

text \<open>
  The search of the decoder.  Every round raises \<open>fl\<close> by at least 4 towards \<open>fm < 32768\<close> as long
  as \<open>fs\<close> and \<open>fl\<close> do not wrap, so 8192 rounds are enough; running out of them stands for a loop
  that does not end.
\<close>

fun laplace_dec_loop :: "nat \<Rightarrow> int \<Rightarrow> u32 \<Rightarrow> u32 \<Rightarrow> u32 \<Rightarrow> int \<Rightarrow> (u32 \<times> u32 \<times> int) go" where
  "laplace_dec_loop 0 decay fm fl fs val = Panic"
| "laplace_dec_loop (Suc n) decay fm fl fs val =
     (if fs > laplaceMinP \<and> fm \<ge> fl + 2 * fs then
        let fs = fs * 2; fl = fl + fs; fs = drop_bit 15 ((fs - 2 * laplaceMinP) * word_of_int decay);
            fs = fs + laplaceMinP
        in laplace_dec_loop n decay fm fl fs (val + 1)
      else Ok (fl, fs, val))"

definition laplace_find :: "u32 \<Rightarrow> int \<Rightarrow> u32 \<Rightarrow> (int \<times> u32 \<times> u32) go" where
  "laplace_find fs decay fm =
     bnd (if fm \<ge> fs then
            bnd (laplace_dec_loop 8193 decay fm fs (ecLaplaceGetFreq1 fs decay + laplaceMinP) 1) (\<lambda>(fl, fs, val).
            let di = drop_bit 1 (fm - fl); tail = (fs \<le> laplaceMinP);
                val = (if tail then val + uint di else val);
                fl = (if tail then fl + 2 * di * laplaceMinP else fl) in
            Ok (if fm < fl + fs then (- val, fl, fs) else (val, fl + fs, fs)))
          else Ok (0, 0, fs)) (\<lambda>(val, fl, fs).
     let fh = fl + fs; fh = (if fh > 32768 then 32768 else fh) in Ok (val, fl, fh))"

definition ecLaplaceDecode :: "Decoder \<Rightarrow> u32 \<Rightarrow> int \<Rightarrow> (int \<times> Decoder) go" where
  "ecLaplaceDecode dec fs decay =
     bnd (DecodeBin dec 15) (\<lambda>(fm, dec).
     bnd (laplace_find fs decay fm) (\<lambda>(val, fl, fh).
     bnd (DecUpdate dec fl fh 32768) (\<lambda>dec. Ok (val, dec))))"

text \<open>The probability model (\<^verbatim>\<open>quant_bands.go\<close>): per frame size and prediction type, pairs of the
  probability of 0 and the decay, both in Q8.\<close>

definition eProbModel :: "int list list list" where
  "eProbModel =
   [[[72, 127, 65, 129, 66, 128, 65, 128, 64, 128, 62, 128, 64, 128,
      64, 128, 92, 78, 92, 79, 92, 78, 90, 79, 116, 41, 115, 40,
      114, 40, 132, 26, 132, 26, 145, 17, 161, 12, 176, 10, 177, 11],
     [24, 179, 48, 138, 54, 135, 54, 132, 53, 134, 56, 133, 55, 132,
      55, 132, 61, 114, 70, 96, 74, 88, 75, 88, 87, 74, 89, 66,
      91, 67, 100, 59, 108, 50, 120, 40, 122, 37, 97, 43, 78, 50]],
    [[83, 78, 84, 81, 88, 75, 86, 74, 87, 71, 90, 73, 93, 74,
      93, 74, 109, 40, 114, 36, 117, 34, 117, 34, 143, 17, 145, 18,
      146, 19, 162, 12, 165, 10, 178, 7, 189, 6, 190, 8, 177, 9],
     [23, 178, 54, 115, 63, 102, 66, 98, 69, 99, 74, 89, 71, 91,
      73, 91, 78, 89, 86, 80, 92, 66, 93, 64, 102, 59, 103, 60,
      104, 60, 117, 52, 123, 44, 138, 35, 133, 31, 97, 38, 77, 45]],
    [[61, 90, 93, 60, 105, 42, 107, 41, 110, 45, 116, 38, 113, 38,
      112, 38, 124, 26, 132, 27, 136, 19, 140, 20, 155, 14, 159, 16,
      158, 18, 170, 13, 177, 10, 187, 8, 192, 6, 175, 9, 159, 10],
     [21, 178, 59, 110, 71, 86, 75, 85, 84, 83, 91, 66, 88, 73,
      87, 72, 92, 75, 98, 72, 105, 58, 107, 54, 115, 52, 114, 55,
      112, 56, 129, 51, 132, 40, 150, 33, 140, 29, 98, 35, 77, 42]],
    [[42, 121, 96, 66, 108, 43, 111, 40, 117, 44, 123, 32, 120, 36,
      119, 33, 127, 33, 134, 34, 139, 21, 147, 23, 152, 20, 158, 25,
      154, 26, 166, 21, 173, 16, 184, 13, 184, 10, 150, 13, 139, 15],
     [22, 178, 63, 114, 74, 82, 84, 83, 92, 82, 103, 62, 96, 72,
      96, 67, 101, 73, 107, 72, 113, 55, 118, 52, 125, 52, 118, 52,
      117, 55, 135, 49, 137, 39, 157, 32, 145, 29, 97, 33, 77, 40]]]"

end
