(* ===== verification/Laplace_Props.thy ===== *)
theory Laplace_Props
  imports Laplace
begin

text \<open>
  The Laplace coder is a code of the range coder: the decoder finds the slot the encoder chose, for
  every model of the codec, and returns on any stream.
\<close>

section \<open>The decoder finds the slot the encoder chose\<close>

fun lap_end :: "nat \<Rightarrow> int \<Rightarrow> int \<Rightarrow> int \<Rightarrow> int" where
  "lap_end 0 decay fl fs = 65536"
| "lap_end (Suc n) decay fl fs = (if fs = 0 then fl else lap_end n decay (fl + 2 * fs + 2) ((2 * fs * decay) div 32768))"

text \<open>
  A model the coder can use: the decaying part ends early enough that the tail has a slot for
  either sign.
\<close>

definition laplace_ok :: "u32 \<Rightarrow> int \<Rightarrow> bool" where
  "laplace_ok fs decay \<longleftrightarrow> 0 < fs \<and> fs \<le> 32736 \<and> 0 \<le> decay \<and> decay \<le> 16384
     \<and> lap_end 64 decay (uint fs) ((32736 - uint fs) * (16384 - decay) div 32768) \<le> 32766"

lemma next_nonneg: "0 \<le> fs \<Longrightarrow> 0 \<le> decay \<Longrightarrow> 0 \<le> 2 * fs * decay div (32768 :: int)"
  by (simp add: pos_imp_zdiv_nonneg_iff)

lemma lap_end_ge: "0 \<le> fs \<Longrightarrow> 0 \<le> decay \<Longrightarrow> lap_end n decay fl fs \<le> 32766 \<Longrightarrow> fl \<le> lap_end n decay fl fs"
proof (induction n arbitrary: fl fs)
  case (Suc n)
  show ?case
  proof (cases "fs = 0")
    case False
    then have "fl + 2 * fs + 2 \<le> lap_end n decay (fl + 2 * fs + 2) (2 * fs * decay div 32768)"
      using Suc.prems by (intro Suc.IH next_nonneg) simp_all
    then show ?thesis using False Suc.prems(1) by simp
  qed simp
qed simp

text \<open>One step of both loops, on the registers.\<close>

lemma lap_step:
  fixes fl fs :: u32
  assumes "uint fl + 2 * uint fs + 2 \<le> 32766" "0 \<le> decay" "decay \<le> 16384"
  shows "uint (fl + (fs * 2 + 2)) = uint fl + 2 * uint fs + 2"
    "uint (drop_bit 15 (fs * 2 * word_of_int decay)) = 2 * uint fs * decay div 32768"
    "uint (fl + (fs + 1) * 2) = uint fl + 2 * uint fs + 2"
proof -
  have f: "0 \<le> uint fl" "0 \<le> uint fs" by simp_all
  then have b: "uint fs \<le> 16382" "uint fl \<le> 32764" using assms(1) by linarith+
  have 1: "uint (fs * 2) = 2 * uint fs" using b by (subst u32_mul) simp_all
  then have 2: "uint (fs * 2 + 2) = 2 * uint fs + 2" using b by (subst u32_add) simp_all
  show 3: "uint (fl + (fs * 2 + 2)) = uint fl + 2 * uint fs + 2" using assms(1) f by (subst u32_add) (simp_all add: 2)
  have d: "uint (word_of_int decay :: u32) = decay" using assms(2,3) by (intro u32_of_int) simp_all
  have "2 * uint fs * decay \<le> 32764 * 16384" using b assms(2,3) by (intro mult_mono) simp_all
  then show "uint (drop_bit 15 (fs * 2 * word_of_int decay)) = 2 * uint fs * decay div 32768"
    unfolding u32_drop by (subst u32_mul) (simp_all add: 1 d)
  have "fl + (fs + 1) * 2 = fl + (fs * 2 + 2)" by (simp add: algebra_simps)
  then show "uint (fl + (fs + 1) * 2) = uint fl + 2 * uint fs + 2" using 3 by (simp only:)
qed

lemma loops_agree:
  assumes "lap_end n decay (uint fl) (uint fs) \<le> 32766" "0 \<le> decay" "decay \<le> 16384" "i \<le> val"
    "laplace_enc_loop decay val i fl fs = (j, fl', fs')"
    "uint fl' \<le> uint fm" "fs' = 0 \<or> uint fm < uint fl' + 2 * uint fs' + 2" "n < N"
  shows "laplace_dec_loop N decay fm fl (fs + 1) i = Ok (fl', fs' + 1, j)
    \<and> uint fl \<le> uint fl' \<and> uint fl' \<le> 32766 \<and> j \<le> val \<and> i \<le> j
    \<and> (fs' \<noteq> 0 \<longrightarrow> j = val \<and> uint fl' + 2 * uint fs' + 2 \<le> 32766)"
  using assms(1,4-)
proof (induction n arbitrary: fl fs i N)
  case 0
  then show ?case by simp
next
  case (Suc n)
  then obtain N' where N: "N = Suc N'" "n < N'" by (cases N) auto
  have fl: "uint fl \<le> 32766"
    using lap_end_ge [OF _ assms(2) Suc.prems(1)] Suc.prems(1) by simp
  show ?case
  proof (cases "fs = 0")
    case True
    then have "laplace_enc_loop decay val i fl fs = (i, fl, 0)" by (subst laplace_enc_loop.simps) simp
    then show ?thesis using Suc.prems fl True N by (auto simp: laplace_dec_loop.simps laplaceMinP_def)
  next
    case False
    then have f0: "0 < uint fs" by (simp add: word_neq_0_conv u32_less)
    have nx: "lap_end n decay (uint fl + 2 * uint fs + 2) (2 * uint fs * decay div 32768) \<le> 32766"
      using Suc.prems(1) f0 by simp
    have le: "uint fl + 2 * uint fs + 2 \<le> 32766"
      using lap_end_ge [OF next_nonneg [OF _ assms(2)] assms(2) nx] nx by simp
    note st = lap_step [OF le assms(2,3)]
    have fb: "uint fs \<le> 16382" using le uint_ge_0 [of fl] by linarith
    then have f1: "uint (fs + 1) = uint fs + 1" by (subst u32_add) simp_all
    have m: "uint (2 * (fs + 1)) = 2 * uint fs + 2" using fb by (subst u32_mul) (simp_all add: f1)
    have bound: "uint (fl + 2 * (fs + 1)) = uint fl + 2 * uint fs + 2"
      using st(3) by (simp add: mult.commute)
    have pos: "1 < fs + 1" "0 < fs" using f0 by (simp_all add: u32_less f1)
    show ?thesis
    proof (cases "i < val")
      case False
      then have "laplace_enc_loop decay val i fl fs = (i, fl, fs)" by (subst laplace_enc_loop.simps) simp
      then have e: "fl' = fl" "fs' = fs" "j = i" using Suc.prems(3) by simp_all
      have "\<not> fl + 2 * (fs + 1) \<le> fm" using Suc.prems(5) f0 unfolding u32_le bound e by auto
      then show ?thesis using N False Suc.prems(2) le fl f0 unfolding e by (simp add: laplaceMinP_def)
    next
      case True
      let ?fl = "fl + (fs * 2 + 2)" and ?fs = "drop_bit 15 (fs * 2 * word_of_int decay) :: u32"
      have enc: "laplace_enc_loop decay val (i + 1) ?fl ?fs = (j, fl', fs')"
        using Suc.prems(3) True pos by (subst (asm) laplace_enc_loop.simps) (simp add: laplaceMinP_def Let_def)
      have "lap_end n decay (uint ?fl) (uint ?fs) \<le> 32766" using nx unfolding st(1,2) .
      from Suc.IH [OF this _ enc Suc.prems(4,5) N(2)] True
      have IH: "laplace_dec_loop N' decay fm ?fl (?fs + 1) (i + 1) = Ok (fl', fs' + 1, j)" "uint ?fl \<le> uint fl'"
        "uint fl' \<le> 32766 \<and> j \<le> val \<and> i + 1 \<le> j
          \<and> (fs' \<noteq> 0 \<longrightarrow> j = val \<and> uint fl' + 2 * uint fs' + 2 \<le> 32766)" by simp_all
      have "fl + 2 * (fs + 1) \<le> fm" using IH(2) Suc.prems(4) unfolding u32_le bound st(1) by linarith
      moreover have "fl + (fs + 1) * 2 = ?fl" "(fs + 1) * 2 - 2 = fs * 2" by (simp_all add: algebra_simps)
      ultimately have "laplace_dec_loop N decay fm fl (fs + 1) i = Ok (fl', fs' + 1, j)"
        using IH(1) pos N(1) by (simp add: laplaceMinP_def Let_def)
      moreover have "uint fl \<le> uint fl'" using IH(2) f0 unfolding st(1) by linarith
      ultimately show ?thesis using IH(3) by simp
    qed
  qed
qed

lemma int_xor_minus1: "(x + -1) XOR -1 = - (x :: int)"
  by (simp add: not_int_def)

lemma first_state:
  assumes "laplace_ok fs decay"
  shows "uint (ecLaplaceGetFreq1 fs decay) = (32736 - uint fs) * (16384 - decay) div 32768"
proof -
  have a: "uint fs \<le> 32736" "0 \<le> decay" "decay \<le> 16384" using assms by (simp_all add: laplace_ok_def u32_le)
  have 1: "uint (32736 - fs) = 32736 - uint fs" using a(1) by (subst u32_sub) simp_all
  have 2: "uint (word_of_int (16384 - decay) :: u32) = 16384 - decay" using a by (intro u32_of_int) simp_all
  have "(32736 - uint fs) * (16384 - decay) \<le> 32736 * 16384" using a by (intro mult_mono) simp_all
  then have "uint ((32736 - fs) * word_of_int (16384 - decay)) = (32736 - uint fs) * (16384 - decay)"
    by (subst u32_mul) (simp_all only: 1 2)
  then show ?thesis by (simp add: ecLaplaceGetFreq1_def laplaceMinP_def laplaceNmin_def u32_drop)
qed

lemma find_zero: "fm < fs \<Longrightarrow> fs \<le> 32768 \<Longrightarrow> laplace_find fs decay fm = Ok (0, 0, fs)"
  by (simp add: laplace_find_def u32_le u32_less Let_def)

lemma find_decay:
  assumes "fs \<le> fm" "laplace_dec_loop 8193 decay fm fs (ecLaplaceGetFreq1 fs decay + 1) 1 = Ok (fl, f, j)" "1 < f"
  shows "fm < fl + f \<Longrightarrow> fl + f \<le> 32768 \<Longrightarrow> laplace_find fs decay fm = Ok (- j, fl, fl + f)"
    and "fl + f \<le> fm \<Longrightarrow> fl + f + f \<le> 32768 \<Longrightarrow> laplace_find fs decay fm = Ok (j, fl + f, fl + f + f)"
  using assms by (auto simp: laplace_find_def laplaceMinP_def Let_def)

lemma find_tail:
  assumes "fs \<le> fm" "laplace_dec_loop 8193 decay fm fs (ecLaplaceGetFreq1 fs decay + 1) 1 = Ok (fl, 1, j)"
    and d: "0 \<le> d" "k = 0 \<or> k = 1" "uint fm = uint fl + 2 * d + k" "uint fm < 32768"
  shows "laplace_find fs decay fm = Ok (if k = 0 then - (j + d) else j + d, fm, fm + 1)"
proof -
  have le: "uint fl \<le> uint fm" using d(1,2,3) by auto
  have s: "uint (fm - fl) = 2 * d + k" using le d(3) by (subst u32_sub) simp_all
  define y where "y = drop_bit 1 (fm - fl)"
  have yS: "drop_bit (Suc 0) (fm - fl) = y" by (simp add: y_def)
  have x: "uint y = d" using d(2) unfolding y_def u32_drop s by auto
  have b: "d < 32768" using d uint_ge_0 [of fl] by linarith
  have 2: "uint (2 * y) = 2 * d" using b by (subst u32_mul) (simp_all add: x)
  let ?g = "fl + 2 * y"
  have g: "uint ?g = uint fl + 2 * d" using d by (subst u32_add) (auto simp: 2)
  have g1: "uint (?g + 1) = uint fl + 2 * d + 1" using d by (subst u32_add) (auto simp: g)
  have g2: "uint (fm + 1) = uint fm + 1" using d(4) by (subst u32_add) simp_all
  show ?thesis
  proof (cases "k = 0")
    case True
    then have e: "?g = fm" using g d(3) by (simp add: word_uint_eq_iff)
    moreover have "fm < fm + 1" "\<not> 32768 < fm + 1" using g2 d(4) by (simp_all add: u32_less)
    ultimately show ?thesis using assms(1,2) True x by (simp add: laplace_find_def laplaceMinP_def Let_def yS)
  next
    case False
    then have k: "k = 1" using d(2) by simp
    then have e: "?g + 1 = fm" using g1 d(3) by (simp add: word_uint_eq_iff)
    have "\<not> fm < ?g + 1" "\<not> 32768 < fm + 1" unfolding e using g2 d(4) by (simp_all add: u32_less)
    then show ?thesis using assms(1,2) k x e by (simp add: laplace_find_def laplaceMinP_def Let_def yS)
  qed
qed

lemma tail_length:
  assumes "uint gl \<le> 32766"
  shows "sint (32768 - gl + laplaceMinP - 1) = 32768 - uint gl"
proof -
  have 1: "uint (32768 - gl) = 32768 - uint gl" using assms by (subst u32_sub) simp_all
  have p: "(2 :: int) ^ 31 = 2147483648" by simp
  have "signed_take_bit 31 (32768 - uint gl) = 32768 - uint gl"
    using assms uint_ge_0 [of gl] by (intro signed_take_bit_int_eq_self; unfold p; linarith)
  then show ?thesis by (simp add: laplaceMinP_def sint_uint 1)
qed

lemma slot_found:
  assumes ok: "laplace_ok fs decay" and slot: "laplace_slot v fs decay = (x, fl, fh)"
  shows "freq_ok fl fh 32768 \<and> (\<forall>fm. fl \<le> fm \<longrightarrow> fm < fh \<longrightarrow> laplace_find fs decay fm = Ok (x, fl, fh))"
proof (cases "v = 0")
  case True
  then show ?thesis using slot ok find_zero [of _ fs decay]
    by (auto simp: laplace_slot_def laplace_ok_def freq_ok_def u32_less u32_le)
next
  case False
  define s :: int where "s = (if v < 0 then -1 else 0)"
  define val where "val = (v + s) XOR s"
  have val: "val = \<bar>v\<bar>" "1 \<le> val" using False by (auto simp: val_def s_def not_int_def)
  have w: "0 \<le> decay" "decay \<le> 16384" "lap_end 64 decay (uint fs) (uint (ecLaplaceGetFreq1 fs decay)) \<le> 32766"
    using ok first_state [OF ok] by (simp_all add: laplace_ok_def)
  obtain j gl g where enc: "laplace_enc_loop decay val 1 fs (ecLaplaceGetFreq1 fs decay) = (j, gl, g)"
    by (cases "laplace_enc_loop decay val 1 fs (ecLaplaceGetFreq1 fs decay)")
  have loops: "laplace_dec_loop 8193 decay fm fs (ecLaplaceGetFreq1 fs decay + 1) 1 = Ok (gl, g + 1, j)
    \<and> uint fs \<le> uint gl \<and> uint gl \<le> 32766 \<and> j \<le> val \<and> 1 \<le> j
    \<and> (g \<noteq> 0 \<longrightarrow> j = val \<and> uint gl + 2 * uint g + 2 \<le> 32766)"
    if "uint gl \<le> uint fm" "g = 0 \<or> uint fm < uint gl + 2 * uint g + 2" for fm
    using loops_agree [OF w(3,1,2) val(2) enc that, of 8193] by simp
  have "uint gl \<le> uint gl" "g = 0 \<or> uint gl < uint gl + 2 * uint g + 2" using uint_ge_0 [of g] by linarith+
  note b = loops [OF this, THEN conjunct2]
  have le: "fs \<le> fm" if "uint gl \<le> uint fm" for fm using that b by (simp add: u32_le)
  have gl0: "0 \<le> uint gl" by simp
  show ?thesis
  proof (cases "g = 0")
    case g: False
    then have g0: "0 < uint g" by (simp add: word_neq_0_conv u32_less)
    have jb: "j = val" "uint gl + 2 * uint g + 2 \<le> 32766" using b g by auto
    have gb: "uint g \<le> 16382" using jb(2) gl0 by linarith
    have g1: "uint (g + 1) = uint g + 1" using gb by (subst u32_add) simp_all
    have u1: "uint (gl + (g + 1)) = uint gl + uint g + 1" using jb(2) g0 by (subst u32_add) (simp_all add: g1)
    have u2: "uint (gl + (g + 1) + (g + 1)) = uint gl + 2 * uint g + 2" using jb(2) by (subst u32_add) (simp_all add: g1 u1)
    have p: "1 < g + 1" using g0 by (simp add: u32_less g1)
    show ?thesis
    proof (cases "v < 0")
      case True
      then have sl: "x = v" "fl = gl" "fh = gl + (g + 1)" "- j = v"
        using slot enc g False jb(1) val(1) unfolding laplace_slot_def Let_def val_def [symmetric] s_def [symmetric]
        by (auto simp: s_def laplaceMinP_def)
      have "laplace_find fs decay fm = Ok (x, fl, fh)" if "fl \<le> fm" "fm < fh" for fm
      proof -
        have fm: "uint gl \<le> uint fm" "uint fm < uint gl + uint g + 1" using that by (simp_all add: sl u32_le u32_less u1)
        then have "laplace_dec_loop 8193 decay fm fs (ecLaplaceGetFreq1 fs decay + 1) 1 = Ok (gl, g + 1, j)"
          using loops [of fm] g0 by auto
        from find_decay(1) [OF le [OF fm(1)] this p] show ?thesis
          using that jb g0 sl by (simp add: u32_le u1)
      qed
      moreover have "freq_ok fl fh 32768" using jb g0 by (simp add: freq_ok_def sl u32_less u32_le u1)
      ultimately show ?thesis by blast
    next
      case False2: False
      then have sl: "x = v" "fl = gl + (g + 1)" "fh = gl + (g + 1) + (g + 1)" "j = v"
        using slot enc g False jb(1) val(1) unfolding laplace_slot_def Let_def val_def [symmetric] s_def [symmetric]
        by (auto simp: s_def laplaceMinP_def)
      have "laplace_find fs decay fm = Ok (x, fl, fh)" if "fl \<le> fm" "fm < fh" for fm
      proof -
        have fm: "uint gl \<le> uint fm" "uint fm < uint gl + 2 * uint g + 2" using that g0 unfolding sl u32_le u32_less u1 u2 by linarith+
        then have "laplace_dec_loop 8193 decay fm fs (ecLaplaceGetFreq1 fs decay + 1) 1 = Ok (gl, g + 1, j)"
          using loops [of fm] by auto
        moreover have "gl + (g + 1) + (g + 1) \<le> 32768" unfolding u32_le u2 using jb by simp
        ultimately show ?thesis
          unfolding sl(1-3) sl(4) [symmetric] using that(1) sl(2) by (intro find_decay(2) [OF le [OF fm(1)] _ p]) simp_all
      qed
      moreover have "freq_ok fl fh 32768" unfolding freq_ok_def sl u32_less u32_le u1 u2 using jb g0 by simp
      ultimately show ?thesis by blast
    qed
  next
    case g: True
    have n: "sint (32768 - gl + laplaceMinP - 1) = 32768 - uint gl" using b by (intro tail_length) blast
    define ndi where "ndi = drop_bit 1 (32768 - uint gl - s)"
    define di where "di = min (val - j) (ndi - 1)"
    have s01: "s = 0 \<or> s = -1" by (simp add: s_def)
    have nd: "ndi = (32768 - uint gl - s) div 2" by (simp add: ndi_def drop_bit_eq_div)
    have "1 \<le> ndi" using b s01 unfolding nd by auto
    then have d0: "0 \<le> di" using b by (simp add: di_def)
    have dle: "uint gl + (2 * di + 1 + s) < 32768"
    proof -
      have "di \<le> ndi - 1" by (simp add: di_def)
      moreover have "2 * ndi \<le> 32768 - uint gl - s" unfolding nd by simp
      ultimately show ?thesis using s01 by auto
    qed
    have k0: "0 \<le> 2 * di + 1 + s" using d0 s01 by auto
    define w :: u32 where "w = word_of_int (2 * di + 1 + s)"
    have ds: "uint w = 2 * di + 1 + s"
      using dle k0 gl0 unfolding w_def by (intro u32_of_int) linarith+
    let ?fl = "gl + w"
    have uf: "uint ?fl = uint gl + (2 * di + 1 + s)" using dle by (subst u32_add) (simp_all add: ds)
    have t: "uint (32768 - ?fl) = 32768 - (uint gl + (2 * di + 1 + s))" using dle by (subst u32_sub) (simp_all add: uf)
    have t1: "(if laplaceMinP < 32768 - ?fl then laplaceMinP else 32768 - ?fl) = 1"
    proof (cases "uint gl + (2 * di + 1 + s) = 32767")
      case True
      then have "32768 - ?fl = 1" using t by (simp add: word_uint_eq_iff)
      then show ?thesis by (simp add: laplaceMinP_def)
    next
      case False
      then show ?thesis using dle by (simp add: laplaceMinP_def u32_less t)
    qed
    have f1: "uint (?fl + 1) = uint ?fl + 1" using dle by (subst u32_add) (simp_all add: uf)
    have m1: "uint laplaceMinP = 1" by (simp add: laplaceMinP_def)
    have "laplace_slot v fs decay = ((j + di + s) XOR s, ?fl, ?fl + 1)"
      unfolding laplace_slot_def Let_def val_def [symmetric] s_def [symmetric] enc prod.case n
        ndi_def [symmetric] di_def [symmetric] m1 mult_1_right w_def [symmetric] t1 if_P [OF False] if_P [OF g] ..
    then have sl: "x = (j + di + s) XOR s" "fl = ?fl" "fh = ?fl + 1" using slot by simp_all
    have "laplace_find fs decay fm = Ok (x, fl, fh)" if "fl \<le> fm" "fm < fh" for fm
    proof -
      have fm: "fm = ?fl" using that f1 by (simp add: sl u32_le u32_less word_uint_eq_iff)
      have ge: "uint gl \<le> uint fm" unfolding fm uf using k0 by simp
      from loops [OF ge] g have lp: "laplace_dec_loop 8193 decay fm fs (ecLaplaceGetFreq1 fs decay + 1) 1 = Ok (gl, 1, j)" by simp
      have "1 + s = 0 \<or> 1 + s = 1" "uint fm = uint gl + 2 * di + (1 + s)" "uint fm < 32768"
        using s01 dle by (auto simp: fm uf)
      from find_tail [OF le [OF ge] lp d0 this]
      show ?thesis using s01 sl fm by (auto simp: not_int_def)
    qed
    moreover have "freq_ok fl fh 32768" using dle f1 uf by (simp add: freq_ok_def sl u32_less u32_le)
    ultimately show ?thesis by blast
  qed
qed

section \<open>The code\<close>

text \<open>\<^verbatim>\<open>quant_coarse_energy\<close> goes on with the value the encoder returns.\<close>

fun put_laplace :: "u32 \<times> int \<Rightarrow> int \<Rightarrow> Encoder \<Rightarrow> Encoder go" where
  "put_laplace (fs, decay) v e = bnd (ecLaplaceEncode e v fs decay) (\<lambda>(v', e). Ok e)"

fun get_laplace :: "u32 \<times> int \<Rightarrow> Decoder \<Rightarrow> (int \<times> Decoder) go" where
  "get_laplace (fs, decay) d = ecLaplaceDecode d fs decay"

text \<open>The value that is coded: \<open>v\<close> itself, or the nearest one of the same sign the model has a slot for.\<close>

definition laplace_clamp :: "u32 \<Rightarrow> int \<Rightarrow> int \<Rightarrow> int" where
  "laplace_clamp fs decay v = fst (laplace_slot v fs decay)"

fun laplace_fits :: "u32 \<times> int \<Rightarrow> int \<Rightarrow> bool" where
  "laplace_fits (fs, decay) v = (laplace_ok fs decay \<and> laplace_clamp fs decay v = v)"

lemma laplace_undo:
  assumes ok: "laplace_ok fs decay"
  shows "undoes 24 (put_laplace (fs, decay) v) (get_laplace (fs, decay)) (laplace_clamp fs decay v)"
proof -
  obtain x fl fh where sl: "laplace_slot v fs decay = (x, fl, fh)" by (cases "laplace_slot v fs decay")
  note f = slot_found [OF ok sl]
  have p: "push_bit (unat (15 :: u32)) 1 = (32768 :: u32)" by simp
  define lookup where "lookup s = (case laplace_find fs decay s of Ok (v, fl, fh) \<Rightarrow> (Some v, fl, fh) | _ \<Rightarrow> (None, 0, 0))" for s
  have enc: "undoes 24 (\<lambda>e. Encode e fl fh 32768) (decode_with lookup 32768) (Some x)"
    using f by (intro undoes_Encode) (simp_all add: lookup_def)
  have "put_laplace (fs, decay) v = (\<lambda>e. Encode e fl fh 32768)"
  proof
    fix e
    have "bnd m Ok = m" for m :: "Encoder go" by (cases m) simp_all
    then show "put_laplace (fs, decay) v e = Encode e fl fh 32768"
      by (simp add: ecLaplaceEncode_def sl EncodeBin_Encode) (simp add: bnd_assoc)
  qed
  moreover have "undoes 24 (\<lambda>e. Encode e fl fh 32768) (get_laplace (fs, decay)) x"
  proof (rule undoes_map [OF enc])
    fix d d'
    assume d: "decode_with lookup 32768 d = Ok (Some x, d')"
    then show "get_laplace (fs, decay) d = Ok (x, d')"
      by (auto simp: ecLaplaceDecode_def decode_with_def DecodeBin_Decode bnd_eq_Ok lookup_def split: prod.splits res.splits)
  qed
  ultimately show ?thesis by (simp add: laplace_clamp_def sl)
qed

interpretation laplace: code put_laplace get_laplace laplace_fits 24
proof
  show "undoes 24 (put_laplace sh v) (get_laplace sh) v" if "laplace_fits sh v" for sh v
    using that laplace_undo by (cases sh) (metis laplace_fits.simps)
qed

section \<open>The guaranteed range\<close>

lemma enc_loop_bound:
  assumes "(uint fl - 2 * (i - 1)) * (16384 - decay) + 32768 * uint fs \<le> 32736 * (16384 - decay)" "0 \<le> decay" "decay < 16384"
    "lap_end n decay (uint fl) (uint fs) \<le> 32766" "laplace_enc_loop decay val i fl fs = (j, fl', fs')"
  shows "uint fl' - 2 * (j - 1) \<le> 32736"
  using assms(1,4,5)
proof (induction n arbitrary: fl fs i)
  case 0
  then show ?case by simp
next
  case (Suc n)
  have base: "uint fl - 2 * (i - 1) \<le> 32736"
  proof -
    have "(uint fl - 2 * (i - 1)) * (16384 - decay) \<le> 32736 * (16384 - decay)" using Suc.prems(1) uint_ge_0 [of fs] by linarith
    then show ?thesis by (rule mult_right_le_imp_le) (use assms(3) in simp)
  qed
  show ?case
  proof (cases "0 < fs \<and> i < val")
    case False
    have "laplace_enc_loop decay val i fl fs = (i, fl, fs)"
      by (subst laplace_enc_loop.simps) (simp only: False if_False)
    with base Suc.prems(3) show ?thesis by simp
  next
    case True
    then have f0: "0 < uint fs" by (simp add: u32_less)
    have nx: "lap_end n decay (uint fl + 2 * uint fs + 2) (2 * uint fs * decay div 32768) \<le> 32766"
      using Suc.prems(2) f0 by simp
    have le: "uint fl + 2 * uint fs + 2 \<le> 32766"
      using lap_end_ge [OF next_nonneg [OF _ assms(2)] assms(2) nx] nx by simp
    have d: "decay \<le> 16384" using assms(3) by simp
    note st = lap_step [OF le assms(2) d]
    let ?fl = "fl + (fs * 2 + 2)" and ?fs = "drop_bit 15 (fs * 2 * word_of_int decay) :: u32"
    have enc: "laplace_enc_loop decay val (i + 1) ?fl ?fs = (j, fl', fs')"
      using Suc.prems(3) True by (subst (asm) laplace_enc_loop.simps) (simp add: laplaceMinP_def Let_def)
    have "32768 * uint ?fs \<le> 2 * uint fs * decay" unfolding st(2) by (rule mult_div_le) simp
    moreover have "(uint ?fl - 2 * (i + 1 - 1)) * (16384 - decay)
        = (uint fl - 2 * (i - 1)) * (16384 - decay) + 2 * uint fs * (16384 - decay)"
      unfolding st(1) by (simp add: algebra_simps)
    moreover have "2 * uint fs * (16384 - decay) + 2 * uint fs * decay = 32768 * uint fs" by (simp add: algebra_simps)
    ultimately have inv: "(uint ?fl - 2 * (i + 1 - 1)) * (16384 - decay) + 32768 * uint ?fs \<le> 32736 * (16384 - decay)"
      using Suc.prems(1) by linarith
    have "lap_end n decay (uint ?fl) (uint ?fs) \<le> 32766" using nx unfolding st(1,2) .
    from Suc.IH [OF inv this enc] show ?thesis .
  qed
qed

lemma slot_small:
  assumes ok: "laplace_ok fs decay" and d: "decay < 16384" and v: "-16 \<le> v" "v \<le> 16"
  shows "laplace_clamp fs decay v = v"
proof (cases "v = 0")
  case True
  then show ?thesis by (simp add: laplace_clamp_def laplace_slot_def)
next
  case False
  define s :: int where "s = (if v < 0 then -1 else 0)"
  define val where "val = (v + s) XOR s"
  have val: "val = \<bar>v\<bar>" "1 \<le> val" using False by (auto simp: val_def s_def not_int_def)
  have w: "0 \<le> decay" "decay \<le> 16384" "uint fs \<le> 32736"
    "lap_end 64 decay (uint fs) (uint (ecLaplaceGetFreq1 fs decay)) \<le> 32766"
    using ok first_state [OF ok] by (simp_all add: laplace_ok_def u32_le)
  obtain j gl g where enc: "laplace_enc_loop decay val 1 fs (ecLaplaceGetFreq1 fs decay) = (j, gl, g)"
    by (cases "laplace_enc_loop decay val 1 fs (ecLaplaceGetFreq1 fs decay)")
  have g0: "uint gl \<le> uint gl" "g = 0 \<or> uint gl < uint gl + 2 * uint g + 2" using uint_ge_0 [of g] by linarith+
  have b: "uint gl \<le> 32766" "j \<le> val" "1 \<le> j" "g \<noteq> 0 \<longrightarrow> j = val"
    using loops_agree [OF w(4,1,2) val(2) enc g0, of 65] by simp_all
  have "32768 * uint (ecLaplaceGetFreq1 fs decay) \<le> (32736 - uint fs) * (16384 - decay)"
    unfolding first_state [OF ok] by (rule mult_div_le) simp
  then have "(uint fs - 2 * (1 - 1)) * (16384 - decay) + 32768 * uint (ecLaplaceGetFreq1 fs decay) \<le> 32736 * (16384 - decay)"
    by (simp add: algebra_simps)
  from enc_loop_bound [OF this w(1) d w(4) enc] have gb: "uint gl - 2 * (j - 1) \<le> 32736" .
  show ?thesis
  proof (cases "g = 0")
    case g: False
    then show ?thesis using False enc
      unfolding laplace_clamp_def laplace_slot_def Let_def val_def [symmetric] s_def [symmetric] by simp
  next
    case g: True
    have n: "sint (32768 - gl + laplaceMinP - 1) = 32768 - uint gl" using b(1) by (rule tail_length)
    let ?ndi = "drop_bit 1 (32768 - uint gl - s)"
    have nd: "?ndi = (32768 - uint gl - s) div 2" by (simp add: drop_bit_eq_div)
    have s01: "s = 0 \<or> s = -1" by (simp add: s_def)
    have "16 - j \<le> ?ndi - 1" unfolding nd using gb s01 by auto
    then have "min (val - j) (?ndi - 1) = val - j" using val(1) v by simp
    then have "laplace_clamp fs decay v = (j + (val - j) + s) XOR s"
      using False enc g n unfolding laplace_clamp_def laplace_slot_def Let_def val_def [symmetric] s_def [symmetric]
      by simp
    also have "\<dots> = v" using val(1) by (auto simp: s_def not_int_def)
    finally show ?thesis .
  qed
qed

text \<open>The pair of band \<open>b\<close> of a row, as \<^verbatim>\<open>quant_coarse_energy\<close> scales it.\<close>

definition band_model :: "int list \<Rightarrow> nat \<Rightarrow> u32 \<times> int" where
  "band_model row b = (push_bit 7 (word_of_int (row ! (2 * b))), push_bit 6 (row ! (2 * b + 1)))"

lemma eProbModel_ok:
  "list_all (list_all (\<lambda>row. list_all (\<lambda>b. case band_model row b of (fs, decay) \<Rightarrow>
     laplace_ok fs decay \<and> decay < 16384) [0..<21])) eProbModel"
  by code_simp

section \<open>Any stream\<close>

lemma dec_loop_total:
  assumes "lap_end n decay (uint fl) (uint fs) \<le> 32766" "0 \<le> decay" "decay \<le> 16384" "uint fl \<le> uint fm" "n < N"
  shows "\<exists>fl' fs' j. laplace_dec_loop N decay fm fl (fs + 1) i = Ok (fl', fs' + 1, j) \<and> uint fl' \<le> uint fm
    \<and> uint fl' \<le> 32766 \<and> (fs' = 0 \<or> uint fm < uint fl' + 2 * uint fs' + 2 \<and> uint fl' + 2 * uint fs' + 2 \<le> 32766)"
  using assms(1,4,5)
proof (induction n arbitrary: fl fs i N)
  case 0
  then show ?case by simp
next
  case (Suc n)
  then obtain N' where N: "N = Suc N'" "n < N'" by (cases N) auto
  have fl: "uint fl \<le> 32766"
    using lap_end_ge [OF _ assms(2) Suc.prems(1)] Suc.prems(1) by simp
  show ?case
  proof (cases "fs = 0")
    case True
    then show ?thesis using Suc.prems fl N by (intro exI [of _ fl] exI [of _ 0] exI [of _ i]) (simp add: laplaceMinP_def)
  next
    case False
    then have f0: "0 < uint fs" by (simp add: word_neq_0_conv u32_less)
    have nx: "lap_end n decay (uint fl + 2 * uint fs + 2) (2 * uint fs * decay div 32768) \<le> 32766"
      using Suc.prems(1) f0 by simp
    have le: "uint fl + 2 * uint fs + 2 \<le> 32766"
      using lap_end_ge [OF next_nonneg [OF _ assms(2)] assms(2) nx] nx by simp
    note st = lap_step [OF le assms(2,3)]
    have fb: "uint fs \<le> 16382" using le uint_ge_0 [of fl] by linarith
    then have f1: "uint (fs + 1) = uint fs + 1" by (subst u32_add) simp_all
    have bound: "uint (fl + 2 * (fs + 1)) = uint fl + 2 * uint fs + 2"
      using st(3) by (simp add: mult.commute)
    have pos: "1 < fs + 1" using f0 by (simp add: u32_less f1)
    show ?thesis
    proof (cases "fl + 2 * (fs + 1) \<le> fm")
      case False
      then have "uint fm < uint fl + 2 * uint fs + 2" unfolding u32_le bound by simp
      moreover have "laplace_dec_loop N decay fm fl (fs + 1) i = Ok (fl, fs + 1, i)"
        using False N by (simp add: laplaceMinP_def)
      ultimately show ?thesis using Suc.prems(2) le fl by (intro exI [of _ fl] exI [of _ fs] exI [of _ i]) simp
    next
      case True
      let ?fl = "fl + (fs * 2 + 2)" and ?fs = "drop_bit 15 (fs * 2 * word_of_int decay) :: u32"
      have "lap_end n decay (uint ?fl) (uint ?fs) \<le> 32766" using nx unfolding st(1,2) .
      moreover have "uint ?fl \<le> uint fm" using True unfolding u32_le bound st(1) .
      ultimately obtain fl' fs' j where IH: "laplace_dec_loop N' decay fm ?fl (?fs + 1) (i + 1) = Ok (fl', fs' + 1, j)"
        "uint fl' \<le> uint fm \<and> uint fl' \<le> 32766 \<and> (fs' = 0 \<or> uint fm < uint fl' + 2 * uint fs' + 2 \<and> uint fl' + 2 * uint fs' + 2 \<le> 32766)"
        using Suc.IH [of ?fl ?fs N' "i + 1"] N(2) by blast
      have "fl + (fs + 1) * 2 = ?fl" "(fs + 1) * 2 - 2 = fs * 2" by (simp_all add: algebra_simps)
      then have "laplace_dec_loop N decay fm fl (fs + 1) i = Ok (fl', fs' + 1, j)"
        using IH(1) True pos N(1) by (simp add: laplaceMinP_def Let_def)
      with IH(2) show ?thesis by blast
    qed
  qed
qed

lemma laplace_find_total:
  assumes ok: "laplace_ok fs decay" and fm: "fm < 32768"
  shows "\<exists>v fl fh. laplace_find fs decay fm = Ok (v, fl, fh) \<and> fl \<le> fm \<and> fm < fh \<and> fh \<le> 32768"
proof (cases "fm < fs")
  case True
  then show ?thesis using find_zero [OF True] ok by (auto simp: laplace_ok_def u32_le)
next
  case False
  then have le: "fs \<le> fm" by simp
  have w: "0 \<le> decay" "decay \<le> 16384" "lap_end 64 decay (uint fs) (uint (ecLaplaceGetFreq1 fs decay)) \<le> 32766"
    using ok first_state [OF ok] by (simp_all add: laplace_ok_def)
  have "uint fs \<le> uint fm" using le by (simp only: u32_le)
  from dec_loop_total [OF w(3,1,2) this, of 8193 1]
  obtain gl g j where lp: "laplace_dec_loop 8193 decay fm fs (ecLaplaceGetFreq1 fs decay + 1) 1 = Ok (gl, g + 1, j)"
    and b: "uint gl \<le> uint fm" "uint gl \<le> 32766"
      "g = 0 \<or> uint fm < uint gl + 2 * uint g + 2 \<and> uint gl + 2 * uint g + 2 \<le> 32766" by auto
  have f: "uint fm < 32768" using fm by (simp add: u32_less)
  show ?thesis
  proof (cases "g = 0")
    case True
    define d where "d = (uint fm - uint gl) div 2"
    define k where "k = (uint fm - uint gl) mod 2"
    have d: "0 \<le> d" "k = 0 \<or> k = 1" "uint fm = uint gl + 2 * d + k"
      using b(1) mult_div_mod_eq [of 2 "uint fm - uint gl"] by (auto simp: d_def k_def pos_imp_zdiv_nonneg_iff)
    have s: "uint (fm + 1) = uint fm + 1" using f by (subst u32_add) simp_all
    have "laplace_dec_loop 8193 decay fm fs (ecLaplaceGetFreq1 fs decay + 1) 1 = Ok (gl, 1, j)" using lp True by simp
    from find_tail [OF le this d f] show ?thesis using f by (auto simp: u32_less u32_le s)
  next
    case False
    then have g0: "0 < uint g" by (simp add: word_neq_0_conv u32_less)
    have c: "uint fm < uint gl + 2 * uint g + 2" "uint gl + 2 * uint g + 2 \<le> 32766" using b(3) False by auto
    have gb: "uint g \<le> 16382" using c(2) uint_ge_0 [of gl] by linarith
    have g1: "uint (g + 1) = uint g + 1" using gb by (subst u32_add) simp_all
    have u1: "uint (gl + (g + 1)) = uint gl + uint g + 1" using c g0 by (subst u32_add) (simp_all add: g1)
    have u2: "uint (gl + (g + 1) + (g + 1)) = uint gl + 2 * uint g + 2" using c by (subst u32_add) (simp_all add: g1 u1)
    have p: "1 < g + 1" using g0 by (simp add: u32_less g1)
    show ?thesis
    proof (cases "fm < gl + (g + 1)")
      case True
      moreover have "gl + (g + 1) \<le> 32768" unfolding u32_le u1 using c g0 by simp
      ultimately show ?thesis using find_decay(1) [OF le lp p] b(1) by (auto simp: u32_le)
    next
      case False
      then have ge: "gl + (g + 1) \<le> fm" by simp
      have up: "gl + (g + 1) + (g + 1) \<le> 32768" unfolding u32_le u2 using c by simp
      have "fm < gl + (g + 1) + (g + 1)" unfolding u32_less u2 using c(1) .
      with find_decay(2) [OF le lp p ge up] ge up show ?thesis by blast
    qed
  qed
qed

lemma ecLaplaceDecode_total:
  assumes wf: "dec_wf S d" and ok: "laplace_ok fs decay"
  shows "\<exists>v d'. ecLaplaceDecode d fs decay = Ok (v, d') \<and> dec_wf S d'"
proof -
  have ft: "(0 :: u32) < 32768" "(32768 :: u32) \<le> 8388608" by simp_all
  obtain s where s: "Decode d 32768 = Ok (s, d\<lparr>d_ext := d_rng d div 32768\<rparr>)" "s < 32768"
    "\<forall>fl fh. fl \<le> s \<longrightarrow> s < fh \<longrightarrow> fh \<le> 32768 \<longrightarrow> (\<exists>d'. DecUpdate (d\<lparr>d_ext := d_rng d div 32768\<rparr>) fl fh 32768 = Ok d' \<and> dec_wf S d')"
    using Decode_total [OF wf ft] by blast
  obtain v fl fh where f: "laplace_find fs decay s = Ok (v, fl, fh)" "fl \<le> s" "s < fh" "fh \<le> 32768"
    using laplace_find_total [OF ok s(2)] by blast
  obtain d' where "DecUpdate (d\<lparr>d_ext := d_rng d div 32768\<rparr>) fl fh 32768 = Ok d'" "dec_wf S d'" using s(3) f by blast
  then show ?thesis using s(1) f(1) by (simp add: ecLaplaceDecode_def DecodeBin_Decode)
qed

section \<open>Properties\<close>

text \<open>C16: The Laplace coder round trip: for every model whose decaying part ends in time, decoding
  returns the value the encoder reports as coded (\<^verbatim>\<open>*value\<close> after clamping), for every value, and
  leaves the decoder in step with the encoder.\<close>

theorem laplace_roundtrip:
  assumes "laplace_ok fs decay"
  shows "undoes 24 (put_laplace (fs, decay) v) (get_laplace (fs, decay)) (laplace_clamp fs decay v)"
  using assms by (rule laplace_undo)

lemma laplace_roundtrip_witness:
  "undoes 24 (put_laplace (9216, 8128) 300) (get_laplace (9216, 8128)) (laplace_clamp 9216 8128 300)"
  by (rule laplace_roundtrip) code_simp

text \<open>The comment's guarantee of 16 energy deltas in either direction (\<^verbatim>\<open>LAPLACE_NMIN\<close>): with any
  model the coder can use, a delta of at most 16 is coded exactly, never clamped.\<close>

theorem laplace_guaranteed_range:
  assumes "laplace_ok fs decay" "decay < 16384" "-16 \<le> v" "v \<le> 16"
  shows "laplace_clamp fs decay v = v"
  using assms by (rule slot_small)

lemma laplace_guaranteed_range_witness: "laplace_clamp 9216 8128 (-16) = -16"
  by (rule laplace_guaranteed_range) (code_simp, simp_all)

lemma energies_ok:
  assumes "\<And>b. b < 21 \<Longrightarrow> laplace_ok (fst (band_model row b)) (snd (band_model row b)) \<and> snd (band_model row b) < 16384"
    "list_all (\<lambda>v. -16 \<le> v \<and> v \<le> 16) vs"
  shows "all_ok laplace_fits (\<lambda>past. band_model row (length past mod 21)) past vs"
  using assms(2)
proof (induction vs arbitrary: past)
  case (Cons v vs)
  obtain fs decay where m: "band_model row (length past mod 21) = (fs, decay)" by (cases "band_model row (length past mod 21)")
  have "laplace_ok fs decay" "decay < 16384" using assms(1) [of "length past mod 21"] by (simp_all add: m)
  then have "laplace_fits (fs, decay) v" using slot_small [of fs decay v] Cons.prems by simp
  with Cons show ?case by (simp add: m)
qed simp

text \<open>With the probability model of the codec, for every frame size, prediction type and band, any
  sequence of energy deltas of at most 16 in either direction is read back as it was written,
  through a whole session of the range coder.\<close>

theorem energy_session_roundtrip:
  assumes "row \<in> set (concat eProbModel)" "list_all (\<lambda>v. -16 \<le> v \<and> v \<le> 16) vs"
    "len buf < 4294967296" "24 * length vs < 4294967200"
  shows "\<exists>e e'. write_all put_laplace (\<lambda>past. band_model row (length past mod 21)) [] vs (Enc_Init buf) = Ok e
    \<and> EncDone e = Ok e'
    \<and> (e_error e' = 0 \<longrightarrow> (\<exists>d d'. Dec_Init d0 (e_buf e') = Ok d
         \<and> read_all get_laplace (\<lambda>past. band_model row (length past mod 21)) [] (length vs) d = Ok (vs, d')
         \<and> d_error d' = 0 \<and> d_rng d' = e_rng e \<and> Dec_Tell d' = Enc_Tell e))"
proof (rule laplace.session [OF energies_ok assms(3,4)])
  fix b :: nat
  assume "b < 21"
  then have "b \<in> set [0..<21]" by simp
  moreover obtain rows where "rows \<in> set eProbModel" "row \<in> set rows" using assms(1) by auto
  then have "list_all (\<lambda>b. case band_model row b of (fs, decay) \<Rightarrow> laplace_ok fs decay \<and> decay < 16384) [0..<21]"
    using eProbModel_ok [unfolded list_all_iff, THEN bspec, THEN bspec] unfolding list_all_iff by simp
  ultimately show "laplace_ok (fst (band_model row b)) (snd (band_model row b)) \<and> snd (band_model row b) < 16384"
    unfolding list_all_iff by (auto simp: case_prod_beta)
qed (rule assms(2))

lemma energy_session_roundtrip_witness:
  "\<exists>e e'. write_all put_laplace (\<lambda>past. band_model (hd (hd eProbModel)) (length past mod 21)) [] [3, -1, 0, 16] (Enc_Init (replicate 9 0)) = Ok e
    \<and> EncDone e = Ok e'
    \<and> (e_error e' = 0 \<longrightarrow> (\<exists>d d'. Dec_Init zero_dec (e_buf e') = Ok d
         \<and> read_all get_laplace (\<lambda>past. band_model (hd (hd eProbModel)) (length past mod 21)) [] (length [3, -1, 0, 16 :: int]) d = Ok ([3, -1, 0, 16], d')
         \<and> d_error d' = 0 \<and> d_rng d' = e_rng e \<and> Dec_Tell d' = Enc_Tell e))"
  by (rule energy_session_roundtrip) (simp_all add: eProbModel_def)

text \<open>C34: Whatever the stream, from a well-formed decoder state and for an admissible model the Laplace decoder
  returns: its search loop ends within the fuel, and it leaves the decoder well-formed.\<close>

theorem laplace_decoder_total:
  assumes "dec_wf S d" "laplace_ok fs decay"
  shows "\<exists>v d'. ecLaplaceDecode d fs decay = Ok (v, d') \<and> dec_wf S d'"
  using assms by (rule ecLaplaceDecode_total)

lemma laplace_decoder_total_witness:
  "\<exists>d v d'. Dec_Init zero_dec [200, 3] = Ok d \<and> ecLaplaceDecode d 9216 8128 = Ok (v, d') \<and> dec_wf [200, 3] d'"
proof -
  obtain d where d: "Dec_Init zero_dec [200, 3] = Ok d" "dec_rel d [200, 3] 4 0 2147483648 0" using Dec_Init_rel [of "[200, 3]" zero_dec] by auto
  then have "dec_wf [200, 3] d" unfolding dec_wf_def by (intro exI conjI) (assumption, simp)
  moreover have "laplace_ok 9216 8128" by code_simp
  ultimately show ?thesis using laplace_decoder_total d(1) by blast
qed

end
