(* ===== verification/Fixedmath.thy ===== *)
theory Fixedmath
  imports RangeCoder
begin

text \<open>
  The fixed-point arithmetic of the CELT codec (\<^verbatim>\<open>internal/fixedmath\<close>: \<^verbatim>\<open>fixed_generic.go\<close>,
  \<^verbatim>\<open>mathops.go\<close>).  Go's \<^verbatim>\<open>int16\<close>, \<^verbatim>\<open>int32\<close> and \<^verbatim>\<open>int64\<close> are words read with \<open>sint\<close>, so every
  operation wraps at the width it has in Go; a conversion that narrows is \<open>ucast\<close>, one that widens
  \<open>scast\<close>, and \<^verbatim>\<open>>>\<close> on them is \<open>signed_drop_bit\<close>.  Shift counts are natural numbers, as they are at
  every call (a negative count, which panics in Go, is a \<open>Panic\<close> where it can occur).  The two
  compile-time conversions of float constants are not modelled.
\<close>

type_synonym i16 = "16 word"
type_synonym i32 = "32 word"
type_synonym i64 = "64 word"

section \<open>The macros (fixed_generic.go)\<close>

definition EXTEND32 :: "i16 \<Rightarrow> i32" where "EXTEND32 x = scast x"
definition EXTRACT16 :: "i32 \<Rightarrow> i16" where "EXTRACT16 x = ucast x"
definition NEG16 :: "i16 \<Rightarrow> i32" where "NEG16 x = - scast x"
definition NEG32 :: "i32 \<Rightarrow> i32" where "NEG32 x = - x"
definition SHR16 :: "i16 \<Rightarrow> nat \<Rightarrow> i16" where "SHR16 a shift = signed_drop_bit shift a"
definition SHL16 :: "i16 \<Rightarrow> nat \<Rightarrow> i16" where "SHL16 a shift = push_bit shift a"
definition SHR32 :: "i32 \<Rightarrow> nat \<Rightarrow> i32" where "SHR32 a shift = signed_drop_bit shift a"
definition SHL32 :: "i32 \<Rightarrow> nat \<Rightarrow> i32" where "SHL32 a shift = push_bit shift a"

definition PSHR32 :: "i32 \<Rightarrow> nat \<Rightarrow> i32" where
  "PSHR32 a shift = SHR32 (a + signed_drop_bit 1 (push_bit shift 1)) shift"

definition VSHR32 :: "i32 \<Rightarrow> int \<Rightarrow> i32" where
  "VSHR32 a shift = (if shift > 0 then SHR32 a (nat shift) else SHL32 a (nat (- shift)))"

definition SATURATE :: "i32 \<Rightarrow> i32 \<Rightarrow> i32" where
  "SATURATE x a = (if a <s x then a else if x <s - a then - a else x)"

definition SATURATE16 :: "i32 \<Rightarrow> i16" where
  "SATURATE16 x = (if 32767 <s x then 32767 else if x <s -32768 then -32768 else ucast x)"

definition ROUND16 :: "i32 \<Rightarrow> nat \<Rightarrow> i16" where "ROUND16 x a = EXTRACT16 (PSHR32 x a)"
definition SROUND16 :: "i32 \<Rightarrow> nat \<Rightarrow> i16" where "SROUND16 x a = EXTRACT16 (SATURATE (PSHR32 x a) 32767)"

text \<open>Division truncates towards zero and panics on a zero divisor.\<close>

definition DIV32 :: "i32 \<Rightarrow> i32 \<Rightarrow> i32 go" where
  "DIV32 a b = (if b = 0 then Panic else Ok (word_of_int (sint a sdiv sint b)))"

definition DIV32_16 :: "i32 \<Rightarrow> i16 \<Rightarrow> i16 go" where
  "DIV32_16 a b = (if b = 0 then Panic else Ok (ucast (word_of_int (sint a sdiv sint (scast b :: i32)) :: i32)))"

definition HALF16 :: "i16 \<Rightarrow> i16" where "HALF16 x = SHR16 x 1"
definition HALF32 :: "i32 \<Rightarrow> i32" where "HALF32 x = SHR32 x 1"
definition ADD16 :: "i16 \<Rightarrow> i16 \<Rightarrow> i16" where "ADD16 a b = a + b"
definition SUB16 :: "i16 \<Rightarrow> i16 \<Rightarrow> i32" where "SUB16 a b = scast a - scast b"
definition ADD32 :: "i32 \<Rightarrow> i32 \<Rightarrow> i32" where "ADD32 a b = a + b"
definition SUB32 :: "i32 \<Rightarrow> i32 \<Rightarrow> i32" where "SUB32 a b = a - b"
definition ADD32_ovflw :: "i32 \<Rightarrow> i32 \<Rightarrow> i32" where "ADD32_ovflw a b = a + b"
definition SUB32_ovflw :: "i32 \<Rightarrow> i32 \<Rightarrow> i32" where "SUB32_ovflw a b = a - b"
definition NEG32_ovflw :: "i32 \<Rightarrow> i32" where "NEG32_ovflw a = 0 - a"
definition SHL32_ovflw :: "i32 \<Rightarrow> nat \<Rightarrow> i32" where "SHL32_ovflw a shift = SHL32 a shift"

definition PSHR32_ovflw :: "i32 \<Rightarrow> nat \<Rightarrow> i32" where
  "PSHR32_ovflw a shift = SHR32 (ADD32_ovflw a (signed_drop_bit 1 (push_bit shift 1))) shift"

definition MIN16 :: "i32 \<Rightarrow> i32 \<Rightarrow> i32" where "MIN16 a b = (if a <s b then a else b)"
definition MAX16 :: "i32 \<Rightarrow> i32 \<Rightarrow> i32" where "MAX16 a b = (if b <s a then a else b)"
definition MIN32 :: "i32 \<Rightarrow> i32 \<Rightarrow> i32" where "MIN32 a b = (if a <s b then a else b)"
definition MAX32 :: "i32 \<Rightarrow> i32 \<Rightarrow> i32" where "MAX32 a b = (if b <s a then a else b)"
definition IMIN :: "int \<Rightarrow> int \<Rightarrow> int" where "IMIN a b = (if a < b then a else b)"
definition IMAX :: "int \<Rightarrow> int \<Rightarrow> int" where "IMAX a b = (if a > b then a else b)"
definition ABS16 :: "i16 \<Rightarrow> i32" where "ABS16 x = (if x <s 0 then - scast x else scast x)"
definition ABS32 :: "i32 \<Rightarrow> i32" where "ABS32 x = (if x <s 0 then - x else x)"

definition SHR64 :: "i64 \<Rightarrow> nat \<Rightarrow> i64" where "SHR64 a shift = signed_drop_bit shift a"

definition MULT16_16SU :: "i16 \<Rightarrow> u16 \<Rightarrow> i32" where "MULT16_16SU a b = scast a * ucast b"
definition MULT16_16 :: "i16 \<Rightarrow> i16 \<Rightarrow> i32" where "MULT16_16 a b = scast a * scast b"
definition MAC16_16 :: "i32 \<Rightarrow> i16 \<Rightarrow> i16 \<Rightarrow> i32" where "MAC16_16 c a b = ADD32 c (MULT16_16 a b)"
definition MULT16_16_Q11 :: "i16 \<Rightarrow> i16 \<Rightarrow> i32" where "MULT16_16_Q11 a b = SHR32 (MULT16_16 a b) 11"
definition MULT16_16_Q13 :: "i16 \<Rightarrow> i16 \<Rightarrow> i32" where "MULT16_16_Q13 a b = SHR32 (MULT16_16 a b) 13"
definition MULT16_16_Q14 :: "i16 \<Rightarrow> i16 \<Rightarrow> i32" where "MULT16_16_Q14 a b = SHR32 (MULT16_16 a b) 14"
definition MULT16_16_Q15 :: "i16 \<Rightarrow> i16 \<Rightarrow> i32" where "MULT16_16_Q15 a b = SHR32 (MULT16_16 a b) 15"
definition MULT16_16_P13 :: "i16 \<Rightarrow> i16 \<Rightarrow> i32" where "MULT16_16_P13 a b = SHR32 (ADD32 4096 (MULT16_16 a b)) 13"
definition MULT16_16_P14 :: "i16 \<Rightarrow> i16 \<Rightarrow> i32" where "MULT16_16_P14 a b = SHR32 (ADD32 8192 (MULT16_16 a b)) 14"
definition MULT16_16_P15 :: "i16 \<Rightarrow> i16 \<Rightarrow> i32" where "MULT16_16_P15 a b = SHR32 (ADD32 16384 (MULT16_16 a b)) 15"

definition MULT16_32_Q16 :: "i16 \<Rightarrow> i32 \<Rightarrow> i32" where
  "MULT16_32_Q16 a b = ucast (SHR64 (scast a * scast b) 16)"

definition MULT16_32_P16 :: "i16 \<Rightarrow> i32 \<Rightarrow> i32" where
  "MULT16_32_P16 a b = ucast (signed_drop_bit 16 (scast a * scast b + signed_drop_bit 1 (push_bit 16 1)) :: i64)"

definition MULT16_32_Q15 :: "i16 \<Rightarrow> i32 \<Rightarrow> i32" where
  "MULT16_32_Q15 a b = ucast (SHR64 (scast a * scast b) 15)"

definition MULT32_32_Q31 :: "i32 \<Rightarrow> i32 \<Rightarrow> i32" where
  "MULT32_32_Q31 a b = ucast (SHR64 (scast a * scast b) 31)"

definition MULT32_32_P31 :: "i32 \<Rightarrow> i32 \<Rightarrow> i32" where
  "MULT32_32_P31 a b = ucast (SHR64 (1073741824 + scast a * scast b) 31)"

definition MULT32_32_P31_ovflw :: "i32 \<Rightarrow> i32 \<Rightarrow> i32" where "MULT32_32_P31_ovflw a b = MULT32_32_P31 a b"

definition MAC16_32_Q15 :: "i32 \<Rightarrow> i16 \<Rightarrow> i32 \<Rightarrow> i32" where
  "MAC16_32_Q15 c a b = ADD32 c (ADD32 (MULT16_16 a (EXTRACT16 (SHR32 b 15)))
     (SHR32 (MULT16_16 a (EXTRACT16 (b AND 0x00007fff))) 15))"

definition MAC16_32_Q16 :: "i32 \<Rightarrow> i16 \<Rightarrow> i32 \<Rightarrow> i32" where
  "MAC16_32_Q16 c a b = ADD32 c (ADD32 (MULT16_16 a (EXTRACT16 (SHR32 b 16)))
     (SHR32 (MULT16_16SU a (ucast (b AND 0x0000ffff))) 16))"

definition Celt_udiv :: "u32 \<Rightarrow> u32 \<Rightarrow> u32 go" where
  "Celt_udiv n d = (if d = 0 then Panic else Ok (n div d))"

definition Celt_sudiv :: "i32 \<Rightarrow> i32 \<Rightarrow> i32 go" where
  "Celt_sudiv n d = (if d = 0 then Panic else Ok (word_of_int (sint n sdiv sint d)))"

section \<open>Logarithms and roots (mathops.go)\<close>

definition EC_ILOG :: "u32 \<Rightarrow> int" where "EC_ILOG x = int (bit_length (unat x))"
definition Ec_ilog :: "u32 \<Rightarrow> int" where "Ec_ilog v = int (bit_length (unat v))"
definition Celt_ilog2 :: "i32 \<Rightarrow> int" where "Celt_ilog2 x = EC_ILOG x - 1"
definition Celt_zlog2 :: "i32 \<Rightarrow> int" where "Celt_zlog2 x = (if x \<le>s 0 then 0 else Celt_ilog2 x)"

text \<open>The loop of \<^verbatim>\<open>Isqrt32\<close>; the first argument is \<^verbatim>\<open>bshift\<close>, and the round with 0 is the last.\<close>

fun isqrt_loop :: "nat \<Rightarrow> u32 \<Rightarrow> u32 \<Rightarrow> u32 \<Rightarrow> u32" where
  "isqrt_loop bshift g b val =
     (let t = push_bit bshift (push_bit 1 g + b);
          g' = (if t \<le> val then g + b else g);
          val' = (if t \<le> val then val - t else val) in
      case bshift of 0 \<Rightarrow> g' | Suc n \<Rightarrow> isqrt_loop n g' (drop_bit 1 b) val')"

declare isqrt_loop.simps [simp del]

text \<open>For 0 the shift count is negative.\<close>

definition Isqrt32 :: "u32 \<Rightarrow> u32 go" where
  "Isqrt32 val =
     (let bshift = drop_bit 1 (EC_ILOG val - 1) in
      if bshift < 0 then Panic else Ok (isqrt_loop (nat bshift) 0 (push_bit (nat bshift) 1) val))"

definition Celt_rsqrt_norm :: "i32 \<Rightarrow> i16" where
  "Celt_rsqrt_norm x =
     (let n = EXTRACT16 (x - 32768);
          r = ADD16 (-13490) (EXTRACT16 (MULT16_16_Q15 n 6713));
          r = ADD16 23557 (EXTRACT16 (MULT16_16_Q15 n r));
          r2 = EXTRACT16 (MULT16_16_Q15 r r);
          y = SHL16 (EXTRACT16 (SUB16 (ADD16 (EXTRACT16 (MULT16_16_Q15 r2 n)) r2) 16384)) 1;
          s = SUB16 (EXTRACT16 (MULT16_16_Q15 y 12288)) 16384;
          t = EXTRACT16 (MULT16_16_Q15 y (EXTRACT16 s))
      in ADD16 r (EXTRACT16 (MULT16_16_Q15 r t)))"

definition Celt_rsqrt_norm32 :: "i32 \<Rightarrow> i32" where
  "Celt_rsqrt_norm32 x =
     (let rQ29 = SHL32 (EXTEND32 (Celt_rsqrt_norm (SHR32 x (31 - 16)))) 15;
          tmp = MULT32_32_Q31 rQ29 rQ29;
          tmp = MULT32_32_Q31 1073741824 tmp;
          tmp = MULT32_32_Q31 x tmp
      in SHL32 (MULT32_32_Q31 rQ29 (SUB32 201326592 tmp)) 4)"

definition Celt_sqrt :: "i32 \<Rightarrow> i32" where
  "Celt_sqrt x =
     (if x = 0 then 0
      else if 1073741824 \<le>s x then 32767
      else
        let k = drop_bit 1 (Celt_ilog2 x) - 7;
            x = VSHR32 x (2 * k);
            n = EXTRACT16 (x - 32768);
            t = ADD16 (-1002) (EXTRACT16 (MULT16_16_Q15 n 336));
            t = ADD16 1592 (EXTRACT16 (MULT16_16_Q15 n t));
            t = ADD16 (-2901) (EXTRACT16 (MULT16_16_Q15 n t));
            t = ADD16 11574 (EXTRACT16 (MULT16_16_Q15 n t));
            rt = ADD32 (EXTEND32 23171) (MULT16_16_Q15 n t)
        in VSHR32 rt (7 - k))"

definition Celt_sqrt32 :: "i32 \<Rightarrow> i32" where
  "Celt_sqrt32 x =
     (if x = 0 then 0
      else if 1073741824 \<le>s x then 2147483647
      else
        let k = drop_bit 1 (Celt_ilog2 x);
            xFrac = VSHR32 x (2 * (k - 14) - 1);
            xFrac = MULT32_32_Q31 (Celt_rsqrt_norm32 xFrac) xFrac
        in if k < 12 then PSHR32 xFrac (nat (12 - k)) else SHL32 xFrac (nat (k - 12)))"

section \<open>Cosine, reciprocal, exponential and logarithm\<close>

definition celt_cos_pi_2 :: "i16 \<Rightarrow> i16" where
  "celt_cos_pi_2 x =
     (let x2 = EXTRACT16 (MULT16_16_P15 x x);
          t = ADD32 8277 (MULT16_16_P15 (-626) x2);
          t = ADD32 (-7651) (MULT16_16_P15 x2 (EXTRACT16 t));
          t = ADD32 (SUB16 32767 x2) (MULT16_16_P15 x2 (EXTRACT16 t))
      in ADD16 1 (EXTRACT16 (MIN16 32766 t)))"

definition Celt_cos_norm :: "i32 \<Rightarrow> i16" where
  "Celt_cos_norm x =
     (let x = x AND 0x0001ffff;
          x = (if SHL32 (EXTEND32 1) 16 <s x then SUB32 (SHL32 (EXTEND32 1) 17) x else x) in
      if x AND 0x00007fff \<noteq> 0 then
        (if x <s SHL32 (EXTEND32 1) 15 then celt_cos_pi_2 (EXTRACT16 x)
         else EXTRACT16 (NEG16 (celt_cos_pi_2 (EXTRACT16 (65536 - x)))))
      else if x AND 0x0000ffff \<noteq> 0 then 0
      else if x AND 0x0001ffff \<noteq> 0 then -32767
      else 32767)"

definition celt_rcp_norm16 :: "i16 \<Rightarrow> i16" where
  "celt_rcp_norm16 x =
     (let r = ADD16 30840 (EXTRACT16 (MULT16_16_Q15 (-15420) x));
          p = ADD16 (EXTRACT16 (MULT16_16_Q15 r x)) (ADD16 r (-32768));
          r = EXTRACT16 (SUB16 r (EXTRACT16 (MULT16_16_Q15 r p)));
          p = ADD16 (EXTRACT16 (MULT16_16_Q15 r x)) (ADD16 r (-32768))
      in EXTRACT16 (SUB16 r (ADD16 1 (EXTRACT16 (MULT16_16_Q15 r p)))))"

definition Celt_rcp :: "i32 \<Rightarrow> i32" where
  "Celt_rcp x =
     (let i = Celt_ilog2 x; r = celt_rcp_norm16 (EXTRACT16 (VSHR32 x (i - 15) - 32768))
      in VSHR32 (EXTEND32 r) (i - 16))"

definition Celt_rcp_norm32 :: "i32 \<Rightarrow> i32" where
  "Celt_rcp_norm32 x =
     (let rQ30 = SHL32 (EXTEND32 (celt_rcp_norm16 (EXTRACT16 (SHR32 x 15 - 32768)))) 16
      in SUB32 rQ30 (ADD32 (SHL32 (MULT32_32_Q31 (ADD32 (MULT32_32_Q31 rQ30 x) (-1073741824)) rQ30) 1) 1))"

definition Celt_exp2_frac :: "i16 \<Rightarrow> i32" where
  "Celt_exp2_frac x =
     (let frac = SHL16 x 4;
          t = ADD16 14819 (EXTRACT16 (MULT16_16_Q15 10204 frac));
          t = ADD16 22804 (EXTRACT16 (MULT16_16_Q15 frac t))
      in EXTEND32 (ADD16 16383 (EXTRACT16 (MULT16_16_Q15 frac t))))"

definition Celt_exp2 :: "i16 \<Rightarrow> i32" where
  "Celt_exp2 x =
     (let integer = sint (SHR16 x 10) in
      if integer > 14 then 0x7f000000
      else if integer < -15 then 0
      else
        let frac = EXTRACT16 (Celt_exp2_frac (x - SHL16 (word_of_int integer) 10))
        in VSHR32 (EXTEND32 frac) (- integer - 2))"

definition Celt_log2 :: "i32 \<Rightarrow> i16" where
  "Celt_log2 x =
     (if x = 0 then -32767
      else
        let i = Celt_ilog2 x;
            n = EXTRACT16 (VSHR32 x (i - 15) - 32768 - 16384);
            frac = ADD16 2545 (EXTRACT16 (MULT16_16_Q15 n (-1401)));
            frac = ADD16 (-5217) (EXTRACT16 (MULT16_16_Q15 n frac));
            frac = ADD16 15746 (EXTRACT16 (MULT16_16_Q15 n frac));
            frac = ADD16 (-6801 + push_bit (13 - 10) 1) (EXTRACT16 (MULT16_16_Q15 n frac))
        in EXTRACT16 (SHL32 (word_of_int (i - 13)) 10 + SHR32 (EXTEND32 frac) (14 - 10)))"

definition Frac_div32_q29 :: "i32 \<Rightarrow> i32 \<Rightarrow> i32" where
  "Frac_div32_q29 a b =
     (let shift = Celt_ilog2 b - 29;
          a = VSHR32 a shift;
          b = VSHR32 b shift;
          rcp = ROUND16 (Celt_rcp (EXTEND32 (ROUND16 b 16))) 3;
          result = MULT16_32_Q15 rcp a;
          rem = PSHR32 a 2 - MULT32_32_Q31 result b
      in ADD32 result (SHL32 (MULT16_32_Q15 rcp rem) 2))"

definition Frac_div32 :: "i32 \<Rightarrow> i32 \<Rightarrow> i32" where
  "Frac_div32 a b =
     (let result = Frac_div32_q29 a b in
      if 536870912 \<le>s result then 2147483647
      else if result \<le>s -536870912 then -2147483647
      else SHL32 result 2)"

end
