(* ===== verification/Fixedmath_Props.thy ===== *)
theory Fixedmath_Props
  imports Fixedmath RC_Codes
begin

text \<open>
  The fixed-point arithmetic against integer arithmetic: every operation of \<open>Fixedmath\<close> is the
  operation on integers reduced to its width, the two-part multiply-accumulate macros are the exact
  64-bit products, and \<^verbatim>\<open>Isqrt32\<close> is the integer square root.
\<close>

section \<open>Signed words\<close>

lemma i32_range: "- 2147483648 \<le> sint (a :: i32)" "sint (a :: i32) < 2147483648"
  using sint_greater_eq [of a] sint_less [of a] by simp_all

lemma i16_range: "- 32768 \<le> sint (a :: i16)" "sint (a :: i16) < 32768"
  using sint_greater_eq [of a] sint_less [of a] by simp_all

lemma i32_of_int: "- 2147483648 \<le> x \<Longrightarrow> x < 2147483648 \<Longrightarrow> sint (word_of_int x :: i32) = x"
  by (simp add: signed_of_int signed_take_bit_int_eq_self)

lemma i16_of_int: "- 32768 \<le> x \<Longrightarrow> x < 32768 \<Longrightarrow> sint (word_of_int x :: i16) = x"
  by (simp add: signed_of_int signed_take_bit_int_eq_self)

lemma i64_of_int: "- (2 ^ 63) \<le> x \<Longrightarrow> x < 2 ^ 63 \<Longrightarrow> sint (word_of_int x :: i64) = x"
  by (simp add: signed_of_int signed_take_bit_int_eq_self)

text \<open>Every operation is the operation on integers, reduced to the width.\<close>

lemma word_sint: "word_of_int (sint a) = a"
  by simp

lemma scast_of_int: "(scast (a :: 'a::len word) :: 'b::len word) = word_of_int (sint a)"
  by (rule scast_eq)

lemma narrow_of_int: "LENGTH('b) \<le> LENGTH('a) \<Longrightarrow> (ucast (a :: 'a::len word) :: 'b::len word) = word_of_int (sint a)"
  by (rule bit_word_eqI) (auto simp: bit_simps)

lemma sdrop_of_int: "signed_drop_bit n (a :: 'a::len word) = word_of_int (sint a div 2 ^ n)"
  unfolding drop_bit_eq_div [symmetric] sint_signed_drop_bit_eq [symmetric] by simp

lemma MULT16_16_int: "MULT16_16 a b = word_of_int (sint a * sint b)"
  unfolding MULT16_16_def scast_eq of_int_mult ..

lemma MULT16_16SU_int: "MULT16_16SU a b = word_of_int (sint a * uint b)"
  unfolding MULT16_16SU_def scast_eq ucast_eq of_int_mult ..

lemma mult_bounds:
  fixes x y :: int
  assumes "- 32768 \<le> x" "x < 32768" "\<bar>y\<bar> \<le> K"
  shows "\<bar>x * y\<bar> \<le> 32768 * K"
proof -
  have "\<bar>x\<bar> * \<bar>y\<bar> \<le> 32768 * K" using assms by (intro mult_mono) auto
  then show ?thesis by (simp add: abs_mult)
qed

lemma MULT16_32_int: "MULT16_32_Q15 a b = word_of_int (sint a * sint b div 2 ^ 15)"
  "MULT16_32_Q16 a b = word_of_int (sint a * sint b div 2 ^ 16)"
proof -
  have "\<bar>sint a * sint b\<bar> \<le> 32768 * 2147483648"
    using i16_range [of a] i32_range [of b] by (intro mult_bounds) auto
  then have p: "sint ((scast a * scast b) :: i64) = sint a * sint b"
    unfolding scast_eq of_int_mult [symmetric] by (intro i64_of_int) auto
  have n: "(ucast (x :: i64) :: i32) = word_of_int (sint x)" for x by (rule narrow_of_int) simp
  show "MULT16_32_Q15 a b = word_of_int (sint a * sint b div 2 ^ 15)"
    "MULT16_32_Q16 a b = word_of_int (sint a * sint b div 2 ^ 16)"
    unfolding MULT16_32_Q15_def MULT16_32_Q16_def SHR64_def n sint_signed_drop_bit_eq drop_bit_eq_div p by (rule refl)+
qed

lemma split_mult:
  fixes a b K :: int
  assumes "0 < K"
  shows "a * b div K = a * (b div K) + a * (b mod K) div K"
proof -
  have "a * b = a * (b mod K) + K * (a * (b div K))"
    by (metis (no_types, opaque_lifting) add.commute distrib_left mult.left_commute mult_div_mod_eq)
  then have "a * b div K = (a * (b mod K) + K * (a * (b div K))) div K" by simp
  also have "\<dots> = a * (b div K) + a * (b mod K) div K" using assms by (subst div_mult_self2) auto
  finally show ?thesis .
qed

lemma MAC16_32_Q16_int: "MAC16_32_Q16 c a b = c + MULT16_32_Q16 a b"
proof -
  let ?h = "sint b div 2 ^ 16" and ?l = "sint b mod 2 ^ 16"
  have b: "- 2147483648 \<le> sint b" "sint b < 2147483648" by (rule i32_range)+
  have h: "sint (EXTRACT16 (SHR32 b 16)) = ?h"
    unfolding EXTRACT16_def SHR32_def by (subst narrow_of_int) (use b in \<open>simp_all add: sint_signed_drop_bit_eq drop_bit_eq_div i16_of_int\<close>)
  have "uint (b AND 0xffff) = uint b mod 65536"
  proof -
    have "uint (b AND 0xffff) = uint b AND mask 16" by (simp add: uint_and mask_eq_exp_minus_1)
    then show ?thesis by (simp add: take_bit_eq_mod flip: take_bit_eq_mask)
  qed
  moreover have "uint b mod 65536 = sint b mod 65536"
    by (simp add: uint_sint take_bit_eq_mod mod_mod_cancel)
  ultimately have l: "uint (ucast (b AND 0xffff) :: u16) = ?l"
    by (simp add: unsigned_ucast_eq take_bit_eq_mod)
  have lb: "\<bar>sint a * ?l\<bar> \<le> 32768 * 65535"
    using i16_range [of a] by (intro mult_bounds) (auto simp: zle_diff1_eq [symmetric])
  then have s: "sint (MULT16_16SU a (ucast (b AND 0xffff))) = sint a * ?l"
    unfolding MULT16_16SU_int l by (intro i32_of_int) auto
  have "MAC16_32_Q16 c a b = c + (word_of_int (sint a * ?h) + word_of_int (sint a * ?l div 2 ^ 16))"
    unfolding MAC16_32_Q16_def ADD32_def MULT16_16_int h SHR32_def [of "MULT16_16SU _ _"] sdrop_of_int s ..
  also have "\<dots> = c + word_of_int (sint a * sint b div 2 ^ 16)"
    by (subst split_mult) (simp_all only: of_int_add zero_less_power zero_less_numeral)
  finally show ?thesis unfolding MULT16_32_int .
qed

lemma MAC16_32_Q15_int:
  assumes "- 1073741824 \<le> sint b" "sint b < 1073741824"
  shows "MAC16_32_Q15 c a b = c + MULT16_32_Q15 a b"
proof -
  let ?h = "sint b div 2 ^ 15" and ?l = "sint b mod 2 ^ 15"
  have h: "sint (EXTRACT16 (SHR32 b 15)) = ?h"
    unfolding EXTRACT16_def SHR32_def by (subst narrow_of_int) (use assms in \<open>simp_all add: sint_signed_drop_bit_eq drop_bit_eq_div i16_of_int\<close>)
  have "uint (b AND 0x7fff) = uint b mod 32768"
  proof -
    have "uint (b AND 0x7fff) = uint b AND mask 15" by (simp add: uint_and mask_eq_exp_minus_1)
    then show ?thesis by (simp add: take_bit_eq_mod flip: take_bit_eq_mask)
  qed
  moreover have "uint b mod 32768 = sint b mod 32768"
    by (simp add: uint_sint take_bit_eq_mod mod_mod_cancel)
  ultimately have l0: "uint (b AND 0x7fff) = ?l" by simp
  have l: "sint (EXTRACT16 (b AND 0x7fff)) = ?l"
    unfolding EXTRACT16_def ucast_eq l0 by (intro i16_of_int) (auto intro: order.strict_trans2 [OF pos_mod_bound])
  have lb: "\<bar>sint a * ?l\<bar> \<le> 32768 * 32767"
    using i16_range [of a] by (intro mult_bounds) (auto simp: zle_diff1_eq [symmetric])
  then have s: "sint (MULT16_16 a (EXTRACT16 (b AND 0x7fff))) = sint a * ?l"
    unfolding MULT16_16_int l by (intro i32_of_int) auto
  have "MAC16_32_Q15 c a b = c + (word_of_int (sint a * ?h) + word_of_int (sint a * ?l div 2 ^ 15))"
    unfolding MAC16_32_Q15_def ADD32_def SHR32_def [of "MULT16_16 _ _"] sdrop_of_int s unfolding MULT16_16_int h ..
  also have "\<dots> = c + word_of_int (sint a * sint b div 2 ^ 15)"
    by (subst split_mult) (simp_all only: of_int_add zero_less_power zero_less_numeral)
  finally show ?thesis unfolding MULT16_32_int .
qed

section \<open>The integer square root\<close>

lemma isqrt_step:
  fixes G v :: int and g b val :: u32
  assumes "uint g = G" "uint b = 2 ^ n" "uint val = v" "n \<le> 15" "G + 2 * 2 ^ n \<le> 65536"
    "v < 2 * G * (2 * 2 ^ n) + (2 * 2 ^ n) * (2 * 2 ^ n)"
  shows "uint (push_bit n (push_bit 1 g + b)) = (2 * G + 2 ^ n) * 2 ^ n"
    "(2 * G + 2 ^ n) * 2 ^ n \<le> v \<Longrightarrow> uint (g + b) = G + 2 ^ n"
proof -
  have g0: "0 \<le> G" using assms(1) uint_ge_0 [of g] by simp
  have p: "(0 :: int) < 2 ^ n" by simp
  have "(2 :: int) ^ n \<le> 2 ^ 15" using assms(4) by (intro power_increasing) simp_all
  then have b15: "(2 :: int) ^ n \<le> 32768" by simp
  have "uint g * 2 < 4294967296" using assms(1,5) p by linarith
  then have "uint g * 2 ^ 1 < 4294967296" by simp
  from u32_push_small [OF this] have s1: "uint (push_bit 1 g) = 2 * G" using assms(1) by (simp only: power_one_right mult.commute)
  have "uint (push_bit 1 g) + uint b < 4294967296" using s1 assms(2,5) b15 g0 p by linarith
  then have s2: "uint (push_bit 1 g + b) = 2 * G + 2 ^ n" using s1 assms(2) by (simp add: u32_add)
  have "(2 * G + 2 ^ n) * 2 ^ n < 131072 * 2 ^ n" using assms(5) p g0 by (intro mult_strict_right_mono) linarith+
  also have "\<dots> \<le> 131072 * 32768" using b15 by simp
  finally have "(2 * G + 2 ^ n) * 2 ^ n < 4294967296" by simp
  then show "uint (push_bit n (push_bit 1 g + b)) = (2 * G + 2 ^ n) * 2 ^ n" using s2 by (subst u32_push_small) simp_all
  have "uint g + uint b < 4294967296" using assms(1,2,5) g0 p by linarith
  then show "uint (g + b) = G + 2 ^ n" using assms(1,2) by (simp add: u32_add)
qed

lemma isqrt_loop_exact:
  assumes "uint g = G" "uint b = 2 ^ n" "uint val = v" "n \<le> 15" "G + 2 * 2 ^ n \<le> 65536"
    "v < 2 * G * (2 * 2 ^ n) + (2 * 2 ^ n) * (2 * 2 ^ n)"
  shows "uint (isqrt_loop n g b val) * uint (isqrt_loop n g b val) \<le> G * G + v
    \<and> G * G + v < (uint (isqrt_loop n g b val) + 1) * (uint (isqrt_loop n g b val) + 1)"
  using assms
proof (induction n arbitrary: g b val G v)
  case 0
  note st = isqrt_step [OF 0]
  have v0: "0 \<le> v" using 0(3) uint_ge_0 [of val] by simp
  show ?case
  proof (cases "2 * G + 1 \<le> v")
    case True
    then have "push_bit 0 (push_bit 1 g + b) \<le> val" using st(1) 0(3) by (simp add: u32_le)
    then have "isqrt_loop 0 g b val = g + b" by (simp add: isqrt_loop.simps)
    then show ?thesis using st(2) True 0(6) by (simp add: algebra_simps)
  next
    case False
    then have "\<not> push_bit 0 (push_bit 1 g + b) \<le> val" using st(1) 0(3) by (simp add: u32_le)
    then have "isqrt_loop 0 g b val = g" by (simp add: isqrt_loop.simps)
    then show ?thesis using False v0 0(1) by (simp add: algebra_simps)
  qed
next
  case (Suc n)
  note st = isqrt_step [OF Suc.prems]
  let ?B = "2 ^ n :: int"
  have p: "0 < ?B" by simp
  have db: "uint (drop_bit 1 b) = ?B" using Suc.prems(2) by (simp add: u32_drop)
  have n15: "n \<le> 15" using Suc.prems(4) by simp
  show ?case
  proof (cases "(2 * G + 2 ^ Suc n) * 2 ^ Suc n \<le> v")
    case True
    then have le: "push_bit (Suc n) (push_bit 1 g + b) \<le> val" using st(1) Suc.prems(3) by (simp only: u32_le)
    then have e: "isqrt_loop (Suc n) g b val = isqrt_loop n (g + b) (drop_bit 1 b) (val - push_bit (Suc n) (push_bit 1 g + b))"
      by (subst isqrt_loop.simps) (simp add: Let_def)
    have gb: "uint (g + b) = G + 2 * ?B" using st(2) True by simp
    have vl: "uint (val - push_bit (Suc n) (push_bit 1 g + b)) = v - (2 * G + 2 * ?B) * (2 * ?B)"
      using le st(1) Suc.prems(3) by (subst u32_sub) (simp_all add: u32_le)
    have b: "G + 2 * ?B + 2 * ?B \<le> 65536" using Suc.prems(5) by simp
    have c: "v - (2 * G + 2 * ?B) * (2 * ?B) < 2 * (G + 2 * ?B) * (2 * ?B) + (2 * ?B) * (2 * ?B)"
      using Suc.prems(6) by (simp add: algebra_simps)
    have s: "(G + 2 * ?B) * (G + 2 * ?B) + (v - (2 * G + 2 * ?B) * (2 * ?B)) = G * G + v" by (simp add: algebra_simps)
    show ?thesis using Suc.IH [OF gb db vl n15 b c] unfolding e s .
  next
    case False
    then have le: "\<not> push_bit (Suc n) (push_bit 1 g + b) \<le> val" using st(1) Suc.prems(3) by (simp only: u32_le not_le)
    then have e: "isqrt_loop (Suc n) g b val = isqrt_loop n g (drop_bit 1 b) val"
      by (subst isqrt_loop.simps) (simp add: Let_def)
    have b: "G + 2 * ?B \<le> 65536" using Suc.prems(5) p unfolding power_Suc by linarith
    have c: "v < 2 * G * (2 * ?B) + (2 * ?B) * (2 * ?B)"
      using False by (simp add: algebra_simps)
    show ?thesis using Suc.IH [OF Suc.prems(1) db Suc.prems(3) n15 b c] unfolding e .
  qed
qed

lemma isqrt_exact:
  assumes "0 < uint val"
  shows "\<exists>r. Isqrt32 val = Ok r \<and> uint r * uint r \<le> uint val \<and> uint val < (uint r + 1) * (uint r + 1)"
proof -
  let ?l = "bit_length (unat val)" let ?n = "(?l - 1) div 2"
  have u: "0 < unat val" "unat val < 2 ^ 32" using assms unsigned_less [of val, where 'a = nat] by (auto simp: word_neq_0_conv word_less_def unat_gt_0 dest: gr_implies_not0)
  note l = bit_length_bounds [OF u(1)]
  have l32: "?l \<le> 32" by (rule bit_length_le [OF u(2)])
  have n: "?n \<le> 15" "?l \<le> 2 * ?n + 2" using l32 by linarith+
  have "drop_bit 1 (int ?l - 1) = int ?n" using l by (simp add: drop_bit_eq_div of_nat_diff zdiv_int)
  then have e: "Isqrt32 val = Ok (isqrt_loop ?n 0 (push_bit ?n 1) val)"
    by (simp add: Isqrt32_def EC_ILOG_def)
  have pn: "(2 :: int) ^ ?n \<le> 2 ^ 15" using n(1) by (intro power_increasing) simp_all
  have ub: "uint (push_bit ?n 1 :: u32) = 2 ^ ?n" using pn by (subst u32_push_small) simp_all
  have "unat val < 2 ^ (2 * ?n + 2)" using l n(2) power_increasing [of ?l "2 * ?n + 2" "2 :: nat"] by linarith
  then have "int (unat val) < int (2 ^ (2 * ?n + 2))" by (simp only: of_nat_less_iff)
  then have v: "uint val < 2 * 0 * (2 * 2 ^ ?n) + (2 * 2 ^ ?n) * (2 * 2 ^ ?n)" by (simp add: power_add power_mult flip: power_mult_distrib)
  have "uint (isqrt_loop ?n 0 (push_bit ?n 1) val) * uint (isqrt_loop ?n 0 (push_bit ?n 1) val) \<le> 0 * 0 + uint val
    \<and> 0 * 0 + uint val < (uint (isqrt_loop ?n 0 (push_bit ?n 1) val) + 1) * (uint (isqrt_loop ?n 0 (push_bit ?n 1) val) + 1)"
    by (rule isqrt_loop_exact [OF _ ub refl n(1) _ v]) (use pn in simp_all)
  then show ?thesis unfolding e by simp
qed

section \<open>Properties\<close>

text \<open>C13: \<^verbatim>\<open>Isqrt32\<close> is the exact integer square root of every positive 32-bit value: the result is the
  largest number whose square does not exceed it, and no step of the loop wraps.\<close>

theorem isqrt_is_floor_sqrt:
  assumes "0 < uint val"
  shows "\<exists>r. Isqrt32 val = Ok r \<and> uint r * uint r \<le> uint val \<and> uint val < (uint r + 1) * (uint r + 1)"
  using assms by (rule isqrt_exact)

lemma isqrt_is_floor_sqrt_witness:
  "\<exists>r. Isqrt32 4294967295 = Ok r \<and> uint r * uint r \<le> 4294967295 \<and> 4294967295 < (uint r + 1) * (uint r + 1)"
  using isqrt_is_floor_sqrt [of 4294967295] by simp

text \<open>C14: The multiply-accumulate macros, which split the 32-bit factor in two 16-bit products as the
  reference code does, compute exactly the 64-bit product of the multiply macros plus the
  accumulator, for every operand (\<^verbatim>\<open>Q16\<close>) and for every factor of 31 bits (\<^verbatim>\<open>Q15\<close>), which is what the
  comment demands of it.\<close>

theorem mac_split_exact:
  assumes "- 1073741824 \<le> sint b" "sint b < 1073741824"
  shows "MAC16_32_Q16 c a d = c + MULT16_32_Q16 a d \<and> MAC16_32_Q15 c a b = c + MULT16_32_Q15 a b"
  using MAC16_32_Q16_int MAC16_32_Q15_int [OF assms] by blast

lemma mac_split_exact_witness:
  "MAC16_32_Q16 5 (-3) (-2147483648) = 5 + MULT16_32_Q16 (-3) (-2147483648)
    \<and> MAC16_32_Q15 5 (-3) (-1073741824) = 5 + MULT16_32_Q15 (-3) (-1073741824)"
  by (rule mac_split_exact) simp_all

end
