(* ===== verification/Quant_Bands.thy ===== *)
theory Quant_Bands
  imports Laplace_Props Fixedmath_Props
begin

text \<open>
  The band energies (\<^verbatim>\<open>internal/celt/quant_bands.go\<close>, both directions): coarse energies coded with the
  Laplace coder around a prediction from the previous frame, fine energies coded with raw bits, and
  the bits left over.  The slices of the Go code are lists indexed with a check; a function that
  writes a slice returns it.  Of the mode only \<^verbatim>\<open>nbEBands\<close> is used, the argument \<open>nb\<close>.  The float
  constants \<^verbatim>\<open>QCONST32(x, 24)\<close> are the integers they are at every use.  A loop over channels runs at
  least once, as in Go.
\<close>

definition dbShift :: nat where "dbShift = 24"
definition maxFineBits :: int where "maxFineBits = 8"
definition gconst2 :: i32 where "gconst2 = 33554432"
definition gconst3 :: i32 where "gconst3 = 50331648"
definition gconst9 :: i32 where "gconst9 = 150994944"
definition gconst14 :: i32 where "gconst14 = 234881024"
definition gconst16 :: i32 where "gconst16 = 268435456"
definition gconst28 :: i32 where "gconst28 = 469762048"
definition ghalf :: i32 where "ghalf = 8388608"
definition predCoef :: "i16 list" where "predCoef = [29440, 26112, 21248, 16384]"
definition betaCoef :: "i16 list" where "betaCoef = [30147, 22282, 12124, 6554]"
definition betaIntra :: i16 where "betaIntra = 4915"
definition smallEnergyICDF :: bytes where "smallEnergyICDF = [2, 1, 0]"

definition eMeans :: "int list" where
  "eMeans = [103, 100, 92, 85, 81, 77, 72, 70, 78, 75, 73, 71, 78, 74, 69, 72, 70, 74, 76, 71, 60, 60, 60, 60, 60]"

text \<open>\<^verbatim>\<open>coef\<close> and \<^verbatim>\<open>beta\<close>, and the two entries of the probability model for band \<open>i\<close>.\<close>

definition coarse_coefs :: "int \<Rightarrow> int \<Rightarrow> (i16 \<times> i16) go" where
  "coarse_coefs intra LM =
     (if intra \<noteq> 0 then Ok (0, betaIntra)
      else bnd (idx betaCoef LM) (\<lambda>b. bnd (idx predCoef LM) (\<lambda>p. Ok (p, b))))"

definition prob_at :: "int list \<Rightarrow> int \<Rightarrow> (u32 \<times> int) go" where
  "prob_at pm i =
     (let pi = 2 * IMIN i 20 in
      bnd (idx pm pi) (\<lambda>a. bnd (idx pm (pi + 1)) (\<lambda>b. Ok (push_bit 7 (word_of_int a), push_bit 6 b))))"

text \<open>A shift by an \<^verbatim>\<open>int\<close> panics if it is negative.\<close>

definition SHR32_go :: "i32 \<Rightarrow> int \<Rightarrow> i32 go" where
  "SHR32_go a n = (if n < 0 then Panic else Ok (SHR32 a (nat n)))"

section \<open>Decoding the coarse energies\<close>

definition coarse_get :: "int list \<Rightarrow> i32 \<Rightarrow> int \<Rightarrow> Decoder \<Rightarrow> (int \<times> Decoder) go" where
  "coarse_get pm budget i dec =
     (let tell = word_of_int (Dec_Tell dec) in
      if 15 \<le>s budget - tell then bnd (prob_at pm i) (\<lambda>(fs, decay). ecLaplaceDecode dec fs decay)
      else if 2 \<le>s budget - tell then
        bnd (DecIcdf dec smallEnergyICDF 2) (\<lambda>(qi, dec). Ok (drop_bit 1 qi XOR - (qi AND 1), dec))
      else if 1 \<le>s budget - tell then bnd (DecBitLogp dec 1) (\<lambda>(b, dec). Ok (- b, dec))
      else Ok (-1, dec))"

type_synonym unquant = "i32 list \<times> i64 list \<times> Decoder"

text \<open>One channel of one band: the symbol, the prediction filter and the clamp.\<close>

definition unquant_coarse_step :: "int \<Rightarrow> int list \<Rightarrow> i16 \<Rightarrow> i16 \<Rightarrow> i32 \<Rightarrow> int \<Rightarrow> int \<Rightarrow> unquant \<Rightarrow> unquant go" where
  "unquant_coarse_step nb pm coef beta budget i c = (\<lambda>(oldE, prev, dec).
     bnd (coarse_get pm budget i dec) (\<lambda>(qi, dec).
     let q = SHL32 (word_of_int qi) dbShift; ix = i + c * nb in
     bnd (idx oldE ix) (\<lambda>o'.
     let o' = MAX32 (- gconst9) o' in
     bnd (upd oldE ix o') (\<lambda>oldE.
     bnd (idx prev c) (\<lambda>p.
     let tmp = ucast (scast (MULT16_32_Q15 coef o') + p + scast q :: i64);
         tmp = MIN32 gconst28 (MAX32 (- gconst28) tmp) in
     bnd (upd oldE ix tmp) (\<lambda>oldE.
     bnd (upd prev c (p + scast q - scast (MULT16_32_Q15 beta q))) (\<lambda>prev. Ok (oldE, prev, dec))))))))"

function unquant_coarse_chans :: "int \<Rightarrow> int list \<Rightarrow> i16 \<Rightarrow> i16 \<Rightarrow> i32 \<Rightarrow> int \<Rightarrow> int \<Rightarrow> int \<Rightarrow> unquant \<Rightarrow> unquant go" where
  "unquant_coarse_chans nb pm coef beta budget C i c st =
     bnd (unquant_coarse_step nb pm coef beta budget i c st) (\<lambda>st.
     if c + 1 \<ge> C then Ok st else unquant_coarse_chans nb pm coef beta budget C i (c + 1) st)"
  by pat_completeness auto
termination
  by (relation "measure (\<lambda>(nb, pm, coef, beta, budget, C, i, c, st). nat (C - c))") auto

declare unquant_coarse_chans.simps [simp del]

function unquant_coarse_bands :: "int \<Rightarrow> int list \<Rightarrow> i16 \<Rightarrow> i16 \<Rightarrow> i32 \<Rightarrow> int \<Rightarrow> int \<Rightarrow> int \<Rightarrow> unquant \<Rightarrow> unquant go" where
  "unquant_coarse_bands nb pm coef beta budget C stop i st =
     (if i < stop then
        bnd (unquant_coarse_chans nb pm coef beta budget C i 0 st) (\<lambda>st.
        unquant_coarse_bands nb pm coef beta budget C stop (i + 1) st)
      else Ok st)"
  by pat_completeness auto
termination
  by (relation "measure (\<lambda>(nb, pm, coef, beta, budget, C, stop, i, st). nat (stop - i))") auto

declare unquant_coarse_bands.simps [simp del]

definition unquantCoarseEnergy :: "int \<Rightarrow> int \<Rightarrow> int \<Rightarrow> i32 list \<Rightarrow> int \<Rightarrow> Decoder \<Rightarrow> int \<Rightarrow> int \<Rightarrow> (i32 list \<times> Decoder) go" where
  "unquantCoarseEnergy nb start stop oldE intra dec C LM =
     bnd (idx eProbModel LM) (\<lambda>m. bnd (idx m intra) (\<lambda>pm.
     bnd (coarse_coefs intra LM) (\<lambda>(coef, beta).
     bnd (unquant_coarse_bands nb pm coef beta (d_storage dec * 8) C stop start (oldE, [0, 0], dec)) (\<lambda>(oldE, prev, dec).
     Ok (oldE, dec)))))"

section \<open>Decoding the fine energies\<close>

definition fine_offset :: "i32 \<Rightarrow> int \<Rightarrow> i16 \<Rightarrow> i32 go" where
  "fine_offset q2 extra prev =
     SHR32_go (SUB32 (VSHR32 (2 * q2 + 1) (extra - int dbShift + 1)) ghalf) (sint prev)"

definition unquant_fine_step :: "int \<Rightarrow> i16 \<Rightarrow> i16 \<Rightarrow> int \<Rightarrow> int \<Rightarrow> i32 list \<times> Decoder \<Rightarrow> (i32 list \<times> Decoder) go" where
  "unquant_fine_step nb extra prev i c = (\<lambda>(oldE, dec).
     bnd (DecBits dec (scast extra)) (\<lambda>(q2, dec).
     bnd (fine_offset q2 (sint extra) prev) (\<lambda>off.
     bnd (idx oldE (i + c * nb)) (\<lambda>o'. bnd (upd oldE (i + c * nb) (o' + off)) (\<lambda>oldE. Ok (oldE, dec))))))"

function unquant_fine_chans :: "int \<Rightarrow> i16 \<Rightarrow> i16 \<Rightarrow> int \<Rightarrow> int \<Rightarrow> int \<Rightarrow> i32 list \<times> Decoder \<Rightarrow> (i32 list \<times> Decoder) go" where
  "unquant_fine_chans nb extra prev C i c st =
     bnd (unquant_fine_step nb extra prev i c st) (\<lambda>st.
     if c + 1 \<ge> C then Ok st else unquant_fine_chans nb extra prev C i (c + 1) st)"
  by pat_completeness auto
termination
  by (relation "measure (\<lambda>(nb, extra, prev, C, i, c, st). nat (C - c))") auto

declare unquant_fine_chans.simps [simp del]

definition prev_bits :: "int list option \<Rightarrow> int \<Rightarrow> i16 go" where
  "prev_bits prevQuant i = (case prevQuant of None \<Rightarrow> Ok 0 | Some l \<Rightarrow> bnd (idx l i) (\<lambda>p. Ok (word_of_int p)))"

definition unquant_fine_band :: "int \<Rightarrow> int list option \<Rightarrow> int list \<Rightarrow> int \<Rightarrow> int \<Rightarrow> i32 list \<times> Decoder \<Rightarrow> (i32 list \<times> Decoder) go" where
  "unquant_fine_band nb prevQuant extraQuant C i = (\<lambda>(oldE, dec).
     bnd (idx extraQuant i) (\<lambda>x.
     if x \<le> 0 \<or> d_storage dec * 8 <s word_of_int (Dec_Tell dec) + word_of_int (C * x) then Ok (oldE, dec)
     else bnd (prev_bits prevQuant i) (\<lambda>prev. unquant_fine_chans nb (word_of_int x) prev C i 0 (oldE, dec))))"

function unquant_fine_bands :: "int \<Rightarrow> int list option \<Rightarrow> int list \<Rightarrow> int \<Rightarrow> int \<Rightarrow> int \<Rightarrow> i32 list \<times> Decoder \<Rightarrow> (i32 list \<times> Decoder) go" where
  "unquant_fine_bands nb prevQuant extraQuant C stop i st =
     (if i < stop then bnd (unquant_fine_band nb prevQuant extraQuant C i st) (\<lambda>st. unquant_fine_bands nb prevQuant extraQuant C stop (i + 1) st)
      else Ok st)"
  by pat_completeness auto
termination
  by (relation "measure (\<lambda>(nb, prevQuant, extraQuant, C, stop, i, st). nat (stop - i))") auto

declare unquant_fine_bands.simps [simp del]

definition unquantFineEnergy :: "int \<Rightarrow> int \<Rightarrow> int \<Rightarrow> i32 list \<Rightarrow> int list option \<Rightarrow> int list \<Rightarrow> Decoder \<Rightarrow> int \<Rightarrow> (i32 list \<times> Decoder) go" where
  "unquantFineEnergy nb start stop oldE prevQuant extraQuant dec C = unquant_fine_bands nb prevQuant extraQuant C stop start (oldE, dec)"

text \<open>The last bits: one per band and channel, in two passes.  \<open>oldE\<close> may be nil.\<close>

definition add_at :: "i32 list option \<Rightarrow> int \<Rightarrow> i32 \<Rightarrow> i32 list option go" where
  "add_at oldE ix off =
     (case oldE of None \<Rightarrow> Ok None
      | Some l \<Rightarrow> bnd (idx l ix) (\<lambda>v. bnd (upd l ix (v + off)) (\<lambda>l. Ok (Some l))))"

definition last_offset :: "i32 \<Rightarrow> int \<Rightarrow> i32 go" where
  "last_offset q2 fine = SHR32_go (SHL32 q2 dbShift - ghalf) (fine + 1)"

type_synonym unlast = "i32 list option \<times> int \<times> Decoder"

definition unquant_last_step :: "int \<Rightarrow> int \<Rightarrow> int \<Rightarrow> int \<Rightarrow> unlast \<Rightarrow> unlast go" where
  "unquant_last_step nb fine i c = (\<lambda>(oldE, bitsLeft, dec).
     bnd (DecBits dec 1) (\<lambda>(q2, dec).
     bnd (last_offset q2 fine) (\<lambda>off.
     bnd (add_at oldE (i + c * nb) off) (\<lambda>oldE. Ok (oldE, bitsLeft - 1, dec)))))"

function unquant_last_chans :: "int \<Rightarrow> int \<Rightarrow> int \<Rightarrow> int \<Rightarrow> int \<Rightarrow> unlast \<Rightarrow> unlast go" where
  "unquant_last_chans nb fine C i c st =
     bnd (unquant_last_step nb fine i c st) (\<lambda>st.
     if c + 1 \<ge> C then Ok st else unquant_last_chans nb fine C i (c + 1) st)"
  by pat_completeness auto
termination
  by (relation "measure (\<lambda>(nb, fine, C, i, c, st). nat (C - c))") auto

declare unquant_last_chans.simps [simp del]

text \<open>Whether a band is skipped in a pass.\<close>

definition skip_band :: "int list \<Rightarrow> int list \<Rightarrow> int \<Rightarrow> int \<Rightarrow> (int \<times> bool) go" where
  "skip_band fineQuant finePriority prio i =
     bnd (idx fineQuant i) (\<lambda>f.
     bnd (if f \<ge> maxFineBits then Ok True else bnd (idx finePriority i) (\<lambda>p. Ok (p \<noteq> prio))) (\<lambda>skip. Ok (f, skip)))"

definition unquant_last_band :: "int \<Rightarrow> int list \<Rightarrow> int list \<Rightarrow> int \<Rightarrow> int \<Rightarrow> int \<Rightarrow> unlast \<Rightarrow> unlast go" where
  "unquant_last_band nb fineQuant finePriority C prio i st =
     bnd (skip_band fineQuant finePriority prio i) (\<lambda>(f, skip).
     if skip then Ok st else unquant_last_chans nb f C i 0 st)"

function unquant_last_bands :: "int \<Rightarrow> int \<Rightarrow> int list \<Rightarrow> int list \<Rightarrow> int \<Rightarrow> int \<Rightarrow> int \<Rightarrow> unlast \<Rightarrow> unlast go" where
  "unquant_last_bands nb stop fineQuant finePriority C prio i st =
     (if i < stop \<and> fst (snd st) \<ge> C then
        bnd (unquant_last_band nb fineQuant finePriority C prio i st) (\<lambda>st.
        unquant_last_bands nb stop fineQuant finePriority C prio (i + 1) st)
      else Ok st)"
  by pat_completeness auto
termination
  by (relation "measure (\<lambda>(nb, stop, fineQuant, finePriority, C, prio, i, st). nat (stop - i))") auto

declare unquant_last_bands.simps [simp del]

definition unquantEnergyFinalise :: "int \<Rightarrow> int \<Rightarrow> int \<Rightarrow> i32 list option \<Rightarrow> int list \<Rightarrow> int list \<Rightarrow> int \<Rightarrow> Decoder \<Rightarrow> int
    \<Rightarrow> (i32 list option \<times> Decoder) go" where
  "unquantEnergyFinalise nb start stop oldE fineQuant finePriority bitsLeft dec C =
     bnd (unquant_last_bands nb stop fineQuant finePriority C 0 start (oldE, bitsLeft, dec)) (\<lambda>st.
     bnd (unquant_last_bands nb stop fineQuant finePriority C 1 start st) (\<lambda>(oldE, bitsLeft, dec).
     Ok (oldE, dec)))"

section \<open>Encoding the coarse energies\<close>

definition loss_step :: "i32 list \<Rightarrow> i32 list \<Rightarrow> int \<Rightarrow> i32 \<Rightarrow> i32 go" where
  "loss_step eB oldE ix dist =
     bnd (idx eB ix) (\<lambda>a. bnd (idx oldE ix) (\<lambda>b.
     let d = PSHR32 (SUB32 a b) (dbShift - 7) in Ok (MAC16_16 dist (ucast d) (ucast d))))"

function loss_bands :: "i32 list \<Rightarrow> i32 list \<Rightarrow> int \<Rightarrow> int \<Rightarrow> int \<Rightarrow> i32 \<Rightarrow> i32 go" where
  "loss_bands eB oldE base stop i dist =
     (if i < stop then bnd (loss_step eB oldE (i + base) dist) (\<lambda>dist. loss_bands eB oldE base stop (i + 1) dist) else Ok dist)"
  by pat_completeness auto
termination
  by (relation "measure (\<lambda>(eB, oldE, base, stop, i, dist). nat (stop - i))") auto

function loss_chans :: "i32 list \<Rightarrow> i32 list \<Rightarrow> int \<Rightarrow> int \<Rightarrow> int \<Rightarrow> int \<Rightarrow> int \<Rightarrow> i32 \<Rightarrow> i32 go" where
  "loss_chans eB oldE start stop ln C c dist =
     bnd (loss_bands eB oldE (c * ln) stop start dist) (\<lambda>dist.
     if c + 1 \<ge> C then Ok dist else loss_chans eB oldE start stop ln C (c + 1) dist)"
  by pat_completeness auto
termination
  by (relation "measure (\<lambda>(eB, oldE, start, stop, ln, C, c, dist). nat (C - c))") auto

declare loss_bands.simps [simp del] loss_chans.simps [simp del]

definition lossDistortion :: "i32 list \<Rightarrow> i32 list \<Rightarrow> int \<Rightarrow> int \<Rightarrow> int \<Rightarrow> int \<Rightarrow> i32 go" where
  "lossDistortion eB oldE start stop ln C =
     bnd (loss_chans eB oldE start stop ln C 0 0) (\<lambda>dist. Ok (MIN32 200 (SHR32 dist 14)))"

text \<open>The delta a band would need, before the budget is looked at.\<close>

definition coarse_qi :: "i32 \<Rightarrow> i32 \<Rightarrow> i32 \<Rightarrow> i32 \<Rightarrow> int" where
  "coarse_qi x o' f maxDecay =
     (let qi = sint (SHR32 (f + ghalf) dbShift);
          decayBound = MAX32 (- gconst28) (SUB32 o' maxDecay) in
      if qi < 0 \<and> x <s decayBound then
        (let qi = qi + sint (SHR32 (SUB32 decayBound x) dbShift) in if qi > 0 then 0 else qi)
      else qi)"

definition coarse_limit :: "i32 \<Rightarrow> i32 \<Rightarrow> int \<Rightarrow> int \<Rightarrow> int \<Rightarrow> int \<Rightarrow> int \<Rightarrow> int \<Rightarrow> int" where
  "coarse_limit budget tell C start stop i lfe qi =
     (let bitsLeft = sint budget - sint tell - 3 * C * (stop - i);
          qi = (if i \<noteq> start \<and> bitsLeft < 30
                then (let qi = (if bitsLeft < 24 then IMIN 1 qi else qi) in if bitsLeft < 16 then IMAX (-1) qi else qi)
                else qi)
      in if lfe \<noteq> 0 \<and> i \<ge> 2 then IMIN qi 0 else qi)"

text \<open>The symbol: the delta that is really coded, and the encoder.\<close>

definition coarse_put :: "int list \<Rightarrow> i32 \<Rightarrow> i32 \<Rightarrow> int \<Rightarrow> int \<Rightarrow> Encoder \<Rightarrow> (int \<times> Encoder) go" where
  "coarse_put pm budget tell i qi enc =
     (if 15 \<le>s budget - tell then bnd (prob_at pm i) (\<lambda>(fs, decay). ecLaplaceEncode enc qi fs decay)
      else if 2 \<le>s budget - tell then
        (let qi = IMAX (-1) (IMIN qi 1); sg = (if qi < 0 then -1 else 0) in
         bnd (EncIcdf enc ((2 * qi) XOR sg) smallEnergyICDF 2) (\<lambda>enc. Ok (qi, enc)))
      else if 1 \<le>s budget - tell then
        (let qi = IMIN 0 qi in bnd (EncBitLogp enc (- qi) 1) (\<lambda>enc. Ok (qi, enc)))
      else Ok (-1, enc))"

record quant =
  q_old :: "i32 list"
  q_err :: "i32 list"
  q_prev :: "i32 list"
  q_bad :: int
  q_enc :: Encoder

definition quant_coarse_step :: "int \<Rightarrow> i32 list \<Rightarrow> int list \<Rightarrow> i16 \<Rightarrow> i16 \<Rightarrow> i32 \<Rightarrow> int \<Rightarrow> int \<Rightarrow> int \<Rightarrow> i32 \<Rightarrow> int \<Rightarrow> int \<Rightarrow> int \<Rightarrow> quant \<Rightarrow> quant go" where
  "quant_coarse_step nb eB pm coef beta budget C start stop maxDecay lfe i c st =
     (let ix = i + c * nb in
      bnd (idx eB ix) (\<lambda>x.
      bnd (idx (q_old st) ix) (\<lambda>o'.
      let oldV = MAX32 (- gconst9) o' in
      bnd (idx (q_prev st) c) (\<lambda>p.
      let f = x - MULT16_32_Q15 coef oldV - p;
          qi0 = coarse_qi x o' f maxDecay;
          tell = word_of_int (Enc_Tell (q_enc st)) in
      bnd (coarse_put pm budget tell i (coarse_limit budget tell C start stop i lfe qi0) (q_enc st)) (\<lambda>(qi, enc).
      bnd (upd (q_err st) ix (f - SHL32 (word_of_int qi) dbShift)) (\<lambda>er.
      let q = SHL32 (EXTEND32 (word_of_int qi)) dbShift;
          tmp = MAX32 (- gconst28) (MULT16_32_Q15 coef oldV + p + q) in
      bnd (upd (q_old st) ix tmp) (\<lambda>oldE.
      bnd (upd (q_prev st) c (p + q - MULT16_32_Q15 beta q)) (\<lambda>prev.
      Ok \<lparr>q_old = oldE, q_err = er, q_prev = prev, q_bad = q_bad st + \<bar>qi0 - qi\<bar>, q_enc = enc\<rparr>))))))))"

function quant_coarse_chans :: "int \<Rightarrow> i32 list \<Rightarrow> int list \<Rightarrow> i16 \<Rightarrow> i16 \<Rightarrow> i32 \<Rightarrow> int \<Rightarrow> int \<Rightarrow> int \<Rightarrow> i32 \<Rightarrow> int \<Rightarrow> int \<Rightarrow> int \<Rightarrow> quant \<Rightarrow> quant go" where
  "quant_coarse_chans nb eB pm coef beta budget C start stop maxDecay lfe i c st =
     bnd (quant_coarse_step nb eB pm coef beta budget C start stop maxDecay lfe i c st) (\<lambda>st.
     if c + 1 \<ge> C then Ok st else quant_coarse_chans nb eB pm coef beta budget C start stop maxDecay lfe i (c + 1) st)"
  by pat_completeness auto
termination
  by (relation "measure (\<lambda>(nb, eB, pm, coef, beta, budget, C, start, stop, maxDecay, lfe, i, c, st). nat (C - c))") auto

declare quant_coarse_chans.simps [simp del]

function quant_coarse_bands :: "int \<Rightarrow> i32 list \<Rightarrow> int list \<Rightarrow> i16 \<Rightarrow> i16 \<Rightarrow> i32 \<Rightarrow> int \<Rightarrow> int \<Rightarrow> int \<Rightarrow> i32 \<Rightarrow> int \<Rightarrow> int \<Rightarrow> quant \<Rightarrow> quant go" where
  "quant_coarse_bands nb eB pm coef beta budget C start stop maxDecay lfe i st =
     (if i < stop then
        bnd (quant_coarse_chans nb eB pm coef beta budget C start stop maxDecay lfe i 0 st) (\<lambda>st.
        quant_coarse_bands nb eB pm coef beta budget C start stop maxDecay lfe (i + 1) st)
      else Ok st)"
  by pat_completeness auto
termination
  by (relation "measure (\<lambda>(nb, eB, pm, coef, beta, budget, C, start, stop, maxDecay, lfe, i, st). nat (stop - i))") auto

declare quant_coarse_bands.simps [simp del]

definition quantCoarseEnergyImpl :: "int \<Rightarrow> int \<Rightarrow> int \<Rightarrow> i32 list \<Rightarrow> i32 list \<Rightarrow> i32 \<Rightarrow> i32 \<Rightarrow> int list \<Rightarrow> i32 list \<Rightarrow> Encoder
    \<Rightarrow> int \<Rightarrow> int \<Rightarrow> int \<Rightarrow> i32 \<Rightarrow> int \<Rightarrow> (int \<times> i32 list \<times> i32 list \<times> Encoder) go" where
  "quantCoarseEnergyImpl nb start stop eB oldE budget tell pm er enc C LM intra maxDecay lfe =
     bnd (if tell + 3 \<le>s budget then EncBitLogp enc intra 3 else Ok enc) (\<lambda>enc.
     bnd (coarse_coefs intra LM) (\<lambda>(coef, beta).
     bnd (quant_coarse_bands nb eB pm coef beta budget C start stop maxDecay lfe start
            \<lparr>q_old = oldE, q_err = er, q_prev = [0, 0], q_bad = 0, q_enc = enc\<rparr>) (\<lambda>st.
     Ok (if lfe \<noteq> 0 then 0 else q_bad st, q_old st, q_err st, q_enc st))))"

text \<open>
  The two passes.  A saved encoder is a copy of the struct whose buffer is shared: restoring it keeps
  the buffer as it is (\<open>restore\<close>), and the bytes of the intra pass are copied back over it.  \<open>scr\<close> is
  what the scratch slice \<^verbatim>\<open>errorIntra\<close> held before; all of it is copied out.
\<close>

definition restore :: "Encoder \<Rightarrow> Encoder \<Rightarrow> Encoder" where
  "restore saved e = saved\<lparr>e_buf := e_buf e\<rparr>"

definition max_decay :: "int \<Rightarrow> int \<Rightarrow> int \<Rightarrow> int \<Rightarrow> i32" where
  "max_decay start stop nbAvailableBytes lfe =
     (let md = (if stop - start > 10
                then SHL32 (MIN32 (SHR32 gconst16 (dbShift - 3)) (EXTEND32 (word_of_int nbAvailableBytes))) (dbShift - 3)
                else gconst16)
      in if lfe \<noteq> 0 then gconst3 else md)"

definition copy_prefix :: "'a list \<Rightarrow> int \<Rightarrow> 'a list \<Rightarrow> 'a list go" where
  "copy_prefix dst n src = bnd (slice dst 0 n) (\<lambda>d. Ok (take (length d) src @ drop (min (length d) (length src)) dst))"

text \<open>The inter pass, and the choice; \<open>bad1\<close>, \<open>old1\<close> and \<open>er1\<close> are the results of the intra pass.\<close>

definition quant_inter :: "int \<Rightarrow> int \<Rightarrow> int \<Rightarrow> i32 list \<Rightarrow> i32 list \<Rightarrow> u32 \<Rightarrow> i32 \<Rightarrow> i32 list \<Rightarrow> Encoder \<Rightarrow> Encoder \<Rightarrow> int \<Rightarrow> int \<Rightarrow> i32 \<Rightarrow> i32 \<Rightarrow> int \<Rightarrow> int
    \<Rightarrow> int \<Rightarrow> i32 list \<Rightarrow> i32 list \<Rightarrow> (int \<times> i32 list \<times> i32 list \<times> Encoder) go" where
  "quant_inter nb start stop eB oldE budget tell er start_st enc C LM maxDecay intraBias lfe twoPass bad1 old1 er1 =
     bnd (Enc_TellFrac enc) (\<lambda>tellIntra.
     let intra_st = enc; n0 = e_offs start_st; n1 = e_offs intra_st in
     bnd (if n0 < n1 then slice (e_buf enc) (uint n0) (uint n1) else Ok []) (\<lambda>intraBits.
     bnd (idx eProbModel LM) (\<lambda>m. bnd (idx m 0) (\<lambda>pm.
     bnd (quantCoarseEnergyImpl nb start stop eB oldE budget tell pm er (restore start_st enc) C LM 0 maxDecay lfe) (\<lambda>(bad2, oldE, er, enc).
     bnd (if twoPass \<noteq> 0 \<and> bad1 = bad2 then bnd (Enc_TellFrac enc) (\<lambda>t. Ok (tellIntra <s t + intraBias)) else Ok False) (\<lambda>costlier.
     if twoPass \<noteq> 0 \<and> (bad1 < bad2 \<or> bad1 = bad2 \<and> costlier) then
       (let enc = restore intra_st enc in
        bnd (if n0 < n1 then bnd (slice (e_buf enc) (uint n0) (uint n1)) (\<lambda>_. bnd (copy_at (e_buf enc) (uint n0) intraBits) (\<lambda>b. Ok (enc\<lparr>e_buf := b\<rparr>)))
             else Ok enc) (\<lambda>enc.
        bnd (copy_prefix oldE (C * nb) old1) (\<lambda>oldE. bnd (copy_prefix er (C * nb) er1) (\<lambda>er. Ok (1, oldE, er, enc)))))
     else Ok (0, oldE, er, enc)))))))"

definition quantCoarseEnergy :: "int \<Rightarrow> int \<Rightarrow> int \<Rightarrow> int \<Rightarrow> i32 list \<Rightarrow> i32 list \<Rightarrow> u32 \<Rightarrow> i32 list \<Rightarrow> Encoder \<Rightarrow> int \<Rightarrow> int \<Rightarrow> int \<Rightarrow> int
    \<Rightarrow> i32 \<Rightarrow> int \<Rightarrow> int \<Rightarrow> int \<Rightarrow> i32 list \<Rightarrow> (int \<times> i32 list \<times> i32 list \<times> i32 \<times> Encoder) go" where
  "quantCoarseEnergy nb start stop effEnd eB oldE budget er enc C LM nbAvailableBytes forceIntra delayedIntra twoPass lossRate lfe scr =
     (let intra = (if forceIntra \<noteq> 0 \<or> (twoPass = 0 \<and> word_of_int (2 * C * (stop - start)) <s delayedIntra
                      \<and> nbAvailableBytes > (stop - start) * C) then 1 else 0 :: int) in
      bnd (celtUdiv (budget * delayedIntra * word_of_int lossRate) (word_of_int (C * 512))) (\<lambda>intraBias.
      bnd (lossDistortion eB oldE start effEnd nb C) (\<lambda>newDistortion.
      let tell = word_of_int (Enc_Tell enc);
          (twoPass, intra) = (if budget <s tell + 3 then (0, 0) else (twoPass, intra));
          maxDecay = max_decay start stop nbAvailableBytes lfe;
          start_st = enc in
      bnd (slice oldE 0 (C * nb)) (\<lambda>old1.
      bnd (if twoPass \<noteq> 0 \<or> intra \<noteq> 0 then
             bnd (idx eProbModel LM) (\<lambda>m. bnd (idx m 1) (\<lambda>pm.
             quantCoarseEnergyImpl nb start stop eB old1 budget tell pm scr enc C LM 1 maxDecay lfe))
           else Ok (0, old1, scr, enc)) (\<lambda>(bad1, old1, er1, enc).
      bnd (if intra = 0 then
             quant_inter nb start stop eB oldE budget tell er start_st enc C LM maxDecay intraBias lfe twoPass bad1 old1 er1
           else bnd (copy_prefix oldE (C * nb) old1) (\<lambda>oldE. bnd (copy_prefix er (C * nb) er1) (\<lambda>er. Ok (intra, oldE, er, enc))))
        (\<lambda>(intra, oldE, er, enc).
      bnd (if intra \<noteq> 0 then Ok newDistortion
           else bnd (idx predCoef LM) (\<lambda>p. Ok (ADD32 (MULT16_32_Q15 (ucast (MULT16_16_Q15 p p)) delayedIntra) newDistortion))) (\<lambda>delayedIntra.
      Ok (intra, oldE, er, delayedIntra, enc))))))))"

section \<open>Encoding the fine energies\<close>

definition fine_q2 :: "i32 \<Rightarrow> i16 \<Rightarrow> int \<Rightarrow> i16 \<Rightarrow> i32 go" where
  "fine_q2 er extra bits prev =
     bnd (SHR32_go ghalf (sint prev)) (\<lambda>h.
     let q2 = VSHR32 (ADD32 er h) (int dbShift - bits - sint prev);
         q2 = (if scast extra - 1 <s q2 then scast extra - 1 else q2)
     in Ok (if q2 <s 0 then 0 else q2))"

type_synonym fine = "i32 list \<times> i32 list \<times> Encoder"

definition quant_fine_step :: "int \<Rightarrow> int \<Rightarrow> i16 \<Rightarrow> int \<Rightarrow> int \<Rightarrow> fine \<Rightarrow> fine go" where
  "quant_fine_step nb bits prev i c = (\<lambda>(oldE, er, enc).
     let ix = i + c * nb in
     bnd (idx er ix) (\<lambda>v.
     bnd (fine_q2 v (push_bit (nat bits) 1) bits prev) (\<lambda>q2.
     bnd (EncBits enc q2 (word_of_int bits)) (\<lambda>enc.
     bnd (fine_offset q2 bits prev) (\<lambda>off.
     bnd (idx oldE ix) (\<lambda>o'. bnd (upd oldE ix (o' + off)) (\<lambda>oldE.
     bnd (upd er ix (v - off)) (\<lambda>er. Ok (oldE, er, enc)))))))))"

function quant_fine_chans :: "int \<Rightarrow> int \<Rightarrow> i16 \<Rightarrow> int \<Rightarrow> int \<Rightarrow> int \<Rightarrow> fine \<Rightarrow> fine go" where
  "quant_fine_chans nb bits prev C i c st =
     bnd (quant_fine_step nb bits prev i c st) (\<lambda>st.
     if c + 1 \<ge> C then Ok st else quant_fine_chans nb bits prev C i (c + 1) st)"
  by pat_completeness auto
termination
  by (relation "measure (\<lambda>(nb, bits, prev, C, i, c, st). nat (C - c))") auto

declare quant_fine_chans.simps [simp del]

text \<open>\<^verbatim>\<open>1 << extraQuant[i]\<close> panics on a negative count, before the count is tested.\<close>

definition quant_fine_band :: "int \<Rightarrow> int list option \<Rightarrow> int list \<Rightarrow> int \<Rightarrow> int \<Rightarrow> fine \<Rightarrow> fine go" where
  "quant_fine_band nb prevQuant extraQuant C i = (\<lambda>(oldE, er, enc).
     bnd (idx extraQuant i) (\<lambda>x.
     if x < 0 then Panic
     else if x = 0 \<or> e_storage enc * 8 <s word_of_int (Enc_Tell enc) + word_of_int (C * x) then Ok (oldE, er, enc)
     else bnd (prev_bits prevQuant i) (\<lambda>prev. quant_fine_chans nb x prev C i 0 (oldE, er, enc))))"

function quant_fine_bands :: "int \<Rightarrow> int list option \<Rightarrow> int list \<Rightarrow> int \<Rightarrow> int \<Rightarrow> int \<Rightarrow> fine \<Rightarrow> fine go" where
  "quant_fine_bands nb prevQuant extraQuant C stop i st =
     (if i < stop then bnd (quant_fine_band nb prevQuant extraQuant C i st) (\<lambda>st. quant_fine_bands nb prevQuant extraQuant C stop (i + 1) st)
      else Ok st)"
  by pat_completeness auto
termination
  by (relation "measure (\<lambda>(nb, prevQuant, extraQuant, C, stop, i, st). nat (stop - i))") auto

declare quant_fine_bands.simps [simp del]

definition quantFineEnergy :: "int \<Rightarrow> int \<Rightarrow> int \<Rightarrow> i32 list \<Rightarrow> i32 list \<Rightarrow> int list option \<Rightarrow> int list \<Rightarrow> Encoder \<Rightarrow> int \<Rightarrow> fine go" where
  "quantFineEnergy nb start stop oldE er prevQuant extraQuant enc C = quant_fine_bands nb prevQuant extraQuant C stop start (oldE, er, enc)"

type_synonym last_bits = "i32 list option \<times> i32 list \<times> int \<times> Encoder"

definition quant_last_step :: "int \<Rightarrow> int \<Rightarrow> int \<Rightarrow> int \<Rightarrow> last_bits \<Rightarrow> last_bits go" where
  "quant_last_step nb fine i c = (\<lambda>(oldE, er, bitsLeft, enc).
     let ix = i + c * nb in
     bnd (idx er ix) (\<lambda>v.
     let q2 = (if v <s 0 then 0 else 1) in
     bnd (EncBits enc q2 1) (\<lambda>enc.
     bnd (last_offset q2 fine) (\<lambda>off.
     bnd (add_at oldE ix off) (\<lambda>oldE.
     bnd (upd er ix (v - off)) (\<lambda>er. Ok (oldE, er, bitsLeft - 1, enc)))))))"

function quant_last_chans :: "int \<Rightarrow> int \<Rightarrow> int \<Rightarrow> int \<Rightarrow> int \<Rightarrow> last_bits \<Rightarrow> last_bits go" where
  "quant_last_chans nb fine C i c st =
     bnd (quant_last_step nb fine i c st) (\<lambda>st.
     if c + 1 \<ge> C then Ok st else quant_last_chans nb fine C i (c + 1) st)"
  by pat_completeness auto
termination
  by (relation "measure (\<lambda>(nb, fine, C, i, c, st). nat (C - c))") auto

declare quant_last_chans.simps [simp del]

definition quant_last_band :: "int \<Rightarrow> int list \<Rightarrow> int list \<Rightarrow> int \<Rightarrow> int \<Rightarrow> int \<Rightarrow> last_bits \<Rightarrow> last_bits go" where
  "quant_last_band nb fineQuant finePriority C prio i st =
     bnd (skip_band fineQuant finePriority prio i) (\<lambda>(f, skip).
     if skip then Ok st else quant_last_chans nb f C i 0 st)"

function quant_last_bands :: "int \<Rightarrow> int \<Rightarrow> int list \<Rightarrow> int list \<Rightarrow> int \<Rightarrow> int \<Rightarrow> int \<Rightarrow> last_bits \<Rightarrow> last_bits go" where
  "quant_last_bands nb stop fineQuant finePriority C prio i st =
     (if i < stop \<and> fst (snd (snd st)) \<ge> C then
        bnd (quant_last_band nb fineQuant finePriority C prio i st) (\<lambda>st.
        quant_last_bands nb stop fineQuant finePriority C prio (i + 1) st)
      else Ok st)"
  by pat_completeness auto
termination
  by (relation "measure (\<lambda>(nb, stop, fineQuant, finePriority, C, prio, i, st). nat (stop - i))") auto

declare quant_last_bands.simps [simp del]

definition quantEnergyFinalise :: "int \<Rightarrow> int \<Rightarrow> int \<Rightarrow> i32 list option \<Rightarrow> i32 list \<Rightarrow> int list \<Rightarrow> int list \<Rightarrow> int \<Rightarrow> Encoder \<Rightarrow> int
    \<Rightarrow> (i32 list option \<times> i32 list \<times> Encoder) go" where
  "quantEnergyFinalise nb start stop oldE er fineQuant finePriority bitsLeft enc C =
     bnd (quant_last_bands nb stop fineQuant finePriority C 0 start (oldE, er, bitsLeft, enc)) (\<lambda>st.
     bnd (quant_last_bands nb stop fineQuant finePriority C 1 start st) (\<lambda>(oldE, er, bitsLeft, enc).
     Ok (oldE, er, enc)))"

section \<open>Amplitudes to log energies\<close>

function amp_bands :: "int \<Rightarrow> int \<Rightarrow> int \<Rightarrow> i32 list \<Rightarrow> i32 list \<Rightarrow> i32 list go" where
  "amp_bands base effEnd i bandE bandLogE =
     (if i < effEnd then
        bnd (idx bandE (i + base)) (\<lambda>b. bnd (idx eMeans i) (\<lambda>m.
        bnd (upd bandLogE (i + base) (SHL32 (EXTEND32 (Celt_log2 b)) (dbShift - 10) - SHL32 (word_of_int m) (dbShift - 4) + gconst2)) (\<lambda>bandLogE.
        amp_bands base effEnd (i + 1) bandE bandLogE)))
      else Ok bandLogE)"
  by pat_completeness auto
termination
  by (relation "measure (\<lambda>(base, effEnd, i, bandE, bandLogE). nat (effEnd - i))") auto

function amp_rest :: "int \<Rightarrow> int \<Rightarrow> int \<Rightarrow> i32 list \<Rightarrow> i32 list go" where
  "amp_rest base stop i bandLogE =
     (if i < stop then bnd (upd bandLogE (base + i) (- gconst14)) (\<lambda>bandLogE. amp_rest base stop (i + 1) bandLogE) else Ok bandLogE)"
  by pat_completeness auto
termination
  by (relation "measure (\<lambda>(base, stop, i, bandLogE). nat (stop - i))") auto

function amp_chans :: "int \<Rightarrow> int \<Rightarrow> int \<Rightarrow> i32 list \<Rightarrow> i32 list \<Rightarrow> int \<Rightarrow> int \<Rightarrow> i32 list go" where
  "amp_chans nb effEnd stop bandE bandLogE C c =
     bnd (amp_bands (c * nb) effEnd 0 bandE bandLogE) (\<lambda>bandLogE.
     bnd (amp_rest (c * nb) stop effEnd bandLogE) (\<lambda>bandLogE.
     if c + 1 \<ge> C then Ok bandLogE else amp_chans nb effEnd stop bandE bandLogE C (c + 1)))"
  by pat_completeness auto
termination
  by (relation "measure (\<lambda>(nb, effEnd, stop, bandE, bandLogE, C, c). nat (C - c))") auto

declare amp_bands.simps [simp del] amp_rest.simps [simp del] amp_chans.simps [simp del]

definition amp2Log2 :: "int \<Rightarrow> int \<Rightarrow> int \<Rightarrow> i32 list \<Rightarrow> i32 list \<Rightarrow> int \<Rightarrow> i32 list go" where
  "amp2Log2 nb effEnd stop bandE bandLogE C = amp_chans nb effEnd stop bandE bandLogE C 0"

end
