(* ===== verification/Quant_Sync.thy ===== *)
theory Quant_Sync
  imports RC_Sync Quant_Bands Laplace_Props Fixedmath_Props
begin

text \<open>
  The encoder and the decoder of the band energies stay in step: they code the same symbols whatever
  bits are left, and they reconstruct the same energies.
\<close>

section \<open>How far one symbol moves Tell\<close>

lemma ecIlog_drop:
  assumes "2 ^ 23 \<le> uint r" "k \<le> 22" "uint r div 2 ^ k \<le> uint r'"
  shows "ecIlog r \<le> ecIlog r' + int k"
proof -
  define l where "l = nat (ecIlog r)"
  have r0: "0 < uint r" using assms(1) zero_less_power [of "2 :: int" 23] by linarith
  have l: "1 \<le> l" "ecIlog r = int l" "2 ^ (l - 1) \<le> uint r" "uint r < 2 ^ l"
    using ecIlog_bounds [OF r0] by (simp_all add: l_def nat_diff_distrib)
  have "(2 :: int) ^ 23 < 2 ^ l" using assms(1) l(4) by linarith
  then have "23 < l" using power_strict_increasing_iff [of "2 :: int" 23 l] by linarith
  define j where "j = l - 1 - k"
  have j: "l - 1 = k + j" using \<open>23 < l\<close> assms(2) by (simp add: j_def)
  have "(2 :: int) ^ j \<le> uint r div 2 ^ k"
    using l(3) unfolding j power_add by (intro le_div_pos) (simp_all add: mult.commute)
  then have r': "2 ^ j \<le> uint r'" using assms(3) by linarith
  then have "0 < uint r'" using zero_less_power [of "2 :: int" j] by linarith
  from ecIlog_bounds [OF this] r' have "(2 :: int) ^ j < 2 ^ nat (ecIlog r')" "1 \<le> ecIlog r'" by linarith+
  then have "int j < ecIlog r'" by simp
  then show ?thesis using j l(1,2) by linarith
qed

lemma normalize_Tell:
  assumes wf: "enc_wf x" and r: "8388608 < uint (e_rng e)" "uint (e_rng x) \<le> 2147483648"
    and n: "e_nbits_total x = e_nbits_total e" "uint (e_rng e) div 2 ^ k \<le> uint (e_rng x)" "k \<le> 22"
    and e': "enc_normalize x = Ok e'"
  shows "Enc_Tell e' \<le> Enc_Tell e + int k"
proof -
  have "(2 :: int) ^ k * 1 \<le> uint (e_rng e)"
    using power_increasing [OF n(3), of "2 :: int"] r(1) by simp
  then have "1 \<le> uint (e_rng e) div 2 ^ k" by (intro le_div_pos) simp_all
  then have x0: "0 < uint (e_rng x)" using n(2) by linarith
  have "rounds (uint (e_rng x)) < 4" using rounds_le [of "uint (e_rng x)"] by linarith
  from enc_normalize_loop_total [OF wf x0 r(2) this] e' have "Enc_Tell e' = Enc_Tell x" by (auto simp: enc_normalize_def)
  moreover have "ecIlog (e_rng e) \<le> ecIlog (e_rng x) + int k" using r(1) n(2,3) by (intro ecIlog_drop) simp_all
  ultimately show ?thesis by (simp add: Enc_Tell_def ecTell_def n(1))
qed

lemma flag_Tell:
  assumes wf: "enc_wf e" and r: "8388608 < uint (e_rng e)" "uint (e_rng e) \<le> 2147483648"
    and e': "EncBitLogp e v 3 = Ok e'"
  shows "Enc_Tell e' \<le> Enc_Tell e + 3"
proof -
  define s where "s = drop_bit 3 (e_rng e)"
  have s: "uint s = uint (e_rng e) div 2 ^ 3" by (simp add: s_def u32_drop)
  have div8: "0 \<le> z \<Longrightarrow> 0 \<le> z div 2 ^ 3 \<and> z div 2 ^ 3 \<le> z \<and> 2 * (z div 2 ^ 3) \<le> z" for z :: int by simp presburger
  have le: "0 \<le> uint (e_rng e) div 2 ^ 3" "uint s \<le> uint (e_rng e)" "2 * (uint (e_rng e) div 2 ^ 3) \<le> uint (e_rng e)"
    using div8 [of "uint (e_rng e)"] unfolding s by simp_all
  have d: "uint (e_rng e - s) = uint (e_rng e) - uint s" using le(2) by (rule u32_sub)
  define x where "x = (if v \<noteq> 0 then e\<lparr>e_val := e_val e + (e_rng e - s), e_rng := s\<rparr> else e\<lparr>e_rng := e_rng e - s\<rparr>)"
  have "uint (e_rng x) \<le> 2147483648" "uint (e_rng e) div 2 ^ 3 \<le> uint (e_rng x)" "enc_wf x" "e_nbits_total x = e_nbits_total e"
    using le r(2) wf by (simp_all add: x_def d s)
  moreover have "enc_normalize x = Ok e'"
    using e' by (cases "v = 0") (simp_all add: EncBitLogp_def x_def s_def Let_def)
  ultimately have "Enc_Tell e' \<le> Enc_Tell e + int 3" using r(1) by (intro normalize_Tell) simp_all
  then show ?thesis by simp
qed

lemma laplace_Tell:
  assumes wf: "enc_wf e" and r: "8388608 < uint (e_rng e)" "uint (e_rng e) \<le> 2147483648"
    and ok: "laplace_ok fs decay" and e': "ecLaplaceEncode e v fs decay = Ok (v', e')"
  shows "Enc_Tell e' \<le> Enc_Tell e + 15"
proof -
  obtain y fl fh where sl: "laplace_slot v fs decay = (y, fl, fh)" by (cases "laplace_slot v fs decay")
  have f: "freq_ok fl fh 32768" using slot_found [OF ok sl] by simp
  define a where "a = slot_lo fh 32768 (e_rng e)"
  define b where "b = slot_hi fl 32768 (e_rng e)"
  define q where "q = uint (e_rng e) div 32768"
  have u: "uint fl < uint fh" "uint fh \<le> 32768" using f by (simp_all add: freq_ok_def u32_less u32_le)
  have q: "q * 32768 \<le> uint (e_rng e)" "1 \<le> q" using uint_slot [OF f r, of fh] u by (simp_all add: q_def)
  have ab: "uint a < uint b" "uint b \<le> uint (e_rng e)" using slot_bounds [OF f r] by (simp_all add: a_def b_def)
  have ua: "uint a = q * (32768 - uint fh)" using uint_slot(1) [OF f r, of fh] u by (simp add: a_def slot_lo_def q_def)
  have "q * (32768 - uint fl) \<le> uint b"
  proof (cases "0 < fl")
    case True
    then show ?thesis using uint_slot(1) [OF f r, of fl] u by (simp add: b_def slot_hi_def q_def)
  next
    case False
    then have "fl = 0" by (simp add: word_neq_0_conv [symmetric])
    then show ?thesis using q(1) by (simp add: b_def slot_hi_def)
  qed
  moreover have "q * (32768 - uint fl) - q * (32768 - uint fh) = q * (uint fh - uint fl)" by (simp add: algebra_simps)
  moreover have "q * 1 \<le> q * (uint fh - uint fl)" using u(1) q(2) by (intro mult_left_mono) simp_all
  ultimately have "q \<le> uint b - uint a" using ua by linarith
  moreover have "uint (b - a) = uint b - uint a" using ab(1) by (simp add: u32_sub)
  ultimately have d: "q \<le> uint (b - a)" "uint (b - a) \<le> 2147483648"
    using ab r(2) uint_ge_0 [of a] by linarith+
  have "enc_normalize (narrowed e a b) = Ok e'"
    using e' Encode_narrowed [of 32768 e fl fh] by (auto simp: ecLaplaceEncode_def sl EncodeBin_Encode bnd_eq_Ok a_def b_def)
  moreover have "enc_wf (narrowed e a b)" using wf by (simp add: narrowed_def)
  ultimately have "Enc_Tell e' \<le> Enc_Tell e + int 15"
    using r(1) d by (intro normalize_Tell [of "narrowed e a b" e 15]) (simp_all add: narrowed_def q_def)
  then show ?thesis by simp
qed

section \<open>One coarse symbol\<close>

definition row_ok :: "int list \<Rightarrow> bool" where
  "row_ok pm \<longleftrightarrow> length pm = 42 \<and> list_all (\<lambda>b. case band_model pm b of (fs, decay) \<Rightarrow> laplace_ok fs decay) [0..<21]"

lemma eProbModel_rows: "list_all (list_all row_ok) eProbModel"
  by code_simp

lemma prob_at_ok:
  assumes "row_ok pm" "0 \<le> i"
  obtains fs decay where "(prob_at pm i :: (u32 \<times> int) go) = Ok (fs, decay)" "laplace_ok fs decay"
proof -
  define b where "b = nat (IMIN i 20)"
  have b: "b < 21" "IMIN i 20 = int b" using assms(2) by (auto simp: b_def IMIN_def)
  have ln: "length pm = 42" using assms(1) by (simp add: row_ok_def)
  obtain fs decay where m: "band_model pm b = (fs, decay)" by (cases "band_model pm b")
  have "nat (2 * int b) = 2 * b" "nat (2 * int b + 1) = 2 * b + 1" by simp_all
  then have "(prob_at pm i :: (u32 \<times> int) go) = Ok (fs, decay)"
    using b m ln by (simp add: prob_at_def idx_Ok band_model_def)
  moreover have "b \<in> set [0..<21]" using b(1) by simp
  then have "laplace_ok fs decay" using assms(1) m unfolding row_ok_def list_all_iff by fastforce
  ultimately show ?thesis by (rule that)
qed

lemma one_le_words:
  fixes x :: i32
  assumes "1 \<le>s x" "\<not> 2 \<le>s x"
  shows "x = 1"
proof -
  have "sint x = 1" using assms by (simp add: word_sle_eq)
  then have "word_of_int (sint x) = (1 :: i32)" by simp
  then show ?thesis by (simp only: word_sint)
qed

lemma small_symbol:
  assumes "v = IMAX (-1) (IMIN qi 1)" "sg = (if v < 0 then -1 else 0)"
  shows "icdf_ok smallEnergyICDF 2 ((2 * v) XOR sg)"
    "drop_bit 1 ((2 * v) XOR sg) XOR - (((2 * v) XOR sg) AND 1) = v"
proof -
  have "v = -1 \<or> v = 0 \<or> v = 1" using assms(1) by (auto simp: IMAX_def IMIN_def)
  then show "icdf_ok smallEnergyICDF 2 ((2 * v) XOR sg)" "drop_bit 1 ((2 * v) XOR sg) XOR - (((2 * v) XOR sg) AND 1) = v"
    by (auto simp: assms(2) icdf_ok_def smallEnergyICDF_def)
qed

lemma ecLaplaceEncode_value: "ecLaplaceEncode e v fs decay = Ok (v', e') \<Longrightarrow> v' = laplace_clamp fs decay v"
  by (auto simp: ecLaplaceEncode_def laplace_clamp_def bnd_eq_Ok split: prod.splits)

lemma ecLaplaceEncode_put:
  "put_laplace (fs, decay) v e = Ok e' \<Longrightarrow> ecLaplaceEncode e v fs decay = Ok (laplace_clamp fs decay v, e')"
  by (auto simp: bnd_eq_Ok dest: ecLaplaceEncode_value)

lemma put_laplace_fronted: "enc_wf e \<Longrightarrow> put_laplace (fs, decay) v e = Ok e' \<Longrightarrow> fronted e e'"
  by (auto simp: ecLaplaceEncode_def bnd_eq_Ok split: prod.splits dest: symbol_fronted(2))

text \<open>With one bit left, only \<open>0\<close> and \<open>-1\<close> can be told apart.\<close>

lemma coarse_coded:
  assumes st: "enc_st e s" and nb: "e_nbits_total e + 24 < 4294967296" and row: "row_ok pm" "0 \<le> i"
    and one: "budget - word_of_int (Enc_Tell e) = 1 \<Longrightarrow> -1 \<le> qi"
  shows "coded fronted 24 e s snd (coarse_put pm budget (word_of_int (Enc_Tell e)) i qi e) id (\<lambda>_. True)
    (coarse_get pm budget i) snd (\<lambda>z y. fst y = fst z)"
proof -
  define left where "left = budget - (word_of_int (Enc_Tell e) :: i32)"
  have wf: "enc_wf e" using st by (cases s) (simp add: enc_rel_def)
  have nb': "e_nbits_total e + int 24 < 4294967296" using nb by simp
  have tell: "budget - word_of_int (Dec_Tell d) = left" if "dec_st d S s" for d S
    using enc_st_Tell [OF st] dec_st_Tell [OF that] by (simp add: left_def)
  consider (lap) "15 \<le>s left" | (small) "\<not> 15 \<le>s left" "2 \<le>s left" | (one) "\<not> 15 \<le>s left" "\<not> 2 \<le>s left" "1 \<le>s left"
    | (none) "\<not> 15 \<le>s left" "\<not> 2 \<le>s left" "\<not> 1 \<le>s left" by blast
  then show ?thesis
  proof cases
    case lap
    obtain fs decay where p: "(prob_at pm i :: (u32 \<times> int) go) = Ok (fs, decay)" "laplace_ok fs decay"
      using prob_at_ok [OF row] by blast
    note c = undoes_coded [OF laplace_undo [OF p(2)] st nb', where K = fronted, OF put_laplace_fronted [OF wf]]
    show ?thesis
      by (rule coded_conseq [OF c, where f = "\<lambda>e'. (laplace_clamp fs decay qi, e')" and p = id])
        (use lap p tell ecLaplaceEncode_put put_laplace_fronted [OF wf] in \<open>auto simp: coarse_put_def coarse_get_def left_def [symmetric]\<close>)
  next
    case small
    define v where "v = IMAX (-1) (IMIN qi 1)"
    define sg :: int where "sg = (if v < 0 then -1 else 0)"
    note ss = small_symbol [OF v_def sg_def]
    note c = undoes_coded [OF undoes_EncIcdf [OF ss(1)] st nb', where K = fronted, OF symbol_fronted(4) [OF wf]]
    show ?thesis
      by (rule coded_conseq [OF c, where f = "\<lambda>e'. (v, e')" and p = id])
        (use small tell ss(2) symbol_fronted(4) [OF wf] in \<open>auto simp: coarse_put_def coarse_get_def left_def [symmetric] v_def [symmetric] sg_def [symmetric] Let_def\<close>)
  next
    case one': one
    define v where "v = IMIN 0 qi"
    have l1: "left = 1" using one'(2,3) one_le_words by blast
    have v: "v = 0 \<or> v = -1" using one [folded left_def, OF l1] by (auto simp: v_def IMIN_def)
    have lp: "1 \<le> (1 :: u32)" "(1 :: u32) \<le> 23" by simp_all
    note c = undoes_coded [OF undoes_EncBitLogp [OF lp] st nb', where K = fronted, OF symbol_fronted(3) [OF wf]]
    show ?thesis
      by (rule coded_conseq [OF c [of "- v"], where f = "\<lambda>e'. (v, e')" and p = id])
        (use one' tell v symbol_fronted(3) [OF wf] in \<open>auto simp: coarse_put_def coarse_get_def left_def [symmetric] v_def [symmetric]\<close>)
  next
    case none
    have r: "coarse_put pm budget (word_of_int (Enc_Tell e)) i qi e = Ok (-1, e)"
      using none by (simp add: coarse_put_def left_def)
    show ?thesis unfolding r
    proof (rule codedI [where x = "(-1, e)" and s' = s])
      fix S y0
      assume "ins_st S s" "dec_st (id y0) S s"
      with tell none show "\<exists>y. coarse_get pm budget i y0 = Ok y \<and> dec_st (snd y) S s \<and> d_error (snd y) = d_error (id y0)
          \<and> fst y = fst (-1 :: int, e)"
        by (simp add: coarse_get_def)
    qed (simp_all add: st fronted_refl)
  qed
qed

section \<open>One channel of one band\<close>

text \<open>The decoder keeps the energies in 64 bits and clamps them on both sides; the encoder does neither.\<close>

lemma ucast_of_int: "(ucast (word_of_int k :: i64) :: i32) = word_of_int k"
  by transfer (simp add: take_bit_take_bit)

lemma narrow_sum:
  fixes A q :: i32 and p :: i64
  shows "ucast (scast A + p + scast q :: i64) = A + ucast p + q" "ucast (p + scast q - scast A :: i64) = ucast p + q - A"
proof -
  have p: "p = word_of_int (sint p)" by (simp only: word_sint)
  have 1: "scast A + p + scast q = (word_of_int (sint A + sint p + sint q) :: i64)"
    and 2: "p + scast q - scast A = (word_of_int (sint p + sint q - sint A) :: i64)"
    by (simp_all only: of_int_add of_int_diff scast_of_int word_sint)
  have u: "(ucast p :: i32) = word_of_int (sint p)" by (subst p, rule ucast_of_int)
  show "ucast (scast A + p + scast q :: i64) = A + ucast p + q"
    unfolding 1 ucast_of_int u by (simp only: of_int_add word_sint)
  show "ucast (p + scast q - scast A :: i64) = ucast p + q - A"
    unfolding 2 ucast_of_int u by (simp only: of_int_add of_int_diff word_sint)
qed

lemma narrow_q: "SHL32 (EXTEND32 (word_of_int v)) dbShift = SHL32 (word_of_int v) dbShift"
  unfolding SHL32_def EXTEND32_def dbShift_def by (rule bit_word_eqI) (auto simp: bit_simps)

lemma clamp_top: "sint (MAX32 (- gconst28) t) \<le> 469762048 \<Longrightarrow> MIN32 gconst28 (MAX32 (- gconst28) t) = MAX32 (- gconst28) t"
  by (simp add: MIN32_def gconst28_def word_sless_alt)

text \<open>
  The energies of both sides, after the entries \<open>W\<close> have been coded: equal, and the prediction of the
  encoder is that of the decoder narrowed to 32 bits, if no entry of \<open>W\<close> is above the upper clamp.
  The encoder may work on a prefix of the decoder's list; \<open>suf\<close> is the rest.
\<close>

definition same_energies :: "nat set \<Rightarrow> i32 list \<Rightarrow> quant \<Rightarrow> unquant \<Rightarrow> bool" where
  "same_energies W suf st = (\<lambda>(oldE, prev, d). length oldE = length (q_old st) + length suf \<and> length prev = length (q_prev st)
     \<and> ((\<forall>p\<in>W. sint (q_old st ! p) \<le> 469762048) \<longrightarrow> oldE = q_old st @ suf \<and> q_prev st = map ucast prev))"

definition same_shape :: "quant \<Rightarrow> quant \<Rightarrow> bool" where
  "same_shape st st' \<longleftrightarrow> length (q_old st') = length (q_old st) \<and> length (q_err st') = length (q_err st)
     \<and> length (q_prev st') = length (q_prev st)"

lemma quant_coarse_step_shape:
  "quant_coarse_step nb eB pm coef beta budget C start stop maxDecay lfe i c st = Ok st' \<Longrightarrow> same_shape st st'"
  by (auto simp: quant_coarse_step_def same_shape_def Let_def bnd_eq_Ok upd_eq_Ok split: prod.splits)

lemma unquant_coarse_step_Ok:
  assumes "coarse_get pm budget i d = Ok (v, d')" "i + c * nb = int p" "p < length oldE" "c = int k" "k < length prev"
  shows "\<exists>o1 x. unquant_coarse_step nb pm coef beta budget i c (oldE, prev, d) = Ok (o1, x, d') \<and> length o1 = length oldE \<and> length x = length prev"
  using assms by (simp add: unquant_coarse_step_def Let_def idx_Ok upd_Ok)

lemma coarse_step_coded:
  assumes st: "enc_st (q_enc st) s" and nb: "e_nbits_total (q_enc st) + 24 < 4294967296" and row: "row_ok pm" "0 \<le> i"
    and ix: "i + c * n = int p" "p < length (q_old st)" "p < length eB" "p < length (q_err st)" "c = int k" "k < length (q_prev st)"
    and new: "p \<notin> W"
    and one: "\<And>qi. budget - word_of_int (Enc_Tell (q_enc st)) = 1 \<Longrightarrow>
      -1 \<le> coarse_limit budget (word_of_int (Enc_Tell (q_enc st))) C start stop i lfe qi"
  shows "coded fronted 24 (q_enc st) s q_enc (quant_coarse_step n eB pm coef beta budget C start stop maxDecay lfe i c st)
    (snd \<circ> snd) (same_energies W suf st) (unquant_coarse_step n pm coef beta budget i c) (snd \<circ> snd) (same_energies (insert p W) suf)"
proof -
  define x where "x = eB ! p"
  define oldV where "oldV = MAX32 (- gconst9) (q_old st ! p)"
  define f where "f = x - MULT16_32_Q15 coef oldV - q_prev st ! k"
  define qi0 where "qi0 = coarse_qi x (q_old st ! p) f maxDecay"
  define tell where "tell = (word_of_int (Enc_Tell (q_enc st)) :: i32)"
  define ql where "ql = coarse_limit budget tell C start stop i lfe qi0"
  have one': "budget - word_of_int (Enc_Tell (q_enc st)) = 1 \<Longrightarrow> -1 \<le> ql"
    unfolding ql_def tell_def by (rule one)
  have c: "coded fronted 24 (q_enc st) s snd (coarse_put pm budget tell i ql (q_enc st)) id (\<lambda>_. True)
    (coarse_get pm budget i) snd (\<lambda>z y. fst y = fst z)"
    unfolding tell_def by (rule coarse_coded [OF st nb row]) (rule one')
  obtain z s' where z: "coarse_put pm budget tell i ql (q_enc st) = Ok z" "enc_st (snd z) s'"
    "e_nbits_total (snd z) \<le> e_nbits_total (q_enc st) + int 24" "fronted (q_enc st) (snd z)"
    "e_error (snd z) = 0 \<longrightarrow> e_error (q_enc st) = 0"
    "\<forall>S. ins_st S s' \<longrightarrow> ins_st S s \<and> (\<forall>y0. True \<longrightarrow> dec_st (id y0) S s \<longrightarrow> (\<exists>y. coarse_get pm budget i y0 = Ok y
       \<and> dec_st (snd y) S s' \<and> d_error (snd y) = d_error (id y0) \<and> fst y = fst z))"
    using c unfolding coded_def by blast
  obtain v e' where ve: "z = (v, e')" by (cases z)
  define q where "q = SHL32 (word_of_int v) dbShift"
  define tmp where "tmp = MAX32 (- gconst28) (MULT16_32_Q15 coef oldV + q_prev st ! k + q)"
  define st' where "st' = \<lparr>q_old = (q_old st)[p := tmp], q_err = (q_err st)[p := f - q],
    q_prev = (q_prev st)[k := q_prev st ! k + q - MULT16_32_Q15 beta q], q_bad = q_bad st + \<bar>qi0 - v\<bar>, q_enc = e'\<rparr>"
  have r: "quant_coarse_step n eB pm coef beta budget C start stop maxDecay lfe i c st = Ok st'"
    using ix z(1) by (simp add: quant_coarse_step_def Let_def idx_Ok upd_Ok x_def [symmetric] oldV_def [symmetric]
      f_def [symmetric] qi0_def [symmetric] tell_def [symmetric] ql_def [symmetric] ve narrow_q q_def [symmetric] tmp_def [symmetric] st'_def)
  show ?thesis
  proof (rule codedI [OF r])
    fix S y0
    assume a: "ins_st S s'" "same_energies W suf st y0" "dec_st ((snd \<circ> snd) y0) S s"
    obtain oldE prev d where y0: "y0 = (oldE, prev, d)" by (cases y0)
    obtain d' where d': "coarse_get pm budget i d = Ok (v, d')" "dec_st d' S s'" "d_error d' = d_error d"
      using z(6) a(1,3) by (fastforce simp: y0 ve)
    have ln: "length oldE = length (q_old st) + length suf" "length prev = length (q_prev st)"
      using a(2) by (simp_all add: same_energies_def y0)
    then have lt: "p < length oldE" "k < length prev" using ix by simp_all
    obtain o1 pr where u: "unquant_coarse_step n pm coef beta budget i c (oldE, prev, d) = Ok (o1, pr, d')"
      "length o1 = length oldE" "length pr = length prev"
      using unquant_coarse_step_Ok [OF d'(1) ix(1) lt(1) ix(5) lt(2)] by blast
    have "o1 = q_old st' @ suf \<and> q_prev st' = map ucast pr" if le: "\<forall>p\<in>insert p W. sint (q_old st' ! p) \<le> 469762048"
    proof -
      have "sint (q_old st ! p') \<le> 469762048" if "p' \<in> W" for p'
      proof -
        have "p \<noteq> p'" "sint (q_old st' ! p') \<le> 469762048" using le new that by blast+
        then show ?thesis by (simp add: st'_def)
      qed
      then have eq: "oldE = q_old st @ suf" "q_prev st = map ucast prev" using a(2) by (simp_all add: same_energies_def y0)
      have t: "sint tmp \<le> 469762048" using le ix(2) by (simp add: st'_def)
      have o: "oldE ! p = q_old st ! p" "q_prev st ! k = ucast (prev ! k)" using eq ix lt by (simp_all add: nth_append)
      have tm: "MIN32 gconst28 (MAX32 (- gconst28) (ucast (scast (MULT16_32_Q15 coef oldV) + prev ! k + scast q :: i64))) = tmp"
        using clamp_top [OF t [unfolded tmp_def]] by (simp add: narrow_sum(1) o tmp_def)
      have "unquant_coarse_step n pm coef beta budget i c (oldE, prev, d)
          = Ok (oldE[p := tmp], prev[k := prev ! k + scast q - scast (MULT16_32_Q15 beta q)], d')"
        using d'(1) ix lt by (simp add: unquant_coarse_step_def Let_def idx_Ok upd_Ok o oldV_def [symmetric] q_def [symmetric] tm)
      then have "o1 = oldE[p := tmp]" "pr = prev[k := prev ! k + scast q - scast (MULT16_32_Q15 beta q)]" using u(1) by simp_all
      then show ?thesis using ix(2) lt(2) by (simp add: eq(1) st'_def list_update_append eq(2) map_update narrow_sum(2) o(2))
    qed
    then have "same_energies (insert p W) suf st' (o1, pr, d')" using ln u(2,3) by (simp add: same_energies_def st'_def)
    then show "\<exists>y. unquant_coarse_step n pm coef beta budget i c y0 = Ok y \<and> dec_st ((snd \<circ> snd) y) S s'
        \<and> d_error ((snd \<circ> snd) y) = d_error ((snd \<circ> snd) y0) \<and> same_energies (insert p W) suf st' y"
      using u(1) d' by (simp add: y0)
  qed (use z in \<open>simp_all add: ve st'_def\<close>)
qed

section \<open>All bands\<close>

lemma limit_ge:
  assumes "0 \<le> sint budget" "i \<noteq> start" "1 \<le> C" "i < stop" "budget - tell = 1"
  shows "-1 \<le> coarse_limit budget tell C start stop i lfe qi"
proof -
  have "sint (budget - tell) = 1" using assms(5) by simp
  moreover have "sint budget - sint tell = 1"
  proof -
    have "budget = tell + 1" using assms(5) by (simp add: algebra_simps)
    then have "budget = word_of_int (sint tell + 1)" by (simp only: of_int_add word_sint of_int_1)
    then have "sint tell < 2147483647 \<Longrightarrow> ?thesis" using i32_range [of tell] i32_of_int [of "sint tell + 1"] by simp
    moreover have "sint tell \<noteq> 2147483647"
    proof
      assume "sint tell = 2147483647"
      then have "budget = word_of_int 2147483648" using \<open>budget = word_of_int (sint tell + 1)\<close> by simp
      then show False using assms(1) by simp
    qed
    ultimately show ?thesis using i32_range(2) [of tell] by linarith
  qed
  moreover have "1 * 1 \<le> C * (stop - i)" using assms(3,4) by (intro mult_mono) simp_all
  then have "3 * C * (stop - i) \<ge> 3" by (simp add: mult.assoc)
  ultimately have "sint budget - sint tell - 3 * C * (stop - i) < 16" by linarith
  then show ?thesis using assms(2) by (auto simp: coarse_limit_def Let_def IMIN_def IMAX_def)
qed

lemma Tell_pos: "enc_st e s \<Longrightarrow> 0 \<le> Enc_Tell e"
proof (cases s)
  case (fields n L R N V)
  assume "enc_st e s"
  then have r: "0 < uint (e_rng e)" "e_nbits_total e = 33 + 8 * int n + int N" by (simp_all add: fields enc_rel_def)
  show ?thesis using ecIlog_bounds(2) [OF r(1)] by (simp add: Enc_Tell_def ecTell_def r(2))
qed

lemma left_words:
  fixes budget :: i32
  assumes "0 \<le> t" "t \<le> sint budget"
  shows "sint (budget - word_of_int t) = sint budget - t"
proof -
  have "budget - word_of_int t = word_of_int (sint budget - t)" by (simp only: of_int_diff word_sint)
  then show ?thesis using assms i32_range [of budget] i32_of_int [of "sint budget - t"] by simp
qed

lemma coarse_step_Tell:
  assumes st: "enc_st (q_enc st) s" and row: "row_ok pm" "0 \<le> i"
    and room: "Enc_Tell (q_enc st) + 15 \<le> sint budget"
    and r: "quant_coarse_step n eB pm coef beta budget C start stop maxDecay lfe i c st = Ok st'"
  shows "Enc_Tell (q_enc st') \<le> Enc_Tell (q_enc st) + 15"
proof -
  let ?e = "q_enc st"
  have wf: "enc_wf ?e" "8388608 < uint (e_rng ?e)" "uint (e_rng ?e) \<le> 2147483648"
    using st by (cases s; simp add: enc_rel_def)+
  have "sint (budget - word_of_int (Enc_Tell ?e)) = sint budget - Enc_Tell ?e"
    using room Tell_pos [OF st] by (intro left_words) simp_all
  then have l: "15 \<le>s budget - word_of_int (Enc_Tell ?e)" using room by (simp add: word_sle_eq)
  obtain fs decay where p: "(prob_at pm i :: (u32 \<times> int) go) = Ok (fs, decay)" "laplace_ok fs decay"
    using prob_at_ok [OF row] by blast
  obtain q v where "coarse_put pm budget (word_of_int (Enc_Tell ?e)) i q ?e = Ok (v, q_enc st')"
    using r by (auto simp: quant_coarse_step_def Let_def bnd_eq_Ok)
  then have "ecLaplaceEncode ?e q fs decay = Ok (v, q_enc st')" using l p(1) by (simp add: coarse_put_def)
  then show ?thesis by (rule laplace_Tell [OF wf p(2)])
qed

text \<open>The entries written before channel \<open>c\<close> of band \<open>i\<close>.\<close>

definition written :: "int \<Rightarrow> int \<Rightarrow> int \<Rightarrow> int \<Rightarrow> int \<Rightarrow> nat set" where
  "written nb C start i c = (\<lambda>(j, k). nat (j + k * nb)) `
     {(j, k). start \<le> j \<and> 0 \<le> k \<and> (j < i \<and> k < C \<or> j = i \<and> k < c)}"

lemma written_new:
  assumes "0 \<le> start" "start \<le> i" "i < nb" "0 \<le> c"
  shows "nat (i + c * nb) \<notin> written nb C start i c"
proof
  assume "nat (i + c * nb) \<in> written nb C start i c"
  then obtain j k where jk: "nat (i + c * nb) = nat (j + k * nb)" "start \<le> j" "0 \<le> k" "j < i \<and> k < C \<or> j = i \<and> k < c"
    by (auto simp: written_def)
  have "0 \<le> i + c * nb" "0 \<le> j + k * nb" using assms jk(2,3) by simp_all
  then have eq: "i + c * nb = j + k * nb" using jk(1) by simp
  have "j < nb" "0 \<le> j" "0 \<le> i" using assms jk(2,4) by auto
  then have "(i + c * nb) mod nb = i" "(j + k * nb) mod nb = j" using assms by simp_all
  then have "i = j" using eq by simp
  then have "c * nb = k * nb" "k < c" using eq jk(4) by simp_all
  then show False using assms by simp
qed

lemma written_Suc:
  assumes "start \<le> i" "0 \<le> c"
  shows "insert (nat (i + c * nb)) (written nb C start i c) = written nb C start i (c + 1)"
proof -
  have "{(j, k). start \<le> j \<and> 0 \<le> k \<and> (j < i \<and> k < C \<or> j = i \<and> k < c + 1)}
      = insert (i, c) {(j, k). start \<le> j \<and> 0 \<le> k \<and> (j < i \<and> k < C \<or> j = i \<and> k < c)}"
    using assms by auto
  then show ?thesis by (simp add: written_def)
qed

lemma written_next: "0 < C \<Longrightarrow> start \<le> i \<Longrightarrow> written nb C start i C = written nb C start (i + 1) 0"
  unfolding written_def by (rule arg_cong [where f = "image _"]) auto

text \<open>What the loops need of the lists and the bits that are left.\<close>

definition fits :: "int \<Rightarrow> int \<Rightarrow> i32 list \<Rightarrow> quant \<Rightarrow> bool" where
  "fits nb C eB st \<longleftrightarrow> 1 \<le> C \<and> C \<le> len (q_prev st) \<and> C * nb \<le> len (q_old st) \<and> C * nb \<le> len eB \<and> C * nb \<le> len (q_err st)"

lemma fits_shape: "fits nb C eB st \<Longrightarrow> same_shape st st' \<Longrightarrow> fits nb C eB st'"
  by (simp add: fits_def same_shape_def)

lemma fits_index:
  assumes "fits nb C eB st" "0 \<le> i" "i < nb" "0 \<le> c" "c < C"
  shows "i + c * nb = int (nat (i + c * nb))" "nat (i + c * nb) < length (q_old st)" "nat (i + c * nb) < length eB"
    "nat (i + c * nb) < length (q_err st)" "c = int (nat c)" "nat c < length (q_prev st)"
proof -
  have "(c + 1) * nb \<le> C * nb" using assms by (intro mult_right_mono) simp_all
  then have "i + c * nb < C * nb" "0 \<le> i + c * nb" using assms by (simp_all add: algebra_simps)
  then show "i + c * nb = int (nat (i + c * nb))" "nat (i + c * nb) < length (q_old st)" "nat (i + c * nb) < length eB"
    "nat (i + c * nb) < length (q_err st)" "c = int (nat c)" "nat c < length (q_prev st)"
    using assms by (auto simp: fits_def nat_less_iff)
qed

text \<open>The room the one-bit symbols need at the first band.\<close>

definition room :: "int \<Rightarrow> i32 \<Rightarrow> int \<Rightarrow> int \<Rightarrow> quant \<Rightarrow> bool" where
  "room C budget start i st \<longleftrightarrow> (i = start \<longrightarrow> Enc_Tell (q_enc st) + 15 * (C - 1) + 2 \<le> sint budget)"

lemma coarse_chans_coded:
  assumes row: "row_ok pm" and rg: "0 \<le> start" "start \<le> i" "i < nb" "i < stop" "0 \<le> sint budget" "1 \<le> C"
    and st: "fits nb C eB st" "room C budget start i st" "enc_st (q_enc st) s" "e_nbits_total (q_enc st) + int (24 * nat C) < 4294967296"
  shows "coded fronted (24 * nat C) (q_enc st) s q_enc (quant_coarse_chans nb eB pm coef beta budget C start stop maxDecay lfe i 0 st)
    (snd \<circ> snd) (same_energies (written nb C start i 0) suf st) (unquant_coarse_chans nb pm coef beta budget C i 0) (snd \<circ> snd)
    (same_energies (written nb C start (i + 1) 0) suf)"
proof -
  define I where "I c st \<longleftrightarrow> 0 \<le> c \<and> fits nb C eB st \<and> (c < C \<longrightarrow> room (C - c) budget start i st)" for c st
  have i0: "0 \<le> i" using rg by simp
  have "coded fronted (24 * nat (C - 0)) (q_enc st) s q_enc (quant_coarse_chans nb eB pm coef beta budget C start stop maxDecay lfe i 0 st)
    (snd \<circ> snd) (same_energies (written nb C start i 0) suf st) (unquant_coarse_chans nb pm coef beta budget C i 0) (snd \<circ> snd)
    (same_energies (written nb C start i C) suf)"
  proof (rule front.coded_do [where I = I and Q = "\<lambda>c. same_energies (written nb C start i c) suf"])
    fix c st s
    assume c: "c < C" and I: "I c st" and st: "enc_st (q_enc st) s" and n: "e_nbits_total (q_enc st) + int 24 < 4294967296"
    have c0: "0 \<le> c" "fits nb C eB st" using I by (simp_all add: I_def)
    have one: "-1 \<le> coarse_limit budget (word_of_int (Enc_Tell (q_enc st))) C start stop i lfe qi"
      if left: "budget - word_of_int (Enc_Tell (q_enc st)) = 1" for qi
    proof (cases "i = start")
      case True
      then have "Enc_Tell (q_enc st) + 15 * (C - c - 1) + 2 \<le> sint budget" "0 \<le> 15 * (C - c - 1)"
        using I c by (simp_all add: I_def room_def)
      then have r: "Enc_Tell (q_enc st) + 2 \<le> sint budget" by linarith
      have "sint (budget - word_of_int (Enc_Tell (q_enc st))) = sint budget - Enc_Tell (q_enc st)"
        using r Tell_pos [OF st] by (intro left_words) simp_all
      with left r show ?thesis by simp
    qed (use rg c left in \<open>intro limit_ge; simp\<close>)
    have n': "e_nbits_total (q_enc st) + 24 < 4294967296" using n by simp
    show "coded fronted 24 (q_enc st) s q_enc (quant_coarse_step nb eB pm coef beta budget C start stop maxDecay lfe i c st)
      (snd \<circ> snd) (same_energies (written nb C start i c) suf st) (unquant_coarse_step nb pm coef beta budget i c) (snd \<circ> snd)
      (same_energies (written nb C start i (c + 1)) suf)"
      by (rule coarse_step_coded [OF st n' row i0 fits_index [OF c0(2) i0 rg(3) c0(1) c] written_new [OF rg(1-3) c0(1)] one,
        unfolded written_Suc [OF rg(2) c0(1)]])
  next
    fix c st s st'
    assume c: "c < C" and I: "I c st" and st: "enc_st (q_enc st) s"
      and r: "quant_coarse_step nb eB pm coef beta budget C start stop maxDecay lfe i c st = Ok st'"
    have c0: "0 \<le> c" "fits nb C eB st" using I by (simp_all add: I_def)
    have "room (C - (c + 1)) budget start i st'" if "c + 1 < C"
    proof (cases "i = start")
      case True
      have "15 * 1 \<le> 15 * (C - c - 1)" using that by (intro mult_left_mono) simp_all
      moreover have t: "Enc_Tell (q_enc st) + 15 * (C - c - 1) + 2 \<le> sint budget" using I True c by (simp add: I_def room_def)
      ultimately have "Enc_Tell (q_enc st) + 15 \<le> sint budget" by linarith
      from coarse_step_Tell [OF st row i0 this r] t show ?thesis by (simp add: room_def)
    qed (simp add: room_def)
    then show "I (c + 1) st'"
      using fits_shape [OF c0(2) quant_coarse_step_shape [OF r]] c0(1) by (auto simp: I_def)
  qed (use rg st in \<open>auto simp: I_def quant_coarse_chans.simps [of nb eB] unquant_coarse_chans.simps [of nb pm] intro!: bnd_cong\<close>)
  then show ?thesis using rg by (simp add: written_next)
qed

text \<open>What every step keeps, the loops keep.\<close>

lemma coarse_chans_inv:
  assumes step: "\<And>c st st'. 0 \<le> c \<Longrightarrow> c < C \<Longrightarrow>
      quant_coarse_step nb eB pm coef beta budget C start stop maxDecay lfe i c st = Ok st' \<Longrightarrow> R st st'"
    and trans: "\<And>a b c. R a b \<Longrightarrow> R b c \<Longrightarrow> R a c" and c: "0 \<le> c" "c < C"
    and r: "quant_coarse_chans nb eB pm coef beta budget C start stop maxDecay lfe i c st = Ok st'"
  shows "R st st'"
  using c r
proof (induction "nat (C - c)" arbitrary: c st rule: less_induct)
  case less
  then obtain st1 where st1: "quant_coarse_step nb eB pm coef beta budget C start stop maxDecay lfe i c st = Ok st1"
    "(if c + 1 \<ge> C then Ok st1 else quant_coarse_chans nb eB pm coef beta budget C start stop maxDecay lfe i (c + 1) st1) = Ok st'"
    unfolding quant_coarse_chans.simps [of nb eB pm coef beta budget C start stop maxDecay lfe i c] bnd_eq_Ok by blast
  note sh = step [OF less.prems(1,2) st1(1)]
  show ?case
  proof (cases "c + 1 \<ge> C")
    case False
    then have "R st1 st'" using st1(2) less.prems by (intro less.hyps [of "c + 1"]) simp_all
    with sh show ?thesis by (rule trans)
  qed (use sh st1(2) in simp)
qed

lemma coarse_bands_inv:
  assumes step: "\<And>i c st st'. start \<le> i \<Longrightarrow> i < stop \<Longrightarrow> 0 \<le> c \<Longrightarrow> c < C \<Longrightarrow>
      quant_coarse_step nb eB pm coef beta budget C start stop maxDecay lfe i c st = Ok st' \<Longrightarrow> R st st'"
    and trans: "\<And>a b c. R a b \<Longrightarrow> R b c \<Longrightarrow> R a c" and refl: "\<And>a. R a a" and i: "start \<le> i" "1 \<le> C"
    and r: "quant_coarse_bands nb eB pm coef beta budget C start stop maxDecay lfe i st = Ok st'"
  shows "R st st'"
  using i r
proof (induction "nat (stop - i)" arbitrary: i st rule: less_induct)
  case less
  show ?case
  proof (cases "i < stop")
    case True
    obtain st1 where st1: "quant_coarse_chans nb eB pm coef beta budget C start stop maxDecay lfe i 0 st = Ok st1"
      "quant_coarse_bands nb eB pm coef beta budget C start stop maxDecay lfe (i + 1) st1 = Ok st'"
      using less.prems(3) unfolding quant_coarse_bands.simps [of nb eB pm coef beta budget C start stop maxDecay lfe i] if_P [OF True] bnd_eq_Ok
      by blast
    have "R st st1"
      by (rule coarse_chans_inv [OF _ trans _ _ st1(1)]) (use step less.prems True in simp_all)
    moreover have "R st1 st'" using st1(2) less.prems True by (intro less.hyps [of "i + 1"]) simp_all
    ultimately show ?thesis by (rule trans)
  next
    case False
    then show ?thesis using less.prems by (simp add: quant_coarse_bands.simps refl)
  qed
qed

lemma same_shape_trans: "same_shape a b \<Longrightarrow> same_shape b c \<Longrightarrow> same_shape a c"
  by (simp add: same_shape_def)

lemma coarse_bands_coded:
  assumes row: "row_ok pm" and rg: "0 \<le> start" "start \<le> stop" "stop \<le> nb" "1 \<le> C" "0 \<le> sint budget"
    and st: "fits nb C eB st" "room C budget start start st" "enc_st (q_enc st) s"
      "e_nbits_total (q_enc st) + int (24 * nat C * nat (stop - start)) < 4294967296"
  shows "coded fronted (24 * nat C * nat (stop - start)) (q_enc st) s q_enc
    (quant_coarse_bands nb eB pm coef beta budget C start stop maxDecay lfe start st)
    (snd \<circ> snd) (same_energies (written nb C start start 0) suf st) (unquant_coarse_bands nb pm coef beta budget C stop start) (snd \<circ> snd)
    (same_energies (written nb C start stop 0) suf)"
proof (rule front.coded_while [where I = "\<lambda>i st. start \<le> i \<and> i \<le> stop \<and> fits nb C eB st \<and> room C budget start i st"
    and Q = "\<lambda>i. same_energies (written nb C start i 0) suf" and ce = "\<lambda>i x. True" and cd = "\<lambda>i x. True"
    and B = "\<lambda>i. quant_coarse_chans nb eB pm coef beta budget C start stop maxDecay lfe i 0"
    and D = "\<lambda>i. unquant_coarse_chans nb pm coef beta budget C i 0" and stop = stop
    and F = "quant_coarse_bands nb eB pm coef beta budget C start stop maxDecay lfe" and G = "unquant_coarse_bands nb pm coef beta budget C stop"])
  fix i st s
  assume i: "i < stop" and I: "start \<le> i \<and> i \<le> stop \<and> fits nb C eB st \<and> room C budget start i st" and st: "enc_st (q_enc st) s"
    and n: "e_nbits_total (q_enc st) + int (24 * nat C) < 4294967296"
  show "coded fronted (24 * nat C) (q_enc st) s q_enc (quant_coarse_chans nb eB pm coef beta budget C start stop maxDecay lfe i 0 st)
      (snd \<circ> snd) (same_energies (written nb C start i 0) suf st) (unquant_coarse_chans nb pm coef beta budget C i 0) (snd \<circ> snd)
      (same_energies (written nb C start (i + 1) 0) suf)"
    by (rule coarse_chans_coded [OF row]) (use rg i I st n in simp_all)
next
  fix i st s st'
  assume i: "i < stop" and I: "start \<le> i \<and> i \<le> stop \<and> fits nb C eB st \<and> room C budget start i st"
    and r: "quant_coarse_chans nb eB pm coef beta budget C start stop maxDecay lfe i 0 st = Ok st'"
  have C0: "0 \<le> (0 :: int)" "0 < C" using rg by simp_all
  have "same_shape st st'" by (rule coarse_chans_inv [OF quant_coarse_step_shape same_shape_trans C0 r]) simp_all
  with i I show "start \<le> i + 1 \<and> i + 1 \<le> stop \<and> fits nb C eB st' \<and> room C budget start (i + 1) st'"
    by (auto simp: room_def intro: fits_shape)
next
  show "quant_coarse_bands nb eB pm coef beta budget C start stop maxDecay lfe i x
      = (if i < stop \<and> True then bnd (quant_coarse_chans nb eB pm coef beta budget C start stop maxDecay lfe i 0 x)
          (\<lambda>x. quant_coarse_bands nb eB pm coef beta budget C start stop maxDecay lfe (i + 1) x) else Ok x)"
    "unquant_coarse_bands nb pm coef beta budget C stop i y
      = (if i < stop \<and> True then bnd (unquant_coarse_chans nb pm coef beta budget C i 0 y)
          (\<lambda>y. unquant_coarse_bands nb pm coef beta budget C stop (i + 1) y) else Ok y)" for i x y
    by (subst quant_coarse_bands.simps unquant_coarse_bands.simps, simp)+
next
  show "same_energies (written nb C start stop 0) suf x y"
    if "\<not> (i < stop \<and> True)" "start \<le> i \<and> i \<le> stop \<and> fits nb C eB x \<and> room C budget start i x"
      "same_energies (written nb C start i 0) suf x y" for i x y
  proof -
    have "i = stop" using that(1,2) by simp
    then show ?thesis using that(3) by simp
  qed
qed (use rg st in auto)

section \<open>One pass\<close>

text \<open>The decoder reads the flag of the intra pass (\<^verbatim>\<open>celt_decoder.go\<close>), then the energies.\<close>

definition get_intra :: "int \<Rightarrow> Decoder \<Rightarrow> (int \<times> Decoder) go" where
  "get_intra totalBits dec = (if Dec_Tell dec + 3 \<le> totalBits then DecBitLogp dec 3 else Ok (0, dec))"

definition decode_coarse :: "int \<Rightarrow> int \<Rightarrow> int \<Rightarrow> int \<Rightarrow> int \<Rightarrow> int \<Rightarrow> i32 list \<times> Decoder \<Rightarrow> (int \<times> i32 list \<times> Decoder) go" where
  "decode_coarse nb start stop totalBits C LM = (\<lambda>(oldE, dec).
     bnd (get_intra totalBits dec) (\<lambda>(intra, dec).
     bnd (unquantCoarseEnergy nb start stop oldE intra dec C LM) (\<lambda>(oldE, dec). Ok (intra, oldE, dec))))"

lemma decode_coarse_split: "decode_coarse nb start stop totalBits C LM =
    (\<lambda>y. bnd ((\<lambda>(o', d). bnd (get_intra totalBits d) (\<lambda>(i, d). Ok (i, o', d))) y)
      (\<lambda>(i, o', d). bnd (unquantCoarseEnergy nb start stop o' i d C LM) (\<lambda>(o', d). Ok (i, o', d))))"
proof
  fix y :: "i32 list \<times> Decoder"
  obtain o' d where "y = (o', d)" by (cases y)
  then show "decode_coarse nb start stop totalBits C LM y = bnd ((\<lambda>(o', d). bnd (get_intra totalBits d) (\<lambda>(i, d). Ok (i, o', d))) y)
      (\<lambda>(i, o', d). bnd (unquantCoarseEnergy nb start stop o' i d C LM) (\<lambda>(o', d). Ok (i, o', d)))"
    by (cases "get_intra totalBits d") (auto simp: decode_coarse_def)
qed

definition same_old :: "nat set \<Rightarrow> i32 list \<Rightarrow> i32 list \<Rightarrow> i32 list \<Rightarrow> bool" where
  "same_old W suf old oldD \<longleftrightarrow> length oldD = length old + length suf
     \<and> ((\<forall>p\<in>W. sint (old ! p) \<le> 469762048) \<longrightarrow> oldD = old @ suf)"

lemma flag_coded:
  assumes st: "enc_st e s" and nb: "e_nbits_total e + 24 < 4294967296" and room: "Enc_Tell e + 3 \<le> T" and intra: "intra = 0 \<or> intra = 1"
  shows "coded fronted 24 e s id (EncBitLogp e intra 3) snd (\<lambda>y. fst y = oldD \<and> H (d_storage (snd y)))
    (\<lambda>(o', d). bnd (get_intra T d) (\<lambda>(i, d). Ok (i, o', d))) (snd \<circ> snd)
    (\<lambda>e' (i, o', d). i = intra \<and> o' = oldD \<and> H (d_storage d))"
proof -
  have wf: "enc_wf e" using st by (cases s) (simp add: enc_rel_def)
  have lp: "1 \<le> (3 :: u32)" "(3 :: u32) \<le> 23" by simp_all
  have nb': "e_nbits_total e + int 24 < 4294967296" using nb by simp
  have tell: "Dec_Tell d + 3 \<le> T" if "dec_st d S s" for d S
    using enc_st_Tell [OF st] dec_st_Tell [OF that] room by simp
  note c = coded_storage [OF undoes_coded [OF undoes_EncBitLogp [OF lp, of intra] st nb', where K = fronted, OF symbol_fronted(3) [OF wf]],
    where H = H]
  show ?thesis
    by (rule coded_conseq [OF c, where f = id and p = snd]) (use tell intra symbol_fronted(3) [OF wf] in \<open>auto simp: get_intra_def\<close>)
qed

lemma prob_rows:
  assumes "0 \<le> LM" "LM < 4" "intra = 0 \<or> intra = 1"
  shows "row_ok (eProbModel ! nat LM ! nat intra)" "idx eProbModel LM = (Ok (eProbModel ! nat LM) :: int list list go)"
    "idx (eProbModel ! nat LM) intra = (Ok (eProbModel ! nat LM ! nat intra) :: int list go)"
proof -
  have len: "length eProbModel = 4" "list_all (\<lambda>m. length m = 2) eProbModel" by (simp_all add: eProbModel_def)
  then have m: "nat LM < length eProbModel" "eProbModel ! nat LM \<in> set eProbModel" using assms(1,2) by simp_all
  then have l2: "length (eProbModel ! nat LM) = 2" using len(2) by (simp add: list_all_iff)
  then have "eProbModel ! nat LM ! nat intra \<in> set (eProbModel ! nat LM)" using assms(3) by auto
  then show "row_ok (eProbModel ! nat LM ! nat intra)" using eProbModel_rows m(2) by (simp add: list_all_iff)
  show "idx eProbModel LM = (Ok (eProbModel ! nat LM) :: int list list go)" using assms(1) m(1) by (simp add: idx_Ok)
  show "idx (eProbModel ! nat LM) intra = (Ok (eProbModel ! nat LM ! nat intra) :: int list go)"
    using assms(3) l2 by (auto simp: idx_Ok)
qed

lemma coarse_impl_coded:
  assumes st: "enc_st e s" and nb: "e_nbits_total e + 24 + 24 * C * (stop - start) < 4294967296"
    and LM: "0 \<le> LM" "LM < 4" and intra: "intra = 0 \<or> intra = 1" and pm: "pm = eProbModel ! nat LM ! nat intra"
    and rg: "0 \<le> start" "start \<le> stop" "stop \<le> n" "1 \<le> C" "C \<le> 2"
    and ln: "C * n \<le> len oldE" "C * n \<le> len eB" "C * n \<le> len er"
    and room: "Enc_Tell e + 20 \<le> sint budget"
  shows "coded fronted (24 + 24 * nat C * nat (stop - start)) e s (snd \<circ> snd \<circ> snd)
    (quantCoarseEnergyImpl n start stop eB oldE budget (word_of_int (Enc_Tell e)) pm er e C LM intra maxDecay lfe)
    snd (\<lambda>y. fst y = oldE @ suf \<and> d_storage (snd y) * 8 = budget) (decode_coarse n start stop (sint budget) C LM) (snd \<circ> snd)
    (\<lambda>x y. fst y = intra \<and> same_old (written n C start stop 0) suf (fst (snd x)) (fst (snd y)))"
proof -
  define st0 where "st0 e = \<lparr>q_old = oldE, q_err = er, q_prev = [0, 0], q_bad = 0, q_enc = e\<rparr>" for e
  obtain coef beta where cf: "(coarse_coefs intra LM :: (i16 \<times> i16) go) = Ok (coef, beta)"
    using LM by (cases "intra = 0") (auto simp: coarse_coefs_def idx_Ok betaCoef_def predCoef_def)
  define bands where "bands e = quant_coarse_bands n eB pm coef beta budget C start stop maxDecay lfe start (st0 e)" for e
  define wr where "wr st = (if lfe \<noteq> 0 then 0 else q_bad st, q_old st, q_err st, q_enc st)" for st :: quant
  note row = prob_rows [OF LM intra, folded pm]
  have flag: "tell + 3 \<le>s budget" if "tell = word_of_int (Enc_Tell e)" for tell :: i32
  proof -
    have "tell + 3 = word_of_int (Enc_Tell e + 3)" by (simp add: that)
    moreover have "sint (word_of_int (Enc_Tell e + 3) :: i32) = Enc_Tell e + 3"
      using Tell_pos [OF st] room i32_range [of budget] by (intro i32_of_int) simp_all
    ultimately show ?thesis using room by (simp add: word_sle_eq)
  qed
  have impl: "quantCoarseEnergyImpl n start stop eB oldE budget (word_of_int (Enc_Tell e)) pm er e C LM intra maxDecay lfe
      = bnd (EncBitLogp e intra 3) (\<lambda>e. bnd (bands e) (\<lambda>st. Ok (wr st)))"
    using flag [OF refl] by (simp add: quantCoarseEnergyImpl_def cf bands_def st0_def wr_def)
  have C0: "0 \<le> 24 * C * (stop - start)" using rg by simp
  then have nb1: "e_nbits_total e + 24 < 4294967296" using nb by linarith
  have r3: "Enc_Tell e + 3 \<le> sint budget" using room by linarith
  note flag_c = flag_coded [OF st nb1 r3 intra, of "oldE @ suf" "\<lambda>x. x * 8 = budget"]
  have rest: "coded fronted (24 * nat C * nat (stop - start)) (id e1) s1 (snd \<circ> snd \<circ> snd) (bnd (bands e1) (\<lambda>st. Ok (wr st)))
      (snd \<circ> snd) ((\<lambda>e' (i, o', d). i = intra \<and> o' = oldE @ suf \<and> d_storage d * 8 = budget) e1)
      (\<lambda>(i, o', d). bnd (unquantCoarseEnergy n start stop o' i d C LM) (\<lambda>(o', d). Ok (i, o', d))) (snd \<circ> snd)
      (\<lambda>x y. fst y = intra \<and> same_old (written n C start stop 0) suf (fst (snd x)) (fst (snd y)))"
    if e1: "EncBitLogp e intra 3 = Ok e1" "enc_st (id e1) s1" "e_nbits_total (id e1) \<le> e_nbits_total e + int 24" for e1 s1
  proof -
    have wf: "enc_wf e" "8388608 < uint (e_rng e)" "uint (e_rng e) \<le> 2147483648"
      using st by (cases s; simp add: enc_rel_def)+
    have t1: "Enc_Tell e1 \<le> Enc_Tell e + 3" by (rule flag_Tell [OF wf e1(1)])
    have st1: "0 \<le> sint budget" "fits n C eB (st0 e1)" "Quant_Sync.room C budget start start (st0 e1)" "enc_st (q_enc (st0 e1)) s1"
      "e_nbits_total (q_enc (st0 e1)) + int (24 * nat C * nat (stop - start)) < 4294967296"
      using e1(2,3) nb ln rg t1 room Tell_pos [OF st] by (simp_all add: st0_def fits_def room_def)
    note c = coarse_bands_coded [OF row(1) rg(1-4) st1, where suf = suf]
    have enc: "q_enc (st0 e1) = id e1" by (simp add: st0_def)
    have w0: "written n C start start 0 = {}" by (auto simp: written_def)
    show ?thesis
    proof (rule coded_conseq [OF c [unfolded enc], where f = wr and p = "\<lambda>(i, o', d). (o', [0, 0], d)"])
      show "bnd (bands e1) (\<lambda>st. Ok (wr st)) = Ok (wr x) \<and> (snd \<circ> snd \<circ> snd) (wr x) = q_enc x \<and> fronted (id e1) (q_enc x)"
        if "quant_coarse_bands n eB pm coef beta budget C start stop maxDecay lfe start (st0 e1) = Ok x" "fronted (id e1) (q_enc x)" for x
        using that by (simp add: bands_def wr_def)
    next
      fix S x y and y0 :: "int \<times> i32 list \<times> Decoder"
      assume y0: "(\<lambda>(i, o', d). i = intra \<and> o' = oldE @ suf \<and> d_storage d * 8 = budget) y0"
      obtain d where d: "y0 = (intra, oldE @ suf, d)" "d_storage d * 8 = budget" using y0 by (cases y0) auto
      have u: "unquantCoarseEnergy n start stop (oldE @ suf) intra d C LM
          = bnd (unquant_coarse_bands n pm coef beta budget C stop start (oldE @ suf, [0, 0], d)) (\<lambda>(oldE, prev, dec). Ok (oldE, dec))"
        by (simp add: unquantCoarseEnergy_def row cf d(2))
      show "same_energies (written n C start start 0) suf (st0 e1) (case y0 of (i, o', d) \<Rightarrow> (o', [0, 0], d))
          \<and> (snd \<circ> snd) (case y0 of (i, o', d) \<Rightarrow> (o', [0, 0], d)) = (snd \<circ> snd) y0
          \<and> (unquant_coarse_bands n pm coef beta budget C stop start (case y0 of (i, o', d) \<Rightarrow> (o', [0, 0], d)) = Ok y \<longrightarrow>
             same_energies (written n C start stop 0) suf x y \<longrightarrow>
             (\<exists>z. (case y0 of (i, o', d) \<Rightarrow> bnd (unquantCoarseEnergy n start stop o' i d C LM) (\<lambda>(o', d). Ok (i, o', d))) = Ok z
               \<and> (snd \<circ> snd) z = (snd \<circ> snd) y
               \<and> fst z = intra \<and> same_old (written n C start stop 0) suf (fst (snd (wr x))) (fst (snd z))))"
        by (cases y) (auto simp: d(1) w0 same_energies_def st0_def u wr_def same_old_def)
    qed simp
  qed
  show ?thesis
    unfolding impl decode_coarse_split by (rule front.coded_bnd [OF flag_c rest])
qed

end
