(* ===== verification/Quant_Two.thy ===== *)
theory Quant_Two
  imports Quant_Sync
begin

text \<open>The two passes of the coarse energies: saving, restoring and copying back the shared buffer.\<close>

section \<open>Two passes\<close>

definition keeps_from :: "nat \<Rightarrow> quant \<Rightarrow> quant \<Rightarrow> bool" where
  "keeps_from k st st' \<longleftrightarrow> same_shape st st' \<and> drop k (q_old st') = drop k (q_old st)"

lemma step_keeps:
  assumes "quant_coarse_step n eB pm coef beta budget C start stop maxDecay lfe i c st = Ok st'" "0 \<le> i" "i < n" "0 \<le> c" "c < C"
  shows "keeps_from (nat (C * n)) st st'"
proof -
  have "(c + 1) * n \<le> C * n" using assms by (intro mult_right_mono) simp_all
  then have "i + c * n < C * n" "0 \<le> i + c * n" using assms by (simp_all add: algebra_simps)
  then have p: "nat (i + c * n) < nat (C * n)" by simp
  obtain v where "q_old st' = (q_old st)[nat (i + c * n) := v]"
    using assms(1) by (auto simp: quant_coarse_step_def Let_def bnd_eq_Ok upd_eq_Ok)
  with p quant_coarse_step_shape [OF assms(1)] show ?thesis by (simp add: keeps_from_def)
qed

lemma impl_shape:
  assumes "quantCoarseEnergyImpl n start stop eB oldE budget tell pm er e C LM intra maxDecay lfe = Ok (bad, old, er', e')"
    and "0 \<le> start" "stop \<le> n" "1 \<le> C"
  shows "length old = length oldE \<and> length er' = length er \<and> drop (nat (C * n)) old = drop (nat (C * n)) oldE"
proof -
  obtain coef beta e1 st where st: "quant_coarse_bands n eB pm coef beta budget C start stop maxDecay lfe start
      \<lparr>q_old = oldE, q_err = er, q_prev = [0, 0], q_bad = 0, q_enc = e1\<rparr> = Ok st" "old = q_old st" "er' = q_err st"
    using assms(1) by (auto simp: quantCoarseEnergyImpl_def bnd_eq_Ok)
  have "keeps_from (nat (C * n)) \<lparr>q_old = oldE, q_err = er, q_prev = [0, 0], q_bad = 0, q_enc = e1\<rparr> st"
  proof (rule coarse_bands_inv [OF _ _ _ order_refl assms(4) st(1)])
    show "keeps_from (nat (C * n)) st st'"
      if "start \<le> i" "i < stop" "0 \<le> c" "c < C" "quant_coarse_step n eB pm coef beta budget C start stop maxDecay lfe i c st = Ok st'"
      for i c st st' using assms(2,3) that(1,2) by (intro step_keeps [OF that(5) _ _ that(3,4)]) simp_all
  qed (auto simp: keeps_from_def same_shape_def)
  then show ?thesis by (simp add: keeps_from_def same_shape_def st)
qed

lemma fronted_tail:
  assumes "fronted e e1"
  shows "drop (length (e_buf e) - unat (e_end_offs e)) (e_buf e1) = tail_bytes e"
proof -
  have f: "length (e_buf e1) = length (e_buf e)" "e_end_offs e1 = e_end_offs e" "tail_bytes e1 = tail_bytes e"
    using assms by (simp_all add: fronted_def)
  show ?thesis unfolding f(3) [symmetric] tail_bytes_def [of e1] f(1,2) ..
qed

lemma restore_st:
  assumes "enc_st e s" "fronted e e1"
  shows "enc_st (restore e e1) s"
  unfolding restore_def
  by (rule enc_st_buffer [OF assms(1)]) (use assms(2) fronted_tail [OF assms(2)] in \<open>simp_all add: fronted_def\<close>)

lemma restore_fronted: "fronted e e1 \<Longrightarrow> fronted e (restore e e1)"
  using fronted_tail [of e e1] by (simp add: fronted_def restore_def) (simp add: tail_bytes_def)

text \<open>Copying the bytes of the first pass back makes its encoder whole again.\<close>

lemma splice_st:
  assumes st: "enc_st e1 s1" and f: "fronted e e1" "fronted (restore e e1) e2"
    and n: "n0 = unat (e_offs e)" "n1 = unat (e_offs e1)"
    and b: "length b = length (e_buf e1)" "take n0 b = take n0 (e_buf e2)" "drop n0 (take n1 b) = drop n0 (take n1 (e_buf e1))"
      "drop n1 b = drop n1 (e_buf e2)"
  shows "enc_st (e1\<lparr>e_buf := b\<rparr>) s1 \<and> fronted e (e1\<lparr>e_buf := b\<rparr>)"
proof -
  have wf: "enc_wf e1" using st by (cases s1) (simp add: enc_rel_def)
  have n01: "n0 \<le> n1" using f(1) by (simp add: fronted_def n)
  have e2: "take n0 (e_buf e2) = take n0 (e_buf e)" "take n0 (e_buf e1) = take n0 (e_buf e)"
    using f by (simp_all add: fronted_def restore_def n)
  have "take n1 b = take n0 (take n1 b) @ drop n0 (take n1 b)" by (rule append_take_drop_id [symmetric])
  also have "take n0 (take n1 b) = take n0 (take n1 (e_buf e1))" using n01 b(2) e2 by (simp add: min_absorb1)
  also have "\<dots> @ drop n0 (take n1 b) = take n1 (e_buf e1)" unfolding b(3) by (rule append_take_drop_id)
  finally have t1: "take n1 b = take n1 (e_buf e1)" .
  define j where "j = length (e_buf e1) - unat (e_end_offs e1)"
  have w: "len (e_buf e1) = uint (e_storage e1)" "uint (e_offs e1) + uint (e_end_offs e1) \<le> uint (e_storage e1)"
    using wf by (simp_all add: enc_wf_def)
  have "int n1 + int (unat (e_end_offs e1)) \<le> len (e_buf e1)" using w by (simp add: n)
  then have "n1 \<le> j" unfolding j_def by linarith
  then obtain i where i: "j = i + n1" using le_Suc_ex by (metis add.commute)
  have "drop j b = drop j (e_buf e2)" unfolding i drop_drop [symmetric] b(4) ..
  also have "\<dots> = tail_bytes e1"
  proof -
    have r: "length (e_buf (restore e e1)) = length (e_buf e1)" "e_end_offs (restore e e1) = e_end_offs e" by (simp_all add: restore_def)
    have t: "tail_bytes (restore e e1) = tail_bytes e" "tail_bytes e1 = tail_bytes e" "e_end_offs e1 = e_end_offs e"
      using restore_fronted [OF f(1)] f(1) by (simp_all add: fronted_def)
    show ?thesis using fronted_tail [OF f(2)] by (simp only: r t j_def)
  qed
  finally have tl: "drop j b = tail_bytes e1" .
  have "enc_st (e1\<lparr>e_buf := b\<rparr>) s1"
    using st b(1) t1 tl by (intro enc_st_buffer) (simp_all add: n j_def)
  moreover have "fronted e (e1\<lparr>e_buf := b\<rparr>)"
    using f b(1,2) e2 tl by (auto simp: fronted_def n j_def tail_bytes_def)
  ultimately show ?thesis by simp
qed

lemma TellFrac_ok:
  assumes "enc_st e s"
  shows "\<exists>t. Enc_TellFrac e = Ok t"
  unfolding Enc_TellFrac_def by (rule ecTellFrac_ok) (use assms in \<open>cases s, simp add: enc_rel_def\<close>)

lemma lossDistortion_ok:
  assumes "0 \<le> start" "effEnd \<le> n" "1 \<le> C" "C * n \<le> len eB" "C * n \<le> len oldE"
  shows "\<exists>d. lossDistortion eB oldE start effEnd n C = Ok d"
proof -
  have bands: "\<exists>d. loss_bands eB oldE (c * n) effEnd i dist = Ok d" if "0 \<le> i" "0 \<le> c" "c < C" for c i dist
    using that(1)
  proof (induction "nat (effEnd - i)" arbitrary: i dist rule: less_induct)
    case less
    show ?case
    proof (cases "i < effEnd")
      case True
      have "(c + 1) * n \<le> C * n" using that less True assms by (intro mult_right_mono) simp_all
      then have ix: "0 \<le> i + c * n" "i + c * n < len eB" "i + c * n < len oldE"
        using that less True assms by (simp_all add: algebra_simps)
      then obtain d where d: "loss_step eB oldE (i + c * n) dist = Ok d" by (simp add: loss_step_def idx_Ok Let_def)
      have "\<exists>d'. loss_bands eB oldE (c * n) effEnd (i + 1) d = Ok d'" using less.prems True by (intro less.hyps) simp_all
      with d True show ?thesis by (subst loss_bands.simps) simp
    qed (subst loss_bands.simps, simp)
  qed
  have "\<exists>d. loss_chans eB oldE start effEnd n C c dist = Ok d" if "0 \<le> c" "c < C" for c dist
    using that
  proof (induction "nat (C - c)" arbitrary: c dist rule: less_induct)
    case less
    obtain d where d: "loss_bands eB oldE (c * n) effEnd start dist = Ok d" using bands assms(1) less.prems by blast
    show ?case
    proof (cases "c + 1 \<ge> C")
      case False
      then have "\<exists>d'. loss_chans eB oldE start effEnd n C (c + 1) d = Ok d'" using less.prems by (intro less.hyps) simp_all
      with d False show ?thesis by (subst loss_chans.simps) simp
    qed (subst loss_chans.simps, simp add: d)
  qed
  then obtain d where "loss_chans eB oldE start effEnd n C 0 0 = Ok d" using assms(3) by fastforce
  then show ?thesis by (simp add: lossDistortion_def)
qed

text \<open>The code that copies the bytes back.\<close>

definition splice_back :: "Encoder \<Rightarrow> u32 \<Rightarrow> u32 \<Rightarrow> bytes \<Rightarrow> Encoder go" where
  "splice_back enc n0 n1 bits = (if n0 < n1 then bnd (slice (e_buf enc) (uint n0) (uint n1)) (\<lambda>_.
     bnd (copy_at (e_buf enc) (uint n0) bits) (\<lambda>b. Ok (enc\<lparr>e_buf := b\<rparr>))) else Ok enc)"

lemma splice_back_st:
  assumes st: "enc_st e1 s1" and f: "fronted e e1" "fronted (restore e e1) e2"
    and bits: "(if e_offs e < e_offs e1 then slice (e_buf e1) (uint (e_offs e)) (uint (e_offs e1)) else Ok []) = (Ok bits :: bytes go)"
  shows "\<exists>b. splice_back (restore e1 e2) (e_offs e) (e_offs e1) bits = Ok (e1\<lparr>e_buf := b\<rparr>)
    \<and> (\<forall>s. enc_st e1 s \<longrightarrow> enc_st (e1\<lparr>e_buf := b\<rparr>) s) \<and> fronted e (e1\<lparr>e_buf := b\<rparr>)"
proof -
  define n0 where "n0 = unat (e_offs e)"
  define n1 where "n1 = unat (e_offs e1)"
  have ln: "length (e_buf e2) = length (e_buf e1)" "take n0 (e_buf e2) = take n0 (e_buf e1)" "n0 \<le> n1"
    using f by (simp_all add: fronted_def restore_def n0_def n1_def)
  have wf: "enc_wf e1" using st by (cases s1) (simp add: enc_rel_def)
  then have "len (e_buf e1) = uint (e_storage e1)" "uint (e_offs e1) + uint (e_end_offs e1) \<le> uint (e_storage e1)"
    by (simp_all add: enc_wf_def)
  then have u1: "uint (e_offs e1) \<le> len (e_buf e1)" using uint_ge_0 [of "e_end_offs e1"] by linarith
  then have "int n1 \<le> len (e_buf e1)" by (simp add: n1_def)
  then have n1: "n1 \<le> length (e_buf e1)" by simp
  show ?thesis
  proof (cases "e_offs e < e_offs e1")
    case True
    then have lt: "n0 < n1" by (simp add: n0_def n1_def word_less_nat_alt)
    have bt: "bits = drop n0 (take n1 (e_buf e1))" using bits True
      by (simp add: slice_eq_Ok drop_take n0_def n1_def nat_diff_distrib flip: unat_eq_nat_uint)
    define b where "b = take n0 (e_buf e2) @ bits @ drop n1 (e_buf e2)"
    have lb: "length bits = n1 - n0" using n1 by (simp add: bt)
    have sl: "slice (e_buf e2) (uint (e_offs e)) (uint (e_offs e1)) = (Ok (drop n0 (take n1 (e_buf e2))) :: bytes go)"
      using True ln u1 by (simp add: slice_def drop_take n0_def n1_def nat_diff_distrib word_less_def flip: unat_eq_nat_uint)
    have "splice_back (restore e1 e2) (e_offs e) (e_offs e1) bits = Ok (e1\<lparr>e_buf := b\<rparr>)"
      using True lt ln n1 lb by (simp add: splice_back_def restore_def sl copy_at_Ok b_def n0_def n1_def word_less_def)
    moreover have "enc_st (e1\<lparr>e_buf := b\<rparr>) s \<and> fronted e (e1\<lparr>e_buf := b\<rparr>)" if "enc_st e1 s" for s
      by (rule splice_st [OF that f n0_def n1_def]) (use lt ln n1 lb in \<open>simp_all add: b_def bt min_absorb1\<close>)
    ultimately show ?thesis using st by blast
  next
    case False
    then have "n0 = n1" using ln(3) by (simp add: n0_def n1_def word_less_nat_alt)
    then have "enc_st (e1\<lparr>e_buf := e_buf e2\<rparr>) s \<and> fronted e (e1\<lparr>e_buf := e_buf e2\<rparr>)" if "enc_st e1 s" for s
      by (intro splice_st [OF that f n0_def n1_def]) (use ln in simp_all)
    then show ?thesis using False st by (intro exI [of _ "e_buf e2"]) (simp add: splice_back_def restore_def)
  qed
qed

definition coarse_input :: "i32 \<Rightarrow> i32 list \<Rightarrow> i32 list \<times> Decoder \<Rightarrow> bool" where
  "coarse_input budget oldE y \<longleftrightarrow> fst y = oldE \<and> d_storage (snd y) * 8 = budget"

definition coarse_output :: "nat set \<Rightarrow> int \<Rightarrow> i32 list \<Rightarrow> int \<times> i32 list \<times> Decoder \<Rightarrow> bool" where
  "coarse_output W intra old y \<longleftrightarrow> fst y = intra \<and> length (fst (snd y)) = length old
     \<and> ((\<forall>p\<in>W. sint (old ! p) \<le> 469762048) \<longrightarrow> fst (snd y) = old)"

lemma written_below:
  assumes "p \<in> written n C start stop 0" "0 \<le> start" "stop \<le> n" "1 \<le> C"
  shows "p < nat (C * n)"
proof -
  obtain j k where jk: "p = nat (j + k * n)" "start \<le> j" "0 \<le> k" "j < stop" "k < C" using assms(1) by (auto simp: written_def)
  have "(k + 1) * n \<le> C * n" using jk assms by (intro mult_right_mono) simp_all
  then have "j + k * n < C * n" "0 \<le> j + k * n" using jk assms by (simp_all add: algebra_simps)
  then show ?thesis by (simp add: jk(1))
qed

text \<open>The result of a pass over a prefix of the energies, put back in front of the rest.\<close>

lemma prefix_output:
  assumes "same_old W suf old oldD" "\<And>p. p \<in> W \<Longrightarrow> p < length old"
  shows "coarse_output W i (old @ suf) (i, oldD, d)"
  using assms by (auto simp: coarse_output_def same_old_def nth_append)

lemma copy_prefix_ok: "0 \<le> k \<Longrightarrow> k \<le> len dst \<Longrightarrow> len src = k \<Longrightarrow> copy_prefix dst k src = Ok (src @ drop (nat k) dst)"
  by (auto simp: copy_prefix_def slice_Ok min_absorb1)

lemma quant_inter_coded:
  assumes st: "enc_st e s" "enc_st e1 s1" "fronted e e1" and nb: "e_nbits_total e + 24 + 24 * C * (stop - start) < 4294967296"
    and LM: "0 \<le> LM" "LM < 4" and rg: "0 \<le> start" "start \<le> stop" "stop \<le> n" "1 \<le> C" "C \<le> 2"
    and ln: "C * n \<le> len oldE" "C * n \<le> len eB" "C * n \<le> len er" and room: "Enc_Tell e + 20 \<le> sint budget"
    and first: "two \<noteq> 0 \<Longrightarrow> len old1 = C * n \<and> len er1 = C * n
      \<and> coded fronted (24 + 24 * nat C * nat (stop - start)) e s (snd \<circ> snd \<circ> snd) (Ok (bad1, old1, er1, e1))
        snd (coarse_input budget oldE) (decode_coarse n start stop (sint budget) C LM) (snd \<circ> snd)
        (\<lambda>x. coarse_output (written n C start stop 0) 1 (fst (snd x) @ drop (nat (C * n)) oldE))"
  shows "coded fronted (24 + 24 * nat C * nat (stop - start)) e s (snd \<circ> snd \<circ> snd)
      (quant_inter n start stop eB oldE budget (word_of_int (Enc_Tell e)) er e e1 C LM maxDecay intraBias lfe two bad1 old1 er1)
      snd (coarse_input budget oldE) (decode_coarse n start stop (sint budget) C LM) (snd \<circ> snd)
      (\<lambda>x. coarse_output (written n C start stop 0) (fst x) (fst (snd x)))"
proof -
  let ?W = "written n C start stop 0" and ?m = "24 + 24 * nat C * nat (stop - start)" and ?e = "restore e e1"
  let ?dec = "decode_coarse n start stop (sint budget) C LM"
  have st': "enc_st ?e s" by (rule restore_st [OF st(1,3)])
  have e': "e_nbits_total ?e = e_nbits_total e" "Enc_Tell ?e = Enc_Tell e" "e_error ?e = e_error e"
    by (simp_all add: restore_def Enc_Tell_def)
  have nb': "e_nbits_total ?e + 24 + 24 * C * (stop - start) < 4294967296" "Enc_Tell ?e + 20 \<le> sint budget"
    using nb room by (simp_all add: e')
  note c = coarse_impl_coded [OF st' nb'(1) LM disjI1 [OF refl] refl rg ln nb'(2), where suf = "[]" and maxDecay = maxDecay and lfe = lfe]
  obtain x2 s2 where x2: "quantCoarseEnergyImpl n start stop eB oldE budget (word_of_int (Enc_Tell e)) (eProbModel ! nat LM ! nat 0) er ?e C LM 0 maxDecay lfe = Ok x2"
    "enc_st ((snd \<circ> snd \<circ> snd) x2) s2" "e_nbits_total ((snd \<circ> snd \<circ> snd) x2) \<le> e_nbits_total e + int ?m"
    "fronted ?e ((snd \<circ> snd \<circ> snd) x2)" "e_error ((snd \<circ> snd \<circ> snd) x2) = 0 \<longrightarrow> e_error e = 0"
    "\<forall>S. ins_st S s2 \<longrightarrow> ins_st S s \<and> (\<forall>y0. fst y0 = oldE @ [] \<and> d_storage (snd y0) * 8 = budget \<longrightarrow> dec_st (snd y0) S s \<longrightarrow>
       (\<exists>y. ?dec y0 = Ok y \<and> dec_st ((snd \<circ> snd) y) S s2 \<and> d_error ((snd \<circ> snd) y) = d_error (snd y0)
         \<and> fst y = 0 \<and> same_old ?W [] (fst (snd x2)) (fst (snd y))))"
    using c unfolding coded_def e' by blast
  obtain bad2 old2 er2 e2 where x2': "x2 = (bad2, old2, er2, e2)" by (cases x2)
  note sh = impl_shape [OF x2(1) [unfolded x2'] rg(1,3,4)]
  have x2e: "enc_st e2 s2" "fronted ?e e2" using x2(2,4) by (simp_all add: x2')
  obtain t1 t2 where t: "Enc_TellFrac e1 = Ok t1" "Enc_TellFrac e2 = Ok t2"
    using TellFrac_ok [OF st(2)] TellFrac_ok [OF x2e(1)] by blast
  have wf: "enc_wf e1" using st(2) by (cases s1) (simp add: enc_rel_def)
  then have "uint (e_offs e1) \<le> len (e_buf e1)" using uint_ge_0 [of "e_end_offs e1"] unfolding enc_wf_def by linarith
  then obtain bits where bits: "(if e_offs e < e_offs e1 then slice (e_buf e1) (uint (e_offs e)) (uint (e_offs e1)) else Ok []) = (Ok bits :: bytes go)"
    by (cases "e_offs e < e_offs e1") (auto simp: slice_def word_less_def)
  define pick where "pick \<longleftrightarrow> two \<noteq> 0 \<and> (bad1 < bad2 \<or> bad1 = bad2 \<and> t1 <s t2 + intraBias)"
  have rows: "idx eProbModel LM = (Ok (eProbModel ! nat LM) :: int list list go)" "idx (eProbModel ! nat LM) 0 = (Ok (eProbModel ! nat LM ! nat 0) :: int list go)"
    using prob_rows [OF LM, of 0] by simp_all
  have r: "quant_inter n start stop eB oldE budget (word_of_int (Enc_Tell e)) er e e1 C LM maxDecay intraBias lfe two bad1 old1 er1
    = (if pick then bnd (splice_back (restore e1 e2) (e_offs e) (e_offs e1) bits) (\<lambda>enc.
        bnd (copy_prefix old2 (C * n) old1) (\<lambda>o'. bnd (copy_prefix er2 (C * n) er1) (\<lambda>er'. Ok (1, o', er', enc))))
       else Ok (0, old2, er2, e2))"
    unfolding quant_inter_def Let_def t(1) bits bnd.simps rows x2(1) [unfolded x2'] splice_back_def [symmetric]
    by (simp add: t(2) pick_def)
  show ?thesis
  proof (cases pick)
    case False
    show ?thesis
    proof (rule codedI [where x = "(0, old2, er2, e2)" and s' = s2])
      fix S y0
      assume a: "ins_st S s2" "coarse_input budget oldE y0" "dec_st (snd y0) S s"
      then obtain y where "?dec y0 = Ok y" "dec_st ((snd \<circ> snd) y) S s2" "d_error ((snd \<circ> snd) y) = d_error (snd y0)"
        "fst y = 0" "same_old ?W [] old2 (fst (snd y))"
        using x2(6) unfolding coarse_input_def by (force simp: x2')
      then show "\<exists>y. ?dec y0 = Ok y \<and> dec_st ((snd \<circ> snd) y) S s2 \<and> d_error ((snd \<circ> snd) y) = d_error (snd y0)
          \<and> coarse_output ?W (fst (0, old2, er2, e2)) (fst (snd (0, old2, er2, e2))) y"
        by (intro exI [of _ y]) (simp add: coarse_output_def same_old_def)
    qed (use x2 x2e False r fronted_trans [OF restore_fronted [OF st(3)]] in \<open>simp_all add: x2'\<close>)
  next
    case True
    then have "two \<noteq> 0" by (simp add: pick_def)
    note first = first [OF this]
    obtain b where b: "splice_back (restore e1 e2) (e_offs e) (e_offs e1) bits = Ok (e1\<lparr>e_buf := b\<rparr>)"
      "\<forall>s. enc_st e1 s \<longrightarrow> enc_st (e1\<lparr>e_buf := b\<rparr>) s" "fronted e (e1\<lparr>e_buf := b\<rparr>)"
      using splice_back_st [OF st(2,3) x2e(2) bits] by blast
    have dr: "drop (nat (C * n)) old2 = drop (nat (C * n)) oldE" using sh by simp
    have cn: "0 \<le> C * n" using rg by simp
    define er' where "er' = er1 @ drop (nat (C * n)) er2"
    have r': "quant_inter n start stop eB oldE budget (word_of_int (Enc_Tell e)) er e e1 C LM maxDecay intraBias lfe two bad1 old1 er1
        = Ok (1, old1 @ drop (nat (C * n)) oldE, er', e1\<lparr>e_buf := b\<rparr>)"
      using True first sh ln cn dr by (simp add: r b(1) copy_prefix_ok er'_def)
    obtain s' where s': "enc_st e1 s'" "e_nbits_total e1 \<le> e_nbits_total e + int ?m" "e_error e1 = 0 \<longrightarrow> e_error e = 0"
      "\<forall>S. ins_st S s' \<longrightarrow> ins_st S s \<and> (\<forall>y0. coarse_input budget oldE y0 \<longrightarrow> dec_st (snd y0) S s \<longrightarrow>
         (\<exists>y. ?dec y0 = Ok y \<and> dec_st ((snd \<circ> snd) y) S s' \<and> d_error ((snd \<circ> snd) y) = d_error (snd y0)
           \<and> coarse_output ?W 1 (old1 @ drop (nat (C * n)) oldE) y))"
      using first unfolding coded_def by auto
    have e3: "enc_st (e1\<lparr>e_buf := b\<rparr>) s'" using b(2) s'(1) by blast
    show ?thesis
    proof (rule codedI [OF r', where s' = s'])
      fix S y0
      assume a: "ins_st S s'" "coarse_input budget oldE y0" "dec_st (snd y0) S s"
      then show "\<exists>y. ?dec y0 = Ok y \<and> dec_st ((snd \<circ> snd) y) S s' \<and> d_error ((snd \<circ> snd) y) = d_error (snd y0)
          \<and> coarse_output ?W (fst (1, old1 @ drop (nat (C * n)) oldE, er', e1\<lparr>e_buf := b\<rparr>))
              (fst (snd (1, old1 @ drop (nat (C * n)) oldE, er', e1\<lparr>e_buf := b\<rparr>))) y"
        using s'(4) unfolding fst_conv snd_conv by blast
    qed (use e3 s'(2,3,4) b(3) in simp_all)
  qed
qed

text \<open>The intra pass, on a copy of the first \<open>C * n\<close> energies.\<close>

lemma intra_pass_coded:
  assumes st: "enc_st e s" and nb: "e_nbits_total e + 24 + 24 * C * (stop - start) < 4294967296"
    and LM: "0 \<le> LM" "LM < 4" and rg: "0 \<le> start" "start \<le> stop" "stop \<le> n" "1 \<le> C" "C \<le> 2"
    and ln: "C * n \<le> len oldE" "C * n \<le> len eB" "len scr = C * n" and room: "Enc_Tell e + 20 \<le> sint budget"
  shows "\<exists>bad1 old1 er1 e1. quantCoarseEnergyImpl n start stop eB (take (nat (C * n)) oldE) budget (word_of_int (Enc_Tell e))
        (eProbModel ! nat LM ! nat 1) scr e C LM 1 maxDecay lfe = Ok (bad1, old1, er1, e1)
    \<and> len old1 = C * n \<and> len er1 = C * n \<and> coded fronted (24 + 24 * nat C * nat (stop - start)) e s (snd \<circ> snd \<circ> snd) (Ok (bad1, old1, er1, e1))
        snd (coarse_input budget oldE) (decode_coarse n start stop (sint budget) C LM) (snd \<circ> snd)
        (\<lambda>x. coarse_output (written n C start stop 0) 1 (fst (snd x) @ drop (nat (C * n)) oldE))"
proof -
  have cn: "0 \<le> C * n" using rg by simp
  have ln': "C * n \<le> len (take (nat (C * n)) oldE)" "C * n \<le> len scr" using ln cn by simp_all
  note c = coarse_impl_coded [OF st nb LM disjI2 [OF refl] refl rg ln'(1) ln(2) ln'(2) room, where suf = "drop (nat (C * n)) oldE"
      and maxDecay = maxDecay and lfe = lfe]
  obtain x where x: "quantCoarseEnergyImpl n start stop eB (take (nat (C * n)) oldE) budget (word_of_int (Enc_Tell e))
        (eProbModel ! nat LM ! nat 1) scr e C LM 1 maxDecay lfe = Ok x" by (rule codedE [OF c]) blast
  obtain bad1 old1 er1 e1 where xs: "x = (bad1, old1, er1, e1)" by (cases x)
  note sh = impl_shape [OF x [unfolded xs] rg(1,3,4)]
  then have l1: "len old1 = C * n" "len er1 = C * n" using ln cn by simp_all
  have "coded fronted (24 + 24 * nat C * nat (stop - start)) e s (snd \<circ> snd \<circ> snd) (Ok (bad1, old1, er1, e1))
        snd (coarse_input budget oldE) (decode_coarse n start stop (sint budget) C LM) (snd \<circ> snd)
        (\<lambda>x. coarse_output (written n C start stop 0) 1 (fst (snd x) @ drop (nat (C * n)) oldE))"
  proof (rule coded_conseq [OF c, where f = id and p = id])
    fix S y0 x' y
    assume y0: "coarse_input budget oldE y0" and r: "quantCoarseEnergyImpl n start stop eB (take (nat (C * n)) oldE) budget (word_of_int (Enc_Tell e))
        (eProbModel ! nat LM ! nat 1) scr e C LM 1 maxDecay lfe = Ok x'"
    have x': "x' = (bad1, old1, er1, e1)" using r x by (simp add: xs)
    have "coarse_output (written n C start stop 0) 1 (old1 @ drop (nat (C * n)) oldE) y"
      if "fst y = 1" "same_old (written n C start stop 0) (drop (nat (C * n)) oldE) old1 (fst (snd y))"
    proof -
      have "p < length old1" if "p \<in> written n C start stop 0" for p using written_below [OF that rg(1,3,4)] l1(1) by simp
      from prefix_output [OF that(2) this, of 1 "snd (snd y)"] that(1) show ?thesis by (cases y) simp
    qed
    with y0 show "(fst (id y0) = take (nat (C * n)) oldE @ drop (nat (C * n)) oldE \<and> d_storage (snd (id y0)) * 8 = budget) \<and> snd (id y0) = snd y0
        \<and> (decode_coarse n start stop (sint budget) C LM (id y0) = Ok y \<longrightarrow>
           fst y = 1 \<and> same_old (written n C start stop 0) (drop (nat (C * n)) oldE) (fst (snd x')) (fst (snd y)) \<longrightarrow>
           (\<exists>z. decode_coarse n start stop (sint budget) C LM y0 = Ok z \<and> (snd \<circ> snd) z = (snd \<circ> snd) y
              \<and> coarse_output (written n C start stop 0) 1 (fst (snd (id x')) @ drop (nat (C * n)) oldE) z))"
      by (simp add: coarse_input_def x')
  qed (use x xs in auto)
  with x xs l1 show ?thesis by blast
qed

lemma coarse_energy_coded:
  assumes st: "enc_st e s" and nb: "e_nbits_total e + 24 + 24 * C * (stop - start) < 4294967296"
    and LM: "0 \<le> LM" "LM < 4" and rg: "0 \<le> start" "start \<le> stop" "stop \<le> n" "1 \<le> C" "C \<le> 2" "effEnd \<le> n"
    and ln: "C * n \<le> len oldE" "C * n \<le> len eB" "C * n \<le> len er" "len scr = C * n" and room: "Enc_Tell e + 20 \<le> sint budget"
  shows "coded fronted (24 + 24 * nat C * nat (stop - start)) e s (snd \<circ> snd \<circ> snd \<circ> snd)
      (quantCoarseEnergy n start stop effEnd eB oldE budget er e C LM nbA force dI two lossRate lfe scr)
      snd (coarse_input budget oldE) (decode_coarse n start stop (sint budget) C LM) (snd \<circ> snd)
      (\<lambda>x. coarse_output (written n C start stop 0) (fst x) (fst (snd x)))"
proof -
  have cn: "0 \<le> C * n" using rg by simp
  have "C = 1 \<or> C = 2" using rg by auto
  then obtain bias where bias: "celtUdiv (budget * dI * word_of_int lossRate) (word_of_int (C * 512)) = Ok bias"
    by (auto simp: celtUdiv_def)
  obtain nd where nd: "lossDistortion eB oldE start effEnd n C = Ok nd" using lossDistortion_ok rg ln by blast
  have "tell + 3 \<le>s budget" if "tell = word_of_int (Enc_Tell e)" for tell :: i32
  proof -
    have "tell + 3 = word_of_int (Enc_Tell e + 3)" by (simp add: that)
    moreover have "sint (word_of_int (Enc_Tell e + 3) :: i32) = Enc_Tell e + 3"
      using Tell_pos [OF st] room i32_range [of budget] by (intro i32_of_int) simp_all
    ultimately show ?thesis using room by (simp add: word_sle_eq)
  qed
  then have tell: "\<not> budget <s word_of_int (Enc_Tell e) + 3" using word_sle_eq word_sless_alt by (metis not_le)
  let ?W = "written n C start stop 0" and ?m = "24 + 24 * nat C * nat (stop - start)"
  let ?dec = "decode_coarse n start stop (sint budget) C LM" and ?old1 = "take (nat (C * n)) oldE"
  define intra where "intra = (if force \<noteq> 0 \<or> two = 0 \<and> word_of_int (2 * C * (stop - start)) <s dI \<and> nbA > (stop - start) * C then 1 else 0 :: int)"
  define md where "md = max_decay start stop nbA lfe"
  obtain bad1 old1 er1 e1 where p1: "quantCoarseEnergyImpl n start stop eB ?old1 budget (word_of_int (Enc_Tell e))
        (eProbModel ! nat LM ! nat 1) scr e C LM 1 md lfe = Ok (bad1, old1, er1, e1)" "len old1 = C * n" "len er1 = C * n"
    "coded fronted ?m e s (snd \<circ> snd \<circ> snd) (Ok (bad1, old1, er1, e1)) snd (coarse_input budget oldE) ?dec (snd \<circ> snd)
        (\<lambda>x. coarse_output ?W 1 (fst (snd x) @ drop (nat (C * n)) oldE))"
    using intra_pass_coded [OF st nb LM rg(1-5) ln(1,2,4) room, where maxDecay = md and lfe = lfe] by blast
  define core where "core = (if intra \<noteq> 0 then Ok (1, old1 @ drop (nat (C * n)) oldE, er1 @ drop (nat (C * n)) er, e1)
     else if two \<noteq> 0 then quant_inter n start stop eB oldE budget (word_of_int (Enc_Tell e)) er e e1 C LM md bias lfe two bad1 old1 er1
     else quant_inter n start stop eB oldE budget (word_of_int (Enc_Tell e)) er e e C LM md bias lfe two 0 ?old1 scr)"
  obtain pc where pc: "idx predCoef LM = (Ok pc :: i16 go)" using LM by (auto simp: idx_def predCoef_def)
  define fin where "fin x = (case x of (i, o', er', e') \<Rightarrow> (i, o', er',
     if i \<noteq> 0 then nd else ADD32 (MULT16_32_Q15 (ucast (MULT16_16_Q15 pc pc)) dI) nd, e'))" for x :: "int \<times> i32 list \<times> i32 list \<times> Encoder"
  have core: "coded fronted ?m e s (snd \<circ> snd \<circ> snd) core snd (coarse_input budget oldE) ?dec (snd \<circ> snd)
      (\<lambda>x. coarse_output ?W (fst x) (fst (snd x)))"
  proof -
    obtain x s1 where x: "(Ok (bad1, old1, er1, e1) :: (int \<times> i32 list \<times> i32 list \<times> Encoder) go) = Ok x"
      "enc_st ((snd \<circ> snd \<circ> snd) x) s1" "fronted e ((snd \<circ> snd \<circ> snd) x)" using p1(4) unfolding coded_def by blast
    then have e1: "enc_st e1 s1" "fronted e e1" by auto
    have "coded fronted ?m e s (snd \<circ> snd \<circ> snd) (Ok (1, old1 @ drop (nat (C * n)) oldE, er1 @ drop (nat (C * n)) er, e1)) snd
        (coarse_input budget oldE) ?dec (snd \<circ> snd) (\<lambda>x. coarse_output ?W (fst x) (fst (snd x)))"
      by (rule coded_conseq [OF p1(4), where p = id
          and f = "\<lambda>x. (1, fst (snd x) @ drop (nat (C * n)) oldE, er1 @ drop (nat (C * n)) er, snd (snd (snd x)))"]) auto
    moreover note quant_inter_coded [OF st e1 nb LM rg(1-5) ln(1-3) room conjI [OF p1(2) conjI [OF p1(3,4)]],
      where two = two and maxDecay = md and intraBias = bias and lfe = lfe]
    moreover have "two = 0 \<Longrightarrow> coded fronted ?m e s (snd \<circ> snd \<circ> snd)
        (quant_inter n start stop eB oldE budget (word_of_int (Enc_Tell e)) er e e C LM md bias lfe two 0 ?old1 scr) snd
        (coarse_input budget oldE) ?dec (snd \<circ> snd) (\<lambda>x. coarse_output ?W (fst x) (fst (snd x)))"
      by (rule quant_inter_coded [OF st st fronted_refl nb LM rg(1-5) ln(1-3) room]) simp
    ultimately show ?thesis unfolding core_def by presburger
  qed
  have rows: "idx eProbModel LM = (Ok (eProbModel ! nat LM) :: int list list go)"
    "idx (eProbModel ! nat LM) 1 = (Ok (eProbModel ! nat LM ! nat 1) :: int list go)"
    using prob_rows [OF LM, of 1] by simp_all
  have sl: "slice oldE 0 (C * n) = (Ok ?old1 :: i32 list go)" using cn ln(1) by (simp add: slice_Ok)
  have tl: "bnd m (\<lambda>(i, o', er', e'). bnd (if i \<noteq> 0 then Ok nd
        else bnd (idx predCoef LM) (\<lambda>p. Ok (ADD32 (MULT16_32_Q15 (ucast (MULT16_16_Q15 p p)) dI) nd))) (\<lambda>dI. Ok (i, o', er', dI, e')))
      = bnd m (\<lambda>x. Ok (fin x))" for m :: "(int \<times> i32 list \<times> i32 list \<times> Encoder) go"
    by (cases m) (auto simp: pc fin_def)
  have r: "quantCoarseEnergy n start stop effEnd eB oldE budget er e C LM nbA force dI two lossRate lfe scr = bnd core (\<lambda>x. Ok (fin x))"
  proof (cases "intra = 0")
    case True
    then show ?thesis
      unfolding quantCoarseEnergy_def Let_def intra_def [symmetric] bias nd bnd.simps if_not_P [OF tell] prod.case sl
        md_def [symmetric] core_def tl
      by (cases "two = 0") (simp_all add: rows p1(1) [simplified])
  next
    case False
    then have "intra = 1" by (simp add: intra_def split: if_splits)
    then show ?thesis
      unfolding quantCoarseEnergy_def Let_def intra_def [symmetric] bias nd bnd.simps if_not_P [OF tell] prod.case sl
        md_def [symmetric] core_def tl
      using cn ln(1,3) p1(2,3) by (simp add: rows p1(1) [simplified] copy_prefix_ok)
  qed
  show ?thesis unfolding r
    by (rule coded_conseq [OF core, where f = fin and p = id]) (auto simp: fin_def split: prod.splits)
qed

end
