(* ===== verification/Quant_Fine.thy ===== *)
theory Quant_Fine
  imports Quant_Two
begin

text \<open>
  The fine energies and the last bits: raw bits, so the encoder and the decoder read and write the same
  positions and add the same offsets.
\<close>

section \<open>One raw symbol\<close>

lemma put_byte_at_end_kept: "put_byte_at_end e v = Ok e' \<Longrightarrow> kept e e'"
  by (auto simp: put_byte_at_end_def write_byte_at_end_def bnd_eq_Ok Let_def kept_def split: if_splits)

lemma flush_window_kept: "flush_window e w u = Ok (e', w', u') \<Longrightarrow> kept e e'"
proof (induction e w u rule: flush_window.induct)
  case (1 e w u)
  from 1(2) obtain e1 where e1: "put_byte_at_end e (w AND word_of_int ecSymMax) = Ok e1"
    "(if u - int ecSymBits < int ecSymBits then Ok (e1, drop_bit ecSymBits w, u - int ecSymBits)
      else flush_window e1 (drop_bit ecSymBits w) (u - int ecSymBits)) = Ok (e', w', u')"
    unfolding flush_window.simps [of e w u] bnd_eq_Ok Let_def by blast
  note k = put_byte_at_end_kept [OF e1(1)]
  show ?case
  proof (cases "u - int ecSymBits < int ecSymBits")
    case False
    then show ?thesis using whole.K_trans [OF k 1(1)] e1 by simp
  qed (use k e1(2) in simp)
qed

lemma EncBits_kept: "EncBits e fl bits = Ok e' \<Longrightarrow> kept e e'"
  by (auto simp: EncBits_def bnd_eq_Ok kept_def dest!: flush_window_kept split: if_splits)

lemma bits_coded:
  assumes "uint fl < 2 ^ k" "uint bits = int k" "1 \<le> k" "k \<le> 25" "enc_st e s" "e_nbits_total e + int 25 < 4294967296"
  shows "coded kept 25 e s id (EncBits e fl bits) id (\<lambda>_. True) (\<lambda>d. DecBits d bits) snd (\<lambda>e' y. fst y = fl)"
  by (rule undoes_coded [OF undoes_EncBits [OF assms(1-4)] assms(5,6)]) (rule EncBits_kept)

text \<open>
  Both energies at an index get the same offset: \<open>agree A\<close> says that they have the same length and, if \<open>A\<close>,
  are the same.
\<close>

definition agree :: "bool \<Rightarrow> i32 list \<Rightarrow> i32 list \<Rightarrow> bool" where
  "agree A oldE oldD \<longleftrightarrow> length oldD = length oldE \<and> (A \<longrightarrow> oldD = oldE)"

lemma agree_update: "agree A oldE oldD \<Longrightarrow> p < length oldE \<Longrightarrow> agree A (oldE[p := oldE ! p + off]) (oldD[p := oldD ! p + off])"
  by (auto simp: agree_def)

section \<open>The fine energies\<close>

lemma i16_small: "0 \<le> x \<Longrightarrow> x \<le> 14 \<Longrightarrow> sint (word_of_int x :: i16) = x"
  by (rule i16_of_int) simp_all

lemma fine_q2_ok:
  assumes "1 \<le> x" "x \<le> 14"
  shows "\<exists>q2. fine_q2 v (push_bit (nat x) 1) x 0 = Ok q2 \<and> uint q2 < 2 ^ nat x"
proof -
  define n where "n = nat x"
  have n: "n \<le> 14" using assms by (simp add: n_def)
  then have p: "(2 :: int) ^ n \<le> 16384" "(1 :: int) \<le> 2 ^ n" using power_increasing [of n 14 "2 :: int"] by simp_all
  define top where "top = (scast (push_bit n (1 :: i16)) - 1 :: i32)"
  have "push_bit n (1 :: i16) = word_of_int (2 ^ n)" by (simp add: push_bit_of_1)
  moreover have "- 32768 \<le> (2 :: int) ^ n" "(2 :: int) ^ n < 32768" using p by linarith+
  ultimately have "sint (push_bit n (1 :: i16)) = 2 ^ n" using i16_of_int [of "2 ^ n"] by simp
  then have "top = word_of_int (2 ^ n - 1)" by (simp only: top_def scast_of_int of_int_diff of_int_1)
  moreover have "- 2147483648 \<le> (2 :: int) ^ n - 1" "(2 :: int) ^ n - 1 < 2147483648" using p by linarith+
  ultimately have top: "sint top = 2 ^ n - 1" using i32_of_int [of "2 ^ n - 1"] by (simp only:)
  define q2 where "q2 = VSHR32 (ADD32 v (SHR32 ghalf 0)) (int dbShift - x)"
  define q3 where "q3 = (if top <s q2 then top else q2)"
  define q4 where "q4 = (if q3 <s 0 then 0 else q3)"
  have "0 \<le> sint q4" "sint q4 \<le> 2 ^ n - 1"
    using top p(2) by (auto simp: q3_def q4_def word_sless_alt)
  moreover from this(1) have "uint q4 = sint q4" using i32_range(2) [of q4] by (simp add: uint_sint take_bit_int_eq_self)
  ultimately have "uint q4 < 2 ^ n" by simp
  moreover have "fine_q2 v (push_bit (nat x) 1) x 0 = Ok q4"
  proof -
    have "SHR32_go ghalf (sint (0 :: i16)) = Ok (SHR32 ghalf 0)" by (simp add: SHR32_go_def)
    then show ?thesis unfolding fine_q2_def Let_def q4_def q3_def q2_def top_def n_def by simp
  qed
  ultimately show ?thesis by (auto simp: n_def)
qed

lemma fine_offset_ok: "\<exists>off. fine_offset q2 x 0 = Ok off"
  by (simp add: fine_offset_def SHR32_go_def)

definition fine_fits :: "int \<Rightarrow> int \<Rightarrow> fine \<Rightarrow> bool" where
  "fine_fits nb C st \<longleftrightarrow> C * nb \<le> len (fst st) \<and> C * nb \<le> len (fst (snd st))"

lemma index_below:
  fixes i :: int
  assumes "0 \<le> i" "i < nb" "0 \<le> c" "c < C"
  shows "0 \<le> i + c * nb" "i + c * nb < C * nb"
proof -
  have "(c + 1) * nb \<le> C * nb" using assms by (intro mult_right_mono) simp_all
  then show "0 \<le> i + c * nb" "i + c * nb < C * nb" using assms by (simp_all add: algebra_simps)
qed

lemma fine_step_coded:
  assumes st: "enc_st e s" "e_nbits_total e + int 25 < 4294967296" and x: "1 \<le> x" "x \<le> 14"
    and f: "fine_fits nb C (oldE, er, e)" and rg: "0 \<le> i" "i < nb" "0 \<le> c" "c < C"
  shows "coded kept 25 e s (snd \<circ> snd) (quant_fine_step nb x 0 i c (oldE, er, e)) snd (\<lambda>y. agree A oldE (fst y))
    (unquant_fine_step nb (word_of_int x) 0 i c) snd (\<lambda>x y. agree A (fst x) (fst y))"
proof -
  define p where "p = nat (i + c * nb)"
  have ix: "i + c * nb = int p" "p < length oldE" "p < length er"
    using index_below [OF rg] f by (auto simp: p_def fine_fits_def nat_less_iff)
  obtain q2 where q2: "fine_q2 (er ! p) (push_bit (nat x) 1) x 0 = Ok q2" "uint q2 < 2 ^ nat x" using fine_q2_ok [OF x] by blast
  obtain off where off: "fine_offset q2 x 0 = Ok off" using fine_offset_ok by blast
  have k: "uint (word_of_int x :: u32) = int (nat x)" "1 \<le> nat x" "nat x \<le> 25" using x by (simp_all add: u32_of_int)
  have sx: "sint (word_of_int x :: i16) = x" "(scast (word_of_int x :: i16) :: u32) = word_of_int x"
    using i16_small [of x] x by (simp_all add: scast_of_int)
  note c = bits_coded [OF q2(2) k st]
  show ?thesis
  proof (rule coded_conseq [OF c, where p = snd and f = "\<lambda>e. (oldE[p := oldE ! p + off], er[p := er ! p - off], e)"])
    show "quant_fine_step nb x 0 i c (oldE, er, e) = Ok (oldE[p := oldE ! p + off], er[p := er ! p - off], e')
        \<and> (snd \<circ> snd) (oldE[p := oldE ! p + off], er[p := er ! p - off], e') = id e' \<and> kept e (id e')"
      if "EncBits e q2 (word_of_int x) = Ok e'" "kept e (id e')" for e'
      using that by (simp add: quant_fine_step_def ix idx_Ok upd_Ok q2(1) [unfolded push_bit_of_1] off)
  next
    fix S e' y and y0 :: "i32 list \<times> Decoder"
    assume a: "agree A oldE (fst y0)"
    obtain oldD d where y0: "y0 = (oldD, d)" by (cases y0)
    have l: "p < length oldD" using a ix by (simp add: y0 agree_def)
    have "unquant_fine_step nb (word_of_int x) 0 i c (oldD, d) = Ok (oldD[p := oldD ! p + off], snd y)"
      if "DecBits d (word_of_int x) = Ok y" "fst y = q2"
      using that l by (cases y) (simp add: unquant_fine_step_def sx ix idx_Ok upd_Ok off)
    then show "True \<and> id (snd y0) = snd y0 \<and> (DecBits (snd y0) (word_of_int x) = Ok y \<longrightarrow> fst y = q2 \<longrightarrow>
        (\<exists>z. unquant_fine_step nb (word_of_int x) 0 i c y0 = Ok z \<and> snd z = snd y
          \<and> agree A (fst (oldE[p := oldE ! p + off], er[p := er ! p - off], e')) (fst z)))"
      using agree_update [OF a [unfolded y0 fst_conv] ix(2)] by (simp add: y0)
  qed simp
qed

lemma fine_step_shape:
  "quant_fine_step nb x prev i c st = Ok st' \<Longrightarrow> length (fst st') = length (fst st) \<and> length (fst (snd st')) = length (fst (snd st))"
  by (auto simp: quant_fine_step_def Let_def bnd_eq_Ok upd_eq_Ok split: prod.splits)

lemma fine_chans_coded:
  assumes st: "enc_st ((snd \<circ> snd) f) s" "e_nbits_total ((snd \<circ> snd) f) + int (25 * nat C) < 4294967296" and x: "1 \<le> x" "x \<le> 14"
    and f: "fine_fits nb C f" and rg: "0 \<le> i" "i < nb" "1 \<le> C"
  shows "coded kept (25 * nat C) ((snd \<circ> snd) f) s (snd \<circ> snd) (quant_fine_chans nb x 0 C i 0 f) snd (\<lambda>y. agree A (fst f) (fst y))
    (unquant_fine_chans nb (word_of_int x) 0 C i 0) snd (\<lambda>x y. agree A (fst x) (fst y))"
proof -
  have "coded kept (25 * nat (C - 0)) ((snd \<circ> snd) f) s (snd \<circ> snd) (quant_fine_chans nb x 0 C i 0 f) snd (\<lambda>y. agree A (fst f) (fst y))
    (unquant_fine_chans nb (word_of_int x) 0 C i 0) snd (\<lambda>x y. agree A (fst x) (fst y))"
  proof (rule whole.coded_do [where I = "\<lambda>c f. 0 \<le> c \<and> fine_fits nb C f" and Q = "\<lambda>c x y. agree A (fst x) (fst y)"
      and F = "quant_fine_chans nb x 0 C i" and G = "unquant_fine_chans nb (word_of_int x) 0 C i"
      and B = "quant_fine_step nb x 0 i" and D = "unquant_fine_step nb (word_of_int x) 0 i"])
    show "coded kept 25 ((snd \<circ> snd) f) s (snd \<circ> snd) (quant_fine_step nb x 0 i c f) snd (\<lambda>y. agree A (fst f) (fst y))
        (unquant_fine_step nb (word_of_int x) 0 i c) snd (\<lambda>x y. agree A (fst x) (fst y))"
      if "c < C" "0 \<le> c \<and> fine_fits nb C f" "enc_st ((snd \<circ> snd) f) s" "e_nbits_total ((snd \<circ> snd) f) + int 25 < 4294967296" for c f s
      using fine_step_coded [of "(snd \<circ> snd) f" s x nb C "fst f" "fst (snd f)" i c A] that x rg by simp
    show "0 \<le> c + 1 \<and> fine_fits nb C f'"
      if "c < C" "0 \<le> c \<and> fine_fits nb C f" "quant_fine_step nb x 0 i c f = Ok f'" for c f f'
      using that fine_step_shape [OF that(3)] by (simp add: fine_fits_def)
  qed (use rg st f in \<open>auto simp: quant_fine_chans.simps [of nb] unquant_fine_chans.simps [of nb]\<close>)
  then show ?thesis by simp
qed

lemma fine_chans_shape:
  "quant_fine_chans nb x prev C i c st = Ok st' \<Longrightarrow> length (fst st') = length (fst st) \<and> length (fst (snd st')) = length (fst (snd st))"
proof (induction "nat (C - c)" arbitrary: c st rule: less_induct)
  case less
  then obtain st1 where st1: "quant_fine_step nb x prev i c st = Ok st1"
    "(if c + 1 \<ge> C then Ok st1 else quant_fine_chans nb x prev C i (c + 1) st1) = Ok st'"
    unfolding quant_fine_chans.simps [of nb x prev C i c] bnd_eq_Ok by blast
  note sh = fine_step_shape [OF st1(1)]
  show ?case
  proof (cases "c + 1 \<ge> C")
    case False
    then have "length (fst st') = length (fst st1) \<and> length (fst (snd st')) = length (fst (snd st1))"
      using st1(2) by (intro less.hyps [of "c + 1"]) simp_all
    with sh show ?thesis by simp
  qed (use sh st1(2) in simp)
qed

text \<open>The bit counts an allocation may hold.\<close>

definition counts_ok :: "int \<Rightarrow> int list \<Rightarrow> bool" where
  "counts_ok stop l \<longleftrightarrow> stop \<le> len l \<and> list_all (\<lambda>x. 0 \<le> x \<and> x \<le> 14) l"

lemma counts_at: "counts_ok stop l \<Longrightarrow> 0 \<le> i \<Longrightarrow> i < stop \<Longrightarrow> \<exists>x. (idx l i :: int go) = Ok x \<and> 0 \<le> x \<and> x \<le> 14"
  by (auto simp: counts_ok_def idx_Ok list_all_iff)

lemma fine_band_coded:
  assumes st: "enc_st e s" "e_nbits_total e + int (25 * nat C) < 4294967296" and x: "counts_ok stop extra"
    and f: "fine_fits nb C (oldE, er, e)" and rg: "0 \<le> i" "i < nb" "i < stop" "1 \<le> C"
  shows "coded kept (25 * nat C) e s (snd \<circ> snd) (quant_fine_band nb None extra C i (oldE, er, e)) snd
    (\<lambda>y. agree A oldE (fst y) \<and> d_storage (snd y) = e_storage e)
    (unquant_fine_band nb None extra C i) snd (\<lambda>x y. agree A (fst x) (fst y) \<and> d_storage (snd y) = e_storage e)"
proof -
  obtain v where v: "(idx extra i :: int go) = Ok v" "0 \<le> v" "v \<le> 14" using counts_at [OF x rg(1,3)] by blast
  define over where "over \<longleftrightarrow> e_storage e * 8 <s word_of_int (Enc_Tell e) + word_of_int (C * v)"
  have tell: "d_storage d = e_storage e \<Longrightarrow> d_storage d * 8 <s word_of_int (Dec_Tell d) + word_of_int (C * v) \<longleftrightarrow> over"
    if "dec_st d S s" for d S
    using enc_st_Tell [OF st(1)] dec_st_Tell [OF that] by (simp add: over_def)
  show ?thesis
  proof (cases "v = 0 \<or> over")
    case True
    have r: "quant_fine_band nb None extra C i (oldE, er, e) = Ok (oldE, er, e)"
      using v True by (auto simp: quant_fine_band_def over_def)
    have "coded kept 0 ((snd \<circ> snd) (oldE, er, e)) s (snd \<circ> snd) (Ok (oldE, er, e)) snd (\<lambda>y. agree A oldE (fst y) \<and> d_storage (snd y) = e_storage e)
      (unquant_fine_band nb None extra C i) snd (\<lambda>x y. agree A (fst x) (fst y) \<and> d_storage (snd y) = e_storage e)"
      by (rule whole.coded_return) (use st tell v True in \<open>auto simp: unquant_fine_band_def\<close>)
    then show ?thesis unfolding r by (auto intro: coded_weaken)
  next
    case False
    then have v1: "1 \<le> v" using v by simp
    have st': "enc_st ((snd \<circ> snd) (oldE, er, e)) s" "e_nbits_total ((snd \<circ> snd) (oldE, er, e)) + int (25 * nat C) < 4294967296"
      using st by simp_all
    have r: "quant_fine_band nb None extra C i (oldE, er, e) = quant_fine_chans nb v 0 C i 0 (oldE, er, e)"
      using v False by (auto simp: quant_fine_band_def over_def prev_bits_def)
    note c = coded_storage [OF fine_chans_coded [OF st' v1 v(3) f rg(1,2,4), where A = A], where H = "\<lambda>n. n = e_storage e"]
    show ?thesis unfolding r
    proof (rule coded_conseq [OF c [unfolded comp_apply snd_conv fst_conv], where f = id and p = id])
      fix S x y and y0 :: "i32 list \<times> Decoder"
      assume y0: "agree A oldE (fst y0) \<and> d_storage (snd y0) = e_storage e" and d: "dec_st (snd y0) S s"
      have "unquant_fine_band nb None extra C i y0 = unquant_fine_chans nb (word_of_int v) 0 C i 0 y0"
        using tell [OF d] y0 False v1 by (cases y0) (simp add: unquant_fine_band_def v(1) prev_bits_def)
      with y0 show "(agree A oldE (fst (id y0)) \<and> d_storage (snd (id y0)) = e_storage e) \<and> snd (id y0) = snd y0
          \<and> (unquant_fine_chans nb (word_of_int v) 0 C i 0 (id y0) = Ok y \<longrightarrow> agree A (fst x) (fst y) \<and> d_storage (snd y) = e_storage e \<longrightarrow>
            (\<exists>z. unquant_fine_band nb None extra C i y0 = Ok z \<and> snd z = snd y \<and> agree A (fst (id x)) (fst z) \<and> d_storage (snd z) = e_storage e))"
        by simp
    qed simp_all
  qed
qed

lemma fine_band_shape:
  "quant_fine_band nb p extra C i st = Ok st' \<Longrightarrow> length (fst st') = length (fst st) \<and> length (fst (snd st')) = length (fst (snd st))"
  by (cases st) (auto simp: quant_fine_band_def bnd_eq_Ok split: if_splits dest: fine_chans_shape)

lemma fine_energy_coded:
  assumes st: "enc_st e s" "e_nbits_total e + int (25 * nat C * nat (stop - start)) < 4294967296" and x: "counts_ok stop extra"
    and f: "fine_fits nb C (oldE, er, e)" and rg: "0 \<le> start" "start \<le> stop" "stop \<le> nb" "1 \<le> C"
  shows "coded kept (25 * nat C * nat (stop - start)) e s (snd \<circ> snd) (quantFineEnergy nb start stop oldE er None extra e C) snd
    (\<lambda>y. agree A oldE (fst y) \<and> d_storage (snd y) = e_storage e)
    (\<lambda>(oldD, d). unquantFineEnergy nb start stop oldD None extra d C) snd (\<lambda>x y. agree A (fst x) (fst y) \<and> d_storage (snd y) = e_storage e)"
proof -
  define n where "n = e_storage e"
  define Q where "Q f y \<longleftrightarrow> agree A (fst f) (fst y) \<and> d_storage (snd y) = n" for f :: fine and y :: "i32 list \<times> Decoder"
  have "coded kept (25 * nat C * nat (stop - start)) ((snd \<circ> snd) (oldE, er, e)) s (snd \<circ> snd)
      (quant_fine_bands nb None extra C stop start (oldE, er, e)) snd (Q (oldE, er, e)) (unquant_fine_bands nb None extra C stop start) snd Q"
  proof (rule whole.coded_while [where I = "\<lambda>i f. 0 \<le> i \<and> fine_fits nb C f \<and> e_storage ((snd \<circ> snd) f) = n" and Q = "\<lambda>i. Q"
      and ce = "\<lambda>i f. True" and cd = "\<lambda>i f. True" and stop = stop
      and F = "quant_fine_bands nb None extra C stop" and G = "unquant_fine_bands nb None extra C stop"
      and B = "quant_fine_band nb None extra C" and D = "unquant_fine_band nb None extra C"])
    fix i f s
    assume i: "i < stop" and I: "0 \<le> i \<and> fine_fits nb C f \<and> e_storage ((snd \<circ> snd) f) = n" and st: "enc_st ((snd \<circ> snd) f) s"
      and nb: "e_nbits_total ((snd \<circ> snd) f) + int (25 * nat C) < 4294967296"
    obtain oldE er e where f: "f = (oldE, er, e)" by (cases f)
    have "coded kept (25 * nat C) e s (snd \<circ> snd) (quant_fine_band nb None extra C i (oldE, er, e)) snd
      (\<lambda>y. agree A oldE (fst y) \<and> d_storage (snd y) = e_storage e)
      (unquant_fine_band nb None extra C i) snd (\<lambda>x y. agree A (fst x) (fst y) \<and> d_storage (snd y) = e_storage e)"
      by (rule fine_band_coded [where stop = stop]) (use st nb I i rg x in \<open>simp_all add: f\<close>)
    then show "coded kept (25 * nat C) ((snd \<circ> snd) f) s (snd \<circ> snd) (quant_fine_band nb None extra C i f) snd (Q f) (unquant_fine_band nb None extra C i) snd Q"
      using I by (simp add: f Q_def [abs_def] comp_def)
  next
    fix i f s f'
    assume "i < stop" and I: "0 \<le> i \<and> fine_fits nb C f \<and> e_storage ((snd \<circ> snd) f) = n" and b: "quant_fine_band nb None extra C i f = Ok f'"
      and k: "kept ((snd \<circ> snd) f) ((snd \<circ> snd) f')"
    have "length (fst f') = length (fst f) \<and> length (fst (snd f')) = length (fst (snd f))"
      by (rule fine_band_shape [OF b])
    with I k show "0 \<le> i + 1 \<and> fine_fits nb C f' \<and> e_storage ((snd \<circ> snd) f') = n" by (auto simp: fine_fits_def kept_def)
  next
    show "quant_fine_bands nb None extra C stop i f = (if i < stop \<and> True then bnd (quant_fine_band nb None extra C i f)
        (\<lambda>f. quant_fine_bands nb None extra C stop (i + 1) f) else Ok f)"
      "unquant_fine_bands nb None extra C stop i y = (if i < stop \<and> True then bnd (unquant_fine_band nb None extra C i y)
        (\<lambda>y. unquant_fine_bands nb None extra C stop (i + 1) y) else Ok y)" for i f y
      by (subst quant_fine_bands.simps unquant_fine_bands.simps, simp)+
  qed (use rg st f in \<open>auto simp: n_def\<close>)
  moreover have "(\<lambda>(oldD, d). unquantFineEnergy nb start stop oldD None extra d C) = unquant_fine_bands nb None extra C stop start"
    by (auto simp: unquantFineEnergy_def)
  ultimately show ?thesis by (simp add: quantFineEnergy_def Q_def [abs_def] n_def comp_def)
qed

section \<open>The last bits\<close>

definition last_fits :: "int \<Rightarrow> int \<Rightarrow> last_bits \<Rightarrow> bool" where
  "last_fits nb C = (\<lambda>(oldE, er, bitsLeft, e). \<exists>l. oldE = Some l \<and> C * nb \<le> len l \<and> C * nb \<le> len er)"

definition last_agree :: "bool \<Rightarrow> last_bits \<Rightarrow> unlast \<Rightarrow> bool" where
  "last_agree A x y \<longleftrightarrow> (\<exists>l l'. fst x = Some l \<and> fst y = Some l' \<and> agree A l l') \<and> fst (snd y) = fst (snd (snd x))"

lemma last_step_coded:
  assumes st: "enc_st e s" "e_nbits_total e + int 25 < 4294967296" and fq: "0 \<le> fine"
    and f: "last_fits nb C (Some oldE, er, left, e)" and rg: "0 \<le> i" "i < nb" "0 \<le> c" "c < C"
  shows "coded kept 25 e s (snd \<circ> snd \<circ> snd) (quant_last_step nb fine i c (Some oldE, er, left, e)) (snd \<circ> snd) (last_agree A (Some oldE, er, left, e))
    (unquant_last_step nb fine i c) (snd \<circ> snd) (last_agree A)"
proof -
  define p where "p = nat (i + c * nb)"
  have ix: "i + c * nb = int p" "p < length oldE" "p < length er"
    using index_below [OF rg] f by (auto simp: p_def last_fits_def nat_less_iff)
  define q2 where "q2 = (if er ! p <s 0 then 0 else 1 :: u32)"
  have q2: "uint q2 < 2 ^ 1" by (simp add: q2_def)
  obtain off where off: "last_offset q2 fine = Ok off" using fq by (simp add: last_offset_def SHR32_go_def)
  note c = bits_coded [OF q2 _ _ _ st, of 1]
  show ?thesis
  proof (rule coded_conseq [OF c, where p = "snd \<circ> snd" and f = "\<lambda>e. (Some (oldE[p := oldE ! p + off]), er[p := er ! p - off], left - 1, e)"])
    show "quant_last_step nb fine i c (Some oldE, er, left, e) = Ok (Some (oldE[p := oldE ! p + off]), er[p := er ! p - off], left - 1, e')
        \<and> (snd \<circ> snd \<circ> snd) (Some (oldE[p := oldE ! p + off]), er[p := er ! p - off], left - 1, e') = id e' \<and> kept e (id e')"
      if "EncBits e q2 1 = Ok e'" "kept e (id e')" for e'
      using that by (simp add: quant_last_step_def ix idx_Ok upd_Ok add_at_def q2_def [symmetric] off)
  next
    fix S e' y and y0 :: unlast
    assume a: "last_agree A (Some oldE, er, left, e) y0"
    then obtain oldD d where y0: "y0 = (Some oldD, left, d)" and ag: "agree A oldE oldD" by (cases y0) (auto simp: last_agree_def)
    have l: "p < length oldD" using ag ix by (simp add: agree_def)
    have "unquant_last_step nb fine i c y0 = Ok (Some (oldD[p := oldD ! p + off]), left - 1, snd y)"
      if "DecBits d 1 = Ok y" "fst y = q2"
      using that l by (cases y) (simp add: unquant_last_step_def y0 ix idx_Ok upd_Ok add_at_def off)
    then show "True \<and> id ((snd \<circ> snd) y0) = (snd \<circ> snd) y0 \<and> (DecBits ((snd \<circ> snd) y0) 1 = Ok y \<longrightarrow> fst y = q2 \<longrightarrow>
        (\<exists>z. unquant_last_step nb fine i c y0 = Ok z \<and> (snd \<circ> snd) z = snd y
          \<and> last_agree A (Some (oldE[p := oldE ! p + off]), er[p := er ! p - off], left - 1, e') z))"
      using agree_update [OF ag ix(2)] by (simp add: y0 last_agree_def)
  qed simp_all
qed

lemma last_step_fits: "last_fits nb C st \<Longrightarrow> quant_last_step nb fine i c st = Ok st' \<Longrightarrow> last_fits nb C st'"
  by (auto simp: quant_last_step_def last_fits_def add_at_def Let_def bnd_eq_Ok upd_eq_Ok split: prod.splits)

lemma last_chans_coded:
  assumes st: "enc_st ((snd \<circ> snd \<circ> snd) f) s" "e_nbits_total ((snd \<circ> snd \<circ> snd) f) + int (25 * nat C) < 4294967296" and fq: "0 \<le> fine"
    and f: "last_fits nb C f" and rg: "0 \<le> i" "i < nb" "1 \<le> C"
  shows "coded kept (25 * nat C) ((snd \<circ> snd \<circ> snd) f) s (snd \<circ> snd \<circ> snd) (quant_last_chans nb fine C i 0 f) (snd \<circ> snd) (last_agree A f)
    (unquant_last_chans nb fine C i 0) (snd \<circ> snd) (last_agree A)"
proof -
  have "coded kept (25 * nat (C - 0)) ((snd \<circ> snd \<circ> snd) f) s (snd \<circ> snd \<circ> snd) (quant_last_chans nb fine C i 0 f) (snd \<circ> snd) (last_agree A f)
    (unquant_last_chans nb fine C i 0) (snd \<circ> snd) (last_agree A)"
  proof (rule whole.coded_do [where I = "\<lambda>c f. 0 \<le> c \<and> last_fits nb C f" and Q = "\<lambda>c. last_agree A"
      and F = "quant_last_chans nb fine C i" and G = "unquant_last_chans nb fine C i"
      and B = "quant_last_step nb fine i" and D = "unquant_last_step nb fine i"])
    fix c f s
    assume c: "c < C" and I: "0 \<le> c \<and> last_fits nb C f" and st: "enc_st ((snd \<circ> snd \<circ> snd) f) s"
      "e_nbits_total ((snd \<circ> snd \<circ> snd) f) + int 25 < 4294967296"
    obtain oldE er left e where f: "f = (Some oldE, er, left, e)" using I by (cases f) (auto simp: last_fits_def)
    show "coded kept 25 ((snd \<circ> snd \<circ> snd) f) s (snd \<circ> snd \<circ> snd) (quant_last_step nb fine i c f) (snd \<circ> snd) (last_agree A f)
        (unquant_last_step nb fine i c) (snd \<circ> snd) (last_agree A)"
      using last_step_coded [of e s fine nb C oldE er left i c A] c I st fq rg by (simp add: f)
  qed (use rg st f in \<open>auto simp: quant_last_chans.simps [of nb] unquant_last_chans.simps [of nb] dest: last_step_fits\<close>)
  then show ?thesis by simp
qed

lemma last_chans_fits: "last_fits nb C st \<Longrightarrow> quant_last_chans nb fine C' i c st = Ok st' \<Longrightarrow> last_fits nb C st'"
proof (induction "nat (C' - c)" arbitrary: c st rule: less_induct)
  case less
  then obtain st1 where st1: "quant_last_step nb fine i c st = Ok st1"
    "(if c + 1 \<ge> C' then Ok st1 else quant_last_chans nb fine C' i (c + 1) st1) = Ok st'"
    unfolding quant_last_chans.simps [of nb fine C' i c] bnd_eq_Ok by blast
  note f1 = last_step_fits [OF less.prems(1) st1(1)]
  show ?case
  proof (cases "c + 1 \<ge> C'")
    case False
    then show ?thesis using st1(2) f1 by (intro less.hyps [of "c + 1"]) simp_all
  qed (use f1 st1(2) in simp)
qed

lemma last_band_coded:
  assumes st: "enc_st ((snd \<circ> snd \<circ> snd) f) s" "e_nbits_total ((snd \<circ> snd \<circ> snd) f) + int (25 * nat C) < 4294967296"
    and q: "counts_ok stop fq" "stop \<le> len fp" and f: "last_fits nb C f" and rg: "0 \<le> i" "i < nb" "i < stop" "1 \<le> C"
  shows "coded kept (25 * nat C) ((snd \<circ> snd \<circ> snd) f) s (snd \<circ> snd \<circ> snd) (quant_last_band nb fq fp C prio i f) (snd \<circ> snd) (last_agree A f)
    (unquant_last_band nb fq fp C prio i) (snd \<circ> snd) (last_agree A)"
proof -
  obtain v where v: "(idx fq i :: int go) = Ok v" "0 \<le> v" using counts_at [OF q(1) rg(1,3)] by blast
  obtain skip where sk: "(skip_band fq fp prio i :: (int \<times> bool) go) = Ok (v, skip)"
    using v(1) rg q(2) by (cases "v \<ge> maxFineBits") (auto simp: skip_band_def idx_Ok)
  show ?thesis
  proof (cases skip)
    case True
    have "coded kept 0 ((snd \<circ> snd \<circ> snd) f) s (snd \<circ> snd \<circ> snd) (Ok f) (snd \<circ> snd) (last_agree A f)
        (unquant_last_band nb fq fp C prio i) (snd \<circ> snd) (last_agree A)"
      by (rule whole.coded_return [where ex = "snd \<circ> snd \<circ> snd"]) (use st sk True in \<open>auto simp: unquant_last_band_def\<close>)
    then show ?thesis using sk True by (auto simp: quant_last_band_def intro: coded_weaken)
  next
    case False
    then have "quant_last_band nb fq fp C prio i = quant_last_chans nb v C i 0" "unquant_last_band nb fq fp C prio i = unquant_last_chans nb v C i 0"
      using sk by (auto simp: quant_last_band_def unquant_last_band_def)
    then show ?thesis using last_chans_coded [OF st v(2) f rg(1,2,4)] by simp
  qed
qed

lemma last_band_fits: "last_fits nb C st \<Longrightarrow> quant_last_band nb fq fp C' prio i st = Ok st' \<Longrightarrow> last_fits nb C st'"
  unfolding quant_last_band_def bnd_eq_Ok by (elim exE conjE) (auto split: if_splits elim: last_chans_fits [rotated])

lemma last_bands_coded:
  assumes st: "enc_st ((snd \<circ> snd \<circ> snd) f) s" "e_nbits_total ((snd \<circ> snd \<circ> snd) f) + int (25 * nat C * nat (stop - start)) < 4294967296"
    and q: "counts_ok stop fq" "stop \<le> len fp" and f: "last_fits nb C f" and rg: "0 \<le> start" "stop \<le> nb" "1 \<le> C"
  shows "coded kept (25 * nat C * nat (stop - start)) ((snd \<circ> snd \<circ> snd) f) s (snd \<circ> snd \<circ> snd)
    (quant_last_bands nb stop fq fp C prio start f) (snd \<circ> snd) (last_agree A f)
    (unquant_last_bands nb stop fq fp C prio start) (snd \<circ> snd) (last_agree A)"
proof (rule whole.coded_while [where I = "\<lambda>i f. 0 \<le> i \<and> last_fits nb C f" and Q = "\<lambda>i. last_agree A" and stop = stop
    and ce = "\<lambda>i f. C \<le> fst (snd (snd f))" and cd = "\<lambda>i y. C \<le> fst (snd y)"
    and F = "quant_last_bands nb stop fq fp C prio" and G = "unquant_last_bands nb stop fq fp C prio"
    and B = "quant_last_band nb fq fp C prio" and D = "unquant_last_band nb fq fp C prio"])
  show "coded kept (25 * nat C) ((snd \<circ> snd \<circ> snd) f) s (snd \<circ> snd \<circ> snd) (quant_last_band nb fq fp C prio i f) (snd \<circ> snd) (last_agree A f)
      (unquant_last_band nb fq fp C prio i) (snd \<circ> snd) (last_agree A)"
    if "i < stop" "C \<le> fst (snd (snd f))" "0 \<le> i \<and> last_fits nb C f" "enc_st ((snd \<circ> snd \<circ> snd) f) s"
      "e_nbits_total ((snd \<circ> snd \<circ> snd) f) + int (25 * nat C) < 4294967296" for i f s
    by (rule last_band_coded [OF that(4,5) q]) (use that(1-3) rg in simp_all)
  show "0 \<le> i + 1 \<and> last_fits nb C f'" if "0 \<le> i \<and> last_fits nb C f" "quant_last_band nb fq fp C prio i f = Ok f'" for i f f'
    using last_band_fits [OF conjunct2 [OF that(1)] that(2)] that(1) by simp
  show "quant_last_bands nb stop fq fp C prio i f = (if i < stop \<and> C \<le> fst (snd (snd f)) then bnd (quant_last_band nb fq fp C prio i f)
      (\<lambda>f. quant_last_bands nb stop fq fp C prio (i + 1) f) else Ok f)"
    "unquant_last_bands nb stop fq fp C prio i y = (if i < stop \<and> C \<le> fst (snd y) then bnd (unquant_last_band nb fq fp C prio i y)
      (\<lambda>y. unquant_last_bands nb stop fq fp C prio (i + 1) y) else Ok y)" for i f y
    by (subst quant_last_bands.simps unquant_last_bands.simps, simp)+
qed (use rg st f in \<open>auto simp: last_agree_def\<close>)

lemma last_bands_fits: "last_fits nb C st \<Longrightarrow> quant_last_bands nb stop fq fp C' prio i st = Ok st' \<Longrightarrow> last_fits nb C st'"
proof (induction "nat (stop - i)" arbitrary: i st rule: less_induct)
  case less
  show ?case
  proof (cases "i < stop \<and> C' \<le> fst (snd (snd st))")
    case True
    then obtain st1 where st1: "quant_last_band nb fq fp C' prio i st = Ok st1" "quant_last_bands nb stop fq fp C' prio (i + 1) st1 = Ok st'"
      using less.prems(2) unfolding quant_last_bands.simps [of nb stop fq fp C' prio i] if_P [OF True] bnd_eq_Ok by blast
    have "last_fits nb C st1"
      by (rule last_band_fits [OF less.prems(1) st1(1)])
    then show ?thesis using st1(2) True by (intro less.hyps [of "i + 1"]) simp_all
  next
    case False
    show ?thesis using less.prems unfolding quant_last_bands.simps [of nb stop fq fp C' prio i] if_not_P [OF False] by simp
  qed
qed

lemma finalise_coded:
  assumes st: "enc_st e s" "e_nbits_total e + int (50 * nat C * nat (stop - start)) < 4294967296"
    and q: "counts_ok stop fq" "stop \<le> len fp" and ln: "C * nb \<le> len oldE" "C * nb \<le> len er" and rg: "0 \<le> start" "stop \<le> nb" "1 \<le> C"
  shows "coded kept (50 * nat C * nat (stop - start)) e s (snd \<circ> snd) (quantEnergyFinalise nb start stop (Some oldE) er fq fp left e C) snd
    (\<lambda>y. agree A oldE (fst y)) (\<lambda>(oldD, d). unquantEnergyFinalise nb start stop (Some oldD) fq fp left d C) snd
    (\<lambda>x y. \<exists>l l'. fst x = Some l \<and> fst y = Some l' \<and> agree A l l')"
proof -
  define k where "k = 25 * nat C * nat (stop - start)"
  let ?f = "(Some oldE, er, left, e) :: last_bits"
  have f: "last_fits nb C ?f" using ln by (simp add: last_fits_def)
  have kk: "50 * nat C * nat (stop - start) = k + k" by (simp add: k_def)
  have st1: "enc_st ((snd \<circ> snd \<circ> snd) ?f) s" "e_nbits_total ((snd \<circ> snd \<circ> snd) ?f) + int k < 4294967296"
    using st unfolding kk by simp_all
  have second: "coded kept k ((snd \<circ> snd \<circ> snd) g) s1 (snd \<circ> snd \<circ> snd) (quant_last_bands nb stop fq fp C 1 start g) (snd \<circ> snd) (last_agree A g)
      (unquant_last_bands nb stop fq fp C 1 start) (snd \<circ> snd) (last_agree A)"
    if g: "quant_last_bands nb stop fq fp C 0 start ?f = Ok g" "enc_st ((snd \<circ> snd \<circ> snd) g) s1"
      "e_nbits_total ((snd \<circ> snd \<circ> snd) g) \<le> e_nbits_total ((snd \<circ> snd \<circ> snd) ?f) + int k" for g s1
  proof (rule last_bands_coded [where start = start and stop = stop and C = C, folded k_def, OF g(2) _ q last_bands_fits [OF f g(1)] rg])
    show "e_nbits_total ((snd \<circ> snd \<circ> snd) g) + int k < 4294967296" using g(3) st(2) unfolding kk by simp
  qed
  note c = whole.coded_bnd [OF last_bands_coded [where start = start and stop = stop and C = C and prio = 0 and A = A, folded k_def, OF st1 q f rg] second]
  show ?thesis unfolding kk
  proof (rule coded_conseq [OF c [unfolded comp_apply snd_conv], where p = "\<lambda>(oldD, d). (Some oldD, left, d)" and f = "\<lambda>(o', er, l, e). (o', er, e)"])
    fix x
    assume "bnd (quant_last_bands nb stop fq fp C 0 start ?f) (quant_last_bands nb stop fq fp C 1 start) = Ok x" "kept e (snd (snd (snd x)))"
    then show "quantEnergyFinalise nb start stop (Some oldE) er fq fp left e C = Ok (case x of (o', er, l, e) \<Rightarrow> (o', er, e))
        \<and> (snd \<circ> snd) (case x of (o', er, l, e) \<Rightarrow> (o', er, e)) = snd (snd (snd x)) \<and> kept e (snd (snd (snd x)))"
      by (auto simp: quantEnergyFinalise_def bnd_eq_Ok split: prod.splits)
  next
    fix S x y and y0 :: "i32 list \<times> Decoder"
    assume "agree A oldE (fst y0)"
    then show "last_agree A ?f (case y0 of (oldD, d) \<Rightarrow> (Some oldD, left, d)) \<and> snd (snd (case y0 of (oldD, d) \<Rightarrow> (Some oldD, left, d))) = snd y0
        \<and> (bnd (unquant_last_bands nb stop fq fp C 0 start (case y0 of (oldD, d) \<Rightarrow> (Some oldD, left, d))) (unquant_last_bands nb stop fq fp C 1 start) = Ok y
          \<longrightarrow> last_agree A x y \<longrightarrow> (\<exists>z. (case y0 of (oldD, d) \<Rightarrow> unquantEnergyFinalise nb start stop (Some oldD) fq fp left d C) = Ok z
            \<and> snd z = snd (snd y) \<and> (\<exists>l l'. fst (case x of (o', er, l, e) \<Rightarrow> (o', er, e)) = Some l \<and> fst z = Some l' \<and> agree A l l')))"
      by (cases y0; cases x; cases y) (auto simp: last_agree_def unquantEnergyFinalise_def bnd_eq_Ok)
  qed (assumption | rule order_refl)+
qed

end
