(* ===== verification/Quant_Props.thy ===== *)
theory Quant_Props
  imports Quant_Fine
begin

text \<open>
  The coded part of a frame: coarse, fine and last bits of the energies with the other symbols of the frame
  before, between and after them, on both sides.
\<close>

section \<open>Other symbols of a frame\<close>

lemma put_byte_kept: "put_byte e v = Ok e' \<Longrightarrow> kept e e'"
  by (auto simp: put_byte_def write_byte_def bnd_eq_Ok kept_def split: if_splits)

lemma put_ext_kept: "put_ext n v e = Ok e' \<Longrightarrow> kept e e'"
proof (induction n arbitrary: e)
  case (Suc n)
  then show ?case by (auto simp: bnd_eq_Ok kept_def dest!: put_byte_kept Suc.IH)
qed (simp add: kept_def)

lemma carry_out_kept: "enc_carry_out e c = Ok e' \<Longrightarrow> kept e e'"
  by (auto simp: enc_carry_out_def Let_def bnd_eq_Ok kept_def split: if_splits dest!: put_byte_kept put_ext_kept)

lemma normalize_loop_kept: "enc_normalize_loop n e = Ok e' \<Longrightarrow> kept e e'"
proof (induction n arbitrary: e)
  case (Suc n)
  then show ?case by (auto simp: bnd_eq_Ok kept_def split: if_splits dest!: carry_out_kept Suc.IH)
qed simp

lemma normalize_kept: "enc_normalize x = Ok e' \<Longrightarrow> e_storage e' = e_storage x"
  using normalize_loop_kept by (simp add: enc_normalize_def kept_def)

lemma symbol_kept:
  "Encode e fl fh ft = Ok e' \<Longrightarrow> kept e e'" "EncodeBin e fl fh bits = Ok e' \<Longrightarrow> kept e e'"
  "EncBitLogp e v logp = Ok e' \<Longrightarrow> kept e e'" "EncIcdf e s icdf ftb = Ok e' \<Longrightarrow> kept e e'"
  by (auto simp: Encode_def EncodeBin_def EncBitLogp_def EncIcdf_def bnd_eq_Ok Let_def kept_def split: if_splits dest!: normalize_kept)

lemma EncUint_kept: "EncUint e fl ft = Ok e' \<Longrightarrow> kept e e'"
  by (auto simp: EncUint_def Let_def bnd_eq_Ok split: if_splits dest!: symbol_kept(1) EncBits_kept intro: whole.K_trans)

lemma put_call_kept: "put_call sh v e = Ok e' \<Longrightarrow> kept e e'"
  by (cases sh) (auto dest: symbol_kept EncUint_kept EncBits_kept)

lemma write_all_kept: "write_all put_call proto past vs e = Ok e' \<Longrightarrow> kept e e'"
proof (induction vs arbitrary: past e)
  case (Cons v vs)
  then show ?case by (auto simp: bnd_eq_Ok dest!: put_call_kept Cons.IH intro: whole.K_trans)
qed (simp add: kept_def)


type_synonym symbols = "(int list \<Rightarrow> call) \<times> int list"

text \<open>
  The two sides of a frame: the encoder with the energies after the coarse stage, the energies, their
  errors and the delay of intra coding; the decoder with the values of the other symbols and the energies.
\<close>

type_synonym enc_side = "i32 list \<times> i32 list \<times> i32 list \<times> i32 \<times> Encoder"
type_synonym dec_side = "int list \<times> i32 list \<times> Decoder"

definition encoder :: "enc_side \<Rightarrow> Encoder" where
  "encoder = (\<lambda>(co, oldE, er, dI, e). e)"

definition decoder :: "dec_side \<Rightarrow> Decoder" where
  "decoder = (\<lambda>(vs, oldE, d). d)"

definition enc_symbols :: "symbols \<Rightarrow> enc_side \<Rightarrow> enc_side go" where
  "enc_symbols ss = (\<lambda>(co, oldE, er, dI, e). bnd (write_all put_call (fst ss) [] (snd ss) e) (\<lambda>e. Ok (co, oldE, er, dI, e)))"

definition dec_symbols :: "symbols \<Rightarrow> dec_side \<Rightarrow> dec_side go" where
  "dec_symbols ss = (\<lambda>(vs, oldE, d). bnd (read_all get_call (fst ss) [] (length (snd ss)) d) (\<lambda>(v, d). Ok (vs @ v, oldE, d)))"

text \<open>The relation of the two sides: \<open>A\<close> says that the energies are the same.\<close>

definition sides :: "bool \<Rightarrow> i32 list \<Rightarrow> int list \<Rightarrow> u32 \<Rightarrow> enc_side \<Rightarrow> dec_side \<Rightarrow> bool" where
  "sides A co vs w x y \<longleftrightarrow> fst x = co \<and> e_storage (encoder x) = w \<and> fst y = vs \<and> agree A (fst (snd x)) (fst (snd y))
     \<and> d_storage (decoder y) = w"

lemma symbols_coded:
  assumes ok: "all_ok call_ok (fst ss) [] (snd ss)" and st: "enc_st (encoder x) s"
    "e_nbits_total (encoder x) + int (49 * length (snd ss)) < 4294967296"
  shows "coded kept (49 * length (snd ss)) (encoder x) s encoder (enc_symbols ss x) decoder (sides A co vs w x)
    (dec_symbols ss) decoder (sides A co (vs @ snd ss) w)"
proof -
  obtain c oldE er dI e where x: "x = (c, oldE, er, dI, e)" by (cases x)
  have e: "encoder x = e" by (simp add: x encoder_def)
  have "coded kept (49 * length (snd ss)) e s id (write_all put_call (fst ss) [] (snd ss) e) id (\<lambda>_. True)
      (read_all get_call (fst ss) [] (length (snd ss))) snd (\<lambda>e' y. fst y = snd ss)"
    by (rule undoes_coded [OF calls.all_undo [OF ok] st [unfolded e]]) (rule write_all_kept)
  from coded_storage [OF this, of "\<lambda>v. v = w"] show ?thesis unfolding e
  proof (rule coded_conseq [where f = "\<lambda>e'. (c, oldE, er, dI, e')" and p = decoder])
    fix S y0 e' y
    assume s: "sides A co vs w x y0" and wr: "write_all put_call (fst ss) [] (snd ss) e = Ok e'"
    obtain v o' d where y0: "y0 = (v, o', d)" by (cases y0)
    have "e_storage e' = w" using s write_all_kept [OF wr] by (simp add: sides_def x encoder_def kept_def)
    then show "(True \<and> d_storage (id (decoder y0)) = w) \<and> id (decoder y0) = decoder y0 \<and> (read_all get_call (fst ss) [] (length (snd ss)) (decoder y0) = Ok y \<longrightarrow>
        fst y = snd ss \<and> d_storage (snd y) = w \<longrightarrow>
        (\<exists>z. dec_symbols ss y0 = Ok z \<and> decoder z = snd y \<and> sides A co (vs @ snd ss) w (c, oldE, er, dI, e') z))"
      using s by (cases y) (auto simp: sides_def y0 x decoder_def encoder_def dec_symbols_def)
  qed (simp_all add: x enc_symbols_def encoder_def)
qed

section \<open>The energies of a frame\<close>

record celt_frame =
  f_C :: int
  f_LM :: int
  f_n :: int
  f_start :: int
  f_stop :: int
  f_eff :: int
  f_eB :: "i32 list"
  f_err :: "i32 list"
  f_scr :: "i32 list"
  f_avail :: int
  f_force :: int
  f_two :: int
  f_loss :: int
  f_lfe :: int
  f_fine :: "int list"
  f_prio :: "int list"
  f_transient :: int
  f_pre :: symbols
  f_mid :: symbols
  f_late :: symbols

definition enc_coarse :: "celt_frame \<Rightarrow> enc_side \<Rightarrow> enc_side go" where
  "enc_coarse f = (\<lambda>(co, oldE, er, dI, e).
     bnd (quantCoarseEnergy (f_n f) (f_start f) (f_stop f) (f_eff f) (f_eB f) oldE (e_storage e * 8) er e (f_C f) (f_LM f)
       (f_avail f) (f_force f) dI (f_two f) (f_loss f) (f_lfe f) (f_scr f)) (\<lambda>(intra, oldE, er, dI, e).
     Ok (oldE, oldE, er, dI, e)))"

definition enc_fine :: "celt_frame \<Rightarrow> enc_side \<Rightarrow> enc_side go" where
  "enc_fine f = (\<lambda>(co, oldE, er, dI, e).
     bnd (quantFineEnergy (f_n f) (f_start f) (f_stop f) oldE er None (f_fine f) e (f_C f)) (\<lambda>(oldE, er, e). Ok (co, oldE, er, dI, e)))"

definition enc_last :: "celt_frame \<Rightarrow> enc_side \<Rightarrow> enc_side go" where
  "enc_last f = (\<lambda>(co, oldE, er, dI, e).
     bnd (quantEnergyFinalise (f_n f) (f_start f) (f_stop f) (Some oldE) er (f_fine f) (f_prio f) (uint (e_storage e) * 8 - Enc_Tell e) e (f_C f))
       (\<lambda>(o', er, e). Ok (co, the o', er, dI, e)))"

definition dec_coarse :: "celt_frame \<Rightarrow> dec_side \<Rightarrow> dec_side go" where
  "dec_coarse f = (\<lambda>(vs, oldE, d).
     bnd (decode_coarse (f_n f) (f_start f) (f_stop f) (uint (d_storage d) * 8) (f_C f) (f_LM f) (oldE, d)) (\<lambda>(intra, oldE, d). Ok (vs, oldE, d)))"

definition dec_fine :: "celt_frame \<Rightarrow> dec_side \<Rightarrow> dec_side go" where
  "dec_fine f = (\<lambda>(vs, oldE, d).
     bnd (unquantFineEnergy (f_n f) (f_start f) (f_stop f) oldE None (f_fine f) d (f_C f)) (\<lambda>(oldE, d). Ok (vs, oldE, d)))"

definition dec_last :: "celt_frame \<Rightarrow> dec_side \<Rightarrow> dec_side go" where
  "dec_last f = (\<lambda>(vs, oldE, d).
     bnd (unquantEnergyFinalise (f_n f) (f_start f) (f_stop f) (Some oldE) (f_fine f) (f_prio f) (uint (d_storage d) * 8 - Dec_Tell d) d (f_C f))
       (\<lambda>(o', d). Ok (vs, the o', d)))"

text \<open>What the frame asks of its parameters; \<open>below\<close> is the ceiling the decoder clamps the energies to.\<close>

definition frame_ok :: "celt_frame \<Rightarrow> bool" where
  "frame_ok f \<longleftrightarrow> 0 \<le> f_LM f \<and> f_LM f < 4 \<and> 0 \<le> f_start f \<and> f_start f \<le> f_stop f \<and> f_stop f \<le> f_n f \<and> 1 \<le> f_C f \<and> f_C f \<le> 2
     \<and> f_eff f \<le> f_n f \<and> f_n f \<le> 21 \<and> f_C f * f_n f \<le> len (f_eB f) \<and> f_C f * f_n f \<le> len (f_err f) \<and> len (f_scr f) = f_C f * f_n f
     \<and> counts_ok (f_stop f) (f_fine f) \<and> f_stop f \<le> len (f_prio f)
     \<and> (\<forall>ss\<in>{f_pre f, f_mid f, f_late f}. all_ok call_ok (fst ss) [] (snd ss) \<and> length (snd ss) < 1000000)"

definition below :: "celt_frame \<Rightarrow> i32 list \<Rightarrow> bool" where
  "below f co \<longleftrightarrow> list_all (\<lambda>v. sint v \<le> 469762048) (take (nat (f_C f * f_n f)) co)"


text \<open>The symbols before the coarse energies leave room for the intra flag.\<close>

definition room_for_coarse :: "celt_frame \<Rightarrow> bytes \<Rightarrow> bool" where
  "room_for_coarse f buf = (case write_all put_call (fst (f_pre f)) [] (snd (f_pre f)) (Enc_Init buf) of
     Ok e \<Rightarrow> Enc_Tell e + 20 \<le> 8 * len buf | _ \<Rightarrow> False)"

text \<open>Lengths.\<close>

lemma copy_prefix_length: "copy_prefix dst n src = Ok r \<Longrightarrow> length r = length dst"
  by (auto simp: copy_prefix_def bnd_eq_Ok slice_def split: if_splits)

lemma bndE: "bnd r g = Ok z \<Longrightarrow> (\<And>x. r = Ok x \<Longrightarrow> g x = Ok z \<Longrightarrow> P) \<Longrightarrow> P"
  by (auto simp: bnd_eq_Ok)

lemma inter_lengths:
  assumes "quant_inter n start stop eB oldE budget tell er st0 enc C LM md ib lfe two b1 old1 er1 = Ok (intra, o', er', e')"
    and rg: "0 \<le> start" "stop \<le> n" "1 \<le> C"
  shows "length o' = length oldE \<and> length er' = length er"
  using assms(1) unfolding quant_inter_def Let_def case_prod_beta
proof (elim bndE, goal_cases)
  case (1 t bits m pm x cost)
  obtain b2 o2 r2 e2 where x: "x = (b2, o2, r2, e2)" by (cases x)
  have "length o2 = length oldE \<and> length r2 = length er" using impl_shape [OF 1(5) [unfolded x] rg] by blast
  then show ?case using 1 by (auto simp: x elim!: bndE dest!: copy_prefix_length split: if_splits)
qed

lemma coarse_lengths:
  assumes "quantCoarseEnergy n start stop eff eB oldE budget er e C LM avail force dI two loss lfe scr = Ok (intra, o', er', dI', e')"
    and rg: "0 \<le> start" "stop \<le> n" "1 \<le> C"
  shows "length o' = length oldE \<and> length er' = length er"
  using assms(1) unfolding quantCoarseEnergy_def Let_def case_prod_beta
proof (elim bndE, goal_cases)
  case (1 bias nd old1 x y d)
  obtain i2 o2 r2 e2 where y: "y = (i2, o2, r2, e2)" by (cases y)
  have "length o2 = length oldE \<and> length r2 = length er"
    using 1(5) unfolding y by (auto elim!: bndE dest!: copy_prefix_length inter_lengths [OF _ rg] split: if_splits)
  then show ?case using 1 by (auto simp: y)
qed

lemma fine_bands_shape:
  "quant_fine_bands nb p extra C stop i st = Ok st' \<Longrightarrow> length (fst st') = length (fst st) \<and> length (fst (snd st')) = length (fst (snd st))"
proof (induction "nat (stop - i)" arbitrary: i st rule: less_induct)
  case less
  show ?case
  proof (cases "i < stop")
    case True
    then obtain st1 where "quant_fine_band nb p extra C i st = Ok st1" "quant_fine_bands nb p extra C stop (i + 1) st1 = Ok st'"
      using less.prems unfolding quant_fine_bands.simps [of nb p extra C stop i] by (auto simp: bnd_eq_Ok)
    with less.hyps [of "i + 1" st1] fine_band_shape [of nb p extra C i st st1] True show ?thesis by simp
  next
    case False
    then show ?thesis using less.prems by (simp add: quant_fine_bands.simps [of nb p extra C stop i])
  qed
qed

text \<open>The three energy stages in step.\<close>

lemma below_written:
  assumes "below f co" "C = f_C f" "n = f_n f" "0 \<le> start" "stop \<le> n" "1 \<le> C" "C * n \<le> len co" "p \<in> written n C start stop 0"
  shows "sint (co ! p) \<le> 469762048"
proof -
  have "p < nat (C * n)" by (rule written_below [OF assms(8,4-6)])
  moreover from this assms(7) have "p < length co" by linarith
  ultimately show ?thesis using assms(1) by (fastforce simp: below_def list_all_length assms(2,3))
qed

lemma coarse_stage:
  assumes ok: "frame_ok f" and st: "enc_st (encoder x) s" "e_nbits_total (encoder x) + 2000 < 4294967296"
    and ln: "f_C f * f_n f \<le> len (fst (snd x))" "f_C f * f_n f \<le> len (fst (snd (snd x)))"
    and w: "uint w < 268435456" "e_storage (encoder x) = w" "Enc_Tell (encoder x) + 20 \<le> 8 * uint w"
  shows "coded kept 2000 (encoder x) s encoder (enc_coarse f x) decoder (sides True co vs w x)
    (dec_coarse f) decoder (\<lambda>x y. sides (below f (fst x)) (fst x) vs w x y)"
proof -
  obtain c oldE er dI e where x: "x = (c, oldE, er, dI, e)" by (cases x)
  have e: "encoder x = e" by (simp add: x encoder_def)
  have f: "0 \<le> f_LM f" "f_LM f < 4" "0 \<le> f_start f" "f_start f \<le> f_stop f" "f_stop f \<le> f_n f" "1 \<le> f_C f" "f_C f \<le> 2" "f_eff f \<le> f_n f"
    "f_C f * f_n f \<le> len (f_eB f)" "len (f_scr f) = f_C f * f_n f" "f_n f \<le> 21"
    using ok by (simp_all add: frame_ok_def)
  define m where "m = 24 + 24 * nat (f_C f) * nat (f_stop f - f_start f)"
  have "f_C f * (f_stop f - f_start f) \<le> 2 * 21" using f by (intro mult_mono) simp_all
  then have m: "24 * f_C f * (f_stop f - f_start f) \<le> 1008" "int m = 24 + 24 * f_C f * (f_stop f - f_start f)" using f by (simp_all add: m_def)
  then have m2: "m \<le> 2000" by simp
  have sb: "sint (w * 8) = uint w * 8"
  proof -
    have "sint (word_of_int (uint w * 8) :: i32) = uint w * 8" using w(1) uint_ge_0 [of w] by (intro i32_of_int) linarith+
    moreover have "word_of_int (uint w * 8) = w * 8" by simp
    ultimately show ?thesis by (simp only:)
  qed
  have "coded fronted m e s (snd \<circ> snd \<circ> snd \<circ> snd)
      (quantCoarseEnergy (f_n f) (f_start f) (f_stop f) (f_eff f) (f_eB f) oldE (w * 8) er e (f_C f) (f_LM f) (f_avail f) (f_force f) dI (f_two f) (f_loss f) (f_lfe f) (f_scr f))
      snd (coarse_input (w * 8) oldE) (decode_coarse (f_n f) (f_start f) (f_stop f) (sint (w * 8)) (f_C f) (f_LM f)) (snd \<circ> snd)
      (\<lambda>x. coarse_output (written (f_n f) (f_C f) (f_start f) (f_stop f) 0) (fst x) (fst (snd x)))"
    unfolding m_def by (rule coarse_energy_coded) (use f st w ln m(1) sb in \<open>simp_all add: x e encoder_def\<close>)
  note c0 = this [unfolded sb]
  have fr: "e_storage e2 = e_storage e" if "quantCoarseEnergy (f_n f) (f_start f) (f_stop f) (f_eff f) (f_eB f) oldE (w * 8) er e (f_C f) (f_LM f)
        (f_avail f) (f_force f) dI (f_two f) (f_loss f) (f_lfe f) (f_scr f) = Ok (i2, o2, r2, d2, e2)" for i2 o2 r2 d2 e2
    using c0 that by (auto simp: coded_def fronted_def)
  note c1 = coded_storage [OF c0, of "\<lambda>v. v = w"]
  show ?thesis unfolding e
  proof (rule coded_conseq [OF c1, where f = "\<lambda>(i, o', er, dI, e). (o', o', er, dI, e)" and p = "\<lambda>(vs, o', d). (o', d)"])
    fix S y0 x' and y :: "int \<times> i32 list \<times> Decoder"
    assume s: "sides True co vs w x y0" and r: "quantCoarseEnergy (f_n f) (f_start f) (f_stop f) (f_eff f) (f_eB f) oldE (w * 8) er e (f_C f) (f_LM f)
        (f_avail f) (f_force f) dI (f_two f) (f_loss f) (f_lfe f) (f_scr f) = Ok x'"
    obtain i2 o2 r2 d2 e2 where x': "x' = (i2, o2, r2, d2, e2)" by (cases x')
    obtain i3 o3 d3 where y: "y = (i3, o3, d3)" by (cases y)
    obtain v o0 d0 where y0: "y0 = (v, o0, d0)" by (cases y0)
    have e2: "e_storage e2 = w" using fr [OF r [unfolded x']] w(2) by (simp add: e)
    have "length o2 = length oldE" using coarse_lengths [OF r [unfolded x']] f by simp
    then have "\<forall>p\<in>written (f_n f) (f_C f) (f_start f) (f_stop f) 0. sint (o2 ! p) \<le> 469762048" if "below f o2"
      using below_written [OF that refl refl] f ln(1) by (simp add: x)
    then have "agree (below f o2) o2 o3" if "coarse_output (written (f_n f) (f_C f) (f_start f) (f_stop f) 0) i2 o2 y"
      using that by (auto simp: coarse_output_def agree_def y)
    with s e2 show "(coarse_input (w * 8) oldE ((\<lambda>(vs, o', d). (o', d)) y0) \<and> d_storage (snd ((\<lambda>(vs, o', d). (o', d)) y0)) = w)
      \<and> snd ((\<lambda>(vs, o', d). (o', d)) y0) = decoder y0
      \<and> (decode_coarse (f_n f) (f_start f) (f_stop f) (uint w * 8) (f_C f) (f_LM f) ((\<lambda>(vs, o', d). (o', d)) y0) = Ok y \<longrightarrow>
         coarse_output (written (f_n f) (f_C f) (f_start f) (f_stop f) 0) (fst x') (fst (snd x')) y \<and> d_storage ((snd \<circ> snd) y) = w \<longrightarrow>
         (\<exists>z. dec_coarse f y0 = Ok z \<and> decoder z = (snd \<circ> snd) y
           \<and> sides (below f (fst ((\<lambda>(i, o', er, dI, e). (o', o', er, dI, e)) x'))) (fst ((\<lambda>(i, o', er, dI, e). (o', o', er, dI, e)) x')) vs w
              ((\<lambda>(i, o', er, dI, e). (o', o', er, dI, e)) x') z))"
      by (auto simp: sides_def y0 x' y x decoder_def encoder_def dec_coarse_def coarse_input_def agree_def)
  qed (use w(2) m2 in \<open>auto simp: x e enc_coarse_def encoder_def fronted_def kept_def split: prod.splits\<close>)
qed


lemma fine_stage:
  assumes ok: "frame_ok f" and st: "enc_st (encoder x) s" "e_nbits_total (encoder x) + 2000 < 4294967296"
    and ln: "f_C f * f_n f \<le> len (fst (snd x))" "f_C f * f_n f \<le> len (fst (snd (snd x)))" and w: "e_storage (encoder x) = w"
  shows "coded kept 2000 (encoder x) s encoder (enc_fine f x) decoder (sides A co vs w x) (dec_fine f) decoder (sides A co vs w)"
proof -
  obtain c oldE er dI e where x: "x = (c, oldE, er, dI, e)" by (cases x)
  have e: "encoder x = e" by (simp add: x encoder_def)
  have f: "0 \<le> f_start f" "f_start f \<le> f_stop f" "f_stop f \<le> f_n f" "1 \<le> f_C f" "f_C f \<le> 2" "f_n f \<le> 21" "counts_ok (f_stop f) (f_fine f)"
    using ok by (simp_all add: frame_ok_def)
  define m where "m = 25 * nat (f_C f) * nat (f_stop f - f_start f)"
  have "f_C f * (f_stop f - f_start f) \<le> 2 * 21" using f by (intro mult_mono) simp_all
  then have "int m \<le> 1050" using f by (simp add: m_def)
  then have m: "m \<le> 2000" "e_nbits_total e + int m < 4294967296" using st(2) by (simp_all add: e)
  have fits: "fine_fits (f_n f) (f_C f) (oldE, er, e)" using ln by (simp add: fine_fits_def x)
  have "coded kept m e s (snd \<circ> snd) (quantFineEnergy (f_n f) (f_start f) (f_stop f) oldE er None (f_fine f) e (f_C f)) snd
    (\<lambda>y. agree A oldE (fst y) \<and> d_storage (snd y) = e_storage e)
    (\<lambda>(oldD, d). unquantFineEnergy (f_n f) (f_start f) (f_stop f) oldD None (f_fine f) d (f_C f)) snd
    (\<lambda>x y. agree A (fst x) (fst y) \<and> d_storage (snd y) = e_storage e)"
    unfolding m_def by (rule fine_energy_coded [OF st(1) [unfolded e] m(2) [unfolded m_def] f(7) fits f(1,2,3,4)])
  then show ?thesis unfolding e
  proof (rule coded_conseq [where f = "\<lambda>(o', er, e). (c, o', er, dI, e)" and p = "\<lambda>(vs, o', d). (o', d)"])
    fix y assume "quantFineEnergy (f_n f) (f_start f) (f_stop f) oldE er None (f_fine f) e (f_C f) = Ok y" "kept e ((snd \<circ> snd) y)"
    then show "enc_fine f x = Ok ((\<lambda>(o', er, e). (c, o', er, dI, e)) y) \<and> encoder ((\<lambda>(o', er, e). (c, o', er, dI, e)) y) = (snd \<circ> snd) y \<and> kept e ((snd \<circ> snd) y)"
      by (auto simp: x enc_fine_def encoder_def split: prod.splits)
  next
    fix S y0 x' y
    assume s: "sides A co vs w x y0" and q: "quantFineEnergy (f_n f) (f_start f) (f_stop f) oldE er None (f_fine f) e (f_C f) = Ok x'"
    have "e_storage (snd (snd x')) = w"
      using codedE [OF fine_energy_coded [OF st(1) [unfolded e] m(2) [unfolded m_def] f(7) fits f(1,2,3,4)]] q w e by (metis comp_apply kept_def res.inject(1))
    then show "(agree A oldE (fst ((\<lambda>(vs, o', d). (o', d)) y0)) \<and> d_storage (snd ((\<lambda>(vs, o', d). (o', d)) y0)) = e_storage e)
      \<and> snd ((\<lambda>(vs, o', d). (o', d)) y0) = decoder y0
      \<and> ((\<lambda>(oldD, d). unquantFineEnergy (f_n f) (f_start f) (f_stop f) oldD None (f_fine f) d (f_C f)) ((\<lambda>(vs, o', d). (o', d)) y0) = Ok y \<longrightarrow>
        agree A (fst x') (fst y) \<and> d_storage (snd y) = e_storage e \<longrightarrow>
        (\<exists>z. dec_fine f y0 = Ok z \<and> decoder z = snd y \<and> sides A co vs w ((\<lambda>(o', er, e). (c, o', er, dI, e)) x') z))"
      using s w e by (cases y0; cases x'; cases y) (auto simp: sides_def x decoder_def encoder_def dec_fine_def)
  qed (rule m(1))
qed

lemma last_stage:
  assumes ok: "frame_ok f" and st: "enc_st (encoder x) s" "e_nbits_total (encoder x) + 3000 < 4294967296"
    and ln: "f_C f * f_n f \<le> len (fst (snd x))" "f_C f * f_n f \<le> len (fst (snd (snd x)))" and w: "e_storage (encoder x) = w"
  shows "coded kept 3000 (encoder x) s encoder (enc_last f x) decoder (sides A co vs w x) (dec_last f) decoder (sides A co vs w)"
proof -
  obtain c oldE er dI e where x: "x = (c, oldE, er, dI, e)" by (cases x)
  have e: "encoder x = e" by (simp add: x encoder_def)
  have f: "0 \<le> f_start f" "f_start f \<le> f_stop f" "f_stop f \<le> f_n f" "1 \<le> f_C f" "f_C f \<le> 2" "f_n f \<le> 21" "counts_ok (f_stop f) (f_fine f)"
     "f_stop f \<le> len (f_prio f)"
    using ok by (simp_all add: frame_ok_def)
  define m where "m = 50 * nat (f_C f) * nat (f_stop f - f_start f)"
  define left where "left = uint w * 8 - Enc_Tell e"
  have "f_C f * (f_stop f - f_start f) \<le> 2 * 21" using f by (intro mult_mono) simp_all
  then have "int m \<le> 2100" using f by (simp add: m_def)
  then have m: "m \<le> 3000" "e_nbits_total e + int m < 4294967296" using st(2) by (simp_all add: e)
  have c: "coded kept m e s (snd \<circ> snd) (quantEnergyFinalise (f_n f) (f_start f) (f_stop f) (Some oldE) er (f_fine f) (f_prio f) left e (f_C f)) snd
    (\<lambda>y. agree A oldE (fst y)) (\<lambda>(oldD, d). unquantEnergyFinalise (f_n f) (f_start f) (f_stop f) (Some oldD) (f_fine f) (f_prio f) left d (f_C f)) snd
    (\<lambda>x y. \<exists>l l'. fst x = Some l \<and> fst y = Some l' \<and> agree A l l')"
    unfolding m_def by (rule finalise_coded) (use st m f ln in \<open>simp_all add: x e m_def encoder_def\<close>)
  from coded_storage [OF c, of "\<lambda>v. v = w"] show ?thesis unfolding e
  proof (rule coded_conseq [where f = "\<lambda>(o', er, e). (c, the o', er, dI, e)" and p = "\<lambda>(vs, o', d). (o', d)"])
    fix y assume "quantEnergyFinalise (f_n f) (f_start f) (f_stop f) (Some oldE) er (f_fine f) (f_prio f) left e (f_C f) = Ok y" "kept e ((snd \<circ> snd) y)"
    then show "enc_last f x = Ok ((\<lambda>(o', er, e). (c, the o', er, dI, e)) y) \<and> encoder ((\<lambda>(o', er, e). (c, the o', er, dI, e)) y) = (snd \<circ> snd) y \<and> kept e ((snd \<circ> snd) y)"
      using w e by (cases y) (auto simp: x enc_last_def encoder_def left_def)
  next
    fix S y0 x' y
    assume s: "sides A co vs w x y0" and q: "quantEnergyFinalise (f_n f) (f_start f) (f_stop f) (Some oldE) er (f_fine f) (f_prio f) left e (f_C f) = Ok x'"
      and d: "dec_st (decoder y0) S s"
    have k: "e_storage (snd (snd x')) = w"
      using codedE [OF c] q w e by (metis comp_apply kept_def res.inject(1))
    have "uint (d_storage (decoder y0)) * 8 - Dec_Tell (decoder y0) = left"
      using s enc_st_Tell [OF st(1)] dec_st_Tell [OF d] w by (simp add: sides_def left_def e)
    then show "(agree A oldE (fst ((\<lambda>(vs, o', d). (o', d)) y0)) \<and> d_storage (snd ((\<lambda>(vs, o', d). (o', d)) y0)) = w)
      \<and> snd ((\<lambda>(vs, o', d). (o', d)) y0) = decoder y0
      \<and> ((\<lambda>(oldD, d). unquantEnergyFinalise (f_n f) (f_start f) (f_stop f) (Some oldD) (f_fine f) (f_prio f) left d (f_C f)) ((\<lambda>(vs, o', d). (o', d)) y0) = Ok y \<longrightarrow>
        (\<exists>l l'. fst x' = Some l \<and> fst y = Some l' \<and> agree A l l') \<and> d_storage (snd y) = w \<longrightarrow>
        (\<exists>z. dec_last f y0 = Ok z \<and> decoder z = snd y \<and> sides A co vs w ((\<lambda>(o', er, e). (c, the o', er, dI, e)) x') z))"
      using s w e k by (cases y0; cases x'; cases y) (auto simp: sides_def x decoder_def encoder_def dec_last_def)
  qed (rule m(1))
qed


text \<open>All the stages of a frame.\<close>

definition enc_rest :: "celt_frame \<Rightarrow> enc_side \<Rightarrow> enc_side go" where
  "enc_rest f x = bnd (enc_symbols (f_mid f) x) (\<lambda>x. bnd (enc_fine f x) (\<lambda>x. bnd (enc_symbols (f_late f) x) (enc_last f)))"

definition dec_rest :: "celt_frame \<Rightarrow> dec_side \<Rightarrow> dec_side go" where
  "dec_rest f y = bnd (dec_symbols (f_mid f) y) (\<lambda>y. bnd (dec_fine f y) (\<lambda>y. bnd (dec_symbols (f_late f) y) (dec_last f)))"

definition enc_stages :: "celt_frame \<Rightarrow> enc_side \<Rightarrow> enc_side go" where
  "enc_stages f x = bnd (enc_symbols (f_pre f) x) (\<lambda>x. bnd (enc_coarse f x) (enc_rest f))"

definition dec_stages :: "celt_frame \<Rightarrow> dec_side \<Rightarrow> dec_side go" where
  "dec_stages f y = bnd (dec_symbols (f_pre f) y) (\<lambda>y. bnd (dec_coarse f y) (dec_rest f))"

definition fitting :: "celt_frame \<Rightarrow> enc_side \<Rightarrow> bool" where
  "fitting f x \<longleftrightarrow> f_C f * f_n f \<le> len (fst (snd x)) \<and> f_C f * f_n f \<le> len (fst (snd (snd x)))"

lemma symbols_stage:
  assumes "frame_ok f" "ss \<in> {f_pre f, f_mid f, f_late f}" "enc_st (encoder x) s" "e_nbits_total (encoder x) + 49000000 < 4294967296"
  shows "coded kept 49000000 (encoder x) s encoder (enc_symbols ss x) decoder (sides A co vs w x)
    (dec_symbols ss) decoder (sides A co (vs @ snd ss) w)"
proof -
  have ss: "all_ok call_ok (fst ss) [] (snd ss)" "length (snd ss) < 1000000" using assms(1,2) by (auto simp: frame_ok_def)
  then have "e_nbits_total (encoder x) + int (49 * length (snd ss)) < 4294967296" using assms(4) by simp
  from symbols_coded [OF ss(1) assms(3) this] show ?thesis by (rule coded_weaken) (use ss(2) in simp)
qed

lemma symbols_same: "enc_symbols ss x = Ok x' \<Longrightarrow> fst x' = fst x \<and> fst (snd x') = fst (snd x) \<and> fst (snd (snd x')) = fst (snd (snd x))"
  by (cases x) (auto simp: enc_symbols_def bnd_eq_Ok)

lemma fine_same: "enc_fine f x = Ok x' \<Longrightarrow> fst x' = fst x \<and> length (fst (snd x')) = length (fst (snd x)) \<and> length (fst (snd (snd x'))) = length (fst (snd (snd x)))"
  by (cases x) (auto simp: enc_fine_def bnd_eq_Ok quantFineEnergy_def dest: fine_bands_shape)

lemma rest_coded:
  assumes ok: "frame_ok f" and st: "enc_st (encoder x) s" "e_nbits_total (encoder x) + 100000000 < 4294967296"
    and ln: "fitting f x" and w: "e_storage (encoder x) = w"
  shows "coded kept 98005000 (encoder x) s encoder (enc_rest f x) decoder (sides A co vs w x)
    (dec_rest f) decoder (sides A co ((vs @ snd (f_mid f)) @ snd (f_late f)) w)"
proof -
  have last: "coded kept 3000 (encoder x3) s3 encoder (enc_last f x3) decoder (sides A co us w x3) (dec_last f) decoder (sides A co us w)"
    if "fitting f x3" "enc_st (encoder x3) s3" "e_nbits_total (encoder x3) + 3000 < 4294967296" "e_storage (encoder x3) = w" for x3 s3 us
    using that by (intro last_stage [OF ok]) (simp_all add: fitting_def)
  have late: "coded kept (49000000 + 3000) (encoder x2) s2 encoder (bnd (enc_symbols (f_late f) x2) (enc_last f)) decoder (sides A co us w x2)
      (\<lambda>y. bnd (dec_symbols (f_late f) y) (dec_last f)) decoder (sides A co (us @ snd (f_late f)) w)"
    if a: "fitting f x2" "enc_st (encoder x2) s2" "e_nbits_total (encoder x2) + 49010000 < 4294967296" "e_storage (encoder x2) = w" for x2 s2 us
    by (rule whole.coded_bnd [OF symbols_stage [OF ok] last])
      (use a in \<open>auto simp: fitting_def kept_def dest!: symbols_same\<close>)
  have fine: "coded kept (2000 + (49000000 + 3000)) (encoder x1) s1 encoder (bnd (enc_fine f x1) (\<lambda>x. bnd (enc_symbols (f_late f) x) (enc_last f))) decoder (sides A co us w x1)
      (\<lambda>y. bnd (dec_fine f y) (\<lambda>y. bnd (dec_symbols (f_late f) y) (dec_last f))) decoder (sides A co (us @ snd (f_late f)) w)"
    if a: "fitting f x1" "enc_st (encoder x1) s1" "e_nbits_total (encoder x1) + 49020000 < 4294967296" "e_storage (encoder x1) = w" for x1 s1 us
    by (rule whole.coded_bnd [OF fine_stage [OF ok] late])
      (use a in \<open>auto simp: fitting_def kept_def dest!: fine_same\<close>)
  have "coded kept (49000000 + (2000 + (49000000 + 3000))) (encoder x) s encoder (enc_rest f x) decoder (sides A co vs w x)
    (\<lambda>y. bnd (dec_symbols (f_mid f) y) (\<lambda>y. bnd (dec_fine f y) (\<lambda>y. bnd (dec_symbols (f_late f) y) (dec_last f))))
    decoder (sides A co ((vs @ snd (f_mid f)) @ snd (f_late f)) w)"
    unfolding enc_rest_def
    by (rule whole.coded_bnd [OF symbols_stage [OF ok] fine])
      (use st ln w in \<open>auto simp: fitting_def kept_def dest!: symbols_same\<close>)
  then show ?thesis by (simp add: dec_rest_def [abs_def])
qed


lemma coarse_fitting: "frame_ok f \<Longrightarrow> enc_coarse f x = Ok x' \<Longrightarrow> fitting f x \<Longrightarrow> fitting f x'"
  by (cases x) (auto simp: enc_coarse_def bnd_eq_Ok fitting_def frame_ok_def dest!: coarse_lengths)

lemma last_fitting:
  assumes "enc_last f x = Ok x'" "fitting f x"
  shows "fitting f x'"
proof -
  obtain c oldE er dI e where x: "x = (c, oldE, er, dI, e)" by (cases x)
  define left where "left = uint (e_storage e) * 8 - Enc_Tell e"
  obtain st1 st2 where st: "quant_last_bands (f_n f) (f_stop f) (f_fine f) (f_prio f) (f_C f) 0 (f_start f) (Some oldE, er, left, e) = Ok st1"
    "quant_last_bands (f_n f) (f_stop f) (f_fine f) (f_prio f) (f_C f) 1 (f_start f) st1 = Ok st2"
    "x' = (c, the (fst st2), fst (snd st2), dI, snd (snd (snd st2)))"
    using assms(1) by (auto simp: x enc_last_def quantEnergyFinalise_def bnd_eq_Ok left_def split: prod.splits)
  have "last_fits (f_n f) (f_C f) (Some oldE, er, left, e)" using assms(2) by (simp add: fitting_def x last_fits_def)
  from last_bands_fits [OF last_bands_fits [OF this st(1)] st(2)] show ?thesis by (auto simp: st(3) fitting_def last_fits_def)
qed

lemma symbols_fitting: "enc_symbols ss x = Ok x' \<Longrightarrow> fitting f x \<Longrightarrow> fitting f x'"
  using symbols_same [of ss x x'] by (simp add: fitting_def)

lemma fine_fitting: "enc_fine f x = Ok x' \<Longrightarrow> fitting f x \<Longrightarrow> fitting f x'"
  using fine_same [of f x x'] by (simp add: fitting_def)

lemma rest_fitting: "frame_ok f \<Longrightarrow> enc_rest f x = Ok x' \<Longrightarrow> fitting f x \<Longrightarrow> fitting f x'"
  unfolding enc_rest_def by (elim bndE) (blast intro: last_fitting symbols_fitting fine_fitting)

lemma stages_fitting: "frame_ok f \<Longrightarrow> enc_stages f x = Ok x' \<Longrightarrow> fitting f x \<Longrightarrow> fitting f x'"
  unfolding enc_stages_def by (elim bndE) (blast intro: rest_fitting coarse_fitting symbols_fitting)

definition symbols_of :: "celt_frame \<Rightarrow> int list" where
  "symbols_of f = snd (f_pre f) @ snd (f_mid f) @ snd (f_late f)"

lemma stages_coded:
  assumes ok: "frame_ok f" and ln: "f_C f * f_n f \<le> len oldE" and buf: "len buf < 268435456" and room: "room_for_coarse f buf"
    and st: "enc_st (Enc_Init buf) s" and x0: "x0 = (oldE, oldE, f_err f, dI, Enc_Init buf)" and w: "w = e_storage (Enc_Init buf)"
  shows "coded kept 200000000 (Enc_Init buf) s encoder (enc_stages f x0) decoder (sides True oldE [] w x0) (dec_stages f) decoder
    (\<lambda>x y. sides (below f (fst x)) (fst x) (symbols_of f) w x y)"
proof -
  let ?vs = "snd (f_pre f)"
  have nb: "e_nbits_total (Enc_Init buf) = 33" by (simp add: Enc_Init_def ec_consts)
  have uw: "uint w = len buf" using buf by (simp add: w Enc_Init_def unsigned_of_nat take_bit_nat_eq_self)
  have e0: "encoder x0 = Enc_Init buf" by (simp add: x0 encoder_def)
  have fit: "fitting f x0" using ln ok by (simp add: x0 fitting_def frame_ok_def)
  have rest: "coded kept 98005000 (encoder x2) s2 encoder (enc_rest f x2) decoder (sides (below f (fst x2)) (fst x2) ?vs w x2)
      (dec_rest f) decoder (\<lambda>x y. sides (below f (fst x)) (fst x) (symbols_of f) w x y)"
    if "fitting f x2" "enc_st (encoder x2) s2" "e_nbits_total (encoder x2) + 100000000 < 4294967296" "e_storage (encoder x2) = w" for x2 s2
    by (rule coded_conseq [OF rest_coded [OF ok that(2,3,1,4)], where f = id and p = id])
      (auto simp: symbols_of_def, auto simp: sides_def)
  have coarse: "coded kept (2000 + 98005000) (encoder x1) s1 encoder (bnd (enc_coarse f x1) (enc_rest f)) decoder (sides True oldE ?vs w x1)
      (\<lambda>y. bnd (dec_coarse f y) (dec_rest f)) decoder (\<lambda>x y. sides (below f (fst x)) (fst x) (symbols_of f) w x y)"
    if a: "fitting f x1" "enc_st (encoder x1) s1" "e_nbits_total (encoder x1) + 120000000 < 4294967296" "e_storage (encoder x1) = w"
      "Enc_Tell (encoder x1) + 20 \<le> 8 * len buf" for x1 s1
  proof (rule whole.coded_bnd [OF coarse_stage [OF ok] rest])
    fix x2 s2
    assume "enc_coarse f x1 = Ok x2"
    then show "fitting f x2" by (rule coarse_fitting [OF ok _ a(1)])
  qed (use a buf uw in \<open>auto simp: fitting_def kept_def\<close>)
  have "Enc_Tell (encoder x1) + 20 \<le> 8 * len buf" if "enc_symbols (f_pre f) x0 = Ok x1" for x1
    using room that by (auto simp: room_for_coarse_def enc_symbols_def x0 encoder_def bnd_eq_Ok)
  then have "coded kept (49000000 + (2000 + 98005000)) (encoder x0) s encoder (enc_stages f x0) decoder (sides True oldE [] w x0)
    (\<lambda>y. bnd (dec_symbols (f_pre f) y) (\<lambda>y. bnd (dec_coarse f y) (dec_rest f))) decoder
    (\<lambda>x y. sides (below f (fst x)) (fst x) (symbols_of f) w x y)"
    unfolding enc_stages_def using symbols_stage [where ss = "f_pre f" and x = x0 and s = s and A = True and co = oldE and vs = "[]" and w = w, OF ok, simplified] st fit
    by (intro whole.coded_bnd [OF _ coarse]) (auto simp: e0 nb w [symmetric] fitting_def kept_def dest!: symbols_same)
  note c = this [unfolded e0, folded dec_stages_def]
  show ?thesis by (rule coded_weaken [OF c]) simp
qed

end
