(* ===== verification/Go_Loops.thy ===== *)
theory Go_Loops
  imports RC_Safety
begin

text \<open>
  Go's counting loops over a state, and how a loop that may panic is verified: an invariant kept by every turn.
  The reading of one symbol of a range-coded stream is stated in the same form.
\<close>

section \<open>Loops\<close>

primrec each :: "int list \<Rightarrow> (int \<Rightarrow> 's \<Rightarrow> ('e, 's) res) \<Rightarrow> 's \<Rightarrow> ('e, 's) res" where
  "each [] f s = Ok s"
| "each (i # is) f s = bnd (f i s) (each is f)"

text \<open>\<^verbatim>\<open>for i := a; i < b; i++\<close> and \<^verbatim>\<open>for i := n - 1; i >= 0; i--\<close>; the state is what the body assigns.\<close>

definition for_up :: "int \<Rightarrow> int \<Rightarrow> (int \<Rightarrow> 's \<Rightarrow> ('e, 's) res) \<Rightarrow> 's \<Rightarrow> ('e, 's) res" where
  "for_up a b f s = each [a..b - 1] f s"

definition for_down :: "int \<Rightarrow> (int \<Rightarrow> 's \<Rightarrow> ('e, 's) res) \<Rightarrow> 's \<Rightarrow> ('e, 's) res" where
  "for_down n f s = each (rev [0..n - 1]) f s"

lemma each_append: "each (is @ js) f s = bnd (each is f s) (each js f)"
proof (induction "is" arbitrary: s)
  case (Cons i "is")
  then show ?case by (cases "f i s") simp_all
qed simp

lemma each_cong: "(\<And>i s. i \<in> set is \<Longrightarrow> f i s = g i s) \<Longrightarrow> each is f s = each is g s"
  by (induction "is" arbitrary: s) (auto intro!: bnd_cong)

lemma for_up_cong: "(\<And>i s. a \<le> i \<Longrightarrow> i < b \<Longrightarrow> f i s = g i s) \<Longrightarrow> for_up a b f s = for_up a b g s"
  by (auto simp: for_up_def intro!: each_cong)

lemma for_up_done [simp]: "b \<le> a \<Longrightarrow> for_up a b f s = Ok s"
  by (simp add: for_up_def)

lemma for_up_step: "a < b \<Longrightarrow> for_up a b f s = bnd (f a s) (for_up (a + 1) b f)"
  unfolding for_up_def by (subst upto_rec1) (simp_all add: for_up_def)

lemma for_up_const:
  assumes "\<And>i. a \<le> i \<Longrightarrow> i < b \<Longrightarrow> f i s = Ok s"
  shows "for_up a b f s = Ok s"
  using assms
proof (induction "nat (b - a)" arbitrary: a)
  case (Suc n)
  then have "a < b" by simp
  then show ?case using Suc by (simp add: for_up_step)
qed simp

lemma for_up_last: "a \<le> b \<Longrightarrow> for_up a (b + 1) f s = bnd (for_up a b f s) (f b)"
proof -
  assume "a \<le> b"
  then have "[a..b] = [a..b - 1] @ [b]" by (rule upto_rec2)
  moreover have "each [b] f = f b" by (rule ext) (case_tac "f b x"; simp)
  ultimately show ?thesis by (simp add: for_up_def each_append)
qed

section \<open>What a loop guarantees\<close>

lemma sat_case_prod [simp]: "sat (case p of (x, y) \<Rightarrow> f x y) E Q = sat (f (fst p) (snd p)) E Q"
  by (simp add: case_prod_beta)

lemma sat_for_up:
  assumes "a \<le> b" "I a s" "\<And>i s. a \<le> i \<Longrightarrow> i < b \<Longrightarrow> I i s \<Longrightarrow> sat (f i s) E (I (i + 1))"
  shows "sat (for_up a b f s) E (I b)"
  using assms
proof (induction "nat (b - a)" arbitrary: a s)
  case (Suc n)
  then have "a < b" by simp
  have "sat (for_up (a + 1) b f s') E (I b)" if "I (a + 1) s'" for s'
    using Suc.hyps(2) that Suc.prems(3) \<open>a < b\<close> by (intro Suc.hyps(1)) auto
  moreover have "sat (f a s) E (I (a + 1))" using Suc.prems \<open>a < b\<close> by simp
  ultimately show ?case using \<open>a < b\<close> by (auto simp: for_up_step elim: sat_mono)
qed simp

lemma sat_for_down:
  assumes "0 \<le> n" "I n s" "\<And>i s. 0 \<le> i \<Longrightarrow> i < n \<Longrightarrow> I (i + 1) s \<Longrightarrow> sat (f i s) E (I i)"
  shows "sat (for_down n f s) E (I 0)"
  using assms
proof (induction "nat n" arbitrary: n s)
  case (Suc k)
  then have n: "0 < n" by simp
  then have "[0..n - 1] = [0..n - 2] @ [n - 1]" using upto_rec2 [of 0 "n - 1"] by simp
  moreover have "for_down (n - 1) f = each (rev [0..n - 2]) f" by (rule ext) (simp add: for_down_def)
  ultimately have step: "for_down n f s = bnd (f (n - 1) s) (for_down (n - 1) f)" for s by (simp add: for_down_def)
  have "sat (for_down (n - 1) f s') E (I 0)" if "I (n - 1) s'" for s'
    using Suc.hyps(2) that Suc.prems(3) n by (intro Suc.hyps(1)) auto
  moreover have "sat (f (n - 1) s) E (I (n - 1))" using Suc.prems(3) [of "n - 1" s] Suc.prems(2) n by simp
  ultimately show ?case unfolding step by (auto elim: sat_mono)
qed (simp add: for_down_def)

text \<open>The rules with the loop in the middle of a call: what follows may use the invariant at the end.\<close>

lemma sat_for_upI:
  assumes "a \<le> b" "I a s" "\<And>i s. a \<le> i \<Longrightarrow> i < b \<Longrightarrow> I i s \<Longrightarrow> sat (f i s) E (I (i + 1))" "\<And>s. I b s \<Longrightarrow> Q s"
  shows "sat (for_up a b f s) E Q"
  using sat_for_up [where I = I, OF assms(1-3)] assms(4) by (rule sat_mono)

lemma sat_for_downI:
  assumes "0 \<le> n" "I n s" "\<And>i s. 0 \<le> i \<Longrightarrow> i < n \<Longrightarrow> I (i + 1) s \<Longrightarrow> sat (f i s) E (I i)" "\<And>s. I 0 s \<Longrightarrow> Q s"
  shows "sat (for_down n f s) E Q"
  using sat_for_down [where I = I, OF assms(1-3)] assms(4) by (rule sat_mono)

section \<open>Reading a symbol\<close>

text \<open>
  A table may be the front of a longer one: the search stops at its first zero, at the latest at entry \<open>k\<close>.
\<close>

definition ends_at :: "bytes \<Rightarrow> int \<Rightarrow> bool" where
  "ends_at icdf k \<longleftrightarrow> 0 \<le> k \<and> k < len icdf \<and> icdf ! nat k = 0"

lemma icdf_search_take:
  "0 \<le> i \<Longrightarrow> icdf_search (take n icdf) r d s (i - 1) = Ok x \<Longrightarrow> icdf_search icdf r d s (i - 1) = (Ok x :: (int \<times> u32 \<times> u32) go)"
proof (induction "length icdf - nat i" arbitrary: i s rule: less_induct)
  case less
  from less.prems have i: "i < len (take n icdf)" "0 \<le> i"
    unfolding icdf_search.simps [of "take n icdf" r d s "i - 1"] by (auto simp: bnd_eq_Ok idx_eq_Ok)
  have g: "idx icdf i = Ok (icdf ! nat i)" "idx (take n icdf) i = Ok (icdf ! nat i)" using i by (auto simp: idx_def)
  have "length icdf - nat (i + 1) < length icdf - nat i" using i by simp
  note IH = less.hyps [OF this]
  show ?case using less.prems IH [of "r * ucast (icdf ! nat i)"]
    unfolding icdf_search.simps [of "take n icdf" r d s "i - 1"] icdf_search.simps [of icdf r d s "i - 1"]
    by (simp add: g Let_def split: if_splits)
qed

lemma DecIcdf_sat:
  assumes wf: "dec_wf S d" and e: "ends_at icdf k"
  shows "sat (DecIcdf d icdf 8) E (\<lambda>(v, d'). 0 \<le> v \<and> v \<le> k \<and> dec_wf S d')"
proof -
  let ?t = "take (Suc (nat k)) icdf"
  have k: "nat k < length icdf" "icdf ! nat k = 0" "0 \<le> k" using e by (auto simp: ends_at_def)
  then have "?t = take (nat k) icdf @ [0]" by (simp add: take_Suc_conv_app_nth)
  moreover have "list_all (\<lambda>f. uint f < 2 ^ unat (8 :: u32)) ?t" using uint_u8_lt by (simp add: list_all_iff)
  ultimately have "icdf_table ?t 8" by (simp add: icdf_table_def)
  from DecIcdf_total [OF wf this] obtain v d' where v: "DecIcdf d ?t 8 = Ok (v, d')" "0 \<le> v" "v < len ?t" "dec_wf S d'" by blast
  have "DecIcdf d icdf 8 = Ok (v, d')" using v(1) icdf_search_take [of 0 "Suc (nat k)" icdf]
    by (auto simp: DecIcdf_def Let_def bnd_eq_Ok)
  then show ?thesis using v k by simp
qed

lemma dec_symI:
  assumes "dec_wf S d" "ends_at icdf k" "\<And>v d'. 0 \<le> v \<Longrightarrow> v \<le> k \<Longrightarrow> dec_wf S d' \<Longrightarrow> Q (v, d')"
  shows "sat (DecIcdf d icdf 8) E Q"
  using DecIcdf_sat [OF assms(1,2)] by (rule sat_mono) (use assms(3) in auto)

end
