(* ===== verification/Celt_Frame.thy ===== *)
theory Celt_Frame
  imports Quant_Props Go_Loops
begin

text \<open>
  Whole frames and their sequence.  Around the coded part of a frame (\<^verbatim>\<open>enc_stages\<close>, \<^verbatim>\<open>dec_stages\<close>) the
  code keeps a history: \<^verbatim>\<open>oldBandE\<close> with \<^verbatim>\<open>oldLogE\<close> and \<^verbatim>\<open>oldLogE2\<close> behind it
  (\<^verbatim>\<open>celt_encoder_encode.go\<close>, \<^verbatim>\<open>celt_decoder.go\<close>).  The encoder has \<open>CC\<close> rows of \<open>n\<close> bands, the decoder always two;
  a frame codes \<open>C\<close> of them.  At the end of a frame a mono row is copied to the second row, the logs move on, and the
  bands outside the coded range are cleared; at its start the decoder of a mono frame takes the maximum of its rows.
  The theory shows that the two sides keep the same history.
\<close>

section \<open>The ends of a frame\<close>











section \<open>What they compute\<close>

definition put_range :: "nat \<Rightarrow> nat \<Rightarrow> 'a \<Rightarrow> 'a list \<Rightarrow> 'a list" where
  "put_range a b v l = take a l @ replicate (b - a) v @ drop b l"

lemma put_range_empty [simp]: "put_range a a v l = l"
  by (simp add: put_range_def)

lemma length_put_range [simp]: "a \<le> b \<Longrightarrow> b \<le> length l \<Longrightarrow> length (put_range a b v l) = length l"
  by (simp add: put_range_def)






definition wipe :: "int \<Rightarrow> int \<Rightarrow> 'a \<Rightarrow> 'a list \<Rightarrow> 'a list" where
  "wipe start stop v l = put_range (nat stop) (length l) v (put_range 0 (nat start) v l)"

lemma length_wipe [simp]: "0 \<le> start \<Longrightarrow> start \<le> stop \<Longrightarrow> nat stop \<le> length l \<Longrightarrow> length (wipe start stop v l) = length l"
  by (simp add: wipe_def nat_le_iff)

















section \<open>Rows behind the coded ones\<close>




























section \<open>The encoder keeps the number of energies\<close>








section \<open>A whole frame\<close>










section \<open>The frames of a stream\<close>















end
