(* ===== verification/Pvq_Table.thy ===== *)
theory Pvq_Table
  imports Cwrs
begin

text \<open>
  The numbers \<open>U(N,K)\<close> by their recurrence, and the proof that every entry of the table in
  \<open>Cwrs\<close> is one of them: the table is recomputed row by row.
\<close>

section \<open>The numbers U(N,K)\<close>

fun pvq_u :: "nat \<Rightarrow> nat \<Rightarrow> nat" where
  "pvq_u 0 0 = 1"
| "pvq_u 0 (Suc k) = 0"
| "pvq_u (Suc n) 0 = 0"
| "pvq_u (Suc n) (Suc k) = pvq_u n (Suc k) + pvq_u (Suc n) k + pvq_u n k"

definition pvq_v :: "nat \<Rightarrow> nat \<Rightarrow> nat" where
  "pvq_v n k = pvq_u n k + pvq_u n (Suc k)"

lemma pvq_u_sym: "pvq_u n k = pvq_u k n"
  by (induction n k rule: pvq_u.induct) simp_all

lemma pvq_u_0: "0 < n \<Longrightarrow> pvq_u n 0 = 0" "0 < k \<Longrightarrow> pvq_u 0 k = 0"
  by (cases n; simp) (cases k; simp)

lemma pvq_u_step: "pvq_u (Suc n) (Suc k) = pvq_u (Suc n) k + pvq_v n k"
  by (simp add: pvq_v_def)

lemma pvq_u_mono: "k \<le> k' \<Longrightarrow> pvq_u (Suc n) k \<le> pvq_u (Suc n) k'"
  by (induction k') (auto simp: le_Suc_eq pvq_u_step)

lemma pvq_u_1: "pvq_u 1 (Suc k) = 1"
proof (induction k)
  case (Suc k)
  have "pvq_u (Suc 0) (Suc (Suc k)) = pvq_u (Suc 0) (Suc k)" by (simp only: pvq_u.simps)
  then show ?case using Suc by simp
qed (simp add: eval_nat_numeral)

lemma pvq_u_2: "pvq_u 2 (Suc k) = 2 * k + 1"
proof (induction k)
  case (Suc k)
  have "pvq_u 2 (Suc (Suc k)) = pvq_u 1 (Suc (Suc k)) + pvq_u 2 (Suc k) + pvq_u 1 (Suc k)"
    by (simp only: numeral_2_eq_2 pvq_u.simps One_nat_def)
  then show ?case using Suc by (simp only: pvq_u_1) simp
qed (simp add: eval_nat_numeral)

text \<open>One row of the table from the row before, by the recurrence; row \<open>n\<close> begins at column \<open>n\<close>.\<close>

fun scan_row :: "int \<Rightarrow> int list \<Rightarrow> int list" where
  "scan_row x (p # q # ps) = (p + x + q) # scan_row (p + x + q) (q # ps)"
| "scan_row x _ = []"

fun next_row :: "int list \<Rightarrow> int list" where
  "next_row (p # q # ps) = (2 * q + p) # scan_row (2 * q + p) (q # ps)"
| "next_row _ = []"

fun is_row :: "nat \<Rightarrow> nat \<Rightarrow> int list \<Rightarrow> bool" where
  "is_row n k [] = True"
| "is_row n k (x # xs) = (x = int (pvq_u n k) \<and> is_row n (Suc k) xs)"

lemma is_row_nth: "is_row n k xs \<Longrightarrow> j < length xs \<Longrightarrow> xs ! j = int (pvq_u n (k + j))"
  by (induction n k xs arbitrary: j rule: is_row.induct) (auto simp: nth_Cons split: nat.splits)

lemma is_row_take: "is_row n k xs \<Longrightarrow> is_row n k (take m xs)"
  by (induction n k xs arbitrary: m rule: is_row.induct) (auto simp: take_Cons split: nat.splits)

lemma scan_row_is_row: "x = int (pvq_u (Suc n) k) \<Longrightarrow> is_row n k ps \<Longrightarrow> is_row (Suc n) (Suc k) (scan_row x ps)"
  proof (induction x ps arbitrary: k rule: scan_row.induct)
  case (1 x p q ps)
  have "p + x + q = int (pvq_u (Suc n) (Suc k))" using 1(2,3) by simp
  moreover from 1(1) [OF this] 1(3) have "is_row (Suc n) (Suc (Suc k)) (scan_row (p + x + q) (q # ps))" by simp
  ultimately show ?case by (simp del: pvq_u.simps)
qed simp_all

lemma next_row_is_row: "is_row n n ps \<Longrightarrow> is_row (Suc n) (Suc n) (next_row ps)"
proof (induction ps rule: next_row.induct)
  case (1 p q ps)
  have "int (pvq_u (Suc n) (Suc n)) = 2 * q + p" using 1 pvq_u_sym [of "Suc n" n] by simp
  moreover from this have "is_row (Suc n) (Suc (Suc n)) (scan_row (2 * q + p) (q # ps))"
    using 1 by (intro scan_row_is_row) simp_all
  ultimately show ?case by simp
qed simp_all

fun table_ok :: "int list \<Rightarrow> nat list \<Rightarrow> int list \<Rightarrow> bool" where
  "table_ok r [] tab = (tab = [])"
| "table_ok r (m # ms) tab = (m \<le> length r \<and> take m tab = take m r \<and> m \<le> length tab \<and> table_ok (next_row (take m r)) ms (drop m tab))"

lemma table_ok_nth:
  "table_ok r ms tab \<Longrightarrow> is_row n n r \<Longrightarrow> i < length ms \<Longrightarrow> j < ms ! i \<Longrightarrow>
   sum_list (take i ms) + j < length tab \<and> tab ! (sum_list (take i ms) + j) = int (pvq_u (n + i) (n + i + j))"
proof (induction r ms tab arbitrary: n i rule: table_ok.induct)
  case (2 r m ms tab)
  show ?case
  proof (cases i)
    case 0
    then have j: "j < m" using 2 by simp
    then have "tab ! j = take m tab ! j" by simp
    also have "\<dots> = int (pvq_u n (n + j))" using 2 j by (simp add: is_row_nth)
    finally show ?thesis using 2 0 j by simp
  next
    case (Suc i')
    have "is_row (Suc n) (Suc n) (next_row (take m r))" using 2 by (intro next_row_is_row is_row_take) simp
    then have "sum_list (take i' ms) + j < length (drop m tab)
        \<and> drop m tab ! (sum_list (take i' ms) + j) = int (pvq_u (Suc n + i') (Suc n + i' + j))"
      using 2 Suc by (intro 2(1)) simp_all
    then show ?thesis using Suc 2(2) by (auto simp: add.assoc simp del: pvq_u.simps)
  qed
qed simp

definition pvq_lens :: "nat list" where
  "pvq_lens = [177, 176, 175, 174, 173, 172, 91, 48, 30, 20, 15, 9, 7, 4, 1]"


lemma replicate_numeral: "replicate (numeral k) x = x # replicate (pred_numeral k) x"
  by (simp add: numeral_eq_Suc)

lemma table_checked: "table_ok (1 # replicate 176 0) pvq_lens (map uint celtPVQUData)"
  by (simp add: celtPVQUData_def pvq_lens_def replicate_numeral)

lemma offsets_checked: "list_all (\<lambda>i. celtPVQURowOffset ! i = int (sum_list (take i pvq_lens)) - int i) [0..<15]"
  by (simp add: celtPVQURowOffset_def pvq_lens_def upt_rec)

end
