(* ===== verification/Pvq_Decode.thy ===== *)
theory Pvq_Decode
  imports Pvq_Table Fixedmath_Props
begin

text \<open>
  \<^verbatim>\<open>cwrsi\<close> is correct: the accesses it makes stay in the part of the table that holds \<open>U(N,K)\<close>, every
  round takes the first pulse off the index, and the vector it writes is the one with that rank in
  the order of the codebook.
\<close>

text \<open>The end of each row: every column below it is in the table.\<close>

definition pvq_ends :: "nat list" where
  "pvq_ends = [177, 177, 177, 177, 177, 177, 97, 55, 38, 29, 25, 20, 19, 17, 15]"

definition tab_ok :: "nat \<Rightarrow> nat \<Rightarrow> bool" where
  "tab_ok n k \<longleftrightarrow> min n k < 15 \<and> max n k < pvq_ends ! min n k"

lemma ends_checked:
  "list_all (\<lambda>i. pvq_ends ! i = i + pvq_lens ! i) [0..<15]"
  "list_all (\<lambda>i. list_all (\<lambda>j. pvq_ends ! i \<le> pvq_ends ! j) [0..<i]) [0..<15]"
  by (simp_all add: pvq_ends_def pvq_lens_def upt_rec)

lemma pvq_ends_mono: "j \<le> i \<Longrightarrow> i < 15 \<Longrightarrow> pvq_ends ! i \<le> pvq_ends ! j"
  using ends_checked(2) by (cases "j = i") (auto simp: list_all_iff)

lemma tab_ok_mono:
  assumes "tab_ok n k" "n' \<le> n" "k' \<le> k"
  shows "tab_ok n' k'"
proof -
  have m: "min n' k' \<le> min n k" "max n' k' \<le> max n k" using assms(2,3) by auto
  then have "pvq_ends ! min n k \<le> pvq_ends ! min n' k'" using assms(1) by (intro pvq_ends_mono) (simp_all add: tab_ok_def)
  with m assms(1) show ?thesis unfolding tab_ok_def by linarith
qed

lemma tab_small: "tab_ok n k \<Longrightarrow> n < 177 \<and> k < 177"
proof -
  assume t: "tab_ok n k"
  then have "pvq_ends ! min n k \<le> pvq_ends ! 0" by (intro pvq_ends_mono) (simp_all add: tab_ok_def)
  then have "max n k < 177" using t by (simp add: tab_ok_def pvq_ends_def)
  then show ?thesis by simp
qed

lemma tab_ok_sym: "tab_ok n k = tab_ok k n"
  by (simp add: tab_ok_def min.commute max.commute)

lemma data_at:
  assumes "tab_ok lo hi" "lo \<le> hi"
  shows "lo < 15" "\<exists>u. idx celtPVQUData (celtPVQURowOffset ! lo + int hi) = (Ok u :: u32 go) \<and> uint u = int (pvq_u lo hi)"
    "celtPVQURowOffset ! lo \<ge> 0" "celtPVQURowOffset ! lo + int hi < len celtPVQUData"
proof -
  have lo: "lo < 15" "hi < pvq_ends ! lo" using assms by (simp_all add: tab_ok_def)
  then show "lo < 15" by simp
  have e: "pvq_ends ! lo = lo + pvq_lens ! lo" using ends_checked(1) lo(1) by (simp add: list_all_iff)
  have off: "celtPVQURowOffset ! lo = int (sum_list (take lo pvq_lens)) - int lo"
    using offsets_checked lo(1) by (simp add: list_all_iff)
  have "\<forall>i \<in> set [0..<15]. i \<le> sum_list (take i pvq_lens)" by (simp add: pvq_lens_def upt_rec)
  then show "celtPVQURowOffset ! lo \<ge> 0" using lo(1) off by simp
  have l: "lo < length pvq_lens" using lo(1) by (simp add: pvq_lens_def)
  have r0: "is_row 0 0 (1 # replicate 176 0)"
  proof -
    have "is_row 0 (Suc k) (replicate m 0)" for k m by (induction m arbitrary: k) simp_all
    then show ?thesis by simp
  qed
  have j: "hi - lo < pvq_lens ! lo" using lo(2) e assms(2) by linarith
  let ?i = "sum_list (take lo pvq_lens) + (hi - lo)"
  have t: "?i < length (map uint celtPVQUData)" "map uint celtPVQUData ! ?i = int (pvq_u (0 + lo) (0 + lo + (hi - lo)))"
    using table_ok_nth [OF table_checked r0 l j] by blast+
  have i: "celtPVQURowOffset ! lo + int hi = int ?i" using off assms(2) by simp
  then show "celtPVQURowOffset ! lo + int hi < len celtPVQUData" using t(1) by simp
  have "uint (celtPVQUData ! ?i) = int (pvq_u lo hi)" using t assms(2) by simp
  then show "\<exists>u. idx celtPVQUData (celtPVQURowOffset ! lo + int hi) = (Ok u :: u32 go) \<and> uint u = int (pvq_u lo hi)"
    unfolding i using t(1) by (simp add: idx_def del: of_nat_add)
qed

lemma row_at: "lo < 15 \<Longrightarrow> idx celtPVQURowOffset (int lo) = Ok (celtPVQURowOffset ! lo)"
  by (simp add: idx_def celtPVQURowOffset_def)

lemma celtPVQU_ok:
  assumes "tab_ok n k"
  shows "\<exists>u. celtPVQU (int n) (int k) = Ok u \<and> uint u = int (pvq_u n k)"
proof (cases "k < n")
  case True
  from data_at [OF tab_ok_sym [THEN iffD1, OF assms]] True show ?thesis
    by (auto simp: celtPVQU_def row_at pvq_u_sym [of n k])
next
  case False
  from data_at [OF assms] False show ?thesis by (auto simp: celtPVQU_def row_at)
qed

lemma pvqUAt_ok:
  assumes "tab_ok n k" "k \<le> n"
  shows "\<exists>u. pvqUAt (int k) (int n) = Ok u \<and> uint u = int (pvq_u n k)"
  using data_at [OF tab_ok_sym [THEN iffD1, OF assms(1)] assms(2)]
  by (auto simp: pvqUAt_def row_at pvq_u_sym [of n k])

lemma pvqURow_ok:
  assumes "tab_ok n k" "n \<le> k"
  shows "\<exists>r. pvqURow (int n) = Ok r \<and> (\<forall>j. n \<le> j \<longrightarrow> j \<le> k \<longrightarrow> (\<exists>u. idx r (int j) = (Ok u :: u32 go) \<and> uint u = int (pvq_u n j)))"
proof -
  note d = data_at [OF assms]
  have o: "nat (celtPVQURowOffset ! n) \<le> length celtPVQUData" using d(3,4) by linarith
  have "pvqURow (int n) = Ok (drop (nat (celtPVQURowOffset ! n)) celtPVQUData)"
    using d(1,3) o by (simp add: pvqURow_def row_at slice_from_eq_Ok) 
  moreover have "\<exists>u. idx (drop (nat (celtPVQURowOffset ! n)) celtPVQUData) (int j) = (Ok u :: u32 go) \<and> uint u = int (pvq_u n j)"
    if "n \<le> j" "j \<le> k" for j
  proof -
    have "tab_ok n j" using tab_ok_mono [OF assms(1)] that by blast
    note e = data_at [OF this that(1)]
    obtain u where u: "idx celtPVQUData (celtPVQURowOffset ! n + int j) = (Ok u :: u32 go)" "uint u = int (pvq_u n j)" using e(2) by blast
    have "idx (drop (nat (celtPVQURowOffset ! n)) celtPVQUData) (int j) = (Ok u :: u32 go)"
      using u(1) e(3,4) by (auto simp: idx_def nat_add_distrib split: if_splits)
    with u(2) show ?thesis by blast
  qed
  ultimately show ?thesis by blast
qed

lemma u32_pvq: "uint (u :: u32) = int m \<Longrightarrow> u = word_of_nat m"
  by (metis of_int_of_nat_eq word_of_int_uint)

section \<open>The order of the pulse vectors\<close>

definition pulses :: "int list \<Rightarrow> nat" where
  "pulses ys = sum_list (map (\<lambda>y. nat \<bar>y\<bar>) ys)"

lemma pulses_simps [simp]: "pulses [] = 0" "pulses (y # ys) = nat \<bar>y\<bar> + pulses ys"
  by (simp_all add: pulses_def)

fun pvq_rank :: "int list \<Rightarrow> nat" where
  "pvq_rank [] = 0"
| "pvq_rank (y # ys) = pvq_rank ys + pvq_u (Suc (length ys)) (pulses ys)
     + (if y < 0 then pvq_u (Suc (length ys)) (Suc (pulses (y # ys))) else 0)"

declare pvq_u.simps [simp del]

text \<open>The first pulse \<open>y\<close> and the rest: the rank lies in the part of the codebook given by \<open>y\<close>.\<close>

lemma rank_first:
  assumes "pvq_rank ys < pvq_v (length ys) (pulses ys)"
  shows "pvq_u (Suc (length ys)) (pulses ys) \<le> pvq_rank ys + pvq_u (Suc (length ys)) (pulses ys)"
    "pvq_rank ys + pvq_u (Suc (length ys)) (pulses ys) < pvq_u (Suc (length ys)) (Suc (pulses ys))"
  using assms by (simp_all add: pvq_u_step)

lemma rank_bound: "pvq_rank ys < pvq_v (length ys) (pulses ys)"
proof (induction ys)
  case Nil
  then show ?case by (simp add: pvq_v_def pvq_u.simps)
next
  case (Cons y ys)
  let ?n = "Suc (length ys)" let ?k = "pulses (y # ys)"
  note f = rank_first [OF Cons]
  show ?case
  proof (cases "y < 0")
    case True
    then have "Suc (pulses ys) \<le> ?k" by simp
    then have "pvq_u ?n (Suc (pulses ys)) \<le> pvq_u ?n ?k" by (rule pvq_u_mono)
    then have "pvq_rank ys + pvq_u ?n (pulses ys) < pvq_u ?n ?k" using f(2) by linarith
    then show ?thesis using True by (simp only: pvq_rank.simps pvq_v_def if_True length_Cons)
  next
    case False
    have "pvq_u ?n (Suc (pulses ys)) \<le> pvq_u ?n (Suc ?k)" by (rule pvq_u_mono) simp
    then have "pvq_rank ys + pvq_u ?n (pulses ys) < pvq_u ?n (Suc ?k)" using f(2) by linarith
    then show ?thesis using False by (simp only: pvq_rank.simps pvq_v_def if_False length_Cons)
  qed
qed

lemma level_unique:
  assumes "pvq_u (Suc n) k \<le> i" "i < pvq_u (Suc n) (Suc k)" "pvq_u (Suc n) k' \<le> i" "i < pvq_u (Suc n) (Suc k')"
  shows "k = k'"
proof (rule ccontr)
  assume "k \<noteq> k'"
  then have "Suc k \<le> k' \<or> Suc k' \<le> k" by linarith
  then show False
    using pvq_u_mono [of "Suc k" k' n] pvq_u_mono [of "Suc k'" k n] assms by linarith
qed

lemma rank_inj:
  "length xs = length ys \<Longrightarrow> pulses xs = pulses ys \<Longrightarrow> pvq_rank xs = pvq_rank ys \<Longrightarrow> xs = ys"
proof (induction xs ys rule: list_induct2')
  case (4 x xs y ys)
  let ?n = "Suc (length ys)" let ?k = "pulses (y # ys)"
  have l: "length xs = length ys" using 4 by simp
  have fx: "pvq_rank xs + pvq_u ?n (pulses xs) < pvq_u ?n (Suc (pulses xs))"
    and fy: "pvq_rank ys + pvq_u ?n (pulses ys) < pvq_u ?n (Suc (pulses ys))"
    using rank_first(2) [OF rank_bound, of xs] rank_first(2) [OF rank_bound, of ys] l by simp_all
  have bx: "pvq_rank xs + pvq_u ?n (pulses xs) < pvq_u ?n (Suc ?k)"
    using fx pvq_u_mono [of "Suc (pulses xs)" "Suc ?k" "length ys"] 4(3) by simp
  have byy: "pvq_rank ys + pvq_u ?n (pulses ys) < pvq_u ?n (Suc ?k)"
    using fy pvq_u_mono [of "Suc (pulses ys)" "Suc ?k" "length ys"] by simp
  have e: "pvq_rank xs + pvq_u ?n (pulses xs) + (if x < 0 then pvq_u ?n (Suc ?k) else 0)
      = pvq_rank ys + pvq_u ?n (pulses ys) + (if y < 0 then pvq_u ?n (Suc ?k) else 0)"
    using 4(4) unfolding pvq_rank.simps l 4(3) .
  then have s: "x < 0 \<longleftrightarrow> y < 0" using bx byy by (auto split: if_splits)
  then have r: "pvq_rank xs + pvq_u ?n (pulses xs) = pvq_rank ys + pvq_u ?n (pulses ys)" using e by (simp split: if_splits)
  have k: "pulses xs = pulses ys"
    using level_unique [of "length ys" "pulses xs" "pvq_rank xs + pvq_u ?n (pulses xs)" "pulses ys"] fx fy r by simp
  then have "xs = ys" using 4(1) l r by simp
  moreover have "x = y" using 4(3) k s by auto
  ultimately show ?case by simp
qed simp_all

section \<open>One dimension of the decoder\<close>

text \<open>The first pulse \<open>v\<close> of index \<open>i\<close> with \<open>k\<close> pulses, \<open>k'\<close> of them in the rest, whose index is \<open>i'\<close>.\<close>

definition digit :: "nat \<Rightarrow> nat \<Rightarrow> nat \<Rightarrow> int \<Rightarrow> nat \<Rightarrow> nat \<Rightarrow> bool" where
  "digit n k i v k' i' \<longleftrightarrow> k = nat \<bar>v\<bar> + k' \<and> i' < pvq_v n k'
     \<and> i = i' + pvq_u (Suc n) k' + (if v < 0 then pvq_u (Suc n) (Suc k) else 0)"

lemma digit_rank:
  assumes "digit (length ys) k i v (pulses ys) (pvq_rank ys)"
  shows "pulses (v # ys) = k" "pvq_rank (v # ys) = i"
  using assms by (auto simp: digit_def)

lemma digitI:
  assumes "pvq_u (Suc n) k' \<le> r" "r < pvq_u (Suc n) (Suc k')" "k' \<le> k"
    "i = r + (if neg then pvq_u (Suc n) (Suc k) else 0)" "neg \<Longrightarrow> r < pvq_u (Suc n) k"
  shows "digit n k i (if neg then - int (k - k') else int (k - k')) k' (r - pvq_u (Suc n) k')"
proof -
  have "r - pvq_u (Suc n) k' < pvq_v n k'" using assms(1,2) by (simp add: pvq_u_step )
  moreover have "neg \<Longrightarrow> k' < k"
  proof -
    assume neg
    then have "pvq_u (Suc n) k' < pvq_u (Suc n) k" using assms(1,5) by linarith
    then show "k' < k" using pvq_u_mono [of k k' n] by (meson leD le_less_linear)
  qed
  ultimately show ?thesis using assms(1,3,4) by (auto simp: digit_def)
qed

lemma pulse_value:
  assumes "m < 32768"
  shows "(scast (word_of_int ((int m + 0) XOR 0) :: i16) :: i32) = word_of_int (int m)"
    "(scast (word_of_int ((int m + - 1) XOR - 1) :: i16) :: i32) = word_of_int (- int m)"
proof -
  have x: "(int m + - 1) XOR - 1 = - int m" by (simp add: not_int_def)
  show "(scast (word_of_int ((int m + 0) XOR 0) :: i16) :: i32) = word_of_int (int m)"
    "(scast (word_of_int ((int m + - 1) XOR - 1) :: i16) :: i32) = word_of_int (- int m)"
    unfolding x scast_eq using assms by (simp_all add: i16_of_int del: of_int_of_nat_eq of_int_minus)
qed

text \<open>The pulse with the sign mask of \<open>neg\<close>.\<close>

definition signed_pulse :: "bool \<Rightarrow> nat \<Rightarrow> int" where
  "signed_pulse neg m = (if neg then - int m else int m)"

lemma put_pulse_ok:
  assumes "m < 32768" "j < length y"
  shows "put_pulse (int m) (- b2i neg) (int j) y yy = Ok (y[j := word_of_int (signed_pulse neg m)], yy + word_of_int (signed_pulse neg m * signed_pulse neg m))"
proof -
  let ?v = "word_of_int ((int m + - b2i neg) XOR - b2i neg) :: i16"
  have v: "scast ?v = (word_of_int (signed_pulse neg m) :: i32)"
    using pulse_value [OF assms(1)] by (cases neg) (simp_all add: b2i_def signed_pulse_def)
  show ?thesis using assms(2)
    unfolding put_pulse_def Let_def upd_def MAC16_16_def ADD32_def MULT16_16_def v of_int_mult by simp
qed

lemma sign_mask:
  assumes "uint p = int P" "uint (i :: u32) = int I"
  shows "uint (i - (p AND word_of_int (- b2i (i \<ge> p)))) = int (if P \<le> I then I - P else I)"
proof (cases "P \<le> I")
  case True
  then have "p \<le> i" using assms by (simp add: u32_le)
  then show ?thesis using True assms by (simp add: b2i_def u32_sub of_nat_diff)
next
  case False
  then have "\<not> p \<le> i" using assms by (simp add: u32_le)
  then show ?thesis using False assms by (simp add: b2i_def)
qed

lemma pvq_down_ok:
  assumes "tab_ok n k" "k \<le> n" "0 < n" "uint i = int I" "I < pvq_u n k"
  shows "\<exists>k' p. pvq_down (int n) (int k) i = Ok (int k', p) \<and> k' < k \<and> uint p = int (pvq_u n k')
    \<and> pvq_u n k' \<le> I \<and> I < pvq_u n (Suc k')"
  using assms
proof (induction k)
  case 0
  then show ?case by (simp add: pvq_u_0)
next
  case (Suc k)
  have t: "tab_ok n k" "k \<le> n" using tab_ok_mono [OF Suc.prems(1)] Suc.prems(2) by simp_all
  obtain u where u: "pvqUAt (int k) (int n) = Ok u" "uint u = int (pvq_u n k)" using pvqUAt_ok [OF t] by blast
  have step: "pvq_down (int n) (int (Suc k)) i = (if u \<le> i then Ok (int k, u) else pvq_down (int n) (int k) i)"
  proof -
    obtain off where off: "idx celtPVQURowOffset (int k) = (Ok off :: int go)" "idx celtPVQUData (off + int n) = (Ok u :: u32 go)"
      using u(1) by (auto simp: pvqUAt_def bnd_eq_Ok)
    show ?thesis by (subst pvq_down.simps) (simp add: off)
  qed
  show ?case
  proof (cases "pvq_u n k \<le> I")
    case True
    then have "u \<le> i" using u(2) Suc.prems(4) by (simp add: u32_le)
    then show ?thesis using step u(2) True Suc.prems(5) by (intro exI [of _ k] exI [of _ u]) simp
  next
    case False
    then have n: "\<not> u \<le> i" using u(2) Suc.prems(4) by (simp add: u32_le)
    obtain k' p where "pvq_down (int n) (int k) i = Ok (int k', p) \<and> k' < k \<and> uint p = int (pvq_u n k')
        \<and> pvq_u n k' \<le> I \<and> I < pvq_u n (Suc k')"
      using Suc.IH [OF t Suc.prems(3,4)] False by auto
    then show ?thesis using step n by (intro exI [of _ k'] exI [of _ p]) simp
  qed
qed

lemma pvq_along_ok:
  assumes "n \<le> k" "\<forall>j. n \<le> j \<longrightarrow> j \<le> k \<longrightarrow> (\<exists>u. idx r (int j) = (Ok u :: u32 go) \<and> uint u = int (pvq_u n j))"
    "uint i = int I" "pvq_u n n \<le> I" "I < pvq_u n (Suc k)"
  shows "\<exists>k' p. pvq_along r (int k) i = Ok (int k', p) \<and> k' \<le> k \<and> uint p = int (pvq_u n k')
    \<and> pvq_u n k' \<le> I \<and> I < pvq_u n (Suc k')"
  using assms
proof (induction k)
  case 0
  then obtain u where "idx r 0 = (Ok u :: u32 go)" "uint u = int (pvq_u 0 0)" by auto
  then show ?case using 0 by (subst pvq_along.simps) (auto simp: u32_less)
next
  case (Suc k)
  obtain u where u: "idx r (int (Suc k)) = (Ok u :: u32 go)" "uint u = int (pvq_u n (Suc k))" using Suc.prems(1,2) by blast
  have step: "pvq_along r (int (Suc k)) i = (if u > i then pvq_along r (int k) i else Ok (int (Suc k), u))"
    by (subst pvq_along.simps) (simp only: u(1) bnd.simps, simp)
  show ?case
  proof (cases "pvq_u n (Suc k) \<le> I")
    case True
    then have "\<not> u > i" using u(2) Suc.prems(3) by (simp add: u32_less)
    then show ?thesis using step u(2) True Suc.prems(5) by (intro exI [of _ "Suc k"] exI [of _ u]) simp
  next
    case False
    then have n: "u > i" using u(2) Suc.prems(3) by (simp add: u32_less)
    have "n \<noteq> Suc k" using False Suc.prems(4) by auto
    then have nk: "n \<le> k" using Suc.prems(1) by simp
    obtain k' p where "pvq_along r (int k) i = Ok (int k', p) \<and> k' \<le> k \<and> uint p = int (pvq_u n k')
        \<and> pvq_u n k' \<le> I \<and> I < pvq_u n (Suc k')"
      using Suc.IH [OF nk _ Suc.prems(3,4)] Suc.prems(2) False by auto
    then show ?thesis using step n by (intro exI [of _ k'] exI [of _ p]) simp
  qed
qed

text \<open>What a round writes: the pulse at \<open>j\<close> and the square in the sum.\<close>

definition round_ok :: "nat \<Rightarrow> nat \<Rightarrow> u32 \<Rightarrow> nat \<Rightarrow> i32 list \<Rightarrow> i32 \<Rightarrow> (int \<times> u32 \<times> i32 list \<times> i32) go \<Rightarrow> bool" where
  "round_ok n k i j y yy m \<longleftrightarrow> (\<exists>v k' i'. m = Ok (int k', i', y[j := word_of_int v], yy + word_of_int (v * v))
     \<and> digit n k (nat (uint i)) v k' (nat (uint i')))"

lemma round_okI:
  assumes "m = Ok (int k', i' - p, y[j := word_of_int (signed_pulse neg (k - k'))], yy + word_of_int (signed_pulse neg (k - k') * signed_pulse neg (k - k')))"
    "uint p = int (pvq_u (Suc n) k')" "uint i' = int r" "pvq_u (Suc n) k' \<le> r" "r < pvq_u (Suc n) (Suc k')" "k' \<le> k"
    "nat (uint i) = r + (if neg then pvq_u (Suc n) (Suc k) else 0)" "neg \<Longrightarrow> r < pvq_u (Suc n) k"
  shows "round_ok n k i j y yy m"
proof -
  have "uint (i' - p) = int (r - pvq_u (Suc n) k')" using assms(2-4) by (simp add: u32_sub of_nat_diff)
  then have d: "digit n k (nat (uint i)) (signed_pulse neg (k - k')) k' (nat (uint (i' - p)))"
    using digitI [OF assms(4-8)] by (simp add: signed_pulse_def)
  show ?thesis unfolding round_ok_def
    by (rule exI [of _ "signed_pulse neg (k - k')"], rule exI [of _ k'], rule exI [of _ "i' - p"]) (use assms(1) d in simp)
qed

lemma nat_uint: "uint (i :: u32) = int I \<Longrightarrow> nat (uint i) = I"
  by simp

lemma cwrsi_dims_ok:
  assumes "tab_ok (Suc n) (Suc k)" "k < Suc n" "0 < n" "uint i = int I" "I < pvq_v (Suc n) k" "j < length y"
  shows "round_ok n k i j y yy (cwrsi_dims (int (Suc n)) (int k) i (int j) y yy)"
proof -
  have t: "tab_ok (Suc n) k" using tab_ok_mono [OF assms(1)] by simp
  have k: "k < 32768" using tab_small [OF assms(1)] by simp
  obtain p where p: "pvqUAt (int k) (int (Suc n)) = Ok p" "uint p = int (pvq_u (Suc n) k)"
    using pvqUAt_ok [OF t] assms(2) by auto
  obtain q where q: "pvqUAt (int k + 1) (int (Suc n)) = Ok q" "uint q = int (pvq_u (Suc n) (Suc k))"
    using pvqUAt_ok [OF assms(1)] assms(2) by (auto simp: add.commute)
  have cond: "p \<le> i \<and> i < q \<longleftrightarrow> pvq_u (Suc n) k \<le> I \<and> I < pvq_u (Suc n) (Suc k)"
    using p(2) q(2) assms(4) by (simp add: u32_le u32_less)
  show ?thesis
  proof (cases "pvq_u (Suc n) k \<le> I \<and> I < pvq_u (Suc n) (Suc k)")
    case True
    then have "cwrsi_dims (int (Suc n)) (int k) i (int j) y yy = Ok (int k, i - p, y[j := word_of_int (signed_pulse False (k - k))], yy + word_of_int (signed_pulse False (k - k) * signed_pulse False (k - k)))"
      using p(1) q(1) cond assms(6) by (simp add: cwrsi_dims_def upd_def signed_pulse_def)
    from round_okI [OF this p(2) assms(4)] True show ?thesis using nat_uint [OF assms(4)] by simp
  next
    case False
    define neg where "neg = (i \<ge> q)"
    define i1 where "i1 = i - (q AND word_of_int (- b2i neg))"
    let ?r = "if pvq_u (Suc n) (Suc k) \<le> I then I - pvq_u (Suc n) (Suc k) else I"
    have neg: "neg \<longleftrightarrow> pvq_u (Suc n) (Suc k) \<le> I" using q(2) assms(4) by (simp add: neg_def u32_le)
    have i1: "uint i1 = int ?r" unfolding i1_def neg_def by (rule sign_mask [OF q(2) assms(4)])
    have r: "?r < pvq_u (Suc n) k" using False assms(5) by (auto simp: pvq_v_def)
    obtain k' p' where k': "pvq_down (int (Suc n)) (int k) i1 = Ok (int k', p')" "k' < k" "uint p' = int (pvq_u (Suc n) k')"
      "pvq_u (Suc n) k' \<le> ?r" "?r < pvq_u (Suc n) (Suc k')"
      using pvq_down_ok [OF t _ _ i1 r] assms(2) by auto
    have c: "\<not> (p \<le> i \<and> i < q)" using False cond by blast
    have fin: "cwrsi_dims (int (Suc n)) (int k) i (int j) y yy = Ok (int k', i1 - p', y[j := word_of_int (signed_pulse neg (k - k'))], yy + word_of_int (signed_pulse neg (k - k') * signed_pulse neg (k - k')))"
      unfolding cwrsi_dims_def p(1) q(1) bnd.simps if_not_P [OF c] Let_def neg_def [symmetric] i1_def [symmetric] k'(1)
      using put_pulse_ok [of "k - k'" j y neg yy] k assms(6) k'(2) by (simp add: of_nat_diff)
    show ?thesis
      by (rule round_okI [OF fin k'(3) i1 k'(4,5)]) (use k'(2) r neg nat_uint [OF assms(4)] in simp_all)
  qed
qed

lemma cwrsi_pulses_ok:
  assumes "tab_ok (Suc n) (Suc k)" "Suc n \<le> k" "0 < n" "uint i = int I" "I < pvq_v (Suc n) k" "j < length y"
  shows "round_ok n k i j y yy (cwrsi_pulses (int (Suc n)) (int k) i (int j) y yy)"
proof -
  have k: "k < 32768" using tab_small [OF assms(1)] by simp
  obtain row where row: "pvqURow (int (Suc n)) = Ok row"
    "\<forall>j. Suc n \<le> j \<longrightarrow> j \<le> Suc k \<longrightarrow> (\<exists>u. idx row (int j) = (Ok u :: u32 go) \<and> uint u = int (pvq_u (Suc n) j))"
    using pvqURow_ok [OF assms(1)] assms(2) by auto
  obtain p where p: "idx row (int k + 1) = (Ok p :: u32 go)" "uint p = int (pvq_u (Suc n) (Suc k))"
    using row(2) [rule_format, of "Suc k"] assms(2) by (auto simp: add.commute)
  obtain q where q: "idx row (int (Suc n)) = (Ok q :: u32 go)" "uint q = int (pvq_u (Suc n) (Suc n))"
    using row(2) [rule_format, of "Suc n"] assms(2) by auto
  define neg where "neg = (i \<ge> p)"
  define i1 where "i1 = i - (p AND word_of_int (- b2i neg))"
  let ?r = "if pvq_u (Suc n) (Suc k) \<le> I then I - pvq_u (Suc n) (Suc k) else I"
  have neg: "neg \<longleftrightarrow> pvq_u (Suc n) (Suc k) \<le> I" using p(2) assms(4) by (simp add: neg_def u32_le)
  have i1: "uint i1 = int ?r" unfolding i1_def neg_def by (rule sign_mask [OF p(2) assms(4)])
  have r: "?r < pvq_u (Suc n) (Suc k)" "neg \<Longrightarrow> ?r < pvq_u (Suc n) k"
    using assms(5) pvq_u_mono [of k "Suc k" n] neg by (auto simp: pvq_v_def)
  have "\<exists>k' p'. (if q > i1 then pvq_down (int (Suc n)) (int (Suc n)) i1 else pvq_along row (int k) i1) = Ok (int k', p')
      \<and> k' \<le> k \<and> uint p' = int (pvq_u (Suc n) k') \<and> pvq_u (Suc n) k' \<le> ?r \<and> ?r < pvq_u (Suc n) (Suc k')"
  proof (cases "?r < pvq_u (Suc n) (Suc n)")
    case True
    then have c: "q > i1" using q(2) i1 by (simp add: u32_less)
    have "tab_ok (Suc n) (Suc n)" by (rule tab_ok_mono [OF assms(1)]) (use assms(2) in simp_all)
    from pvq_down_ok [OF this _ _ i1 True] show ?thesis using c assms(2) by auto
  next
    case False
    then have c: "\<not> q > i1" using q(2) i1 by (simp add: u32_less)
    have a: "pvq_u (Suc n) (Suc n) \<le> ?r" using False by simp
    from pvq_along_ok [OF assms(2) _ i1 a r(1)] show ?thesis using c row(2) by auto
  qed
  then obtain k' p' where k': "(if q > i1 then pvq_down (int (Suc n)) (int (Suc n)) i1 else pvq_along row (int k) i1) = Ok (int k', p')"
    "k' \<le> k" "uint p' = int (pvq_u (Suc n) k')" "pvq_u (Suc n) k' \<le> ?r" "?r < pvq_u (Suc n) (Suc k')" by blast
  have fin: "cwrsi_pulses (int (Suc n)) (int k) i (int j) y yy = Ok (int k', i1 - p', y[j := word_of_int (signed_pulse neg (k - k'))], yy + word_of_int (signed_pulse neg (k - k') * signed_pulse neg (k - k')))"
    unfolding cwrsi_pulses_def row(1) p(1) q(1) bnd.simps Let_def neg_def [symmetric] i1_def [symmetric] k'(1)
    using put_pulse_ok [of "k - k'" j y neg yy] k assms(6) k'(2) by (simp add: of_nat_diff)
  show ?thesis
    by (rule round_okI [OF fin k'(3) i1 k'(4,5,2)]) (use r(2) neg nat_uint [OF assms(4)] in simp_all)
qed

section \<open>The whole vector\<close>

definition put_all :: "i32 list \<Rightarrow> nat \<Rightarrow> int list \<Rightarrow> i32 list" where
  "put_all y j vs = take j y @ map word_of_int vs @ drop (j + length vs) y"

definition energy :: "int list \<Rightarrow> int" where
  "energy vs = sum_list (map (\<lambda>v. v * v) vs)"

lemma energy_simps [simp]: "energy [] = 0" "energy (v # vs) = v * v + energy vs"
  by (simp_all add: energy_def)

lemma put_all_Nil [simp]: "put_all y j [] = y"
  by (simp add: put_all_def)

lemma length_put_all: "j + length vs \<le> length y \<Longrightarrow> length (put_all y j vs) = length y"
  by (simp add: put_all_def)

lemma put_all_Cons: "j < length y \<Longrightarrow> put_all (y[j := word_of_int v]) (Suc j) vs = put_all y j (v # vs)"
  by (simp add: put_all_def take_Suc_conv_app_nth take_update_swap upd_conv_take_nth_drop drop_update_cancel add.commute)

lemma put_all_snoc: "j + length vs < length y \<Longrightarrow> (put_all y j vs)[j + length vs := word_of_int v] = put_all y j (vs @ [v])"
  by (simp add: put_all_def list_update_append min_def Cons_nth_drop_Suc [symmetric])

lemma cwrsi_loop_ok:
  assumes "2 \<le> n" "tab_ok n (Suc k)" "uint i = int I" "I < pvq_v n k" "j + n \<le> length y"
  shows "\<exists>vs k' i'. cwrsi_loop (int n) (int k) i (int j) y yy
      = Ok (int k', i', int (j + length vs), put_all y j vs, yy + word_of_int (energy vs))
    \<and> length vs = n - 2 \<and> nat (uint i') < pvq_v 2 k' \<and> k' \<le> k
    \<and> (\<forall>ws. length ws = 2 \<longrightarrow> pulses ws = k' \<longrightarrow> pvq_rank ws = nat (uint i') \<longrightarrow> pulses (vs @ ws) = k \<and> pvq_rank (vs @ ws) = I)"
  using assms
proof (induction n arbitrary: k i I j y yy)
  case 0
  then show ?case by simp
next
  case (Suc n)
  show ?case
  proof (cases "n = 1")
    case True
    then have "cwrsi_loop (int (Suc n)) (int k) i (int j) y yy = Ok (int k, i, int j, y, yy)"
      by (subst cwrsi_loop.simps) simp
    then show ?thesis using True Suc.prems(3,4) nat_uint [OF Suc.prems(3)]
      by (intro exI [of _ "[]"] exI [of _ k] exI [of _ i]) (simp add: numeral_2_eq_2)
  next
    case False
    then have n: "2 \<le> n" "0 < n" "int (Suc n) > 2" using Suc.prems(1) by simp_all
    have j: "j < length y" using Suc.prems(5) by simp
    let ?m = "if int k \<ge> int (Suc n) then cwrsi_pulses (int (Suc n)) (int k) i (int j) y yy
              else cwrsi_dims (int (Suc n)) (int k) i (int j) y yy"
    have "round_ok n k i j y yy ?m"
      using cwrsi_pulses_ok [OF Suc.prems(2) _ n(2) Suc.prems(3,4) j] cwrsi_dims_ok [OF Suc.prems(2) _ n(2) Suc.prems(3,4) j]
      by (simp add: not_le)
    then obtain v k1 i1 where m: "?m = Ok (int k1, i1, y[j := word_of_int v], yy + word_of_int (v * v))"
      and d: "digit n k I v k1 (nat (uint i1))" unfolding round_ok_def nat_uint [OF Suc.prems(3)] by blast
    have k1: "k1 \<le> k" "nat (uint i1) < pvq_v n k1" using d by (simp_all add: digit_def)
    have t: "tab_ok n (Suc k1)" by (rule tab_ok_mono [OF Suc.prems(2)]) (use k1(1) in simp_all)
    have u1: "uint i1 = int (nat (uint i1))" by simp
    obtain vs k' i' where IH: "cwrsi_loop (int n) (int k1) i1 (int (Suc j)) (y[j := word_of_int v]) (yy + word_of_int (v * v))
        = Ok (int k', i', int (Suc j + length vs), put_all (y[j := word_of_int v]) (Suc j) vs, yy + word_of_int (v * v) + word_of_int (energy vs))"
      "length vs = n - 2" "nat (uint i') < pvq_v 2 k'" "k' \<le> k1"
      "\<And>ws. length ws = 2 \<Longrightarrow> pulses ws = k' \<Longrightarrow> pvq_rank ws = nat (uint i') \<Longrightarrow> pulses (vs @ ws) = k1 \<and> pvq_rank (vs @ ws) = nat (uint i1)"
      using Suc.IH [OF n(1) t u1 k1(2), of "Suc j" "y[j := word_of_int v]" "yy + word_of_int (v * v)"] Suc.prems(5) by auto
    have "cwrsi_loop (int (Suc n)) (int k) i (int j) y yy
        = Ok (int k', i', int (j + length (v # vs)), put_all y j (v # vs), yy + word_of_int (energy (v # vs)))"
    proof -
      have "cwrsi_loop (int (Suc n)) (int k) i (int j) y yy
          = bnd ?m (\<lambda>(k, i, y, yy). cwrsi_loop (int (Suc n) - 1) k i (int j + 1) y yy)"
        by (subst cwrsi_loop.simps) (rule if_P [OF n(3)])
      also have "\<dots> = cwrsi_loop (int n) (int k1) i1 (int (Suc j)) (y[j := word_of_int v]) (yy + word_of_int (v * v))"
        unfolding m by (simp add: add.commute)
      finally show ?thesis unfolding IH(1) put_all_Cons [OF j] by (simp add: ac_simps)
    qed
    moreover have "pulses ((v # vs) @ ws) = k \<and> pvq_rank ((v # vs) @ ws) = I"
      if "length ws = 2" "pulses ws = k'" "pvq_rank ws = nat (uint i')" for ws
    proof -
      have r: "pulses (vs @ ws) = k1" "pvq_rank (vs @ ws) = nat (uint i1)" using IH(5) [OF that] by simp_all
      have l: "length (vs @ ws) = n" using IH(2) that(1) n(1) by simp
      show ?thesis using digit_rank [of "vs @ ws" k I v] d r l by simp
    qed
    moreover have "length (v # vs) = Suc n - 2" using IH(2) n(1) by simp
    ultimately show ?thesis using IH(3,4) k1(1) by (intro exI [of _ "v # vs"] exI [of _ k'] exI [of _ i']) simp
  qed
qed

lemma last_two:
  assumes "I < pvq_v 2 k"
  defines "r \<equiv> if 2 * k + 1 \<le> I then I - (2 * k + 1) else I"
  defines "k' \<equiv> (r + 1) div 2"
  shows "pvq_u 2 k' \<le> r" "r < pvq_u 2 (Suc k')" "k' \<le> k" "2 * k + 1 \<le> I \<Longrightarrow> r < pvq_u 2 k" "r - pvq_u 2 k' \<le> 1"
    "r - pvq_u 2 k' = 1 \<Longrightarrow> 0 < k'" "k' = 0 \<Longrightarrow> r = 0" "0 < k' \<Longrightarrow> pvq_u 2 k' = 2 * k' - 1"
proof -
  have u: "pvq_u 2 m = (if m = 0 then 0 else 2 * m - 1)" for m by (cases m) (simp_all add: pvq_u_2 pvq_u_0)
  have v: "pvq_v 2 k = (if k = 0 then 1 else 4 * k)" by (simp add: pvq_v_def u)
  show "pvq_u 2 k' \<le> r" "r < pvq_u 2 (Suc k')" "k' \<le> k" "2 * k + 1 \<le> I \<Longrightarrow> r < pvq_u 2 k" "r - pvq_u 2 k' \<le> 1"
    "r - pvq_u 2 k' = 1 \<Longrightarrow> 0 < k'" "k' = 0 \<Longrightarrow> r = 0" "0 < k' \<Longrightarrow> pvq_u 2 k' = 2 * k' - 1"
    using assms(1) unfolding k'_def u v by (auto simp: r_def split: if_splits) 
qed

lemma pulses_append [simp]: "pulses (xs @ ys) = pulses xs + pulses ys"
  by (simp add: pulses_def)

lemma energy_append [simp]: "energy (xs @ ys) = energy xs + energy ys"
  by (simp add: energy_def)

definition pulses_ok :: "nat \<Rightarrow> nat \<Rightarrow> bool" where
  "pulses_ok n k \<longleftrightarrow> 2 \<le> n \<and> 0 < k \<and> tab_ok n (Suc k) \<and> pvq_v n k < 4294967296"

definition vector_of :: "nat \<Rightarrow> nat \<Rightarrow> int list \<Rightarrow> bool" where
  "vector_of n k vs \<longleftrightarrow> length vs = n \<and> pulses vs = k"

lemma energy_bounds: "0 \<le> energy vs" "energy vs \<le> int (pulses vs) * int (pulses vs)"
proof (induction vs)
  case (Cons v vs)
  { case 1 show ?case using Cons by simp }
  { case 2
    have "v * v = int (nat \<bar>v\<bar>) * int (nat \<bar>v\<bar>)" by (cases "0 \<le> v") simp_all
    then have "energy (v # vs) \<le> int (nat \<bar>v\<bar>) * int (nat \<bar>v\<bar>) + int (pulses vs) * int (pulses vs)" using Cons by simp
    also have "\<dots> \<le> int (pulses (v # vs)) * int (pulses (v # vs))" by (simp add: algebra_simps)
    finally show ?case . }
qed simp_all

lemma cwrsi_ok:
  assumes "2 \<le> n" "tab_ok n (Suc k)" "uint i = int I" "I < pvq_v n k" "length y = n"
  shows "\<exists>vs. cwrsi (int n) (int k) i y = Ok (word_of_int (energy vs), map word_of_int vs) \<and> vector_of n k vs \<and> pvq_rank vs = I"
proof -
  obtain vs k1 i1 where L: "cwrsi_loop (int n) (int k) i 0 y 0 = Ok (int k1, i1, len vs, put_all y 0 vs, word_of_int (energy vs))"
    "length vs = n - 2" "nat (uint i1) < pvq_v 2 k1" "k1 \<le> k"
    "\<And>ws. length ws = 2 \<Longrightarrow> pulses ws = k1 \<Longrightarrow> pvq_rank ws = nat (uint i1) \<Longrightarrow> pulses (vs @ ws) = k \<and> pvq_rank (vs @ ws) = I"
    using cwrsi_loop_ok [OF assms(1-4), of 0 y 0] assms(5) by auto
  define J where "J = nat (uint i1)"
  have J: "uint i1 = int J" "J < pvq_v 2 k1" using L(3) by (simp_all add: J_def)
  define r where "r = (if 2 * k1 + 1 \<le> J then J - (2 * k1 + 1) else J)"
  define k2 where "k2 = (r + 1) div 2"
  note lt = last_two [OF J(2), folded r_def, folded k2_def]
  have k177: "k < 177" using tab_small [OF assms(2)] by simp
  then have k1: "k1 < 177" using L(4) by simp
  let ?p = "word_of_int (2 * int k1 + 1) :: u32"
  have p: "uint ?p = int (2 * k1 + 1)" using k1 by (subst u32_of_int) simp_all
  define neg where "neg = (i1 \<ge> ?p)"
  define i2 where "i2 = i1 - (?p AND word_of_int (- b2i neg))"
  have neg: "neg \<longleftrightarrow> 2 * k1 + 1 \<le> J" unfolding neg_def u32_le p J(1) of_nat_le_iff ..
  have i2: "uint i2 = int r" unfolding i2_def neg_def r_def by (rule sign_mask [OF p J(1)])
  have rb: "r < 4294967295" using lt(2,3) k1 pvq_u_2 [of k2] by simp
  have k2: "uint (drop_bit 1 (i2 + 1)) = int k2"
  proof -
    have "uint (i2 + 1) = int (r + 1)" using i2 rb by (subst u32_add) simp_all
    then show ?thesis by (simp add: u32_drop k2_def zdiv_int)
  qed
  define i3 where "i3 = (if int k2 \<noteq> 0 then i2 - word_of_int (2 * int k2 - 1) else i2)"
  define b where "b = r - pvq_u 2 k2"
  have i3: "uint i3 = int b"
  proof (cases "k2 = 0")
    case True
    then show ?thesis using i2 lt(7) by (simp add: i3_def b_def)
  next
    case False
    then have u: "pvq_u 2 k2 = 2 * k2 - 1" using lt(8) by simp
    have "uint (word_of_int (2 * int k2 - 1) :: u32) = int (2 * k2 - 1)" using False lt(3) k1 by (subst u32_of_int) (simp_all add: of_nat_diff)
    then have "uint i3 = int r - int (2 * k2 - 1)" using False i2 lt(1) u by (simp add: i3_def u32_sub)
    then show ?thesis using lt(1) by (simp add: b_def u of_nat_diff)
  qed
  have b1: "b \<le> 1" using lt(5) by (simp add: b_def)
  define v where "v = signed_pulse neg (k1 - k2)"
  define w where "w = signed_pulse (b = 1) k2"
  have sb: "- int b = - b2i (b = 1)" using b1 by (cases "b = 1") (simp_all add: b2i_def)
  have n2: "length (put_all y 0 vs) = n" "length vs < n" "Suc (length vs) < n"
    using L(2) assms(1,5) by (simp_all add: length_put_all)
  have fin: "put_all y 0 ((vs @ [v]) @ [w]) = map word_of_int (vs @ [v, w])"
    using L(2) assms(1,5) by (simp add: put_all_def)
  have P1: "put_pulse (int k1 - int k2) (- b2i neg) (len vs) (put_all y 0 vs) yy
      = Ok (put_all y 0 (vs @ [v]), yy + word_of_int (v * v))" for yy
  proof -
    have "put_pulse (int (k1 - k2)) (- b2i neg) (int (length vs)) (put_all y 0 vs) yy
        = Ok ((put_all y 0 vs)[length vs := word_of_int v], yy + word_of_int (v * v))"
      unfolding v_def by (rule put_pulse_ok) (use k1 n2 in simp_all)
    then show ?thesis using put_all_snoc [of 0 vs y v] n2 assms(5) lt(3) by (simp add: of_nat_diff)
  qed
  have P2: "put_pulse (int k2) (- int b) (len vs + 1) (put_all y 0 (vs @ [v])) yy
      = Ok (map word_of_int (vs @ [v, w]), yy + word_of_int (w * w))" for yy
  proof -
    have "put_pulse (int k2) (- b2i (b = 1)) (int (length (vs @ [v]))) (put_all y 0 (vs @ [v])) yy
        = Ok ((put_all y 0 (vs @ [v]))[length (vs @ [v]) := word_of_int w], yy + word_of_int (w * w))"
      unfolding w_def by (rule put_pulse_ok) (use k1 lt(3) n2 assms(5) in \<open>simp_all add: length_put_all\<close>)
    then show ?thesis using put_all_snoc [of 0 "vs @ [v]" y w] n2 assms(5) unfolding sb fin [symmetric] by (simp add: add.commute)
  qed
  have "cwrsi (int n) (int k) i y = Ok (word_of_int (energy vs) + word_of_int (v * v) + word_of_int (w * w), map word_of_int (vs @ [v, w]))"
    unfolding cwrsi_def L(1) bnd.simps prod.case Let_def neg_def [symmetric] i2_def [symmetric] k2 i3_def [symmetric] P1 i3 P2 ..
  then have c: "cwrsi (int n) (int k) i y = Ok (word_of_int (energy (vs @ [v, w])), map word_of_int (vs @ [v, w]))"
    by (simp add: ac_simps)
  have d2: "digit 0 k2 b w 0 0" using b1 lt(6)
    by (auto simp: digit_def w_def signed_pulse_def b_def pvq_v_def pvq_u.simps(1,2) pvq_u_0 pvq_u_1 [unfolded One_nat_def])
  have r2: "pulses [w] = k2" "pvq_rank [w] = b" using digit_rank [of "[]" k2 b w] d2 by simp_all
  have d1: "digit 1 k1 J (if neg then - int (k1 - k2) else int (k1 - k2)) k2 (r - pvq_u (Suc 1) k2)"
    by (rule digitI) (use lt(1-4) neg in \<open>auto simp: numeral_2_eq_2 [symmetric] r_def pvq_u_2 pvq_u_2 [unfolded numeral_2_eq_2]\<close>)
  then have "digit 1 k1 J v k2 b" by (simp add: v_def signed_pulse_def b_def numeral_2_eq_2)
  then have "pulses [v, w] = k1" "pvq_rank [v, w] = J" using digit_rank [of "[w]" k1 J v] r2 by simp_all
  then have "pulses (vs @ [v, w]) = k \<and> pvq_rank (vs @ [v, w]) = I" using L(5) [of "[v, w]"] J_def by simp
  moreover have "length (vs @ [v, w]) = n" using L(2) assms(1) by simp
  ultimately show ?thesis using c unfolding vector_of_def by blast
qed

end
