(* ===== verification/Cwrs_Props.thy ===== *)
theory Cwrs_Props
  imports Pvq_Decode RC_Session
begin

text \<open>
  \<^verbatim>\<open>icwrs\<close> computes the rank of a vector, so it is the inverse of \<^verbatim>\<open>cwrsi\<close>; the codebook has \<open>V(N,K)\<close>
  vectors; and a session of vectors coded with the range coder is read back.
\<close>

section \<open>The index of a vector\<close>

lemma i32_neg: "- 2147483648 \<le> v \<Longrightarrow> v < 2147483648 \<Longrightarrow> (word_of_int v :: i32) <s 0 \<longleftrightarrow> v < 0"
  by (simp add: word_sless_alt i32_of_int)

lemma iabs_ok:
  assumes "nat \<bar>v\<bar> < 2147483648"
  shows "iabs (word_of_int v) = \<bar>v\<bar>"
proof -
  have b: "- 2147483648 \<le> v" "v < 2147483648" "- 2147483648 \<le> - v" "- v < 2147483648" using assms by simp_all
  have "- (word_of_int v :: i32) = word_of_int (- v)" by simp
  then show ?thesis using i32_neg [OF b(1,2)] i32_of_int [OF b(1,2)] i32_of_int [OF b(3,4)] by (simp add: iabs_def)
qed

lemma pulse_le: "v \<in> set vs \<Longrightarrow> nat \<bar>v\<bar> \<le> pulses vs"
  by (induction vs) auto

lemma pulses_drop: "pulses (drop j vs) \<le> pulses vs"
  by (metis append_take_drop_id le_add2 pulses_append)

lemma celtPVQU_word:
  assumes "tab_ok n k"
  shows "celtPVQU (int n) (int k) = Ok (word_of_nat (pvq_u n k))"
  using celtPVQU_ok [OF assms] u32_pvq by blast

lemma icwrs_loop_ok:
  assumes "0 < j" "j < length vs" "tab_ok (length vs) (Suc (pulses vs))"
    "i = word_of_nat (pvq_rank (drop j vs))" "k = int (pulses (drop j vs))"
  shows "icwrs_loop (len vs) (map word_of_int vs) (int j) i k = Ok (word_of_nat (pvq_rank vs))"
  using assms
proof (induction j arbitrary: i k)
  case 0
  then show ?case by simp
next
  case (Suc j)
  let ?v = "vs ! j" and ?n = "length vs - j"
  have d: "drop j vs = ?v # drop (Suc j) vs" using Suc.prems(2) by (simp add: Cons_nth_drop_Suc)
  have n: "int ?n = len vs - int j" "Suc (length (drop (Suc j) vs)) = ?n" using Suc.prems(2) by simp_all
  have pl: "pulses (drop j vs) \<le> pulses vs" by (rule pulses_drop)
  have t: "tab_ok ?n (pulses (drop (Suc j) vs))" "tab_ok ?n (Suc (pulses (drop j vs)))"
    using tab_ok_mono [OF Suc.prems(3)] pl pulses_drop [of "Suc j" vs] by simp_all
  have "?v \<in> set vs" using Suc.prems(2) by simp
  from pulse_le [OF this] have vb: "nat \<bar>?v\<bar> < 2147483648" using tab_small [OF Suc.prems(3)] by simp
  then have neg: "(word_of_int ?v :: i32) <s 0 \<longleftrightarrow> ?v < 0" by (intro i32_neg) simp_all
  have k: "k + iabs (word_of_int ?v) = int (pulses (drop j vs))" using Suc.prems(5) iabs_ok [OF vb] d by simp
  have ix: "idx (map word_of_int vs) (int j) = (Ok (word_of_int ?v) :: i32 go)" using Suc.prems(2) by (simp add: idx_def)
  have r: "pvq_rank (drop j vs) = pvq_rank (drop (Suc j) vs) + pvq_u ?n (pulses (drop (Suc j) vs))
      + (if ?v < 0 then pvq_u ?n (Suc (pulses (drop j vs))) else 0)"
    unfolding d pvq_rank.simps n(2) ..
  let ?i = "word_of_nat (pvq_rank (drop j vs)) :: u32"
  have step: "icwrs_loop (len vs) (map word_of_int vs) (int (Suc j)) i k
      = (if j = 0 then Ok ?i else icwrs_loop (len vs) (map word_of_int vs) (int j) ?i (int (pulses (drop j vs))))"
  proof -
    have sj: "int (Suc j) - 1 = int j" by simp
    have u1: "celtPVQU (len vs - int j) k = Ok (word_of_nat (pvq_u ?n (pulses (drop (Suc j) vs))))"
      using celtPVQU_word [OF t(1)] Suc.prems(5) n(1) by simp
    have u2: "celtPVQU (len vs - int j) (int (pulses (drop j vs)) + 1) = Ok (word_of_nat (pvq_u ?n (Suc (pulses (drop j vs)))))"
      using celtPVQU_word [OF t(2)] n(1) by (simp add: add.commute)
    have e: "?v < 0 \<Longrightarrow> i + word_of_nat (pvq_u ?n (pulses (drop (Suc j) vs))) + word_of_nat (pvq_u ?n (Suc (pulses (drop j vs)))) = ?i"
      "\<not> ?v < 0 \<Longrightarrow> i + word_of_nat (pvq_u ?n (pulses (drop (Suc j) vs))) = ?i"
      by (simp_all only: r Suc.prems(4) if_True if_False of_nat_add add_0_right)
    have c: "int j \<le> 0 \<longleftrightarrow> j = 0" by simp
    show ?thesis
      by (cases "?v < 0"; subst icwrs_loop.simps)
        (simp_all only: Let_def sj u1 ix bnd.simps k u2 neg if_True if_False e c not_False_eq_True)
  qed
  show ?case
  proof (cases "j = 0")
    case True
    then show ?thesis using step by simp
  next
    case False
    then have jp: "0 < j" "j < length vs" using Suc.prems(2) by simp_all
    show ?thesis unfolding step if_not_P [OF False] by (rule Suc.IH [OF jp Suc.prems(3) refl refl])
  qed
qed

lemma icwrs_ok:
  assumes "vector_of n k vs" "2 \<le> n" "tab_ok n (Suc k)"
  shows "icwrs (int n) (map word_of_int vs) = Ok (word_of_nat (pvq_rank vs))"
proof -
  have l: "length vs = n" "pulses vs = k" using assms(1) by (simp_all add: vector_of_def)
  obtain m where m: "n = Suc m" using assms(2) by (cases n) auto
  let ?j = m let ?v = "vs ! ?j"
  have j: "0 < ?j" "?j < length vs" "int n - 1 = int ?j" using l assms(2) m by simp_all
  have d: "drop ?j vs = [?v]" using l m by (simp add: Cons_nth_drop_Suc [symmetric])
  have "?v \<in> set vs" using j by simp
  from pulse_le [OF this] have vb: "nat \<bar>?v\<bar> < 2147483648" using tab_small [OF assms(3)] l by simp
  then have neg: "(word_of_int ?v :: i32) <s 0 \<longleftrightarrow> ?v < 0" by (intro i32_neg) simp_all
  have ix: "idx (map word_of_int vs) (int ?j) = (Ok (word_of_int ?v) :: i32 go)" using j by (simp add: idx_def)
  have r: "word_of_int (b2i (?v < 0)) = (word_of_nat (pvq_rank (drop ?j vs)) :: u32)"
    unfolding d by (simp add: b2i_def pvq_u_0 pvq_u_1 [unfolded One_nat_def])
  show ?thesis unfolding icwrs_def Let_def j(3) ix bnd.simps neg iabs_ok [OF vb]
    using icwrs_loop_ok [OF j(1,2) _ r, of "\<bar>?v\<bar>"] assms(3) l d by simp
qed

lemma pvq_v_2:
  assumes "0 < n" "0 < k"
  shows "2 \<le> pvq_v n k"
proof -
  obtain m where m: "n = Suc m" using assms(1) by (cases n) auto
  have "pvq_u n 1 = 1" using pvq_u_1 [of m] pvq_u_sym [of 1 n] m by simp
  then have "1 \<le> pvq_u n k" "1 \<le> pvq_u n (Suc k)" using pvq_u_mono [of 1 k m] pvq_u_mono [of 1 "Suc k" m] assms(2) m by simp_all
  then show ?thesis by (simp add: pvq_v_def)
qed

lemma celtPVQV_ok:
  assumes "pulses_ok n k"
  shows "celtPVQV (int n) (int k) = Ok (word_of_nat (pvq_v n k))" "uint (word_of_nat (pvq_v n k) :: u32) = int (pvq_v n k)"
proof -
  have t: "tab_ok n k" "tab_ok n (Suc k)" using assms tab_ok_mono [of n "Suc k" n k] by (simp_all add: pulses_ok_def)
  show "celtPVQV (int n) (int k) = Ok (word_of_nat (pvq_v n k))"
    using celtPVQU_word [OF t(1)] celtPVQU_word [OF t(2)] by (simp add: celtPVQV_def pvq_v_def add.commute)
  show "uint (word_of_nat (pvq_v n k) :: u32) = int (pvq_v n k)"
    using assms u32_of_int [of "int (pvq_v n k)"] by (simp add: pulses_ok_def)
qed

lemma rank_word:
  assumes "pulses_ok n k" "vector_of n k vs"
  shows "uint (word_of_nat (pvq_rank vs) :: u32) = int (pvq_rank vs)" "pvq_rank vs < pvq_v n k"
proof -
  show b: "pvq_rank vs < pvq_v n k" using rank_bound [of vs] assms(2) by (simp add: vector_of_def)
  then have "int (pvq_rank vs) < 4294967296" using assms(1) by (simp add: pulses_ok_def)
  then show "uint (word_of_nat (pvq_rank vs) :: u32) = int (pvq_rank vs)" using u32_of_int [of "int (pvq_rank vs)"] by simp
qed

lemma pulses_sint:
  assumes "pulses_ok n k" "vector_of n k vs"
  shows "map sint (map word_of_int vs :: i32 list) = vs"
proof -
  have "sint (word_of_int v :: i32) = v" if "v \<in> set vs" for v
    using pulse_le [OF that] assms tab_small [of n "Suc k"] by (intro i32_of_int) (auto simp: pulses_ok_def vector_of_def)
  then show ?thesis by (simp add: map_idI)
qed

lemma energy_word:
  assumes "pulses_ok n k" "vector_of n k vs"
  shows "sint (word_of_int (energy vs) :: i32) = energy vs"
proof -
  have "int k \<le> 176" using assms tab_small [of n "Suc k"] by (simp add: pulses_ok_def)
  then have "int k * int k \<le> 176 * 176" by (intro mult_mono) simp_all
  then show ?thesis using energy_bounds [of vs] assms(2) by (intro i32_of_int) (simp_all add: vector_of_def)
qed

lemma pvq_decode_encode:
  assumes "pulses_ok n k" "vector_of n k vs" "length y = n"
  shows "cwrsi (int n) (int k) (word_of_nat (pvq_rank vs)) y = Ok (word_of_int (energy vs), map word_of_int vs)"
proof -
  have p: "2 \<le> n" "tab_ok n (Suc k)" using assms(1) by (simp_all add: pulses_ok_def)
  obtain ws where ws: "cwrsi (int n) (int k) (word_of_nat (pvq_rank vs)) y = Ok (word_of_int (energy ws), map word_of_int ws)"
    "vector_of n k ws" "pvq_rank ws = pvq_rank vs"
    using cwrsi_ok [OF p rank_word [OF assms(1,2)] assms(3)] by blast
  then have "ws = vs" using assms(2) by (intro rank_inj) (simp_all add: vector_of_def)
  with ws(1) show ?thesis by simp
qed

section \<open>Pulse vectors in the stream\<close>

fun put_pulses :: "nat \<times> nat \<Rightarrow> int list \<Rightarrow> Encoder \<Rightarrow> Encoder go" where
  "put_pulses (n, k) vs e = EncodePulses (map word_of_int vs) (int n) (int k) e"

fun get_pulses :: "nat \<times> nat \<Rightarrow> Decoder \<Rightarrow> (int list \<times> Decoder) go" where
  "get_pulses (n, k) d = bnd (DecodePulses (replicate n 0) (int n) (int k) d) (\<lambda>(yy, y, d). Ok (map sint y, d))"

fun pulses_fit :: "nat \<times> nat \<Rightarrow> int list \<Rightarrow> bool" where
  "pulses_fit (n, k) vs = (pulses_ok n k \<and> vector_of n k vs)"

lemma pulses_undo:
  assumes "pulses_fit sh vs"
  shows "undoes 49 (put_pulses sh vs) (get_pulses sh) vs"
proof -
  obtain n k where sh: "sh = (n, k)" by (cases sh)
  have ok: "pulses_ok n k" "vector_of n k vs" using assms sh by simp_all
  then have p: "2 \<le> n" "0 < k" "tab_ok n (Suc k)" by (simp_all add: pulses_ok_def)
  let ?i = "word_of_nat (pvq_rank vs) :: u32" and ?V = "word_of_nat (pvq_v n k) :: u32"
  have iV: "?i < ?V" using rank_word [OF ok] celtPVQV_ok(2) [OF ok(1)] by (simp add: u32_less)
  have V2: "2 \<le> ?V" using pvq_v_2 [of n k] p celtPVQV_ok(2) [OF ok(1)] by (simp add: u32_le)
  have enc: "put_pulses sh vs = (\<lambda>e. EncUint e ?i ?V)"
    by (rule ext) (simp add: sh EncodePulses_def icwrs_ok [OF ok(2) p(1,3)] celtPVQV_ok(1) [OF ok(1)])
  show ?thesis unfolding enc
  proof (rule undoes_map [OF undoes_EncUint [OF iV V2]])
    fix d d'
    assume "DecUint d ?V = Ok (?i, d')"
    then show "get_pulses sh d = Ok (vs, d')"
      using pvq_decode_encode [OF ok, of "replicate n 0"] pulses_sint [OF ok]
      by (simp add: sh DecodePulses_def celtPVQV_ok(1) [OF ok(1)])
  qed
qed

interpretation pvq: code put_pulses get_pulses pulses_fit 49
  by unfold_locales (rule pulses_undo)

lemma rank_bij:
  assumes "pulses_ok n k"
  shows "bij_betw pvq_rank {vs. vector_of n k vs} {..<pvq_v n k}"
proof (rule bij_betwI')
  fix xs ys
  assume "xs \<in> {vs. vector_of n k vs}" "ys \<in> {vs. vector_of n k vs}"
  then show "(pvq_rank xs = pvq_rank ys) = (xs = ys)" using rank_inj by (auto simp: vector_of_def)
next
  fix xs
  assume "xs \<in> {vs. vector_of n k vs}"
  then show "pvq_rank xs \<in> {..<pvq_v n k}" using rank_word(2) [OF assms] by simp
next
  fix i
  assume "i \<in> {..<pvq_v n k}"
  then have i: "i < pvq_v n k" by simp
  have p: "2 \<le> n" "tab_ok n (Suc k)" "pvq_v n k < 4294967296" using assms by (simp_all add: pulses_ok_def)
  then have u: "uint (word_of_nat i :: u32) = int i" using i u32_of_int [of "int i"] by simp
  have l: "length (replicate n (0 :: i32)) = n" by simp
  from cwrsi_ok [OF p(1,2) u i l] show "\<exists>vs\<in>{vs. vector_of n k vs}. i = pvq_rank vs" by auto
qed

section \<open>Properties\<close>

text \<open>C11: The codebook of \<open>n\<close> dimensions and \<open>k\<close> pulses: for every size the table covers, \<^verbatim>\<open>PVQV\<close> is
  exactly the number of integer vectors of that length whose absolute values add up to \<open>k\<close>.\<close>

theorem pvq_counts_vectors:
  assumes "pulses_ok n k"
  shows "\<exists>V. PVQV (int n) (int k) = Ok V \<and> uint V = int (card {vs. length vs = n \<and> (\<Sum>v\<leftarrow>vs. nat \<bar>v\<bar>) = k})"
proof -
  have "card {vs. vector_of n k vs} = pvq_v n k" using bij_betw_same_card [OF rank_bij [OF assms]] by simp
  then have "int (pvq_v n k) = int (card {vs. length vs = n \<and> (\<Sum>v\<leftarrow>vs. nat \<bar>v\<bar>) = k})"
    by (simp add: vector_of_def pulses_def)
  then show ?thesis using celtPVQV_ok [OF assms] by (simp add: PVQV_def)
qed

lemma demo_sizes: "pvq_v 4 3 = 88" "pulses_ok 4 3" "pulses_ok 2 5"
proof -
  have u: "pvq_u 4 3 = 25" "pvq_u 4 4 = 63" "pvq_u 2 5 = 9" "pvq_u 2 6 = 11" by code_simp+
  then show "pvq_v 4 3 = 88" "pulses_ok 4 3" "pulses_ok 2 5"
    by (simp_all add: pvq_v_def pulses_ok_def tab_ok_def pvq_ends_def)
qed

lemma pvq_counts_vectors_witness:
  "\<exists>V. PVQV (int 4) (int 3) = Ok V \<and> uint V = int (card {vs. length vs = 4 \<and> (\<Sum>v\<leftarrow>vs. nat \<bar>v\<bar>) = 3})"
  by (rule pvq_counts_vectors [OF demo_sizes(2)])

text \<open>C10: \<^verbatim>\<open>cwrsi\<close> and \<^verbatim>\<open>icwrs\<close> are inverse to each other on the codebook.  Every vector has an index below
  \<open>V(n,k)\<close> from which \<^verbatim>\<open>cwrsi\<close> writes the vector back, whatever its output slice held, and returns
  the sum of its squares; every index below \<open>V(n,k)\<close> is decoded, without a panic, to a vector of
  the codebook whose index it is.\<close>

theorem pvq_bijection:
  assumes "pulses_ok n k" "length y = n"
  shows "(vector_of n k vs \<longrightarrow> (\<exists>i yy. Icwrs (int n) (map word_of_int vs) = Ok i \<and> uint i < int (pvq_v n k)
      \<and> cwrsi (int n) (int k) i y = Ok (yy, map word_of_int vs) \<and> sint yy = (\<Sum>v\<leftarrow>vs. v * v)))
    \<and> (uint i < int (pvq_v n k) \<longrightarrow> (\<exists>ws yy. vector_of n k ws \<and> cwrsi (int n) (int k) i y = Ok (yy, map word_of_int ws)
      \<and> Icwrs (int n) (map word_of_int ws) = Ok i))"
proof -
  have p: "2 \<le> n" "tab_ok n (Suc k)" using assms(1) by (simp_all add: pulses_ok_def)
  have "vector_of n k vs \<longrightarrow> (\<exists>i yy. Icwrs (int n) (map word_of_int vs) = Ok i \<and> uint i < int (pvq_v n k)
      \<and> cwrsi (int n) (int k) i y = Ok (yy, map word_of_int vs) \<and> sint yy = (\<Sum>v\<leftarrow>vs. v * v))"
    using icwrs_ok [OF _ p] rank_word [OF assms(1)] pvq_decode_encode [OF assms(1) _ assms(2)] energy_word [OF assms(1)]
    by (auto simp: Icwrs_def energy_def)
  moreover have "\<exists>ws yy. vector_of n k ws \<and> cwrsi (int n) (int k) i y = Ok (yy, map word_of_int ws)
      \<and> Icwrs (int n) (map word_of_int ws) = Ok i" if i: "uint i < int (pvq_v n k)"
  proof -
    have u: "uint i = int (nat (uint i))" "nat (uint i) < pvq_v n k" using i nat_less_iff [of "uint i" "pvq_v n k"] by simp_all
    from cwrsi_ok [OF p u assms(2)] obtain ws where ws: "cwrsi (int n) (int k) i y = Ok (word_of_int (energy ws), map word_of_int ws)"
      "vector_of n k ws" "pvq_rank ws = nat (uint i)" by blast
    have "(word_of_nat (nat (uint i)) :: u32) = i" by (rule u32_pvq [OF u(1), symmetric])
    then have "Icwrs (int n) (map word_of_int ws) = Ok i" using icwrs_ok [OF ws(2) p] ws(3) by (simp add: Icwrs_def)
    with ws(1,2) show ?thesis by blast
  qed
  ultimately show ?thesis by blast
qed

lemma pvq_bijection_witness:
  "(\<exists>i yy. Icwrs (int 4) (map word_of_int [0, -2, 1, 0]) = Ok i \<and> uint i < int (pvq_v 4 3)
      \<and> cwrsi (int 4) (int 3) i [9, 9, 9, 9] = Ok (yy, map word_of_int [0, -2, 1, 0]) \<and> sint yy = (\<Sum>v\<leftarrow>[0, -2, 1, 0]. v * v))
   \<and> (\<exists>ws yy. vector_of 4 3 ws \<and> cwrsi (int 4) (int 3) 40 [9, 9, 9, 9] = Ok (yy, map word_of_int ws)
      \<and> Icwrs (int 4) (map word_of_int ws) = Ok 40)"
proof -
  have p: "pulses_ok 4 3" "vector_of 4 3 [0, -2, 1, 0]" by (simp_all add: demo_sizes vector_of_def)
  have v: "uint (40 :: u32) < int (pvq_v 4 3)"
    by (simp add: demo_sizes)
  have "length [9, 9, 9, 9 :: i32] = 4" by simp
  from pvq_bijection [OF p(1) this] p(2) v show ?thesis by blast
qed

text \<open>C12: A session of pulse vectors: any sequence of vectors of the codebook, each of a size that may
  depend on the ones before, is written with \<^verbatim>\<open>EncodePulses\<close> from \<^verbatim>\<open>Init\<close> to \<^verbatim>\<open>Done\<close>, and if the encoder
  reports no error \<^verbatim>\<open>DecodePulses\<close> reads exactly these vectors back.\<close>

theorem pulse_session_roundtrip:
  assumes "all_ok pulses_fit proto [] vs" "len buf < 4294967296" "49 * length vs < 4294967200"
  shows "\<exists>e e'. write_all put_pulses proto [] vs (Enc_Init buf) = Ok e \<and> EncDone e = Ok e'
    \<and> (e_error e' = 0 \<longrightarrow> (\<exists>d d'. Dec_Init d0 (e_buf e') = Ok d
         \<and> read_all get_pulses proto [] (length vs) d = Ok (vs, d')
         \<and> d_error d' = 0 \<and> d_rng d' = e_rng e \<and> Dec_Tell d' = Enc_Tell e))"
  using assms by (rule pvq.session)

lemma pulse_session_roundtrip_witness:
  "\<exists>e e'. write_all put_pulses (\<lambda>past. if past = [] then (4, 3) else (2, 5)) [] [[0, -2, 1, 0], [5, 0]] (Enc_Init (replicate 9 0)) = Ok e
    \<and> EncDone e = Ok e'
    \<and> (e_error e' = 0 \<longrightarrow> (\<exists>d d'. Dec_Init zero_dec (e_buf e') = Ok d
         \<and> read_all get_pulses (\<lambda>past. if past = [] then (4, 3) else (2, 5)) [] (length [[0, -2, 1, 0], [5, 0 :: int]]) d
           = Ok ([[0, -2, 1, 0], [5, 0]], d')
         \<and> d_error d' = 0 \<and> d_rng d' = e_rng e \<and> Dec_Tell d' = Enc_Tell e))"
proof (rule pulse_session_roundtrip)
  show "all_ok pulses_fit (\<lambda>past. if past = [] then (4, 3) else (2, 5)) [] [[0, -2, 1, 0], [5, 0]]"
    by (simp add: vector_of_def demo_sizes)
qed simp_all

end
