(* ===== verification/Ogg_Crc.thy ===== *)
theory Ogg_Crc
  imports Prelude
begin

text \<open>
  The Ogg page checksum (\<^verbatim>\<open>oggopus/crc.go\<close>): the table-driven CRC, and its agreement with the
  bit-serial register of RFC 3533.
\<close>

definition crcPoly :: u32 where "crcPoly = 0x04c11db7"

text \<open>The body of the inner loop of \<^verbatim>\<open>makeCRCTable\<close>.\<close>

definition crc_round :: "u32 \<Rightarrow> u32" where
  "crc_round r = (if r AND 0x80000000 \<noteq> 0 then push_bit 1 r XOR crcPoly else push_bit 1 r)"

definition makeCRCTable :: "u32 list" where
  "makeCRCTable = map (\<lambda>i. (crc_round ^^ 8) (push_bit 24 (word_of_nat i))) [0..<256]"

definition crcTable :: "u32 list" where
  "crcTable = makeCRCTable"

fun crc32 :: "u32 \<Rightarrow> bytes \<Rightarrow> u32" where
  "crc32 crc [] = crc"
| "crc32 crc (x # b) = crc32 (push_bit 8 crc XOR crcTable ! unat ((ucast (drop_bit 24 crc) :: u8) XOR x)) b"

section \<open>The bit-serial register\<close>

text \<open>The message enters the shift register bit by bit, most significant bit first.\<close>

definition crc_bit :: "u32 \<Rightarrow> bool \<Rightarrow> u32" where
  "crc_bit r b = (if bit r 31 \<noteq> b then push_bit 1 r XOR crcPoly else push_bit 1 r)"

definition byte_bits :: "u8 \<Rightarrow> bool list" where
  "byte_bits x = map (\<lambda>i. bit x (7 - i)) [0..<8]"

definition crc_serial :: "u32 \<Rightarrow> bytes \<Rightarrow> u32" where
  "crc_serial crc b = foldl crc_bit crc (concat (map byte_bits b))"

lemma top_bit: "r AND 0x80000000 \<noteq> 0 \<longleftrightarrow> bit r 31" for r :: u32
proof -
  have m: "(0x80000000 :: u32) = push_bit 31 1" by simp
  have "bit r 31 \<longleftrightarrow> r AND push_bit 31 1 \<noteq> 0"
    by (simp add: bit_iff_and_push_bit_not_eq_0 del: push_bit_of_1)
  then show ?thesis unfolding m by simp
qed

lemma crc_round_bit: "crc_round r = (if bit r 31 then push_bit 1 r XOR crcPoly else push_bit 1 r)"
  unfolding crc_round_def top_bit by simp

lemma crc_round_xor: "crc_round (a XOR b) = crc_round a XOR crc_round b"
proof -
  have p: "push_bit 1 (a XOR b) = push_bit 1 a XOR push_bit 1 b" by (rule push_bit_xor)
  have x: "u XOR w XOR (v XOR w) = u XOR v" for u v w :: u32 by (rule bit_word_eqI) (auto simp: bit_simps)
  show ?thesis unfolding crc_round_bit p by (auto simp: bit_xor_iff x xor.assoc xor.left_commute xor.commute)
qed

lemma crc_rounds_xor: "(crc_round ^^ n) (a XOR b) = (crc_round ^^ n) a XOR (crc_round ^^ n) b"
  by (induction n arbitrary: a b) (simp_all add: crc_round_xor funpow_swap1)

lemma crc_rounds_small:
  assumes "n \<le> 8" "uint r < 2 ^ 24"
  shows "(crc_round ^^ n) r = push_bit n r"
  using assms
proof (induction n)
  case (Suc n)
  have "\<not> bit (push_bit n r) 31"
  proof
    assume b: "bit (push_bit n r) 31"
    then have "bit r (31 - n)" by (simp add: bit_push_bit_iff)
    then have "bit (uint r) (31 - n)" by (simp add: bit_uint_iff)
    moreover have "take_bit 24 (uint r) = uint r" using Suc.prems by (simp add: take_bit_int_eq_self)
    ultimately show False using Suc.prems(1) bit_take_bit_iff [of 24 "uint r" "31 - n"] by simp
  qed
  with Suc show ?case by (simp add: crc_round_bit push_bit_push_bit)
qed simp

text \<open>One byte through the serial register.\<close>

lemma crc_bit_round: "crc_bit r b = crc_round (r XOR (if b then 0x80000000 else 0))"
proof -
  have t: "bit (0x80000000 :: u32) 31" by simp
  have "push_bit 1 (0x80000000 :: u32) = 0" by simp
  then have "push_bit 1 (r XOR 0x80000000) = push_bit 1 r" by (simp only: push_bit_xor xor.right_neutral)
  with t show ?thesis by (auto simp: crc_bit_def crc_round_bit bit_xor_iff simp del: push_bit_of_1 push_bit_numeral)
qed

fun bits_word :: "bool list \<Rightarrow> u32" where
  "bits_word [] = 0"
| "bits_word (b # bs) = (if b then 0x80000000 else 0) XOR drop_bit 1 (bits_word bs)"

lemma bit_top: "bit (0x80000000 :: u32) n \<longleftrightarrow> n = 31"
proof -
  have "(0x80000000 :: u32) = push_bit 31 1" by simp
  then show ?thesis by (simp only: bit_push_bit_iff bit_1_iff) auto
qed

lemma bits_word_low: "length bs + n < 32 \<Longrightarrow> \<not> bit (bits_word bs) n"
proof (induction bs arbitrary: n)
  case (Cons b bs)
  have "\<not> bit (if b then 0x80000000 else 0 :: u32) n"
    using Cons.prems by (simp only: bit_top if_distrib [where f = "\<lambda>w. bit w n"]) simp
  moreover have "\<not> bit (bits_word bs) (Suc n)" using Cons.IH [of "Suc n"] Cons.prems by simp
  ultimately show ?case by (simp add: bit_xor_iff bit_drop_bit_eq)
qed simp

lemma crc_round_half: "\<not> bit r 0 \<Longrightarrow> crc_round (drop_bit 1 r) = r"
proof -
  assume "\<not> bit r 0"
  then have "bit (push_bit 1 (drop_bit 1 r)) n = bit r n" if "n < 32" for n
    using that by (cases n) (simp_all only: bit_push_bit_iff bit_drop_bit_eq comp_def, simp_all)
  then have "push_bit 1 (drop_bit 1 r) = r" by (intro bit_word_eqI) simp_all
  moreover have "\<not> bit (drop_bit 1 r) 31" by (auto simp: bit_drop_bit_eq dest: bit_imp_le_length)
  ultimately show ?thesis by (simp only: crc_round_bit if_False)
qed

lemma crc_bits: "length bs \<le> 32 \<Longrightarrow> foldl crc_bit c bs = (crc_round ^^ length bs) (c XOR bits_word bs)"
proof (induction bs arbitrary: c)
  case (Cons b bs)
  have "\<not> bit (bits_word bs) 0" using bits_word_low [of bs 0] Cons.prems by simp
  then have h: "crc_round (drop_bit 1 (bits_word bs)) = bits_word bs" by (rule crc_round_half)
  have "foldl crc_bit c (b # bs) = (crc_round ^^ length bs) (crc_bit c b XOR bits_word bs)" using Cons by simp
  also have "crc_bit c b XOR bits_word bs = crc_round (c XOR bits_word (b # bs))"
    unfolding crc_bit_round bits_word.simps crc_round_xor h by (simp only: xor.assoc)
  finally show ?case by (simp add: funpow_swap1)
qed simp

lemma bit_bits_word:
  "length bs \<le> 32 \<Longrightarrow> bit (bits_word bs) n \<longleftrightarrow> n < 32 \<and> 31 - n < length bs \<and> bs ! (31 - n)"
proof (induction bs arbitrary: n)
  case (Cons b bs)
  have z: "\<not> bit (bits_word bs) 32" by (auto dest: bit_imp_le_length)
  have "bit (bits_word (b # bs)) n \<longleftrightarrow> (b \<and> n = 31) \<noteq> bit (bits_word bs) (Suc n)"
    by (simp only: bits_word.simps bit_xor_iff bit_drop_bit_eq bit_top if_distrib [where f = "\<lambda>w. bit w n"]) simp
  also have "\<dots> \<longleftrightarrow> n < 32 \<and> 31 - n < length (b # bs) \<and> (b # bs) ! (31 - n)"
  proof (cases "n = 31")
    case True
    then show ?thesis using z by simp
  next
    case False
    then show ?thesis
      using Cons.IH [of "Suc n"] Cons.prems by (auto simp: nth_Cons')
  qed
  finally show ?case .
qed simp

lemma byte_word: "bits_word (byte_bits x) = push_bit 24 (ucast x)"
proof (rule bit_word_eqI)
  fix n
  assume "n < LENGTH(32)"
  then have n: "n < 32" by simp
  have l: "length (byte_bits x) = 8" by (simp add: byte_bits_def)
  have "bit (bits_word (byte_bits x)) n \<longleftrightarrow> 24 \<le> n \<and> bit x (n - 24)"
    using n by (auto simp: bit_bits_word l) (auto simp: byte_bits_def)
  then show "bit (bits_word (byte_bits x)) n \<longleftrightarrow> bit (push_bit 24 (ucast x) :: u32) n"
    using n by (auto simp: bit_push_bit_iff bit_unsigned_iff)
qed

lemma crcTable_nth: "crcTable ! unat i = (crc_round ^^ 8) (push_bit 24 (ucast i))" for i :: u8
proof -
  have "unat i < 256" using unsigned_less [of i, where 'a = nat] by simp
  moreover have "word_of_nat (unat i) = (ucast i :: u32)" by (rule word_uint_eqI) (simp add: unsigned_ucast_eq take_bit_nat_eq_self)
  ultimately show ?thesis by (simp add: crcTable_def makeCRCTable_def)
qed

lemma crc_split: "c = push_bit 24 (ucast (ucast (drop_bit 24 c) :: u8)) XOR take_bit 24 c" for c :: u32
  by (rule bit_word_eqI) (auto simp: bit_simps)

lemma crc_step: "foldl crc_bit c (byte_bits x) = push_bit 8 c XOR crcTable ! unat ((ucast (drop_bit 24 c) :: u8) XOR x)"
proof -
  let ?h = "ucast (drop_bit 24 c) :: u8"
  have "foldl crc_bit c (byte_bits x) = (crc_round ^^ 8) (c XOR push_bit 24 (ucast x))"
  proof -
    have l: "length (byte_bits x) = 8" by (simp add: byte_bits_def)
    then have "foldl crc_bit c (byte_bits x) = (crc_round ^^ length (byte_bits x)) (c XOR bits_word (byte_bits x))"
      by (intro crc_bits) simp
    then show ?thesis by (simp only: l byte_word)
  qed
  also have "c XOR push_bit 24 (ucast x) = push_bit 24 (ucast (?h XOR x)) XOR take_bit 24 c"
    by (subst crc_split [of c]) (simp add: unsigned_xor_eq push_bit_xor xor.assoc xor.left_commute xor.commute)
  also have "(crc_round ^^ 8) (push_bit 24 (ucast (?h XOR x)) XOR take_bit 24 c)
      = crcTable ! unat (?h XOR x) XOR push_bit 8 (take_bit 24 c)"
  proof -
    have "uint (take_bit 24 c) < 2 ^ 24" by (simp only: unsigned_take_bit_eq take_bit_int_less_exp)
    then show ?thesis by (simp only: crc_rounds_xor crcTable_nth crc_rounds_small)
  qed
  also have "push_bit 8 (take_bit 24 c) = push_bit 8 c" by (rule bit_word_eqI) (auto simp: bit_simps)
  finally show ?thesis by (simp only: xor.commute)
qed

lemma crc32_append: "crc32 c (a @ b) = crc32 (crc32 c a) b"
  by (induction a arbitrary: c) simp_all

lemma crc32_serial: "crc32 crc b = crc_serial crc b"
proof (induction b arbitrary: crc)
  case Nil
  show ?case by (simp add: crc_serial_def)
next
  case (Cons x b)
  have "crc_serial crc (x # b) = crc_serial (foldl crc_bit crc (byte_bits x)) b" by (simp add: crc_serial_def)
  then show ?case using Cons crc_step by simp
qed

section \<open>Error detection\<close>

lemma shl_bit: "bit (push_bit 1 d) (Suc n) \<longleftrightarrow> n < 31 \<and> bit d n" for d :: u32
  by (simp only: bit_push_bit_iff) (auto dest: bit_imp_le_length)

lemma shl_bit0: "\<not> bit (push_bit 1 d) 0" for d :: u32
  by (simp only: bit_push_bit_iff not_one_le_zero simp_thms)

lemma crc_round_zero: "crc_round d = 0 \<Longrightarrow> d = 0"
proof -
  assume d: "crc_round d = 0"
  have p: "bit crcPoly 0" by (simp add: crcPoly_def)
  have top: "\<not> bit d 31"
  proof
    assume "bit d 31"
    then have "bit (crc_round d) 0 \<longleftrightarrow> bit (push_bit 1 d) 0 \<noteq> bit crcPoly 0" by (simp only: crc_round_bit if_True bit_xor_iff)
    then have "bit (crc_round d) 0" using p shl_bit0 [of d] by simp
    then show False using d by simp
  qed
  then have s: "push_bit 1 d = 0" using d by (simp only: crc_round_bit if_False)
  have "\<not> bit d n" if "n < 32" for n
  proof (cases "n = 31")
    case False
    then show ?thesis using that shl_bit [of d n] unfolding s by simp
  qed (use top in simp)
  then show "d = 0" by (intro bit_word_eqI) simp
qed

lemma crc_round_inj: "crc_round a = crc_round b \<Longrightarrow> a = b"
proof -
  assume "crc_round a = crc_round b"
  then have "crc_round (a XOR b) = 0" by (simp only: crc_round_xor xor_self_eq)
  then have "a XOR b = 0" by (rule crc_round_zero)
  then have "(a XOR b) XOR b = 0 XOR b" by (rule arg_cong)
  then show "a = b" by (simp only: xor.assoc xor_self_eq xor.right_neutral xor.left_neutral)
qed

lemma crc_rounds_inj: "(crc_round ^^ n) a = (crc_round ^^ n) b \<Longrightarrow> a = b"
  by (induction n arbitrary: a b) (auto simp: funpow_swap1 dest: crc_round_inj simp del: funpow.simps(2) simp: funpow_Suc_right)

lemma bits_word_inj: "length as = length bs \<Longrightarrow> length bs \<le> 32 \<Longrightarrow> bits_word as = bits_word bs \<Longrightarrow> as = bs"
proof (rule nth_equalityI)
  fix i
  assume "length as = length bs" "length bs \<le> 32" "bits_word as = bits_word bs" "i < length as"
  then show "as ! i = bs ! i" using bit_bits_word [of as "31 - i"] bit_bits_word [of bs "31 - i"] by auto
qed simp

lemma byte_bits_inj: "byte_bits x = byte_bits y \<Longrightarrow> x = y"
proof -
  assume "byte_bits x = byte_bits y"
  then have "push_bit 24 (ucast x) = (push_bit 24 (ucast y) :: u32)" using byte_word by metis
  then have "bit (push_bit 24 (ucast x) :: u32) (n + 24) = bit (push_bit 24 (ucast y) :: u32) (n + 24)" for n by simp
  note b = this
  have "bit x n = bit y n" if "n < 8" for n using b [of n] that by (simp add: bit_push_bit_iff bit_unsigned_iff)
  then show "x = y" by (intro bit_word_eqI) simp
qed

lemma all_bits_inj: "length xs = length ys \<Longrightarrow> concat (map byte_bits xs) = concat (map byte_bits ys) \<Longrightarrow> xs = ys"
proof (induction xs ys rule: list_induct2)
  case (Cons x xs y ys)
  have "length (byte_bits x) = length (byte_bits y)" by (simp add: byte_bits_def)
  with Cons show ?case by (auto dest: byte_bits_inj)
qed simp

lemma all_bits_length: "length (concat (map byte_bits xs)) = 8 * length xs"
  by (induction xs) (simp_all add: byte_bits_def)

text \<open>C35: The table-driven checksum is the CRC of RFC 3533: for every register value and message it
  equals the bit-serial register with polynomial 0x04c11db7, most significant bit first,
  unreflected, without a final inversion.\<close>

theorem crc32_is_serial: "crc32 crc b = crc_serial crc b"
  by (rule crc32_serial)

lemma crc32_rounds: "length b \<le> 4 \<Longrightarrow> crc32 c b = (crc_round ^^ (8 * length b)) (c XOR bits_word (concat (map byte_bits b)))"
  unfolding crc32_serial crc_serial_def by (subst crc_bits) (simp_all add: all_bits_length)

lemma crc32_short:
  assumes "length a = length b" "length b \<le> 4" "crc32 c a = crc32 c' b"
  shows "c XOR bits_word (concat (map byte_bits a)) = c' XOR bits_word (concat (map byte_bits b))"
proof -
  have "length a \<le> 4" using assms by simp
  from assms(3) [unfolded crc32_rounds [OF this] crc32_rounds [OF assms(2)] assms(1)] show ?thesis by (rule crc_rounds_inj)
qed

lemma xor_cancel: "a XOR w = b XOR w \<Longrightarrow> a = b" for a b w :: u32
  by (metis xor.assoc xor_self_eq xor.right_neutral)

lemma crc32_inj: "crc32 c b = crc32 c' b \<Longrightarrow> c = c'"
proof (induction b arbitrary: c c')
  case (Cons x b)
  have "crc32 c [x] = crc32 c' [x]" by (rule Cons.IH) (use Cons.prems in simp)
  from crc32_short [OF refl _ this] have "c XOR bits_word (byte_bits x) = c' XOR bits_word (byte_bits x)" by simp
  then show ?case by (rule xor_cancel)
qed simp

lemma crc_burst:
  assumes "length xs = length ys" "length ys \<le> 4" "crc32 c (p @ xs @ s) = crc32 c (p @ ys @ s)"
  shows "xs = ys"
proof -
  let ?c = "crc32 c p"
  have "crc32 ?c xs = crc32 ?c ys" by (rule crc32_inj [of _ s]) (use assms(3) in \<open>simp add: crc32_append\<close>)
  from crc32_short [OF assms(1,2) this]
  have "bits_word (concat (map byte_bits xs)) = bits_word (concat (map byte_bits ys))"
    by (metis xor.commute xor_cancel)
  then have "concat (map byte_bits xs) = concat (map byte_bits ys)"
    using assms(1,2) by (intro bits_word_inj) (simp_all add: all_bits_length)
  with assms(1) show ?thesis by (rule all_bits_inj)
qed

text \<open>The checksum detects every error confined to four consecutive bytes: two messages that differ
  only there, wherever they stand, have different checksums.\<close>

theorem crc32_detects_bursts:
  assumes "length xs = length ys" "length ys \<le> 4" "xs \<noteq> ys"
  shows "crc32 c (p @ xs @ s) \<noteq> crc32 c (p @ ys @ s)"
  using assms crc_burst by blast

lemma crc32_detects_bursts_witness: "crc32 0 ([79, 103] @ [1, 2] @ [7]) \<noteq> crc32 0 ([79, 103] @ [1, 3] @ [7])"
  by (rule crc32_detects_bursts) simp_all

end
