(* ===== verification/Ogg_Page.thy ===== *)
theory Ogg_Page
  imports Ogg_Crc
begin

text \<open>
  Ogg pages (\<^verbatim>\<open>oggopus/page.go\<close>): little-endian fields, the page writer, the page reader, the
  in-memory parser, and lacing.

  The sink is the caller's \<^verbatim>\<open>io.Writer\<close>, a parameter \<open>wr\<close> of the operations that write: it takes
  the sink's state and the bytes and returns the new state with the error, if any.  The source is
  a \<^verbatim>\<open>bufio.Reader\<close>: the bytes it will still deliver and the error it reports behind them.
  Granule positions (\<^verbatim>\<open>int64\<close>) are integers, converted at the wire; \<^verbatim>\<open>readPage\<close>'s buffer \<^verbatim>\<open>pg.raw\<close> is
  not observable and left out.
\<close>

datatype oerr =
    EOF | UnexpectedEOF | ReadError nat | WriteError nat
  | BadSegmentCount int | SegmentSum int int
  | errBadCapture | UnsupportedVersion u8 | EmptySegmentTable | CRCMismatch u32 u32 | errShortPage
  | ErrNotOpus bytes | HeadTooShort int | HeadMajorVersion u8 | ZeroChannels | Family0Channels u8 | MappingTruncated u8
  | TagsTooShort int | BadTagsMagic bytes | VendorOverrun int | MissingCommentCount | CommentTruncated nat | CommentOverrun nat int
  | MissingBOS | UnexpectedSerial u32 | ErrPacketTooLarge int | StreamEnded string | ReadingHeader string oerr
  | ErrInvalidConfig string int | ErrClosed | errUninitialized | errNilWriter | errNilReader
  | TrailingBytes int | CodecError string nat | ErrDecodeLimit int

type_synonym 'a ogg = "(oerr, 'a) res"

section \<open>Little-endian fields (encoding/binary)\<close>

definition put16 :: "u16 \<Rightarrow> bytes" where
  "put16 v = [ucast v, ucast (drop_bit 8 v)]"

definition put32 :: "u32 \<Rightarrow> bytes" where
  "put32 v = [ucast v, ucast (drop_bit 8 v), ucast (drop_bit 16 v), ucast (drop_bit 24 v)]"

definition put64 :: "u64 \<Rightarrow> bytes" where
  "put64 v = put32 (ucast v) @ put32 (ucast (drop_bit 32 v))"

definition get16 :: "bytes \<Rightarrow> u16" where
  "get16 b = ucast (b ! 0) OR push_bit 8 (ucast (b ! 1))"

definition get32 :: "bytes \<Rightarrow> u32" where
  "get32 b = ucast (b ! 0) OR push_bit 8 (ucast (b ! 1)) OR push_bit 16 (ucast (b ! 2)) OR push_bit 24 (ucast (b ! 3))"

definition get64 :: "bytes \<Rightarrow> u64" where
  "get64 b = ucast (get32 b) OR push_bit 32 (ucast (get32 (drop 4 b)))"

section \<open>Pages\<close>

definition capturePattern :: bytes where "capturePattern = [79, 103, 103, 83]"
definition pageVersion :: u8 where "pageVersion = 0"
definition pageHeaderFixedLen :: nat where "pageHeaderFixedLen = 27"
definition crcFieldOffset :: nat where "crcFieldOffset = 22"
definition maxPageSegments :: nat where "maxPageSegments = 255"
definition maxSegmentLen :: nat where "maxSegmentLen = 255"
definition maxPageBodyLen :: nat where "maxPageBodyLen = maxPageSegments * maxSegmentLen"

type_synonym headerType = u8

definition flagContinued :: headerType where "flagContinued = 1"
definition flagBOS :: headerType where "flagBOS = 2"
definition flagEOS :: headerType where "flagEOS = 4"

definition granuleNone :: int where "granuleNone = -1"

record page =
  flags :: headerType
  granule :: int
  serial :: u32
  sequence :: u32
  segTable :: bytes
  body :: bytes

definition seg_sum :: "bytes \<Rightarrow> nat" where
  "seg_sum segs = (\<Sum>l\<leftarrow>segs. unat l)"

text \<open>The buffer \<^verbatim>\<open>writePage\<close> assembles: header with a zero CRC field, segment table, body; then
  the CRC is put in its field.\<close>

definition page_buf :: "headerType \<Rightarrow> int \<Rightarrow> u32 \<Rightarrow> u32 \<Rightarrow> bytes \<Rightarrow> bytes \<Rightarrow> bytes" where
  "page_buf fl gran ser sq segs bdy =
     (let buf = capturePattern @ [pageVersion, fl] @ put64 (word_of_int gran) @ put32 ser @ put32 sq
            @ [0, 0, 0, 0] @ [word_of_nat (length segs)] @ segs @ bdy;
          sum32 = crc32 0 buf in
      take crcFieldOffset buf @ put32 sum32 @ drop (crcFieldOffset + 4) buf)"

definition writePage :: "('w \<Rightarrow> bytes \<Rightarrow> 'w \<times> oerr option) \<Rightarrow> 'w \<Rightarrow> headerType \<Rightarrow> int \<Rightarrow> u32 \<Rightarrow> u32 \<Rightarrow> bytes \<Rightarrow> bytes
    \<Rightarrow> 'w \<times> oerr option" where
  "writePage wr w fl gran ser sq segs bdy =
     (if segs = [] \<or> length segs > maxPageSegments then (w, Some (BadSegmentCount (len segs)))
      else if seg_sum segs \<noteq> length bdy then (w, Some (SegmentSum (int (seg_sum segs)) (len bdy)))
      else wr w (page_buf fl gran ser sq segs bdy))"

definition pageCRC :: "bytes \<Rightarrow> bytes \<Rightarrow> bytes \<Rightarrow> u32" where
  "pageCRC hdr segs bdy =
     (let zeroed = take crcFieldOffset hdr @ [0, 0, 0, 0] @ drop (crcFieldOffset + 4) (take pageHeaderFixedLen hdr) in
      crc32 (crc32 (crc32 0 zeroed) segs) bdy)"

text \<open>The fields of a page whose header is \<open>buf\<close>.\<close>

definition page_of :: "bytes \<Rightarrow> bytes \<Rightarrow> bytes \<Rightarrow> page" where
  "page_of buf segs bdy = \<lparr>flags = buf ! 5, granule = sint (get64 (take 8 (drop 6 buf))),
     serial = get32 (take 4 (drop 14 buf)), sequence = get32 (take 4 (drop 18 buf)), segTable = segs, body = bdy\<rparr>"

definition parsePage :: "bytes \<Rightarrow> (page \<times> nat) ogg" where
  "parsePage b =
     (if length b < pageHeaderFixedLen then Err errShortPage
      else if take 4 b \<noteq> capturePattern then Err errBadCapture
      else if b ! 4 \<noteq> pageVersion then Err (UnsupportedVersion (b ! 4))
      else
        let segCount = unat (b ! 26) in
        if segCount = 0 then Err EmptySegmentTable
        else
          let hdrLen = pageHeaderFixedLen + segCount in
          if length b < hdrLen then Err errShortPage
          else
            let segs = drop pageHeaderFixedLen (take hdrLen b); total = hdrLen + seg_sum segs in
            if length b < total then Err errShortPage
            else
              let bdy = drop hdrLen (take total b); stored = get32 (take 4 (drop crcFieldOffset b));
                  sum = pageCRC (take pageHeaderFixedLen b) segs bdy in
              if sum \<noteq> stored then Err (CRCMismatch stored sum) else Ok (page_of b segs bdy, total))"

record source =
  rest :: bytes
  src_err :: oerr

text \<open>\<^verbatim>\<open>io.ReadFull\<close>: all \<open>n\<close> bytes, or the error (an end of input inside them is unexpected).\<close>

definition read_full :: "nat \<Rightarrow> source \<Rightarrow> source \<times> (oerr + bytes)" where
  "read_full n r =
     (if n \<le> length (rest r) then (r\<lparr>rest := drop n (rest r)\<rparr>, Inr (take n (rest r)))
      else (r\<lparr>rest := []\<rparr>, Inl (if rest r \<noteq> [] \<and> src_err r = EOF then UnexpectedEOF else src_err r)))"

definition unexpectedEOF :: "oerr \<Rightarrow> oerr" where
  "unexpectedEOF err = (if err = EOF then UnexpectedEOF else err)"

text \<open>A failed read keeps the fields of \<^verbatim>\<open>pg\<close> but clears its segment table and body.\<close>

definition readPage :: "source \<Rightarrow> page \<Rightarrow> source \<times> page \<times> oerr option" where
  "readPage r pg =
     (let pg = pg\<lparr>segTable := [], body := []\<rparr> in
      if rest r = [] then (r, pg, Some (src_err r))
      else case read_full pageHeaderFixedLen r of
        (r, Inl e) \<Rightarrow> (r, pg, Some (unexpectedEOF e))
      | (r, Inr hdr) \<Rightarrow>
          if take 4 hdr \<noteq> capturePattern then (r, pg, Some errBadCapture)
          else if hdr ! 4 \<noteq> pageVersion then (r, pg, Some (UnsupportedVersion (hdr ! 4)))
          else
            let segCount = unat (hdr ! 26) in
            if segCount = 0 then (r, pg, Some EmptySegmentTable)
            else (case read_full segCount r of
                (r, Inl e) \<Rightarrow> (r, pg, Some (unexpectedEOF e))
              | (r, Inr segs) \<Rightarrow>
                  (case read_full (seg_sum segs) r of
                    (r, Inl e) \<Rightarrow> (r, pg, Some (unexpectedEOF e))
                  | (r, Inr bdy) \<Rightarrow>
                      let stored = get32 (take 4 (drop crcFieldOffset hdr)); sum = pageCRC hdr segs bdy in
                      if sum \<noteq> stored then (r, pg, Some (CRCMismatch stored sum))
                      else (r, page_of hdr segs bdy, None))))"

definition completesPacket :: "page \<Rightarrow> bool" where
  "completesPacket p = list_ex (\<lambda>l. unat l < maxSegmentLen) (segTable p)"

section \<open>Lacing\<close>

function lacing :: "nat \<Rightarrow> bytes" where
  "lacing n = (if n \<ge> maxSegmentLen then word_of_nat maxSegmentLen # lacing (n - maxSegmentLen) else [word_of_nat n])"
  by pat_completeness auto
termination
  by (relation "measure id") (auto simp: maxSegmentLen_def)

declare lacing.simps [simp del]

end
