(* ===== verification/Ogg_Page_Props.thy ===== *)
theory Ogg_Page_Props
  imports Ogg_Page
begin

text \<open>
  Pages: little-endian fields come back, the parser accepts exactly what the writer assembles, the
  stream reader agrees with the in-memory parser, and corruption is detected.
\<close>

lemma get16_put16: "get16 (put16 v @ r) = v"
  by (rule bit_word_eqI) (auto simp: get16_def put16_def bit_simps)

lemma get32_put32: "get32 (put32 v @ r) = v"
proof (rule bit_word_eqI)
  fix n
  assume "n < LENGTH(32)"
  then consider "n < 8" | "8 \<le> n" "n < 16" | "16 \<le> n" "n < 24" | "24 \<le> n" "n < 32" by fastforce
  then show "bit (get32 (put32 v @ r)) n \<longleftrightarrow> bit v n"
    by cases (auto simp: get32_def put32_def bit_simps)
qed

lemma get64_put64: "get64 (put64 v @ r) = v"
proof -
  have l: "length (put32 w) = 4" for w by (simp add: put32_def)
  have "get32 (put64 v @ r) = ucast v" by (simp only: put64_def append_assoc get32_put32)
  moreover have "get32 (drop 4 (put64 v @ r)) = ucast (drop_bit 32 v)"
    by (simp only: put64_def append_assoc) (simp add: l get32_put32)
  ultimately have "get64 (put64 v @ r) = ucast (ucast v :: u32) OR push_bit 32 (ucast (ucast (drop_bit 32 v) :: u32))"
    by (simp only: get64_def)
  also have "\<dots> = v" by (rule bit_word_eqI) (auto simp: bit_simps)
  finally show ?thesis .
qed

lemma length_put [simp]: "length (put16 a) = 2" "length (put32 b) = 4" "length (put64 c) = 8"
  by (simp_all add: put16_def put32_def put64_def)

lemmas page_consts = pageHeaderFixedLen_def crcFieldOffset_def maxPageSegments_def maxSegmentLen_def

section \<open>The page writer and the parser\<close>

text \<open>The header \<open>writePage\<close> assembles around its CRC field.\<close>

definition head_front :: "headerType \<Rightarrow> int \<Rightarrow> u32 \<Rightarrow> u32 \<Rightarrow> bytes" where
  "head_front fl gran ser sq = capturePattern @ [pageVersion, fl] @ put64 (word_of_int gran) @ put32 ser @ put32 sq"

lemma length_head_front [simp]: "length (head_front fl gran ser sq) = 22"
  by (simp add: head_front_def capturePattern_def)

definition page_sum :: "headerType \<Rightarrow> int \<Rightarrow> u32 \<Rightarrow> u32 \<Rightarrow> bytes \<Rightarrow> bytes \<Rightarrow> u32" where
  "page_sum fl gran ser sq segs bdy = crc32 0 (head_front fl gran ser sq @ [0, 0, 0, 0] @ [word_of_nat (length segs)] @ segs @ bdy)"

lemma page_buf_eq: "page_buf fl gran ser sq segs bdy
    = head_front fl gran ser sq @ put32 (page_sum fl gran ser sq segs bdy) @ [word_of_nat (length segs)] @ segs @ bdy"
proof -
  let ?buf = "head_front fl gran ser sq @ [0, 0, 0, 0] @ [word_of_nat (length segs)] @ segs @ bdy"
  have "take 22 ?buf = head_front fl gran ser sq" "drop 26 ?buf = [word_of_nat (length segs)] @ segs @ bdy" by simp_all
  moreover have "capturePattern @ [pageVersion, fl] @ put64 (word_of_int gran) @ put32 ser @ put32 sq @ [0, 0, 0, 0] @ [word_of_nat (length segs)] @ segs @ bdy = ?buf"
    by (simp add: head_front_def)
  ultimately show ?thesis
    by (simp only: page_buf_def Let_def page_sum_def crcFieldOffset_def) simp
qed

lemma head_fields:
  "take 4 (head_front fl gran ser sq @ r) = capturePattern" "(head_front fl gran ser sq @ r) ! 4 = pageVersion"
  "(head_front fl gran ser sq @ r) ! 5 = fl" "drop 6 (head_front fl gran ser sq @ r) = put64 (word_of_int gran) @ put32 ser @ put32 sq @ r"
  "drop 14 (head_front fl gran ser sq @ r) = put32 ser @ put32 sq @ r" "drop 18 (head_front fl gran ser sq @ r) = put32 sq @ r"
  by (simp_all add: head_front_def capturePattern_def)

lemma sint_granule: "- (2 ^ 63) \<le> g \<Longrightarrow> g < 2 ^ 63 \<Longrightarrow> sint (word_of_int g :: u64) = g"
  by (simp add: sint_uint unsigned_of_int signed_take_bit_take_bit signed_take_bit_int_eq_self)

lemma page_of_head:
  assumes "- (2 ^ 63) \<le> gran" "gran < 2 ^ 63"
  shows "page_of (head_front fl gran ser sq @ r) segs bdy
    = \<lparr>flags = fl, granule = gran, serial = ser, sequence = sq, segTable = segs, body = bdy\<rparr>"
proof -
  have "take 8 (drop 6 (head_front fl gran ser sq @ r)) = put64 (word_of_int gran) @ []"
    "take 4 (drop 14 (head_front fl gran ser sq @ r)) = put32 ser @ []"
    "take 4 (drop 18 (head_front fl gran ser sq @ r)) = put32 sq @ []"
    unfolding head_fields by simp_all
  then show ?thesis
    by (simp only: page_of_def head_fields(3) get64_put64 get32_put32 sint_granule [OF assms])
qed

lemma pageCRC_head:
  assumes "length c = 4"
  shows "pageCRC (head_front fl gran ser sq @ c @ [word_of_nat (length segs)]) segs bdy = page_sum fl gran ser sq segs bdy"
proof -
  let ?h = "head_front fl gran ser sq @ c @ [word_of_nat (length segs)]"
  have "take 22 ?h = head_front fl gran ser sq" "take 27 ?h = ?h" "drop 26 ?h = [word_of_nat (length segs)]"
    using assms by simp_all
  then have "pageCRC ?h segs bdy
      = crc32 (crc32 (crc32 0 (head_front fl gran ser sq @ [0, 0, 0, 0] @ [word_of_nat (length segs)])) segs) bdy"
    unfolding pageCRC_def Let_def page_consts by simp
  then show ?thesis by (simp add: page_sum_def crc32_append)
qed

lemma segCount_byte: "length segs \<le> 255 \<Longrightarrow> unat (word_of_nat (length segs) :: u8) = length segs"
  by (simp add: unsigned_of_nat take_bit_nat_eq_self)

text \<open>The parser on a page with any CRC field, and body bytes that need not be the written ones.\<close>

lemma parsePage_image:
  assumes "segs \<noteq> []" "length segs \<le> 255" "seg_sum segs = length bdy" "- (2 ^ 63) \<le> gran" "gran < 2 ^ 63"
  shows "parsePage (head_front fl gran ser sq @ put32 c @ [word_of_nat (length segs)] @ segs @ bdy @ r)
    = (if page_sum fl gran ser sq segs bdy \<noteq> c then Err (CRCMismatch c (page_sum fl gran ser sq segs bdy))
       else Ok (\<lparr>flags = fl, granule = gran, serial = ser, sequence = sq, segTable = segs, body = bdy\<rparr>,
                27 + length segs + length bdy))"
proof -
  let ?n = "[word_of_nat (length segs)] :: bytes"
  let ?h = "head_front fl gran ser sq @ put32 c @ ?n"
  let ?b = "?h @ segs @ bdy @ r"
  have lh: "length ?h = 27" by simp
  have b4: "take 4 ?b = capturePattern" "?b ! 4 = pageVersion"
    using head_fields(1,2) [of fl gran ser sq "put32 c @ ?n @ segs @ bdy @ r"] by simp_all
  have b26: "unat (?b ! 26) = length segs" using segCount_byte [OF assms(2)] by (simp add: nth_append)
  have cut: "drop 27 (take (27 + length segs) ?b) = segs" "drop (27 + length segs) (take (27 + length segs + length bdy) ?b) = bdy"
    "take 27 ?b = ?h" using lh by simp_all
  have crcf: "get32 (take 4 (drop 22 ?b)) = c" using get32_put32 [of c "[]"] by simp
  have pg: "page_of ?b segs bdy
      = \<lparr>flags = fl, granule = gran, serial = ser, sequence = sq, segTable = segs, body = bdy\<rparr>"
    using page_of_head [OF assms(4,5), of fl ser sq "put32 c @ ?n @ segs @ bdy @ r" segs bdy] by simp
  have sum: "pageCRC ?h segs bdy = page_sum fl gran ser sq segs bdy" by (rule pageCRC_head) simp
  have "\<not> length ?b < 27" "length segs \<noteq> 0" "\<not> length ?b < 27 + length segs" "\<not> length ?b < 27 + length segs + length bdy"
    using assms(1) by simp_all
  then have "parsePage ?b = (if page_sum fl gran ser sq segs bdy \<noteq> c then Err (CRCMismatch c (page_sum fl gran ser sq segs bdy))
       else Ok (\<lparr>flags = fl, granule = gran, serial = ser, sequence = sq, segTable = segs, body = bdy\<rparr>,
                27 + length segs + length bdy))"
    unfolding parsePage_def Let_def page_consts b4 b26 cut crcf pg sum assms(3) by (simp only: simp_thms if_False)
  then show ?thesis by simp
qed

lemma u8_high: "8 \<le> n \<Longrightarrow> \<not> bit (w :: u8) n"
  by (auto dest: bit_imp_le_length)

lemma put32_get32: "length b = 4 \<Longrightarrow> put32 (get32 b) = b"
proof -
  assume "length b = 4"
  then obtain b0 b1 b2 b3 where b: "b = [b0, b1, b2, b3]" by (auto simp: numeral_eq_Suc length_Suc_conv)
  have "ucast (get32 b) = b0" "ucast (drop_bit 8 (get32 b)) = b1" "ucast (drop_bit 16 (get32 b)) = b2"
    "ucast (drop_bit 24 (get32 b)) = b3"
    by (auto intro!: bit_word_eqI simp: b get32_def bit_simps u8_high)
  then show ?thesis by (simp add: put32_def b)
qed

lemma put64_get64: "length b = 8 \<Longrightarrow> put64 (get64 b) = b"
proof -
  assume l: "length b = 8"
  have g: "get32 b = get32 (take 4 b)" using l by (simp add: get32_def)
  have lo: "ucast (get64 b) = get32 (take 4 b)" unfolding get64_def g
    by (rule bit_word_eqI) (auto simp: bit_simps)
  have hi: "ucast (drop_bit 32 (get64 b)) = get32 (drop 4 b)" unfolding get64_def
    by (rule bit_word_eqI) (auto simp: bit_simps dest: bit_imp_le_length)
  show ?thesis using l by (simp add: put64_def lo hi put32_get32)
qed

text \<open>A page as it can be written: 1 to 255 lacing values that add up to the body, a 64-bit granule.\<close>

definition page_ok :: "page \<Rightarrow> bool" where
  "page_ok p \<longleftrightarrow> segTable p \<noteq> [] \<and> length (segTable p) \<le> 255 \<and> seg_sum (segTable p) = length (body p)
     \<and> - (2 ^ 63) \<le> granule p \<and> granule p < 2 ^ 63"

definition page_bytes :: "page \<Rightarrow> bytes" where
  "page_bytes p = page_buf (flags p) (granule p) (serial p) (sequence p) (segTable p) (body p)"

lemma page_bytes_eq: "page_bytes p = head_front (flags p) (granule p) (serial p) (sequence p)
    @ put32 (page_sum (flags p) (granule p) (serial p) (sequence p) (segTable p) (body p))
    @ [word_of_nat (length (segTable p))] @ segTable p @ body p"
  by (simp add: page_bytes_def page_buf_eq)

lemma length_page_bytes: "length (page_bytes p) = 27 + length (segTable p) + length (body p)"
  by (simp add: page_bytes_eq)

lemma parse_page_bytes:
  assumes "page_ok p"
  shows "parsePage (page_bytes p @ r) = Ok (p, length (page_bytes p))"
proof -
  have "page_bytes p @ r = head_front (flags p) (granule p) (serial p) (sequence p)
    @ put32 (page_sum (flags p) (granule p) (serial p) (sequence p) (segTable p) (body p))
    @ [word_of_nat (length (segTable p))] @ segTable p @ body p @ r" by (simp add: page_bytes_eq)
  with assms show ?thesis using parsePage_image [of "segTable p" "body p" "granule p"]
    by (simp add: page_ok_def length_page_bytes)
qed

lemma split_at: "drop n b = take m (drop n b) @ drop (n + m) b"
  by (metis add.commute append_take_drop_id drop_drop)

lemma header_split:
  assumes l: "27 \<le> length b" and c: "take 4 b = capturePattern" "b ! 4 = pageVersion"
  shows "b = head_front (b ! 5) (sint (get64 (take 8 (drop 6 b)))) (get32 (take 4 (drop 14 b))) (get32 (take 4 (drop 18 b)))
     @ take 4 (drop 22 b) @ [b ! 26] @ drop 27 b"
proof -
  have "b = take 4 b @ drop 4 b" by simp
  also have "drop 4 b = b ! 4 # b ! 5 # drop 6 b" using l Cons_nth_drop_Suc [of 4 b] Cons_nth_drop_Suc [of 5 b] by simp
  also have "drop 6 b = take 8 (drop 6 b) @ drop 14 b" using split_at [of 6 b 8] by simp
  also have "drop 14 b = take 4 (drop 14 b) @ drop 18 b" using split_at [of 14 b 4] by simp
  also have "drop 18 b = take 4 (drop 18 b) @ drop 22 b" using split_at [of 18 b 4] by simp
  also have "drop 22 b = take 4 (drop 22 b) @ drop 26 b" using split_at [of 22 b 4] by simp
  also have "drop 26 b = b ! 26 # drop 27 b" using l Cons_nth_drop_Suc [of 26 b] by simp
  finally show ?thesis using l c by (simp add: head_front_def put64_get64 put32_get32)
qed

lemma page_of_fields: "page_of b segs bdy = \<lparr>flags = b ! 5, granule = sint (get64 (take 8 (drop 6 b))),
    serial = get32 (take 4 (drop 14 b)), sequence = get32 (take 4 (drop 18 b)), segTable = segs, body = bdy\<rparr>"
  by (simp add: page_of_def)

lemma take_head: "length x = 4 \<Longrightarrow> take 27 (head_front fl gran ser sq @ x @ [y] @ r) = head_front fl gran ser sq @ x @ [y]"
  by simp

lemma parsePage_sound:
  assumes "parsePage b = Ok (p, n)"
  shows "page_ok p \<and> (\<exists>r. b = page_bytes p @ r \<and> n = length (page_bytes p))"
proof -
  let ?c = "unat (b ! 26)"
  let ?segs = "drop 27 (take (27 + ?c) b)"
  let ?total = "27 + ?c + seg_sum ?segs"
  let ?bdy = "drop (27 + ?c) (take ?total b)"
  have a: "27 \<le> length b" "take 4 b = capturePattern" "b ! 4 = pageVersion" "?c \<noteq> 0" "27 + ?c \<le> length b"
    "?total \<le> length b" "pageCRC (take 27 b) ?segs ?bdy = get32 (take 4 (drop 22 b))" "p = page_of b ?segs ?bdy" "n = ?total"
    using assms unfolding parsePage_def Let_def page_consts by (auto split: if_splits)
  have ls: "length ?segs = ?c" "length ?bdy = seg_sum ?segs" using a(5,6) by simp_all
  have c255: "?c \<le> 255" using unsigned_less [of "b ! 26", where 'a = nat] by simp
  have nb: "word_of_nat (length ?segs) = b ! 26" unfolding ls(1) by simp
  let ?g = "sint (get64 (take 8 (drop 6 b)))"
  have g: "- (2 ^ 63) \<le> ?g" "?g < 2 ^ 63" using sint_range_size [of "get64 (take 8 (drop 6 b))"] by (simp_all add: word_size)
  have ok: "page_ok p"
    using a(4) c255 ls g unfolding page_ok_def a(8) page_of_fields by simp
  have b: "b = head_front (flags p) (granule p) (serial p) (sequence p) @ take 4 (drop 22 b)
      @ [word_of_nat (length ?segs)] @ drop 27 b"
    using header_split [OF a(1-3)] unfolding a(8) page_of_fields nb by simp
  have l4: "length (take 4 (drop 22 b)) = 4" using a(1) by simp
  have t27: "take 27 b = head_front (flags p) (granule p) (serial p) (sequence p) @ take 4 (drop 22 b) @ [word_of_nat (length ?segs)]"
    by (subst b, rule take_head [OF l4])
  have "page_sum (flags p) (granule p) (serial p) (sequence p) ?segs ?bdy = get32 (take 4 (drop 22 b))"
    using a(7) unfolding t27 pageCRC_head [OF l4] .
  then have crc: "put32 (page_sum (flags p) (granule p) (serial p) (sequence p) ?segs ?bdy) = take 4 (drop 22 b)"
    using put32_get32 [OF l4] by simp
  have d: "drop 27 b = ?segs @ ?bdy @ drop ?total b"
  proof -
    have t: "take k (drop m b) = drop m (take (m + k) b)" for k m by (simp add: drop_take)
    show ?thesis using split_at [of 27 b ?c] split_at [of "27 + ?c" b "seg_sum ?segs"] unfolding t by simp
  qed
  have sb: "segTable p = ?segs" "body p = ?bdy" by (simp_all add: a(8) page_of_fields)
  have "b = page_bytes p @ drop ?total b"
    unfolding page_bytes_eq sb crc append_assoc using b unfolding d append_assoc .
  moreover have "n = length (page_bytes p)" unfolding length_page_bytes sb ls a(9) by simp
  ultimately show ?thesis using ok by blast
qed

section \<open>The page reader\<close>

lemma page_of_take: "27 \<le> length b \<Longrightarrow> page_of (take 27 b) segs bdy = page_of b segs bdy"
  by (simp add: page_of_fields drop_take min_def)

text \<open>The reader on the bytes of the source, with the error behind them.\<close>

definition short_error :: "source \<Rightarrow> oerr" where
  "short_error r = (if rest r = [] then src_err r else unexpectedEOF (src_err r))"

lemma read_full_short: "length (rest r) < n \<Longrightarrow> read_full n r
    = (r\<lparr>rest := []\<rparr>, Inl (if rest r \<noteq> [] \<and> src_err r = EOF then UnexpectedEOF else src_err r))"
  by (simp add: read_full_def)

lemma read_full_ok: "n \<le> length (rest r) \<Longrightarrow> read_full n r = (r\<lparr>rest := drop n (rest r)\<rparr>, Inr (take n (rest r)))"
  by (simp add: read_full_def)

lemma readPage_parse:
  "case parsePage (rest r) of
     Ok (p, n) \<Rightarrow> readPage r pg = (r\<lparr>rest := drop n (rest r)\<rparr>, p, None)
   | Err e \<Rightarrow> \<exists>r'. readPage r pg = (r', pg\<lparr>segTable := [], body := []\<rparr>, Some (if e = errShortPage then short_error r else e))
   | Panic \<Rightarrow> False"
proof -
  let ?b = "rest r"
  show ?thesis
  proof (cases "?b = []")
    case True
    then show ?thesis by (simp add: parsePage_def readPage_def page_consts short_error_def Let_def)
  next
    case ne: False
    show ?thesis
    proof (cases "length ?b < 27")
      case True
      then show ?thesis
        using ne by (simp add: parsePage_def readPage_def page_consts short_error_def read_full_short unexpectedEOF_def Let_def)
    next
      case False
      then have l: "27 \<le> length ?b" by simp
      have hdr: "take 4 (take 27 ?b) = take 4 ?b" "take 27 ?b ! 4 = ?b ! 4" "take 27 ?b ! 26 = ?b ! 26"
        "take 4 (drop 22 (take 27 ?b)) = take 4 (drop 22 ?b)" using l by (simp_all add: drop_take min_def)
      note rf = read_full_ok [of 27 r, OF l]
      show ?thesis
      proof (cases "take 4 ?b \<noteq> capturePattern \<or> ?b ! 4 \<noteq> pageVersion \<or> unat (?b ! 26) = 0")
        case True
        then show ?thesis
          using ne l by (auto simp: parsePage_def readPage_def page_consts rf hdr Let_def)
      next
        case ok: False
        let ?c = "unat (?b ! 26)"
        let ?r1 = "r\<lparr>rest := drop 27 ?b\<rparr>"
        have rp: "readPage r pg = (case read_full ?c ?r1 of
                (r, Inl e) \<Rightarrow> (r, pg\<lparr>segTable := [], body := []\<rparr>, Some (unexpectedEOF e))
              | (r, Inr segs) \<Rightarrow>
                  (case read_full (seg_sum segs) r of
                    (r, Inl e) \<Rightarrow> (r, pg\<lparr>segTable := [], body := []\<rparr>, Some (unexpectedEOF e))
                  | (r, Inr bdy) \<Rightarrow>
                      if pageCRC (take 27 ?b) segs bdy \<noteq> get32 (take 4 (drop 22 ?b))
                      then (r, pg\<lparr>segTable := [], body := []\<rparr>, Some (CRCMismatch (get32 (take 4 (drop 22 ?b))) (pageCRC (take 27 ?b) segs bdy)))
                      else (r, page_of (take 27 ?b) segs bdy, None)))"
          using ne ok unfolding readPage_def Let_def page_consts rf prod.case sum.case hdr by simp
        show ?thesis
        proof (cases "length ?b < 27 + ?c")
          case True
          then have "read_full ?c ?r1 = (?r1\<lparr>rest := []\<rparr>, Inl (if rest ?r1 \<noteq> [] \<and> src_err ?r1 = EOF then UnexpectedEOF else src_err ?r1))"
            using l by (intro read_full_short) simp
          then have "readPage r pg = (?r1\<lparr>rest := []\<rparr>, pg\<lparr>segTable := [], body := []\<rparr>, Some (unexpectedEOF (src_err r)))"
            unfolding rp by (simp add: unexpectedEOF_def)
          moreover have "parsePage ?b = Err errShortPage"
            using ok l True by (simp add: parsePage_def page_consts Let_def)
          ultimately show ?thesis using ne by (simp add: short_error_def)
        next
          case False
          let ?segs = "drop 27 (take (27 + ?c) ?b)"
          let ?r2 = "r\<lparr>rest := drop (27 + ?c) ?b\<rparr>"
          have "read_full ?c ?r1 = (?r1\<lparr>rest := drop ?c (rest ?r1)\<rparr>, Inr (take ?c (rest ?r1)))"
            using False l by (intro read_full_ok) simp
          then have rf2: "read_full ?c ?r1 = (?r2, Inr ?segs)" using l by (simp add: drop_take add.commute)
          show ?thesis
          proof (cases "length ?b < 27 + ?c + seg_sum ?segs")
            case True
            then have "read_full (seg_sum ?segs) ?r2 = (?r2\<lparr>rest := []\<rparr>, Inl (if rest ?r2 \<noteq> [] \<and> src_err ?r2 = EOF then UnexpectedEOF else src_err ?r2))"
              using False by (intro read_full_short) simp
            then have "readPage r pg = (?r2\<lparr>rest := []\<rparr>, pg\<lparr>segTable := [], body := []\<rparr>, Some (unexpectedEOF (src_err r)))"
              unfolding rp rf2 by (simp add: unexpectedEOF_def)
            moreover have "parsePage ?b = Err errShortPage"
              using ok l False True by (simp add: parsePage_def page_consts Let_def)
            ultimately show ?thesis using ne by (simp add: short_error_def)
          next
            case full: False
            let ?n = "27 + ?c + seg_sum ?segs"
            let ?bdy = "drop (27 + ?c) (take ?n ?b)"
            have "read_full (seg_sum ?segs) ?r2 = (?r2\<lparr>rest := drop (seg_sum ?segs) (rest ?r2)\<rparr>, Inr (take (seg_sum ?segs) (rest ?r2)))"
              using full False by (intro read_full_ok) simp
            then have rf3: "read_full (seg_sum ?segs) ?r2 = (r\<lparr>rest := drop ?n ?b\<rparr>, Inr ?bdy)"
              by (simp add: drop_take add.commute)
            let ?stored = "get32 (take 4 (drop 22 ?b))" and ?sum = "pageCRC (take 27 ?b) ?segs ?bdy"
            have rp2: "readPage r pg = (if ?sum \<noteq> ?stored
                then (r\<lparr>rest := drop ?n ?b\<rparr>, pg\<lparr>segTable := [], body := []\<rparr>, Some (CRCMismatch ?stored ?sum))
                else (r\<lparr>rest := drop ?n ?b\<rparr>, page_of ?b ?segs ?bdy, None))"
              unfolding rp rf2 prod.case sum.case rf3 page_of_take [OF l] ..
            have pp: "parsePage ?b = (if ?sum \<noteq> ?stored then Err (CRCMismatch ?stored ?sum) else Ok (page_of ?b ?segs ?bdy, ?n))"
              using ok l False full unfolding parsePage_def page_consts Let_def by simp
            show ?thesis unfolding rp2 pp by simp
          qed
        qed
      qed
    qed
  qed
qed

lemma parsePage_iff: "parsePage b = Ok (p, n) \<longleftrightarrow> page_ok p \<and> (\<exists>r. b = page_bytes p @ r \<and> n = length (page_bytes p))"
  using parsePage_sound [of b p n] parse_page_bytes by blast

section \<open>Properties\<close>

text \<open>C25: The page parser and the page writer describe the same format: \<^verbatim>\<open>parsePage\<close> accepts a buffer,
  with page \<open>p\<close> and length \<open>n\<close>, exactly when the buffer begins with the \<open>n\<close> bytes \<^verbatim>\<open>writePage\<close>
  assembles for \<open>p\<close>, and \<open>p\<close> is a page that can be written.\<close>

theorem page_format: "parsePage b = Ok (p, n) \<longleftrightarrow> page_ok p \<and> (\<exists>r. b = page_bytes p @ r \<and> n = length (page_bytes p))"
  by (rule parsePage_iff)

section \<open>Lacing\<close>

lemma seg_sum_simps [simp]: "seg_sum [] = 0" "seg_sum (l # ls) = unat l + seg_sum ls" "seg_sum (xs @ ys) = seg_sum xs + seg_sum ys"
  by (simp_all add: seg_sum_def)

lemma unat_255: "unat (word_of_nat maxSegmentLen :: u8) = 255"
  by (simp add: maxSegmentLen_def)

lemma unat_small: "n < 256 \<Longrightarrow> unat (word_of_nat n :: u8) = n"
  by (simp add: unsigned_of_nat take_bit_nat_eq_self)

lemma lacing_eq: "lacing n = replicate (n div 255) 255 @ [word_of_nat (n mod 255)]"
proof (induction n rule: lacing.induct)
  case (1 n)
  show ?case
  proof (cases "maxSegmentLen \<le> n")
    case True
    then have "n div 255 = Suc ((n - 255) div 255)" "n mod 255 = (n - 255) mod 255"
      by (simp_all add: maxSegmentLen_def le_div_geq le_mod_geq)
    then show ?thesis using True 1 by (subst lacing.simps) (simp add: maxSegmentLen_def)
  next
    case False
    then show ?thesis by (subst lacing.simps) (simp add: maxSegmentLen_def)
  qed
qed

lemma seg_sum_lacing: "seg_sum (lacing n) = n"
proof -
  have r: "seg_sum (replicate k 255) = 255 * k" for k by (induction k) simp_all
  have "n mod 255 < 256" by (rule less_trans [of _ 255]) simp_all
  then show ?thesis by (simp add: lacing_eq r unat_small)
qed

lemma lacing_spec: "seg_sum (lacing n) = n \<and> length (lacing n) = n div 255 + 1
    \<and> (\<exists>l. lacing n = replicate (n div 255) 255 @ [l] \<and> unat l = n mod 255 \<and> l < 255)"
proof -
  have m: "n mod 255 < 255" by simp
  then have u: "unat (word_of_nat (n mod 255) :: u8) = n mod 255" by (intro unat_small) linarith
  then have "(word_of_nat (n mod 255) :: u8) < 255" using m by (simp add: word_less_nat_alt)
  with u show ?thesis by (simp add: seg_sum_lacing) (simp add: lacing_eq)
qed

text \<open>A packet's lacing values add up to its length, there are \<open>n div 255 + 1\<close> of them, the last is
  below 255 and all others are 255: the reader finds the end of a packet of every length, exact
  multiples of 255 included.\<close>

theorem lacing_delimits: "seg_sum (lacing n) = n \<and> length (lacing n) = n div 255 + 1
    \<and> (\<exists>l. lacing n = replicate (n div 255) 255 @ [l] \<and> unat l = n mod 255 \<and> l < 255)"
  by (rule lacing_spec)

section \<open>Properties of pages\<close>

text \<open>C32: \<^verbatim>\<open>readPage\<close> accepts exactly the pages \<^verbatim>\<open>parsePage\<close> accepts, with the same fields, and leaves the
  source behind the page; otherwise it reports the same error, where a buffer that ends inside
  the page is the source's error: a clean end of input only at a page boundary, and an unexpected
  one inside a page.\<close>

theorem readPage_agrees_with_parsePage:
  "case parsePage (rest r) of
     Ok (p, n) \<Rightarrow> readPage r pg = (r\<lparr>rest := drop n (rest r)\<rparr>, p, None)
   | Err e \<Rightarrow> \<exists>r'. readPage r pg = (r', pg\<lparr>segTable := [], body := []\<rparr>, Some (if e = errShortPage then short_error r else e))
   | Panic \<Rightarrow> False"
  by (rule readPage_parse)

text \<open>C33: Corruption of up to four consecutive body bytes of any written page, whatever follows it, is
  reported as a checksum mismatch.\<close>

theorem page_corruption_detected:
  assumes "page_ok p" "body p = a @ xs @ c" "length xs = length ys" "length ys \<le> 4" "xs \<noteq> ys"
  shows "\<exists>stored sum. parsePage (take (27 + length (segTable p)) (page_bytes p) @ (a @ ys @ c) @ r) = Err (CRCMismatch stored sum)"
proof -
  let ?s = "page_sum (flags p) (granule p) (serial p) (sequence p) (segTable p)"
  have t: "take (27 + length (segTable p)) (page_bytes p) = head_front (flags p) (granule p) (serial p) (sequence p)
      @ put32 (?s (body p)) @ [word_of_nat (length (segTable p))] @ segTable p"
    by (simp add: page_bytes_eq)
  let ?pre = "head_front (flags p) (granule p) (serial p) (sequence p) @ [0, 0, 0, 0] @ [word_of_nat (length (segTable p))] @ segTable p @ a"
  have "crc32 0 (?pre @ xs @ c) \<noteq> crc32 0 (?pre @ ys @ c)"
    using assms(3-5) crc_burst by blast
  then have ne: "?s (a @ ys @ c) \<noteq> ?s (body p)" by (auto simp: page_sum_def assms(2))
  have "seg_sum (segTable p) = length (a @ ys @ c)" using assms(1-3) by (simp add: page_ok_def)
  with assms(1) parsePage_image [of "segTable p" "a @ ys @ c" "granule p" "flags p" "serial p" "sequence p" "?s (body p)" r]
  show ?thesis unfolding t using ne by (simp add: page_ok_def)
qed

definition demo_page :: page where
  "demo_page = \<lparr>flags = 0, granule = 960, serial = 7, sequence = 2, segTable = [5], body = [1, 2, 3, 4, 5]\<rparr>"

lemma page_corruption_detected_witness:
  "\<exists>stored sum. parsePage (take (27 + length (segTable demo_page)) (page_bytes demo_page) @ ([1] @ [9, 3] @ [4, 5]) @ []) = Err (CRCMismatch stored sum)"
  by (rule page_corruption_detected [where xs = "[2, 3]"]) (simp_all add: demo_page_def page_ok_def)

end
