(* ===== verification/Ogg_Header.thy ===== *)
theory Ogg_Header
  imports Ogg_Page_Props
begin

text \<open>
  The identification and comment headers of RFC 7845 (\<^verbatim>\<open>oggopus/header.go\<close>).  Go strings are byte
  strings; every slice is checked, so a read out of bounds would be a \<open>Panic\<close>.
\<close>

definition opusHeadMagic :: bytes where "opusHeadMagic = [79, 112, 117, 115, 72, 101, 97, 100]"
definition opusTagsMagic :: bytes where "opusTagsMagic = [79, 112, 117, 115, 84, 97, 103, 115]"
definition opusHeadFamily0Len :: nat where "opusHeadFamily0Len = 19"
definition opusHeadVersion :: u8 where "opusHeadVersion = 1"
definition mappingFamily0 :: u8 where "mappingFamily0 = 0"

record opusHead =
  h_version :: u8
  h_channels :: u8
  h_preSkip :: u16
  h_inputSampleRate :: u32
  h_outputGain :: u16
  h_mappingFamily :: u8
  h_streamCount :: u8
  h_coupledCount :: u8
  h_channelMapping :: bytes

text \<open>\<^verbatim>\<open>copy(b[21:21+channels], channelMapping)\<close> into zeroed memory.\<close>

definition head_marshal :: "opusHead \<Rightarrow> bytes" where
  "head_marshal h =
     opusHeadMagic @ [h_version h, h_channels h] @ put16 (h_preSkip h) @ put32 (h_inputSampleRate h)
       @ put16 (h_outputGain h) @ [h_mappingFamily h]
       @ (if h_mappingFamily h \<noteq> mappingFamily0 then
            [h_streamCount h, h_coupledCount h] @ take (unat (h_channels h)) (h_channelMapping h)
              @ replicate (unat (h_channels h) - length (h_channelMapping h)) 0
          else [])"

definition parseOpusHead :: "bytes \<Rightarrow> opusHead ogg" where
  "parseOpusHead b =
     (if len b < len opusHeadMagic \<or> take (length opusHeadMagic) b \<noteq> opusHeadMagic
      then Err (ErrNotOpus (take (min (length b) (length opusHeadMagic)) b))
      else if length b < opusHeadFamily0Len then Err (HeadTooShort (len b))
      else
        bnd (idx b 8) (\<lambda>version. bnd (idx b 9) (\<lambda>channels.
        bnd (slice b 10 12) (\<lambda>ps. bnd (slice b 12 16) (\<lambda>sr. bnd (slice b 16 18) (\<lambda>og.
        bnd (idx b 18) (\<lambda>family.
        let h = \<lparr>h_version = version, h_channels = channels, h_preSkip = get16 ps, h_inputSampleRate = get32 sr,
                 h_outputGain = get16 og, h_mappingFamily = family,
                 h_streamCount = 0, h_coupledCount = 0, h_channelMapping = []\<rparr> in
        if h_version h AND 0xf0 \<noteq> 0 then Err (HeadMajorVersion (drop_bit 4 (h_version h)))
        else if h_channels h = 0 then Err ZeroChannels
        else if h_mappingFamily h = mappingFamily0 then
          (if h_channels h > 2 then Err (Family0Channels (h_channels h)) else Ok h)
        else if len b < int opusHeadFamily0Len + 2 + uint (h_channels h) then Err (MappingTruncated (h_mappingFamily h))
        else
          bnd (idx b 19) (\<lambda>sc. bnd (idx b 20) (\<lambda>cc. bnd (slice b 21 (21 + uint (h_channels h))) (\<lambda>cm.
          Ok (h\<lparr>h_streamCount := sc, h_coupledCount := cc, h_channelMapping := cm\<rparr>)))))))))))"

record opusTags =
  vendor :: bytes
  comments :: "bytes list"

definition appendUint32 :: "bytes \<Rightarrow> u32 \<Rightarrow> bytes" where
  "appendUint32 b v = b @ [ucast v, ucast (drop_bit 8 v), ucast (drop_bit 16 v), ucast (drop_bit 24 v)]"

fun append_comments :: "bytes \<Rightarrow> bytes list \<Rightarrow> bytes" where
  "append_comments b [] = b"
| "append_comments b (c # cs) = append_comments (appendUint32 b (word_of_nat (length c)) @ c) cs"

definition tags_marshal :: "opusTags \<Rightarrow> bytes" where
  "tags_marshal t =
     (let b = opusTagsMagic;
          b = appendUint32 b (word_of_nat (length (vendor t)));
          b = b @ vendor t;
          b = appendUint32 b (word_of_nat (length (comments t))) in
      append_comments b (comments t))"

definition checkOpusTagsMagic :: "bytes \<Rightarrow> unit ogg" where
  "checkOpusTagsMagic b =
     (let m = take (min (length b) (length opusTagsMagic)) b in
      if m \<noteq> opusTagsMagic then Err (BadTagsMagic m) else Ok ())"

text \<open>The loop over the comments: \<open>n\<close> are left, the next is number \<open>i\<close>.\<close>

fun parse_comments :: "bytes \<Rightarrow> nat \<Rightarrow> nat \<Rightarrow> int \<Rightarrow> bytes list \<Rightarrow> bytes list ogg" where
  "parse_comments b 0 i pos cs = Ok cs"
| "parse_comments b (Suc n) i pos cs =
     (if pos + 4 > len b then Err (CommentTruncated i)
      else
        bnd (slice b pos (pos + 4)) (\<lambda>l.
        let clen = uint (get32 l); pos = pos + 4 in
        if clen < 0 \<or> clen > len b - pos then Err (CommentOverrun i clen)
        else bnd (slice b pos (pos + clen)) (\<lambda>c. parse_comments b n (Suc i) (pos + clen) (cs @ [c]))))"

definition parseOpusTags :: "bytes \<Rightarrow> opusTags ogg" where
  "parseOpusTags b =
     (let magicLen = 8 in
      if len b < magicLen + 4 then Err (TagsTooShort (len b))
      else
        bnd (checkOpusTagsMagic b) (\<lambda>_.
        let pos = magicLen in
        bnd (slice b pos (pos + 4)) (\<lambda>l.
        let vendorLen = uint (get32 l); pos = pos + 4 in
        if vendorLen < 0 \<or> vendorLen > len b - pos then Err (VendorOverrun vendorLen)
        else
          bnd (slice b pos (pos + vendorLen)) (\<lambda>v.
          let pos = pos + vendorLen in
          if pos + 4 > len b then Err MissingCommentCount
          else
            bnd (slice b pos (pos + 4)) (\<lambda>l.
            let count = unat (get32 l); pos = pos + 4 in
            bnd (parse_comments b count 0 pos []) (\<lambda>cs. Ok \<lparr>vendor = v, comments = cs\<rparr>))))))"

end
