(* ===== verification/Ogg_Header_Props.thy ===== *)
theory Ogg_Header_Props
  imports Ogg_Header
begin

text \<open>
  The headers come back from their packets, and their parsers are safe on any bytes.
\<close>

text \<open>An identification header that can be written and read back.\<close>

definition head_ok :: "opusHead \<Rightarrow> bool" where
  "head_ok h \<longleftrightarrow> h_version h AND 0xf0 = 0 \<and> h_channels h \<noteq> 0
     \<and> (if h_mappingFamily h = mappingFamily0
        then h_channels h \<le> 2 \<and> h_streamCount h = 0 \<and> h_coupledCount h = 0 \<and> h_channelMapping h = []
        else length (h_channelMapping h) = unat (h_channels h))"

lemma slice_mid: "len a = i \<Longrightarrow> i + len x = j \<Longrightarrow> slice (a @ x @ r) i j = Ok x"
  by (auto simp: slice_def)

lemma idx_mid: "length a = nat i \<Longrightarrow> 0 \<le> i \<Longrightarrow> idx (a @ x # r) i = Ok x"
  using nth_append_length [of a x r] by (simp add: idx_def)

lemma head_roundtrip:
  assumes "head_ok h"
  shows "parseOpusHead (head_marshal h @ r) = Ok h"
proof -
  let ?fam = "h_mappingFamily h" and ?ch = "h_channels h"
  let ?ext = "if ?fam \<noteq> mappingFamily0 then [h_streamCount h, h_coupledCount h] @ h_channelMapping h else []"
  let ?p = "opusHeadMagic @ [h_version h, ?ch]"
  let ?b = "head_marshal h @ r"
  have m: "length opusHeadMagic = 8" by (simp add: opusHeadMagic_def)
  define X where "X = ?ext @ r"
  have e: "?b = opusHeadMagic @ h_version h # ?ch # put16 (h_preSkip h) @ put32 (h_inputSampleRate h)
       @ put16 (h_outputGain h) @ ?fam # X"
    using assms by (auto simp: head_marshal_def head_ok_def X_def)
  have i: "(idx ?b 8 :: u8 ogg) = Ok (h_version h)" "(idx ?b 9 :: u8 ogg) = Ok ?ch" "(idx ?b 18 :: u8 ogg) = Ok ?fam"
    unfolding e
    subgoal by (rule idx_mid) (simp_all add: m)
    subgoal using idx_mid [of "opusHeadMagic @ [h_version h]" 9] by (simp add: m)
    subgoal using idx_mid [of "?p @ put16 (h_preSkip h) @ put32 (h_inputSampleRate h) @ put16 (h_outputGain h)" 18] by (simp add: m)
    done
  have s: "(slice ?b 10 12 :: bytes ogg) = Ok (put16 (h_preSkip h) @ [])" "(slice ?b 12 16 :: bytes ogg) = Ok (put32 (h_inputSampleRate h) @ [])"
    "(slice ?b 16 18 :: bytes ogg) = Ok (put16 (h_outputGain h) @ [])"
    unfolding e
    subgoal using slice_mid [of ?p 10 "put16 (h_preSkip h)" 12] by (simp add: m)
    subgoal using slice_mid [of "?p @ put16 (h_preSkip h)" 12 "put32 (h_inputSampleRate h)" 16] by (simp add: m)
    subgoal using slice_mid [of "?p @ put16 (h_preSkip h) @ put32 (h_inputSampleRate h)" 16 "put16 (h_outputGain h)" 18] by (simp add: m)
    done
  have l: "\<not> len ?b < len opusHeadMagic" "take (length opusHeadMagic) ?b = opusHeadMagic" "\<not> length ?b < opusHeadFamily0Len"
    unfolding e by (simp_all add: m opusHeadFamily0Len_def)
  have v: "h_version h AND 240 = 0" "?ch \<noteq> 0" using assms by (simp_all add: head_ok_def)
  show ?thesis
  proof (cases "?fam = mappingFamily0")
    case True
    then have "?ch \<le> 2" "h_streamCount h = 0" "h_coupledCount h = 0" "h_channelMapping h = []"
      using assms by (simp_all add: head_ok_def)
    then show ?thesis
      unfolding parseOpusHead_def i s bnd.simps Let_def get16_put16 get32_put32 using l v True by simp
  next
    case False
    then have cm: "length (h_channelMapping h) = unat ?ch" using assms by (simp add: head_ok_def)
    have X: "X = h_streamCount h # h_coupledCount h # h_channelMapping h @ r" using False by (simp add: X_def)
    let ?q = "?p @ put16 (h_preSkip h) @ put32 (h_inputSampleRate h) @ put16 (h_outputGain h) @ [?fam]"
    have j: "(idx ?b 19 :: u8 ogg) = Ok (h_streamCount h)" "(idx ?b 20 :: u8 ogg) = Ok (h_coupledCount h)"
      "(slice ?b 21 (21 + uint ?ch) :: bytes ogg) = Ok (h_channelMapping h)"
      unfolding e X
      subgoal using idx_mid [of ?q 19] False by (simp add: m)
      subgoal using idx_mid [of "?q @ [h_streamCount h]" 20] False by (simp add: m)
      subgoal using slice_mid [of "?q @ [h_streamCount h, h_coupledCount h]" 21 "h_channelMapping h" "21 + uint ?ch"] False cm by (simp add: m)
      done
    have "\<not> len ?b < int opusHeadFamily0Len + 2 + uint ?ch"
      unfolding e X using cm by (simp add: m opusHeadFamily0Len_def)
    then show ?thesis
      unfolding parseOpusHead_def i s bnd.simps Let_def get16_put16 get32_put32 using l v False by (simp add: j)
  qed
qed

definition tags_ok :: "opusTags \<Rightarrow> bool" where
  "tags_ok t \<longleftrightarrow> len (vendor t) < 2 ^ 32 \<and> len (comments t) < 2 ^ 32 \<and> list_all (\<lambda>c. len c < 2 ^ 32) (comments t)"

definition put_string :: "bytes \<Rightarrow> bytes" where
  "put_string c = put32 (word_of_nat (length c)) @ c"

lemma appendUint32_eq: "appendUint32 b v = b @ put32 v"
  by (simp add: appendUint32_def put32_def)

lemma append_comments_eq: "append_comments b cs = b @ concat (map put_string cs)"
  by (induction cs arbitrary: b) (simp_all add: appendUint32_eq put_string_def)

lemma tags_marshal_eq: "tags_marshal t = opusTagsMagic @ put_string (vendor t)
    @ put32 (word_of_nat (length (comments t))) @ concat (map put_string (comments t))"
  by (simp add: tags_marshal_def appendUint32_eq append_comments_eq put_string_def Let_def)

lemma get_length: "len c < 2 ^ 32 \<Longrightarrow> get32 (put32 (word_of_nat (length c))) = (word_of_nat (length c) :: u32)
    \<and> uint (word_of_nat (length c) :: u32) = len c"
  using get32_put32 [of "word_of_nat (length c)" "[]"]
  by (simp add: unsigned_of_nat take_bit_nat_eq_self)

lemma parse_comments_roundtrip:
  assumes "list_all (\<lambda>c. len c < 2 ^ 32) xs" "b = pre @ concat (map put_string xs) @ r" "pos = len pre"
  shows "parse_comments b (length xs) i pos cs = Ok (cs @ xs)"
  using assms
proof (induction xs arbitrary: pre i pos cs)
  case (Cons c xs)
  let ?l = "put32 (word_of_nat (length c))"
  have b: "b = pre @ ?l @ c @ concat (map put_string xs) @ r" using Cons.prems(2) by (simp add: put_string_def [of c])
  have g: "get32 ?l = word_of_nat (length c)" "uint (word_of_nat (length c) :: u32) = len c"
    using get_length [of c] Cons.prems(1) by simp_all
  have s1: "(slice b pos (pos + 4) :: bytes ogg) = Ok ?l"
    unfolding b using Cons.prems(3) by (intro slice_mid) simp_all
  have s2: "(slice b (pos + 4) (pos + 4 + len c) :: bytes ogg) = Ok c"
    using slice_mid [of "pre @ ?l" "pos + 4" c "pos + 4 + len c"] Cons.prems(3) by (simp add: b)
  have lb: "\<not> pos + 4 > len b" "\<not> (len c < 0 \<or> len c > len b - (pos + 4))" using Cons.prems(3) by (simp_all add: b)
  have IH: "parse_comments b (length xs) (Suc i) (pos + 4 + len c) (cs @ [c]) = Ok ((cs @ [c]) @ xs)"
    using Cons.prems(1,3) b by (intro Cons.IH [of "pre @ ?l @ c"]) simp_all
  have "parse_comments b (length (c # xs)) i pos cs = parse_comments b (length xs) (Suc i) (pos + 4 + len c) (cs @ [c])"
    unfolding list.size add_0_right add_Suc_right parse_comments.simps if_not_P [OF lb(1)] s1 bnd.simps Let_def g if_not_P [OF lb(2)] s2 ..
  with IH show ?case by simp
qed simp

lemma tags_roundtrip:
  assumes "tags_ok t"
  shows "parseOpusTags (tags_marshal t @ r) = Ok t"
proof -
  let ?v = "vendor t" and ?n = "length (comments t)"
  let ?l = "put32 (word_of_nat (length ?v))" and ?k = "put32 (word_of_nat ?n)"
  let ?cs = "concat (map put_string (comments t))"
  have m: "length opusTagsMagic = 8" by (simp add: opusTagsMagic_def)
  define b where "b = tags_marshal t @ r"
  have b: "b = opusTagsMagic @ ?l @ ?v @ ?k @ ?cs @ r" by (simp add: b_def tags_marshal_eq put_string_def)
  have gv: "get32 ?l = word_of_nat (length ?v)" "uint (word_of_nat (length ?v) :: u32) = len ?v"
    and gk: "get32 ?k = word_of_nat ?n" "unat (word_of_nat ?n :: u32) = ?n"
    using assms get_length [of ?v] get_length [of "comments t"] by (auto simp: tags_ok_def unsigned_of_nat take_bit_nat_eq_self get32_put32 [of _ "[]", simplified])
  have s1: "(slice b 8 (8 + 4) :: bytes ogg) = Ok ?l" unfolding b by (intro slice_mid) (simp_all add: m)
  have s2: "(slice b (8 + 4) (8 + 4 + len ?v) :: bytes ogg) = Ok ?v"
    using slice_mid [of "opusTagsMagic @ ?l" "8 + 4" ?v "8 + 4 + len ?v"] by (simp add: b m)
  have s3: "(slice b (8 + 4 + len ?v) (8 + 4 + len ?v + 4) :: bytes ogg) = Ok ?k"
    using slice_mid [of "opusTagsMagic @ ?l @ ?v" "8 + 4 + len ?v" ?k "8 + 4 + len ?v + 4"] by (simp add: b m)
  have magic: "checkOpusTagsMagic b = Ok ()" by (simp add: checkOpusTagsMagic_def b m)
  have lb: "\<not> len b < 8 + 4" "\<not> (len ?v < 0 \<or> len ?v > len b - (8 + 4))" "\<not> 8 + 4 + len ?v + 4 > len b" by (simp_all add: b m)
  have cs: "parse_comments b ?n 0 (8 + 4 + len ?v + 4) [] = Ok ([] @ comments t)"
    using assms by (intro parse_comments_roundtrip [where pre = "opusTagsMagic @ ?l @ ?v @ ?k" and r = r]) (simp_all add: tags_ok_def b m)
  have "parseOpusTags b = Ok \<lparr>vendor = ?v, comments = [] @ comments t\<rparr>"
    unfolding parseOpusTags_def Let_def if_not_P [OF lb(1)] magic bnd.simps s1 gv if_not_P [OF lb(2)] s2 if_not_P [OF lb(3)] s3 gk cs ..
  then show ?thesis by (simp add: b_def)
qed

section \<open>Hostile input\<close>

lemma parse_comments_safe:
  "0 \<le> pos \<Longrightarrow> sat (parse_comments b n i pos cs) (\<lambda>_. True) (\<lambda>xs. length xs = length cs + n)"
proof (induction n arbitrary: i pos cs)
  case (Suc n)
  show ?case using Suc.prems by (auto simp: Let_def intro!: sat_mono [OF Suc.IH])
qed simp

lemma parseOpusTags_safe: "parseOpusTags b \<noteq> Panic"
proof -
  have "sat (parseOpusTags b) (\<lambda>_. True) (\<lambda>_. True)"
    by (auto simp: parseOpusTags_def checkOpusTagsMagic_def Let_def intro!: sat_mono [OF parse_comments_safe])
  then show ?thesis by (cases "parseOpusTags b") simp_all
qed

lemma map_bounds:
  fixes c :: u8
  assumes "\<not> len b < 21 + uint c"
  shows "19 < length b" "20 < length b" "min (length b - 21) (unat c) = unat c"
proof -
  have "int (21 + unat c) \<le> len b" using assms by simp
  then have "21 + unat c \<le> length b" by (simp only: of_nat_le_iff)
  then show "19 < length b" "20 < length b" "min (length b - 21) (unat c) = unat c" by simp_all
qed

lemma parseOpusHead_safe: "sat (parseOpusHead b) (\<lambda>e. take 8 b = opusHeadMagic \<longrightarrow> (\<forall>m. e \<noteq> ErrNotOpus m)) head_ok"
proof -
  have m: "length opusHeadMagic = 8" by (simp add: opusHeadMagic_def)
  have short: "take 8 b \<noteq> opusHeadMagic" if "length b < 8" using arg_cong [of "take 8 b" opusHeadMagic length] that by (auto simp: m)
  show ?thesis
    by (auto simp: parseOpusHead_def Let_def head_ok_def opusHeadFamily0Len_def mappingFamily0_def m short map_bounds)
qed

section \<open>Properties\<close>

text \<open>C36: An identification header comes back from its packet, whatever follows it: for mapping family 0
  with one or two channels, and for every other family with its mapping table.\<close>

theorem opus_head_roundtrip:
  assumes "head_ok h"
  shows "parseOpusHead (head_marshal h @ r) = Ok h"
  using assms by (rule head_roundtrip)

lemma opus_head_roundtrip_witness:
  "parseOpusHead (head_marshal \<lparr>h_version = 1, h_channels = 3, h_preSkip = 312, h_inputSampleRate = 44100,
     h_outputGain = 0, h_mappingFamily = 1, h_streamCount = 2, h_coupledCount = 1, h_channelMapping = [0, 2, 1]\<rparr> @ [9])
   = Ok \<lparr>h_version = 1, h_channels = 3, h_preSkip = 312, h_inputSampleRate = 44100,
     h_outputGain = 0, h_mappingFamily = 1, h_streamCount = 2, h_coupledCount = 1, h_channelMapping = [0, 2, 1]\<rparr>"
  by (rule opus_head_roundtrip) (simp add: head_ok_def mappingFamily0_def)

text \<open>A comment header comes back from its packet, padding behind it included, for any vendor string
  and list of comments whose lengths fit their 32-bit fields.\<close>

theorem opus_tags_roundtrip:
  assumes "tags_ok t"
  shows "parseOpusTags (tags_marshal t @ r) = Ok t"
  using assms by (rule tags_roundtrip)

lemma opus_tags_roundtrip_witness:
  "parseOpusTags (tags_marshal \<lparr>vendor = [103, 111], comments = [[65, 61, 66], []]\<rparr> @ [0, 0])
   = Ok \<lparr>vendor = [103, 111], comments = [[65, 61, 66], []]\<rparr>"
  by (rule opus_tags_roundtrip) (simp add: tags_ok_def)

text \<open>C37: On a truncated or hostile packet neither header parser reads out of bounds, and an identification
  header that is accepted is consistent: a supported version, at least one channel, at most two for
  mapping family 0, and one mapping byte per channel otherwise.\<close>

theorem header_parsers_safe:
  "parseOpusTags b \<noteq> Panic \<and> (case parseOpusHead b of Ok h \<Rightarrow> head_ok h | Err e \<Rightarrow> True | Panic \<Rightarrow> False)"
  using parseOpusTags_safe parseOpusHead_safe [of b] by (cases "parseOpusHead b") simp_all

text \<open>A packet is reported as "not Opus" exactly when it does not begin with the magic signature:
  every other defect of the header is a different error.\<close>

theorem not_opus_iff_no_magic:
  "(\<exists>m. parseOpusHead b = Err (ErrNotOpus m)) \<longleftrightarrow> take 8 b \<noteq> opusHeadMagic"
proof -
  have m: "length opusHeadMagic = 8" by (simp add: opusHeadMagic_def)
  show ?thesis
  proof (cases "take 8 b = opusHeadMagic")
    case True
    then show ?thesis using parseOpusHead_safe [of b] by (auto simp: sat_def split: res.splits)
  next
    case False
    then show ?thesis by (simp add: parseOpusHead_def m)
  qed
qed

end
