(* ===== verification/Ogg_Writer.thy ===== *)
theory Ogg_Writer
  imports Ogg_Header_Props
begin

text \<open>
  The page-packing stream writer and the packet-level container writer (\<^verbatim>\<open>oggopus/writer.go\<close>).  The
  sink is a parameter \<open>wr\<close> (the caller's \<^verbatim>\<open>io.Writer\<close>), its state the field \<open>w\<close>.  An operation
  returns the new state and the error, if any.  Granules are \<open>int\<close>; the slice \<^verbatim>\<open>data[off:]\<close> that is
  still to be placed is an argument of the loop.
\<close>

record 'w streamWriter =
  w :: 'w
  sw_serial :: u32
  seq :: u32
  seg :: bytes
  pbody :: bytes
  gran :: int
  isCont :: bool
  havePage :: bool
  audioStarted :: bool
  closed :: bool

text \<open>\<^verbatim>\<open>if err := m; err != nil { return err }\<close>, then the rest.\<close>

fun andThen :: "'s \<times> oerr option \<Rightarrow> ('s \<Rightarrow> 's \<times> oerr option) \<Rightarrow> 's \<times> oerr option" where
  "andThen (s, Some e) k = (s, Some e)"
| "andThen (s, None) k = k s"

definition newStreamWriter :: "'w \<Rightarrow> u32 \<Rightarrow> 'w streamWriter" where
  "newStreamWriter out ser = \<lparr>w = out, sw_serial = ser, seq = 0, seg = [], pbody = [], gran = granuleNone,
     isCont = False, havePage = False, audioStarted = False, closed = False\<rparr>"

definition commit_flags :: "'w streamWriter \<Rightarrow> bool \<Rightarrow> headerType" where
  "commit_flags sw eos =
     (let fl = 0;
          fl = if seq sw = 0 then fl OR flagBOS else fl;
          fl = if isCont sw then fl OR flagContinued else fl in
      if eos then fl OR flagEOS else fl)"

definition commit :: "('w \<Rightarrow> bytes \<Rightarrow> 'w \<times> oerr option) \<Rightarrow> bool \<Rightarrow> 'w streamWriter \<Rightarrow> 'w streamWriter \<times> oerr option" where
  "commit wr eos sw =
     (if \<not> havePage sw then (sw, None)
      else case writePage wr (w sw) (commit_flags sw eos) (gran sw) (sw_serial sw) (seq sw) (seg sw) (pbody sw) of
        (out, Some e) \<Rightarrow> (sw\<lparr>w := out\<rparr>, Some e)
      | (out, None) \<Rightarrow>
          (sw\<lparr>w := out, isCont := unat (last (seg sw)) = maxSegmentLen, seq := seq sw + 1,
              seg := [], pbody := [], gran := granuleNone, havePage := False\<rparr>, None))"

text \<open>The loop of \<^verbatim>\<open>writePacket\<close> over the lacing values \<open>s # ss\<close> left; \<open>data\<close> is the rest of the packet.\<close>

fun place_segs :: "('w \<Rightarrow> bytes \<Rightarrow> 'w \<times> oerr option) \<Rightarrow> int \<Rightarrow> bytes \<Rightarrow> bytes \<Rightarrow> 'w streamWriter \<Rightarrow> 'w streamWriter \<times> oerr option" where
  "place_segs wr granuleAfter [] data sw = (sw, None)"
| "place_segs wr granuleAfter (s # ss) data sw =
     andThen (if havePage sw \<and> length (seg sw) = maxPageSegments then commit wr False sw else (sw, None))
       (\<lambda>sw. place_segs wr granuleAfter ss (drop (unat s) data)
          (sw\<lparr>havePage := True, seg := seg sw @ [s], pbody := pbody sw @ take (unat s) data,
              gran := if ss = [] then granuleAfter else gran sw\<rparr>))"

definition sw_writePacket :: "('w \<Rightarrow> bytes \<Rightarrow> 'w \<times> oerr option) \<Rightarrow> bytes \<Rightarrow> int \<Rightarrow> bool \<Rightarrow> 'w streamWriter \<Rightarrow> 'w streamWriter \<times> oerr option" where
  "sw_writePacket wr data granuleAfter forceNewPage sw =
     andThen (if forceNewPage \<and> havePage sw then commit wr False sw else (sw, None))
       (place_segs wr granuleAfter (lacing (length data)) data)"

definition writeHeaders :: "('w \<Rightarrow> bytes \<Rightarrow> 'w \<times> oerr option) \<Rightarrow> opusHead \<Rightarrow> opusTags \<Rightarrow> 'w streamWriter \<Rightarrow> 'w streamWriter \<times> oerr option" where
  "writeHeaders wr h tg sw =
     andThen (sw_writePacket wr (head_marshal h) 0 True sw) (sw_writePacket wr (tags_marshal tg) 0 True)"

definition writeAudioPacket :: "('w \<Rightarrow> bytes \<Rightarrow> 'w \<times> oerr option) \<Rightarrow> bytes \<Rightarrow> int \<Rightarrow> 'w streamWriter \<Rightarrow> 'w streamWriter \<times> oerr option" where
  "writeAudioPacket wr data granuleAfter sw =
     (let forceNewPage = \<not> audioStarted sw in
      sw_writePacket wr data granuleAfter forceNewPage (sw\<lparr>audioStarted := True\<rparr>))"

definition sw_close :: "('w \<Rightarrow> bytes \<Rightarrow> 'w \<times> oerr option) \<Rightarrow> 'w streamWriter \<Rightarrow> 'w streamWriter \<times> oerr option" where
  "sw_close wr sw = (if closed sw then (sw, None) else commit wr True (sw\<lparr>closed := True\<rparr>))"

section \<open>The container writer\<close>

record 'w containerWriter =
  sw :: "'w streamWriter"
  preSkip :: int
  cgranule :: int
  heldPacket :: bytes
  heldDur :: int
  hasHeld :: bool
  audioCount :: int

definition newContainerWriter :: "('w \<Rightarrow> bytes \<Rightarrow> 'w \<times> oerr option) \<Rightarrow> 'w \<Rightarrow> u32 \<Rightarrow> opusHead \<Rightarrow> opusTags
    \<Rightarrow> ('w \<times> oerr, 'w containerWriter) res" where
  "newContainerWriter wr out ser h tg =
     (case writeHeaders wr h tg (newStreamWriter out ser) of
        (s, Some e) \<Rightarrow> Err (w s, e)
      | (s, None) \<Rightarrow> Ok \<lparr>sw = s, preSkip = uint (h_preSkip h), cgranule = 0, heldPacket = [], heldDur = 0,
           hasHeld = False, audioCount = 0\<rparr>)"

definition cw_writePacket :: "('w \<Rightarrow> bytes \<Rightarrow> 'w \<times> oerr option) \<Rightarrow> bytes \<Rightarrow> int \<Rightarrow> 'w containerWriter \<Rightarrow> 'w containerWriter \<times> oerr option" where
  "cw_writePacket wr pkt samples48k cw =
     andThen (if hasHeld cw then
                (let cw = cw\<lparr>cgranule := cgranule cw + heldDur cw\<rparr> in
                 case writeAudioPacket wr (heldPacket cw) (cgranule cw) (sw cw) of (s, e) \<Rightarrow> (cw\<lparr>sw := s\<rparr>, e))
              else (cw, None))
       (\<lambda>cw. (cw\<lparr>heldPacket := pkt, heldDur := samples48k, hasHeld := True, audioCount := audioCount cw + 1\<rparr>, None))"

definition cw_close :: "('w \<Rightarrow> bytes \<Rightarrow> 'w \<times> oerr option) \<Rightarrow> int \<Rightarrow> 'w containerWriter \<Rightarrow> 'w containerWriter \<times> oerr option" where
  "cw_close wr sourceSamples cw =
     andThen (if hasHeld cw then
                (let finalGranule = max (preSkip cw + sourceSamples) (cgranule cw) in
                 case writeAudioPacket wr (heldPacket cw) finalGranule (sw cw) of
                   (s, Some e) \<Rightarrow> (cw\<lparr>sw := s\<rparr>, Some e)
                 | (s, None) \<Rightarrow> (cw\<lparr>sw := s, hasHeld := False\<rparr>, None))
              else (cw, None))
       (\<lambda>cw. case sw_close wr (sw cw) of (s, e) \<Rightarrow> (cw\<lparr>sw := s\<rparr>, e))"

end
