(* ===== verification/Ogg_Stream.thy ===== *)
theory Ogg_Stream
  imports Ogg_Writer
begin

text \<open>
  The abstract Ogg Opus stream (a list of pages) and the proof that the writer implements it: the
  stream writer's invariant \<open>writing\<close> (pages emitted, pending page, granules of the packets completed),
  the container writer's invariant \<open>held_back\<close>, and the whole stream \<open>write_stream\<close>.
\<close>

section \<open>Valid page sequences\<close>

text \<open>Packets completed by a list of segments, with the bytes a packet before them left over.\<close>

fun reassemble :: "bytes \<Rightarrow> bytes \<Rightarrow> bytes \<Rightarrow> bytes list \<times> bytes" where
  "reassemble part [] b = ([], part)"
| "reassemble part (l # ls) b =
     (let part = part @ take (unat l) b; b = drop (unat l) b in
      if unat l < 255 then (case reassemble [] ls b of (qs, r) \<Rightarrow> (part # qs, r)) else reassemble part ls b)"

lemma reassemble_append: "seg_sum xs = length b \<Longrightarrow> reassemble part (xs @ ys) (b @ c) =
    (case reassemble part xs b of (qs, r) \<Rightarrow> (case reassemble r ys c of (qs', r') \<Rightarrow> (qs @ qs', r')))"
proof (induction xs arbitrary: part b)
  case (Cons l ls)
  then have "unat l \<le> length b" "seg_sum ls = length (drop (unat l) b)" by simp_all
  then show ?case using Cons(1) [of "drop (unat l) b"] by (simp add: Let_def split: prod.splits)
qed simp

lemma reassemble_full: "reassemble part (replicate k 255 @ [l]) b = ([part @ take (255 * k + unat l) b], [])" if "unat l < 255"
proof (induction k arbitrary: part b)
  case (Suc k)
  have "part @ take 255 b @ take (255 * k + unat l) (drop 255 b) = part @ take (255 + (255 * k + unat l)) b"
    by (simp only: take_add)
  then show ?case using Suc by (simp add: Let_def add.assoc)
qed (use that in \<open>simp add: Let_def\<close>)

lemma reassemble_lacing: "reassemble [] (lacing (length p)) p = ([p], [])"
proof -
  obtain l where l: "lacing (length p) = replicate (length p div 255) 255 @ [l]" "unat l = length p mod 255"
    using lacing_spec [of "length p"] by blast
  have u: "unat l < 255" unfolding l(2) by simp
  have "255 * (length p div 255) + unat l = length p" unfolding l(2) by presburger
  then show ?thesis unfolding l(1) reassemble_full [OF u] by simp
qed

definition completions :: "bytes \<Rightarrow> nat" where
  "completions ls = length (filter (\<lambda>l. unat l < 255) ls)"

lemma completions_simps [simp]: "completions [] = 0" "completions (xs @ ys) = completions xs + completions ys"
    "completions (l # ls) = (if unat l < 255 then 1 else 0) + completions ls"
  by (simp_all add: completions_def)

fun open_after :: "bool \<Rightarrow> page list \<Rightarrow> bool" where
  "open_after c [] = c"
| "open_after c (p # ps) = open_after (unat (last (segTable p)) = 255) ps"

text \<open>The pages of one stream from sequence number \<open>n\<close> on, \<open>c\<close> if the page before ends inside a packet.\<close>

fun pages_from :: "u32 \<Rightarrow> u32 \<Rightarrow> bool \<Rightarrow> page list \<Rightarrow> bool" where
  "pages_from ser n c [] = True"
| "pages_from ser n c (p # ps) =
     (page_ok p \<and> serial p = ser \<and> sequence p = n \<and> (flags p AND flagBOS \<noteq> 0) = (n = 0)
      \<and> (flags p AND flagContinued \<noteq> 0) = c \<and> pages_from ser (n + 1) (unat (last (segTable p)) = 255) ps)"

lemma open_after_snoc [simp]: "open_after c (ps @ [p]) = (unat (last (segTable p)) = 255)"
  by (induction c ps rule: open_after.induct) simp_all

lemma pages_from_append: "pages_from ser n c (ps @ qs) =
    (pages_from ser n c ps \<and> pages_from ser (n + of_nat (length ps)) (open_after c ps) qs)"
  by (induction ser n c ps rule: pages_from.induct) (simp_all add: add.assoc)

text \<open>Each page carries the granule of the last packet it completes, or none; \<open>gs\<close> are the granules of
  the packets.\<close>

fun granules_ok :: "int list \<Rightarrow> page list \<Rightarrow> bool" where
  "granules_ok gs [] = True"
| "granules_ok gs (p # ps) =
     (let n = completions (segTable p) in
      n \<le> length gs \<and> granule p = (if n = 0 then granuleNone else gs ! (n - 1)) \<and> granules_ok (drop n gs) ps)"

abbreviation segs_of :: "page list \<Rightarrow> bytes" where "segs_of P \<equiv> concat (map segTable P)"
abbreviation body_of :: "page list \<Rightarrow> bytes" where "body_of P \<equiv> concat (map body P)"

lemma granules_ok_more: "granules_ok gs P \<Longrightarrow> granules_ok (gs @ gs') P"
  by (induction gs P rule: granules_ok.induct) (auto simp: Let_def nth_append)

lemma granules_ok_append: "granules_ok gs (P @ Q) \<longleftrightarrow> granules_ok gs P \<and> granules_ok (drop (completions (segs_of P)) gs) Q"
  by (induction gs P rule: granules_ok.induct) (auto simp: Let_def add.commute)

section \<open>The stream writer\<close>

text \<open>The documented behaviour of an \<^verbatim>\<open>io.Writer\<close> that does not fail: \<open>out\<close> is what it has received.\<close>

definition appends :: "('w \<Rightarrow> bytes \<Rightarrow> 'w \<times> oerr option) \<Rightarrow> ('w \<Rightarrow> bytes) \<Rightarrow> bool" where
  "appends wr out \<longleftrightarrow> (\<forall>s b. snd (wr s b) = None \<and> out (fst (wr s b)) = out s @ b)"

definition pending :: "bool \<Rightarrow> 'w streamWriter \<Rightarrow> page" where
  "pending eos st = \<lparr>flags = commit_flags st eos, granule = gran st, serial = sw_serial st, sequence = seq st,
     segTable = seg st, body = pbody st\<rparr>"

text \<open>The invariant: the pages \<open>P\<close> have been written, they and the pending page hold the segments \<open>S\<close>
  with the payload \<open>B\<close>, and the packets completed so far have the granules \<open>gs\<close>.\<close>

definition writing :: "('w \<Rightarrow> bytes) \<Rightarrow> bytes \<Rightarrow> u32 \<Rightarrow> page list \<Rightarrow> bytes \<Rightarrow> bytes \<Rightarrow> int list \<Rightarrow> 'w streamWriter \<Rightarrow> bool" where
  "writing out pre ser P S B gs st \<longleftrightarrow>
     out (w st) = pre @ concat (map page_bytes P) \<and> sw_serial st = ser \<and> seq st = of_nat (length P)
     \<and> pages_from ser 0 False P \<and> isCont st = open_after False P \<and> granules_ok gs P
     \<and> S = segs_of P @ seg st \<and> B = body_of P @ pbody st
     \<and> seg_sum (seg st) = length (pbody st) \<and> length (seg st) \<le> 255 \<and> havePage st = (seg st \<noteq> [])
     \<and> length gs = completions S \<and> (\<forall>g\<in>set gs. 0 \<le> g \<and> g < 2 ^ 63)
     \<and> gran st = (if completions (seg st) = 0 then granuleNone else last gs)"

lemma commit_flags_bits:
  "(commit_flags st eos AND flagBOS \<noteq> 0) = (seq st = 0)"
  "(commit_flags st eos AND flagContinued \<noteq> 0) = isCont st"
  "(commit_flags st eos AND flagEOS \<noteq> 0) = eos"
  by (simp_all add: commit_flags_def Let_def flagBOS_def flagContinued_def flagEOS_def)

lemma completions_seg_sum: "completions xs \<le> length xs"
  by (simp add: completions_def)

lemma last_at: "length gs = n \<Longrightarrow> 0 < n \<Longrightarrow> last gs = gs ! (n - Suc 0)"
  by (cases gs) (auto simp: last_conv_nth)

lemma commit_ok:
  assumes "appends wr out" "writing out pre ser P S B gs st" "havePage st"
  shows "\<exists>st'. commit wr eos st = (st', None) \<and> writing out pre ser (P @ [pending eos st]) S B gs st'
    \<and> seg st' = [] \<and> audioStarted st' = audioStarted st \<and> closed st' = closed st"
proof -
  note i = assms(2) [unfolded writing_def]
  let ?p = "pending eos st"
  obtain out' where o: "wr (w st) (page_bytes ?p) = (out', None)" "out out' = out (w st) @ page_bytes ?p"
    using assms(1) by (metis appends_def prod.collapse)
  have ne: "seg st \<noteq> []" using assms(3) i by blast
  have g: "- (2 ^ 63) \<le> gran st \<and> gran st < 2 ^ 63"
  proof (cases "completions (seg st) = 0")
    case False
    then have "gs \<noteq> []" using i by auto
    then have "last gs \<in> set gs" by simp
    then show ?thesis using False i by force
  qed (use i in \<open>simp add: granuleNone_def\<close>)
  have pok: "page_ok ?p" using i ne g by (auto simp: page_ok_def pending_def)
  have wp: "writePage wr (w st) (commit_flags st eos) (gran st) (sw_serial st) (seq st) (seg st) (pbody st) = (out', None)"
    using i ne o(1) by (auto simp: writePage_def page_consts page_bytes_def pending_def)
  let ?st = "st\<lparr>w := out', isCont := unat (last (seg st)) = maxSegmentLen, seq := seq st + 1,
              seg := [], pbody := [], gran := granuleNone, havePage := False\<rparr>"
  have "commit wr eos st = (?st, None)" using assms(3) by (simp add: commit_def wp)
  moreover have "granules_ok gs (P @ [?p])"
    using i by (auto simp: granules_ok_append pending_def Let_def last_at)
  then have "writing out pre ser (P @ [?p]) S B gs ?st"
    using i o(2) pok commit_flags_bits [of st eos]
    by (simp add: writing_def pages_from_append pending_def maxSegmentLen_def)
  ultimately show ?thesis by fastforce
qed


lemma add_segment:
  assumes "writing out pre ser P S B gs st" "length (seg st) < 255" "unat s \<le> length data"
    "(unat s < 255) = fin" "0 \<le> g" "g < 2 ^ 63"
  shows "writing out pre ser P (S @ [s]) (B @ take (unat s) data) (if fin then gs @ [g] else gs)
    (st\<lparr>havePage := True, seg := seg st @ [s], pbody := pbody st @ take (unat s) data, gran := if fin then g else gran st\<rparr>)"
  using assms by (auto simp: writing_def granules_ok_more)

definition no_eos :: "page list \<Rightarrow> bool" where
  "no_eos P \<longleftrightarrow> (\<forall>p\<in>set P. flags p AND flagEOS = 0)"

lemma no_eos_simps [simp]: "no_eos []" "no_eos (P @ Q) = (no_eos P \<and> no_eos Q)" "no_eos (p # P) = (flags p AND flagEOS = 0 \<and> no_eos P)"
  by (auto simp: no_eos_def)

lemma pending_eos: "(flags (pending eos st) AND flagEOS = 0) = (\<not> eos)"
  using commit_flags_bits(3) [of st eos] by (simp add: pending_def) blast

text \<open>What a step of the writer keeps: it goes on from the pages \<open>P\<close> to \<open>P @ Q\<close>.\<close>

definition advances :: "('w \<Rightarrow> bytes) \<Rightarrow> bytes \<Rightarrow> u32 \<Rightarrow> page list \<Rightarrow> bytes \<Rightarrow> bytes \<Rightarrow> int list \<Rightarrow> 'w streamWriter \<Rightarrow> 'w streamWriter \<times> oerr option \<Rightarrow> bool" where
  "advances out pre ser P S B gs st res \<longleftrightarrow> (\<exists>Q st'. res = (st', None) \<and> writing out pre ser (P @ Q) S B gs st' \<and> no_eos Q
     \<and> audioStarted st' = audioStarted st \<and> closed st' = closed st)"

lemma commit_advances:
  assumes "appends wr out" "writing out pre ser P S B gs st"
  shows "\<exists>Q st'. (if c \<and> havePage st then commit wr False st else (st, None)) = (st', None)
    \<and> writing out pre ser (P @ Q) S B gs st' \<and> no_eos Q \<and> (c \<longrightarrow> seg st' = []) \<and> (\<not> c \<longrightarrow> st' = st)
    \<and> audioStarted st' = audioStarted st \<and> closed st' = closed st
    \<and> Q = (if c \<and> havePage st then [pending False st] else [])"
proof (cases "c \<and> havePage st")
  case True
  then show ?thesis using commit_ok [OF assms, of False] pending_eos [of False st] by fastforce
next
  case False
  have "seg st = []" if "\<not> havePage st" using assms(2) that by (simp add: writing_def)
  with False assms(2) show ?thesis by auto
qed

lemma place_segs_ok:
  assumes "appends wr out"
  shows "writing out pre ser P S B gs st \<Longrightarrow> segs \<noteq> [] \<Longrightarrow> \<forall>s\<in>set (butlast segs). unat s = 255 \<Longrightarrow> unat (last segs) < 255
    \<Longrightarrow> seg_sum segs = length data \<Longrightarrow> 0 \<le> g \<Longrightarrow> g < 2 ^ 63
    \<Longrightarrow> advances out pre ser P (S @ segs) (B @ data) (gs @ [g]) st (place_segs wr g segs data st)"
proof (induction segs arbitrary: P S B gs data st)
  case (Cons s ss)
  let ?full = "length (seg st) = maxPageSegments"
  obtain Q st1 where c: "(if ?full \<and> havePage st then commit wr False st else (st, None)) = (st1, None)"
    "writing out pre ser (P @ Q) S B gs st1" "no_eos Q" "?full \<longrightarrow> seg st1 = []" "\<not> ?full \<longrightarrow> st1 = st"
    "audioStarted st1 = audioStarted st" "closed st1 = closed st"
    using commit_advances [OF assms Cons.prems(1), of ?full] by blast
  have room: "length (seg st1) < 255"
    using c(2,4,5) by (cases ?full) (auto simp: writing_def page_consts)
  have s: "unat s \<le> length data" "(unat s < 255) = (ss = [])" using Cons.prems by (auto split: if_splits)
  let ?st = "st1\<lparr>havePage := True, seg := seg st1 @ [s], pbody := pbody st1 @ take (unat s) data, gran := if ss = [] then g else gran st1\<rparr>"
  have w: "writing out pre ser (P @ Q) (S @ [s]) (B @ take (unat s) data) (if ss = [] then gs @ [g] else gs) ?st"
    using add_segment [OF c(2) room s Cons.prems(6,7)] .
  have e: "place_segs wr g (s # ss) data st = place_segs wr g ss (drop (unat s) data) ?st"
    using c(1) by (simp add: conj_commute)
  show ?case
  proof (cases "ss = []")
    case True
    then have "unat s = length data" using Cons.prems(5) by simp
    with True w c(3,6,7) show ?thesis unfolding e advances_def by fastforce
  next
    case False
    then have "advances out pre ser (P @ Q) ((S @ [s]) @ ss) ((B @ take (unat s) data) @ drop (unat s) data) (gs @ [g]) ?st
        (place_segs wr g ss (drop (unat s) data) ?st)"
      using w Cons.prems s(1) by (intro Cons.IH) auto
    then show ?thesis unfolding e advances_def using c(3,6,7) by fastforce
  qed
qed simp

lemma packet_segs: "lacing n \<noteq> [] \<and> (\<forall>s\<in>set (butlast (lacing n)). unat s = 255) \<and> unat (last (lacing n)) < 255"
proof -
  obtain l where "lacing n = replicate (n div 255) 255 @ [l]" "l < 255" using lacing_spec [of n] by blast
  then show ?thesis by (auto simp: word_less_nat_alt in_set_replicate)
qed

lemma sw_writePacket_ok:
  assumes "appends wr out" "writing out pre ser P S B gs st" "0 \<le> g" "g < 2 ^ 63"
  shows "advances out pre ser P (S @ lacing (length data)) (B @ data) (gs @ [g]) st (sw_writePacket wr data g force st)"
proof -
  obtain Q st1 where c: "(if force \<and> havePage st then commit wr False st else (st, None)) = (st1, None)"
    "writing out pre ser (P @ Q) S B gs st1" "no_eos Q" "audioStarted st1 = audioStarted st" "closed st1 = closed st"
    using commit_advances [OF assms(1,2), of force] by blast
  have "advances out pre ser (P @ Q) (S @ lacing (length data)) (B @ data) (gs @ [g]) st1 (place_segs wr g (lacing (length data)) data st1)"
    using packet_segs [of "length data"] seg_sum_lacing assms by (intro place_segs_ok c(2)) auto
  then show ?thesis unfolding sw_writePacket_def c(1) advances_def using c(3-5) by fastforce
qed

section \<open>The container writer\<close>

lemma place_segs_fits:
  "segs \<noteq> [] \<Longrightarrow> length (seg st) + length segs \<le> 255 \<Longrightarrow> seg_sum segs = length data \<Longrightarrow>
   place_segs wr g segs data st
     = (st\<lparr>havePage := True, seg := seg st @ segs, pbody := pbody st @ data, gran := g\<rparr>, None)"
proof (induction segs arbitrary: data st)
  case (Cons s ss)
  then have nf: "length (seg st) \<noteq> maxPageSegments" by (simp add: page_consts)
  show ?case
  proof (cases "ss = []")
    case False
    then show ?thesis using Cons nf
      by (subst place_segs.simps) (simp add: Cons.IH)
  qed (use Cons nf in simp)
qed simp

lemma sw_writePacket_fits:
  assumes "seg st = []" "\<not> havePage st" "length data \<le> 65024"
  shows "sw_writePacket wr data g force st
    = (st\<lparr>havePage := True, seg := lacing (length data), pbody := pbody st @ data, gran := g\<rparr>, None)"
  using assms lacing_spec [of "length data"] seg_sum_lacing [of "length data"] packet_segs [of "length data"]
  by (simp add: sw_writePacket_def place_segs_fits)

lemma completions_lacing [simp]: "completions (lacing n) = 1"
proof -
  obtain l where "lacing n = replicate (n div 255) 255 @ [l]" "l < 255" using lacing_spec [of n] by blast
  then show ?thesis by (simp add: completions_def word_less_nat_alt)
qed

lemma andThen_ok: "andThen m k = (s', None) \<longleftrightarrow> (\<exists>s. m = (s, None) \<and> k s = (s', None))"
  by (cases m; cases "snd m") auto

lemma place_segs_havePage: "place_segs wr g segs data st = (st', None) \<Longrightarrow> segs \<noteq> [] \<or> havePage st \<Longrightarrow> havePage st'"
  by (induction segs arbitrary: data st) (auto simp: andThen_ok)

lemma sw_writePacket_havePage: "sw_writePacket wr data g force st = (st', None) \<Longrightarrow> havePage st'"
  using packet_segs [of "length data"] by (auto simp: sw_writePacket_def andThen_ok dest: place_segs_havePage)

lemma sw_writePacket_fits_ok:
  assumes "writing out pre ser P S B gs st" "seg st = []" "length data \<le> 65024" "0 \<le> g" "g < 2 ^ 63"
  shows "\<exists>st'. sw_writePacket wr data g force st = (st', None) \<and> writing out pre ser P (S @ lacing (length data)) (B @ data) (gs @ [g]) st'
    \<and> seg st' = lacing (length data) \<and> pbody st' = data \<and> audioStarted st' = audioStarted st \<and> closed st' = closed st"
proof -
  have p: "\<not> havePage st" "pbody st = []" using assms(1,2) by (simp_all add: writing_def)
  have l: "length (lacing (length data)) \<le> 255" using lacing_spec [of "length data"] assms(3) by simp
  show ?thesis
    unfolding sw_writePacket_fits [OF assms(2) p(1) assms(3)]
    using assms p(2) l packet_segs [of "length data"] by (auto simp: writing_def granules_ok_more seg_sum_lacing)
qed

text \<open>Forcing a new page is committing the pending one first.\<close>

lemma sw_writePacket_forced:
  assumes "appends wr out" "writing out pre ser P S B gs st" "havePage st"
  shows "\<exists>st'. commit wr False st = (st', None) \<and> writing out pre ser (P @ [pending False st]) S B gs st' \<and> seg st' = [] \<and> \<not> havePage st'
    \<and> audioStarted st' = audioStarted st \<and> closed st' = closed st
    \<and> sw_writePacket wr data g True st = sw_writePacket wr data g False st'"
  using commit_ok [OF assms, of False] assms(3) by (fastforce simp: sw_writePacket_def writing_def)

text \<open>The granules of packets of durations \<open>ds\<close> behind \<open>acc\<close> samples.\<close>

fun grans :: "int \<Rightarrow> int list \<Rightarrow> int list" where
  "grans acc [] = []"
| "grans acc (d # ds) = (acc + d) # grans (acc + d) ds"

lemma grans_append: "grans acc (ds @ es) = grans acc ds @ grans (acc + sum_list ds) es"
  by (induction acc ds rule: grans.induct) (simp_all add: add.assoc)

lemma grans_bound: "\<forall>d\<in>set ds. 0 \<le> d \<Longrightarrow> g \<in> set (grans acc ds) \<Longrightarrow> acc \<le> g \<and> g \<le> acc + sum_list ds"
  by (induction acc ds rule: grans.induct) (auto simp: sum_list_nonneg)

text \<open>All but the last packet carry the samples so far; the last is trimmed to the source's length.\<close>

definition packet_granules :: "int \<Rightarrow> int \<Rightarrow> int list \<Rightarrow> int list" where
  "packet_granules ps src ds =
     (if ds = [] then [] else grans 0 (butlast ds) @ [max (ps + src) (sum_list (butlast ds))])"

text \<open>The two header pages.\<close>

definition header_pages :: "opusHead \<Rightarrow> opusTags \<Rightarrow> page list \<Rightarrow> bool" where
  "header_pages h tg P \<longleftrightarrow> (\<exists>p0 p1 R. P = p0 # p1 # R
     \<and> segTable p0 = lacing (length (head_marshal h)) \<and> body p0 = head_marshal h
     \<and> segTable p1 = lacing (length (tags_marshal tg)) \<and> body p1 = tags_marshal tg)"

text \<open>The invariant of the container writer: the packets \<open>ps\<close> have been queued.\<close>

definition held_back :: "('w \<Rightarrow> bytes) \<Rightarrow> bytes \<Rightarrow> u32 \<Rightarrow> opusHead \<Rightarrow> opusTags \<Rightarrow> page list \<Rightarrow> (bytes \<times> int) list \<Rightarrow> 'w containerWriter \<Rightarrow> bool" where
  "held_back out pre ser h tg P ps cw \<longleftrightarrow>
     preSkip cw = uint (h_preSkip h) \<and> hasHeld cw = (ps \<noteq> []) \<and> audioCount cw = len ps
     \<and> (ps \<noteq> [] \<longrightarrow> heldPacket cw = fst (last ps) \<and> heldDur cw = snd (last ps))
     \<and> cgranule cw = sum_list (map snd (butlast ps))
     \<and> \<not> closed (sw cw) \<and> audioStarted (sw cw) = (butlast ps \<noteq> [])
     \<and> writing out pre ser P
         (lacing (length (head_marshal h)) @ lacing (length (tags_marshal tg)) @ concat (map (\<lambda>p. lacing (length (fst p))) (butlast ps)))
         (head_marshal h @ tags_marshal tg @ concat (map fst (butlast ps)))
         (0 # 0 # grans 0 (map snd (butlast ps))) (sw cw)
     \<and> no_eos P \<and> havePage (sw cw)
     \<and> header_pages h tg (if audioStarted (sw cw) then P else P @ [pending False (sw cw)])"

lemma writing_marks [simp]: "writing out pre ser P S B gs (st\<lparr>audioStarted := b\<rparr>) = writing out pre ser P S B gs st"
    "writing out pre ser P S B gs (st\<lparr>closed := b\<rparr>) = writing out pre ser P S B gs st"
    "pending e (st\<lparr>audioStarted := b\<rparr>) = pending e st" "pending e (st\<lparr>closed := b\<rparr>) = pending e st"
  by (simp_all add: writing_def pending_def commit_flags_def)

lemma header_pages_more: "header_pages h tg P \<Longrightarrow> header_pages h tg (P @ Q)"
  by (auto simp: header_pages_def)

lemma header_pages_eos: "header_pages h tg (P @ [pending e st]) = header_pages h tg (P @ [pending e' st])"
  by (cases P; cases "tl P") (auto simp: header_pages_def pending_def)

lemma head_marshal_length: "length (head_marshal h) \<le> 276"
proof -
  have "unat (h_channels h) < 256" by (rule unat_u8_lt)
  then show ?thesis by (simp add: head_marshal_def opusHeadMagic_def) linarith
qed

lemma newContainerWriter_ok:
  assumes "appends wr out" "length (tags_marshal tg) \<le> 65024"
  shows "\<exists>cw P. newContainerWriter wr o0 ser h tg = Ok cw \<and> held_back out (out o0) ser h tg P [] cw"
proof -
  let ?H = "head_marshal h" and ?T = "tags_marshal tg"
  let ?st = "newStreamWriter o0 ser"
  have w0: "writing out (out o0) ser [] [] [] [] ?st" by (simp add: writing_def newStreamWriter_def)
  have "seg ?st = []" by (simp add: newStreamWriter_def)
  then obtain st1 where s1: "sw_writePacket wr ?H 0 True ?st = (st1, None)"
      "writing out (out o0) ser [] ([] @ lacing (length ?H)) ([] @ ?H) ([] @ [0]) st1"
      "seg st1 = lacing (length ?H)" "pbody st1 = ?H" "audioStarted st1 = audioStarted ?st" "closed st1 = closed ?st"
    using sw_writePacket_fits_ok [OF w0, of ?H 0 wr True] head_marshal_length [of h] by auto
  have hp: "havePage st1" using s1(2,3) packet_segs [of "length ?H"] by (simp add: writing_def)
  obtain st2 where c: "writing out (out o0) ser ([] @ [pending False st1]) ([] @ lacing (length ?H)) ([] @ ?H) ([] @ [0]) st2" "seg st2 = []"
      "audioStarted st2 = audioStarted st1" "closed st2 = closed st1"
      "sw_writePacket wr ?T 0 True st1 = sw_writePacket wr ?T 0 False st2"
    using sw_writePacket_forced [OF assms(1) s1(2) hp, of ?T 0] by blast
  obtain st3 where s3: "sw_writePacket wr ?T 0 False st2 = (st3, None)"
      "writing out (out o0) ser ([] @ [pending False st1]) (([] @ lacing (length ?H)) @ lacing (length ?T)) (([] @ ?H) @ ?T) (([] @ [0]) @ [0]) st3"
      "seg st3 = lacing (length ?T)" "pbody st3 = ?T" "audioStarted st3 = audioStarted st2" "closed st3 = closed st2"
    using sw_writePacket_fits_ok [OF c(1,2) assms(2), of 0 wr False] by auto
  have "newContainerWriter wr o0 ser h tg = Ok \<lparr>sw = st3, preSkip = uint (h_preSkip h), cgranule = 0, heldPacket = [],
      heldDur = 0, hasHeld = False, audioCount = 0\<rparr>" (is "_ = Ok ?cw")
    unfolding newContainerWriter_def writeHeaders_def s1(1) andThen.simps c(5) s3(1) by simp
  moreover have "havePage st3" using s3(2,3) packet_segs [of "length ?T"] by (simp add: writing_def)
  then have "held_back out (out o0) ser h tg [pending False st1] [] ?cw"
    using c(3,4) s1(3-6) s3(2-6) pending_eos [of False st1]
    by (simp add: held_back_def newStreamWriter_def header_pages_def) (simp add: pending_def)
  ultimately show ?thesis by blast
qed

text \<open>Queueing a packet flushes the one held back with its cumulative granule; the last one is flushed
  by \<open>cw_close\<close> with the granule \<open>g\<close> chosen there.\<close>

lemma flush_ok:
  assumes "appends wr out" "held_back out pre ser h tg P ps cw" "ps \<noteq> []" "0 \<le> g" "g < 2 ^ 63"
  shows "\<exists>P' st'. writeAudioPacket wr (heldPacket cw) g (sw cw) = (st', None)
     \<and> writing out pre ser P'
         (lacing (length (head_marshal h)) @ lacing (length (tags_marshal tg)) @ concat (map (\<lambda>p. lacing (length (fst p))) ps))
         (head_marshal h @ tags_marshal tg @ concat (map fst ps))
         (0 # 0 # grans 0 (map snd (butlast ps)) @ [g]) st'
     \<and> no_eos P' \<and> havePage st' \<and> audioStarted st' \<and> \<not> closed st' \<and> header_pages h tg P'"
proof -
  note i = assms(2) [unfolded held_back_def]
  let ?a = "audioStarted (sw cw)" and ?st = "sw cw\<lparr>audioStarted := True\<rparr>"
  let ?S = "lacing (length (head_marshal h)) @ lacing (length (tags_marshal tg)) @ concat (map (\<lambda>p. lacing (length (fst p))) (butlast ps))"
  let ?B = "head_marshal h @ tags_marshal tg @ concat (map fst (butlast ps))"
  let ?g = "0 # 0 # grans 0 (map snd (butlast ps))"
  let ?P = "if ?a then P else P @ [pending False (sw cw)]"
  have w: "writing out pre ser P ?S ?B ?g ?st" "havePage ?st" and cl: "\<not> closed ?st" using i by simp_all
  obtain st1 where f: "writing out pre ser ?P ?S ?B ?g st1" "audioStarted st1" "\<not> closed st1"
      "sw_writePacket wr (heldPacket cw) g (\<not> ?a) ?st = sw_writePacket wr (heldPacket cw) g False st1"
  proof (cases ?a)
    case True
    with w cl show ?thesis by (intro that [of ?st]) simp_all
  next
    case False
    obtain st1 where "writing out pre ser (P @ [pending False ?st]) ?S ?B ?g st1"
      "audioStarted st1 = audioStarted ?st" "closed st1 = closed ?st"
      "sw_writePacket wr (heldPacket cw) g True ?st = sw_writePacket wr (heldPacket cw) g False st1"
      using sw_writePacket_forced [OF assms(1) w, of "heldPacket cw" g] by blast
    with False cl show ?thesis by (intro that [of st1]) simp_all
  qed
  obtain Q st' where q: "sw_writePacket wr (heldPacket cw) g False st1 = (st', None)"
      "writing out pre ser (?P @ Q) (?S @ lacing (length (heldPacket cw)))
         (?B @ heldPacket cw) (?g @ [g]) st'" "no_eos Q" "audioStarted st'" "\<not> closed st'"
    using sw_writePacket_ok [OF assms(1) f(1) assms(4,5), of "heldPacket cw" False] f(2,3) by (auto simp: advances_def)
  have h: "heldPacket cw = fst (last ps)" using i assms(3) by blast
  have "concat (map (\<lambda>p. lacing (length (fst p))) ps) = concat (map (\<lambda>p. lacing (length (fst p))) (butlast ps)) @ lacing (length (heldPacket cw))"
    "concat (map fst ps) = concat (map fst (butlast ps)) @ heldPacket cw"
    using assms(3) unfolding h by (induction ps rule: rev_induct) simp_all
  moreover have "writeAudioPacket wr (heldPacket cw) g (sw cw) = (st', None)"
    unfolding writeAudioPacket_def Let_def f(4) by (rule q(1))
  moreover have "no_eos (?P @ Q)" using i q(3) pending_eos [of False "sw cw"] by simp
  moreover have "header_pages h tg (?P @ Q)" using i by (intro header_pages_more) blast
  ultimately show ?thesis using q(2,4,5) sw_writePacket_havePage [OF q(1)] by (intro exI [of _ "?P @ Q"] exI [of _ st']) simp
qed

lemma grans_snoc: "ps \<noteq> [] \<Longrightarrow> grans 0 (map snd (butlast ps)) @ [sum_list (map snd ps)] = grans 0 (map snd ps)" for ps :: "(bytes \<times> int) list"
  by (induction ps rule: rev_induct) (simp_all add: grans_append)

lemma sum_butlast: "ps \<noteq> [] \<Longrightarrow> sum_list (map snd (butlast ps)) + snd (last ps) = sum_list (map snd ps)" for ps :: "(bytes \<times> int) list"
  by (induction ps rule: rev_induct) simp_all

lemma cw_writePacket_ok:
  assumes "appends wr out" "held_back out pre ser h tg P ps cw"
    "0 \<le> sum_list (map snd ps)" "sum_list (map snd ps) < 2 ^ 63"
  shows "\<exists>P' cw'. cw_writePacket wr p d cw = (cw', None) \<and> held_back out pre ser h tg P' (ps @ [(p, d)]) cw'"
proof (cases "ps = []")
  case True
  then show ?thesis using assms(2) by (auto simp: held_back_def cw_writePacket_def)
next
  case False
  note i = assms(2) [unfolded held_back_def]
  let ?g = "sum_list (map snd ps)"
  have g: "cgranule cw + heldDur cw = ?g" using i False sum_butlast [OF False] by simp
  obtain P' st' where f: "writeAudioPacket wr (heldPacket cw) ?g (sw cw) = (st', None)"
     "writing out pre ser P'
         (lacing (length (head_marshal h)) @ lacing (length (tags_marshal tg)) @ concat (map (\<lambda>p. lacing (length (fst p))) ps))
         (head_marshal h @ tags_marshal tg @ concat (map fst ps))
         (0 # 0 # grans 0 (map snd (butlast ps)) @ [?g]) st'"
     "no_eos P'" "havePage st'" "audioStarted st'" "\<not> closed st'" "header_pages h tg P'"
    using flush_ok [OF assms(1,2) False assms(3,4)] by blast
  let ?cw = "cw\<lparr>cgranule := ?g, sw := st', heldPacket := p, heldDur := d, hasHeld := True, audioCount := audioCount cw + 1\<rparr>"
  have "hasHeld cw" using i False by blast
  then have "cw_writePacket wr p d cw = (?cw, None)" by (simp add: cw_writePacket_def g f(1))
  moreover have "held_back out pre ser h tg P' (ps @ [(p, d)]) ?cw"
    using f(2-7) i False by (simp add: held_back_def grans_snoc)
  ultimately show ?thesis by blast
qed

text \<open>A whole stream: the headers, the packets with their durations, and the end.\<close>

fun write_packets :: "('w \<Rightarrow> bytes \<Rightarrow> 'w \<times> oerr option) \<Rightarrow> (bytes \<times> int) list \<Rightarrow> 'w containerWriter \<Rightarrow> 'w containerWriter \<times> oerr option" where
  "write_packets wr [] cw = (cw, None)"
| "write_packets wr ((p, d) # ps) cw = andThen (cw_writePacket wr p d cw) (write_packets wr ps)"

definition write_stream :: "('w \<Rightarrow> bytes \<Rightarrow> 'w \<times> oerr option) \<Rightarrow> 'w \<Rightarrow> u32 \<Rightarrow> opusHead \<Rightarrow> opusTags \<Rightarrow> (bytes \<times> int) list \<Rightarrow> int \<Rightarrow> 'w \<times> oerr option" where
  "write_stream wr o0 ser h tg ps src =
     (case newContainerWriter wr o0 ser h tg of
        Ok cw \<Rightarrow> (case andThen (write_packets wr ps cw) (cw_close wr src) of (cw, e) \<Rightarrow> (w (sw cw), e))
      | Err (o1, e) \<Rightarrow> (o1, Some e)
      | Panic \<Rightarrow> (o0, Some EOF))"

text \<open>The abstract stream: what a reader is to find in the pages \<open>P\<close>.\<close>

definition opus_stream :: "u32 \<Rightarrow> opusHead \<Rightarrow> opusTags \<Rightarrow> (bytes \<times> int) list \<Rightarrow> int \<Rightarrow> page list \<Rightarrow> bool" where
  "opus_stream ser h tg ps src P \<longleftrightarrow>
     pages_from ser 0 False P \<and> header_pages h tg P
     \<and> reassemble [] (segs_of P) (body_of P) = (head_marshal h # tags_marshal tg # map fst ps, [])
     \<and> granules_ok (0 # 0 # packet_granules (uint (h_preSkip h)) src (map snd ps)) P
     \<and> no_eos (butlast P) \<and> flags (last P) AND flagEOS \<noteq> 0"

text \<open>Durations are non-negative and the granules fit into 63 bits.\<close>

definition durations_ok :: "int list \<Rightarrow> int \<Rightarrow> bool" where
  "durations_ok ds src \<longleftrightarrow> list_all (\<lambda>d. 0 \<le> d) ds \<and> sum_list ds < 2 ^ 63 \<and> - (2 ^ 16) < src \<and> src < 2 ^ 62"

lemma write_packets_ok:
  assumes "appends wr out"
  shows "held_back out pre ser h tg P ps cw \<Longrightarrow> \<forall>d\<in>set (map snd (ps @ qs)). 0 \<le> d \<Longrightarrow> sum_list (map snd (ps @ qs)) < 2 ^ 63
    \<Longrightarrow> \<exists>P' cw'. write_packets wr qs cw = (cw', None) \<and> held_back out pre ser h tg P' (ps @ qs) cw'"
proof (induction qs arbitrary: P ps cw)
  case (Cons q qs)
  obtain p d where q: "q = (p, d)" by (cases q)
  have "0 \<le> sum_list (map snd (q # qs))" using Cons.prems(2) by (intro sum_list_nonneg) auto
  then have "0 \<le> sum_list (map snd ps)" "sum_list (map snd ps) < 2 ^ 63"
    using Cons.prems(2,3) by (auto intro!: sum_list_nonneg)
  then obtain P' cw' where s: "cw_writePacket wr p d cw = (cw', None)" "held_back out pre ser h tg P' (ps @ [(p, d)]) cw'"
    using cw_writePacket_ok [OF assms Cons.prems(1)] by blast
  show ?case using Cons.IH [OF s(2)] Cons.prems s(1) q by simp
qed auto

lemma reassemble_packets: "reassemble [] (concat (map (\<lambda>p. lacing (length p)) qs)) (concat qs) = (qs, [])"
  by (induction qs) (simp_all add: reassemble_append seg_sum_lacing reassemble_lacing)

lemma cw_close_ok:
  assumes "appends wr out" "held_back out pre ser h tg P ps cw" "durations_ok (map snd ps) src"
  shows "\<exists>P' cw'. cw_close wr src cw = (cw', None) \<and> closed (sw cw') \<and> out (w (sw cw')) = pre @ concat (map page_bytes P')
    \<and> opus_stream ser h tg ps src P'"
proof -
  note i = assms(2) [unfolded held_back_def]
  note d = assms(3) [unfolded durations_ok_def]
  let ?S = "\<lambda>ps. lacing (length (head_marshal h)) @ lacing (length (tags_marshal tg)) @ concat (map (\<lambda>p. lacing (length (fst p))) ps)"
  let ?B = "\<lambda>ps. head_marshal h @ tags_marshal tg @ concat (map fst ps)"
  let ?gs = "0 # 0 # packet_granules (uint (h_preSkip h)) src (map snd ps)"
  obtain P1 cw1 where c: "(if hasHeld cw then
                (let finalGranule = max (preSkip cw + src) (cgranule cw) in
                 case writeAudioPacket wr (heldPacket cw) finalGranule (sw cw) of
                   (s, Some e) \<Rightarrow> (cw\<lparr>sw := s\<rparr>, Some e)
                 | (s, None) \<Rightarrow> (cw\<lparr>sw := s, hasHeld := False\<rparr>, None))
              else (cw, None)) = (cw1, None)" "writing out pre ser P1 (?S ps) (?B ps) ?gs (sw cw1)"
      "no_eos P1" "havePage (sw cw1)" "\<not> closed (sw cw1)" "header_pages h tg (P1 @ [pending True (sw cw1)])"
  proof (cases "ps = []")
    case True
    have "\<not> audioStarted (sw cw)" using i True by simp
    moreover have "header_pages h tg (if audioStarted (sw cw) then P else P @ [pending False (sw cw)])" using i by (elim conjE)
    ultimately have "header_pages h tg (P @ [pending False (sw cw)])" by simp
    then have hp: "header_pages h tg (P @ [pending True (sw cw)])" by (rule iffD1 [OF header_pages_eos])
    show ?thesis using i True hp by (intro that [of cw P]) (auto simp: packet_granules_def)
  next
    case False
    let ?g = "max (preSkip cw + src) (cgranule cw)"
    have n: "0 \<le> sum_list (map snd (butlast ps))" "0 \<le> snd (last ps)"
      using d False by (auto intro!: sum_list_nonneg simp: list_all_iff dest!: in_set_butlastD)
    have "uint (h_preSkip h) < 2 ^ 16" using uint_lt2p [of "h_preSkip h"] by simp
    then have g: "0 \<le> ?g" "?g < 2 ^ 63" using i d n sum_butlast [OF False] by auto
    obtain P' st' where f: "writeAudioPacket wr (heldPacket cw) ?g (sw cw) = (st', None)"
      "writing out pre ser P' (?S ps) (?B ps) (0 # 0 # grans 0 (map snd (butlast ps)) @ [?g]) st'"
      "no_eos P'" "havePage st'" "\<not> closed st'" "header_pages h tg P'"
      using flush_ok [OF assms(1,2) False g] by blast
    have e: "?gs = 0 # 0 # grans 0 (map snd (butlast ps)) @ [?g]"
      using i False by (simp add: packet_granules_def map_butlast)
    have "hasHeld cw" using i False by blast
    with f show ?thesis by (intro that [of "cw\<lparr>sw := st', hasHeld := False\<rparr>" P']) (simp_all add: e header_pages_more)
  qed
  let ?st = "sw cw1\<lparr>closed := True\<rparr>"
  have w: "writing out pre ser P1 (?S ps) (?B ps) ?gs ?st" using c(2) by simp
  have hp: "havePage ?st" using c(4) by simp
  obtain st' where m: "commit wr True ?st = (st', None)" "writing out pre ser (P1 @ [pending True ?st]) (?S ps) (?B ps) ?gs st'"
      "seg st' = []" "closed st'"
    using commit_ok [OF assms(1) w hp, of True] by auto
  have "cw_close wr src cw = (cw1\<lparr>sw := st'\<rparr>, None)"
    unfolding cw_close_def c(1) andThen.simps using c(5) m(1) by (simp add: sw_close_def)
  moreover have "opus_stream ser h tg ps src (P1 @ [pending True ?st])"
  proof -
    let ?P = "P1 @ [pending True ?st]"
    have "segs_of ?P = concat (map (\<lambda>p. lacing (length p)) (head_marshal h # tags_marshal tg # map fst ps))"
      "body_of ?P = concat (head_marshal h # tags_marshal tg # map fst ps)"
      using m(2,3) by (simp_all add: writing_def comp_def)
    with reassemble_packets [of "head_marshal h # tags_marshal tg # map fst ps"]
    have "reassemble [] (segs_of ?P) (body_of ?P) = (head_marshal h # tags_marshal tg # map fst ps, [])" by simp
    moreover have "pages_from ser 0 False ?P \<and> granules_ok ?gs ?P" using m(2) by (simp add: writing_def)
    moreover have "header_pages h tg ?P" using c(6) by simp
    ultimately show ?thesis using c(3) pending_eos [of True ?st] by (simp add: opus_stream_def)
  qed
  ultimately show ?thesis using m by (intro exI [of _ "P1 @ [pending True ?st]"] exI [of _ "cw1\<lparr>sw := st'\<rparr>"]) (simp add: writing_def)
qed


lemma write_stream_ok:
  assumes "appends wr out" "length (tags_marshal tg) \<le> 65024" "durations_ok (map snd ps) src"
  shows "\<exists>o1 P. write_stream wr o0 ser h tg ps src = (o1, None) \<and> out o1 = out o0 @ concat (map page_bytes P)
    \<and> opus_stream ser h tg ps src P"
proof -
  obtain cw P where n: "newContainerWriter wr o0 ser h tg = Ok cw" "held_back out (out o0) ser h tg P [] cw"
    using newContainerWriter_ok [OF assms(1,2)] by blast
  obtain P1 cw1 where p: "write_packets wr ps cw = (cw1, None)" "held_back out (out o0) ser h tg P1 ps cw1"
    using write_packets_ok [OF assms(1) n(2), of ps] assms(3) by (auto simp: durations_ok_def list_all_iff)
  obtain P2 cw2 where c: "cw_close wr src cw1 = (cw2, None)" "out (w (sw cw2)) = out o0 @ concat (map page_bytes P2)"
      "opus_stream ser h tg ps src P2"
    using cw_close_ok [OF assms(1) p(2) assms(3)] by blast
  have "write_stream wr o0 ser h tg ps src = (w (sw cw2), None)"
    by (simp add: write_stream_def n(1) p(1) c(1))
  with c(2,3) show ?thesis by blast
qed

end
