(* ===== verification/Ogg_Reader.thy ===== *)
theory Ogg_Reader
  imports Ogg_Header_Props
begin

text \<open>
  The packet-level container reader (\<^verbatim>\<open>oggopus/reader.go\<close>).  An error carries the reader's state.  The
  reader's reusable buffers (\<^verbatim>\<open>arena\<close>, \<^verbatim>\<open>pg.raw\<close>, the capacities) only hold the bytes of \<open>partial\<close>
  and \<open>queue\<close>, whose values are modelled; the recycling of a previous reader's buffers is left out.
\<close>

definition rfcPacketLen :: int where "rfcPacketLen = 61440"
definition streamPacketLimit :: int where "streamPacketLimit = 2 * rfcPacketLen"
definition maxHeaderPacketLen :: int where "maxHeaderPacketLen = rfcPacketLen"

record containerReader =
  br :: source
  cr_serial :: u32
  serialSet :: bool
  head :: opusHead
  tags :: opusTags
  partial :: bytes
  queue :: "bytes list"
  qi :: nat
  pg :: page
  lastGranule :: int
  finalGranule :: int
  sawEOS :: bool
  limit :: int
  headers :: int
  consumed :: int

type_synonym 'a reading = "(containerReader \<times> oerr, 'a) res"

definition audioPacketLimit :: "opusHead \<Rightarrow> int" where
  "audioPacketLimit h = max (uint (h_streamCount h)) 1 * streamPacketLimit"

text \<open>The zero values of Go's \<^verbatim>\<open>opusHead\<close>, \<^verbatim>\<open>opusTags\<close> and \<^verbatim>\<open>page\<close>.\<close>

definition zero_head :: opusHead where
  "zero_head = \<lparr>h_version = 0, h_channels = 0, h_preSkip = 0, h_inputSampleRate = 0, h_outputGain = 0,
     h_mappingFamily = 0, h_streamCount = 0, h_coupledCount = 0, h_channelMapping = []\<rparr>"

definition zero_page :: page where
  "zero_page = \<lparr>flags = 0, granule = 0, serial = 0, sequence = 0, segTable = [], body = []\<rparr>"

definition packetTooLarge :: "containerReader \<Rightarrow> containerReader \<times> oerr" where
  "packetTooLarge cr = (cr\<lparr>partial := []\<rparr>, ErrPacketTooLarge (limit cr))"

text \<open>The loop of \<^verbatim>\<open>processPage\<close> over the segment table: the part of a segment that is kept (a header
  packet is cut at its limit, an audio packet over it fails), and the reader after appending it.\<close>

definition keep_seg :: "bytes \<Rightarrow> containerReader \<Rightarrow> bytes reading" where
  "keep_seg sg cr =
     (let lim = if headers cr > 0 then maxHeaderPacketLen else limit cr in
      if len (partial cr) > lim - len sg then
        (if headers cr = 0 then Err (packetTooLarge cr) else slice sg 0 (lim - len (partial cr)))
      else Ok sg)"

definition append_seg :: "u8 \<Rightarrow> bytes \<Rightarrow> containerReader \<Rightarrow> containerReader" where
  "append_seg l sg cr =
     (let cr = cr\<lparr>partial := partial cr @ sg\<rparr> in
      if unat l < maxSegmentLen then
        cr\<lparr>headers := if headers cr > 0 then headers cr - 1 else headers cr,
           queue := queue cr @ [partial cr], partial := []\<rparr>
      else cr)"

fun process_segs :: "bytes \<Rightarrow> int \<Rightarrow> bytes \<Rightarrow> containerReader \<Rightarrow> containerReader reading" where
  "process_segs bdy off [] cr = Ok cr"
| "process_segs bdy off (l # ls) cr =
     bnd (slice bdy off (off + uint l)) (\<lambda>sg.
     bnd (keep_seg sg cr) (\<lambda>sg.
     process_segs bdy (off + uint l) ls (append_seg l sg cr)))"

definition check_serial :: "page \<Rightarrow> containerReader \<Rightarrow> containerReader reading" where
  "check_serial p cr =
     (if \<not> serialSet cr then
        (let cr = cr\<lparr>cr_serial := serial p, serialSet := True\<rparr> in
         if flags p AND flagBOS = 0 then Err (cr, MissingBOS) else Ok cr)
      else if serial p \<noteq> cr_serial cr then Err (cr, UnexpectedSerial (serial p)) else Ok cr)"

text \<open>Before the loop: a packet left dangling by a page that does not continue it is dropped.  After
  it: the granule and end-of-stream accounting.\<close>

definition start_page :: "page \<Rightarrow> containerReader \<Rightarrow> containerReader" where
  "start_page p cr =
     (let cr = if flags p AND flagContinued = 0 \<and> partial cr \<noteq> [] then cr\<lparr>partial := []\<rparr> else cr in
      cr\<lparr>queue := [], qi := 0\<rparr>)"

definition end_page :: "page \<Rightarrow> containerReader \<Rightarrow> containerReader" where
  "end_page p cr =
     (let cr = if granule p \<noteq> granuleNone then cr\<lparr>lastGranule := granule p\<rparr> else cr in
      if flags p AND flagEOS \<noteq> 0 then cr\<lparr>sawEOS := True, finalGranule := lastGranule cr\<rparr> else cr)"

definition processPage :: "page \<Rightarrow> containerReader \<Rightarrow> containerReader reading" where
  "processPage p cr =
     bnd (check_serial p cr) (\<lambda>cr.
     bnd (process_segs (body p) 0 (segTable p) (start_page p cr)) (\<lambda>cr.
     Ok (end_page p cr)))"

lemma process_segs_br: "process_segs bdy off ls cr = Ok cr' \<Longrightarrow> br cr' = br cr"
  by (induction bdy off ls cr rule: process_segs.induct) (auto simp: bnd_eq_Ok append_seg_def Let_def)

lemma check_serial_br: "check_serial p cr = Ok cr' \<Longrightarrow> br cr' = br cr"
  by (auto simp: check_serial_def Let_def split: if_splits)

lemma page_br [simp]: "br (start_page p cr) = br cr" "br (end_page p cr) = br cr"
  by (simp_all add: start_page_def end_page_def Let_def)

lemma processPage_br: "processPage p cr = Ok cr' \<Longrightarrow> br cr' = br cr"
  by (auto simp: processPage_def bnd_eq_Ok dest!: process_segs_br check_serial_br)

lemma parsePage_pos: "parsePage b = Ok (p, n) \<Longrightarrow> 0 < n \<and> n \<le> length b"
  unfolding parsePage_iff by (auto simp: length_page_bytes)

lemma readPage_ok: "readPage r q = (r', p, None) \<Longrightarrow> \<exists>n. parsePage (rest r) = Ok (p, n) \<and> r' = r\<lparr>rest := drop n (rest r)\<rparr>"
  using readPage_parse [of r q] by (auto split: res.splits prod.splits)

lemma readPage_shrinks: "readPage r q = (r', p, None) \<Longrightarrow> length (rest r') < length (rest r)"
  using parsePage_pos by (fastforce dest!: readPage_ok)

text \<open>The loop reads a page until it has a packet to serve; every page it reads shortens the source.\<close>

function nextRawPacket :: "containerReader \<Rightarrow> (containerReader \<times> bytes) reading" where
  "nextRawPacket cr =
     (if qi cr < length (queue cr) then Ok (cr\<lparr>qi := qi cr + 1\<rparr>, queue cr ! qi cr)
      else if sawEOS cr then Err (cr, EOF)
      else case readPage (br cr) (pg cr) of
        (r, p, Some e) \<Rightarrow> Err (cr\<lparr>br := r, pg := p\<rparr>, e)
      | (r, p, None) \<Rightarrow>
          bnd (processPage p (cr\<lparr>br := r, pg := p,
                 consumed := consumed cr + (int pageHeaderFixedLen + len (segTable p) + len (body p))\<rparr>))
            nextRawPacket)"
  by pat_completeness auto
termination
  by (relation "measure (\<lambda>cr. length (rest (br cr)))") (auto dest!: processPage_br readPage_shrinks [OF sym])

declare nextRawPacket.simps [simp del]

definition nextPacket :: "containerReader \<Rightarrow> (containerReader \<times> bytes) reading" where
  "nextPacket cr = nextRawPacket cr"

definition headerErr :: "string \<Rightarrow> oerr \<Rightarrow> oerr" where
  "headerErr which err = (if err = EOF then StreamEnded which else ReadingHeader which err)"

definition newReader :: "source \<Rightarrow> containerReader" where
  "newReader r = \<lparr>br = r, cr_serial = 0, serialSet = False, head = zero_head, tags = \<lparr>vendor = [], comments = []\<rparr>,
     partial = [], queue = [], qi = 0, pg = zero_page, lastGranule = 0, finalGranule = -1, sawEOS = False,
     limit = streamPacketLimit, headers = 2, consumed = 0\<rparr>"

definition header_packet :: "string \<Rightarrow> containerReader \<Rightarrow> (containerReader \<times> bytes) ogg" where
  "header_packet which cr =
     (case nextRawPacket cr of Ok x \<Rightarrow> Ok x | Err (_, e) \<Rightarrow> Err (headerErr which e) | Panic \<Rightarrow> Panic)"

definition newContainerReader :: "source \<Rightarrow> containerReader ogg" where
  "newContainerReader r =
     bnd (header_packet ''OpusHead'' (newReader r)) (\<lambda>(cr, hp).
     bnd (parseOpusHead hp) (\<lambda>h.
     let cr = cr\<lparr>limit := audioPacketLimit h\<rparr> in
     bnd (header_packet ''OpusTags'' cr) (\<lambda>(cr, tp).
     bnd (if len tp \<ge> maxHeaderPacketLen
          then bnd (checkOpusTagsMagic tp) (\<lambda>_. Ok \<lparr>vendor = [], comments = []\<rparr>)
          else parseOpusTags tp) (\<lambda>tg.
     Ok (cr\<lparr>head := h, tags := tg\<rparr>)))))"

definition totalSamples :: "containerReader \<Rightarrow> int option" where
  "totalSamples cr = (if finalGranule cr < 0 then None else Some (finalGranule cr - uint (h_preSkip (head cr))))"

definition repositionAt :: "source \<Rightarrow> containerReader \<Rightarrow> containerReader" where
  "repositionAt r cr = cr\<lparr>br := r, queue := [], qi := 0, partial := [], sawEOS := False, finalGranule := -1\<rparr>"

definition auxReader :: "source \<Rightarrow> containerReader \<Rightarrow> containerReader" where
  "auxReader r cr = \<lparr>br = r, cr_serial = cr_serial cr, serialSet = True, head = zero_head,
     tags = \<lparr>vendor = [], comments = []\<rparr>, partial = [], queue = [], qi = 0, pg = zero_page, lastGranule = 0,
     finalGranule = -1, sawEOS = False, limit = limit cr, headers = 0, consumed = 0\<rparr>"

end
