(* ===== verification/Ogg_Stream_Props.thy ===== *)
theory Ogg_Stream_Props
  imports Ogg_Stream Ogg_Reader
begin

text \<open>
  The container reader on any list of pages: what a page adds to its queue, its invariant
  \<open>reading_inv\<close> (packets still to come), the bound on its memory, and the properties of the
  container format that join writer and reader.
\<close>

section \<open>The container reader\<close>

lemmas reader_consts = maxHeaderPacketLen_def streamPacketLimit_def rfcPacketLen_def

text \<open>The longest packet the reader accepts whole at this point.\<close>

definition cap :: "containerReader \<Rightarrow> int" where
  "cap cr = (if headers cr > 0 then min maxHeaderPacketLen (limit cr) else limit cr)"

lemma cap_upd [simp]: "cap (cr\<lparr>queue := q\<rparr>) = cap cr" "cap (cr\<lparr>qi := i\<rparr>) = cap cr" "cap (cr\<lparr>serialSet := b\<rparr>) = cap cr"
    "cap (cr\<lparr>cr_serial := s\<rparr>) = cap cr" "cap (cr\<lparr>br := r\<rparr>) = cap cr" "cap (cr\<lparr>pg := p\<rparr>) = cap cr"
    "cap (cr\<lparr>consumed := c\<rparr>) = cap cr" "cap (cr\<lparr>partial := x\<rparr>) = cap cr"
  by (simp_all add: cap_def)

lemma reassemble_grows: "reassemble part segs b = (qs, r) \<Longrightarrow> \<exists>q\<in>set (qs @ [r]). length part \<le> length q"
proof (induction part segs b arbitrary: qs r rule: reassemble.induct)
  case (2 part l ls b)
  then show ?case by (fastforce simp: Let_def split: if_splits prod.splits)
qed simp

lemma process_segs_ok:
  "reassemble (partial cr) segs (drop off bdy) = (qs, r) \<Longrightarrow> off + seg_sum segs \<le> length bdy \<Longrightarrow> 0 \<le> headers cr
   \<Longrightarrow> \<forall>q\<in>set (qs @ [r]). len q \<le> cap cr
   \<Longrightarrow> process_segs bdy (int off) segs cr
     = Ok (cr\<lparr>partial := r, queue := queue cr @ qs, headers := max 0 (headers cr - len qs)\<rparr>)"
proof (induction segs arbitrary: off cr qs)
  case Nil
  then show ?case by simp
next
  case (Cons l ls)
  let ?sg = "take (unat l) (drop off bdy)"
  have u: "uint l = int (unat l)" by simp
  have s: "(slice bdy (int off) (int off + uint l) :: bytes reading) = Ok ?sg"
    using Cons.prems(2) unfolding u by (subst slice_Ok) (simp_all del: of_nat_unat add: u)
  let ?cr = "append_seg l ?sg cr"
  have d: "drop (unat l) (drop off bdy) = drop (off + unat l) bdy" by (simp add: add.commute)
  have fits: "len (partial cr @ ?sg) \<le> cap cr"
  proof (cases "unat l < 255")
    case True
    then have "partial cr @ ?sg \<in> set qs" using Cons.prems(1) by (auto simp: Let_def split: prod.splits)
    then show ?thesis using Cons.prems(4) by auto
  next
    case False
    then have "reassemble (partial cr @ ?sg) ls (drop (unat l) (drop off bdy)) = (qs, r)" using Cons.prems(1) by (simp add: Let_def)
    then show ?thesis using Cons.prems(4) by (fastforce dest!: reassemble_grows)
  qed
  have k: "keep_seg ?sg cr = Ok ?sg" using fits by (auto simp: keep_seg_def Let_def cap_def)
  have c: "cap cr \<le> cap ?cr" by (auto simp: cap_def append_seg_def Let_def)
  have st: "process_segs bdy (int off) (l # ls) cr = process_segs bdy (int (off + unat l)) ls ?cr"
    by (simp add: s k)
  have b: "off + unat l + seg_sum ls \<le> length bdy" using Cons.prems(2) by simp
  have h: "0 \<le> headers ?cr" using Cons.prems(3) by (simp add: append_seg_def Let_def)
  show ?case
  proof (cases "unat l < 255")
    case True
    obtain qs' where q: "qs = (partial cr @ ?sg) # qs'" "reassemble (partial ?cr) ls (drop (off + unat l) bdy) = (qs', r)"
      using Cons.prems(1) True d by (auto simp: Let_def append_seg_def maxSegmentLen_def split: prod.splits)
    have "\<forall>q\<in>set (qs' @ [r]). len q \<le> cap ?cr" using Cons.prems(4) c q(1) by auto
    from Cons.IH [OF q(2) b h this] st True q(1) Cons.prems(3) show ?thesis
      by (auto simp: append_seg_def Let_def maxSegmentLen_def)
  next
    case False
    then have q: "reassemble (partial ?cr) ls (drop (off + unat l) bdy) = (qs, r)"
      using Cons.prems(1) d by (simp add: Let_def append_seg_def maxSegmentLen_def)
    have "\<forall>q\<in>set (qs @ [r]). len q \<le> cap ?cr" using Cons.prems(4) c by auto
    from Cons.IH [OF q b h this] st False show ?thesis by (simp add: append_seg_def Let_def maxSegmentLen_def)
  qed
qed

text \<open>The reader after a page that completes the packets \<open>qs\<close> and leaves \<open>r\<close>.\<close>

definition loaded :: "page \<Rightarrow> bytes list \<Rightarrow> bytes \<Rightarrow> containerReader \<Rightarrow> containerReader" where
  "loaded p qs r cr = end_page p (cr\<lparr>cr_serial := serial p, serialSet := True, qi := 0, partial := r, queue := qs,
     headers := max 0 (headers cr - len qs)\<rparr>)"

lemma processPage_ok:
  assumes "page_ok p" "reassemble (partial cr) (segTable p) (body p) = (qs, r)" "0 \<le> headers cr"
    "\<forall>q\<in>set (qs @ [r]). len q \<le> cap cr"
    "flags p AND flagContinued = 0 \<longrightarrow> partial cr = []"
    "if serialSet cr then cr_serial cr = serial p else flags p AND flagBOS \<noteq> 0"
  shows "processPage p cr = Ok (loaded p qs r cr)"
proof -
  let ?cb = "cr\<lparr>cr_serial := serial p, serialSet := True\<rparr>"
  have c: "check_serial p cr = Ok ?cb" using assms(6) by (auto simp: check_serial_def Let_def split: if_splits)
  have s: "start_page p ?cb = ?cb\<lparr>queue := [], qi := 0\<rparr>" using assms(5) by (auto simp: start_page_def Let_def)
  have "process_segs (body p) (int 0) (segTable p) (?cb\<lparr>queue := [], qi := 0\<rparr>)
      = Ok (?cb\<lparr>queue := [], qi := 0\<rparr>\<lparr>partial := r, queue := [] @ qs, headers := max 0 (headers cr - len qs)\<rparr>)"
    using assms(1-4) by (subst process_segs_ok) (simp_all add: page_ok_def)
  then show ?thesis by (simp add: processPage_def c s loaded_def)
qed

lemma readPage_page: "page_ok p \<Longrightarrow> rest r = page_bytes p @ b \<Longrightarrow> readPage r q = (r\<lparr>rest := b\<rparr>, p, None)"
  using readPage_parse [of r q] parse_page_bytes [of p b] by simp

lemma next_served: "qi cr < length (queue cr) \<Longrightarrow> nextRawPacket cr = Ok (cr\<lparr>qi := qi cr + 1\<rparr>, queue cr ! qi cr)"
  by (subst nextRawPacket.simps) simp

lemma next_loads:
  assumes "page_ok p" "reassemble (partial cr) (segTable p) (body p) = (qs, r)" "0 \<le> headers cr"
    "\<forall>q\<in>set (qs @ [r]). len q \<le> cap cr"
    "flags p AND flagContinued = 0 \<longrightarrow> partial cr = []"
    "if serialSet cr then cr_serial cr = serial p else flags p AND flagBOS \<noteq> 0"
    "length (queue cr) \<le> qi cr" "\<not> sawEOS cr" "rest (br cr) = page_bytes p @ b"
  shows "nextRawPacket cr = nextRawPacket (loaded p qs r (cr\<lparr>br := (br cr)\<lparr>rest := b\<rparr>, pg := p,
     consumed := consumed cr + len (page_bytes p)\<rparr>))"
proof -
  let ?cr = "cr\<lparr>br := (br cr)\<lparr>rest := b\<rparr>, pg := p, consumed := consumed cr + len (page_bytes p)\<rparr>"
  have "processPage p ?cr = Ok (loaded p qs r ?cr)"
    using assms(1-6) by (intro processPage_ok) simp_all
  then show ?thesis using assms(7,8) readPage_page [OF assms(1,9), of "pg cr"]
    by (subst nextRawPacket.simps) (simp add: length_page_bytes pageHeaderFixedLen_def)
qed


lemma reassemble_closed: "reassemble part segs b = (qs, r) \<Longrightarrow> segs \<noteq> [] \<Longrightarrow> unat (last segs) \<noteq> 255 \<Longrightarrow> r = []"
proof (induction part segs b arbitrary: qs r rule: reassemble.induct)
  case (2 part l ls b)
  have "unat l < 256" by (rule unat_u8_lt)
  show ?case
  proof (cases "ls = []")
    case True
    then show ?thesis using 2(3,5) \<open>unat l < 256\<close> by (auto simp: Let_def split: if_splits)
  next
    case False
    then show ?thesis using 2 by (auto simp: Let_def split: if_splits prod.splits)
  qed
qed simp

text \<open>The reader's invariant once the headers are read: the pages \<open>P\<close> are still in the source, the packets
  \<open>todo\<close> still to be returned, and the last page's granule is \<open>fg\<close>.\<close>

definition reading_inv :: "u32 \<Rightarrow> page list \<Rightarrow> bytes list \<Rightarrow> int \<Rightarrow> containerReader \<Rightarrow> bool" where
  "reading_inv ser P todo fg cr \<longleftrightarrow>
     rest (br cr) = concat (map page_bytes P) \<and> serialSet cr \<and> cr_serial cr = ser
     \<and> headers cr = 0 \<and> qi cr \<le> length (queue cr)
     \<and> (\<exists>n c. pages_from ser n c P \<and> (\<not> c \<longrightarrow> partial cr = []))
     \<and> (\<exists>qs. reassemble (partial cr) (segs_of P) (body_of P) = (qs, []) \<and> todo = drop (qi cr) (queue cr) @ qs
          \<and> (\<forall>q\<in>set qs. len q \<le> limit cr)) \<and> 0 \<le> limit cr
     \<and> (if P = [] then sawEOS cr \<and> finalGranule cr = fg
        else \<not> sawEOS cr \<and> finalGranule cr = -1 \<and> no_eos (butlast P) \<and> flags (last P) AND flagEOS \<noteq> 0 \<and> granule (last P) = fg)
     \<and> fg \<noteq> granuleNone"

lemma loaded_fields [simp]:
  "br (loaded p qs r cr) = br cr" "serialSet (loaded p qs r cr)" "cr_serial (loaded p qs r cr) = serial p"
  "headers (loaded p qs r cr) = max 0 (headers cr - len qs)" "qi (loaded p qs r cr) = 0" "queue (loaded p qs r cr) = qs"
  "partial (loaded p qs r cr) = r" "limit (loaded p qs r cr) = limit cr" "head (loaded p qs r cr) = head cr" "tags (loaded p qs r cr) = tags cr"
  "sawEOS (loaded p qs r cr) = (flags p AND flagEOS \<noteq> 0 \<or> sawEOS cr)"
  "flags p AND flagEOS = 0 \<Longrightarrow> finalGranule (loaded p qs r cr) = finalGranule cr"
  "granule p \<noteq> granuleNone \<Longrightarrow> flags p AND flagEOS \<noteq> 0 \<Longrightarrow> finalGranule (loaded p qs r cr) = granule p"
  by (simp_all add: loaded_def end_page_def Let_def)

lemma reassemble_short:
  assumes "reassemble part xs b = (qs, r)" "reassemble r ys c = (qs', [])" "\<forall>q\<in>set (qs @ qs'). len q \<le> L" "0 \<le> L"
  shows "\<forall>q\<in>set (qs @ [r]). len q \<le> L"
proof -
  obtain q where q: "q \<in> set (qs' @ [[]])" "length r \<le> length q" using reassemble_grows [OF assms(2)] by blast
  then have "len q \<le> L" using assms(3,4) by auto
  then have "len r \<le> L" using q(2) by linarith
  then show ?thesis using assms(3) by simp
qed

lemma reading_step:
  assumes "reading_inv ser P todo fg cr"
  shows "case todo of
      q # qs \<Rightarrow> \<exists>cr' P'. nextRawPacket cr = Ok (cr', q) \<and> reading_inv ser P' qs fg cr' \<and> head cr' = head cr \<and> tags cr' = tags cr
    | [] \<Rightarrow> \<exists>cr'. nextRawPacket cr = Err (cr', EOF) \<and> finalGranule cr' = fg \<and> head cr' = head cr \<and> tags cr' = tags cr"
  using assms
proof (induction P arbitrary: cr)
  case Nil
  note i = Nil [unfolded reading_inv_def]
  show ?case
  proof (cases "qi cr < length (queue cr)")
    case True
    then have t: "todo = queue cr ! qi cr # drop (Suc (qi cr)) (queue cr)" using i by (simp add: Cons_nth_drop_Suc)
    have "reading_inv ser [] (drop (Suc (qi cr)) (queue cr)) fg (cr\<lparr>qi := qi cr + 1\<rparr>)"
      using i True by (simp add: reading_inv_def)
    then show ?thesis unfolding t using next_served [OF True] by force
  next
    case False
    then have t: "todo = []" using i by simp
    have "nextRawPacket cr = Err (cr, EOF)" using False i by (subst nextRawPacket.simps) simp
    then show ?thesis unfolding t using i by simp
  qed
next
  case (Cons p ps)
  note i = Cons.prems [unfolded reading_inv_def]
  show ?case
  proof (cases "qi cr < length (queue cr)")
    case True
    obtain qs where "todo = drop (qi cr) (queue cr) @ qs" "reassemble (partial cr) (segs_of (p # ps)) (body_of (p # ps)) = (qs, [])"
        "\<forall>q\<in>set qs. len q \<le> limit cr"
      using i by blast
    then have t: "todo = queue cr ! qi cr # (drop (Suc (qi cr)) (queue cr) @ qs)"
      and "reading_inv ser (p # ps) (drop (Suc (qi cr)) (queue cr) @ qs) fg (cr\<lparr>qi := qi cr + 1\<rparr>)"
      using i True by (auto simp: Cons_nth_drop_Suc [symmetric] reading_inv_def)
    then show ?thesis unfolding t using next_served [OF True] by force
  next
    case False
    obtain n c where pf: "pages_from ser n c (p # ps)" "\<not> c \<longrightarrow> partial cr = []" using i by blast
    then have pok: "page_ok p" by simp
    obtain qs r where r: "reassemble (partial cr) (segTable p) (body p) = (qs, r)" by (cases "reassemble (partial cr) (segTable p) (body p)")
    obtain qs' where q: "reassemble r (segs_of ps) (body_of ps) = (qs', [])" "todo = qs @ qs'" "\<forall>q\<in>set (qs @ qs'). len q \<le> limit cr"
      using i r pok False by (auto simp: reassemble_append page_ok_def split: prod.splits)
    have lim: "\<forall>q\<in>set (qs @ [r]). len q \<le> cap cr"
      using reassemble_short [OF r q(1,3)] i by (simp add: cap_def)
    let ?cr = "loaded p qs r (cr\<lparr>br := (br cr)\<lparr>rest := concat (map page_bytes ps)\<rparr>, pg := p, consumed := consumed cr + len (page_bytes p)\<rparr>)"
    have n: "nextRawPacket cr = nextRawPacket ?cr"
      using i pf False by (intro next_loads [OF pok r _ lim]) auto
    have cl: "unat (last (segTable p)) \<noteq> 255 \<longrightarrow> r = []" using reassemble_closed [OF r] pok by (auto simp: page_ok_def)
    have eos: "(flags p AND flagEOS \<noteq> 0) = (ps = [])" "ps = [] \<longrightarrow> granule p = fg" using i by (auto split: if_splits)
    have "reading_inv ser ps todo fg ?cr"
      using i pf q cl eos by (auto simp: reading_inv_def split: if_splits)
    moreover have "head ?cr = head cr" "tags ?cr = tags cr" by simp_all
    ultimately show ?thesis using Cons.IH [of ?cr] unfolding n by metis
  qed
qed


section \<open>Reading a whole stream\<close>

fun read_n :: "nat \<Rightarrow> containerReader \<Rightarrow> (containerReader \<times> bytes list) reading" where
  "read_n 0 cr = Ok (cr, [])"
| "read_n (Suc n) cr = bnd (nextPacket cr) (\<lambda>(cr, q). bnd (read_n n cr) (\<lambda>(cr, qs). Ok (cr, q # qs)))"

lemma reading_rest:
  "reading_inv ser P todo fg cr \<Longrightarrow> \<exists>cr1 cr2. read_n (length todo) cr = Ok (cr1, todo) \<and> nextPacket cr1 = Err (cr2, EOF)
     \<and> finalGranule cr2 = fg \<and> head cr2 = head cr"
proof (induction todo arbitrary: P cr)
  case Nil
  then show ?case using reading_step [OF Nil] by (auto simp: nextPacket_def)
next
  case (Cons q qs)
  obtain cr' P' where s: "nextRawPacket cr = Ok (cr', q)" "reading_inv ser P' qs fg cr'" "head cr' = head cr"
    using reading_step [OF Cons.prems] by auto
  show ?case using Cons.IH [OF s(2)] s(1,3) by (auto simp: nextPacket_def)
qed

lemma reassemble_open: "reassemble part segs b = (qs, r) \<Longrightarrow> segs \<noteq> [] \<Longrightarrow> unat (last segs) = 255 \<Longrightarrow> seg_sum segs \<le> length b \<Longrightarrow> r \<noteq> []"
proof (induction part segs b arbitrary: qs r rule: reassemble.induct)
  case (2 part l ls b)
  show ?case
  proof (cases "ls = []")
    case True
    then show ?thesis using 2(3,5,6) by (auto simp: Let_def split: if_splits)
  next
    case False
    have "seg_sum ls \<le> length (drop (unat l) b)" using 2(6) by simp
    then show ?thesis using 2(1,2) [OF refl refl] 2(3,5) False by (auto simp: Let_def split: if_splits prod.splits)
  qed
qed simp

lemma length_reassemble: "reassemble part segs b = (qs, r) \<Longrightarrow> length qs = completions segs"
  by (induction part segs b arbitrary: qs r rule: reassemble.induct) (auto simp: Let_def split: if_splits prod.splits)

lemma completions_last: "segs \<noteq> [] \<Longrightarrow> unat (last segs) \<noteq> 255 \<Longrightarrow> 0 < completions segs"
proof -
  assume a: "segs \<noteq> []" "unat (last segs) \<noteq> 255"
  have "unat (last segs) < 256" by (rule unat_u8_lt)
  with a have "last segs \<in> set (filter (\<lambda>l. unat l < 255) segs)" by simp
  then show ?thesis unfolding completions_def by (metis length_pos_if_in_set)
qed

lemma last_granule:
  assumes "granules_ok gs P" "P \<noteq> []" "completions (segs_of P) = length gs" "unat (last (segTable (last P))) \<noteq> 255" "segTable (last P) \<noteq> []"
  shows "granule (last P) = last gs"
proof -
  obtain Q p where P: "P = Q @ [p]" using assms(2) by (cases P rule: rev_exhaust) auto
  let ?n = "completions (segTable p)"
  have n: "0 < ?n" using completions_last assms(4,5) P by simp
  have l: "length gs = completions (segs_of Q) + ?n" using assms(3) P by simp
  then have "last gs = gs ! (length gs - 1)" using n by (intro last_conv_nth) auto
  moreover have "granule p = drop (completions (segs_of Q)) gs ! (?n - 1)"
    using assms(1) n by (simp add: P granules_ok_append Let_def)
  ultimately show ?thesis using l n by (simp add: P add_diff_eq Nat.add_diff_assoc)
qed

lemma length_grans [simp]: "length (grans acc ds) = length ds"
  by (induction acc ds rule: grans.induct) simp_all

lemma length_packet_granules [simp]: "length (packet_granules p src ds) = length ds"
  by (simp add: packet_granules_def)

lemma audioPacketLimit_ge: "122880 \<le> audioPacketLimit h"
  by (simp add: audioPacketLimit_def reader_consts)

lemma pages_seg_sum: "pages_from ser n c P \<Longrightarrow> seg_sum (segs_of P) = length (body_of P)"
  by (induction ser n c P rule: pages_from.induct) (simp_all add: page_ok_def)

lemma last_page_granule:
  assumes "opus_stream ser h tg ps src P"
  shows "granule (last P) = last (0 # 0 # packet_granules (uint (h_preSkip h)) src (map snd ps))" (is "_ = last ?gs")
proof -
  note o = assms [unfolded opus_stream_def]
  obtain Q p where P: "P = Q @ [p]" using o by (cases P rule: rev_exhaust) (auto simp: header_pages_def)
  have ok: "page_ok p" "seg_sum (segs_of Q) = length (body_of Q)" using o pages_seg_sum by (auto simp: P pages_from_append)
  obtain qs r qs' where r: "reassemble r (segTable p) (body p) = (qs', [])"
    using o ok by (auto simp: P reassemble_append split: prod.splits)
  have "unat (last (segTable p)) \<noteq> 255" using reassemble_open [OF r] ok(1) by (auto simp: page_ok_def)
  moreover have "completions (segs_of P) = length ?gs" using o length_reassemble [of "[]" "segs_of P" "body_of P"] by fastforce
  ultimately show ?thesis using o ok(1) by (intro last_granule) (simp_all add: P page_ok_def)
qed

lemma final_granule_nonneg:
  assumes "durations_ok ds src"
  shows "0 \<le> last (0 # 0 # packet_granules (uint (p :: u16)) src ds)"
proof (cases "ds = []")
  case False
  have "0 \<le> sum_list (butlast ds)"
    using assms by (auto intro!: sum_list_nonneg simp: durations_ok_def list_all_iff dest!: in_set_butlastD)
  with False show ?thesis by (simp add: packet_granules_def le_max_iff_disj)
qed (simp add: packet_granules_def)

lemma open_reader:
  assumes "head_ok h" "tags_ok tg" "length (tags_marshal tg) < 61440" "opus_stream ser h tg ps src P"
    "durations_ok (map snd ps) src" "\<forall>p\<in>set ps. len (fst p) \<le> audioPacketLimit h"
  shows "\<exists>cr R. newContainerReader \<lparr>rest = concat (map page_bytes P), src_err = EOF\<rparr> = Ok cr \<and> head cr = h \<and> tags cr = tg
    \<and> reading_inv ser R (map fst ps) (last (0 # 0 # packet_granules (uint (h_preSkip h)) src (map snd ps))) cr"
proof -
  let ?H = "head_marshal h" and ?T = "tags_marshal tg"
  let ?gs = "0 # 0 # packet_granules (uint (h_preSkip h)) src (map snd ps)"
  obtain p0 p1 R where P: "P = p0 # p1 # R" "segTable p0 = lacing (length ?H)" "body p0 = ?H"
     "segTable p1 = lacing (length ?T)" "body p1 = ?T"
    using assms(4) by (auto simp: opus_stream_def header_pages_def)
  have r0: "reassemble [] (segTable p0) (body p0) = ([?H], [])" and r1: "reassemble [] (segTable p1) (body p1) = ([?T], [])"
    by (simp_all add: P reassemble_lacing)
  have nl: "unat (last (segTable p0)) \<noteq> 255" "unat (last (segTable p1)) \<noteq> 255"
    using packet_segs [of "length ?H"] packet_segs [of "length ?T"] by (simp_all add: P)
  define fg where "fg = last ?gs"
  note o = assms(4) [unfolded opus_stream_def]
  have pf: "page_ok p0" "serial p0 = ser" "flags p0 AND flagBOS \<noteq> 0" "flags p0 AND flagContinued = 0"
    "page_ok p1" "serial p1 = ser" "pages_from ser 2 False R"
    using o nl unfolding P(1) by auto
  have rR: "reassemble [] (segs_of R) (body_of R) = (map fst ps, [])"
    using o r0 r1 unfolding P(1) by (auto simp: reassemble_append P(2-5) seg_sum_lacing split: prod.splits)
  let ?src = "\<lparr>rest = concat (map page_bytes P), src_err = EOF\<rparr>" and ?ra = "concat (map page_bytes (p1 # R))"
  let ?ca = "newReader ?src"
  have f0: "headers ?ca = 2" "limit ?ca = 122880" "partial ?ca = []" "\<not> serialSet ?ca" "queue ?ca = []" "qi ?ca = 0"
      "\<not> sawEOS ?ca" "br ?ca = ?src" "finalGranule ?ca = -1"
    by (simp_all add: newReader_def reader_consts)
  let ?La = "loaded p0 [?H] [] (?ca\<lparr>br := (br ?ca)\<lparr>rest := ?ra\<rparr>, pg := p0, consumed := consumed ?ca + len (page_bytes p0)\<rparr>)"
  have "nextRawPacket ?ca = nextRawPacket ?La"
    using pf f0 r0 head_marshal_length [of h]
    by (intro next_loads) (simp_all add: cap_def reader_consts P(1))
  then have n0: "nextRawPacket ?ca = Ok (?La\<lparr>qi := 1\<rparr>, ?H)"
    by (subst (asm) (2) next_served) simp_all
  have eos0: "flags p0 AND flagEOS = 0" using o unfolding P(1) by simp
  let ?cb = "?La\<lparr>qi := 1, limit := audioPacketLimit h\<rparr>"
  let ?rb = "concat (map page_bytes R)"
  let ?Lb = "loaded p1 [?T] [] (?cb\<lparr>br := (br ?cb)\<lparr>rest := ?rb\<rparr>, pg := p1, consumed := consumed ?cb + len (page_bytes p1)\<rparr>)"
  have "nextRawPacket ?cb = nextRawPacket ?Lb"
    using pf f0 r1 assms(3) audioPacketLimit_ge [of h] eos0
    by (intro next_loads) (simp_all add: cap_def reader_consts)
  then have n1: "nextRawPacket ?cb = Ok (?Lb\<lparr>qi := 1\<rparr>, ?T)"
    by (subst (asm) (2) next_served) simp_all
  let ?cr = "?Lb\<lparr>qi := 1, head := h, tags := tg\<rparr>"
  have ph: "parseOpusHead ?H = Ok h" "parseOpusTags ?T = Ok tg"
    using head_roundtrip [OF assms(1), of "[]"] tags_roundtrip [OF assms(2), of "[]"] by simp_all
  have h0: "header_packet ''OpusHead'' ?ca = Ok (?La\<lparr>qi := 1\<rparr>, ?H)" unfolding header_packet_def n0 by simp
  have h1: "header_packet ''OpusTags'' ?cb = Ok (?Lb\<lparr>qi := 1\<rparr>, ?T)" unfolding header_packet_def n1 by simp
  have short: "\<not> maxHeaderPacketLen \<le> len ?T" using assms(3) by (simp add: reader_consts)
  have "newContainerReader ?src = Ok ?cr"
    unfolding newContainerReader_def h0 h1 bnd.simps prod.case ph Let_def if_not_P [OF short] ..
  moreover have "reading_inv ser R (map fst ps) fg ?cr"
  proof -
    have lR: "R \<noteq> [] \<Longrightarrow> last P = last R" by (simp add: P(1))
    have g: "granule (last P) = fg" unfolding fg_def using last_page_granule assms(4) by blast
    have eos: "flags (last P) AND flagEOS \<noteq> 0" "R \<noteq> [] \<Longrightarrow> no_eos (butlast R)" "R \<noteq> [] \<Longrightarrow> flags p1 AND flagEOS = 0"
      using o unfolding P(1) by auto
    have "0 \<le> fg" unfolding fg_def using final_granule_nonneg [OF assms(5)] by simp
    then have fg: "fg \<noteq> granuleNone" unfolding granuleNone_def by linarith
    show ?thesis
    proof (cases "R = []")
      case True
      have "flags p1 AND flagEOS \<noteq> 0" "granule p1 = fg" using eos(1) g by (simp_all add: P(1) True)
      then show ?thesis using True f0 rR fg pf audioPacketLimit_ge [of h] by (simp add: reading_inv_def)
    next
      case False
      then show ?thesis using eos g fg f0 rR pf audioPacketLimit_ge [of h] lR assms(6) eos0
        by (auto simp: reading_inv_def)
    qed
  qed
  ultimately show ?thesis unfolding fg_def by force
qed

section \<open>Bounded memory\<close>

text \<open>The packet in progress never exceeds the limit that applies to it, nor does a queued one.\<close>

definition reader_ok :: "containerReader \<Rightarrow> bool" where
  "reader_ok cr \<longleftrightarrow> 0 \<le> headers cr \<and> 0 \<le> limit cr
     \<and> len (partial cr) \<le> (if headers cr > 0 then maxHeaderPacketLen else limit cr)
     \<and> (\<forall>q\<in>set (queue cr). len q \<le> max maxHeaderPacketLen (limit cr))"

definition failed_ok :: "containerReader \<times> oerr \<Rightarrow> bool" where
  "failed_ok x \<longleftrightarrow> len (partial (fst x)) \<le> max maxHeaderPacketLen (limit (fst x))"

lemma reader_ok_failed: "reader_ok cr \<Longrightarrow> failed_ok (cr, e)"
  by (auto simp: reader_ok_def failed_ok_def split: if_splits)

lemma process_segs_sat:
  "reader_ok cr \<Longrightarrow> off + seg_sum segs \<le> length bdy \<Longrightarrow>
   sat (process_segs bdy (int off) segs cr) failed_ok (\<lambda>cr'. reader_ok cr' \<and> limit cr' = limit cr)"
proof (induction segs arbitrary: off cr)
  case (Cons l ls)
  let ?sg = "take (unat l) (drop off bdy)"
  have u: "uint l = int (unat l)" by simp
  have s: "(slice bdy (int off) (int off + uint l) :: bytes reading) = Ok ?sg"
    using Cons.prems(2) unfolding u by (subst slice_Ok) (simp_all del: of_nat_unat add: u)
  have k: "sat (keep_seg ?sg cr) failed_ok
      (\<lambda>sg. len (partial cr) + len sg \<le> (if headers cr > 0 then maxHeaderPacketLen else limit cr))"
    using Cons.prems(1) by (auto simp: keep_seg_def Let_def reader_ok_def packetTooLarge_def failed_ok_def maxHeaderPacketLen_def rfcPacketLen_def split: if_splits)
  have a: "reader_ok (append_seg l sg cr) \<and> limit (append_seg l sg cr) = limit cr"
    if "len (partial cr) + len sg \<le> (if headers cr > 0 then maxHeaderPacketLen else limit cr)" for sg
    using that Cons.prems(1) by (auto simp: reader_ok_def append_seg_def Let_def maxHeaderPacketLen_def rfcPacketLen_def)
  have b: "off + unat l + seg_sum ls \<le> length bdy" using Cons.prems(2) by simp
  have e: "int off + uint l = int (off + unat l)" by simp
  show ?case
    unfolding process_segs.simps s bnd.simps unfolding sat_bnd e
    using k by (rule sat_conseq) (use Cons.IH a b in \<open>fastforce elim!: sat_mono\<close>)+
qed simp

lemma processPage_sat:
  assumes "reader_ok cr" "page_ok p"
  shows "sat (processPage p cr) failed_ok (\<lambda>cr'. reader_ok cr' \<and> limit cr' = limit cr)"
proof -
  have c: "sat (check_serial p cr) failed_ok (\<lambda>cr'. reader_ok cr' \<and> limit cr' = limit cr)"
    using assms(1) by (auto simp: check_serial_def Let_def reader_ok_def failed_ok_def)
  have s: "reader_ok (start_page p cr1) \<and> limit (start_page p cr1) = limit cr1" if "reader_ok cr1" for cr1
    using that by (auto simp: start_page_def reader_ok_def Let_def maxHeaderPacketLen_def rfcPacketLen_def)
  have e: "reader_ok (end_page p cr1) = reader_ok cr1" "limit (end_page p cr1) = limit cr1" for cr1
    by (auto simp: end_page_def reader_ok_def Let_def)
  have g: "sat (process_segs (body p) 0 (segTable p) (start_page p cr1)) failed_ok (\<lambda>cr'. reader_ok cr' \<and> limit cr' = limit cr1)"
    if "reader_ok cr1" for cr1
    using process_segs_sat [of "start_page p cr1" 0 "segTable p" "body p"] s [OF that] assms(2) by (simp add: page_ok_def)
  show ?thesis
    unfolding processPage_def sat_bnd using c by (rule sat_mono) (use g e in \<open>fastforce elim!: sat_mono\<close>)
qed

lemma readPage_page_ok: "readPage r q = (r', p, None) \<Longrightarrow> page_ok p"
  by (auto dest!: readPage_ok simp: parsePage_iff)

lemma nextRawPacket_sat:
  "reader_ok cr \<Longrightarrow> sat (nextRawPacket cr) failed_ok
     (\<lambda>(cr', q). reader_ok cr' \<and> limit cr' = limit cr \<and> len q \<le> max maxHeaderPacketLen (limit cr))"
proof (induction cr rule: nextRawPacket.induct)
  case (1 cr)
  have u: "reader_ok (cr\<lparr>br := r, pg := p, consumed := c\<rparr>) = reader_ok cr" "reader_ok (cr\<lparr>qi := i\<rparr>) = reader_ok cr"
    "reader_ok (cr\<lparr>br := r, pg := p\<rparr>) = reader_ok cr" for r p c i
    by (simp_all add: reader_ok_def)
  show ?case
  proof (cases "qi cr < length (queue cr)")
    case True
    then show ?thesis using 1(2) by (subst nextRawPacket.simps) (simp add: u, simp add: reader_ok_def)
  next
    case nq: False
    show ?thesis
    proof (cases "sawEOS cr")
      case True
      then show ?thesis using nq 1(2) by (subst nextRawPacket.simps) (simp add: reader_ok_failed)
    next
      case False
      obtain r p e where rp: "readPage (br cr) (pg cr) = (r, p, e)" by (cases "readPage (br cr) (pg cr)")
      show ?thesis
      proof (cases e)
        case (Some x)
        then show ?thesis using nq False rp 1(2) by (subst nextRawPacket.simps) (simp add: reader_ok_failed u)
      next
        case None
        let ?cr = "cr\<lparr>br := r, pg := p, consumed := consumed cr + (int pageHeaderFixedLen + len (segTable p) + len (body p))\<rparr>"
        have p: "sat (processPage p ?cr) failed_ok (\<lambda>cr'. reader_ok cr' \<and> limit cr' = limit cr)"
          using processPage_sat [of ?cr p] 1(2) readPage_page_ok [of "br cr" "pg cr" r p] rp None by (simp add: u)
        have "sat (bnd (processPage p ?cr) nextRawPacket) failed_ok
           (\<lambda>(cr', q). reader_ok cr' \<and> limit cr' = limit cr \<and> len q \<le> max maxHeaderPacketLen (limit cr))"
          unfolding sat_bnd using p
          by (rule sat_mono) (use 1(1) [OF nq False rp [symmetric] refl None] in \<open>fastforce elim!: sat_mono\<close>)
        then show ?thesis using nq False rp None by (subst nextRawPacket.simps) simp
      qed
    qed
  qed
qed


lemma newReader_ok: "reader_ok (newReader r)"
  by (simp add: reader_ok_def newReader_def reader_consts)

lemma reader_ok_limit: "reader_ok cr \<Longrightarrow> limit cr \<le> L \<Longrightarrow> reader_ok (cr\<lparr>limit := L\<rparr>)"
  by (auto simp: reader_ok_def split: if_splits)

lemma header_packet_sat: "sat (nextRawPacket cr) E Q \<Longrightarrow> sat (header_packet which cr) (\<lambda>_. True) Q"
  by (auto simp: header_packet_def sat_def split: res.splits)

lemma parsers_sat: "sat (parseOpusHead b) (\<lambda>_. True) (\<lambda>_. True)" "sat (parseOpusTags b) (\<lambda>_. True) (\<lambda>_. True)"
    "sat (checkOpusTagsMagic b) (\<lambda>_. True) (\<lambda>_. True)"
proof -
  show "sat (parseOpusHead b) (\<lambda>_. True) (\<lambda>_. True)" using parseOpusHead_safe [of b] by (rule sat_conseq) simp_all
  show "sat (parseOpusTags b) (\<lambda>_. True) (\<lambda>_. True)" using parseOpusTags_safe [of b] by (cases "parseOpusTags b") auto
  show "sat (checkOpusTagsMagic b) (\<lambda>_. True) (\<lambda>_. True)" by (simp add: checkOpusTagsMagic_def Let_def)
qed

lemma newContainerReader_sat:
  "sat (newContainerReader r) (\<lambda>_. True) (\<lambda>cr. reader_ok cr \<and> limit cr = audioPacketLimit (head cr))"
proof -
  have l: "limit (newReader r) = 122880" by (simp add: newReader_def reader_consts)
  have a: "sat (header_packet ''OpusHead'' (newReader r)) (\<lambda>_. True) (\<lambda>(cr, q). reader_ok cr \<and> limit cr = 122880)"
    using nextRawPacket_sat [OF newReader_ok [of r]] unfolding l by (intro header_packet_sat) (auto elim: sat_conseq)
  have b: "sat (header_packet ''OpusTags'' (cr\<lparr>limit := audioPacketLimit h\<rparr>)) (\<lambda>_. True)
      (\<lambda>(cr', q). reader_ok cr' \<and> limit cr' = audioPacketLimit h)" if "reader_ok cr" "limit cr = 122880" for cr h
    using nextRawPacket_sat [OF reader_ok_limit [OF that(1), of "audioPacketLimit h"]] that(2) audioPacketLimit_ge [of h]
    by (intro header_packet_sat) (auto elim: sat_conseq)
  have u: "reader_ok (cr\<lparr>head := h, tags := t\<rparr>) = reader_ok cr" for cr h t by (simp add: reader_ok_def)
  show ?thesis
    unfolding newContainerReader_def sat_bnd
    apply (rule sat_mono [OF a])
    apply (clarsimp simp: Let_def)
    apply (rule sat_mono [OF parsers_sat(1)])
    apply (clarsimp simp del: sat_bnd)
    apply (rule sat_mono [OF b], assumption, assumption)
    apply (auto simp: u intro: sat_mono [OF parsers_sat(2)] sat_mono [OF parsers_sat(3)])
    done
qed

section \<open>Properties\<close>

text \<open>C6: The container writer emits a well-formed Ogg Opus stream on any sink that does not fail: the
  bytes are whole pages of one serial with consecutive sequence numbers, BOS on the first page and
  EOS on the last one only, continued flags exactly where the page before ends inside a packet; the
  identification header alone on the first page, the comment header alone on the second; the pages
  reassemble to the headers and the packets written; and every page has the granule of the last
  packet it completes, the final one end-trimmed to the pre-skip plus the source's samples.\<close>

theorem container_stream:
  assumes "appends wr out" "length (tags_marshal tg) \<le> 65024" "durations_ok (map snd ps) src"
  shows "\<exists>o1 P. write_stream wr o0 ser h tg ps src = (o1, None) \<and> out o1 = out o0 @ concat (map page_bytes P)
    \<and> opus_stream ser h tg ps src P"
  using assms by (rule write_stream_ok)

definition demo_head :: opusHead where
  "demo_head = \<lparr>h_version = 1, h_channels = 1, h_preSkip = 312, h_inputSampleRate = 48000, h_outputGain = 0,
     h_mappingFamily = 0, h_streamCount = 0, h_coupledCount = 0, h_channelMapping = []\<rparr>"

definition demo_tags :: opusTags where
  "demo_tags = \<lparr>vendor = [103, 111], comments = [[65, 61, 66]]\<rparr>"

text \<open>\<^verbatim>\<open>bytes.Buffer\<close>\<close>
definition buf_write :: "bytes \<Rightarrow> bytes \<Rightarrow> bytes \<times> oerr option" where
  "buf_write s b = (s @ b, None)"

lemma buf_appends: "appends buf_write id"
  by (simp add: appends_def buf_write_def)

lemma demo_tags_short: "length (tags_marshal demo_tags) = 25"
  by (simp add: demo_tags_def tags_marshal_def opusTagsMagic_def appendUint32_def Let_def)

lemma container_stream_witness:
  "\<exists>o1 P. write_stream buf_write [] 7 demo_head demo_tags [([1, 2, 3], 960), ([4], 960)] 1500 = (o1, None)
    \<and> id o1 = id [] @ concat (map page_bytes P) \<and> opus_stream 7 demo_head demo_tags [([1, 2, 3], 960), ([4], 960)] 1500 P"
  by (rule container_stream [OF buf_appends]) (simp_all add: demo_tags_short durations_ok_def)

text \<open>C4: What the container writer writes, the container reader reads back: the same headers, exactly the
  packets written and in order whatever their sizes, then a clean end of the stream, and the number
  of playable samples is the source's (or, when the caller passes a smaller one, the audio already
  committed less the pre-skip).\<close>

theorem container_roundtrip:
  assumes "appends wr out" "out o0 = []" "head_ok h" "tags_ok tg" "length (tags_marshal tg) < 61440"
    "durations_ok (map snd ps) src" "\<forall>p\<in>set ps. len (fst p) \<le> audioPacketLimit h"
  shows "\<exists>o1 cr cr1 cr2. write_stream wr o0 ser h tg ps src = (o1, None)
    \<and> newContainerReader \<lparr>rest = out o1, src_err = EOF\<rparr> = Ok cr \<and> head cr = h \<and> tags cr = tg
    \<and> read_n (length ps) cr = Ok (cr1, map fst ps) \<and> nextPacket cr1 = Err (cr2, EOF)
    \<and> totalSamples cr2 = Some (if ps = [] then - uint (h_preSkip h)
        else max src (sum_list (butlast (map snd ps)) - uint (h_preSkip h)))"
proof -
  obtain o1 P where w: "write_stream wr o0 ser h tg ps src = (o1, None)" "out o1 = concat (map page_bytes P)" "opus_stream ser h tg ps src P"
    using write_stream_ok [OF assms(1) _ assms(6), of tg o0 ser h] assms(2,5) by auto
  let ?fg = "last (0 # 0 # packet_granules (uint (h_preSkip h)) src (map snd ps))"
  obtain cr R where r: "newContainerReader \<lparr>rest = concat (map page_bytes P), src_err = EOF\<rparr> = Ok cr" "head cr = h" "tags cr = tg"
      "reading_inv ser R (map fst ps) ?fg cr"
    using open_reader [OF assms(3-5) w(3) assms(6,7)] by blast
  obtain cr1 cr2 where e: "read_n (length ps) cr = Ok (cr1, map fst ps)" "nextPacket cr1 = Err (cr2, EOF)" "finalGranule cr2 = ?fg" "head cr2 = h"
    using reading_rest [OF r(4)] r(2) by auto
  have nn: "0 \<le> ?fg" using final_granule_nonneg [OF assms(6)] .
  have "totalSamples cr2 = Some (?fg - uint (h_preSkip h))" using nn e(3,4) unfolding totalSamples_def by simp
  also have "?fg - uint (h_preSkip h) = (if ps = [] then - uint (h_preSkip h)
        else max src (sum_list (butlast (map snd ps)) - uint (h_preSkip h)))"
    by (auto simp: packet_granules_def)
  finally show ?thesis using w(1) r(1-3) e(1,2) unfolding w(2) [symmetric] by blast
qed

lemma container_roundtrip_witness:
  "\<exists>o1 cr cr1 cr2. write_stream buf_write [] 7 demo_head demo_tags [([1, 2, 3], 960), ([4], 960)] 1500 = (o1, None)
    \<and> newContainerReader \<lparr>rest = id o1, src_err = EOF\<rparr> = Ok cr \<and> head cr = demo_head \<and> tags cr = demo_tags
    \<and> read_n (length [([1, 2, 3 :: u8], 960 :: int), ([4], 960)]) cr = Ok (cr1, map fst [([1, 2, 3], 960 :: int), ([4], 960)]) \<and> nextPacket cr1 = Err (cr2, EOF)
    \<and> totalSamples cr2 = Some (if [([1, 2, 3 :: u8], 960 :: int), ([4], 960)] = [] then - uint (h_preSkip demo_head)
        else max 1500 (sum_list (butlast (map snd [([1, 2, 3 :: u8], 960), ([4], 960)])) - uint (h_preSkip demo_head)))"
  by (rule container_roundtrip [OF buf_appends])
     (simp_all add: demo_tags_short durations_ok_def audioPacketLimit_def reader_consts, simp_all add: demo_head_def demo_tags_def head_ok_def mappingFamily0_def tags_ok_def)

text \<open>C26: On any input the reader never reads out of bounds and its memory is bounded: the packet in
  progress and every packet it returns stay within the limit the stream's header gives (or the header
  limit), and a page that would exceed it ends in an error; the invariant holds from the start.\<close>

theorem reader_bounded:
  "(case newContainerReader r of Ok cr \<Rightarrow> reader_ok cr \<and> limit cr = audioPacketLimit (head cr) | Err e \<Rightarrow> True | Panic \<Rightarrow> False)
   \<and> (reader_ok cr \<longrightarrow> (case nextPacket cr of
        Ok (cr', p) \<Rightarrow> reader_ok cr' \<and> limit cr' = limit cr \<and> len p \<le> max maxHeaderPacketLen (limit cr)
      | Err (cr', e) \<Rightarrow> len (partial cr') \<le> max maxHeaderPacketLen (limit cr')
      | Panic \<Rightarrow> False))"
proof -
  have "case newContainerReader r of Ok cr \<Rightarrow> reader_ok cr \<and> limit cr = audioPacketLimit (head cr) | Err e \<Rightarrow> True | Panic \<Rightarrow> False"
    using newContainerReader_sat [of r] by (simp add: sat_def split: res.splits)
  moreover have "case nextPacket cr of
        Ok (cr', p) \<Rightarrow> reader_ok cr' \<and> limit cr' = limit cr \<and> len p \<le> max maxHeaderPacketLen (limit cr)
      | Err (cr', e) \<Rightarrow> len (partial cr') \<le> max maxHeaderPacketLen (limit cr')
      | Panic \<Rightarrow> False" if "reader_ok cr"
    using nextRawPacket_sat [OF that] by (auto simp: sat_def nextPacket_def failed_ok_def split: res.splits)
  ultimately show ?thesis by blast
qed

lemma reader_bounded_witness:
  "case nextPacket (newReader \<lparr>rest = [79], src_err = EOF\<rparr>) of
     Ok (cr', p) \<Rightarrow> reader_ok cr' \<and> limit cr' = limit (newReader \<lparr>rest = [79], src_err = EOF\<rparr>)
       \<and> len p \<le> max maxHeaderPacketLen (limit (newReader \<lparr>rest = [79], src_err = EOF\<rparr>))
   | Err (cr', e) \<Rightarrow> len (partial cr') \<le> max maxHeaderPacketLen (limit cr')
   | Panic \<Rightarrow> False"
  using reader_bounded [of "\<lparr>rest = [], src_err = EOF\<rparr>" "newReader \<lparr>rest = [79], src_err = EOF\<rparr>"] newReader_ok [of "\<lparr>rest = [79], src_err = EOF\<rparr>"]
  by blast

text \<open>Closing is idempotent: after a close that succeeded, another one writes nothing and succeeds.\<close>

theorem close_idempotent:
  assumes "cw_close wr src cw = (cw', None)"
  shows "cw_close wr src' cw' = (cw', None)"
proof -
  have "closed (sw cw')" "\<not> hasHeld cw'"
    using assms by (auto simp: cw_close_def andThen_ok sw_close_def commit_def Let_def split: if_splits prod.splits option.splits)
  then show ?thesis by (simp add: cw_close_def sw_close_def)
qed

lemma close_idempotent_witness:
  "\<exists>cw'. cw_close buf_write 960 \<lparr>sw = newStreamWriter [] 7, preSkip = 0, cgranule = 0, heldPacket = [1], heldDur = 960, hasHeld = True, audioCount = 1\<rparr> = (cw', None)
     \<and> cw_close buf_write 5 cw' = (cw', None)"
proof -
  let ?cw = "\<lparr>sw = newStreamWriter [] 7, preSkip = 0, cgranule = 0, heldPacket = [1], heldDur = 960, hasHeld = True, audioCount = 1\<rparr>"
  have l: "lacing (Suc 0) = [1]" by (simp add: lacing_eq)
  have "\<exists>cw'. cw_close buf_write 960 ?cw = (cw', None)"
    by (simp add: cw_close_def writeAudioPacket_def sw_writePacket_def newStreamWriter_def l Let_def sw_close_def commit_def
        writePage_def page_consts buf_write_def)
  then show ?thesis using close_idempotent by blast
qed

end
