(* ===== verification/Ogg_Encoder.thy ===== *)
theory Ogg_Encoder
  imports Ogg_Stream_Props
begin

text \<open>
  The PCM encoder of \<^verbatim>\<open>oggopus\<close>: its configuration (\<^verbatim>\<open>config.go\<close>), the codec seam and the adapter to the
  Opus encoder (\<^verbatim>\<open>codec.go\<close>), and the streaming encoder (\<^verbatim>\<open>encoder.go\<close>).

  Samples (\<^verbatim>\<open>int16\<close>) are their 16-bit patterns.  The codec is an implementation of the Go interface
  \<^verbatim>\<open>frameEncoder\<close>, the record \<open>seam\<close> of its methods; \<^verbatim>\<open>opus.Encoder\<close> behind the adapter is the record \<open>opusPkg\<close>
  of the functions the adapter calls.  The random serial is an argument.  An error carries the encoder's
  state.  A method call on a nil container writer is a \<open>Panic\<close>.
\<close>

section \<open>Configuration\<close>

definition maxComplexity :: int where "maxComplexity = 10"
definition defaultComplexity :: int where "defaultComplexity = 10"
definition validSampleRates :: "int list" where "validSampleRates = [8000, 12000, 16000, 24000, 48000]"
definition defaultFrameDurationMS :: int where "defaultFrameDurationMS = 20"
definition validFrameDurationsMS :: "int list" where "validFrameDurationsMS = [20, 40, 60, 80, 100, 120]"
definition sampleRate48k :: int where "sampleRate48k = 48000"

record Config =
  SampleRate :: int
  Channels :: int
  Bitrate :: int
  CBR :: bool
  ConstrainedVBR :: bool
  Complexity :: int
  FrameDurationMS :: int
  DTX :: bool
  Vendor :: bytes
  Comments :: "bytes list"

fun in_table :: "int \<Rightarrow> int list \<Rightarrow> bool" where
  "in_table r [] = False"
| "in_table r (v # vs) = (if r = v then True else in_table r vs)"

definition validSampleRate :: "int \<Rightarrow> bool" where
  "validSampleRate r = in_table r validSampleRates"

definition validFrameDuration :: "int \<Rightarrow> bool" where
  "validFrameDuration ms = in_table ms validFrameDurationsMS"

definition validate :: "Config \<Rightarrow> unit ogg" where
  "validate c =
     (if \<not> validSampleRate (SampleRate c) then Err (ErrInvalidConfig ''sample rate'' (SampleRate c))
      else if Channels c \<noteq> 1 \<and> Channels c \<noteq> 2 then Err (ErrInvalidConfig ''channels'' (Channels c))
      else if Bitrate c < 0 then Err (ErrInvalidConfig ''negative bitrate'' (Bitrate c))
      else if Complexity c < 0 \<or> Complexity c > maxComplexity then Err (ErrInvalidConfig ''complexity'' (Complexity c))
      else if FrameDurationMS c \<noteq> 0 \<and> \<not> validFrameDuration (FrameDurationMS c)
      then Err (ErrInvalidConfig ''frame duration'' (FrameDurationMS c))
      else Ok ())"

definition frameDurationMS :: "Config \<Rightarrow> int" where
  "frameDurationMS c = (if FrameDurationMS c = 0 then defaultFrameDurationMS else FrameDurationMS c)"

text \<open>\<^verbatim>\<open>opus.Version\<close>, in ASCII\<close>
definition libVersion :: bytes where "libVersion = [49, 46, 51, 46, 48]"

text \<open>\<^verbatim>\<open>"go-opus " + libVersion\<close>, in ASCII\<close>
definition defaultVendor :: bytes where
  "defaultVendor = [103, 111, 45, 111, 112, 117, 115, 32] @ libVersion"

definition vendorString :: "Config \<Rightarrow> bytes" where
  "vendorString c = (if Vendor c \<noteq> [] then Vendor c else defaultVendor)"

section \<open>The codec seam\<close>

record 'c seam =
  new_enc :: "Config \<Rightarrow> oerr + 'c"
  enc_frame :: "'c \<Rightarrow> u16 list \<Rightarrow> 'c \<times> (oerr + bytes \<times> int)"
  lookahead :: "'c \<Rightarrow> int"
  enc_close :: "'c \<Rightarrow> 'c"

text \<open>What the adapter uses of the package \<^verbatim>\<open>opus\<close>; an error is a number.\<close>

record 'o opusPkg =
  opus_NewEncoder :: "Config \<Rightarrow> nat + 'o"
  opus_Encode :: "'o \<Rightarrow> u16 list \<Rightarrow> int \<Rightarrow> 'o \<times> (nat + bytes)"
  opus_Lookahead :: "'o \<Rightarrow> int"

definition maxPacketBytes :: int where "maxPacketBytes = 1276 * 6"

record 'o opusFrameEncoder =
  ofe_enc :: 'o
  ofe_sampleRate :: int
  ofe_channels :: int
  ofe_preSkip48k :: int
  ofe_bufLen :: int

definition ofe_encodeFrame :: "'o opusPkg \<Rightarrow> 'o opusFrameEncoder \<Rightarrow> u16 list \<Rightarrow> 'o opusFrameEncoder \<times> (oerr + bytes \<times> int)" where
  "ofe_encodeFrame pk e pcm =
     (case opus_Encode pk (ofe_enc e) pcm (ofe_bufLen e) of
        (o', Inl err) \<Rightarrow> (e\<lparr>ofe_enc := o'\<rparr>, Inl (CodecError ''encoding a frame'' err))
      | (o', Inr p) \<Rightarrow> (e\<lparr>ofe_enc := o'\<rparr>, Inr (p, ((len pcm sdiv ofe_channels e) * sampleRate48k) sdiv ofe_sampleRate e)))"

definition newFrameEncoder :: "'o opusPkg \<Rightarrow> Config \<Rightarrow> oerr + 'o opusFrameEncoder" where
  "newFrameEncoder pk c =
     (case opus_NewEncoder pk c of
        Inl err \<Rightarrow> Inl (CodecError ''building the opus encoder'' err)
      | Inr o' \<Rightarrow> Inr \<lparr>ofe_enc = o', ofe_sampleRate = SampleRate c, ofe_channels = Channels c,
          ofe_preSkip48k = (opus_Lookahead pk o' * sampleRate48k) sdiv SampleRate c, ofe_bufLen = maxPacketBytes\<rparr>)"

definition opus_seam :: "'o opusPkg \<Rightarrow> 'o opusFrameEncoder seam" where
  "opus_seam pk = \<lparr>new_enc = newFrameEncoder pk, enc_frame = ofe_encodeFrame pk, lookahead = ofe_preSkip48k, enc_close = (\<lambda>e. e)\<rparr>"

section \<open>The encoder\<close>

record ('w, 'c) Encoder =
  ew :: 'w
  cfg :: Config
  enc :: "'c option"
  cwr :: "'w containerWriter option"
  frameLen :: int
  frameBytes :: int
  frame :: "u16 list"
  carry :: bytes
  srcSamples :: int
  coded48k :: int
  e_closed :: bool

type_synonym ('w, 'c) encoding = "(('w, 'c) Encoder \<times> oerr, ('w, 'c) Encoder) res"

definition initStream :: "('w \<Rightarrow> bytes \<Rightarrow> 'w \<times> oerr option) \<Rightarrow> 'c seam \<Rightarrow> u32 \<Rightarrow> 'c \<Rightarrow> ('w, 'c) Encoder \<Rightarrow> ('w, 'c) encoding" where
  "initStream wr sm ser c e =
     (let h = \<lparr>h_version = opusHeadVersion, h_channels = word_of_int (Channels (cfg e)), h_preSkip = word_of_int (lookahead sm c),
              h_inputSampleRate = word_of_int (SampleRate (cfg e)), h_outputGain = 0, h_mappingFamily = mappingFamily0,
              h_streamCount = 0, h_coupledCount = 0, h_channelMapping = []\<rparr>;
          tg = \<lparr>vendor = vendorString (cfg e), comments = Comments (cfg e)\<rparr> in
      case newContainerWriter wr (ew e) ser h tg of
        Err (o', er) \<Rightarrow> Err (e\<lparr>ew := o'\<rparr>, er)
      | Panic \<Rightarrow> Panic
      | Ok c \<Rightarrow> Ok (e\<lparr>cwr := Some c, frame := replicate (nat (frameLen e * Channels (cfg e))) 0\<rparr>))"

text \<open>\<^verbatim>\<open>Encoder.reset\<close>; the contents of the reused frame buffer are never read before being written, so a
  new one is all zero.  The sink is not nil.\<close>

definition enc_reset :: "('w \<Rightarrow> bytes \<Rightarrow> 'w \<times> oerr option) \<Rightarrow> 'c seam \<Rightarrow> u32 \<Rightarrow> 'w \<Rightarrow> Config \<Rightarrow> ('w, 'c) Encoder \<Rightarrow> ('w, 'c) encoding" where
  "enc_reset wr sm ser out c e =
     (let e = e\<lparr>enc := None, cwr := None, carry := [], srcSamples := 0, coded48k := 0, e_closed := False\<rparr> in
      case validate c of
        Err er \<Rightarrow> Err (e, er)
      | Panic \<Rightarrow> Panic
      | Ok _ \<Rightarrow>
          (let fl = (SampleRate c * frameDurationMS c) sdiv 1000;
               e = e\<lparr>ew := out, cfg := c, frameLen := fl, frameBytes := fl * Channels c * 2\<rparr> in
           case new_enc sm c of
             Inl er \<Rightarrow> Err (e, er)
           | Inr k \<Rightarrow> initStream wr sm ser k (e\<lparr>enc := Some k\<rparr>)))"

definition encodeFrame :: "('w \<Rightarrow> bytes \<Rightarrow> 'w \<times> oerr option) \<Rightarrow> 'c seam \<Rightarrow> int \<Rightarrow> ('w, 'c) Encoder \<Rightarrow> ('w, 'c) encoding" where
  "encodeFrame wr sm realSamples e =
     (case enc e of
        None \<Rightarrow> Panic
      | Some k \<Rightarrow>
          bnd (slice (frame e) 0 (frameLen e * Channels (cfg e))) (\<lambda>pcm.
          case enc_frame sm k pcm of
            (k, Inl er) \<Rightarrow> Err (e\<lparr>enc := Some k\<rparr>, er)
          | (k, Inr (pkt, samples48k)) \<Rightarrow>
              (let e = e\<lparr>enc := Some k, srcSamples := srcSamples e + realSamples, coded48k := coded48k e + samples48k\<rparr> in
               case cwr e of
                 None \<Rightarrow> Panic
               | Some c \<Rightarrow> (case cw_writePacket wr pkt samples48k c of
                   (c, None) \<Rightarrow> Ok (e\<lparr>cwr := Some c\<rparr>)
                 | (c, Some er) \<Rightarrow> Err (e\<lparr>cwr := Some c\<rparr>, er)))))"

text \<open>Little-endian samples; a loop of \<open>n\<close> samples reads \<open>2 * n\<close> bytes into the first \<open>n\<close> places of the frame.\<close>

fun samples_of :: "bytes \<Rightarrow> u16 list" where
  "samples_of (a # b # r) = get16 [a, b] # samples_of r"
| "samples_of _ = []"

definition load_samples :: "int \<Rightarrow> bytes \<Rightarrow> u16 list \<Rightarrow> ('e, u16 list) res" where
  "load_samples n b fr = (if 2 * n \<le> len b \<and> n \<le> len fr then Ok (samples_of (take (nat (2 * n)) b) @ drop (nat n) fr) else Panic)"

definition encodeFrameBytes :: "('w \<Rightarrow> bytes \<Rightarrow> 'w \<times> oerr option) \<Rightarrow> 'c seam \<Rightarrow> bytes \<Rightarrow> ('w, 'c) Encoder \<Rightarrow> ('w, 'c) encoding" where
  "encodeFrameBytes wr sm chunk e =
     bnd (load_samples (frameLen e * Channels (cfg e)) chunk (frame e)) (\<lambda>fr.
     encodeFrame wr sm (frameLen e) (e\<lparr>frame := fr\<rparr>))"

definition encodeSilenceFrame :: "('w \<Rightarrow> bytes \<Rightarrow> 'w \<times> oerr option) \<Rightarrow> 'c seam \<Rightarrow> ('w, 'c) Encoder \<Rightarrow> ('w, 'c) encoding" where
  "encodeSilenceFrame wr sm e =
     bnd (slice_from (frame e) (frameLen e * Channels (cfg e))) (\<lambda>r.
     encodeFrame wr sm 0 (e\<lparr>frame := replicate (nat (frameLen e * Channels (cfg e))) 0 @ r\<rparr>))"

text \<open>The loop of \<^verbatim>\<open>write\<close> over whole frames, and the remainder that is carried (\<^verbatim>\<open>reset\<close> never makes a frame
  of no bytes, for which the loop would not end).  The number of bytes consumed is the second result.\<close>

type_synonym ('w, 'c) written = "(('w, 'c) Encoder \<times> int \<times> oerr, ('w, 'c) Encoder \<times> int) res"

definition with_count :: "int \<Rightarrow> ('w, 'c) encoding \<Rightarrow> (('w, 'c) Encoder \<times> int \<times> oerr, ('w, 'c) Encoder) res" where
  "with_count n m = (case m of Ok e \<Rightarrow> Ok e | Err (e, er) \<Rightarrow> Err (e, n, er) | Panic \<Rightarrow> Panic)"

function write_frames :: "('w \<Rightarrow> bytes \<Rightarrow> 'w \<times> oerr option) \<Rightarrow> 'c seam \<Rightarrow> int \<Rightarrow> int \<Rightarrow> bytes \<Rightarrow> ('w, 'c) Encoder \<Rightarrow> ('w, 'c) written" where
  "write_frames wr sm fb tot p e =
     (if 0 < fb \<and> fb \<le> len p then
        bnd (with_count (tot - len p) (encodeFrameBytes wr sm (take (nat fb) p) e)) (\<lambda>e.
        write_frames wr sm fb tot (drop (nat fb) p) e)
      else Ok (e\<lparr>carry := carry e @ p\<rparr>, tot))"
  by pat_completeness auto
termination
  by (relation "measure (\<lambda>(wr, sm, fb, tot, p, e). length p)") auto

declare write_frames.simps [simp del]

definition enc_write :: "('w \<Rightarrow> bytes \<Rightarrow> 'w \<times> oerr option) \<Rightarrow> 'c seam \<Rightarrow> bytes \<Rightarrow> ('w, 'c) Encoder \<Rightarrow> ('w, 'c) written" where
  "enc_write wr sm p e =
     (let tot = len p in
      if carry e \<noteq> [] then
        (let need = frameBytes e - len (carry e); tk = min need (len p) in
         bnd (slice p 0 tk) (\<lambda>q. bnd (slice_from p tk) (\<lambda>p.
         let e = e\<lparr>carry := carry e @ q\<rparr> in
         bnd (if len (carry e) = frameBytes e
              then bnd (with_count (tot - len p) (encodeFrameBytes wr sm (carry e) e)) (\<lambda>e. Ok (e\<lparr>carry := []\<rparr>))
              else Ok e) (\<lambda>e.
         write_frames wr sm (frameBytes e) tot p e))))
      else write_frames wr sm (frameBytes e) tot p e)"

definition enc_Write :: "('w \<Rightarrow> bytes \<Rightarrow> 'w \<times> oerr option) \<Rightarrow> 'c seam \<Rightarrow> bytes \<Rightarrow> ('w, 'c) Encoder \<Rightarrow> ('w, 'c) written" where
  "enc_Write wr sm p e =
     (if e_closed e then Err (e, 0, ErrClosed)
      else if enc e = None then Err (e, 0, errUninitialized)
      else enc_write wr sm p e)"

section \<open>Closing\<close>

text \<open>The buffered partial frame, zero-padded.\<close>

definition flush_carry :: "('w \<Rightarrow> bytes \<Rightarrow> 'w \<times> oerr option) \<Rightarrow> 'c seam \<Rightarrow> ('w, 'c) Encoder \<Rightarrow> ('w, 'c) encoding" where
  "flush_carry wr sm e =
     (if carry e = [] then Ok e
      else
        (let bytesPerSample = Channels (cfg e) * 2 in
         if len (carry e) smod bytesPerSample \<noteq> 0 then Err (e, TrailingBytes (len (carry e)))
         else
           (let realSamples = len (carry e) sdiv bytesPerSample; have = len (carry e) sdiv 2; n = frameLen e * Channels (cfg e) in
            bnd (load_samples have (carry e) (frame e)) (\<lambda>fr.
            bnd (slice fr 0 have) (\<lambda>a. bnd (slice fr have n) (\<lambda>b. bnd (slice_from fr n) (\<lambda>c.
            bnd (encodeFrame wr sm realSamples (e\<lparr>frame := a @ map (\<lambda>_. 0) b @ c\<rparr>)) (\<lambda>e.
            Ok (e\<lparr>carry := []\<rparr>)))))))))"

text \<open>The loop that codes silence until the granule is covered: \<open>None\<close> if it never ends.\<close>

partial_function (option) pad_silence :: "('w \<Rightarrow> bytes \<Rightarrow> 'w \<times> oerr option) \<Rightarrow> 'c seam \<Rightarrow> int \<Rightarrow> ('w, 'c) Encoder \<Rightarrow> ('w, 'c) encoding option" where
  "pad_silence wr sm src48k e =
     (case cwr e of
        None \<Rightarrow> Some Panic
      | Some c \<Rightarrow>
          if coded48k e < preSkip c + src48k then
            (case encodeSilenceFrame wr sm e of
               Ok e \<Rightarrow> pad_silence wr sm src48k e
             | Err x \<Rightarrow> Some (Err x)
             | Panic \<Rightarrow> Some Panic)
          else Some (Ok e))"

definition enc_Close :: "('w \<Rightarrow> bytes \<Rightarrow> 'w \<times> oerr option) \<Rightarrow> 'c seam \<Rightarrow> ('w, 'c) Encoder \<Rightarrow> ('w, 'c) encoding option" where
  "enc_Close wr sm e =
     (if e_closed e then Some (Ok e)
      else if enc e = None then Some (Err (e, errUninitialized))
      else
        (case flush_carry wr sm e of
           Err x \<Rightarrow> Some (Err x)
         | Panic \<Rightarrow> Some Panic
         | Ok e \<Rightarrow>
             (let src48k = (srcSamples e * sampleRate48k) sdiv SampleRate (cfg e) in
              case (case cwr e of None \<Rightarrow> Panic | Some c \<Rightarrow> if audioCount c = 0 then encodeSilenceFrame wr sm e else Ok e) of
                Err x \<Rightarrow> Some (Err x)
              | Panic \<Rightarrow> Some Panic
              | Ok e \<Rightarrow>
                  (case pad_silence wr sm src48k e of
                     None \<Rightarrow> None
                   | Some (Err x) \<Rightarrow> Some (Err x)
                   | Some Panic \<Rightarrow> Some Panic
                   | Some (Ok e) \<Rightarrow>
                       (let e = e\<lparr>e_closed := True, enc := map_option (enc_close sm) (enc e)\<rparr> in
                        Some (case cwr e of
                          None \<Rightarrow> Panic
                        | Some c \<Rightarrow> (case cw_close wr src48k c of
                            (c, None) \<Rightarrow> Ok (e\<lparr>cwr := Some c\<rparr>)
                          | (c, Some er) \<Rightarrow> Err (e\<lparr>cwr := Some c\<rparr>, er))))))))"


text \<open>\<^verbatim>\<open>EncodeInterleaved\<close> on an encoder from the pool, which it resets.\<close>

definition EncodeInterleaved :: "('w \<Rightarrow> bytes \<Rightarrow> 'w \<times> oerr option) \<Rightarrow> 'c seam \<Rightarrow> u32 \<Rightarrow> 'w \<Rightarrow> Config \<Rightarrow> bytes \<Rightarrow> ('w, 'c) Encoder \<Rightarrow> ('w, 'c) encoding option" where
  "EncodeInterleaved wr sm ser out c pcm e =
     (case validate c of
        Err er \<Rightarrow> Some (Err (e, er))
      | Panic \<Rightarrow> Some Panic
      | Ok _ \<Rightarrow>
          if len pcm smod (Channels c * 2) \<noteq> 0 then Some (Err (e, ErrInvalidConfig ''pcm length'' (len pcm)))
          else (case enc_reset wr sm ser out c e of
            Err x \<Rightarrow> Some (Err x)
          | Panic \<Rightarrow> Some Panic
          | Ok e \<Rightarrow> (case enc_Write wr sm pcm e of
              Err (e, n, er) \<Rightarrow> Some (Err (e, er))
            | Panic \<Rightarrow> Some Panic
            | Ok (e, n) \<Rightarrow> enc_Close wr sm e)))"

end
