(* ===== verification/Ogg_Encoder_Props.thy ===== *)
theory Ogg_Encoder_Props
  imports Ogg_Encoder
begin

text \<open>
  The streaming encoder is correct for every codec that keeps its contract (\<open>codec_ok\<close>), which the adapter
  to the Opus encoder provides (\<open>adapter_codec_ok\<close>): the invariant \<open>coded\<close> (frames coded, source samples),
  \<open>writable\<close> (what is carried between writes), and the streams \<open>Close\<close> leaves.
\<close>

section \<open>Frame sizes\<close>

definition frame_len :: "Config \<Rightarrow> int" where "frame_len c = (SampleRate c * frameDurationMS c) sdiv 1000"
definition frame_48k :: "Config \<Rightarrow> int" where "frame_48k c = 48 * frameDurationMS c"

text \<open>The samples (of all channels) in a frame.\<close>
definition frame_size :: "Config \<Rightarrow> nat" where "frame_size c = nat (frame_len c * Channels c)"

definition valid :: "Config \<Rightarrow> bool" where "valid c \<longleftrightarrow> validate c = Ok ()"

lemma valid_cases:
  assumes "valid c"
  shows "SampleRate c \<in> {8000, 12000, 16000, 24000, 48000}" "Channels c \<in> {1, 2}" "frameDurationMS c \<in> {20, 40, 60, 80, 100, 120}"
  using assms
  by (auto simp: valid_def validate_def validSampleRate_def validSampleRates_def validFrameDuration_def validFrameDurationsMS_def
      frameDurationMS_def defaultFrameDurationMS_def split: if_splits)

lemma frame_facts:
  assumes "valid c"
  shows "1000 * frame_len c = SampleRate c * frameDurationMS c" "(frame_len c * 48000) sdiv SampleRate c = frame_48k c"
    "frame_len c > 0" "frame_48k c \<ge> 960" "frame_48k c \<le> 5760" "int (frame_size c) = frame_len c * Channels c" "0 < frame_size c"
    "frame_len c * 48000 = frame_48k c * SampleRate c" "0 < SampleRate c" "SampleRate c \<le> 48000" "0 < Channels c" "Channels c \<le> 2"
proof -
  note v = valid_cases [OF assms]
  show "1000 * frame_len c = SampleRate c * frameDurationMS c" "(frame_len c * 48000) sdiv SampleRate c = frame_48k c"
    and l: "frame_len c > 0" and "frame_48k c \<ge> 960" "frame_48k c \<le> 5760"
     "frame_len c * 48000 = frame_48k c * SampleRate c" "0 < SampleRate c" "SampleRate c \<le> 48000"
    using v(1,3) by (auto simp: frame_len_def frame_48k_def sdiv_nonneg)
  show c: "0 < Channels c" "Channels c \<le> 2" using v(2) by auto
  show "int (frame_size c) = frame_len c * Channels c" "0 < frame_size c" using l c by (simp_all add: frame_size_def)
qed

section \<open>Frames of a padded signal\<close>

text \<open>The first \<open>N\<close> frames of \<open>n\<close> samples of the signal \<open>xs\<close> followed by silence.\<close>

fun pad_frames :: "nat \<Rightarrow> nat \<Rightarrow> u16 list \<Rightarrow> u16 list list" where
  "pad_frames n 0 xs = []"
| "pad_frames n (Suc N) xs = (take n xs @ replicate (n - length xs) 0) # pad_frames n N (drop n xs)"

lemma pad_frames_snoc: "pad_frames n (Suc N) xs = pad_frames n N xs @ [take n (drop (N * n) xs) @ replicate (n - length (drop (N * n) xs)) 0]"
proof (induction N arbitrary: xs)
  case (Suc N)
  have "pad_frames n (Suc (Suc N)) xs = (take n xs @ replicate (n - length xs) 0) # pad_frames n (Suc N) (drop n xs)" by simp
  also have "\<dots> = (take n xs @ replicate (n - length xs) 0) # (pad_frames n N (drop n xs)
      @ [take n (drop (N * n) (drop n xs)) @ replicate (n - length (drop (N * n) (drop n xs))) 0])" by (simp only: Suc.IH)
  finally show ?case by (simp add: add.commute)
qed simp

lemma pad_frames_prefix: "N * n \<le> length xs \<Longrightarrow> pad_frames n N (xs @ ys) = pad_frames n N xs"
proof (induction N arbitrary: xs)
  case (Suc N)
  then show ?case using Suc.IH [of "drop n xs"] by simp
qed simp

lemma length_pad_frames [simp]: "length (pad_frames n N xs) = N"
  by (induction N arbitrary: xs) simp_all

lemma length_pad_frame: "f \<in> set (pad_frames n N xs) \<Longrightarrow> length f = n"
  by (induction N arbitrary: xs) auto

lemma length_samples_of [simp]: "length (samples_of b) = length b div 2"
  by (induction b rule: samples_of.induct) simp_all

lemma samples_of_append: "even (length a) \<Longrightarrow> samples_of (a @ b) = samples_of a @ samples_of b"
  by (induction a rule: samples_of.induct) simp_all

lemma samples_of_take: "samples_of (take (2 * n) b) = take n (samples_of b)"
proof (induction n arbitrary: b)
  case (Suc n)
  then show ?case by (cases b; cases "tl b") simp_all
qed simp

lemma samples_of_drop: "samples_of (drop (2 * n) b) = drop n (samples_of b)"
proof (induction n arbitrary: b)
  case (Suc n)
  then show ?case by (cases b; cases "tl b") simp_all
qed simp

section \<open>The codec's contract\<close>

text \<open>What the encoder relies on: coding a full frame succeeds, gives a packet that fits the packet
  buffer, and reports the frame's duration.  \<open>good\<close> is the codec's own invariant.\<close>

definition codec_ok :: "'c seam \<Rightarrow> Config \<Rightarrow> ('c \<Rightarrow> bool) \<Rightarrow> bool" where
  "codec_ok sm c good \<longleftrightarrow> (\<forall>k pcm. good k \<and> length pcm = frame_size c \<longrightarrow>
     (\<exists>k' p. enc_frame sm k pcm = (k', Inr (p, frame_48k c)) \<and> good k' \<and> len p \<le> maxPacketBytes))"

fun encode_seq :: "'c seam \<Rightarrow> 'c \<Rightarrow> u16 list list \<Rightarrow> bytes list \<times> 'c" where
  "encode_seq sm k [] = ([], k)"
| "encode_seq sm k (f # fs) =
     (case enc_frame sm k f of
        (k, Inr (p, d)) \<Rightarrow> (case encode_seq sm k fs of (ps, k) \<Rightarrow> (p # ps, k))
      | (k, Inl _) \<Rightarrow> ([], k))"

lemma encode_seq_ok: "codec_ok sm c good \<Longrightarrow> good k \<Longrightarrow> \<forall>f\<in>set fs. length f = frame_size c
    \<Longrightarrow> good (snd (encode_seq sm k fs)) \<and> length (fst (encode_seq sm k fs)) = length fs
      \<and> (\<forall>p\<in>set (fst (encode_seq sm k fs)). len p \<le> maxPacketBytes)"
proof (induction fs arbitrary: k)
  case (Cons f fs)
  obtain k' p where e: "enc_frame sm k f = (k', Inr (p, frame_48k c))" "good k'" "len p \<le> maxPacketBytes"
    using Cons.prems unfolding codec_ok_def by (metis list.set_intros(1))
  then show ?case using Cons.IH [OF Cons.prems(1) e(2)] Cons.prems(3) by (auto split: prod.splits)
qed simp

lemma encode_seq_snoc:
  assumes "codec_ok sm c good" "good k" "\<forall>f\<in>set fs. length f = frame_size c" "length f = frame_size c"
    "enc_frame sm (snd (encode_seq sm k fs)) f = (k', Inr (p, d))"
  shows "encode_seq sm k (fs @ [f]) = (fst (encode_seq sm k fs) @ [p], k')"
  using assms
proof (induction fs arbitrary: k)
  case (Cons g gs)
  obtain k1 q where e: "enc_frame sm k g = (k1, Inr (q, frame_48k c))" "good k1"
    using Cons.prems unfolding codec_ok_def by (metis list.set_intros(1))
  then show ?case using Cons.IH [of k1] Cons.prems by (auto split: prod.splits)
qed simp

section \<open>The encoder's invariant\<close>

definition head_of :: "Config \<Rightarrow> int \<Rightarrow> opusHead" where
  "head_of c L = \<lparr>h_version = opusHeadVersion, h_channels = word_of_int (Channels c), h_preSkip = word_of_int L,
     h_inputSampleRate = word_of_int (SampleRate c), h_outputGain = 0, h_mappingFamily = mappingFamily0,
     h_streamCount = 0, h_coupledCount = 0, h_channelMapping = []\<rparr>"

definition tags_of :: "Config \<Rightarrow> opusTags" where
  "tags_of c = \<lparr>vendor = vendorString c, comments = Comments c\<rparr>"

text \<open>The packets of a stream are the codec's for the frames \<open>fs\<close>, each with a frame's duration.\<close>

definition packets :: "'c seam \<Rightarrow> Config \<Rightarrow> 'c \<Rightarrow> u16 list list \<Rightarrow> (bytes \<times> int) list" where
  "packets sm c k fs = map (\<lambda>p. (p, frame_48k c)) (fst (encode_seq sm k fs))"

text \<open>The frames \<open>fs\<close> with \<open>s\<close> source samples per channel have been coded.\<close>

definition coded :: "('w \<Rightarrow> bytes) \<Rightarrow> bytes \<Rightarrow> u32 \<Rightarrow> 'c seam \<Rightarrow> Config \<Rightarrow> int \<Rightarrow> 'c \<Rightarrow> u16 list list \<Rightarrow> int \<Rightarrow> ('w, 'c) Encoder \<Rightarrow> bool" where
  "coded out pre ser sm c L k fs s e \<longleftrightarrow>
     cfg e = c \<and> frameLen e = frame_len c \<and> frameBytes e = 2 * int (frame_size c) \<and> length (frame e) = frame_size c
     \<and> \<not> e_closed e \<and> enc e = Some (snd (encode_seq sm k fs)) \<and> srcSamples e = s \<and> coded48k e = len fs * frame_48k c
     \<and> (\<forall>f\<in>set fs. length f = frame_size c)
     \<and> (\<exists>P cw. cwr e = Some cw \<and> held_back out pre ser (head_of c L) (tags_of c) P (packets sm c k fs) cw)"

lemma coded_upd [simp]:
  "coded out pre ser sm c L k fs s (e\<lparr>carry := x\<rparr>) = coded out pre ser sm c L k fs s e"
  "coded out pre ser sm c L k fs s (e\<lparr>frame := f\<rparr>) = (coded out pre ser sm c L k fs s (e\<lparr>frame := replicate (frame_size c) 0\<rparr>) \<and> length f = frame_size c)"
  by (auto simp: coded_def)

lemma sum_packets: "sum_list (map snd (packets sm c k fs)) = int (length (fst (encode_seq sm k fs))) * frame_48k c"
  by (simp add: packets_def comp_def sum_list_triv)

lemma frames_bound: "valid c \<Longrightarrow> length fs < 2 ^ 40 \<Longrightarrow> 0 \<le> len fs * frame_48k c \<and> len fs * frame_48k c < 2 ^ 63"
proof -
  assume a: "valid c" "length fs < 2 ^ 40"
  then have "len fs < 2 ^ 40" by simp
  have "0 \<le> frame_48k c" "frame_48k c \<le> 5760" using frame_facts [OF a(1)] by simp_all
  then have "len fs * frame_48k c \<le> 2 ^ 40 * 5760" using \<open>len fs < 2 ^ 40\<close> by (intro mult_mono) simp_all
  then show ?thesis using \<open>0 \<le> frame_48k c\<close> by simp
qed

lemma encodeFrame_ok:
  fixes e :: "('w, 'c) Encoder"
  assumes "appends wr out" "valid c" "codec_ok sm c good" "good k" "coded out pre ser sm c L k fs s e" "length fs < 2 ^ 40"
  shows "\<exists>e'. encodeFrame wr sm r e = Ok e' \<and> coded out pre ser sm c L k (fs @ [frame e]) (s + r) e' \<and> carry e' = carry e"
proof -
  note j = assms(5) [unfolded coded_def]
  note f = frame_facts [OF assms(2)]
  have fl: "\<forall>f\<in>set fs. length f = frame_size c" and fe: "length (frame e) = frame_size c" using j by blast+
  note seq = encode_seq_ok [OF assms(3,4) fl]
  obtain k' p where e: "enc_frame sm (snd (encode_seq sm k fs)) (frame e) = (k', Inr (p, frame_48k c))"
    using assms(3) seq fe unfolding codec_ok_def by blast
  obtain P cw where w: "cwr e = Some cw" "held_back out pre ser (head_of c L) (tags_of c) P (packets sm c k fs) cw" using j by blast
  have b: "0 \<le> sum_list (map snd (packets sm c k fs))" "sum_list (map snd (packets sm c k fs)) < 2 ^ 63"
    using frames_bound [OF assms(2,6)] seq by (simp_all add: sum_packets)
  obtain P' cw' where q: "cw_writePacket wr p (frame_48k c) cw = (cw', None)"
      "held_back out pre ser (head_of c L) (tags_of c) P' (packets sm c k fs @ [(p, frame_48k c)]) cw'"
    using cw_writePacket_ok [OF assms(1) w(2) b] by blast
  have n: "encode_seq sm k (fs @ [frame e]) = (fst (encode_seq sm k fs) @ [p], k')"
    using encode_seq_snoc [OF assms(3,4) fl fe e] .
  have sl: "(slice (frame e) 0 (frameLen e * Channels (cfg e)) :: (('w, 'c) Encoder \<times> oerr, u16 list) res) = Ok (frame e)"
    using j f by (subst slice_Ok) simp_all
  let ?e = "e\<lparr>enc := Some k', srcSamples := srcSamples e + r, coded48k := coded48k e + frame_48k c, cwr := Some cw'\<rparr>"
  have en: "enc e = Some (snd (encode_seq sm k fs))" using j by blast
  have "encodeFrame wr sm r e = Ok ?e"
    by (simp add: encodeFrame_def en sl e w(1) q(1))
  moreover have "coded out pre ser sm c L k (fs @ [frame e]) (s + r) ?e"
    using j q(2) by (auto simp: coded_def n packets_def algebra_simps)
  ultimately show ?thesis by force
qed

lemma encodeFrameBytes_ok:
  fixes e :: "('w, 'c) Encoder"
  assumes "appends wr out" "valid c" "codec_ok sm c good" "good k" "coded out pre ser sm c L k fs s e" "length fs < 2 ^ 40"
    "length chunk = 2 * frame_size c"
  shows "\<exists>e'. encodeFrameBytes wr sm chunk e = Ok e' \<and> coded out pre ser sm c L k (fs @ [samples_of chunk]) (s + frame_len c) e' \<and> carry e' = carry e"
proof -
  note j = assms(5) [unfolded coded_def]
  have n: "frameLen e * Channels (cfg e) = int (frame_size c)" "length (frame e) = frame_size c" "frameLen e = frame_len c"
    using j frame_facts [OF assms(2)] by simp_all
  have l: "(load_samples (frameLen e * Channels (cfg e)) chunk (frame e) :: (('w, 'c) Encoder \<times> oerr, u16 list) res) = Ok (samples_of chunk)"
    unfolding n(1) using assms(7) n(2) by (simp add: load_samples_def nat_mult_distrib)
  have "coded out pre ser sm c L k fs s (e\<lparr>frame := samples_of chunk\<rparr>)" using j assms(7) by (simp add: coded_def)
  from encodeFrame_ok [OF assms(1-4) this assms(6), of "frame_len c"]
  show ?thesis unfolding encodeFrameBytes_def l bnd.simps unfolding n(3) by simp
qed

lemma encodeSilenceFrame_ok:
  fixes e :: "('w, 'c) Encoder"
  assumes "appends wr out" "valid c" "codec_ok sm c good" "good k" "coded out pre ser sm c L k fs s e" "length fs < 2 ^ 40"
  shows "\<exists>e'. encodeSilenceFrame wr sm e = Ok e' \<and> coded out pre ser sm c L k (fs @ [replicate (frame_size c) 0]) s e' \<and> carry e' = carry e"
proof -
  note j = assms(5) [unfolded coded_def]
  have n: "frameLen e * Channels (cfg e) = int (frame_size c)" "length (frame e) = frame_size c"
    using j frame_facts [OF assms(2)] by simp_all
  have l: "(slice_from (frame e) (frameLen e * Channels (cfg e)) :: (('w, 'c) Encoder \<times> oerr, u16 list) res) = Ok []"
    unfolding n(1) using n(2) by (simp add: slice_from_Ok)
  have "coded out pre ser sm c L k fs s (e\<lparr>frame := replicate (frame_size c) 0\<rparr>)" using j by (simp add: coded_def)
  from encodeFrame_ok [OF assms(1-4) this assms(6), of 0]
  show ?thesis unfolding encodeSilenceFrame_def l bnd.simps unfolding n(1) by simp
qed

section \<open>Writing\<close>

text \<open>After the bytes \<open>bs\<close>, in whatever pieces, the whole frames in them have been coded and the rest is
  carried.\<close>

definition fed :: "('w \<Rightarrow> bytes) \<Rightarrow> bytes \<Rightarrow> u32 \<Rightarrow> 'c seam \<Rightarrow> Config \<Rightarrow> int \<Rightarrow> 'c \<Rightarrow> bytes \<Rightarrow> nat \<Rightarrow> ('w, 'c) Encoder \<Rightarrow> bool" where
  "fed out pre ser sm c L k bs m e \<longleftrightarrow> m * (2 * frame_size c) \<le> length bs
     \<and> coded out pre ser sm c L k (pad_frames (frame_size c) m (samples_of bs)) (int m * frame_len c) e"

lemma fed_more:
  assumes "fed out pre ser sm c L k bs m e"
  shows "fed out pre ser sm c L k (bs @ p) m e"
proof -
  let ?n = "frame_size c"
  have b: "m * ?n \<le> length (samples_of (take (m * (2 * ?n)) bs))" using assms by (simp add: fed_def min_absorb2)
  have "pad_frames ?n m (samples_of (bs @ p)) = pad_frames ?n m (samples_of bs)" (is "?l = ?r")
  proof -
    have e: "even (length (take (m * (2 * ?n)) bs))" using assms by (simp add: fed_def min_absorb2)
    have s: "bs = take (m * (2 * ?n)) bs @ drop (m * (2 * ?n)) bs" by simp
    have "samples_of (bs @ p) = samples_of (take (m * (2 * ?n)) bs) @ samples_of (drop (m * (2 * ?n)) bs @ p)"
      by (subst s, subst append_assoc, rule samples_of_append [OF e])
    moreover have "samples_of bs = samples_of (take (m * (2 * ?n)) bs) @ samples_of (drop (m * (2 * ?n)) bs)"
      by (subst s, rule samples_of_append [OF e])
    ultimately show ?thesis using pad_frames_prefix [OF b] by simp
  qed
  then show ?thesis using assms by (simp add: fed_def)
qed

lemma fed_frame:
  assumes "appends wr out" "valid c" "codec_ok sm c good" "good k" "fed out pre ser sm c L k bs m e" "m < 2 ^ 40"
    "(m + 1) * (2 * frame_size c) \<le> length bs" "chunk = take (2 * frame_size c) (drop (m * (2 * frame_size c)) bs)"
  shows "\<exists>e'. encodeFrameBytes wr sm chunk e = Ok e' \<and> fed out pre ser sm c L k bs (m + 1) e' \<and> carry e' = carry e"
proof -
  let ?n = "frame_size c"
  have l: "length chunk = 2 * ?n" using assms(7,8) by simp
  obtain e' where e: "encodeFrameBytes wr sm chunk e = Ok e'" "carry e' = carry e"
     "coded out pre ser sm c L k (pad_frames ?n m (samples_of bs) @ [samples_of chunk]) (int m * frame_len c + frame_len c) e'"
    using encodeFrameBytes_ok [OF assms(1-4) _ _ l] assms(5,6) by (fastforce simp: fed_def)
  have mm: "m * (2 * ?n) = 2 * (m * ?n)" by simp
  have "samples_of chunk = take ?n (drop (m * ?n) (samples_of bs))"
    unfolding assms(8) mm samples_of_take samples_of_drop ..
  moreover have "m * ?n + ?n \<le> length (samples_of bs)" using assms(7) by simp
  then have "?n \<le> length (drop (m * ?n) (samples_of bs))" unfolding length_drop by linarith
  ultimately have "pad_frames ?n m (samples_of bs) @ [samples_of chunk] = pad_frames ?n (Suc m) (samples_of bs)"
    unfolding pad_frames_snoc by simp
  then show ?thesis using e assms(7) by (auto simp: fed_def algebra_simps)
qed

lemma write_frames_ok:
  assumes "appends wr out" "valid c" "codec_ok sm c good" "good k" "length bs < 2 ^ 40"
  shows "fed out pre ser sm c L k bs m e \<Longrightarrow> p = drop (m * (2 * frame_size c)) bs \<Longrightarrow> carry e = [] \<Longrightarrow>
    \<exists>e' m'. write_frames wr sm (2 * int (frame_size c)) tot p e = Ok (e', tot) \<and> fed out pre ser sm c L k bs m' e'
       \<and> carry e' = drop (m' * (2 * frame_size c)) bs \<and> length (carry e') < 2 * frame_size c"
proof (induction "length p" arbitrary: p m e rule: less_induct)
  case less
  let ?n = "frame_size c"
  have n: "0 < ?n" using frame_facts [OF assms(2)] by simp
  have fb: "nat (2 * int ?n) = 2 * ?n" by simp
  show ?case
  proof (cases "2 * ?n \<le> length p")
    case True
    have m1: "m \<le> m * (2 * ?n)" using n by simp
    then have m: "m < 2 ^ 40" using less.prems(1) assms(5) unfolding fed_def by linarith
    have "2 * ?n \<le> length bs - m * (2 * ?n)" using True unfolding less.prems(2) length_drop .
    moreover have "m * (2 * ?n) \<le> length bs" using less.prems(1) by (simp add: fed_def)
    ultimately have b: "(m + 1) * (2 * ?n) \<le> length bs" unfolding distrib_right by linarith
    obtain e1 where e1: "encodeFrameBytes wr sm (take (2 * ?n) p) e = Ok e1" "fed out pre ser sm c L k bs (m + 1) e1" "carry e1 = carry e"
      using fed_frame [OF assms(1-4) less.prems(1) m b] less.prems(2) by blast
    have d: "drop (2 * ?n) p = drop ((m + 1) * (2 * ?n)) bs" unfolding less.prems(2) drop_drop by (simp add: algebra_simps)
    have sh: "length (drop (2 * ?n) p) < length p" using True n by simp
    have c1: "carry e1 = []" using e1(3) less.prems(3) by simp
    have r: "write_frames wr sm (2 * int ?n) tot p e = write_frames wr sm (2 * int ?n) tot (drop (2 * ?n) p) e1"
      using True n e1(1) by (subst write_frames.simps) (simp add: fb with_count_def)
    from less.hyps [OF sh e1(2) d c1] show ?thesis unfolding r .
  next
    case False
    then have r: "write_frames wr sm (2 * int ?n) tot p e = Ok (e\<lparr>carry := p\<rparr>, tot)"
      using less.prems(3) by (subst write_frames.simps) simp
    have "fed out pre ser sm c L k bs m (e\<lparr>carry := p\<rparr>)" using less.prems(1) by (simp add: fed_def)
    with r False less.prems(2) show ?thesis by fastforce
  qed
qed

text \<open>Between writes less than a frame is carried.\<close>

definition writable :: "('w \<Rightarrow> bytes) \<Rightarrow> bytes \<Rightarrow> u32 \<Rightarrow> 'c seam \<Rightarrow> Config \<Rightarrow> int \<Rightarrow> 'c \<Rightarrow> bytes \<Rightarrow> ('w, 'c) Encoder \<Rightarrow> bool" where
  "writable out pre ser sm c L k bs e \<longleftrightarrow> (\<exists>m. fed out pre ser sm c L k bs m e
     \<and> carry e = drop (m * (2 * frame_size c)) bs \<and> length (carry e) < 2 * frame_size c)"

lemma enc_write_ok:
  fixes e :: "('w, 'c) Encoder"
  assumes "appends wr out" "valid c" "codec_ok sm c good" "good k" "length (bs @ p) < 2 ^ 40" "writable out pre ser sm c L k bs e"
  shows "\<exists>e'. enc_write wr sm p e = Ok (e', len p) \<and> writable out pre ser sm c L k (bs @ p) e'"
proof -
  let ?n = "frame_size c"
  obtain m where m: "fed out pre ser sm c L k bs m e" "carry e = drop (m * (2 * ?n)) bs" "length (carry e) < 2 * ?n"
    using assms(6) by (auto simp: writable_def)
  have fb: "frameBytes e = 2 * int ?n" using m(1) by (simp add: fed_def coded_def)
  have n: "0 < ?n" using frame_facts [OF assms(2)] by simp
  note more = fed_more [OF m(1), of p]
  have mb: "m * (2 * ?n) \<le> length bs" using m(1) by (simp add: fed_def)
  have all: "drop (m * (2 * ?n)) (bs @ p) = carry e @ p" using m(2) mb by simp
  show ?thesis
  proof (cases "carry e = []")
    case True
    obtain e' m' where w: "write_frames wr sm (2 * int ?n) (len p) p e = Ok (e', len p)" "fed out pre ser sm c L k (bs @ p) m' e'"
       "carry e' = drop (m' * (2 * ?n)) (bs @ p)" "length (carry e') < 2 * ?n"
      using write_frames_ok [OF assms(1-5) more, of p "len p"] True all by auto
    moreover have "enc_write wr sm p e = write_frames wr sm (2 * int ?n) (len p) p e" using True fb by (simp add: enc_write_def)
    ultimately show ?thesis by (auto simp: writable_def)
  next
    case False
    let ?tk = "min (2 * int ?n - len (carry e)) (len p)" and ?t = "min (2 * ?n - length (carry e)) (length p)"
    have t: "?tk = int ?t" using m(3) by simp
    have s1: "(slice p 0 ?tk :: (('w, 'c) Encoder \<times> int \<times> oerr, bytes) res) = Ok (take ?t p)"
      unfolding t by (subst slice_Ok) simp_all
    have s2: "(slice_from p ?tk :: (('w, 'c) Encoder \<times> int \<times> oerr, bytes) res) = Ok (drop ?t p)"
      unfolding t by (subst slice_from_Ok) simp_all
    let ?e = "e\<lparr>carry := carry e @ take ?t p\<rparr>"
    show ?thesis
    proof (cases "2 * ?n \<le> length (carry e) + length p")
      case True
      then have tt: "?t = 2 * ?n - length (carry e)" by simp
      have full: "len (carry ?e) = 2 * int ?n" using m(3) True by simp
      have fe: "fed out pre ser sm c L k (bs @ p) m ?e" using more by (simp add: fed_def)
      have m1: "m \<le> m * (2 * ?n)" using n by simp
      then have m40: "m < 2 ^ 40" using mb assms(5) unfolding length_append by linarith
      have "length (drop (m * (2 * ?n)) (bs @ p)) = length (carry e) + length p" unfolding all by simp
      then have b: "(m + 1) * (2 * ?n) \<le> length (bs @ p)" using True mb n unfolding length_drop distrib_right by linarith
      have ch: "carry ?e = take (2 * ?n) (drop (m * (2 * ?n)) (bs @ p))" unfolding all using m(3) True by simp
      obtain e1 where e1: "encodeFrameBytes wr sm (carry ?e) ?e = Ok e1" "fed out pre ser sm c L k (bs @ p) (m + 1) e1"
        using fed_frame [OF assms(1-4) fe m40 b ch] by blast
      have fe1: "fed out pre ser sm c L k (bs @ p) (m + 1) (e1\<lparr>carry := []\<rparr>)" using e1(2) by (simp add: fed_def)
      have "drop ((m + 1) * (2 * ?n)) (bs @ p) = drop (2 * ?n) (drop (m * (2 * ?n)) (bs @ p))" unfolding drop_drop distrib_right by (simp add: add.commute)
      also have "\<dots> = drop ?t p" unfolding all tt using m(3) by simp
      finally have d: "drop ?t p = drop ((m + 1) * (2 * ?n)) (bs @ p)" ..
      obtain e' m' where w: "write_frames wr sm (2 * int ?n) (len p) (drop ?t p) (e1\<lparr>carry := []\<rparr>) = Ok (e', len p)"
         "fed out pre ser sm c L k (bs @ p) m' e'" "carry e' = drop (m' * (2 * ?n)) (bs @ p)" "length (carry e') < 2 * ?n"
        using write_frames_ok [OF assms(1-5) fe1 d, of "len p"] by auto
      have fb1: "frameBytes e1 = 2 * int ?n" using e1(2) by (simp add: fed_def coded_def)
      have "enc_write wr sm p e = write_frames wr sm (2 * int ?n) (len p) (drop ?t p) (e1\<lparr>carry := []\<rparr>)"
        unfolding enc_write_def Let_def if_P [OF False] fb s1 s2 bnd.simps
        using full e1(1) fb fb1 by (simp add: with_count_def)
      with w show ?thesis by (auto simp: writable_def)
    next
      case short: False
      then have tt: "?t = length p" by simp
      have full: "len (carry ?e) \<noteq> 2 * int ?n" using short tt by simp
      have "enc_write wr sm p e = write_frames wr sm (2 * int ?n) (len p) (drop ?t p) ?e"
        unfolding enc_write_def Let_def if_P [OF False] fb s1 s2 bnd.simps
        using full fb by simp
      also have "\<dots> = Ok (?e, len p)" using tt n by (subst write_frames.simps) simp
      finally have "enc_write wr sm p e = Ok (?e, len p)" .
      moreover have "writable out pre ser sm c L k (bs @ p) ?e"
        unfolding writable_def using more all short tt by (intro exI [of _ m]) (simp add: fed_def)
      ultimately show ?thesis by blast
    qed
  qed
qed

section \<open>Starting a stream\<close>

lemma held_back_packets: "held_back out pre ser h tg P [] cw \<Longrightarrow> held_back out pre ser h tg P (packets sm c k []) cw"
  by (simp add: packets_def)

lemma enc_reset_ok:
  assumes "appends wr out" "valid c" "new_enc sm c = Inr k" "lookahead sm k = L" "length (tags_marshal (tags_of c)) \<le> 65024"
  shows "\<exists>e'. enc_reset wr sm ser o0 c e = Ok e' \<and> writable out (out o0) ser sm c L k [] e'"
proof -
  note f = frame_facts [OF assms(2)]
  obtain cw P where cw: "newContainerWriter wr o0 ser (head_of c L) (tags_of c) = Ok cw"
     "held_back out (out o0) ser (head_of c L) (tags_of c) P [] cw"
    using newContainerWriter_ok [OF assms(1,5)] by blast
  let ?e = "e\<lparr>enc := Some k, cwr := Some cw, carry := [], srcSamples := 0, coded48k := 0, e_closed := False, ew := o0, cfg := c,
     frameLen := frame_len c, frameBytes := frame_len c * Channels c * 2, frame := replicate (frame_size c) 0\<rparr>"
  have "enc_reset wr sm ser o0 c e = Ok ?e"
    using assms(2-4) cw(1)
    by (simp add: enc_reset_def valid_def Let_def initStream_def frame_len_def [symmetric] head_of_def [symmetric] tags_of_def [symmetric]
        frame_size_def)
  moreover have "fed out (out o0) ser sm c L k [] 0 ?e"
    using f cw(2) by (auto simp: fed_def coded_def packets_def)
  then have "writable out (out o0) ser sm c L k [] ?e" using f by (auto simp: writable_def)
  ultimately show ?thesis by blast
qed

section \<open>Closing\<close>

definition src_48k :: "Config \<Rightarrow> int \<Rightarrow> int" where
  "src_48k c s = (s * sampleRate48k) sdiv SampleRate c"

lemma src_48k_facts:
  assumes "valid c" "0 \<le> s"
  obtains q where "0 < q" "q \<le> 6" "SampleRate c * q = 48000" "frame_48k c = frame_len c * q" "src_48k c s = s * q"
proof -
  note v = valid_cases [OF assms(1)] frame_facts [OF assms(1)]
  obtain q where q: "0 < q" "q \<le> 6" "SampleRate c * q = 48000"
    using v(1) that by (auto intro: that [of 6] that [of 4] that [of 3] that [of 2] that [of 1])
  have "frame_48k c * SampleRate c = frame_len c * q * SampleRate c" using v(11) q(3) by (metis mult.assoc mult.commute)
  then have "frame_48k c = frame_len c * q" using v(12) by simp
  moreover have "src_48k c s = s * q"
    using v(12) q assms(2) by (simp add: src_48k_def sampleRate48k_def sdiv_nonneg q(3) [symmetric] mult.assoc [symmetric])
  ultimately show ?thesis using that q by blast
qed

lemma pad_frames_silence:
  "length xs \<le> N * n \<Longrightarrow> pad_frames n (Suc N) xs = pad_frames n N xs @ [replicate n 0]"
  unfolding pad_frames_snoc by simp

lemma flush_carry_ok:
  fixes e :: "('w, 'c) Encoder"
  assumes "appends wr out" "valid c" "codec_ok sm c good" "good k" "length bs < 2 ^ 40" "writable out pre ser sm c L k bs e"
    "len bs mod (2 * Channels c) = 0"
  shows "\<exists>e' M. flush_carry wr sm e = Ok e' \<and> coded out pre ser sm c L k (pad_frames (frame_size c) M (samples_of bs)) (len bs div (2 * Channels c)) e'
     \<and> carry e' = [] \<and> length (samples_of bs) \<le> M * frame_size c \<and> (M = 0 \<or> (M - 1) * frame_size c < length (samples_of bs))
     \<and> M \<le> length bs"
proof -
  let ?n = "frame_size c"
  note f = frame_facts [OF assms(2)]
  obtain m where m: "fed out pre ser sm c L k bs m e" "carry e = drop (m * (2 * ?n)) bs" "length (carry e) < 2 * ?n"
    using assms(6) by (auto simp: writable_def)
  have mb: "m * (2 * ?n) \<le> length bs"
    and j: "coded out pre ser sm c L k (pad_frames ?n m (samples_of bs)) (int m * frame_len c) e" using m(1) by (simp_all add: fed_def)
  have cl: "length (carry e) = length bs - m * (2 * ?n)" using m(2) by simp
  have ch: "frame_len c * Channels c = int ?n" using f by simp
  show ?thesis
  proof (cases "carry e = []")
    case True
    then have lb: "length bs = m * (2 * ?n)" using cl mb by simp
    have "len bs = int m * frame_len c * (2 * Channels c)" unfolding lb using ch [symmetric] by simp
    then have "len bs div (2 * Channels c) = int m * frame_len c" using f by simp
    moreover have "m \<le> m * (2 * ?n)" using f(7) by simp
    moreover have "m = 0 \<or> (m - 1) * ?n < m * ?n" using f(7) by (cases m) simp_all
    ultimately show ?thesis
      using True j lb by (intro exI [of _ e] exI [of _ m]) (auto simp: flush_carry_def)
  next
    case False
    let ?r = "length (carry e)"
    have c2: "Channels c = 1 \<or> Channels c = 2" using valid_cases(2) [OF assms(2)] by blast
    have lr: "len bs = int m * frame_len c * (2 * Channels c) + int ?r"
      using cl mb ch [symmetric] by (simp add: of_nat_diff)
    then have rm: "int ?r mod (2 * Channels c) = 0" using assms(7) by simp
    then obtain t where t: "int ?r = t * (2 * Channels c)" by (metis mod_0_imp_dvd dvd_def mult.commute)
    have even: "even ?r" using t by (metis dvd_triv_left even_of_nat mult.left_commute)
    have S: "len bs div (2 * Channels c) = int m * frame_len c + t"
      unfolding lr t using f by (simp add: distrib_right [symmetric] del: distrib_right_numeral)
    have rs: "len (carry e) sdiv (Channels c * 2) = t" "len (carry e) sdiv 2 = int (?r div 2)"
      using t f by (simp_all add: sdiv_nonneg mult.commute zdiv_int)
    have cfg: "cfg e = c" "frameLen e = frame_len c" "length (frame e) = ?n" using j by (simp_all add: coded_def)
    have h: "?r div 2 < ?n" using m(3) by simp
    let ?s = "samples_of (carry e)"
    have ld: "(load_samples (int (?r div 2)) (carry e) (frame e) :: (('w, 'c) Encoder \<times> oerr, u16 list) res)
        = Ok (?s @ drop (?r div 2) (frame e))"
      using h cfg(3) even by (simp add: load_samples_def nat_mult_distrib)
    have ls: "length ?s = ?r div 2" by simp
    let ?fr = "?s @ drop (?r div 2) (frame e)"
    have lf: "length ?fr = ?n" using h cfg(3) by simp
    have sl: "(slice ?fr 0 (int (?r div 2)) :: (('w, 'c) Encoder \<times> oerr, u16 list) res) = Ok ?s"
      "(slice ?fr (int (?r div 2)) (int ?n) :: (('w, 'c) Encoder \<times> oerr, u16 list) res) = Ok (drop (?r div 2) (frame e))"
      "(slice_from ?fr (int ?n) :: (('w, 'c) Encoder \<times> oerr, u16 list) res) = Ok []"
      using h lf cfg(3) by (simp_all add: slice_Ok slice_from_Ok nat_diff_distrib')
    have z: "map (\<lambda>_. 0 :: u16) (drop (?r div 2) (frame e)) = replicate (?n - ?r div 2) 0"
      using cfg(3) by (simp add: map_replicate_const)
    let ?e = "e\<lparr>frame := ?s @ replicate (?n - ?r div 2) 0\<rparr>"
    have je: "coded out pre ser sm c L k (pad_frames ?n m (samples_of bs)) (int m * frame_len c) ?e"
      using j h by (simp add: coded_def)
    have m1: "m \<le> m * (2 * ?n)" using f(7) by simp
    then have "m < 2 ^ 40" using mb assms(5) by linarith
    then obtain e' where e': "encodeFrame wr sm t ?e = Ok e'"
       "coded out pre ser sm c L k (pad_frames ?n m (samples_of bs) @ [frame ?e]) (int m * frame_len c + t) e'"
      using encodeFrame_ok [OF assms(1-4) je, of t] by auto
    have sd: "drop (m * ?n) (samples_of bs) = ?s"
    proof -
      have "m * (2 * ?n) = 2 * (m * ?n)" by simp
      then show ?thesis unfolding m(2) by (simp only: samples_of_drop)
    qed
    have fr: "pad_frames ?n m (samples_of bs) @ [frame ?e] = pad_frames ?n (Suc m) (samples_of bs)"
      unfolding pad_frames_snoc sd using h by simp
    have nz: "len (carry e) smod (Channels c * 2) = 0" using rm f by (simp add: smod_nonneg mult.commute)
    have ch2: "frameLen e * Channels (cfg e) = int ?n" using cfg ch by simp
    have "flush_carry wr sm e = Ok (e'\<lparr>carry := []\<rparr>)"
      using False nz unfolding flush_carry_def Let_def ch2 unfolding cfg(1) rs ld bnd.simps sl z
      by (simp add: e'(1))
    moreover have "coded out pre ser sm c L k (pad_frames ?n (Suc m) (samples_of bs)) (len bs div (2 * Channels c)) (e'\<lparr>carry := []\<rparr>)"
      using e'(2) unfolding fr S by simp
    moreover have "length (samples_of bs) \<le> Suc m * ?n" "m * ?n < length (samples_of bs)"
    proof -
      have "length bs = 2 * (m * ?n) + ?r" using cl mb by simp
      then have "length bs div 2 = m * ?n + ?r div 2" by simp
      moreover have "0 < ?r div 2" using False even by (cases "carry e") auto
      ultimately show "length (samples_of bs) \<le> Suc m * ?n" "m * ?n < length (samples_of bs)" using h by simp_all
    qed
    moreover have "Suc m \<le> length bs" using m1 mb cl False by (metis Suc_leI diff_is_0_eq leI le_trans length_0_conv not_less_eq_eq order_antisym_conv)
    ultimately show ?thesis by (intro exI [of _ "e'\<lparr>carry := []\<rparr>"] exI [of _ "Suc m"]) simp
  qed
qed


text \<open>How many frames a stream of \<open>s\<close> samples per channel has: enough for the pre-skip and the source, at
  least one.\<close>

definition frames_needed :: "Config \<Rightarrow> int \<Rightarrow> int \<Rightarrow> nat" where
  "frames_needed c L s = nat (max 1 ((L + src_48k c s + frame_48k c - 1) div frame_48k c))"

lemma frames_needed_eq:
  assumes "0 < frame_48k c" "1 \<le> N" "L + src_48k c s \<le> int N * frame_48k c" "N = 1 \<or> (int N - 1) * frame_48k c < L + src_48k c s"
    "0 \<le> L + src_48k c s"
  shows "frames_needed c L s = N"
proof -
  let ?F = "frame_48k c" and ?T = "L + src_48k c s"
  have u: "(?T + ?F - 1) div ?F \<le> int N"
    using zdiv_mono1 [of "?T + ?F - 1" "?F - 1 + int N * ?F" ?F] assms(1,3) by simp
  have l: "int N \<le> (?T + ?F - 1) div ?F" if "(int N - 1) * ?F < ?T"
    using zdiv_mono1 [of "int N * ?F" "?T + ?F - 1" ?F] assms(1) that by (simp add: left_diff_distrib)
  show ?thesis using u l assms(2,4) unfolding frames_needed_def by (cases "N = 1") auto
qed

text \<open>The loop that codes silence, when at most one frame is missing.\<close>

lemma pad_silence_ok:
  assumes "appends wr out" "valid c" "codec_ok sm c good" "good k" "coded out pre ser sm c L k fs s e" "length fs < 2 ^ 40"
    "0 \<le> L" "L < 2 ^ 16" "L + S \<le> (len fs + 1) * frame_48k c"
  shows "\<exists>e' fs'. pad_silence wr sm S e = Some (Ok e') \<and> coded out pre ser sm c L k fs' s e'
    \<and> fs' = (if len fs * frame_48k c < L + S then fs @ [replicate (frame_size c) 0] else fs)"
proof -
  have pre: "\<And>e fs s. coded out pre ser sm c L k fs s e \<Longrightarrow> \<exists>cw. cwr e = Some cw \<and> preSkip cw = L \<and> coded48k e = len fs * frame_48k c"
  proof -
    fix e fs s assume "coded out pre ser sm c L k fs s e"
    then obtain P cw where c: "cwr e = Some cw" "held_back out pre ser (head_of c L) (tags_of c) P (packets sm c k fs) cw"
       "coded48k e = len fs * frame_48k c" by (auto simp: coded_def)
    have "uint (word_of_int L :: u16) = L" using assms(7,8) by (simp add: uint_word_of_int take_bit_int_eq_self)
    then have "preSkip cw = L" using c(2) by (simp add: held_back_def head_of_def)
    with c show "\<exists>cw. cwr e = Some cw \<and> preSkip cw = L \<and> coded48k e = len fs * frame_48k c" by blast
  qed
  obtain cw where cw: "cwr e = Some cw" "preSkip cw = L" "coded48k e = len fs * frame_48k c" using pre [OF assms(5)] by blast
  show ?thesis
  proof (cases "len fs * frame_48k c < L + S")
    case False
    then have "pad_silence wr sm S e = Some (Ok e)" using cw by (subst pad_silence.simps) simp
    with False assms(5) show ?thesis by auto
  next
    case True
    obtain e1 where e1: "encodeSilenceFrame wr sm e = Ok e1" "coded out pre ser sm c L k (fs @ [replicate (frame_size c) 0]) s e1"
      using encodeSilenceFrame_ok [OF assms(1-6)] by blast
    obtain cw1 where cw1: "cwr e1 = Some cw1" "preSkip cw1 = L" "coded48k e1 = (len fs + 1) * frame_48k c"
      using pre [OF e1(2)] by auto
    have "pad_silence wr sm S e1 = Some (Ok e1)" using cw1 assms(9) by (subst pad_silence.simps) simp
    then have "pad_silence wr sm S e = Some (Ok e1)" using cw True e1(1) by (subst pad_silence.simps) simp
    with True e1(2) show ?thesis by auto
  qed
qed

lemma coded_cw:
  assumes "coded out pre ser sm c L k fs s e" "codec_ok sm c good" "good k"
  shows "\<exists>P cw. cwr e = Some cw \<and> held_back out pre ser (head_of c L) (tags_of c) P (packets sm c k fs) cw \<and> audioCount cw = len fs"
proof -
  have "\<forall>f\<in>set fs. length f = frame_size c" using assms(1) by (simp add: coded_def)
  from encode_seq_ok [OF assms(2,3) this] have "len (packets sm c k fs) = len fs" by (simp add: packets_def)
  with assms(1) show ?thesis by (fastforce simp: coded_def held_back_def)
qed

text \<open>What a finished stream contains.\<close>

definition encoded_stream :: "u32 \<Rightarrow> 'c seam \<Rightarrow> Config \<Rightarrow> int \<Rightarrow> 'c \<Rightarrow> bytes \<Rightarrow> page list \<Rightarrow> bool" where
  "encoded_stream ser sm c L k pcm P \<longleftrightarrow>
     (let s = len pcm div (2 * Channels c) in
      opus_stream ser (head_of c L) (tags_of c)
        (packets sm c k (pad_frames (frame_size c) (frames_needed c L s) (samples_of pcm))) (src_48k c s) P)"

lemma enc_Close_ok:
  fixes e :: "('w, 'c) Encoder"
  assumes "appends wr out" "valid c" "codec_ok sm c good" "good k" "length bs < 2 ^ 39" "writable out pre ser sm c L k bs e"
    "len bs mod (2 * Channels c) = 0" "0 \<le> L" "L \<le> frame_48k c"
  shows "\<exists>e' cw P. enc_Close wr sm e = Some (Ok e') \<and> e_closed e' \<and> cwr e' = Some cw \<and> out (w (sw cw)) = pre @ concat (map page_bytes P)
     \<and> encoded_stream ser sm c L k bs P
     \<and> coded48k e' = int (frames_needed c L (len bs div (2 * Channels c))) * frame_48k c"
proof -
  let ?n = "frame_size c" and ?F = "frame_48k c" and ?s = "len bs div (2 * Channels c)" and ?x = "samples_of bs"
  note f = frame_facts [OF assms(2)]
  have b40: "length bs < 2 ^ 40" using assms(5) by simp
  obtain e1 M where e1: "flush_carry wr sm e = Ok e1" "coded out pre ser sm c L k (pad_frames ?n M ?x) ?s e1" "carry e1 = []"
     "length ?x \<le> M * ?n" "M = 0 \<or> (M - 1) * ?n < length ?x" "M \<le> length bs"
    using flush_carry_ok [OF assms(1-4) b40 assms(6,7)] by blast
  have s0: "0 \<le> ?s" using f by (simp add: pos_imp_zdiv_nonneg_iff)
  obtain q where q: "0 < q" "q \<le> 6" "SampleRate c * q = 48000" "?F = frame_len c * q" "src_48k c ?s = ?s * q"
    using src_48k_facts [OF assms(2) s0] .
  have xs: "int (length ?x) = ?s * Channels c"
  proof -
    have "len bs = ?s * (2 * Channels c)" using assms(7) by (metis add.right_neutral div_mult_mod_eq)
    then show ?thesis by (metis (no_types, lifting) length_samples_of mult.left_commute nonzero_mult_div_cancel_left of_nat_numeral zdiv_int zero_neq_numeral)
  qed
  have nn: "int ?n = frame_len c * Channels c" using f by simp
  have sM: "?s \<le> int M * frame_len c"
  proof -
    have "int (length ?x) \<le> int (M * ?n)" using e1(4) by linarith
    then have "?s * Channels c \<le> (int M * frame_len c) * Channels c" unfolding xs of_nat_mult nn by (simp add: mult.assoc)
    then show ?thesis using f by simp
  qed
  have SM: "src_48k c ?s \<le> int M * ?F" unfolding q(4,5) using sM q(1) by (simp add: mult_right_mono flip: mult.assoc)
  have lo: "M = 0 \<or> (int M - 1) * ?F < src_48k c ?s"
  proof (cases "M = 0")
    case False
    then have "int ((M - 1) * ?n) < int (length ?x)" using e1(5) by linarith
    then have "((int M - 1) * frame_len c) * Channels c < ?s * Channels c"
      using False unfolding xs of_nat_mult nn by (simp add: of_nat_diff mult.assoc)
    then have "(int M - 1) * frame_len c < ?s" using f by simp
    then have "(int M - 1) * frame_len c * q < ?s * q" using q(1) by simp
    then show ?thesis unfolding q(4,5) by (simp add: mult.assoc)
  qed simp
  have S0: "0 \<le> src_48k c ?s" unfolding q(5) using s0 q(1) by simp
  obtain P1 cw1 where cw1: "cwr e1 = Some cw1" "held_back out pre ser (head_of c L) (tags_of c) P1 (packets sm c k (pad_frames ?n M ?x)) cw1"
      "audioCount cw1 = int M"
    using coded_cw [OF e1(2) assms(3,4)] by auto
  obtain e2 where e2: "(case cwr e1 of None \<Rightarrow> Panic | Some c \<Rightarrow> if audioCount c = 0 then encodeSilenceFrame wr sm e1 else Ok e1) = Ok e2"
     "coded out pre ser sm c L k (pad_frames ?n (max 1 M) ?x) ?s e2"
  proof (cases "M = 0")
    case True
    have "length ?x = 0" using True e1(4) by simp
    then have "?x = []" by (rule length_0_conv [THEN iffD1])
    then have "pad_frames ?n (max 1 M) ?x = pad_frames ?n M ?x @ [replicate ?n 0]" using True by simp
    with True that encodeSilenceFrame_ok [OF assms(1-4) e1(2)] cw1(1,3) show ?thesis by fastforce
  next
    case False
    with that e1(2) cw1(1,3) show ?thesis by (simp add: max_def)
  qed
  let ?M = "max 1 M"
  have Mb: "?M < 2 ^ 40" using e1(6) assms(5) by simp
  have TM: "L + src_48k c ?s \<le> (int ?M + 1) * ?F"
  proof -
    have "src_48k c ?s \<le> int ?M * ?F" using SM f(4) by (cases "M = 0") (simp_all add: max_def)
    then show ?thesis using assms(9) by (simp add: distrib_right)
  qed
  have L16: "L < 2 ^ 16" using assms(9) f by simp
  obtain e3 fs where e3: "pad_silence wr sm (src_48k c ?s) e2 = Some (Ok e3)" "coded out pre ser sm c L k fs ?s e3"
     "fs = (if len (pad_frames ?n ?M ?x) * ?F < L + src_48k c ?s then pad_frames ?n ?M ?x @ [replicate ?n 0] else pad_frames ?n ?M ?x)"
    using pad_silence_ok [OF assms(1-4) e2(2) _ assms(8) L16, of "src_48k c ?s"] Mb TM by auto
  let ?N = "if int ?M * ?F < L + src_48k c ?s then ?M + 1 else ?M"
  have lm: "length ?x \<le> ?M * ?n" using e1(4) by (cases "M = 0") (simp_all add: max_def)
  have fs: "fs = pad_frames ?n ?N ?x"
    unfolding e3(3) using pad_frames_silence [OF lm] by simp
  have N: "frames_needed c L ?s = ?N"
  proof (rule frames_needed_eq)
    show "0 < ?F" "1 \<le> ?N" using f by auto
    show "L + src_48k c ?s \<le> int ?N * ?F" using TM by (simp add: algebra_simps)
    show "0 \<le> L + src_48k c ?s" using S0 assms(8) by simp
    show "?N = 1 \<or> (int ?N - 1) * ?F < L + src_48k c ?s"
      using lo assms(8) by (cases "M = 0") (auto simp: max_def)
  qed
  obtain P3 cw3 where cw3: "cwr e3 = Some cw3" "held_back out pre ser (head_of c L) (tags_of c) P3 (packets sm c k fs) cw3"
    using coded_cw [OF e3(2) assms(3,4)] by blast
  have dur: "durations_ok (map snd (packets sm c k fs)) (src_48k c ?s)"
  proof -
    have fl: "\<forall>f\<in>set fs. length f = ?n" using e3(2) by (simp add: coded_def)
    have "length fs < 2 ^ 40" using Mb e1(6) assms(5) by (simp add: fs)
    then have "sum_list (map snd (packets sm c k fs)) < 2 ^ 63"
      using frames_bound [OF assms(2), of fs] encode_seq_ok [OF assms(3,4) fl] by (simp add: sum_packets)
    moreover have "list_all (\<lambda>d. 0 \<le> d) (map snd (packets sm c k fs))" using f by (auto simp: packets_def list_all_iff)
    moreover have "src_48k c ?s < 2 ^ 62"
    proof -
      have "?s \<le> len bs" using valid_cases(2) [OF assms(2)] by auto
      then have "?s * q \<le> 2 ^ 39 * 6" using assms(5) q(1,2) s0 by (intro mult_mono) simp_all
      then show ?thesis unfolding q(5) by simp
    qed
    ultimately show ?thesis using S0 by (simp add: durations_ok_def)
  qed
  obtain P cw where cl: "cw_close wr (src_48k c ?s) cw3 = (cw, None)" "out (w (sw cw)) = pre @ concat (map page_bytes P)"
      "opus_stream ser (head_of c L) (tags_of c) (packets sm c k fs) (src_48k c ?s) P"
    using cw_close_ok [OF assms(1) cw3(2) dur] by blast
  have ne: "\<not> e_closed e" "enc e \<noteq> None" using assms(6) by (auto simp: writable_def fed_def coded_def)
  have se: "(srcSamples e1 * sampleRate48k) sdiv SampleRate (cfg e1) = src_48k c ?s"
    using e1(2) by (simp add: coded_def src_48k_def)
  let ?e = "e3\<lparr>e_closed := True, enc := map_option (enc_close sm) (enc e3), cwr := Some cw\<rparr>"
  have "enc_Close wr sm e = Some (Ok ?e)"
    using ne e1(1) unfolding enc_Close_def by (simp add: se e2(1) e3(1) cw3(1) cl(1) Let_def)
  moreover have "encoded_stream ser sm c L k bs P" using cl(3) N fs by (simp add: encoded_stream_def)
  moreover have "coded48k ?e = int (frames_needed c L ?s) * ?F"
    using e3(2) N fs length_pad_frame by (simp add: coded_def)
  ultimately show ?thesis using cl(2) by (intro exI [of _ ?e] exI [of _ cw] exI [of _ P]) simp
qed

section \<open>The adapter to the Opus encoder\<close>

text \<open>The documented behaviour of \<^verbatim>\<open>opus.Encoder\<close>: it can be built for a valid configuration, its look-ahead is
  \<open>Fs/400 + Fs/250\<close>, and \<open>Encode\<close> of a frame of a valid duration with the adapter's buffer
  succeeds, with a packet that fits it.\<close>

definition opus_ok :: "'o opusPkg \<Rightarrow> Config \<Rightarrow> 'o \<Rightarrow> ('o \<Rightarrow> bool) \<Rightarrow> bool" where
  "opus_ok pk c o0 good \<longleftrightarrow> opus_NewEncoder pk c = Inr o0 \<and> good o0
     \<and> opus_Lookahead pk o0 = SampleRate c div 400 + SampleRate c div 250
     \<and> (\<forall>st pcm. good st \<and> length pcm = frame_size c \<longrightarrow>
          (\<exists>st' p. opus_Encode pk st pcm maxPacketBytes = (st', Inr p) \<and> good st' \<and> len p \<le> maxPacketBytes))"

definition adapter :: "Config \<Rightarrow> 'o \<Rightarrow> 'o opusFrameEncoder" where
  "adapter c st = \<lparr>ofe_enc = st, ofe_sampleRate = SampleRate c, ofe_channels = Channels c, ofe_preSkip48k = 312, ofe_bufLen = maxPacketBytes\<rparr>"

lemma adapter_new:
  assumes "valid c" "opus_ok pk c o0 good"
  shows "new_enc (opus_seam pk) c = Inr (adapter c o0)" "lookahead (opus_seam pk) (adapter c o0) = 312"
proof -
  have "((SampleRate c div 400 + SampleRate c div 250) * 48000) sdiv SampleRate c = 312"
    using valid_cases(1) [OF assms(1)] by (auto simp: sdiv_nonneg)
  then show "new_enc (opus_seam pk) c = Inr (adapter c o0)" "lookahead (opus_seam pk) (adapter c o0) = 312"
    using assms(2) by (simp_all add: opus_seam_def newFrameEncoder_def opus_ok_def adapter_def sampleRate48k_def)
qed

lemma adapter_codec_ok:
  fixes pk :: "'o opusPkg"
  assumes "valid c" "opus_ok pk c o0 good"
  shows "codec_ok (opus_seam pk) c (\<lambda>e. good (ofe_enc e) \<and> e = adapter c (ofe_enc e))"
  unfolding codec_ok_def
proof (intro allI impI)
  fix e :: "'o opusFrameEncoder" and pcm :: "u16 list"
  assume a: "(good (ofe_enc e) \<and> e = adapter c (ofe_enc e)) \<and> length pcm = frame_size c"
  note f = frame_facts [OF assms(1)]
  obtain o' p where o': "opus_Encode pk (ofe_enc e) pcm maxPacketBytes = (o', Inr p)" "good o'" "len p \<le> maxPacketBytes"
    using assms(2) a unfolding opus_ok_def by blast
  have "len pcm = frame_len c * Channels c" using a f(6) by simp
  then have d: "len pcm sdiv Channels c = frame_len c" using f(3,11) by (simp add: sdiv_nonneg)
  have e: "ofe_bufLen e = maxPacketBytes" "ofe_channels e = Channels c" "ofe_sampleRate e = SampleRate c"
    using a by (metis adapter_def opusFrameEncoder.select_convs(5), metis adapter_def opusFrameEncoder.select_convs(3),
        metis adapter_def opusFrameEncoder.select_convs(2))
  have "enc_frame (opus_seam pk) e pcm = (e\<lparr>ofe_enc := o'\<rparr>, Inr (p, frame_48k c))"
    using f(2) by (simp add: opus_seam_def ofe_encodeFrame_def e o'(1) d sampleRate48k_def)
  moreover have "e\<lparr>ofe_enc := o'\<rparr> = adapter c o'"
    using a by (metis adapter_def opusFrameEncoder.update_convs(1))
  ultimately show "\<exists>k' p. enc_frame (opus_seam pk) e pcm = (k', Inr (p, frame_48k c))
      \<and> (good (ofe_enc k') \<and> k' = adapter c (ofe_enc k')) \<and> len p \<le> maxPacketBytes"
    using o'(2,3) by (auto simp: adapter_def)
qed

section \<open>Whole streams\<close>

fun write_chunks :: "('w \<Rightarrow> bytes \<Rightarrow> 'w \<times> oerr option) \<Rightarrow> 'c seam \<Rightarrow> bytes list \<Rightarrow> ('w, 'c) Encoder \<Rightarrow> ('w, 'c) written" where
  "write_chunks wr sm [] e = Ok (e, 0)"
| "write_chunks wr sm (p # ps) e = bnd (enc_Write wr sm p e) (\<lambda>(e, n). bnd (write_chunks wr sm ps e) (\<lambda>(e, m). Ok (e, n + m)))"

lemma enc_Write_ok:
  assumes "appends wr out" "valid c" "codec_ok sm c good" "good k" "length (bs @ p) < 2 ^ 40" "writable out pre ser sm c L k bs e"
  shows "\<exists>e'. enc_Write wr sm p e = Ok (e', len p) \<and> writable out pre ser sm c L k (bs @ p) e'"
proof -
  have "\<not> e_closed e" "enc e \<noteq> None" using assms(6) by (auto simp: writable_def fed_def coded_def)
  then show ?thesis using enc_write_ok [OF assms] by (simp add: enc_Write_def)
qed

lemma write_chunks_ok:
  assumes "appends wr out" "valid c" "codec_ok sm c good" "good k"
  shows "length (bs @ concat ps) < 2 ^ 40 \<Longrightarrow> writable out pre ser sm c L k bs e \<Longrightarrow>
    \<exists>e'. write_chunks wr sm ps e = Ok (e', len (concat ps)) \<and> writable out pre ser sm c L k (bs @ concat ps) e'"
proof (induction ps arbitrary: bs e)
  case (Cons p ps)
  have "length (bs @ p) < 2 ^ 40" using Cons.prems(1) by simp
  from enc_Write_ok [OF assms this Cons.prems(2)] obtain e1 where e1: "enc_Write wr sm p e = Ok (e1, len p)"
     "writable out pre ser sm c L k (bs @ p) e1" by blast
  from Cons.IH [OF _ e1(2)] Cons.prems(1) e1(1) show ?case by auto
qed simp

lemma encoder_ok:
  assumes "appends wr out" "valid c" "codec_ok sm c good" "new_enc sm c = Inr k" "good k" "lookahead sm k = L"
    "0 \<le> L" "L \<le> frame_48k c" "length (tags_marshal (tags_of c)) \<le> 65024"
    "length (concat chunks) < 2 ^ 39" "len (concat chunks) mod (2 * Channels c) = 0"
  shows "\<exists>e1 e2 e3 cw P. enc_reset wr sm ser o0 c e = Ok e1 \<and> write_chunks wr sm chunks e1 = Ok (e2, len (concat chunks))
     \<and> enc_Close wr sm e2 = Some (Ok e3) \<and> e_closed e3 \<and> cwr e3 = Some cw \<and> out (w (sw cw)) = out o0 @ concat (map page_bytes P)
     \<and> encoded_stream ser sm c L k (concat chunks) P
     \<and> coded48k e3 = int (frames_needed c L (len (concat chunks) div (2 * Channels c))) * frame_48k c"
proof -
  obtain e1 where e1: "enc_reset wr sm ser o0 c e = Ok e1" "writable out (out o0) ser sm c L k [] e1"
    using enc_reset_ok [OF assms(1,2,4,6,9)] by blast
  obtain e2 where e2: "write_chunks wr sm chunks e1 = Ok (e2, len (concat chunks))" "writable out (out o0) ser sm c L k (concat chunks) e2"
    using write_chunks_ok [OF assms(1,2,3,5) _ e1(2), of chunks] assms(10) by auto
  show ?thesis using e1 e2 enc_Close_ok [OF assms(1,2,3,5,10) e2(2) assms(11,7,8)] by blast
qed

lemma encode_frames_length:
  assumes "codec_ok sm c good" "good k"
  shows "length (packets sm c k (pad_frames (frame_size c) N xs)) = N"
  using encode_seq_ok [OF assms, of "pad_frames (frame_size c) N xs"] length_pad_frame by (auto simp: packets_def)

lemma frames_needed_bounds:
  assumes "valid c" "0 \<le> L" "0 \<le> s"
  shows "1 \<le> frames_needed c L s" "L + src_48k c s \<le> int (frames_needed c L s) * frame_48k c"
    "frames_needed c L s = 1 \<or> (int (frames_needed c L s) - 1) * frame_48k c < L + src_48k c s"
proof -
  let ?F = "frame_48k c" and ?T = "L + src_48k c s"
  have F: "0 < ?F" using frame_facts [OF assms(1)] by simp
  define q where "q = (?T + ?F - 1) div ?F"
  have m: "?T + ?F - 1 = q * ?F + (?T + ?F - 1) mod ?F" by (simp add: q_def)
  have r: "0 \<le> (?T + ?F - 1) mod ?F" "(?T + ?F - 1) mod ?F < ?F" using F by simp_all
  have ub: "?T \<le> q * ?F" using m r by linarith
  have lb: "(q - 1) * ?F < ?T" using m r unfolding left_diff_distrib by linarith
  have n: "int (frames_needed c L s) = max 1 q" by (simp add: frames_needed_def q_def)
  show "1 \<le> frames_needed c L s" using n by linarith
  have "q * ?F \<le> max 1 q * ?F" using F by (intro mult_right_mono) simp_all
  then show "?T \<le> int (frames_needed c L s) * ?F" unfolding n using ub by linarith
  show "frames_needed c L s = 1 \<or> (int (frames_needed c L s) - 1) * ?F < ?T"
    using lb n by (cases "q \<le> 1") (simp_all add: max_absorb1 max_absorb2)
qed

lemma encoded_end_granule:
  assumes "valid c" "codec_ok sm c good" "good k" "0 \<le> L" "L < 2 ^ 16" "encoded_stream ser sm c L k pcm P"
  shows "granule (last P) = L + src_48k c (len pcm div (2 * Channels c))"
proof -
  let ?s = "len pcm div (2 * Channels c)"
  let ?N = "frames_needed c L ?s"
  let ?ps = "packets sm c k (pad_frames (frame_size c) ?N (samples_of pcm))"
  note f = frame_facts [OF assms(1)]
  have s0: "0 \<le> ?s" using f by (simp add: pos_imp_zdiv_nonneg_iff)
  note b = frames_needed_bounds [OF assms(1,4) s0]
  obtain q where "0 < q" "src_48k c ?s = ?s * q" using src_48k_facts [OF assms(1) s0] by metis
  then have T: "0 \<le> src_48k c ?s" using s0 by simp
  have o: "opus_stream ser (head_of c L) (tags_of c) ?ps (src_48k c ?s) P" using assms(6) by (simp add: encoded_stream_def Let_def)
  have n: "length ?ps = ?N" using encode_frames_length [OF assms(2,3)] by blast
  then have ne: "?ps \<noteq> []" using b(1) by auto
  have d: "map snd ?ps = replicate ?N (frame_48k c)"
    using n by (simp add: packets_def comp_def map_replicate_const)
  have bl: "butlast (replicate ?N (frame_48k c)) = replicate (?N - 1) (frame_48k c)"
    by (simp add: butlast_conv_take take_replicate)
  have "sum_list (butlast (map snd ?ps)) = int (?N - 1) * frame_48k c" unfolding d bl by (simp add: sum_list_replicate)
  also have "\<dots> \<le> L + src_48k c ?s" using b(1,3) assms(4) T by (auto simp: of_nat_diff)
  finally have le: "sum_list (butlast (map snd ?ps)) \<le> L + src_48k c ?s" .
  have L: "uint (h_preSkip (head_of c L)) = L"
    using assms(4,5) by (simp add: head_of_def uint_word_of_int take_bit_int_eq_self)
  show ?thesis using last_page_granule [OF o] ne le unfolding L by (simp add: packet_granules_def)
qed

text \<open>Through the Opus adapter, whose look-ahead is 312.\<close>

lemma adapter_encoder_ok:
  assumes "appends wr out" "valid c" "opus_ok pk c o0 good" "length (tags_marshal (tags_of c)) \<le> 65024"
    "length (concat chunks) < 2 ^ 39" "len (concat chunks) mod (2 * Channels c) = 0"
  shows "\<exists>e1 e2 e3 cw P. enc_reset wr (opus_seam pk) ser o1 c e = Ok e1
     \<and> write_chunks wr (opus_seam pk) chunks e1 = Ok (e2, len (concat chunks))
     \<and> enc_Close wr (opus_seam pk) e2 = Some (Ok e3) \<and> e_closed e3 \<and> cwr e3 = Some cw
     \<and> out (w (sw cw)) = out o1 @ concat (map page_bytes P)
     \<and> encoded_stream ser (opus_seam pk) c 312 (adapter c o0) (concat chunks) P
     \<and> coded48k e3 = int (frames_needed c 312 (len (concat chunks) div (2 * Channels c))) * frame_48k c"
proof -
  note n = adapter_new [OF assms(2,3)]
  have g: "good (ofe_enc (adapter c o0)) \<and> adapter c o0 = adapter c (ofe_enc (adapter c o0))"
    using assms(3) by (simp add: opus_ok_def adapter_def)
  have l: "(312 :: int) \<le> frame_48k c" using frame_facts(4) [OF assms(2)] by linarith
  show ?thesis using encoder_ok [OF assms(1,2) adapter_codec_ok [OF assms(2,3)] n(1) g n(2) _ l assms(4-6)] by simp
qed

section \<open>Properties\<close>

text \<open>C7: Encoding through the Opus adapter, whatever encoder state is reused and however the PCM is cut
  into writes: every call succeeds and reports all bytes, and the sink receives one complete Ogg Opus
  stream with a pre-skip of 312 whose packets are the codec's packets for the source's frames
  followed by silence, one per frame, as many frames as the pre-skip and the source need (at least
  one, so an empty source still has an audio page).  In particular \<^verbatim>\<open>Close\<close> returns, so its padding loop
  ends.\<close>

theorem encoder_stream:
  assumes "appends wr out" "valid c" "opus_ok pk c o0 good" "length (tags_marshal (tags_of c)) \<le> 65024"
    "length (concat chunks) < 2 ^ 39" "len (concat chunks) mod (2 * Channels c) = 0"
  shows "\<exists>e1 e2 e3 cw P. enc_reset wr (opus_seam pk) ser o1 c e = Ok e1
     \<and> write_chunks wr (opus_seam pk) chunks e1 = Ok (e2, len (concat chunks))
     \<and> enc_Close wr (opus_seam pk) e2 = Some (Ok e3) \<and> e_closed e3 \<and> cwr e3 = Some cw
     \<and> out (w (sw cw)) = out o1 @ concat (map page_bytes P)
     \<and> encoded_stream ser (opus_seam pk) c 312 (adapter c o0) (concat chunks) P"
  using adapter_encoder_ok [OF assms] by blast

definition demo_pkg :: "unit opusPkg" where
  "demo_pkg = \<lparr>opus_NewEncoder = (\<lambda>c. Inr ()), opus_Encode = (\<lambda>k pcm n. (k, Inr (take (nat n) (252 # map ucast (take 2 pcm))))),
     opus_Lookahead = (\<lambda>k. 312)\<rparr>"

definition demo_config :: Config where
  "demo_config = \<lparr>SampleRate = 48000, Channels = 1, Bitrate = 0, CBR = False, ConstrainedVBR = False, Complexity = 0,
     FrameDurationMS = 0, DTX = False, Vendor = [], Comments = []\<rparr>"

lemma demo_ok: "valid demo_config" "opus_ok demo_pkg demo_config () (\<lambda>_. True)" "length (tags_marshal (tags_of demo_config)) = 29"
proof -
  show "valid demo_config" by (simp add: valid_def validate_def validSampleRate_def validSampleRates_def demo_config_def maxComplexity_def)
  show "opus_ok demo_pkg demo_config () (\<lambda>_. True)"
    by (simp add: opus_ok_def demo_pkg_def maxPacketBytes_def min_le_iff_disj) (simp add: demo_config_def)
  show "length (tags_marshal (tags_of demo_config)) = 29"
    by (simp add: tags_of_def demo_config_def vendorString_def defaultVendor_def libVersion_def tags_marshal_def opusTagsMagic_def
        appendUint32_def Let_def)
qed

lemma demo_channels: "Channels demo_config = 1"
  by (simp add: demo_config_def)

definition new_encoder :: "('w \<Rightarrow> bytes \<Rightarrow> 'w \<times> oerr option) \<Rightarrow> 'w \<Rightarrow> ('w, 'c) Encoder" where
  "new_encoder wr o0 = \<lparr>ew = o0, cfg = demo_config, enc = None, cwr = None, frameLen = 0, frameBytes = 0, frame = [], carry = [],
     srcSamples = 0, coded48k = 0, e_closed = False\<rparr>"

lemma encoder_stream_witness:
  "\<exists>e1 e2 e3 cw P. enc_reset buf_write (opus_seam demo_pkg) 7 [] demo_config (new_encoder buf_write []) = Ok e1
     \<and> write_chunks buf_write (opus_seam demo_pkg) [[1, 2, 3], [], [4]] e1 = Ok (e2, len (concat [[1, 2, 3 :: u8], [], [4]]))
     \<and> enc_Close buf_write (opus_seam demo_pkg) e2 = Some (Ok e3) \<and> e_closed e3 \<and> cwr e3 = Some cw
     \<and> id (w (sw cw)) = id [] @ concat (map page_bytes P)
     \<and> encoded_stream 7 (opus_seam demo_pkg) demo_config 312 (adapter demo_config ()) (concat [[1, 2, 3], [], [4]]) P"
  by (rule encoder_stream [OF buf_appends demo_ok(1,2)]) (simp_all add: demo_ok(3) demo_channels)

text \<open>C27: The file that reset, the writes and \<^verbatim>\<open>Close\<close> leave in the sink ends as RFC 7845 section 4.5 wants
  it: the granule position of its last page is exactly the pre-skip of 312 plus the source's length at 48 kHz; the
  samples the encoder counted as coded are the durations of the packets in the file, and they reach that position, so
  the padding that \<^verbatim>\<open>Close\<close> adds is enough; and without the last packet they would not (unless it is the only one),
  so no frame is superfluous.\<close>

theorem encoder_end_granule:
  assumes "appends wr out" "valid c" "opus_ok pk c o0 good" "length (tags_marshal (tags_of c)) \<le> 65024"
    "length (concat chunks) < 2 ^ 39" "len (concat chunks) mod (2 * Channels c) = 0"
    "src = src_48k c (len (concat chunks) div (2 * Channels c))"
  shows "\<exists>e1 e2 e3 cw P ps. enc_reset wr (opus_seam pk) ser o1 c e = Ok e1
     \<and> write_chunks wr (opus_seam pk) chunks e1 = Ok (e2, len (concat chunks))
     \<and> enc_Close wr (opus_seam pk) e2 = Some (Ok e3) \<and> cwr e3 = Some cw
     \<and> out (w (sw cw)) = out o1 @ concat (map page_bytes P)
     \<and> opus_stream ser (head_of c 312) (tags_of c) ps src P \<and> granule (last P) = 312 + src
     \<and> coded48k e3 = sum_list (map snd ps) \<and> 312 + src \<le> coded48k e3
     \<and> (length ps = 1 \<or> sum_list (map snd (butlast ps)) < 312 + src)"
proof -
  let ?s = "len (concat chunks) div (2 * Channels c)"
  let ?N = "frames_needed c 312 ?s" and ?k = "adapter c o0"
  let ?ps = "packets (opus_seam pk) c ?k (pad_frames (frame_size c) ?N (samples_of (concat chunks)))"
  obtain e1 e2 e3 cw P where e: "enc_reset wr (opus_seam pk) ser o1 c e = Ok e1"
     "write_chunks wr (opus_seam pk) chunks e1 = Ok (e2, len (concat chunks))"
     "enc_Close wr (opus_seam pk) e2 = Some (Ok e3)" "cwr e3 = Some cw" "out (w (sw cw)) = out o1 @ concat (map page_bytes P)"
     "encoded_stream ser (opus_seam pk) c 312 ?k (concat chunks) P" "coded48k e3 = int ?N * frame_48k c"
    using adapter_encoder_ok [OF assms(1-6)] by blast
  have g: "good (ofe_enc ?k) \<and> ?k = adapter c (ofe_enc ?k)" using assms(3) by (simp add: opus_ok_def adapter_def)
  note ok = adapter_codec_ok [OF assms(2,3)]
  have s0: "0 \<le> ?s" using frame_facts(11) [OF assms(2)] by (simp add: pos_imp_zdiv_nonneg_iff)
  have "(0 :: int) \<le> 312" "(312 :: int) < 2 ^ 16" by simp_all
  note b = frames_needed_bounds [OF assms(2) this(1) s0] and gr = encoded_end_granule [OF assms(2) ok g this e(6)]
  have n: "length ?ps = ?N" using encode_frames_length [OF ok g] by blast
  have d: "map snd ?ps = replicate ?N (frame_48k c)" using n by (simp add: packets_def comp_def map_replicate_const)
  have bl: "map snd (butlast ?ps) = replicate (?N - 1) (frame_48k c)"
    unfolding map_butlast d by (simp add: butlast_conv_take take_replicate)
  have "opus_stream ser (head_of c 312) (tags_of c) ?ps src P" using e(6) by (simp add: encoded_stream_def Let_def assms(7))
  moreover have "sum_list (map snd ?ps) = int ?N * frame_48k c" unfolding d by (simp add: sum_list_replicate)
  moreover have "sum_list (map snd (butlast ?ps)) = (int ?N - 1) * frame_48k c"
    unfolding bl using b(1) by (simp add: sum_list_replicate of_nat_diff)
  ultimately show ?thesis using e(1-5,7) gr b(2,3) n unfolding assms(7) by metis
qed

text \<open>C28: A \<^verbatim>\<open>Reset\<close> that fails because the sink rejects a header page does not leave an uninitialized
  encoder: the codec is set and the container writer is nil, so the \<^verbatim>\<open>Close\<close> after it dereferences a
  nil pointer instead of reporting \<^verbatim>\<open>errUninitialized\<close>.\<close>

theorem close_after_failed_reset_panics:
  assumes "valid c" "new_enc sm c = Inr k" "newContainerWriter wr o0 ser (head_of c (lookahead sm k)) (tags_of c) = Err (o1, er)"
  shows "\<exists>e1. enc_reset wr sm ser o0 c e = Err (e1, er) \<and> enc e1 = Some k \<and> cwr e1 = None \<and> enc_Close wr sm e1 = Some Panic"
proof -
  let ?e = "e\<lparr>enc := Some k, cwr := None, carry := [], srcSamples := 0, coded48k := 0, e_closed := False, ew := o1, cfg := c,
     frameLen := frame_len c, frameBytes := frame_len c * Channels c * 2\<rparr>"
  have "enc_reset wr sm ser o0 c e = Err (?e, er)"
    using assms
    by (simp add: enc_reset_def valid_def Let_def initStream_def frame_len_def [symmetric] head_of_def [symmetric] tags_of_def [symmetric])
  moreover have "enc_Close wr sm ?e = Some Panic" by (simp add: enc_Close_def flush_carry_def)
  ultimately show ?thesis by force
qed

text \<open>A sink that is full.\<close>
definition full_write :: "bytes \<Rightarrow> bytes \<Rightarrow> bytes \<times> oerr option" where
  "full_write s b = (s, Some (WriteError 28))"

lemma close_after_failed_reset_panics_witness:
  "\<exists>e1. enc_reset full_write (opus_seam demo_pkg) 7 [] demo_config (new_encoder full_write []) = Err (e1, WriteError 28)
     \<and> enc e1 = Some (adapter demo_config ()) \<and> cwr e1 = None \<and> enc_Close full_write (opus_seam demo_pkg) e1 = Some Panic"
proof (rule close_after_failed_reset_panics)
  show "valid demo_config" "new_enc (opus_seam demo_pkg) demo_config = Inr (adapter demo_config ())"
    using demo_ok(1) adapter_new(1) [OF demo_ok(1,2)] by simp_all
  have l: "lacing 19 = [19]" by (simp add: lacing_eq)
  have m: "length (head_marshal (head_of demo_config L)) = 19" for L
    by (simp add: head_marshal_def head_of_def opusHeadMagic_def mappingFamily0_def)
  show "newContainerWriter full_write [] 7 (head_of demo_config (lookahead (opus_seam demo_pkg) (adapter demo_config ()))) (tags_of demo_config)
      = Err ([], WriteError 28)"
    by (simp add: newContainerWriter_def writeHeaders_def sw_writePacket_def newStreamWriter_def m l commit_def writePage_def
        page_consts full_write_def)
qed

lemma encoder_end_granule_witness:
  "\<exists>e1 e2 e3 cw P ps. enc_reset buf_write (opus_seam demo_pkg) 7 [] demo_config (new_encoder buf_write []) = Ok e1
     \<and> write_chunks buf_write (opus_seam demo_pkg) [[5], [0]] e1 = Ok (e2, len (concat [[5 :: u8], [0]]))
     \<and> enc_Close buf_write (opus_seam demo_pkg) e2 = Some (Ok e3) \<and> cwr e3 = Some cw
     \<and> id (w (sw cw)) = id [] @ concat (map page_bytes P)
     \<and> opus_stream 7 (head_of demo_config 312) (tags_of demo_config) ps 1 P \<and> granule (last P) = 312 + 1
     \<and> coded48k e3 = sum_list (map snd ps) \<and> 312 + 1 \<le> coded48k e3
     \<and> (length ps = 1 \<or> sum_list (map snd (butlast ps)) < 312 + 1)"
proof (rule encoder_end_granule [OF buf_appends demo_ok(1,2)])
  show "1 = src_48k demo_config (len (concat [[5 :: u8], [0]]) div (2 * Channels demo_config))"
    by (simp add: src_48k_def sampleRate48k_def demo_config_def sdiv_nonneg)
qed (simp_all add: demo_ok(3) demo_channels)

end
