(* ===== verification/Ogg_Decoder.thy ===== *)
theory Ogg_Decoder
  imports Ogg_Encoder_Props
begin

text \<open>
  Sequential decoding: the adapters to the Opus decoders (\<^verbatim>\<open>oggopus/codec.go\<close>), the PCM decoder
  (\<^verbatim>\<open>oggopus/decoder.go\<close>) and the one-shot decode with its ceiling (\<^verbatim>\<open>oggopus/decode_oneshot.go\<close>).

  The codec is an implementation of the Go interface \<^verbatim>\<open>frameDecoder\<close>, the record \<open>dseam\<close>.  The fields of the
  decoder that serve seeking only (\<^verbatim>\<open>rs\<close>, \<^verbatim>\<open>base\<close>, \<^verbatim>\<open>idx\<close>, \<^verbatim>\<open>scan\<close>) and the reused buffers are left out; the
  source is a \<open>source\<close>, never nil.  An error carries the decoder's state.
\<close>

section \<open>The codec seam\<close>

definition maxFrameSamples48k :: int where "maxFrameSamples48k = 5760"

text \<open>\<^verbatim>\<open>frameDecoder\<close> and its constructor.\<close>

record 'd dseam =
  new_dec :: "opusHead \<Rightarrow> oerr + 'd"
  dec_frame :: "'d \<Rightarrow> bytes \<Rightarrow> 'd \<times> (oerr, u16 list) res"

text \<open>What the adapters use of the package \<^verbatim>\<open>opus\<close>: \<^verbatim>\<open>Decode\<close> fills a buffer of the given length and returns the
  samples per channel.\<close>

record ('o, 'm) opusDecPkg =
  opus_NewDecoder :: "int \<Rightarrow> int \<Rightarrow> nat + 'o"
  opus_Decode :: "'o \<Rightarrow> bytes \<Rightarrow> u16 list \<Rightarrow> 'o \<times> u16 list \<times> (nat + int)"
  opus_NewMultistreamDecoder :: "int \<Rightarrow> int \<Rightarrow> int \<Rightarrow> int \<Rightarrow> bytes \<Rightarrow> nat + 'm"
  opus_MSDecode :: "'m \<Rightarrow> bytes \<Rightarrow> u16 list \<Rightarrow> 'm \<times> u16 list \<times> (nat + int)"

datatype ('o, 'm) frameDecoder =
    OpusFrameDecoder 'o int "u16 list"
  | OpusMSFrameDecoder 'm int "u16 list"

fun decodeFrame :: "('o, 'm) opusDecPkg \<Rightarrow> ('o, 'm) frameDecoder \<Rightarrow> bytes \<Rightarrow> ('o, 'm) frameDecoder \<times> (oerr, u16 list) res" where
  "decodeFrame pk (OpusFrameDecoder d ch buf) packet =
     (case opus_Decode pk d packet buf of
        (d, buf, Inl err) \<Rightarrow> (OpusFrameDecoder d ch buf, Err (CodecError ''decoding a packet'' err))
      | (d, buf, Inr n) \<Rightarrow> (OpusFrameDecoder d ch buf, slice buf 0 (n * ch)))"
| "decodeFrame pk (OpusMSFrameDecoder d ch buf) packet =
     (case opus_MSDecode pk d packet buf of
        (d, buf, Inl err) \<Rightarrow> (OpusMSFrameDecoder d ch buf, Err (CodecError ''decoding a multistream packet'' err))
      | (d, buf, Inr n) \<Rightarrow> (OpusMSFrameDecoder d ch buf, slice buf 0 (n * ch)))"

definition newFrameDecoder :: "('o, 'm) opusDecPkg \<Rightarrow> opusHead \<Rightarrow> oerr + ('o, 'm) frameDecoder" where
  "newFrameDecoder pk h =
     (let channels = uint (h_channels h); buf = replicate (nat (maxFrameSamples48k * channels)) 0 in
      if h_mappingFamily h = mappingFamily0 then
        (case opus_NewDecoder pk sampleRate48k channels of
           Inl err \<Rightarrow> Inl (CodecError ''building the opus decoder'' err)
         | Inr d \<Rightarrow> Inr (OpusFrameDecoder d channels buf))
      else if h_mappingFamily h = 1 \<and> channels > 8 then Inl (CodecError ''family 1 allows at most 8 channels'' (nat channels))
      else
        (case opus_NewMultistreamDecoder pk sampleRate48k channels (uint (h_streamCount h)) (uint (h_coupledCount h)) (h_channelMapping h) of
           Inl err \<Rightarrow> Inl (CodecError ''building the multistream opus decoder'' err)
         | Inr d \<Rightarrow> Inr (OpusMSFrameDecoder d channels buf)))"

definition opus_dseam :: "('o, 'm) opusDecPkg \<Rightarrow> ('o, 'm) frameDecoder dseam" where
  "opus_dseam pk = \<lparr>new_dec = newFrameDecoder pk, dec_frame = decodeFrame pk\<rparr>"

section \<open>The decoder\<close>

record Info =
  i_Channels :: int
  i_InputSampleRate :: u32
  i_OutputSampleRate :: u32
  i_PreSkip :: int
  i_OutputGain :: u16

record 'd Decoder =
  cr :: "containerReader option"
  dec :: "'d option"
  info :: Info
  pcm :: bytes
  preSkipLeft :: int
  delivered :: int
  d_limit :: int
  skipTo :: int
  atEnd :: bool
  d_err :: "oerr option"
  tagsBad :: bool
  inSequence :: bool

definition zero_info :: Info where
  "zero_info = \<lparr>i_Channels = 0, i_InputSampleRate = 0, i_OutputSampleRate = 0, i_PreSkip = 0, i_OutputGain = 0\<rparr>"

definition dec_init :: "'d dseam \<Rightarrow> source \<Rightarrow> 'd Decoder \<Rightarrow> ('d Decoder \<times> oerr, 'd Decoder) res" where
  "dec_init sm r d =
     (case newContainerReader r of
        Err e \<Rightarrow> Err (d, e)
      | Panic \<Rightarrow> Panic
      | Ok c \<Rightarrow>
          (case new_dec sm (head c) of
             Inl e \<Rightarrow> Err (d, e)
           | Inr k \<Rightarrow> Ok (d\<lparr>tagsBad := qi c < length (queue c) \<or> partial c \<noteq> [], skipTo := 0, atEnd := False, inSequence := True,
               d_err := None, cr := Some c, dec := Some k, preSkipLeft := uint (h_preSkip (head c)), delivered := 0, d_limit := -1,
               info := \<lparr>i_Channels = uint (h_channels (head c)), i_InputSampleRate = h_inputSampleRate (head c), i_OutputSampleRate = 48000,
                 i_PreSkip = uint (h_preSkip (head c)), i_OutputGain = h_outputGain (head c)\<rparr>\<rparr>)))"

definition zero_decoder :: "'d Decoder" where
  "zero_decoder = \<lparr>cr = None, dec = None, info = zero_info, pcm = [], preSkipLeft = 0, delivered = 0, d_limit = 0, skipTo = 0,
     atEnd = False, d_err = None, tagsBad = False, inSequence = False\<rparr>"

definition NewDecoder :: "'d dseam \<Rightarrow> source \<Rightarrow> 'd Decoder ogg" where
  "NewDecoder sm r = (case dec_init sm r zero_decoder of Ok d \<Rightarrow> Ok d | Err (_, e) \<Rightarrow> Err e | Panic \<Rightarrow> Panic)"

definition dec_Reset :: "'d dseam \<Rightarrow> source \<Rightarrow> 'd Decoder \<Rightarrow> ('d Decoder \<times> oerr, 'd Decoder) res" where
  "dec_Reset sm r d = dec_init sm r (d\<lparr>cr := None, dec := None, skipTo := 0, atEnd := False, inSequence := False,
     d_err := None, tagsBad := False, info := zero_info, pcm := []\<rparr>)"

text \<open>Little-endian PCM bytes.\<close>

definition pcm_bytes :: "u16 list \<Rightarrow> bytes" where
  "pcm_bytes xs = concat (map put16 xs)"

definition isPacketTooLarge :: "oerr \<Rightarrow> bool" where
  "isPacketTooLarge e = (case e of ErrPacketTooLarge _ \<Rightarrow> True | _ \<Rightarrow> False)"

text \<open>The trims of \<^verbatim>\<open>fill\<close>: the pre-skip, the pre-roll of a seek, and the end trim; \<open>n\<close> is \<^verbatim>\<open>perChan\<close>.\<close>

definition drop_preSkip :: "'d Decoder \<Rightarrow> u16 list \<Rightarrow> int \<Rightarrow> ('e, 'd Decoder \<times> u16 list \<times> int) res" where
  "drop_preSkip d xs n =
     (if preSkipLeft d > 0 then
        (let dr = min (preSkipLeft d) n in
         bnd (slice_from xs (dr * i_Channels (info d))) (\<lambda>xs. Ok (d\<lparr>preSkipLeft := preSkipLeft d - dr\<rparr>, xs, n - dr)))
      else Ok (d, xs, n))"

definition drop_preRoll :: "'d Decoder \<Rightarrow> u16 list \<Rightarrow> int \<Rightarrow> ('e, 'd Decoder \<times> u16 list \<times> int) res" where
  "drop_preRoll d xs n =
     (if delivered d < skipTo d then
        (let dr = min (skipTo d - delivered d) n in
         bnd (slice_from xs (dr * i_Channels (info d))) (\<lambda>xs. Ok (d\<lparr>delivered := delivered d + dr\<rparr>, xs, n - dr)))
      else Ok (d, xs, n))"

definition trim_end :: "'d Decoder \<Rightarrow> u16 list \<Rightarrow> int \<Rightarrow> ('e, 'd Decoder \<times> u16 list \<times> int) res" where
  "trim_end d xs n =
     (if d_limit d \<ge> 0 \<and> delivered d + n > d_limit d then
        (let keep = max (d_limit d - delivered d) 0 in
         bnd (slice xs 0 (keep * i_Channels (info d))) (\<lambda>xs. Ok (d, xs, keep)))
      else Ok (d, xs, n))"

definition set_limit :: "'d Decoder \<Rightarrow> 'd Decoder" where
  "set_limit d = (if d_limit d < 0 then (case Option.bind (cr d) totalSamples of Some t \<Rightarrow> d\<lparr>d_limit := t\<rparr> | None \<Rightarrow> d) else d)"

definition fill :: "'d dseam \<Rightarrow> 'd Decoder \<Rightarrow> ('d Decoder \<times> oerr, 'd Decoder \<times> bool) res" where
  "fill sm d =
     (if atEnd d then Ok (d, True)
      else case (cr d, dec d) of
        (Some c, Some k) \<Rightarrow>
          (case nextPacket c of
             Panic \<Rightarrow> Panic
           | Err (c, e) \<Rightarrow>
               (let d = d\<lparr>cr := Some c\<rparr> in
                if e = EOF then Ok (d, True)
                else
                  (let d = d\<lparr>inSequence := False\<rparr> in
                   Err (if isPacketTooLarge e then d\<lparr>d_err := Some e\<rparr> else d, e)))
           | Ok (c, pkt) \<Rightarrow>
               (case dec_frame sm k pkt of
                  (k, Panic) \<Rightarrow> Panic
                | (k, Err e) \<Rightarrow> Err (d\<lparr>cr := Some c, dec := Some k, inSequence := False\<rparr>, e)
                | (k, Ok xs) \<Rightarrow>
                    (let d = set_limit (d\<lparr>cr := Some c, dec := Some k\<rparr>) in
                     if i_Channels (info d) = 0 then Panic
                     else
                       bnd (drop_preSkip d xs (len xs sdiv i_Channels (info d))) (\<lambda>(d, xs, n).
                       bnd (drop_preRoll d xs n) (\<lambda>(d, xs, n).
                       bnd (trim_end d xs n) (\<lambda>(d, xs, n).
                       Ok (d\<lparr>delivered := delivered d + n, pcm := pcm_bytes xs\<rparr>, False)))))))
      | _ \<Rightarrow> Panic)"

section \<open>Reading\<close>

text \<open>Every packet served either shortens the source or advances in the queue.\<close>

definition progress :: "(containerReader \<times> containerReader) set" where
  "progress = measures [\<lambda>c. length (rest (br c)), \<lambda>c. length (queue c) - qi c]"

lemma wf_progress: "wf progress"
  by (simp add: progress_def)

lemma nextRawPacket_progress: "nextRawPacket c = Ok (c', q) \<Longrightarrow> (c', c) \<in> progress"
proof (induction c rule: nextRawPacket.induct)
  case (1 c)
  show ?case
  proof (cases "qi c < length (queue c)")
    case True
    then show ?thesis using 1(2) by (subst (asm) nextRawPacket.simps) (auto simp: progress_def)
  next
    case nq: False
    obtain r p e where rp: "readPage (br c) (pg c) = (r, p, e)" by (cases "readPage (br c) (pg c)")
    let ?c = "c\<lparr>br := r, pg := p, consumed := consumed c + (int pageHeaderFixedLen + len (segTable p) + len (body p))\<rparr>"
    have ns: "\<not> sawEOS c" and e: "e = None" and b: "bnd (processPage p ?c) nextRawPacket = Ok (c', q)"
      using 1(2) nq rp by (subst (asm) nextRawPacket.simps, simp split: if_splits option.splits)+
    obtain c1 where c1: "processPage p ?c = Ok c1" "nextRawPacket c1 = Ok (c', q)" using b by (auto simp: bnd_eq_Ok)
    have "length (rest (br c1)) < length (rest (br c))"
      using processPage_br [OF c1(1)] readPage_shrinks rp e by fastforce
    moreover have "(c', c1) \<in> progress"
      using 1(1) [OF nq ns rp [symmetric] refl e c1] .
    ultimately show ?thesis by (auto simp: progress_def)
  qed
qed

lemma trims_cr:
  "drop_preSkip d xs n = Ok (d', y) \<Longrightarrow> cr d' = cr d" "drop_preRoll d xs n = Ok (d', y) \<Longrightarrow> cr d' = cr d"
  "trim_end d xs n = Ok (d', y) \<Longrightarrow> cr d' = cr d" "cr (set_limit d) = cr d"
  by (auto simp: drop_preSkip_def drop_preRoll_def trim_end_def set_limit_def bnd_eq_Ok Let_def split: if_splits option.splits)

lemma fill_progress:
  assumes "fill sm d = Ok (d', False)"
  shows "(the (cr d'), the (cr d)) \<in> progress"
proof -
  obtain c k c' pkt where c: "cr d = Some c" "dec d = Some k" "nextPacket c = Ok (c', pkt)" "cr d' = Some c'"
    using assms unfolding fill_def
    by (auto simp: bnd_eq_Ok Let_def dest!: trims_cr(1-3) simp: trims_cr(4)
        split: if_splits option.splits res.splits prod.splits sum.splits)
  then show ?thesis using nextRawPacket_progress by (simp add: nextPacket_def)
qed

text \<open>The loop both \<^verbatim>\<open>Read\<close> and \<^verbatim>\<open>WriteTo\<close> start with: fill until there is PCM; \<open>True\<close> at the end.\<close>

function fill_until :: "'d dseam \<Rightarrow> 'd Decoder \<Rightarrow> ('d Decoder \<times> oerr, 'd Decoder \<times> bool) res" where
  "fill_until sm d =
     (if pcm d \<noteq> [] then Ok (d, False)
      else bnd (fill sm d) (\<lambda>x. case x of (d, fin) \<Rightarrow> if fin then Ok (d, True) else fill_until sm d))"
  by pat_completeness auto
termination
  by (relation "inv_image progress (\<lambda>(sm, d). the (cr d))") (auto simp: wf_progress dest: fill_progress)

declare fill_until.simps [simp del]

definition dec_Read :: "'d dseam \<Rightarrow> int \<Rightarrow> 'd Decoder \<Rightarrow> ('d Decoder \<times> oerr, 'd Decoder \<times> bytes) res" where
  "dec_Read sm lenp d =
     (if dec d = None then Err (d, errUninitialized)
      else case d_err d of
        Some e \<Rightarrow> Err (d, e)
      | None \<Rightarrow> bnd (fill_until sm d) (\<lambda>(d, fin).
          if fin then Err (d, EOF)
          else (let n = min (nat lenp) (length (pcm d)) in Ok (d\<lparr>pcm := drop n (pcm d)\<rparr>, take n (pcm d)))))"

text \<open>The sink of \<^verbatim>\<open>WriteTo\<close>: as every \<^verbatim>\<open>io.Writer\<close> it takes all the bytes or reports how many it took and
  an error.\<close>

type_synonym 'w sink = "'w \<Rightarrow> bytes \<Rightarrow> 'w \<times> (int \<times> oerr) option"

lemma fill_until_progress:
  "fill_until sm d = Ok (d', False) \<Longrightarrow> (pcm d \<noteq> [] \<and> d' = d) \<or> (pcm d = [] \<and> (the (cr d'), the (cr d)) \<in> progress)"
proof (induction sm d rule: fill_until.induct)
  case (1 sm d)
  show ?case
  proof (cases "pcm d = []")
    case True
    obtain d1 where d1: "fill sm d = Ok (d1, False)" "fill_until sm d1 = Ok (d', False)"
      using 1(2) True by (subst (asm) fill_until.simps) (auto simp: bnd_eq_Ok split: if_splits)
    have "trans progress" by (rule transI) (auto simp: progress_def)
    with 1(1) [of "(d1, False)" d1 False] d1 True fill_progress [OF d1(1)] show ?thesis
      by (auto dest: transD)
  qed (use 1(2) in \<open>subst (asm) fill_until.simps, simp\<close>)
qed

function write_to :: "'d dseam \<Rightarrow> 'w sink \<Rightarrow> 'w \<Rightarrow> int \<Rightarrow> 'd Decoder \<Rightarrow> ('d Decoder \<times> 'w \<times> int \<times> oerr, 'd Decoder \<times> 'w \<times> int) res" where
  "write_to sm wr out written d =
     (case fill_until sm d of
        Panic \<Rightarrow> Panic
      | Err (d, e) \<Rightarrow> Err (d, out, written, e)
      | Ok (d, True) \<Rightarrow> Ok (d, out, written)
      | Ok (d, False) \<Rightarrow>
          (case wr out (pcm d) of
             (out, None) \<Rightarrow> write_to sm wr out (written + len (pcm d)) (d\<lparr>pcm := []\<rparr>)
           | (out, Some (n, e)) \<Rightarrow> bnd (slice_from (pcm d) n) (\<lambda>xs. Err (d\<lparr>pcm := xs\<rparr>, out, written + n, e))))"
  by pat_completeness auto
termination
proof (relation "inv_image (progress <*lex*> less_than) (\<lambda>(sm, wr, out, written, d). (the (cr d), length (pcm d)))")
  show "wf (inv_image (progress <*lex*> less_than) (\<lambda>(sm :: 'd dseam, wr :: 'w sink, out :: 'w, written :: int, d :: 'd Decoder). (the (cr d), length (pcm d))))"
    using wf_progress by blast
qed (auto dest!: fill_until_progress)

declare write_to.simps [simp del]

definition dec_WriteTo :: "'d dseam \<Rightarrow> 'w sink \<Rightarrow> 'w \<Rightarrow> 'd Decoder \<Rightarrow> ('d Decoder \<times> 'w \<times> int \<times> oerr, 'd Decoder \<times> 'w \<times> int) res" where
  "dec_WriteTo sm wr out d =
     (if dec d = None then Err (d, out, 0, errUninitialized)
      else case d_err d of
        Some e \<Rightarrow> Err (d, out, 0, e)
      | None \<Rightarrow> write_to sm wr out 0 d)"

section \<open>One-shot decoding\<close>

definition DefaultMaxDecodedBytes :: int where "DefaultMaxDecodedBytes = 2 ^ 30"

record cappedWriter =
  cbuf :: bytes
  cn :: int
  cmax :: int

definition capped_Write :: "cappedWriter sink" where
  "capped_Write c p =
     (if cmax c > 0 \<and> cn c > cmax c - len p then (c, Some (0, ErrDecodeLimit (cmax c)))
      else (c\<lparr>cbuf := cbuf c @ p, cn := cn c + len p\<rparr>, None))"

definition DecodeInterleavedLimit :: "'d dseam \<Rightarrow> source \<Rightarrow> int \<Rightarrow> (Info option \<times> oerr, bytes \<times> Info) res" where
  "DecodeInterleavedLimit sm r maxBytes =
     (case NewDecoder sm r of
        Err e \<Rightarrow> Err (None, e)
      | Panic \<Rightarrow> Panic
      | Ok d \<Rightarrow>
          (case dec_WriteTo sm capped_Write \<lparr>cbuf = [], cn = 0, cmax = maxBytes\<rparr> d of
             Err (_, _, _, e) \<Rightarrow> Err (Some (info d), e)
           | Panic \<Rightarrow> Panic
           | Ok (_, c, _) \<Rightarrow> Ok (cbuf c, info d)))"

definition DecodeInterleaved :: "'d dseam \<Rightarrow> source \<Rightarrow> (Info option \<times> oerr, bytes \<times> Info) res" where
  "DecodeInterleaved sm r = DecodeInterleavedLimit sm r DefaultMaxDecodedBytes"


end
