(* ===== verification/Ogg_Decoder_Props.thy ===== *)
theory Ogg_Decoder_Props
  imports Ogg_Decoder Ogg_Encoder_Props
begin

text \<open>
  Sequential decoding is sample-exact: what one packet contributes (\<open>trims_ok\<close>), the decoder's invariant
  \<open>playing\<close>, the one-shot loop with its ceiling (\<open>write_all_playable\<close>), and the properties that join the
  encoder and the decoder.
\<close>

section \<open>One packet\<close>

text \<open>After \<open>S\<close> samples per channel of decoded audio: the samples still to be skipped, and how many have been
  delivered, when the pre-skip is \<open>pre\<close> and the stream has \<open>src\<close> playable samples.\<close>

definition window :: "nat \<Rightarrow> nat \<Rightarrow> nat \<Rightarrow> nat \<Rightarrow> 'd Decoder \<Rightarrow> bool" where
  "window ch pre src S d \<longleftrightarrow> i_Channels (info d) = int ch \<and> preSkipLeft d = int (pre - S) \<and> delivered d = int (min src (S - pre))
     \<and> skipTo d = 0 \<and> \<not> atEnd d"

text \<open>What is delivered of the decoded audio \<open>xs\<close>.\<close>

definition playable :: "nat \<Rightarrow> nat \<Rightarrow> nat \<Rightarrow> u16 list \<Rightarrow> u16 list" where
  "playable ch pre src xs = take (ch * src) (drop (ch * pre) xs)"

lemma playable_append:
  assumes "length xs = ch * S"
  shows "playable ch pre src (xs @ f) = playable ch pre src xs @ take (ch * (src - (S - pre))) (drop (ch * (pre - S)) f)"
proof -
  have "ch * src - (ch * S - ch * pre) = ch * (src - (S - pre))" "ch * pre - ch * S = ch * (pre - S)"
    by (simp_all add: diff_mult_distrib2)
  then show ?thesis using assms by (simp add: playable_def)
qed

lemma slice_nat: "k \<le> length xs \<Longrightarrow> slice xs 0 (int k) = Ok (take k xs)" "k \<le> length xs \<Longrightarrow> slice_from xs (int k) = Ok (drop k xs)"
  by (simp_all add: slice_Ok slice_from_Ok)

lemma trims_ok:
  fixes d :: "'d Decoder"
  assumes "window ch pre src S d" "0 < ch" "length f = ch * n" "S - pre \<le> src"
    "d_limit d = int src \<or> d_limit d < 0 \<and> S + n - pre \<le> src"
  shows "\<exists>d'. bnd (drop_preSkip d f (int n)) (\<lambda>(d, xs, n). bnd (drop_preRoll d xs n) (\<lambda>(d, xs, n).
      bnd (trim_end d xs n) (\<lambda>(d, xs, n). Ok (d\<lparr>delivered := delivered d + n, pcm := pcm_bytes xs\<rparr>, False))))
     = (Ok (d', False) :: ('d Decoder \<times> oerr, 'd Decoder \<times> bool) res)
     \<and> window ch pre src (S + n) d' \<and> pcm d' = pcm_bytes (take (ch * (src - (S - pre))) (drop (ch * (pre - S)) f))
     \<and> cr d' = cr d \<and> dec d' = dec d \<and> d_err d' = d_err d \<and> d_limit d' = d_limit d \<and> info d' = info d"
proof -
  note i = assms(1) [unfolded window_def]
  let ?g = "drop (ch * (pre - S)) f" and ?n1 = "n - (pre - S)"
  let ?d1 = "d\<lparr>preSkipLeft := int (pre - (S + n))\<rparr>"
  have lg: "length ?g = ch * ?n1" using assms(3) by (simp add: diff_mult_distrib2)
  have s1: "(drop_preSkip d f (int n) :: ('d Decoder \<times> oerr, 'd Decoder \<times> u16 list \<times> int) res) = Ok (?d1, ?g, int ?n1)"
  proof (cases "pre \<le> S")
    case True
    then have "d\<lparr>preSkipLeft := 0\<rparr> = d" using i by simp
    then show ?thesis using i True by (simp add: drop_preSkip_def)
  next
    case False
    let ?m = "min (pre - S) n"
    have m: "min (preSkipLeft d) (int n) = int ?m" using i by simp
    have "(slice_from f (int ?m * i_Channels (info d)) :: ('d Decoder \<times> oerr, u16 list) res) = Ok (drop (ch * ?m) f)"
    proof -
      have "int ?m * i_Channels (info d) = int (ch * ?m)" using i by (metis of_nat_mult mult.commute)
      then show ?thesis using assms(3) by (simp only: slice_nat(2) mult_le_mono2 min.cobounded2)
    qed
    moreover have "drop (ch * ?m) f = ?g" using assms(3) by (simp add: min_def)
    moreover have "preSkipLeft d - int ?m = int (pre - (S + n))" "int n - int ?m = int ?n1" using i by (auto simp: min_def)
    moreover have "preSkipLeft d > 0" using i False by simp
    ultimately show ?thesis unfolding drop_preSkip_def Let_def m by simp
  qed
  have i1: "i_Channels (info ?d1) = int ch" using i by simp
  have s2: "(drop_preRoll ?d1 ?g (int ?n1) :: ('d Decoder \<times> oerr, 'd Decoder \<times> u16 list \<times> int) res) = Ok (?d1, ?g, int ?n1)"
    using i by (simp add: drop_preRoll_def)
  let ?k = "min (src - (S - pre)) ?n1"
  have dl: "delivered d = int (S - pre)" using i assms(4) by simp
  have tk: "take (ch * (src - (S - pre))) ?g = take (ch * ?k) ?g" using lg by (simp add: min_def)
  have s3: "(trim_end ?d1 ?g (int ?n1) :: ('d Decoder \<times> oerr, 'd Decoder \<times> u16 list \<times> int) res) = Ok (?d1, take (ch * ?k) ?g, int ?k)"
  proof (cases "d_limit d \<ge> 0 \<and> delivered d + int ?n1 > d_limit d")
    case True
    then have l: "d_limit d = int src" using assms(5) by linarith
    have c: "0 \<le> d_limit ?d1 \<and> d_limit ?d1 < delivered ?d1 + int ?n1" using True by simp
    have keep: "max (d_limit ?d1 - delivered ?d1) 0 = int ?k" using True l dl assms(4) by (auto simp: min_def)
    have "int ?k * i_Channels (info ?d1) = int (ch * ?k)" using i by (simp only: i1 of_nat_mult mult.commute)
    then have sl: "(slice ?g 0 (int ?k * i_Channels (info ?d1)) :: ('d Decoder \<times> oerr, u16 list) res) = Ok (take (ch * ?k) ?g)"
      using lg by (simp only: slice_nat(1) mult_le_mono2 min.cobounded2)
    show ?thesis unfolding trim_end_def if_P [OF c] Let_def keep sl bnd.simps ..
  next
    case False
    have "?k = ?n1"
    proof -
      have "int (S - pre) + int ?n1 \<le> int src"
      proof (cases "d_limit d = int src")
        case True
        then show ?thesis using False dl by simp
      next
        case no: False
        then show ?thesis using assms(4,5) by auto
      qed
      then show ?thesis by linarith
    qed
    then have e: "int ?n1 = int ?k" "take (ch * ?k) ?g = ?g" using lg by simp_all
    have c: "\<not> (0 \<le> d_limit ?d1 \<and> d_limit ?d1 < delivered ?d1 + int ?n1)" using False by simp
    show ?thesis unfolding trim_end_def if_not_P [OF c] unfolding e ..
  qed
  let ?d' = "?d1\<lparr>delivered := delivered d + int ?k, pcm := pcm_bytes (take (ch * ?k) ?g)\<rparr>"
  have "S - pre + ?k = min src (S + n - pre)" using assms(4) by (cases "src - (S - pre) \<le> n - (pre - S)") (simp_all add: min_def, linarith+)
  then have "delivered d + int ?k = int (min src (S + n - pre))" unfolding dl by (metis of_nat_add)
  then have "window ch pre src (S + n) ?d'" using i by (simp add: window_def)
  then show ?thesis unfolding s1 bnd.simps prod.case s2 s3 using tk by (intro exI [of _ ?d']) simp
qed


section \<open>The whole stream\<close>

text \<open>The codec decodes the packets \<open>ps\<close> from state \<open>k\<close> into frames of their durations.\<close>

fun decodes :: "'d dseam \<Rightarrow> nat \<Rightarrow> 'd \<Rightarrow> (bytes \<times> nat) list \<Rightarrow> u16 list list \<Rightarrow> bool" where
  "decodes sm ch k [] fs = (fs = [])"
| "decodes sm ch k ((p, n) # ps) fs =
     (case dec_frame sm k p of
        (k, Ok f) \<Rightarrow> fs \<noteq> [] \<and> hd fs = f \<and> length f = ch * n \<and> decodes sm ch k ps (tl fs)
      | _ \<Rightarrow> False)"

lemma reading_final:
  assumes "reading_inv ser P [] fg c"
  shows "P = [] \<and> finalGranule c = fg"
proof -
  note i = assms [unfolded reading_inv_def]
  have "P = []"
  proof (rule ccontr)
    assume "P \<noteq> []"
    then obtain Q p where P: "P = Q @ [p]" by (cases P rule: rev_exhaust) auto
    obtain n b where pf: "pages_from ser n b P" using i by blast
    have r: "reassemble (partial c) (segs_of P) (body_of P) = ([], [])" using i by auto
    have ok: "page_ok p" "seg_sum (segs_of Q) = length (body_of Q)"
      using pf pages_seg_sum by (auto simp: P pages_from_append)
    obtain x qs' where r2: "reassemble x (segTable p) (body p) = (qs', [])"
      using r ok by (auto simp: P reassemble_append split: prod.splits)
    have "unat (last (segTable p)) \<noteq> 255" using reassemble_open [OF r2] ok(1) by (auto simp: page_ok_def)
    then have "0 < completions (segTable p)" using ok(1) by (intro completions_last) (auto simp: page_ok_def)
    moreover have "completions (segs_of P) = 0" using length_reassemble [OF r] by simp
    ultimately show False by (simp add: P)
  qed
  then show ?thesis using i by simp
qed

lemma reading_granule: "reading_inv ser P todo fg c \<Longrightarrow> finalGranule c = fg \<or> finalGranule c = -1"
  by (auto simp: reading_inv_def split: if_splits)

text \<open>The decoder between packets: \<open>todo\<close> is still to be read, \<open>S\<close> samples per channel are decoded.\<close>

definition playing :: "'d dseam \<Rightarrow> nat \<Rightarrow> nat \<Rightarrow> nat \<Rightarrow> nat \<Rightarrow> (bytes \<times> nat) list \<Rightarrow> u16 list list \<Rightarrow> 'd Decoder \<Rightarrow> bool" where
  "playing sm ch pre src S todo fs d \<longleftrightarrow> window ch pre src S d \<and> d_err d = None
     \<and> (d_limit d = int src \<or> d_limit d < 0)
     \<and> (\<exists>c k ser P. cr d = Some c \<and> dec d = Some k \<and> decodes sm ch k todo fs
          \<and> reading_inv ser P (map fst todo) (int (pre + src)) c \<and> uint (h_preSkip (head c)) = int pre)"

lemma fill_end:
  assumes "playing sm ch pre src S [] fs d"
  shows "\<exists>d'. fill sm d = Ok (d', True) \<and> info d' = info d"
proof -
  obtain c k ser P where c: "cr d = Some c" "dec d = Some k" "reading_inv ser P [] (int (pre + src)) c"
    using assms by (auto simp: playing_def)
  obtain c' where "nextRawPacket c = Err (c', EOF)" using reading_step [OF c(3)] by auto
  then show ?thesis using c assms by (auto simp: fill_def nextPacket_def playing_def window_def Let_def)
qed

lemma fill_packet:
  fixes d :: "'d Decoder"
  assumes "playing sm ch pre src S ((p, n) # todo) fs d" "0 < ch" "S - pre \<le> src" "todo \<noteq> [] \<longrightarrow> S + n - pre \<le> src"
  shows "\<exists>d' f. fs = f # tl fs \<and> length f = ch * n \<and> fill sm d = Ok (d', False) \<and> playing sm ch pre src (S + n) todo (tl fs) d'
     \<and> pcm d' = pcm_bytes (take (ch * (src - (S - pre))) (drop (ch * (pre - S)) f)) \<and> info d' = info d"
proof -
  obtain c k ser P where c: "cr d = Some c" "dec d = Some k" "decodes sm ch k ((p, n) # todo) fs"
      "reading_inv ser P (p # map fst todo) (int (pre + src)) c" "uint (h_preSkip (head c)) = int pre"
    using assms(1) by (auto simp: playing_def)
  obtain c' P' where c': "nextRawPacket c = Ok (c', p)" "reading_inv ser P' (map fst todo) (int (pre + src)) c'" "head c' = head c"
    using reading_step [OF c(4)] by auto
  obtain k' f where k': "dec_frame sm k p = (k', Ok f)" "fs = f # tl fs" "length f = ch * n" "decodes sm ch k' todo (tl fs)"
    using c(3) by (cases fs) (auto split: prod.splits res.splits)
  let ?d1 = "set_limit (d\<lparr>cr := Some c', dec := Some k'\<rparr>)"
  have tot: "totalSamples c' = Some (int src) \<or> totalSamples c' = None \<and> todo \<noteq> []"
  proof (cases "todo = []")
    case True
    then have "finalGranule c' = int (pre + src)" using reading_final c'(2) by fastforce
    then show ?thesis using c(5) c'(3) by (simp add: totalSamples_def)
  next
    case False
    then show ?thesis using reading_granule [OF c'(2)] c(5) c'(3) by (auto simp: totalSamples_def)
  qed
  have l: "d_limit ?d1 = int src \<or> d_limit ?d1 < 0 \<and> S + n - pre \<le> src"
    using assms(1,4) tot by (auto simp: set_limit_def playing_def)
  have w: "window ch pre src S ?d1" using assms(1) by (auto simp: set_limit_def playing_def window_def split: option.splits)
  have u: "cr ?d1 = Some c'" "dec ?d1 = Some k'" "d_err ?d1 = d_err d" "info ?d1 = info d"
    by (auto simp: set_limit_def split: option.splits)
  have ch: "i_Channels (info ?d1) = int ch" using w by (simp add: window_def)
  have len: "len f sdiv i_Channels (info ?d1) = int n" using k'(3) assms(2) unfolding ch by (simp add: sdiv_nonneg)
  obtain d' where d': "bnd (drop_preSkip ?d1 f (int n)) (\<lambda>(d, xs, n). bnd (drop_preRoll d xs n) (\<lambda>(d, xs, n).
      bnd (trim_end d xs n) (\<lambda>(d, xs, n). Ok (d\<lparr>delivered := delivered d + n, pcm := pcm_bytes xs\<rparr>, False))))
     = (Ok (d', False) :: ('d Decoder \<times> oerr, 'd Decoder \<times> bool) res)"
     "window ch pre src (S + n) d'" "pcm d' = pcm_bytes (take (ch * (src - (S - pre))) (drop (ch * (pre - S)) f))"
     "cr d' = Some c'" "dec d' = Some k'" "d_err d' = d_err d" "d_limit d' = d_limit ?d1" "info d' = info d"
    using trims_ok [OF w assms(2) k'(3) assms(3) l] unfolding u by blast
  have ae: "\<not> atEnd d" and nz: "i_Channels (info ?d1) \<noteq> 0" using assms(1,2) ch by (auto simp: playing_def window_def)
  have np: "nextPacket c = Ok (c', p)" using c'(1) by (simp add: nextPacket_def)
  have "fill sm d = Ok (d', False)"
    unfolding fill_def if_not_P [OF ae] c(1,2) prod.case option.case np res.case k'(1) sum.case Let_def if_not_P [OF nz] len by (rule d'(1))
  moreover have "playing sm ch pre src (S + n) todo (tl fs) d'"
    unfolding playing_def using d' l k'(4) c'(2,3) c(5) assms(1) by (auto simp: playing_def)
  ultimately show ?thesis using k'(2,3) d'(3,8) by blast
qed

lemma write_to_fill:
  assumes "pcm d = []"
  shows "write_to sm wr out n d = (case fill sm d of
      Panic \<Rightarrow> Panic
    | Err (d, e) \<Rightarrow> Err (d, out, n, e)
    | Ok (d, True) \<Rightarrow> Ok (d, out, n)
    | Ok (d, False) \<Rightarrow>
        if pcm d = [] then write_to sm wr out n d
        else (case wr out (pcm d) of
            (out, None) \<Rightarrow> write_to sm wr out (n + len (pcm d)) (d\<lparr>pcm := []\<rparr>)
          | (out, Some (m, e)) \<Rightarrow> bnd (slice_from (pcm d) m) (\<lambda>xs. Err (d\<lparr>pcm := xs\<rparr>, out, n + m, e))))"
proof (cases "fill sm d")
  case (Ok x)
  obtain d1 b where x: "x = (d1, b)" by (cases x)
  show ?thesis
  proof (cases b)
    case True
    then have "fill_until sm d = Ok (d1, True)" using assms Ok x by (subst fill_until.simps) simp
    then show ?thesis using Ok x True by (subst write_to.simps) simp
  next
    case False
    then have f: "fill_until sm d = fill_until sm d1" using assms Ok x by (subst fill_until.simps) simp
    show ?thesis
    proof (cases "pcm d1 = []")
      case True
      then show ?thesis using Ok x False f by (subst (1 2) write_to.simps) simp
    next
      case ne: False
      then have "fill_until sm d1 = Ok (d1, False)" by (subst fill_until.simps) simp
      then show ?thesis using Ok x False f ne by (subst write_to.simps) (simp split: prod.splits option.splits)
    qed
  qed
next
  case (Err x)
  then have "fill_until sm d = Err x" using assms by (subst fill_until.simps) simp
  then show ?thesis using Err by (subst write_to.simps) (simp split: prod.splits)
next
  case Panic
  then have "fill_until sm d = Panic" using assms by (subst fill_until.simps) simp
  then show ?thesis using Panic by (subst write_to.simps) simp
qed

lemma pcm_bytes_append [simp]: "pcm_bytes (xs @ ys) = pcm_bytes xs @ pcm_bytes ys"
  by (simp add: pcm_bytes_def)

lemma length_pcm_bytes [simp]: "length (pcm_bytes xs) = 2 * length xs"
  by (induction xs) (simp_all add: pcm_bytes_def)

lemma playing_pcm [simp]: "playing sm ch pre src S todo fs (d\<lparr>pcm := x\<rparr>) = playing sm ch pre src S todo fs d"
  by (simp add: playing_def window_def)

lemma cmax_upd: "cmax (c\<lparr>cbuf := x, cn := y\<rparr>) = cmax c"
  by simp

lemma playable_mono: "length (playable ch pre src xs) \<le> length (playable ch pre src (xs @ ys))"
  by (simp add: playable_def)

text \<open>The one-shot loop: all of the playable audio if it fits, the limit error otherwise.\<close>

lemma write_all_playable:
  fixes d :: "'d Decoder"
  shows "playing sm ch pre src S todo fs d \<Longrightarrow> 0 < ch \<Longrightarrow> S - pre \<le> src \<or> todo = [] \<Longrightarrow> S + sum_list (butlast (map snd todo)) - pre \<le> src \<or> todo = []
    \<Longrightarrow> pcm d = [] \<Longrightarrow> length D = ch * S \<Longrightarrow> cbuf c = pcm_bytes (playable ch pre src D) \<Longrightarrow> cn c = len (cbuf c)
    \<Longrightarrow> (cmax c > 0 \<longrightarrow> cn c \<le> cmax c) \<Longrightarrow> out = pcm_bytes (playable ch pre src (D @ concat fs))
    \<Longrightarrow> if cmax c > 0 \<and> len out > cmax c
       then \<exists>d' c' m. write_to sm capped_Write c n d = Err (d', c', m, ErrDecodeLimit (cmax c))
       else \<exists>d' c' m. write_to sm capped_Write c n d = Ok (d', c', m) \<and> cbuf c' = out"
proof (induction todo arbitrary: S fs d D c n)
  case Nil
  have fs: "fs = []" using Nil.prems(1) by (auto simp: playing_def)
  obtain d' where "fill sm d = Ok (d', True)" using fill_end [OF Nil.prems(1)] by blast
  then have "write_to sm capped_Write c n d = Ok (d', c, n)" using Nil.prems(5) by (subst write_to_fill) simp_all
  then show ?case using Nil.prems fs by auto
next
  case (Cons q todo)
  obtain p m where q: "q = (p, m)" by (cases q)
  have S: "S - pre \<le> src" using Cons.prems(3) by simp
  have next_S: "todo \<noteq> [] \<longrightarrow> S + m - pre \<le> src" "todo \<noteq> [] \<longrightarrow> S + m + sum_list (butlast (map snd todo)) - pre \<le> src"
    using Cons.prems(4) q by auto
  obtain d' f where d': "fs = f # tl fs" "length f = ch * m" "fill sm d = Ok (d', False)" "playing sm ch pre src (S + m) todo (tl fs) d'"
     "pcm d' = pcm_bytes (take (ch * (src - (S - pre))) (drop (ch * (pre - S)) f))"
    using fill_packet [OF Cons.prems(1) [unfolded q] Cons.prems(2) S next_S(1)] by blast
  have D: "length (D @ f) = ch * (S + m)" using Cons.prems(6) d'(2) by (simp add: distrib_left)
  have new: "pcm_bytes (playable ch pre src (D @ f)) = cbuf c @ pcm d'"
    using playable_append [OF Cons.prems(6)] Cons.prems(7) d'(5) by simp
  have all: "out = pcm_bytes (playable ch pre src ((D @ f) @ concat (tl fs)))" using Cons.prems(10) by (subst (asm) d'(1)) simp
  have small: "len (cbuf c @ pcm d') \<le> len out"
    unfolding new [symmetric] all using playable_mono [of ch pre src "D @ f" "concat (tl fs)"] by simp
  have nS: "S + m - pre \<le> src \<or> todo = []" "S + m + sum_list (butlast (map snd todo)) - pre \<le> src \<or> todo = []" using next_S by blast+
  show ?case
  proof (cases "pcm d' = []")
    case True
    then have w: "write_to sm capped_Write c n d = write_to sm capped_Write c n d'"
      using Cons.prems(5) d'(3) by (subst write_to_fill) simp_all
    have "cbuf c = pcm_bytes (playable ch pre src (D @ f))" using new True by simp
    from Cons.IH [OF d'(4) Cons.prems(2) nS True D this Cons.prems(8,9) all] show ?thesis unfolding w .
  next
    case ne: False
    show ?thesis
    proof (cases "cmax c > 0 \<and> cn c > cmax c - len (pcm d')")
      case True
      then have "write_to sm capped_Write c n d = Err (d'\<lparr>pcm := pcm d'\<rparr>, c, n + 0, ErrDecodeLimit (cmax c))"
        using Cons.prems(5) d'(3) ne by (subst write_to_fill) (simp_all add: capped_Write_def slice_from_def slice_def)
      moreover have "len out > cmax c" using True small Cons.prems(8) by simp
      ultimately show ?thesis using True by auto
    next
      case False
      let ?c = "c\<lparr>cbuf := cbuf c @ pcm d', cn := cn c + len (pcm d')\<rparr>"
      have w: "write_to sm capped_Write c n d = write_to sm capped_Write ?c (n + len (pcm d')) (d'\<lparr>pcm := []\<rparr>)"
        using False Cons.prems(5) d'(3) ne by (subst write_to_fill) (auto simp: capped_Write_def)
      have p: "playing sm ch pre src (S + m) todo (tl fs) (d'\<lparr>pcm := []\<rparr>)" using d'(4) by simp
      have b: "cbuf ?c = pcm_bytes (playable ch pre src (D @ f))" "cn ?c = len (cbuf ?c)" "cmax ?c > 0 \<longrightarrow> cn ?c \<le> cmax ?c"
        using new Cons.prems(8) False by auto
      have e: "pcm (d'\<lparr>pcm := []\<rparr>) = []" by simp
      from Cons.IH [OF p Cons.prems(2) nS e D b all, of "n + len (pcm d')"]
      have "if cmax c > 0 \<and> len out > cmax c
         then \<exists>d2 c' m. write_to sm capped_Write ?c (n + len (pcm d')) (d'\<lparr>pcm := []\<rparr>) = Err (d2, c', m, ErrDecodeLimit (cmax c))
         else \<exists>d2 c' m. write_to sm capped_Write ?c (n + len (pcm d')) (d'\<lparr>pcm := []\<rparr>) = Ok (d2, c', m) \<and> cbuf c' = out"
        by (simp only: cappedWriter.select_convs cappedWriter.update_convs cappedWriter.simps cmax_upd)
      then show ?thesis unfolding w .
    qed
  qed
qed

definition durs :: "(bytes \<times> nat) list \<Rightarrow> (bytes \<times> int) list" where
  "durs ps = map (\<lambda>(p, n). (p, int n)) ps"

lemma durs_simps [simp]: "map fst (durs ps) = map fst ps" "map snd (durs ps) = map int (map snd ps)" "durs ps = [] \<longleftrightarrow> ps = []"
  by (auto simp: durs_def case_prod_beta)

lemma int_sum: "sum_list (map int ns) = int (sum_list ns)"
  by (induction ns) simp_all

lemma butlast_int: "butlast (map int ns) = map int (butlast ns)"
  by (simp add: map_butlast)

definition info_of :: "opusHead \<Rightarrow> Info" where
  "info_of h = \<lparr>i_Channels = uint (h_channels h), i_InputSampleRate = h_inputSampleRate h, i_OutputSampleRate = 48000,
     i_PreSkip = uint (h_preSkip h), i_OutputGain = h_outputGain h\<rparr>"

lemma decode_ok:
  fixes sm :: "'d dseam"
  assumes "head_ok h" "tags_ok tg" "length (tags_marshal tg) < 61440" "opus_stream ser h tg (durs ps) (int src) P"
    "\<forall>p\<in>set ps. len (fst p) \<le> audioPacketLimit h" "ps \<noteq> []" "sum_list (map snd ps) < 2 ^ 63" "src < 2 ^ 62"
    "sum_list (butlast (map snd ps)) \<le> unat (h_preSkip h) + src"
    "new_dec sm h = Inr k" "decodes sm (unat (h_channels h)) k ps fs"
    "out = pcm_bytes (playable (unat (h_channels h)) (unat (h_preSkip h)) src (concat fs))"
  shows "DecodeInterleavedLimit sm \<lparr>rest = concat (map page_bytes P), src_err = EOF\<rparr> m
    = (if m > 0 \<and> len out > m then Err (Some (info_of h), ErrDecodeLimit m) else Ok (out, info_of h))"
proof -
  let ?r = "\<lparr>rest = concat (map page_bytes P), src_err = EOF\<rparr>" and ?pre = "unat (h_preSkip h)" and ?ch = "unat (h_channels h)"
  have pre: "uint (h_preSkip h) = int ?pre" and ch: "uint (h_channels h) = int ?ch" by simp_all
  have dok: "durations_ok (map snd (durs ps)) (int src)"
  proof -
    have "sum_list (map snd (durs ps)) = int (sum_list (map snd ps))" unfolding durs_simps by (rule int_sum)
    then have s: "sum_list (map snd (durs ps)) < 2 ^ 63" using assms(7) by simp
    have "list_all (\<lambda>d. 0 \<le> d) (map snd (durs ps))" by (simp add: list_all_iff)
    then show ?thesis using s assms(8) by (simp add: durations_ok_def del: durs_simps)
  qed
  have lim: "\<forall>p\<in>set (durs ps). len (fst p) \<le> audioPacketLimit h" using assms(5) by (auto simp: durs_def)
  obtain cr R where cr: "newContainerReader ?r = Ok cr" "head cr = h"
      "reading_inv ser R (map fst (durs ps)) (last (0 # 0 # packet_granules (uint (h_preSkip h)) (int src) (map snd (durs ps)))) cr"
    using open_reader [OF assms(1-4) dok lim] by blast
  have b: "sum_list (butlast (map int (map snd ps))) = int (sum_list (butlast (map snd ps)))" by (simp only: butlast_int int_sum)
  have ne: "map int (map snd ps) \<noteq> []" using assms(6) by simp
  have le: "int (sum_list (butlast (map snd ps))) \<le> int ?pre + int src" using assms(9) by linarith
  have "last (0 # 0 # packet_granules (uint (h_preSkip h)) (int src) (map snd (durs ps))) = int (?pre + src)"
    unfolding packet_granules_def durs_simps b if_not_P [OF ne] pre using le by (simp add: max_absorb1)
  with cr(3) have inv: "reading_inv ser R (map fst ps) (int (?pre + src)) cr" by simp
  have c0: "0 < ?ch" using assms(1) by (simp add: head_ok_def unat_gt_0)
  obtain d :: "'d Decoder" where d: "NewDecoder sm ?r = Ok d" "info d = info_of h" "pcm d = []" "playing sm ?ch ?pre src 0 ps fs d" "d_err d = None" "dec d \<noteq> None"
  proof
    let ?d = "zero_decoder\<lparr>tagsBad := qi cr < length (queue cr) \<or> partial cr \<noteq> [], skipTo := 0, atEnd := False, inSequence := True,
       d_err := None, cr := Some cr, dec := Some k, preSkipLeft := uint (h_preSkip h), delivered := 0, d_limit := -1, info := info_of h\<rparr>"
    show "NewDecoder sm ?r = Ok ?d"
      by (simp add: NewDecoder_def dec_init_def cr(1,2) assms(10) info_of_def)
    show "info ?d = info_of h" "pcm ?d = []" "d_err ?d = None" "dec ?d \<noteq> None" by (simp_all add: zero_decoder_def)
    show "playing sm ?ch ?pre src 0 ps fs ?d"
      unfolding playing_def using inv assms(11) cr(2) by (simp add: window_def info_of_def zero_decoder_def) blast
  qed
  let ?c = "\<lparr>cbuf = [], cn = 0, cmax = m\<rparr>"
  have w: "if cmax ?c > 0 \<and> len out > cmax ?c
       then \<exists>d' c' n. write_to sm capped_Write ?c 0 d = Err (d', c', n, ErrDecodeLimit (cmax ?c))
       else \<exists>d' c' n. write_to sm capped_Write ?c 0 d = Ok (d', c', n) \<and> cbuf c' = out"
  proof (rule write_all_playable [OF d(4) c0 _ _ d(3), of "[]"])
    show "0 + sum_list (butlast (map snd ps)) - ?pre \<le> src \<or> ps = []" using assms(9) by linarith
    show "out = pcm_bytes (playable ?ch ?pre src ([] @ concat fs))" by (simp add: assms(12))
  qed (simp_all add: playable_def pcm_bytes_def)
  have wt: "dec_WriteTo sm capped_Write ?c d = write_to sm capped_Write ?c 0 d" using d(5,6) by (auto simp: dec_WriteTo_def)
  show ?thesis
  proof (cases "m > 0 \<and> len out > m")
    case True
    then obtain d' c' n where "write_to sm capped_Write ?c 0 d = Err (d', c', n, ErrDecodeLimit m)" using w by auto
    then show ?thesis using True by (simp add: DecodeInterleavedLimit_def d(1,2) wt)
  next
    case False
    then obtain d' c' n where "write_to sm capped_Write ?c 0 d = Ok (d', c', n)" "cbuf c' = out"
      using w unfolding cappedWriter.select_convs if_not_P [OF False] by blast
    then show ?thesis unfolding if_not_P [OF False] by (simp add: DecodeInterleavedLimit_def d(1,2) wt)
  qed
qed

section \<open>Properties\<close>

text \<open>C8: One-shot decoding of any valid stream returns exactly the codec's audio with the pre-skip dropped from
  the front and cut to the stream's playable length, or, when that is larger than the ceiling, the limit error (a
  ceiling of zero or less is none).  The samples are the codec's, whatever output gain the identification header
  \<open>h\<close> carries: the gain is reported in \<^verbatim>\<open>Info\<close> and applied nowhere, although the comments on
  \<^verbatim>\<open>Info.OutputGain\<close> and \<^verbatim>\<open>Read\<close> say that it is applied on decode.\<close>

theorem decode_sample_exact:
  fixes sm :: "'d dseam"
  assumes "head_ok h" "tags_ok tg" "length (tags_marshal tg) < 61440" "opus_stream ser h tg (durs ps) (int src) P"
    "\<forall>p\<in>set ps. len (fst p) \<le> audioPacketLimit h" "ps \<noteq> []" "sum_list (map snd ps) < 2 ^ 63" "src < 2 ^ 62"
    "sum_list (butlast (map snd ps)) \<le> unat (h_preSkip h) + src"
    "new_dec sm h = Inr k" "decodes sm (unat (h_channels h)) k ps fs"
    "out = pcm_bytes (playable (unat (h_channels h)) (unat (h_preSkip h)) src (concat fs))"
  shows "DecodeInterleavedLimit sm \<lparr>rest = concat (map page_bytes P), src_err = EOF\<rparr> m
    = (if m > 0 \<and> len out > m then Err (Some (info_of h), ErrDecodeLimit m) else Ok (out, info_of h))"
  using assms by (rule decode_ok)


lemma playable_length: "length xs = ch * S \<Longrightarrow> pre + src \<le> S \<Longrightarrow> length (playable ch pre src xs) = ch * src"
proof -
  assume a: "length xs = ch * S" "pre + src \<le> S"
  have "src \<le> S - pre" using a(2) by linarith
  then have "ch * src \<le> ch * (S - pre)" by (rule mult_le_mono2)
  then show ?thesis using a(1) by (simp add: playable_def diff_mult_distrib2 min_absorb2 min_def)
qed

lemma decodes_length: "decodes sm ch k ps fs \<Longrightarrow> length (concat fs) = ch * sum_list (map snd ps)"
proof (induction ps arbitrary: k fs)
  case (Cons q ps)
  then show ?case by (cases q; cases fs) (fastforce simp: algebra_simps split: prod.splits res.splits)+
qed simp

text \<open>The frames of a source cover its samples and the pre-skip, and all but the last do not; nothing wraps.\<close>

lemma source_sizes:
  fixes c :: Config and s :: int
  defines "N \<equiv> frames_needed c 312 s" and "F \<equiv> nat (frame_48k c)" and "S \<equiv> nat (src_48k c s)"
  assumes "valid c" "0 \<le> s" "s < 2 ^ 39"
  shows "0 < N" "int S = src_48k c s" "312 + S \<le> N * F" "(N - 1) * F \<le> 312 + S" "N * F < 2 ^ 63" "S < 2 ^ 62"
proof -
  note f = frame_facts [OF assms(4)]
  note b = frames_needed_bounds [OF assms(4) _ assms(5), of 312]
  obtain q where q: "0 < q" "q \<le> 6" "src_48k c s = s * q" using src_48k_facts [OF assms(4,5)] by metis
  have T: "0 \<le> src_48k c s" "src_48k c s < 2 ^ 42" using q assms(5,6) mult_mono [of s "2 ^ 39" q 6] by simp_all
  have F: "int F = frame_48k c" using f by (simp add: F_def)
  show SI: "int S = src_48k c s" using T by (simp add: S_def)
  show n: "0 < N" using b(1) by (simp add: N_def)
  show "312 + S \<le> N * F"
  proof -
    have "312 + int S \<le> int N * int F" unfolding F SI N_def using b(2) by simp
    then show ?thesis by (metis of_nat_add of_nat_le_iff of_nat_mult of_nat_numeral)
  qed
  show less: "(N - 1) * F \<le> 312 + S"
  proof (cases "N = 1")
    case False
    then have "(int N - 1) * int F < 312 + int S" unfolding F SI N_def using b(3) by simp
    moreover have "int ((N - 1) * F) = (int N - 1) * int F" using n by (simp add: of_nat_diff)
    ultimately show ?thesis by linarith
  qed simp
  have "int N * int F = int ((N - 1) * F) + int F" using n by (simp add: of_nat_diff algebra_simps)
  also have "\<dots> \<le> 312 + int S + 5760" using less f(5) F by linarith
  finally have "int N * int F \<le> 312 + int S + 5760" .
  moreover have "(2 :: int) ^ 42 + 6072 \<le> 2 ^ 43" "(2 :: int) ^ 42 < 2 ^ 62" by simp_all
  ultimately have "int N * int F \<le> 2 ^ 43" "int S < 2 ^ 62" using T(2) SI by linarith+
  then have "int (N * F) < 2 ^ 63" "int S < 2 ^ 62" unfolding of_nat_mult by (simp_all add: le_less_trans)
  then show "N * F < 2 ^ 63" "S < 2 ^ 62" by (metis of_nat_less_iff of_nat_numeral of_nat_power)+
qed

text \<open>What the decoder makes of the stream of an encoder.\<close>

lemma encoded_stream_decodes:
  fixes dsm :: "'d dseam"
  defines "fs' \<equiv> \<lambda>c s bs. pad_frames (frame_size c) (frames_needed c 312 s) (samples_of bs)"
  assumes "valid c" "opus_ok pk c o0 good" "tags_ok (tags_of c)" "length (tags_marshal (tags_of c)) < 61440"
    "length bs < 2 ^ 39" "s = len bs div (2 * Channels c)" "new_dec dsm (head_of c 312) = Inr k"
    "decodes dsm (nat (Channels c)) k (map (\<lambda>p. (p, nat (frame_48k c))) (fst (encode_seq (opus_seam pk) (adapter c o0) (fs' c s bs)))) fs"
    "encoded_stream ser (opus_seam pk) c 312 (adapter c o0) bs P"
  shows "DecodeInterleavedLimit dsm \<lparr>rest = concat (map page_bytes P), src_err = EOF\<rparr> 0
      = Ok (pcm_bytes (playable (nat (Channels c)) 312 (nat (src_48k c s)) (concat fs)), info_of (head_of c 312))"
    "length (playable (nat (Channels c)) 312 (nat (src_48k c s)) (concat fs)) = nat (Channels c) * nat (src_48k c s)"
proof -
  let ?N = "frames_needed c 312 s" and ?F = "nat (frame_48k c)" and ?ch = "nat (Channels c)" and ?S = "nat (src_48k c s)"
  let ?pk = "fst (encode_seq (opus_seam pk) (adapter c o0) (fs' c s bs))"
  let ?ps = "map (\<lambda>p. (p, ?F)) ?pk"
  have g: "good (ofe_enc (adapter c o0)) \<and> adapter c o0 = adapter c (ofe_enc (adapter c o0))"
    using assms(3) by (simp add: opus_ok_def adapter_def)
  have s0: "0 \<le> s" using frame_facts(11) [OF assms(2)] unfolding assms(7) by (simp add: pos_imp_zdiv_nonneg_iff)
  have "s \<le> len bs" using valid_cases(2) [OF assms(2)] unfolding assms(7) by auto
  moreover have "len bs < 2 ^ 39" using assms(6) by simp
  ultimately have "s < 2 ^ 39" by linarith
  note z = source_sizes [OF assms(2) s0 this]
  have np: "length ?pk = ?N" "\<forall>p\<in>set ?pk. len p \<le> maxPacketBytes"
    using encode_seq_ok [OF adapter_codec_ok [OF assms(2,3)] g, of "fs' c s bs"] length_pad_frame unfolding fs'_def by auto
  have dp: "durs ?ps = packets (opus_seam pk) c (adapter c o0) (fs' c s bs)"
    using frame_facts [OF assms(2)] by (simp add: durs_def packets_def)
  have hc: "unat (h_channels (head_of c 312)) = ?ch" "unat (h_preSkip (head_of c 312)) = 312"
    using valid_cases(2) [OF assms(2)] by (auto simp: head_of_def)
  have st: "opus_stream ser (head_of c 312) (tags_of c) (durs ?ps) (int ?S) P"
    using assms(10) unfolding dp z(2) by (simp add: encoded_stream_def assms(7) Let_def fs'_def)
  have ho: "head_ok (head_of c 312)" using valid_cases(2) [OF assms(2)]
    by (auto simp: head_ok_def head_of_def opusHeadVersion_def)
  have lim: "\<forall>p\<in>set ?ps. len (fst p) \<le> audioPacketLimit (head_of c 312)"
    using np(2) audioPacketLimit_ge [of "head_of c 312"] by (auto simp: maxPacketBytes_def)
  have sm: "map snd ?ps = replicate ?N ?F" using np(1) by (simp add: comp_def map_replicate_const)
  have sum: "sum_list (map snd ?ps) < 2 ^ 63" using z(5) unfolding sm by (simp only: sum_list_replicate of_nat_id)
  have dl: "sum_list (butlast (map snd ?ps)) \<le> unat (h_preSkip (head_of c 312)) + ?S"
    using z(4) unfolding sm hc(2) by (simp add: butlast_conv_take take_replicate sum_list_replicate)
  have ne: "?ps \<noteq> []" using np(1) z(1) by auto
  have dc: "decodes dsm (unat (h_channels (head_of c 312))) k ?ps fs" unfolding hc(1) by (rule assms(9))
  show "DecodeInterleavedLimit dsm \<lparr>rest = concat (map page_bytes P), src_err = EOF\<rparr> 0
      = Ok (pcm_bytes (playable ?ch 312 ?S (concat fs)), info_of (head_of c 312))"
    using decode_ok [OF ho assms(4,5) st lim ne sum z(6) dl assms(8) dc refl, of 0] unfolding hc by simp
  have "length (concat fs) = ?ch * (?N * ?F)"
    using decodes_length [OF assms(9)] unfolding sm by (simp add: sum_list_replicate)
  then show "length (playable ?ch 312 ?S (concat fs)) = ?ch * ?S" using playable_length z(3) by blast
qed

text \<open>C3: Encoding and decoding preserve the length exactly: for every PCM source, cut into writes in any way,
  the file the encoder writes decodes without error, and the output is the decoder's audio for the
  encoder's packets without its first 312 samples, cut to the source's length at 48 kHz (so it has
  that many samples for each channel, whatever the frame duration, and none for an empty source).\<close>

theorem encode_decode_exact_length:
  fixes dsm :: "'d dseam"
  assumes "appends wr out" "out o1 = []" "valid c" "opus_ok pk c o0 good" "tags_ok (tags_of c)" "length (tags_marshal (tags_of c)) < 61440"
    "length (concat chunks) < 2 ^ 39" "s = len (concat chunks) div (2 * Channels c)" "len (concat chunks) mod (2 * Channels c) = 0"
    "new_dec dsm (head_of c 312) = Inr k"
    "decodes dsm (nat (Channels c)) k (map (\<lambda>p. (p, nat (frame_48k c)))
       (fst (encode_seq (opus_seam pk) (adapter c o0) (pad_frames (frame_size c) (frames_needed c 312 s) (samples_of (concat chunks)))))) fs"
  shows "\<exists>e1 e2 e3 cw. enc_reset wr (opus_seam pk) ser o1 c e = Ok e1
     \<and> write_chunks wr (opus_seam pk) chunks e1 = Ok (e2, len (concat chunks))
     \<and> enc_Close wr (opus_seam pk) e2 = Some (Ok e3) \<and> cwr e3 = Some cw
     \<and> DecodeInterleavedLimit dsm \<lparr>rest = out (w (sw cw)), src_err = EOF\<rparr> 0
       = Ok (pcm_bytes (playable (nat (Channels c)) 312 (nat (src_48k c s)) (concat fs)), info_of (head_of c 312))
     \<and> length (playable (nat (Channels c)) 312 (nat (src_48k c s)) (concat fs)) = nat (Channels c) * nat (src_48k c s)"
proof -
  note n = adapter_new [OF assms(3,4)]
  have g: "good (ofe_enc (adapter c o0)) \<and> adapter c o0 = adapter c (ofe_enc (adapter c o0))"
    using assms(4) by (simp add: opus_ok_def adapter_def)
  have l: "(312 :: int) \<le> frame_48k c" using frame_facts(4) [OF assms(3)] by linarith
  have t: "length (tags_marshal (tags_of c)) \<le> 65024" using assms(6) by linarith
  obtain e1 e2 e3 cw P where e: "enc_reset wr (opus_seam pk) ser o1 c e = Ok e1"
     "write_chunks wr (opus_seam pk) chunks e1 = Ok (e2, len (concat chunks))"
     "enc_Close wr (opus_seam pk) e2 = Some (Ok e3)" "cwr e3 = Some cw"
     "out (w (sw cw)) = concat (map page_bytes P)" "encoded_stream ser (opus_seam pk) c 312 (adapter c o0) (concat chunks) P"
    using encoder_ok [OF assms(1,3) adapter_codec_ok [OF assms(3,4)] n(1) g n(2) _ l t assms(7,9), where ?o0.0 = o1 and ser = ser and e = e] assms(2) by auto
  from e(1-4) encoded_stream_decodes [OF assms(3-8,10,11) e(6)] show ?thesis unfolding e(5) [symmetric] by blast
qed

text \<open>A decoder of 20 ms frames.\<close>

definition demo_dseam :: "unit dseam" where
  "demo_dseam = \<lparr>new_dec = (\<lambda>h. Inr ()), dec_frame = (\<lambda>k p. (k, Ok (replicate 960 (ucast (p ! 1)))))\<rparr>"

lemma decode_sample_exact_witness:
  "\<exists>P. DecodeInterleavedLimit demo_dseam \<lparr>rest = concat (map page_bytes P), src_err = EOF\<rparr> 4000
    = (if (4000 :: int) > 0 \<and> len (pcm_bytes (playable 1 312 1500 (replicate 960 2 @ replicate 960 3))) > 4000
       then Err (Some (info_of demo_head), ErrDecodeLimit 4000)
       else Ok (pcm_bytes (playable 1 312 1500 (replicate 960 2 @ replicate 960 3)), info_of demo_head))"
proof -
  let ?ps = "[([1, 2], 960), ([1, 3], 960)] :: (bytes \<times> nat) list"
  obtain P where P: "opus_stream 7 demo_head demo_tags (durs ?ps) (int 1500) P"
    using write_stream_ok [OF buf_appends, of demo_tags "durs ?ps" "int 1500" "[]" 7 demo_head]
    by (auto simp: demo_tags_short durations_ok_def durs_def)
  have hd: "unat (h_channels demo_head) = 1" "unat (h_preSkip demo_head) = 312" by (simp_all add: demo_head_def)
  have "DecodeInterleavedLimit demo_dseam \<lparr>rest = concat (map page_bytes P), src_err = EOF\<rparr> 4000
    = (if (4000 :: int) > 0 \<and> len (pcm_bytes (playable 1 312 1500 (replicate 960 2 @ replicate 960 3))) > 4000
       then Err (Some (info_of demo_head), ErrDecodeLimit 4000)
       else Ok (pcm_bytes (playable 1 312 1500 (replicate 960 2 @ replicate 960 3)), info_of demo_head))"
  proof (rule decode_sample_exact [OF _ _ _ P, where k = "()" and fs = "[replicate 960 2, replicate 960 3]"])
    show "head_ok demo_head" "tags_ok demo_tags" by (simp_all add: demo_head_def demo_tags_def head_ok_def mappingFamily0_def tags_ok_def)
    show "\<forall>p\<in>set ?ps. len (fst p) \<le> audioPacketLimit demo_head" using audioPacketLimit_ge [of demo_head] by simp
  qed (simp_all add: demo_tags_short audioPacketLimit_def reader_consts hd demo_dseam_def)
  then show ?thesis by blast
qed

lemma encode_decode_exact_length_witness:
  "\<exists>e1 e2 e3 cw. enc_reset buf_write (opus_seam demo_pkg) 7 [] demo_config (new_encoder buf_write []) = Ok e1
     \<and> write_chunks buf_write (opus_seam demo_pkg) [[5], [0]] e1 = Ok (e2, len (concat [[5 :: u8], [0]]))
     \<and> enc_Close buf_write (opus_seam demo_pkg) e2 = Some (Ok e3) \<and> cwr e3 = Some cw
     \<and> DecodeInterleavedLimit demo_dseam \<lparr>rest = id (w (sw cw)), src_err = EOF\<rparr> 0
       = Ok (pcm_bytes (playable (nat (Channels demo_config)) 312 (nat (src_48k demo_config 1)) (concat [replicate 960 5])), info_of (head_of demo_config 312))
     \<and> length (playable (nat (Channels demo_config)) 312 (nat (src_48k demo_config 1)) (concat [replicate 960 5]))
       = nat (Channels demo_config) * nat (src_48k demo_config 1)"
proof -
  have F: "frame_48k demo_config = 960" "src_48k demo_config 1 = 1" "frame_size demo_config = 960"
    by (simp_all add: frame_48k_def frameDurationMS_def defaultFrameDurationMS_def src_48k_def sampleRate48k_def demo_config_def
        sdiv_nonneg frame_size_def frame_len_def)
  have n: "frames_needed demo_config 312 1 = 1" by (simp add: frames_needed_def F)
  have s: "samples_of [5, 0] = [5]" by (simp add: get16_def)
  have e: "fst (encode_seq (opus_seam demo_pkg) (adapter demo_config ()) (pad_frames 960 1 [5])) = [[252, 5, 0]]"
  proof -
    have "replicate 959 (0 :: u16) = 0 # replicate 958 0" by (metis eval_nat_numeral(3) replicate_Suc semiring_norm(26,27,28))
    then have p: "pad_frames 960 1 [5] = [5 # 0 # replicate 958 0]" by simp
    show ?thesis unfolding p by (simp add: opus_seam_def ofe_encodeFrame_def demo_pkg_def adapter_def maxPacketBytes_def)
  qed
  show ?thesis
  proof (rule encode_decode_exact_length [OF buf_appends _ demo_ok(1,2), where k = "()"])
    show "tags_ok (tags_of demo_config)"
      by (simp add: tags_ok_def tags_of_def demo_config_def vendorString_def defaultVendor_def libVersion_def)
    show "decodes demo_dseam (nat (Channels demo_config)) () (map (\<lambda>p. (p, nat (frame_48k demo_config)))
       (fst (encode_seq (opus_seam demo_pkg) (adapter demo_config ()) (pad_frames (frame_size demo_config) (frames_needed demo_config 312 1)
         (samples_of (concat [[5], [0]])))))) [replicate 960 5]"
      unfolding n F concat.simps append.simps s e by (simp add: demo_dseam_def demo_channels)
    show "new_dec demo_dseam (head_of demo_config 312) = Inr ()" by (simp add: demo_dseam_def)
    show "length (tags_marshal (tags_of demo_config)) < 61440" by (simp add: demo_ok(3))
    show "1 = len (concat [[5 :: u8], [0]]) div (2 * Channels demo_config)" by (simp add: demo_channels)
    show "length (concat [[5 :: u8], [0]]) < 2 ^ 39" by simp
    show "len (concat [[5 :: u8], [0]]) mod (2 * Channels demo_config) = 0" by (simp add: demo_channels)
    show "id [] = []" by simp
  qed
qed

end
