(* ===== verification/Silkmath.thy ===== *)
theory Silkmath
  imports Fixedmath
begin

text \<open>
  The arithmetic macros of the SILK decoder (\<^verbatim>\<open>internal/silkmath\<close>: \<^verbatim>\<open>macros.go\<close>, \<^verbatim>\<open>inlines.go\<close>).
  The conventions are those of \<^verbatim>\<open>Fixedmath\<close>: words read with \<open>sint\<close>, \<open>ucast\<close> where a conversion narrows
  or changes the sign, \<open>scast\<close> where it widens, \<open>signed_drop_bit\<close> for \<^verbatim>\<open>>>\<close>.  Where the count of a shift is
  computed it is an \<open>int\<close>, and a negative count is a \<open>Panic\<close>, as in Go (\<open>lshift\<close>, \<open>rshift\<close>); where it is a
  constant of the call it is a \<open>nat\<close>.
\<close>

type_synonym i8 = "8 word"

section \<open>Limits\<close>

definition silk_int64_MAX :: i64 where "silk_int64_MAX = 0x7FFFFFFFFFFFFFFF"
definition silk_int64_MIN :: i64 where "silk_int64_MIN = - 0x7FFFFFFFFFFFFFFF - 1"
definition silk_int32_MAX :: i32 where "silk_int32_MAX = 0x7FFFFFFF"
definition silk_int32_MIN :: i32 where "silk_int32_MIN = - 0x7FFFFFFF - 1"
definition silk_int16_MAX :: i16 where "silk_int16_MAX = 0x7FFF"
definition silk_int16_MIN :: i16 where "silk_int16_MIN = - 0x8000"
definition silk_int8_MAX :: i8 where "silk_int8_MAX = 0x7F"
definition silk_int8_MIN :: i8 where "silk_int8_MIN = - 0x80"

section \<open>Multiplication\<close>

definition low16 :: "i32 \<Rightarrow> i16" where "low16 a = ucast a"

definition Silk_SMULWB :: "i32 \<Rightarrow> i32 \<Rightarrow> i32" where
  "Silk_SMULWB a32 b32 = ucast (signed_drop_bit 16 (scast a32 * scast (low16 b32)) :: i64)"

definition Silk_SMLAWB :: "i32 \<Rightarrow> i32 \<Rightarrow> i32 \<Rightarrow> i32" where
  "Silk_SMLAWB a32 b32 c32 = ucast (scast a32 + signed_drop_bit 16 (scast b32 * scast (low16 c32)) :: i64)"

definition Silk_SMULWT :: "i32 \<Rightarrow> i32 \<Rightarrow> i32" where
  "Silk_SMULWT a32 b32 = ucast (signed_drop_bit 16 (scast a32 * scast (signed_drop_bit 16 b32)) :: i64)"

definition Silk_SMLAWT :: "i32 \<Rightarrow> i32 \<Rightarrow> i32 \<Rightarrow> i32" where
  "Silk_SMLAWT a32 b32 c32 = ucast (scast a32 + signed_drop_bit 16 (scast b32 * signed_drop_bit 16 (scast c32)) :: i64)"

definition Silk_SMULBB :: "i32 \<Rightarrow> i32 \<Rightarrow> i32" where
  "Silk_SMULBB a32 b32 = scast (low16 a32) * scast (low16 b32)"

definition Silk_SMLABB :: "i32 \<Rightarrow> i32 \<Rightarrow> i32 \<Rightarrow> i32" where
  "Silk_SMLABB a32 b32 c32 = a32 + scast (low16 b32) * scast (low16 c32)"

definition Silk_SMULBT :: "i32 \<Rightarrow> i32 \<Rightarrow> i32" where
  "Silk_SMULBT a32 b32 = scast (low16 a32) * signed_drop_bit 16 b32"

definition Silk_SMLABT :: "i32 \<Rightarrow> i32 \<Rightarrow> i32 \<Rightarrow> i32" where
  "Silk_SMLABT a32 b32 c32 = a32 + scast (low16 b32) * signed_drop_bit 16 c32"

definition Silk_ADD64 :: "i64 \<Rightarrow> i64 \<Rightarrow> i64" where "Silk_ADD64 a b = a + b"
definition Silk_ADD32 :: "i32 \<Rightarrow> i32 \<Rightarrow> i32" where "Silk_ADD32 a b = a + b"

definition Silk_SMLAL :: "i64 \<Rightarrow> i32 \<Rightarrow> i32 \<Rightarrow> i64" where
  "Silk_SMLAL a64 b32 c32 = Silk_ADD64 a64 (scast b32 * scast c32)"

definition Silk_SMULWW :: "i32 \<Rightarrow> i32 \<Rightarrow> i32" where
  "Silk_SMULWW a32 b32 = ucast (signed_drop_bit 16 (scast a32 * scast b32) :: i64)"

definition Silk_SMLAWW :: "i32 \<Rightarrow> i32 \<Rightarrow> i32 \<Rightarrow> i32" where
  "Silk_SMLAWW a32 b32 c32 = ucast (scast a32 + signed_drop_bit 16 (scast b32 * scast c32) :: i64)"

definition Silk_SMULTT :: "i32 \<Rightarrow> i32 \<Rightarrow> i32" where
  "Silk_SMULTT a32 b32 = signed_drop_bit 16 a32 * signed_drop_bit 16 b32"

definition Silk_SMLATT :: "i32 \<Rightarrow> i32 \<Rightarrow> i32 \<Rightarrow> i32" where
  "Silk_SMLATT a32 b32 c32 = Silk_ADD32 a32 (signed_drop_bit 16 b32 * signed_drop_bit 16 c32)"

definition Silk_SMLALBB :: "i64 \<Rightarrow> i16 \<Rightarrow> i16 \<Rightarrow> i64" where
  "Silk_SMLALBB a64 b16 c16 = Silk_ADD64 a64 (scast (scast b16 * scast c16 :: i32))"

definition Silk_SMULL :: "i32 \<Rightarrow> i32 \<Rightarrow> i64" where "Silk_SMULL a32 b32 = scast a32 * scast b32"
definition Silk_RSHIFT64 :: "i64 \<Rightarrow> nat \<Rightarrow> i64" where "Silk_RSHIFT64 a shift = signed_drop_bit shift a"
definition Silk_SMMUL :: "i32 \<Rightarrow> i32 \<Rightarrow> i32" where "Silk_SMMUL a32 b32 = ucast (Silk_RSHIFT64 (Silk_SMULL a32 b32) 32)"
definition Silk_MUL :: "i32 \<Rightarrow> i32 \<Rightarrow> i32" where "Silk_MUL a32 b32 = a32 * b32"
definition Silk_MUL_uint :: "u32 \<Rightarrow> u32 \<Rightarrow> u32" where "Silk_MUL_uint a32 b32 = a32 * b32"
definition Silk_MLA :: "i32 \<Rightarrow> i32 \<Rightarrow> i32 \<Rightarrow> i32" where "Silk_MLA a32 b32 c32 = Silk_ADD32 a32 (b32 * c32)"
definition Silk_MLA_uint :: "u32 \<Rightarrow> u32 \<Rightarrow> u32 \<Rightarrow> u32" where "Silk_MLA_uint a32 b32 c32 = a32 + b32 * c32"
definition Silk_ADD32_ovflw :: "i32 \<Rightarrow> i32 \<Rightarrow> i32" where "Silk_ADD32_ovflw a b = a + b"
definition Silk_SUB32_ovflw :: "i32 \<Rightarrow> i32 \<Rightarrow> i32" where "Silk_SUB32_ovflw a b = a - b"
definition Silk_MLA_ovflw :: "i32 \<Rightarrow> i32 \<Rightarrow> i32 \<Rightarrow> i32" where "Silk_MLA_ovflw a32 b32 c32 = Silk_ADD32_ovflw a32 (b32 * c32)"

definition Silk_SMLABB_ovflw :: "i32 \<Rightarrow> i32 \<Rightarrow> i32 \<Rightarrow> i32" where
  "Silk_SMLABB_ovflw a32 b32 c32 = Silk_ADD32_ovflw a32 (scast (low16 b32) * scast (low16 c32))"

section \<open>Addition and saturation\<close>

definition Silk_ADD16 :: "i16 \<Rightarrow> i16 \<Rightarrow> i32" where "Silk_ADD16 a b = scast a + scast b"
definition Silk_SUB16 :: "i16 \<Rightarrow> i16 \<Rightarrow> i32" where "Silk_SUB16 a b = scast a - scast b"
definition Silk_SUB32 :: "i32 \<Rightarrow> i32 \<Rightarrow> i32" where "Silk_SUB32 a b = a - b"
definition Silk_SUB64 :: "i64 \<Rightarrow> i64 \<Rightarrow> i64" where "Silk_SUB64 a b = a - b"

definition Silk_SAT8 :: "i32 \<Rightarrow> i32" where
  "Silk_SAT8 a = (if scast silk_int8_MAX <s a then scast silk_int8_MAX else if a <s scast silk_int8_MIN then scast silk_int8_MIN else a)"

definition Silk_SAT16 :: "i32 \<Rightarrow> i32" where
  "Silk_SAT16 a = (if scast silk_int16_MAX <s a then scast silk_int16_MAX else if a <s scast silk_int16_MIN then scast silk_int16_MIN else a)"

definition Silk_SAT32 :: "i32 \<Rightarrow> i32" where "Silk_SAT32 a = a"

definition Silk_ADD_SAT16 :: "i16 \<Rightarrow> i16 \<Rightarrow> i16" where
  "Silk_ADD_SAT16 a b = ucast (Silk_SAT16 (Silk_ADD32 (scast a) (scast b)))"

definition Silk_SUB_SAT16 :: "i16 \<Rightarrow> i16 \<Rightarrow> i16" where
  "Silk_SUB_SAT16 a b = ucast (Silk_SAT16 (Silk_SUB32 (scast a) (scast b)))"

definition Silk_ADD_SAT32 :: "i32 \<Rightarrow> i32 \<Rightarrow> i32" where
  "Silk_ADD_SAT32 a b =
     (if (a + b) AND 0x80000000 = 0 then
        if (a AND b) AND 0x80000000 \<noteq> 0 then silk_int32_MIN else a + b
      else if (a OR b) AND 0x80000000 = 0 then silk_int32_MAX else a + b)"

definition Silk_SUB_SAT32 :: "i32 \<Rightarrow> i32 \<Rightarrow> i32" where
  "Silk_SUB_SAT32 a b =
     (if (a - b) AND 0x80000000 = 0 then
        if a AND (b XOR 0x80000000) AND 0x80000000 \<noteq> 0 then silk_int32_MIN else a - b
      else if (a XOR 0x80000000) AND b AND 0x80000000 \<noteq> 0 then silk_int32_MAX else a - b)"

definition Silk_ADD_SAT64 :: "i64 \<Rightarrow> i64 \<Rightarrow> i64" where
  "Silk_ADD_SAT64 a b =
     (if (a + b) AND silk_int64_MIN = 0 then
        if (a AND b) AND silk_int64_MIN \<noteq> 0 then silk_int64_MIN else a + b
      else if (a OR b) AND silk_int64_MIN = 0 then silk_int64_MAX else a + b)"

definition Silk_SUB_SAT64 :: "i64 \<Rightarrow> i64 \<Rightarrow> i64" where
  "Silk_SUB_SAT64 a b =
     (if (a - b) AND silk_int64_MIN = 0 then
        if a AND (b XOR silk_int64_MIN) AND silk_int64_MIN \<noteq> 0 then silk_int64_MIN else a - b
      else if (a XOR silk_int64_MIN) AND b AND silk_int64_MIN \<noteq> 0 then silk_int64_MAX else a - b)"

section \<open>Shifts\<close>

definition Silk_LSHIFT8 :: "i8 \<Rightarrow> nat \<Rightarrow> i8" where "Silk_LSHIFT8 a shift = push_bit shift a"
definition Silk_LSHIFT16 :: "i16 \<Rightarrow> nat \<Rightarrow> i16" where "Silk_LSHIFT16 a shift = push_bit shift a"
definition Silk_LSHIFT32 :: "i32 \<Rightarrow> nat \<Rightarrow> i32" where "Silk_LSHIFT32 a shift = push_bit shift a"
definition Silk_LSHIFT64 :: "i64 \<Rightarrow> nat \<Rightarrow> i64" where "Silk_LSHIFT64 a shift = push_bit shift a"
definition Silk_LSHIFT :: "i32 \<Rightarrow> nat \<Rightarrow> i32" where "Silk_LSHIFT a shift = Silk_LSHIFT32 a shift"
definition Silk_RSHIFT8 :: "i8 \<Rightarrow> nat \<Rightarrow> i8" where "Silk_RSHIFT8 a shift = signed_drop_bit shift a"
definition Silk_RSHIFT16 :: "i16 \<Rightarrow> nat \<Rightarrow> i16" where "Silk_RSHIFT16 a shift = signed_drop_bit shift a"
definition Silk_RSHIFT32 :: "i32 \<Rightarrow> nat \<Rightarrow> i32" where "Silk_RSHIFT32 a shift = signed_drop_bit shift a"
definition Silk_RSHIFT :: "i32 \<Rightarrow> nat \<Rightarrow> i32" where "Silk_RSHIFT a shift = Silk_RSHIFT32 a shift"

definition Silk_LIMIT_32 :: "i32 \<Rightarrow> i32 \<Rightarrow> i32 \<Rightarrow> i32" where
  "Silk_LIMIT_32 a limit1 limit2 =
     (if limit2 <s limit1 then (if limit1 <s a then limit1 else if a <s limit2 then limit2 else a)
      else (if limit2 <s a then limit2 else if a <s limit1 then limit1 else a))"

definition Silk_LSHIFT_SAT32 :: "i32 \<Rightarrow> nat \<Rightarrow> i32" where
  "Silk_LSHIFT_SAT32 a shift =
     Silk_LSHIFT32 (Silk_LIMIT_32 a (Silk_RSHIFT32 silk_int32_MIN shift) (Silk_RSHIFT32 silk_int32_MAX shift)) shift"

definition Silk_LSHIFT_ovflw :: "i32 \<Rightarrow> nat \<Rightarrow> i32" where "Silk_LSHIFT_ovflw a shift = push_bit shift a"
definition Silk_LSHIFT_uint :: "u32 \<Rightarrow> nat \<Rightarrow> u32" where "Silk_LSHIFT_uint a shift = push_bit shift a"
definition Silk_RSHIFT_uint :: "u32 \<Rightarrow> nat \<Rightarrow> u32" where "Silk_RSHIFT_uint a shift = drop_bit shift a"
definition Silk_ADD_LSHIFT :: "i32 \<Rightarrow> i32 \<Rightarrow> nat \<Rightarrow> i32" where "Silk_ADD_LSHIFT a b shift = a + Silk_LSHIFT b shift"
definition Silk_ADD_LSHIFT32 :: "i32 \<Rightarrow> i32 \<Rightarrow> nat \<Rightarrow> i32" where "Silk_ADD_LSHIFT32 a b shift = Silk_ADD32 a (Silk_LSHIFT32 b shift)"
definition Silk_ADD_LSHIFT_uint :: "u32 \<Rightarrow> u32 \<Rightarrow> nat \<Rightarrow> u32" where "Silk_ADD_LSHIFT_uint a b shift = a + Silk_LSHIFT_uint b shift"
definition Silk_ADD_RSHIFT :: "i32 \<Rightarrow> i32 \<Rightarrow> nat \<Rightarrow> i32" where "Silk_ADD_RSHIFT a b shift = a + Silk_RSHIFT b shift"
definition Silk_ADD_RSHIFT32 :: "i32 \<Rightarrow> i32 \<Rightarrow> nat \<Rightarrow> i32" where "Silk_ADD_RSHIFT32 a b shift = Silk_ADD32 a (Silk_RSHIFT32 b shift)"
definition Silk_ADD_RSHIFT_uint :: "u32 \<Rightarrow> u32 \<Rightarrow> nat \<Rightarrow> u32" where "Silk_ADD_RSHIFT_uint a b shift = a + Silk_RSHIFT_uint b shift"
definition Silk_SUB_LSHIFT32 :: "i32 \<Rightarrow> i32 \<Rightarrow> nat \<Rightarrow> i32" where "Silk_SUB_LSHIFT32 a b shift = Silk_SUB32 a (Silk_LSHIFT32 b shift)"
definition Silk_SUB_RSHIFT32 :: "i32 \<Rightarrow> i32 \<Rightarrow> nat \<Rightarrow> i32" where "Silk_SUB_RSHIFT32 a b shift = Silk_SUB32 a (Silk_RSHIFT32 b shift)"

definition Silk_RSHIFT_ROUND :: "i32 \<Rightarrow> nat \<Rightarrow> i32" where
  "Silk_RSHIFT_ROUND a shift =
     (if shift = 1 then signed_drop_bit 1 a + (a AND 1) else signed_drop_bit 1 (signed_drop_bit (shift - 1) a + 1))"

definition Silk_RSHIFT_ROUND64 :: "i64 \<Rightarrow> nat \<Rightarrow> i64" where
  "Silk_RSHIFT_ROUND64 a shift =
     (if shift = 1 then signed_drop_bit 1 a + (a AND 1) else signed_drop_bit 1 (signed_drop_bit (shift - 1) a + 1))"

text \<open>Shifts by a computed count.\<close>

definition lshift :: "i32 \<Rightarrow> int \<Rightarrow> i32 go" where
  "lshift a n = (if n < 0 then Panic else Ok (Silk_LSHIFT a (nat n)))"

definition rshift :: "i32 \<Rightarrow> int \<Rightarrow> i32 go" where
  "rshift a n = (if n < 0 then Panic else Ok (Silk_RSHIFT a (nat n)))"

section \<open>Division\<close>

definition Silk_DIV32_16 :: "i32 \<Rightarrow> i32 \<Rightarrow> i32 go" where
  "Silk_DIV32_16 a32 b16 = (if b16 = 0 then Panic else Ok (word_of_int (sint a32 sdiv sint b16)))"

definition Silk_DIV32 :: "i32 \<Rightarrow> i32 \<Rightarrow> i32 go" where
  "Silk_DIV32 a32 b32 = (if b32 = 0 then Panic else Ok (word_of_int (sint a32 sdiv sint b32)))"

section \<open>Leading zeros and rotation\<close>

definition ec_ilog :: "u32 \<Rightarrow> i32" where "ec_ilog x = word_of_nat (bit_length (unat x))"

definition Silk_CLZ16 :: "i16 \<Rightarrow> i32" where
  "Silk_CLZ16 in16 = 32 - ec_ilog (push_bit 16 (scast in16) OR 0x8000)"

definition Silk_CLZ32 :: "i32 \<Rightarrow> i32" where
  "Silk_CLZ32 in32 = (if in32 \<noteq> 0 then 32 - ec_ilog in32 else 32)"

text \<open>The counts are \<^verbatim>\<open>uint32\<close>, so they wrap and are never negative.\<close>

definition Silk_ROR32 :: "i32 \<Rightarrow> int \<Rightarrow> i32" where
  "Silk_ROR32 a32 rot =
     (let r = word_of_int rot :: u32; m = word_of_int (- rot) :: u32 in
      if rot = 0 then a32
      else if rot < 0 then push_bit (unat m) a32 OR drop_bit (unat (32 - m)) a32
      else push_bit (unat (32 - r)) a32 OR drop_bit (unat r) a32)"

section \<open>Minimum, maximum, limits\<close>

definition Silk_min_int :: "int \<Rightarrow> int \<Rightarrow> int" where "Silk_min_int a b = (if a < b then a else b)"
definition Silk_min_16 :: "i16 \<Rightarrow> i16 \<Rightarrow> i16" where "Silk_min_16 a b = (if a <s b then a else b)"
definition Silk_min_32 :: "i32 \<Rightarrow> i32 \<Rightarrow> i32" where "Silk_min_32 a b = (if a <s b then a else b)"
definition Silk_min_64 :: "i64 \<Rightarrow> i64 \<Rightarrow> i64" where "Silk_min_64 a b = (if a <s b then a else b)"
definition Silk_max_int :: "int \<Rightarrow> int \<Rightarrow> int" where "Silk_max_int a b = (if a > b then a else b)"
definition Silk_max_16 :: "i16 \<Rightarrow> i16 \<Rightarrow> i16" where "Silk_max_16 a b = (if b <s a then a else b)"
definition Silk_max_32 :: "i32 \<Rightarrow> i32 \<Rightarrow> i32" where "Silk_max_32 a b = (if b <s a then a else b)"
definition Silk_max_64 :: "i64 \<Rightarrow> i64 \<Rightarrow> i64" where "Silk_max_64 a b = (if b <s a then a else b)"

definition Silk_LIMIT_int :: "int \<Rightarrow> int \<Rightarrow> int \<Rightarrow> int" where
  "Silk_LIMIT_int a limit1 limit2 =
     (if limit1 > limit2 then (if a > limit1 then limit1 else if a < limit2 then limit2 else a)
      else (if a > limit2 then limit2 else if a < limit1 then limit1 else a))"

definition Silk_LIMIT_16 :: "i16 \<Rightarrow> i16 \<Rightarrow> i16 \<Rightarrow> i16" where
  "Silk_LIMIT_16 a limit1 limit2 =
     (if limit2 <s limit1 then (if limit1 <s a then limit1 else if a <s limit2 then limit2 else a)
      else (if limit2 <s a then limit2 else if a <s limit1 then limit1 else a))"

definition Silk_abs :: "i32 \<Rightarrow> i32" where "Silk_abs a = (if 0 <s a then a else - a)"
definition Silk_abs_int32 :: "i32 \<Rightarrow> i32" where "Silk_abs_int32 a = (a XOR signed_drop_bit 31 a) - signed_drop_bit 31 a"
definition Silk_abs_int64 :: "i64 \<Rightarrow> i64" where "Silk_abs_int64 a = (if 0 <s a then a else - a)"
definition Silk_sign :: "i32 \<Rightarrow> i32" where "Silk_sign a = (if 0 <s a then 1 else if a <s 0 then -1 else 0)"

definition RAND_MULTIPLIER :: i32 where "RAND_MULTIPLIER = 196314165"
definition RAND_INCREMENT :: i32 where "RAND_INCREMENT = 907633515"
definition Silk_RAND :: "i32 \<Rightarrow> i32" where "Silk_RAND seed = Silk_MLA_ovflw RAND_INCREMENT seed RAND_MULTIPLIER"

section \<open>inlines.go\<close>

definition Silk_CLZ64 :: "i64 \<Rightarrow> i32" where
  "Silk_CLZ64 x = (let in_upper = ucast (Silk_RSHIFT64 x 32) :: i32 in
     if in_upper = 0 then 32 + Silk_CLZ32 (ucast x) else Silk_CLZ32 in_upper)"

definition Silk_CLZ_FRAC :: "i32 \<Rightarrow> i32 \<times> i32" where
  "Silk_CLZ_FRAC x = (let lzeros = Silk_CLZ32 x in (lzeros, Silk_ROR32 x (sint (24 - lzeros)) AND 0x7f))"

definition Silk_SQRT_APPROX :: "i32 \<Rightarrow> i32" where
  "Silk_SQRT_APPROX x =
     (if x \<le>s 0 then 0
      else case Silk_CLZ_FRAC x of (lz, frac_Q7) \<Rightarrow>
        let y = (if lz AND 1 \<noteq> 0 then 32768 else 46214);
            y = signed_drop_bit (unat (Silk_RSHIFT lz 1)) y
        in Silk_SMLAWB y y (Silk_SMULBB 213 frac_Q7))"

definition Silk_DIV32_varQ :: "i32 \<Rightarrow> i32 \<Rightarrow> int \<Rightarrow> i32 go" where
  "Silk_DIV32_varQ a32 b32 Qres =
     (let a_headrm = sint (Silk_CLZ32 (Silk_abs a32)) - 1 in
      bnd (lshift a32 a_headrm) (\<lambda>a32_nrm.
      let b_headrm = sint (Silk_CLZ32 (Silk_abs b32)) - 1 in
      bnd (lshift b32 b_headrm) (\<lambda>b32_nrm.
      bnd (Silk_DIV32_16 (signed_drop_bit 2 silk_int32_MAX) (Silk_RSHIFT b32_nrm 16)) (\<lambda>b32_inv.
      let result = Silk_SMULWB a32_nrm b32_inv;
          a32_nrm = Silk_SUB32_ovflw a32_nrm (Silk_LSHIFT_ovflw (Silk_SMMUL b32_nrm result) 3);
          result = Silk_SMLAWB result a32_nrm b32_inv;
          lsh = 29 + a_headrm - b_headrm - Qres
      in Ok (if lsh < 0 then Silk_LSHIFT_SAT32 result (nat (- lsh))
             else if lsh < 32 then Silk_RSHIFT result (nat lsh) else 0)))))"

definition Silk_INVERSE32_varQ :: "i32 \<Rightarrow> int \<Rightarrow> i32 go" where
  "Silk_INVERSE32_varQ b32 Qres =
     (let b_headrm = sint (Silk_CLZ32 (Silk_abs b32)) - 1 in
      bnd (lshift b32 b_headrm) (\<lambda>b32_nrm.
      bnd (Silk_DIV32_16 (signed_drop_bit 2 silk_int32_MAX) (Silk_RSHIFT b32_nrm 16)) (\<lambda>b32_inv.
      let result = Silk_LSHIFT b32_inv 16;
          err_Q32 = Silk_LSHIFT (push_bit 29 1 - Silk_SMULWB b32_nrm b32_inv) 3;
          result = Silk_SMLAWW result err_Q32 b32_inv;
          lsh = 61 - b_headrm - Qres
      in Ok (if lsh \<le> 0 then Silk_LSHIFT_SAT32 result (nat (- lsh))
             else if lsh < 32 then Silk_RSHIFT result (nat lsh) else 0))))"

definition Silk_log2lin :: "i32 \<Rightarrow> i32" where
  "Silk_log2lin inLog_Q7 =
     (if inLog_Q7 <s 0 then 0
      else if 3967 \<le>s inLog_Q7 then silk_int32_MAX
      else
        let out = Silk_LSHIFT 1 (nat (sint (Silk_RSHIFT inLog_Q7 7)));
            frac_Q7 = inLog_Q7 AND 0x7F;
            t = Silk_SMLAWB frac_Q7 (Silk_SMULBB frac_Q7 (128 - frac_Q7)) (-174)
        in if inLog_Q7 <s 2048 then Silk_ADD_RSHIFT32 out (Silk_MUL out t) 7
           else Silk_MLA out (Silk_RSHIFT out 7) t)"

definition Silk_lin2log :: "i32 \<Rightarrow> i32" where
  "Silk_lin2log inLin = (case Silk_CLZ_FRAC inLin of (lz, frac_Q7) \<Rightarrow>
     Silk_ADD_LSHIFT32 (Silk_SMLAWB frac_Q7 (Silk_MUL frac_Q7 (128 - frac_Q7)) 179) (31 - lz) 7)"

end
