(* ===== verification/Silk_Pulses.thy ===== *)
theory Silk_Pulses
  imports Silk_Tables Go_Loops
begin

text \<open>
  The excitation of a SILK frame (\<^verbatim>\<open>internal/silk\<close>: \<^verbatim>\<open>shell_coder.go\<close>, \<^verbatim>\<open>code_signs.go\<close>, \<^verbatim>\<open>decode_pulses.go\<close>): the number of
  pulses of each block of 16 samples, their split down a binary tree, the low-order bits, and the signs.  A pointer
  to two elements of an array is the array with their index; the array is returned updated.
\<close>

section \<open>shell_coder.go\<close>

definition decodeSplit :: "Decoder \<Rightarrow> int \<Rightarrow> bytes \<Rightarrow> (i16 \<times> i16 \<times> Decoder) go" where
  "decodeSplit psRangeDec p shellTable =
     (if p > 0 then
        bnd (idx silkShellCodeTableOffsets p) (\<lambda>off.
        bnd (slice_from shellTable (uint off)) (\<lambda>icdf.
        bnd (DecIcdf psRangeDec icdf 8) (\<lambda>(v, psRangeDec).
        let pChild1 = word_of_int v in Ok (pChild1, word_of_int p - pChild1, psRangeDec))))
      else Ok (0, 0, psRangeDec))"

definition split_pair :: "i16 list \<Rightarrow> int \<Rightarrow> Decoder \<Rightarrow> int \<Rightarrow> bytes \<Rightarrow> (i16 list \<times> Decoder) go" where
  "split_pair xs i psRangeDec p shellTable =
     bnd (idx xs i) (\<lambda>_.
     bnd (idx xs (i + 1)) (\<lambda>_.
     bnd (decodeSplit psRangeDec p shellTable) (\<lambda>(c1, c2, psRangeDec).
     Ok (xs[nat i := c1, nat (i + 1) := c2], psRangeDec))))"

definition silkShellDecoder :: "i16 list \<Rightarrow> Decoder \<Rightarrow> int \<Rightarrow> (i16 list \<times> Decoder) go" where
  "silkShellDecoder pulses0 d pulses4 =
     bnd (split_pair [0, 0] 0 d pulses4 silkShellCodeTable3) (\<lambda>(pulses3, d).
     bnd (split_pair [0, 0, 0, 0] 0 d (sint (pulses3 ! 0)) silkShellCodeTable2) (\<lambda>(pulses2, d).
     bnd (split_pair [0, 0, 0, 0, 0, 0, 0, 0] 0 d (sint (pulses2 ! 0)) silkShellCodeTable1) (\<lambda>(pulses1, d).
     bnd (split_pair pulses0 0 d (sint (pulses1 ! 0)) silkShellCodeTable0) (\<lambda>(pulses0, d).
     bnd (split_pair pulses0 2 d (sint (pulses1 ! 1)) silkShellCodeTable0) (\<lambda>(pulses0, d).
     bnd (split_pair pulses1 2 d (sint (pulses2 ! 1)) silkShellCodeTable1) (\<lambda>(pulses1, d).
     bnd (split_pair pulses0 4 d (sint (pulses1 ! 2)) silkShellCodeTable0) (\<lambda>(pulses0, d).
     bnd (split_pair pulses0 6 d (sint (pulses1 ! 3)) silkShellCodeTable0) (\<lambda>(pulses0, d).
     bnd (split_pair pulses2 2 d (sint (pulses3 ! 1)) silkShellCodeTable2) (\<lambda>(pulses2, d).
     bnd (split_pair pulses1 4 d (sint (pulses2 ! 2)) silkShellCodeTable1) (\<lambda>(pulses1, d).
     bnd (split_pair pulses0 8 d (sint (pulses1 ! 4)) silkShellCodeTable0) (\<lambda>(pulses0, d).
     bnd (split_pair pulses0 10 d (sint (pulses1 ! 5)) silkShellCodeTable0) (\<lambda>(pulses0, d).
     bnd (split_pair pulses1 6 d (sint (pulses2 ! 3)) silkShellCodeTable1) (\<lambda>(pulses1, d).
     bnd (split_pair pulses0 12 d (sint (pulses1 ! 6)) silkShellCodeTable0) (\<lambda>(pulses0, d).
     split_pair pulses0 14 d (sint (pulses1 ! 7)) silkShellCodeTable0))))))))))))))"

section \<open>code_signs.go\<close>

definition silkDecMap :: "int \<Rightarrow> int" where "silkDecMap a = push_bit 1 a - 1"

text \<open>The samples of one block; \<^verbatim>\<open>qPtr\<close> is where it starts.\<close>

definition block_signs :: "bytes \<Rightarrow> int \<Rightarrow> i16 list \<times> Decoder \<Rightarrow> (i16 list \<times> Decoder) go" where
  "block_signs icdf qPtr = for_up 0 16 (\<lambda>j (pulses, psRangeDec).
     bnd (idx pulses (qPtr + j)) (\<lambda>x.
     if 0 <s x then
       bnd (DecIcdf psRangeDec icdf 8) (\<lambda>(v, psRangeDec).
       bnd (upd pulses (qPtr + j) (x * word_of_int (silkDecMap v))) (\<lambda>pulses. Ok (pulses, psRangeDec)))
     else Ok (pulses, psRangeDec)))"

definition silkDecodeSigns :: "Decoder \<Rightarrow> i16 list \<Rightarrow> int \<Rightarrow> int \<Rightarrow> int \<Rightarrow> int list \<Rightarrow> (i16 list \<times> Decoder) go" where
  "silkDecodeSigns psRangeDec pulses frameLength signalType quantOffsetType sumPulses =
     (let i = sint (Silk_SMULBB 7 (Silk_ADD_LSHIFT (word_of_int quantOffsetType) (word_of_int signalType) 1)) in
      bnd (slice_from silkSignICDF i) (\<lambda>icdfPtr.
      let blocks = sint (Silk_RSHIFT (word_of_int (frameLength + 8)) 4) in
      bnd (for_up 0 blocks (\<lambda>i ((pulses, psRangeDec), qPtr).
        bnd (idx sumPulses i) (\<lambda>p.
        bnd (if p > 0 then
               bnd (idx icdfPtr (Silk_min_int (p AND 0x1F) 6)) (\<lambda>f. block_signs [f, 0] qPtr (pulses, psRangeDec))
             else Ok (pulses, psRangeDec)) (\<lambda>s. Ok (s, qPtr + 16)))) ((pulses, psRangeDec), 0)) (\<lambda>(s, _). Ok s)))"

section \<open>decode_pulses.go\<close>

definition shellCodecFrameLength :: int where "shellCodecFrameLength = 16"
definition maxNbShellBlocks :: nat where "maxNbShellBlocks = 20"
definition nRateLevels :: int where "nRateLevels = 10"
definition silkMaxPulses :: int where "silkMaxPulses = 16"

text \<open>
  The escape \<open>silkMaxPulses + 1\<close> adds a low-order bit and reads the sum again.  The tenth time the table starts one
  entry later and has no escape, so 11 turns are enough (\<open>lsb_escape_sat\<close>).
\<close>

fun lsb_escape :: "nat \<Rightarrow> int \<Rightarrow> int \<Rightarrow> Decoder \<Rightarrow> (int \<times> int \<times> Decoder) go" where
  "lsb_escape 0 sumPulse nLshift d = Panic"
| "lsb_escape (Suc fuel) sumPulse nLshift d =
     (if sumPulse = silkMaxPulses + 1 then
        let nLshift = nLshift + 1; extra = (if nLshift = 10 then 1 else 0) in
        bnd (idx silkPulsesPerBlockICDF (nRateLevels - 1)) (\<lambda>row.
        bnd (slice_from row extra) (\<lambda>icdf.
        bnd (DecIcdf d icdf 8) (\<lambda>(sumPulse, d). lsb_escape fuel sumPulse nLshift d)))
      else Ok (sumPulse, nLshift, d))"

definition sum_block :: "bytes \<Rightarrow> int \<Rightarrow> int list \<times> int list \<times> Decoder \<Rightarrow> (int list \<times> int list \<times> Decoder) go" where
  "sum_block cdfPtr i = (\<lambda>(sumPulses, nLshifts, d).
     bnd (idx nLshifts i) (\<lambda>_.
     bnd (DecIcdf d cdfPtr 8) (\<lambda>(s, d).
     bnd (idx sumPulses i) (\<lambda>_.
     bnd (lsb_escape 11 s 0 d) (\<lambda>(s, n, d).
     Ok (sumPulses[nat i := s], nLshifts[nat i := n], d))))))"

definition block_start :: "int \<Rightarrow> int" where "block_start i = sint (Silk_SMULBB (word_of_int i) 16)"

definition shell_block :: "int list \<Rightarrow> int \<Rightarrow> i16 list \<times> Decoder \<Rightarrow> (i16 list \<times> Decoder) go" where
  "shell_block sumPulses i = (\<lambda>(pulses, d).
     let off = block_start i in
     bnd (idx sumPulses i) (\<lambda>s.
     if s > 0 then
       bnd (slice_from pulses off) (\<lambda>part.
       bnd (silkShellDecoder part d s) (\<lambda>(part, d).
       bnd (copy_at pulses off part) (\<lambda>pulses. Ok (pulses, d))))
     else
       bnd (slice pulses off (off + shellCodecFrameLength)) (\<lambda>_.
       bnd (copy_at pulses off (replicate (nat shellCodecFrameLength) 0)) (\<lambda>pulses. Ok (pulses, d)))))"

definition lsb_sample :: "int \<Rightarrow> int \<Rightarrow> int \<Rightarrow> i16 list \<times> Decoder \<Rightarrow> (i16 list \<times> Decoder) go" where
  "lsb_sample nLS pulsesPtr k = (\<lambda>(pulses, d).
     bnd (idx pulses (pulsesPtr + k)) (\<lambda>x.
     bnd (for_up 0 nLS (\<lambda>j (absQ, d).
       bnd (DecIcdf d silkLSBICDF 8) (\<lambda>(v, d). Ok (Silk_LSHIFT absQ 1 + word_of_int v, d))) (scast x, d)) (\<lambda>(absQ, d).
     bnd (upd pulses (pulsesPtr + k) (ucast absQ)) (\<lambda>pulses. Ok (pulses, d)))))"

definition lsb_block :: "int list \<Rightarrow> int \<Rightarrow> i16 list \<times> int list \<times> Decoder \<Rightarrow> (i16 list \<times> int list \<times> Decoder) go" where
  "lsb_block nLshifts i = (\<lambda>(pulses, sumPulses, d).
     bnd (idx nLshifts i) (\<lambda>nLS.
     if nLS > 0 then
       let pulsesPtr = block_start i in
       bnd (for_up 0 shellCodecFrameLength (lsb_sample nLS pulsesPtr) (pulses, d)) (\<lambda>(pulses, d).
       bnd (idx sumPulses i) (\<lambda>s.
       bnd (upd sumPulses i (s OR push_bit 5 nLS)) (\<lambda>sumPulses. Ok (pulses, sumPulses, d))))
     else Ok (pulses, sumPulses, d)))"

definition shell_blocks :: "int \<Rightarrow> int" where
  "shell_blocks frameLength =
     (let iter = sint (Silk_RSHIFT (word_of_int frameLength) 4) in
      if iter * shellCodecFrameLength < frameLength then iter + 1 else iter)"

text \<open>What follows the rate level: the counts, the shell decoder, the low-order bits, the signs.\<close>

definition pulse_blocks :: "bytes \<Rightarrow> int \<Rightarrow> int \<Rightarrow> int \<Rightarrow> int \<Rightarrow> Decoder \<Rightarrow> i16 list \<Rightarrow> (i16 list \<times> Decoder) go" where
  "pulse_blocks cdfPtr iter signalType quantOffsetType frameLength d pulses =
     bnd (for_up 0 iter (sum_block cdfPtr) (replicate maxNbShellBlocks 0, replicate maxNbShellBlocks 0, d)) (\<lambda>(sumPulses, nLshifts, d).
     bnd (for_up 0 iter (shell_block sumPulses) (pulses, d)) (\<lambda>(pulses, d).
     bnd (for_up 0 iter (lsb_block nLshifts) (pulses, sumPulses, d)) (\<lambda>(pulses, sumPulses, d).
     silkDecodeSigns d pulses frameLength signalType quantOffsetType sumPulses)))"

definition DecodePulses :: "Decoder \<Rightarrow> i16 list \<Rightarrow> int \<Rightarrow> int \<Rightarrow> int \<Rightarrow> (i16 list \<times> Decoder) go" where
  "DecodePulses d pulses signalType quantOffsetType frameLength =
     bnd (idx silkRateLevelsICDF (drop_bit 1 signalType)) (\<lambda>icdf.
     bnd (DecIcdf d icdf 8) (\<lambda>(rateLevelIndex, d).
     bnd (idx silkPulsesPerBlockICDF rateLevelIndex) (\<lambda>cdfPtr.
     pulse_blocks cdfPtr (shell_blocks frameLength) signalType quantOffsetType frameLength d pulses)))"

end
