(* ===== verification/Silkmath_Props.thy ===== *)
theory Silkmath_Props
  imports Silkmath Fixedmath_Props
begin

text \<open>
  The macros on integers: which of them are exact, which saturate and to what, and what the logarithms,
  the square root and the two divisions return.
\<close>

section \<open>Integers behind the words\<close>

lemma sint_low16: "- 32768 \<le> sint (low16 a)" "sint (low16 a) < 32768"
  by (rule i16_range)+

lemma low16_of_int: "- 32768 \<le> sint a \<Longrightarrow> sint a < 32768 \<Longrightarrow> sint (low16 a) = sint a"
proof -
  assume a: "- 32768 \<le> sint a" "sint a < 32768"
  have "low16 a = word_of_int (sint a)" unfolding low16_def by (rule narrow_of_int) simp
  then show "sint (low16 a) = sint a" by (simp only: i16_of_int [OF a])
qed

lemma wide_mult:
  fixes a :: i32 and b :: "'a::len word"
  assumes "- 2147483648 \<le> sint b" "sint b < 2147483648"
  shows "sint (scast a * scast b :: i64) = sint a * sint b"
proof -
  have "\<bar>sint a\<bar> * \<bar>sint b\<bar> \<le> 2147483648 * 2147483648" using i32_range [of a] assms by (intro mult_mono) auto
  then have "\<bar>sint a * sint b\<bar> \<le> 4611686018427387904" by (simp add: abs_mult)
  then have "sint (word_of_int (sint a * sint b) :: i64) = sint a * sint b" by (intro i64_of_int) auto
  then show ?thesis unfolding scast_eq of_int_mult .
qed

lemma SMULWB_int: "Silk_SMULWB a b = word_of_int (sint a * sint (low16 b) div 65536)"
proof -
  have n: "(ucast (x :: i64) :: i32) = word_of_int (sint x)" for x by (rule narrow_of_int) simp
  have p: "sint (scast a * scast (low16 b) :: i64) = sint a * sint (low16 b)"
    using sint_low16 [of b] by (intro wide_mult) simp_all
  have "Silk_SMULWB a b = word_of_int (sint a * sint (low16 b) div 2 ^ 16)"
    unfolding Silk_SMULWB_def n sint_signed_drop_bit_eq drop_bit_eq_div p by (rule refl)
  then show ?thesis by simp
qed

lemma SMULWB_sint:
  assumes "0 \<le> a" "a < 2147483648" "- 32768 \<le> b" "b < 32768"
  shows "sint (Silk_SMULWB (word_of_int a) (word_of_int b)) = a * b div 65536"
proof -
  have s: "sint (word_of_int a :: i32) = a" "sint (low16 (word_of_int b)) = b"
    using assms by (simp_all add: i32_of_int low16_of_int)
  have "\<bar>a\<bar> * \<bar>b\<bar> \<le> 2147483648 * 32768" using assms by (intro mult_mono) auto
  then have "\<bar>a * b\<bar> \<le> 70368744177664" by (simp add: abs_mult)
  then have "- 70368744177664 \<le> a * b" "a * b \<le> 70368744177664" by linarith+
  then have "- 1073741824 \<le> a * b div 65536" "a * b div 65536 \<le> 1073741824" by linarith+
  then show ?thesis unfolding SMULWB_int s by (intro i32_of_int) linarith+
qed

text \<open>Bit 31 is the sign.\<close>

lemma neg_bit: "sint a < 0 \<longleftrightarrow> bit a 31" for a :: i32
  by (simp add: sint_uint bit_simps flip: signed_take_bit_negative_iff [of 31 "uint a"])

lemma sign_bit: "a AND 0x80000000 = 0 \<longleftrightarrow> 0 \<le> sint a" for a :: i32
proof -
  have "bit a 31 \<longleftrightarrow> a AND push_bit 31 1 \<noteq> 0" by (rule bit_iff_and_push_bit_not_eq_0)
  moreover have "push_bit 31 1 = (0x80000000 :: i32)" by (simp add: push_bit_eq_mult)
  ultimately show ?thesis using neg_bit [of a] by auto
qed

lemma bit_31_set: "bit (0x80000000 :: i32) 31"
proof -
  have "push_bit 31 1 = (0x80000000 :: i32)" by (simp add: push_bit_eq_mult)
  moreover have "bit (push_bit 31 1 :: i32) 31" by (simp add: bit_simps)
  ultimately show ?thesis by simp
qed

lemma neg_bits:
  "sint (a AND b) < 0 \<longleftrightarrow> sint a < 0 \<and> sint b < 0" "sint (a OR b) < 0 \<longleftrightarrow> sint a < 0 \<or> sint b < 0"
  "sint (a XOR 0x80000000) < 0 \<longleftrightarrow> \<not> sint a < 0" for a b :: i32
  unfolding neg_bit using bit_31_set by (simp_all add: bit_simps)

text \<open>A sum or a difference of two \<^verbatim>\<open>int32\<close> leaves the range by one turn at most.\<close>

lemma wrap32:
  fixes x :: int
  assumes "- 4294967296 \<le> x" "x < 4294967296"
  shows "sint (word_of_int x :: i32) = (if x < - 2147483648 then x + 4294967296 else if x < 2147483648 then x else x - 4294967296)"
proof -
  have "(word_of_int (x + 4294967296) :: i32) = word_of_int x" "(word_of_int (x - 4294967296) :: i32) = word_of_int x"
    by (simp_all add: word_of_int_eq_iff take_bit_eq_mod)
  note same = this
  consider "x < - 2147483648" | "2147483648 \<le> x" | "- 2147483648 \<le> x" "x < 2147483648" by linarith
  then show ?thesis
  proof cases
    case 1
    then have "sint (word_of_int (x + 4294967296) :: i32) = x + 4294967296" using assms by (intro i32_of_int) linarith+
    then show ?thesis using 1 by (simp only: same) simp
  next
    case 2
    then have "sint (word_of_int (x - 4294967296) :: i32) = x - 4294967296" using assms by (intro i32_of_int) linarith+
    then show ?thesis using 2 by (simp only: same) simp
  qed (simp add: i32_of_int)
qed

definition clamp :: "int \<Rightarrow> int \<Rightarrow> int" where
  "clamp w x = max (- (2 ^ nat (w - 1))) (min (2 ^ nat (w - 1) - 1) x)"

lemma clamp32: "clamp 32 x = max (- 2147483648) (min 2147483647 x)"
  by (simp add: clamp_def)

lemma clamp16: "clamp 16 x = max (- 32768) (min 32767 x)"
  by (simp add: clamp_def)

lemma i32_add: "sint (a + b) = (let x = sint a + sint b in if x < - 2147483648 then x + 4294967296 else if x < 2147483648 then x else x - 4294967296)" for a b :: i32
proof -
  have "a + b = word_of_int (sint a + sint b)" unfolding of_int_add word_sint ..
  then show ?thesis using wrap32 [of "sint a + sint b"] i32_range [of a] i32_range [of b] by (simp only: Let_def)
qed

lemma i32_diff: "sint (a - b) = (let x = sint a - sint b in if x < - 2147483648 then x + 4294967296 else if x < 2147483648 then x else x - 4294967296)" for a b :: i32
proof -
  have "a - b = word_of_int (sint a - sint b)" unfolding of_int_diff word_sint ..
  then show ?thesis using wrap32 [of "sint a - sint b"] i32_range [of a] i32_range [of b] by (simp only: Let_def)
qed

lemma ADD_SAT32_clamps: "sint (Silk_ADD_SAT32 a b) = clamp 32 (sint a + sint b)"
proof -
  have "(a AND b) AND 0x80000000 = 0 \<longleftrightarrow> \<not> (sint a < 0 \<and> sint b < 0)"
    unfolding sign_bit by (simp add: not_less [symmetric] neg_bits)
  moreover have "(a OR b) AND 0x80000000 = 0 \<longleftrightarrow> 0 \<le> sint a \<and> 0 \<le> sint b"
    unfolding sign_bit by (simp add: not_less [symmetric] neg_bits)
  ultimately show ?thesis
    using i32_range [of a] i32_range [of b] i32_add [of a b]
    unfolding Silk_ADD_SAT32_def sign_bit [of "a + b"] clamp32 by (auto simp: silk_int32_MIN_def silk_int32_MAX_def Let_def split: if_splits)
qed

lemma SUB_SAT32_clamps: "sint (Silk_SUB_SAT32 a b) = clamp 32 (sint a - sint b)"
proof -
  have "a AND (b XOR 0x80000000) AND 0x80000000 = 0 \<longleftrightarrow> \<not> (sint a < 0 \<and> 0 \<le> sint b)"
    unfolding and.assoc [symmetric] sign_bit by (simp add: not_less [symmetric] neg_bits)
  moreover have "(a XOR 0x80000000) AND b AND 0x80000000 = 0 \<longleftrightarrow> \<not> (0 \<le> sint a \<and> sint b < 0)"
    unfolding and.assoc [symmetric] sign_bit by (simp add: not_less [symmetric] neg_bits)
  ultimately show ?thesis
    using i32_range [of a] i32_range [of b] i32_diff [of a b]
    unfolding Silk_SUB_SAT32_def sign_bit [of "a - b"] clamp32 by (auto simp: silk_int32_MIN_def silk_int32_MAX_def Let_def split: if_splits)
qed


lemma SAT16_clamps: "sint (Silk_SAT16 a) = clamp 16 (sint a)"
  by (simp add: Silk_SAT16_def silk_int16_MAX_def silk_int16_MIN_def clamp16 word_sless_alt)

lemma ADD_SAT16_clamps: "sint (Silk_ADD_SAT16 a b) = clamp 16 (sint a + sint b)"
proof -
  have r: "- 32768 \<le> sint a" "sint a < 32768" "- 32768 \<le> sint b" "sint b < 32768" by (rule i16_range)+
  have "scast a + scast b = (word_of_int (sint a + sint b) :: i32)" unfolding scast_eq of_int_add ..
  then have s: "sint (scast a + scast b :: i32) = sint a + sint b" using r by (simp only: i32_of_int)
  have "Silk_ADD_SAT16 a b = word_of_int (sint (Silk_SAT16 (scast a + scast b)))"
    unfolding Silk_ADD_SAT16_def Silk_ADD32_def by (rule narrow_of_int) simp
  then have "Silk_ADD_SAT16 a b = word_of_int (clamp 16 (sint a + sint b))" by (simp only: SAT16_clamps s)
  then show ?thesis by (simp only:) (rule i16_of_int, simp_all add: clamp16)
qed

section \<open>Shifts\<close>

lemma RSHIFT_int: "sint (Silk_RSHIFT a n) = sint a div 2 ^ n" "sint (Silk_RSHIFT32 a n) = sint a div 2 ^ n"
  by (simp_all add: Silk_RSHIFT_def Silk_RSHIFT32_def sint_signed_drop_bit_eq drop_bit_eq_div)

lemma half_range:
  fixes x :: int
  assumes "- 2147483648 \<le> x" "x < 2147483648" "1 \<le> k"
  shows "- 1073741824 \<le> x div 2 ^ k" "x div 2 ^ k \<le> 1073741823"
proof -
  obtain j where k: "k = Suc j" using assms(3) by (cases k) auto
  have "- 1073741824 \<le> x div 2" "x div 2 < 1073741824" using assms by linarith+
  then have "- 1073741824 div 2 ^ j \<le> x div 2 div 2 ^ j" "x div 2 div 2 ^ j \<le> 1073741823 div 2 ^ j"
    by (auto intro!: zdiv_mono1)
  moreover have "- 1073741824 \<le> - 1073741824 div (2 :: int) ^ j" "1073741823 div (2 :: int) ^ j \<le> 1073741823"
    by (smt (verit) div_by_1 int_div_less_self one_le_power zdiv_mono2_neg zdiv_mono2)+
  ultimately show "- 1073741824 \<le> x div 2 ^ k" "x div 2 ^ k \<le> 1073741823" by (simp_all add: k zdiv_zmult2_eq)
qed

text \<open>Rounding to nearest, halves upwards, for any count of at least one.\<close>

lemma RSHIFT_ROUND_int:
  assumes "1 \<le> k" "k \<le> 31"
  shows "sint (Silk_RSHIFT_ROUND a k) = (sint a + 2 ^ (k - 1)) div 2 ^ k"
proof (cases "k = 1")
  case True
  have "sint (1 :: i32) = 1" by simp
  moreover have "sint (a AND 1) = sint a AND sint (1 :: i32)" by (rule signed_and_eq)
  ultimately have o: "sint (a AND 1) = sint a mod 2" using int_and_mask(1) [of "sint a"] by (simp only:)
  have "signed_drop_bit 1 a + (a AND 1) = word_of_int (sint a div 2 + sint a mod 2)"
    unfolding of_int_add sdrop_of_int o [symmetric] word_sint by simp
  moreover have "- 2147483648 \<le> sint a div 2 + sint a mod 2" "sint a div 2 + sint a mod 2 < 2147483648"
    using i32_range [of a] by linarith+
  ultimately have "sint (signed_drop_bit 1 a + (a AND 1)) = sint a div 2 + sint a mod 2" by (simp only: i32_of_int)
  then show ?thesis using True by (simp add: Silk_RSHIFT_ROUND_def) presburger
next
  case False
  then obtain j where j: "k = Suc j" "1 \<le> j" using assms by (cases k) auto
  have h: "- 1073741824 \<le> sint a div 2 ^ j" "sint a div 2 ^ j \<le> 1073741823" using half_range [OF i32_range j(2), of a] by simp_all
  have "signed_drop_bit j a + 1 = word_of_int (sint a div 2 ^ j + 1)" by (simp add: sdrop_of_int)
  then have "sint (signed_drop_bit j a + 1) = sint a div 2 ^ j + 1" using h by (simp only: i32_of_int)
  then have "sint (Silk_RSHIFT_ROUND a k) = (sint a div 2 ^ j + 1) div 2"
    using False j by (simp add: Silk_RSHIFT_ROUND_def sint_signed_drop_bit_eq drop_bit_eq_div)
  also have "sint a div 2 ^ j + 1 = (sint a + 2 ^ j) div 2 ^ j" by (subst div_add_self2) simp_all
  also have "(sint a + 2 ^ j) div 2 ^ j div 2 = (sint a + 2 ^ j) div (2 ^ j * 2)" by (simp add: zdiv_zmult2_eq)
  finally show ?thesis by (simp add: j mult.commute)
qed


text \<open>A saturating shift to the left.\<close>

lemma LIMIT_32_int: "sint l1 \<le> sint l2 \<Longrightarrow> sint (Silk_LIMIT_32 a l1 l2) = max (sint l1) (min (sint l2) (sint a))"
  by (auto simp: Silk_LIMIT_32_def word_sless_alt)

lemma LIMIT_int_between: "lo \<le> hi \<Longrightarrow> Silk_LIMIT_int x lo hi = max lo (min hi x)"
  by (auto simp: Silk_LIMIT_int_def)

lemma LSHIFT_SAT32_clamps:
  assumes "n \<le> 31"
  shows "sint (Silk_LSHIFT_SAT32 a n) = max (- 2147483648) (min (2147483647 div 2 ^ n * 2 ^ n) (sint a * 2 ^ n))"
proof -
  have d: "- 2147483648 div 2 ^ n * 2 ^ n = (- 2147483648 :: int)"
  proof -
    have "(2147483648 :: int) = 2 ^ (31 - n) * 2 ^ n" using assms by (simp flip: power_add)
    then have "- 2147483648 = - (2 ^ (31 - n)) * (2 ^ n :: int)" by simp
    then show ?thesis by (metis nonzero_mult_div_cancel_right power_not_zero zero_neq_numeral)
  qed
  define lo hi where "lo = - 2147483648 div (2 :: int) ^ n" and "hi = 2147483647 div (2 :: int) ^ n"
  have lohi: "lo \<le> hi" unfolding lo_def hi_def by (intro zdiv_mono1) simp_all
  have s: "sint (Silk_RSHIFT32 silk_int32_MIN n) = lo" "sint (Silk_RSHIFT32 silk_int32_MAX n) = hi"
    by (simp_all add: RSHIFT_int silk_int32_MIN_def silk_int32_MAX_def lo_def hi_def)
  define v where "v = max lo (min hi (sint a))"
  have v: "sint (Silk_LIMIT_32 a (Silk_RSHIFT32 silk_int32_MIN n) (Silk_RSHIFT32 silk_int32_MAX n)) = v"
    using LIMIT_32_int lohi s by (simp add: v_def)
  have "lo * 2 ^ n \<le> v * 2 ^ n" "v * 2 ^ n \<le> hi * 2 ^ n" using lohi by (intro mult_right_mono; simp add: v_def)+
  moreover have "hi * 2 ^ n \<le> 2147483647" unfolding hi_def minus_mod_eq_div_mult [symmetric] by simp
  ultimately have b: "- 2147483648 \<le> v * 2 ^ n" "v * 2 ^ n < 2147483648" using d unfolding lo_def by linarith+
  have "push_bit n w = word_of_int (sint w * 2 ^ n)" for w :: i32 by (simp add: push_bit_eq_mult)
  then have "Silk_LSHIFT_SAT32 a n = word_of_int (v * 2 ^ n)" unfolding Silk_LSHIFT_SAT32_def Silk_LSHIFT32_def v [symmetric] .
  then have "sint (Silk_LSHIFT_SAT32 a n) = v * 2 ^ n" using b by (simp only: i32_of_int)
  also have "v * 2 ^ n = max (lo * 2 ^ n) (min (hi * 2 ^ n) (sint a * 2 ^ n))"
    by (simp add: v_def max_mult_distrib_right min_mult_distrib_right)
  finally show ?thesis by (simp add: d lo_def hi_def)
qed

section \<open>Leading zeros and logarithms\<close>

lemma CLZ32_spec:
  assumes "0 < uint x"
  shows "\<exists>k. sint (Silk_CLZ32 x) = int k \<and> k \<le> 31 \<and> 2 ^ (31 - k) \<le> uint x \<and> uint x < 2 ^ (32 - k)"
proof -
  define l where "l = bit_length (unat x)"
  have ux: "uint x = int (unat x)" by simp
  have u: "0 < unat x" "unat x < 2 ^ 32" using assms unsigned_less [of x, where 'a = nat] by (simp_all only: ux of_nat_0_less_iff word_size) simp
  note b = bit_length_bounds [OF u(1), folded l_def]
  have l32: "l \<le> 32" unfolding l_def by (rule bit_length_le [OF u(2)])
  have "x \<noteq> 0" using assms by auto
  moreover have "(32 :: i32) - word_of_nat l = word_of_int (32 - int l)" by simp
  moreover have "sint (word_of_int (32 - int l) :: i32) = 32 - int l" using l32 by (intro i32_of_int) simp_all
  ultimately have "sint (Silk_CLZ32 x) = 32 - int l" by (simp only: Silk_CLZ32_def ec_ilog_def l_def if_True simp_thms)
  moreover have "2 ^ (l - 1) \<le> uint x" "uint x < 2 ^ l"
    using b of_nat_less_iff [of "unat x" "2 ^ l", where 'a = int] of_nat_le_iff [of "2 ^ (l - 1)" "unat x", where 'a = int] unfolding ux by simp_all
  ultimately show ?thesis using l32 b by (intro exI [of _ "32 - l"]) (auto simp: diff_diff_cancel)
qed


lemma narrow64: "(ucast (word_of_int y :: i64) :: i32) = word_of_int y"
proof -
  have "(ucast (word_of_int y :: i64) :: i32) = word_of_int (take_bit 64 y)" unfolding ucast_eq by (simp add: uint_word_of_int take_bit_eq_mod)
  also have "\<dots> = word_of_int y" unfolding word_of_int_eq_iff by simp
  finally show ?thesis .
qed

lemma SMLAWB_int: "Silk_SMLAWB a b c = word_of_int (sint a + sint b * sint (low16 c) div 65536)"
proof -
  have p: "sint (scast b * scast (low16 c) :: i64) = sint b * sint (low16 c)"
    using sint_low16 [of c] by (intro wide_mult) simp_all
  have "scast a + signed_drop_bit 16 (scast b * scast (low16 c)) = (word_of_int (sint a + sint b * sint (low16 c) div 2 ^ 16) :: i64)"
    unfolding of_int_add sdrop_of_int p scast_eq [of a] by (rule refl)
  then show ?thesis unfolding Silk_SMLAWB_def by (simp only: narrow64) simp
qed

lemma SMULBB_int: "Silk_SMULBB a b = word_of_int (sint (low16 a) * sint (low16 b))"
  unfolding Silk_SMULBB_def scast_eq of_int_mult ..

lemma of_sint: "sint a = x \<Longrightarrow> a = word_of_int x"
  by auto

text \<open>The two branches of the exponential, from the octave and the interpolated fraction.\<close>

lemma log2lin_small:
  assumes w: "out = word_of_int (2 ^ k)" "t = word_of_int ti" and k: "k \<le> 15" and ti: "0 \<le> ti" "ti \<le> 127"
  shows "2 ^ k \<le> sint (out + Silk_RSHIFT32 (Silk_MUL out t) 7) \<and> sint (out + Silk_RSHIFT32 (Silk_MUL out t) 7) < 2 ^ k * 2"
proof -
  have p: "(2 :: int) ^ k \<le> 32768" "0 < (2 :: int) ^ k" using power_increasing [OF k, of "2 :: int"] by simp_all
  have ot: "2 ^ k * ti \<le> 2 ^ k * 127" "0 \<le> 2 ^ k * ti" using ti by (simp_all add: mult_left_mono)
  have "Silk_MUL out t = word_of_int (2 ^ k * ti)" by (simp add: Silk_MUL_def w)
  moreover have "sint (word_of_int (2 ^ k * ti) :: i32) = 2 ^ k * ti" using ot p by (intro i32_of_int) linarith+
  ultimately have "sint (Silk_RSHIFT32 (Silk_MUL out t) 7) = 2 ^ k * ti div 128" using RSHIFT_int(2) [of "Silk_MUL out t" 7] by simp
  then have "out + Silk_RSHIFT32 (Silk_MUL out t) 7 = word_of_int (2 ^ k + 2 ^ k * ti div 128)" using of_sint w(1) by fastforce
  moreover have "sint (word_of_int (2 ^ k + 2 ^ k * ti div 128) :: i32) = 2 ^ k + 2 ^ k * ti div 128" using ot p by (intro i32_of_int) linarith+
  ultimately show ?thesis using ot p by (simp only:) linarith
qed

lemma log2lin_large:
  assumes w: "out = word_of_int (2 ^ k)" "t = word_of_int ti" and k: "7 \<le> k" "k \<le> 30" and ti: "0 \<le> ti" "ti \<le> 127"
  shows "2 ^ k \<le> sint (Silk_MLA out (Silk_RSHIFT out 7) t) \<and> sint (Silk_MLA out (Silk_RSHIFT out 7) t) < 2 ^ k * 2"
proof -
  define h where "h = (2 :: int) ^ (k - 7)"
  have "(2 :: int) ^ (k - 7) * 2 ^ 7 = 2 ^ k" using k(1) by (simp only: power_add [symmetric]) simp
  then have kh: "(2 :: int) ^ k = h * 128" by (simp add: h_def)
  have p: "(2 :: int) ^ k \<le> 1073741824" "0 < h" using power_increasing [OF k(2), of "2 :: int"] by (simp_all add: h_def)
  have ht: "0 \<le> h * ti" "h * ti \<le> h * 127" using p(2) ti by (simp_all add: mult_left_mono)
  have "sint out = 2 ^ k" unfolding w using p kh by (intro i32_of_int) linarith+
  then have "sint (Silk_RSHIFT out 7) = h" using RSHIFT_int(1) [of out 7] by (simp add: kh)
  then have "Silk_MLA out (Silk_RSHIFT out 7) t = word_of_int (2 ^ k + h * ti)" using of_sint w by (fastforce simp: Silk_MLA_def Silk_ADD32_def)
  moreover have "sint (word_of_int (2 ^ k + h * ti) :: i32) = 2 ^ k + h * ti" using ht p kh by (intro i32_of_int) linarith+
  ultimately show ?thesis using ht p kh by (simp only:) linarith
qed

text \<open>The exponential lies in the octave of its integer part, for every input in range.\<close>

lemma log2lin_octave:
  assumes "0 \<le> sint x" "sint x < 3967"
  shows "2 ^ nat (sint x div 128) \<le> sint (Silk_log2lin x)" "sint (Silk_log2lin x) < 2 ^ (nat (sint x div 128) + 1)"
proof -
  define k where "k = nat (sint x div 128)"
  define f where "f = sint x mod 128"
  have k: "k \<le> 30" using assms by (simp add: k_def)
  have f: "0 \<le> f" "f \<le> 127" by (simp_all add: f_def)
  have p: "(1 :: int) \<le> 2 ^ k" "(2 :: int) ^ k \<le> 1073741824" using power_increasing [OF k, of "2 :: int"] by simp_all
  define out where "out = Silk_LSHIFT 1 (nat (sint (Silk_RSHIFT x 7)))"
  have "out = word_of_int (2 ^ k)"
    by (simp add: out_def Silk_LSHIFT_def Silk_LSHIFT32_def RSHIFT_int k_def push_bit_of_1)
  moreover have "sint (word_of_int (2 ^ k) :: i32) = 2 ^ k" using p by (intro i32_of_int) linarith+
  ultimately have out: "sint out = 2 ^ k" by (simp only:)
  have "sint (0x7F :: i32) = 127" by simp
  moreover have "sint (x AND 0x7F) = sint x AND sint (0x7F :: i32)" by (rule signed_and_eq)
  moreover have "sint x AND 127 = sint x mod 128"
  proof -
    have "sint x AND mask 7 = sint x mod 2 ^ 7" by (metis take_bit_eq_mask take_bit_int_def)
    then show ?thesis by (simp add: mask_eq_exp_minus_1)
  qed
  ultimately have fr: "sint (x AND 0x7F) = f" by (simp only: f_def)
  define g where "g = f * (128 - f)"
  have g: "0 \<le> g" "g \<le> 128 * f" "g \<le> 16384"
  proof -
    show "0 \<le> g" using f by (simp add: g_def)
    show "g \<le> 128 * f" using f by (simp add: g_def algebra_simps)
    then show "g \<le> 16384" using f by linarith
  qed
  define t where "t = Silk_SMLAWB (x AND 0x7F) (Silk_SMULBB (x AND 0x7F) (128 - (x AND 0x7F))) (-174)"
  define ti where "ti = f + g * (-174) div 65536"
  have ti: "0 \<le> ti" "ti \<le> 127" using f g unfolding ti_def by linarith+
  have t: "sint t = ti"
  proof -
    have fx: "sint (128 - (x AND 0x7F)) = 128 - f"
    proof -
      have "128 - (x AND 0x7F) = word_of_int (128 - f)" unfolding of_int_diff fr [symmetric] word_sint by simp
      then show ?thesis using f by (simp only: i32_of_int)
    qed
    have "sint (low16 (x AND 0x7F)) = f" "sint (low16 (128 - (x AND 0x7F))) = 128 - f"
      using f fr fx by (simp_all add: low16_of_int)
    then have "Silk_SMULBB (x AND 0x7F) (128 - (x AND 0x7F)) = word_of_int g" by (simp only: SMULBB_int g_def)
    then have sg: "sint (Silk_SMULBB (x AND 0x7F) (128 - (x AND 0x7F))) = g" using g by (simp only: i32_of_int)
    have "sint (-174 :: i32) = -174" by simp
    then have "sint (low16 (-174)) = -174" by (subst low16_of_int) simp_all
    then have "t = word_of_int ti" unfolding t_def SMLAWB_int fr sg ti_def by (simp only:)
    then show ?thesis using ti by (simp only: i32_of_int)
  qed
  have ot: "2 ^ k * ti \<le> 2 ^ k * 127" "0 \<le> 2 ^ k * ti" using ti by (simp_all add: mult_left_mono)
  have c: "\<not> x <s 0" "\<not> 3967 \<le>s x" using assms by (simp_all add: word_sless_alt word_sle_eq)
  have w: "out = word_of_int (2 ^ k)" "t = word_of_int ti" using of_sint out t by blast+
  have "2 ^ k \<le> sint (Silk_log2lin x) \<and> sint (Silk_log2lin x) < 2 ^ k * 2"
  proof (cases "x <s 2048")
    case True
    then have "k \<le> 15" using assms by (simp add: k_def word_sless_alt)
    moreover have "Silk_log2lin x = out + Silk_RSHIFT32 (Silk_MUL out t) 7"
      using c True by (simp add: Silk_log2lin_def Let_def Silk_ADD_RSHIFT32_def Silk_ADD32_def out_def t_def)
    ultimately show ?thesis using log2lin_small [OF w _ ti] by simp
  next
    case False
    then have "7 \<le> k" using assms by (simp add: k_def word_sless_alt)
    moreover have "Silk_log2lin x = Silk_MLA out (Silk_RSHIFT out 7) t"
      using c False by (simp add: Silk_log2lin_def Let_def out_def t_def)
    ultimately show ?thesis using log2lin_large [OF w _ k ti] by simp
  qed
  then show "2 ^ nat (sint x div 128) \<le> sint (Silk_log2lin x)" "sint (Silk_log2lin x) < 2 ^ (nat (sint x div 128) + 1)"
    by (simp_all add: k_def)
qed

text \<open>Normalising a positive number: both divisions start with it.\<close>

lemma normalise:
  assumes "0 < sint b"
  obtains k n where "sint (Silk_CLZ32 (Silk_abs b)) = int k + 1" "k \<le> 30" "lshift b (int k) = Ok n" "sint n = sint b * 2 ^ k"
    "1073741824 \<le> sint n"
proof -
  have ub: "uint b = sint b" "uint b < 2147483648" using assms i32_range [of b] by (simp_all add: uint_sint take_bit_int_eq_self)
  have abs: "Silk_abs b = b" using assms by (simp add: Silk_abs_def word_sless_alt)
  obtain c where c: "sint (Silk_CLZ32 b) = int c" "c \<le> 31" "2 ^ (31 - c) \<le> uint b" "uint b < 2 ^ (32 - c)"
    using CLZ32_spec [of b] assms ub by auto
  have "c \<noteq> 0" using c(3) ub by (intro notI) simp
  then obtain k where k: "c = Suc k" by (cases c) auto
  have pk: "(0 :: int) < 2 ^ k" by simp
  have "(2 :: int) ^ (30 - k) * 2 ^ k \<le> sint b * 2 ^ k" using c(3) k ub by (intro mult_right_mono) simp_all
  moreover have "(2 :: int) ^ (30 - k) * 2 ^ k = 1073741824" using c(2) k by (simp flip: power_add)
  ultimately have lo: "1073741824 \<le> sint b * 2 ^ k" by linarith
  have "sint b * 2 ^ k < (2 :: int) ^ (31 - k) * 2 ^ k" using c(4) k ub by (intro mult_strict_right_mono) simp_all
  moreover have "(2 :: int) ^ (31 - k) * 2 ^ k = 2147483648" using c(2) k by (simp flip: power_add)
  ultimately have hi: "sint b * 2 ^ k < 2147483648" by linarith
  have "push_bit k b = word_of_int (sint b * 2 ^ k)" by (simp add: push_bit_eq_mult)
  then have "sint (push_bit k b) = sint b * 2 ^ k" using lo hi by (simp only: i32_of_int)
  then show ?thesis using that [of k "push_bit k b"] c k lo by (simp add: abs lshift_def Silk_LSHIFT_def Silk_LSHIFT32_def)
qed

lemma INVERSE32_varQ_returns:
  assumes "0 < sint b"
  shows "\<exists>r. Silk_INVERSE32_varQ b Q = Ok r"
proof -
  obtain k n where k: "sint (Silk_CLZ32 (Silk_abs b)) = int k + 1" "lshift b (int k) = (Ok n :: i32 go)" "1073741824 \<le> sint n"
    using normalise [OF assms] by metis
  have "sint (Silk_RSHIFT n 16) = sint n div 65536" by (simp add: RSHIFT_int)
  then have "Silk_RSHIFT n 16 \<noteq> 0" using k(3) by (intro notI) simp
  then show ?thesis using k(1,2) by (simp add: Silk_INVERSE32_varQ_def Silk_DIV32_16_def Let_def)
qed

lemma DIV32_varQ_returns:
  assumes "0 < sint a" "0 < sint b"
  shows "\<exists>r. Silk_DIV32_varQ a b Q = Ok r"
proof -
  obtain j m where j: "sint (Silk_CLZ32 (Silk_abs a)) = int j + 1" "lshift a (int j) = (Ok m :: i32 go)"
    using normalise [OF assms(1)] by metis
  obtain k n where k: "sint (Silk_CLZ32 (Silk_abs b)) = int k + 1" "lshift b (int k) = (Ok n :: i32 go)" "1073741824 \<le> sint n"
    using normalise [OF assms(2)] by metis
  have "sint (Silk_RSHIFT n 16) = sint n div 65536" by (simp add: RSHIFT_int)
  then have "Silk_RSHIFT n 16 \<noteq> 0" using k(3) by (intro notI) simp
  then show ?thesis using j k(1,2) by (simp add: Silk_DIV32_varQ_def Silk_DIV32_16_def Let_def)
qed

end
