(* ===== verification/Silk_Pulses_Props.thy ===== *)
theory Silk_Pulses_Props
  imports Silk_Pulses Silkmath_Props
begin

text \<open>
  The shell decoder is a recursive split of the pulse count, the decoder of the excitation never panics, and the
  amplitudes it returns fit in 15 bits.
\<close>

section \<open>Words\<close>

lemma small_i32: "- 1000000 \<le> x \<Longrightarrow> x \<le> 1000000 \<Longrightarrow> sint (word_of_int x :: i32) = x"
  by (rule i32_of_int) simp_all

section \<open>The split of a count\<close>

definition shell_ok :: "bytes \<Rightarrow> bool" where
  "shell_ok t \<longleftrightarrow> (\<forall>p \<in> {1..16}. \<exists>off. idx silkShellCodeTableOffsets p = (Ok off :: u8 go) \<and> uint off \<le> len t
     \<and> ends_at (drop (nat (uint off)) t) p)"

lemma shell_okI:
  assumes "list_all (\<lambda>p. let off = unat (silkShellCodeTableOffsets ! p) in off + p < length t \<and> t ! (off + p) = 0) [1..<17]"
  shows "shell_ok t"
  unfolding shell_ok_def
proof
  fix p :: int
  assume p: "p \<in> {1..16}"
  have "nat p \<in> set [1..<17]" using p by auto
  with assms have e: "unat (silkShellCodeTableOffsets ! nat p) + nat p < length t"
    "t ! (unat (silkShellCodeTableOffsets ! nat p) + nat p) = 0" by (auto simp: list_all_iff Let_def simp del: set_upt)
  have "length silkShellCodeTableOffsets = 17" by (simp add: silkShellCodeTableOffsets_def)
  then have "idx silkShellCodeTableOffsets p = (Ok (silkShellCodeTableOffsets ! nat p) :: u8 go)" using p by (simp add: idx_def)
  moreover have "ends_at (drop (unat (silkShellCodeTableOffsets ! nat p)) t) p" unfolding ends_at_def
  proof (intro conjI)
    show "p < len (drop (unat (silkShellCodeTableOffsets ! nat p)) t)" using e(1) p unfolding length_drop by linarith
    show "drop (unat (silkShellCodeTableOffsets ! nat p)) t ! nat p = 0" using e by simp
  qed (use p in simp)
  moreover have "uint (silkShellCodeTableOffsets ! nat p) \<le> len t"
    using e(1) by (simp only: uint_nat of_nat_le_iff)
  ultimately show "\<exists>off. idx silkShellCodeTableOffsets p = (Ok off :: u8 go) \<and> uint off \<le> len t
     \<and> ends_at (drop (nat (uint off)) t) p" by simp
qed

lemma shell_tables_ok:
  "shell_ok silkShellCodeTable0" "shell_ok silkShellCodeTable1" "shell_ok silkShellCodeTable2" "shell_ok silkShellCodeTable3"
  by (rule shell_okI, code_simp)+

lemma decodeSplitI:
  assumes "dec_wf S d" "shell_ok t" "0 \<le> p" "p \<le> 16"
    and Q: "\<And>c1 c2 d'. 0 \<le> sint c1 \<Longrightarrow> 0 \<le> sint c2 \<Longrightarrow> sint c1 + sint c2 = p \<Longrightarrow> dec_wf S d' \<Longrightarrow> Q (c1, c2, d')"
  shows "sat (decodeSplit d p t) E Q"
proof (cases "p = 0")
  case False
  with assms obtain off where o: "idx silkShellCodeTableOffsets p = (Ok off :: u8 go)" "uint off \<le> len t"
    "ends_at (drop (nat (uint off)) t) p" by (force simp: shell_ok_def)
  have "Q (word_of_int v, word_of_int p - word_of_int v, d')" if v: "0 \<le> v" "v \<le> p" "dec_wf S d'" for v d'
  proof (rule Q)
    have s: "sint (word_of_int v :: i16) = v" using v assms by (intro i16_of_int) simp_all
    have w: "sint (word_of_int (p - v) :: i16) = p - v" using v assms by (intro i16_of_int) simp_all
    have e: "word_of_int (p - v) = (word_of_int p - word_of_int v :: i16)" by simp
    show "0 \<le> sint (word_of_int v :: i16)" "0 \<le> sint (word_of_int p - word_of_int v :: i16)"
      "sint (word_of_int v :: i16) + sint (word_of_int p - word_of_int v :: i16) = p"
      using v unfolding e [symmetric] s w by simp_all
  qed (rule v(3))
  then have "sat (DecIcdf d (drop (nat (uint off)) t) 8) E (\<lambda>x. Q (word_of_int (fst x), word_of_int p - word_of_int (fst x), snd x))"
    using assms(1) o(3) by (intro dec_symI) simp_all
  then show ?thesis using False assms(3) o(1,2) by (simp add: decodeSplit_def Let_def res_simps)
next
  case True
  then show ?thesis using assms by (simp add: decodeSplit_def)
qed

section \<open>The shell decoder as a tree\<close>

fun shell_tree :: "bytes list \<Rightarrow> i16 \<Rightarrow> Decoder \<Rightarrow> (i16 list \<times> Decoder) go" where
  "shell_tree [] p d = Ok ([p], d)"
| "shell_tree (t # ts) p d =
     bnd (decodeSplit d (sint p) t) (\<lambda>(c1, c2, d).
     bnd (shell_tree ts c1 d) (\<lambda>(left, d).
     bnd (shell_tree ts c2 d) (\<lambda>(right, d). Ok (left @ right, d))))"

abbreviation shell_levels :: "bytes list" where
  "shell_levels \<equiv> [silkShellCodeTable3, silkShellCodeTable2, silkShellCodeTable1, silkShellCodeTable0]"

lemma shell_treeI:
  assumes "dec_wf S d" "\<forall>t \<in> set ts. shell_ok t" "0 \<le> sint p" "sint p \<le> 16"
    and "\<And>xs d'. length xs = 2 ^ length ts \<Longrightarrow> \<forall>x \<in> set xs. 0 \<le> sint x \<Longrightarrow> sum_list (map sint xs) = sint p \<Longrightarrow> dec_wf S d' \<Longrightarrow> Q (xs, d')"
  shows "sat (shell_tree ts p d) E Q"
  using assms
proof (induction ts arbitrary: p d Q)
  case (Cons t ts)
  have t: "shell_ok t" "\<forall>t \<in> set ts. shell_ok t" using Cons.prems(2) by simp_all
  show ?case unfolding shell_tree.simps sat_bnd
  proof (rule decodeSplitI [OF Cons.prems(1) t(1) Cons.prems(3,4)], unfold prod.case sat_bnd)
    fix c1 c2 :: i16 and d1 :: Decoder
    assume c: "0 \<le> sint c1" "0 \<le> sint c2" "sint c1 + sint c2 = sint p" "dec_wf S d1"
    have b: "sint c1 \<le> 16" "sint c2 \<le> 16" using c Cons.prems(4) by linarith+
    show "sat (shell_tree ts c1 d1) E (\<lambda>x. sat (case x of (left, d) \<Rightarrow> bnd (shell_tree ts c2 d) (\<lambda>(right, d). Ok (left @ right, d))) E Q)"
    proof (rule Cons.IH [OF c(4) t(2) c(1) b(1)], unfold prod.case sat_bnd)
      fix xs :: "i16 list" and d2 :: Decoder
      assume l: "length xs = 2 ^ length ts" "\<forall>x \<in> set xs. 0 \<le> sint x" "sum_list (map sint xs) = sint c1" "dec_wf S d2"
      show "sat (shell_tree ts c2 d2) E (\<lambda>x. sat (case x of (right, d) \<Rightarrow> Ok (xs @ right, d)) E Q)"
        by (rule Cons.IH [OF l(4) t(2) c(2) b(2)]) (use l c in \<open>auto intro!: Cons.prems(5)\<close>)
    qed
  qed
qed simp

text \<open>The order of the calls is the order of the recursion, and the last level is written where the caller wants it.\<close>

lemma shell_is_tree:
  assumes "length pulses0 = 16 + n"
  shows "silkShellDecoder pulses0 d p = bnd (decodeSplit d p silkShellCodeTable3) (\<lambda>(c1, c2, d).
     bnd (shell_tree (tl shell_levels) c1 d) (\<lambda>(left, d). bnd (shell_tree (tl shell_levels) c2 d) (\<lambda>(right, d).
     Ok (left @ right @ drop 16 pulses0, d))))"
proof -
  from assms obtain a0 a1 a2 a3 a4 a5 a6 a7 a8 a9 a10 a11 a12 a13 a14 a15 r where
    "pulses0 = [a0, a1, a2, a3, a4, a5, a6, a7, a8, a9, a10, a11, a12, a13, a14, a15] @ r"
    by (auto simp: length_Suc_conv numeral_eq_Suc)
  then show ?thesis
    by (simp add: silkShellDecoder_def split_pair_def bnd_assoc bnd_case_prod idx_def cong: bnd_cong)
qed


lemma silkShellDecoderI:
  assumes "dec_wf S d" "0 \<le> p" "p \<le> 16" "16 \<le> len pulses0"
    and Q: "\<And>xs d'. length xs = 16 \<Longrightarrow> \<forall>x \<in> set xs. 0 \<le> sint x \<Longrightarrow> sum_list (map sint xs) = p \<Longrightarrow> dec_wf S d' \<Longrightarrow> Q (xs @ drop 16 pulses0, d')"
  shows "sat (silkShellDecoder pulses0 d p) E Q"
proof -
  obtain n where n: "length pulses0 = 16 + n" using assms(4) le_Suc_ex [of 16 "length pulses0"] by auto
  have t: "\<forall>t \<in> set (tl shell_levels). shell_ok t" using shell_tables_ok by simp
  show ?thesis unfolding shell_is_tree [OF n] sat_bnd
  proof (rule decodeSplitI [OF assms(1) shell_tables_ok(4) assms(2,3)], unfold prod.case sat_bnd)
    fix c1 c2 :: i16 and d1 :: Decoder
    assume c: "0 \<le> sint c1" "0 \<le> sint c2" "sint c1 + sint c2 = p" "dec_wf S d1"
    have b: "sint c1 \<le> 16" "sint c2 \<le> 16" using c assms(3) by linarith+
    show "sat (shell_tree (tl shell_levels) c1 d1) E (\<lambda>x. sat (case x of (left, d) \<Rightarrow> bnd (shell_tree (tl shell_levels) c2 d)
      (\<lambda>(right, d). Ok (left @ right @ drop 16 pulses0, d))) E Q)"
    proof (rule shell_treeI [OF c(4) t c(1) b(1)], unfold prod.case sat_bnd)
      fix xs :: "i16 list" and d2 :: Decoder
      assume l: "length xs = 2 ^ length (tl shell_levels)" "\<forall>x \<in> set xs. 0 \<le> sint x" "sum_list (map sint xs) = sint c1" "dec_wf S d2"
      have q: "Q (xs @ ys @ drop 16 pulses0, d3)" if "length ys = 8" "\<forall>x \<in> set ys. 0 \<le> sint x" "sum_list (map sint ys) = sint c2"
        "dec_wf S d3" for ys d3
        using Q [of "xs @ ys" d3] that l c by auto
      show "sat (shell_tree (tl shell_levels) c2 d2) E (\<lambda>x. sat (case x of (right, d) \<Rightarrow> Ok (xs @ right @ drop 16 pulses0, d)) E Q)"
        by (rule shell_treeI [OF l(4) t c(2) b(2)]) (simp add: q)
    qed
  qed
qed

section \<open>The number of pulses of a block\<close>

lemma pulse_rows:
  "length silkPulsesPerBlockICDF = 10" "k < 10 \<Longrightarrow> ends_at (silkPulsesPerBlockICDF ! k) 17"
  "ends_at (drop 1 (silkPulsesPerBlockICDF ! 9)) 16" "length (silkPulsesPerBlockICDF ! 9) = 18"
proof -
  have "list_all (\<lambda>r. ends_at r 17) silkPulsesPerBlockICDF" by (simp add: silkPulsesPerBlockICDF_def ends_at_def)
  moreover show l: "length silkPulsesPerBlockICDF = 10" by (simp add: silkPulsesPerBlockICDF_def)
  ultimately show "k < 10 \<Longrightarrow> ends_at (silkPulsesPerBlockICDF ! k) 17" by (simp add: list_all_length)
  show "ends_at (drop 1 (silkPulsesPerBlockICDF ! 9)) 16" "length (silkPulsesPerBlockICDF ! 9) = 18"
    by (simp_all add: silkPulsesPerBlockICDF_def ends_at_def)
qed

lemma lsb_escape_sat:
  assumes "dec_wf S d" "0 \<le> s" "s \<le> 17" "n = 10 - int fuel" "fuel \<le> 10" "fuel = 0 \<longrightarrow> s \<le> 16"
    and Q: "\<And>s n d'. 0 \<le> s \<Longrightarrow> s \<le> 16 \<Longrightarrow> 0 \<le> n \<Longrightarrow> n \<le> 10 \<Longrightarrow> dec_wf S d' \<Longrightarrow> Q (s, n, d')"
  shows "sat (lsb_escape (Suc fuel) s n d) E Q"
  using assms(1-6)
proof (induction fuel arbitrary: s n d)
  case 0
  then show ?case by (auto simp: silkMaxPulses_def intro!: Q)
next
  case (Suc fuel)
  define extra :: int where "extra = (if n + 1 = 10 then 1 else 0)"
  have n: "0 \<le> n" "n < 10" "n + 1 = 10 - int fuel" "n + 1 = 10 \<longleftrightarrow> fuel = 0" using Suc.prems by auto
  have e: "ends_at (drop (nat extra) (silkPulsesPerBlockICDF ! 9)) (17 - extra)" "0 \<le> extra" "extra \<le> 18"
    using pulse_rows(2) [of 9] pulse_rows(3) by (auto simp: extra_def)
  have "sat (DecIcdf d (drop (nat extra) (silkPulsesPerBlockICDF ! 9)) 8) E (\<lambda>x. sat (lsb_escape (Suc fuel) (fst x) (n + 1) (snd x)) E Q)"
    by (rule dec_symI [OF Suc.prems(1) e(1)], unfold fst_conv snd_conv, rule Suc.IH) (use n Suc.prems in \<open>auto simp: extra_def split: if_splits\<close>)
  moreover have "lsb_escape (Suc (Suc fuel)) 17 n d =
      bnd (DecIcdf d (drop (nat extra) (silkPulsesPerBlockICDF ! 9)) 8) (\<lambda>(s, d). lsb_escape (Suc fuel) s (n + 1) d)"
    by (subst lsb_escape.simps) (simp add: silkMaxPulses_def nRateLevels_def pulse_rows Let_def res_simps extra_def del: lsb_escape.simps)
  moreover have "Q (s, n, d)" if "s \<noteq> 17" using that Suc.prems n by (intro Q) auto
  moreover have "lsb_escape (Suc (Suc fuel)) s n d = Ok (s, n, d)" if "s \<noteq> 17" using that by (simp add: silkMaxPulses_def)
  ultimately show ?case by (cases "s = 17") (simp_all add: case_prod_beta del: lsb_escape.simps)
qed


section \<open>The stages\<close>

definition amp :: "int \<Rightarrow> int \<Rightarrow> i16 list \<Rightarrow> int \<Rightarrow> int \<Rightarrow> bool" where
  "amp lo hi ps a b \<longleftrightarrow> (\<forall>k. a \<le> k \<longrightarrow> k < b \<longrightarrow> lo \<le> sint (ps ! nat k) \<and> sint (ps ! nat k) \<le> hi)"

lemma block_start_eq: "0 \<le> i \<Longrightarrow> i \<le> 1000 \<Longrightarrow> block_start i = 16 * i"
proof -
  assume i: "0 \<le> i" "i \<le> 1000"
  have s: "sint (word_of_int i :: i32) = i" using i by (intro i32_of_int) simp_all
  then have "sint (low16 (word_of_int i)) = i" using i by (simp add: low16_of_int)
  moreover have "sint (low16 16) = 16" by (simp add: low16_def)
  moreover have "sint (word_of_int (i * 16) :: i32) = i * 16" using i by (intro i32_of_int) simp_all
  ultimately show ?thesis by (simp add: block_start_def SMULBB_int)
qed

definition counts_upto :: "bytes \<Rightarrow> int \<Rightarrow> int list \<times> int list \<times> Decoder \<Rightarrow> bool" where
  "counts_upto S i = (\<lambda>(sp, nl, d). length sp = 20 \<and> length nl = 20 \<and> dec_wf S d
     \<and> (\<forall>k. 0 \<le> k \<longrightarrow> k < i \<longrightarrow> 0 \<le> sp ! nat k \<and> sp ! nat k \<le> 16 \<and> 0 \<le> nl ! nat k \<and> nl ! nat k \<le> 10))"

lemma sum_block_sat:
  assumes "counts_upto S i s" "0 \<le> i" "i < 20" "ends_at row 17"
  shows "sat (sum_block row i s) E (counts_upto S (i + 1))"
proof -
  obtain sp nl d where s: "s = (sp, nl, d)" by (cases s)
  have d: "dec_wf S d" "length sp = 20" "length nl = 20" using assms(1) by (simp_all add: counts_upto_def s)
  have k: "counts_upto S (i + 1) (sp[nat i := v], nl[nat i := n], d')"
    if "0 \<le> v" "v \<le> 16" "0 \<le> n" "n \<le> 10" "dec_wf S d'" for v n d'
    using assms that by (auto simp: counts_upto_def s nth_list_update)
  have "sat (DecIcdf d row 8) E (\<lambda>x. sat (lsb_escape 11 (fst x) 0 (snd x)) E
      (\<lambda>y. counts_upto S (i + 1) (sp[nat i := fst y], nl[nat i := fst (snd y)], snd (snd y))))"
  proof (rule dec_symI [OF d(1) assms(4)], unfold fst_conv snd_conv)
    fix v :: int and d' :: Decoder assume "0 \<le> v" "v \<le> 17" "dec_wf S d'"
    then show "sat (lsb_escape 11 v 0 d') E (\<lambda>y. counts_upto S (i + 1) (sp[nat i := fst y], nl[nat i := fst (snd y)], snd (snd y)))"
      using lsb_escape_sat [of S d' v 0 10] k by simp
  qed
  then show ?thesis using assms(2,3) d by (simp add: s sum_block_def case_prod_beta del: lsb_escape.simps)
qed

definition shelled :: "bytes \<Rightarrow> i16 list \<Rightarrow> int \<Rightarrow> i16 list \<times> Decoder \<Rightarrow> bool" where
  "shelled S ps0 i = (\<lambda>(ps, d). length ps = length ps0 \<and> dec_wf S d \<and> amp 0 16 ps 0 (16 * i) \<and> drop (nat (16 * i)) ps = drop (nat (16 * i)) ps0)"

lemma amp_append:
  assumes "amp 0 16 ps 0 (16 * i)" "0 \<le> i" "16 * i + 16 \<le> len ps" "length xs = 16" "\<forall>x \<in> set xs. 0 \<le> sint x \<and> sint x \<le> 16"
  shows "amp 0 16 (take (nat (16 * i)) ps @ xs @ r) 0 (16 * (i + 1))"
  unfolding amp_def
proof (intro allI impI)
  fix k assume k: "0 \<le> k" "k < 16 * (i + 1)"
  show "0 \<le> sint ((take (nat (16 * i)) ps @ xs @ r) ! nat k) \<and> sint ((take (nat (16 * i)) ps @ xs @ r) ! nat k) \<le> 16"
  proof (cases "k < 16 * i")
    case True
    then show ?thesis using assms k by (auto simp: nth_append amp_def)
  next
    case False
    have "nat k - nat (16 * i) < length xs" using False k assms(2,4) by simp
    moreover have "length (take (nat (16 * i)) ps) = nat (16 * i)" using assms(3) by simp
    ultimately have "(take (nat (16 * i)) ps @ xs @ r) ! nat k \<in> set xs" using False k by (simp add: nth_append)
    then show ?thesis using assms(5) by blast
  qed
qed

lemma sum_bounds_each:
  assumes "\<forall>x \<in> set xs. 0 \<le> sint (x :: i16)" "x \<in> set xs"
  shows "sint x \<le> sum_list (map sint xs)"
  using assms
proof (induction xs)
  case (Cons a xs)
  have "0 \<le> sum_list (map sint xs)" using Cons.prems by (intro sum_list_nonneg) auto
  then show ?case using Cons by fastforce
qed simp

lemma shell_block_sat:
  assumes "shelled S ps0 i s" "0 \<le> i" "i < 20" "16 * i + 16 \<le> len ps0" "length sp = 20" "0 \<le> sp ! nat i" "sp ! nat i \<le> 16"
  shows "sat (shell_block sp i s) E (shelled S ps0 (i + 1))"
proof -
  obtain ps d where s: "s = (ps, d)" by (cases s)
  have d: "dec_wf S d" "length ps = length ps0" "amp 0 16 ps 0 (16 * i)" "drop (nat (16 * i)) ps = drop (nat (16 * i)) ps0"
    using assms(1) by (simp_all add: shelled_def s)
  have n: "nat (16 * i) + 16 \<le> length ps" "block_start i = 16 * i" using assms d by (simp_all add: block_start_eq)
  have "drop 16 (drop (nat (16 * i)) ps) = drop 16 (drop (nat (16 * i)) ps0)" using d(4) by simp
  then have tail: "drop (nat (16 * (i + 1))) ps = drop (nat (16 * (i + 1))) ps0" using assms(2) by (simp add: nat_add_distrib add.commute)
  have r: "shelled S ps0 (i + 1) (take (nat (16 * i)) ps @ xs @ drop (nat (16 * (i + 1))) ps, d')"
    if "length xs = 16" "\<forall>x \<in> set xs. 0 \<le> sint x \<and> sint x \<le> 16" "dec_wf S d'" for xs d'
  proof -
    have "amp 0 16 (take (nat (16 * i)) ps @ xs @ drop (nat (16 * (i + 1))) ps) 0 (16 * (i + 1))"
      using d n assms that by (intro amp_append) simp_all
    then show ?thesis using that n tail assms(2) d by (simp add: shelled_def nat_add_distrib)
  qed
  have w: "sat (copy_at ps (16 * i) (xs @ drop 16 (drop (nat (16 * i)) ps))) E (\<lambda>q. shelled S ps0 (i + 1) (q, d'))"
    if "length xs = 16" "\<forall>x \<in> set xs. 0 \<le> sint x \<and> sint x \<le> 16" "dec_wf S d'" for xs d'
    using r [OF that] n(1) assms(2) that(1) by (subst copy_at_Ok) (simp_all add: nat_add_distrib add.commute)
  have z: "sat (copy_at ps (16 * i) (replicate 16 0)) E (\<lambda>q. shelled S ps0 (i + 1) (q, d))"
    using r [of "replicate 16 0" d] d n(1) assms(2) by (subst copy_at_Ok) (simp_all add: nat_add_distrib add.commute)
  have "sat (silkShellDecoder (drop (nat (16 * i)) ps) d (sp ! nat i)) E
      (\<lambda>x. sat (copy_at ps (16 * i) (fst x)) E (\<lambda>q. shelled S ps0 (i + 1) (q, snd x)))"
  proof (rule silkShellDecoderI [OF d(1) assms(6,7)], unfold fst_conv snd_conv)
    fix xs :: "i16 list" and d' :: Decoder assume x: "length xs = 16" "\<forall>x \<in> set xs. 0 \<le> sint x" "sum_list (map sint xs) = sp ! nat i" "dec_wf S d'"
    then have "\<forall>x \<in> set xs. 0 \<le> sint x \<and> sint x \<le> 16" using sum_bounds_each [of xs] assms(7) by fastforce
    with x show "sat (copy_at ps (16 * i) (xs @ drop 16 (drop (nat (16 * i)) ps))) E (\<lambda>q. shelled S ps0 (i + 1) (q, d'))" by (intro w)
  qed (use n(1) in \<open>unfold length_drop, linarith\<close>)
  moreover have "16 * i + 16 \<le> len ps" using assms(4) d(2) by simp
  ultimately show ?thesis using z n assms by (simp add: s shell_block_def shellCodecFrameLength_def Let_def case_prod_beta)
qed


text \<open>The low-order bits: samples before \<open>pos\<close> have theirs, the following ones are still small.\<close>

definition refined :: "bytes \<Rightarrow> int \<Rightarrow> int \<Rightarrow> int \<Rightarrow> i16 list \<times> Decoder \<Rightarrow> bool" where
  "refined S N M pos = (\<lambda>(ps, d). len ps = N \<and> M \<le> N \<and> dec_wf S d \<and> amp 0 17407 ps 0 pos \<and> amp 0 16 ps pos M)"

lemma lsb_bits_sat:
  assumes "dec_wf S d" "0 \<le> sint a" "sint a \<le> 16" "0 \<le> n" "n \<le> 10"
    and Q: "\<And>a d'. 0 \<le> sint a \<Longrightarrow> sint a \<le> 17407 \<Longrightarrow> dec_wf S d' \<Longrightarrow> Q (a, d')"
  shows "sat (for_up 0 n (\<lambda>j (absQ, d).
       bnd (DecIcdf d silkLSBICDF 8) (\<lambda>(v, d). Ok (Silk_LSHIFT absQ 1 + word_of_int v, d))) (a, d)) E Q"
proof (rule sat_for_upI [where I = "\<lambda>j (a, d). 0 \<le> sint (a :: i32) \<and> sint a < 17 * 2 ^ nat j \<and> dec_wf S d"])
  fix i and s :: "i32 \<times> Decoder"
  assume i: "0 \<le> i" "i < n" and s: "case s of (a, d) \<Rightarrow> 0 \<le> sint a \<and> sint a < 17 * 2 ^ nat i \<and> dec_wf S d"
  obtain x d1 where x: "s = (x, d1)" by (cases s)
  have p: "(2 :: int) ^ nat i \<le> 2 ^ 9" using i assms(5) by (intro power_increasing) simp_all
  have n: "nat (i + 1) = Suc (nat i)" using i by simp
  have e: "ends_at silkLSBICDF 1" by (simp add: silkLSBICDF_def ends_at_def)
  have "sint (Silk_LSHIFT x 1 + word_of_int v) = 2 * sint x + v" if "0 \<le> v" "v \<le> 1" for v
  proof -
    have "Silk_LSHIFT x 1 + word_of_int v = word_of_int (2 * sint x + v)" by (simp add: Silk_LSHIFT_def Silk_LSHIFT32_def push_bit_eq_mult)
    moreover have "sint (word_of_int (2 * sint x + v) :: i32) = 2 * sint x + v" using s p that by (intro i32_of_int) (simp_all add: x)
    ultimately show ?thesis by (simp only:)
  qed
  then have "sat (DecIcdf d1 silkLSBICDF 8) E (\<lambda>y. 0 \<le> sint (Silk_LSHIFT x 1 + word_of_int (fst y))
      \<and> sint (Silk_LSHIFT x 1 + word_of_int (fst y)) < 17 * 2 ^ nat (i + 1) \<and> dec_wf S (snd y))"
    using s e by (intro dec_symI [of S d1 silkLSBICDF 1]) (auto simp: x n)
  then show "sat (case s of (absQ, d) \<Rightarrow> bnd (DecIcdf d silkLSBICDF 8) (\<lambda>(v, d). Ok (Silk_LSHIFT absQ 1 + word_of_int v, d))) E
      (\<lambda>(a, d). 0 \<le> sint a \<and> sint a < 17 * 2 ^ nat (i + 1) \<and> dec_wf S d)"
    by (simp add: x case_prod_beta)
next
  fix s assume s: "case s of (a, d) \<Rightarrow> 0 \<le> sint (a :: i32) \<and> sint a < 17 * 2 ^ nat n \<and> dec_wf S d"
  have "(2 :: int) ^ nat n \<le> 2 ^ 10" using assms(4,5) by (intro power_increasing) simp_all
  with s show "Q s" by (auto intro!: Q)
qed (use assms in auto)

lemma amp_upd:
  assumes "lo \<le> sint v" "sint v \<le> hi" "amp lo hi ps a b" "0 \<le> a"
  shows "amp lo hi (ps[nat pos := v]) a b"
proof -
  have "sint (ps[nat pos := v] ! nat k) \<in> {sint v, sint (ps ! nat k)}" for k
    by (cases "nat pos = nat k"; cases "nat pos < length ps") (simp_all add: list_update_beyond)
  then show ?thesis using assms unfolding amp_def by (metis insertE singletonD)
qed

lemma lsb_sample_sat:
  assumes "refined S N M (q + k) s" "0 \<le> q" "0 \<le> k" "q + k < M" "0 \<le> n" "n \<le> 10"
  shows "sat (lsb_sample n q k s) E (refined S N M (q + (k + 1)))"
proof -
  obtain ps d where s: "s = (ps, d)" by (cases s)
  have d: "dec_wf S d" "len ps = N" "M \<le> N" "amp 0 17407 ps 0 (q + k)" "amp 0 16 ps (q + k) M" using assms(1) by (simp_all add: refined_def s)
  let ?x = "ps ! nat (q + k)"
  have x: "0 \<le> sint ?x" "sint ?x \<le> 16" using d(5) assms(4) by (simp_all add: amp_def)
  then have sx: "sint (scast ?x :: i32) = sint ?x" unfolding scast_of_int by (intro i32_of_int) simp_all
  have r: "refined S N M (q + (k + 1)) (ps[nat (q + k) := ucast a], d')" if a: "0 \<le> sint a" "sint a \<le> 17407" "dec_wf S d'" for a :: i32 and d'
  proof -
    have u: "sint (ucast a :: i16) = sint a" using a low16_of_int [of a] by (simp add: low16_def)
    have "amp 0 17407 (ps[nat (q + k) := ucast a]) 0 (q + (k + 1))" unfolding amp_def
      using d assms a u by (auto simp: amp_def nth_list_update)
    moreover have "amp 0 16 (ps[nat (q + k) := ucast a]) (q + (k + 1)) M" using d assms by (auto simp: amp_def nth_list_update)
    ultimately show ?thesis using d a by (simp add: refined_def)
  qed
  have "sat (for_up 0 n (\<lambda>j (absQ, d).
       bnd (DecIcdf d silkLSBICDF 8) (\<lambda>(v, d). Ok (Silk_LSHIFT absQ 1 + word_of_int v, d))) (scast ?x, d)) E
       (\<lambda>y. refined S N M (q + (k + 1)) (ps[nat (q + k) := ucast (fst y)], snd y))"
    using d x assms sx r by (intro lsb_bits_sat) simp_all
  then show ?thesis using d assms by (simp add: s lsb_sample_def case_prod_beta)
qed

definition lsb_done :: "bytes \<Rightarrow> int \<Rightarrow> int \<Rightarrow> int \<Rightarrow> i16 list \<times> int list \<times> Decoder \<Rightarrow> bool" where
  "lsb_done S N M i = (\<lambda>(ps, sp, d). refined S N M (16 * i) (ps, d) \<and> length sp = 20 \<and> (\<forall>k < 20. 16 * int k < M \<longrightarrow> 0 \<le> sp ! k))"

lemma lsb_block_sat:
  assumes "lsb_done S N M i s" "0 \<le> i" "i < 20" "16 * (i + 1) \<le> M" "length nl = 20" "0 \<le> nl ! nat i" "nl ! nat i \<le> 10"
  shows "sat (lsb_block nl i s) E (lsb_done S N M (i + 1))"
proof -
  obtain ps sp d where s: "s = (ps, sp, d)" by (cases s)
  have d: "refined S N M (16 * i) (ps, d)" "length sp = 20" "\<forall>k < 20. 16 * int k < M \<longrightarrow> 0 \<le> sp ! k" using assms(1) by (simp_all add: lsb_done_def s)
  have b: "block_start i = 16 * i" using assms by (simp add: block_start_eq)
  have next16: "16 * (i + 1) = 16 * i + 16" by simp
  have w: "lsb_done S N M (i + 1) (fst y, sp[nat i := sp ! nat i OR push_bit 5 (nl ! nat i)], snd y)" if y: "refined S N M (16 * i + 16) y" for y
  proof -
    have "0 \<le> sp ! nat i OR push_bit 5 (nl ! nat i)" using d(3) assms by (simp add: or_nonnegative_int_iff)
    then show ?thesis using y d assms by (auto simp: lsb_done_def nth_list_update)
  qed
  have "sat (for_up 0 16 (lsb_sample (nl ! nat i) (16 * i)) (ps, d)) E
      (\<lambda>y. lsb_done S N M (i + 1) (fst y, sp[nat i := sp ! nat i OR push_bit 5 (nl ! nat i)], snd y))"
  proof (rule sat_for_upI [where I = "\<lambda>k. refined S N M (16 * i + k)"])
    fix k s assume "0 \<le> k" "k < 16" "refined S N M (16 * i + k) s"
    then show "sat (lsb_sample (nl ! nat i) (16 * i) k s) E (refined S N M (16 * i + (k + 1)))"
      using assms by (intro lsb_sample_sat) simp_all
  qed (use d w in simp_all)
  moreover have "lsb_done S N M (i + 1) (ps, sp, d)"
  proof -
    have lo: "amp 0 17407 ps 0 (16 * i)" "amp 0 16 ps (16 * i) M" using d(1) by (simp_all add: refined_def)
    have "amp 0 17407 ps 0 (16 * i + 16)" unfolding amp_def
    proof (intro allI impI)
      fix k assume "0 \<le> k" "k < 16 * i + 16"
      then show "0 \<le> sint (ps ! nat k) \<and> sint (ps ! nat k) \<le> 17407"
        using lo(1) [unfolded amp_def, rule_format, of k] lo(2) [unfolded amp_def, rule_format, of k] assms(4) by (cases "k < 16 * i") auto
    qed
    moreover have "amp 0 16 ps (16 * i + 16) M" using d(1) by (auto simp: refined_def amp_def)
    ultimately show ?thesis using d by (simp add: lsb_done_def refined_def)
  qed
  ultimately show ?thesis using assms d by (simp add: s lsb_block_def shellCodecFrameLength_def Let_def case_prod_beta b)
qed


section \<open>The signs\<close>

lemma sign_word:
  assumes "0 \<le> v" "v \<le> 1" "- 32768 < sint x"
  shows "sint (x * word_of_int (silkDecMap v) :: i16) = sint x \<or> sint (x * word_of_int (silkDecMap v) :: i16) = - sint x"
proof -
  have "v = 0 \<or> v = 1" using assms by linarith
  moreover have "sint (- x) = - sint x"
  proof -
    have "sint x < 32768" using sint_lt [of x] by simp
    then have "sint (word_of_int (- sint x) :: i16) = - sint x" using assms(3) by (intro i16_of_int) simp_all
    moreover have "word_of_int (- sint x) = - x" by simp
    ultimately show ?thesis by (simp only:)
  qed
  ultimately show ?thesis by (auto simp: silkDecMap_def)
qed

definition signed_amp :: "bytes \<Rightarrow> int \<Rightarrow> int \<Rightarrow> i16 list \<times> Decoder \<Rightarrow> bool" where
  "signed_amp S N M = (\<lambda>(ps, d). len ps = N \<and> dec_wf S d \<and> amp (- 17407) 17407 ps 0 M)"

lemma block_signs_sat:
  assumes "signed_amp S N M s" "M \<le> N" "0 \<le> q" "q + 16 \<le> M"
  shows "sat (block_signs [f, 0] q s) E (signed_amp S N M)"
  unfolding block_signs_def
proof (rule sat_for_upI [where I = "\<lambda>_. signed_amp S N M"])
  fix j :: int and s assume j: "0 \<le> j" "j < 16" "signed_amp S N M s"
  obtain ps d where s: "s = (ps, d)" by (cases s)
  have d: "len ps = N" "dec_wf S d" "amp (- 17407) 17407 ps 0 M" using j(3) by (simp_all add: signed_amp_def s)
  let ?x = "ps ! nat (q + j)"
  have x: "- 17407 \<le> sint ?x" "sint ?x \<le> 17407" using d(3) j assms by (simp_all add: amp_def)
  have w: "signed_amp S N M (ps[nat (q + j) := ?x * word_of_int (silkDecMap v)], d')" if "0 \<le> v" "v \<le> 1" "dec_wf S d'" for v d'
    using sign_word [OF that(1,2), of ?x] that x d by (auto simp: signed_amp_def intro!: amp_upd)
  have "sat (DecIcdf d [f, 0] 8) E (\<lambda>y. signed_amp S N M (ps[nat (q + j) := ?x * word_of_int (silkDecMap (fst y))], snd y))"
    using d w by (intro dec_symI [of S d _ 1]) (simp_all add: ends_at_def)
  then show "sat (case s of (pulses, psRangeDec) \<Rightarrow> bnd (idx pulses (q + j)) (\<lambda>x. if 0 <s x then
       bnd (DecIcdf psRangeDec [f, 0] 8) (\<lambda>(v, psRangeDec). bnd (upd pulses (q + j) (x * word_of_int (silkDecMap v))) (\<lambda>pulses. Ok (pulses, psRangeDec)))
     else Ok (pulses, psRangeDec))) E (signed_amp S N M)"
    using j assms d by (simp add: s case_prod_beta)
qed (use assms in auto)

lemma sign_row: "0 \<le> st \<Longrightarrow> st \<le> 2 \<Longrightarrow> 0 \<le> qo \<Longrightarrow> qo \<le> 1 \<Longrightarrow>
  sint (Silk_SMULBB 7 (Silk_ADD_LSHIFT (word_of_int qo) (word_of_int st) 1)) = 7 * (qo + 2 * st)"
proof -
  assume a: "0 \<le> st" "st \<le> 2" "0 \<le> qo" "qo \<le> 1"
  then have "st \<in> {0, 1, 2}" "qo \<in> {0, 1}" by auto
  then show ?thesis by (auto simp: Silk_SMULBB_def Silk_ADD_LSHIFT_def Silk_LSHIFT_def Silk_LSHIFT32_def low16_def)
qed

lemma shift4: "0 \<le> x \<Longrightarrow> x \<le> 1000 \<Longrightarrow> sint (Silk_RSHIFT (word_of_int x) 4) = x div 16"
  by (simp add: RSHIFT_int i32_of_int)

lemma silkDecodeSigns_sat:
  assumes "signed_amp S N M (ps, d)" "M \<le> N" "0 \<le> st" "st \<le> 2" "0 \<le> qo" "qo \<le> 1" "0 \<le> n" "n \<le> 320"
    and sp: "length sp = 20" "\<forall>k < 20. 16 * int k < M \<longrightarrow> 0 \<le> sp ! k" and M: "16 * ((n + 8) div 16) \<le> M"
  shows "sat (silkDecodeSigns d ps n st qo sp) E (signed_amp S N M)"
proof -
  have b: "sint (Silk_RSHIFT (word_of_int (n + 8)) 4) = (n + 8) div 16" using assms(7,8) by (intro shift4) simp_all
  have len: "length silkSignICDF = 42" by (simp add: silkSignICDF_def)
  define row where "row = drop (nat (7 * (qo + 2 * st))) silkSignICDF"
  have "nat (7 * (qo + 2 * st)) \<le> 35" using assms(3-6) by simp
  then have row: "7 \<le> length row" unfolding length_drop len row_def by linarith
  have sl: "slice_from silkSignICDF (7 * (qo + 2 * st)) = (Ok row :: bytes go)"
    using assms(3-6) unfolding row_def by (intro slice_from_Ok) (simp_all add: len)
  let ?f = "\<lambda>i ((pulses, psRangeDec), qPtr).
        bnd (idx sp i) (\<lambda>p.
        bnd (if p > 0 then
               bnd (idx row (Silk_min_int (p AND 0x1F) 6)) (\<lambda>f. block_signs [f, 0] qPtr (pulses, psRangeDec))
             else Ok (pulses, psRangeDec)) (\<lambda>s. Ok (s, qPtr + 16)))"
  have "sat (for_up 0 ((n + 8) div 16) ?f ((ps, d), 0)) E (\<lambda>x. signed_amp S N M (fst x))"
  proof (rule sat_for_upI [where I = "\<lambda>i (s, q). signed_amp S N M s \<and> q = 16 * i"])
    fix i :: int and x assume i: "0 \<le> i" "i < (n + 8) div 16" and x: "case x of (s, q) \<Rightarrow> signed_amp S N M s \<and> q = 16 * i"
    obtain s where s: "x = (s, 16 * i)" "signed_amp S N M s" using x by (cases x) auto
    have p: "i < 20" "16 * i + 16 \<le> M" using i assms(8) M by linarith+
    then have "0 \<le> sp ! nat i" using sp(2) [rule_format, of "nat i"] i by simp
    then have k: "0 \<le> sp ! nat i AND 31" by simp
    then have "0 \<le> Silk_min_int (sp ! nat i AND 31) 6" "Silk_min_int (sp ! nat i AND 31) 6 < len row"
      using row by (auto simp: Silk_min_int_def)
    moreover have "sat (block_signs [f, 0] (16 * i) s) E (signed_amp S N M)" for f
      using s p assms(2) i by (intro block_signs_sat) simp_all
    ultimately show "sat (?f i x) E (\<lambda>(s, q). signed_amp S N M s \<and> q = 16 * (i + 1))"
      using s sp(1) p i by (simp add: case_prod_beta)
  qed (use assms in auto)
  then show ?thesis unfolding silkDecodeSigns_def Let_def b sign_row [OF assms(3-6)] sl bnd.simps by (simp add: case_prod_beta)
qed


section \<open>DecodePulses\<close>

lemma shell_blocks_eq:
  assumes "0 \<le> n" "n \<le> 320"
  shows "shell_blocks n = (n + 15) div 16"
proof -
  define q r where "q = n div 16" and "r = n mod 16"
  have n: "n = 16 * q + r" "0 \<le> r" "r < 16" by (simp_all add: q_def r_def)
  have "(if q * 16 < n then q + 1 else q) = (n + 15) div 16"
  proof (cases "r = 0")
    case True
    then show ?thesis using n int_div_pos_eq [of "n + 15" 16 q 15] by simp
  next
    case False
    then have r: "0 < r" using n by simp
    have "n + 15 = 16 * (q + 1) + (r - 1)" using n(1) by simp
    then have "(n + 15) div 16 = q + 1" by (rule int_div_pos_eq) (use n r in simp_all)
    moreover have "q * 16 < n" using n r by linarith
    ultimately show ?thesis by simp
  qed
  then have "(if n div 16 * 16 < n then n div 16 + 1 else n div 16) = (n + 15) div 16" by (simp only: q_def)
  then show ?thesis using shift4 [OF assms(1)] assms by (simp add: shell_blocks_def shellCodecFrameLength_def)
qed

lemma rate_rows: "length silkRateLevelsICDF = 2" "k < 2 \<Longrightarrow> ends_at (silkRateLevelsICDF ! k) 8"
proof -
  have "list_all (\<lambda>r. ends_at r 8) silkRateLevelsICDF" by (simp add: silkRateLevelsICDF_def ends_at_def)
  moreover show "length silkRateLevelsICDF = 2" by (simp add: silkRateLevelsICDF_def)
  ultimately show "k < 2 \<Longrightarrow> ends_at (silkRateLevelsICDF ! k) 8" by (simp add: list_all_length)
qed

lemma pulse_stages:
  assumes "dec_wf S d" "ends_at row 17" "0 \<le> st" "st \<le> 2" "0 \<le> qo" "qo \<le> 1" "0 \<le> n" "n \<le> 320"
    and iter: "iter = (n + 15) div 16" "16 * iter \<le> len ps"
  shows "sat (pulse_blocks row iter st qo n d ps) E (signed_amp S (len ps) (16 * iter))"
  unfolding pulse_blocks_def sat_bnd
proof (rule sat_for_upI [where I = "counts_upto S"])
  have i: "0 \<le> iter" "iter \<le> 20" using assms(7,8) iter by simp_all
  then show "0 \<le> iter" by simp
  show "counts_upto S 0 (replicate maxNbShellBlocks 0, replicate maxNbShellBlocks 0, d)"
    using assms(1) by (simp add: counts_upto_def maxNbShellBlocks_def)
  show "sat (sum_block row k s) E (counts_upto S (k + 1))" if "0 \<le> k" "k < iter" "counts_upto S k s" for k s
    using that i assms(2) by (intro sum_block_sat) simp_all
  fix c assume c: "counts_upto S iter c"
  obtain sp nl d1 where s: "c = (sp, nl, d1)" by (cases c)
  have l: "length sp = 20" "length nl = 20" "dec_wf S d1" using c by (simp_all add: counts_upto_def s)
  have v: "0 \<le> sp ! nat k" "sp ! nat k \<le> 16" "0 \<le> nl ! nat k" "nl ! nat k \<le> 10" if "0 \<le> k" "k < iter" for k
    using c that by (simp_all add: counts_upto_def s)
  have sp0: "\<forall>k < 20. 16 * int k < 16 * iter \<longrightarrow> 0 \<le> sp ! k" using v(1) by (metis mult_less_cancel_left_pos nat_int of_nat_0_le_iff zero_less_numeral)
  show "sat (case c of (sumPulses, nLshifts, d) \<Rightarrow> bnd (for_up 0 iter (shell_block sumPulses) (ps, d)) (\<lambda>(pulses, d).
     bnd (for_up 0 iter (lsb_block nLshifts) (pulses, sumPulses, d)) (\<lambda>(pulses, sumPulses, d).
     silkDecodeSigns d pulses n st qo sumPulses))) E (signed_amp S (len ps) (16 * iter))"
    unfolding s prod.case sat_bnd
  proof (rule sat_for_upI [where I = "shelled S ps"])
    show "shelled S ps 0 (ps, d1)" using l by (simp add: shelled_def amp_def)
    show "sat (shell_block sp k s) E (shelled S ps (k + 1))" if "0 \<le> k" "k < iter" "shelled S ps k s" for k s
      using that v l i iter(2) by (intro shell_block_sat) simp_all
    fix a assume a: "shelled S ps iter a"
    obtain ps1 d2 where a1: "a = (ps1, d2)" by (cases a)
    show "sat (case a of (pulses, d) \<Rightarrow> bnd (for_up 0 iter (lsb_block nl) (pulses, sp, d)) (\<lambda>(pulses, sumPulses, d).
       silkDecodeSigns d pulses n st qo sumPulses)) E (signed_amp S (len ps) (16 * iter))"
      unfolding a1 prod.case sat_bnd
    proof (rule sat_for_upI [where I = "lsb_done S (len ps) (16 * iter)"])
      show "lsb_done S (len ps) (16 * iter) 0 (ps1, sp, d2)"
        using a l iter(2) sp0 by (simp add: lsb_done_def refined_def shelled_def a1) (simp add: amp_def)
      show "sat (lsb_block nl k s) E (lsb_done S (len ps) (16 * iter) (k + 1))"
        if "0 \<le> k" "k < iter" "lsb_done S (len ps) (16 * iter) k s" for k s
        using that v l i by (intro lsb_block_sat) simp_all
      fix b assume b: "lsb_done S (len ps) (16 * iter) iter b"
      obtain ps2 sp2 d3 where b1: "b = (ps2, sp2, d3)" by (cases b)
      have w: "signed_amp S (len ps) (16 * iter) (ps2, d3)" using b by (force simp: lsb_done_def refined_def signed_amp_def amp_def b1)
      have q: "length sp2 = 20" "\<forall>k < 20. 16 * int k < 16 * iter \<longrightarrow> 0 \<le> sp2 ! k" using b by (simp_all add: lsb_done_def b1)
      have "(n + 8) div 16 \<le> iter" unfolding iter(1) by (rule zdiv_mono1) simp_all
      then have "16 * ((n + 8) div 16) \<le> 16 * iter" by simp
      then show "sat (case b of (pulses, sumPulses, d) \<Rightarrow> silkDecodeSigns d pulses n st qo sumPulses) E (signed_amp S (len ps) (16 * iter))"
        unfolding b1 prod.case using silkDecodeSigns_sat [OF w iter(2) assms(3-8) q] by blast
    qed (use i in simp)
  qed (use i in simp)
qed

lemma DecodePulsesI:
  assumes "dec_wf S d" "0 \<le> st" "st \<le> 2" "0 \<le> qo" "qo \<le> 1" "0 \<le> n" "n \<le> 320" "16 * ((n + 15) div 16) \<le> len ps"
    and Q: "\<And>ps' d'. len ps' = len ps \<Longrightarrow> amp (- 17407) 17407 ps' 0 (16 * ((n + 15) div 16)) \<Longrightarrow> dec_wf S d' \<Longrightarrow> Q (ps', d')"
  shows "sat (DecodePulses d ps st qo n) E Q"
proof -
  have h: "0 \<le> drop_bit 1 st" "drop_bit 1 st < 2" using assms(2,3) by (simp_all add: drop_bit_eq_div)
  have "sat (DecIcdf d (silkRateLevelsICDF ! nat (drop_bit 1 st)) 8) E (\<lambda>x. 0 \<le> fst x \<and> fst x < 10
     \<and> sat (pulse_blocks (silkPulsesPerBlockICDF ! nat (fst x)) (shell_blocks n) st qo n (snd x) ps) E Q)"
  proof (rule dec_symI [OF assms(1) rate_rows(2)], unfold fst_conv snd_conv)
    fix v :: int and d' :: Decoder assume v: "0 \<le> v" "v \<le> 8" "dec_wf S d'"
    have "ends_at (silkPulsesPerBlockICDF ! nat v) 17" using v by (intro pulse_rows(2)) simp
    note pulse_stages [OF v(3) this assms(2-7) refl assms(8), of E]
    then have "sat (pulse_blocks (silkPulsesPerBlockICDF ! nat v) (shell_blocks n) st qo n d' ps) E Q"
      unfolding shell_blocks_eq [OF assms(6,7)] by (rule sat_mono) (auto simp: signed_amp_def intro!: Q)
    then show "0 \<le> v \<and> v < 10 \<and> sat (pulse_blocks (silkPulsesPerBlockICDF ! nat v) (shell_blocks n) st qo n d' ps) E Q"
      using v by simp
  qed (use h in simp)
  then show ?thesis using h by (simp add: DecodePulses_def rate_rows pulse_rows case_prod_beta)
qed

section \<open>The properties\<close>

text \<open>The shell decoder of a block is a recursive halving of the pulse count: the sixteen amplitudes it writes,
  the symbols it reads and their order are those of the binary tree, and the samples after the block are untouched.\<close>

theorem shell_decoder_is_the_tree:
  assumes "16 \<le> length pulses0"
  shows "silkShellDecoder pulses0 d (sint p) =
    bnd (shell_tree [silkShellCodeTable3, silkShellCodeTable2, silkShellCodeTable1, silkShellCodeTable0] p d)
      (\<lambda>(xs, d). Ok (xs @ drop 16 pulses0, d))"
proof -
  obtain n where "length pulses0 = 16 + n" using assms le_Suc_ex by blast
  from shell_is_tree [OF this] show ?thesis by (simp add: bnd_assoc bnd_case_prod cong: bnd_cong)
qed

theorem shell_decoder_is_the_tree_witness:
  "silkShellDecoder (replicate 16 0) zero_dec (sint (3 :: i16)) =
    bnd (shell_tree [silkShellCodeTable3, silkShellCodeTable2, silkShellCodeTable1, silkShellCodeTable0] 3 zero_dec)
      (\<lambda>(xs, d). Ok (xs @ drop 16 (replicate 16 0), d))"
  by (rule shell_decoder_is_the_tree) simp

text \<open>C17: whatever bytes the decoder stands in, the excitation of a frame of at most 320 samples is read without a
  panic, keeps the length of the buffer, and every amplitude is at most 16 * 1024 + 1023 in absolute value, so
  that no shift and no conversion to 16 bits loses a bit.\<close>

theorem decode_pulses_bounded:
  assumes "dec_wf S d" "0 \<le> signalType" "signalType \<le> 2" "0 \<le> quantOffset" "quantOffset \<le> 1"
    "0 \<le> frameLength" "frameLength \<le> 320" "16 * ((frameLength + 15) div 16) \<le> len pulses"
  shows "\<exists>pulses' d'. DecodePulses d pulses signalType quantOffset frameLength = Ok (pulses', d')
    \<and> length pulses' = length pulses \<and> (\<forall>k < nat frameLength. \<bar>sint (pulses' ! k)\<bar> \<le> 17407) \<and> dec_wf S d'"
proof -
  have "sat (DecodePulses d pulses signalType quantOffset frameLength) (\<lambda>_. False) (\<lambda>(ps, d'). length ps = length pulses
    \<and> (\<forall>k < nat frameLength. \<bar>sint (ps ! k)\<bar> \<le> 17407) \<and> dec_wf S d')"
  proof (rule DecodePulsesI [OF assms], clarsimp)
    fix ps' k assume a: "amp (- 17407) 17407 ps' 0 (16 * ((frameLength + 15) div 16))" "k < nat frameLength"
    have "int k < 16 * ((frameLength + 15) div 16)" using a(2) by linarith
    then show "\<bar>sint (ps' ! k)\<bar> \<le> 17407" using a(1) [unfolded amp_def, rule_format, of "int k"] unfolding abs_le_iff by simp
  qed
  then show ?thesis by (cases "DecodePulses d pulses signalType quantOffset frameLength") auto
qed

theorem decode_pulses_bounded_witness:
  "\<exists>d pulses' d'. Dec_Init zero_dec [200, 3, 17] = Ok d \<and> DecodePulses d (replicate 80 0) 2 1 80 = Ok (pulses', d')
    \<and> length pulses' = 80 \<and> (\<forall>k < 80. \<bar>sint (pulses' ! k)\<bar> \<le> 17407)"
proof -
  obtain d where d: "Dec_Init zero_dec [200, 3, 17] = Ok d" "dec_rel d [200, 3, 17] 4 0 2147483648 0"
    using Dec_Init_rel [of "[200, 3, 17]"] by auto
  then have "dec_wf [200, 3, 17] d" unfolding dec_wf_def by (intro exI conjI) (assumption, simp)
  from decode_pulses_bounded [OF this, of 2 1 80 "replicate 80 0"] d(1) show ?thesis by auto
qed

end
