(* ===== verification/Silk_Nlsf.thy ===== *)
theory Silk_Nlsf
  imports Silk_Tables Go_Loops
begin

text \<open>
  The line spectral frequencies of a SILK frame (\<^verbatim>\<open>internal/silk\<close>: \<^verbatim>\<open>sort.go\<close>, \<^verbatim>\<open>nlsf_decode.go\<close>): the insertion
  sort, the stabiliser that keeps the frequencies apart, and their reconstruction from the indices of the codebook.
  Arrays a function writes are arguments and results.
\<close>

section \<open>sort.go\<close>

text \<open>The inner loop from \<open>j\<close>; the first argument is \<open>j + 1\<close>, the second result the \<open>j\<close> at its end.\<close>

fun ins_shift :: "nat \<Rightarrow> int \<Rightarrow> i16 list \<Rightarrow> (i16 list \<times> int) go" where
  "ins_shift 0 v a = Ok (a, - 1)"
| "ins_shift (Suc j) v a =
     bnd (idx a (int j)) (\<lambda>x.
     if v < sint x then bnd (upd a (int j + 1) x) (\<lambda>a. ins_shift j v a) else Ok (a, int j))"

definition silkInsertionSortIncreasingAllValuesInt16 :: "i16 list \<Rightarrow> int \<Rightarrow> i16 list go" where
  "silkInsertionSortIncreasingAllValuesInt16 a L = for_up 1 L (\<lambda>i a.
     bnd (idx a i) (\<lambda>x. let v = sint x in
     bnd (ins_shift (nat i) v a) (\<lambda>(a, j). upd a (j + 1) (word_of_int v)))) a"

section \<open>The stabiliser\<close>

definition stabilizeMaxLoops :: nat where "stabilizeMaxLoops = 20"

text \<open>The smallest distance to a bound: its value and where it is.\<close>

definition min_distance :: "i16 list \<Rightarrow> i16 list \<Rightarrow> int \<Rightarrow> (i32 \<times> int) go" where
  "min_distance NLSF_Q15 NDeltaMin_Q15 L =
     bnd (idx NLSF_Q15 0) (\<lambda>x0.
     bnd (idx NDeltaMin_Q15 0) (\<lambda>d0.
     bnd (for_up 1 L (\<lambda>i (min_diff_Q15, I).
       bnd (idx NLSF_Q15 i) (\<lambda>x.
       bnd (idx NLSF_Q15 (i - 1)) (\<lambda>y.
       bnd (idx NDeltaMin_Q15 i) (\<lambda>d.
       let diff_Q15 = scast x - (scast y + scast d) in
       Ok (if diff_Q15 <s min_diff_Q15 then (diff_Q15, i) else (min_diff_Q15, I)))))) (scast x0 - scast d0, 0)) (\<lambda>(min_diff_Q15, I).
     bnd (idx NLSF_Q15 (L - 1)) (\<lambda>x.
     bnd (idx NDeltaMin_Q15 L) (\<lambda>d.
     let diff_Q15 = push_bit 15 1 - (scast x + scast d) in
     Ok (if diff_Q15 <s min_diff_Q15 then (diff_Q15, L) else (min_diff_Q15, I)))))))"

definition move_apart :: "i16 list \<Rightarrow> i16 list \<Rightarrow> int \<Rightarrow> int \<Rightarrow> i16 list go" where
  "move_apart NLSF_Q15 NDeltaMin_Q15 L I =
     bnd (for_up 0 I (\<lambda>k s. bnd (idx NDeltaMin_Q15 k) (\<lambda>d. Ok (s + scast d))) 0) (\<lambda>min_center_Q15.
     bnd (idx NDeltaMin_Q15 I) (\<lambda>dI.
     let min_center_Q15 = min_center_Q15 + Silk_RSHIFT (scast dI) 1 in
     bnd (for_down (L - I) (\<lambda>m s. bnd (idx NDeltaMin_Q15 (m + I + 1)) (\<lambda>d. Ok (s - scast d))) (push_bit 15 1)) (\<lambda>max_center_Q15.
     let max_center_Q15 = max_center_Q15 - Silk_RSHIFT (scast dI) 1 in
     bnd (idx NLSF_Q15 (I - 1)) (\<lambda>a.
     bnd (idx NLSF_Q15 I) (\<lambda>b.
     let center_freq_Q15 = ucast (Silk_LIMIT_32 (Silk_RSHIFT_ROUND (scast a + scast b) 1) min_center_Q15 max_center_Q15) :: i16;
         low = ucast (scast center_freq_Q15 - Silk_RSHIFT (scast dI) 1 :: i32) in
     bnd (upd NLSF_Q15 (I - 1) low) (\<lambda>NLSF_Q15.
     upd NLSF_Q15 I (ucast (scast low + scast dI :: i32))))))))"

definition stabilize_step :: "i16 list \<Rightarrow> i16 list \<Rightarrow> int \<Rightarrow> int \<Rightarrow> i16 list go" where
  "stabilize_step NLSF_Q15 NDeltaMin_Q15 L I =
     (if I = 0 then bnd (idx NDeltaMin_Q15 0) (\<lambda>d. upd NLSF_Q15 0 d)
      else if I = L then bnd (idx NDeltaMin_Q15 L) (\<lambda>d. upd NLSF_Q15 (L - 1) (ucast (push_bit 15 1 - scast d :: i32)))
      else move_apart NLSF_Q15 NDeltaMin_Q15 L I)"

text \<open>The loop with the turns left; \<open>True\<close>: it returned because the smallest distance is not negative.\<close>

fun stabilize_loop :: "nat \<Rightarrow> i16 list \<Rightarrow> i16 list \<Rightarrow> int \<Rightarrow> (i16 list \<times> bool) go" where
  "stabilize_loop 0 NLSF_Q15 NDeltaMin_Q15 L = Ok (NLSF_Q15, False)"
| "stabilize_loop (Suc n) NLSF_Q15 NDeltaMin_Q15 L =
     bnd (min_distance NLSF_Q15 NDeltaMin_Q15 L) (\<lambda>(min_diff_Q15, I).
     if 0 \<le>s min_diff_Q15 then Ok (NLSF_Q15, True)
     else bnd (stabilize_step NLSF_Q15 NDeltaMin_Q15 L I) (\<lambda>NLSF_Q15. stabilize_loop n NLSF_Q15 NDeltaMin_Q15 L))"

text \<open>The two passes of the fallback: upwards from the lower bound, downwards from the upper one.\<close>

definition space_up :: "i16 list \<Rightarrow> int \<Rightarrow> i16 list \<Rightarrow> i16 list go" where
  "space_up NDeltaMin_Q15 L = for_up 1 L (\<lambda>i NLSF_Q15.
     bnd (idx NLSF_Q15 i) (\<lambda>x.
     bnd (idx NLSF_Q15 (i - 1)) (\<lambda>y.
     bnd (idx NDeltaMin_Q15 i) (\<lambda>d.
     upd NLSF_Q15 i (word_of_int (Silk_max_int (sint x) (sint (Silk_ADD_SAT16 y d))))))))"

definition space_down :: "i16 list \<Rightarrow> int \<Rightarrow> i16 list \<Rightarrow> i16 list go" where
  "space_down NDeltaMin_Q15 L = for_down (L - 1) (\<lambda>i NLSF_Q15.
     bnd (idx NLSF_Q15 i) (\<lambda>x.
     bnd (idx NLSF_Q15 (i + 1)) (\<lambda>y.
     bnd (idx NDeltaMin_Q15 (i + 1)) (\<lambda>d.
     upd NLSF_Q15 i (word_of_int (Silk_min_int (sint x) (sint y - sint d)))))))"

definition stabilize_fallback :: "i16 list \<Rightarrow> i16 list \<Rightarrow> int \<Rightarrow> i16 list go" where
  "stabilize_fallback NLSF_Q15 NDeltaMin_Q15 L =
     bnd (silkInsertionSortIncreasingAllValuesInt16 NLSF_Q15 L) (\<lambda>NLSF_Q15.
     bnd (idx NLSF_Q15 0) (\<lambda>x0.
     bnd (idx NDeltaMin_Q15 0) (\<lambda>d0.
     bnd (upd NLSF_Q15 0 (word_of_int (Silk_max_int (sint x0) (sint d0)))) (\<lambda>NLSF_Q15.
     bnd (space_up NDeltaMin_Q15 L NLSF_Q15) (\<lambda>NLSF_Q15.
     bnd (idx NLSF_Q15 (L - 1)) (\<lambda>x.
     bnd (idx NDeltaMin_Q15 L) (\<lambda>d.
     bnd (upd NLSF_Q15 (L - 1) (word_of_int (Silk_min_int (sint x) (push_bit 15 1 - sint d)))) (\<lambda>NLSF_Q15.
     space_down NDeltaMin_Q15 L NLSF_Q15))))))))"

definition NLSFStabilize :: "i16 list \<Rightarrow> i16 list \<Rightarrow> int \<Rightarrow> i16 list go" where
  "NLSFStabilize NLSF_Q15 NDeltaMin_Q15 L =
     bnd (stabilize_loop stabilizeMaxLoops NLSF_Q15 NDeltaMin_Q15 L) (\<lambda>(NLSF_Q15, returned).
     if returned then Ok NLSF_Q15 else stabilize_fallback NLSF_Q15 NDeltaMin_Q15 L)"

section \<open>Reconstruction\<close>

definition maxLPCOrder :: nat where "maxLPCOrder = 16"
definition nlsfQuantMaxAmplitude :: int where "nlsfQuantMaxAmplitude = 4"

text \<open>
  \<^verbatim>\<open>silkFixConst(c, q)\<close> is the integer part of \<open>c * 2 ^ q + 0.5\<close>, computed in \<^verbatim>\<open>float64\<close>; here \<open>c = p / r\<close>
  and the value is exact.  For the constants of this package it is far enough from an integer that the rounding of
  the \<^verbatim>\<open>float64\<close> product does not change its integer part.
\<close>

definition silkFixConst :: "int \<Rightarrow> int \<Rightarrow> nat \<Rightarrow> i32" where
  "silkFixConst p r q = word_of_int ((2 * p * 2 ^ q + r) div (2 * r))"

definition nlsfQuantLevelAdjQ10 :: i32 where "nlsfQuantLevelAdjQ10 = silkFixConst 1 10 10"

definition silkNLSFResidualDequant :: "i16 list \<Rightarrow> i8 list \<Rightarrow> bytes \<Rightarrow> i32 \<Rightarrow> int \<Rightarrow> i16 list go" where
  "silkNLSFResidualDequant x_Q10 indices pred_coef_Q8 quant_step_size_Q16 order =
     bnd (for_down order (\<lambda>i (x_Q10, out_Q10).
       bnd (idx pred_coef_Q8 i) (\<lambda>p.
       let pred_Q10 = Silk_RSHIFT (Silk_SMULBB out_Q10 (ucast p)) 8 in
       bnd (idx indices i) (\<lambda>ind.
       let out_Q10 = Silk_LSHIFT (scast ind) 10;
           out_Q10 = (if 0 <s out_Q10 then out_Q10 - nlsfQuantLevelAdjQ10
                      else if out_Q10 <s 0 then out_Q10 + nlsfQuantLevelAdjQ10 else out_Q10);
           out_Q10 = Silk_SMLAWB pred_Q10 out_Q10 quant_step_size_Q16 in
       bnd (upd x_Q10 i (ucast out_Q10)) (\<lambda>x_Q10. Ok (x_Q10, out_Q10))))) (x_Q10, 0)) (\<lambda>(x_Q10, _). Ok x_Q10)"

definition unpack_index :: "i32 \<Rightarrow> nat \<Rightarrow> i16" where
  "unpack_index entry shift = ucast (Silk_SMULBB (Silk_RSHIFT entry shift AND 7) (2 * word_of_int nlsfQuantMaxAmplitude + 1))"

definition silkNLSFUnpack :: "i16 list \<Rightarrow> bytes \<Rightarrow> NLSFCB \<Rightarrow> int \<Rightarrow> (i16 list \<times> bytes) go" where
  "silkNLSFUnpack ec_ix pred_Q8 cb CB1_index =
     (let order = sint (cb_order cb) in
      bnd (slice_from (cb_ecSel cb) (CB1_index * order sdiv 2)) (\<lambda>ec_sel_ptr.
      for_up 0 ((order + 1) div 2) (\<lambda>sel (ec_ix, pred_Q8).
        let i = 2 * sel in
        bnd (idx ec_sel_ptr sel) (\<lambda>b. let entry = ucast b :: i32 in
        bnd (upd ec_ix i (unpack_index entry 1)) (\<lambda>ec_ix.
        bnd (idx (cb_predQ8 cb) (i + sint (entry AND 1) * (order - 1))) (\<lambda>p.
        bnd (upd pred_Q8 i p) (\<lambda>pred_Q8.
        bnd (upd ec_ix (i + 1) (unpack_index entry 5)) (\<lambda>ec_ix.
        bnd (idx (cb_predQ8 cb) (i + sint (Silk_RSHIFT entry 4 AND 1) * (order - 1) + 1)) (\<lambda>p.
        bnd (upd pred_Q8 (i + 1) p) (\<lambda>pred_Q8. Ok (ec_ix, pred_Q8))))))))) (ec_ix, pred_Q8)))"

definition nlsf_element :: "i16 \<Rightarrow> i16 \<Rightarrow> u8 \<Rightarrow> i16 go" where
  "nlsf_element res_Q10 wght_Q9 element =
     bnd (Silk_DIV32_16 (Silk_LSHIFT (scast res_Q10) 14) (scast wght_Q9)) (\<lambda>q.
     let NLSF_Q15_tmp = Silk_ADD_LSHIFT32 q (scast (ucast element :: i16)) 7 in
     Ok (ucast (Silk_LIMIT_32 NLSF_Q15_tmp 0 32767)))"

definition silkNLSFDecode :: "i16 list \<Rightarrow> i8 list \<Rightarrow> NLSFCB \<Rightarrow> i16 list go" where
  "silkNLSFDecode pNLSF_Q15 NLSFIndices cb =
     (let order = sint (cb_order cb) in
      bnd (idx NLSFIndices 0) (\<lambda>CB1.
      bnd (silkNLSFUnpack (replicate maxLPCOrder 0) (replicate maxLPCOrder 0) cb (sint CB1)) (\<lambda>(ec_ix, pred_Q8).
      bnd (slice_from NLSFIndices 1) (\<lambda>indices.
      bnd (silkNLSFResidualDequant (replicate maxLPCOrder 0) indices pred_Q8 (scast (cb_quantStepSizeQ16 cb)) order) (\<lambda>res_Q10.
      let off = sint CB1 * order in
      bnd (slice_from (cb_cb1NLSFQ8 cb) off) (\<lambda>pCB_element.
      bnd (slice_from (cb_cb1WghtQ9 cb) off) (\<lambda>pCB_Wght_Q9.
      bnd (for_up 0 order (\<lambda>i pNLSF_Q15.
        bnd (idx res_Q10 i) (\<lambda>r.
        bnd (idx pCB_Wght_Q9 i) (\<lambda>w.
        bnd (idx pCB_element i) (\<lambda>c.
        bnd (nlsf_element r w c) (\<lambda>x. upd pNLSF_Q15 i x))))) pNLSF_Q15) (\<lambda>pNLSF_Q15.
      NLSFStabilize pNLSF_Q15 (cb_deltaMinQ15 cb) order))))))))"

definition NLSFDecode :: "i16 list \<Rightarrow> i8 list \<Rightarrow> int \<Rightarrow> i16 list go" where
  "NLSFDecode pNLSF_Q15 NLSFIndices order =
     (let cb = (if order = 16 then silkNLSFCBWB else silkNLSFCBNBMB) in silkNLSFDecode pNLSF_Q15 NLSFIndices cb)"

end
