(* ===== verification/Silk_Lpc.thy ===== *)
theory Silk_Lpc
  imports Silk_Nlsf
begin

text \<open>
  Prediction filters (\<^verbatim>\<open>internal/silk\<close>: \<^verbatim>\<open>bwexpander.go\<close>, \<^verbatim>\<open>lpc_analysis.go\<close>, \<^verbatim>\<open>lpc_analysis_filter.go\<close>, \<^verbatim>\<open>nlsf2a.go\<close>):
  bandwidth expansion, the fit to 16 bits, the stability test, the whitening filter, and the conversion of line
  spectral frequencies to a filter.
\<close>

section \<open>bwexpander.go\<close>

definition Bwexpander :: "i16 list \<Rightarrow> int \<Rightarrow> i32 \<Rightarrow> i16 list go" where
  "Bwexpander ar d chirp_Q16 =
     (let chirp_minus_one_Q16 = chirp_Q16 - 65536 in
      bnd (for_up 0 (d - 1) (\<lambda>i (ar, chirp_Q16).
        bnd (idx ar i) (\<lambda>x.
        bnd (upd ar i (ucast (Silk_RSHIFT_ROUND (Silk_MUL chirp_Q16 (scast x)) 16))) (\<lambda>ar.
        Ok (ar, chirp_Q16 + Silk_RSHIFT_ROUND (Silk_MUL chirp_Q16 chirp_minus_one_Q16) 16)))) (ar, chirp_Q16)) (\<lambda>(ar, chirp_Q16).
      bnd (idx ar (d - 1)) (\<lambda>x. upd ar (d - 1) (ucast (Silk_RSHIFT_ROUND (Silk_MUL chirp_Q16 (scast x)) 16)))))"

definition Bwexpander32 :: "i32 list \<Rightarrow> int \<Rightarrow> i32 \<Rightarrow> i32 list go" where
  "Bwexpander32 ar d chirp_Q16 =
     (let chirp_minus_one_Q16 = chirp_Q16 - 65536 in
      bnd (for_up 0 (d - 1) (\<lambda>i (ar, chirp_Q16).
        bnd (idx ar i) (\<lambda>x.
        bnd (upd ar i (Silk_SMULWW chirp_Q16 x)) (\<lambda>ar.
        Ok (ar, chirp_Q16 + Silk_RSHIFT_ROUND (Silk_MUL chirp_Q16 chirp_minus_one_Q16) 16)))) (ar, chirp_Q16)) (\<lambda>(ar, chirp_Q16).
      bnd (idx ar (d - 1)) (\<lambda>x. upd ar (d - 1) (Silk_SMULWW chirp_Q16 x))))"

section \<open>lpc_analysis.go: the fit\<close>

definition silkMaxOrderLPC :: nat where "silkMaxOrderLPC = 24"
definition lpcFit999Q16 :: i32 where "lpcFit999Q16 = silkFixConst 999 1000 16"

definition max_coef :: "i32 list \<Rightarrow> int \<Rightarrow> int \<Rightarrow> (i32 \<times> int) go" where
  "max_coef a_QIN d ix = for_up 0 d (\<lambda>k (maxabs, ix).
     bnd (idx a_QIN k) (\<lambda>x. let absval = Silk_abs x in
     Ok (if maxabs <s absval then (absval, k) else (maxabs, ix)))) (0, ix)"

definition fit_chirp :: "i32 \<Rightarrow> int \<Rightarrow> i32 go" where
  "fit_chirp maxabs ix =
     (let maxabs = Silk_min_32 maxabs 163838 in
      bnd (Silk_DIV32 (Silk_LSHIFT (maxabs - 32767) 14) (Silk_RSHIFT32 (Silk_MUL maxabs (word_of_int (ix + 1))) 2)) (\<lambda>q.
      Ok (lpcFit999Q16 - q)))"

text \<open>The loop with the turns left; \<open>True\<close>: it was left by \<^verbatim>\<open>break\<close>.\<close>

fun fit_loop :: "nat \<Rightarrow> i32 list \<Rightarrow> nat \<Rightarrow> int \<Rightarrow> int \<Rightarrow> (i32 list \<times> bool) go" where
  "fit_loop 0 a_QIN sh d ix = Ok (a_QIN, False)"
| "fit_loop (Suc n) a_QIN sh d ix =
     bnd (max_coef a_QIN d ix) (\<lambda>(maxabs, ix).
     let maxabs = Silk_RSHIFT_ROUND maxabs sh in
     if 32767 <s maxabs then
       bnd (fit_chirp maxabs ix) (\<lambda>chirp_Q16.
       bnd (Bwexpander32 a_QIN d chirp_Q16) (\<lambda>a_QIN. fit_loop n a_QIN sh d ix))
     else Ok (a_QIN, True))"

text \<open>\<open>QIN - QOUT\<close> is a constant of the only call (5).\<close>

definition silkLPCFit :: "i16 list \<Rightarrow> i32 list \<Rightarrow> int \<Rightarrow> int \<Rightarrow> int \<Rightarrow> (i16 list \<times> i32 list) go" where
  "silkLPCFit a_QOUT a_QIN QOUT QIN d =
     (let sh = nat (QIN - QOUT) in
      bnd (fit_loop 10 a_QIN sh d 0) (\<lambda>(a_QIN, broke).
      if \<not> broke then
        for_up 0 d (\<lambda>k (a_QOUT, a_QIN).
          bnd (idx a_QIN k) (\<lambda>x. let y = ucast (Silk_SAT16 (Silk_RSHIFT_ROUND x sh)) in
          bnd (upd a_QOUT k y) (\<lambda>a_QOUT.
          bnd (upd a_QIN k (Silk_LSHIFT (scast y) sh)) (\<lambda>a_QIN. Ok (a_QOUT, a_QIN))))) (a_QOUT, a_QIN)
      else
        bnd (for_up 0 d (\<lambda>k a_QOUT. bnd (idx a_QIN k) (\<lambda>x. upd a_QOUT k (ucast (Silk_RSHIFT_ROUND x sh)))) a_QOUT) (\<lambda>a_QOUT.
        Ok (a_QOUT, a_QIN))))"

section \<open>lpc_analysis.go: the stability test\<close>

definition lpcInvGainQA :: nat where "lpcInvGainQA = 24"
definition aLimitQA24 :: i32 where "aLimitQA24 = silkFixConst 99975 100000 lpcInvGainQA"
definition oneQ30 :: i32 where "oneQ30 = silkFixConst 1 1 30"
text \<open>The \<^verbatim>\<open>float32\<close> quotient \<open>1 / 10000\<close> differs from the exact one by less than \<open>2 ^ -30\<close> of a unit here.\<close>

definition maxPredGainInvQ30 :: i32 where "maxPredGainInvQ30 = silkFixConst 1 10000 30"

definition mul32FracQ :: "i32 \<Rightarrow> i32 \<Rightarrow> nat \<Rightarrow> i32" where
  "mul32FracQ a32 b32 Q = ucast (Silk_RSHIFT_ROUND64 (Silk_SMULL a32 b32) Q)"

text \<open>\<^verbatim>\<open>Silk_RSHIFT_ROUND64\<close> with a computed count: a count below 1 shifts by a negative count.\<close>

definition rshift_round64 :: "i64 \<Rightarrow> int \<Rightarrow> i64 go" where
  "rshift_round64 a shift = (if shift < 1 then Panic else Ok (Silk_RSHIFT_ROUND64 a (nat shift)))"

definition out_of_i32 :: "i64 \<Rightarrow> bool" where
  "out_of_i32 x \<longleftrightarrow> 2147483647 <s x \<or> x <s - 2147483648"

definition unstable_coef :: "i32 \<Rightarrow> bool" where
  "unstable_coef a \<longleftrightarrow> aLimitQA24 <s a \<or> a <s - aLimitQA24"

text \<open>One step of the inner loop; \<open>None\<close>: the function returns 0.\<close>

definition step_coefs :: "int \<Rightarrow> i32 \<Rightarrow> i32 \<Rightarrow> int \<Rightarrow> int \<Rightarrow> i32 list option \<Rightarrow> i32 list option go" where
  "step_coefs k rc_Q31 rc_mult2 mult2Q n st = (case st of None \<Rightarrow> Ok None | Some A_QA \<Rightarrow>
     bnd (idx A_QA n) (\<lambda>tmp1.
     bnd (idx A_QA (k - n - 1)) (\<lambda>tmp2.
     bnd (rshift_round64 (Silk_SMULL (Silk_SUB_SAT32 tmp1 (mul32FracQ tmp2 rc_Q31 31)) rc_mult2) mult2Q) (\<lambda>tmp64.
     if out_of_i32 tmp64 then Ok None
     else
       bnd (upd A_QA n (ucast tmp64)) (\<lambda>A_QA.
       bnd (rshift_round64 (Silk_SMULL (Silk_SUB_SAT32 tmp2 (mul32FracQ tmp1 rc_Q31 31)) rc_mult2) mult2Q) (\<lambda>tmp64.
       if out_of_i32 tmp64 then Ok None
       else bnd (upd A_QA (k - n - 1) (ucast tmp64)) (\<lambda>A_QA. Ok (Some A_QA))))))))"

text \<open>The reflection coefficient of \<open>A_QA[k]\<close>, its complement and the updated inverse gain.\<close>

definition reflection :: "i32 \<Rightarrow> i32 \<Rightarrow> i32 \<times> i32 \<times> i32" where
  "reflection a invGain_Q30 =
     (let rc_Q31 = - Silk_LSHIFT a (31 - lpcInvGainQA);
          rc_mult1_Q30 = Silk_SUB32 oneQ30 (Silk_SMMUL rc_Q31 rc_Q31);
          invGain_Q30 = Silk_LSHIFT (Silk_SMMUL invGain_Q30 rc_mult1_Q30) 2
      in (rc_Q31, rc_mult1_Q30, invGain_Q30))"

fun inv_gain_loop :: "nat \<Rightarrow> i32 list \<Rightarrow> i32 \<Rightarrow> i32 go" where
  "inv_gain_loop 0 A_QA invGain_Q30 =
     bnd (idx A_QA 0) (\<lambda>a.
     if unstable_coef a then Ok 0
     else case reflection a invGain_Q30 of (_, _, invGain_Q30) \<Rightarrow>
       if invGain_Q30 <s maxPredGainInvQ30 then Ok 0 else Ok invGain_Q30)"
| "inv_gain_loop (Suc j) A_QA invGain_Q30 =
     (let k = int (Suc j) in
      bnd (idx A_QA k) (\<lambda>a.
      if unstable_coef a then Ok 0
      else case reflection a invGain_Q30 of (rc_Q31, rc_mult1_Q30, invGain_Q30) \<Rightarrow>
        if invGain_Q30 <s maxPredGainInvQ30 then Ok 0
        else
          let mult2Q = 32 - sint (Silk_CLZ32 (Silk_abs rc_mult1_Q30)) in
          bnd (Silk_INVERSE32_varQ rc_mult1_Q30 (mult2Q + 30)) (\<lambda>rc_mult2.
          bnd (for_up 0 ((k + 1) div 2) (step_coefs k rc_Q31 rc_mult2 mult2Q) (Some A_QA)) (\<lambda>st.
          case st of None \<Rightarrow> Ok 0 | Some A_QA \<Rightarrow> inv_gain_loop j A_QA invGain_Q30))))"

definition lpcInversePredGainQA :: "i32 list \<Rightarrow> int \<Rightarrow> i32 go" where
  "lpcInversePredGainQA A_QA order = (if order < 1 then Panic else inv_gain_loop (nat (order - 1)) A_QA oneQ30)"

definition LPCInversePredGain :: "i16 list \<Rightarrow> int \<Rightarrow> i32 go" where
  "LPCInversePredGain A_Q12 order =
     bnd (for_up 0 order (\<lambda>k (Atmp_QA, DC_resp).
       bnd (idx A_Q12 k) (\<lambda>a.
       bnd (upd Atmp_QA k (Silk_LSHIFT32 (scast a) (lpcInvGainQA - 12))) (\<lambda>Atmp_QA.
       Ok (Atmp_QA, DC_resp + (scast a :: i32))))) (replicate silkMaxOrderLPC 0, 0)) (\<lambda>(Atmp_QA, DC_resp).
     if 4096 \<le>s DC_resp then Ok 0 else lpcInversePredGainQA Atmp_QA order)"

section \<open>lpc_analysis_filter.go\<close>

text \<open>The taps are accumulated from the first; the loop of pairs from tap 6 on has the order of the index.\<close>

definition analysis_tap :: "i16 list \<Rightarrow> i16 list \<Rightarrow> int \<Rightarrow> int \<Rightarrow> i32 \<Rightarrow> i32 go" where
  "analysis_tap xs B inPtr j acc =
     bnd (idx xs (inPtr - j)) (\<lambda>x. bnd (idx B j) (\<lambda>b. Ok (Silk_SMLABB_ovflw acc (scast x) (scast b))))"

definition analysis_sample :: "i16 list \<Rightarrow> i16 list \<Rightarrow> int \<Rightarrow> int \<Rightarrow> i16 go" where
  "analysis_sample xs B d ix =
     (let inPtr = ix - 1 in
      bnd (idx xs inPtr) (\<lambda>x0.
      bnd (idx B 0) (\<lambda>b0.
      let out32Q12 = Silk_SMULBB (scast x0) (scast b0) in
      bnd (for_up 1 6 (analysis_tap xs B inPtr) out32Q12) (\<lambda>out32Q12.
      bnd (for_up 0 ((d - 5) div 2) (\<lambda>m acc. let j = 2 * m + 6 in
        bnd (analysis_tap xs B inPtr j acc) (analysis_tap xs B inPtr (j + 1))) out32Q12) (\<lambda>out32Q12.
      bnd (idx xs (inPtr + 1)) (\<lambda>x.
      let out32Q12 = Silk_SUB32_ovflw (Silk_LSHIFT (scast x) 12) out32Q12;
          out32 = Silk_RSHIFT_ROUND out32Q12 12
      in Ok (ucast (Silk_SAT16 out32))))))))"

definition silkLPCAnalysisFilter :: "i16 list \<Rightarrow> i16 list \<Rightarrow> i16 list \<Rightarrow> int \<Rightarrow> int \<Rightarrow> i16 list go" where
  "silkLPCAnalysisFilter ys xs B n d =
     bnd (for_up d n (\<lambda>ix ys. bnd (analysis_sample xs B d ix) (\<lambda>y. upd ys ix y)) ys) (\<lambda>ys.
     for_up 0 d (\<lambda>ix ys. upd ys ix 0) ys)"

section \<open>nlsf2a.go\<close>

definition nlsf2aQA :: nat where "nlsf2aQA = 16"

definition poly_product :: "i32 \<Rightarrow> i32 \<Rightarrow> i32" where
  "poly_product ftmp x = ucast (Silk_RSHIFT_ROUND64 (Silk_SMULL ftmp x) nlsf2aQA)"

definition silkNLSF2AFindPoly :: "i32 list \<Rightarrow> i32 list \<Rightarrow> int \<Rightarrow> i32 list go" where
  "silkNLSF2AFindPoly p cLSF dd =
     bnd (upd p 0 (Silk_LSHIFT 1 nlsf2aQA)) (\<lambda>p.
     bnd (idx cLSF 0) (\<lambda>c0.
     bnd (upd p 1 (- c0)) (\<lambda>p.
     for_up 1 dd (\<lambda>k p.
       bnd (idx cLSF (2 * k)) (\<lambda>ftmp.
       bnd (idx p (k - 1)) (\<lambda>a.
       bnd (idx p k) (\<lambda>b.
       bnd (upd p (k + 1) (Silk_LSHIFT a 1 - poly_product ftmp b)) (\<lambda>p.
       bnd (for_down (k - 1) (\<lambda>m p. let n = m + 2 in
         bnd (idx p n) (\<lambda>x.
         bnd (idx p (n - 2)) (\<lambda>a.
         bnd (idx p (n - 1)) (\<lambda>b. upd p n (x + (a - poly_product ftmp b)))))) p) (\<lambda>p.
       bnd (idx p 1) (\<lambda>x. upd p 1 (x - ftmp)))))))) p)))"

definition ordering16 :: "nat list" where "ordering16 = [0, 15, 8, 7, 4, 11, 12, 3, 2, 13, 10, 5, 6, 9, 14, 1]"
definition ordering10 :: "nat list" where "ordering10 = [0, 9, 6, 3, 4, 5, 8, 1, 2, 7]"

text \<open>Twice the cosine of a frequency, by linear interpolation in the table.\<close>

definition cos_LSF :: "i16 \<Rightarrow> i32 go" where
  "cos_LSF x =
     (let f_int = Silk_RSHIFT (scast x) (15 - 7);
          f_frac = scast x - Silk_LSHIFT f_int (15 - 7) in
      bnd (idx silkLSFCosTabFIXQ12 (sint f_int)) (\<lambda>c.
      let cos_val = scast c in
      bnd (idx silkLSFCosTabFIXQ12 (sint (f_int + 1))) (\<lambda>c.
      let delta = scast c - cos_val in
      Ok (Silk_RSHIFT_ROUND (Silk_LSHIFT cos_val 8 + Silk_MUL delta f_frac) (20 - nlsf2aQA)))))"

definition cos_vector :: "i16 list \<Rightarrow> int \<Rightarrow> i32 list go" where
  "cos_vector NLSF d =
     (let ordering = (if d = 16 then ordering16 else ordering10) in
      for_up 0 d (\<lambda>k cos_LSF_QA.
        bnd (idx NLSF k) (\<lambda>x.
        bnd (cos_LSF x) (\<lambda>c.
        bnd (idx ordering k) (\<lambda>pos. upd cos_LSF_QA (int pos) c)))) (replicate silkMaxOrderLPC 0))"

definition lpc_coefs :: "i32 list \<Rightarrow> i32 list \<Rightarrow> int \<Rightarrow> i32 list go" where
  "lpc_coefs P Q d =
     for_up 0 (d div 2) (\<lambda>k a32_QA1.
       bnd (idx P (k + 1)) (\<lambda>p1. bnd (idx P k) (\<lambda>p0. let Ptmp = p1 + p0 in
       bnd (idx Q (k + 1)) (\<lambda>q1. bnd (idx Q k) (\<lambda>q0. let Qtmp = q1 - q0 in
       bnd (upd a32_QA1 k (- Qtmp - Ptmp)) (\<lambda>a32_QA1. upd a32_QA1 (d - k - 1) (Qtmp - Ptmp))))))) (replicate silkMaxOrderLPC 0)"

text \<open>The loop that expands the bandwidth until the filter passes the test, from turn \<open>i\<close> of 16.\<close>

definition maxLPCStabilizeIterations :: nat where "maxLPCStabilizeIterations = 16"

definition expand_coefs :: "nat \<Rightarrow> i16 list \<Rightarrow> i32 list \<Rightarrow> int \<Rightarrow> (i16 list \<times> i32 list) go" where
  "expand_coefs i a_Q12 a32_QA1 d =
     bnd (Bwexpander32 a32_QA1 d (65536 - Silk_LSHIFT 2 i)) (\<lambda>a32_QA1.
     bnd (for_up 0 d (\<lambda>k a_Q12. bnd (idx a32_QA1 k) (\<lambda>x. upd a_Q12 k (ucast (Silk_RSHIFT_ROUND x (nlsf2aQA + 1 - 12))))) a_Q12) (\<lambda>a_Q12.
     Ok (a_Q12, a32_QA1)))"

function expand_loop :: "nat \<Rightarrow> i16 list \<Rightarrow> i32 list \<Rightarrow> int \<Rightarrow> i16 list go" where
  "expand_loop i a_Q12 a32_QA1 d =
     bnd (LPCInversePredGain a_Q12 d) (\<lambda>g.
     if g = 0 \<and> i < maxLPCStabilizeIterations then
       bnd (expand_coefs i a_Q12 a32_QA1 d) (\<lambda>(a_Q12, a32_QA1). expand_loop (i + 1) a_Q12 a32_QA1 d)
     else Ok a_Q12)"
  by pat_completeness auto
termination by (relation "measure (\<lambda>(i, _). maxLPCStabilizeIterations - i)") auto

declare expand_loop.simps [simp del]

definition NLSF2A :: "i16 list \<Rightarrow> i16 list \<Rightarrow> int \<Rightarrow> i16 list go" where
  "NLSF2A a_Q12 NLSF d =
     bnd (cos_vector NLSF d) (\<lambda>cos_LSF_QA.
     let dd = d div 2 in
     bnd (silkNLSF2AFindPoly (replicate (silkMaxOrderLPC div 2 + 1) 0) cos_LSF_QA dd) (\<lambda>P.
     bnd (slice_from cos_LSF_QA 1) (\<lambda>odd.
     bnd (silkNLSF2AFindPoly (replicate (silkMaxOrderLPC div 2 + 1) 0) odd dd) (\<lambda>Q.
     bnd (lpc_coefs P Q d) (\<lambda>a32_QA1.
     bnd (silkLPCFit a_Q12 a32_QA1 12 (int nlsf2aQA + 1) d) (\<lambda>(a_Q12, a32_QA1).
     expand_loop 0 a_Q12 a32_QA1 d))))))"

end
