(* ===== verification/Silk_Nlsf_Props.thy ===== *)
theory Silk_Nlsf_Props
  imports Silk_Nlsf Silk_Pulses_Props "HOL-Library.Multiset"
begin

text \<open>
  The sort is a sort, the stabiliser always returns frequencies with the minimum distances and leaves such
  frequencies alone, and the reconstruction never panics on a path of the codebook.
\<close>

section \<open>The insertion sort\<close>

lemma sorted_filter_split:
  "sorted (map sint xs) \<Longrightarrow> filter (\<lambda>x. \<not> v < sint x) xs @ filter (\<lambda>x. v < sint (x :: i16)) xs = xs"
proof (induction xs)
  case (Cons a xs)
  show ?case
  proof (cases "v < sint a")
    case True
    then have "\<forall>x \<in> set (a # xs). v < sint x" using Cons.prems by fastforce
    then show ?thesis by (metis (no_types, lifting) append_Nil filter_False filter_True)
  qed (use Cons in simp)
qed simp

lemma ins_shift_inserts:
  assumes "sorted (map sint xs)"
  shows "bnd (ins_shift (length xs) v (xs @ w # r)) (\<lambda>(a, j). upd a (j + 1) u)
    = Ok (filter (\<lambda>x. \<not> v < sint x) xs @ u # filter (\<lambda>x. v < sint x) xs @ r)"
  using assms
proof (induction xs arbitrary: w r rule: rev_induct)
  case Nil
  then show ?case by (simp add: upd_def)
next
  case (snoc y xs)
  have s: "sorted (map sint xs)" using snoc.prems by (simp add: sorted_append)
  have i: "idx ((xs @ [y]) @ w # r) (int (length xs)) = (Ok y :: i16 go)" by (simp add: idx_def nth_append)
  have l: "length (xs @ [y]) = Suc (length xs)" by simp
  show ?case
  proof (cases "v < sint y")
    case True
    have u: "upd ((xs @ [y]) @ w # r) (int (length xs) + 1) y = (Ok (xs @ y # y # r) :: i16 list go)"
      by (simp add: upd_def nat_add_distrib list_update_append)
    have "bnd (ins_shift (length xs) v (xs @ y # y # r)) (\<lambda>(a, j). upd a (j + 1) u)
        = Ok (filter (\<lambda>x. \<not> v < sint x) xs @ u # filter (\<lambda>x. v < sint x) xs @ y # r)" by (rule snoc.IH [OF s])
    then show ?thesis unfolding l ins_shift.simps i bnd.simps if_P [OF True] u using True by simp
  next
    case False
    have le: "sint x \<le> v" if "x \<in> set xs" for x using that snoc.prems False by (fastforce simp: sorted_append)
    then have "filter (\<lambda>x. \<not> v < sint x) (xs @ [y]) = xs @ [y]" "filter (\<lambda>x. v < sint x) (xs @ [y]) = []"
      using False by (fastforce simp: filter_empty_conv intro!: filter_True)+
    moreover have "upd ((xs @ [y]) @ w # r) (int (length xs) + 1) u = (Ok ((xs @ [y]) @ u # r) :: i16 list go)"
      by (simp add: upd_def nat_add_distrib list_update_append)
    ultimately show ?thesis unfolding l ins_shift.simps i bnd.simps if_not_P [OF False] by simp
  qed
qed

definition sorted_upto :: "i16 list \<Rightarrow> int \<Rightarrow> i16 list \<Rightarrow> bool" where
  "sorted_upto a0 i a \<longleftrightarrow> length a = length a0 \<and> sorted (map sint (take (nat i) a))
     \<and> mset (take (nat i) a) = mset (take (nat i) a0) \<and> drop (nat i) a = drop (nat i) a0"

lemma insertion_sort_sat:
  assumes "1 \<le> L" "L \<le> len a"
  shows "sat (silkInsertionSortIncreasingAllValuesInt16 a L) E (sorted_upto a L)"
  unfolding silkInsertionSortIncreasingAllValuesInt16_def
proof (rule sat_for_up [where I = "sorted_upto a"])
  have "take 1 a = [a ! 0]" using assms by (cases a) auto
  then show "sorted_upto a 1 a" by (simp add: sorted_upto_def)
  fix i b assume i: "1 \<le> i" "i < L" and b: "sorted_upto a i b"
  define xs r where "xs = take (nat i) b" and "r = drop (Suc (nat i)) b"
  let ?x = "b ! nat i"
  have n: "nat i < length b" "length xs = nat i" using i assms b by (auto simp: sorted_upto_def xs_def)
  have split: "b = xs @ ?x # r" using n(1) by (simp add: xs_def r_def id_take_nth_drop [symmetric])
  have s: "sorted (map sint xs)" using b by (simp add: sorted_upto_def xs_def)
  have d: "drop (nat i) b = drop (nat i) a" "mset xs = mset (take (nat i) a)" "length b = length a" using b by (simp_all add: sorted_upto_def xs_def)
  then have x: "a ! nat i = ?x" "drop (Suc (nat i)) a = r" using n(1) by (metis Cons_nth_drop_Suc list.sel(1,3) r_def)+
  let ?lo = "filter (\<lambda>y. \<not> sint ?x < sint y) xs" and ?hi = "filter (\<lambda>y. sint ?x < sint y) xs"
  define ys where "ys = ?lo @ ?x # ?hi"
  note f = sorted_filter_split [OF s, of "sint ?x"]
  have ni: "nat (i + 1) = Suc (nat i)" using i by simp
  have "length (?lo @ ?hi) = nat i" unfolding f by (rule n(2))
  then have l: "length ys = Suc (nat i)" by (simp add: ys_def)
  have srt: "sorted (map sint ys)"
  proof -
    have "sorted (map sint ?lo @ map sint ?hi)" using s f by (metis map_append)
    then show ?thesis by (auto simp: ys_def sorted_append)
  qed
  have "mset (?lo @ ?hi) = mset xs" unfolding f ..
  then have m: "mset ys = mset (take (Suc (nat i)) a)" using x n d by (simp add: ys_def take_Suc_conv_app_nth)
  have "sorted_upto a (i + 1) (ys @ r)" unfolding sorted_upto_def ni using srt m l x n d(3) split
    by (metis append_eq_conv_conj length_append length_drop r_def take_all_iff add_Suc_right length_Cons order_refl add_Suc)
  moreover have "bnd (ins_shift (nat i) (sint ?x) b) (\<lambda>(a, j). upd a (j + 1) ?x) = (Ok (ys @ r) :: i16 list go)"
    using ins_shift_inserts [OF s, of "sint ?x" ?x r ?x] unfolding n(2) by (simp add: ys_def flip: split)
  ultimately show "sat (bnd (idx b i) (\<lambda>x. let v = sint x in bnd (ins_shift (nat i) v b) (\<lambda>(a, j). upd a (j + 1) (word_of_int v)))) E (sorted_upto a (i + 1))"
    using n i by (simp add: Let_def del: sat_bnd) (simp add: res_simps)
qed (use assms in simp)


section \<open>The distances\<close>

text \<open>The distances the stabiliser keeps: to the lower bound, between neighbours, to the upper bound.\<close>

definition gap :: "i16 list \<Rightarrow> i16 list \<Rightarrow> int \<Rightarrow> int \<Rightarrow> int" where
  "gap xs ds L i = (if i = L then 32768 else sint (xs ! nat i)) - (if i = 0 then 0 else sint (xs ! nat (i - 1))) - sint (ds ! nat i)"

definition spaced :: "i16 list \<Rightarrow> i16 list \<Rightarrow> int \<Rightarrow> bool" where
  "spaced xs ds L \<longleftrightarrow> (\<forall>i. 0 \<le> i \<longrightarrow> i \<le> L \<longrightarrow> 0 \<le> gap xs ds L i)"

lemma i16_arith:
  fixes a b c :: i16
  shows "sint (scast a - scast b :: i32) = sint a - sint b"
    "sint (scast a - (scast b + scast c) :: i32) = sint a - sint b - sint c"
    "sint (32768 - (scast a + scast b) :: i32) = 32768 - sint a - sint b"
proof -
  note r = i16_range [of a] i16_range [of b] i16_range [of c]
  have p: "(32768 :: i32) = word_of_int 32768" by simp
  have "sint (word_of_int (sint a - sint b) :: i32) = sint a - sint b" using r by (intro i32_of_int) linarith+
  then show "sint (scast a - scast b :: i32) = sint a - sint b" by (simp only: scast_of_int of_int_diff)
  have "sint (word_of_int (sint a - (sint b + sint c)) :: i32) = sint a - (sint b + sint c)" using r by (intro i32_of_int) linarith+
  then show "sint (scast a - (scast b + scast c) :: i32) = sint a - sint b - sint c"
    by (simp only: scast_of_int of_int_diff of_int_add diff_diff_add)
  have "sint (word_of_int (32768 - (sint a + sint b)) :: i32) = 32768 - (sint a + sint b)" using r by (intro i32_of_int) linarith+
  then show "sint (32768 - (scast a + scast b) :: i32) = 32768 - sint a - sint b"
    unfolding p by (simp only: scast_of_int of_int_diff of_int_add diff_diff_add)
qed

lemma min_distance_sat:
  assumes "1 \<le> L" "L \<le> len xs" "L < len ds"
    and Q: "\<And>m I. 0 \<le> I \<Longrightarrow> I \<le> L \<Longrightarrow> sint m = gap xs ds L I \<Longrightarrow> \<forall>k. 0 \<le> k \<longrightarrow> k \<le> L \<longrightarrow> sint m \<le> gap xs ds L k \<Longrightarrow> Q (m, I)"
  shows "sat (min_distance xs ds L) E Q"
proof -
  let ?I = "\<lambda>i (m :: i32, I). 0 \<le> I \<and> I < i \<and> sint m = gap xs ds L I \<and> (\<forall>k. 0 \<le> k \<longrightarrow> k < i \<longrightarrow> sint m \<le> gap xs ds L k)"
  let ?f = "\<lambda>i (min_diff_Q15, I).
       bnd (idx xs i) (\<lambda>x. bnd (idx xs (i - 1)) (\<lambda>y. bnd (idx ds i) (\<lambda>d.
       let diff_Q15 = scast x - (scast y + scast d) in
       Ok (if diff_Q15 <s min_diff_Q15 then (diff_Q15, i) else (min_diff_Q15, I)))))"
  have A: "sat (for_up 1 L ?f (scast (xs ! 0) - scast (ds ! 0), 0)) E (?I L)"
  proof (rule sat_for_up [where I = ?I])
    show "?I 1 (scast (xs ! 0) - scast (ds ! 0), 0)" using assms(1) by (auto simp: i16_arith gap_def)
    fix i and s :: "i32 \<times> int" assume i: "1 \<le> i" "i < L" and s: "?I i s"
    obtain m I where m: "s = (m, I)" by (cases s)
    have g: "gap xs ds L i = sint (scast (xs ! nat i) - (scast (xs ! nat (i - 1)) + scast (ds ! nat i)) :: i32)"
      using i by (simp add: gap_def i16_arith)
    have less: "\<And>k. k < i + 1 \<longleftrightarrow> k < i \<or> k = i" by auto
    show "sat (?f i s) E (?I (i + 1))"
      using s i assms by (auto simp: m word_sless_alt Let_def less simp flip: g)
  qed (use assms in simp)
  define z :: i32 where "z = 32768 - (scast (xs ! nat (L - 1)) + scast (ds ! nat L))"
  have B: "(z <s fst s \<longrightarrow> Q (z, L)) \<and> (\<not> z <s fst s \<longrightarrow> Q s)" if s: "?I L s" for s
  proof -
    obtain m I where m: "s = (m, I)" by (cases s)
    have g: "sint z = gap xs ds L L" using assms(1) by (simp add: z_def gap_def i16_arith)
    have le: "\<And>k. k \<le> L \<longleftrightarrow> k < L \<or> k = L" by auto
    show ?thesis using s assms g by (auto simp: m word_sless_alt le intro!: Q)
  qed
  have "sat (for_up 1 L ?f (scast (xs ! 0) - scast (ds ! 0), 0)) E (\<lambda>s. (z <s fst s \<longrightarrow> Q (z, L)) \<and> (\<not> z <s fst s \<longrightarrow> Q s))"
    using A B by (rule sat_mono)
  moreover have "xs \<noteq> []" "ds \<noteq> []" using assms by auto
  ultimately show ?thesis using assms(1-3) by (simp add: min_distance_def case_prod_beta Let_def flip: z_def)
qed

section \<open>The steps of the loop\<close>

lemma move_apart_sat:
  assumes "0 < I" "I < L" "L \<le> len xs" "L < len ds"
  shows "sat (move_apart xs ds L I) E (\<lambda>ys. length ys = length xs)"
proof -
  have 1: "sat (for_up 0 I (\<lambda>k s. bnd (idx ds k) (\<lambda>d. Ok (s + scast d))) 0) E (\<lambda>_. True)"
    using assms by (intro sat_for_upI [where I = "\<lambda>_ _. True"]) simp_all
  have 2: "sat (for_down (L - I) (\<lambda>m s. bnd (idx ds (m + I + 1)) (\<lambda>d. Ok (s - scast d))) z) E (\<lambda>_. True)" for z
    using assms by (intro sat_for_downI [where I = "\<lambda>_ _. True"]) simp_all
  show ?thesis using assms
    by (simp add: move_apart_def Let_def) (rule sat_mono [OF 1], simp, rule sat_mono [OF 2], simp)
qed

lemma stabilize_step_sat:
  assumes "0 \<le> I" "I \<le> L" "1 \<le> L" "L \<le> len xs" "L < len ds"
  shows "sat (stabilize_step xs ds L I) E (\<lambda>ys. length ys = length xs)"
  using assms move_apart_sat [of I L xs ds E] by (auto simp: stabilize_step_def)

lemma stabilize_loop_sat:
  assumes "1 \<le> L" "L \<le> len xs" "L < len ds"
  shows "sat (stabilize_loop n xs ds L) E (\<lambda>(ys, r). length ys = length xs \<and> (r \<longrightarrow> spaced ys ds L))"
  using assms(2)
proof (induction n arbitrary: xs)
  case (Suc n)
  show ?case unfolding stabilize_loop.simps sat_bnd
  proof (rule min_distance_sat [OF assms(1) Suc.prems assms(3)], unfold prod.case)
    fix m :: i32 and I assume m: "0 \<le> I" "I \<le> L" "\<forall>k. 0 \<le> k \<longrightarrow> k \<le> L \<longrightarrow> sint m \<le> gap xs ds L k"
    have "sat (stabilize_loop n ys ds L) E (\<lambda>(zs, r). length zs = length xs \<and> (r \<longrightarrow> spaced zs ds L))" if "length ys = length xs" for ys
      using Suc.IH [of ys] Suc.prems that by simp
    then have "sat (stabilize_step xs ds L I) E (\<lambda>ys. sat (stabilize_loop n ys ds L) E (\<lambda>(zs, r). length zs = length xs \<and> (r \<longrightarrow> spaced zs ds L)))"
      using stabilize_step_sat [OF m(1,2) assms(1) Suc.prems assms(3)] by (rule sat_mono [rotated])
    then show "sat (if 0 \<le>s m then Ok (xs, True) else bnd (stabilize_step xs ds L I) (\<lambda>ys. stabilize_loop n ys ds L)) E
      (\<lambda>(ys, r). length ys = length xs \<and> (r \<longrightarrow> spaced ys ds L))"
      using m(3) by (force simp: word_sle_eq spaced_def)
  qed
qed simp


section \<open>The fallback\<close>

text \<open>The least value a frequency can have, and the minimum distances for which there is room.\<close>

definition lower :: "i16 list \<Rightarrow> int \<Rightarrow> int" where
  "lower ds i = sum_list (map sint (take (nat (i + 1)) ds))"

definition distances_fit :: "i16 list \<Rightarrow> int \<Rightarrow> bool" where
  "distances_fit ds L \<longleftrightarrow> L < len ds \<and> list_all (\<lambda>d. 0 \<le> sint d) ds \<and> 1 \<le> sint (ds ! nat L) \<and> lower ds L \<le> 32768"

lemma lower_0: "ds \<noteq> [] \<Longrightarrow> lower ds 0 = sint (ds ! 0)"
  by (cases ds) (simp_all add: lower_def)

lemma lower_next: "0 \<le> i \<Longrightarrow> i + 1 < len ds \<Longrightarrow> lower ds (i + 1) = lower ds i + sint (ds ! nat (i + 1))"
proof -
  assume i: "0 \<le> i" "i + 1 < len ds"
  then have "take (nat (i + 1 + 1)) ds = take (nat (i + 1)) ds @ [ds ! nat (i + 1)]"
    by (simp add: nat_add_distrib take_Suc_conv_app_nth)
  then show ?thesis by (simp add: lower_def)
qed

lemma lower_bounds:
  assumes "distances_fit ds L" "0 \<le> i" "i < L"
  shows "0 \<le> lower ds i" "lower ds i \<le> 32767"
proof -
  have d: "list_all (\<lambda>d. 0 \<le> sint d) ds" "L < len ds" using assms(1) by (simp_all add: distances_fit_def)
  then have nn: "0 \<le> sum_list (map sint xs)" if "set xs \<subseteq> set ds" for xs using that by (intro sum_list_nonneg) (auto simp: list_all_iff)
  then show "0 \<le> lower ds i" unfolding lower_def by (meson set_take_subset)
  have L: "L - 1 + 1 = L" by simp
  have "lower ds L = lower ds (L - 1) + sint (ds ! nat L)" using lower_next [of "L - 1" ds] assms d(2) by simp
  then have "lower ds (L - 1) \<le> 32767" using assms(1) by (simp add: distances_fit_def)
  moreover have "lower ds i \<le> lower ds (L - 1)"
  proof -
    have "take (nat L) ds = take (nat (i + 1)) ds @ take (nat (L - 1 - i)) (drop (nat (i + 1)) ds)"
      using assms(2,3) by (simp flip: take_add nat_add_distrib)
    moreover have "0 \<le> sum_list (map sint (take (nat (L - 1 - i)) (drop (nat (i + 1)) ds)))"
      by (rule nn) (meson order_trans set_take_subset set_drop_subset)
    ultimately show ?thesis by (simp add: lower_def)
  qed
  ultimately show "lower ds i \<le> 32767" by linarith
qed

definition above :: "i16 list \<Rightarrow> int \<Rightarrow> nat \<Rightarrow> i16 list \<Rightarrow> bool" where
  "above ds i n xs \<longleftrightarrow> length xs = n \<and> (\<forall>k. 0 \<le> k \<longrightarrow> k < i \<longrightarrow> lower ds k \<le> sint (xs ! nat k))"

lemma above_upd: "above ds i n xs \<Longrightarrow> 0 \<le> i \<Longrightarrow> i < int n \<Longrightarrow> lower ds i \<le> sint v \<Longrightarrow> above ds (i + 1) n (xs[nat i := v])"
  by (auto simp: above_def nth_list_update eq_nat_nat_iff)

lemma above_keep:
  assumes "above ds L n xs" "0 \<le> i" "L \<le> int n" "i < L" "lower ds i \<le> sint v"
  shows "above ds L n (xs[nat i := v])"
  unfolding above_def
proof (intro conjI allI impI)
  fix k assume k: "0 \<le> k" "k < L"
  show "lower ds k \<le> sint (xs[nat i := v] ! nat k)"
    using assms k by (cases "k = i") (simp_all add: above_def eq_nat_nat_iff)
qed (use assms in \<open>simp add: above_def\<close>)

lemma max_i16: "sint (word_of_int (Silk_max_int (sint (a :: i16)) (sint (b :: i16))) :: i16) = max (sint a) (sint b)"
  using i16_range [of a] i16_range [of b] by (subst i16_of_int) (auto simp: Silk_max_int_def)

lemma forward_pass:
  assumes "distances_fit ds L" "1 \<le> L" "L \<le> len xs" "above ds 1 (length xs) xs"
  shows "sat (space_up ds L xs) E (above ds L (length xs))"
  unfolding space_up_def
proof (rule sat_for_up [where I = "\<lambda>i. above ds i (length xs)"])
  fix i ys assume i: "1 \<le> i" "i < L" and ys: "above ds i (length xs) ys"
  let ?v = "word_of_int (Silk_max_int (sint (ys ! nat i)) (sint (Silk_ADD_SAT16 (ys ! nat (i - 1)) (ds ! nat i)))) :: i16"
  have n: "length ys = length xs" "L < len ds" using ys assms by (simp_all add: above_def distances_fit_def)
  have "lower ds i = lower ds (i - 1) + sint (ds ! nat i)" using lower_next [of "i - 1" ds] i n by simp
  moreover have "lower ds (i - 1) \<le> sint (ys ! nat (i - 1))" using ys i by (simp add: above_def)
  moreover have "lower ds i \<le> 32767" using i by (intro lower_bounds [OF assms(1)]) simp_all
  ultimately have "lower ds i \<le> sint ?v" by (subst max_i16) (simp add: ADD_SAT16_clamps clamp16 max_def min_def)
  then have "above ds (i + 1) (length xs) (ys[nat i := ?v])" using ys i n assms(3) by (intro above_upd) simp_all
  then show "sat (bnd (idx ys i) (\<lambda>x. bnd (idx ys (i - 1)) (\<lambda>y. bnd (idx ds i) (\<lambda>d.
       upd ys i (word_of_int (Silk_max_int (sint x) (sint (Silk_ADD_SAT16 y d)))))))) E (above ds (i + 1) (length xs))"
    using i n assms by simp
qed (use assms in simp_all)

text \<open>Going back, the distances from \<open>i\<close> on are kept.\<close>

definition kept_from :: "i16 list \<Rightarrow> int \<Rightarrow> nat \<Rightarrow> int \<Rightarrow> i16 list \<Rightarrow> bool" where
  "kept_from ds L n i xs \<longleftrightarrow> above ds L n xs \<and> sint (xs ! nat (L - 1)) + sint (ds ! nat L) \<le> 32768
     \<and> (\<forall>k. i \<le> k \<longrightarrow> k + 1 < L \<longrightarrow> sint (xs ! nat k) + sint (ds ! nat (k + 1)) \<le> sint (xs ! nat (k + 1)))"

lemma backward_pass:
  assumes "distances_fit ds L" "1 \<le> L" "L \<le> int n" "kept_from ds L n (L - 1) xs"
  shows "sat (space_down ds L xs) E (kept_from ds L n 0)"
  unfolding space_down_def
proof (rule sat_for_down [where I = "kept_from ds L n"])
  fix i ys assume i: "0 \<le> i" "i < L - 1" and ys: "kept_from ds L n (i + 1) ys"
  let ?x = "sint (ys ! nat i)" and ?y = "sint (ys ! nat (i + 1))" and ?d = "sint (ds ! nat (i + 1))"
  let ?v = "word_of_int (Silk_min_int ?x (?y - ?d)) :: i16"
  have n: "length ys = n" "L < len ds" using ys assms by (simp_all add: kept_from_def above_def distances_fit_def)
  have l: "lower ds i \<le> ?x" "lower ds (i + 1) \<le> ?y" using ys i by (simp_all add: kept_from_def above_def)
  have "lower ds (i + 1) = lower ds i + ?d" using i n by (intro lower_next) simp_all
  moreover have "0 \<le> lower ds i" using i by (intro lower_bounds [OF assms(1)]) simp_all
  ultimately have v: "lower ds i \<le> min ?x (?y - ?d)" "sint ?v = min ?x (?y - ?d)"
    using l i16_range [of "ys ! nat i"] by (simp, subst i16_of_int) (auto simp: Silk_min_int_def)
  have "kept_from ds L n i (ys[nat i := ?v])"
  proof -
    have "above ds L n (ys[nat i := ?v])" using ys v i assms(3) by (intro above_keep) (simp_all add: kept_from_def)
    moreover have "sint (ys[nat i := ?v] ! nat k) + sint (ds ! nat (k + 1)) \<le> sint (ys[nat i := ?v] ! nat (k + 1))"
      if "i \<le> k" "k + 1 < L" for k
    proof (cases "k = i")
      case True
      have "min ?x (?y - ?d) + ?d \<le> ?y" by (simp add: min_def)
      moreover have "nat i < length ys" "nat (i + 1) \<noteq> nat i" using i n assms(3) by simp_all
      ultimately show ?thesis using True v(2) by simp
    qed (use ys i that in \<open>simp add: kept_from_def eq_nat_nat_iff\<close>)
    moreover have "nat (L - 1) \<noteq> nat i" using i by simp
    ultimately show ?thesis using ys by (simp add: kept_from_def)
  qed
  then show "sat (bnd (idx ys i) (\<lambda>x. bnd (idx ys (i + 1)) (\<lambda>y. bnd (idx ds (i + 1)) (\<lambda>d.
       upd ys i (word_of_int (Silk_min_int (sint x) (sint y - sint d))))))) E (kept_from ds L n i)"
    using i n assms by simp
qed (use assms in simp_all)

lemma kept_spaced:
  assumes "kept_from ds L n 0 xs" "1 \<le> L" "ds \<noteq> []"
  shows "length xs = n \<and> spaced xs ds L"
  unfolding spaced_def
proof (intro conjI allI impI)
  show "length xs = n" using assms(1) by (simp add: kept_from_def above_def)
  fix i assume i: "0 \<le> i" "i \<le> L"
  have k: "sint (xs ! nat (i - 1)) + sint (ds ! nat i) \<le> sint (xs ! nat i)" if "0 < i" "i < L"
  proof -
    have "\<forall>k. 0 \<le> k \<longrightarrow> k + 1 < L \<longrightarrow> sint (xs ! nat k) + sint (ds ! nat (k + 1)) \<le> sint (xs ! nat (k + 1))"
      using assms(1) by (simp add: kept_from_def)
    from this [rule_format, of "i - 1"] show ?thesis using that by simp
  qed
  have "sint (ds ! 0) \<le> sint (xs ! 0)" using assms lower_0 [of ds] by (auto simp: kept_from_def above_def)
  then show "0 \<le> gap xs ds L i" using k i assms(1,2) by (auto simp: gap_def kept_from_def)
qed

lemma stabilize_fallback_sat:
  assumes "distances_fit ds L" "1 \<le> L" "L \<le> len xs"
  shows "sat (stabilize_fallback xs ds L) E (\<lambda>ys. length ys = length xs \<and> spaced ys ds L)"
  unfolding stabilize_fallback_def sat_bnd
proof (rule sat_mono [OF insertion_sort_sat [OF assms(2,3)]], goal_cases)
  case (1 ys)
  then have n: "length ys = length xs" "0 < len ys" "L < len ds" "ds \<noteq> []"
    using assms by (auto simp: sorted_upto_def distances_fit_def)
  let ?v = "word_of_int (Silk_max_int (sint (ys ! 0)) (sint (ds ! 0))) :: i16"
  have one: "\<And>k :: int. 0 \<le> k \<Longrightarrow> k < 1 \<Longrightarrow> k = 0" by simp
  have a: "above ds 1 (length xs) (ys[0 := ?v])" using n lower_0 [OF n(4)] by (auto simp: above_def max_i16 dest!: one)
  have b: "kept_from ds L (length xs) (L - 1) (zs[nat (L - 1) := word_of_int (Silk_min_int (sint (zs ! nat (L - 1))) (push_bit 15 1 - sint (ds ! nat L)))])"
    if z: "above ds L (length xs) zs" for zs
  proof -
    let ?x = "sint (zs ! nat (L - 1))" and ?d = "sint (ds ! nat L)"
    have d: "1 \<le> ?d" "lower ds L \<le> 32768" using assms(1) by (simp_all add: distances_fit_def)
    have "lower ds (L - 1) + ?d = lower ds L" using lower_next [of "L - 1" ds] assms n by simp
    moreover have "0 \<le> lower ds (L - 1)" using assms by (intro lower_bounds [OF assms(1)]) simp_all
    moreover have "lower ds (L - 1) \<le> ?x" using z assms by (simp add: above_def)
    ultimately have v: "lower ds (L - 1) \<le> min ?x (32768 - ?d)" "sint (word_of_int (Silk_min_int ?x (32768 - ?d)) :: i16) = min ?x (32768 - ?d)"
      using d i16_range [of "zs ! nat (L - 1)"] by (simp, subst i16_of_int) (auto simp: Silk_min_int_def)
    have "above ds L (length xs) (zs[nat (L - 1) := word_of_int (Silk_min_int ?x (32768 - ?d))])"
      using assms(2,3) v z by (intro above_keep) simp_all
    moreover have "nat (L - 1) < length zs" using z assms by (auto simp: above_def)
    ultimately show ?thesis using v by (simp add: kept_from_def push_bit_of_1 min_def)
  qed
  have c: "sat (space_down ds L (zs[nat (L - 1) := word_of_int (Silk_min_int (sint (zs ! nat (L - 1))) (push_bit 15 1 - sint (ds ! nat L)))])) E
      (\<lambda>zs. length zs = length xs \<and> spaced zs ds L)" if "above ds L (length xs) zs" for zs
    by (rule sat_mono [OF backward_pass [OF assms b [OF that]]]) (rule kept_spaced [OF _ assms(2) n(4)])
  have "sat (space_up ds L (ys[0 := ?v])) E (above ds L (length xs))"
    using forward_pass [OF assms(1,2), of "ys[0 := ?v]" E] n(1) a assms(3) by simp
  then have "sat (space_up ds L (ys[0 := ?v])) E (\<lambda>zs. L - 1 < len zs
      \<and> sat (space_down ds L (zs[nat (L - 1) := word_of_int (Silk_min_int (sint (zs ! nat (L - 1))) (push_bit 15 1 - sint (ds ! nat L)))])) E
      (\<lambda>zs. length zs = length xs \<and> spaced zs ds L))"
    by (rule sat_mono) (use c assms(3) in \<open>auto simp: above_def\<close>)
  then show ?case
    using n assms(2) by (simp add: push_bit_of_1)
qed

section \<open>The stabiliser\<close>

lemma NLSFStabilize_sat:
  assumes "distances_fit ds L" "1 \<le> L" "L \<le> len xs"
  shows "sat (NLSFStabilize xs ds L) E (\<lambda>ys. length ys = length xs \<and> spaced ys ds L)"
proof -
  have "L < len ds" using assms(1) by (simp add: distances_fit_def)
  from stabilize_loop_sat [OF assms(2,3) this, of stabilizeMaxLoops E] show ?thesis unfolding NLSFStabilize_def sat_bnd
  proof (rule sat_mono, goal_cases)
    case (1 s)
    then show ?case using stabilize_fallback_sat [OF assms(1,2), of "fst s" E] assms(3) by (cases s) auto
  qed
qed


lemma gap_steps:
  assumes "spaced xs ds L" "distances_fit ds L" "0 \<le> k" "k < L"
  shows "0 \<le> sint (xs ! nat k)"
proof -
  have d: "0 \<le> sint (ds ! nat i)" if "0 \<le> i" "i \<le> L" for i
  proof -
    have "nat i < length ds" using assms(2) that by (auto simp: distances_fit_def)
    then show ?thesis using assms(2) by (simp add: distances_fit_def list_all_length)
  qed
  have "k < L \<longrightarrow> 0 \<le> sint (xs ! nat k)" using assms(3)
  proof (induction k rule: int_ge_induct)
    case base
    have "0 \<le> gap xs ds L 0" using assms by (simp add: spaced_def)
    then show ?case using d [of 0] by (auto simp: gap_def)
  next
    case (step i)
    then have "0 \<le> gap xs ds L (i + 1)" if "i + 1 < L" using assms(1) that by (simp add: spaced_def)
    then show ?case using d [of "i + 1"] step by (auto simp: gap_def)
  qed
  then show ?thesis using assms(4) by blast
qed

section \<open>The codebooks\<close>

text \<open>
  The selectors are two per byte.  The last selector of a row never asks for the second predictor: its entry
  would be one past the end of \<open>cb_predQ8\<close>.
\<close>

definition codebook :: "NLSFCB \<Rightarrow> int \<Rightarrow> bool" where
  "codebook cb L \<longleftrightarrow> sint (cb_order cb) = L \<and> L mod 2 = 0 \<and> 2 \<le> L \<and> L \<le> 16 \<and> sint (cb_nVectors cb) = 32
     \<and> len (cb_ecSel cb) = 16 * L \<and> len (cb_predQ8 cb) = 2 * (L - 1) \<and> len (cb_cb1NLSFQ8 cb) = 32 * L
     \<and> len (cb_cb1WghtQ9 cb) = 32 * L \<and> list_all (\<lambda>w. w \<noteq> 0) (cb_cb1WghtQ9 cb) \<and> distances_fit (cb_deltaMinQ15 cb) L
     \<and> ends_at (drop 0 (cb_cb1ICDF cb)) 31 \<and> ends_at (drop 32 (cb_cb1ICDF cb)) 31
     \<and> list_all (\<lambda>c. Silk_RSHIFT (ucast (cb_ecSel cb ! (nat (L div 2) * c + nat (L div 2) - 1)) :: i32) 4 AND 1 = 0) [0..<32]
     \<and> len (cb_ecICDF cb) = 72 \<and> list_all (\<lambda>k. ends_at (drop (9 * k) (cb_ecICDF cb)) 8) [0..<8]"

lemma codebook_NBMB: "codebook silkNLSFCBNBMB 10"
  unfolding codebook_def
  by (intro conjI) code_simp+

lemma codebook_WB: "codebook silkNLSFCBWB 16"
  unfolding codebook_def
  by (intro conjI) code_simp+


section \<open>Reconstruction\<close>

lemma codebookD:
  assumes "codebook cb L"
  shows "sint (cb_order cb) = L" "2 \<le> L" "L \<le> 16" "sint (cb_nVectors cb) = 32" "len (cb_ecSel cb) = 16 * L" "len (cb_predQ8 cb) = 2 * (L - 1)"
    "len (cb_cb1NLSFQ8 cb) = 32 * L" "len (cb_cb1WghtQ9 cb) = 32 * L" "distances_fit (cb_deltaMinQ15 cb) L" "L = 2 * (L div 2)"
    "(L + 1) div 2 = L div 2"
  using assms by (auto simp: codebook_def)

lemma codebook_weight: "codebook cb L \<Longrightarrow> 0 \<le> i \<Longrightarrow> i < 32 * L \<Longrightarrow> cb_cb1WghtQ9 cb ! nat i \<noteq> 0"
  by (auto simp: codebook_def list_all_length nat_less_iff)

lemma codebook_last:
  assumes "codebook cb L" "0 \<le> c" "c < 32"
  shows "Silk_RSHIFT (ucast (cb_ecSel cb ! nat (c * (L div 2) + L div 2 - 1)) :: i32) 4 AND 1 = 0"
proof -
  have "list_all (\<lambda>c. Silk_RSHIFT (ucast (cb_ecSel cb ! (nat (L div 2) * c + nat (L div 2) - 1)) :: i32) 4 AND 1 = 0) [0..<32]" "2 \<le> L"
    using assms(1) by (simp_all add: codebook_def)
  moreover have "nat c \<in> set [0..<32]" using assms by auto
  moreover have "nat (c * (L div 2) + L div 2 - 1) = nat (L div 2) * nat c + nat (L div 2) - 1"
  proof -
    define h where "h = L div 2"
    have h: "0 \<le> c * h" "1 \<le> h" using assms(2) \<open>2 \<le> L\<close> by (simp_all add: h_def)
    have "nat (c * h + h - 1) = nat (c * h + h) - nat 1" by (rule nat_diff_distrib) (use h in simp_all)
    then show ?thesis using h assms(2) by (simp add: nat_add_distrib nat_mult_distrib mult.commute flip: h_def)
  qed
  ultimately show ?thesis unfolding list_all_iff by metis
qed

text \<open>The entry of the residual table: one of its eight tables.\<close>

definition table_index :: "i16 \<Rightarrow> bool" where
  "table_index e \<longleftrightarrow> (\<exists>k. 0 \<le> k \<and> k < 8 \<and> sint e = 9 * k)"

lemma i32_and7: "sint (a AND 7 :: i32) = sint a mod 8"
proof -
  have "sint (7 :: i32) = 7" by simp
  moreover have "sint (a AND 7) = sint a AND sint (7 :: i32)" by (rule signed_and_eq)
  moreover have "sint a AND mask 3 = sint a mod 2 ^ 3" by (metis take_bit_eq_mask take_bit_int_def)
  ultimately show ?thesis by (simp add: mask_eq_exp_minus_1)
qed

lemma unpack_index_table: "table_index (unpack_index e n)"
proof -
  define k where "k = sint (Silk_RSHIFT e n AND 7)"
  have k: "0 \<le> k" "k < 8" by (simp_all add: k_def i32_and7)
  have "sint (low16 (Silk_RSHIFT e n AND 7)) = k" using k by (simp add: low16_of_int k_def)
  moreover have "sint (low16 (2 * word_of_int nlsfQuantMaxAmplitude + 1)) = 9" by (simp add: low16_def nlsfQuantMaxAmplitude_def)
  ultimately have m: "Silk_SMULBB (Silk_RSHIFT e n AND 7) (2 * word_of_int nlsfQuantMaxAmplitude + 1) = word_of_int (k * 9)" by (simp add: SMULBB_int)
  have "sint (word_of_int (k * 9) :: i32) = k * 9" using k by (intro i32_of_int) linarith+
  then have "sint (unpack_index e n) = 9 * k" using k low16_of_int [of "word_of_int (k * 9)"] unfolding unpack_index_def m by (simp add: low16_def)
  then show ?thesis using k by (auto simp: table_index_def)
qed

lemma i32_and1: "sint (a AND 1 :: i32) \<in> {0, 1}"
proof -
  have "a AND 1 = 0 \<or> a AND 1 = 1" by (metis and_one_eq parity_cases)
  then show ?thesis by auto
qed

definition unpacked :: "int \<Rightarrow> i16 list \<times> bytes \<Rightarrow> bool" where
  "unpacked i = (\<lambda>(ec, pr). length ec = 16 \<and> length pr = 16 \<and> (\<forall>k. 0 \<le> k \<longrightarrow> k < i \<longrightarrow> table_index (ec ! nat k)))"

lemma silkNLSFUnpack_sat:
  assumes "codebook cb L" "0 \<le> c" "c < 32" "length ec = 16" "length pr = 16"
  shows "sat (silkNLSFUnpack ec pr cb c) E (unpacked L)"
proof -
  note b = codebookD [OF assms(1)]
  define h where "h = L div 2"
  have h: "L = 2 * h" "1 \<le> h" "h \<le> 8" using b(2,3,10) by (simp_all add: h_def)
  have q: "c * L sdiv 2 = c * h" using assms(2) h by (subst sdiv_nonneg) simp_all
  have "c * h \<le> 31 * h" using assms h by (intro mult_right_mono) simp_all
  then have r: "0 \<le> c * h" "c * h + h \<le> len (cb_ecSel cb)" using assms(2) h b(5) by simp_all
  then have n1: "nat (c * h) \<le> length (cb_ecSel cb)" using h by (simp add: nat_le_iff)
  then have l: "len (drop (nat (c * h)) (cb_ecSel cb)) = len (cb_ecSel cb) - c * h" using r by (simp add: of_nat_diff)
  let ?sel = "drop (nat (c * h)) (cb_ecSel cb)"
  have "sat (for_up 0 h (\<lambda>sel (ec_ix, pred_Q8).
        let i = 2 * sel in
        bnd (idx ?sel sel) (\<lambda>b. let entry = ucast b :: i32 in
        bnd (upd ec_ix i (unpack_index entry 1)) (\<lambda>ec_ix.
        bnd (idx (cb_predQ8 cb) (i + sint (entry AND 1) * (L - 1))) (\<lambda>p.
        bnd (upd pred_Q8 i p) (\<lambda>pred_Q8.
        bnd (upd ec_ix (i + 1) (unpack_index entry 5)) (\<lambda>ec_ix.
        bnd (idx (cb_predQ8 cb) (i + sint (Silk_RSHIFT entry 4 AND 1) * (L - 1) + 1)) (\<lambda>p.
        bnd (upd pred_Q8 (i + 1) p) (\<lambda>pred_Q8. Ok (ec_ix, pred_Q8))))))))) (ec, pr)) E (unpacked (2 * h))"
    (is "sat (for_up 0 h ?f (ec, pr)) E _")
  proof (rule sat_for_upI [where I = "\<lambda>s. unpacked (2 * s)"])
    fix s and x :: "i16 list \<times> bytes" assume s: "0 \<le> s" "s < h" and x: "unpacked (2 * s) x"
    obtain e p where xp: "x = (e, p)" by (cases x)
    have n: "length e = 16" "length p = 16" using x by (simp_all add: unpacked_def xp)
    have p1: "0 \<le> 2 * s + sint (w AND 1 :: i32) * (L - 1)" "2 * s + sint (w AND 1 :: i32) * (L - 1) < len (cb_predQ8 cb)" for w
      using i32_and1 [of w] s h b(6) by auto
    define u :: i32 where "u = ucast (?sel ! nat s)"
    have ue: "ucast (cb_ecSel cb ! (nat (c * h) + nat s)) = u" using n1 by (simp add: u_def)
    have "?sel ! nat s = cb_ecSel cb ! nat (c * h + s)" using r h s by (simp add: nat_add_distrib)
    then have last: "Silk_RSHIFT u 4 AND 1 = 0" if "s = h - 1"
      using codebook_last [OF assms(1-3)] that by (simp add: u_def add_diff_eq flip: h_def)
    have p2: "2 * s + sint (Silk_RSHIFT u 4 AND 1) * (L - 1) + 1 < len (cb_predQ8 cb)"
    proof (cases "s = h - 1")
      case True
      then have "sint (Silk_RSHIFT u 4 AND 1) = 0" using last by simp
      then show ?thesis unfolding True b(6) h(1) using h(2) by simp
    next
      case False
      then show ?thesis using i32_and1 [of "Silk_RSHIFT u 4"] s h b(6) by auto
    qed
    have "unpacked (2 * (s + 1)) (e[nat (2 * s) := unpack_index u 1, nat (2 * s + 1) := unpack_index u 5], q)" if "length q = 16" for q
      unfolding unpacked_def prod.case
    proof (intro conjI allI impI)
      fix k assume k: "0 \<le> k" "k < 2 * (s + 1)"
      then have "k = 2 * s \<or> k = 2 * s + 1 \<or> k < 2 * s" by arith
      then show "table_index (e[nat (2 * s) := unpack_index u 1, nat (2 * s + 1) := unpack_index u 5] ! nat k)"
        using x s h n k unpack_index_table by (auto simp: unpacked_def xp nth_list_update eq_nat_nat_iff nat_less_iff)
    qed (use n that in simp_all)
    then show "sat (?f s x) E (unpacked (2 * (s + 1)))"
      using s h n r l p1 p2 by (auto simp: xp Let_def add_nonneg_nonneg ue)
  qed (use h assms in \<open>simp_all add: unpacked_def\<close>)
  moreover have "slice_from (cb_ecSel cb) (c * h) = (Ok ?sel :: bytes go)" using r h by (intro slice_from_Ok) simp_all
  ultimately show ?thesis unfolding silkNLSFUnpack_def Let_def b(1,11) q h_def [symmetric] by (simp add: Let_def h(1))
qed


lemma dequant_sat:
  assumes "0 \<le> L" "L \<le> len x" "L \<le> len ind" "L \<le> len pr"
  shows "sat (silkNLSFResidualDequant x ind pr q L) E (\<lambda>y. length y = length x)"
proof -
  have "sat (for_down L (\<lambda>i (x_Q10, out_Q10).
       bnd (idx pr i) (\<lambda>p.
       let pred_Q10 = Silk_RSHIFT (Silk_SMULBB out_Q10 (ucast p)) 8 in
       bnd (idx ind i) (\<lambda>ind.
       let out_Q10 = Silk_LSHIFT (scast ind) 10;
           out_Q10 = (if 0 <s out_Q10 then out_Q10 - nlsfQuantLevelAdjQ10
                      else if out_Q10 <s 0 then out_Q10 + nlsfQuantLevelAdjQ10 else out_Q10);
           out_Q10 = Silk_SMLAWB pred_Q10 out_Q10 q in
       bnd (upd x_Q10 i (ucast out_Q10)) (\<lambda>x_Q10. Ok (x_Q10, out_Q10))))) (x, 0)) E (\<lambda>y. length (fst y) = length x)"
    using assms by (intro sat_for_downI [where I = "\<lambda>_ s. length (fst s) = length x"]) (simp_all add: case_prod_beta Let_def)
  then show ?thesis by (simp add: silkNLSFResidualDequant_def case_prod_beta)
qed

lemma nlsf_element_sat:
  assumes "w \<noteq> 0"
  shows "sat (nlsf_element r w c) E (\<lambda>_. True)"
proof -
  have "sint (scast w :: i32) = sint w" using i16_range [of w] unfolding scast_of_int by (intro i32_of_int) simp_all
  moreover have "sint w \<noteq> 0" using assms by (metis of_sint word_of_int_0)
  ultimately have "(scast w :: i32) \<noteq> 0" by auto
  then show ?thesis by (simp add: nlsf_element_def Silk_DIV32_16_def Let_def)
qed

lemma silkNLSFDecode_sat:
  assumes "codebook cb L" "L + 1 \<le> len ind" "0 \<le> sint (ind ! 0)" "sint (ind ! 0) < 32" "L \<le> len p"
  shows "sat (silkNLSFDecode p ind cb) E (\<lambda>ys. length ys = length p \<and> spaced ys (cb_deltaMinQ15 cb) L)"
proof -
  note b = codebookD [OF assms(1)]
  let ?c = "sint (ind ! 0)" and ?Q = "\<lambda>ys. length ys = length p \<and> spaced ys (cb_deltaMinQ15 cb) L"
  have o: "0 \<le> ?c * L" "?c * L + L \<le> 32 * L"
  proof -
    have "?c * L \<le> 31 * L" using assms b(2) by (intro mult_right_mono) simp_all
    then show "0 \<le> ?c * L" "?c * L + L \<le> 32 * L" using assms b(2) by simp_all
  qed
  then have n: "nat (?c * L) \<le> length (cb_cb1NLSFQ8 cb)" "nat (?c * L) \<le> length (cb_cb1WghtQ9 cb)" using b(2,7,8) by (simp_all add: nat_le_iff)
  let ?el = "drop (nat (?c * L)) (cb_cb1NLSFQ8 cb)" and ?w = "drop (nat (?c * L)) (cb_cb1WghtQ9 cb)"
  have l: "len ?el = 32 * L - ?c * L" "len ?w = 32 * L - ?c * L" using n o b(7,8) by (simp_all add: of_nat_diff)
  have el: "sat (nlsf_element r (?w ! nat i) c) E (\<lambda>_. True)" if "0 \<le> i" "i < L" for r c i
  proof (rule nlsf_element_sat)
    have "?w ! nat i = cb_cb1WghtQ9 cb ! nat (?c * L + i)" using n(2) that o by (simp add: nat_add_distrib)
    then show "?w ! nat i \<noteq> 0" using codebook_weight [OF assms(1), of "?c * L + i"] that o by simp
  qed
  have st: "sat (NLSFStabilize y (cb_deltaMinQ15 cb) L) E ?Q" if "length y = length p" for y
    using NLSFStabilize_sat [OF b(9), of y E] that b(2) assms(5) by simp
  have U: "sat (silkNLSFUnpack (replicate maxLPCOrder 0) (replicate maxLPCOrder 0) cb ?c) E (unpacked L)"
    using assms by (intro silkNLSFUnpack_sat) (simp_all add: maxLPCOrder_def)
  have D: "sat (silkNLSFResidualDequant (replicate maxLPCOrder 0) (drop 1 ind) (snd u) q L) E (\<lambda>y. length y = 16)" if "unpacked L u" for u q
    using dequant_sat [of L "replicate maxLPCOrder 0" "drop 1 ind" "snd u" q E] that b(2,3) assms(2)
    by (auto simp: unpacked_def maxLPCOrder_def)
  have C: "sat (for_up 0 L (\<lambda>i p. bnd (idx r i) (\<lambda>r. bnd (idx ?w i) (\<lambda>w. bnd (idx ?el i) (\<lambda>c.
        bnd (nlsf_element r w c) (\<lambda>x. upd p i x))))) p) E (\<lambda>y. sat (NLSFStabilize y (cb_deltaMinQ15 cb) L) E ?Q)" if "length r = 16" for r
  proof (rule sat_for_upI [where I = "\<lambda>_ y. length y = length p"])
    fix i and y :: "i16 list" assume i: "0 \<le> i" "i < L" and y: "length y = length p"
    have il: "i < len ?w" "i < len ?el" unfolding l using o(2) i by linarith+
    define w el where "w = ?w" and "el = ?el"
    show "sat (bnd (idx r i) (\<lambda>r. bnd (idx ?w i) (\<lambda>w. bnd (idx ?el i) (\<lambda>c. bnd (nlsf_element r w c) (\<lambda>x. upd y i x))))) E
        (\<lambda>y. length y = length p)"
      using i y that b(3) il assms(5) el [OF i] unfolding w_def [symmetric] el_def [symmetric] by (auto elim!: sat_mono)
  qed (use b(2) st in simp_all)
  note sat_mono [OF U sat_mono [OF D C]]
  moreover have "?c * L \<le> 32 * L" "ind \<noteq> []" "1 \<le> len ind" using assms(2) b(2) o by auto
  ultimately show ?thesis using o(1) b(7,8) unfolding silkNLSFDecode_def Let_def b(1)
    by (simp add: case_prod_beta)
qed


section \<open>The properties\<close>

text \<open>The insertion sort sorts the first \<open>L\<close> values: they are a permutation of the values it was given, in
  increasing order, and the others are not touched.\<close>

theorem insertion_sort_sorts:
  assumes "1 \<le> L" "L \<le> len a"
  shows "\<exists>b. silkInsertionSortIncreasingAllValuesInt16 a L = Ok b \<and> sorted (map sint (take (nat L) b))
    \<and> mset (take (nat L) b) = mset (take (nat L) a) \<and> drop (nat L) b = drop (nat L) a"
proof (cases "silkInsertionSortIncreasingAllValuesInt16 a L")
  case (Ok b)
  have "sat (silkInsertionSortIncreasingAllValuesInt16 a L) (\<lambda>_. False) (sorted_upto a L)" by (rule insertion_sort_sat [OF assms])
  then show ?thesis unfolding Ok by (simp add: sorted_upto_def)
qed (use insertion_sort_sat [OF assms, of "\<lambda>_. False"] in simp_all)

theorem insertion_sort_sorts_witness:
  "\<exists>b. silkInsertionSortIncreasingAllValuesInt16 [3, - 2, 9, 1] 3 = Ok b \<and> sorted (map sint (take (nat 3) b))
    \<and> mset (take (nat 3) b) = mset (take (nat 3) [3, - 2, 9, 1 :: i16]) \<and> drop (nat 3) b = drop (nat 3) [3, - 2, 9, 1]"
  by (rule insertion_sort_sorts) simp_all

text \<open>C18: the stabiliser returns for every vector of 16-bit values: its result keeps every minimum distance, also the
  ones to the borders, when the minimum distances fit between the borders, and a vector that keeps them is not changed.\<close>

theorem stabilizer_spaces:
  assumes "distances_fit delta L" "1 \<le> L" "L \<le> len xs"
  shows "\<exists>ys. NLSFStabilize xs delta L = Ok ys \<and> length ys = length xs \<and> spaced ys delta L \<and> (spaced xs delta L \<longrightarrow> ys = xs)"
proof -
  have l: "L < len delta" using assms(1) by (simp add: distances_fit_def)
  have "sat (min_distance xs delta L) (\<lambda>_. False) (\<lambda>(m, I). spaced xs delta L \<longrightarrow> 0 \<le> sint m)"
    by (rule min_distance_sat [OF assms(2,3) l]) (simp add: spaced_def)
  then obtain m I where "min_distance xs delta L = Ok (m, I)" "spaced xs delta L \<longrightarrow> 0 \<le> sint m"
    by (cases "min_distance xs delta L") auto
  then have "NLSFStabilize xs delta L = Ok xs" if "spaced xs delta L"
    using that by (simp add: NLSFStabilize_def stabilizeMaxLoops_def numeral_eq_Suc word_sle_eq)
  then show ?thesis using NLSFStabilize_sat [OF assms, of "\<lambda>_. False"] by (cases "NLSFStabilize xs delta L") auto
qed

theorem stabilizer_spaces_witness:
  "\<exists>ys. NLSFStabilize [100, 90, 32767] [250, 3, 6, 461] 3 = Ok ys \<and> length ys = length [100, 90, 32767 :: i16]
    \<and> spaced ys [250, 3, 6, 461] 3 \<and> (spaced [100, 90, 32767] [250, 3, 6, 461] 3 \<longrightarrow> ys = [100, 90, 32767])"
  by (rule stabilizer_spaces) (simp_all add: distances_fit_def lower_def numeral_eq_Suc)

text \<open>C20: every path of a codebook (a first index below 32 and any residual indices) is decoded without a panic
  to a vector that keeps the minimum distances of the codebook: no index leaves a table and no weight is zero.\<close>

theorem codebook_path_decodes:
  assumes "order = 10 \<or> order = 16" "order + 1 \<le> len ind" "0 \<le> sint (ind ! 0)" "sint (ind ! 0) < 32" "order \<le> len p"
  shows "\<exists>ys. NLSFDecode p ind order = Ok ys \<and> length ys = length p
    \<and> spaced ys (if order = 16 then silkNLSFDeltaMinWBQ15 else silkNLSFDeltaMinNBMBQ15) order"
proof -
  let ?cb = "if order = 16 then silkNLSFCBWB else silkNLSFCBNBMB"
  have "codebook ?cb order" using assms(1) codebook_WB codebook_NBMB by auto
  note silkNLSFDecode_sat [OF this assms(2-5), of "\<lambda>_. False"]
  moreover have "cb_deltaMinQ15 ?cb = (if order = 16 then silkNLSFDeltaMinWBQ15 else silkNLSFDeltaMinNBMBQ15)"
    by (simp add: silkNLSFCBWB_def silkNLSFCBNBMB_def)
  ultimately show ?thesis unfolding NLSFDecode_def Let_def by (cases "silkNLSFDecode p ind ?cb") auto
qed

theorem codebook_path_decodes_witness:
  "\<exists>ys. NLSFDecode (replicate 16 0) (31 # replicate 10 (- 10)) 10 = Ok ys \<and> length ys = length (replicate 16 (0 :: i16))
    \<and> spaced ys (if 10 = (16 :: int) then silkNLSFDeltaMinWBQ15 else silkNLSFDeltaMinNBMBQ15) 10"
  by (rule codebook_path_decodes) simp_all

end
