(* ===== verification/Silk_Lpc_Props.thy ===== *)
theory Silk_Lpc_Props
  imports Silk_Lpc Silk_Nlsf_Props
begin

text \<open>
  The stability test never panics, and the conversion of line spectral frequencies always ends with a filter that
  passes it.
\<close>

section \<open>The reflection coefficient\<close>

lemma high_word:
  fixes x :: int
  assumes "- 9223372036854775808 \<le> x" "x \<le> 9223372036854775807"
  shows "- 2147483648 \<le> x div 4294967296" "x div 4294967296 < 2147483648"
  using assms by linarith+

lemma SMMUL_int: "sint (Silk_SMMUL a b) = sint a * sint b div 4294967296"
proof -
  have p: "sint (scast a * scast b :: i64) = sint a * sint b"
    by (rule wide_mult) (use i32_range [of b] in simp_all)
  have "Silk_SMMUL a b = word_of_int (sint a * sint b div 2 ^ 32)"
    unfolding Silk_SMMUL_def Silk_SMULL_def Silk_RSHIFT64_def sdrop_of_int p narrow64 by (rule refl)
  moreover have "sint (word_of_int (sint a * sint b div 2 ^ 32) :: i32) = sint a * sint b div 4294967296"
  proof -
    have "\<bar>sint a\<bar> * \<bar>sint b\<bar> \<le> 2147483648 * 2147483648" using i32_range [of a] i32_range [of b] by (intro mult_mono) auto
    then have "\<bar>sint a * sint b\<bar> \<le> 4611686018427387904" by (simp add: abs_mult)
    then have r: "- 9223372036854775808 \<le> sint a * sint b" "sint a * sint b \<le> 9223372036854775807" by linarith+
    show ?thesis using high_word [OF r] by (simp add: i32_of_int)
  qed
  ultimately show ?thesis by (simp only:)
qed

lemma lpc_constants: "aLimitQA24 = 16773022" "oneQ30 = 1073741824" "maxPredGainInvQ30 = 107374" "lpcFit999Q16 = 65470"
  by (simp_all add: aLimitQA24_def oneQ30_def maxPredGainInvQ30_def lpcFit999Q16_def silkFixConst_def lpcInvGainQA_def)

text \<open>For a coefficient within the limit the complement of its square is positive.\<close>

lemma reflection_positive:
  assumes "\<not> unstable_coef a"
  shows "0 < sint (fst (snd (reflection a g)))" "sint (fst (snd (reflection a g))) \<le> 1073741824"
proof -
  have s: "sint (16773022 :: i32) = 16773022" "sint (- 16773022 :: i32) = - 16773022" by simp_all
  have a: "\<bar>sint a\<bar> \<le> 16773022" using assms s by (auto simp: unstable_coef_def lpc_constants word_sless_alt abs_le_iff)
  let ?r = "- Silk_LSHIFT a 7"
  have "?r = word_of_int (- (sint a * 128))" by (simp add: Silk_LSHIFT_def Silk_LSHIFT32_def push_bit_eq_mult)
  moreover have "sint (word_of_int (- (sint a * 128)) :: i32) = - (sint a * 128)" using a by (intro i32_of_int) auto
  ultimately have r: "sint ?r = - (sint a * 128)" by (simp only:)
  have "\<bar>sint a\<bar> * \<bar>sint a\<bar> \<le> 16773022 * 16773022" using a by (intro mult_mono) simp_all
  then have sq: "0 \<le> sint a * sint a" "sint a * sint a \<le> 281334267012484" by (simp_all add: abs_mult_self_eq)
  then have m: "sint (Silk_SMMUL ?r ?r) = sint a * sint a * 16384 div 4294967296" by (simp add: SMMUL_int r algebra_simps)
  have b: "0 \<le> sint a * sint a * 16384 div 4294967296" "sint a * sint a * 16384 div 4294967296 \<le> 1073205136" using sq by linarith+
  have "oneQ30 - Silk_SMMUL ?r ?r = word_of_int (1073741824 - sint a * sint a * 16384 div 4294967296)"
    using of_sint [OF m] by (simp add: lpc_constants)
  moreover have "sint (word_of_int (1073741824 - sint a * sint a * 16384 div 4294967296) :: i32) = 1073741824 - sint a * sint a * 16384 div 4294967296"
    using b by (intro i32_of_int) linarith+
  ultimately have "sint (oneQ30 - Silk_SMMUL ?r ?r) = 1073741824 - sint a * sint a * 16384 div 4294967296" by (simp only:)
  moreover have "fst (snd (reflection a g)) = oneQ30 - Silk_SMMUL ?r ?r" by (simp add: reflection_def Let_def Silk_SUB32_def lpcInvGainQA_def)
  ultimately show "0 < sint (fst (snd (reflection a g)))" "sint (fst (snd (reflection a g))) \<le> 1073741824" using b by simp_all
qed

text \<open>So the count of its leading zeros and its inverse are defined.\<close>

lemma complement_ok:
  assumes "0 < sint m"
  shows "1 \<le> 32 - sint (Silk_CLZ32 (Silk_abs m))" "\<exists>r. Silk_INVERSE32_varQ m Q = Ok r"
proof -
  obtain k n where "sint (Silk_CLZ32 (Silk_abs m)) = int k + 1" "k \<le> 30" using normalise [OF assms] by metis
  then show "1 \<le> 32 - sint (Silk_CLZ32 (Silk_abs m))" by simp
  show "\<exists>r. Silk_INVERSE32_varQ m Q = Ok r" by (rule INVERSE32_varQ_returns [OF assms])
qed

section \<open>The stability test\<close>

lemma step_coefs_sat:
  assumes "0 \<le> n" "n < (k + 1) div 2" "k < 24" "1 \<le> q" "case st of None \<Rightarrow> True | Some A \<Rightarrow> length A = 24"
  shows "sat (step_coefs k rc m q n st) E (\<lambda>st. case st of None \<Rightarrow> True | Some A \<Rightarrow> length A = 24)"
proof (cases st)
  case (Some A)
  have "n < k" "0 \<le> k - n - 1" using assms(1,2) by linarith+
  then show ?thesis using assms Some by (simp add: step_coefs_def rshift_round64_def)
qed (simp add: step_coefs_def)

lemma inv_gain_loop_sat:
  assumes "length A = 24" "j < 24"
  shows "sat (inv_gain_loop j A g) E (\<lambda>r. r = 0 \<or> maxPredGainInvQ30 \<le>s r)"
  using assms
proof (induction j arbitrary: A g)
  case 0
  then show ?case by (auto simp: case_prod_beta word_sless_alt word_sle_eq not_less)
next
  case (Suc j)
  let ?a = "A ! Suc j" and ?k = "int (Suc j)"
  let ?rc = "fst (reflection ?a g)" and ?m1 = "fst (snd (reflection ?a g))" and ?g = "snd (snd (reflection ?a g))"
  let ?q = "32 - sint (Silk_CLZ32 (Silk_abs ?m1))"
  have "sat (bnd (Silk_INVERSE32_varQ ?m1 (?q + 30)) (\<lambda>rc_mult2.
          bnd (for_up 0 ((?k + 1) div 2) (step_coefs ?k ?rc rc_mult2 ?q) (Some A)) (\<lambda>st.
          case st of None \<Rightarrow> Ok 0 | Some A \<Rightarrow> inv_gain_loop j A ?g))) E (\<lambda>r. r = 0 \<or> maxPredGainInvQ30 \<le>s r)"
    if "\<not> unstable_coef ?a"
  proof -
    note m = complement_ok [OF reflection_positive(1) [OF that, of g]]
    obtain i where i: "Silk_INVERSE32_varQ ?m1 (?q + 30) = Ok i" using m(2) by blast
    have "sat (for_up 0 ((?k + 1) div 2) (step_coefs ?k ?rc i ?q) (Some A)) E (\<lambda>st. case st of None \<Rightarrow> True | Some A \<Rightarrow> length A = 24)"
      using Suc.prems m(1) by (intro sat_for_upI [where I = "\<lambda>_ st. case st of None \<Rightarrow> True | Some A \<Rightarrow> length A = 24"] step_coefs_sat) simp_all
    then show ?thesis unfolding i bnd.simps sat_bnd
      by (rule sat_mono) (use Suc.IH Suc.prems in \<open>auto split: option.splits\<close>)
  qed
  moreover have "nat (1 + int j) = Suc j" by simp
  ultimately show ?case using Suc.prems by (simp add: Let_def case_prod_beta)
qed

lemma LPCInversePredGain_sat:
  assumes "1 \<le> d" "d \<le> 24" "d \<le> len A"
  shows "sat (LPCInversePredGain A d) E (\<lambda>r. r = 0 \<or> maxPredGainInvQ30 \<le>s r)"
proof -
  have "sat (for_up 0 d (\<lambda>k (Atmp_QA, DC_resp).
       bnd (idx A k) (\<lambda>a.
       bnd (upd Atmp_QA k (Silk_LSHIFT32 (scast a) (lpcInvGainQA - 12))) (\<lambda>Atmp_QA.
       Ok (Atmp_QA, DC_resp + (scast a :: i32))))) (replicate silkMaxOrderLPC 0, 0)) E (\<lambda>s. length (fst s) = 24)"
    using assms by (intro sat_for_upI [where I = "\<lambda>_ s. length (fst s) = 24"]) (simp_all add: case_prod_beta silkMaxOrderLPC_def)
  then show ?thesis unfolding LPCInversePredGain_def sat_bnd
    by (rule sat_mono) (use assms inv_gain_loop_sat in \<open>auto simp: lpcInversePredGainQA_def split: prod.splits\<close>)
qed

section \<open>The zero filter is stable\<close>

lemma reflection_0: "reflection 0 oneQ30 = (0, oneQ30, oneQ30)"
  by code_simp

lemma replicate_upd: "(replicate n x)[i := x] = replicate n x"
  by (cases "i < n") (simp_all add: list_update_same_conv list_update_beyond)

lemma step_coefs_0:
  assumes "0 \<le> n" "n < (k + 1) div 2" "k < 24" "1 \<le> q"
  shows "step_coefs k 0 m q n (Some (replicate 24 0)) = Ok (Some (replicate 24 0))"
proof -
  have z: "Silk_SUB_SAT32 0 (mul32FracQ 0 0 31) = 0" by (simp add: mul32FracQ_def Silk_SMULL_def Silk_RSHIFT_ROUND64_def Silk_SUB_SAT32_def)
  have r: "rshift_round64 (Silk_SMULL 0 m) q = Ok 0" using assms(4) by (simp add: rshift_round64_def Silk_SMULL_def Silk_RSHIFT_ROUND64_def)
  have k: "n < k" "0 \<le> k - n - 1" using assms(1,2) by linarith+
  have o: "\<not> out_of_i32 0" by code_simp
  show ?thesis using assms k by (simp add: step_coefs_def res_simps z r o replicate_upd)
qed

lemma inv_gain_loop_0: "j < 24 \<Longrightarrow> inv_gain_loop j (replicate 24 0) oneQ30 = Ok oneQ30"
proof (induction j)
  case 0
  have "\<not> unstable_coef 0" "\<not> oneQ30 <s maxPredGainInvQ30" by code_simp+
  then show ?case by (simp add: res_simps reflection_0)
next
  case (Suc j)
  have u: "\<not> unstable_coef 0" "\<not> oneQ30 <s maxPredGainInvQ30" "0 < sint oneQ30" by code_simp+
  let ?q = "32 - sint (Silk_CLZ32 (Silk_abs oneQ30))"
  note m = complement_ok [OF u(3)]
  obtain i where i: "Silk_INVERSE32_varQ oneQ30 (?q + 30) = Ok i" using m(2) by blast
  have "for_up 0 ((int (Suc j) + 1) div 2) (step_coefs (int (Suc j)) 0 i ?q) (Some (replicate 24 0)) = Ok (Some (replicate 24 0))"
    using Suc.prems m(1) by (intro for_up_const step_coefs_0) simp_all
  moreover have "idx (replicate 24 0) (int (Suc j)) = (Ok 0 :: i32 go)" using Suc.prems by (simp add: idx_def)
  ultimately show ?case using u i Suc unfolding inv_gain_loop.simps Let_def by (simp add: reflection_0 del: of_nat_Suc)
qed

lemma zero_filter_stable:
  assumes "1 \<le> d" "d \<le> 24" "d \<le> len A" "\<forall>k < nat d. A ! k = 0"
  shows "LPCInversePredGain A d = Ok oneQ30"
proof -
  let ?f = "\<lambda>k (Atmp_QA, DC_resp).
       bnd (idx A k) (\<lambda>a.
       bnd (upd Atmp_QA k (Silk_LSHIFT32 (scast a) (lpcInvGainQA - 12))) (\<lambda>Atmp_QA.
       Ok (Atmp_QA, DC_resp + (scast a :: i32))))"
  have L: "for_up 0 d ?f (replicate silkMaxOrderLPC 0, 0) = Ok (replicate silkMaxOrderLPC 0, 0 :: i32)"
    using assms by (intro for_up_const) (simp add: res_simps silkMaxOrderLPC_def Silk_LSHIFT32_def replicate_upd)
  have "\<not> 4096 \<le>s (0 :: i32)" by code_simp
  then show ?thesis unfolding LPCInversePredGain_def L bnd.simps prod.case
    using assms inv_gain_loop_0 [of "nat (d - 1)"] by (simp add: lpcInversePredGainQA_def silkMaxOrderLPC_def)
qed

section \<open>The stages of the conversion\<close>

lemma Bwexpander32_sat:
  assumes "1 \<le> d" "d \<le> len ar"
  shows "sat (Bwexpander32 ar d c) E (\<lambda>ys. length ys = length ar)"
proof -
  have "sat (for_up 0 (d - 1) (\<lambda>i (ar, chirp_Q16).
        bnd (idx ar i) (\<lambda>x.
        bnd (upd ar i (Silk_SMULWW chirp_Q16 x)) (\<lambda>ar.
        Ok (ar, chirp_Q16 + Silk_RSHIFT_ROUND (Silk_MUL chirp_Q16 (c - 65536)) 16)))) (ar, c)) E (\<lambda>s. length (fst s) = length ar)"
    using assms by (intro sat_for_upI [where I = "\<lambda>_ s. length (fst s) = length ar"]) (simp_all add: case_prod_beta)
  then show ?thesis using assms unfolding Bwexpander32_def Let_def sat_bnd
    by (elim sat_mono) (auto simp: case_prod_beta)
qed

text \<open>With the chirp 0 nothing is left of the filter.\<close>

lemma Bwexpander32_0:
  assumes "1 \<le> d" "d \<le> len ar"
  shows "sat (Bwexpander32 ar d 0) E (\<lambda>ys. length ys = length ar \<and> (\<forall>k < nat d. ys ! k = 0))"
proof -
  have z: "Silk_SMULWW 0 x = 0" "Silk_RSHIFT_ROUND (Silk_MUL 0 x) 16 = 0" for x
    by (simp_all add: Silk_SMULWW_def Silk_RSHIFT_ROUND_def Silk_MUL_def)
  let ?I = "\<lambda>i s. length (fst s) = length ar \<and> snd s = 0 \<and> (\<forall>k < nat i. fst s ! k = (0 :: i32))"
  have "sat (for_up 0 (d - 1) (\<lambda>i (ar, chirp_Q16).
        bnd (idx ar i) (\<lambda>x.
        bnd (upd ar i (Silk_SMULWW chirp_Q16 x)) (\<lambda>ar.
        Ok (ar, chirp_Q16 + Silk_RSHIFT_ROUND (Silk_MUL chirp_Q16 (0 - 65536)) 16)))) (ar, 0)) E (?I (d - 1))"
    using assms by (intro sat_for_upI [where I = ?I]) (auto simp: case_prod_beta z nth_list_update nat_add_distrib less_Suc_eq)
  then show ?thesis using assms unfolding Bwexpander32_def Let_def sat_bnd
  proof (elim sat_mono, clarsimp simp: z case_prod_beta)
    fix xs :: "i32 list" and k
    assume a: "length xs = length ar" "\<forall>k < nat (d - 1). xs ! k = 0" "k < nat d" "d \<le> len ar" "1 \<le> d"
    show "xs[nat (d - 1) := 0] ! k = 0"
      using a by (cases "k = nat (d - 1)") (auto simp: nth_list_update)
  qed
qed


lemma max_coef_sat:
  assumes "0 \<le> d" "d \<le> len a" "d \<le> 24" "0 \<le> ix" "ix < 24"
  shows "sat (max_coef a d ix) E (\<lambda>s. 0 \<le> snd s \<and> snd s < 24)"
  unfolding max_coef_def
  using assms by (intro sat_for_upI [where I = "\<lambda>_ s. 0 \<le> snd s \<and> snd s < 24"]) (auto simp: case_prod_beta Let_def)

text \<open>The divisor of the fit is not zero: the coefficient does not fit into 16 bits.\<close>

lemma fit_chirp_returns:
  assumes "32767 <s m" "0 \<le> ix" "ix < 24"
  shows "\<exists>c. fit_chirp m ix = Ok c"
proof -
  define x where "x = Silk_min_32 m 163838"
  have x: "32768 \<le> sint x" "sint x \<le> 163838" using assms(1) by (auto simp: x_def Silk_min_32_def word_sless_alt)
  have i: "sint (word_of_int (ix + 1) :: i32) = ix + 1" using assms by (intro i32_of_int) auto
  have p: "32768 * 1 \<le> sint x * (ix + 1)" "sint x * (ix + 1) \<le> 163838 * 24" using x assms by (intro mult_mono; simp)+
  have "Silk_MUL x (word_of_int (ix + 1)) = word_of_int (sint x * (ix + 1))"
    unfolding Silk_MUL_def of_int_mult by simp
  moreover have "sint (word_of_int (sint x * (ix + 1)) :: i32) = sint x * (ix + 1)" using p by (intro i32_of_int) auto
  ultimately have "sint (Silk_MUL x (word_of_int (ix + 1))) = sint x * (ix + 1)" by (simp only:)
  then have "sint (Silk_RSHIFT32 (Silk_MUL x (word_of_int (ix + 1))) 2) = sint x * (ix + 1) div 4" by (simp add: RSHIFT_int)
  moreover have "8192 \<le> sint x * (ix + 1) div 4" using p(1) by linarith
  ultimately have "Silk_RSHIFT32 (Silk_MUL x (word_of_int (ix + 1))) 2 \<noteq> 0" by auto
  then show ?thesis by (simp add: fit_chirp_def Silk_DIV32_def x_def [symmetric])
qed

lemma fit_loop_sat:
  assumes "1 \<le> d" "d \<le> len a" "d \<le> 24" "0 \<le> ix" "ix < 24"
  shows "sat (fit_loop n a sh d ix) E (\<lambda>s. length (fst s) = length a)"
  using assms
proof (induction n arbitrary: a ix)
  case (Suc n)
  have "sat (bnd (fit_chirp m jx) (\<lambda>c. bnd (Bwexpander32 a d c) (\<lambda>b. fit_loop n b sh d jx))) E (\<lambda>s. length (fst s) = length a)"
    if j: "0 \<le> jx" "jx < 24" and m: "32767 <s m" for m jx
  proof -
    obtain c where c: "fit_chirp m jx = Ok c" using fit_chirp_returns [OF m j] by blast
    have "sat (fit_loop n b sh d jx) E (\<lambda>s. length (fst s) = length a)" if "length b = length a" for b
      using Suc.IH [of b jx] Suc.prems j that by simp
    then show ?thesis unfolding c bnd.simps sat_bnd by (intro sat_mono [OF Bwexpander32_sat]) (use Suc.prems in auto)
  qed
  moreover have "sat (max_coef a d ix) E (\<lambda>s. 0 \<le> snd s \<and> snd s < 24)" using Suc.prems by (intro max_coef_sat) auto
  ultimately show ?case unfolding fit_loop.simps sat_bnd
    by (elim sat_mono) (simp add: Let_def)
qed simp

lemma silkLPCFit_sat:
  assumes "1 \<le> d" "d \<le> len a" "d \<le> 24" "d \<le> len y"
  shows "sat (silkLPCFit y a qo qi d) E (\<lambda>s. length (fst s) = length y \<and> length (snd s) = length a)"
  unfolding silkLPCFit_def Let_def sat_bnd
proof (rule sat_mono [OF fit_loop_sat [where ix = 0]], goal_cases)
  case (6 s)
  show ?case
  proof (cases "snd s")
    case False
    then show ?thesis using 6 assms
      by (simp add: case_prod_beta) (rule sat_for_upI [where I = "\<lambda>_ s. length (fst s) = length y \<and> length (snd s) = length a"]; simp add: case_prod_beta)
  next
    case True
    then show ?thesis using 6 assms
      by (simp add: case_prod_beta) (rule sat_for_upI [where I = "\<lambda>_ s. length s = length y"]; simp)
  qed
qed (use assms in simp_all)

lemma silkNLSF2AFindPoly_sat:
  assumes "1 \<le> dd" "dd < len p" "2 * dd - 1 \<le> len c"
  shows "sat (silkNLSF2AFindPoly p c dd) E (\<lambda>q. length q = length p)"
proof -
  have down: "sat (for_down (k - 1) (\<lambda>m p. let n = m + 2 in
         bnd (idx p n) (\<lambda>x.
         bnd (idx p (n - 2)) (\<lambda>a.
         bnd (idx p (n - 1)) (\<lambda>b. upd p n (x + (a - poly_product t b)))))) q) E (\<lambda>r. length r = length p)"
    if "length q = length p" "1 \<le> k" "k < dd" for q t k
    using that assms by (intro sat_for_downI [where I = "\<lambda>_ q. length q = length p"]) (simp_all add: Let_def)
  let ?f = "\<lambda>k p.
       bnd (idx c (2 * k)) (\<lambda>ftmp.
       bnd (idx p (k - 1)) (\<lambda>a.
       bnd (idx p k) (\<lambda>b.
       bnd (upd p (k + 1) (Silk_LSHIFT a 1 - poly_product ftmp b)) (\<lambda>p.
       bnd (for_down (k - 1) (\<lambda>m p. let n = m + 2 in
         bnd (idx p n) (\<lambda>x.
         bnd (idx p (n - 2)) (\<lambda>a.
         bnd (idx p (n - 1)) (\<lambda>b. upd p n (x + (a - poly_product ftmp b)))))) p) (\<lambda>p.
       bnd (idx p 1) (\<lambda>x. upd p 1 (x - ftmp)))))))"
  have "sat (?f k q) E (\<lambda>q. length q = length p)" if "1 \<le> k" "k < dd" "length q = length p" for k q
    unfolding sat_bnd sat_idx sat_upd using that assms by (intro conjI sat_mono [OF down]) auto
  then have "sat (for_up 1 dd ?f q) E (\<lambda>q. length q = length p)" if "length q = length p" for q
    using assms(1) that by (intro sat_for_upI [where I = "\<lambda>_ q. length q = length p"])
  then show ?thesis unfolding silkNLSF2AFindPoly_def sat_bnd sat_idx sat_upd using assms by auto
qed

lemma cos_LSF_sat:
  assumes "0 \<le> sint x"
  shows "\<exists>c. cos_LSF x = Ok c"
proof -
  have "sint x < 32768" using sint_lt [of x] by simp
  define f where "f = Silk_RSHIFT (scast x) 8"
  have s: "sint f = sint x div 256" by (simp add: f_def RSHIFT_int sint_up_scast is_up)
  then have f: "0 \<le> sint f" "sint f \<le> 127" using assms \<open>sint x < 32768\<close> by auto
  have "f + 1 = word_of_int (sint f + 1)" by simp
  moreover have "sint (word_of_int (sint f + 1) :: i32) = sint f + 1" using f by (intro i32_of_int) auto
  ultimately have g: "sint (f + 1) = sint f + 1" by (simp only:)
  have "length silkLSFCosTabFIXQ12 = 129" by code_simp
  then show ?thesis using f by (simp add: cos_LSF_def f_def [symmetric] Let_def g res_simps)
qed

lemma orderings: "length ordering16 = 16" "length ordering10 = 10" "list_all (\<lambda>i. i < 24) ordering16" "list_all (\<lambda>i. i < 24) ordering10"
  by code_simp+

lemma cos_vector_sat:
  assumes "d = 10 \<or> d = 16" "d \<le> len NLSF" "\<forall>k < nat d. 0 \<le> sint (NLSF ! k)"
  shows "sat (cos_vector NLSF d) E (\<lambda>v. length v = 24)"
proof -
  define o' where "o' = (if d = 16 then ordering16 else ordering10)"
  have o: "len o' = d" "list_all (\<lambda>i. i < 24) o'" using assms(1) orderings by (auto simp: o'_def)
  have "sat (bnd (idx NLSF k) (\<lambda>x. bnd (cos_LSF x) (\<lambda>c. bnd (idx o' k) (\<lambda>pos. upd v (int pos) c)))) E (\<lambda>v. length v = 24)"
    if "0 \<le> k" "k < d" "length v = 24" for k v
  proof -
    have "0 \<le> sint (NLSF ! nat k)" using assms(3) that by auto
    then obtain c where c: "cos_LSF (NLSF ! nat k) = Ok c" using cos_LSF_sat by blast
    have "o' ! nat k < 24" using o that by (auto simp: list_all_length)
    then show ?thesis using that assms(2) o by (simp add: c)
  qed
  then show ?thesis unfolding cos_vector_def o'_def [symmetric] Let_def
    using assms(1) by (intro sat_for_upI [where I = "\<lambda>_ v. length v = 24"]) (auto simp: silkMaxOrderLPC_def)
qed

lemma lpc_coefs_sat:
  assumes "0 \<le> d" "d \<le> 24" "d div 2 < len P" "d div 2 < len Q"
  shows "sat (lpc_coefs P Q d) E (\<lambda>a. length a = 24)"
  unfolding lpc_coefs_def Let_def
  using assms by (intro sat_for_upI [where I = "\<lambda>_ a. length a = 24"]) (auto simp: silkMaxOrderLPC_def)

section \<open>The expansion\<close>

lemma expand_coefs_sat:
  assumes "1 \<le> d" "d \<le> len a" "d \<le> len y"
  shows "sat (expand_coefs i y a d) E (\<lambda>s. length (fst s) = length y \<and> length (snd s) = length a)"
  unfolding expand_coefs_def sat_bnd
proof (rule sat_mono [OF Bwexpander32_sat], goal_cases)
  case (3 b)
  then show ?case using assms by (intro sat_for_upI [where I = "\<lambda>_ s. length s = length y"]) simp_all
qed (use assms in simp_all)

text \<open>The last expansion has the chirp 0.\<close>

lemma expand_coefs_last:
  assumes "1 \<le> d" "d \<le> len a" "d \<le> len y"
  shows "sat (expand_coefs 15 y a d) E (\<lambda>s. length (fst s) = length y \<and> length (snd s) = length a \<and> (\<forall>k < nat d. fst s ! k = 0))"
proof -
  have c: "65536 - Silk_LSHIFT 2 15 = 0" by code_simp
  have r: "ucast (Silk_RSHIFT_ROUND 0 (nlsf2aQA + 1 - 12)) = (0 :: i16)" by code_simp
  show ?thesis unfolding expand_coefs_def c sat_bnd
  proof (rule sat_mono [OF Bwexpander32_0], goal_cases)
    case (3 b)
    then show ?case using assms r
      by (intro sat_for_upI [where I = "\<lambda>i s. length s = length y \<and> (\<forall>k < nat i. s ! k = 0)"])
        (auto simp: nth_list_update nat_add_distrib less_Suc_eq)
  qed (use assms in simp_all)
qed

lemma expand_loop_sat:
  assumes "1 \<le> d" "d \<le> len a" "d \<le> len y" "d \<le> 24" "i \<le> 16" "i = 16 \<longrightarrow> (\<forall>k < nat d. y ! k = 0)"
  shows "sat (expand_loop i y a d) E (\<lambda>z. length z = length y \<and> (\<exists>g. LPCInversePredGain z d = Ok g \<and> g \<noteq> 0))"
  using assms
proof (induction "16 - i" arbitrary: i y a)
  case 0
  then have "LPCInversePredGain y d = Ok oneQ30" by (intro zero_filter_stable) auto
  moreover have "oneQ30 \<noteq> 0" by code_simp
  ultimately show ?case by (subst expand_loop.simps) simp
next
  case (Suc n)
  obtain g where g: "LPCInversePredGain y d = Ok g"
    using LPCInversePredGain_sat [of d y "\<lambda>_. False"] Suc.prems by (cases "LPCInversePredGain y d") auto
  have i: "i < maxLPCStabilizeIterations" using Suc by (simp add: maxLPCStabilizeIterations_def)
  have "sat (expand_coefs i y a d) E (\<lambda>s. length (fst s) = length y \<and> length (snd s) = length a \<and> (i = 15 \<longrightarrow> (\<forall>k < nat d. fst s ! k = 0)))"
    using expand_coefs_sat [of d a y i E] expand_coefs_last [of d a y E] Suc.prems by (cases "i = 15") auto
  then have "sat (bnd (expand_coefs i y a d) (\<lambda>(b, c). expand_loop (i + 1) b c d)) E (\<lambda>z. length z = length y \<and> (\<exists>g. LPCInversePredGain z d = Ok g \<and> g \<noteq> 0))"
    unfolding sat_bnd
  proof (rule sat_mono, goal_cases)
    case (1 s)
    have "sat (expand_loop (i + 1) (fst s) (snd s) d) E (\<lambda>z. length z = length (fst s) \<and> (\<exists>g. LPCInversePredGain z d = Ok g \<and> g \<noteq> 0))"
      using Suc.hyps(2) Suc.prems 1 by (intro Suc.hyps(1)) auto
    then show ?case using 1 by (simp add: case_prod_beta)
  qed
  then show ?case using g i by (subst expand_loop.simps) simp
qed

lemma NLSF2A_stable:
  assumes "d = 10 \<or> d = 16" "d \<le> len NLSF" "\<forall>k < nat d. 0 \<le> sint (NLSF ! k)" "d \<le> len y"
  shows "sat (NLSF2A y NLSF d) E (\<lambda>z. length z = length y \<and> (\<exists>g. LPCInversePredGain z d = Ok g \<and> g \<noteq> 0))"
  unfolding NLSF2A_def Let_def sat_bnd
proof (rule sat_mono [OF cos_vector_sat [OF assms(1-3)]], goal_cases)
  case (1 v)
  let ?p = "replicate (silkMaxOrderLPC div 2 + 1) 0 :: i32 list"
  have p: "length ?p = 13" by (simp add: silkMaxOrderLPC_def)
  have d: "1 \<le> d div 2" "d div 2 < 13" "2 * (d div 2) - 1 \<le> 23" "1 \<le> d" "d \<le> 24" using assms(1) by auto
  show ?case
  proof (rule sat_mono [OF silkNLSF2AFindPoly_sat], goal_cases)
    case (4 P)
    have "sat (silkNLSF2AFindPoly ?p (drop 1 v) (d div 2)) E (\<lambda>q. length q = 13)"
      using silkNLSF2AFindPoly_sat [of "d div 2" ?p "drop 1 v" E] d 1 unfolding p by simp
    then show ?case unfolding sat_slice_from using 1
    proof (simp, elim sat_mono, goal_cases)
      case (1 Q)
      have "sat (lpc_coefs P Q d) E (\<lambda>a. length a = 24)" using 1 4 p d by (intro lpc_coefs_sat) simp_all
      then show ?case
      proof (elim sat_mono, goal_cases)
        case (1 a)
        have "sat (silkLPCFit y a 12 (int nlsf2aQA + 1) d) E (\<lambda>s. length (fst s) = length y \<and> length (snd s) = length a)"
          using 1 assms(4) d by (intro silkLPCFit_sat) simp_all
        then show ?case
        proof (elim sat_mono, goal_cases)
          case (1 s)
          have "sat (expand_loop 0 (fst s) (snd s) d) E (\<lambda>z. length z = length (fst s) \<and> (\<exists>g. LPCInversePredGain z d = Ok g \<and> g \<noteq> 0))"
            using 1 assms(4) d \<open>length a = 24\<close> by (intro expand_loop_sat) simp_all
          then show ?case using 1 by (simp add: case_prod_beta)
        qed
      qed
    qed
  qed (use p d 1 in simp_all)
qed

section \<open>The property\<close>

text \<open>
  C19: whatever the line spectral frequencies, the conversion does not panic and ends with a filter that passes the
  stability test: the sixteen expansions of the bandwidth are enough, because the last one has the chirp zero.
\<close>

theorem nlsf_filter_stable:
  assumes "d = 10 \<or> d = 16" "d \<le> len NLSF" "\<forall>k < nat d. 0 \<le> sint (NLSF ! k)" "d \<le> len a"
  shows "\<exists>a' g. NLSF2A a NLSF d = Ok a' \<and> length a' = length a \<and> LPCInversePredGain a' d = Ok g \<and> g \<noteq> 0"
  using NLSF2A_stable [OF assms, of "\<lambda>_. False"] by (cases "NLSF2A a NLSF d") auto

theorem nlsf_filter_stable_witness:
  "\<exists>a' g. NLSF2A (replicate 16 0) [1, 1, 1, 1, 1, 1, 1, 1, 1, 32767] 10 = Ok a' \<and> length a' = length (replicate 16 (0 :: i16)) \<and>
    LPCInversePredGain a' 10 = Ok g \<and> g \<noteq> 0"
  by (rule nlsf_filter_stable) (auto simp: less_Suc_eq_0_disj numeral_nat)

end
