(* ===== verification/Opusenc_Dtx.thy ===== *)
theory Opusenc_Dtx
  imports Fixedmath_Props
begin

text \<open>
  Discontinuous transmission (\<^verbatim>\<open>internal/opusenc/dtx.go\<close> and the decision in \<^verbatim>\<open>encode.go\<close>): silence detection, the
  energy of a frame, and the counter that decides which silent frames are dropped, as a function and as a step relation.
\<close>

section \<open>Silence and energy\<close>

definition minmax_step :: "i16 \<times> i16 \<Rightarrow> i16 \<Rightarrow> i16 \<times> i16" where
  "minmax_step s v = (case s of (maxval, minval) \<Rightarrow>
     (if maxval <s v then v else maxval, if v <s minval then v else minval))"

definition celtMaxabs16 :: "i16 list \<Rightarrow> int \<Rightarrow> i32 go" where
  "celtMaxabs16 x n =
     (if n < 0 \<or> len x < n then Panic
      else case foldl minmax_step (0, 0) (take (nat n) x) of (maxval, minval) \<Rightarrow>
        Ok (MAX32 (EXTEND32 maxval) (- EXTEND32 minval)))"

definition isDigitalSilence :: "i16 list \<Rightarrow> int \<Rightarrow> int \<Rightarrow> bool go" where
  "isDigitalSilence pcm frameSize channels = bnd (celtMaxabs16 pcm (frameSize * channels)) (\<lambda>m. Ok (m = 0))"

definition energy_step :: "nat \<Rightarrow> i32 \<Rightarrow> i16 \<Rightarrow> i32" where
  "energy_step shift energy v = energy + SHR32 (MULT16_16 v v) shift"

definition computeFrameEnergy :: "i16 list \<Rightarrow> int \<Rightarrow> int \<Rightarrow> i32 go" where
  "computeFrameEnergy pcm frameSize channels =
     (let l = frameSize * channels in
      if l < 0 \<or> len pcm < l then Panic
      else
        let pcm = take (nat l) pcm in
        bnd (celtMaxabs16 pcm l) (\<lambda>sampleMax.
        let maxShift = Celt_ilog2 (word_of_int l);
            shift = nat (IMAX 0 (Celt_ilog2 (1 + sampleMax) * 2 + maxShift - 28));
            energy = foldl (energy_step shift) 0 pcm
        in if (word_of_int l :: i32) = 0 then Panic
           else Ok (SHL32 (word_of_int (sint energy sdiv sint (word_of_int l :: i32))) shift)))"

section \<open>The decision\<close>

definition nbSpeechFramesBeforeDTX :: int where "nbSpeechFramesBeforeDTX = 10"
definition maxConsecutiveDTX :: int where "maxConsecutiveDTX = 20"

text \<open>The result and the counter left in \<^verbatim>\<open>nbNoActivityMsQ1\<close>; times are in half milliseconds.\<close>

definition decideDTXMode :: "int \<Rightarrow> int \<Rightarrow> int \<Rightarrow> bool \<times> int" where
  "decideDTXMode activity nbNoActivityMsQ1 frameSizeMsQ1 =
     (if activity = 0 then
        let nbNoActivityMsQ1 = nbNoActivityMsQ1 + frameSizeMsQ1 in
        if nbNoActivityMsQ1 > nbSpeechFramesBeforeDTX * 20 * 2 then
          if nbNoActivityMsQ1 \<le> (nbSpeechFramesBeforeDTX + maxConsecutiveDTX) * 20 * 2 then (True, nbNoActivityMsQ1)
          else (False, nbSpeechFramesBeforeDTX * 20 * 2)
        else (False, nbNoActivityMsQ1)
      else (False, 0))"

text \<open>
  The part of \<^verbatim>\<open>encodeFrameNative\<close> that decides: \<open>useDTX\<close> is \<^verbatim>\<open>st.silkMode.useDTX\<close>.  \<open>Panic\<close>: a sampling rate of zero.
\<close>

definition dtx_decision :: "int \<Rightarrow> bool \<Rightarrow> bool \<Rightarrow> int \<Rightarrow> int \<Rightarrow> int \<Rightarrow> (bool \<times> int) go" where
  "dtx_decision useDtx useDTX isSilence nbNoActivityMsQ1 frameSize Fs =
     (let activity = (if isSilence then 0 else - 1) in
      if useDtx \<noteq> 0 \<and> \<not> useDTX then
        if Fs = 0 then Panic
        else Ok (decideDTXMode activity nbNoActivityMsQ1 ((2 * 1000 * frameSize) sdiv Fs))
      else Ok (False, 0))"

section \<open>The decision as a state machine\<close>

text \<open>
  \<open>dtx_step ms c silent dropped c'\<close>: a frame of \<open>ms\<close> half milliseconds takes the counter from \<open>c\<close> to \<open>c'\<close>.
\<close>

inductive dtx_step :: "int \<Rightarrow> int \<Rightarrow> bool \<Rightarrow> bool \<Rightarrow> int \<Rightarrow> bool" where
  active: "dtx_step ms c False False 0"
| waiting: "c + ms \<le> 400 \<Longrightarrow> dtx_step ms c True False (c + ms)"
| drop_frame: "400 < c + ms \<Longrightarrow> c + ms \<le> 1200 \<Longrightarrow> dtx_step ms c True True (c + ms)"
| forced: "1200 < c + ms \<Longrightarrow> dtx_step ms c True False 400"

inductive_cases dtx_stepE: "dtx_step ms c silent dropped c'"

inductive_simps dtx_step_silent: "dtx_step ms c True dropped c'"
  and dtx_step_active: "dtx_step ms c False dropped c'"

text \<open>
  The states an encoder reaches with frames of at most 20 ms: the counter, the length of the silence so far, and the
  length of the run of dropped frames at its end.
\<close>

inductive dtx_reach :: "int \<Rightarrow> int \<Rightarrow> int \<Rightarrow> bool" where
  start: "dtx_reach 0 0 0"
| frame: "dtx_reach c s r \<Longrightarrow> decideDTXMode (if silent then 0 else - 1) c ms = (dropped, c') \<Longrightarrow> 0 < ms \<Longrightarrow> ms \<le> 40 \<Longrightarrow>
    dtx_reach c' (if silent then s + ms else 0) (if dropped then r + ms else 0)"

text \<open>The counter after \<open>n\<close> silent frames.\<close>

primrec silent_counter :: "(nat \<Rightarrow> int) \<Rightarrow> int \<Rightarrow> nat \<Rightarrow> int" where
  "silent_counter ms c 0 = c"
| "silent_counter ms c (Suc n) = snd (decideDTXMode 0 (silent_counter ms c n) (ms n))"

section \<open>The counter\<close>

lemma dtx_constants: "nbSpeechFramesBeforeDTX * 20 * 2 = 400" "(nbSpeechFramesBeforeDTX + maxConsecutiveDTX) * 20 * 2 = 1200"
  by (simp_all add: nbSpeechFramesBeforeDTX_def maxConsecutiveDTX_def)

lemma decideDTXMode_silent:
  "decideDTXMode 0 c ms = (if 400 < c + ms then if c + ms \<le> 1200 then (True, c + ms) else (False, 400) else (False, c + ms))"
  unfolding decideDTXMode_def dtx_constants Let_def by simp

lemma decideDTXMode_active: "a \<noteq> 0 \<Longrightarrow> decideDTXMode a c ms = (False, 0)"
  by (simp add: decideDTXMode_def)

text \<open>
  The function is the state machine: a frame of any length takes the counter where the machine allows it, and the
  frame is dropped exactly where the machine drops it.
\<close>

lemma dtx_is_the_machine:
  "dtx_step ms c silent dropped c' \<longleftrightarrow> decideDTXMode (if silent then 0 else - 1) c ms = (dropped, c')"
proof (cases silent)
  case True
  then show ?thesis by (auto simp: dtx_step_silent decideDTXMode_silent)
next
  case False
  then show ?thesis by (auto simp: dtx_step_active decideDTXMode_active)
qed

lemma dtx_invariant:
  "dtx_reach c s r \<Longrightarrow> 0 \<le> c \<and> c \<le> 1200 \<and> c \<le> s \<and> (r = 0 \<and> c \<le> 400 \<or> 0 < r \<and> 360 < c - r \<and> c - r \<le> 400)"
proof (induction rule: dtx_reach.induct)
  case (frame c s r silent ms dropped c')
  from frame(2) have "dtx_step ms c silent dropped c'" by (simp only: dtx_is_the_machine)
  then show ?case using frame by (elim dtx_stepE) auto
qed simp

text \<open>
  C22: in every state an encoder reaches, frames have been dropped for less than 420 ms, and never before more than
  180 ms of silence: what is left of the silence without the dropped frames at its end.
\<close>

theorem dtx_run_bounded:
  assumes "dtx_reach c s r"
  shows "r < 840 \<and> (0 < r \<longrightarrow> 360 < s - r)"
  using dtx_invariant [OF assms] by auto

theorem dtx_run_bounded_witness: "dtx_reach 440 440 40 \<and> (40 :: int) < 840 \<and> (360 :: int) < 440 - 40"
proof -
  have "dtx_reach (40 * int n) (40 * int n) 0" if "n \<le> 10" for n
    using that
  proof (induction n)
    case (Suc n)
    then show ?case
      using dtx_reach.frame [of "40 * int n" "40 * int n" 0 True 40 False "40 * int n + 40"]
      by (simp add: decideDTXMode_silent algebra_simps)
  qed (simp add: dtx_reach.start)
  from this [of 10] have "dtx_reach 400 400 0" by simp
  then have "dtx_reach 440 440 40"
    using dtx_reach.frame [of 400 400 0 True 40 True 440] by (simp add: decideDTXMode_silent)
  from conjI [OF this dtx_run_bounded [OF this]] show ?thesis by simp
qed

section \<open>Progress\<close>

lemma counter_grows:
  assumes "\<And>i. 0 < ms i" "\<And>i. n \<le> i \<Longrightarrow> fst (decideDTXMode 0 (silent_counter ms c i) (ms i))"
  shows "silent_counter ms c n + int k \<le> silent_counter ms c (n + k)"
proof (induction k)
  case (Suc k)
  have "fst (decideDTXMode 0 (silent_counter ms c (n + k)) (ms (n + k)))" using assms(2) by simp
  then have "silent_counter ms c (n + Suc k) = silent_counter ms c (n + k) + ms (n + k)"
    by (simp add: decideDTXMode_silent split: if_splits)
  then show ?case using Suc assms(1) [of "n + k"] by simp
qed simp

text \<open>
  C21: silence that never ends never stops the transmission: whatever the lengths of the frames, after any
  frame there is a later one that is sent.
\<close>

theorem dtx_keeps_sending:
  assumes "\<forall>i. 0 < ms i"
  shows "\<exists>m \<ge> n. \<not> fst (decideDTXMode 0 (silent_counter ms c m) (ms m))"
proof (rule ccontr)
  assume "\<not> ?thesis"
  then have d: "fst (decideDTXMode 0 (silent_counter ms c i) (ms i))" if "n \<le> i" for i using that by auto
  define k where "k = Suc (nat (1200 - silent_counter ms c n))"
  have "silent_counter ms c n + int k \<le> silent_counter ms c (n + k)" using assms d by (intro counter_grows) auto
  moreover have "fst (decideDTXMode 0 (silent_counter ms c (n + k)) (ms (n + k)))" using d by simp
  then have "silent_counter ms c (n + k) \<le> 1200" using spec [OF assms, of "n + k"]
    by (simp add: decideDTXMode_silent split: if_splits)
  moreover have "1200 - silent_counter ms c n < int k" by (simp add: k_def)
  ultimately show False by linarith
qed

theorem dtx_keeps_sending_witness:
  "\<exists>m \<ge> 11. \<not> fst (decideDTXMode 0 (silent_counter (\<lambda>_. 40) 0 m) 40)"
  by (rule dtx_keeps_sending [of "\<lambda>_. 40" 11 0]) simp

section \<open>The energy\<close>

lemma minmax_fold:
  "foldl minmax_step (a, b) xs = (mx, mn) \<Longrightarrow>
     sint a \<le> sint mx \<and> sint mn \<le> sint b \<and> (\<forall>v \<in> set xs. sint v \<le> sint mx \<and> sint mn \<le> sint v) \<and>
     (mx = a \<or> mx \<in> set xs) \<and> (mn = b \<or> mn \<in> set xs)"
proof (induction xs arbitrary: a b)
  case (Cons x xs)
  let ?a = "if a <s x then x else a" and ?b = "if x <s b then x else b"
  have "minmax_step (a, b) x = (?a, ?b)" by (simp add: minmax_step_def)
  then have "foldl minmax_step (?a, ?b) xs = (mx, mn)" using Cons.prems by simp
  from Cons.IH [OF this] show ?case by (auto simp: word_sless_alt split: if_splits)
qed simp


lemma celtMaxabs16_spec:
  assumes "0 \<le> n" "n \<le> len x"
  shows "\<exists>m. celtMaxabs16 x n = Ok m \<and> 0 \<le> sint m \<and> sint m \<le> 32768 \<and> (\<forall>v \<in> set (take (nat n) x). \<bar>sint v\<bar> \<le> sint m) \<and>
    (sint m = 0 \<or> (\<exists>v \<in> set (take (nat n) x). \<bar>sint v\<bar> = sint m))"
proof -
  obtain mx mn where f: "foldl minmax_step (0, 0) (take (nat n) x) = (mx, mn)" by fastforce
  note b = minmax_fold [OF f]
  have e: "sint (EXTEND32 w) = sint w" for w by (simp add: EXTEND32_def sint_up_scast is_up)
  have "- EXTEND32 mn = word_of_int (- sint mn)" unfolding EXTEND32_def scast_of_int by simp
  moreover have "sint (word_of_int (- sint mn) :: i32) = - sint mn" using i16_range [of mn] b by (intro i32_of_int) auto
  ultimately have n: "sint (- EXTEND32 mn) = - sint mn" by (simp only:)
  have m: "sint (MAX32 (EXTEND32 mx) (- EXTEND32 mn)) = max (sint mx) (- sint mn)"
    by (simp add: MAX32_def word_sless_alt e n max_def)
  have z: "0 \<le> sint mx" "sint mn \<le> 0" using b by simp_all
  show ?thesis
  proof (intro exI conjI)
    show "celtMaxabs16 x n = Ok (MAX32 (EXTEND32 mx) (- EXTEND32 mn))" using assms f by (simp add: celtMaxabs16_def)
    show "\<forall>v \<in> set (take (nat n) x). \<bar>sint v\<bar> \<le> sint (MAX32 (EXTEND32 mx) (- EXTEND32 mn))" using b by (auto simp: m abs_le_iff)
    show "sint (MAX32 (EXTEND32 mx) (- EXTEND32 mn)) = 0 \<or>
      (\<exists>v \<in> set (take (nat n) x). \<bar>sint v\<bar> = sint (MAX32 (EXTEND32 mx) (- EXTEND32 mn)))"
    proof (cases "sint mx \<le> - sint mn")
      case True
      then show ?thesis using b z by (cases "sint mn = 0") (auto simp: m max_def intro!: bexI [of _ mn])
    next
      case False
      then have "mx \<in> set (take (nat n) x)" using b z by (cases "mx = 0") auto
      then show ?thesis using False z by (auto simp: m max_def intro!: bexI [of _ mx])
    qed
  qed (use z i16_range [of mx] i16_range [of mn] in \<open>auto simp: m\<close>)
qed

lemma silence_iff:
  assumes "0 \<le> f * c" "f * c \<le> len pcm"
  shows "isDigitalSilence pcm f c = Ok (\<forall>v \<in> set (take (nat (f * c)) pcm). v = 0)"
proof -
  obtain m where m: "celtMaxabs16 pcm (f * c) = Ok m" "0 \<le> sint m" "\<forall>v \<in> set (take (nat (f * c)) pcm). \<bar>sint v\<bar> \<le> sint m"
    "sint m = 0 \<or> (\<exists>v \<in> set (take (nat (f * c)) pcm). \<bar>sint v\<bar> = sint m)"
    using celtMaxabs16_spec [OF assms] by blast
  have "m = 0 \<longleftrightarrow> (\<forall>v \<in> set (take (nat (f * c)) pcm). v = 0)"
  proof
    assume "m = 0"
    then have "sint v = 0" if "v \<in> set (take (nat (f * c)) pcm)" for v using m(3) that by fastforce
    then show "\<forall>v \<in> set (take (nat (f * c)) pcm). v = 0" by (intro ballI signed_word_eqI) simp
  next
    assume "\<forall>v \<in> set (take (nat (f * c)) pcm). v = 0"
    then have "sint m = 0" using m(4) by auto
    then show "m = 0" by (intro signed_word_eqI) simp
  qed
  then show ?thesis using m(1) by (simp add: isDigitalSilence_def)
qed

lemma ilog2_bounds:
  assumes "0 < sint x"
  shows "\<exists>k \<le> 30. Celt_ilog2 x = int k \<and> 2 ^ k \<le> sint x \<and> sint x < 2 ^ (k + 1)"
proof -
  have u: "int (unat x) = sint x" using assms i32_range(2) [of x] by (simp add: uint_sint take_bit_eq_mod)
  then have p: "0 < unat x" using assms by linarith
  note b = bit_length_bounds [OF p]
  have "unat x < 2147483648" using u i32_range(2) [of x] by linarith
  then have "bit_length (unat x) \<le> 31" by (intro bit_length_le) simp
  moreover have "int (2 ^ (bit_length (unat x) - 1)) \<le> sint x" "sint x < int (2 ^ bit_length (unat x))"
    unfolding u [symmetric] using b by (simp_all only: of_nat_le_iff of_nat_less_iff)
  ultimately show ?thesis using b
    by (intro exI [where x = "bit_length (unat x) - 1"]) (auto simp: Celt_ilog2_def EC_ILOG_def)
qed

text \<open>The mean of the squares, each taken without its low bits.\<close>

definition mean_energy :: "nat \<Rightarrow> i16 list \<Rightarrow> int" where
  "mean_energy sh xs = (\<Sum>v\<leftarrow>xs. sint v * sint v div 2 ^ sh) div len xs * 2 ^ sh"

lemma energy_term: "sint (SHR32 (MULT16_16 v v) sh) = sint v * sint v div 2 ^ sh"
proof -
  have b: "0 \<le> sint v * sint v" "sint v * sint v \<le> 1073741824"
    using i16_range [of v] mult_mono [of "\<bar>sint v\<bar>" 32768 "\<bar>sint v\<bar>" 32768] by (auto simp: abs_mult_self_eq)
  have "MULT16_16 v v = word_of_int (sint v * sint v)" unfolding MULT16_16_def scast_of_int by simp
  moreover have "sint (word_of_int (sint v * sint v) :: i32) = sint v * sint v" using b by (intro i32_of_int) linarith+
  ultimately have "sint (MULT16_16 v v) = sint v * sint v" by (simp only:)
  then show ?thesis by (simp add: SHR32_def sint_signed_drop_bit_eq drop_bit_eq_div)
qed

lemma energy_fold:
  assumes "\<forall>v \<in> set xs. sint v * sint v div 2 ^ sh \<le> B" "0 \<le> sint e" "0 \<le> B" "sint e + len xs * B < 2147483648"
  shows "sint (foldl (energy_step sh) e xs) = sint e + (\<Sum>v\<leftarrow>xs. sint v * sint v div 2 ^ sh)"
  using assms
proof (induction xs arbitrary: e)
  case (Cons x xs)
  let ?t = "sint x * sint x div 2 ^ sh"
  have t: "0 \<le> ?t" "?t \<le> B" using Cons.prems by (simp_all add: pos_imp_zdiv_nonneg_iff)
  have l: "sint e + B + len xs * B < 2147483648" "0 \<le> len xs * B" using Cons.prems by (simp_all add: algebra_simps)
  have "energy_step sh e x = word_of_int (sint e + ?t)"
    unfolding energy_step_def of_int_add by (metis energy_term word_sint)
  moreover have "sint (word_of_int (sint e + ?t) :: i32) = sint e + ?t" using t l Cons.prems(2) by (intro i32_of_int) linarith+
  ultimately have s: "sint (energy_step sh e x) = sint e + ?t" by (simp only:)
  have "sint (foldl (energy_step sh) (energy_step sh e x) xs) = sint (energy_step sh e x) + (\<Sum>v\<leftarrow>xs. sint v * sint v div 2 ^ sh)"
    using Cons.prems t l by (intro Cons.IH) (simp_all add: s)
  then show ?case by (simp add: s)
qed simp

lemma sum_terms: "(\<forall>v \<in> set xs. f v \<le> (B :: int)) \<Longrightarrow> (\<Sum>v\<leftarrow>xs. f v) \<le> len xs * B"
  by (induction xs) (auto simp: algebra_simps)

lemma div_mult_le: "0 < b \<Longrightarrow> a div b * b \<le> (a :: int)"
  using pos_mod_sign [of b a] by (simp add: minus_mod_eq_div_mult [symmetric])

text \<open>The shift leaves every term so small that the sum of all of them stays below the width.\<close>

lemma energy_shift:
  assumes "0 \<le> (M :: int)" "M + 1 < 2 ^ (m + 1)" "k \<le> 30" "sh = nat (max 0 (int m * 2 + int k - 28))"
  shows "M * M div 2 ^ sh < 2 ^ (30 - k)"
proof -
  have "M * M < (2 ^ (m + 1)) * (2 ^ (m + 1))" using assms(1,2) by (intro mult_strict_mono) auto
  also have "\<dots> = (2 ^ (2 * m + 2) :: int)" by (simp flip: power_add)
  also have "\<dots> \<le> 2 ^ (sh + (30 - k))" using assms(3,4) by (intro power_increasing) auto
  finally have "M * M < 2 ^ (30 - k) * 2 ^ sh" by (simp add: power_add mult.commute)
  moreover have "M * M div 2 ^ sh * 2 ^ sh \<le> M * M" by (intro div_mult_le) simp
  ultimately have "M * M div 2 ^ sh * 2 ^ sh < 2 ^ (30 - k) * 2 ^ sh" by linarith
  then show ?thesis by (rule mult_right_less_imp_less) simp
qed

text \<open>The largest magnitude of a frame, and the shift: twice its binary order and that of the length, beyond 28.\<close>

definition peak :: "i16 list \<Rightarrow> int" where
  "peak xs = fold max (map (\<lambda>v. \<bar>sint v\<bar>) xs) 0"

definition energy_bits :: "int \<Rightarrow> int \<Rightarrow> nat" where
  "energy_bits M n = nat (2 * (int (bit_length (nat (1 + M))) - 1) + (int (bit_length (nat n)) - 1) - 28)"

lemma fold_max: "fold max ys b = Max (insert b (set ys))" for b :: int
  using Max.set_eq_fold [of b ys] by simp

lemma peak_Max: "peak xs = Max (insert 0 ((\<lambda>v. \<bar>sint v\<bar>) ` set xs))"
  by (simp add: peak_def fold_max)

lemma celtMaxabs16_peak:
  assumes "0 \<le> n" "n = len x"
  obtains m where "celtMaxabs16 x n = Ok m" "sint m = peak x" "0 \<le> peak x" "peak x \<le> 32768" "\<forall>v \<in> set x. \<bar>sint v\<bar> \<le> peak x"
proof -
  obtain m where m: "celtMaxabs16 x n = Ok m" "0 \<le> sint m" "sint m \<le> 32768" "\<forall>v \<in> set x. \<bar>sint v\<bar> \<le> sint m"
    "sint m = 0 \<or> (\<exists>v \<in> set x. \<bar>sint v\<bar> = sint m)"
    using celtMaxabs16_spec [of n x] assms by auto
  have "peak x = sint m" unfolding peak_Max using m(2,4,5) by (intro Max_eqI) (auto, metis image_eqI)
  with m that show ?thesis by simp
qed

lemma ilog2_value:
  assumes "sint x = y" "0 < y"
  shows "Celt_ilog2 x = int (bit_length (nat y)) - 1" "1 \<le> bit_length (nat y)" "bit_length (nat y) \<le> 31"
    "2 ^ (bit_length (nat y) - 1) \<le> y" "y < 2 ^ bit_length (nat y)"
proof -
  have u: "int (unat x) = y" using assms i32_range(2) [of x] by (simp add: uint_sint take_bit_eq_mod)
  then have ny: "unat x = nat y" and p: "0 < nat y" using assms(2) by linarith+
  note b = bit_length_bounds [OF p]
  show "1 \<le> bit_length (nat y)" "bit_length (nat y) \<le> 31"
    using b bit_length_le [of "nat y" 31] i32_range(2) [of x] assms by auto
  then show "Celt_ilog2 x = int (bit_length (nat y)) - 1" by (simp add: Celt_ilog2_def EC_ILOG_def ny of_nat_diff)
  have "int (2 ^ (bit_length (nat y) - 1)) \<le> int (nat y)" "int (nat y) < int (2 ^ bit_length (nat y))"
    using b by (simp_all only: of_nat_le_iff of_nat_less_iff)
  then show "2 ^ (bit_length (nat y) - 1) \<le> y" "y < 2 ^ bit_length (nat y)" using assms(2) by simp_all
qed

text \<open>The sum of the shifted squares fits, with room for every intermediate sum.\<close>

lemma energy_sum:
  assumes "0 \<le> (M :: int)" "0 < n" "n = len xs" "\<forall>v \<in> set xs. \<bar>sint v\<bar> \<le> M" "m = bit_length (nat (1 + M))" "k = bit_length (nat n)"
    "1 \<le> m" "1 \<le> k" "k \<le> 31" "1 + M < 2 ^ m" "n < 2 ^ k" "sh = energy_bits M n"
  shows "sint (foldl (energy_step sh) 0 xs) = (\<Sum>v\<leftarrow>xs. sint v * sint v div 2 ^ sh)"
    "(\<Sum>v\<leftarrow>xs. sint v * sint v div 2 ^ sh) \<le> n * (M * M div 2 ^ sh)"
proof -
  let ?B = "M * M div 2 ^ sh"
  have sq: "sint v * sint v \<le> M * M" if "v \<in> set xs" for v
    using mult_mono [of "\<bar>sint v\<bar>" M "\<bar>sint v\<bar>" M] assms(1,4) that by (simp add: abs_mult_self_eq)
  have t: "\<forall>v \<in> set xs. sint v * sint v div 2 ^ sh \<le> ?B" using sq by (auto intro: zdiv_mono1)
  have sh: "sh = nat (max 0 (int (m - 1) * 2 + int (k - 1) - 28))" using assms(5-8,12) by (simp add: energy_bits_def of_nat_diff max_def mult.commute)
  have mk: "M + 1 < 2 ^ (m - 1 + 1)" "k - 1 \<le> 30" using assms(7,9,10) by (simp_all add: add.commute)
  have B: "0 \<le> ?B" "?B < 2 ^ (30 - (k - 1))"
    using energy_shift [OF assms(1) mk sh] by (simp_all add: pos_imp_zdiv_nonneg_iff)
  have "len xs * ?B \<le> 2 ^ k * ?B" using assms(3,11) B(1) by (intro mult_right_mono) simp_all
  also have "\<dots> < 2 ^ k * 2 ^ (30 - (k - 1))" using B by (intro mult_strict_left_mono) simp_all
  also have "\<dots> = 2147483648" using assms(8,9) by (simp flip: power_add)
  finally have p: "len xs * ?B < 2147483648" .
  then show "sint (foldl (energy_step sh) 0 xs) = (\<Sum>v\<leftarrow>xs. sint v * sint v div 2 ^ sh)" using energy_fold [OF t, of 0] B by simp
  show "(\<Sum>v\<leftarrow>xs. sint v * sint v div 2 ^ sh) \<le> n * ?B" using sum_terms [OF t] assms(3) by simp
qed

text \<open>What the shift costs: nothing when it is zero, and then the mean is rounded down.\<close>

lemma lost_bits: "x div 2 ^ sh * 2 ^ sh \<le> (x :: int)" "x \<le> x div 2 ^ sh * 2 ^ sh + 2 ^ sh - 1"
proof -
  have "x div 2 ^ sh * 2 ^ sh + x mod 2 ^ sh = x" by (rule div_mult_mod_eq)
  moreover have "0 \<le> x mod 2 ^ sh" "x mod 2 ^ sh < 2 ^ sh" by simp_all
  ultimately show "x div 2 ^ sh * 2 ^ sh \<le> x" "x \<le> x div 2 ^ sh * 2 ^ sh + 2 ^ sh - 1" by linarith+
qed

lemma sum_lost_bits:
  "(\<Sum>v\<leftarrow>xs. f v div 2 ^ sh) * 2 ^ sh \<le> (\<Sum>v\<leftarrow>xs. f v :: int)"
  "(\<Sum>v\<leftarrow>xs. f v) \<le> (\<Sum>v\<leftarrow>xs. f v div 2 ^ sh) * 2 ^ sh + len xs * (2 ^ sh - 1)"
proof (induction xs)
  case (Cons x xs)
  case 1 show ?case using Cons(1) lost_bits(1) [of "f x" sh] by (simp add: algebra_simps)
  case 2 show ?case using Cons(2) lost_bits(2) [of "f x" sh] by (simp add: algebra_simps)
qed simp_all

lemma rounded_mean:
  fixes S w P n q :: int
  assumes "S * w \<le> P" "P \<le> S * w + n * (w - 1)" "q * n \<le> S" "S + 1 \<le> q * n + n" "1 \<le> w"
  shows "n * (q * w) \<le> P" "P < n * (q * w + 2 * w - 1)"
proof -
  have a: "q * n * w \<le> S * w" using assms(3,5) by (intro mult_right_mono) simp_all
  have b: "S * w + w \<le> q * n * w + n * w" using mult_right_mono [OF assms(4), of w] assms(5) by (simp add: distrib_right)
  have P: "P \<le> S * w + n * w - n" using assms(2) by (simp add: right_diff_distrib)
  have "n * (q * w) = q * n * w" by simp
  then show "n * (q * w) \<le> P" using order_trans [OF a assms(1)] by (simp only:)
  have "n * (q * w + 2 * w - 1) = q * n * w + 2 * (n * w) - n" by (simp add: algebra_simps)
  moreover have "P < q * n * w + 2 * (n * w) - n" using P b assms(5) by linarith
  ultimately show "P < n * (q * w + 2 * w - 1)" by (simp only:)
qed

lemma mean_accuracy:
  assumes "xs \<noteq> []" "P = (\<Sum>v\<leftarrow>xs. sint v * sint v)"
  shows "len xs * mean_energy sh xs \<le> P" "P < len xs * (mean_energy sh xs + 2 * 2 ^ sh - 1)"
proof -
  let ?n = "len xs" and ?S = "\<Sum>v\<leftarrow>xs. sint v * sint v div 2 ^ sh"
  have n: "0 < ?n" using assms(1) by simp
  have "?S div ?n * ?n + ?S mod ?n = ?S" "0 \<le> ?S mod ?n" "?S mod ?n < ?n" using n by (simp_all only: div_mult_mod_eq pos_mod_sign pos_mod_bound)
  then have d: "?S div ?n * ?n \<le> ?S" "?S + 1 \<le> ?S div ?n * ?n + ?n" by linarith+
  note l = sum_lost_bits [where f = "\<lambda>v. sint v * sint v" and sh = sh and xs = xs, folded assms(2)]
  from rounded_mean [OF l d] show "?n * mean_energy sh xs \<le> P" "P < ?n * (mean_energy sh xs + 2 * 2 ^ sh - 1)"
    by (simp_all add: mean_energy_def)
qed

text \<open>The shift is needed: without it the sum of the squares could reach the 28 bits it leaves.\<close>

lemma shift_needed:
  assumes "0 \<le> (M :: int)" "0 < n" "m = bit_length (nat (1 + M))" "k = bit_length (nat n)" "1 \<le> m" "1 \<le> k"
    "2 ^ (m - 1) \<le> 1 + M" "2 ^ (k - 1) \<le> n" "sh = energy_bits M n" "0 < sh"
  shows "2 ^ 28 * 2 ^ sh \<le> (1 + M) ^ 2 * n"
proof -
  have "int (28 + sh) = int ((m - 1) + (m - 1) + (k - 1))"
    using assms(5,6,9,10) unfolding energy_bits_def assms(3,4) [symmetric] by (simp add: of_nat_diff)
  then have "28 + sh = (m - 1) + (m - 1) + (k - 1)" by (simp only: of_nat_eq_iff)
  then have "2 ^ 28 * 2 ^ sh = (2 ^ (m - 1) * 2 ^ (m - 1) * 2 ^ (k - 1) :: int)" by (simp only: power_add [symmetric])
  also have "\<dots> \<le> (1 + M) * (1 + M) * n" using assms(1,2,7,8) by (intro mult_mono) auto
  finally show ?thesis by (simp add: power2_eq_square)
qed

text \<open>The code computes the mean with that shift.\<close>

lemma energy_value:
  assumes "0 < f * c" "f * c \<le> len pcm" "f * c < 2147483648" "xs = take (nat (f * c)) pcm" "sh = energy_bits (peak xs) (f * c)"
  shows "\<exists>e. computeFrameEnergy pcm f c = Ok e \<and> sint e = mean_energy sh xs \<and> 0 \<le> sint e
    \<and> (sh = 0 \<or> 2 ^ 28 * 2 ^ sh \<le> (1 + peak xs) ^ 2 * (f * c))"
proof -
  let ?n = "f * c" and ?M = "peak xs" and ?S = "\<Sum>v\<leftarrow>xs. sint v * sint v div 2 ^ sh"
  have l: "?n = len xs" using assms by simp
  have n0: "0 \<le> ?n" using assms(1) by simp
  obtain M where M: "celtMaxabs16 xs ?n = Ok M" "sint M = ?M" "0 \<le> ?M" "?M \<le> 32768" "\<forall>v \<in> set xs. \<bar>sint v\<bar> \<le> ?M"
    by (rule celtMaxabs16_peak [OF n0 l])
  have "1 + M = word_of_int (1 + ?M)" by (simp flip: M(2))
  moreover have "sint (word_of_int (1 + ?M) :: i32) = 1 + ?M" using M by (intro i32_of_int) auto
  ultimately have M1: "sint (1 + M) = 1 + ?M" by (simp only:)
  have L: "sint (word_of_int ?n :: i32) = ?n" using assms by (intro i32_of_int) auto
  have p: "0 < 1 + ?M" using M(3) by simp
  note m = ilog2_value [OF M1 p] and k = ilog2_value [OF L assms(1)]
  note S = energy_sum [OF M(3) assms(1) l M(5) refl refl m(2) k(2,3) m(5) k(5) assms(5)]
  have S0: "0 \<le> ?S" by (auto intro!: sum_list_nonneg simp: pos_imp_zdiv_nonneg_iff)
  have "?S div ?n \<le> ?M * ?M div 2 ^ sh"
    using zdiv_mono1 [OF S(2) assms(1)] nonzero_mult_div_cancel_left [of ?n "?M * ?M div 2 ^ sh"] assms(1) by linarith
  then have q: "0 \<le> ?S div ?n * 2 ^ sh" "?S div ?n * 2 ^ sh \<le> ?M * ?M div 2 ^ sh * 2 ^ sh"
    using S0 assms(1) by (simp_all add: pos_imp_zdiv_nonneg_iff)
  have "?M * ?M \<le> 32768 * 32768" using M by (intro mult_mono) auto
  then have "?S div ?n * 2 ^ sh \<le> 1073741824" using q(2) lost_bits(1) [of "?M * ?M" sh] by linarith
  then have "sint (word_of_int (?S div ?n * 2 ^ sh) :: i32) = ?S div ?n * 2 ^ sh" using q(1) by (intro i32_of_int) linarith+
  moreover have "SHL32 (word_of_int (?S sdiv ?n)) sh = (word_of_int (?S div ?n * 2 ^ sh) :: i32)"
    using S0 assms(1) by (simp add: SHL32_def push_bit_eq_mult sdiv_nonneg mult.commute)
  ultimately have r: "sint (SHL32 (word_of_int (?S sdiv ?n)) sh :: i32) = mean_energy sh xs"
    unfolding mean_energy_def l [symmetric] by (simp only:)
  have "(word_of_int ?n :: i32) \<noteq> 0" using L assms(1) by auto
  moreover have "nat (IMAX 0 (Celt_ilog2 (1 + M) * 2 + Celt_ilog2 (word_of_int ?n) - 28)) = sh"
    unfolding m(1) k(1) assms(5) energy_bits_def by (simp add: IMAX_def mult.commute)
  ultimately have "computeFrameEnergy pcm f c = Ok (SHL32 (word_of_int (?S sdiv ?n)) sh)"
    using assms(1,2) M(1) L S(1) by (simp add: computeFrameEnergy_def Let_def assms(4) [symmetric])
  moreover have "sh = 0 \<or> 2 ^ 28 * 2 ^ sh \<le> (1 + ?M) ^ 2 * ?n"
    using shift_needed [OF M(3) assms(1) refl refl m(2) k(2) m(4) k(4) assms(5)] by blast
  ultimately show ?thesis using r q(1) by (simp add: mean_energy_def l)
qed

text \<open>
  C23: For every frame of at least one sample the energy is computed without a wrap-around.  Its shift is twice the binary
  order of the peak plus that of the length, beyond 28; it is not zero only when the squares need it.  The result is the
  mean of the squares, each taken without the bits the shift drops: it never exceeds the true mean, misses it by less than
  twice \<open>2 ^ sh\<close>, and is the true mean rounded down when the shift is zero.
\<close>

theorem frame_energy_exact:
  assumes "0 < f * c" "f * c \<le> len pcm" "f * c < 2147483648" "xs = take (nat (f * c)) pcm" "sh = energy_bits (peak xs) (f * c)"
    "P = (\<Sum>v\<leftarrow>xs. sint v * sint v)"
  shows "\<exists>e. computeFrameEnergy pcm f c = Ok e \<and> sint e = mean_energy sh xs \<and> 0 \<le> sint e
    \<and> f * c * sint e \<le> P \<and> P < f * c * (sint e + 2 * 2 ^ sh - 1)
    \<and> (sh = 0 \<or> 2 ^ 28 * 2 ^ sh \<le> (1 + peak xs) ^ 2 * (f * c))"
proof -
  have l: "len xs = f * c" "xs \<noteq> []" using assms(1,2,4) by auto
  from energy_value [OF assms(1-5)] mean_accuracy [OF l(2) assms(6), of sh, unfolded l(1)] show ?thesis by auto
qed

theorem frame_energy_exact_witness:
  "\<exists>e. computeFrameEnergy [5, - 7, 100, 3] 2 2 = Ok e \<and> sint e = mean_energy 0 [5, - 7, 100, 3] \<and> 0 \<le> sint e
    \<and> 2 * 2 * sint e \<le> 10083 \<and> 10083 < 2 * 2 * (sint e + 2 * 2 ^ 0 - 1)
    \<and> ((0 :: nat) = 0 \<or> 2 ^ 28 * 2 ^ 0 \<le> (1 + peak [5, - 7, 100, 3]) ^ 2 * (2 * 2 :: int))"
proof (rule frame_energy_exact)
  show "0 = energy_bits (peak [5, - 7, 100, 3]) (2 * 2)" by code_simp
qed simp_all

end
