(* ===== verification/Opusenc_Layout.thy ===== *)
theory Opusenc_Layout
  imports Go_Loops
begin

text \<open>
  The channel layout of a multistream encoder (\<^verbatim>\<open>internal/opusenc/ms_layout.go\<close>): its validation and the search for the
  channels that feed a stream.
\<close>

section \<open>The code\<close>

record channelLayout =
  nbChannels :: int
  nbStreams :: int
  nbCoupledStreams :: int
  mapping :: "u8 list"

text \<open>The loop of the three searches: the first channel from \<open>i\<close> on whose entry is \<open>want\<close>, or \<open>-1\<close>.\<close>

function find_channel :: "channelLayout \<Rightarrow> int \<Rightarrow> int \<Rightarrow> int go" where
  "find_channel layout want i =
     (if i < nbChannels layout then
        bnd (idx (mapping layout) i) (\<lambda>m. if uint m = want then Ok i else find_channel layout want (i + 1))
      else Ok (- 1))"
  by pat_completeness auto
termination by (relation "measure (\<lambda>(layout, _, i). nat (nbChannels layout - i))") auto

declare find_channel.simps [simp del]

definition getLeftChannel :: "channelLayout \<Rightarrow> int \<Rightarrow> int \<Rightarrow> int go" where
  "getLeftChannel layout streamID prev = find_channel layout (streamID * 2) (if 0 \<le> prev then prev + 1 else 0)"

definition getRightChannel :: "channelLayout \<Rightarrow> int \<Rightarrow> int \<Rightarrow> int go" where
  "getRightChannel layout streamID prev = find_channel layout (streamID * 2 + 1) (if 0 \<le> prev then prev + 1 else 0)"

definition getMonoChannel :: "channelLayout \<Rightarrow> int \<Rightarrow> int \<Rightarrow> int go" where
  "getMonoChannel layout streamID prev = find_channel layout (streamID + nbCoupledStreams layout) (if 0 \<le> prev then prev + 1 else 0)"

text \<open>The loops return \<open>False\<close> at the first failure; the state says whether there was none.\<close>

definition validateLayout :: "channelLayout \<Rightarrow> bool go" where
  "validateLayout layout =
     (let maxChannel = nbStreams layout + nbCoupledStreams layout in
      if 255 < maxChannel then Ok False
      else for_up 0 (nbChannels layout) (\<lambda>i ok.
        if \<not> ok then Ok False
        else bnd (idx (mapping layout) i) (\<lambda>m. Ok (\<not> (maxChannel \<le> uint m \<and> m \<noteq> 255)))) True)"

definition stream_fed :: "channelLayout \<Rightarrow> int \<Rightarrow> bool go" where
  "stream_fed layout s =
     (if s < nbCoupledStreams layout then
        bnd (getLeftChannel layout s (- 1)) (\<lambda>l.
        if l = - 1 then Ok False
        else bnd (getRightChannel layout s (- 1)) (\<lambda>r. Ok (r \<noteq> - 1)))
      else bnd (getMonoChannel layout s (- 1)) (\<lambda>m. Ok (m \<noteq> - 1)))"

definition validateEncoderLayout :: "channelLayout \<Rightarrow> bool go" where
  "validateEncoderLayout layout =
     for_up 0 (nbStreams layout) (\<lambda>s ok. if \<not> ok then Ok False else stream_fed layout s) True"

section \<open>The search\<close>

definition drawn :: "channelLayout \<Rightarrow> int set" where
  "drawn layout = (\<lambda>i. uint (mapping layout ! nat i)) ` {0..<nbChannels layout}"

text \<open>\<open>r\<close> is the first channel from \<open>i\<close> on that draws \<open>want\<close>, or \<open>-1\<close> if there is none.\<close>

definition first_drawing :: "channelLayout \<Rightarrow> int \<Rightarrow> int \<Rightarrow> int \<Rightarrow> bool" where
  "first_drawing l want i r \<longleftrightarrow>
     (if r = - 1 then \<forall>j. i \<le> j \<and> j < nbChannels l \<longrightarrow> uint (mapping l ! nat j) \<noteq> want
      else i \<le> r \<and> r < nbChannels l \<and> uint (mapping l ! nat r) = want \<and>
        (\<forall>j. i \<le> j \<and> j < r \<longrightarrow> uint (mapping l ! nat j) \<noteq> want))"

lemma first_drawing_step:
  assumes "first_drawing l want (i + 1) r" "uint (mapping l ! nat i) \<noteq> want" "0 \<le> i"
  shows "first_drawing l want i r"
proof -
  have n: "(\<forall>j. i \<le> j \<and> j < b \<longrightarrow> uint (mapping l ! nat j) \<noteq> want)"
    if "\<forall>j. i + 1 \<le> j \<and> j < b \<longrightarrow> uint (mapping l ! nat j) \<noteq> want" for b
  proof (intro allI impI)
    fix j assume "i \<le> j \<and> j < b"
    then show "uint (mapping l ! nat j) \<noteq> want" using that assms(2) by (cases "j = i") simp_all
  qed
  show ?thesis
  proof (cases "r = - 1")
    case True
    show ?thesis using assms(1) unfolding first_drawing_def if_P [OF True] by (rule n)
  next
    case False
    show ?thesis using assms(1) n [of r] unfolding first_drawing_def if_not_P [OF False] by (elim conjE) (intro conjI; linarith?; blast)
  qed
qed

lemma find_channel_spec:
  assumes "0 \<le> i" "nbChannels l \<le> len (mapping l)"
  shows "\<exists>r. find_channel l want i = Ok r \<and> first_drawing l want i r"
  using assms
proof (induction "nat (nbChannels l - i)" arbitrary: i)
  case 0
  then show ?case by (subst find_channel.simps) (simp add: first_drawing_def)
next
  case (Suc n)
  then have i: "i < nbChannels l" "idx (mapping l) i = (Ok (mapping l ! nat i) :: u8 go)" by (auto simp: idx_def)
  show ?case
  proof (cases "uint (mapping l ! nat i) = want")
    case True
    then show ?thesis using i Suc.prems by (subst find_channel.simps) (auto simp: first_drawing_def)
  next
    case False
    then have "find_channel l want i = find_channel l want (i + 1)" using i by (subst find_channel.simps) simp
    moreover have "\<exists>r. find_channel l want (i + 1) = Ok r \<and> first_drawing l want (i + 1) r"
      using Suc.hyps(2) Suc.prems by (intro Suc.hyps(1)) simp_all
    ultimately show ?thesis using first_drawing_step False Suc.prems(1) by metis
  qed
qed

lemma first_channel:
  assumes "nbChannels layout \<le> len (mapping layout)"
  shows "\<exists>r. find_channel layout want 0 = Ok r \<and> (r = - 1 \<longleftrightarrow> want \<notin> drawn layout)"
proof -
  obtain r where r: "find_channel layout want 0 = Ok r" "first_drawing layout want 0 r" using find_channel_spec [OF _ assms] by blast
  have "r = - 1 \<longleftrightarrow> want \<notin> drawn layout"
  proof (cases "r = - 1")
    case True
    then have "uint (mapping layout ! nat j) \<noteq> want" if "0 \<le> j" "j < nbChannels layout" for j
      using r(2) that by (simp add: first_drawing_def)
    then show ?thesis using True by (force simp: drawn_def)
  next
    case False
    then have "0 \<le> r" "r < nbChannels layout" "uint (mapping layout ! nat r) = want" using r(2) by (simp_all add: first_drawing_def)
    then show ?thesis using False by (force simp: drawn_def)
  qed
  then show ?thesis using r(1) by blast
qed

section \<open>The validation\<close>

lemma for_up_all:
  assumes "\<And>i. a \<le> i \<Longrightarrow> i < b \<Longrightarrow> f i True = Ok (P i)" "\<And>i. f i False = Ok False" "a \<le> b"
  shows "for_up a b f True = Ok (\<forall>i \<in> {a..<b}. P i)"
  using assms
proof (induction "nat (b - a)" arbitrary: a)
  case (Suc n)
  then have a: "a < b" by simp
  then have s: "{a..<b} = insert a {a + 1..<b}" by auto
  have "for_up (a + 1) b f False = Ok False" using assms(2) by (intro for_up_const)
  moreover have "for_up (a + 1) b f True = Ok (\<forall>i \<in> {a + 1..<b}. P i)" using Suc a by (intro Suc.hyps(1)) auto
  ultimately show ?case using Suc.prems a by (cases "P a") (simp_all add: for_up_step s)
qed simp

lemma validateLayout_spec:
  assumes "0 \<le> nbChannels l" "nbChannels l \<le> len (mapping l)"
  shows "validateLayout l = Ok (nbStreams l + nbCoupledStreams l \<le> 255 \<and>
    (\<forall>i \<in> {0..<nbChannels l}. uint (mapping l ! nat i) < nbStreams l + nbCoupledStreams l \<or> uint (mapping l ! nat i) = 255))"
proof -
  let ?n = "nbStreams l + nbCoupledStreams l"
  have m: "x = 255 \<longleftrightarrow> uint x = 255" for x :: u8 by (simp add: word_uint_eq_iff)
  have L: "for_up 0 (nbChannels l) (\<lambda>i ok. if \<not> ok then Ok False
      else bnd (idx (mapping l) i) (\<lambda>m. Ok (\<not> (?n \<le> uint m \<and> m \<noteq> 255)))) True =
    Ok (\<forall>i \<in> {0..<nbChannels l}. uint (mapping l ! nat i) < ?n \<or> uint (mapping l ! nat i) = 255)"
    using assms by (intro for_up_all) (auto simp: idx_def m)
  show ?thesis unfolding validateLayout_def Let_def L by simp
qed

definition stream_in :: "int \<Rightarrow> int set \<Rightarrow> int \<Rightarrow> bool" where
  "stream_in c D s \<longleftrightarrow> (if s < c then s * 2 \<in> D \<and> s * 2 + 1 \<in> D else s + c \<in> D)"

lemma stream_fed_spec:
  assumes "nbChannels l \<le> len (mapping l)"
  shows "stream_fed l s = Ok (stream_in (nbCoupledStreams l) (drawn l) s)"
proof -
  obtain x where "find_channel l (s * 2) 0 = Ok x" "x = - 1 \<longleftrightarrow> s * 2 \<notin> drawn l" using first_channel [OF assms] by blast
  moreover obtain y where "find_channel l (s * 2 + 1) 0 = Ok y" "y = - 1 \<longleftrightarrow> s * 2 + 1 \<notin> drawn l" using first_channel [OF assms] by blast
  moreover obtain z where "find_channel l (s + nbCoupledStreams l) 0 = Ok z" "z = - 1 \<longleftrightarrow> s + nbCoupledStreams l \<notin> drawn l"
    using first_channel [OF assms] by blast
  ultimately show ?thesis by (simp add: stream_fed_def stream_in_def getLeftChannel_def getRightChannel_def getMonoChannel_def)
qed

text \<open>The coupled streams own the channels below twice their number, the others those above.\<close>

lemma streams_cover:
  assumes "0 \<le> c" "c \<le> n"
  shows "(\<forall>s \<in> {0..<n}. stream_in c D s) \<longleftrightarrow> {0..<n + c} \<subseteq> D"
proof
  assume f: "\<forall>s \<in> {0..<n}. stream_in c D s"
  show "{0..<n + c} \<subseteq> D"
  proof
    fix v assume v: "v \<in> {0..<n + c}"
    show "v \<in> D"
    proof (cases "v < 2 * c")
      case True
      moreover have "v div 2 * 2 + v mod 2 = v" "v mod 2 = 0 \<or> v mod 2 = 1" by auto
      ultimately have "0 \<le> v div 2" "v div 2 < c" "v = v div 2 * 2 \<or> v = v div 2 * 2 + 1" using v by (simp, linarith, linarith)
      moreover from this have "stream_in c D (v div 2)" using f assms by simp
      ultimately show ?thesis unfolding stream_in_def by metis
    next
      case False
      then have "stream_in c D (v - c)" using f v by simp
      then show ?thesis using False by (simp add: stream_in_def)
    qed
  qed
next
  assume D: "{0..<n + c} \<subseteq> D"
  show "\<forall>s \<in> {0..<n}. stream_in c D s"
  proof
    fix s assume s: "s \<in> {0..<n}"
    have "s * 2 \<in> {0..<n + c}" "s * 2 + 1 \<in> {0..<n + c}" if "s < c" using that s assms by auto
    moreover have "s + c \<in> {0..<n + c}" using s assms by simp
    ultimately show "stream_in c D s" using D unfolding stream_in_def by (meson subsetD)
  qed
qed

lemma range_less_255:
  "n \<le> 255 \<and> (\<forall>v \<in> D. 0 \<le> v \<and> (v < n \<or> v = 255)) \<and> {0..<n} \<subseteq> D \<longleftrightarrow> n \<le> 255 \<and> D - {255} = {0..<n}" for n :: int
proof (cases "n \<le> 255")
  case True
  then have "{0..<n} \<subseteq> D \<longleftrightarrow> {0..<n} \<subseteq> D - {255}" by auto
  moreover have "(\<forall>v \<in> D. 0 \<le> v \<and> (v < n \<or> v = 255)) \<longleftrightarrow> D - {255} \<subseteq> {0..<n}" by auto
  ultimately show ?thesis by blast
qed simp

text \<open>
  C24: an encoder accepts a layout exactly when its channels, the muted ones apart, draw every channel of every stream and
  no other: the two validations together, for every number of streams.
\<close>

theorem layout_is_onto:
  assumes "0 \<le> nbChannels l" "nbChannels l \<le> len (mapping l)" "0 \<le> nbCoupledStreams l" "nbCoupledStreams l \<le> nbStreams l"
  shows "validateLayout l = Ok True \<and> validateEncoderLayout l = Ok True \<longleftrightarrow>
    nbStreams l + nbCoupledStreams l \<le> 255 \<and> drawn l - {255} = {0..<nbStreams l + nbCoupledStreams l}"
proof -
  let ?D = "drawn l" and ?n = "nbStreams l + nbCoupledStreams l"
  have "validateLayout l = Ok True \<longleftrightarrow> ?n \<le> 255 \<and> (\<forall>v \<in> ?D. v < ?n \<or> v = 255)"
    unfolding validateLayout_spec [OF assms(1,2)] drawn_def by simp
  moreover have "validateEncoderLayout l = Ok (\<forall>s \<in> {0..<nbStreams l}. stream_in (nbCoupledStreams l) ?D s)"
    unfolding validateEncoderLayout_def
    using assms by (intro for_up_all) (simp_all add: stream_fed_spec)
  then have "validateEncoderLayout l = Ok True \<longleftrightarrow> {0..<?n} \<subseteq> ?D"
    using streams_cover [OF assms(3,4)] by simp
  moreover have "0 \<le> v" if "v \<in> ?D" for v using that by (auto simp: drawn_def)
  ultimately have "validateLayout l = Ok True \<and> validateEncoderLayout l = Ok True \<longleftrightarrow>
      ?n \<le> 255 \<and> (\<forall>v \<in> ?D. 0 \<le> v \<and> (v < ?n \<or> v = 255)) \<and> {0..<?n} \<subseteq> ?D" by blast
  then show ?thesis unfolding range_less_255 .
qed

definition stereo_and_mono :: channelLayout where
  "stereo_and_mono = \<lparr>nbChannels = 4, nbStreams = 2, nbCoupledStreams = 1, mapping = [2, 0, 255, 1]\<rparr>"

theorem layout_is_onto_witness:
  "validateLayout stereo_and_mono = Ok True \<and> validateEncoderLayout stereo_and_mono = Ok True \<longleftrightarrow>
    nbStreams stereo_and_mono + nbCoupledStreams stereo_and_mono \<le> 255 \<and>
    drawn stereo_and_mono - {255} = {0..<nbStreams stereo_and_mono + nbCoupledStreams stereo_and_mono}"
  by (rule layout_is_onto) (simp_all add: stereo_and_mono_def)

text \<open>
  A search returns the first channel after \<open>prev\<close> that draws the stream's channel, never \<open>prev\<close> itself, and \<open>-1\<close> where
  there is none.
\<close>

theorem next_channel:
  assumes "nbChannels l \<le> len (mapping l)" "- 1 \<le> prev"
  shows "\<exists>r. getLeftChannel l s prev = Ok r \<and> first_drawing l (s * 2) (prev + 1) r"
proof -
  have "(if 0 \<le> prev then prev + 1 else 0) = prev + 1" using assms(2) by auto
  then show ?thesis using find_channel_spec [of "prev + 1" l "s * 2"] assms by (simp add: getLeftChannel_def)
qed

end
