(* ===== verification/Spec2Isabelle.thy ===== *)
theory Spec2Isabelle
  imports Parse_Props Repack_Props Celt_Frame Cwrs_Props Ogg_Decoder_Props Silk_Pulses_Props Silk_Lpc_Props Opusenc_Dtx Opusenc_Layout
begin

text \<open>
  A verification library for go-opus, a pure Go port of the Opus codec (fixed point, bit-exact with libopus) with an Ogg
  container.

  \<^bold>\<open>The program.\<close>  An Opus packet is a table-of-contents byte, frame lengths and frames (\<^verbatim>\<open>internal/packet\<close>).  A frame is
  the output of one range coder (\<^verbatim>\<open>internal/rangecoding\<close>), which the CELT and SILK codecs (\<^verbatim>\<open>internal/celt\<close>,
  \<^verbatim>\<open>internal/silk\<close>) share; they compute with the macros of \<^verbatim>\<open>internal/fixedmath\<close> and \<^verbatim>\<open>internal/silkmath\<close>.  The frame
  encoder and decoder (\<^verbatim>\<open>internal/opusenc\<close>, \<^verbatim>\<open>internal/opusdec\<close>) drive the codecs behind the public package \<^verbatim>\<open>opus\<close>.
  \<^verbatim>\<open>oggopus\<close> puts packets into Ogg pages and back, and turns PCM into files and files into PCM through \<^verbatim>\<open>opus\<close>.

  \<^bold>\<open>Conventions.\<close>  \<open>Prelude\<close>: a Go call that may fail or panic returns \<open>Ok\<close>, \<open>Err\<close> or \<open>Panic\<close>; slices are lists, and every
  index and every re-slice is checked by \<open>idx\<close>, \<open>upd\<close>, \<open>slice\<close> and \<open>slice_from\<close>, whose failures are panics.
  \<^verbatim>\<open>int8\<close> to \<^verbatim>\<open>uint64\<close> are words of their width, Go's \<^verbatim>\<open>int\<close> is \<open>int\<close>; structs are records with the fields of the code, and a
  method that writes through its receiver returns the new record.  \<open>sat m E Q\<close> says that a call does not panic, that its value
  satisfies \<open>Q\<close> and its error \<open>E\<close>; its rewrite rules turn a translated function into verification conditions.  \<open>Go_Loops\<close> adds
  the counting loops \<open>for_up\<close> and \<open>for_down\<close> with one rule each for a loop invariant.

  \<^bold>\<open>Packets.\<close>
  \<^item> \<open>Toc\<close> (\<^verbatim>\<open>toc.go\<close>): the accessors of the first byte against the table of RFC 6716.
  \<^item> \<open>Parse\<close> (\<^verbatim>\<open>sizes.go\<close>, \<^verbatim>\<open>parse.go\<close>): the parser state and each of its methods, both framings, the variant that fills
    slots of the caller, and the counters.  \<open>Parse_Props\<close>: no input makes it panic, what it returns is well framed, the two
    variants and the counters agree.
  \<^item> \<open>Repacketizer\<close> (\<^verbatim>\<open>repacketizer.go\<close>).  \<open>Repack_Props\<close> states the wire format as a function of the frames; the writers
    produce it, the parser reads it back, so regrouping and padding keep the frames.

  \<^bold>\<open>The range coder.\<close>
  \<^item> \<open>RangeCoder\<close> (\<^verbatim>\<open>entcode.go\<close>, \<^verbatim>\<open>entenc.go\<close>, \<^verbatim>\<open>entdec.go\<close>): both contexts as records, every method.
  \<^item> \<open>RC_Base\<close> to \<open>RC_Done\<close>: the encoder's registers, pending carries and bytes denote an exact interval (\<open>enc_rel\<close>), the decoder
    is at an exact position of the stream it reads (\<open>dec_rel\<close>); each pair of symbol calls keeps both, and \<open>EncDone\<close> leaves a stream
    inside the interval with the raw bits at its end.
  \<^item> \<open>RC_Session\<close>: the locale \<open>code\<close> is the contract of a pair of calls (the second undoes the first) and proves once that any
    session over them comes back.  It is interpreted for the six kinds of symbol call of the coder, in \<open>Laplace_Props\<close> for the Laplace coder and in
    \<open>Cwrs_Props\<close> for pulse vectors.
  \<^item> \<open>RC_Safety\<close>: the decoder's symbol calls on arbitrary bytes, the end of the renormalisation loops, the shift variants.
    \<^verbatim>\<open>EncPatchInitialBits\<close>, \<^verbatim>\<open>EncShrink\<close> and \<^verbatim>\<open>ShrinkStorage\<close> are modelled, but no theorem is about them.
  \<^item> \<open>RC_Sync\<close>: the locale \<open>coding\<close> for code that looks at the position of the coder to decide what to code next; it is interpreted
    for the two relations between encoders that the energy coder needs.

  \<^bold>\<open>CELT.\<close>
  \<^item> \<open>Fixedmath\<close> (\<^verbatim>\<open>fixed_generic.go\<close>, \<^verbatim>\<open>mathops.go\<close>), with \<open>Fixedmath_Props\<close>: the macros as integer operations, the square root.
  \<^item> \<open>Laplace\<close> (\<^verbatim>\<open>laplace.go\<close>) and \<open>Laplace_Props\<close>: the slot search finds the slot that was encoded.
  \<^item> \<open>Cwrs\<close> (\<^verbatim>\<open>cwrs.go\<close>, \<^verbatim>\<open>cwrs_tables.go\<close>); \<open>Pvq_Table\<close>: every entry of the table is the number \<open>U(N,K)\<close>; \<open>Pvq_Decode\<close> and
    \<open>Cwrs_Props\<close>: index and pulse vector are in bijection on the whole codebook.
  \<^item> \<open>Quant_Bands\<close> (\<^verbatim>\<open>quant_bands.go\<close>, both directions).  \<open>Quant_Sync\<close>, \<open>Quant_Two\<close>, \<open>Quant_Fine\<close> and \<open>Quant_Props\<close>: coarse
    energies with their two passes over a shared buffer, fine energies and last bits; each stage keeps the two sides in step.
  \<^item> \<open>Celt_Frame\<close> (\<^verbatim>\<open>celt_encoder_encode.go\<close>, \<^verbatim>\<open>celt_decoder.go\<close>): the start and the end of a frame (mono rows, the log history,
    the bands outside the coded range), and frames in sequence: both sides hold the same history after every frame.  The functions
    \<open>enc_frame\<close> and \<open>dec_frame\<close> are the energy calls of a frame in the order of the code; every other symbol of the frame is a
    parameter, and so is what both sides compute from the symbols (block size, transient flag, bit allocation).  Not part of it: frames
    at a variable bit rate (\<^verbatim>\<open>EncShrink\<close> between the coarse and the fine energies), silent frames, lost frames, and a change of the
    number of channels between frames.

  \<^bold>\<open>SILK.\<close>
  \<^item> \<open>Silkmath\<close> (\<^verbatim>\<open>macros.go\<close>, \<^verbatim>\<open>inlines.go\<close>) and \<open>Silkmath_Props\<close>: which macros are exact, which saturate, and that the two
    divisions return for every positive divisor.
  \<^item> \<open>Silk_Tables\<close> (\<^verbatim>\<open>tables_gen.go\<close>): the tables the decoder reads, entry by entry.
  \<^item> \<open>Silk_Pulses\<close> (\<^verbatim>\<open>decode_pulses.go\<close>, \<^verbatim>\<open>shell_coder.go\<close>, \<^verbatim>\<open>code_signs.go\<close>) and \<open>Silk_Pulses_Props\<close>: the excitation of any
    stream is decoded without a panic and fits in 15 bits.
  \<^item> \<open>Silk_Nlsf\<close> (\<^verbatim>\<open>nlsf_decode.go\<close>, \<^verbatim>\<open>sort.go\<close>) and \<open>Silk_Nlsf_Props\<close>: every path of a codebook gives line spectral frequencies
    with the minimum distances, whichever exit the stabiliser takes.
  \<^item> \<open>Silk_Lpc\<close> (\<^verbatim>\<open>nlsf2a.go\<close>, \<^verbatim>\<open>lpc_analysis.go\<close>, \<^verbatim>\<open>lpc_analysis_filter.go\<close>, \<^verbatim>\<open>bwexpander.go\<close>) and \<open>Silk_Lpc_Props\<close>: such
    frequencies give a filter that passes the stability test.

  \<^bold>\<open>The frame encoder.\<close>  \<open>Opusenc_Dtx\<close> (\<^verbatim>\<open>dtx.go\<close> and the decision in \<^verbatim>\<open>encode.go\<close>): the silence counter as a function and as an
  inductive step relation, its invariant and its progress, and the energy of a frame.  \<open>Opusenc_Layout\<close> (\<^verbatim>\<open>ms_layout.go\<close>): which
  channel mappings a multistream encoder accepts.

  \<^bold>\<open>The container.\<close>
  \<^item> \<open>Ogg_Crc\<close> (\<^verbatim>\<open>crc.go\<close>), \<open>Ogg_Page\<close> (\<^verbatim>\<open>page.go\<close>), \<open>Ogg_Header\<close> (\<^verbatim>\<open>header.go\<close>), each with its \<open>_Props\<close>: the checksum is a
    polynomial division, the parser accepts exactly what the writer assembles, and hostile pages and headers are refused safely.
  \<^item> \<open>Ogg_Writer\<close> (\<^verbatim>\<open>writer.go\<close>), \<open>Ogg_Reader\<close> (\<^verbatim>\<open>reader.go\<close>).  \<open>Ogg_Stream\<close> is the specification between them, a list of pages
    with flags, sequence numbers and granules; \<open>Ogg_Stream_Props\<close>: the writer emits one, the reader returns its packets.
  \<^item> \<open>Ogg_Encoder\<close> (\<^verbatim>\<open>config.go\<close>, \<^verbatim>\<open>codec.go\<close>, \<^verbatim>\<open>encoder.go\<close>) and \<open>Ogg_Decoder\<close> (\<^verbatim>\<open>codec.go\<close>, \<^verbatim>\<open>decoder.go\<close>,
    \<^verbatim>\<open>decode_oneshot.go\<close>), with their \<open>_Props\<close>: whatever the chunks of the source, the file decodes to exactly its length.
    The sink is not nil, and a failing write reports how many bytes it took; the output gain of an identification header is carried to
    \<^verbatim>\<open>Info\<close> and, as in the code, applied nowhere.

  \<^bold>\<open>Parameters and hypotheses.\<close>  The codec behind the seam of \<^verbatim>\<open>oggopus\<close> is a record of functions.  \<open>codec_ok\<close> states what the
  encoder relies on, a packet of bounded length for every full frame; the decoder's counterpart is that a packet decodes to the samples
  its table of contents announces.  Writers and readers of the standard library are parameters in the same way, \<open>appends\<close> being a writer
  that does not fail.  The contributions of the other symbols of a CELT frame are parameters of the energy theorem.

  \<^bold>\<open>Bounds and fuel.\<close>  Loops whose end depends on the data are recursive functions with a measure where the code bounds them.  The others
  have fuel, and the proofs show that it is not used up: four rounds for the renormalisation of the range coder (a nonzero range needs at
  most three; a zero range, which the code never leaves, is \<open>Panic\<close>), 8193 for the
  Laplace search (each turn moves at least four of 32768 positions on; property \<open>laplace_decoder_total\<close>), eleven for the escape codes of the SILK pulse counts (the tenth table has no escape).  Counts that the code itself
  fixes are kept: 20 turns of the frequency stabiliser with its fallback, 10 of the fit to 16 bits, 16 bandwidth expansions, the last of which
  has the chirp 0.  The hypotheses \<open>2 ^ 39\<close> and \<open>2 ^ 40\<close> on the length of a source keep 64-bit granules from wrapping.

  \<^bold>\<open>Not modelled.\<close>  The signal processing whose specification is bit-exactness with libopus and nothing shorter: transforms, pitch and band
  shapes of CELT, analysis, synthesis, concealment and resampling of SILK, rate control and mode decisions of the frame encoder; the encoder
  side of SILK; seeking (\<^verbatim>\<open>seek.go\<close>), the WAV front ends and commands, tests and tools.  The manifest lists each with its reason.
\<close>

end
